(* ===== verification/Prelude.thy ===== *)
theory Prelude
  imports Main "HOL-Library.Word"
begin

text \<open>
  Shared vocabulary of the development: the machine integers of the Go code, the explicit
  wrap-around of its signed 64-bit arithmetic, Go's truncating division, big-endian integer
  codecs (\<open>encoding/binary\<close>), and generic lemmas on lists and maps that several components use.

  Go's \<open>uint8\<close>, \<open>uint16\<close>, \<open>uint32\<close> and \<open>uint64\<close> are words of that width, so that \<open>+\<close>, \<open>-\<close> and \<open>*\<close>
  wrap around as they do in Go. Go's \<open>int64\<close> values (satoshi amounts, balance deltas) are \<open>int\<close>s,
  with the wrap-around of each arithmetic operation written out by \<open>i64\<close>.
\<close>

unbundle bit_operations_syntax

type_synonym u8 = "8 word"
type_synonym u16 = "16 word"
type_synonym u32 = "32 word"
type_synonym u64 = "64 word"
type_synonym byte = "8 word"

named_theorems uint_simps "facts that move 64-bit words to nat"

section \<open>Signed 64-bit arithmetic\<close>

text \<open>\<open>i64 x\<close> is the value an \<open>int64\<close> holds after an operation whose exact result is \<open>x\<close>.\<close>

definition i64 :: "int \<Rightarrow> int" where
  "i64 x = sint (word_of_int x :: u64)"

text \<open>The conversions \<open>uint64(x)\<close> of an \<open>int64\<close> and \<open>int64(w)\<close> of a \<open>uint64\<close>.\<close>

definition u64_of_i64 :: "int \<Rightarrow> u64" where
  "u64_of_i64 x = word_of_int x"

definition i64_of_u64 :: "u64 \<Rightarrow> int" where
  "i64_of_u64 w = sint w"

text \<open>Go's integer division truncates toward zero.\<close>

definition quot :: "int \<Rightarrow> int \<Rightarrow> int" where
  "quot a b = sgn a * sgn b * (\<bar>a\<bar> div \<bar>b\<bar>)"

lemma i64_id: "- (2 ^ 63) \<le> x \<Longrightarrow> x < 2 ^ 63 \<Longrightarrow> i64 x = x"
  by (simp add: i64_def signed_take_bit_int_eq_self sint_sbintrunc')

lemma i64_range: "- (2 ^ 63) \<le> i64 x \<and> i64 x < 2 ^ 63"
  unfolding i64_def using sint_ge [of "word_of_int x :: u64"] sint_lt [of "word_of_int x :: u64"]
  by simp

lemma u64_of_i64_i64 [simp]: "u64_of_i64 (i64 x) = u64_of_i64 x"
  by (simp add: u64_of_i64_def i64_def)

lemma i64_of_u64_of_i64 [simp]: "i64_of_u64 (u64_of_i64 x) = i64 x"
  by (simp add: u64_of_i64_def i64_def i64_of_u64_def)

lemma u64_of_i64_of_u64 [simp]: "u64_of_i64 (i64_of_u64 w) = w"
  by (simp add: u64_of_i64_def i64_of_u64_def)

lemma u64_of_i64_add: "u64_of_i64 (x + y) = u64_of_i64 x + u64_of_i64 y"
  by (simp add: u64_of_i64_def)

lemma u64_of_i64_diff: "u64_of_i64 (x - y) = u64_of_i64 x - u64_of_i64 y"
  by (simp add: u64_of_i64_def)

lemma u64_of_i64_minus: "u64_of_i64 (- x) = - u64_of_i64 x"
  by (simp add: u64_of_i64_def)

lemma u64_of_i64_0 [simp]: "u64_of_i64 0 = 0"
  by (simp add: u64_of_i64_def)

lemma quot_nonneg: "0 \<le> a \<Longrightarrow> 0 < b \<Longrightarrow> quot a b = a div b"
  by (cases "a = 0") (auto simp: quot_def)

section \<open>Unsigned words as naturals\<close>

lemma unat_lt_2p64 [simp]: "unat (x :: u64) < 18446744073709551616"
proof -
  have "unat x < 2 ^ LENGTH(64)" by (rule unsigned_less)
  then show ?thesis by simp
qed

lemma word_le_unat [uint_simps]: "(x :: u64) \<le> y \<longleftrightarrow> unat x \<le> unat y"
  by (rule word_le_nat_alt)

lemma word_less_unat [uint_simps]: "(x :: u64) < y \<longleftrightarrow> unat x < unat y"
  by (rule word_less_nat_alt)

lemma word_eq_unat: "(x :: u64) = y \<longleftrightarrow> unat x = unat y"
  by (rule word_unat_eq_iff)

lemma unat_Suc_if: "unat (x + 1 :: u64) = (if unat x + 1 = 2 ^ 64 then 0 else unat x + 1)"
proof (cases "x + 1 = 0")
  case True
  then have "x = -1" by (simp add: eq_neg_iff_add_eq_0)
  then show ?thesis by (simp add: unsigned_minus_1_eq_mask mask_eq_exp_minus_1)
next
  case False
  have "unat x + 1 \<noteq> 2 ^ 64"
  proof
    assume "unat x + 1 = 2 ^ 64"
    then have "of_nat (unat x + 1) = (of_nat (2 ^ 64) :: u64)" by simp
    then have "x + 1 = 0" by simp
    with False show False by simp
  qed
  with unatSuc [of x] False show ?thesis by (simp add: add.commute)
qed

lemma unat_max: "unat (max (x :: u64) y) = max (unat x) (unat y)"
  by (auto simp: max_def word_le_nat_alt)

lemma unat_min: "unat (min (x :: u64) y) = min (unat x) (unat y)"
  by (auto simp: min_def word_le_nat_alt)

section \<open>Big-endian codecs\<close>

text \<open>\<open>binary.BigEndian.PutUint64\<close> and \<open>binary.BigEndian.Uint64\<close>; \<open>binary.Write/Read\<close> of a \<open>uint64\<close>.\<close>

definition put_uint64 :: "u64 \<Rightarrow> byte list" where
  "put_uint64 x =
     [ucast (drop_bit 56 x), ucast (drop_bit 48 x), ucast (drop_bit 40 x), ucast (drop_bit 32 x),
      ucast (drop_bit 24 x), ucast (drop_bit 16 x), ucast (drop_bit 8 x), ucast x]"

fun be_value :: "u64 \<Rightarrow> byte list \<Rightarrow> u64" where
  "be_value acc [] = acc"
| "be_value acc (b # bs) = be_value (push_bit 8 acc OR ucast b) bs"

definition get_uint64 :: "byte list \<Rightarrow> u64" where
  "get_uint64 bs = be_value 0 (take 8 bs)"

lemma length_put_uint64 [simp]: "length (put_uint64 x) = 8"
  by (simp add: put_uint64_def)

lemma be_step: "push_bit 8 (drop_bit 8 y) OR ucast (ucast (y :: u64) :: byte) = y"
  by (rule bit_word_eqI) (auto simp: bit_simps)

lemma be_first: "drop_bit 8 y = 0 \<Longrightarrow> ucast (ucast (y :: u64) :: byte) = y"
  using be_step [of y] by simp

lemma be_shift: "drop_bit (n + 8) x = drop_bit 8 (drop_bit n (x :: u64))"
  by (simp add: add.commute)

lemma get_put_uint64 [simp]: "get_uint64 (put_uint64 x @ rest) = x"
proof -
  have "drop_bit 8 (drop_bit 56 x) = 0"
    by (rule bit_word_eqI) (auto simp: bit_simps)
  then have "be_value 0 (put_uint64 x) = x"
    using be_step [of "drop_bit 48 x"] be_step [of "drop_bit 40 x"] be_step [of "drop_bit 32 x"]
      be_step [of "drop_bit 24 x"] be_step [of "drop_bit 16 x"] be_step [of "drop_bit 8 x"]
      be_step [of x] be_first [of "drop_bit 56 x"]
    by (simp add: put_uint64_def)
  then show ?thesis by (simp add: get_uint64_def)
qed

lemma put_uint64_inj [simp]: "put_uint64 x = put_uint64 y \<longleftrightarrow> x = y"
  using get_put_uint64 [of x "[]"] get_put_uint64 [of y "[]"] by metis

section \<open>Lists and maps\<close>

lemma nth_in_set: "i < length xs \<Longrightarrow> xs ! i \<in> set xs"
  by simp

lemma filter_cong_set: "(\<And>x. x \<in> set xs \<Longrightarrow> P x = Q x) \<Longrightarrow> filter P xs = filter Q xs"
  by (rule filter_cong) auto

lemma sum_list_map_filter_split:
  fixes f :: "'a \<Rightarrow> 'b :: comm_monoid_add"
  shows "sum_list (map f xs) = sum_list (map f (filter P xs)) + sum_list (map f (filter (\<lambda>x. \<not> P x) xs))"
  by (induction xs) (auto simp: algebra_simps)

end
