(* ===== verification/Range_Index.thy ===== *)
theory Range_Index
  imports Prelude
begin

text \<open>
  \<open>watchtower/wtdb/range_index.go\<close>: the set of acknowledged commit heights of a watchtower
  client, kept as a sorted slice of disjoint, non-adjacent ranges and mirrored in a key-value
  store. The state of a \<open>RangeIndex\<close> is its slice \<open>set\<close>; the mutex is not modelled (each method
  holds it from start to end). Slice indices are \<open>nat\<close>, except the result of \<open>lowerBoundIndex\<close>,
  an \<open>int\<close> that is \<open>-1\<close> when there is no lower bound. The unbounded \<open>for\<close> loop of the binary
  search is a \<open>partial_function\<close>: \<open>None\<close> is a search that does not return, and that it does
  return on every well-formed index is a theorem. The key-value store is an interface of the
  source (\<open>KVStore\<close>): its two methods are arguments of the definitions and their documented
  laws are the locale \<open>kv_store\<close>.
\<close>

section \<open>Data\<close>

record range_item =
  ri_start :: u64
  ri_end :: u64

record array_changes =
  ac_start :: u64
  ac_end :: u64
  ac_newIndex :: "nat option"
  ac_indexToDelete :: "nat option"
  ac_indexToEdit :: "nat option"

record kv_changes =
  kvc_key :: u64
  kvc_value :: u64
  kvc_deleteKVKey :: "u64 option"

datatype ri_error = InvalidRange u64 u64 | SerializeFailed | KVFailed | SearchDiverged

definition item :: "u64 \<Rightarrow> u64 \<Rightarrow> range_item" where
  "item s e = \<lparr>ri_start = s, ri_end = e\<rparr>"

section \<open>Construction\<close>

text \<open>The loop of \<open>addRange\<close>: accumulators \<open>before\<close>, \<open>after\<close> and the growing range.\<close>

fun add_range_loop ::
  "range_item list \<Rightarrow> range_item list \<Rightarrow> u64 \<Rightarrow> u64 \<Rightarrow> range_item list
    \<Rightarrow> range_item list \<times> range_item list \<times> u64 \<times> u64" where
  "add_range_loop before after start end' [] = (before, after, start, end')"
| "add_range_loop before after start end' (x # xs) =
     (if ri_end x + 1 < start then add_range_loop (before @ [x]) after start end' xs
      else if end' + 1 < ri_start x then add_range_loop before (after @ [x]) start end' xs
      else add_range_loop before after (min start (ri_start x)) (max end' (ri_end x)) xs)"

definition addRange :: "range_item list \<Rightarrow> u64 \<Rightarrow> u64 \<Rightarrow> ri_error + range_item list" where
  "addRange s start end' =
     (if start > end' then Inl (InvalidRange start end')
      else case add_range_loop [] [] start end' s of
        (before, after, start', end'') \<Rightarrow> Inr ((before @ [item start' end'']) @ after))"

text \<open>
  \<open>NewRangeIndex\<close> ranges over a Go map; the list is the map's entries in the order Go happens
  to visit them.
\<close>

fun newRangeIndex_from :: "range_item list \<Rightarrow> (u64 \<times> u64) list \<Rightarrow> ri_error + range_item list" where
  "newRangeIndex_from s [] = Inr s"
| "newRangeIndex_from s ((a, b) # rs) =
     (case addRange s a b of Inl e \<Rightarrow> Inl e | Inr s' \<Rightarrow> newRangeIndex_from s' rs)"

definition newRangeIndex :: "(u64 \<times> u64) list \<Rightarrow> ri_error + range_item list" where
  "newRangeIndex ranges = newRangeIndex_from [] ranges"

section \<open>Queries\<close>

text \<open>One iteration of the search per call; \<open>Some (i, covered)\<close> is a \<open>return\<close>.\<close>

partial_function (option) lowerBound_search ::
  "range_item list \<Rightarrow> u64 \<Rightarrow> nat \<Rightarrow> nat \<Rightarrow> int \<Rightarrow> (int \<times> bool) option" where
  "lowerBound_search s n low high rangeIndex =
     (let mid = (low + high) div 2; currentRange = s ! mid in
      if ri_start currentRange > n then
        (if low = mid then Some (rangeIndex, False)
         else lowerBound_search s n low mid rangeIndex)
      else if ri_start currentRange < n then
        (if ri_end currentRange \<ge> n then Some (int mid, True)
         else if low = mid then
           (if mid + 1 > high then Some (int mid, False)
            else lowerBound_search s n (mid + 1) high (int mid))
         else lowerBound_search s n mid high (int mid))
      else Some (int mid, True))"

definition lowerBoundIndex :: "range_item list \<Rightarrow> u64 \<Rightarrow> (int \<times> bool) option" where
  "lowerBoundIndex s n =
     (if s = [] then Some (-1, False)
      else
        let lastIndex = length s - 1; lastRange = s ! lastIndex in
        if ri_start lastRange \<le> n then Some (int lastIndex, ri_end lastRange \<ge> n)
        else lowerBound_search s n 0 (length s - 1) (-1))"

definition isInIndex :: "range_item list \<Rightarrow> u64 \<Rightarrow> bool option" where
  "isInIndex s n = map_option snd (lowerBoundIndex s n)"

definition numInSet :: "range_item list \<Rightarrow> u64" where
  "numInSet s = foldl (\<lambda>numItems r. numItems + (ri_end r - ri_start r + 1)) 0 s"

definition MaxHeight :: "range_item list \<Rightarrow> u64" where
  "MaxHeight s = (if length s = 0 then 0 else ri_end (s ! (length s - 1)))"

definition getAllRanges :: "range_item list \<Rightarrow> (u64 \<rightharpoonup> u64)" where
  "getAllRanges s = foldl (\<lambda>cp r. cp(ri_start r \<mapsto> ri_end r)) Map.empty s"

section \<open>Updates\<close>

text \<open>
  \<open>getChanges\<close>: the pair of diffs; both are \<open>None\<close> (Go's \<open>nil, nil\<close>) when the number is covered
  already. The outer option is \<open>None\<close> when the search does not return.
\<close>

definition getChanges ::
  "range_item list \<Rightarrow> u64 \<Rightarrow> (array_changes option \<times> kv_changes option) option" where
  "getChanges s n =
     (if length s = 0 then
        Some (Some \<lparr>ac_start = n, ac_end = n, ac_newIndex = Some 0, ac_indexToDelete = None,
                    ac_indexToEdit = None\<rparr>,
              Some \<lparr>kvc_key = n, kvc_value = n, kvc_deleteKVKey = None\<rparr>)
      else case lowerBoundIndex s n of
        None \<Rightarrow> None
      | Some (indexOfRangeBelow, alreadyCovered) \<Rightarrow>
          if alreadyCovered then Some (None, None)
          else if indexOfRangeBelow < 0 then
            (if n + 1 = ri_start (s ! 0) then
               Some (Some \<lparr>ac_start = n, ac_end = ri_end (s ! 0), ac_newIndex = None,
                           ac_indexToDelete = None, ac_indexToEdit = Some 0\<rparr>,
                     Some \<lparr>kvc_key = n, kvc_value = ri_end (s ! 0),
                           kvc_deleteKVKey = Some (ri_start (s ! 0))\<rparr>)
             else
               Some (Some \<lparr>ac_start = n, ac_end = n, ac_newIndex = Some 0,
                           ac_indexToDelete = None, ac_indexToEdit = None\<rparr>,
                     Some \<lparr>kvc_key = n, kvc_value = n, kvc_deleteKVKey = None\<rparr>))
          else let i = nat indexOfRangeBelow in
            if ri_end (s ! i) + 1 = n then
              (if i = length s - 1 \<or> ri_start (s ! (i + 1)) \<noteq> n + 1 then
                 Some (Some \<lparr>ac_start = ri_start (s ! i), ac_end = n, ac_newIndex = None,
                             ac_indexToDelete = None, ac_indexToEdit = Some i\<rparr>,
                       Some \<lparr>kvc_key = ri_start (s ! i), kvc_value = n,
                             kvc_deleteKVKey = None\<rparr>)
               else
                 Some (Some \<lparr>ac_start = ri_start (s ! i), ac_end = ri_end (s ! (i + 1)),
                             ac_newIndex = None, ac_indexToDelete = Some (i + 1),
                             ac_indexToEdit = Some i\<rparr>,
                       Some \<lparr>kvc_key = ri_start (s ! i), kvc_value = ri_end (s ! (i + 1)),
                             kvc_deleteKVKey = Some (ri_start (s ! (i + 1)))\<rparr>))
            else
              (if i + 1 = length s \<or> ri_start (s ! (i + 1)) \<noteq> n + 1 then
                 Some (Some \<lparr>ac_start = n, ac_end = n, ac_newIndex = Some (i + 1),
                             ac_indexToDelete = None, ac_indexToEdit = None\<rparr>,
                       Some \<lparr>kvc_key = n, kvc_value = n, kvc_deleteKVKey = None\<rparr>)
               else
                 Some (Some \<lparr>ac_start = n, ac_end = ri_end (s ! (i + 1)), ac_newIndex = None,
                             ac_indexToDelete = None, ac_indexToEdit = Some (i + 1)\<rparr>,
                       Some \<lparr>kvc_key = n, kvc_value = ri_end (s ! (i + 1)),
                             kvc_deleteKVKey = Some (ri_start (s ! (i + 1)))\<rparr>)))"

definition applyArrayChanges :: "range_item list \<Rightarrow> array_changes option \<Rightarrow> range_item list" where
  "applyArrayChanges s changes =
     (case changes of None \<Rightarrow> s
      | Some c \<Rightarrow>
          let s1 = (case ac_indexToDelete c of None \<Rightarrow> s
                    | Some d \<Rightarrow> take d s @ drop (d + 1) s) in
          (case ac_newIndex c of
             Some i \<Rightarrow>
               (if i = 0 then [item (ac_start c) (ac_end c)] @ s1
                else if i = length s1 then s1 @ [item (ac_start c) (ac_end c)]
                else (take (i + 1) s1 @ drop i s1)[i := item (ac_start c) (ac_end c)])
           | None \<Rightarrow>
               (case ac_indexToEdit c of None \<Rightarrow> s1
                | Some i \<Rightarrow> s1[i := item (ac_start c) (ac_end c)])))"

text \<open>
  \<open>applyKVChanges\<close> over a store given by its two methods; \<open>None\<close> as a store is Go's \<open>kv == nil\<close>,
  and a method that returns \<open>None\<close> is one that returned an error.
\<close>

definition applyKVChanges ::
  "(u64 \<Rightarrow> byte list option) \<Rightarrow> (byte list \<Rightarrow> byte list \<Rightarrow> 'kv \<Rightarrow> 'kv option)
    \<Rightarrow> (byte list \<Rightarrow> 'kv \<Rightarrow> 'kv option) \<Rightarrow> 'kv option \<Rightarrow> kv_changes option
    \<Rightarrow> ri_error + 'kv option" where
  "applyKVChanges ser put del kv changes =
     (case (kv, changes) of
        (Some k, Some c) \<Rightarrow>
          (case
             (case kvc_deleteKVKey c of None \<Rightarrow> Inr k
              | Some dk \<Rightarrow>
                  (case ser dk of None \<Rightarrow> Inl SerializeFailed
                   | Some d \<Rightarrow> (case del d k of None \<Rightarrow> Inl KVFailed | Some k' \<Rightarrow> Inr k'))) of
             Inl e \<Rightarrow> Inl e
           | Inr k1 \<Rightarrow>
               (case ser (kvc_key c) of None \<Rightarrow> Inl SerializeFailed
                | Some start \<Rightarrow>
                    (case ser (kvc_value c) of None \<Rightarrow> Inl SerializeFailed
                     | Some end' \<Rightarrow>
                         (case put start end' k1 of None \<Rightarrow> Inl KVFailed
                          | Some k2 \<Rightarrow> Inr (Some k2)))))
      | _ \<Rightarrow> Inr kv)"

text \<open>
  \<open>Add\<close>: the store first, the slice only when the store succeeded. The error case carries the
  slice as it was left.
\<close>

definition add ::
  "(u64 \<Rightarrow> byte list option) \<Rightarrow> (byte list \<Rightarrow> byte list \<Rightarrow> 'kv \<Rightarrow> 'kv option)
    \<Rightarrow> (byte list \<Rightarrow> 'kv \<Rightarrow> 'kv option) \<Rightarrow> range_item list \<Rightarrow> u64 \<Rightarrow> 'kv option
    \<Rightarrow> ri_error \<times> range_item list + range_item list \<times> 'kv option" where
  "add ser put del s newHeight kv =
     (case getChanges s newHeight of
        None \<Rightarrow> Inl (SearchDiverged, s)
      | Some (arrayChanges, kvStoreChanges) \<Rightarrow>
          (case applyKVChanges ser put del kv kvStoreChanges of
             Inl e \<Rightarrow> Inl (e, s)
           | Inr kv' \<Rightarrow> Inr (applyArrayChanges s arrayChanges, kv')))"

definition defaultSerializeUint64 :: "u64 \<Rightarrow> byte list option" where
  "defaultSerializeUint64 i = Some (put_uint64 i)"

section \<open>The abstract set and the invariant\<close>

definition ri_set :: "range_item list \<Rightarrow> u64 set" where
  "ri_set s = {n. \<exists>r \<in> set s. ri_start r \<le> n \<and> n \<le> ri_end r}"

definition ri_gap :: "range_item \<Rightarrow> range_item \<Rightarrow> bool" where
  "ri_gap a b \<longleftrightarrow> unat (ri_end a) + 1 < unat (ri_start b)"

definition ri_wf :: "range_item list \<Rightarrow> bool" where
  "ri_wf s \<longleftrightarrow> (\<forall>r \<in> set s. ri_start r \<le> ri_end r) \<and> sorted_wrt ri_gap s"

lemma item_sel [simp]: "ri_start (item a b) = a" "ri_end (item a b) = b"
  by (simp_all add: item_def)

lemma ri_set_simps [simp]:
  "ri_set [] = {}"
  "ri_set (r # s) = {ri_start r..ri_end r} \<union> ri_set s"
  "ri_set (s @ t) = ri_set s \<union> ri_set t"
  by (auto simp: ri_set_def)

lemma ri_wf_simps [simp]:
  "ri_wf []"
  "ri_wf (r # s) \<longleftrightarrow> ri_start r \<le> ri_end r \<and> (\<forall>x \<in> set s. ri_gap r x) \<and> ri_wf s"
  "ri_wf (s @ t) \<longleftrightarrow> ri_wf s \<and> ri_wf t \<and> (\<forall>x \<in> set s. \<forall>y \<in> set t. ri_gap x y)"
  by (auto simp: ri_wf_def sorted_wrt_append)

lemma ri_wf_nth_less:
  assumes "ri_wf s" "i < j" "j < length s"
  shows "unat (ri_end (s ! i)) + 1 < unat (ri_start (s ! j))"
  using assms sorted_wrt_nth_less [of ri_gap s i j] by (simp add: ri_wf_def ri_gap_def)

lemma ri_wf_nth_le: "ri_wf s \<Longrightarrow> i < length s \<Longrightarrow> unat (ri_start (s ! i)) \<le> unat (ri_end (s ! i))"
  by (simp add: ri_wf_def uint_simps)

lemma ri_wf_start_mono:
  assumes "ri_wf s" "i \<le> j" "j < length s"
  shows "unat (ri_start (s ! i)) \<le> unat (ri_start (s ! j))"
proof (cases "i = j")
  case False
  then show ?thesis
    using ri_wf_nth_less [of s i j] ri_wf_nth_le [of s i] assms by simp
qed simp

section \<open>The binary search\<close>

text \<open>What \<open>lowerBoundIndex\<close> promises for its result \<open>(i, covered)\<close>.\<close>

definition lb_spec :: "range_item list \<Rightarrow> u64 \<Rightarrow> int \<times> bool \<Rightarrow> bool" where
  "lb_spec s n res \<longleftrightarrow>
     (case res of (i, covered) \<Rightarrow>
        (if i < 0 then i = -1 \<and> \<not> covered \<and> (\<forall>j < length s. n < ri_start (s ! j))
         else nat i < length s \<and> ri_start (s ! nat i) \<le> n \<and>
              (covered \<longleftrightarrow> n \<le> ri_end (s ! nat i)) \<and>
              (\<forall>j. nat i < j \<and> j < length s \<longrightarrow> n < ri_start (s ! j))))"

definition search_inv :: "range_item list \<Rightarrow> u64 \<Rightarrow> nat \<Rightarrow> nat \<Rightarrow> int \<Rightarrow> bool" where
  "search_inv s n low high r \<longleftrightarrow>
     low \<le> high \<and> high < length s \<and> n < ri_start (s ! high) \<and>
     (if r < 0 then r = -1 \<and> low = 0
      else (low = nat r \<or> low = nat r + 1) \<and> nat r < length s \<and> ri_start (s ! nat r) < n
        \<and> ri_end (s ! nat r) < n)"

lemma search_step_high:
  assumes "ri_wf s" "search_inv s n low high r" "n < ri_start (s ! low)"
  shows "lb_spec s n (r, False)"
proof -
  have after: "n < ri_start (s ! j)" if "low \<le> j" "j < length s" for j
    using ri_wf_start_mono [OF assms(1) that] assms(3) by (simp add: uint_simps)
  show ?thesis
  proof (cases "r < 0")
    case True
    with assms(2) after show ?thesis by (auto simp: lb_spec_def search_inv_def)
  next
    case False
    have "low \<noteq> nat r" using assms(2,3) False by (auto simp: search_inv_def)
    with False assms(2) after show ?thesis
      by (auto simp: lb_spec_def search_inv_def)
  qed
qed

lemma lb_spec_hit:
  assumes "ri_wf s" "mid < length s" "ri_start (s ! mid) \<le> n" "n \<le> ri_end (s ! mid)"
  shows "lb_spec s n (int mid, True)"
  using assms ri_wf_nth_less [OF assms(1), of mid] by (auto simp: lb_spec_def uint_simps) force

lemma lowerBound_search_total:
  assumes "ri_wf s" "search_inv s n low high r"
  shows "\<exists>res. lowerBound_search s n low high r = Some res \<and> lb_spec s n res"
  using assms(2)
proof (induction "high - low" arbitrary: low high r rule: less_induct)
  case less
  define mid where "mid = (low + high) div 2"
  have inv: "low \<le> high" "high < length s" "n < ri_start (s ! high)"
    using less.prems by (auto simp: search_inv_def)
  then have mid: "low \<le> mid" "mid \<le> high" "low < high \<Longrightarrow> mid < high" "mid < length s"
    by (auto simp: mid_def)
  have unfold: "lowerBound_search s n low high r =
      (if ri_start (s ! mid) > n then
        (if low = mid then Some (r, False) else lowerBound_search s n low mid r)
      else if ri_start (s ! mid) < n then
        (if ri_end (s ! mid) \<ge> n then Some (int mid, True)
         else if low = mid then
           (if mid + 1 > high then Some (int mid, False)
            else lowerBound_search s n (mid + 1) high (int mid))
         else lowerBound_search s n mid high (int mid))
      else Some (int mid, True))"
    by (subst lowerBound_search.simps) (simp add: Let_def mid_def)
  consider (gt_eq) "ri_start (s ! mid) > n" "low = mid" | (gt) "ri_start (s ! mid) > n" "low \<noteq> mid"
    | (hit) "ri_start (s ! mid) \<le> n" "n \<le> ri_end (s ! mid)"
    | (lt) "ri_start (s ! mid) < n" "ri_end (s ! mid) < n"
    using ri_wf_nth_le [OF assms(1) mid(4)] by (auto simp: uint_simps) linarith
  then show ?case
  proof cases
    case gt_eq
    then show ?thesis using unfold search_step_high [OF assms(1) less.prems] by simp
  next
    case gt
    have "search_inv s n low mid r"
      using less.prems gt mid by (auto simp: search_inv_def)
    moreover have "mid - low < high - low" using gt mid by auto
    ultimately show ?thesis using less.hyps gt unfold by simp
  next
    case hit
    then show ?thesis using unfold lb_spec_hit [OF assms(1) mid(4)] by auto
  next
    case lt
    have "mid \<noteq> high" using lt inv(3) by auto
    then have lt_high: "mid < high" using mid by simp
    show ?thesis
    proof (cases "low = mid")
      case True
      have "search_inv s n (mid + 1) high (int mid)"
        using lt_high lt inv mid by (auto simp: search_inv_def)
      moreover have "high - (mid + 1) < high - low" using True lt_high by auto
      ultimately show ?thesis using less.hyps True lt unfold lt_high by auto
    next
      case False
      have "search_inv s n mid high (int mid)"
        using lt_high lt inv mid by (auto simp: search_inv_def)
      moreover have "high - mid < high - low" using False mid by auto
      ultimately show ?thesis using less.hyps False lt unfold by auto
    qed
  qed
qed

lemma lowerBoundIndex_spec:
  assumes "ri_wf s"
  shows "\<exists>res. lowerBoundIndex s n = Some res \<and> lb_spec s n res"
proof (cases "s = []")
  case False
  let ?l = "length s - 1"
  show ?thesis
  proof (cases "ri_start (s ! ?l) \<le> n")
    case True
    with False show ?thesis
      by (auto simp: lowerBoundIndex_def lb_spec_def Let_def nat_diff_distrib)
  next
    case False
    with \<open>s \<noteq> []\<close> have "search_inv s n 0 ?l (-1)" by (simp add: search_inv_def)
    with \<open>s \<noteq> []\<close> False show ?thesis
      using lowerBound_search_total [OF assms] by (auto simp: lowerBoundIndex_def Let_def)
  qed
qed (simp add: lowerBoundIndex_def lb_spec_def)

text \<open>A result of the search splits the slice at the number.\<close>

definition split_at :: "range_item list \<Rightarrow> u64 \<Rightarrow> range_item list \<Rightarrow> range_item list \<Rightarrow> bool" where
  "split_at s n xs ys \<longleftrightarrow> s = xs @ ys \<and> (\<forall>r \<in> set xs. ri_end r < n) \<and> (\<forall>r \<in> set ys. n < ri_start r)"

lemma lb_spec_uncovered:
  assumes "ri_wf s" "lb_spec s n (i, False)"
  shows "split_at s n (take (nat (i + 1)) s) (drop (nat (i + 1)) s)"
proof (cases "i < 0")
  case True
  with assms(2) show ?thesis by (auto simp: lb_spec_def split_at_def in_set_conv_nth)
next
  case False
  then have i: "nat i < length s" "ri_end (s ! nat i) < n" "nat (i + 1) = nat i + 1"
    and above: "\<And>j. nat i < j \<Longrightarrow> j < length s \<Longrightarrow> n < ri_start (s ! j)"
    using assms(2) by (auto simp: lb_spec_def)
  have "ri_end (s ! j) < n" if "j < nat i + 1" for j
  proof (cases "j = nat i")
    case False
    with that have "j < nat i" by simp
    with ri_wf_nth_less [OF assms(1) this i(1)] ri_wf_nth_le [OF assms(1) i(1)] i(2)
    show ?thesis by (simp add: uint_simps)
  qed (use i in simp)
  then show ?thesis using i above by (auto simp: split_at_def in_set_conv_nth)
qed

text \<open>The diff as a function of the two halves: what inserting \<open>n\<close> between them does.\<close>

definition insert_between :: "u64 \<Rightarrow> range_item list \<Rightarrow> range_item list \<Rightarrow> range_item list" where
  "insert_between n xs ys =
     (if xs \<noteq> [] \<and> ri_end (last xs) + 1 = n then
        (if ys = [] \<or> ri_start (hd ys) \<noteq> n + 1
         then butlast xs @ item (ri_start (last xs)) n # ys
         else butlast xs @ item (ri_start (last xs)) (ri_end (hd ys)) # tl ys)
      else
        (if ys = [] \<or> ri_start (hd ys) \<noteq> n + 1 then xs @ item n n # ys
         else xs @ item n (ri_end (hd ys)) # tl ys))"

definition kv_between :: "u64 \<Rightarrow> range_item list \<Rightarrow> range_item list \<Rightarrow> kv_changes" where
  "kv_between n xs ys =
     (let low = (if xs \<noteq> [] \<and> ri_end (last xs) + 1 = n then ri_start (last xs) else n) in
      if ys = [] \<or> ri_start (hd ys) \<noteq> n + 1
      then \<lparr>kvc_key = low, kvc_value = n, kvc_deleteKVKey = None\<rparr>
      else \<lparr>kvc_key = low, kvc_value = ri_end (hd ys), kvc_deleteKVKey = Some (ri_start (hd ys))\<rparr>)"

lemma getChanges_split:
  assumes "lowerBoundIndex s n = Some (i, False)" "lb_spec s n (i, False)"
    and "xs = take (nat (i + 1)) s" "ys = drop (nat (i + 1)) s"
  shows "\<exists>ac. getChanges s n = Some (Some ac, Some (kv_between n xs ys)) \<and>
              applyArrayChanges s (Some ac) = insert_between n xs ys"
proof (cases "s = []")
  case True
  with assms show ?thesis
    by (auto simp: getChanges_def applyArrayChanges_def insert_between_def kv_between_def Let_def)
next
  case nonempty: False
  show ?thesis
  proof (cases "i < 0")
    case True
    then have "i = -1" using assms(2) by (simp add: lb_spec_def)
    with assms nonempty show ?thesis
      by (cases s) (auto simp: getChanges_def applyArrayChanges_def insert_between_def
          kv_between_def Let_def)
  next
    case False
    define k where "k = nat i"
    have k: "i = int k" "k < length s" using assms(2) False by (auto simp: lb_spec_def k_def)
    define us a where "us = take k s" and "a = s ! k"
    have s: "s = us @ a # ys" and us: "length us = k" and xs: "xs = us @ [a]"
      using k assms(3,4) id_take_nth_drop [of k s]
      by (auto simp: us_def a_def take_Suc_conv_app_nth nat_add_distrib)
    show ?thesis
    proof (cases ys)
      case Nil
      then show ?thesis using assms(1) k us
        by (auto simp: getChanges_def applyArrayChanges_def insert_between_def kv_between_def
            Let_def s xs nth_append)
    next
      case (Cons b ys')
      then show ?thesis using assms(1) k us
        by (auto simp: getChanges_def applyArrayChanges_def insert_between_def kv_between_def
            Let_def s xs nth_append list_update_append)
    qed
  qed
qed

lemma interval_extend_right:
  "(a :: u64) \<le> b \<Longrightarrow> b < n \<Longrightarrow> b + 1 = n \<Longrightarrow> {a..n} = insert n {a..b}"
  by (auto simp: uint_simps word_eq_unat unat_Suc_if split: if_splits)

lemma interval_extend_left:
  "(n :: u64) < m \<Longrightarrow> m = n + 1 \<Longrightarrow> m \<le> b \<Longrightarrow> {n..b} = insert n {m..b}"
  by (auto simp: uint_simps word_eq_unat unat_Suc_if split: if_splits)

lemma interval_join:
  assumes "(a :: u64) \<le> b" "b < n" "b + 1 = n" "n < m" "m = n + 1" "m \<le> c"
  shows "{a..c} = insert n ({a..b} \<union> {m..c})"
proof -
  have "{a..c} = {a..n} \<union> {n..c}" using assms by auto
  then show ?thesis
    using interval_extend_right [of a b n] interval_extend_left [of n m c] assms by auto
qed

lemma interval_single: "{n..n :: u64} = {n}"
  by auto

lemma unat_plus1_less: "(b :: u64) < n \<Longrightarrow> unat (b + 1) = unat b + 1"
  using unat_lt_2p64 [of n] by (auto simp: uint_simps unat_Suc_if simp del: unat_lt_2p64)

lemma insert_between_set:
  assumes "ri_wf s" "split_at s n xs ys"
  shows "ri_set (insert_between n xs ys) = insert n (ri_set s)"
proof -
  have s: "s = xs @ ys" and xs: "\<forall>r \<in> set xs. ri_end r < n" and ys: "\<forall>r \<in> set ys. n < ri_start r"
    using assms(2) by (auto simp: split_at_def)
  show ?thesis
    using assms(1) xs ys unfolding s
    by (cases xs rule: rev_cases; cases ys)
      (auto simp: insert_between_def interval_extend_right interval_extend_left interval_join
        interval_single simp del: atLeastAtMost_iff)
qed

lemma insert_between_wf:
  assumes "ri_wf s" "split_at s n xs ys"
  shows "ri_wf (insert_between n xs ys)"
proof -
  have s: "s = xs @ ys" and xs: "\<forall>r \<in> set xs. ri_end r < n" and ys: "\<forall>r \<in> set ys. n < ri_start r"
    using assms(2) by (auto simp: split_at_def)
  have below: "unat (ri_end r) + 1 < unat n" if "r \<in> set xs" "ri_end r + 1 \<noteq> n" for r
    using that xs unat_plus1_less [of "ri_end r" n] by (auto simp: uint_simps word_eq_unat)
  have above: "unat n + 1 < unat (ri_start r)" if "r \<in> set ys" "ri_start r \<noteq> n + 1" for r
    using that ys unat_plus1_less [of n "ri_start r"] by (auto simp: uint_simps word_eq_unat)
  have tl_above: "unat n + 1 < unat (ri_start r)" if "ys = b # ys'" "r \<in> set ys'" for r b ys'
    using that assms(1) s ys by (fastforce simp: ri_gap_def uint_simps)
  have bl_below: "unat (ri_end r) + 1 < unat n" if "xs = us @ [a]" "r \<in> set us" for r a us
    using that assms(1) s xs by (fastforce simp: ri_gap_def uint_simps)
  show ?thesis
    using assms(1) xs ys below above tl_above bl_below unfolding s
    by (cases xs rule: rev_cases; cases ys) (auto simp: insert_between_def ri_gap_def uint_simps)
qed

section \<open>Adding a number\<close>

lemma getChanges_total:
  assumes "ri_wf s"
  shows "\<exists>ac kvc. getChanges s n = Some (ac, kvc) \<and> ri_wf (applyArrayChanges s ac) \<and>
           ri_set (applyArrayChanges s ac) = insert n (ri_set s)"
proof -
  obtain i c where lb: "lowerBoundIndex s n = Some (i, c)" "lb_spec s n (i, c)"
    using lowerBoundIndex_spec [OF assms] by force
  show ?thesis
  proof (cases c)
    case True
    then have "n \<in> ri_set s" "s \<noteq> []"
      using lb(2) by (auto simp: lb_spec_def ri_set_def split: if_splits)
    then show ?thesis using lb(1) True assms
      by (auto simp: getChanges_def applyArrayChanges_def)
  next
    case False
    let ?xs = "take (nat (i + 1)) s" and ?ys = "drop (nat (i + 1)) s"
    have split: "split_at s n ?xs ?ys" using lb_spec_uncovered assms lb False by simp
    obtain ac where "getChanges s n = Some (Some ac, Some (kv_between n ?xs ?ys))"
      and "applyArrayChanges s (Some ac) = insert_between n ?xs ?ys"
      using getChanges_split [OF _ _ refl refl, of s n i] lb False by auto
    then show ?thesis
      using insert_between_set insert_between_wf assms split by auto
  qed
qed

section \<open>The key-value store\<close>

text \<open>The documented laws of \<open>KVStore\<close> (\<open>Put\<close> adds or overwrites, \<open>Delete\<close> of a missing key is no error).\<close>

locale kv_store =
  fixes get :: "'kv \<Rightarrow> byte list \<Rightarrow> byte list option"
    and put :: "byte list \<Rightarrow> byte list \<Rightarrow> 'kv \<Rightarrow> 'kv option"
    and del :: "byte list \<Rightarrow> 'kv \<Rightarrow> 'kv option"
  assumes put_get: "put k v kv = Some kv' \<Longrightarrow> get kv' = (get kv)(k \<mapsto> v)"
    and del_get: "del k kv = Some kv' \<Longrightarrow> get kv' = (get kv)(k := None)"

locale range_store = kv_store get put del
  for get :: "'kv \<Rightarrow> byte list \<Rightarrow> byte list option" and put and del +
  fixes ser :: "u64 \<Rightarrow> byte list option" and enc :: "u64 \<Rightarrow> byte list"
  assumes ser_enc: "ser x = Some (enc x)"
    and enc_inj: "enc x = enc y \<Longrightarrow> x = y"

text \<open>The store's image of a slice: each range's encoded start maps to its encoded end.\<close>

definition kv_image :: "(u64 \<Rightarrow> byte list) \<Rightarrow> range_item list \<Rightarrow> byte list \<Rightarrow> byte list option" where
  "kv_image enc s = map_of (map (\<lambda>r. (enc (ri_start r), enc (ri_end r))) s)"

lemma map_of_middle:
  assumes "k \<notin> fst ` set xs"
  shows "map_of (xs @ (k, v) # ys) = (map_of (xs @ ys))(k \<mapsto> v)"
proof -
  have "map_of xs k = None" using assms by (simp add: map_of_eq_None_iff)
  then show ?thesis by (auto simp: fun_eq_iff map_add_def split: option.splits)
qed

lemma starts_distinct: "ri_wf s \<Longrightarrow> distinct (map ri_start s)"
proof (induction s)
  case (Cons r s)
  have "ri_start x \<noteq> ri_start r" if "x \<in> set s" for x
    using that Cons.prems by (auto simp: ri_gap_def uint_simps)
  then show ?case using Cons by force
qed simp

lemma kv_image_middle:
  assumes "inj enc" "ri_start r \<notin> ri_start ` set us"
  shows "kv_image enc (us @ r # ys) = (kv_image enc (us @ ys))(enc (ri_start r) \<mapsto> enc (ri_end r))"
proof -
  have "enc (ri_start r) \<notin> fst ` set (map (\<lambda>r. (enc (ri_start r), enc (ri_end r))) us)"
    using assms by (auto simp: inj_eq)
  then show ?thesis unfolding kv_image_def map_append list.map by (rule map_of_middle)
qed

lemma kv_image_fresh:
  assumes "inj enc" "k \<notin> ri_start ` set s"
  shows "kv_image enc s (enc k) = None"
  using assms unfolding kv_image_def by (auto simp: map_of_eq_None_iff inj_eq)

lemma kv_image_middle_del:
  assumes "inj enc" "ri_start r \<notin> ri_start ` set us" "ri_start r \<notin> ri_start ` set ys"
  shows "(kv_image enc (us @ r # ys))(enc (ri_start r) := None) = kv_image enc (us @ ys)"
proof -
  have "kv_image enc (us @ ys) (enc (ri_start r)) = None"
    using kv_image_fresh [of enc "ri_start r" "us @ ys"] assms by auto
  then show ?thesis using kv_image_middle [of enc r us ys] assms by (auto simp: fun_eq_iff)
qed

text \<open>The store's diff does to the image what the slice's diff does to the slice.\<close>

definition kv_effect :: "(u64 \<Rightarrow> byte list) \<Rightarrow> kv_changes \<Rightarrow> (byte list \<Rightarrow> byte list option)
    \<Rightarrow> byte list \<Rightarrow> byte list option" where
  "kv_effect enc c m =
     (let m1 = (case kvc_deleteKVKey c of None \<Rightarrow> m | Some d \<Rightarrow> m(enc d := None))
      in m1(enc (kvc_key c) \<mapsto> enc (kvc_value c)))"

lemma kv_image_replace:
  assumes "inj enc" "ri_start r \<notin> ri_start ` set us" "ri_start r' = ri_start r"
  shows "kv_image enc (us @ r' # ys) = (kv_image enc (us @ r # ys))(enc (ri_start r) \<mapsto> enc (ri_end r'))"
  using kv_image_middle [of enc r us ys] kv_image_middle [of enc r' us ys] assms by simp

lemma kv_between_effect:
  assumes "ri_wf s" "split_at s n xs ys" and inj: "inj enc"
  shows "kv_effect enc (kv_between n xs ys) (kv_image enc s) = kv_image enc (insert_between n xs ys)"
proof -
  have s: "s = xs @ ys" and xs: "\<forall>r \<in> set xs. ri_end r < n" and ys: "\<forall>r \<in> set ys. n < ri_start r"
    using assms(2) by (auto simp: split_at_def)
  have starts: "\<forall>r \<in> set xs. ri_start r < n"
    using xs assms(1) s by (auto simp: ri_wf_def intro: order.strict_trans1)
  have dist: "distinct (map ri_start (xs @ ys))" using starts_distinct [OF assms(1)] s by simp
  have fresh: "n \<notin> ri_start ` set xs" "n \<notin> ri_start ` set ys" using starts ys by auto
  note defs = insert_between_def kv_between_def kv_effect_def Let_def
  have merge: "(kv_image enc (us @ b # ys'))(enc (ri_start b) := None) = kv_image enc (us @ ys')"
    if "ys = b # ys'" "set us \<subseteq> set xs" for us b ys'
    using kv_image_middle_del [OF inj, of b us ys'] that dist by auto
  have put_n: "(kv_image enc (us @ vs))(enc n \<mapsto> enc e) = kv_image enc (us @ item n e # vs)"
    if "set us \<subseteq> set xs" for us vs e
  proof -
    have "n \<notin> ri_start ` set us" using that fresh by blast
    then show ?thesis using kv_image_middle [OF inj, of "item n e" us vs] by simp
  qed
  show ?thesis
  proof (cases "xs \<noteq> [] \<and> ri_end (last xs) + 1 = n")
    case False
    then show ?thesis
    proof (cases "ys = [] \<or> ri_start (hd ys) \<noteq> n + 1")
      case True
      with False show ?thesis using put_n [where us = xs and vs = ys and e = n] by (auto simp: defs s)
    next
      case more: False
      then obtain b ys' where "ys = b # ys'" by (cases ys) auto
      with False more show ?thesis
        using put_n [where us = xs and vs = ys' and e = "ri_end b"] merge [where us = xs and b = b and ys' = ys'] by (auto simp: defs s)
    qed
  next
    case True
    then obtain us a where a: "xs = us @ [a]" by (cases xs rule: rev_cases) auto
    have fr: "ri_start a \<notin> ri_start ` set us" using dist a by auto
    show ?thesis
    proof (cases "ys = [] \<or> ri_start (hd ys) \<noteq> n + 1")
      case True
      with \<open>xs \<noteq> [] \<and> _\<close> a show ?thesis
        using kv_image_replace [OF inj fr, of "item (ri_start a) n" ys] by (auto simp: defs s)
    next
      case False
      then obtain b ys' where b: "ys = b # ys'" by (cases ys) auto
      with False True a show ?thesis
        using kv_image_replace [OF inj fr, of "item (ri_start a) (ri_end b)" ys']
          merge [OF b, where us = "us @ [a]"]
        by (auto simp: defs s)
    qed
  qed
qed

text \<open>
  A client of the store: whatever the store is, one successful \<open>Add\<close> keeps it the image of the
  slice, and a failing one leaves the slice alone.
\<close>

context range_store
begin

lemma enc_is_inj: "inj enc"
  using enc_inj by (auto intro: injI)

lemma applyKV_effect:
  assumes "applyKVChanges ser put del (Some kv) (Some c) = Inr kvo"
  shows "\<exists>kv'. kvo = Some kv' \<and> get kv' = kv_effect enc c (get kv)"
  using assms
  by (auto simp: applyKVChanges_def kv_effect_def ser_enc Let_def
      intro: put_get dest!: del_get dest: sym [of "Some _"] split: option.splits)
    (metis put_get)+

lemma add_sync:
  assumes "ri_wf s" "get kv = kv_image enc s" "add ser put del s n (Some kv) = Inr (s', kvo)"
  shows "\<exists>kv'. kvo = Some kv' \<and> get kv' = kv_image enc s'"
proof -
  obtain i c where lb: "lowerBoundIndex s n = Some (i, c)" "lb_spec s n (i, c)"
    using lowerBoundIndex_spec [OF assms(1)] by force
  show ?thesis
  proof (cases c)
    case True
    then have "s \<noteq> []" using lb(2) by (auto simp: lb_spec_def split: if_splits)
    then show ?thesis using lb(1) True assms(2,3)
      by (auto simp: add_def getChanges_def applyKVChanges_def applyArrayChanges_def)
  next
    case False
    let ?xs = "take (nat (i + 1)) s" and ?ys = "drop (nat (i + 1)) s"
    have split: "split_at s n ?xs ?ys" using lb_spec_uncovered assms(1) lb False by simp
    obtain ac where ac: "getChanges s n = Some (Some ac, Some (kv_between n ?xs ?ys))"
      "applyArrayChanges s (Some ac) = insert_between n ?xs ?ys"
      using getChanges_split [OF _ _ refl refl, of s n i] lb False by auto
    obtain kvo' where "applyKVChanges ser put del (Some kv) (Some (kv_between n ?xs ?ys)) = Inr kvo'"
      "s' = insert_between n ?xs ?ys" "kvo = kvo'"
      using assms(3) ac by (auto simp: add_def split: sum.splits)
    then show ?thesis
      using applyKV_effect kv_between_effect [OF assms(1) split enc_is_inj] assms(2) by fastforce
  qed
qed

end

section \<open>The bucket as a key-value store\<close>

text \<open>
  A store that meets the contract: a finite map of byte strings, as the bucket of the client's
  database is. Its operations do not fail.
\<close>

definition bucket_put :: "byte list \<Rightarrow> byte list \<Rightarrow> (byte list \<rightharpoonup> byte list) \<Rightarrow> (byte list \<rightharpoonup> byte list) option" where
  "bucket_put k v m = Some (m(k \<mapsto> v))"

definition bucket_del :: "byte list \<Rightarrow> (byte list \<rightharpoonup> byte list) \<Rightarrow> (byte list \<rightharpoonup> byte list) option" where
  "bucket_del k m = Some (m(k := None))"

interpretation bucket: range_store "\<lambda>m. m" bucket_put bucket_del defaultSerializeUint64 put_uint64
  by unfold_locales (auto simp: bucket_put_def bucket_del_def defaultSerializeUint64_def)

lemma bucket_add_total:
  assumes "ri_wf s"
  shows "\<exists>s' kvo'. add defaultSerializeUint64 bucket_put bucket_del s n kvo = Inr (s', kvo') \<and>
           ri_wf s' \<and> ri_set s' = insert n (ri_set s)"
proof -
  obtain ac kvc where g: "getChanges s n = Some (ac, kvc)" "ri_wf (applyArrayChanges s ac)"
    "ri_set (applyArrayChanges s ac) = insert n (ri_set s)"
    using getChanges_total [OF assms] by blast
  have "\<exists>kvo'. applyKVChanges defaultSerializeUint64 bucket_put bucket_del kvo kvc = Inr kvo'"
    by (auto simp: applyKVChanges_def defaultSerializeUint64_def bucket_put_def bucket_del_def
        split: option.splits)
  with g show ?thesis by (auto simp: add_def)
qed

section \<open>Adding a range\<close>

lemma interval_merge:
  assumes "(a :: u64) \<le> b" "c \<le> d" "unat a \<le> unat d + 1" "unat c \<le> unat b + 1"
  shows "{min a c..max b d} = {a..b} \<union> {c..d}"
  using assms by (auto simp: uint_simps unat_min unat_max)

lemma unat_succ_bounded: "unat (x :: u64) + 1 < 2 ^ 64 \<Longrightarrow> unat (x + 1) = unat x + 1"
  by (simp add: unat_Suc_if)

lemma ri_wf_in: "ri_wf s \<Longrightarrow> r \<in> set s \<Longrightarrow> unat (ri_start r) \<le> unat (ri_end r)"
  by (simp add: ri_wf_def uint_simps)

lemma add_range_loop_spec:
  assumes "ri_wf (before @ after @ xs)" "start \<le> end'"
    and "\<forall>b \<in> set before. unat (ri_end b) + 1 < unat start"
    and "\<forall>a \<in> set after. unat end' + 1 < unat (ri_start a)"
    and "unat end' + 1 < 2 ^ 64" "\<forall>x \<in> set xs. unat (ri_end x) + 1 < 2 ^ 64"
  shows "\<exists>b a s e. add_range_loop before after start end' xs = (b, a, s, e) \<and>
           ri_wf ((b @ [item s e]) @ a) \<and>
           ri_set ((b @ [item s e]) @ a)
             = ri_set before \<union> ri_set after \<union> ri_set xs \<union> {start..end'}"
  using assms
proof (induction before after start end' xs rule: add_range_loop.induct)
  case (1 before after start end')
  then show ?case by (auto simp: ri_gap_def uint_simps)
next
  case (2 before after start end' x xs)
  have e: "unat (ri_end x + 1) = unat (ri_end x) + 1" "unat (end' + 1) = unat end' + 1"
    using "2.prems"(5,6) by (simp_all add: unat_Suc_if)
  have x: "unat (ri_start x) \<le> unat (ri_end x)" "unat start \<le> unat end'"
    using "2.prems" by (auto simp: uint_simps)
  have after_x: "unat (ri_end a) + 1 < unat (ri_start x)" "unat (ri_start a) \<le> unat (ri_end a)"
    if "a \<in> set after" for a
    using that "2.prems"(1) ri_wf_in [of after a] by (auto simp: ri_gap_def uint_simps)
  consider (b) "unat (ri_end x) + 1 < unat start" | (a) "unat end' + 1 < unat (ri_start x)"
    | (m) "unat start \<le> unat (ri_end x) + 1" "unat (ri_start x) \<le> unat end' + 1"
    by linarith
  then show ?case
  proof cases
    case b
    then have "after = []" using after_x "2.prems"(4) x by (cases after) fastforce+
    then show ?thesis using b e "2.IH"(1) "2.prems" by (auto simp: uint_simps)
  next
    case a
    then have nb: "\<not> unat (ri_end x) + 1 < unat start" using x by simp
    have "\<exists>b a s e. add_range_loop before (after @ [x]) start end' xs = (b, a, s, e) \<and>
        ri_wf ((b @ [item s e]) @ a) \<and>
        ri_set ((b @ [item s e]) @ a)
          = ri_set before \<union> ri_set (after @ [x]) \<union> ri_set xs \<union> {start..end'}"
      by (rule "2.IH"(2)) (use a nb e "2.prems" in \<open>auto simp: uint_simps\<close>)
    then show ?thesis using a nb e by (auto simp: uint_simps)
  next
    case m
    then have "after = []" using after_x "2.prems"(4) x by (cases after) fastforce+
    have "\<exists>b a s e. add_range_loop before after (min start (ri_start x)) (max end' (ri_end x)) xs
          = (b, a, s, e) \<and>
        ri_wf ((b @ [item s e]) @ a) \<and>
        ri_set ((b @ [item s e]) @ a)
          = ri_set before \<union> ri_set after \<union> ri_set xs
              \<union> {min start (ri_start x)..max end' (ri_end x)}"
      by (rule "2.IH"(3))
        (use m e x \<open>after = []\<close> "2.prems" in \<open>auto simp: uint_simps unat_min unat_max ri_gap_def\<close>)
    moreover have "{min start (ri_start x)..max end' (ri_end x)}
        = {start..end'} \<union> {ri_start x..ri_end x}"
      using m x by (intro interval_merge) (auto simp: uint_simps)
    ultimately show ?thesis using m e by (auto simp: uint_simps)
  qed
qed

lemma addRange_spec:
  assumes "ri_wf s" "\<forall>x \<in> set s. ri_end x \<noteq> -1" "a \<le> b" "b \<noteq> -1"
  shows "\<exists>s'. addRange s a b = Inr s' \<and> ri_wf s' \<and> ri_set s' = ri_set s \<union> {a..b}"
proof -
  have "unat (x :: u64) + 1 < 2 ^ 64" if "x \<noteq> -1" for x
    using that unat_lt_2p64 [of x]
    by (auto simp: word_eq_unat unsigned_minus_1_eq_mask mask_eq_exp_minus_1 simp del: unat_lt_2p64)
  then obtain b1 a1 s1 e1 where "add_range_loop [] [] a b s = (b1, a1, s1, e1)"
    "ri_wf ((b1 @ [item s1 e1]) @ a1)"
    "ri_set ((b1 @ [item s1 e1]) @ a1) = ri_set [] \<union> ri_set [] \<union> ri_set s \<union> {a..b}"
    using add_range_loop_spec [of "[]" "[]" s a b] assms by auto
  then show ?thesis using assms(3) unfolding addRange_def by simp
qed

lemma ri_set_top: "ri_wf s \<Longrightarrow> (\<forall>x \<in> set s. ri_end x \<noteq> -1) \<longleftrightarrow> -1 \<notin> ri_set s"
  by (auto simp: ri_set_def ri_wf_def dest: word_order.extremum_uniqueI)

lemma newRangeIndex_from_spec:
  assumes "ri_wf s" "-1 \<notin> ri_set s" "\<forall>(a, b) \<in> set rs. a \<le> b \<and> b \<noteq> -1"
  shows "\<exists>s'. newRangeIndex_from s rs = Inr s' \<and> ri_wf s' \<and>
           ri_set s' = ri_set s \<union> (\<Union>(a, b) \<in> set rs. {a..b})"
  using assms
proof (induction s rs rule: newRangeIndex_from.induct)
  case (2 s a b rs)
  then obtain s1 where s1: "addRange s a b = Inr s1" "ri_wf s1" "ri_set s1 = ri_set s \<union> {a..b}"
    using addRange_spec [of s a b] ri_set_top [of s] by auto
  have "-1 \<notin> ri_set s1"
    using s1(3) "2.prems"(2,3) by (auto dest: word_order.extremum_uniqueI)
  then obtain s2 where "newRangeIndex_from s1 rs = Inr s2" "ri_wf s2"
    "ri_set s2 = ri_set s1 \<union> (\<Union>(a, b) \<in> set rs. {a..b})"
    using "2.IH" [OF s1(1) s1(2)] "2.prems"(3) by auto
  then show ?case using s1 by auto
qed simp

section \<open>One slice per set\<close>

lemma ri_set_ge_head: "ri_wf (r # s) \<Longrightarrow> n \<in> ri_set (r # s) \<Longrightarrow> ri_start r \<le> n"
  by (fastforce simp: ri_set_def ri_gap_def uint_simps)

lemma ri_tail_above: "ri_wf (r # s) \<Longrightarrow> n \<in> ri_set s \<Longrightarrow> ri_end r < n"
  by (fastforce simp: ri_set_def ri_gap_def uint_simps)

lemma ri_set_tail: "ri_wf (r # s) \<Longrightarrow> ri_set s = ri_set (r # s) - {..ri_end r}"
  using ri_tail_above by fastforce

lemma ri_head_end:
  assumes "ri_wf (r # s)" "ri_wf (q # t)" "ri_set (r # s) = ri_set (q # t)"
    and "ri_start r = ri_start q"
  shows "ri_end q \<le> ri_end r"
proof (rule ccontr)
  assume "\<not> ri_end q \<le> ri_end r"
  then have lt: "ri_end r < ri_end q" by simp
  then have succ: "unat (ri_end r + 1) = unat (ri_end r) + 1" by (rule unat_plus1_less)
  have "ri_end r + 1 \<in> ri_set (q # t)"
    using lt succ assms(1,4) by (auto simp: uint_simps)
  then have "ri_end r + 1 \<in> ri_set (r # s)" using assms(3) by simp
  then show False using succ assms(1)
    by (fastforce simp: ri_set_def ri_gap_def uint_simps)
qed

lemma ri_canonical: "ri_wf s \<Longrightarrow> ri_wf t \<Longrightarrow> ri_set s = ri_set t \<Longrightarrow> s = t"
proof (induction s arbitrary: t)
  case Nil
  then show ?case by (cases t) auto
next
  case (Cons r s)
  show ?case
  proof (cases t)
    case Nil
    with Cons.prems show ?thesis by auto
  next
    case (Cons q u)
    have wf: "ri_wf (r # s)" "ri_wf (q # u)" and eq: "ri_set (r # s) = ri_set (q # u)"
      using Cons.prems Cons by simp_all
    have "ri_start r \<in> ri_set (r # s)" "ri_start q \<in> ri_set (q # u)" using wf by auto
    then have st: "ri_start r = ri_start q"
      using ri_set_ge_head [OF wf(1)] ri_set_ge_head [OF wf(2)] eq by (metis order_antisym)
    then have en: "ri_end r = ri_end q"
      using ri_head_end [OF wf eq st] ri_head_end [OF wf(2,1) eq [symmetric] st [symmetric]] by simp
    have "ri_set s = ri_set u" using ri_set_tail wf eq en by metis
    then have "s = u" using Cons.IH wf by simp
    then show ?thesis using st en Cons by simp
  qed
qed

section \<open>Counting\<close>

lemma card_interval: "(a :: u64) \<le> b \<Longrightarrow> (of_nat (card {a..b}) :: u64) = b - a + 1"
proof -
  assume "a \<le> b"
  have "inj_on unat {a..b}" by (auto intro: inj_onI simp: word_eq_unat)
  moreover have "unat ` {a..b} = {unat a..unat b}"
  proof
    show "{unat a..unat b} \<subseteq> unat ` {a..b}"
    proof
      fix k assume k: "k \<in> {unat a..unat b}"
      then have "k < 2 ^ 64" using unat_lt_2p64 [of b] by (simp del: unat_lt_2p64)
      then have "unat (of_nat k :: u64) = k" by (simp add: unat_of_nat take_bit_nat_eq_self)
      then show "k \<in> unat ` {a..b}" 
        using k by (intro image_eqI [of _ _ "of_nat k"]) (simp_all add: uint_simps)
    qed
  qed (auto simp: uint_simps)
  ultimately have "card {a..b} = unat b + 1 - unat a"
    by (metis card_image card_atLeastAtMost Suc_eq_plus1)
  then have "card {a..b} + unat a = unat b + 1" using \<open>a \<le> b\<close> by (simp add: uint_simps)
  then have "(of_nat (card {a..b} + unat a) :: u64) = of_nat (unat b + 1)" by simp
  then have "of_nat (card {a..b}) + a = b + 1" by simp
  then show ?thesis by (simp add: eq_diff_eq algebra_simps)
qed

lemma finite_ri_set: "finite (ri_set s)"
  by simp

lemma numInSet_fold:
  "ri_wf s \<Longrightarrow> foldl (\<lambda>k r. k + (ri_end r - ri_start r + 1)) acc s = acc + of_nat (card (ri_set s))"
proof (induction s arbitrary: acc)
  case (Cons r s)
  have "{ri_start r..ri_end r} \<inter> ri_set s = {}"
    using ri_tail_above [OF Cons.prems] by fastforce
  then have "card (ri_set (r # s)) = card {ri_start r..ri_end r} + card (ri_set s)"
    by (simp add: card_Un_disjoint)
  then show ?case using Cons card_interval [of "ri_start r" "ri_end r"]
    by (simp add: algebra_simps)
qed simp

section \<open>A run of the client\<close>

text \<open>The heights of a session added one after the other, as the client's database does.\<close>

fun add_all :: "(range_item list \<times> (byte list \<rightharpoonup> byte list) option) \<Rightarrow> u64 list
    \<Rightarrow> ri_error \<times> range_item list + range_item list \<times> (byte list \<rightharpoonup> byte list) option" where
  "add_all (s, kv) [] = Inr (s, kv)"
| "add_all (s, kv) (n # ns) =
     (case add defaultSerializeUint64 bucket_put bucket_del s n kv of
        Inl e \<Rightarrow> Inl e
      | Inr st \<Rightarrow> add_all st ns)"

lemma add_all_spec:
  assumes "ri_wf s" "m = kv_image put_uint64 s"
  shows "\<exists>s'. add_all (s, Some m) ns = Inr (s', Some (kv_image put_uint64 s')) \<and> ri_wf s' \<and>
           ri_set s' = ri_set s \<union> set ns"
  using assms
proof (induction ns arbitrary: s m)
  case (Cons n ns)
  obtain s1 kv1 where s1: "add defaultSerializeUint64 bucket_put bucket_del s n (Some m) = Inr (s1, kv1)"
    "ri_wf s1" "ri_set s1 = insert n (ri_set s)"
    using bucket_add_total [OF Cons.prems(1)] by blast
  then obtain m1 where "kv1 = Some m1" "m1 = kv_image put_uint64 s1"
    using bucket.add_sync [OF Cons.prems s1(1)] by auto
  then show ?case using Cons.IH [OF s1(2)] s1 by auto
qed simp

lemma newRangeIndex_reload:
  assumes "ri_wf s" "-1 \<notin> ri_set s" "set rs = (\<lambda>r. (ri_start r, ri_end r)) ` set s"
  shows "newRangeIndex rs = Inr s"
proof -
  have "\<forall>(a, b) \<in> set rs. a \<le> b \<and> b \<noteq> -1"
    using assms by (auto simp: ri_wf_def ri_set_def)
  then obtain s' where s': "newRangeIndex rs = Inr s'" "ri_wf s'"
    "ri_set s' = (\<Union>(a, b) \<in> set rs. {a..b})"
    using newRangeIndex_from_spec [of "[]" rs] by (auto simp: newRangeIndex_def)
  have "(\<Union>(a, b) \<in> set rs. {a..b}) = ri_set s" using assms(3) by (auto simp: ri_set_def)
  then have "s' = s" using ri_canonical s' assms(1) by simp
  then show ?thesis using s'(1) by simp
qed

section \<open>Properties\<close>

text \<open>
  C32: \<open>Add\<close> on a well-formed index, with any store and any serializer, returns; when it succeeds
  the slice is well formed again (sorted, disjoint and non-adjacent ranges) and represents exactly
  the old set with the new height, and when it fails, which only the store or the serializer can
  cause, the slice is untouched.
\<close>

theorem ri_add_correct:
  assumes "ri_wf s"
  shows "case add ser put del s n kv of
           Inr (s', kv') \<Rightarrow> ri_wf s' \<and> ri_set s' = insert n (ri_set s)
         | Inl (e, s') \<Rightarrow> s' = s \<and> e \<in> {SerializeFailed, KVFailed} \<and> kv \<noteq> None"
proof -
  obtain ac kvc where "getChanges s n = Some (ac, kvc)" "ri_wf (applyArrayChanges s ac)"
    "ri_set (applyArrayChanges s ac) = insert n (ri_set s)"
    using getChanges_total [OF assms] by blast
  then show ?thesis
    by (auto simp: add_def applyKVChanges_def split: sum.splits option.splits)
qed

lemma ri_add_correct_witness:
  "case add defaultSerializeUint64 bucket_put bucket_del [item 1 4, item 6 9] 5 None of
     Inr (s', kv') \<Rightarrow> ri_wf s' \<and> ri_set s' = insert 5 (ri_set [item 1 4, item 6 9])
   | Inl (e, s') \<Rightarrow> s' = [item 1 4, item 6 9] \<and> e \<in> {SerializeFailed, KVFailed}
       \<and> (None :: (byte list \<rightharpoonup> byte list) option) \<noteq> None"
  by (rule ri_add_correct) (simp add: ri_gap_def)

text \<open>
  \<open>IsInIndex\<close> on a well-formed index returns (its unbounded binary search ends), and answers
  exactly membership in the represented set.
\<close>

theorem ri_isInIndex_correct:
  assumes "ri_wf s"
  shows "isInIndex s n = Some (n \<in> ri_set s)"
proof -
  obtain i c where lb: "lowerBoundIndex s n = Some (i, c)" "lb_spec s n (i, c)"
    using lowerBoundIndex_spec [OF assms] by force
  have "c \<longleftrightarrow> n \<in> ri_set s"
  proof (cases c)
    case True
    then show ?thesis using lb(2) by (auto simp: lb_spec_def ri_set_def split: if_splits)
  next
    case False
    then obtain xs ys where "split_at s n xs ys" 
      using lb_spec_uncovered [OF assms, of n i] lb by auto
    then have "n \<notin> ri_set s" by (fastforce simp: split_at_def ri_set_def)
    then show ?thesis using False by simp
  qed
  then show ?thesis using lb(1) by (simp add: isInIndex_def)
qed

lemma ri_isInIndex_correct_witness:
  "isInIndex [item 1 4, item 6 9, item 12 20] 7 = Some True
    \<and> isInIndex [item 1 4, item 6 9, item 12 20] 10 = Some False"
  using ri_isInIndex_correct [of "[item 1 4, item 6 9, item 12 20]" 7]
    ri_isInIndex_correct [of "[item 1 4, item 6 9, item 12 20]" 10]
  by (simp add: ri_gap_def)

text \<open>
  starting from an empty index and an empty bucket, adding any heights in any order succeeds;
  the slice then represents exactly those heights, the bucket holds exactly the slice's ranges,
  and rebuilding an index with \<open>NewRangeIndex\<close> from those ranges, in whatever order the Go map
  delivers them, gives back the same slice (the height \<open>MaxUint64\<close> excepted).
\<close>

theorem ri_store_roundtrip:
  "\<exists>s. add_all ([], Some Map.empty) ns = Inr (s, Some (kv_image put_uint64 s)) \<and>
       ri_wf s \<and> ri_set s = set ns \<and>
       (\<forall>rs. set rs = (\<lambda>r. (ri_start r, ri_end r)) ` set s \<longrightarrow> -1 \<notin> set ns \<longrightarrow>
             newRangeIndex rs = Inr s)"
  using add_all_spec [of "[]" Map.empty ns] newRangeIndex_reload
  by (auto simp: kv_image_def)

lemma ri_store_roundtrip_witness:
  "\<exists>s. add_all ([], Some Map.empty) [3, 1, 2] = Inr (s, Some (kv_image put_uint64 s)) \<and>
       (\<forall>rs. set rs = (\<lambda>r. (ri_start r, ri_end r)) ` set s \<longrightarrow> newRangeIndex rs = Inr s)"
  using ri_store_roundtrip [of "[3, 1, 2]"] by auto

text \<open>
  On a well-formed index \<open>NumInSet\<close> is the number of heights in the set, modulo \<open>2^64\<close>, and
  \<open>MaxHeight\<close> is the largest height, 0 when there is none.
\<close>

theorem ri_counts:
  assumes "ri_wf s"
  shows "numInSet s = of_nat (card (ri_set s))
    \<and> MaxHeight s = (if ri_set s = {} then 0 else Max (ri_set s))"
proof -
  have "MaxHeight s = (if ri_set s = {} then 0 else Max (ri_set s))"
  proof (cases s rule: rev_cases)
    case (snoc us r)
    have "ri_end r \<in> ri_set s" using assms snoc by auto
    moreover have "n \<le> ri_end r" if "n \<in> ri_set s" for n
      using that assms snoc by (fastforce simp: ri_set_def ri_gap_def uint_simps)
    ultimately have "Max (ri_set s) = ri_end r" using finite_ri_set by (intro Max_eqI) auto
    moreover have "MaxHeight s = ri_end r" using snoc by (simp add: MaxHeight_def)
    ultimately show ?thesis using \<open>ri_end r \<in> ri_set s\<close> by auto
  qed (simp add: MaxHeight_def)
  then show ?thesis using numInSet_fold [OF assms, of 0] by (simp add: numInSet_def)
qed

lemma ri_counts_witness:
  "numInSet [item 1 4, item 6 9] = of_nat (card (ri_set [item 1 4, item 6 9]))
    \<and> MaxHeight [item 1 4, item 6 9] = 9"
  using ri_counts [of "[item 1 4, item 6 9]"] by (simp add: ri_gap_def MaxHeight_def)

text \<open>
  \<open>addRange\<close> tests \<open>x.end+1 < start\<close> in 64 bits, so a range ending at \<open>MaxUint64\<close> counts as one
  below every other: two disjoint ranges end up in the wrong order and the search misses a height.
\<close>

lemma addRange_wraps:
  "newRangeIndex [(20, -1), (5, 10)] = Inr [item 20 (-1), item 5 10]"
  by (simp add: newRangeIndex_def addRange_def)

lemma addRange_wrap_search_misses:
  "isInIndex [item 20 (-1), item 5 10] 30 = Some False"
  by (simp add: isInIndex_def lowerBoundIndex_def)

end
