(* ===== verification/Sha256.thy ===== *)
theory Sha256
  imports Prelude
begin

text \<open>
  \<open>crypto/sha256\<close> of Go's standard library, \<open>Sum256\<close>: the hash function of FIPS 180-4, on byte
  lists. The components that hash take the function as an argument, and their theorems hold for
  every function with 32-byte results; this is the function the daemon runs them with.
\<close>

text \<open>
  The tables of the standard library are the first 32 bits of the fractional parts of roots of
  primes: cube roots for the round constants, square roots for the initial state. They are computed
  here, the integer root bit by bit from the top.
\<close>

definition sha_primes :: "nat list" where
  "sha_primes = filter (\<lambda>n. \<forall>d \<in> set [2..<n]. n mod d \<noteq> 0) [2..<312]"

fun integer_root :: "nat \<Rightarrow> nat \<Rightarrow> nat \<Rightarrow> nat \<Rightarrow> nat" where
  "integer_root k x 0 r = r"
| "integer_root k x (Suc b) r =
     integer_root k x b (if (r + 2 ^ b) ^ k \<le> x then r + 2 ^ b else r)"

definition root_bits :: "nat \<Rightarrow> nat \<Rightarrow> u32" where
  "root_bits k p = of_nat (integer_root k (p * 2 ^ (32 * k)) 36 0)"

definition sha_k :: "u32 list" where
  "sha_k = map (root_bits 3) sha_primes"

type_synonym sha_state = "u32 \<times> u32 \<times> u32 \<times> u32 \<times> u32 \<times> u32 \<times> u32 \<times> u32"

definition sha_init :: sha_state where
  "sha_init = (root_bits 2 2, root_bits 2 3, root_bits 2 5, root_bits 2 7,
               root_bits 2 11, root_bits 2 13, root_bits 2 17, root_bits 2 19)"

definition rotr :: "nat \<Rightarrow> u32 \<Rightarrow> u32" where
  "rotr n x = drop_bit n x OR push_bit (32 - n) x"

definition put_uint32 :: "u32 \<Rightarrow> byte list" where
  "put_uint32 x = [ucast (drop_bit 24 x), ucast (drop_bit 16 x), ucast (drop_bit 8 x), ucast x]"

fun get_words :: "byte list \<Rightarrow> u32 list" where
  "get_words (a # b # c # d # bs) =
     (push_bit 24 (ucast a) OR push_bit 16 (ucast b) OR push_bit 8 (ucast c) OR ucast d) # get_words bs"
| "get_words _ = []"

definition sha_pad :: "byte list \<Rightarrow> byte list" where
  "sha_pad m = m @ [0x80] @ replicate ((119 - length m mod 64) mod 64) 0
     @ put_uint64 (of_nat (8 * length m))"

text \<open>The schedule: \<open>n\<close> more words, the words so far newest first.\<close>

fun sha_schedule :: "nat \<Rightarrow> u32 list \<Rightarrow> u32 list" where
  "sha_schedule 0 w = rev w"
| "sha_schedule (Suc n) w =
     (let x = w ! 14; y = w ! 1;
          s0 = rotr 7 x XOR rotr 18 x XOR drop_bit 3 x;
          s1 = rotr 17 y XOR rotr 19 y XOR drop_bit 10 y
      in sha_schedule n ((w ! 15 + s0 + w ! 6 + s1) # w))"

fun sha_round :: "sha_state \<Rightarrow> u32 \<times> u32 \<Rightarrow> sha_state" where
  "sha_round (a, b, c, d, e, f, g, h) (k, w) =
     (let s1 = rotr 6 e XOR rotr 11 e XOR rotr 25 e;
          ch = (e AND f) XOR (NOT e AND g);
          t1 = h + s1 + ch + k + w;
          s0 = rotr 2 a XOR rotr 13 a XOR rotr 22 a;
          maj = (a AND b) XOR (a AND c) XOR (b AND c);
          t2 = s0 + maj
      in (t1 + t2, a, b, c, d + t1, e, f, g))"

fun sha_add :: "sha_state \<Rightarrow> sha_state \<Rightarrow> sha_state" where
  "sha_add (a, b, c, d, e, f, g, h) (a', b', c', d', e', f', g', h') =
     (a + a', b + b', c + c', d + d', e + e', f + f', g + g', h + h')"

definition sha_block :: "sha_state \<Rightarrow> u32 list \<Rightarrow> sha_state" where
  "sha_block st ws = sha_add st (foldl sha_round st (zip sha_k (sha_schedule 48 (rev ws))))"

text \<open>\<open>n\<close> blocks of 16 words.\<close>

fun sha_blocks :: "nat \<Rightarrow> sha_state \<Rightarrow> u32 list \<Rightarrow> sha_state" where
  "sha_blocks 0 st ws = st"
| "sha_blocks (Suc n) st ws = sha_blocks n (sha_block st (take 16 ws)) (drop 16 ws)"

definition sha256 :: "byte list \<Rightarrow> byte list" where
  "sha256 m =
     (let ws = get_words (sha_pad m) in
      case sha_blocks (length ws div 16) sha_init ws of
        (a, b, c, d, e, f, g, h) \<Rightarrow> concat (map put_uint32 [a, b, c, d, e, f, g, h]))"

lemma length_sha256 [simp]: "length (sha256 m) = 32"
  by (simp add: sha256_def put_uint32_def Let_def split: prod.splits)

end
