(* ===== verification/Shachain.thy ===== *)
theory Shachain
  imports Sha256
begin

text \<open>
  The package \<open>shachain\<close> (\<open>element.go\<close>, \<open>store.go\<close>, \<open>producer.go\<close>, \<open>utils.go\<close>): the compact storage
  of revocation secrets. A \<open>chainhash.Hash\<close> is a list of 32 bytes; \<open>sha256.Sum256\<close> is the argument
  \<open>sha\<close>, about which nothing is assumed but, where the theorems say so, the length of its result.
  Bit positions, bucket numbers and the counter \<open>lenBuckets\<close> (\<open>uint8\<close> values of at most 49 in every
  run the theorems speak about) are \<open>nat\<close>. The fixed-size Go array \<open>buckets\<close> is a list of length 48
  and an access beyond it, a run-time panic in Go, is the error \<open>BucketPanic\<close>.
\<close>

section \<open>Indices and bits\<close>

datatype sc_error = NotDerivable | HashMismatch | BadHashSize | BucketPanic | ShortRead
  | UnableToDerive u64 | HashStrSize | InvalidHex

definition maxHeight :: nat where
  "maxHeight = 48"

definition rootIndex :: u64 where
  "rootIndex = 0"

definition startIndex :: u64 where
  "startIndex = push_bit maxHeight 1 - 1"

definition newIndex :: "u64 \<Rightarrow> u64" where
  "newIndex v = startIndex - v"

definition getBit :: "u64 \<Rightarrow> nat \<Rightarrow> u64" where
  "getBit index position = drop_bit position index AND 1"

definition getPrefix :: "u64 \<Rightarrow> nat \<Rightarrow> u64" where
  "getPrefix index position = index AND ((0 - 1) - (push_bit position 1 - 1))"

function countTrailingZeros_from :: "u64 \<Rightarrow> nat \<Rightarrow> nat" where
  "countTrailingZeros_from index zeros =
     (if zeros < maxHeight then
        if getBit index zeros \<noteq> 0 then zeros else countTrailingZeros_from index (zeros + 1)
      else zeros)"
  by auto
termination
  by (relation "measure (\<lambda>(index, zeros). maxHeight - zeros)") auto

declare countTrailingZeros_from.simps [simp del]

definition countTrailingZeros :: "u64 \<Rightarrow> nat" where
  "countTrailingZeros index = countTrailingZeros_from index 0"

text \<open>The loop of \<open>deriveBitTransformations\<close>, from \<open>position\<close> down to 0.\<close>

fun transform_positions :: "u64 \<Rightarrow> nat \<Rightarrow> nat list" where
  "transform_positions to 0 = (if getBit to 0 = 1 then [0] else [])"
| "transform_positions to (Suc p) =
     (if getBit to (Suc p) = 1 then [Suc p] else []) @ transform_positions to p"

definition deriveBitTransformations :: "u64 \<Rightarrow> u64 \<Rightarrow> sc_error + nat list" where
  "deriveBitTransformations from to =
     (if from = to then Inr []
      else let zeros = countTrailingZeros from in
        if from \<noteq> getPrefix to zeros then Inl NotDerivable
        else Inr (transform_positions to (zeros - 1)))"

section \<open>Elements\<close>

record element =
  el_index :: u64
  el_hash :: "byte list"

definition elem :: "u64 \<Rightarrow> byte list \<Rightarrow> element" where
  "elem i h = \<lparr>el_index = i, el_hash = h\<rparr>"

text \<open>\<open>chainhash.NewHash\<close> accepts exactly 32 bytes.\<close>

definition newHash :: "byte list \<Rightarrow> sc_error + byte list" where
  "newHash bs = (if length bs = 32 then Inr bs else Inl BadHashSize)"

text \<open>One iteration of the loop of \<open>derive\<close>: flip the bit, hash the buffer.\<close>

definition flip_hash :: "(byte list \<Rightarrow> byte list) \<Rightarrow> byte list \<Rightarrow> nat \<Rightarrow> byte list" where
  "flip_hash sha buf position =
     (let byteNumber = position div 8; bitNumber = position mod 8 in
      sha (buf[byteNumber := (buf ! byteNumber) XOR push_bit bitNumber 1]))"

definition derive :: "(byte list \<Rightarrow> byte list) \<Rightarrow> element \<Rightarrow> u64 \<Rightarrow> sc_error + element" where
  "derive sha e toIndex =
     (case deriveBitTransformations (el_index e) toIndex of
        Inl err \<Rightarrow> Inl err
      | Inr positions \<Rightarrow>
          (case newHash (foldl (flip_hash sha) (el_hash e) positions) of
             Inl err \<Rightarrow> Inl err
           | Inr hash \<Rightarrow> Inr (elem toIndex hash)))"

definition isEqual :: "element \<Rightarrow> element \<Rightarrow> bool" where
  "isEqual e e2 \<longleftrightarrow> el_index e = el_index e2 \<and> el_hash e = el_hash e2"

section \<open>The producer\<close>

text \<open>\<open>RevocationProducer\<close> is its root element.\<close>

definition newRevocationProducer :: "byte list \<Rightarrow> element" where
  "newRevocationProducer root = elem rootIndex root"

definition newRevocationProducerFromBytes :: "byte list \<Rightarrow> sc_error + element" where
  "newRevocationProducerFromBytes data =
     (case newHash data of Inl e \<Rightarrow> Inl e | Inr root \<Rightarrow> Inr (elem rootIndex root))"

definition atIndex :: "(byte list \<Rightarrow> byte list) \<Rightarrow> element \<Rightarrow> u64 \<Rightarrow> sc_error + byte list" where
  "atIndex sha root v =
     (case derive sha root (newIndex v) of Inl e \<Rightarrow> Inl e | Inr el \<Rightarrow> Inr (el_hash el))"

definition encodeProducer :: "element \<Rightarrow> byte list" where
  "encodeProducer root = el_hash root"

section \<open>The store\<close>

record revocation_store =
  lenBuckets :: nat
  buckets :: "element list"
  st_index :: u64

definition zero_element :: element where
  "zero_element = elem 0 (replicate 32 0)"

definition newRevocationStore :: revocation_store where
  "newRevocationStore =
     \<lparr>lenBuckets = 0, buckets = replicate maxHeight zero_element, st_index = startIndex\<rparr>"

text \<open>The loop of \<open>LookUp\<close>: the first bucket the index can be derived from, from bucket \<open>i\<close> on.\<close>

fun lookUp_from :: "(byte list \<Rightarrow> byte list) \<Rightarrow> element list \<Rightarrow> u64 \<Rightarrow> sc_error + byte list" where
  "lookUp_from sha [] ind = Inl (UnableToDerive ind)"
| "lookUp_from sha (b # bs) ind =
     (case derive sha b ind of Inl _ \<Rightarrow> lookUp_from sha bs ind | Inr e \<Rightarrow> Inr (el_hash e))"

definition lookUp :: "(byte list \<Rightarrow> byte list) \<Rightarrow> revocation_store \<Rightarrow> u64 \<Rightarrow> sc_error + byte list" where
  "lookUp sha st v = lookUp_from sha (take (lenBuckets st) (buckets st)) (newIndex v)"

text \<open>The loop of \<open>AddNextEntry\<close>: every lower bucket must be derivable from the new element.\<close>

fun check_buckets :: "(byte list \<Rightarrow> byte list) \<Rightarrow> element \<Rightarrow> element list \<Rightarrow> sc_error option" where
  "check_buckets sha newElement [] = None"
| "check_buckets sha newElement (b # bs) =
     (case derive sha newElement (el_index b) of
        Inl err \<Rightarrow> Some err
      | Inr e \<Rightarrow> if \<not> isEqual e b then Some HashMismatch else check_buckets sha newElement bs)"

definition addNextEntry ::
  "(byte list \<Rightarrow> byte list) \<Rightarrow> revocation_store \<Rightarrow> byte list \<Rightarrow> sc_error + revocation_store" where
  "addNextEntry sha st hash =
     (let newElement = elem (st_index st) hash;
          bucket = countTrailingZeros (el_index newElement) in
      case check_buckets sha newElement (take bucket (buckets st)) of
        Some err \<Rightarrow> Inl err
      | None \<Rightarrow>
          if bucket \<ge> length (buckets st) then Inl BucketPanic
          else Inr \<lparr>lenBuckets = (if bucket + 1 > lenBuckets st then bucket + 1 else lenBuckets st),
                    buckets = (buckets st)[bucket := newElement],
                    st_index = st_index st - 1\<rparr>)"

section \<open>Serialization\<close>

definition encode_element :: "element \<Rightarrow> byte list" where
  "encode_element e = put_uint64 (el_index e) @ el_hash e"

definition encodeStore :: "revocation_store \<Rightarrow> byte list" where
  "encodeStore st =
     [of_nat (lenBuckets st)]
       @ concat (map encode_element (take (lenBuckets st) (buckets st)))
       @ put_uint64 (st_index st)"

definition read_full :: "nat \<Rightarrow> byte list \<Rightarrow> sc_error + byte list \<times> byte list" where
  "read_full n r = (if length r < n then Inl ShortRead else Inr (take n r, drop n r))"

text \<open>The loop of \<open>NewRevocationStoreFromBytes\<close>: \<open>i\<close> buckets read so far, \<open>n\<close> to go.\<close>

fun read_buckets ::
  "element list \<Rightarrow> nat \<Rightarrow> nat \<Rightarrow> byte list \<Rightarrow> sc_error + element list \<times> byte list" where
  "read_buckets bs i 0 r = Inr (bs, r)"
| "read_buckets bs i (Suc n) r =
     (case read_full 8 r of
        Inl e \<Rightarrow> Inl e
      | Inr (ix, r1) \<Rightarrow>
          (case read_full 32 r1 of
             Inl e \<Rightarrow> Inl e
           | Inr (nextHash, r2) \<Rightarrow>
               if i \<ge> length bs then Inl BucketPanic
               else read_buckets (bs[i := elem (get_uint64 ix) nextHash]) (i + 1) n r2))"

definition newRevocationStoreFromBytes :: "byte list \<Rightarrow> sc_error + revocation_store" where
  "newRevocationStoreFromBytes r =
     (case read_full 1 r of
        Inl e \<Rightarrow> Inl e
      | Inr (n, r1) \<Rightarrow>
          (case read_buckets (replicate maxHeight zero_element) 0 (unat (hd n)) r1 of
             Inl e \<Rightarrow> Inl e
           | Inr (bs, r2) \<Rightarrow>
               (case read_full 8 r2 of
                  Inl e \<Rightarrow> Inl e
                | Inr (ix, _) \<Rightarrow>
                    Inr \<lparr>lenBuckets = unat (hd n), buckets = bs, st_index = get_uint64 ix\<rparr>)))"

section \<open>Hex strings\<close>

definition hex_digit :: "char \<Rightarrow> nat option" where
  "hex_digit c =
     (let n = (of_char c :: nat) in
      if 48 \<le> n \<and> n \<le> 57 then Some (n - 48)
      else if 97 \<le> n \<and> n \<le> 102 then Some (n - 87)
      else if 65 \<le> n \<and> n \<le> 70 then Some (n - 55)
      else None)"

fun hex_decode :: "string \<Rightarrow> byte list option" where
  "hex_decode [] = Some []"
| "hex_decode [c] = None"
| "hex_decode (a # b # s) =
     (case (hex_digit a, hex_digit b) of
        (Some x, Some y) \<Rightarrow> map_option (\<lambda>bs. of_nat (16 * x + y) # bs) (hex_decode s)
      | _ \<Rightarrow> None)"

definition hashFromString :: "string \<Rightarrow> sc_error + byte list" where
  "hashFromString s =
     (if length s > 64 then Inl HashStrSize
      else let s' = (if length s mod 2 \<noteq> 0 then CHR ''0'' # s else s) in
        case hex_decode s' of None \<Rightarrow> Inl InvalidHex | Some buf \<Rightarrow> newHash buf)"

definition newElementFromStr :: "string \<Rightarrow> u64 \<Rightarrow> sc_error + element" where
  "newElementFromStr s index =
     (case hashFromString s of Inl e \<Rightarrow> Inl e | Inr hash \<Rightarrow> Inr (elem index hash))"

section \<open>Bits and blocks\<close>

lemma getBit_bit: "getBit w p = of_bool (bit w p)"
  by (rule bit_word_eqI) (auto simp: getBit_def bit_simps)

lemma getPrefix_bits: "getPrefix w p = w AND NOT (mask p)"
  by (simp add: getPrefix_def push_bit_eq_mult minus_exp_eq_not_mask [symmetric])

lemma ctz_from_spec:
  assumes "z \<le> maxHeight" "\<forall>j < z. \<not> bit w j"
  shows "countTrailingZeros_from w z \<le> maxHeight
    \<and> (\<forall>j < countTrailingZeros_from w z. \<not> bit w j)
    \<and> (countTrailingZeros_from w z < maxHeight \<longrightarrow> bit w (countTrailingZeros_from w z))"
  using assms
proof (induction w z rule: countTrailingZeros_from.induct)
  case (1 w z)
  show ?case
  proof (cases "z < maxHeight \<and> \<not> bit w z")
    case True
    then have "\<forall>j < z + 1. \<not> bit w j" using "1.prems" by (auto simp: less_Suc_eq)
    then show ?thesis using "1.IH" True
      by (subst (1 2 3 4) countTrailingZeros_from.simps) (auto simp: getBit_bit)
  next
    case False
    then have "countTrailingZeros_from w z = z"
      by (subst countTrailingZeros_from.simps) (auto simp: getBit_bit)
    then show ?thesis using False "1.prems" by auto
  qed
qed

lemma ctz_spec:
  "countTrailingZeros w \<le> 48"
  "j < countTrailingZeros w \<Longrightarrow> \<not> bit w j"
  "countTrailingZeros w < 48 \<Longrightarrow> bit w (countTrailingZeros w)"
  using ctz_from_spec [of 0 w] by (auto simp: countTrailingZeros_def maxHeight_def)

text \<open>\<open>level i x\<close>: the number \<open>x\<close> has exactly \<open>i\<close> trailing zero bits.\<close>

definition level :: "nat \<Rightarrow> nat \<Rightarrow> bool" where
  "level i x \<longleftrightarrow> x mod 2 ^ (i + 1) = 2 ^ i"

lemma level_bits: "level i x \<longleftrightarrow> bit x i \<and> (\<forall>j < i. \<not> bit x j)"
proof
  assume "level i x"
  then have "take_bit (i + 1) x = 2 ^ i" by (simp add: level_def take_bit_eq_mod)
  then have "bit (take_bit (i + 1) x) j = bit (2 ^ i :: nat) j" for j by simp
  then show "bit x i \<and> (\<forall>j < i. \<not> bit x j)"
    by (force simp: bit_simps)
next
  assume a: "bit x i \<and> (\<forall>j < i. \<not> bit x j)"
  have "take_bit (i + 1) x = 2 ^ i"
    by (rule bit_eqI) (use a in \<open>auto simp: bit_simps less_Suc_eq\<close>)
  then show "level i x" by (simp add: level_def take_bit_eq_mod)
qed

lemma bit_unat: "bit (unat (w :: u64)) j = bit w j"
  by (auto simp: bit_simps dest: bit_imp_le_length)

lemma ctz_level: "i < 48 \<Longrightarrow> countTrailingZeros w = i \<longleftrightarrow> level i (unat w)"
proof
  assume "i < 48" "countTrailingZeros w = i"
  then show "level i (unat w)" using ctz_spec(2) [of _ w] ctz_spec(3) [of w] by (auto simp: level_bits bit_unat)
next
  assume i: "i < 48" and l: "level i (unat w)"
  then have "bit w i" "\<forall>j < i. \<not> bit w j" by (auto simp: level_bits bit_unat)
  then show "countTrailingZeros w = i"
    using ctz_spec(2) [of i w] ctz_spec(3) [of w] i by (metis linorder_neqE_nat order.strict_trans)
qed

lemma ctz_zero: "countTrailingZeros 0 = 48"
  using ctz_spec(1,3) [of 0] by (metis bit_0_eq bot_fun_def bot_bool_def order_le_less)

lemma ctz_lt: "0 < unat w \<Longrightarrow> unat w < 2 ^ 48 \<Longrightarrow> countTrailingZeros w < 48"
proof (rule ccontr)
  assume w: "0 < unat w" "unat w < 2 ^ 48" "\<not> countTrailingZeros w < 48"
  then have "countTrailingZeros w = 48" using ctz_spec(1) [of w] by simp
  then have "\<forall>j < 48. \<not> bit w j" using ctz_spec(2) [of _ w] by simp
  then have "take_bit 48 (unat w) = 0"
    by (intro bit_eqI) (auto simp: bit_simps bit_unat)
  then show False using w by (simp add: take_bit_nat_eq_self)
qed

lemma unat_prefix: "unat (getPrefix w i) = unat w div 2 ^ i * 2 ^ i"
proof -
  have "unat (getPrefix w i) = push_bit i (drop_bit i (unat w))"
    by (rule bit_eqI) (auto simp: getPrefix_bits bit_unat bit_simps dest: bit_imp_le_length)
  then show ?thesis by (simp add: push_bit_eq_mult drop_bit_eq_div)
qed

text \<open>What can be derived from an element with \<open>i\<close> trailing zeros is the block of \<open>2 ^ i\<close> indices above it.\<close>

lemma block_div:
  assumes "(2 :: nat) ^ i dvd x"
  shows "x = y div 2 ^ i * 2 ^ i \<longleftrightarrow> x \<le> y \<and> y < x + 2 ^ i"
proof -
  obtain q where q: "x = 2 ^ i * q" using assms by (rule dvdE)
  have "y = y div 2 ^ i * 2 ^ i + y mod 2 ^ i" "y mod 2 ^ i < 2 ^ i"
    by (simp_all only: div_mult_mod_eq) simp
  moreover have "q = y div 2 ^ i" if "2 ^ i * q \<le> y" "y < 2 ^ i * q + 2 ^ i"
    by (rule div_nat_eqI [symmetric]) (use that in \<open>simp_all add: algebra_simps\<close>)
  ultimately show ?thesis unfolding q by (metis add_less_cancel_left le_add1 mult.commute)
qed

section \<open>Derivation as a walk down the tree\<close>

definition walk :: "('h \<Rightarrow> nat \<Rightarrow> 'h) \<Rightarrow> 'h \<Rightarrow> nat \<Rightarrow> nat \<Rightarrow> 'h" where
  "walk step seed z y = foldl step seed (filter (bit y) (rev [0..<z]))"

lemma walk_cong: "(\<And>j. j < z \<Longrightarrow> bit y j = bit y' j) \<Longrightarrow> walk step seed z y = walk step seed z y'"
proof -
  assume "\<And>j. j < z \<Longrightarrow> bit y j = bit y' j"
  then have "filter (bit y) (rev [0..<z]) = filter (bit y') (rev [0..<z])"
    by (intro filter_cong_set) auto
  then show ?thesis by (simp add: walk_def)
qed

lemma walk_simps [simp]:
  "walk step seed 0 y = seed"
  "walk step seed (Suc z) y = walk step (if bit y z then step seed z else seed) z y"
  by (simp_all add: walk_def)

lemma walk_zeros: "(\<And>j. j < z \<Longrightarrow> \<not> bit y j) \<Longrightarrow> walk step seed z y = seed"
  by (induction z) auto

lemma walk_top:
  assumes "k < z" "bit y k" "\<And>j. k < j \<Longrightarrow> j < z \<Longrightarrow> \<not> bit y j"
  shows "walk step seed z y = walk step (step seed k) k y"
  using assms
proof (induction z)
  case (Suc z)
  then show ?case by (cases "k = z") auto
qed simp

lemma transform_positions_filter: "transform_positions to p = filter (bit to) (rev [0..<Suc p])"
  by (induction p) (auto simp: getBit_bit)

lemma ctz_dvd: "(2 :: nat) ^ countTrailingZeros w dvd unat w"
proof -
  have "take_bit (countTrailingZeros w) (unat w) = 0"
    using ctz_spec(2) [of _ w] by (intro bit_eqI) (auto simp: bit_simps bit_unat)
  then show ?thesis by (simp add: take_bit_eq_mod mod_eq_0_iff_dvd)
qed

definition in_block :: "u64 \<Rightarrow> nat \<Rightarrow> bool" where
  "in_block w y \<longleftrightarrow> unat w \<le> y \<and> y < unat w + 2 ^ countTrailingZeros w"

lemma prefix_block: "w = getPrefix to (countTrailingZeros w) \<longleftrightarrow> in_block w (unat to)"
  using block_div [OF ctz_dvd, of w "unat to"] by (simp add: in_block_def word_eq_unat unat_prefix)

lemma derive_walk:
  "derive sha e to =
     (if in_block (el_index e) (unat to)
      then (case newHash (walk (flip_hash sha) (el_hash e) (countTrailingZeros (el_index e)) (unat to)) of
              Inl err \<Rightarrow> Inl err | Inr h \<Rightarrow> Inr (elem to h))
      else Inl NotDerivable)"
proof (cases "el_index e = to")
  case True
  then have "walk (flip_hash sha) (el_hash e) (countTrailingZeros to) (unat to) = el_hash e"
    using ctz_spec(2) [of _ to] by (intro walk_zeros) (simp add: bit_unat)
  moreover have "in_block to (unat to)" by (simp add: in_block_def)
  ultimately show ?thesis using True
    by (simp add: derive_def deriveBitTransformations_def)
next
  case False
  let ?z = "countTrailingZeros (el_index e)"
  show ?thesis
  proof (cases "in_block (el_index e) (unat to)")
    case True
    have "?z \<noteq> 0"
      using True False by (intro notI) (simp add: in_block_def word_eq_unat)
    then have "transform_positions to (?z - 1) = filter (bit (unat to)) (rev [0..<?z])"
      by (simp add: transform_positions_filter bit_unat cong: filter_cong)
    then show ?thesis using True False prefix_block [of "el_index e" to]
      by (simp add: derive_def deriveBitTransformations_def walk_def Let_def)
  next
    case out: False
    then show ?thesis using False prefix_block [of "el_index e" to]
      by (simp add: derive_def deriveBitTransformations_def Let_def)
  qed
qed

text \<open>Every result of a derivation is 32 bytes long when the hash function's results and the seed are.\<close>

lemma walk_length:
  assumes "\<And>x. length (sha x) = 32" "length h = 32"
  shows "length (walk (flip_hash sha) h z y) = 32"
  using assms(2) by (induction z arbitrary: h) (auto simp: flip_hash_def Let_def assms(1))

lemma derive_ok:
  assumes "\<And>x. length (sha x) = 32" "length (el_hash e) = 32" "in_block (el_index e) (unat to)"
  shows "derive sha e to
    = Inr (elem to (walk (flip_hash sha) (el_hash e) (countTrailingZeros (el_index e)) (unat to)))"
  using assms walk_length [of sha] by (simp add: derive_walk newHash_def)

lemma derive_out: "\<not> in_block (el_index e) (unat to) \<Longrightarrow> derive sha e to = Inl NotDerivable"
  by (simp add: derive_walk)

text \<open>Stepping through the highest set bit of the offset.\<close>

lemma top_bit:
  assumes "0 < d" "d < (2 :: nat) ^ b"
  obtains k where "k < b" "2 ^ k \<le> d" "d < 2 ^ (k + 1)"
proof -
  have "\<exists>k. k < b \<and> 2 ^ k \<le> d \<and> d < 2 ^ (k + 1)"
    using assms
  proof (induction b)
    case (Suc b)
    then show ?case by (cases "d < 2 ^ b") (auto simp: less_Suc_eq)
  qed simp
  then show ?thesis using that by blast
qed

lemma bits_above_block:
  assumes "(2 :: nat) ^ b dvd x" "d < 2 ^ b"
  shows "bit (x + d) j = (if j < b then bit d j else bit x j)"
proof -
  have "push_bit b (drop_bit b x) = x"
    using assms(1) by (simp add: push_bit_eq_mult drop_bit_eq_div)
  then have x: "\<not> bit x j" if "j < b" for j
    using that by (metis bit_push_bit_iff_nat not_le)
  have d: "\<not> bit d j" if "j \<ge> b" for j
    using assms(2) that by (metis bit_take_bit_iff linorder_not_le take_bit_nat_eq_self)
  have "x + d = x OR d"
    by (rule disjunctive_add) (use x d not_le in blast)
  then show ?thesis using x d by (auto simp: bit_or_iff)
qed

lemma walk_via:
  assumes "(2 :: nat) ^ b dvd x" "k < b" "2 ^ k \<le> d" "d < 2 ^ (k + 1)"
  shows "walk step seed b (x + d) = walk step (walk step seed b (x + 2 ^ k)) k (x + d)"
proof -
  have db: "d < 2 ^ b" using assms 
  proof -
    have "(2 :: nat) ^ (k + 1) \<le> 2 ^ b" using assms(2) by (intro power_increasing) auto
    then show ?thesis using assms(4) by simp
  qed
  have kb: "(2 :: nat) ^ k < 2 ^ b" using assms(2) by simp
  have bd: "bit d k" "\<not> bit d j" if "k < j" for j
  proof -
    have "drop_bit k d = 1"
      using assms(3,4) by (simp add: drop_bit_eq_div div_nat_eqI)
    then show "bit d k" by (simp add: bit_iff_odd drop_bit_eq_div)
    have "d = take_bit (k + 1) d" using assms(4) by (simp add: take_bit_nat_eq_self)
    then show "\<not> bit d j" using that by (metis bit_take_bit_iff less_Suc_eq_le Suc_eq_plus1 not_le)
  qed
  have "walk step seed b (x + d) = walk step (step seed k) k (x + d)"
    using assms(2) bd(1) [of "Suc k"] bd(2) by (intro walk_top) (auto simp: bits_above_block [OF assms(1) db])
  moreover have "walk step seed b (x + 2 ^ k) = walk step (step seed k) k (x + 2 ^ k)"
    using assms(2) by (intro walk_top) (auto simp: bits_above_block [OF assms(1) kb] bit_simps)
  moreover have "walk step (step seed k) k (x + 2 ^ k) = step seed k"
    using assms(2) by (intro walk_zeros) (auto simp: bits_above_block [OF assms(1) kb] bit_simps)
  ultimately show ?thesis by simp
qed

section \<open>Levels\<close>

lemma window_unique:
  assumes "x mod m = y mod m" "c \<le> x" "x < c + m" "c \<le> y" "y < c + (m :: nat)"
  shows "x = y"
proof -
  have "x = y" if "x \<le> y" "x mod m = y mod m" "c \<le> x" "y < c + m" for x y
  proof -
    have "m dvd y - x" using that by (metis mod_eq_dvd_iff_nat)
    moreover have "y - x < m" using that by linarith
    ultimately show ?thesis using that by (metis dvd_imp_le le_antisym diff_is_0_eq not_le zero_less_iff_neq_zero)
  qed
  then show ?thesis using assms by (metis nat_le_linear)
qed

lemma level_unique:
  assumes "level i x" "level i y" "c \<le> x" "x < c + 2 ^ (i + 1)" "c \<le> y" "y < c + 2 ^ (i + 1)"
  shows "x = y"
  using assms window_unique [of x "2 ^ (i + 1)" y c] by (simp add: level_def)

lemma level_pos: "level i x \<Longrightarrow> 0 < x"
  by (auto simp: level_def intro: gr0I)

lemma level_dvd: "level i x \<Longrightarrow> j \<le> i \<Longrightarrow> 2 ^ j dvd x"
proof -
  assume "level i x" "j \<le> i"
  then have "take_bit j x = 0" by (intro bit_eqI) (auto simp: level_bits bit_simps)
  then show ?thesis by (simp add: take_bit_eq_mod mod_eq_0_iff_dvd)
qed

lemma level_below: "2 ^ (i + 1) dvd c \<Longrightarrow> level i (c + 2 ^ i)"
  by (auto simp: level_def mod_add_eq elim!: dvdE)

lemma level_not_above: "level i x \<Longrightarrow> level i (x + 2 ^ (i + 1))"
  by (simp add: level_def)

lemma dvd_block_le:
  assumes "(2 :: nat) ^ b dvd x" "x < 2 ^ n" "b \<le> n"
  shows "x + 2 ^ b \<le> 2 ^ n"
proof -
  obtain q where q: "x = 2 ^ b * q" using assms(1) by (rule dvdE)
  have pw: "(2 :: nat) ^ n = 2 ^ b * 2 ^ (n - b)" using assms(3) by (simp add: power_add [symmetric])
  then have "q + 1 \<le> 2 ^ (n - b)" using assms(2) q by simp
  then have "2 ^ b * (q + 1) \<le> 2 ^ b * 2 ^ (n - b)" by (rule mult_le_mono2)
  then have "2 ^ b * (q + 1) \<le> (2 :: nat) ^ n" using pw by simp
  then show ?thesis by (simp add: q)
qed

text \<open>Every index at or above \<open>c\<close> lies in the block of an index of its own level that is the least such one.\<close>

lemma step_down: "P 0 \<Longrightarrow> \<not> P n \<Longrightarrow> \<exists>z < n. P z \<and> \<not> P (Suc z)"
  by (induction n) (auto simp: less_Suc_eq)

lemma block_cover:
  assumes "0 < c" "c \<le> y" "y < 2 ^ 48"
  obtains z a where "z < 48" "level z a" "c \<le> a" "a < c + 2 ^ (z + 1)" "a \<le> y" "y < a + 2 ^ z"
proof -
  let ?P = "\<lambda>z. c \<le> y div 2 ^ z * 2 ^ z"
  have "?P 0" "\<not> ?P 48" using assms by simp_all
  then obtain z where z: "z < 48" "?P z" "\<not> ?P (Suc z)" using step_down [of ?P 48] by blast
  define q where "q = y div 2 ^ z"
  have div2: "y div 2 ^ Suc z = q div 2" by (simp add: q_def div_mult2_eq [symmetric] mult.commute)
  have odd: "odd q"
  proof
    assume "even q"
    then have "q div 2 * 2 ^ Suc z = q * 2 ^ z" by (auto elim!: evenE)
    then have "y div 2 ^ Suc z * 2 ^ Suc z = q * 2 ^ z" unfolding div2 .
    then show False using z(2,3) unfolding q_def by (simp only: not_True_eq_False)
  qed
  then obtain r where r: "q = 2 * r + 1" by (rule oddE)
  have lev: "level z (q * 2 ^ z)"
    by (simp add: level_def r algebra_simps)
  have "r * 2 ^ Suc z < c" using z(3) div2 r by simp
  then have less: "q * 2 ^ z < c + 2 ^ (z + 1)" by (simp add: r algebra_simps)
  have "y < q * 2 ^ z + 2 ^ z"
    using dividend_less_div_times [of "2 ^ z" y] by (simp add: q_def add.commute)
  moreover have "q * 2 ^ z \<le> y" by (simp add: q_def)
  ultimately show ?thesis using that [OF z(1) lev] z(2) less by (simp add: q_def)
qed

section \<open>The invariant of the store\<close>

text \<open>
  \<open>hs\<close> are the hashes added so far, the oldest first: the one added as number \<open>v\<close> belongs to index
  \<open>2 ^ 48 - 1 - v\<close>. Bucket \<open>i\<close> holds the least revealed index of level \<open>i\<close>, and every revealed
  index of its block derives to the hash that was added for it.
\<close>

definition top_index :: nat where
  "top_index = 2 ^ 48 - 1"

definition hash_at :: "byte list list \<Rightarrow> nat \<Rightarrow> byte list" where
  "hash_at hs y = hs ! (top_index - y)"

definition lowest :: "byte list list \<Rightarrow> nat" where
  "lowest hs = top_index + 1 - length hs"

definition bucket_ok :: "(byte list \<Rightarrow> byte list) \<Rightarrow> byte list list \<Rightarrow> nat \<Rightarrow> element \<Rightarrow> bool" where
  "bucket_ok sha hs i b \<longleftrightarrow>
     level i (unat (el_index b)) \<and> lowest hs \<le> unat (el_index b) \<and>
     unat (el_index b) < lowest hs + 2 ^ (i + 1) \<and> unat (el_index b) \<le> top_index \<and>
     length (el_hash b) = 32 \<and>
     (\<forall>y. unat (el_index b) \<le> y \<and> y < unat (el_index b) + 2 ^ i \<longrightarrow>
          walk (flip_hash sha) (el_hash b) i y = hash_at hs y)"

definition store_inv :: "(byte list \<Rightarrow> byte list) \<Rightarrow> revocation_store \<Rightarrow> byte list list \<Rightarrow> bool" where
  "store_inv sha st hs \<longleftrightarrow>
     length hs \<le> top_index \<and> unat (st_index st) = top_index - length hs \<and>
     length (buckets st) = 48 \<and> lenBuckets st \<le> 48 \<and>
     (\<forall>i < lenBuckets st. bucket_ok sha hs i (buckets st ! i)) \<and>
     (\<forall>i < 48. lenBuckets st \<le> i \<longrightarrow> buckets st ! i = zero_element \<and>
        (\<forall>y. lowest hs \<le> y \<and> y \<le> top_index \<longrightarrow> \<not> level i y))"

lemma unat_startIndex: "unat startIndex = top_index"
  by (simp add: startIndex_def maxHeight_def top_index_def push_bit_eq_mult)

lemma store_inv_new: "store_inv sha newRevocationStore []"
  by (auto simp: store_inv_def newRevocationStore_def unat_startIndex maxHeight_def lowest_def)

lemma in_block_bucket:
  assumes "bucket_ok sha hs i b" "i < 48"
  shows "in_block (el_index b) y \<longleftrightarrow> unat (el_index b) \<le> y \<and> y < unat (el_index b) + 2 ^ i"
    and "countTrailingZeros (el_index b) = i"
  using assms ctz_level [of i "el_index b"] by (auto simp: in_block_def bucket_ok_def)

lemma unat_newIndex: "unat v \<le> top_index \<Longrightarrow> unat (newIndex v) = top_index - unat v"
  by (simp add: newIndex_def unat_sub word_le_nat_alt unat_startIndex)

lemma newIndex_wrap: "top_index < unat v \<Longrightarrow> top_index < unat (newIndex v)"
proof (rule ccontr)
  assume v: "top_index < unat v" and "\<not> top_index < unat (newIndex v)"
  then have "newIndex v \<le> startIndex" by (simp add: word_le_nat_alt unat_startIndex)
  then have "unat (startIndex - newIndex v) = top_index - unat (newIndex v)"
    by (simp add: unat_sub word_le_nat_alt unat_startIndex)
  then show False using v by (simp add: newIndex_def)
qed

lemma bucket_derive:
  assumes "\<And>x. length (sha x) = 32" "bucket_ok sha hs i b" "i < 48"
  shows "derive sha b ind =
    (if unat (el_index b) \<le> unat ind \<and> unat ind < unat (el_index b) + 2 ^ i
     then Inr (elem ind (hash_at hs (unat ind))) else Inl NotDerivable)"
  using derive_ok [OF assms(1), of b ind] derive_out [of b ind sha] in_block_bucket [OF assms(2,3)]
    assms(2)
  by (auto simp: bucket_ok_def)

lemma bucket_block_top:
  assumes "bucket_ok sha hs i b" "i < 48"
  shows "unat (el_index b) + 2 ^ i \<le> top_index + 1"
proof -
  have "2 ^ i dvd unat (el_index b)" "unat (el_index b) < 2 ^ 48"
    using assms level_dvd [of i _ i] by (auto simp: bucket_ok_def top_index_def)
  then show ?thesis using dvd_block_le [of i _ 48] assms(2) by (simp add: top_index_def)
qed

section \<open>Looking up\<close>

lemma lookUp_from_miss:
  "(\<And>b. b \<in> set bs \<Longrightarrow> derive sha b ind = Inl NotDerivable) \<Longrightarrow>
   lookUp_from sha bs ind = Inl (UnableToDerive ind)"
  by (induction bs) auto

lemma lookUp_from_hit:
  assumes "\<And>b. b \<in> set bs \<Longrightarrow> derive sha b ind \<in> {Inl NotDerivable, Inr (elem ind h)}"
    and "b \<in> set bs" "derive sha b ind = Inr (elem ind h)"
  shows "lookUp_from sha bs ind = Inr h"
  using assms
proof (induction bs)
  case (Cons a bs)
  from Cons.prems(1) [of a] consider "derive sha a ind = Inr (elem ind h)"
    | "derive sha a ind = Inl NotDerivable" by auto
  then show ?case
  proof cases
    case 2
    then have "b \<in> set bs" using Cons.prems by auto
    then show ?thesis using Cons 2 by simp
  qed (simp add: elem_def)
qed simp

lemma take_bucket_ok:
  assumes "store_inv sha st hs" "b \<in> set (take (lenBuckets st) (buckets st))"
  obtains i where "i < lenBuckets st" "i < 48" "b = buckets st ! i" "bucket_ok sha hs i b"
  using assms by (auto simp: in_set_conv_nth store_inv_def)

lemma lookUp_spec:
  assumes sha: "\<And>x. length (sha x) = 32" and inv: "store_inv sha st hs"
  shows "lookUp sha st v =
    (if unat v < length hs then Inr (hs ! unat v) else Inl (UnableToDerive (newIndex v)))"
proof (cases "unat v < length hs")
  case True
  let ?y = "top_index - unat v"
  have len: "length hs \<le> top_index" and top: "top_index < 2 ^ 48"
    using inv by (auto simp: store_inv_def top_index_def)
  have y: "unat (newIndex v) = ?y" using unat_newIndex True len by simp
  have hash: "hash_at hs ?y = hs ! unat v" using True len by (simp add: hash_at_def)
  have "0 < lowest hs" "lowest hs \<le> ?y" "?y < 2 ^ 48"
    using True len top by (auto simp: lowest_def)
  then obtain z a where za: "z < 48" "level z a" "lowest hs \<le> a" "a < lowest hs + 2 ^ (z + 1)"
    "a \<le> ?y" "?y < a + 2 ^ z"
    using block_cover by blast
  have zl: "z < lenBuckets st"
  proof (rule ccontr)
    assume "\<not> z < lenBuckets st"
    then have "\<not> level z a" using inv za(1,3,5) by (simp add: store_inv_def)
    then show False using za(2) by simp
  qed
  let ?b = "buckets st ! z"
  have ok: "bucket_ok sha hs z ?b" using inv zl by (simp add: store_inv_def)
  then have "unat (el_index ?b) = a"
    by (intro level_unique [OF _ za(2) _ _ za(3,4)]) (simp_all add: bucket_ok_def)
  then have hit: "derive sha ?b (newIndex v) = Inr (elem (newIndex v) (hs ! unat v))"
    using bucket_derive [of sha hs z ?b "newIndex v", OF sha ok za(1)] za y hash by simp
  have "z < length (take (lenBuckets st) (buckets st))" using inv zl by (simp add: store_inv_def)
  then have "take (lenBuckets st) (buckets st) ! z \<in> set (take (lenBuckets st) (buckets st))"
    by (rule nth_mem)
  then have mem: "?b \<in> set (take (lenBuckets st) (buckets st))" using zl by simp
  have "lookUp_from sha (take (lenBuckets st) (buckets st)) (newIndex v) = Inr (hs ! unat v)"
  proof (rule lookUp_from_hit [OF _ mem hit])
    fix b assume "b \<in> set (take (lenBuckets st) (buckets st))"
    then obtain i where "i < 48" "bucket_ok sha hs i b" by (rule take_bucket_ok [OF inv])
    then show "derive sha b (newIndex v)
        \<in> {Inl NotDerivable, Inr (elem (newIndex v) (hs ! unat v))}"
      using bucket_derive [of sha hs i b "newIndex v", OF sha] y hash by simp
  qed
  then show ?thesis using True by (simp add: lookUp_def)
next
  case False
  have out: "\<not> (unat (el_index b) \<le> unat (newIndex v) \<and> unat (newIndex v) < unat (el_index b) + 2 ^ i)"
    if "bucket_ok sha hs i b" "i < 48" for i b
  proof (cases "unat v \<le> top_index")
    case True
    then have "unat (newIndex v) < lowest hs"
      using unat_newIndex False by (auto simp: lowest_def)
    then show ?thesis using that by (auto simp: bucket_ok_def)
  next
    case False
    then show ?thesis using newIndex_wrap [of v] bucket_block_top [OF that] by auto
  qed
  have "lookUp_from sha (take (lenBuckets st) (buckets st)) (newIndex v)
      = Inl (UnableToDerive (newIndex v))"
  proof (rule lookUp_from_miss)
    fix b assume "b \<in> set (take (lenBuckets st) (buckets st))"
    then obtain i where i: "i < 48" "bucket_ok sha hs i b" by (rule take_bucket_ok [OF inv])
    show "derive sha b (newIndex v) = Inl NotDerivable"
      using bucket_derive [of sha hs i b "newIndex v", OF sha i(2,1)] out [OF i(2,1)] by (simp only: if_False)
  qed
  then show ?thesis using False by (simp add: lookUp_def)
qed

section \<open>Adding the next entry\<close>

lemma bucket_hash:
  assumes "bucket_ok sha hs i b"
  shows "el_hash b = hash_at hs (unat (el_index b))"
proof -
  have "walk (flip_hash sha) (el_hash b) i (unat (el_index b)) = el_hash b"
    using assms by (intro walk_zeros) (auto simp: bucket_ok_def level_bits)
  then show ?thesis using assms by (auto simp: bucket_ok_def)
qed

lemma store_inv_unfilled:
  "store_inv sha st hs \<Longrightarrow> \<not> i < lenBuckets st \<Longrightarrow> i < 48 \<Longrightarrow> lowest hs \<le> y \<Longrightarrow>
   y \<le> top_index \<Longrightarrow> \<not> level i y"
  by (simp add: store_inv_def)

lemma lower_bucket:
  assumes inv: "store_inv sha st hs" and c: "level b (unat (st_index st))" "b < 48" "i < b"
  shows "i < lenBuckets st" "unat (el_index (buckets st ! i)) = unat (st_index st) + 2 ^ i"
    "el_hash (buckets st ! i) = hash_at hs (unat (st_index st) + 2 ^ i)"
proof -
  let ?c = "unat (st_index st)"
  have cN: "?c = top_index - length hs" "length hs \<le> top_index" "0 < ?c"
    using inv level_pos [OF c(1)] by (auto simp: store_inv_def)
  have low: "lowest hs = ?c + 1" using cN by (simp add: lowest_def)
  have dvd: "2 ^ (i + 1) dvd ?c" using c level_dvd [of b ?c "i + 1"] by simp
  have lev: "level i (?c + 2 ^ i)" by (rule level_below [OF dvd])
  have "?c + 2 ^ b \<le> 2 ^ 48"
    using level_dvd [OF c(1) order_refl] c(2) cN
    by (intro dvd_block_le) (auto simp: top_index_def)
  moreover have pw: "(2 :: nat) ^ i < 2 ^ b" using c(3) by simp
  ultimately have "?c + 2 ^ i < 2 ^ 48" by linarith
  then have top: "?c + 2 ^ i \<le> top_index" by (simp add: top_index_def)
  show i: "i < lenBuckets st"
  proof (rule ccontr)
    assume "\<not> i < lenBuckets st"
    then have "\<not> level i (?c + 2 ^ i)"
      using store_inv_unfilled [OF inv, of i "?c + 2 ^ i"] c low top by simp
    then show False using lev by simp
  qed
  then have ok: "bucket_ok sha hs i (buckets st ! i)" using inv by (simp add: store_inv_def)
  show idx: "unat (el_index (buckets st ! i)) = ?c + 2 ^ i"
    by (rule level_unique [OF _ lev, of _ "lowest hs"]) (use ok low in \<open>simp_all add: bucket_ok_def\<close>)
  show "el_hash (buckets st ! i) = hash_at hs (?c + 2 ^ i)"
    using bucket_hash [OF ok] idx by simp
qed

text \<open>The new hash agrees with every revealed hash that can be derived from it.\<close>

definition agrees :: "(byte list \<Rightarrow> byte list) \<Rightarrow> byte list list \<Rightarrow> nat \<Rightarrow> nat \<Rightarrow> byte list \<Rightarrow> bool" where
  "agrees sha hs b c h \<longleftrightarrow>
     (\<forall>y. c < y \<and> y < c + 2 ^ b \<longrightarrow> walk (flip_hash sha) h b y = hash_at hs y)"

lemma agrees_buckets:
  assumes inv: "store_inv sha st hs" and c: "level b (unat (st_index st))" "b < 48"
  shows "agrees sha hs b (unat (st_index st)) h \<longleftrightarrow>
    (\<forall>i < b. walk (flip_hash sha) h b (unat (st_index st) + 2 ^ i)
              = hash_at hs (unat (st_index st) + 2 ^ i))"
proof
  let ?c = "unat (st_index st)"
  assume l: "\<forall>i < b. walk (flip_hash sha) h b (?c + 2 ^ i) = hash_at hs (?c + 2 ^ i)"
  show "agrees sha hs b ?c h"
    unfolding agrees_def
  proof (intro allI impI)
    fix y assume y: "?c < y \<and> y < ?c + 2 ^ b"
    then have "0 < y - ?c" "y - ?c < 2 ^ b" by auto
    then obtain k where k: "k < b" "2 ^ k \<le> y - ?c" "y - ?c < 2 ^ (k + 1)"
      using top_bit by blast
    have y': "?c + (y - ?c) = y" using y by simp
    have "walk (flip_hash sha) h b y = walk (flip_hash sha) (hash_at hs (?c + 2 ^ k)) k y"
      using walk_via [OF level_dvd [OF c(1) order_refl] k, of "flip_hash sha" h] l k(1)
      unfolding y' by simp
    also have "\<dots> = hash_at hs y"
    proof -
      have "bucket_ok sha hs k (buckets st ! k)"
        using inv lower_bucket(1) [OF inv c k(1)] by (simp add: store_inv_def)
      moreover have "?c + 2 ^ k \<le> y" "y < ?c + 2 ^ k + 2 ^ k" using y k by auto
      ultimately show ?thesis using lower_bucket [OF inv c k(1)] by (simp add: bucket_ok_def)
    qed
    finally show "walk (flip_hash sha) h b y = hash_at hs y" .
  qed
qed (auto simp: agrees_def)

lemma check_buckets_spec:
  assumes "\<And>b. b \<in> set bs \<Longrightarrow> \<exists>e. derive sha el (el_index b) = Inr e"
  shows "check_buckets sha el bs =
    (if \<forall>b \<in> set bs. \<forall>e. derive sha el (el_index b) = Inr e \<longrightarrow> isEqual e b then None
     else Some HashMismatch)"
  using assms
proof (induction bs)
  case (Cons b bs)
  obtain e where "derive sha el (el_index b) = Inr e" using Cons.prems [of b] by auto
  then show ?case using Cons by simp
qed simp

lemma check_lower:
  assumes sha: "\<And>x. length (sha x) = 32" and inv: "store_inv sha st hs"
    and c: "level b (unat (st_index st))" "b < 48" and h: "length h = 32"
  shows "check_buckets sha (elem (st_index st) h) (take b (buckets st)) =
    (if agrees sha hs b (unat (st_index st)) h then None else Some HashMismatch)"
proof -
  let ?c = "unat (st_index st)"
  have ctz: "countTrailingZeros (st_index st) = b" using c ctz_level by simp
  have len: "length (take b (buckets st)) = b" using inv c(2) by (simp add: store_inv_def)
  have d: "derive sha (elem (st_index st) h) (el_index (buckets st ! i))
      = Inr (elem (el_index (buckets st ! i)) (walk (flip_hash sha) h b (?c + 2 ^ i)))"
    if "i < b" for i
    using derive_ok [of sha "elem (st_index st) h" "el_index (buckets st ! i)"] sha h that
      lower_bucket(2) [OF inv c that] ctz
    by (simp add: elem_def in_block_def)
  have nth: "take b (buckets st) ! i = buckets st ! i" if "i < b" for i using that by simp
  have ex: "\<exists>e. derive sha (elem (st_index st) h) (el_index b') = Inr e"
    if b': "b' \<in> set (take b (buckets st))" for b'
    using b' d len nth by (metis in_set_conv_nth)
  have eq: "isEqual (elem (el_index (buckets st ! i)) w) (buckets st ! i)
      \<longleftrightarrow> w = hash_at hs (?c + 2 ^ i)" if "i < b" for i w
    using lower_bucket(3) [OF inv c that] by (simp add: isEqual_def elem_def)
  have "(\<forall>b' \<in> set (take b (buckets st)). \<forall>e.
        derive sha (elem (st_index st) h) (el_index b') = Inr e \<longrightarrow> isEqual e b')
      \<longleftrightarrow> (\<forall>i < b. walk (flip_hash sha) h b (?c + 2 ^ i) = hash_at hs (?c + 2 ^ i))"
    unfolding all_set_conv_all_nth len using d nth eq by simp
  then show ?thesis
    using check_buckets_spec [OF ex] agrees_buckets [OF inv c, of h] by simp
qed

lemma level_inj: "level i x \<Longrightarrow> level j x \<Longrightarrow> i = j"
  by (metis level_bits linorder_neqE_nat)

lemma level_add_cancel: "level i (x + 2 ^ (i + 1)) \<Longrightarrow> level i x"
  by (simp add: level_def)

lemma hash_at_snoc:
  "length hs < top_index \<Longrightarrow> hash_at (hs @ [h]) (top_index - length hs) = h"
  "lowest hs \<le> y \<Longrightarrow> y \<le> top_index \<Longrightarrow> hash_at (hs @ [h]) y = hash_at hs y"
  by (auto simp: hash_at_def lowest_def nth_append)

definition stored :: "revocation_store \<Rightarrow> nat \<Rightarrow> byte list \<Rightarrow> revocation_store" where
  "stored st b h =
     \<lparr>lenBuckets = (if b + 1 > lenBuckets st then b + 1 else lenBuckets st),
      buckets = (buckets st)[b := elem (st_index st) h], st_index = st_index st - 1\<rparr>"

lemma bucket_ok_snoc:
  assumes "bucket_ok sha hs i b" "i < 48" "length hs < top_index"
    and "level j (top_index - length hs)" "i \<noteq> j"
  shows "bucket_ok sha (hs @ [h]) i b"
proof -
  let ?x = "unat (el_index b)" and ?c = "top_index - length hs"
  have low: "lowest hs = ?c + 1" "lowest (hs @ [h]) = ?c"
    using assms(3) by (auto simp: lowest_def)
  have "?x \<noteq> ?c + 2 ^ (i + 1)"
  proof
    assume "?x = ?c + 2 ^ (i + 1)"
    then have "level i (?c + 2 ^ (i + 1))" using assms(1) by (simp add: bucket_ok_def)
    then show False using level_inj assms(4,5) level_add_cancel by blast
  qed
  then have x: "?x < ?c + 2 ^ (i + 1)" "lowest hs \<le> ?x" using assms(1) low by (auto simp: bucket_ok_def)
  have "hash_at (hs @ [h]) y = hash_at hs y" if "?x \<le> y" "y < ?x + 2 ^ i" for y
    using that x(2) bucket_block_top [OF assms(1,2)] by (intro hash_at_snoc(2)) auto
  then show ?thesis using assms(1) x low by (auto simp: bucket_ok_def)
qed

lemma bucket_ok_new:
  assumes "level b (unat w)" "b < 48" "unat w = top_index - length hs" "length hs < top_index"
    and "agrees sha hs b (unat w) h" "length h = 32"
  shows "bucket_ok sha (hs @ [h]) b (elem w h)"
proof -
  have low: "lowest (hs @ [h]) = unat w" "lowest hs = unat w + 1"
    using assms(3,4) by (auto simp: lowest_def)
  have "unat w + 2 ^ b \<le> 2 ^ 48"
    using level_dvd [OF assms(1) order_refl] assms(2,3)
    by (intro dvd_block_le) (auto simp: top_index_def)
  then have block: "unat w + 2 ^ b \<le> top_index + 1" by (simp add: top_index_def)
  have "walk (flip_hash sha) h b y = hash_at (hs @ [h]) y" if y: "unat w \<le> y" "y < unat w + 2 ^ b" for y
  proof (cases "y = unat w")
    case True
    have "walk (flip_hash sha) h b (unat w) = h"
      using assms(1) by (intro walk_zeros) (auto simp: level_bits)
    then show ?thesis using True hash_at_snoc(1) assms(3,4) by simp
  next
    case False
    then have "walk (flip_hash sha) h b y = hash_at hs y" using assms(5) y by (simp add: agrees_def)
    then show ?thesis using hash_at_snoc(2) False y low block by simp
  qed
  moreover have "unat w \<le> top_index" using assms(3) by simp
  ultimately show ?thesis using assms(1,6) low(1) by (simp add: bucket_ok_def elem_def)
qed

lemma stored_inv:
  assumes inv: "store_inv sha st hs" and c: "level b (unat (st_index st))" "b < 48"
    and len: "length hs < top_index" "length h = 32"
    and ag: "agrees sha hs b (unat (st_index st)) h"
  shows "store_inv sha (stored st b h) (hs @ [h])"
proof -
  let ?st = "stored st b h"
  have idx: "unat (st_index st) = top_index - length hs" and bl: "length (buckets st) = 48"
    using inv by (auto simp: store_inv_def)
  have low: "lowest (hs @ [h]) = top_index - length hs" "lowest hs = top_index - length hs + 1"
    using len by (auto simp: lowest_def)
  have "1 \<le> st_index st" using level_pos [OF c(1)] by (simp add: word_le_nat_alt)
  then have "unat (st_index st - 1) = top_index - length (hs @ [h])"
    using idx by (simp add: unat_sub)
  moreover have "bucket_ok sha (hs @ [h]) i (buckets ?st ! i)" if i: "i < lenBuckets ?st" for i
  proof (cases "i = b")
    case True
    then show ?thesis using bucket_ok_new [OF c idx len(1) ag len(2)] bl c(2) by (simp add: stored_def)
  next
    case False
    then have "i < lenBuckets st"
      using i lower_bucket(1) [OF inv c, of i] by (auto simp: stored_def split: if_splits)
    then have "bucket_ok sha hs i (buckets st ! i)" "i < 48" using inv by (auto simp: store_inv_def)
    then show ?thesis
      using bucket_ok_snoc [of sha hs i _ b h] len(1) c(1) idx False by (simp add: stored_def)
  qed
  moreover have "buckets ?st ! i = zero_element \<and>
      (\<forall>y. lowest (hs @ [h]) \<le> y \<and> y \<le> top_index \<longrightarrow> \<not> level i y)"
    if i: "i < 48" "lenBuckets ?st \<le> i" for i
  proof -
    have ib: "i \<noteq> b" "lenBuckets st \<le> i" using i(2) by (auto simp: stored_def split: if_splits)
    have "\<not> level i y" if "lowest (hs @ [h]) \<le> y" "y \<le> top_index" for y
    proof (cases "y = top_index - length hs")
      case True
      then show ?thesis using level_inj c(1) idx ib(1) by metis
    next
      case False
      then show ?thesis using store_inv_unfilled [OF inv] ib(2) i(1) that low by simp
    qed
    then show ?thesis using inv i ib by (simp add: stored_def store_inv_def)
  qed
  moreover have "lenBuckets ?st \<le> 48" using inv c(2) by (simp add: stored_def store_inv_def)
  ultimately show ?thesis using len(1) bl by (simp add: store_inv_def stored_def)
qed

lemma store_level:
  assumes "store_inv sha st hs" "length hs < top_index"
  obtains "level (countTrailingZeros (st_index st)) (unat (st_index st))"
    "countTrailingZeros (st_index st) < 48"
proof -
  have "unat (st_index st) = top_index - length hs" "0 < unat (st_index st)"
    "unat (st_index st) < 2 ^ 48"
    using assms by (auto simp: store_inv_def top_index_def)
  then show ?thesis using ctz_lt [of "st_index st"] ctz_level that by blast
qed

lemma addNextEntry_eq:
  assumes sha: "\<And>x. length (sha x) = 32" and inv: "store_inv sha st hs"
    and len: "length hs < top_index" "length h = 32"
  shows "addNextEntry sha st h =
    (if agrees sha hs (countTrailingZeros (st_index st)) (unat (st_index st)) h
     then Inr (stored st (countTrailingZeros (st_index st)) h) else Inl HashMismatch)"
proof -
  obtain c: "level (countTrailingZeros (st_index st)) (unat (st_index st))"
    "countTrailingZeros (st_index st) < 48" using store_level [OF inv len(1)] .
  then show ?thesis
    using check_lower [OF sha inv c len(2)] inv
    by (simp add: addNextEntry_def elem_def stored_def store_inv_def Let_def)
qed

lemma addNextEntry_inv:
  assumes "\<And>x. length (sha x) = 32" "store_inv sha st hs" "length hs < top_index" "length h = 32"
    and "addNextEntry sha st h = Inr st'"
  shows "store_inv sha st' (hs @ [h])"
  using addNextEntry_eq [OF assms(1-4)] stored_inv [OF assms(2) _ _ assms(3,4)]
    store_level [OF assms(2,3)] assms(5)
  by (auto split: if_splits)

section \<open>The store as an interface\<close>

text \<open>
  \<open>shachain.Store\<close> as its clients see it: \<open>holds st hs\<close> says that the store is in a state reached
  by adding the secrets \<open>hs\<close>. The laws are what \<open>AddNextEntry\<close> and \<open>LookUp\<close> promise to the channel.
\<close>

fun add_seq :: "('s \<Rightarrow> 'h \<Rightarrow> 'e + 's) \<Rightarrow> 's \<Rightarrow> 'h list \<Rightarrow> 'e + 's" where
  "add_seq add st [] = Inr st"
| "add_seq add st (h # hs) = (case add st h of Inl e \<Rightarrow> Inl e | Inr st' \<Rightarrow> add_seq add st' hs)"

lemma add_seq_snoc:
  "add_seq f s (xs @ [x]) = (case add_seq f s xs of Inl e \<Rightarrow> Inl e | Inr s' \<Rightarrow> f s' x)"
  by (induction xs arbitrary: s) (auto split: sum.splits)

locale secret_store =
  fixes empty :: 's
    and add :: "'s \<Rightarrow> 'h \<Rightarrow> 'e + 's"
    and look :: "'s \<Rightarrow> u64 \<Rightarrow> 'e + 'h"
    and holds :: "'s \<Rightarrow> 'h list \<Rightarrow> bool"
    and valid :: "'h \<Rightarrow> bool"
    and cap :: nat
  assumes holds_empty: "holds empty []"
    and add_holds: "holds st hs \<Longrightarrow> length hs < cap \<Longrightarrow> valid h \<Longrightarrow> add st h = Inr st' \<Longrightarrow>
                    holds st' (hs @ [h])"
    and look_added: "holds st hs \<Longrightarrow> unat v < length hs \<Longrightarrow> look st v = Inr (hs ! unat v)"
    and look_missing: "holds st hs \<Longrightarrow> \<not> unat v < length hs \<Longrightarrow> \<exists>e. look st v = Inl e"
begin

lemma add_seq_holds:
  assumes "holds st hs" "add_seq add st hs' = Inr st'" "\<forall>h \<in> set hs'. valid h"
    and "length hs + length hs' \<le> cap"
  shows "holds st' (hs @ hs')"
  using assms
proof (induction hs' arbitrary: st hs)
  case (Cons h hs')
  then obtain s1 where s1: "add st h = Inr s1" "add_seq add s1 hs' = Inr st'"
    by (auto split: sum.splits)
  then have "holds s1 (hs @ [h])" using Cons.prems add_holds by simp
  then have "holds st' ((hs @ [h]) @ hs')" using Cons.prems by (intro Cons.IH [OF _ s1(2)]) auto
  then show ?case by simp
qed simp

lemma added_is_found:
  assumes "add_seq add empty hs = Inr st" "\<forall>h \<in> set hs. valid h" "length hs \<le> cap"
  shows "unat v < length hs \<Longrightarrow> look st v = Inr (hs ! unat v)"
    and "\<not> unat v < length hs \<Longrightarrow> \<exists>e. look st v = Inl e"
  using add_seq_holds [OF holds_empty assms(1,2)] assms(3) look_added look_missing by auto

text \<open>A secret cannot be replaced: a longer history answers as the shorter one did.\<close>

lemma look_stable:
  assumes "holds st hs" "add_seq add st hs' = Inr st'" "\<forall>h \<in> set hs'. valid h"
    and "length hs + length hs' \<le> cap" "look st v = Inr h"
  shows "look st' v = Inr h"
proof -
  have "unat v < length hs" using look_missing assms(1,5) by fastforce
  then show ?thesis
    using look_added [OF assms(1)] look_added [OF add_seq_holds [OF assms(1-4)], of v] assms(5)
    by (simp add: nth_append)
qed

end

definition hash_ok :: "byte list \<Rightarrow> bool" where
  "hash_ok h \<longleftrightarrow> length h = 32"

text \<open>The daemon's store, with SHA-256.\<close>

interpretation revocations: secret_store newRevocationStore "addNextEntry sha256" "lookUp sha256"
  "store_inv sha256" hash_ok top_index
  by unfold_locales
    (auto simp: store_inv_new hash_ok_def lookUp_spec dest: addNextEntry_inv [OF length_sha256])

section \<open>The producer's secrets\<close>

lemma walk_split_at:
  assumes "b \<le> n"
  shows "walk step seed n y = walk step (foldl step seed (filter (bit y) (rev [b..<n]))) b y"
proof -
  have "[0..<n] = [0..<b] @ [b..<n]" using assms upt_add_eq_append [of 0 b "n - b"] by simp
  then show ?thesis by (simp add: walk_def)
qed

lemma walk_nested:
  assumes "(2 :: nat) ^ b dvd x" "d < 2 ^ b" "b \<le> n"
  shows "walk step (walk step seed n x) b (x + d) = walk step seed n (x + d)"
proof -
  have hi: "filter (bit (x + d)) (rev [b..<n]) = filter (bit x) (rev [b..<n])"
    by (intro filter_cong_set) (auto simp: bits_above_block [OF assms(1,2)])
  have "walk step s b x = s" for s
  proof (rule walk_zeros)
    fix j assume "j < b"
    moreover have "take_bit b x = 0" using assms(1) by (simp add: take_bit_eq_mod mod_eq_0_iff_dvd)
    ultimately show "\<not> bit x j" by (metis bit_take_bit_iff bit_0_eq bot_apply bot_bool_def)
  qed
  then have "walk step seed n x = foldl step seed (filter (bit x) (rev [b..<n]))"
    using walk_split_at [OF assms(3), of step seed x] by simp
  then show ?thesis using walk_split_at [OF assms(3), of step seed "x + d"] hi by simp
qed

definition secret :: "(byte list \<Rightarrow> byte list) \<Rightarrow> byte list \<Rightarrow> nat \<Rightarrow> byte list" where
  "secret sha root v = walk (flip_hash sha) root 48 (top_index - v)"

lemma atIndex_secret:
  assumes "\<And>x. length (sha x) = 32" "length root = 32" "unat v \<le> top_index"
  shows "atIndex sha (newRevocationProducer root) v = Inr (secret sha root (unat v))"
proof -
  have "in_block rootIndex (unat (newIndex v))"
    using unat_newIndex [OF assms(3)] by (simp add: in_block_def rootIndex_def ctz_zero top_index_def)
  then show ?thesis
    using derive_ok [of sha "elem rootIndex root" "newIndex v"] assms unat_newIndex [OF assms(3)]
    by (simp add: atIndex_def newRevocationProducer_def elem_def secret_def ctz_zero rootIndex_def)
qed

lemma atIndex_beyond:
  assumes "top_index < unat v"
  shows "atIndex sha (newRevocationProducer root) v = Inl NotDerivable"
proof -
  have "\<not> in_block rootIndex (unat (newIndex v))"
    using newIndex_wrap [OF assms] by (simp add: in_block_def rootIndex_def ctz_zero top_index_def)
  then show ?thesis
    by (simp add: atIndex_def newRevocationProducer_def elem_def derive_out)
qed

lemma secrets_agree:
  assumes "n < top_index" "level b (top_index - n)" "b < 48"
  shows "agrees sha (map (secret sha root) [0..<n]) b (top_index - n) (secret sha root n)"
  unfolding agrees_def
proof (intro allI impI)
  let ?c = "top_index - n"
  fix y assume y: "?c < y \<and> y < ?c + 2 ^ b"
  have "?c + 2 ^ b \<le> 2 ^ 48"
    using level_dvd [OF assms(2) order_refl] assms(3)
    by (intro dvd_block_le) (auto simp: top_index_def)
  then have "y \<le> top_index" using y by (simp add: top_index_def)
  moreover from this have less: "top_index - y < n" using y assms(1) by linarith
  ultimately have h: "hash_at (map (secret sha root) [0..<n]) y = walk (flip_hash sha) root 48 y"
    using less by (simp add: hash_at_def secret_def)
  have "y = ?c + (y - ?c)" "y - ?c < 2 ^ b" using y by auto
  then show "walk (flip_hash sha) (secret sha root n) b y = hash_at (map (secret sha root) [0..<n]) y"
    unfolding h secret_def
    using walk_nested [OF level_dvd [OF assms(2) order_refl], of "y - ?c" 48 "flip_hash sha" root] assms(3)
    by simp
qed

lemma secrets_accepted:
  assumes sha: "\<And>x. length (sha x) = 32" and root: "length root = 32" and "n \<le> top_index"
  shows "\<exists>st. add_seq (addNextEntry sha) newRevocationStore (map (secret sha root) [0..<n]) = Inr st
           \<and> store_inv sha st (map (secret sha root) [0..<n])"
  using assms(3)
proof (induction n)
  case (Suc n)
  let ?hs = "map (secret sha root) [0..<n]" and ?h = "secret sha root n"
  obtain st where st: "add_seq (addNextEntry sha) newRevocationStore ?hs = Inr st" "store_inv sha st ?hs"
    using Suc by auto
  have h: "length ?h = 32" unfolding secret_def by (rule walk_length [OF sha root])
  have len: "length ?hs < top_index" using Suc.prems by simp
  obtain c: "level (countTrailingZeros (st_index st)) (unat (st_index st))"
    "countTrailingZeros (st_index st) < 48" using store_level [OF st(2) len] .
  moreover have idx: "unat (st_index st) = top_index - n" using st(2) by (simp add: store_inv_def)
  ultimately have "addNextEntry sha st ?h = Inr (stored st (countTrailingZeros (st_index st)) ?h)"
    using addNextEntry_eq [OF sha st(2) len h] secrets_agree [of n _ sha root] Suc.prems by simp
  moreover from this have "store_inv sha (stored st (countTrailingZeros (st_index st)) ?h) (?hs @ [?h])"
    by (rule addNextEntry_inv [OF sha st(2) len h])
  ultimately show ?case using st(1) add_seq_snoc [of "addNextEntry sha" newRevocationStore ?hs ?h]
    by simp
qed (simp add: store_inv_new)

section \<open>The serialized store\<close>

lemma read_full_append [simp]: "length xs = n \<Longrightarrow> read_full n (xs @ r) = Inr (xs, r)"
  by (simp add: read_full_def)

lemma read_buckets_encoded:
  assumes "\<forall>e \<in> set es. length (el_hash e) = 32" "i + length es \<le> length bs"
  shows "read_buckets bs i (length es) (concat (map encode_element es) @ rest)
    = Inr (take i bs @ es @ drop (i + length es) bs, rest)"
  using assms
proof (induction es arbitrary: bs i)
  case (Cons e es)
  have "elem (get_uint64 (put_uint64 (el_index e))) (el_hash e) = e"
    using get_put_uint64 [of "el_index e" "[]"] by (simp add: elem_def)
  then have "read_buckets bs i (length (e # es)) (concat (map encode_element (e # es)) @ rest)
      = read_buckets (bs[i := e]) (i + 1) (length es) (concat (map encode_element es) @ rest)"
    using Cons.prems by (simp add: encode_element_def)
  also have "\<dots> = Inr (take (i + 1) (bs[i := e]) @ es @ drop (i + 1 + length es) (bs[i := e]), rest)"
    using Cons.prems by (intro Cons.IH) auto
  finally show ?case
    using Cons.prems(2) by (simp add: take_Suc_conv_app_nth)
qed simp

definition store_shape :: "revocation_store \<Rightarrow> bool" where
  "store_shape st \<longleftrightarrow> length (buckets st) = 48 \<and> lenBuckets st \<le> 48 \<and>
     (\<forall>i < 48. if i < lenBuckets st then length (el_hash (buckets st ! i)) = 32
              else buckets st ! i = zero_element)"

lemma store_inv_shape: "store_inv sha st hs \<Longrightarrow> store_shape st"
  by (auto simp: store_inv_def store_shape_def bucket_ok_def)

lemma encode_roundtrip:
  assumes "store_shape st"
  shows "newRevocationStoreFromBytes (encodeStore st @ rest) = Inr st"
proof -
  let ?n = "lenBuckets st" and ?es = "take (lenBuckets st) (buckets st)"
  have n: "unat (of_nat ?n :: byte) = ?n" "length ?es = ?n"
    using assms by (auto simp: store_shape_def unat_of_nat take_bit_nat_eq_self)
  have "drop ?n (buckets st) = replicate (48 - ?n) zero_element"
    using assms by (intro nth_equalityI) (auto simp: store_shape_def)
  then have bs: "?es @ drop ?n (replicate 48 zero_element) = buckets st"
    by (metis append_take_drop_id drop_replicate)
  have "\<forall>e \<in> set ?es. length (el_hash e) = 32"
    using assms by (auto simp: store_shape_def in_set_conv_nth)
  then have "read_buckets (replicate 48 zero_element) 0 ?n
      (concat (map encode_element ?es) @ put_uint64 (st_index st) @ rest)
      = Inr (buckets st, put_uint64 (st_index st) @ rest)"
    using read_buckets_encoded [of ?es 0 "replicate 48 zero_element" "put_uint64 (st_index st) @ rest"]
      n(2) bs assms by (simp add: store_shape_def)
  then show ?thesis
    using get_put_uint64 [of "st_index st" "[]"] n(1)
    by (simp add: newRevocationStoreFromBytes_def encodeStore_def read_full_def maxHeight_def)
qed

section \<open>Properties\<close>

text \<open>
  C10: whatever hashes a peer sends: when the store has accepted them one after the other, \<open>LookUp\<close>
  answers each revealed number with exactly the hash that was added under it, and fails with an
  error for every number not yet revealed.
\<close>

theorem shachain_lookup_sound:
  assumes "\<forall>h \<in> set hs. length h = 32" "length hs < 2 ^ 48"
    and "add_seq (addNextEntry sha256) newRevocationStore hs = Inr st"
  shows "lookUp sha256 st v =
    (if unat v < length hs then Inr (hs ! unat v) else Inl (UnableToDerive (newIndex v)))"
proof -
  have "store_inv sha256 st hs"
    using revocations.add_seq_holds [OF revocations.holds_empty assms(3)] assms(1,2)
    by (simp add: hash_ok_def top_index_def)
  then show ?thesis by (rule lookUp_spec [OF length_sha256])
qed

lemma shachain_lookup_sound_witness:
  "\<exists>st. add_seq (addNextEntry sha256) newRevocationStore
          (map (secret sha256 (replicate 32 0)) [0..<3]) = Inr st
     \<and> lookUp sha256 st 1 = Inr (secret sha256 (replicate 32 0) 1)"
proof -
  let ?hs = "map (secret sha256 (replicate 32 0)) [0..<3]"
  obtain st where st: "add_seq (addNextEntry sha256) newRevocationStore ?hs = Inr st"
    using secrets_accepted [of sha256 "replicate 32 0" 3] by (auto simp: top_index_def)
  moreover have "\<forall>h \<in> set ?hs. length h = 32" by (auto simp: secret_def walk_length)
  ultimately have "lookUp sha256 st 1
      = (if unat (1 :: u64) < length ?hs then Inr (?hs ! unat (1 :: u64))
         else Inl (UnableToDerive (newIndex 1)))"
    by (intro shachain_lookup_sound) simp_all
  then show ?thesis using st by simp
qed

text \<open>
  the secrets of a \<open>RevocationProducer\<close>, sent in order, are all accepted, up to the last but
  one of the \<open>2 ^ 48\<close> indices, and the store then answers every revealed number as the producer's
  \<open>AtIndex\<close> does.
\<close>

theorem shachain_producer_complete:
  assumes "length root = 32" "n < 2 ^ 48"
  shows "\<exists>hs st. length hs = n
     \<and> (\<forall>v < n. atIndex sha256 (newRevocationProducer root) (of_nat v) = Inr (hs ! v))
     \<and> add_seq (addNextEntry sha256) newRevocationStore hs = Inr st
     \<and> (\<forall>v < n. lookUp sha256 st (of_nat v) = atIndex sha256 (newRevocationProducer root) (of_nat v))"
proof -
  let ?hs = "map (secret sha256 root) [0..<n]"
  obtain st where st: "add_seq (addNextEntry sha256) newRevocationStore ?hs = Inr st"
    "store_inv sha256 st ?hs"
    using secrets_accepted [of sha256 root n] assms by (auto simp: top_index_def)
  have v: "unat (of_nat v :: u64) = v" if "v < n" for v
    using that assms(2) by (simp add: unat_of_nat take_bit_nat_eq_self)
  have at: "atIndex sha256 (newRevocationProducer root) (of_nat v) = Inr (?hs ! v)" if "v < n" for v
    using that v atIndex_secret [of sha256 root "of_nat v"] assms by (simp add: top_index_def)
  moreover have "lookUp sha256 st (of_nat v) = Inr (?hs ! v)" if "v < n" for v
    using that v revocations.look_added [OF st(2), of "of_nat v"] by simp
  ultimately show ?thesis using st(1) by (intro exI [of _ ?hs] exI [of _ st]) simp
qed

lemma shachain_producer_complete_witness:
  "\<exists>hs st. length hs = 5 \<and> add_seq (addNextEntry sha256) newRevocationStore hs = Inr st
     \<and> lookUp sha256 st 4 = atIndex sha256 (newRevocationProducer (replicate 32 1)) 4"
proof -
  obtain hs st where "length hs = 5" "add_seq (addNextEntry sha256) newRevocationStore hs = Inr st"
    "\<forall>v < 5. lookUp sha256 st (of_nat v)
       = atIndex sha256 (newRevocationProducer (replicate 32 1)) (of_nat v)"
    using shachain_producer_complete [of "replicate 32 1" 5] by auto
  moreover from this(3) [rule_format, of 4] have "lookUp sha256 st 4
       = atIndex sha256 (newRevocationProducer (replicate 32 1)) 4" by simp
  ultimately show ?thesis by blast
qed

text \<open>
  \<open>AddNextEntry\<close> on a store that holds \<open>hs\<close> accepts the next hash exactly when every revealed
  hash that can be derived from it is the one that was revealed, and otherwise fails because the
  hashes differ; the entry of the last index, for which there is no bucket, is never accepted.
\<close>

theorem shachain_add_checks:
  assumes "store_inv sha256 st hs" "length h = 32"
  shows "if length hs < 2 ^ 48 - 1 then
           (if \<forall>v e. unat v < length hs \<longrightarrow>
                 derive sha256 (elem (st_index st) h) (newIndex v) = Inr e \<longrightarrow>
                 el_hash e = hs ! unat v
            then \<exists>st'. addNextEntry sha256 st h = Inr st' \<and> store_inv sha256 st' (hs @ [h])
            else addNextEntry sha256 st h = Inl HashMismatch)
         else \<exists>e. addNextEntry sha256 st h = Inl e"
proof (cases "length hs < 2 ^ 48 - 1")
  case True
  then have len: "length hs < top_index" by (simp add: top_index_def)
  let ?c = "top_index - length hs" and ?b = "countTrailingZeros (st_index st)"
  have c: "unat (st_index st) = ?c" using assms(1) by (simp add: store_inv_def)
  obtain lev: "level ?b (unat (st_index st))" "?b < 48" using store_level [OF assms(1) len] .
  have block: "?c + 2 ^ ?b \<le> top_index + 1"
    using dvd_block_le [OF level_dvd [OF lev(1) order_refl], of 48] lev(2) c
    by (simp add: top_index_def)
  have d: "derive sha256 (elem (st_index st) h) (newIndex v)
      = (if ?c \<le> y \<and> y < ?c + 2 ^ ?b then Inr (elem (newIndex v) (walk (flip_hash sha256) h ?b y))
         else Inl NotDerivable)" if "unat v < length hs" "y = top_index - unat v" for v y
    using derive_ok [of sha256 "elem (st_index st) h" "newIndex v"] unat_newIndex [of v]
      derive_out [of "elem (st_index st) h" "newIndex v"] assms(2) that len c
    by (simp add: elem_def in_block_def)
  have "(\<forall>v e. unat v < length hs \<longrightarrow> derive sha256 (elem (st_index st) h) (newIndex v) = Inr e
          \<longrightarrow> el_hash e = hs ! unat v) \<longleftrightarrow> agrees sha256 hs ?b ?c h"
  proof
    assume l: "\<forall>v e. unat v < length hs \<longrightarrow> derive sha256 (elem (st_index st) h) (newIndex v) = Inr e
          \<longrightarrow> el_hash e = hs ! unat v"
    show "agrees sha256 hs ?b ?c h"
      unfolding agrees_def
    proof (intro allI impI)
      fix y assume y: "?c < y \<and> y < ?c + 2 ^ ?b"
      obtain v :: u64 where "unat v = top_index - y"
        by (rule that [of "of_nat (top_index - y)"])
          (simp add: unat_of_nat take_bit_nat_eq_self top_index_def)
      then have v: "unat v < length hs" "y = top_index - unat v" using y block len by auto
      then show "walk (flip_hash sha256) h ?b y = hash_at hs y"
        using l d [OF v] y by (auto simp: hash_at_def elem_def)
    qed
  next
    assume r: "agrees sha256 hs ?b ?c h"
    show "\<forall>v e. unat v < length hs \<longrightarrow> derive sha256 (elem (st_index st) h) (newIndex v) = Inr e
          \<longrightarrow> el_hash e = hs ! unat v"
    proof (intro allI impI)
      fix v e assume v: "unat v < length hs"
        and e: "derive sha256 (elem (st_index st) h) (newIndex v) = Inr e"
      have "?c < top_index - unat v" "top_index - (top_index - unat v) = unat v" using v len by auto
      then show "el_hash e = hs ! unat v"
        using d [OF v refl] e r by (auto simp: agrees_def hash_at_def elem_def split: if_splits)
    qed
  qed
  then show ?thesis
    using True addNextEntry_eq [OF length_sha256 assms(1) len assms(2)]
      addNextEntry_inv [OF length_sha256 assms(1) len assms(2)] c
    by simp
next
  case False
  then have "unat (st_index st) = 0" "length (buckets st) = 48"
    using assms(1) by (auto simp: store_inv_def top_index_def)
  then have "countTrailingZeros (st_index st) = 48" by (simp add: unsigned_eq_0_iff ctz_zero)
  then show ?thesis using False \<open>length (buckets st) = 48\<close>
    by (auto simp: addNextEntry_def elem_def Let_def split: option.splits)
qed

lemma shachain_add_checks_witness:
  "\<exists>st'. addNextEntry sha256 newRevocationStore (replicate 32 9) = Inr st'
     \<and> store_inv sha256 st' [replicate 32 9]"
  using shachain_add_checks [OF store_inv_new, of "replicate 32 9"] by simp

text \<open>
  A store reached from the empty one is read back unchanged from its encoding, whatever
  follows it in the stream.
\<close>

theorem shachain_encode_roundtrip:
  assumes "store_inv sha256 st hs"
  shows "newRevocationStoreFromBytes (encodeStore st @ rest) = Inr st"
  by (rule encode_roundtrip [OF store_inv_shape [OF assms]])

lemma shachain_encode_roundtrip_witness:
  "newRevocationStoreFromBytes (encodeStore newRevocationStore @ [1, 2]) = Inr newRevocationStore"
  by (rule shachain_encode_roundtrip [OF store_inv_new])

end
