(* ===== verification/Channel_Types.thy ===== *)
theory Channel_Types
  imports Prelude
begin

text \<open>
  The data of the channel state machine: channel parties (\<open>lntypes/channel_party.go\<close>), amounts and
  fee rates (\<open>lnwire/msat.go\<close>, \<open>lnwallet/chainfee/rates.go\<close>), channel types, weights and second-level
  fees (\<open>channeldb/channel.go\<close>, \<open>lnwallet/commitment.go\<close>), payment descriptors
  (\<open>lnwallet/payment_descriptor.go\<close>) and commitments. \<open>lnwire.MilliSatoshi\<close> is a 64-bit word;
  \<open>btcutil.Amount\<close> and \<open>SatPerKWeight\<close>, Go's \<open>int64\<close>, are \<open>int\<close>s whose arithmetic is wrapped by
  \<open>i64\<close>. The fields of a descriptor that only transaction building uses (output indices, scripts,
  signatures) are left out.
\<close>

section \<open>Parties\<close>

datatype channel_party = Local | Remote

fun counterParty :: "channel_party \<Rightarrow> channel_party" where
  "counterParty Local = Remote"
| "counterParty Remote = Local"

definition isLocal :: "channel_party \<Rightarrow> bool" where
  "isLocal p \<longleftrightarrow> p = Local"

definition isRemote :: "channel_party \<Rightarrow> bool" where
  "isRemote p \<longleftrightarrow> p = Remote"

record 'a dual =
  d_local :: 'a
  d_remote :: 'a

definition mkDual :: "'a \<Rightarrow> 'a \<Rightarrow> 'a dual" where
  "mkDual l r = \<lparr>d_local = l, d_remote = r\<rparr>"

fun getForParty :: "'a dual \<Rightarrow> channel_party \<Rightarrow> 'a" where
  "getForParty d Local = d_local d"
| "getForParty d Remote = d_remote d"

fun setForParty :: "'a dual \<Rightarrow> channel_party \<Rightarrow> 'a \<Rightarrow> 'a dual" where
  "setForParty d Local v = d\<lparr>d_local := v\<rparr>"
| "setForParty d Remote v = d\<lparr>d_remote := v\<rparr>"

definition modifyForParty :: "'a dual \<Rightarrow> channel_party \<Rightarrow> ('a \<Rightarrow> 'a) \<Rightarrow> 'a dual" where
  "modifyForParty d p f = setForParty d p (f (getForParty d p))"

definition mapDual :: "('a \<Rightarrow> 'b) \<Rightarrow> 'a dual \<Rightarrow> 'b dual" where
  "mapDual f d = mkDual (f (d_local d)) (f (d_remote d))"

definition bothParties :: "channel_party list" where
  "bothParties = [Local, Remote]"

lemma getForParty_mkDual [simp]:
  "getForParty (mkDual l r) Local = l" "getForParty (mkDual l r) Remote = r"
  "d_local (mkDual l r) = l" "d_remote (mkDual l r) = r"
  by (simp_all add: mkDual_def)

lemma getForParty_setForParty [simp]:
  "getForParty (setForParty d p v) q = (if p = q then v else getForParty d q)"
  by (cases p; cases q) auto

lemma getForParty_modifyForParty [simp]:
  "getForParty (modifyForParty d p f) q = (if p = q then f (getForParty d q) else getForParty d q)"
  by (auto simp: modifyForParty_def)

lemma getForParty_mapDual [simp]: "getForParty (mapDual f d) p = f (getForParty d p)"
  by (cases p) (auto simp: mapDual_def)

lemma counterParty_simps [simp]:
  "counterParty (counterParty p) = p" "counterParty p \<noteq> p" "p \<noteq> counterParty p"
  "counterParty p = counterParty q \<longleftrightarrow> p = q"
  by (cases p; cases q; simp)+

lemma party_other: "p \<noteq> q \<longleftrightarrow> q = counterParty p"
  by (cases p; cases q) auto

lemma dual_eqI: "(\<And>p. getForParty d p = getForParty e p) \<Longrightarrow> d = (e :: 'a dual)"
  by (metis getForParty.simps dual.equality old.unit.exhaust)

section \<open>Amounts and fee rates\<close>

type_synonym msat = u64

definition newMSatFromSatoshis :: "int \<Rightarrow> msat" where
  "newMSatFromSatoshis sat = u64_of_i64 sat * 1000"

definition toSatoshis :: "msat \<Rightarrow> int" where
  "toSatoshis m = i64_of_u64 (m div 1000)"

definition feePerKwFloor :: int where
  "feePerKwFloor = 253"

definition absoluteFeePerKwFloor :: int where
  "absoluteFeePerKwFloor = 250"

definition witnessScaleFactor :: int where
  "witnessScaleFactor = 4"

definition feeForWeight :: "int \<Rightarrow> u64 \<Rightarrow> int" where
  "feeForWeight s wu = quot (i64 (s * i64_of_u64 wu)) 1000"

definition feeForWeightRoundUp :: "int \<Rightarrow> u64 \<Rightarrow> int" where
  "feeForWeightRoundUp s wu = quot (i64 (i64 (s * i64_of_u64 wu) + 999)) 1000"

definition satPerKW_feePerKVByte :: "int \<Rightarrow> int" where
  "satPerKW_feePerKVByte s = i64 (s * witnessScaleFactor)"

definition satPerKW_feePerVByte :: "int \<Rightarrow> int" where
  "satPerKW_feePerVByte s = quot (i64 (s * witnessScaleFactor)) 1000"

definition satPerVByte_feePerKWeight :: "int \<Rightarrow> int" where
  "satPerVByte_feePerKWeight s = quot (i64 (s * 1000)) witnessScaleFactor"

definition satPerVByte_feePerKVByte :: "int \<Rightarrow> int" where
  "satPerVByte_feePerKVByte s = i64 (s * 1000)"

definition satPerKVByte_feeForVSize :: "int \<Rightarrow> u64 \<Rightarrow> int" where
  "satPerKVByte_feeForVSize s vbytes = quot (i64 (s * i64_of_u64 vbytes)) 1000"

definition satPerKVByte_feePerKWeight :: "int \<Rightarrow> int" where
  "satPerKVByte_feePerKWeight s = quot s witnessScaleFactor"

definition feeForVByte :: "int \<Rightarrow> u64 \<Rightarrow> int" where
  "feeForVByte s vb = satPerKVByte_feeForVSize (satPerKW_feePerKVByte s) vb"

section \<open>Channel types, weights and second-level fees\<close>

type_synonym channel_type = u64

definition hasAnchors :: "channel_type \<Rightarrow> bool" where
  "hasAnchors c \<longleftrightarrow> c AND 8 = 8"

definition zeroHtlcTxFee :: "channel_type \<Rightarrow> bool" where
  "zeroHtlcTxFee c \<longleftrightarrow> c AND 32 = 32"

definition isTaproot :: "channel_type \<Rightarrow> bool" where
  "isTaproot c \<longleftrightarrow> c AND 1024 = 1024"

definition hasTapscriptRoot :: "channel_type \<Rightarrow> bool" where
  "hasTapscriptRoot c \<longleftrightarrow> c AND 2048 = 2048"

definition htlcWeight :: u64 where
  "htlcWeight = 172"

definition commitWeight :: "channel_type \<Rightarrow> u64" where
  "commitWeight c = (if isTaproot c then 968 else if hasAnchors c then 1124 else 724)"

definition htlcTimeoutFee :: "channel_type \<Rightarrow> int \<Rightarrow> int" where
  "htlcTimeoutFee c feePerKw =
     (if zeroHtlcTxFee c \<or> isTaproot c then 0
      else if hasAnchors c then feeForWeight feePerKw 666
      else feeForWeight feePerKw 663)"

definition htlcSuccessFee :: "channel_type \<Rightarrow> int \<Rightarrow> int" where
  "htlcSuccessFee c feePerKw =
     (if zeroHtlcTxFee c \<or> isTaproot c then 0
      else if hasAnchors c then feeForWeight feePerKw 706
      else feeForWeight feePerKw 703)"

definition htlcIsDust ::
  "channel_type \<Rightarrow> bool \<Rightarrow> channel_party \<Rightarrow> int \<Rightarrow> int \<Rightarrow> int \<Rightarrow> bool" where
  "htlcIsDust chanType incoming whoseCommit feePerKw htlcAmt dustLimit \<longleftrightarrow>
     (let htlcFee =
        (if incoming \<and> isLocal whoseCommit then htlcSuccessFee chanType feePerKw
         else if incoming \<and> isRemote whoseCommit then htlcTimeoutFee chanType feePerKw
         else if \<not> incoming \<and> isLocal whoseCommit then htlcTimeoutFee chanType feePerKw
         else htlcSuccessFee chanType feePerKw)
      in i64 (htlcAmt - htlcFee) < dustLimit)"

section \<open>Payment descriptors\<close>

datatype updateType = Add | Fail | MalformedFail | Settle | FeeUpdate | NoOpAdd

record circuit_key =
  ck_chanID :: u64
  ck_htlcID :: u64

record add_ref =
  ar_height :: u64
  ar_index :: u16

record settle_fail_ref =
  sr_source :: u64
  sr_height :: u64
  sr_index :: u16

record paymentDescriptor =
  pd_chanID :: "byte list"
  pd_rHash :: "byte list"
  pd_rPreimage :: "byte list"
  pd_timeout :: u32
  pd_amount :: msat
  pd_logIndex :: u64
  pd_htlcIndex :: u64
  pd_parentIndex :: u64
  pd_sourceRef :: "add_ref option"
  pd_destRef :: "settle_fail_ref option"
  pd_openCircuitKey :: "circuit_key option"
  pd_closedCircuitKey :: "circuit_key option"
  pd_addHeights :: "u64 dual"
  pd_rmvHeights :: "u64 dual"
  pd_onionBlob :: "byte list"
  pd_shaOnionBlob :: "byte list"
  pd_failReason :: "byte list"
  pd_failCode :: u16
  pd_entryType :: updateType
  pd_noOpSettle :: bool
  pd_isForwarded :: bool
  pd_blindingPoint :: "byte list option"
  pd_customRecords :: "u64 \<rightharpoonup> byte list"

text \<open>Go's zero value, which every composite literal starts from.\<close>

definition zeroDescriptor :: paymentDescriptor where
  "zeroDescriptor =
     \<lparr>pd_chanID = replicate 32 0, pd_rHash = replicate 32 0, pd_rPreimage = replicate 32 0,
      pd_timeout = 0, pd_amount = 0, pd_logIndex = 0, pd_htlcIndex = 0, pd_parentIndex = 0,
      pd_sourceRef = None, pd_destRef = None, pd_openCircuitKey = None, pd_closedCircuitKey = None,
      pd_addHeights = mkDual 0 0, pd_rmvHeights = mkDual 0 0, pd_onionBlob = replicate 1366 0,
      pd_shaOnionBlob = replicate 32 0, pd_failReason = [], pd_failCode = 0, pd_entryType = Add,
      pd_noOpSettle = False, pd_isForwarded = False, pd_blindingPoint = None,
      pd_customRecords = Map.empty\<rparr>"

text \<open>The wire messages a descriptor stands for.\<close>

record update_add_htlc =
  ua_chanID :: "byte list"
  ua_ID :: u64
  ua_amount :: msat
  ua_paymentHash :: "byte list"
  ua_expiry :: u32
  ua_onionBlob :: "byte list"
  ua_blindingPoint :: "byte list option"
  ua_customRecords :: "u64 \<rightharpoonup> byte list"

datatype update_msg =
    UpdateAddHTLC update_add_htlc
  | UpdateFulfillHTLC "byte list" u64 "byte list"
  | UpdateFailHTLC "byte list" u64 "byte list"
  | UpdateFailMalformedHTLC "byte list" u64 "byte list" u16
  | UpdateFee "byte list" u32

record log_update =
  lu_logIndex :: u64
  lu_updateMsg :: update_msg

definition toLogUpdate :: "paymentDescriptor \<Rightarrow> log_update" where
  "toLogUpdate pd =
     \<lparr>lu_logIndex = pd_logIndex pd,
      lu_updateMsg =
        (case pd_entryType pd of
           Settle \<Rightarrow> UpdateFulfillHTLC (pd_chanID pd) (pd_parentIndex pd) (pd_rPreimage pd)
         | Fail \<Rightarrow> UpdateFailHTLC (pd_chanID pd) (pd_parentIndex pd) (pd_failReason pd)
         | MalformedFail \<Rightarrow>
             UpdateFailMalformedHTLC (pd_chanID pd) (pd_parentIndex pd) (pd_shaOnionBlob pd)
               (pd_failCode pd)
         | FeeUpdate \<Rightarrow> UpdateFee (pd_chanID pd) (word_of_int (toSatoshis (pd_amount pd)))
         | _ \<Rightarrow> UpdateAddHTLC
             \<lparr>ua_chanID = pd_chanID pd, ua_ID = pd_htlcIndex pd, ua_amount = pd_amount pd,
              ua_paymentHash = pd_rHash pd, ua_expiry = pd_timeout pd,
              ua_onionBlob = pd_onionBlob pd, ua_blindingPoint = pd_blindingPoint pd,
              ua_customRecords = pd_customRecords pd\<rparr>)\<rparr>"

definition setCommitHeight :: "channel_party \<Rightarrow> u64 \<Rightarrow> paymentDescriptor \<Rightarrow> paymentDescriptor" where
  "setCommitHeight whose h pd =
     (case pd_entryType pd of
        FeeUpdate \<Rightarrow> pd\<lparr>pd_addHeights := setForParty (pd_addHeights pd) whose h,
                      pd_rmvHeights := setForParty (pd_rmvHeights pd) whose h\<rparr>
      | Settle \<Rightarrow> pd\<lparr>pd_rmvHeights := setForParty (pd_rmvHeights pd) whose h\<rparr>
      | Fail \<Rightarrow> pd\<lparr>pd_rmvHeights := setForParty (pd_rmvHeights pd) whose h\<rparr>
      | MalformedFail \<Rightarrow> pd\<lparr>pd_rmvHeights := setForParty (pd_rmvHeights pd) whose h\<rparr>
      | _ \<Rightarrow> pd\<lparr>pd_addHeights := setForParty (pd_addHeights pd) whose h\<rparr>)"

definition isAdd :: "paymentDescriptor \<Rightarrow> bool" where
  "isAdd pd \<longleftrightarrow> pd_entryType pd = Add \<or> pd_entryType pd = NoOpAdd"

section \<open>Commitments and their chains\<close>

record commitment =
  cm_height :: u64
  cm_whoseCommit :: channel_party
  cm_messageIndices :: "u64 dual"
  cm_ourHtlcIndex :: u64
  cm_theirHtlcIndex :: u64
  cm_ourBalance :: msat
  cm_theirBalance :: msat
  cm_fee :: int
  cm_feePerKw :: int
  cm_dustLimit :: int
  cm_outgoingHTLCs :: "paymentDescriptor list"
  cm_incomingHTLCs :: "paymentDescriptor list"

text \<open>
  A \<open>commitmentChain\<close> is its list of commitments, the tail first. Reading the tip or the tail of an
  empty chain dereferences a nil pointer in Go; a channel's chains are never empty.
\<close>

type_synonym commitmentChain = "commitment list"

definition newCommitmentChain :: commitmentChain where
  "newCommitmentChain = []"

definition addCommitment :: "commitmentChain \<Rightarrow> commitment \<Rightarrow> commitmentChain" where
  "addCommitment s c = s @ [c]"

definition advanceTail :: "commitmentChain \<Rightarrow> commitmentChain" where
  "advanceTail s = tl s"

definition tip :: "commitmentChain \<Rightarrow> commitment" where
  "tip s = last s"

definition tail :: "commitmentChain \<Rightarrow> commitment" where
  "tail s = hd s"

text \<open>\<open>Front() != Back()\<close> compares list nodes: they differ exactly when the chain has several entries.\<close>

definition hasUnackedCommitment :: "commitmentChain \<Rightarrow> bool" where
  "hasUnackedCommitment s \<longleftrightarrow> length s > 1"

section \<open>First facts\<close>

lemma isAdd_alt: "isAdd pd \<longleftrightarrow> pd_entryType pd \<notin> {Fail, MalformedFail, Settle, FeeUpdate}"
  by (cases "pd_entryType pd") (auto simp: isAdd_def)

lemma sint_small: "uint (w :: u64) < 2 ^ 63 \<Longrightarrow> sint w = uint w"
proof -
  assume "uint w < 2 ^ 63"
  moreover have "0 \<le> uint w" by simp
  ultimately have "signed_take_bit 63 (uint w) = uint w"
    by (intro signed_take_bit_int_eq_self) linarith+
  then show ?thesis by (simp add: sint_uint)
qed

lemma uint_u64_of_i64: "0 \<le> x \<Longrightarrow> x < 2 ^ 64 \<Longrightarrow> uint (u64_of_i64 x) = x"
  by (simp add: u64_of_i64_def uint_word_of_int)

lemma toSatoshis_value: "toSatoshis m = uint m div 1000"
proof -
  have "uint m < 2 ^ 64" using uint_lt2p [of m] by simp
  then have "uint (m div 1000) < 2 ^ 63" by (simp add: uint_div)
  then show ?thesis
    using sint_small [of "m div 1000"] by (simp add: toSatoshis_def i64_of_u64_def uint_div)
qed

lemma feeForWeight_nonneg:
  assumes "0 \<le> s" "s * i64_of_u64 wu < 2 ^ 63" "0 \<le> i64_of_u64 wu"
  shows "feeForWeight s wu = s * i64_of_u64 wu div 1000"
proof -
  have "0 \<le> s * i64_of_u64 wu" using assms by simp
  moreover from this have "i64 (s * i64_of_u64 wu) = s * i64_of_u64 wu"
    using assms by (intro i64_id) linarith+
  ultimately show ?thesis by (simp add: feeForWeight_def quot_nonneg)
qed

text \<open>A fee update's rate survives its detour through milli-satoshis.\<close>

lemma feeUpdate_amount:
  assumes "0 \<le> feePerKw" "feePerKw * 1000 < 2 ^ 63"
  shows "toSatoshis (newMSatFromSatoshis feePerKw) = feePerKw"
proof -
  have "newMSatFromSatoshis feePerKw = u64_of_i64 (feePerKw * 1000)"
    by (simp add: newMSatFromSatoshis_def u64_of_i64_def)
  then show ?thesis using assms by (simp add: toSatoshis_value uint_u64_of_i64)
qed

end
