(* ===== verification/Circuit.thy ===== *)
theory Circuit
  imports Channel_Types
begin

text \<open>
  Payment circuits and their encoding (\<open>htlcswitch/circuit.go\<close>, \<open>hop/error_encryptor.go\<close> and the circuit
  keys of \<open>graph/db/models/channel.go\<close>). A public key is its compressed 33-byte form; whether
  \<open>btcec.ParsePubKey\<close> accepts such bytes and whether the onion processor can derive the shared secret
  again are the parameters \<open>validKey\<close> and \<open>extract\<close>.
\<close>

section \<open>Errors\<close>

datatype circuit_error =
    ErrCorruptedCircuitMap
  | ErrUnknownCircuit
  | ErrCircuitClosing
  | ErrDuplicateKeystone
  | ErrInvalidCircuitKeyLen
  | UnexpectedEOF
  | UnknownEncrypterType byte
  | BadPublicKey
  | ExtractFailed
  | CircuitDbFailed
  | FetchFailed

definition and_then :: "'e + 'a \<Rightarrow> ('a \<Rightarrow> 'e + 'b) \<Rightarrow> 'e + 'b" where
  "and_then r f = (case r of Inl e \<Rightarrow> Inl e | Inr x \<Rightarrow> f x)"

lemma and_then_simps [simp]: "and_then (Inl e) f = Inl e" "and_then (Inr x) f = f x"
  by (simp_all add: and_then_def)

text \<open>\<open>io.ReadFull\<close> of \<open>n\<close> bytes: the bytes and the rest of the reader.\<close>

definition readFull :: "nat \<Rightarrow> byte list \<Rightarrow> circuit_error + byte list \<times> byte list" where
  "readFull n r = (if length r < n then Inl UnexpectedEOF else Inr (take n r, drop n r))"

lemma readFull_append [simp]: "length bs = n \<Longrightarrow> readFull n (bs @ rest) = Inr (bs, rest)"
  by (simp add: readFull_def)

section \<open>Circuit keys\<close>

definition circuitKeyBytes :: "circuit_key \<Rightarrow> byte list" where
  "circuitKeyBytes k = put_uint64 (ck_chanID k) @ put_uint64 (ck_htlcID k)"

definition setBytes :: "byte list \<Rightarrow> circuit_error + circuit_key" where
  "setBytes bs =
     (if length bs \<noteq> 16 then Inl ErrInvalidCircuitKeyLen
      else Inr \<lparr>ck_chanID = get_uint64 (take 8 bs), ck_htlcID = get_uint64 (drop 8 bs)\<rparr>)"

definition decodeCircuitKey :: "byte list \<Rightarrow> circuit_error + circuit_key \<times> byte list" where
  "decodeCircuitKey r = and_then (readFull 16 r) (\<lambda>(scratch, rest).
     Inr (\<lparr>ck_chanID = get_uint64 (take 8 scratch), ck_htlcID = get_uint64 (drop 8 scratch)\<rparr>, rest))"

definition emptyCircuitKey :: circuit_key where
  "emptyCircuitKey = \<lparr>ck_chanID = 0, ck_htlcID = 0\<rparr>"

lemma get_put_uint64' [simp]: "get_uint64 (put_uint64 x) = x"
  using get_put_uint64 [of x "[]"] by simp

lemma length_circuitKeyBytes [simp]: "length (circuitKeyBytes k) = 16"
  by (simp add: circuitKeyBytes_def)

lemma setBytes_circuitKeyBytes [simp]: "setBytes (circuitKeyBytes k) = Inr k"
  by (simp add: setBytes_def circuitKeyBytes_def)

lemma circuitKeyBytes_inj [simp]: "circuitKeyBytes k = circuitKeyBytes k' \<longleftrightarrow> k = k'"
  by (metis Inr_inject setBytes_circuitKeyBytes)

lemma decodeCircuitKey_append [simp]: "decodeCircuitKey (circuitKeyBytes k @ rest) = Inr (k, rest)"
  unfolding decodeCircuitKey_def readFull_append [OF length_circuitKeyBytes] by (simp add: circuitKeyBytes_def)

text \<open>There are finitely many keys, so every bucket and map of them is finite.\<close>

lemma finite_circuit_keys [simp, intro]: "finite (K :: circuit_key set)"
proof -
  have "K \<subseteq> (\<lambda>(c, h). \<lparr>ck_chanID = c, ck_htlcID = h\<rparr>) ` (UNIV :: (u64 \<times> u64) set)"
    by (auto simp: image_iff) (metis circuit_key.cases)
  then show ?thesis by (rule finite_subset) simp
qed

section \<open>Error encrypters\<close>

text \<open>An encrypter keeps its ephemeral key; the wrappers of a blinded route delegate to the one they hold.\<close>

datatype error_encrypter =
    SphinxErrorEncrypter "byte list"
  | MockObfuscator
  | IntroductionErrorEncrypter error_encrypter
  | RelayingErrorEncrypter error_encrypter

fun encrypterType :: "error_encrypter \<Rightarrow> byte" where
  "encrypterType (SphinxErrorEncrypter key) = 1"
| "encrypterType MockObfuscator = 2"
| "encrypterType (IntroductionErrorEncrypter e) = 3"
| "encrypterType (RelayingErrorEncrypter e) = 4"

definition isBlinded :: "byte \<Rightarrow> bool" where
  "isBlinded t \<longleftrightarrow> t = 3 \<or> t = 4"

fun encodeEncrypter :: "error_encrypter \<Rightarrow> byte list" where
  "encodeEncrypter (SphinxErrorEncrypter key) = key"
| "encodeEncrypter MockObfuscator = []"
| "encodeEncrypter (IntroductionErrorEncrypter e) = encodeEncrypter e"
| "encodeEncrypter (RelayingErrorEncrypter e) = encodeEncrypter e"

definition decodeSphinx :: "(byte list \<Rightarrow> bool) \<Rightarrow> byte list \<Rightarrow> circuit_error + error_encrypter \<times> byte list" where
  "decodeSphinx validKey r = and_then (readFull 33 r) (\<lambda>(ephemeral, rest).
     if validKey ephemeral then Inr (SphinxErrorEncrypter ephemeral, rest) else Inl BadPublicKey)"

fun reextract :: "(byte list \<Rightarrow> bool) \<Rightarrow> error_encrypter \<Rightarrow> bool" where
  "reextract extract (SphinxErrorEncrypter key) = extract key"
| "reextract extract MockObfuscator = True"
| "reextract extract (IntroductionErrorEncrypter e) = reextract extract e"
| "reextract extract (RelayingErrorEncrypter e) = reextract extract e"

section \<open>Circuits\<close>

record payment_circuit =
  pc_addRef :: add_ref
  pc_incoming :: circuit_key
  pc_outgoing :: "circuit_key option"
  pc_paymentHash :: "byte list"
  pc_incomingAmount :: msat
  pc_outgoingAmount :: msat
  pc_errorEncrypter :: "error_encrypter option"
  pc_loadedFromDisk :: bool

definition hasKeystone :: "payment_circuit \<Rightarrow> bool" where
  "hasKeystone c \<longleftrightarrow> pc_outgoing c \<noteq> None"

definition inKey :: "payment_circuit \<Rightarrow> circuit_key" where
  "inKey c = pc_incoming c"

definition outKey :: "payment_circuit \<Rightarrow> circuit_key" where
  "outKey c = (case pc_outgoing c of Some k \<Rightarrow> k | None \<Rightarrow> emptyCircuitKey)"

text \<open>The fields of a packet that a new circuit is made from.\<close>

record htlc_packet =
  hp_incomingChanID :: u64
  hp_incomingHTLCID :: u64
  hp_sourceRef :: "add_ref option"
  hp_incomingAmount :: msat
  hp_amount :: msat
  hp_obfuscator :: "error_encrypter option"

definition newPaymentCircuit :: "byte list \<Rightarrow> htlc_packet \<Rightarrow> payment_circuit" where
  "newPaymentCircuit hash pkt =
     \<lparr>pc_addRef = (case hp_sourceRef pkt of Some r \<Rightarrow> r | None \<Rightarrow> \<lparr>ar_height = 0, ar_index = 0\<rparr>),
      pc_incoming = \<lparr>ck_chanID = hp_incomingChanID pkt, ck_htlcID = hp_incomingHTLCID pkt\<rparr>,
      pc_outgoing = None, pc_paymentHash = hash, pc_incomingAmount = hp_incomingAmount pkt,
      pc_outgoingAmount = hp_amount pkt, pc_errorEncrypter = hp_obfuscator pkt, pc_loadedFromDisk = False\<rparr>"

definition encodeAddRef :: "add_ref \<Rightarrow> byte list" where
  "encodeAddRef r = put_uint64 (ar_height r) @ [ucast (drop_bit 8 (ar_index r)), ucast (ar_index r)]"

definition decodeAddRef :: "byte list \<Rightarrow> circuit_error + add_ref \<times> byte list" where
  "decodeAddRef r = and_then (readFull 8 r) (\<lambda>(h, r1). and_then (readFull 2 r1) (\<lambda>(i, rest).
     Inr (\<lparr>ar_height = get_uint64 h, ar_index = push_bit 8 (ucast (i ! 0)) OR ucast (i ! 1)\<rparr>, rest)))"

text \<open>\<open>Encode\<close>: the outgoing key and the flag of a loaded circuit are not written.\<close>

definition encodeCircuit :: "payment_circuit \<Rightarrow> byte list" where
  "encodeCircuit c =
     encodeAddRef (pc_addRef c) @ circuitKeyBytes (pc_incoming c) @ pc_paymentHash c @
     put_uint64 (pc_incomingAmount c) @ put_uint64 (pc_outgoingAmount c) @
     (case pc_errorEncrypter c of
        None \<Rightarrow> [0]
      | Some e \<Rightarrow> encrypterType e # encodeEncrypter e)"

definition decodeEncrypter ::
  "(byte list \<Rightarrow> bool) \<Rightarrow> byte \<Rightarrow> byte list \<Rightarrow> circuit_error + error_encrypter option \<times> byte list" where
  "decodeEncrypter validKey t r =
     (if t = 0 then Inr (None, r)
      else if t = 1 then and_then (decodeSphinx validKey r) (\<lambda>(e, rest). Inr (Some e, rest))
      else if t = 2 then Inr (Some MockObfuscator, r)
      else if t = 3 then and_then (decodeSphinx validKey r) (\<lambda>(e, rest). Inr (Some (IntroductionErrorEncrypter e), rest))
      else if t = 4 then and_then (decodeSphinx validKey r) (\<lambda>(e, rest). Inr (Some (RelayingErrorEncrypter e), rest))
      else Inl (UnknownEncrypterType t))"

definition decodePaymentCircuit ::
  "(byte list \<Rightarrow> bool) \<Rightarrow> byte list \<Rightarrow> circuit_error + payment_circuit \<times> byte list" where
  "decodePaymentCircuit validKey r =
     and_then (decodeAddRef r) (\<lambda>(ref, r1).
     and_then (decodeCircuitKey r1) (\<lambda>(key, r2).
     and_then (readFull 32 r2) (\<lambda>(hash, r3).
     and_then (readFull 8 r3) (\<lambda>(inAmt, r4).
     and_then (readFull 8 r4) (\<lambda>(outAmt, r5).
     and_then (readFull 1 r5) (\<lambda>(t, r6).
     and_then (decodeEncrypter validKey (t ! 0) r6) (\<lambda>(e, rest).
       Inr (\<lparr>pc_addRef = ref, pc_incoming = key, pc_outgoing = None, pc_paymentHash = hash,
             pc_incomingAmount = get_uint64 inAmt, pc_outgoingAmount = get_uint64 outAmt,
             pc_errorEncrypter = e, pc_loadedFromDisk = False\<rparr>, rest))))))))"

definition decodeCircuit ::
  "(byte list \<Rightarrow> bool) \<Rightarrow> (byte list \<Rightarrow> bool) \<Rightarrow> byte list \<Rightarrow> circuit_error + payment_circuit" where
  "decodeCircuit validKey extract v =
     and_then (decodePaymentCircuit validKey v) (\<lambda>(c, rest).
       case pc_errorEncrypter c of
         None \<Rightarrow> Inr c
       | Some e \<Rightarrow> if reextract extract e then Inr c else Inl ExtractFailed)"

section \<open>The encoding is faithful\<close>

text \<open>The encrypters that a link makes: a sphinx encrypter with a real key, bare or wrapped once.\<close>

fun encrypter_ok :: "(byte list \<Rightarrow> bool) \<Rightarrow> (byte list \<Rightarrow> bool) \<Rightarrow> error_encrypter \<Rightarrow> bool" where
  "encrypter_ok validKey extract (SphinxErrorEncrypter key) \<longleftrightarrow> length key = 33 \<and> validKey key \<and> extract key"
| "encrypter_ok validKey extract MockObfuscator \<longleftrightarrow> True"
| "encrypter_ok validKey extract (IntroductionErrorEncrypter (SphinxErrorEncrypter key)) \<longleftrightarrow>
     length key = 33 \<and> validKey key \<and> extract key"
| "encrypter_ok validKey extract (RelayingErrorEncrypter (SphinxErrorEncrypter key)) \<longleftrightarrow>
     length key = 33 \<and> validKey key \<and> extract key"
| "encrypter_ok validKey extract _ \<longleftrightarrow> False"

definition storable :: "(byte list \<Rightarrow> bool) \<Rightarrow> (byte list \<Rightarrow> bool) \<Rightarrow> payment_circuit \<Rightarrow> bool" where
  "storable validKey extract c \<longleftrightarrow> length (pc_paymentHash c) = 32 \<and>
     (case pc_errorEncrypter c of None \<Rightarrow> True | Some e \<Rightarrow> encrypter_ok validKey extract e)"

text \<open>A circuit as it comes back from disk.\<close>

definition half :: "payment_circuit \<Rightarrow> payment_circuit" where
  "half c = c\<lparr>pc_outgoing := None, pc_loadedFromDisk := False\<rparr>"

lemma addRef_roundtrip [simp]: "decodeAddRef (encodeAddRef r @ rest) = Inr (r, rest)"
proof -
  have "push_bit 8 (ucast (ucast (drop_bit 8 i) :: byte)) OR ucast (ucast (i :: u16) :: byte) = i" for i
    by (rule bit_word_eqI) (auto simp: bit_simps)
  then show ?thesis by (simp add: decodeAddRef_def encodeAddRef_def readFull_def)
qed

lemma encrypter_roundtrip:
  assumes "encrypter_ok validKey extract e"
  shows "decodeEncrypter validKey (encrypterType e) (encodeEncrypter e @ rest) = Inr (Some e, rest)"
    "reextract extract e"
proof -
  have wrapped: "\<exists>key. e' = SphinxErrorEncrypter key \<and> length key = 33 \<and> validKey key \<and> extract key"
    if "encrypter_ok validKey extract (IntroductionErrorEncrypter e') \<or>
        encrypter_ok validKey extract (RelayingErrorEncrypter e')" for e'
    using that by (cases e') auto
  show "decodeEncrypter validKey (encrypterType e) (encodeEncrypter e @ rest) = Inr (Some e, rest)"
    "reextract extract e"
    using assms by (cases e; auto simp: decodeEncrypter_def decodeSphinx_def dest: wrapped [OF disjI1] wrapped [OF disjI2])+
qed

lemma circuit_roundtrip:
  assumes "storable validKey extract c"
  shows "decodePaymentCircuit validKey (encodeCircuit c @ rest) = Inr (half c, rest)"
    "decodeCircuit validKey extract (encodeCircuit c) = Inr (half c)"
proof -
  have r1: "readFull (Suc 0) (b # bs) = Inr ([b], bs)" for b bs by (simp add: readFull_def)
  have none: "decodeEncrypter validKey 0 bs = Inr (None, bs)" for bs by (simp add: decodeEncrypter_def)
  have alt: "half c = \<lparr>pc_addRef = pc_addRef c, pc_incoming = pc_incoming c, pc_outgoing = None,
      pc_paymentHash = pc_paymentHash c, pc_incomingAmount = pc_incomingAmount c,
      pc_outgoingAmount = pc_outgoingAmount c, pc_errorEncrypter = pc_errorEncrypter c, pc_loadedFromDisk = False\<rparr>"
    by (cases c) (simp add: half_def)
  show d: "decodePaymentCircuit validKey (encodeCircuit c @ rest) = Inr (half c, rest)" for rest
    using assms unfolding alt
    by (auto simp: decodePaymentCircuit_def encodeCircuit_def storable_def r1 none encrypter_roundtrip
        split: option.splits)
  show "decodeCircuit validKey extract (encodeCircuit c) = Inr (half c)"
    using d [of "[]"] assms encrypter_roundtrip(2)
    by (auto simp: decodeCircuit_def storable_def half_def split: option.splits)
qed

text \<open>
  A circuit written to disk is read back with every field but its keystone: the keys, amounts and
  the encrypter of the incoming onion, whatever follows it in the stream.
\<close>

theorem circuit_codec_roundtrip:
  assumes "storable validKey extract c"
  shows "decodePaymentCircuit validKey (encodeCircuit c @ rest) = Inr (half c, rest) \<and>
     decodeCircuit validKey extract (encodeCircuit c) = Inr (half c)"
  using circuit_roundtrip [OF assms] by blast

theorem circuit_codec_roundtrip_witness:
  "(let c = newPaymentCircuit (replicate 32 7) \<lparr>hp_incomingChanID = 5, hp_incomingHTLCID = 1,
        hp_sourceRef = Some \<lparr>ar_height = 3, ar_index = 258\<rparr>, hp_incomingAmount = 1001, hp_amount = 1000,
        hp_obfuscator = Some (IntroductionErrorEncrypter (SphinxErrorEncrypter (2 # replicate 32 8)))\<rparr>
    in decodeCircuit (\<lambda>key. hd key = 2) (\<lambda>key. True) (encodeCircuit c) = Inr c)"
  using circuit_codec_roundtrip [of "\<lambda>key. hd key = 2" "\<lambda>key. True"
      "newPaymentCircuit (replicate 32 7) \<lparr>hp_incomingChanID = 5, hp_incomingHTLCID = 1,
        hp_sourceRef = Some \<lparr>ar_height = 3, ar_index = 258\<rparr>, hp_incomingAmount = 1001, hp_amount = 1000,
        hp_obfuscator = Some (IntroductionErrorEncrypter (SphinxErrorEncrypter (2 # replicate 32 8)))\<rparr>" "[]"]
  by (simp add: storable_def newPaymentCircuit_def half_def Let_def)

end
