(* ===== verification/Circuit_Map.thy ===== *)
theory Circuit_Map
  imports Circuit
begin

text \<open>
  The switch's circuit map (\<open>htlcswitch/circuit_map.go\<close>): the circuits in memory, indexed by incoming
  key, outgoing key and payment hash, and the two buckets on disk they mirror. Circuits are shared
  between the indexes, so they live on a heap and the indexes hold addresses. Each operation is one
  step: the mutex is released between the change in memory and the write to disk, and what another
  goroutine may do there is not modelled. Whether a database transaction commits is the argument
  \<open>dbOk\<close>; one that does not leaves the buckets as they were. The order in which a bucket is
  enumerated is the parameter \<open>entries\<close>.
\<close>

section \<open>The state\<close>

type_synonym bucket = "byte list \<rightharpoonup> byte list"

record circuit_map =
  ct_heap :: "nat \<Rightarrow> payment_circuit"
  ct_next :: nat
  ct_pending :: "circuit_key \<rightharpoonup> nat"
  ct_opened :: "circuit_key \<rightharpoonup> nat"
  ct_closed :: "circuit_key set"
  ct_hashIndex :: "byte list \<rightharpoonup> circuit_key set"
  ct_adds :: bucket
  ct_keystones :: bucket

record circuit_fwd_actions =
  fa_adds :: "nat list"
  fa_drops :: "nat list"
  fa_fails :: "nat list"

record keystone =
  ks_inKey :: circuit_key
  ks_outKey :: circuit_key

text \<open>The caller's circuits are allocated on the same heap.\<close>

definition allocCircuit :: "payment_circuit \<Rightarrow> circuit_map \<Rightarrow> circuit_map \<times> nat" where
  "allocCircuit c cm = (cm\<lparr>ct_heap := (ct_heap cm)(ct_next cm := c), ct_next := ct_next cm + 1\<rparr>, ct_next cm)"

section \<open>The hash index\<close>

definition addCircuitToHashIndex :: "circuit_map \<Rightarrow> payment_circuit \<Rightarrow> circuit_map" where
  "addCircuitToHashIndex cm c =
     (let bucket = (case ct_hashIndex cm (pc_paymentHash c) of None \<Rightarrow> {} | Some s \<Rightarrow> s)
      in cm\<lparr>ct_hashIndex := (ct_hashIndex cm)(pc_paymentHash c \<mapsto> insert (outKey c) bucket)\<rparr>)"

definition removeCircuitFromHashIndex :: "circuit_map \<Rightarrow> payment_circuit \<Rightarrow> circuit_map" where
  "removeCircuitFromHashIndex cm c =
     (case ct_hashIndex cm (pc_paymentHash c) of
        None \<Rightarrow> cm
      | Some circuitsWithHash \<Rightarrow>
          let rest = circuitsWithHash - {outKey c}
          in cm\<lparr>ct_hashIndex := (ct_hashIndex cm)(pc_paymentHash c := (if rest = {} then None else Some rest))\<rparr>)"

section \<open>Lookups\<close>

definition lookupCircuit :: "circuit_map \<Rightarrow> circuit_key \<Rightarrow> nat option" where
  "lookupCircuit cm k = ct_pending cm k"

definition lookupOpenCircuit :: "circuit_map \<Rightarrow> circuit_key \<Rightarrow> nat option" where
  "lookupOpenCircuit cm k = ct_opened cm k"

definition lookupByPaymentHash :: "circuit_map \<Rightarrow> byte list \<Rightarrow> nat set" where
  "lookupByPaymentHash cm hash =
     (case ct_hashIndex cm hash of
        None \<Rightarrow> {}
      | Some circuitSet \<Rightarrow> {a. \<exists>key \<in> circuitSet. ct_opened cm key = Some a})"

definition numPending :: "circuit_map \<Rightarrow> nat" where
  "numPending cm = card (dom (ct_pending cm))"

definition numOpen :: "circuit_map \<Rightarrow> nat" where
  "numOpen cm = card (dom (ct_opened cm))"

section \<open>Committing circuits\<close>

text \<open>The scan of \<open>CommitCircuits\<close>, with \<open>addFails\<close> as the last list.\<close>

fun reconcile ::
  "circuit_map \<Rightarrow> nat list \<Rightarrow> circuit_map \<times> nat list \<times> nat list \<times> nat list \<times> nat list" where
  "reconcile cm [] = (cm, [], [], [], [])"
| "reconcile cm (circuit # circuits) =
     (let key = inKey (ct_heap cm circuit)
      in case ct_pending cm key of
           Some found \<Rightarrow>
             (case reconcile cm circuits of
                (cm', adds, drops, fails, addFails) \<Rightarrow>
                  if hasKeystone (ct_heap cm found) \<or> \<not> pc_loadedFromDisk (ct_heap cm found)
                  then (cm', adds, circuit # drops, fails, addFails)
                  else (cm', adds, drops, circuit # fails, circuit # addFails))
         | None \<Rightarrow>
             (case reconcile (cm\<lparr>ct_pending := (ct_pending cm)(key \<mapsto> circuit)\<rparr>) circuits of
                (cm', adds, drops, fails, addFails) \<Rightarrow>
                  (cm', circuit # adds, drops, fails, circuit # addFails)))"

definition putCircuits :: "(nat \<Rightarrow> payment_circuit) \<Rightarrow> nat list \<Rightarrow> bucket \<Rightarrow> bucket" where
  "putCircuits heap as b =
     foldl (\<lambda>b a. b(circuitKeyBytes (inKey (heap a)) \<mapsto> encodeCircuit (heap a))) b as"

definition dropPending :: "circuit_map \<Rightarrow> nat list \<Rightarrow> circuit_map" where
  "dropPending cm as =
     cm\<lparr>ct_pending := foldl (\<lambda>m a. m(inKey (ct_heap cm a) := None)) (ct_pending cm) as\<rparr>"

definition commitCircuits ::
  "bool \<Rightarrow> circuit_map \<Rightarrow> nat list \<Rightarrow> circuit_map \<times> circuit_fwd_actions \<times> circuit_error option" where
  "commitCircuits dbOk cm circuits =
     (case reconcile cm circuits of
        (cm', adds, drops, fails, addFails) \<Rightarrow>
          if adds = [] then (cm', \<lparr>fa_adds = [], fa_drops = drops, fa_fails = fails\<rparr>, None)
          else if dbOk then
            (cm'\<lparr>ct_adds := putCircuits (ct_heap cm') adds (ct_adds cm')\<rparr>,
             \<lparr>fa_adds = adds, fa_drops = drops, fa_fails = fails\<rparr>, None)
          else (dropPending cm' adds, \<lparr>fa_adds = [], fa_drops = drops, fa_fails = addFails\<rparr>, Some CircuitDbFailed))"

section \<open>Opening circuits\<close>

fun findUnopened :: "circuit_map \<Rightarrow> keystone list \<Rightarrow> circuit_error + nat list" where
  "findUnopened cm [] = Inr []"
| "findUnopened cm (ks # kss) =
     (if ct_opened cm (ks_outKey ks) \<noteq> None then Inl ErrDuplicateKeystone
      else case ct_pending cm (ks_inKey ks) of
             None \<Rightarrow> Inl ErrUnknownCircuit
           | Some circuit \<Rightarrow> and_then (findUnopened cm kss) (\<lambda>circuits. Inr (circuit # circuits)))"

definition setKeystone :: "circuit_map \<Rightarrow> nat \<Rightarrow> keystone \<Rightarrow> circuit_map" where
  "setKeystone cm circuit ks =
     (let c = (ct_heap cm circuit)\<lparr>pc_outgoing := Some (ks_outKey ks)\<rparr>
      in addCircuitToHashIndex
           (cm\<lparr>ct_heap := (ct_heap cm)(circuit := c), ct_opened := (ct_opened cm)(ks_outKey ks \<mapsto> circuit)\<rparr>) c)"

definition putKeystones :: "keystone list \<Rightarrow> bucket \<Rightarrow> bucket" where
  "putKeystones kss b = foldl (\<lambda>b ks. b(circuitKeyBytes (ks_outKey ks) \<mapsto> circuitKeyBytes (ks_inKey ks))) b kss"

definition openCircuits :: "bool \<Rightarrow> circuit_map \<Rightarrow> keystone list \<Rightarrow> circuit_map \<times> circuit_error option" where
  "openCircuits dbOk cm keystones =
     (if keystones = [] then (cm, None)
      else case findUnopened cm keystones of
             Inl err \<Rightarrow> (cm, Some err)
           | Inr circuits \<Rightarrow>
               if \<not> dbOk then (cm, Some CircuitDbFailed)
               else (foldl (\<lambda>cm (circuit, ks). setKeystone cm circuit ks)
                       (cm\<lparr>ct_keystones := putKeystones keystones (ct_keystones cm)\<rparr>) (zip circuits keystones),
                     None))"

section \<open>Trimming and closing\<close>

text \<open>The loop over the keys from \<open>i\<close> on; it ends because it empties \<open>opened\<close>.\<close>

function trimLoop :: "u64 \<Rightarrow> u64 \<Rightarrow> circuit_map \<Rightarrow> circuit_map \<times> circuit_key list" where
  "trimLoop chanID i cm =
     (let key = \<lparr>ck_chanID = chanID, ck_htlcID = i\<rparr>
      in case ct_opened cm key of
           None \<Rightarrow> (cm, [])
         | Some circuit \<Rightarrow>
             let c = (ct_heap cm circuit)\<lparr>pc_outgoing := None\<rparr>;
                 cm1 = cm\<lparr>ct_heap := (ct_heap cm)(circuit := c), ct_opened := (ct_opened cm)(key := None)\<rparr>
             in case trimLoop chanID (i + 1) (removeCircuitFromHashIndex cm1 c) of
                  (cm2, keys) \<Rightarrow> (cm2, key # keys))"
  by pat_completeness auto

lemma hash_index_frame [simp]:
  "ct_opened (removeCircuitFromHashIndex cm c) = ct_opened cm"
  "ct_pending (removeCircuitFromHashIndex cm c) = ct_pending cm"
  "ct_heap (removeCircuitFromHashIndex cm c) = ct_heap cm"
  "ct_next (removeCircuitFromHashIndex cm c) = ct_next cm"
  "ct_closed (removeCircuitFromHashIndex cm c) = ct_closed cm"
  "ct_adds (removeCircuitFromHashIndex cm c) = ct_adds cm"
  "ct_keystones (removeCircuitFromHashIndex cm c) = ct_keystones cm"
  "ct_opened (addCircuitToHashIndex cm c) = ct_opened cm"
  "ct_pending (addCircuitToHashIndex cm c) = ct_pending cm"
  "ct_heap (addCircuitToHashIndex cm c) = ct_heap cm"
  "ct_next (addCircuitToHashIndex cm c) = ct_next cm"
  "ct_closed (addCircuitToHashIndex cm c) = ct_closed cm"
  "ct_adds (addCircuitToHashIndex cm c) = ct_adds cm"
  "ct_keystones (addCircuitToHashIndex cm c) = ct_keystones cm"
  by (simp_all add: removeCircuitFromHashIndex_def addCircuitToHashIndex_def Let_def split: option.split)

termination trimLoop
proof (relation "measure (\<lambda>(chanID, i, cm). card (dom (ct_opened cm)))")
  fix chanID i :: u64 and cm cm1 :: circuit_map and key circuit c
  assume a: "key = \<lparr>ck_chanID = chanID, ck_htlcID = i\<rparr>" "ct_opened cm key = Some circuit"
    "cm1 = cm\<lparr>ct_heap := (ct_heap cm)(circuit := c), ct_opened := (ct_opened cm)(key := None)\<rparr>"
  have "card (dom (ct_opened cm) - {key}) < card (dom (ct_opened cm))"
    using a(2) by (intro card_Diff1_less) auto
  then show "((chanID, i + 1, removeCircuitFromHashIndex cm1 c), (chanID, i, cm))
      \<in> measure (\<lambda>(chanID, i, cm). card (dom (ct_opened cm)))"
    by (simp add: a(3))
qed simp

declare trimLoop.simps [simp del]

definition deleteKeys :: "circuit_key list \<Rightarrow> bucket \<Rightarrow> bucket" where
  "deleteKeys keys b = foldl (\<lambda>b k. b(circuitKeyBytes k := None)) b keys"

definition trimOpenCircuits :: "bool \<Rightarrow> circuit_map \<Rightarrow> u64 \<Rightarrow> u64 \<Rightarrow> circuit_map \<times> circuit_error option" where
  "trimOpenCircuits dbOk cm chanID start =
     (case trimLoop chanID start cm of
        (cm', trimmedOutKeys) \<Rightarrow>
          if trimmedOutKeys = [] then (cm', None)
          else if \<not> dbOk then (cm', Some CircuitDbFailed)
          else (cm'\<lparr>ct_keystones := deleteKeys trimmedOutKeys (ct_keystones cm')\<rparr>, None))"

definition failCircuit :: "circuit_map \<Rightarrow> circuit_key \<Rightarrow> circuit_map \<times> (circuit_error + nat)" where
  "failCircuit cm key =
     (case ct_pending cm key of
        None \<Rightarrow> (cm, Inl ErrUnknownCircuit)
      | Some circuit \<Rightarrow>
          if key \<in> ct_closed cm then (cm, Inl ErrCircuitClosing)
          else (cm\<lparr>ct_closed := insert key (ct_closed cm)\<rparr>, Inr circuit))"

definition closeCircuit :: "circuit_map \<Rightarrow> circuit_key \<Rightarrow> circuit_map \<times> (circuit_error + nat)" where
  "closeCircuit cm key =
     (case ct_opened cm key of
        None \<Rightarrow> (cm, Inl ErrUnknownCircuit)
      | Some circuit \<Rightarrow>
          let incoming = pc_incoming (ct_heap cm circuit)
          in if incoming \<in> ct_closed cm then (cm, Inl ErrCircuitClosing)
             else (cm\<lparr>ct_closed := insert incoming (ct_closed cm)\<rparr>, Inr circuit))"

section \<open>Deleting circuits\<close>

text \<open>
  The loop in memory; it collects the removed circuits with their keys, in the order they are
  removed, and which of them had been marked as closing.
\<close>

fun removeCircuits ::
  "circuit_map \<Rightarrow> circuit_key list \<Rightarrow> circuit_map \<times> circuit_key set \<times> (circuit_key \<times> nat) list" where
  "removeCircuits cm [] = (cm, {}, [])"
| "removeCircuits cm (key # keys) =
     (case ct_pending cm key of
        None \<Rightarrow> removeCircuits cm keys
      | Some circuit \<Rightarrow>
          let c = ct_heap cm circuit;
              cm1 = cm\<lparr>ct_pending := (ct_pending cm)(key := None), ct_closed := ct_closed cm - {key}\<rparr>;
              cm2 = (if hasKeystone c
                     then removeCircuitFromHashIndex (cm1\<lparr>ct_opened := (ct_opened cm1)(outKey c := None)\<rparr>) c
                     else cm1)
          in case removeCircuits cm2 keys of
               (cm3, closing, removed) \<Rightarrow>
                 (cm3, if key \<in> ct_closed cm then insert key closing else closing, (key, circuit) # removed))"

definition deleteRemoved :: "circuit_map \<Rightarrow> nat list \<Rightarrow> circuit_map" where
  "deleteRemoved cm circuits =
     (let heap = ct_heap cm
      in cm\<lparr>ct_keystones := deleteKeys (map (outKey \<circ> heap) (filter (hasKeystone \<circ> heap) circuits)) (ct_keystones cm),
            ct_adds := deleteKeys (map (inKey \<circ> heap) circuits) (ct_adds cm)\<rparr>)"

definition restoreRemoved :: "circuit_key set \<Rightarrow> circuit_map \<Rightarrow> circuit_key \<times> nat \<Rightarrow> circuit_map" where
  "restoreRemoved closing cm e =
     (case e of (key, circuit) \<Rightarrow>
        let c = ct_heap cm circuit;
            cm1 = cm\<lparr>ct_pending := (ct_pending cm)(key \<mapsto> circuit),
                     ct_closed := (if key \<in> closing then insert key (ct_closed cm) else ct_closed cm)\<rparr>
        in if hasKeystone c
           then addCircuitToHashIndex (cm1\<lparr>ct_opened := (ct_opened cm1)(outKey c \<mapsto> circuit)\<rparr>) c
           else cm1)"

definition deleteCircuits :: "bool \<Rightarrow> circuit_map \<Rightarrow> circuit_key list \<Rightarrow> circuit_map \<times> circuit_error option" where
  "deleteCircuits dbOk cm inKeys =
     (case removeCircuits cm inKeys of
        (cm', closing, removed) \<Rightarrow>
          if dbOk then (deleteRemoved cm' (map snd removed), None)
          else (foldl (restoreRemoved closing) cm' removed, Some CircuitDbFailed))"

section \<open>Starting up\<close>

text \<open>
  What the map is started with: the key checks of the onion processor, the bucket enumeration, the
  channels of the channel database (a closed one with its \<open>IsPending\<close>, an open one with the next
  index of its local log), whether a resolution message waits for an outgoing key, and which of the
  transactions commit.
\<close>

record active_channel =
  ac_isPending :: bool
  ac_shortChanID :: u64
  ac_nextLocalHtlcIndex :: "circuit_error + u64"

record circuit_config =
  cg_validKey :: "byte list \<Rightarrow> bool"
  cg_extract :: "byte list \<Rightarrow> bool"
  cg_entries :: "bucket \<Rightarrow> (byte list \<times> byte list) list"
  cg_closedChannels :: "circuit_error + (u64 \<times> bool) list"
  cg_openChannels :: "circuit_error + active_channel list"
  cg_resolutionStored :: "circuit_key \<Rightarrow> bool"
  cg_initOk :: bool
  cg_cleanOk :: bool
  cg_restoreOk :: bool
  cg_trimOk :: "u64 \<Rightarrow> bool"

definition isClosedChannel :: "u64 set \<Rightarrow> u64 \<Rightarrow> bool" where
  "isClosedChannel closedChanIDSet chanID \<longleftrightarrow> chanID \<noteq> 0 \<and> chanID \<in> closedChanIDSet"

fun staleCircuits ::
  "circuit_config \<Rightarrow> u64 set \<Rightarrow> (byte list \<times> byte list) list \<Rightarrow> circuit_error + circuit_key set" where
  "staleCircuits cfg closedSet [] = Inr {}"
| "staleCircuits cfg closedSet ((k, v) # es) =
     and_then (decodeCircuit (cg_validKey cfg) (cg_extract cfg) v) (\<lambda>circuit.
     and_then (staleCircuits cfg closedSet es) (\<lambda>keys.
       Inr (if isClosedChannel closedSet (ck_chanID (pc_incoming circuit))
            then insert (pc_incoming circuit) keys else keys)))"

text \<open>The circuits and the keystones to delete because of the keystone bucket.\<close>

fun staleKeystones ::
  "circuit_config \<Rightarrow> u64 set \<Rightarrow> (byte list \<times> byte list) list
    \<Rightarrow> circuit_error + circuit_key set \<times> circuit_key set" where
  "staleKeystones cfg closedSet [] = Inr ({}, {})"
| "staleKeystones cfg closedSet ((k, v) # es) =
     and_then (setBytes v) (\<lambda>inK.
     and_then (setBytes k) (\<lambda>outK.
     and_then (staleKeystones cfg closedSet es) (\<lambda>(circuitKeySet, keystoneKeySet).
       if isClosedChannel closedSet (ck_chanID inK)
       then Inr (insert inK circuitKeySet, insert outK keystoneKeySet)
       else if isClosedChannel closedSet (ck_chanID outK) \<and> \<not> cg_resolutionStored cfg outK
       then Inr (insert inK circuitKeySet, insert outK keystoneKeySet)
       else Inr (circuitKeySet, keystoneKeySet))))"

definition deleteKeySet :: "circuit_key set \<Rightarrow> bucket \<Rightarrow> bucket" where
  "deleteKeySet keys b = (\<lambda>k. if k \<in> circuitKeyBytes ` keys then None else b k)"

definition cleanClosedChannels :: "circuit_config \<Rightarrow> bucket \<Rightarrow> bucket \<Rightarrow> circuit_error + bucket \<times> bucket" where
  "cleanClosedChannels cfg adds keystones =
     and_then (cg_closedChannels cfg) (\<lambda>closedChannels.
       let closedSet = fst ` {c \<in> set closedChannels. \<not> snd c}
       in if closedSet = {} then Inr (adds, keystones)
          else
            and_then (staleCircuits cfg closedSet (cg_entries cfg adds)) (\<lambda>keys1.
            and_then (staleKeystones cfg closedSet (cg_entries cfg keystones)) (\<lambda>(keys2, outKeys).
              if cg_cleanOk cfg
              then Inr (deleteKeySet (keys1 \<union> keys2) adds, deleteKeySet outKeys keystones)
              else Inl CircuitDbFailed)))"

text \<open>\<open>restoreMemState\<close>: the circuits first, then the keystones, collecting the stray ones.\<close>

fun restoreAdds ::
  "circuit_config \<Rightarrow> (byte list \<times> byte list) list \<Rightarrow> circuit_map \<Rightarrow> circuit_error + circuit_map" where
  "restoreAdds cfg [] cm = Inr cm"
| "restoreAdds cfg ((k, v) # es) cm =
     and_then (decodeCircuit (cg_validKey cfg) (cg_extract cfg) v) (\<lambda>circuit.
       case allocCircuit (circuit\<lparr>pc_loadedFromDisk := True\<rparr>) cm of
         (cm', a) \<Rightarrow> restoreAdds cfg es (cm'\<lparr>ct_pending := (ct_pending cm')(pc_incoming circuit \<mapsto> a)\<rparr>))"

fun restoreKeystones ::
  "(byte list \<times> byte list) list \<Rightarrow> circuit_map \<Rightarrow> circuit_error + circuit_map \<times> keystone list" where
  "restoreKeystones [] cm = Inr (cm, [])"
| "restoreKeystones ((k, v) # es) cm =
     and_then (setBytes v) (\<lambda>inK.
     and_then (setBytes k) (\<lambda>outK.
       case ct_pending cm inK of
         Some circuit \<Rightarrow>
           restoreKeystones es
             (cm\<lparr>ct_heap := (ct_heap cm)(circuit := (ct_heap cm circuit)\<lparr>pc_outgoing := Some outK\<rparr>),
                 ct_opened := (ct_opened cm)(outK \<mapsto> circuit)\<rparr>)
       | None \<Rightarrow>
           and_then (restoreKeystones es cm) (\<lambda>(cm', stray).
             Inr (cm', \<lparr>ks_inKey = inK, ks_outKey = outK\<rparr> # stray))))"

text \<open>The hash index of the opened circuits, which are those of the keystones just read.\<close>

definition rebuildHashIndex :: "(byte list \<times> byte list) list \<Rightarrow> circuit_map \<Rightarrow> circuit_map" where
  "rebuildHashIndex es cm =
     foldl (\<lambda>cm (k, v). case setBytes k of
              Inl err \<Rightarrow> cm
            | Inr outK \<Rightarrow> (case ct_opened cm outK of
                              None \<Rightarrow> cm
                            | Some circuit \<Rightarrow> addCircuitToHashIndex cm (ct_heap cm circuit))) cm es"

definition emptyCircuitMap :: "bucket \<Rightarrow> bucket \<Rightarrow> circuit_map" where
  "emptyCircuitMap adds keystones =
     \<lparr>ct_heap = (\<lambda>a. newPaymentCircuit (replicate 32 0)
        \<lparr>hp_incomingChanID = 0, hp_incomingHTLCID = 0, hp_sourceRef = None, hp_incomingAmount = 0,
         hp_amount = 0, hp_obfuscator = None\<rparr>),
      ct_next = 0, ct_pending = Map.empty, ct_opened = Map.empty, ct_closed = {}, ct_hashIndex = Map.empty,
      ct_adds = adds, ct_keystones = keystones\<rparr>"

definition restoreMemState :: "circuit_config \<Rightarrow> bucket \<Rightarrow> bucket \<Rightarrow> circuit_error + circuit_map" where
  "restoreMemState cfg adds keystones =
     and_then (restoreAdds cfg (cg_entries cfg adds) (emptyCircuitMap adds keystones)) (\<lambda>cm1.
     and_then (restoreKeystones (cg_entries cfg keystones) cm1) (\<lambda>(cm2, strayKeystones).
       if \<not> cg_restoreOk cfg then Inl CircuitDbFailed
       else
         let local = filter (\<lambda>k. ck_chanID k = 0) (map ks_outKey strayKeystones)
         in Inr (rebuildHashIndex (cg_entries cfg keystones)
                   (cm2\<lparr>ct_keystones := deleteKeys local (ct_keystones cm2)\<rparr>))))"

fun trimAllOpenCircuits ::
  "circuit_config \<Rightarrow> active_channel list \<Rightarrow> circuit_map \<Rightarrow> circuit_map \<times> circuit_error option" where
  "trimAllOpenCircuits cfg [] cm = (cm, None)"
| "trimAllOpenCircuits cfg (activeChannel # rest) cm =
     (let chanID = ac_shortChanID activeChannel
      in if ac_isPending activeChannel \<or> chanID = 0 then trimAllOpenCircuits cfg rest cm
         else case ac_nextLocalHtlcIndex activeChannel of
                Inl err \<Rightarrow> (cm, Some err)
              | Inr start \<Rightarrow>
                  (case trimOpenCircuits (cg_trimOk cfg chanID) cm chanID start of
                     (cm', Some err) \<Rightarrow> (cm', Some err)
                   | (cm', None) \<Rightarrow> trimAllOpenCircuits cfg rest cm'))"

text \<open>\<open>NewCircuitMap\<close>, with the buckets it leaves on disk when it fails.\<close>

definition newCircuitMap ::
  "circuit_config \<Rightarrow> bucket \<Rightarrow> bucket \<Rightarrow> (bucket \<times> bucket) \<times> (circuit_error + circuit_map)" where
  "newCircuitMap cfg adds keystones =
     (if \<not> cg_initOk cfg then ((adds, keystones), Inl CircuitDbFailed)
      else case cleanClosedChannels cfg adds keystones of
             Inl err \<Rightarrow> ((adds, keystones), Inl err)
           | Inr (adds1, keystones1) \<Rightarrow>
               (case restoreMemState cfg adds1 keystones1 of
                  Inl err \<Rightarrow> ((adds1, keystones1), Inl err)
                | Inr cm \<Rightarrow>
                    (case cg_openChannels cfg of
                       Inl err \<Rightarrow> ((ct_adds cm, ct_keystones cm), Inl err)
                     | Inr activeChannels \<Rightarrow>
                         (case trimAllOpenCircuits cfg activeChannels cm of
                            (cm', Some err) \<Rightarrow> ((ct_adds cm', ct_keystones cm'), Inl err)
                          | (cm', None) \<Rightarrow> ((ct_adds cm', ct_keystones cm'), Inr cm')))))"

end
