(* ===== verification/Circuit_Inv.thy ===== *)
theory Circuit_Inv
  imports Circuit_Map
begin

text \<open>
  The invariant of the circuit map: its indexes agree with each other and with the circuits on the heap
  (\<open>mem_wf\<close>) and the buckets hold exactly what is in memory (\<open>disk_wf\<close>). Every operation keeps both, and a
  deletion that fails to reach the disk is undone completely.
\<close>

section \<open>Buckets keyed by circuits\<close>

text \<open>There are as many lists of eight bytes as 64-bit words, so each of them is an encoding.\<close>

lemma put_get_uint64:
  assumes "length bs = 8"
  shows "put_uint64 (get_uint64 bs) = bs"
proof -
  let ?L = "{bs :: byte list. set bs \<subseteq> UNIV \<and> length bs = 8}"
  have "card (range put_uint64) = card (UNIV :: u64 set)"
    by (rule card_image) (simp add: inj_on_def)
  also have "\<dots> = card ?L"
    using card_lists_length_eq [of "UNIV :: byte set" 8] by (simp add: card_word)
  finally have "range put_uint64 = ?L"
    using finite_lists_length_eq [of "UNIV :: byte set" 8] by (intro card_subset_eq) auto
  then obtain x where "bs = put_uint64 x" using assms by (auto simp: image_iff set_eq_iff)
  then show ?thesis by simp
qed

lemma setBytes_iff: "setBytes b = Inr k \<longleftrightarrow> b = circuitKeyBytes k"
proof
  assume b: "setBytes b = Inr k"
  then have "length b = 16" by (auto simp: setBytes_def split: if_splits)
  then have "put_uint64 (get_uint64 (take 8 b)) = take 8 b" "put_uint64 (get_uint64 (drop 8 b)) = drop 8 b"
    by (simp_all add: put_get_uint64)
  then show "b = circuitKeyBytes k"
    using b by (auto simp: setBytes_def circuitKeyBytes_def split: if_splits)
qed simp

definition bucket_of :: "(circuit_key \<rightharpoonup> byte list) \<Rightarrow> bucket" where
  "bucket_of f = (\<lambda>b. case setBytes b of Inl e \<Rightarrow> None | Inr k \<Rightarrow> f k)"

lemma bucket_of_key [simp]: "bucket_of f (circuitKeyBytes k) = f k"
  by (simp add: bucket_of_def)

lemma bucket_of_upd [simp]: "(bucket_of f)(circuitKeyBytes k := v) = bucket_of (f(k := v))"
  by (auto simp: bucket_of_def setBytes_iff fun_eq_iff split: sum.splits)

lemma bucket_of_inj [simp]: "bucket_of f = bucket_of g \<longleftrightarrow> f = g"
  by (metis bucket_of_key ext)

lemma deleteKeys_of: "deleteKeys keys (bucket_of f) = bucket_of (\<lambda>k. if k \<in> set keys then None else f k)"
proof (induction keys arbitrary: f)
  case (Cons k keys)
  have eq: "(\<lambda>x. if x \<in> set keys then None else (f(k := None)) x) = (\<lambda>x. if x \<in> set (k # keys) then None else f x)"
    by auto
  show ?case using Cons [of "f(k := None)"] unfolding eq by (simp add: deleteKeys_def del: fun_upd_apply)
qed (simp add: deleteKeys_def)

lemma deleteKeySet_of: "deleteKeySet K (bucket_of f) = bucket_of (\<lambda>k. if k \<in> K then None else f k)"
proof
  show "deleteKeySet K (bucket_of f) b = bucket_of (\<lambda>k. if k \<in> K then None else f k) b" for b
    by (auto simp: deleteKeySet_def bucket_of_def setBytes_iff split: sum.splits)
qed

section \<open>The hash index as sets\<close>

definition hset :: "circuit_map \<Rightarrow> byte list \<Rightarrow> circuit_key set" where
  "hset cm h = (case ct_hashIndex cm h of None \<Rightarrow> {} | Some s \<Rightarrow> s)"

text \<open>No bucket of the index is empty.\<close>

definition index_pruned :: "circuit_map \<Rightarrow> bool" where
  "index_pruned cm \<longleftrightarrow> (\<forall>h. ct_hashIndex cm h \<noteq> Some {})"

lemma index_pruned_eq:
  assumes "index_pruned cm" "index_pruned cm'" "hset cm = hset cm'"
  shows "ct_hashIndex cm = ct_hashIndex cm'"
proof
  fix h
  have "hset cm h = hset cm' h" using assms(3) by simp
  then show "ct_hashIndex cm h = ct_hashIndex cm' h"
    using assms(1,2) by (auto simp: hset_def index_pruned_def split: option.splits)
qed

lemma hset_add [simp]:
  "hset (addCircuitToHashIndex cm c) = (hset cm)(pc_paymentHash c := insert (outKey c) (hset cm (pc_paymentHash c)))"
  by (auto simp: hset_def addCircuitToHashIndex_def Let_def fun_eq_iff split: option.splits)

lemma hset_remove [simp]:
  "hset (removeCircuitFromHashIndex cm c) = (hset cm)(pc_paymentHash c := hset cm (pc_paymentHash c) - {outKey c})"
  by (auto simp: hset_def removeCircuitFromHashIndex_def Let_def fun_eq_iff split: option.splits)

lemma index_pruned_ops [intro]:
  assumes "index_pruned cm"
  shows "index_pruned (addCircuitToHashIndex cm c)" "index_pruned (removeCircuitFromHashIndex cm c)"
  using assms
  by (auto simp: index_pruned_def addCircuitToHashIndex_def removeCircuitFromHashIndex_def Let_def
      split: option.splits)

lemma hset_frame [simp]:
  "hset (cm\<lparr>ct_heap := a\<rparr>) = hset cm" "hset (cm\<lparr>ct_next := n\<rparr>) = hset cm" "hset (cm\<lparr>ct_pending := p\<rparr>) = hset cm"
  "hset (cm\<lparr>ct_opened := p\<rparr>) = hset cm" "hset (cm\<lparr>ct_closed := s\<rparr>) = hset cm" "hset (cm\<lparr>ct_adds := b\<rparr>) = hset cm"
  "hset (cm\<lparr>ct_keystones := b\<rparr>) = hset cm"
  by (simp_all add: hset_def fun_eq_iff)

lemma index_pruned_frame [simp]:
  "index_pruned (cm\<lparr>ct_heap := a\<rparr>) = index_pruned cm" "index_pruned (cm\<lparr>ct_next := n\<rparr>) = index_pruned cm"
  "index_pruned (cm\<lparr>ct_pending := p\<rparr>) = index_pruned cm" "index_pruned (cm\<lparr>ct_opened := p\<rparr>) = index_pruned cm"
  "index_pruned (cm\<lparr>ct_closed := s\<rparr>) = index_pruned cm" "index_pruned (cm\<lparr>ct_adds := b\<rparr>) = index_pruned cm"
  "index_pruned (cm\<lparr>ct_keystones := b\<rparr>) = index_pruned cm"
  by (simp_all add: index_pruned_def)

section \<open>The invariant\<close>

text \<open>The indexes in memory agree with each other and with the circuits.\<close>

definition mem_wf :: "circuit_map \<Rightarrow> bool" where
  "mem_wf cm \<longleftrightarrow>
     (\<forall>k a. ct_pending cm k = Some a \<longrightarrow> a < ct_next cm \<and> pc_incoming (ct_heap cm a) = k) \<and>
     (\<forall>k a. ct_opened cm k = Some a \<longrightarrow> pc_outgoing (ct_heap cm a) = Some k \<and>
        ct_pending cm (pc_incoming (ct_heap cm a)) = Some a) \<and>
     (\<forall>k a. ct_pending cm k = Some a \<longrightarrow> pc_outgoing (ct_heap cm a) \<noteq> None \<longrightarrow>
        ct_opened cm (outKey (ct_heap cm a)) = Some a) \<and>
     ct_closed cm \<subseteq> dom (ct_pending cm) \<and>
     (\<forall>k a. ct_opened cm k = Some a \<longrightarrow> k \<in> hset cm (pc_paymentHash (ct_heap cm a))) \<and>
     index_pruned cm \<and> ct_opened cm emptyCircuitKey = None"

text \<open>The buckets hold exactly the pending circuits and the keystones of the opened ones.\<close>

definition addsImage :: "circuit_map \<Rightarrow> circuit_key \<rightharpoonup> byte list" where
  "addsImage cm = (\<lambda>k. map_option (\<lambda>a. encodeCircuit (ct_heap cm a)) (ct_pending cm k))"

definition keystonesImage :: "circuit_map \<Rightarrow> circuit_key \<rightharpoonup> byte list" where
  "keystonesImage cm = (\<lambda>k. map_option (\<lambda>a. circuitKeyBytes (pc_incoming (ct_heap cm a))) (ct_opened cm k))"

definition disk_wf :: "circuit_map \<Rightarrow> bool" where
  "disk_wf cm \<longleftrightarrow> ct_adds cm = bucket_of (addsImage cm) \<and> ct_keystones cm = bucket_of (keystonesImage cm)"

lemma mem_wfD:
  assumes "mem_wf cm"
  shows "ct_pending cm k = Some a \<Longrightarrow> a < ct_next cm \<and> pc_incoming (ct_heap cm a) = k"
    "ct_opened cm o' = Some a \<Longrightarrow> pc_outgoing (ct_heap cm a) = Some o' \<and> ct_pending cm (pc_incoming (ct_heap cm a)) = Some a"
    "ct_pending cm k = Some a \<Longrightarrow> pc_outgoing (ct_heap cm a) = Some o' \<Longrightarrow> ct_opened cm o' = Some a"
    "ct_closed cm \<subseteq> dom (ct_pending cm)"
    "ct_opened cm o' = Some a \<Longrightarrow> o' \<in> hset cm (pc_paymentHash (ct_heap cm a))"
    "index_pruned cm" "ct_opened cm emptyCircuitKey = None"
proof -
  show "ct_pending cm k = Some a \<Longrightarrow> a < ct_next cm \<and> pc_incoming (ct_heap cm a) = k"
    "ct_opened cm o' = Some a \<Longrightarrow> pc_outgoing (ct_heap cm a) = Some o' \<and> ct_pending cm (pc_incoming (ct_heap cm a)) = Some a"
    "ct_closed cm \<subseteq> dom (ct_pending cm)"
    "ct_opened cm o' = Some a \<Longrightarrow> o' \<in> hset cm (pc_paymentHash (ct_heap cm a))"
    "index_pruned cm" "ct_opened cm emptyCircuitKey = None"
    using assms unfolding mem_wf_def by blast+
  assume p: "ct_pending cm k = Some a" "pc_outgoing (ct_heap cm a) = Some o'"
  then have "ct_opened cm (outKey (ct_heap cm a)) = Some a" using assms unfolding mem_wf_def by blast
  then show "ct_opened cm o' = Some a" using p(2) by (simp add: outKey_def)
qed

lemma mem_wf_disk [simp]:
  "mem_wf (cm\<lparr>ct_adds := b\<rparr>) = mem_wf cm" "mem_wf (cm\<lparr>ct_keystones := b\<rparr>) = mem_wf cm"
  by (simp_all add: mem_wf_def)

lemma mem_wfI:
  assumes "\<And>k a. ct_pending cm k = Some a \<Longrightarrow> a < ct_next cm \<and> pc_incoming (ct_heap cm a) = k"
    "\<And>k a. ct_opened cm k = Some a \<Longrightarrow> pc_outgoing (ct_heap cm a) = Some k \<and>
        ct_pending cm (pc_incoming (ct_heap cm a)) = Some a"
    "\<And>k k' a. ct_pending cm k = Some a \<Longrightarrow> pc_outgoing (ct_heap cm a) = Some k' \<Longrightarrow> ct_opened cm k' = Some a"
    "ct_closed cm \<subseteq> dom (ct_pending cm)"
    "\<And>k a. ct_opened cm k = Some a \<Longrightarrow> k \<in> hset cm (pc_paymentHash (ct_heap cm a))"
    "index_pruned cm" "ct_opened cm emptyCircuitKey = None"
  shows "mem_wf cm"
  unfolding mem_wf_def
proof (intro conjI allI impI)
  fix k a assume "ct_pending cm k = Some a" "pc_outgoing (ct_heap cm a) \<noteq> None"
  then show "ct_opened cm (outKey (ct_heap cm a)) = Some a"
    using assms(3) by (auto simp: outKey_def)
qed (use assms in blast)+

lemma outKey_simps [simp]:
  "outKey (c\<lparr>pc_outgoing := None\<rparr>) = emptyCircuitKey" "outKey (c\<lparr>pc_outgoing := Some k\<rparr>) = k"
  "encodeCircuit (c\<lparr>pc_outgoing := x\<rparr>) = encodeCircuit c" "pc_outgoing c = Some k \<Longrightarrow> outKey c = k"
  by (simp_all add: outKey_def encodeCircuit_def)

lemma half_simps [simp]:
  "encodeCircuit (half c) = encodeCircuit c" "pc_incoming (half c) = pc_incoming c"
  "encodeCircuit (c\<lparr>pc_loadedFromDisk := x\<rparr>) = encodeCircuit c"
  by (simp_all add: half_def encodeCircuit_def)

lemma mem_wf_empty: "mem_wf (emptyCircuitMap adds keystones)"
  by (auto simp: mem_wf_def emptyCircuitMap_def index_pruned_def)

section \<open>Every operation keeps the invariant\<close>

lemma alloc_wf:
  assumes "mem_wf cm" "disk_wf cm" "allocCircuit c cm = (cm', a)"
  shows "mem_wf cm'" "disk_wf cm'"
proof -
  have cm': "cm' = cm\<lparr>ct_heap := (ct_heap cm)(ct_next cm := c), ct_next := ct_next cm + 1\<rparr>"
    using assms(3) by (auto simp: allocCircuit_def)
  have old: "ct_pending cm k = Some b \<Longrightarrow> b \<noteq> ct_next cm" "ct_opened cm k = Some b \<Longrightarrow> b \<noteq> ct_next cm" for k b
    using mem_wfD(1,2) [OF assms(1)] by (metis less_irrefl)+
  note w = mem_wfD [OF assms(1)]
  show "mem_wf cm'"
  proof (rule mem_wfI)
    show "b < ct_next cm' \<and> pc_incoming (ct_heap cm' b) = k" if "ct_pending cm' k = Some b" for k b
      using that w(1) [of k b] old(1) [of k b] by (simp add: cm')
    show "pc_outgoing (ct_heap cm' b) = Some k \<and> ct_pending cm' (pc_incoming (ct_heap cm' b)) = Some b"
      if "ct_opened cm' k = Some b" for k b
      using that w(2) [of k b] old(2) [of k b] by (simp add: cm')
    show "ct_opened cm' k' = Some b" if "ct_pending cm' k = Some b" "pc_outgoing (ct_heap cm' b) = Some k'" for k k' b
      using that w(3) [of k b k'] old(1) [of k b] by (simp add: cm')
    show "k \<in> hset cm' (pc_paymentHash (ct_heap cm' b))" if "ct_opened cm' k = Some b" for k b
      using that w(5) [of k b] old(2) [of k b] by (simp add: cm')
  qed (use w(4,6,7) in \<open>simp_all add: cm'\<close>)
  have "addsImage cm' = addsImage cm" "keystonesImage cm' = keystonesImage cm"
    using old by (auto simp: cm' addsImage_def keystonesImage_def fun_eq_iff map_option_case split: option.splits)
  then show "disk_wf cm'" using assms(2) by (simp add: disk_wf_def cm')
qed

lemma closing_wf:
  assumes "mem_wf cm" "disk_wf cm"
  shows "failCircuit cm k = (cm', r) \<Longrightarrow> mem_wf cm' \<and> disk_wf cm'"
    "closeCircuit cm k = (cm', r) \<Longrightarrow> mem_wf cm' \<and> disk_wf cm'"
proof -
  have upd: "mem_wf (cm\<lparr>ct_closed := insert i (ct_closed cm)\<rparr>) \<and> disk_wf (cm\<lparr>ct_closed := insert i (ct_closed cm)\<rparr>)"
    if "ct_pending cm i \<noteq> None" for i
    using assms that unfolding mem_wf_def disk_wf_def addsImage_def keystonesImage_def by simp blast
  show "failCircuit cm k = (cm', r) \<Longrightarrow> mem_wf cm' \<and> disk_wf cm'"
    using assms upd by (auto simp: failCircuit_def split: option.splits if_splits)
  show "closeCircuit cm k = (cm', r) \<Longrightarrow> mem_wf cm' \<and> disk_wf cm'"
    using assms upd mem_wfD(2) [OF assms(1)]
    by (auto simp: closeCircuit_def Let_def split: option.splits if_splits)
qed

text \<open>The elements of a list at the positions that satisfy \<open>P\<close>, in order.\<close>

definition pick :: "'a list \<Rightarrow> (nat \<Rightarrow> bool) \<Rightarrow> 'a list" where
  "pick xs P = map ((!) xs) (filter P [0..<length xs])"

lemma pick_simps [simp]:
  "pick [] P = []" "pick (x # xs) P = (if P 0 then [x] else []) @ pick xs (\<lambda>i. P (Suc i))"
proof -
  have "filter P [0..<length (x # xs)] = (if P 0 then [0] else []) @ map Suc (filter (\<lambda>i. P (Suc i)) [0..<length xs])"
    by (simp add: upt_conv_Cons map_Suc_upt [symmetric] filter_map comp_def del: upt_Suc)
  then show "pick (x # xs) P = (if P 0 then [x] else []) @ pick xs (\<lambda>i. P (Suc i))"
    unfolding pick_def by (simp add: comp_def)
qed (simp add: pick_def)

lemma pick_cong: "(\<And>i. i < length xs \<Longrightarrow> P i = Q i) \<Longrightarrow> pick xs P = pick xs Q"
  unfolding pick_def by (intro arg_cong [where f = "map _"] filter_cong) auto

section \<open>Committing\<close>

definition keyAt :: "circuit_map \<Rightarrow> nat list \<Rightarrow> nat \<Rightarrow> circuit_key" where
  "keyAt cm circuits i = pc_incoming (ct_heap cm (circuits ! i))"

text \<open>The circuit at this position is the first with its key, in the map and in the batch.\<close>

definition firstSeen :: "circuit_map \<Rightarrow> nat list \<Rightarrow> nat \<Rightarrow> bool" where
  "firstSeen cm circuits i \<longleftrightarrow>
     ct_pending cm (keyAt cm circuits i) = None \<and> (\<forall>j < i. keyAt cm circuits j \<noteq> keyAt cm circuits i)"

text \<open>The circuit known under its key came from disk and was never forwarded again.\<close>

definition lostInRestart :: "circuit_map \<Rightarrow> nat list \<Rightarrow> nat \<Rightarrow> bool" where
  "lostInRestart cm circuits i \<longleftrightarrow>
     (case ct_pending cm (keyAt cm circuits i) of
        None \<Rightarrow> False
      | Some found \<Rightarrow> \<not> hasKeystone (ct_heap cm found) \<and> pc_loadedFromDisk (ct_heap cm found))"

lemma firstSeen_simps:
  "firstSeen cm (c # cs) 0 \<longleftrightarrow> ct_pending cm (inKey (ct_heap cm c)) = None"
  "firstSeen cm (c # cs) (Suc i) \<longleftrightarrow>
     firstSeen (cm\<lparr>ct_pending := (ct_pending cm)(inKey (ct_heap cm c) \<mapsto> b)\<rparr>) cs i"
  by (auto simp: firstSeen_def keyAt_def inKey_def less_Suc_eq_0_disj)

lemma firstSeen_known:
  "ct_pending cm (inKey (ct_heap cm c)) = Some f \<Longrightarrow> firstSeen cm (c # cs) (Suc i) \<longleftrightarrow> firstSeen cm cs i"
  by (auto simp: firstSeen_def keyAt_def inKey_def less_Suc_eq_0_disj)

lemma reconcile_frame:
  assumes "reconcile cm circuits = (cm', adds, drops, fails, addFails)"
  shows "cm' = cm\<lparr>ct_pending := foldl (\<lambda>m a. m(inKey (ct_heap cm a) \<mapsto> a)) (ct_pending cm) adds\<rparr>"
    "distinct (map (inKey \<circ> ct_heap cm) adds)"
    "\<forall>a \<in> set adds. a \<in> set circuits \<and> ct_pending cm (inKey (ct_heap cm a)) = None"
proof -
  have "cm' = cm\<lparr>ct_pending := foldl (\<lambda>m a. m(inKey (ct_heap cm a) \<mapsto> a)) (ct_pending cm) adds\<rparr> \<and>
    distinct (map (inKey \<circ> ct_heap cm) adds) \<and>
    (\<forall>a \<in> set adds. a \<in> set circuits \<and> ct_pending cm (inKey (ct_heap cm a)) = None)"
    using assms
  proof (induction circuits arbitrary: cm cm' adds drops fails addFails)
    case (Cons c cs)
    let ?k = "inKey (ct_heap cm c)"
    show ?case
    proof (cases "ct_pending cm ?k")
      case None
      let ?cm1 = "cm\<lparr>ct_pending := (ct_pending cm)(?k \<mapsto> c)\<rparr>"
      obtain adds1 addFails1 where r: "reconcile ?cm1 cs = (cm', adds1, drops, fails, addFails1)" "adds = c # adds1"
        using Cons.prems None by (auto simp: Let_def split: prod.splits)
      note ih = Cons.IH [OF r(1)]
      then have "\<forall>a \<in> set adds1. inKey (ct_heap cm a) \<noteq> ?k" by (auto split: if_splits)
      then show ?thesis using ih None by (auto simp: r(2) split: if_splits)
    next
      case (Some found)
      obtain drops1 fails1 addFails1 where "reconcile cm cs = (cm', adds, drops1, fails1, addFails1)"
        by (cases "reconcile cm cs") (use Cons.prems Some in \<open>auto simp: Let_def split: prod.splits if_splits\<close>)
      from Cons.IH [OF this] show ?thesis by auto
    qed
  qed simp
  then show "cm' = cm\<lparr>ct_pending := foldl (\<lambda>m a. m(inKey (ct_heap cm a) \<mapsto> a)) (ct_pending cm) adds\<rparr>"
    "distinct (map (inKey \<circ> ct_heap cm) adds)"
    "\<forall>a \<in> set adds. a \<in> set circuits \<and> ct_pending cm (inKey (ct_heap cm a)) = None"
    by blast+
qed

lemma reconcile_decides:
  assumes "reconcile cm circuits = (cm', adds, drops, fails, addFails)"
    and "\<forall>a \<in> set circuits. \<not> pc_loadedFromDisk (ct_heap cm a)"
  shows "adds = pick circuits (firstSeen cm circuits)"
    "fails = pick circuits (lostInRestart cm circuits)"
    "drops = pick circuits (\<lambda>i. \<not> firstSeen cm circuits i \<and> \<not> lostInRestart cm circuits i)"
    "addFails = pick circuits (\<lambda>i. firstSeen cm circuits i \<or> lostInRestart cm circuits i)"
proof -
  have "adds = pick circuits (firstSeen cm circuits) \<and> fails = pick circuits (lostInRestart cm circuits) \<and>
    drops = pick circuits (\<lambda>i. \<not> firstSeen cm circuits i \<and> \<not> lostInRestart cm circuits i) \<and>
    addFails = pick circuits (\<lambda>i. firstSeen cm circuits i \<or> lostInRestart cm circuits i)"
    using assms
  proof (induction circuits arbitrary: cm cm' adds drops fails addFails)
    case (Cons c cs)
    let ?k = "inKey (ct_heap cm c)"
    show ?case
    proof (cases "ct_pending cm ?k")
      case None
      let ?cm1 = "cm\<lparr>ct_pending := (ct_pending cm)(?k \<mapsto> c)\<rparr>"
      have l: "lostInRestart cm (c # cs) 0 = False" "lostInRestart cm (c # cs) (Suc i) = lostInRestart ?cm1 cs i" for i
        using None Cons.prems(2) by (auto simp: lostInRestart_def keyAt_def inKey_def split: option.splits)
      note f = firstSeen_simps(1) [of cm c cs] firstSeen_simps(2) [of cm c cs _ c]
      obtain adds1 addFails1 where r: "reconcile ?cm1 cs = (cm', adds1, drops, fails, addFails1)"
        "adds = c # adds1" "addFails = c # addFails1"
        using Cons.prems(1) None by (auto simp: Let_def split: prod.splits)
      have "\<forall>a \<in> set cs. \<not> pc_loadedFromDisk (ct_heap ?cm1 a)" using Cons.prems(2) by simp
      from Cons.IH [OF r(1) this] show ?thesis using None by (simp add: l f r(2,3))
    next
      case (Some found)
      have l: "lostInRestart cm (c # cs) 0 = (\<not> hasKeystone (ct_heap cm found) \<and> pc_loadedFromDisk (ct_heap cm found))"
        "lostInRestart cm (c # cs) (Suc i) = lostInRestart cm cs i" for i
        using Some by (auto simp: lostInRestart_def keyAt_def inKey_def)
      note f = firstSeen_simps(1) [of cm c cs] firstSeen_known [OF Some, of cs]
      obtain drops1 fails1 addFails1 where r: "reconcile cm cs = (cm', adds, drops1, fails1, addFails1)"
        by (cases "reconcile cm cs") (use Cons.prems(1) Some in \<open>auto simp: Let_def split: prod.splits if_splits\<close>)
      have "\<forall>a \<in> set cs. \<not> pc_loadedFromDisk (ct_heap cm a)" using Cons.prems(2) by simp
      from Cons.IH [OF r this] show ?thesis using Some Cons.prems(1) r
        by (auto simp: l f Let_def split: if_splits)
    qed
  qed simp
  then show "adds = pick circuits (firstSeen cm circuits)" "fails = pick circuits (lostInRestart cm circuits)"
    "drops = pick circuits (\<lambda>i. \<not> firstSeen cm circuits i \<and> \<not> lostInRestart cm circuits i)"
    "addFails = pick circuits (\<lambda>i. firstSeen cm circuits i \<or> lostInRestart cm circuits i)"
    by blast+
qed

lemma putCircuits_of:
  "putCircuits heap as (bucket_of f) = bucket_of (foldl (\<lambda>f a. f(inKey (heap a) \<mapsto> encodeCircuit (heap a))) f as)"
  unfolding putCircuits_def by (induction as arbitrary: f) (simp_all del: fun_upd_apply)

lemma addsImage_fold:
  "(\<lambda>k. map_option g (foldl (\<lambda>m a. m(key a \<mapsto> a)) p as k)) =
     foldl (\<lambda>f a. f(key a \<mapsto> g a)) (\<lambda>k. map_option g (p k)) as"
proof (induction as arbitrary: p)
  case (Cons a as)
  have "(\<lambda>k. map_option g ((p(key a \<mapsto> a)) k)) = (\<lambda>k. map_option g (p k))(key a \<mapsto> g a)" by auto
  then show ?case using Cons [of "p(key a \<mapsto> a)"] by (simp del: fun_upd_apply)
qed simp

lemma fold_add_pending:
  "foldl (\<lambda>m a. m(key a \<mapsto> a)) p as k = Some a \<Longrightarrow> p k = Some a \<or> a \<in> set as \<and> key a = k"
  by (induction as arbitrary: p) (force split: if_splits)+

lemma fold_add_keeps:
  "p k = Some a \<Longrightarrow> \<forall>b \<in> set as. p (key b) = None \<Longrightarrow> foldl (\<lambda>m a. m(key a \<mapsto> a)) p as k = Some a"
proof (induction as rule: rev_induct)
  case (snoc b as)
  then show ?case by (auto split: if_splits)
qed simp

lemma fold_drop:
  assumes "distinct (map key as)" "\<forall>a \<in> set as. p (key a) = None"
  shows "foldl (\<lambda>m a. m(key a := None)) (foldl (\<lambda>m a. m(key a \<mapsto> a)) p as) as = p"
proof -
  have drop: "foldl (\<lambda>m a. m(key a := None)) q as k = (if k \<in> key ` set as then None else q k)" for q k
    by (induction as arbitrary: q) auto
  have add: "k \<notin> key ` set as \<Longrightarrow> foldl (\<lambda>m a. m(key a \<mapsto> a)) p as k = p k" for k
    by (induction as arbitrary: p) auto
  show ?thesis using assms(2) by (auto simp: drop add fun_eq_iff)
qed

lemma commit_wf:
  assumes "mem_wf cm" "disk_wf cm" "commitCircuits dbOk cm circuits = (cm', actions, err)"
    and fresh: "\<forall>a \<in> set circuits. a < ct_next cm \<and> pc_outgoing (ct_heap cm a) = None"
  shows "mem_wf cm'" "disk_wf cm'"
proof -
  obtain cm1 adds drops fails addFails where r: "reconcile cm circuits = (cm1, adds, drops, fails, addFails)"
    by (cases "reconcile cm circuits") auto
  note f = reconcile_frame [OF r]
  let ?p = "foldl (\<lambda>m a. m(inKey (ct_heap cm a) \<mapsto> a)) (ct_pending cm) adds"
  note w = mem_wfD [OF assms(1)]
  have keep: "?p k = Some a" if "ct_pending cm k = Some a" for k a
    using fold_add_keeps [of "ct_pending cm" k a adds "inKey \<circ> ct_heap cm"] that f(3) by simp
  have only: "ct_pending cm k = Some a \<or> a < ct_next cm \<and> pc_outgoing (ct_heap cm a) = None \<and> pc_incoming (ct_heap cm a) = k"
    if "?p k = Some a" for k a
    using fold_add_pending [of "inKey \<circ> ct_heap cm" "ct_pending cm" adds k a] that f(3) fresh by (auto simp: inKey_def)
  have m: "mem_wf (cm\<lparr>ct_pending := ?p\<rparr>)"
  proof (rule mem_wfI)
    show "a < ct_next (cm\<lparr>ct_pending := ?p\<rparr>) \<and> pc_incoming (ct_heap (cm\<lparr>ct_pending := ?p\<rparr>) a) = k"
      if "ct_pending (cm\<lparr>ct_pending := ?p\<rparr>) k = Some a" for k a
      using that only [of k a] w(1) [of k a] by auto
    show "ct_opened (cm\<lparr>ct_pending := ?p\<rparr>) k' = Some a"
      if "ct_pending (cm\<lparr>ct_pending := ?p\<rparr>) k = Some a" "pc_outgoing (ct_heap (cm\<lparr>ct_pending := ?p\<rparr>) a) = Some k'" for k k' a
      using that only [of k a] w(3) [of k a k'] by auto
    show "ct_closed (cm\<lparr>ct_pending := ?p\<rparr>) \<subseteq> dom (ct_pending (cm\<lparr>ct_pending := ?p\<rparr>))"
      using w(4) keep by fastforce
  qed (use w(2,5-7) keep in auto)
  have c: "cm' = cm \<or> cm' = cm\<lparr>ct_pending := ?p\<rparr> \<and> adds = [] \<or>
      cm' = cm\<lparr>ct_pending := ?p, ct_adds := putCircuits (ct_heap cm) adds (ct_adds cm)\<rparr>"
    using assms(3) fold_drop [OF f(2), of "ct_pending cm"] f(3)
    by (auto simp: commitCircuits_def r f(1) dropPending_def comp_def split: if_splits)
  then show "mem_wf cm'"
    using assms(1) m mem_wf_disk(1) [of _ "cm\<lparr>ct_pending := ?p\<rparr>"] by auto
  have "putCircuits (ct_heap cm) adds (ct_adds cm) = bucket_of (addsImage (cm\<lparr>ct_pending := ?p\<rparr>))"
    using assms(2) addsImage_fold [of "\<lambda>a. encodeCircuit (ct_heap cm a)" "\<lambda>a. inKey (ct_heap cm a)" "ct_pending cm" adds]
    by (simp add: disk_wf_def putCircuits_of addsImage_def)
  then show "disk_wf cm'"
    using c assms(2) by (auto simp: disk_wf_def addsImage_def keystonesImage_def)
qed

section \<open>Opening\<close>

lemma image_frame [simp]:
  "addsImage (cm\<lparr>ct_opened := x\<rparr>) = addsImage cm" "addsImage (cm\<lparr>ct_closed := s\<rparr>) = addsImage cm"
  "addsImage (cm\<lparr>ct_adds := b\<rparr>) = addsImage cm" "addsImage (cm\<lparr>ct_keystones := b\<rparr>) = addsImage cm"
  "keystonesImage (cm\<lparr>ct_pending := x\<rparr>) = keystonesImage cm" "keystonesImage (cm\<lparr>ct_closed := s\<rparr>) = keystonesImage cm"
  "keystonesImage (cm\<lparr>ct_adds := b\<rparr>) = keystonesImage cm" "keystonesImage (cm\<lparr>ct_keystones := b\<rparr>) = keystonesImage cm"
  "addsImage (addCircuitToHashIndex cm c) = addsImage cm" "addsImage (removeCircuitFromHashIndex cm c) = addsImage cm"
  "keystonesImage (addCircuitToHashIndex cm c) = keystonesImage cm"
  "keystonesImage (removeCircuitFromHashIndex cm c) = keystonesImage cm"
  by (simp_all add: addsImage_def keystonesImage_def)

text \<open>A heap that differs in outgoing keys only stands for the same circuits on disk.\<close>

lemma image_outgoing:
  assumes "ct_heap cm' = (ct_heap cm)(a := (ct_heap cm a)\<lparr>pc_outgoing := x\<rparr>)"
  shows "ct_pending cm' = ct_pending cm \<Longrightarrow> addsImage cm' = addsImage cm"
    "pc_incoming (ct_heap cm' b) = pc_incoming (ct_heap cm b)"
    "pc_paymentHash (ct_heap cm' b) = pc_paymentHash (ct_heap cm b)"
  using assms by (auto simp: addsImage_def fun_eq_iff map_option_case split: option.splits)

lemma pending_distinct:
  assumes "mem_wf cm" "ct_pending cm k = Some a" "ct_pending cm k' = Some a"
  shows "k = k'"
  using mem_wfD(1) [OF assms(1)] assms(2,3) by blast

lemma setKeystone_wf:
  assumes "mem_wf cm" "ct_pending cm (ks_inKey ks) = Some a" "pc_outgoing (ct_heap cm a) = None"
    and "ct_opened cm (ks_outKey ks) = None" "ks_outKey ks \<noteq> emptyCircuitKey"
  shows "mem_wf (setKeystone cm a ks)" "addsImage (setKeystone cm a ks) = addsImage cm"
    "keystonesImage (setKeystone cm a ks) = (keystonesImage cm)(ks_outKey ks \<mapsto> circuitKeyBytes (ks_inKey ks))"
    "ct_adds (setKeystone cm a ks) = ct_adds cm" "ct_keystones (setKeystone cm a ks) = ct_keystones cm"
    "ct_pending (setKeystone cm a ks) = ct_pending cm"
    "ct_opened (setKeystone cm a ks) = (ct_opened cm)(ks_outKey ks \<mapsto> a)"
    "b \<noteq> a \<Longrightarrow> ct_heap (setKeystone cm a ks) b = ct_heap cm b"
proof -
  let ?cm = "setKeystone cm a ks"
  have h: "ct_heap ?cm = (ct_heap cm)(a := (ct_heap cm a)\<lparr>pc_outgoing := Some (ks_outKey ks)\<rparr>)"
    and f: "ct_pending ?cm = ct_pending cm" "ct_opened ?cm = (ct_opened cm)(ks_outKey ks \<mapsto> a)"
      "ct_closed ?cm = ct_closed cm" "ct_next ?cm = ct_next cm"
    and s: "hset ?cm = (hset cm)(pc_paymentHash (ct_heap cm a) := insert (ks_outKey ks) (hset cm (pc_paymentHash (ct_heap cm a))))"
    by (simp_all add: setKeystone_def Let_def)
  note i = image_outgoing [OF h]
  note w = mem_wfD [OF assms(1)]
  have nota: "b \<noteq> a" if "ct_opened cm k = Some b" for k b using w(2) [OF that] assms(3) by auto
  show "ct_adds ?cm = ct_adds cm" "ct_keystones ?cm = ct_keystones cm" "ct_pending ?cm = ct_pending cm"
    "ct_opened ?cm = (ct_opened cm)(ks_outKey ks \<mapsto> a)" "b \<noteq> a \<Longrightarrow> ct_heap ?cm b = ct_heap cm b"
    by (simp_all add: setKeystone_def Let_def)
  show "addsImage ?cm = addsImage cm" by (rule i(1)) (simp add: f)
  show "keystonesImage ?cm = (keystonesImage cm)(ks_outKey ks \<mapsto> circuitKeyBytes (ks_inKey ks))"
    using w(1) [OF assms(2)] by (auto simp: keystonesImage_def i(2) f fun_eq_iff)
  show "mem_wf ?cm"
  proof (rule mem_wfI)
    show "b < ct_next ?cm \<and> pc_incoming (ct_heap ?cm b) = k" if "ct_pending ?cm k = Some b" for k b
      using that w(1) [of k b] by (simp add: i(2) f)
    show "pc_outgoing (ct_heap ?cm b) = Some k \<and> ct_pending ?cm (pc_incoming (ct_heap ?cm b)) = Some b"
      if "ct_opened ?cm k = Some b" for k b
      using that w(1) [OF assms(2)] w(2) [of k b] nota [of k b] assms(2) by (auto simp: i(2) f h split: if_splits)
    show "ct_opened ?cm k' = Some b" if "ct_pending ?cm k = Some b" "pc_outgoing (ct_heap ?cm b) = Some k'" for k k' b
      using that w(3) [of k b k'] assms(4) by (auto simp: f h split: if_splits)
    show "ct_closed ?cm \<subseteq> dom (ct_pending ?cm)" using w(4) by (simp add: f)
    show "k \<in> hset ?cm (pc_paymentHash (ct_heap ?cm b))" if "ct_opened ?cm k = Some b" for k b
      using that w(5) [of k b] by (auto simp: i(3) f s split: if_splits)
    show "index_pruned ?cm" using w(6) by (auto simp: setKeystone_def Let_def)
    show "ct_opened ?cm emptyCircuitKey = None" using w(7) assms(5) by (simp add: f)
  qed
qed

text \<open>The keystones a link may set: real outgoing keys, each new, for different unopened circuits.\<close>

definition keystones_ok :: "circuit_map \<Rightarrow> keystone list \<Rightarrow> bool" where
  "keystones_ok cm kss \<longleftrightarrow> distinct (map ks_inKey kss) \<and> distinct (map ks_outKey kss) \<and>
     (\<forall>ks \<in> set kss. ks_outKey ks \<noteq> emptyCircuitKey \<and>
        (\<forall>a. ct_pending cm (ks_inKey ks) = Some a \<longrightarrow> pc_outgoing (ct_heap cm a) = None))"

lemma findUnopened_ok:
  "findUnopened cm kss = Inr circuits \<Longrightarrow>
     length circuits = length kss \<and>
     (\<forall>(a, ks) \<in> set (zip circuits kss). ct_pending cm (ks_inKey ks) = Some a \<and> ct_opened cm (ks_outKey ks) = None)"
proof (induction kss arbitrary: circuits)
  case (Cons ks kss)
  then show ?case
    by (cases "findUnopened cm kss") (auto split: if_splits option.splits)
qed simp

lemma keystones_ok_Cons:
  assumes "mem_wf cm" "keystones_ok cm (ks # kss)"
    and p: "ct_pending cm (ks_inKey ks) = Some a" "ct_opened cm (ks_outKey ks) = None"
    and zs: "\<forall>(a, ks) \<in> set (zip as kss). ct_pending cm (ks_inKey ks) = Some a \<and> ct_opened cm (ks_outKey ks) = None"
  shows "mem_wf (setKeystone cm a ks)" "keystones_ok (setKeystone cm a ks) kss"
    "\<forall>(b, ks') \<in> set (zip as kss). ct_pending (setKeystone cm a ks) (ks_inKey ks') = Some b \<and>
      ct_opened (setKeystone cm a ks) (ks_outKey ks') = None"
    "pc_outgoing (ct_heap cm a) = None" "ks_outKey ks \<noteq> emptyCircuitKey"
proof -
  show o: "pc_outgoing (ct_heap cm a) = None" "ks_outKey ks \<noteq> emptyCircuitKey"
    using assms(2) p(1) by (auto simp: keystones_ok_def)
  note s = setKeystone_wf [OF assms(1) p(1) o(1) p(2) o(2)]
  show "mem_wf (setKeystone cm a ks)" by (rule s(1))
  have other: "b \<noteq> a" if "ct_pending cm (ks_inKey ks') = Some b" "ks' \<in> set kss" for ks' b
    using pending_distinct [OF assms(1) p(1)] that assms(2) by (auto simp: keystones_ok_def)
  show "keystones_ok (setKeystone cm a ks) kss"
    using assms(2) other s(8) by (auto simp: keystones_ok_def s(6))
  have "ct_pending cm (ks_inKey ks') = Some b \<and> ct_opened cm (ks_outKey ks') = None \<and> ks_outKey ks' \<noteq> ks_outKey ks"
    if e: "(b, ks') \<in> set (zip as kss)" for b ks'
  proof -
    have "ks' \<in> set kss" using set_zip_rightD [OF e] .
    moreover have "ks_outKey ks \<notin> ks_outKey ` set kss" using assms(2) by (simp add: keystones_ok_def)
    ultimately have "ks_outKey ks' \<noteq> ks_outKey ks" by (metis imageI)
    then show ?thesis using e zs by blast
  qed
  then show "\<forall>(b, ks') \<in> set (zip as kss). ct_pending (setKeystone cm a ks) (ks_inKey ks') = Some b \<and>
      ct_opened (setKeystone cm a ks) (ks_outKey ks') = None"
    by (auto simp: s(6,7))
qed

lemma setKeystones_wf:
  assumes "mem_wf cm" "keystones_ok cm kss" "length circuits = length kss"
    and "\<forall>(a, ks) \<in> set (zip circuits kss). ct_pending cm (ks_inKey ks) = Some a \<and> ct_opened cm (ks_outKey ks) = None"
  shows "mem_wf (foldl (\<lambda>cm (a, ks). setKeystone cm a ks) cm (zip circuits kss)) \<and>
    addsImage (foldl (\<lambda>cm (a, ks). setKeystone cm a ks) cm (zip circuits kss)) = addsImage cm \<and>
    bucket_of (keystonesImage (foldl (\<lambda>cm (a, ks). setKeystone cm a ks) cm (zip circuits kss)))
      = putKeystones kss (bucket_of (keystonesImage cm)) \<and>
    ct_adds (foldl (\<lambda>cm (a, ks). setKeystone cm a ks) cm (zip circuits kss)) = ct_adds cm \<and>
    ct_keystones (foldl (\<lambda>cm (a, ks). setKeystone cm a ks) cm (zip circuits kss)) = ct_keystones cm"
  using assms
proof (induction kss arbitrary: cm circuits)
  case (Cons ks kss)
  then obtain a as where c: "circuits = a # as" by (cases circuits) auto
  have p: "ct_pending cm (ks_inKey ks) = Some a" "ct_opened cm (ks_outKey ks) = None" using Cons.prems(4) c by auto
  have zs: "\<forall>(a, ks) \<in> set (zip as kss). ct_pending cm (ks_inKey ks) = Some a \<and> ct_opened cm (ks_outKey ks) = None"
    using Cons.prems(4) c by auto
  note k = keystones_ok_Cons [OF Cons.prems(1,2) p zs]
  note s = setKeystone_wf [OF Cons.prems(1) p(1) k(4) p(2) k(5)]
  show ?case
    using Cons.IH [OF k(1,2) _ k(3)] Cons.prems(3) c by (simp add: s(2-5) putKeystones_def del: fun_upd_apply)
qed (simp add: putKeystones_def)

lemma open_wf:
  assumes "mem_wf cm" "disk_wf cm" "openCircuits dbOk cm kss = (cm', err)" "keystones_ok cm kss"
  shows "mem_wf cm'" "disk_wf cm'"
proof -
  have "mem_wf cm' \<and> disk_wf cm'"
  proof (cases "cm' = cm")
    case False
    then obtain circuits where c: "findUnopened cm kss = Inr circuits"
      "cm' = foldl (\<lambda>cm (a, ks). setKeystone cm a ks) (cm\<lparr>ct_keystones := putKeystones kss (ct_keystones cm)\<rparr>)
         (zip circuits kss)"
      using assms(3) by (auto simp: openCircuits_def split: if_splits sum.splits)
    let ?cm = "cm\<lparr>ct_keystones := putKeystones kss (ct_keystones cm)\<rparr>"
    have "keystones_ok ?cm kss" using assms(4) by (simp add: keystones_ok_def)
    with setKeystones_wf [of ?cm kss circuits] findUnopened_ok [OF c(1)] assms(1,2)
    show ?thesis by (auto simp: c(2) disk_wf_def)
  qed (use assms in simp)
  then show "mem_wf cm'" "disk_wf cm'" by blast+
qed

section \<open>Trimming\<close>

definition outgoingKey :: "u64 \<Rightarrow> u64 \<Rightarrow> nat \<Rightarrow> circuit_key" where
  "outgoingKey chanID start j = \<lparr>ck_chanID = chanID, ck_htlcID = start + of_nat j\<rparr>"

lemma trimStep_wf:
  assumes "mem_wf cm" "ct_opened cm k = Some a" "c = (ct_heap cm a)\<lparr>pc_outgoing := None\<rparr>"
    and "cm' = removeCircuitFromHashIndex (cm\<lparr>ct_heap := (ct_heap cm)(a := c), ct_opened := (ct_opened cm)(k := None)\<rparr>) c"
  shows "mem_wf cm'"
proof -
  note w = mem_wfD [OF assms(1)]
  have h: "ct_heap cm' = (ct_heap cm)(a := (ct_heap cm a)\<lparr>pc_outgoing := None\<rparr>)"
    and f: "ct_pending cm' = ct_pending cm" "ct_opened cm' = (ct_opened cm)(k := None)"
      "ct_closed cm' = ct_closed cm" "ct_next cm' = ct_next cm"
    and s: "hset cm' = (hset cm)(pc_paymentHash (ct_heap cm a) := hset cm (pc_paymentHash (ct_heap cm a)) - {emptyCircuitKey})"
    using assms(3,4) by simp_all
  note i = image_outgoing [OF h]
  have nota: "b \<noteq> a" if "ct_opened cm k' = Some b" "k' \<noteq> k" for k' b
    using w(2) [OF that(1)] w(2) [OF assms(2)] that(2) by auto
  show ?thesis
  proof (rule mem_wfI)
    show "b < ct_next cm' \<and> pc_incoming (ct_heap cm' b) = k'" if "ct_pending cm' k' = Some b" for k' b
      using that w(1) [of k' b] by (simp add: i(2) f)
    show "pc_outgoing (ct_heap cm' b) = Some k' \<and> ct_pending cm' (pc_incoming (ct_heap cm' b)) = Some b"
      if "ct_opened cm' k' = Some b" for k' b
      using that w(2) [of k' b] nota [of k' b] by (auto simp: i(2) f h split: if_splits)
    show "ct_opened cm' k'' = Some b" if "ct_pending cm' k' = Some b" "pc_outgoing (ct_heap cm' b) = Some k''" for k' k'' b
      using that w(3) [of k' b k''] w(2) [OF assms(2)] assms(2) by (auto simp: f h split: if_splits)
    show "ct_closed cm' \<subseteq> dom (ct_pending cm')" using w(4) by (simp add: f)
    show "k' \<in> hset cm' (pc_paymentHash (ct_heap cm' b))" if "ct_opened cm' k' = Some b" for k' b
      using that w(5) [of k' b] w(7) by (auto simp: i(3) f s split: if_splits)
    show "index_pruned cm'" using w(6) assms(4) by auto
    show "ct_opened cm' emptyCircuitKey = None" using w(7) by (simp add: f)
  qed
qed

text \<open>
  What the loop does: it returns the longest run of opened keys from \<open>start\<close> on and takes them, and
  nothing else, back.
\<close>

lemma trimLoop_spec:
  assumes "mem_wf cm" "trimLoop chanID start cm = (cm', keys)"
  shows "mem_wf cm' \<and> keys = map (outgoingKey chanID start) [0..<length keys] \<and>
     (\<forall>k \<in> set keys. ct_opened cm k \<noteq> None) \<and>
     ct_opened cm' (outgoingKey chanID start (length keys)) = None \<and>
     ct_opened cm' = (\<lambda>k. if k \<in> set keys then None else ct_opened cm k) \<and>
     ct_pending cm' = ct_pending cm \<and> ct_closed cm' = ct_closed cm \<and>
     ct_adds cm' = ct_adds cm \<and> ct_keystones cm' = ct_keystones cm \<and> ct_next cm' = ct_next cm \<and>
     ct_heap cm' = (\<lambda>a. if \<exists>k \<in> set keys. ct_opened cm k = Some a
                        then (ct_heap cm a)\<lparr>pc_outgoing := None\<rparr> else ct_heap cm a)"
  using assms
proof (induction chanID start cm arbitrary: cm' keys rule: trimLoop.induct)
  case (1 chanID i cm)
  let ?k = "\<lparr>ck_chanID = chanID, ck_htlcID = i\<rparr>"
  show ?case
  proof (cases "ct_opened cm ?k")
    case None
    then show ?thesis using "1.prems" by (simp add: trimLoop.simps [of chanID i cm] outgoingKey_def)
  next
    case (Some a)
    define c where "c = (ct_heap cm a)\<lparr>pc_outgoing := None\<rparr>"
    define cm1 where "cm1 = cm\<lparr>ct_heap := (ct_heap cm)(a := c), ct_opened := (ct_opened cm)(?k := None)\<rparr>"
    define cm2 where "cm2 = removeCircuitFromHashIndex cm1 c"
    obtain keys' where r: "trimLoop chanID (i + 1) cm2 = (cm', keys')" "keys = ?k # keys'"
      using "1.prems"(2) Some
      by (auto simp: trimLoop.simps [of chanID i cm] c_def cm1_def cm2_def Let_def split: prod.splits)
    have m: "mem_wf cm2" by (rule trimStep_wf [OF "1.prems"(1) Some c_def]) (simp add: cm2_def cm1_def)
    note ih = "1.IH" [OF refl Some c_def cm1_def, folded cm2_def, OF m r(1)]
    have f: "ct_opened cm2 = (ct_opened cm)(?k := None)" "ct_pending cm2 = ct_pending cm" "ct_closed cm2 = ct_closed cm"
      "ct_adds cm2 = ct_adds cm" "ct_keystones cm2 = ct_keystones cm" "ct_next cm2 = ct_next cm"
      "ct_heap cm2 = (ct_heap cm)(a := c)"
      by (simp_all add: cm2_def cm1_def)
    have shift: "outgoingKey chanID (i + 1) j = outgoingKey chanID i (Suc j)" for j
      by (simp add: outgoingKey_def add.assoc)
    have first: "?k = outgoingKey chanID i 0" by (simp add: outgoingKey_def)
    have k1: "keys = map (outgoingKey chanID i) [0..<length keys]"
      using ih by (simp add: r(2) shift first map_upt_Suc del: upt_Suc)
    have mem: "ct_opened cm k \<noteq> None \<and> k \<noteq> ?k" if "k \<in> set keys'" for k
      using ih that by (auto simp: f(1) split: if_splits)
    have o: "ct_opened cm' = (\<lambda>k. if k \<in> set keys then None else ct_opened cm k)"
      using ih by (auto simp: r(2) f(1) fun_eq_iff)
    have "ct_heap cm' = (\<lambda>b. if \<exists>k \<in> set keys. ct_opened cm k = Some b
                        then (ct_heap cm b)\<lparr>pc_outgoing := None\<rparr> else ct_heap cm b)"
      using ih Some mem by (auto simp: r(2) f(1,7) c_def fun_eq_iff)
    moreover have "ct_opened cm' (outgoingKey chanID i (length keys)) = None"
    proof -
      have "ct_opened cm' (outgoingKey chanID (i + 1) (length keys')) = None" using ih by blast
      then show ?thesis unfolding shift by (simp add: r(2))
    qed
    moreover have "\<forall>k \<in> set keys. ct_opened cm k \<noteq> None" using mem Some by (simp add: r(2))
    moreover have "ct_pending cm' = ct_pending cm" "ct_closed cm' = ct_closed cm" "ct_adds cm' = ct_adds cm"
      "ct_keystones cm' = ct_keystones cm" "ct_next cm' = ct_next cm" "mem_wf cm'"
      using ih f(2-6) by metis+
    ultimately show ?thesis using k1 o by blast
  qed
qed

lemma trim_wf:
  assumes "mem_wf cm" "disk_wf cm" "trimOpenCircuits True cm chanID start = (cm', err)"
  shows "mem_wf cm'" "disk_wf cm'" "err = None"
proof -
  obtain cm1 keys where t: "trimLoop chanID start cm = (cm1, keys)" by fastforce
  note s = trimLoop_spec [OF assms(1) t]
  have c: "cm' = cm1\<lparr>ct_keystones := deleteKeys keys (ct_keystones cm1)\<rparr>" "err = None"
    using assms(3) by (auto simp: trimOpenCircuits_def t deleteKeys_def split: if_splits)
  have inc: "pc_incoming (ct_heap cm1 a) = pc_incoming (ct_heap cm a)"
    "encodeCircuit (ct_heap cm1 a) = encodeCircuit (ct_heap cm a)" for a
    using s by auto
  have adds: "addsImage cm1 = addsImage cm"
    using s inc(2) by (simp add: addsImage_def)
  have "keystonesImage cm1 = (\<lambda>k. if k \<in> set keys then None else keystonesImage cm k)"
  proof -
    have "ct_opened cm1 = (\<lambda>k. if k \<in> set keys then None else ct_opened cm k)" using s by blast
    then show ?thesis by (simp add: keystonesImage_def inc(1) fun_eq_iff)
  qed
  then have keys: "deleteKeys keys (ct_keystones cm1) = bucket_of (keystonesImage cm1)"
    using s assms(2) by (simp add: disk_wf_def deleteKeys_of)
  show "mem_wf cm'" using s c by simp
  show "disk_wf cm'" using s assms(2) adds keys by (simp add: c disk_wf_def)
  show "err = None" by (rule c(2))
qed

section \<open>Deleting\<close>

lemma removeCircuits_spec:
  assumes "mem_wf cm" "removeCircuits cm ks = (cm', closing, removed)"
  shows "mem_wf cm' \<and> ct_heap cm' = ct_heap cm \<and> ct_next cm' = ct_next cm \<and>
     ct_adds cm' = ct_adds cm \<and> ct_keystones cm' = ct_keystones cm \<and>
     distinct (map fst removed) \<and>
     set removed = {(k, a). k \<in> set ks \<and> ct_pending cm k = Some a} \<and>
     closing = ct_closed cm \<inter> set ks \<and> ct_closed cm' = ct_closed cm - set ks \<and>
     ct_pending cm' = (\<lambda>k. if k \<in> set ks then None else ct_pending cm k) \<and>
     ct_opened cm' = (\<lambda>k. case ct_opened cm k of None \<Rightarrow> None
        | Some a \<Rightarrow> if pc_incoming (ct_heap cm a) \<in> set ks then None else Some a) \<and>
     hset cm' = (\<lambda>h. hset cm h - {k. \<exists>a. ct_opened cm k = Some a \<and> pc_paymentHash (ct_heap cm a) = h \<and>
        pc_incoming (ct_heap cm a) \<in> set ks})"
  using assms
proof (induction ks arbitrary: cm cm' closing removed)
  case Nil
  then show ?case by (auto simp: fun_eq_iff split: option.splits)
next
  case (Cons k ks)
  note w = mem_wfD [OF Cons.prems(1)]
  show ?case
  proof (cases "ct_pending cm k")
    case None
    have no: "pc_incoming (ct_heap cm a) \<noteq> k" if "ct_opened cm k' = Some a" for k' a
      using w(2) [OF that] None by auto
    have "k \<notin> ct_closed cm" using w(4) None by auto
    have r: "removeCircuits cm ks = (cm', closing, removed)" using Cons.prems(2) None by simp
    note ih = Cons.IH [OF Cons.prems(1) r]
    have "ct_opened cm' = (\<lambda>k'. case ct_opened cm k' of None \<Rightarrow> None
        | Some b \<Rightarrow> if pc_incoming (ct_heap cm b) \<in> set (k # ks) then None else Some b)"
      using ih no by (simp add: fun_eq_iff split: option.split)
    moreover have "{k'. \<exists>b. ct_opened cm k' = Some b \<and> pc_paymentHash (ct_heap cm b) = h \<and> pc_incoming (ct_heap cm b) \<in> set ks}
        = {k'. \<exists>b. ct_opened cm k' = Some b \<and> pc_paymentHash (ct_heap cm b) = h \<and> pc_incoming (ct_heap cm b) \<in> set (k # ks)}" for h
      using no by auto
    then have "hset cm' = (\<lambda>h. hset cm h - {k'. \<exists>b. ct_opened cm k' = Some b \<and> pc_paymentHash (ct_heap cm b) = h \<and>
        pc_incoming (ct_heap cm b) \<in> set (k # ks)})"
      using ih by simp
    moreover have "set removed = {(k', b). k' \<in> set (k # ks) \<and> ct_pending cm k' = Some b}"
    proof -
      have "set removed = {(k', b). k' \<in> set ks \<and> ct_pending cm k' = Some b}" using ih by blast
      then show ?thesis using None by auto
    qed
    moreover have "closing = ct_closed cm \<inter> set (k # ks)" "ct_closed cm' = ct_closed cm - set (k # ks)"
      using ih \<open>k \<notin> ct_closed cm\<close> by auto
    moreover have "ct_pending cm' = (\<lambda>k'. if k' \<in> set (k # ks) then None else ct_pending cm k')"
      using ih None by (simp add: fun_eq_iff)
    ultimately show ?thesis using ih by blast
  next
    case (Some a)
    define c where "c = ct_heap cm a"
    define cm1 where "cm1 = cm\<lparr>ct_pending := (ct_pending cm)(k := None), ct_closed := ct_closed cm - {k}\<rparr>"
    define cm2 where "cm2 = (if hasKeystone c
                     then removeCircuitFromHashIndex (cm1\<lparr>ct_opened := (ct_opened cm1)(outKey c := None)\<rparr>) c
                     else cm1)"
    have inc: "pc_incoming c = k" using w(1) [OF Some] by (simp add: c_def)
    have open_a: "ct_opened cm k' = Some a \<longleftrightarrow> hasKeystone c \<and> k' = outKey c" for k'
      using w(2) [of k' a] w(3) [OF Some, of k'] by (auto simp: hasKeystone_def c_def outKey_def)
    have other: "b = a" if "ct_opened cm k' = Some b" "pc_incoming (ct_heap cm b) = k" for k' b
      using w(2) [OF that(1)] that(2) Some by auto
    have o2: "ct_opened cm2 = (\<lambda>k'. case ct_opened cm k' of None \<Rightarrow> None
        | Some b \<Rightarrow> if pc_incoming (ct_heap cm b) = k then None else Some b)"
    proof
      fix k'
      have "ct_opened cm2 k' = (if hasKeystone c \<and> k' = outKey c then None else ct_opened cm k')"
        by (simp add: cm2_def cm1_def)
      then show "ct_opened cm2 k' = (case ct_opened cm k' of None \<Rightarrow> None
        | Some b \<Rightarrow> if pc_incoming (ct_heap cm b) = k then None else Some b)"
        using open_a [of k'] other [of k'] inc c_def by (cases "ct_opened cm k'") auto
    qed
    have h2: "hset cm2 = (\<lambda>h. hset cm h - {k'. \<exists>b. ct_opened cm k' = Some b \<and> pc_paymentHash (ct_heap cm b) = h \<and>
        pc_incoming (ct_heap cm b) = k})"
    proof
      fix h
      have "{k'. \<exists>b. ct_opened cm k' = Some b \<and> pc_paymentHash (ct_heap cm b) = h \<and> pc_incoming (ct_heap cm b) = k}
          = (if hasKeystone c \<and> pc_paymentHash c = h then {outKey c} else {})"
        using open_a other inc by (auto simp: c_def)
      then show "hset cm2 h = hset cm h - {k'. \<exists>b. ct_opened cm k' = Some b \<and> pc_paymentHash (ct_heap cm b) = h \<and>
        pc_incoming (ct_heap cm b) = k}"
        by (simp add: cm2_def cm1_def)
    qed
    have f2: "ct_heap cm2 = ct_heap cm" "ct_next cm2 = ct_next cm" "ct_adds cm2 = ct_adds cm"
      "ct_keystones cm2 = ct_keystones cm" "ct_pending cm2 = (ct_pending cm)(k := None)" "ct_closed cm2 = ct_closed cm - {k}"
      by (simp_all add: cm2_def cm1_def)
    have m2: "mem_wf cm2"
    proof (rule mem_wfI)
      show "b < ct_next cm2 \<and> pc_incoming (ct_heap cm2 b) = k'" if "ct_pending cm2 k' = Some b" for k' b
        using that w(1) [of k' b] by (auto simp: f2 split: if_splits)
      show "pc_outgoing (ct_heap cm2 b) = Some k' \<and> ct_pending cm2 (pc_incoming (ct_heap cm2 b)) = Some b"
        if "ct_opened cm2 k' = Some b" for k' b
        using that w(2) [of k' b] by (auto simp: f2 o2 split: if_splits option.splits)
      show "ct_opened cm2 k'' = Some b" if "ct_pending cm2 k' = Some b" "pc_outgoing (ct_heap cm2 b) = Some k''" for k' k'' b
        using that w(3) [of k' b k''] w(1) [of k' b] by (auto simp: f2 o2 split: if_splits)
      show "ct_closed cm2 \<subseteq> dom (ct_pending cm2)" using w(4) by (auto simp: f2)
      show "k' \<in> hset cm2 (pc_paymentHash (ct_heap cm2 b))" if "ct_opened cm2 k' = Some b" for k' b
        using that w(5) [of k' b] by (auto simp: f2 o2 h2 split: if_splits option.splits)
      show "index_pruned cm2" using w(6) by (auto simp: cm2_def cm1_def)
      show "ct_opened cm2 emptyCircuitKey = None" using w(7) by (simp add: o2)
    qed
    have "removeCircuits cm (k # ks) = (case removeCircuits cm2 ks of (cm3, closing, removed) \<Rightarrow>
        (cm3, if k \<in> ct_closed cm then insert k closing else closing, (k, a) # removed))"
      by (simp add: Some Let_def c_def cm1_def cm2_def)
    then obtain closing' removed' where r: "removeCircuits cm2 ks = (cm', closing', removed')"
      "closing = (if k \<in> ct_closed cm then insert k closing' else closing')" "removed = (k, a) # removed'"
      using Cons.prems(2) by (auto split: prod.splits)
    note ih = Cons.IH [OF m2 r(1)]
    have "ct_opened cm' = (\<lambda>k'. case ct_opened cm k' of None \<Rightarrow> None
        | Some b \<Rightarrow> if pc_incoming (ct_heap cm b) \<in> set (k # ks) then None else Some b)"
      using ih by (auto simp: o2 f2 fun_eq_iff split: option.splits)
    moreover have "hset cm' = (\<lambda>h. hset cm h - {k'. \<exists>b. ct_opened cm k' = Some b \<and> pc_paymentHash (ct_heap cm b) = h \<and>
        pc_incoming (ct_heap cm b) \<in> set (k # ks)})"
      using ih by (auto simp: o2 h2 f2 fun_eq_iff split: option.splits if_splits)
    moreover have "set removed = {(k', b). k' \<in> set (k # ks) \<and> ct_pending cm k' = Some b}" "distinct (map fst removed)"
      using ih Some by (auto simp: r(3) f2 split: if_splits)
    moreover have "closing = ct_closed cm \<inter> set (k # ks)" "ct_closed cm' = ct_closed cm - set (k # ks)"
      using ih by (auto simp: r(2) f2)
    moreover have "ct_pending cm' = (\<lambda>k'. if k' \<in> set (k # ks) then None else ct_pending cm k')"
      using ih by (auto simp: f2 fun_eq_iff)
    moreover have "mem_wf cm'" "ct_heap cm' = ct_heap cm" "ct_next cm' = ct_next cm" "ct_adds cm' = ct_adds cm"
      "ct_keystones cm' = ct_keystones cm"
      using ih f2(1-4) by metis+
    ultimately show ?thesis by blast
  qed
qed

lemma restoreRemoved_spec:
  assumes "\<forall>(k, a) \<in> set R. P k = Some a \<and> (hasKeystone (ct_heap cm a) \<longrightarrow> Q (outKey (ct_heap cm a)) = Some a)"
    and "index_pruned cm" "cm' = foldl (restoreRemoved closing) cm R"
  shows "ct_heap cm' = ct_heap cm \<and> ct_next cm' = ct_next cm \<and> ct_adds cm' = ct_adds cm \<and>
     ct_keystones cm' = ct_keystones cm \<and> index_pruned cm' \<and>
     ct_pending cm' = (\<lambda>k. if k \<in> fst ` set R then P k else ct_pending cm k) \<and>
     ct_closed cm' = ct_closed cm \<union> closing \<inter> fst ` set R \<and>
     ct_opened cm' = (\<lambda>k. if \<exists>(k', a) \<in> set R. hasKeystone (ct_heap cm a) \<and> outKey (ct_heap cm a) = k
                          then Q k else ct_opened cm k) \<and>
     hset cm' = (\<lambda>h. hset cm h \<union> {k. \<exists>(k', a) \<in> set R. hasKeystone (ct_heap cm a) \<and> outKey (ct_heap cm a) = k \<and>
        pc_paymentHash (ct_heap cm a) = h})"
  using assms
proof (induction R arbitrary: cm)
  case Nil
  then show ?case by simp
next
  case (Cons e R)
  obtain k a where e: "e = (k, a)" by fastforce
  define cm1 where "cm1 = restoreRemoved closing cm e"
  define c where "c = ct_heap cm a"
  have f: "ct_heap cm1 = ct_heap cm" "ct_next cm1 = ct_next cm" "ct_adds cm1 = ct_adds cm"
    "ct_keystones cm1 = ct_keystones cm" "ct_pending cm1 = (ct_pending cm)(k \<mapsto> a)"
    "ct_closed cm1 = ct_closed cm \<union> closing \<inter> {k}"
    "ct_opened cm1 = (if hasKeystone c then (ct_opened cm)(outKey c \<mapsto> a) else ct_opened cm)"
    "hset cm1 = (if hasKeystone c then (hset cm)(pc_paymentHash c := insert (outKey c) (hset cm (pc_paymentHash c)))
                 else hset cm)"
    by (auto simp: cm1_def e restoreRemoved_def Let_def c_def)
  have "index_pruned cm1"
    using Cons.prems(2) by (auto simp: cm1_def e restoreRemoved_def Let_def)
  moreover have "\<forall>(k, a) \<in> set R. P k = Some a \<and> (hasKeystone (ct_heap cm1 a) \<longrightarrow> Q (outKey (ct_heap cm1 a)) = Some a)"
    using Cons.prems(1) by (simp add: f)
  moreover have "cm' = foldl (restoreRemoved closing) cm1 R" using Cons.prems(3) by (simp add: cm1_def)
  ultimately have ih: "ct_heap cm' = ct_heap cm1" "ct_next cm' = ct_next cm1" "ct_adds cm' = ct_adds cm1"
     "ct_keystones cm' = ct_keystones cm1" "index_pruned cm'"
     "ct_pending cm' = (\<lambda>k. if k \<in> fst ` set R then P k else ct_pending cm1 k)"
     "ct_closed cm' = ct_closed cm1 \<union> closing \<inter> fst ` set R"
     "ct_opened cm' = (\<lambda>k. if \<exists>(k', a) \<in> set R. hasKeystone (ct_heap cm1 a) \<and> outKey (ct_heap cm1 a) = k
                          then Q k else ct_opened cm1 k)"
     "hset cm' = (\<lambda>h. hset cm1 h \<union> {k. \<exists>(k', a) \<in> set R. hasKeystone (ct_heap cm1 a) \<and> outKey (ct_heap cm1 a) = k \<and>
        pc_paymentHash (ct_heap cm1 a) = h})"
    using Cons.IH by blast+
  have pa: "P k = Some a" "hasKeystone c \<longrightarrow> Q (outKey c) = Some a" using Cons.prems(1) by (auto simp: e c_def)
  have "ct_pending cm' = (\<lambda>x. if x \<in> fst ` set (e # R) then P x else ct_pending cm x)"
    by (auto simp: ih(6) f e pa fun_eq_iff)
  moreover have "ct_closed cm' = ct_closed cm \<union> closing \<inter> fst ` set (e # R)"
    by (auto simp: ih(7) f e)
  moreover have "ct_opened cm' = (\<lambda>x. if \<exists>(k', a) \<in> set (e # R). hasKeystone (ct_heap cm a) \<and> outKey (ct_heap cm a) = x
                          then Q x else ct_opened cm x)"
    using pa(2) by (auto simp: ih(8) f e c_def fun_eq_iff)
  moreover have "hset cm' = (\<lambda>h. hset cm h \<union> {k. \<exists>(k', a) \<in> set (e # R). hasKeystone (ct_heap cm a) \<and>
      outKey (ct_heap cm a) = k \<and> pc_paymentHash (ct_heap cm a) = h})"
    by (auto simp: ih(9) f e c_def fun_eq_iff)
  ultimately show ?case using ih(1-5) f(1-4) by simp
qed

text \<open>A deletion that cannot be written to disk changes nothing.\<close>

lemma delete_rollback:
  assumes "mem_wf cm"
  shows "deleteCircuits False cm ks = (cm, Some CircuitDbFailed)"
proof -
  obtain cm1 closing removed where r: "removeCircuits cm ks = (cm1, closing, removed)"
    by (cases "removeCircuits cm ks") auto
  note s = removeCircuits_spec [OF assms r] and w = mem_wfD [OF assms]
  let ?cm = "foldl (restoreRemoved closing) cm1 removed"
  have heap: "ct_heap cm1 = ct_heap cm" and rem: "set removed = {(k, a). k \<in> set ks \<and> ct_pending cm k = Some a}"
    using s by blast+
  have "\<forall>(k, a) \<in> set removed. ct_pending cm k = Some a \<and>
      (hasKeystone (ct_heap cm1 a) \<longrightarrow> ct_opened cm (outKey (ct_heap cm1 a)) = Some a)"
    using w(3) by (auto simp: rem heap hasKeystone_def outKey_def)
  moreover have "index_pruned cm1" using s mem_wfD(6) by blast
  ultimately have b: "ct_heap ?cm = ct_heap cm" "ct_next ?cm = ct_next cm" "ct_adds ?cm = ct_adds cm"
     "ct_keystones ?cm = ct_keystones cm" "index_pruned ?cm"
     "ct_pending ?cm = (\<lambda>k. if k \<in> fst ` set removed then ct_pending cm k else ct_pending cm1 k)"
     "ct_closed ?cm = ct_closed cm1 \<union> closing \<inter> fst ` set removed"
     "ct_opened ?cm = (\<lambda>k. if \<exists>(k', a) \<in> set removed. hasKeystone (ct_heap cm a) \<and> outKey (ct_heap cm a) = k
                          then ct_opened cm k else ct_opened cm1 k)"
     "hset ?cm = (\<lambda>h. hset cm1 h \<union> {k. \<exists>(k', a) \<in> set removed. hasKeystone (ct_heap cm a) \<and> outKey (ct_heap cm a) = k \<and>
        pc_paymentHash (ct_heap cm a) = h})"
    using restoreRemoved_spec [where P = "ct_pending cm" and Q = "ct_opened cm" and R = removed and cm = cm1
        and cm' = ?cm and closing = closing] s by simp_all
  have keys: "fst ` set removed = set ks \<inter> dom (ct_pending cm)" by (force simp: rem)
  have opened_in: "(\<exists>(k', a) \<in> set removed. hasKeystone (ct_heap cm a) \<and> outKey (ct_heap cm a) = k \<and> Pr a) \<longleftrightarrow>
      (\<exists>a. ct_opened cm k = Some a \<and> pc_incoming (ct_heap cm a) \<in> set ks \<and> Pr a)" for k Pr
  proof
    assume "\<exists>(k', a) \<in> set removed. hasKeystone (ct_heap cm a) \<and> outKey (ct_heap cm a) = k \<and> Pr a"
    then obtain k' a where a: "k' \<in> set ks" "ct_pending cm k' = Some a" "hasKeystone (ct_heap cm a)"
      "outKey (ct_heap cm a) = k" "Pr a" by (auto simp: rem)
    then have "ct_opened cm k = Some a" using w(3) [OF a(2)] by (auto simp: hasKeystone_def outKey_def)
    then show "\<exists>a. ct_opened cm k = Some a \<and> pc_incoming (ct_heap cm a) \<in> set ks \<and> Pr a"
      using w(1) [OF a(2)] a by auto
  next
    assume "\<exists>a. ct_opened cm k = Some a \<and> pc_incoming (ct_heap cm a) \<in> set ks \<and> Pr a"
    then obtain a where a: "ct_opened cm k = Some a" "pc_incoming (ct_heap cm a) \<in> set ks" "Pr a" by blast
    then show "\<exists>(k', a) \<in> set removed. hasKeystone (ct_heap cm a) \<and> outKey (ct_heap cm a) = k \<and> Pr a"
      using w(2) [OF a(1)] by (auto simp: rem hasKeystone_def outKey_def intro!: bexI [of _ "(pc_incoming (ct_heap cm a), a)"])
  qed
  have "ct_pending ?cm = ct_pending cm"
  proof -
    have "ct_pending cm1 = (\<lambda>k. if k \<in> set ks then None else ct_pending cm k)" using s by blast
    then have "ct_pending ?cm k = ct_pending cm k" for k
      by (cases "ct_pending cm k") (auto simp: b(6) keys)
    then show ?thesis by blast
  qed
  moreover have "ct_closed ?cm = ct_closed cm"
  proof -
    have "closing = ct_closed cm \<inter> set ks" "ct_closed cm1 = ct_closed cm - set ks" using s by blast+
    then have "ct_closed cm1 \<union> closing \<inter> fst ` set removed = ct_closed cm" using w(4) by (auto simp: keys)
    then show ?thesis by (simp only: b(7))
  qed
  moreover have "ct_opened ?cm = ct_opened cm"
  proof
    fix k
    have "ct_opened cm1 k = (case ct_opened cm k of None \<Rightarrow> None
        | Some a \<Rightarrow> if pc_incoming (ct_heap cm a) \<in> set ks then None else Some a)" using s by simp
    then show "ct_opened ?cm k = ct_opened cm k"
      using opened_in [of k "\<lambda>a. True"] by (simp add: b(8) split: option.splits)
  qed
  moreover have "ct_hashIndex ?cm = ct_hashIndex cm"
  proof (rule index_pruned_eq [OF b(5) w(6)])
    have h1: "hset cm1 h = hset cm h - {k. \<exists>a. ct_opened cm k = Some a \<and> pc_paymentHash (ct_heap cm a) = h \<and>
        pc_incoming (ct_heap cm a) \<in> set ks}" for h using s by simp
    have "{k. \<exists>a. ct_opened cm k = Some a \<and> pc_paymentHash (ct_heap cm a) = h \<and>
        pc_incoming (ct_heap cm a) \<in> set ks} \<subseteq> hset cm h" for h using w(5) by auto
    then show "hset ?cm = hset cm"
      using opened_in [where Pr = "\<lambda>a. pc_paymentHash (ct_heap cm a) = _"]
      by (auto simp: b(9) h1 fun_eq_iff)
  qed
  ultimately have "?cm = cm" using b(1-4) by simp
  then show ?thesis by (simp add: deleteCircuits_def r)
qed

lemma delete_wf:
  assumes "mem_wf cm" "disk_wf cm" "deleteCircuits dbOk cm ks = (cm', err)"
  shows "mem_wf cm'" "disk_wf cm'"
proof -
  obtain cm1 closing removed where r: "removeCircuits cm ks = (cm1, closing, removed)"
    by (cases "removeCircuits cm ks") auto
  note s = removeCircuits_spec [OF assms(1) r] and w = mem_wfD [OF assms(1)]
  have heap: "ct_heap cm1 = ct_heap cm" and rem: "set removed = {(k, a). k \<in> set ks \<and> ct_pending cm k = Some a}"
    and pend: "ct_pending cm1 = (\<lambda>k. if k \<in> set ks then None else ct_pending cm k)"
    and opn: "ct_opened cm1 = (\<lambda>k. case ct_opened cm k of None \<Rightarrow> None
        | Some a \<Rightarrow> if pc_incoming (ct_heap cm a) \<in> set ks then None else Some a)"
    using s by blast+
  let ?as = "map snd removed"
  have as: "set ?as = {a. \<exists>k \<in> set ks. ct_pending cm k = Some a}" by (force simp: rem)
  have in_keys: "k \<in> set (map (inKey \<circ> ct_heap cm) ?as) \<longleftrightarrow> k \<in> set ks \<and> ct_pending cm k \<noteq> None" for k
  proof -
    have "k \<in> (\<lambda>a. pc_incoming (ct_heap cm a)) ` set ?as \<longleftrightarrow> k \<in> set ks \<and> ct_pending cm k \<noteq> None"
      unfolding as using w(1) by (force simp: image_iff)
    then show ?thesis by (simp add: inKey_def comp_def image_image)
  qed
  have out_keys: "k \<in> set (map (outKey \<circ> ct_heap cm) (filter (hasKeystone \<circ> ct_heap cm) ?as)) \<longleftrightarrow>
      (\<exists>a. ct_opened cm k = Some a \<and> pc_incoming (ct_heap cm a) \<in> set ks)" for k
  proof -
    have "(\<exists>a \<in> set ?as. hasKeystone (ct_heap cm a) \<and> outKey (ct_heap cm a) = k) \<longleftrightarrow>
      (\<exists>a. ct_opened cm k = Some a \<and> pc_incoming (ct_heap cm a) \<in> set ks)"
      unfolding as
    proof
      assume "\<exists>a \<in> {a. \<exists>k \<in> set ks. ct_pending cm k = Some a}. hasKeystone (ct_heap cm a) \<and> outKey (ct_heap cm a) = k"
      then obtain a k' where a: "k' \<in> set ks" "ct_pending cm k' = Some a" "hasKeystone (ct_heap cm a)" "outKey (ct_heap cm a) = k"
        by blast
      then show "\<exists>a. ct_opened cm k = Some a \<and> pc_incoming (ct_heap cm a) \<in> set ks"
        using w(3) [OF a(2)] w(1) [OF a(2)] by (auto simp: hasKeystone_def outKey_def)
    next
      assume "\<exists>a. ct_opened cm k = Some a \<and> pc_incoming (ct_heap cm a) \<in> set ks"
      then obtain a where a: "ct_opened cm k = Some a" "pc_incoming (ct_heap cm a) \<in> set ks" by blast
      then show "\<exists>a \<in> {a. \<exists>k \<in> set ks. ct_pending cm k = Some a}. hasKeystone (ct_heap cm a) \<and> outKey (ct_heap cm a) = k"
        using w(2) [OF a(1)] by (auto simp: hasKeystone_def outKey_def)
    qed
    then show ?thesis by (auto simp: image_iff)
  qed
  have "mem_wf cm' \<and> disk_wf cm'"
  proof (cases dbOk)
    case True
    then have cm': "cm' = deleteRemoved cm1 ?as" using assms(3) by (simp add: deleteCircuits_def r)
    have "ct_adds cm = bucket_of (addsImage cm)" "ct_keystones cm = bucket_of (keystonesImage cm)"
      using assms(2) by (simp_all add: disk_wf_def)
    then have "ct_adds cm' = bucket_of (\<lambda>k. if k \<in> set ks \<and> ct_pending cm k \<noteq> None then None else addsImage cm k)"
      "ct_keystones cm' = bucket_of (\<lambda>k. if \<exists>a. ct_opened cm k = Some a \<and> pc_incoming (ct_heap cm a) \<in> set ks
         then None else keystonesImage cm k)"
    proof -
      assume "ct_adds cm = bucket_of (addsImage cm)" "ct_keystones cm = bucket_of (keystonesImage cm)"
      then have "ct_adds cm1 = bucket_of (addsImage cm)" "ct_keystones cm1 = bucket_of (keystonesImage cm)" using s by auto
      then show "ct_adds cm' = bucket_of (\<lambda>k. if k \<in> set ks \<and> ct_pending cm k \<noteq> None then None else addsImage cm k)"
        "ct_keystones cm' = bucket_of (\<lambda>k. if \<exists>a. ct_opened cm k = Some a \<and> pc_incoming (ct_heap cm a) \<in> set ks
         then None else keystonesImage cm k)"
        by (simp_all only: cm' deleteRemoved_def Let_def heap deleteKeys_of in_keys out_keys) simp_all
    qed
    moreover have "addsImage cm' = (\<lambda>k. if k \<in> set ks \<and> ct_pending cm k \<noteq> None then None else addsImage cm k)"
      by (auto simp: addsImage_def cm' deleteRemoved_def Let_def heap pend fun_eq_iff)
    moreover have "keystonesImage cm' = (\<lambda>k. if \<exists>a. ct_opened cm k = Some a \<and> pc_incoming (ct_heap cm a) \<in> set ks
         then None else keystonesImage cm k)"
      by (auto simp: keystonesImage_def cm' deleteRemoved_def Let_def heap opn fun_eq_iff split: option.splits)
    ultimately have "disk_wf cm'" by (simp add: disk_wf_def)
    moreover have "mem_wf cm'"
      using s mem_wf_disk by (simp add: cm' deleteRemoved_def Let_def)
    ultimately show ?thesis by simp
  next
    case False
    then show ?thesis using delete_rollback [OF assms(1), of ks] assms by simp
  qed
  then show "mem_wf cm'" "disk_wf cm'" by blast+
qed

end
