(* ===== verification/Circuit_Restart.thy ===== *)
theory Circuit_Restart
  imports Circuit_Inv
begin

text \<open>
  Starting the circuit map from disk: which circuits of closed channels are forgotten, that the memory
  that is read satisfies the invariant and stands for the circuits that were stored, and which keystones
  the trimming of all open channels takes back.
\<close>

section \<open>Restarting\<close>

text \<open>
  What the two buckets stand for: a circuit for each incoming key, an incoming key for each outgoing
  one; and what a configuration must do for them to be read: enumerate a bucket completely, accept
  the keys of the circuits it stored.
\<close>

definition buckets_hold ::
  "(circuit_key \<rightharpoonup> payment_circuit) \<Rightarrow> (circuit_key \<rightharpoonup> circuit_key) \<Rightarrow> bucket \<Rightarrow> bucket \<Rightarrow> bool" where
  "buckets_hold F G adds keystones \<longleftrightarrow>
     adds = bucket_of (\<lambda>k. map_option encodeCircuit (F k)) \<and>
     keystones = bucket_of (\<lambda>k. map_option circuitKeyBytes (G k)) \<and>
     (\<forall>k c. F k = Some c \<longrightarrow> pc_incoming c = k) \<and> ran G \<subseteq> dom F \<and>
     (\<forall>o1 o2 k. G o1 = Some k \<longrightarrow> G o2 = Some k \<longrightarrow> o1 = o2) \<and> G emptyCircuitKey = None"

definition enumerates :: "circuit_config \<Rightarrow> bucket \<Rightarrow> bool" where
  "enumerates cfg b \<longleftrightarrow> distinct (map fst (cg_entries cfg b)) \<and> set (cg_entries cfg b) = {(k, v). b k = Some v}"

definition readable :: "circuit_config \<Rightarrow> (circuit_key \<rightharpoonup> payment_circuit) \<Rightarrow> bool" where
  "readable cfg F \<longleftrightarrow> (\<forall>c \<in> ran F. storable (cg_validKey cfg) (cg_extract cfg) c)"

lemma bucket_entries:
  assumes "enumerates cfg (bucket_of f)"
  shows "set (cg_entries cfg (bucket_of f)) = {(circuitKeyBytes k, v) | k v. f k = Some v}"
  using assms by (auto simp: enumerates_def bucket_of_def setBytes_iff split: sum.splits)

subsection \<open>Circuits of closed channels\<close>

text \<open>A circuit and its keystone go if the incoming channel is closed, or the outgoing one is and no resolution waits.\<close>

definition staleKeystone :: "circuit_config \<Rightarrow> u64 set \<Rightarrow> circuit_key \<Rightarrow> circuit_key \<Rightarrow> bool" where
  "staleKeystone cfg closedSet inK outK \<longleftrightarrow> isClosedChannel closedSet (ck_chanID inK) \<or>
     isClosedChannel closedSet (ck_chanID outK) \<and> \<not> cg_resolutionStored cfg outK"

definition staleCircuit ::
  "circuit_config \<Rightarrow> u64 set \<Rightarrow> (circuit_key \<rightharpoonup> circuit_key) \<Rightarrow> circuit_key \<Rightarrow> bool" where
  "staleCircuit cfg closedSet G k \<longleftrightarrow> isClosedChannel closedSet (ck_chanID k) \<or>
     (\<exists>outK. G outK = Some k \<and> staleKeystone cfg closedSet k outK)"

lemma staleCircuits_spec:
  assumes "\<forall>(b, v) \<in> set es. \<exists>c. v = encodeCircuit c \<and> storable (cg_validKey cfg) (cg_extract cfg) c \<and> b = circuitKeyBytes (pc_incoming c)"
  shows "staleCircuits cfg closedSet es
     = Inr {k. \<exists>v. (circuitKeyBytes k, v) \<in> set es \<and> isClosedChannel closedSet (ck_chanID k)}"
  using assms
proof (induction es)
  case (Cons e es)
  obtain b v where e: "e = (b, v)" by fastforce
  obtain c where c: "v = encodeCircuit c" "storable (cg_validKey cfg) (cg_extract cfg) c" "b = circuitKeyBytes (pc_incoming c)"
    using Cons.prems by (auto simp: e)
  show ?case using Cons circuit_roundtrip(2) [OF c(2)] by (auto simp: e c)
qed simp

lemma staleKeystones_spec:
  assumes "\<forall>(b, v) \<in> set es. \<exists>o' k. b = circuitKeyBytes o' \<and> v = circuitKeyBytes k"
  shows "staleKeystones cfg closedSet es
     = Inr ({k. \<exists>outK. (circuitKeyBytes outK, circuitKeyBytes k) \<in> set es \<and> staleKeystone cfg closedSet k outK},
            {outK. \<exists>k. (circuitKeyBytes outK, circuitKeyBytes k) \<in> set es \<and> staleKeystone cfg closedSet k outK})"
  using assms
proof (induction es)
  case (Cons e es)
  obtain o' k where e: "e = (circuitKeyBytes o', circuitKeyBytes k)" using Cons.prems by fastforce
  show ?case using Cons by (auto simp: e staleKeystone_def)
qed simp

definition closedSet :: "(u64 \<times> bool) list \<Rightarrow> u64 set" where
  "closedSet closedChannels = fst ` {c \<in> set closedChannels. \<not> snd c}"

lemma clean_spec:
  assumes "buckets_hold F G adds keystones" "readable cfg F" "enumerates cfg adds" "enumerates cfg keystones"
    and "cg_closedChannels cfg = Inr closedChannels" "cg_cleanOk cfg"
  defines "F' \<equiv> (\<lambda>k. if staleCircuit cfg (closedSet closedChannels) G k then None else F k)"
    and "G' \<equiv> (\<lambda>outK. case G outK of None \<Rightarrow> None
       | Some k \<Rightarrow> if staleKeystone cfg (closedSet closedChannels) k outK then None else Some k)"
  obtains adds' keystones' where "cleanClosedChannels cfg adds keystones = Inr (adds', keystones')"
    "buckets_hold F' G' adds' keystones'"
proof -
  let ?cs = "closedSet closedChannels"
  let ?f = "\<lambda>k. map_option encodeCircuit (F k)" and ?g = "\<lambda>k. map_option circuitKeyBytes (G k)"
  have b: "adds = bucket_of ?f" "keystones = bucket_of ?g" "\<And>k c. F k = Some c \<Longrightarrow> pc_incoming c = k"
    "ran G \<subseteq> dom F" "\<And>o1 o2 k. G o1 = Some k \<Longrightarrow> G o2 = Some k \<Longrightarrow> o1 = o2" "G emptyCircuitKey = None"
    using assms(1) unfolding buckets_hold_def by blast+
  have holds: "buckets_hold F' G' (bucket_of (\<lambda>k. map_option encodeCircuit (F' k)))
      (bucket_of (\<lambda>k. map_option circuitKeyBytes (G' k)))"
  proof -
    have "ran G' \<subseteq> dom F'"
    proof
      fix k assume "k \<in> ran G'"
      then obtain outK where o: "G outK = Some k" "\<not> staleKeystone cfg ?cs k outK"
        by (auto simp: ran_def G'_def split: option.splits if_splits)
      then have "\<not> staleCircuit cfg ?cs G k" using b(5) by (auto simp: staleCircuit_def staleKeystone_def)
      moreover have "k \<in> dom F" using b(4) o(1) by (auto simp: ran_def)
      ultimately show "k \<in> dom F'" by (simp add: F'_def dom_def)
    qed
    then show ?thesis using b(3,5,6)
      by (auto simp: buckets_hold_def F'_def G'_def split: option.splits if_splits)
  qed
  show ?thesis
  proof (cases "?cs = {}")
    case True
    then have same: "F' = F" "G' = G"
      by (auto simp: F'_def G'_def staleCircuit_def staleKeystone_def isClosedChannel_def fun_eq_iff split: option.splits)
    have "cleanClosedChannels cfg adds keystones = Inr (adds, keystones)"
      using True [unfolded closedSet_def]
      by (simp only: cleanClosedChannels_def assms(5) and_then_simps Let_def refl if_True)
    then show ?thesis using that [of adds keystones] assms(1) same by simp
  next
    case False
    have e1: "set (cg_entries cfg adds) = {(circuitKeyBytes k, v) | k v. ?f k = Some v}"
      and e2: "set (cg_entries cfg keystones) = {(circuitKeyBytes k, v) | k v. ?g k = Some v}"
      using bucket_entries assms(3,4) unfolding b(1,2) by blast+
    have "staleCircuits cfg ?cs (cg_entries cfg adds)
        = Inr {k. \<exists>v. (circuitKeyBytes k, v) \<in> set (cg_entries cfg adds) \<and> isClosedChannel ?cs (ck_chanID k)}"
      by (rule staleCircuits_spec) (use assms(2) b(3) in \<open>fastforce simp: e1 readable_def ran_def\<close>)
    then have s1: "staleCircuits cfg ?cs (cg_entries cfg adds) = Inr {k. F k \<noteq> None \<and> isClosedChannel ?cs (ck_chanID k)}"
      by (auto simp: e1)
    have "staleKeystones cfg ?cs (cg_entries cfg keystones)
      = Inr ({k. \<exists>outK. (circuitKeyBytes outK, circuitKeyBytes k) \<in> set (cg_entries cfg keystones) \<and> staleKeystone cfg ?cs k outK},
            {outK. \<exists>k. (circuitKeyBytes outK, circuitKeyBytes k) \<in> set (cg_entries cfg keystones) \<and> staleKeystone cfg ?cs k outK})"
      by (rule staleKeystones_spec) (auto simp: e2)
    then have s2: "staleKeystones cfg ?cs (cg_entries cfg keystones)
      = Inr ({k. \<exists>outK. G outK = Some k \<and> staleKeystone cfg ?cs k outK},
            {outK. \<exists>k. G outK = Some k \<and> staleKeystone cfg ?cs k outK})"
      by (auto simp: e2)
    let ?K = "{k. F k \<noteq> None \<and> isClosedChannel ?cs (ck_chanID k)} \<union> {k. \<exists>outK. G outK = Some k \<and> staleKeystone cfg ?cs k outK}"
    have "deleteKeySet ?K adds = bucket_of (\<lambda>k. map_option encodeCircuit (F' k))"
      unfolding b(1) deleteKeySet_of
      by (rule arg_cong [where f = bucket_of]) (auto simp: F'_def staleCircuit_def fun_eq_iff)
    moreover have "deleteKeySet {outK. \<exists>k. G outK = Some k \<and> staleKeystone cfg ?cs k outK} keystones
        = bucket_of (\<lambda>k. map_option circuitKeyBytes (G' k))"
      unfolding b(2) deleteKeySet_of
      by (rule arg_cong [where f = bucket_of]) (auto simp: G'_def fun_eq_iff split: option.splits)
    ultimately have "cleanClosedChannels cfg adds keystones
       = Inr (bucket_of (\<lambda>k. map_option encodeCircuit (F' k)), bucket_of (\<lambda>k. map_option circuitKeyBytes (G' k)))"
      using assms(5,6) False s1 s2 by (simp add: cleanClosedChannels_def closedSet_def [symmetric])
    with holds that show ?thesis by blast
  qed
qed

subsection \<open>Memory from disk\<close>

text \<open>The circuits read so far, for the keys \<open>D\<close>.\<close>

definition adds_restored :: "(circuit_key \<rightharpoonup> payment_circuit) \<Rightarrow> circuit_key set \<Rightarrow> circuit_map \<Rightarrow> bool" where
  "adds_restored F D cm \<longleftrightarrow> dom (ct_pending cm) = D \<and>
     (\<forall>k a. ct_pending cm k = Some a \<longrightarrow> a < ct_next cm \<and>
        ct_heap cm a = (half (the (F k)))\<lparr>pc_loadedFromDisk := True\<rparr>)"

lemma restoreAdds_spec:
  assumes "adds_restored F D cm" "distinct (map fst es)"
    and "\<forall>(b, v) \<in> set es. \<exists>k c. F k = Some c \<and> b = circuitKeyBytes k \<and> v = encodeCircuit c \<and>
           pc_incoming c = k \<and> k \<notin> D \<and> storable (cg_validKey cfg) (cg_extract cfg) c"
  shows "\<exists>cm'. restoreAdds cfg es cm = Inr cm' \<and> adds_restored F (D \<union> {k. circuitKeyBytes k \<in> fst ` set es}) cm' \<and>
     ct_opened cm' = ct_opened cm \<and> ct_closed cm' = ct_closed cm \<and> ct_hashIndex cm' = ct_hashIndex cm \<and>
     ct_adds cm' = ct_adds cm \<and> ct_keystones cm' = ct_keystones cm"
  using assms
proof (induction es arbitrary: cm D)
  case Nil
  then show ?case by simp
next
  case (Cons e es)
  obtain k c where e: "e = (circuitKeyBytes k, encodeCircuit c)" and c: "F k = Some c" "pc_incoming c = k" "k \<notin> D"
    "storable (cg_validKey cfg) (cg_extract cfg) c"
    using Cons.prems(3) by (cases e) auto
  let ?c = "(half c)\<lparr>pc_loadedFromDisk := True\<rparr>"
  define cm1 where "cm1 = cm\<lparr>ct_heap := (ct_heap cm)(ct_next cm := ?c), ct_next := ct_next cm + 1,
      ct_pending := (ct_pending cm)(k \<mapsto> ct_next cm)\<rparr>"
  have step: "restoreAdds cfg (e # es) cm = restoreAdds cfg es cm1"
    using circuit_roundtrip(2) [OF c(4)] by (simp add: e allocCircuit_def cm1_def c(2))
  have "adds_restored F (insert k D) cm1"
    using Cons.prems(1) c(1) by (auto simp: adds_restored_def cm1_def less_Suc_eq)
  moreover have "\<forall>(b, v) \<in> set es. \<exists>k' c. F k' = Some c \<and> b = circuitKeyBytes k' \<and> v = encodeCircuit c \<and>
           pc_incoming c = k' \<and> k' \<notin> insert k D \<and> storable (cg_validKey cfg) (cg_extract cfg) c"
  proof (intro ballI, clarify)
    fix b v assume m: "(b, v) \<in> set es"
    then obtain k' c' where k': "F k' = Some c'" "b = circuitKeyBytes k'" "v = encodeCircuit c'" "pc_incoming c' = k'" "k' \<notin> D"
      "storable (cg_validKey cfg) (cg_extract cfg) c'"
      using Cons.prems(3) by fastforce
    have "circuitKeyBytes k \<notin> fst ` set es" using Cons.prems(2) by (simp add: e)
    then have "k' \<noteq> k" using m k'(2) by force
    then show "\<exists>k' c. F k' = Some c \<and> b = circuitKeyBytes k' \<and> v = encodeCircuit c \<and>
           pc_incoming c = k' \<and> k' \<notin> insert k D \<and> storable (cg_validKey cfg) (cg_extract cfg) c"
      using k' by auto
  qed
  ultimately obtain cm' where ih: "restoreAdds cfg es cm1 = Inr cm'"
    "adds_restored F (insert k D \<union> {k. circuitKeyBytes k \<in> fst ` set es}) cm'"
    "ct_opened cm' = ct_opened cm1" "ct_closed cm' = ct_closed cm1" "ct_hashIndex cm' = ct_hashIndex cm1"
    "ct_adds cm' = ct_adds cm1" "ct_keystones cm' = ct_keystones cm1"
    using Cons.IH [of "insert k D" cm1] Cons.prems(2) by auto
  have "insert k D \<union> {k. circuitKeyBytes k \<in> fst ` set es} = D \<union> {k. circuitKeyBytes k \<in> fst ` set (e # es)}"
    by (auto simp: e)
  then show ?case using ih by (auto simp: step cm1_def)
qed

text \<open>The keystones read so far, for the outgoing keys \<open>E\<close>.\<close>

definition keystones_restored ::
  "(circuit_key \<rightharpoonup> payment_circuit) \<Rightarrow> (circuit_key \<rightharpoonup> circuit_key) \<Rightarrow> circuit_key set \<Rightarrow> circuit_map \<Rightarrow> bool" where
  "keystones_restored F G E cm \<longleftrightarrow> dom (ct_pending cm) = dom F \<and>
     (\<forall>k a. ct_pending cm k = Some a \<longrightarrow> a < ct_next cm \<and>
        half (ct_heap cm a) = half (the (F k)) \<and> pc_loadedFromDisk (ct_heap cm a) \<and>
        (\<forall>outK. pc_outgoing (ct_heap cm a) = Some outK \<longleftrightarrow> outK \<in> E \<and> G outK = Some k)) \<and>
     ct_opened cm = (\<lambda>outK. if outK \<in> E then (case G outK of None \<Rightarrow> None | Some k \<Rightarrow> ct_pending cm k) else None)"

lemma half_fields:
  assumes "half c = half d"
  shows "pc_incoming c = pc_incoming d" "pc_paymentHash c = pc_paymentHash d" "encodeCircuit c = encodeCircuit d"
proof -
  show "pc_incoming c = pc_incoming d" using arg_cong [OF assms, of pc_incoming] by simp
  show "pc_paymentHash c = pc_paymentHash d" using arg_cong [OF assms, of pc_paymentHash] by (simp add: half_def)
  show "encodeCircuit c = encodeCircuit d" using arg_cong [OF assms, of encodeCircuit] by simp
qed

lemma restoreKeystones_spec:
  assumes "keystones_restored F G E cm" "buckets_hold F G adds keystones" "distinct (map fst es)"
    and "\<forall>(b, v) \<in> set es. \<exists>outK k. b = circuitKeyBytes outK \<and> v = circuitKeyBytes k \<and> G outK = Some k \<and> outK \<notin> E"
  shows "\<exists>cm'. restoreKeystones es cm = Inr (cm', []) \<and>
     keystones_restored F G (E \<union> {k. circuitKeyBytes k \<in> fst ` set es}) cm' \<and>
     ct_closed cm' = ct_closed cm \<and> ct_hashIndex cm' = ct_hashIndex cm \<and> ct_adds cm' = ct_adds cm \<and>
     ct_keystones cm' = ct_keystones cm"
  using assms
proof (induction es arbitrary: cm E)
  case Nil
  then show ?case by simp
next
  case (Cons e es)
  obtain outK k where e: "e = (circuitKeyBytes outK, circuitKeyBytes k)" "G outK = Some k" "outK \<notin> E"
    using Cons.prems(4) by (cases e) auto
  have F: "\<And>k c. F k = Some c \<Longrightarrow> pc_incoming c = k" "k \<in> dom F" "\<And>o1 o2 k. G o1 = Some k \<Longrightarrow> G o2 = Some k \<Longrightarrow> o1 = o2"
    using Cons.prems(2) e(2) unfolding buckets_hold_def ran_def by blast+
  note kr = Cons.prems(1) [unfolded keystones_restored_def]
  obtain a where a: "ct_pending cm k = Some a" using kr F(2) by blast
  define cm1 where "cm1 = cm\<lparr>ct_heap := (ct_heap cm)(a := (ct_heap cm a)\<lparr>pc_outgoing := Some outK\<rparr>),
                 ct_opened := (ct_opened cm)(outK \<mapsto> a)\<rparr>"
  have step: "restoreKeystones (e # es) cm = restoreKeystones es cm1"
    by (simp add: e(1) a cm1_def)
  have inj: "k' = k" if "ct_pending cm k' = Some a" for k'
  proof -
    have "half (the (F k')) = half (the (F k))" using kr a that by metis
    moreover have "k' \<in> dom F" using kr that by blast
    ultimately show ?thesis using F(1,2) half_fields(1) by (metis domD option.sel)
  qed
  have r: "keystones_restored F G (insert outK E) cm1"
    unfolding keystones_restored_def
  proof (intro conjI allI impI)
    show "dom (ct_pending cm1) = dom F" using kr by (simp add: cm1_def)
    fix k' b assume b: "ct_pending cm1 k' = Some b"
    then have b': "ct_pending cm k' = Some b" by (simp add: cm1_def)
    show "b < ct_next cm1" using kr b' by (simp add: cm1_def)
    have hb: "half (ct_heap cm b) = half (the (F k'))" "pc_loadedFromDisk (ct_heap cm b)" using kr b' by blast+
    show "half (ct_heap cm1 b) = half (the (F k'))" "pc_loadedFromDisk (ct_heap cm1 b)"
      using hb by (auto simp: cm1_def half_def)
    fix o'
    have "pc_outgoing (ct_heap cm b) = Some o' \<longleftrightarrow> o' \<in> E \<and> G o' = Some k'" using kr b' by blast
    then show "pc_outgoing (ct_heap cm1 b) = Some o' \<longleftrightarrow> o' \<in> insert outK E \<and> G o' = Some k'"
      using inj [of k'] b' a e(2) F(3) by (cases "b = a") (auto simp: cm1_def)
  next
    have "ct_opened cm = (\<lambda>outK. if outK \<in> E then (case G outK of None \<Rightarrow> None | Some k \<Rightarrow> ct_pending cm k) else None)"
      using kr by blast
    then show "ct_opened cm1 = (\<lambda>o'. if o' \<in> insert outK E then (case G o' of None \<Rightarrow> None | Some k \<Rightarrow> ct_pending cm1 k) else None)"
      using a e(2) by (auto simp: cm1_def fun_eq_iff split: option.split)
  qed
  have rest: "\<forall>(b, v) \<in> set es. \<exists>o' k. b = circuitKeyBytes o' \<and> v = circuitKeyBytes k \<and> G o' = Some k \<and> o' \<notin> insert outK E"
  proof (intro ballI, clarify)
    fix b v assume m: "(b, v) \<in> set es"
    then obtain o' k' where k': "b = circuitKeyBytes o'" "v = circuitKeyBytes k'" "G o' = Some k'" "o' \<notin> E"
      using Cons.prems(4) by fastforce
    have "circuitKeyBytes outK \<notin> fst ` set es" using Cons.prems(3) by (simp add: e)
    then have "o' \<noteq> outK" using m k'(1) by force
    then show "\<exists>o' k. b = circuitKeyBytes o' \<and> v = circuitKeyBytes k \<and> G o' = Some k \<and> o' \<notin> insert outK E"
      using k' by auto
  qed
  obtain cm' where ih: "restoreKeystones es cm1 = Inr (cm', [])"
    "keystones_restored F G (insert outK E \<union> {k. circuitKeyBytes k \<in> fst ` set es}) cm'"
    "ct_closed cm' = ct_closed cm1" "ct_hashIndex cm' = ct_hashIndex cm1" "ct_adds cm' = ct_adds cm1"
    "ct_keystones cm' = ct_keystones cm1"
    using Cons.IH [OF r Cons.prems(2) _ rest] Cons.prems(3) by auto
  have "insert outK E \<union> {k. circuitKeyBytes k \<in> fst ` set es} = E \<union> {k. circuitKeyBytes k \<in> fst ` set (e # es)}"
    by (auto simp: e)
  then show ?case using ih by (auto simp: step cm1_def)
qed

lemma rebuildHashIndex_spec:
  assumes "index_pruned cm" "cm' = rebuildHashIndex es cm"
  shows "index_pruned cm' \<and> ct_opened cm' = ct_opened cm \<and> ct_heap cm' = ct_heap cm \<and> ct_pending cm' = ct_pending cm \<and>
     ct_closed cm' = ct_closed cm \<and> ct_next cm' = ct_next cm \<and> ct_adds cm' = ct_adds cm \<and>
     ct_keystones cm' = ct_keystones cm \<and>
     (\<forall>h. hset cm h \<subseteq> hset cm' h) \<and>
     (\<forall>k a. circuitKeyBytes k \<in> fst ` set es \<longrightarrow> ct_opened cm k = Some a \<longrightarrow>
        outKey (ct_heap cm a) \<in> hset cm' (pc_paymentHash (ct_heap cm a)))"
  using assms
proof (induction es arbitrary: cm)
  case Nil
  then show ?case by (simp add: rebuildHashIndex_def)
next
  case (Cons e es)
  obtain b v where e: "e = (b, v)" by fastforce
  define cm1 where "cm1 = (case setBytes b of Inl err \<Rightarrow> cm
            | Inr outK \<Rightarrow> (case ct_opened cm outK of None \<Rightarrow> cm
                              | Some circuit \<Rightarrow> addCircuitToHashIndex cm (ct_heap cm circuit)))"
  have f: "index_pruned cm1" "ct_opened cm1 = ct_opened cm" "ct_heap cm1 = ct_heap cm" "ct_pending cm1 = ct_pending cm"
    "ct_closed cm1 = ct_closed cm" "ct_next cm1 = ct_next cm" "ct_adds cm1 = ct_adds cm" "ct_keystones cm1 = ct_keystones cm"
    and sub: "\<And>h. hset cm h \<subseteq> hset cm1 h"
    and new: "\<And>k a. b = circuitKeyBytes k \<Longrightarrow> ct_opened cm k = Some a \<Longrightarrow>
        outKey (ct_heap cm a) \<in> hset cm1 (pc_paymentHash (ct_heap cm a))"
    using Cons.prems(1) by (auto simp: cm1_def split: sum.splits option.splits)
  have cm': "cm' = rebuildHashIndex es cm1" using Cons.prems(2) by (simp add: rebuildHashIndex_def e cm1_def)
  note ih = Cons.IH [OF f(1) cm', unfolded f]
  have "hset cm h \<subseteq> hset cm' h" for h using ih sub [of h] by blast
  moreover have "outKey (ct_heap cm a) \<in> hset cm' (pc_paymentHash (ct_heap cm a))"
    if "circuitKeyBytes k \<in> fst ` set (e # es)" "ct_opened cm k = Some a" for k a
    using that ih new [of k a] by (auto simp: e)
  ultimately show ?case using ih by blast
qed

lemma restore_spec:
  assumes "buckets_hold F G adds keystones" "readable cfg F" "enumerates cfg adds" "enumerates cfg keystones" "cg_restoreOk cfg"
  obtains cm where "restoreMemState cfg adds keystones = Inr cm" "mem_wf cm" "disk_wf cm"
    "keystones_restored F G (dom G) cm" "ct_adds cm = adds" "ct_keystones cm = keystones" "ct_closed cm = {}"
proof -
  have b: "adds = bucket_of (\<lambda>k. map_option encodeCircuit (F k))" "keystones = bucket_of (\<lambda>k. map_option circuitKeyBytes (G k))"
    "\<And>k c. F k = Some c \<Longrightarrow> pc_incoming c = k" "ran G \<subseteq> dom F" "\<And>o1 o2 k. G o1 = Some k \<Longrightarrow> G o2 = Some k \<Longrightarrow> o1 = o2"
    "G emptyCircuitKey = None"
    using assms(1) unfolding buckets_hold_def by blast+
  have e1: "set (cg_entries cfg adds) = {(circuitKeyBytes k, v) | k v. map_option encodeCircuit (F k) = Some v}"
    and e2: "set (cg_entries cfg keystones) = {(circuitKeyBytes k, v) | k v. map_option circuitKeyBytes (G k) = Some v}"
    using bucket_entries assms(3,4) unfolding b(1,2) by blast+
  have d: "distinct (map fst (cg_entries cfg adds))" "distinct (map fst (cg_entries cfg keystones))"
    using assms(3,4) by (simp_all add: enumerates_def)
  let ?e = "emptyCircuitMap adds keystones"
  have "adds_restored F {} ?e" by (simp add: adds_restored_def emptyCircuitMap_def)
  moreover have "\<forall>(b, v) \<in> set (cg_entries cfg adds). \<exists>k c. F k = Some c \<and> b = circuitKeyBytes k \<and> v = encodeCircuit c \<and>
           pc_incoming c = k \<and> k \<notin> {} \<and> storable (cg_validKey cfg) (cg_extract cfg) c"
  proof (intro ballI, clarify)
    fix bs v assume "(bs, v) \<in> set (cg_entries cfg adds)"
    then obtain k c where k: "bs = circuitKeyBytes k" "F k = Some c" "v = encodeCircuit c" by (auto simp: e1)
    moreover have "storable (cg_validKey cfg) (cg_extract cfg) c"
      using assms(2) k(2) by (auto simp: readable_def intro: ranI)
    ultimately show "\<exists>k c. F k = Some c \<and> bs = circuitKeyBytes k \<and> v = encodeCircuit c \<and>
           pc_incoming c = k \<and> k \<notin> {} \<and> storable (cg_validKey cfg) (cg_extract cfg) c"
      using b(3) [OF k(2)] by blast
  qed
  ultimately obtain cm1 where r1: "restoreAdds cfg (cg_entries cfg adds) ?e = Inr cm1"
    "adds_restored F ({} \<union> {k. circuitKeyBytes k \<in> fst ` set (cg_entries cfg adds)}) cm1"
    "ct_opened cm1 = ct_opened ?e" "ct_closed cm1 = ct_closed ?e" "ct_hashIndex cm1 = ct_hashIndex ?e"
    "ct_adds cm1 = ct_adds ?e" "ct_keystones cm1 = ct_keystones ?e"
    using restoreAdds_spec [OF _ d(1)] by blast
  have "{} \<union> {k. circuitKeyBytes k \<in> fst ` set (cg_entries cfg adds)} = dom F" by (force simp: e1)
  then have "adds_restored F (dom F) cm1" using r1(2) by simp
  then have "keystones_restored F G {} cm1"
    using r1(3) by (auto simp: adds_restored_def keystones_restored_def emptyCircuitMap_def half_def)
  moreover have "\<forall>(b, v) \<in> set (cg_entries cfg keystones). \<exists>outK k. b = circuitKeyBytes outK \<and> v = circuitKeyBytes k \<and>
      G outK = Some k \<and> outK \<notin> {}"
    by (auto simp: e2)
  ultimately obtain cm2 where r2: "restoreKeystones (cg_entries cfg keystones) cm1 = Inr (cm2, [])"
    "keystones_restored F G ({} \<union> {k. circuitKeyBytes k \<in> fst ` set (cg_entries cfg keystones)}) cm2"
    "ct_closed cm2 = ct_closed cm1" "ct_hashIndex cm2 = ct_hashIndex cm1" "ct_adds cm2 = ct_adds cm1"
    "ct_keystones cm2 = ct_keystones cm1"
    using restoreKeystones_spec [OF _ assms(1) d(2)] by blast
  have "{} \<union> {k. circuitKeyBytes k \<in> fst ` set (cg_entries cfg keystones)} = dom G" by (force simp: e2)
  then have k2: "keystones_restored F G (dom G) cm2" using r2(2) by simp
  define cm where "cm = rebuildHashIndex (cg_entries cfg keystones) cm2"
  have res: "restoreMemState cfg adds keystones = Inr cm"
    using assms(5) by (simp add: restoreMemState_def r1(1) r2(1) cm_def deleteKeys_def)
  have "index_pruned cm2" using r1(5) r2(4) by (simp add: index_pruned_def emptyCircuitMap_def)
  note h = rebuildHashIndex_spec [OF this cm_def]
  have same: "ct_pending cm = ct_pending cm2" "ct_heap cm = ct_heap cm2" "ct_next cm = ct_next cm2"
    "ct_opened cm = ct_opened cm2" using h by blast+
  have k: "keystones_restored F G (dom G) cm" using k2 unfolding keystones_restored_def same .
  note kr = k [unfolded keystones_restored_def]
  have bk: "ct_adds cm = adds" "ct_keystones cm = keystones" "ct_closed cm = {}"
    using h r1(4,6,7) r2(3,5,6) by (simp_all add: emptyCircuitMap_def)
  have inc: "pc_incoming (ct_heap cm a) = k \<and> encodeCircuit (ct_heap cm a) = encodeCircuit (the (F k))"
    if "ct_pending cm k = Some a" for k a
  proof -
    have "half (ct_heap cm a) = half (the (F k))" "k \<in> dom F" using kr that by blast+
    then show ?thesis using half_fields b(3) by (metis domD option.sel)
  qed
  have opn: "ct_opened cm outK = (case G outK of None \<Rightarrow> None | Some k \<Rightarrow> ct_pending cm k)" for outK
    using kr by (auto split: option.splits)
  have of_opened: "\<exists>k. G outK = Some k \<and> ct_pending cm k = Some a \<and> pc_outgoing (ct_heap cm a) = Some outK"
    if o: "ct_opened cm outK = Some a" for outK a
  proof -
    obtain k where k: "G outK = Some k" "ct_pending cm k = Some a" using o by (auto simp: opn split: option.splits)
    then have "pc_outgoing (ct_heap cm a) = Some outK" using kr by blast
    with k show ?thesis by blast
  qed
  have "mem_wf cm"
  proof (rule mem_wfI)
    show "a < ct_next cm \<and> pc_incoming (ct_heap cm a) = k" if "ct_pending cm k = Some a" for k a
      using kr that inc [OF that] by blast
    show "pc_outgoing (ct_heap cm a) = Some k \<and> ct_pending cm (pc_incoming (ct_heap cm a)) = Some a"
      if "ct_opened cm k = Some a" for k a
      using of_opened [OF that] inc by metis
    show "ct_opened cm k' = Some a" if "ct_pending cm k = Some a" "pc_outgoing (ct_heap cm a) = Some k'" for k k' a
    proof -
      have "G k' = Some k" using kr that by blast
      then show ?thesis using that(1) by (simp add: opn)
    qed
    show "k \<in> hset cm (pc_paymentHash (ct_heap cm a))" if o: "ct_opened cm k = Some a" for k a
    proof -
      have "circuitKeyBytes k \<in> fst ` set (cg_entries cfg keystones)" using of_opened [OF o] by (force simp: e2)
      moreover have "outKey (ct_heap cm a) = k" using of_opened [OF o] by (auto simp: outKey_def)
      ultimately show ?thesis using h o by metis
    qed
    show "index_pruned cm" using h by blast
    show "ct_opened cm emptyCircuitKey = None" using b(6) by (simp add: opn)
  qed (simp add: bk(3))
  moreover have "addsImage cm = (\<lambda>k. map_option encodeCircuit (F k))"
  proof
    fix k
    have "dom (ct_pending cm) = dom F" using kr by blast
    then show "addsImage cm k = map_option encodeCircuit (F k)"
      using inc [of k] by (cases "ct_pending cm k"; cases "F k") (auto simp: addsImage_def)
  qed
  moreover have "keystonesImage cm = (\<lambda>k. map_option circuitKeyBytes (G k))"
  proof
    fix outK
    show "keystonesImage cm outK = map_option circuitKeyBytes (G outK)"
    proof (cases "G outK")
      case (Some k)
      then have "k \<in> dom (ct_pending cm)" using b(4) kr by (auto simp: ran_def)
      then show ?thesis using Some inc by (auto simp: keystonesImage_def opn)
    qed (simp add: keystonesImage_def opn)
  qed
  ultimately show ?thesis using that [OF res _ _ k bk] b(1,2) by (simp add: disk_wf_def bk)
qed

text \<open>Indices below \<open>start\<close> are out of a trimming's reach, unless the very last index is in use.\<close>

lemma trim_below:
  assumes "keys = map (outgoingKey chanID start) [0..<n]" "\<lparr>ck_chanID = chanID, ck_htlcID = - 1\<rparr> \<notin> set keys"
    and "k \<in> set keys"
  shows "ck_chanID k = chanID" "start \<le> ck_htlcID k"
proof -
  obtain j where j: "j < n" "k = outgoingKey chanID start j" using assms(1,3) by auto
  then show "ck_chanID k = chanID" by (simp add: outgoingKey_def)
  have "unat start + j < 2 ^ 64"
  proof (rule ccontr)
    assume "\<not> unat start + j < 2 ^ 64"
    then have le: "2 ^ 64 - 1 - unat start \<le> j" by simp
    let ?i = "2 ^ 64 - 1 - unat start :: nat"
    have "unat start \<le> 2 ^ 64 - 1" using unat_lt_2p64 [of start] by (simp del: unat_lt_2p64)
    then have "unat start + ?i = 2 ^ 64 - 1" by (rule le_add_diff_inverse)
    then have "of_nat (unat start + ?i) = (of_nat (2 ^ 64 - 1) :: u64)" by (rule arg_cong)
    also have "\<dots> = - 1" by simp
    finally have "start + of_nat ?i = - 1" by (simp del: of_nat_diff)
    then have "\<lparr>ck_chanID = chanID, ck_htlcID = - 1\<rparr> = outgoingKey chanID start ?i" by (simp add: outgoingKey_def)
    moreover have "?i \<in> set [0..<n]" using le j(1) by simp
    ultimately have "\<lparr>ck_chanID = chanID, ck_htlcID = - 1\<rparr> \<in> set keys" unfolding assms(1) set_map by (rule image_eqI)
    then show False using assms(2) by simp
  qed
  moreover from this have "unat (of_nat j :: u64) = j" by (simp add: unsigned_of_nat take_bit_nat_eq_self)
  ultimately have "unat (start + of_nat j) = unat start + j"
    by (simp add: unat_word_ariths)
  then show "start \<le> ck_htlcID k" by (simp add: j(2) outgoingKey_def word_le_nat_alt)
qed

text \<open>What trimming keeps: every circuit, with its data, and the keystones outside its reach.\<close>

definition trimmed_from :: "circuit_map \<Rightarrow> circuit_map \<Rightarrow> bool" where
  "trimmed_from cm cm' \<longleftrightarrow> ct_pending cm' = ct_pending cm \<and> ct_closed cm' = ct_closed cm \<and> ct_adds cm' = ct_adds cm \<and>
     ct_next cm' = ct_next cm \<and>
     (\<forall>a. half (ct_heap cm' a) = half (ct_heap cm a) \<and> pc_loadedFromDisk (ct_heap cm' a) = pc_loadedFromDisk (ct_heap cm a)) \<and>
     (\<forall>k. ct_opened cm' k = ct_opened cm k \<or> ct_opened cm' k = None)"

lemma trimmed_from_refl: "trimmed_from cm cm"
  by (simp add: trimmed_from_def)

lemma trimmed_from_trans: "trimmed_from cm1 cm2 \<Longrightarrow> trimmed_from cm2 cm3 \<Longrightarrow> trimmed_from cm1 cm3"
  by (simp add: trimmed_from_def) metis

lemma trim_spec:
  assumes "mem_wf cm" "disk_wf cm" "trimOpenCircuits True cm chanID start = (cm', err)"
  shows "trimmed_from cm cm'"
    "ct_opened cm \<lparr>ck_chanID = chanID, ck_htlcID = - 1\<rparr> = None \<Longrightarrow>
       ck_chanID k \<noteq> chanID \<or> ck_htlcID k < start \<Longrightarrow> ct_opened cm' k = ct_opened cm k"
    "ck_chanID k \<noteq> chanID \<Longrightarrow> ct_opened cm' k = ct_opened cm k"
proof -
  obtain cm1 keys where t: "trimLoop chanID start cm = (cm1, keys)" by fastforce
  note s = trimLoop_spec [OF assms(1) t]
  have c: "cm' = cm1\<lparr>ct_keystones := deleteKeys keys (ct_keystones cm1)\<rparr>"
    using assms(3) by (auto simp: trimOpenCircuits_def t deleteKeys_def split: if_splits)
  have o: "ct_opened cm' = (\<lambda>k. if k \<in> set keys then None else ct_opened cm k)" using s by (simp add: c)
  have h: "ct_heap cm' = (\<lambda>a. if \<exists>k \<in> set keys. ct_opened cm k = Some a
                        then (ct_heap cm a)\<lparr>pc_outgoing := None\<rparr> else ct_heap cm a)" using s by (simp add: c)
  have "ct_pending cm' = ct_pending cm \<and> ct_closed cm' = ct_closed cm \<and> ct_adds cm' = ct_adds cm \<and> ct_next cm' = ct_next cm"
    using s by (simp add: c)
  then show "trimmed_from cm cm'" by (auto simp: trimmed_from_def o h half_def)
  have k: "keys = map (outgoingKey chanID start) [0..<length keys]" and on: "\<forall>k \<in> set keys. ct_opened cm k \<noteq> None"
    using s by blast+
  show "ct_opened cm \<lparr>ck_chanID = chanID, ck_htlcID = - 1\<rparr> = None \<Longrightarrow>
       ck_chanID k \<noteq> chanID \<or> ck_htlcID k < start \<Longrightarrow> ct_opened cm' k = ct_opened cm k"
  proof -
    assume a: "ct_opened cm \<lparr>ck_chanID = chanID, ck_htlcID = - 1\<rparr> = None" "ck_chanID k \<noteq> chanID \<or> ck_htlcID k < start"
    then have "k \<notin> set keys" using trim_below [OF k, of k] on leD by blast
    then show "ct_opened cm' k = ct_opened cm k" by (simp add: o)
  qed
  have "\<forall>k \<in> set keys. ck_chanID k = chanID" by (subst k) (auto simp: outgoingKey_def)
  then show "ck_chanID k \<noteq> chanID \<Longrightarrow> ct_opened cm' k = ct_opened cm k" by (auto simp: o)
qed

text \<open>No active channel may have committed less than this key.\<close>

definition keystone_committed :: "active_channel list \<Rightarrow> circuit_key \<Rightarrow> bool" where
  "keystone_committed channels k \<longleftrightarrow>
     (\<forall>ac \<in> set channels. ac_shortChanID ac = ck_chanID k \<longrightarrow> ac_isPending ac \<or>
        (\<exists>start. ac_nextLocalHtlcIndex ac = Inr start \<and> ck_htlcID k < start))"

lemma trimAll_spec:
  assumes "mem_wf cm" "disk_wf cm" "\<forall>c. cg_trimOk cfg c" "\<forall>ac \<in> set channels. \<exists>i. ac_nextLocalHtlcIndex ac = Inr i"
  shows "\<exists>cm'. trimAllOpenCircuits cfg channels cm = (cm', None) \<and> mem_wf cm' \<and> disk_wf cm' \<and> trimmed_from cm cm' \<and>
    (\<forall>k. ct_opened cm \<lparr>ck_chanID = ck_chanID k, ck_htlcID = - 1\<rparr> = None \<longrightarrow>
      ck_chanID k \<noteq> 0 \<longrightarrow> keystone_committed channels k \<longrightarrow> ct_opened cm' k = ct_opened cm k)"
  using assms
proof (induction channels arbitrary: cm)
  case Nil
  then show ?case by (simp add: trimmed_from_refl)
next
  case (Cons ac channels)
  obtain start where start: "ac_nextLocalHtlcIndex ac = Inr start" using Cons.prems(4) by auto
  show ?case
  proof (cases "ac_isPending ac \<or> ac_shortChanID ac = 0")
    case True
    then show ?thesis using Cons.IH [OF Cons.prems(1-3)] Cons.prems(4)
      by (fastforce simp: keystone_committed_def)
  next
    case False
    obtain cm1 where t: "trimOpenCircuits True cm (ac_shortChanID ac) start = (cm1, None)"
      using trim_wf(3) [OF Cons.prems(1,2)] by (metis surj_pair)
    note w = trim_wf [OF Cons.prems(1,2) t] and sp = trim_spec [OF Cons.prems(1,2) t]
    obtain cm' where ih: "trimAllOpenCircuits cfg channels cm1 = (cm', None)" "mem_wf cm'" "disk_wf cm'" "trimmed_from cm1 cm'"
      "\<And>k. ct_opened cm1 \<lparr>ck_chanID = ck_chanID k, ck_htlcID = - 1\<rparr> = None \<Longrightarrow> ck_chanID k \<noteq> 0 \<Longrightarrow>
         keystone_committed channels k \<Longrightarrow> ct_opened cm' k = ct_opened cm1 k"
      using Cons.IH [OF w(1,2) Cons.prems(3)] Cons.prems(4) by auto
    have "ct_opened cm' k = ct_opened cm k"
      if "ct_opened cm \<lparr>ck_chanID = ck_chanID k, ck_htlcID = - 1\<rparr> = None" "ck_chanID k \<noteq> 0"
        "keystone_committed (ac # channels) k" for k
    proof -
      have "keystone_committed channels k" "ck_chanID k = ac_shortChanID ac \<longrightarrow> ck_htlcID k < start"
        using that(3) False start by (auto simp: keystone_committed_def)
      moreover have "ct_opened cm1 \<lparr>ck_chanID = ck_chanID k, ck_htlcID = - 1\<rparr> = None"
        using sp(1) that(1) unfolding trimmed_from_def by metis
      ultimately have "ct_opened cm' k = ct_opened cm1 k" using ih(5) that(2) by blast
      also have "\<dots> = ct_opened cm k"
        using sp(2) [of k] sp(3) [of k] that(1) \<open>ck_chanID k = ac_shortChanID ac \<longrightarrow> ck_htlcID k < start\<close> by metis
      finally show ?thesis .
    qed
    then show ?thesis
      using ih(1-4) False start t Cons.prems(3) trimmed_from_trans [OF sp(1) ih(4)] by (simp add: Let_def)
  qed
qed

text \<open>A start on the disk of \<open>cm\<close> that no database or key error disturbs.\<close>

definition start_ok :: "circuit_config \<Rightarrow> circuit_map \<Rightarrow> bool" where
  "start_ok cfg cm \<longleftrightarrow> cg_initOk cfg \<and> cg_cleanOk cfg \<and> cg_restoreOk cfg \<and> (\<forall>c. cg_trimOk cfg c) \<and>
     (\<exists>cs. cg_closedChannels cfg = Inr cs) \<and>
     (\<exists>acs. cg_openChannels cfg = Inr acs \<and> (\<forall>ac \<in> set acs. \<exists>i. ac_nextLocalHtlcIndex ac = Inr i)) \<and>
     (\<forall>b. dom b \<subseteq> dom (ct_adds cm) \<union> dom (ct_keystones cm) \<longrightarrow> enumerates cfg b) \<and>
     (\<forall>k a. ct_pending cm k = Some a \<longrightarrow> storable (cg_validKey cfg) (cg_extract cfg) (ct_heap cm a))"

definition closedChans :: "circuit_config \<Rightarrow> u64 set" where
  "closedChans cfg = (case cg_closedChannels cfg of Inl e \<Rightarrow> {} | Inr cs \<Rightarrow> closedSet cs)"

definition openChans :: "circuit_config \<Rightarrow> active_channel list" where
  "openChans cfg = (case cg_openChannels cfg of Inl e \<Rightarrow> [] | Inr acs \<Rightarrow> acs)"

text \<open>The circuit under this key belongs to a closed channel and is to be forgotten.\<close>

definition forgotten :: "circuit_config \<Rightarrow> circuit_map \<Rightarrow> circuit_key \<Rightarrow> bool" where
  "forgotten cfg cm k \<longleftrightarrow> isClosedChannel (closedChans cfg) (ck_chanID k) \<or>
     (\<exists>outK a. ct_opened cm outK = Some a \<and> pc_incoming (ct_heap cm a) = k \<and>
        isClosedChannel (closedChans cfg) (ck_chanID outK) \<and> \<not> cg_resolutionStored cfg outK)"

lemma buckets_of_map:
  assumes "mem_wf cm" "disk_wf cm"
  shows "buckets_hold (\<lambda>k. map_option (ct_heap cm) (ct_pending cm k))
     (\<lambda>outK. map_option (\<lambda>a. pc_incoming (ct_heap cm a)) (ct_opened cm outK)) (ct_adds cm) (ct_keystones cm)"
proof -
  note w = mem_wfD [OF assms(1)]
  have "o1 = o2" if "ct_opened cm o1 = Some a" "ct_opened cm o2 = Some b"
    "pc_incoming (ct_heap cm a) = pc_incoming (ct_heap cm b)" for o1 o2 a b
    using w(2) [OF that(1)] w(2) [OF that(2)] that(3) by (metis option.inject)
  moreover have "ran (\<lambda>outK. map_option (\<lambda>a. pc_incoming (ct_heap cm a)) (ct_opened cm outK))
      \<subseteq> dom (\<lambda>k. map_option (ct_heap cm) (ct_pending cm k))"
    using w(2) by (force simp: ran_def dom_def)
  ultimately show ?thesis
    using assms(2) w(1,7)
    by (auto simp: buckets_hold_def disk_wf_def addsImage_def keystonesImage_def map_option.compositionality comp_def)
qed

lemma bucket_of_dom:
  assumes "\<And>k. f k \<noteq> None \<Longrightarrow> g k \<noteq> None"
  shows "dom (bucket_of f) \<subseteq> dom (bucket_of g)"
  using assms by (auto simp: bucket_of_def dom_def split: sum.splits)

lemma newCircuitMap_spec:
  assumes "mem_wf cm" "disk_wf cm" "start_ok cfg cm"
  obtains cm' where "newCircuitMap cfg (ct_adds cm) (ct_keystones cm) = ((ct_adds cm', ct_keystones cm'), Inr cm')"
    "mem_wf cm'" "disk_wf cm'" "ct_closed cm' = {}"
    "\<And>k. ct_pending cm' k = None \<longleftrightarrow> ct_pending cm k = None \<or> forgotten cfg cm k"
    "\<And>k a a'. ct_pending cm' k = Some a' \<Longrightarrow> ct_pending cm k = Some a \<Longrightarrow>
       half (ct_heap cm' a') = half (ct_heap cm a) \<and> pc_loadedFromDisk (ct_heap cm' a')"
    "\<And>outK a'. ct_opened cm' outK = Some a' \<Longrightarrow>
       \<exists>a. ct_opened cm outK = Some a \<and> pc_incoming (ct_heap cm' a') = pc_incoming (ct_heap cm a)"
    "\<And>outK a. ct_opened cm outK = Some a \<Longrightarrow> \<not> forgotten cfg cm (pc_incoming (ct_heap cm a)) \<Longrightarrow>
       ct_opened cm \<lparr>ck_chanID = ck_chanID outK, ck_htlcID = - 1\<rparr> = None \<Longrightarrow> ck_chanID outK \<noteq> 0 \<Longrightarrow>
       keystone_committed (openChans cfg) outK \<Longrightarrow> ct_opened cm' outK \<noteq> None"
proof -
  note w = mem_wfD [OF assms(1)] and st = assms(3) [unfolded start_ok_def]
  have ok: "cg_initOk cfg" "cg_cleanOk cfg" "cg_restoreOk cfg" "\<forall>c. cg_trimOk cfg c" using st by blast+
  obtain cs acs where cs: "cg_closedChannels cfg = Inr cs" and acs: "cg_openChannels cfg = Inr acs"
    "\<forall>ac \<in> set acs. \<exists>i. ac_nextLocalHtlcIndex ac = Inr i" using st by blast
  have env: "closedChans cfg = closedSet cs" "openChans cfg = acs" by (simp_all add: closedChans_def openChans_def cs acs)
  let ?F = "\<lambda>k. map_option (ct_heap cm) (ct_pending cm k)"
  let ?G = "\<lambda>outK. map_option (\<lambda>a. pc_incoming (ct_heap cm a)) (ct_opened cm outK)"
  let ?F' = "\<lambda>k. if staleCircuit cfg (closedSet cs) ?G k then None else ?F k"
  let ?G' = "\<lambda>outK. case ?G outK of None \<Rightarrow> None
       | Some k \<Rightarrow> if staleKeystone cfg (closedSet cs) k outK then None else Some k"
  have stale: "staleCircuit cfg (closedSet cs) ?G k \<longleftrightarrow> forgotten cfg cm k" for k
    by (auto simp: staleCircuit_def staleKeystone_def forgotten_def env)
  have read: "readable cfg ?F" using st by (auto simp: readable_def ran_def)
  obtain adds' keystones' where cl: "cleanClosedChannels cfg (ct_adds cm) (ct_keystones cm) = Inr (adds', keystones')"
    "buckets_hold ?F' ?G' adds' keystones'"
    using clean_spec [OF buckets_of_map [OF assms(1,2)] read _ _ cs] st by auto
  have read': "readable cfg ?F'" using read by (auto simp: readable_def ran_def split: if_splits)
  have b: "ct_adds cm = bucket_of (\<lambda>k. map_option encodeCircuit (?F k))" "ct_keystones cm = bucket_of (\<lambda>k. map_option circuitKeyBytes (?G k))"
    "adds' = bucket_of (\<lambda>k. map_option encodeCircuit (?F' k))" "keystones' = bucket_of (\<lambda>k. map_option circuitKeyBytes (?G' k))"
    using cl(2) buckets_of_map [OF assms(1,2)] unfolding buckets_hold_def by blast+
  have en: "\<And>b. dom b \<subseteq> dom (ct_adds cm) \<union> dom (ct_keystones cm) \<Longrightarrow> enumerates cfg b"
    using st by blast
  have "dom adds' \<subseteq> dom (ct_adds cm)"
    unfolding b(1,3) by (rule bucket_of_dom) (auto split: if_splits)
  moreover have "dom keystones' \<subseteq> dom (ct_keystones cm)"
    unfolding b(2,4) by (rule bucket_of_dom) (auto split: if_splits option.splits)
  ultimately have "enumerates cfg adds'" "enumerates cfg keystones'"
    using en [of adds'] en [of keystones'] by (meson le_supI1 le_supI2)+
  then obtain cm1 where r: "restoreMemState cfg adds' keystones' = Inr cm1" "mem_wf cm1" "disk_wf cm1"
    "keystones_restored ?F' ?G' (dom ?G') cm1" "ct_closed cm1 = {}"
    by (rule restore_spec [OF cl(2) read' _ _ ok(3)])
  obtain cm' where t: "trimAllOpenCircuits cfg acs cm1 = (cm', None)" "mem_wf cm'" "disk_wf cm'" "trimmed_from cm1 cm'"
    "\<And>k. ct_opened cm1 \<lparr>ck_chanID = ck_chanID k, ck_htlcID = - 1\<rparr> = None \<Longrightarrow> ck_chanID k \<noteq> 0 \<Longrightarrow>
         keystone_committed acs k \<Longrightarrow> ct_opened cm' k = ct_opened cm1 k"
    using trimAll_spec [OF r(2,3) ok(4) acs(2)] by blast
  note kr = r(4) [unfolded keystones_restored_def] and tf = t(4) [unfolded trimmed_from_def]
  have o1: "ct_opened cm1 outK = (case ?G' outK of None \<Rightarrow> None | Some k \<Rightarrow> ct_pending cm1 k)" for outK
    using kr by (auto split: option.splits)
  have p1: "ct_pending cm1 k = None \<longleftrightarrow> ct_pending cm k = None \<or> forgotten cfg cm k" for k
  proof -
    have "dom (ct_pending cm1) = dom ?F'" using kr by blast
    then have "k \<in> dom (ct_pending cm1) \<longleftrightarrow> k \<in> dom ?F'" by (rule arg_cong)
    then have "ct_pending cm1 k \<noteq> None \<longleftrightarrow> ?F' k \<noteq> None" by (simp only: domIff)
    then show ?thesis unfolding stale by (cases "ct_pending cm k"; cases "forgotten cfg cm k") simp_all
  qed
  show ?thesis
  proof (rule that [of cm'])
    show "newCircuitMap cfg (ct_adds cm) (ct_keystones cm) = ((ct_adds cm', ct_keystones cm'), Inr cm')"
      by (simp add: newCircuitMap_def ok(1) cl(1) r(1) acs(1) t(1))
    show "mem_wf cm'" "disk_wf cm'" by (rule t(2), rule t(3))
    show "ct_closed cm' = {}" using tf r(5) by simp
    show "ct_pending cm' k = None \<longleftrightarrow> ct_pending cm k = None \<or> forgotten cfg cm k" for k
      using p1 [of k] tf by simp
    fix k a a' assume a: "ct_pending cm' k = Some a'" "ct_pending cm k = Some a"
    then have p: "ct_pending cm1 k = Some a'" using tf by simp
    then have "\<not> forgotten cfg cm k" using p1 [of k] by simp
    then have "?F' k = Some (ct_heap cm a)" using a(2) unfolding stale by simp
    then show "half (ct_heap cm' a') = half (ct_heap cm a) \<and> pc_loadedFromDisk (ct_heap cm' a')"
    proof -
      assume F: "?F' k = Some (ct_heap cm a)"
      have "half (ct_heap cm1 a') = half (the (?F' k))" "pc_loadedFromDisk (ct_heap cm1 a')" using kr p by blast+
      moreover have "half (ct_heap cm' a') = half (ct_heap cm1 a')"
        "pc_loadedFromDisk (ct_heap cm' a') = pc_loadedFromDisk (ct_heap cm1 a')" using tf by blast+
      ultimately show ?thesis using F by simp
    qed
  next
    fix outK a' assume o: "ct_opened cm' outK = Some a'"
    then have "ct_opened cm1 outK = Some a'" using tf by (metis option.distinct(1))
    then obtain k where k: "?G' outK = Some k" "ct_pending cm1 k = Some a'" by (auto simp: o1 split: option.splits)
    then obtain a where a: "ct_opened cm outK = Some a" "pc_incoming (ct_heap cm a) = k"
      by (auto split: option.splits if_splits)
    have "pc_incoming (ct_heap cm1 a') = k" using mem_wfD(1) [OF r(2) k(2)] by blast
    moreover have "pc_incoming (ct_heap cm' a') = pc_incoming (ct_heap cm1 a')" using tf half_fields(1) by metis
    ultimately show "\<exists>a. ct_opened cm outK = Some a \<and> pc_incoming (ct_heap cm' a') = pc_incoming (ct_heap cm a)"
      using a by auto
  next
    fix outK a assume a: "ct_opened cm outK = Some a" "\<not> forgotten cfg cm (pc_incoming (ct_heap cm a))"
      "ct_opened cm \<lparr>ck_chanID = ck_chanID outK, ck_htlcID = - 1\<rparr> = None" "ck_chanID outK \<noteq> 0"
      "keystone_committed (openChans cfg) outK"
    have "ct_opened cm1 \<lparr>ck_chanID = ck_chanID outK, ck_htlcID = - 1\<rparr> = None" using a(3) by (simp add: o1)
    then have "ct_opened cm' outK = ct_opened cm1 outK" using t(5) a(4,5) by (simp add: env)
    moreover have "ct_opened cm1 outK \<noteq> None"
    proof -
      have "\<not> staleKeystone cfg (closedSet cs) (pc_incoming (ct_heap cm a)) outK"
        using a(1,2) by (auto simp: staleKeystone_def forgotten_def env)
      then have "?G' outK = Some (pc_incoming (ct_heap cm a))" using a(1) by simp
      moreover have "ct_pending cm1 (pc_incoming (ct_heap cm a)) \<noteq> None" using p1 a(2) w(2) [OF a(1)] by simp
      ultimately show ?thesis by (simp add: o1)
    qed
    ultimately show "ct_opened cm' outK \<noteq> None" by simp
  qed
qed

end
