(* ===== verification/Circuit_Run.thy ===== *)
theory Circuit_Run
  imports Circuit_Restart
begin

text \<open>
  Runs of the circuit map and what they guarantee: memory and disk agree, a circuit is resolved once,
  duplicate HTLCs are recognised, keystones that were not committed are taken back.
\<close>

section \<open>Runs of the map\<close>

text \<open>
  The steps of a circuit map across restarts. A caller commits circuits it allocated and that no
  link has opened, and opens each circuit once, under a key of its own; a trimming reaches the disk;
  a restart succeeds.
\<close>

inductive circ_step :: "circuit_map \<Rightarrow> circuit_map \<Rightarrow> bool" where
  ci_new: "allocCircuit c cm = (cm', a) \<Longrightarrow> circ_step cm cm'"
| ci_commit: "\<forall>a \<in> set circuits. a < ct_next cm \<and> pc_outgoing (ct_heap cm a) = None \<Longrightarrow>
    commitCircuits dbOk cm circuits = (cm', actions, err) \<Longrightarrow> circ_step cm cm'"
| ci_open: "keystones_ok cm kss \<Longrightarrow> openCircuits dbOk cm kss = (cm', err) \<Longrightarrow> circ_step cm cm'"
| ci_trim: "trimOpenCircuits True cm chanID start = (cm', err) \<Longrightarrow> circ_step cm cm'"
| ci_fail: "failCircuit cm k = (cm', r) \<Longrightarrow> circ_step cm cm'"
| ci_close: "closeCircuit cm k = (cm', r) \<Longrightarrow> circ_step cm cm'"
| ci_delete: "deleteCircuits dbOk cm ks = (cm', err) \<Longrightarrow> circ_step cm cm'"
| ci_restart: "start_ok cfg cm \<Longrightarrow>
    newCircuitMap cfg (ct_adds cm) (ct_keystones cm) = (buckets, Inr cm') \<Longrightarrow> circ_step cm cm'"

abbreviation circuit_reach :: "circuit_map \<Rightarrow> bool" where
  "circuit_reach \<equiv> circ_step\<^sup>*\<^sup>* (emptyCircuitMap Map.empty Map.empty)"

lemma circ_step_wf:
  assumes "circ_step cm cm'" "mem_wf cm \<and> disk_wf cm"
  shows "mem_wf cm' \<and> disk_wf cm'"
  using assms(1)
proof (cases rule: circ_step.cases)
  case (ci_new c a)
  then show ?thesis using alloc_wf assms(2) by blast
next
  case (ci_commit circuits dbOk actions err)
  then show ?thesis using commit_wf [OF _ _ ci_commit(2,1)] assms(2) by blast
next
  case (ci_open kss dbOk err)
  then show ?thesis using open_wf [OF _ _ ci_open(2,1)] assms(2) by blast
next
  case (ci_trim chanID start err)
  then show ?thesis using trim_wf [OF _ _ ci_trim] assms(2) by blast
next
  case (ci_fail k r)
  then show ?thesis using closing_wf(1) assms(2) by blast
next
  case (ci_close k r)
  then show ?thesis using closing_wf(2) assms(2) by blast
next
  case (ci_delete dbOk ks err)
  then show ?thesis using delete_wf [OF _ _ ci_delete] assms(2) by blast
next
  case (ci_restart cfg buckets)
  have w: "mem_wf cm" "disk_wf cm" using assms(2) by blast+
  obtain cm1 where "newCircuitMap cfg (ct_adds cm) (ct_keystones cm) = ((ct_adds cm1, ct_keystones cm1), Inr cm1)"
    "mem_wf cm1" "disk_wf cm1"
    by (rule newCircuitMap_spec [OF w ci_restart(1)]) (rule that, assumption+)
  then show ?thesis using ci_restart(2) by simp
qed

lemma circuit_reach_wf:
  assumes "circuit_reach cm"
  shows "mem_wf cm" "disk_wf cm"
proof -
  have "bucket_of (\<lambda>k. None) = Map.empty" by (auto simp: bucket_of_def fun_eq_iff split: sum.splits)
  then have "disk_wf (emptyCircuitMap Map.empty Map.empty)"
    by (simp add: disk_wf_def emptyCircuitMap_def addsImage_def keystonesImage_def)
  then have "mem_wf (emptyCircuitMap Map.empty Map.empty) \<and> disk_wf (emptyCircuitMap Map.empty Map.empty)"
    using mem_wf_empty by blast
  with assms have "mem_wf cm \<and> disk_wf cm"
    by (induction rule: rtranclp_induct) (auto intro: circ_step_wf [THEN conjunct1] circ_step_wf [THEN conjunct2])
  then show "mem_wf cm" "disk_wf cm" by blast+
qed

section \<open>A concrete map\<close>

definition demo_circuit :: "byte \<Rightarrow> u64 \<Rightarrow> payment_circuit" where
  "demo_circuit h i = newPaymentCircuit (replicate 32 h) \<lparr>hp_incomingChanID = 5, hp_incomingHTLCID = i,
     hp_sourceRef = None, hp_incomingAmount = 1001, hp_amount = 1000, hp_obfuscator = None\<rparr>"

definition demo_in :: "u64 \<Rightarrow> circuit_key" where
  "demo_in i = \<lparr>ck_chanID = 5, ck_htlcID = i\<rparr>"

definition demo_out :: "u64 \<Rightarrow> circuit_key" where
  "demo_out i = \<lparr>ck_chanID = 6, ck_htlcID = i\<rparr>"

definition demo_map1 :: circuit_map where
  "demo_map1 = fst (commitCircuits True (fst (allocCircuit (demo_circuit 7 1) (emptyCircuitMap Map.empty Map.empty))) [0])"

definition demo_map2 :: circuit_map where
  "demo_map2 = fst (openCircuits True demo_map1 [\<lparr>ks_inKey = demo_in 1, ks_outKey = demo_out 0\<rparr>])"

lemmas circuit_defs = emptyCircuitMap_def allocCircuit_def commitCircuits_def openCircuits_def
  setKeystone_def addCircuitToHashIndex_def putCircuits_def putKeystones_def demo_circuit_def newPaymentCircuit_def
  inKey_def hasKeystone_def demo_in_def demo_out_def Let_def

lemma demo_map1:
  "ct_pending demo_map1 = [demo_in 1 \<mapsto> 0]" "ct_opened demo_map1 = Map.empty" "ct_heap demo_map1 0 = demo_circuit 7 1"
  "ct_next demo_map1 = 1" "ct_hashIndex demo_map1 = Map.empty" "ct_closed demo_map1 = {}"
  by (simp_all add: demo_map1_def circuit_defs)

lemma demo_map2:
  "ct_pending demo_map2 = [demo_in 1 \<mapsto> 0]" "ct_opened demo_map2 = [demo_out 0 \<mapsto> 0]"
  "ct_heap demo_map2 0 = (demo_circuit 7 1)\<lparr>pc_outgoing := Some (demo_out 0)\<rparr>" "ct_next demo_map2 = 1"
  "ct_hashIndex demo_map2 = [replicate 32 7 \<mapsto> {demo_out 0}]" "ct_closed demo_map2 = {}"
  by (simp_all add: demo_map2_def openCircuits_def demo_map1 setKeystone_def addCircuitToHashIndex_def Let_def outKey_def)
    (simp_all add: demo_circuit_def newPaymentCircuit_def)

lemma demo_key_simps [simp]:
  "demo_in i = demo_in j \<longleftrightarrow> i = j" "demo_out i = demo_out j \<longleftrightarrow> i = j" "demo_in i \<noteq> demo_out j" "demo_out i \<noteq> demo_in j"
  "demo_out i \<noteq> emptyCircuitKey" "pc_incoming (demo_circuit h i) = demo_in i" "pc_outgoing (demo_circuit h i) = None"
  "pc_paymentHash (demo_circuit h i) = replicate 32 h" "ck_chanID (demo_out i) = 6" "ck_htlcID (demo_out i) = i"
  "ck_chanID (demo_in i) = 5"
  by (simp_all add: demo_in_def demo_out_def emptyCircuitKey_def demo_circuit_def newPaymentCircuit_def)

lemma demo_reach1: "circuit_reach demo_map1"
proof -
  let ?cm = "fst (allocCircuit (demo_circuit 7 1) (emptyCircuitMap Map.empty Map.empty))"
  have "circ_step (emptyCircuitMap Map.empty Map.empty) ?cm"
    by (rule ci_new [of "demo_circuit 7 1" _ _ 0]) (simp add: allocCircuit_def emptyCircuitMap_def)
  moreover have "circ_step ?cm demo_map1"
    by (rule ci_commit [of "[0]" _ True]) (auto simp: demo_map1_def allocCircuit_def emptyCircuitMap_def commitCircuits_def Let_def)
  ultimately show ?thesis by (meson rtranclp.rtrancl_refl rtranclp.rtrancl_into_rtrancl)
qed

lemma demo_reach2: "circuit_reach demo_map2"
proof -
  have "circ_step demo_map1 demo_map2"
    by (rule ci_open [of _ "[\<lparr>ks_inKey = demo_in 1, ks_outKey = demo_out 0\<rparr>]" True _ None])
      (simp_all add: keystones_ok_def demo_map1 demo_map2_def openCircuits_def)
  with demo_reach1 show ?thesis by (rule rtranclp.rtrancl_into_rtrancl)
qed

section \<open>Memory and disk\<close>

text \<open>
  in every state the map can reach, over restarts, failed writes and trimmings, the indexes and
  the disk tell one story: each bucket holds exactly the circuits and keystones of the memory, a
  circuit is opened under a key exactly if it carries that key, only known circuits are closing, and
  every opened circuit is found by its payment hash.
\<close>

theorem circuit_map_mirrors_disk:
  assumes "circuit_reach cm"
  shows "(\<forall>k. ct_adds cm (circuitKeyBytes k) = map_option (\<lambda>a. encodeCircuit (ct_heap cm a)) (lookupCircuit cm k)) \<and>
    (\<forall>k. ct_keystones cm (circuitKeyBytes k)
        = map_option (\<lambda>a. circuitKeyBytes (inKey (ct_heap cm a))) (lookupOpenCircuit cm k)) \<and>
    (\<forall>k k' a. lookupCircuit cm k = Some a \<and> pc_outgoing (ct_heap cm a) = Some k' \<longleftrightarrow>
        lookupOpenCircuit cm k' = Some a \<and> inKey (ct_heap cm a) = k) \<and>
    ct_closed cm \<subseteq> dom (ct_pending cm) \<and>
    (\<forall>k a. lookupOpenCircuit cm k = Some a \<longrightarrow> a \<in> lookupByPaymentHash cm (pc_paymentHash (ct_heap cm a)))"
proof -
  note w = mem_wfD [OF circuit_reach_wf(1) [OF assms]]
  have "lookupCircuit cm k = Some a \<and> pc_outgoing (ct_heap cm a) = Some k' \<longleftrightarrow>
        lookupOpenCircuit cm k' = Some a \<and> inKey (ct_heap cm a) = k" for k k' a
    using w(1) [of k a] w(2) [of k' a] w(3) [of k a k'] by (auto simp: lookupCircuit_def lookupOpenCircuit_def inKey_def)
  moreover have "a \<in> lookupByPaymentHash cm (pc_paymentHash (ct_heap cm a))" if "lookupOpenCircuit cm k = Some a" for k a
    using w(5) [of k a] that
    by (auto simp: lookupOpenCircuit_def lookupByPaymentHash_def hset_def split: option.splits)
  ultimately show ?thesis
    using circuit_reach_wf(2) [OF assms] w(4)
    by (simp add: disk_wf_def addsImage_def keystonesImage_def lookupCircuit_def lookupOpenCircuit_def inKey_def)
qed

theorem circuit_map_mirrors_disk_witness:
  "ct_keystones demo_map2 (circuitKeyBytes (demo_out 0)) = Some (circuitKeyBytes (demo_in 1)) \<and>
   0 \<in> lookupByPaymentHash demo_map2 (replicate 32 7)"
proof -
  have o: "lookupOpenCircuit demo_map2 (demo_out 0) = Some 0" by (simp add: lookupOpenCircuit_def demo_map2)
  have "ct_keystones demo_map2 (circuitKeyBytes (demo_out 0)) = Some (circuitKeyBytes (inKey (ct_heap demo_map2 0)))"
    "0 \<in> lookupByPaymentHash demo_map2 (pc_paymentHash (ct_heap demo_map2 0))"
    using circuit_map_mirrors_disk [OF demo_reach2] o by auto
  then show ?thesis by (simp add: demo_map2 inKey_def)
qed

section \<open>Each circuit is resolved once\<close>

datatype circuit_op =
    OpNew payment_circuit
  | OpCommit bool "nat list"
  | OpOpen bool "keystone list"
  | OpTrim bool u64 u64
  | OpClose circuit_key
  | OpFail circuit_key
  | OpDelete bool "circuit_key list"

text \<open>The map after an operation, with the incoming key of the circuit that it closed.\<close>

fun execOp :: "circuit_op \<Rightarrow> circuit_map \<Rightarrow> circuit_map \<times> circuit_key option" where
  "execOp (OpNew c) cm = (fst (allocCircuit c cm), None)"
| "execOp (OpCommit dbOk circuits) cm = (fst (commitCircuits dbOk cm circuits), None)"
| "execOp (OpOpen dbOk kss) cm = (fst (openCircuits dbOk cm kss), None)"
| "execOp (OpTrim dbOk chanID start) cm = (fst (trimOpenCircuits dbOk cm chanID start), None)"
| "execOp (OpClose k) cm =
     (case closeCircuit cm k of
        (cm', Inr circuit) \<Rightarrow> (cm', Some (pc_incoming (ct_heap cm circuit)))
      | (cm', Inl err) \<Rightarrow> (cm', None))"
| "execOp (OpFail k) cm = (case failCircuit cm k of (cm', Inr circuit) \<Rightarrow> (cm', Some k) | (cm', Inl err) \<Rightarrow> (cm', None))"
| "execOp (OpDelete dbOk ks) cm = (fst (deleteCircuits dbOk cm ks), None)"

fun released :: "circuit_op \<Rightarrow> circuit_key set" where
  "released (OpDelete dbOk ks) = set ks"
| "released _ = {}"

fun runOps :: "('op \<Rightarrow> 's \<Rightarrow> 's \<times> 'k option) \<Rightarrow> 'op list \<Rightarrow> 's \<Rightarrow> 's \<times> 'k list" where
  "runOps exec [] s = (s, [])"
| "runOps exec (op # ops) s =
     (case exec op s of
        (s1, r) \<Rightarrow> (case runOps exec ops s1 of (s2, ks) \<Rightarrow> (s2, case r of None \<Rightarrow> ks | Some k \<Rightarrow> k # ks)))"

text \<open>
  What the switch relies on when it turns settles and fails into packets: closing marks a key that
  was not marked, and a mark stays until its circuit is deleted.
\<close>

locale resolver =
  fixes exec :: "'op \<Rightarrow> 's \<Rightarrow> 's \<times> 'k option"
    and closing :: "'s \<Rightarrow> 'k set"
    and releases :: "'op \<Rightarrow> 'k set"
  assumes closes: "exec op s = (s', Some k) \<Longrightarrow> k \<notin> closing s \<and> k \<in> closing s'"
    and keeps: "exec op s = (s', r) \<Longrightarrow> k \<in> closing s \<Longrightarrow> k \<notin> releases op \<Longrightarrow> k \<in> closing s'"
begin

lemma closed_at_most_once:
  assumes "runOps exec ops s = (s', ks)" "\<forall>op \<in> set ops. k \<notin> releases op"
  shows "count_list ks k \<le> (if k \<in> closing s then 0 else 1)"
  using assms
proof (induction ops arbitrary: s ks)
  case (Cons op ops)
  obtain s1 r where r: "exec op s = (s1, r)" by fastforce
  obtain ks1 where ks: "runOps exec ops s1 = (s', ks1)" "ks = (case r of None \<Rightarrow> ks1 | Some k \<Rightarrow> k # ks1)"
    using Cons.prems(1) r by (auto split: prod.splits)
  have ih: "count_list ks1 k \<le> (if k \<in> closing s1 then 0 else 1)" using Cons ks(1) by auto
  have keep: "k \<in> closing s \<Longrightarrow> k \<in> closing s1" using keeps [OF r] Cons.prems(2) by simp
  show ?case
  proof (cases "r = Some k")
    case True
    then show ?thesis using closes [of op s s1 k] r ih ks(2) by simp
  next
    case False
    then have "count_list ks k = count_list ks1 k" using ks(2) by (cases r) auto
    then show ?thesis using ih keep by (auto split: if_splits)
  qed
qed simp

end

lemma removeCircuits_closed:
  "removeCircuits cm ks = (cm', closing, removed) \<Longrightarrow> k \<in> ct_closed cm \<Longrightarrow> k \<notin> set ks \<Longrightarrow> k \<in> ct_closed cm'"
proof (induction ks arbitrary: cm closing removed)
  case (Cons x ks)
  show ?case
  proof (cases "ct_pending cm x")
    case (Some a)
    define cm2 where "cm2 = (if hasKeystone (ct_heap cm a)
      then removeCircuitFromHashIndex (cm\<lparr>ct_pending := (ct_pending cm)(x := None), ct_closed := ct_closed cm - {x},
             ct_opened := (ct_opened cm)(outKey (ct_heap cm a) := None)\<rparr>) (ct_heap cm a)
      else cm\<lparr>ct_pending := (ct_pending cm)(x := None), ct_closed := ct_closed cm - {x}\<rparr>)"
    obtain closing' removed' where "removeCircuits cm2 ks = (cm', closing', removed')"
      using Cons.prems(1) Some by (cases "removeCircuits cm2 ks") (auto simp: cm2_def Let_def split: if_splits)
    moreover have "k \<in> ct_closed cm2" using Cons.prems(2,3) by (simp add: cm2_def)
    ultimately show ?thesis using Cons.IH Cons.prems(3) by auto
  qed (use Cons in auto)
qed simp

lemma restoreRemoved_closed: "k \<in> ct_closed cm \<Longrightarrow> k \<in> ct_closed (foldl (restoreRemoved closing) cm R)"
proof (induction R arbitrary: cm)
  case (Cons e R)
  have "k \<in> ct_closed (restoreRemoved closing cm e)"
    using Cons.prems by (cases e) (auto simp: restoreRemoved_def Let_def)
  then show ?case using Cons.IH by simp
qed simp

lemma reconcile_closed: "reconcile cm circuits = (cm', r) \<Longrightarrow> ct_closed cm' = ct_closed cm"
  by (cases r) (use reconcile_frame(1) in fastforce)

lemma setKeystones_closed:
  "ct_closed (foldl (\<lambda>cm (a, ks). setKeystone cm a ks) cm zs) = ct_closed cm"
  by (induction zs arbitrary: cm) (auto simp: setKeystone_def Let_def)

lemma trimLoop_closed: "trimLoop chanID i cm = (cm', keys) \<Longrightarrow> ct_closed cm' = ct_closed cm"
proof (induction chanID i cm arbitrary: cm' keys rule: trimLoop.induct)
  case (1 chanID i cm)
  show ?case
  proof (cases "ct_opened cm \<lparr>ck_chanID = chanID, ck_htlcID = i\<rparr>")
    case None
    then show ?thesis using "1.prems" by (simp add: trimLoop.simps [of chanID i cm])
  next
    case (Some a)
    show ?thesis using "1.prems" Some "1.IH" [OF refl Some refl refl]
      by (auto simp: trimLoop.simps [of chanID i cm] Let_def split: prod.splits)
  qed
qed

interpretation circuits: resolver execOp ct_closed released
proof
  fix op cm cm' k assume "execOp op cm = (cm', Some k)"
  then show "k \<notin> ct_closed cm \<and> k \<in> ct_closed cm'"
    by (cases op) (auto simp: closeCircuit_def failCircuit_def Let_def split: prod.splits sum.splits option.splits if_splits)
next
  fix op cm cm' r k assume e: "execOp op cm = (cm', r)" "k \<in> ct_closed cm" "k \<notin> released op"
  show "k \<in> ct_closed cm'"
  proof (cases op)
    case (OpCommit dbOk circuits)
    then show ?thesis using e reconcile_closed [of cm circuits]
      by (cases "reconcile cm circuits") (auto simp: commitCircuits_def dropPending_def split: if_splits)
  next
    case (OpOpen dbOk kss)
    then show ?thesis using e
      by (auto simp: openCircuits_def setKeystones_closed split: if_splits sum.splits)
  next
    case (OpTrim dbOk chanID start)
    then show ?thesis using e trimLoop_closed [of chanID start cm]
      by (cases "trimLoop chanID start cm") (auto simp: trimOpenCircuits_def split: if_splits)
  next
    case (OpDelete dbOk ks)
    obtain cm1 closing removed where r: "removeCircuits cm ks = (cm1, closing, removed)"
      by (cases "removeCircuits cm ks") auto
    have "k \<in> ct_closed cm1" using removeCircuits_closed [OF r] e OpDelete by simp
    then show ?thesis using e(1) OpDelete restoreRemoved_closed
      by (auto simp: deleteCircuits_def r deleteRemoved_def Let_def split: if_splits)
  qed (use e in \<open>auto simp: allocCircuit_def closeCircuit_def failCircuit_def Let_def
         split: prod.splits sum.splits option.splits if_splits\<close>)
qed

text \<open>
  C2: no matter how settles, fails, commits, openings, trimmings and failed writes interleave, a
  circuit is handed out for its resolution at most once until it is deleted, and not at all if it
  was closing already; so no HTLC is settled or failed back twice.
\<close>

theorem circuit_closed_once:
  assumes "runOps execOp ops cm = (cm', closed_keys)" "\<forall>op \<in> set ops. k \<notin> released op"
  shows "count_list closed_keys k \<le> (if k \<in> ct_closed cm then 0 else 1)"
  using assms by (rule circuits.closed_at_most_once)

theorem circuit_closed_once_witness:
  "(case runOps execOp [OpClose (demo_out 0), OpFail (demo_in 1), OpTrim True 9 0, OpClose (demo_out 0)] demo_map2 of
      (cm', closed_keys) \<Rightarrow> closed_keys = [demo_in 1] \<and> count_list closed_keys (demo_in 1) \<le> 1)"
proof -
  let ?ops = "[OpClose (demo_out 0), OpFail (demo_in 1), OpTrim True 9 0, OpClose (demo_out 0)]"
  obtain cm' ks where r: "runOps execOp ?ops demo_map2 = (cm', ks)" by fastforce
  have "ks = [demo_in 1]"
    using r by (simp add: closeCircuit_def failCircuit_def trimOpenCircuits_def trimLoop.simps [of 9 0] Let_def demo_map2
        demo_out_def)
  then show ?thesis using circuit_closed_once [OF r, of "demo_in 1"] r by (simp add: demo_map2)
qed

lemma fold_add_hit:
  assumes "distinct (map (key \<circ> heap) as)" "a \<in> set as"
  shows "foldl (\<lambda>m a. m(key (heap a) \<mapsto> a)) p as (key (heap a)) = Some a"
  using assms
proof (induction as arbitrary: p rule: rev_induct)
  case (snoc x xs)
  then show ?case by (cases "a = x") (auto simp: image_iff)
qed simp

section \<open>Duplicates\<close>

text \<open>
  what becomes of each HTLC that a link hands over. The ones that are the first with their key are
  added, those whose earlier packet was lost in a restart are failed back, all others dropped, each
  list in the order of the batch; and if the circuits cannot be written, the map is unchanged and
  everything but the dropped is failed back.
\<close>

theorem commit_decides:
  assumes "commitCircuits dbOk cm circuits = (cm', actions, err)"
    and "\<forall>a \<in> set circuits. \<not> pc_loadedFromDisk (ct_heap cm a)"
  shows "fa_drops actions = pick circuits (\<lambda>i. \<not> firstSeen cm circuits i \<and> \<not> lostInRestart cm circuits i) \<and>
    (if dbOk \<or> pick circuits (firstSeen cm circuits) = []
     then err = None \<and> fa_adds actions = pick circuits (firstSeen cm circuits) \<and>
          fa_fails actions = pick circuits (lostInRestart cm circuits) \<and>
          (\<forall>a \<in> set (fa_adds actions). lookupCircuit cm' (inKey (ct_heap cm a)) = Some a)
     else cm' = cm \<and> err = Some CircuitDbFailed \<and> fa_adds actions = [] \<and>
          fa_fails actions = pick circuits (\<lambda>i. firstSeen cm circuits i \<or> lostInRestart cm circuits i))"
proof -
  obtain cm1 adds drops fails addFails where r: "reconcile cm circuits = (cm1, adds, drops, fails, addFails)"
    by (cases "reconcile cm circuits") auto
  note f = reconcile_frame [OF r] and d = reconcile_decides [OF r assms(2)]
  have added: "ct_pending cm1 (inKey (ct_heap cm a)) = Some a" if "a \<in> set adds" for a
    unfolding f(1) using fold_add_hit [OF f(2) that, of "ct_pending cm"] by simp
  have "cm' = cm" if "adds \<noteq> []" "\<not> dbOk"
    using assms(1) fold_drop [OF f(2), of "ct_pending cm"] f(3) that
    by (auto simp: commitCircuits_def r f(1) dropPending_def comp_def)
  then show ?thesis
    using assms(1) d [symmetric] added
    by (auto simp: commitCircuits_def r lookupCircuit_def split: if_splits)
qed

text \<open>A link that flaps hands over its HTLC again, twice, with a new one in between.\<close>

definition demo_map3 :: circuit_map where
  "demo_map3 = fst (allocCircuit (demo_circuit 8 2) (fst (allocCircuit (demo_circuit 7 1) demo_map1)))"

theorem commit_decides_witness:
  "(case commitCircuits True demo_map3 [1, 2, 1] of
      (cm', actions, err) \<Rightarrow> fa_drops actions = [1, 1] \<and> fa_adds actions = [2] \<and> fa_fails actions = [] \<and>
        lookupCircuit cm' (demo_in 2) = Some 2)"
proof -
  have m: "ct_heap demo_map3 (Suc 0) = demo_circuit 7 1" "ct_heap demo_map3 2 = demo_circuit 8 2"
    "ct_heap demo_map3 0 = demo_circuit 7 1" "ct_pending demo_map3 = [demo_in 1 \<mapsto> 0]"
    by (simp_all add: demo_map3_def allocCircuit_def demo_map1)
  have l: "\<not> pc_loadedFromDisk (demo_circuit h i)" for h i by (simp add: demo_circuit_def newPaymentCircuit_def)
  obtain cm' actions err where c: "commitCircuits True demo_map3 [1, 2, 1] = (cm', actions, err)" by (metis prod_cases3)
  have p: "pick [Suc 0, 2, Suc 0] (firstSeen demo_map3 [Suc 0, 2, Suc 0]) = [2]"
    "pick [Suc 0, 2, Suc 0] (\<lambda>i. \<not> firstSeen demo_map3 [Suc 0, 2, Suc 0] i \<and> \<not> lostInRestart demo_map3 [Suc 0, 2, Suc 0] i)
       = [Suc 0, Suc 0]"
    "pick [Suc 0, 2, Suc 0] (lostInRestart demo_map3 [Suc 0, 2, Suc 0]) = []"
    by (simp_all add: firstSeen_def lostInRestart_def keyAt_def m l less_Suc_eq)
  show ?thesis
    using commit_decides [OF c] unfolding One_nat_def p using c by (auto simp: m l inKey_def)
qed

section \<open>Trimming\<close>

text \<open>
  C38: trimming a channel from the next index it has not committed ends and takes back exactly the
  longest run of keystones from there on, in memory and on disk; the circuits stay, half-open, ready
  to be forwarded again, and no other circuit is touched.
\<close>

theorem trim_takes_back_keystones:
  assumes "circuit_reach cm" "trimOpenCircuits True cm chanID start = (cm', err)"
  shows "err = None \<and>
    (\<exists>n. (\<forall>j < n. lookupOpenCircuit cm (outgoingKey chanID start j) \<noteq> None) \<and>
         lookupOpenCircuit cm' (outgoingKey chanID start n) = None \<and>
         (\<forall>k. if k \<in> outgoingKey chanID start ` {..<n}
              then lookupOpenCircuit cm' k = None \<and> ct_keystones cm' (circuitKeyBytes k) = None \<and>
                   (\<forall>a. lookupOpenCircuit cm k = Some a \<longrightarrow> pc_outgoing (ct_heap cm' a) = None)
              else lookupOpenCircuit cm' k = lookupOpenCircuit cm k \<and>
                   ct_keystones cm' (circuitKeyBytes k) = ct_keystones cm (circuitKeyBytes k))) \<and>
    (\<forall>k. lookupCircuit cm' k = lookupCircuit cm k) \<and> ct_adds cm' = ct_adds cm"
proof -
  note w = circuit_reach_wf [OF assms(1)]
  obtain cm1 keys where t: "trimLoop chanID start cm = (cm1, keys)" by fastforce
  note s = trimLoop_spec [OF w(1) t] and w' = trim_wf [OF w assms(2)]
  have c: "cm' = cm1\<lparr>ct_keystones := deleteKeys keys (ct_keystones cm1)\<rparr>"
    using assms(2) by (auto simp: trimOpenCircuits_def t deleteKeys_def split: if_splits)
  have keys: "set keys = outgoingKey chanID start ` {..<length keys}"
  proof -
    have "keys = map (outgoingKey chanID start) [0..<length keys]" using s by blast
    then have "set keys = set (map (outgoingKey chanID start) [0..<length keys])" by simp
    then show ?thesis by (simp add: lessThan_atLeast0)
  qed
  have o: "ct_opened cm' k = (if k \<in> set keys then None else ct_opened cm k)" for k using s by (simp add: c)
  have "ct_keystones cm' = deleteKeys keys (bucket_of (keystonesImage cm))" using s w(2) by (simp add: c disk_wf_def)
  then have ks: "ct_keystones cm' (circuitKeyBytes k) = (if k \<in> set keys then None else ct_keystones cm (circuitKeyBytes k))" for k
    using w(2) by (simp add: deleteKeys_of disk_wf_def)
  have h: "pc_outgoing (ct_heap cm' a) = None" if "k \<in> set keys" "ct_opened cm k = Some a" for k a
  proof -
    have "ct_heap cm' = (\<lambda>a. if \<exists>k \<in> set keys. ct_opened cm k = Some a
                        then (ct_heap cm a)\<lparr>pc_outgoing := None\<rparr> else ct_heap cm a)" using s by (simp add: c)
    then show ?thesis using that by auto
  qed
  have open_before: "ct_opened cm (outgoingKey chanID start j) \<noteq> None" if "j < length keys" for j
    using s keys that by blast
  have stop: "ct_opened cm' (outgoingKey chanID start (length keys)) = None"
  proof -
    have "ct_opened cm1 (outgoingKey chanID start (length keys)) = None" using s by blast
    then show ?thesis by (simp add: c)
  qed
  have same: "ct_pending cm' = ct_pending cm" "ct_adds cm' = ct_adds cm" using s by (simp_all add: c)
  show ?thesis unfolding lookupCircuit_def lookupOpenCircuit_def same
    using w'(3) open_before stop by (intro conjI exI [of _ "length keys"]) (auto simp: o ks keys [symmetric] h)
qed

theorem trim_takes_back_keystones_witness:
  "(case trimOpenCircuits True demo_map2 6 0 of
      (cm', err) \<Rightarrow> err = None \<and> lookupOpenCircuit demo_map2 (demo_out 0) = Some 0 \<and>
        lookupOpenCircuit cm' (demo_out 0) = None \<and> lookupCircuit cm' (demo_in 1) = Some 0)"
proof -
  obtain cm' err where t: "trimOpenCircuits True demo_map2 6 0 = (cm', err)" by fastforce
  obtain n where n: "err = None"
    "\<And>k. k \<in> outgoingKey 6 0 ` {..<n} \<Longrightarrow> lookupOpenCircuit cm' k = None"
    "lookupOpenCircuit cm' (outgoingKey 6 0 n) = None" "\<And>k. lookupCircuit cm' k = lookupCircuit demo_map2 k"
    using trim_takes_back_keystones [OF demo_reach2 t] by meson
  have "outgoingKey 6 0 0 = demo_out 0" by (simp add: outgoingKey_def demo_out_def)
  then have "lookupOpenCircuit cm' (demo_out 0) = None"
  proof (cases n)
    case (Suc m)
    then have "demo_out 0 \<in> outgoingKey 6 0 ` {..<n}" using \<open>outgoingKey 6 0 0 = demo_out 0\<close> by (metis image_eqI lessThan_iff zero_less_Suc)
    then show ?thesis by (rule n(2))
  qed (use n(3) \<open>outgoingKey 6 0 0 = demo_out 0\<close> in simp)
  then show ?thesis using n by (simp add: t lookupOpenCircuit_def lookupCircuit_def demo_map2)
qed

section \<open>Restart\<close>

text \<open>
  C26: a restart loses no circuit that is still needed and no data of one. Starting on the disk of any
  reachable state succeeds; exactly the circuits of closed channels are gone (an incoming one, or an
  outgoing one with no resolution message waiting); every other circuit is there with all its fields,
  marked as loaded; keystones are those from before, none is lost below the next committed index of
  its channel, and the new map is a reachable state.
\<close>

theorem circuits_survive_restart:
  assumes "circuit_reach cm" "start_ok cfg cm"
  shows "\<exists>cm'. newCircuitMap cfg (ct_adds cm) (ct_keystones cm) = ((ct_adds cm', ct_keystones cm'), Inr cm') \<and>
    circuit_reach cm' \<and> ct_closed cm' = {} \<and>
    (\<forall>k. lookupCircuit cm' k = None \<longleftrightarrow> lookupCircuit cm k = None \<or> forgotten cfg cm k) \<and>
    (\<forall>k a a'. lookupCircuit cm' k = Some a' \<longrightarrow> lookupCircuit cm k = Some a \<longrightarrow>
       half (ct_heap cm' a') = half (ct_heap cm a) \<and> pc_loadedFromDisk (ct_heap cm' a')) \<and>
    (\<forall>outK a'. lookupOpenCircuit cm' outK = Some a' \<longrightarrow>
       (\<exists>a. lookupOpenCircuit cm outK = Some a \<and> inKey (ct_heap cm' a') = inKey (ct_heap cm a))) \<and>
    (\<forall>outK a. lookupOpenCircuit cm outK = Some a \<longrightarrow> \<not> forgotten cfg cm (inKey (ct_heap cm a)) \<longrightarrow>
       lookupOpenCircuit cm \<lparr>ck_chanID = ck_chanID outK, ck_htlcID = - 1\<rparr> = None \<longrightarrow> ck_chanID outK \<noteq> 0 \<longrightarrow>
       keystone_committed (openChans cfg) outK \<longrightarrow> lookupOpenCircuit cm' outK \<noteq> None)"
proof -
  note w = circuit_reach_wf [OF assms(1)]
  obtain cm' where c: "newCircuitMap cfg (ct_adds cm) (ct_keystones cm) = ((ct_adds cm', ct_keystones cm'), Inr cm')"
    "ct_closed cm' = {}"
    "\<And>k. ct_pending cm' k = None \<longleftrightarrow> ct_pending cm k = None \<or> forgotten cfg cm k"
    "\<And>k a a'. ct_pending cm' k = Some a' \<Longrightarrow> ct_pending cm k = Some a \<Longrightarrow>
       half (ct_heap cm' a') = half (ct_heap cm a) \<and> pc_loadedFromDisk (ct_heap cm' a')"
    "\<And>outK a'. ct_opened cm' outK = Some a' \<Longrightarrow>
       \<exists>a. ct_opened cm outK = Some a \<and> pc_incoming (ct_heap cm' a') = pc_incoming (ct_heap cm a)"
    "\<And>outK a. ct_opened cm outK = Some a \<Longrightarrow> \<not> forgotten cfg cm (pc_incoming (ct_heap cm a)) \<Longrightarrow>
       ct_opened cm \<lparr>ck_chanID = ck_chanID outK, ck_htlcID = - 1\<rparr> = None \<Longrightarrow> ck_chanID outK \<noteq> 0 \<Longrightarrow>
       keystone_committed (openChans cfg) outK \<Longrightarrow> ct_opened cm' outK \<noteq> None"
    by (rule newCircuitMap_spec [OF w assms(2)]) (rule that, assumption+)
  have "circuit_reach cm'"
    using assms(1) ci_restart [OF assms(2) c(1)] by (rule rtranclp.rtrancl_into_rtrancl)
  then show ?thesis unfolding lookupCircuit_def lookupOpenCircuit_def inKey_def using c by blast
qed

text \<open>The daemon restarts with an HTLC in flight; its outgoing channel has committed index 0.\<close>

definition demo_cfg :: circuit_config where
  "demo_cfg = \<lparr>cg_validKey = (\<lambda>key. True), cg_extract = (\<lambda>key. True),
     cg_entries = (\<lambda>b. List.map_filter (\<lambda>k. map_option (Pair k) (b k)) [circuitKeyBytes (demo_in 1), circuitKeyBytes (demo_out 0)]),
     cg_closedChannels = Inr [(9, False)],
     cg_openChannels = Inr [\<lparr>ac_isPending = False, ac_shortChanID = 6, ac_nextLocalHtlcIndex = Inr 1\<rparr>],
     cg_resolutionStored = (\<lambda>k. False), cg_initOk = True, cg_cleanOk = True, cg_restoreOk = True, cg_trimOk = (\<lambda>c. True)\<rparr>"

lemma demo_start: "start_ok demo_cfg demo_map2"
proof -
  note d = circuit_reach_wf(2) [OF demo_reach2]
  have dom: "dom (ct_adds demo_map2) \<union> dom (ct_keystones demo_map2) \<subseteq> {circuitKeyBytes (demo_in 1), circuitKeyBytes (demo_out 0)}"
    using d by (auto simp: disk_wf_def bucket_of_def addsImage_def keystonesImage_def demo_map2 setBytes_iff
        split: sum.splits if_splits)
  have "enumerates demo_cfg b" if "dom b \<subseteq> dom (ct_adds demo_map2) \<union> dom (ct_keystones demo_map2)" for b
  proof -
    have "dom b \<subseteq> {circuitKeyBytes (demo_in 1), circuitKeyBytes (demo_out 0)}" using that dom by blast
    then show ?thesis
      by (auto simp: enumerates_def demo_cfg_def List.map_filter_def split: if_splits)
  qed
  moreover have "storable (cg_validKey demo_cfg) (cg_extract demo_cfg) (ct_heap demo_map2 a)"
    if "ct_pending demo_map2 k = Some a" for k a
  proof -
    have "a = 0" using that by (auto simp: demo_map2 split: if_splits)
    then show ?thesis by (simp add: demo_map2 storable_def demo_circuit_def newPaymentCircuit_def)
  qed
  ultimately show ?thesis by (auto simp: start_ok_def demo_cfg_def)
qed

theorem circuits_survive_restart_witness:
  "\<exists>cm'. newCircuitMap demo_cfg (ct_adds demo_map2) (ct_keystones demo_map2) = ((ct_adds cm', ct_keystones cm'), Inr cm') \<and>
     lookupOpenCircuit cm' (demo_out 0) \<noteq> None \<and> lookupCircuit cm' (demo_in 1) \<noteq> None"
proof -
  have nf: "\<not> forgotten demo_cfg demo_map2 (demo_in 1)"
    by (auto simp: forgotten_def closedChans_def demo_cfg_def closedSet_def isClosedChannel_def demo_map2 split: if_splits)
  have kc: "keystone_committed (openChans demo_cfg) (demo_out 0)"
    by (simp add: keystone_committed_def openChans_def demo_cfg_def)
  have o: "lookupOpenCircuit demo_map2 (demo_out 0) = Some 0" "lookupCircuit demo_map2 (demo_in 1) = Some 0"
    "lookupOpenCircuit demo_map2 \<lparr>ck_chanID = 6, ck_htlcID = - 1\<rparr> = None" "inKey (ct_heap demo_map2 0) = demo_in 1"
    by (simp_all add: lookupOpenCircuit_def lookupCircuit_def demo_map2 inKey_def demo_out_def)
  obtain cm' where c: "newCircuitMap demo_cfg (ct_adds demo_map2) (ct_keystones demo_map2) = ((ct_adds cm', ct_keystones cm'), Inr cm')"
    "\<forall>k. lookupCircuit cm' k = None \<longleftrightarrow> lookupCircuit demo_map2 k = None \<or> forgotten demo_cfg demo_map2 k"
    "\<forall>outK a. lookupOpenCircuit demo_map2 outK = Some a \<longrightarrow> \<not> forgotten demo_cfg demo_map2 (inKey (ct_heap demo_map2 a)) \<longrightarrow>
       lookupOpenCircuit demo_map2 \<lparr>ck_chanID = ck_chanID outK, ck_htlcID = - 1\<rparr> = None \<longrightarrow> ck_chanID outK \<noteq> 0 \<longrightarrow>
       keystone_committed (openChans demo_cfg) outK \<longrightarrow> lookupOpenCircuit cm' outK \<noteq> None"
    using circuits_survive_restart [OF demo_reach2 demo_start] by blast
  have "lookupOpenCircuit cm' (demo_out 0) \<noteq> None"
    using c(3) [rule_format, of "demo_out 0" 0] o nf kc by simp
  moreover have "lookupCircuit cm' (demo_in 1) \<noteq> None" using c(2) o(2) nf by simp
  ultimately show ?thesis using c(1) by blast
qed

section \<open>The abstract map\<close>

text \<open>
  The specification: a finite map from incoming keys to a circuit and whether it is closing. Opening
  writes a key into a circuit, deleting removes circuits, closing sets the mark.
\<close>

type_synonym circuit_spec = "circuit_key \<rightharpoonup> payment_circuit \<times> bool"

definition abs_map :: "circuit_map \<Rightarrow> circuit_spec" where
  "abs_map cm = (\<lambda>k. map_option (\<lambda>a. (ct_heap cm a, k \<in> ct_closed cm)) (ct_pending cm k))"

definition spec_open :: "keystone list \<Rightarrow> circuit_spec \<Rightarrow> circuit_spec" where
  "spec_open kss m = foldl (\<lambda>m ks. m(ks_inKey ks :=
      map_option (\<lambda>(c, closing). (c\<lparr>pc_outgoing := Some (ks_outKey ks)\<rparr>, closing)) (m (ks_inKey ks)))) m kss"

definition spec_find :: "circuit_key \<Rightarrow> circuit_spec \<Rightarrow> circuit_key set" where
  "spec_find outK m = {k. \<exists>c closing. m k = Some (c, closing) \<and> pc_outgoing c = Some outK}"

definition spec_mark :: "circuit_key \<Rightarrow> circuit_spec \<Rightarrow> circuit_spec" where
  "spec_mark k m = m(k := map_option (\<lambda>(c, closing). (c, True)) (m k))"

definition spec_delete :: "circuit_key list \<Rightarrow> circuit_spec \<Rightarrow> circuit_spec" where
  "spec_delete ks m = (\<lambda>k. if k \<in> set ks then None else m k)"

text \<open>Why opening is refused: the first keystone whose key is in use or whose circuit is unknown decides.\<close>

fun spec_refuses :: "circuit_spec \<Rightarrow> keystone list \<Rightarrow> circuit_error option" where
  "spec_refuses m [] = None"
| "spec_refuses m (ks # kss) =
     (if spec_find (ks_outKey ks) m \<noteq> {} then Some ErrDuplicateKeystone
      else if m (ks_inKey ks) = None then Some ErrUnknownCircuit
      else spec_refuses m kss)"

lemma setKeystone_abs:
  assumes "\<And>k. ct_pending cm k = Some a \<Longrightarrow> k = ks_inKey ks" "ct_pending cm (ks_inKey ks) = Some a"
  shows "abs_map (setKeystone cm a ks) = spec_open [ks] (abs_map cm)"
proof
  fix k
  have "ct_pending cm k \<noteq> Some a" if "k \<noteq> ks_inKey ks" using assms(1) that by blast
  then show "abs_map (setKeystone cm a ks) k = spec_open [ks] (abs_map cm) k"
    using assms(2) by (cases "ct_pending cm k") (auto simp: abs_map_def spec_open_def setKeystone_def Let_def)
qed

lemma setKeystones_abs:
  assumes "\<And>k k' a. ct_pending cm k = Some a \<Longrightarrow> ct_pending cm k' = Some a \<Longrightarrow> k = k'"
    and "length circuits = length kss" "\<forall>(a, ks) \<in> set (zip circuits kss). ct_pending cm (ks_inKey ks) = Some a"
  shows "abs_map (foldl (\<lambda>cm (a, ks). setKeystone cm a ks) cm (zip circuits kss)) = spec_open kss (abs_map cm) \<and>
    ct_opened (foldl (\<lambda>cm (a, ks). setKeystone cm a ks) cm (zip circuits kss))
      = foldl (\<lambda>m ks. m(ks_outKey ks := ct_pending cm (ks_inKey ks))) (ct_opened cm) kss"
  using assms
proof (induction kss arbitrary: cm circuits)
  case (Cons ks kss)
  then obtain a as where c: "circuits = a # as" by (cases circuits) auto
  have p: "ct_pending cm (ks_inKey ks) = Some a" using Cons.prems(3) c by auto
  have f: "ct_pending (setKeystone cm a ks) = ct_pending cm"
    "ct_opened (setKeystone cm a ks) = (ct_opened cm)(ks_outKey ks := ct_pending cm (ks_inKey ks))"
    using p by (simp_all add: setKeystone_def Let_def)
  have "\<And>k. ct_pending cm k = Some a \<Longrightarrow> k = ks_inKey ks" using Cons.prems(1) p by blast
  note m = setKeystone_abs [OF this p]
  show ?case
    using Cons.IH [of "setKeystone cm a ks" as] Cons.prems c by (simp add: f m) (simp add: spec_open_def)
qed (simp add: spec_open_def)

lemma spec_find_opened:
  assumes "mem_wf cm"
  shows "spec_find outK (abs_map cm) = {} \<longleftrightarrow> ct_opened cm outK = None"
proof (cases "ct_opened cm outK")
  case None
  then show ?thesis using mem_wfD(3) [OF assms] by (auto simp: spec_find_def abs_map_def)
next
  case (Some a)
  note o = mem_wfD(2) [OF assms Some]
  have "pc_incoming (ct_heap cm a) \<in> spec_find outK (abs_map cm)" using o by (simp add: spec_find_def abs_map_def)
  then show ?thesis using Some by auto
qed

lemma findUnopened_refuses:
  assumes "mem_wf cm"
  shows "(case findUnopened cm kss of Inl err \<Rightarrow> Some err | Inr circuits \<Rightarrow> None) = spec_refuses (abs_map cm) kss"
proof (induction kss)
  case (Cons ks kss)
  have abs: "abs_map cm k = None \<longleftrightarrow> ct_pending cm k = None" for k by (simp add: abs_map_def)
  show ?case
    by (cases "ct_pending cm (ks_inKey ks)"; cases "findUnopened cm kss")
      (use Cons abs in \<open>simp_all add: spec_find_opened [OF assms]\<close>)
qed simp

lemma lookups_eq: "lookupOpenCircuit cm = ct_opened cm" "lookupCircuit cm = ct_pending cm"
  by (simp_all add: fun_eq_iff lookupOpenCircuit_def lookupCircuit_def)

lemma openCircuits_refines:
  assumes "mem_wf cm" "openCircuits dbOk cm kss = (cm1, err)"
  shows "err = (case spec_refuses (abs_map cm) kss of
        Some e \<Rightarrow> Some e | None \<Rightarrow> if kss = [] \<or> dbOk then None else Some CircuitDbFailed)"
    "abs_map cm1 = (if err = None then spec_open kss (abs_map cm) else abs_map cm)"
    "lookupOpenCircuit cm1 = (if err = None then foldl (\<lambda>m ks. m(ks_outKey ks := lookupCircuit cm (ks_inKey ks))) (lookupOpenCircuit cm) kss
       else lookupOpenCircuit cm)"
proof (atomize (full), goal_cases)
  case 1
  note r = findUnopened_refuses [OF assms(1), of kss]
  note d = spec_open_def lookups_eq
  show ?case
  proof (cases "kss = []")
    case True
    then show ?thesis using assms(2) by (simp add: openCircuits_def d)
  next
    case ne: False
    show ?thesis
    proof (cases "findUnopened cm kss")
      case (Inl e)
      then have "cm1 = cm" "err = Some e" "spec_refuses (abs_map cm) kss = Some e"
        using assms(2) ne r by (simp_all add: openCircuits_def)
      then show ?thesis by simp
    next
      case (Inr circuits)
      let ?cm = "cm\<lparr>ct_keystones := putKeystones kss (ct_keystones cm)\<rparr>"
      have same: "abs_map ?cm = abs_map cm" by (simp add: abs_map_def)
      have "\<forall>(a, ks) \<in> set (zip circuits kss). ct_pending ?cm (ks_inKey ks) = Some a" "length circuits = length kss"
        using findUnopened_ok [OF Inr] by auto
      note set = setKeystones_abs [of ?cm circuits kss, OF _ this(2,1), unfolded same]
      have "\<And>k k' a. ct_pending ?cm k = Some a \<Longrightarrow> ct_pending ?cm k' = Some a \<Longrightarrow> k = k'"
        using pending_distinct [OF assms(1)] by simp
      from set [OF this] show ?thesis using Inr assms(2) ne r [symmetric]
        by (auto simp: openCircuits_def lookups_eq split: if_splits)
    qed
  qed
qed

text \<open>
  C13: the map implements its specification. On a reachable state the operations that a link or the
  switch uses act on the map of circuits as specified, whatever the three indexes, the shared
  circuits and the closing set do (a state is reachable if no circuit was given a second key on the
  way to it). Opening with any keystones is refused because of the first of them
  whose outgoing key is in use (ErrDuplicateKeystone) or whose circuit is unknown (ErrUnknownCircuit),
  in this order, or because the write fails, and then changes nothing; otherwise it writes each key
  into its circuit, one that already has a key included, and under each key the circuit is found.
  Deleting removes exactly the given circuits, or nothing if the write fails; closing by incoming or
  by outgoing key marks the one circuit with that key, which was known and not marked, and otherwise
  answers why not; a lookup finds what the map holds.
\<close>

theorem circuit_map_refines:
  assumes "circuit_reach cm"
  shows "(openCircuits dbOk cm kss = (cm1, err) \<longrightarrow>
      err = (case spec_refuses (abs_map cm) kss of
        Some e \<Rightarrow> Some e | None \<Rightarrow> if kss = [] \<or> dbOk then None else Some CircuitDbFailed) \<and>
      abs_map cm1 = (if err = None then spec_open kss (abs_map cm) else abs_map cm) \<and>
      lookupOpenCircuit cm1 = (if err = None then foldl (\<lambda>m ks. m(ks_outKey ks := lookupCircuit cm (ks_inKey ks))) (lookupOpenCircuit cm) kss
        else lookupOpenCircuit cm)) \<and>
    (deleteCircuits dbOk cm ks = (cm2, err2) \<longrightarrow>
      abs_map cm2 = (if dbOk then spec_delete ks (abs_map cm) else abs_map cm) \<and>
      err2 = (if dbOk then None else Some CircuitDbFailed)) \<and>
    map_option (ct_heap cm) (lookupCircuit cm k) = map_option fst (abs_map cm k) \<and>
    (lookupOpenCircuit cm outK = None \<longleftrightarrow> spec_find outK (abs_map cm) = {}) \<and>
    (failCircuit cm k = (cm3, r3) \<longrightarrow>
      (case abs_map cm k of
         None \<Rightarrow> cm3 = cm \<and> r3 = Inl ErrUnknownCircuit
       | Some (c, closing) \<Rightarrow>
           if closing then cm3 = cm \<and> r3 = Inl ErrCircuitClosing
           else abs_map cm3 = spec_mark k (abs_map cm) \<and> (\<exists>a. r3 = Inr a \<and> ct_heap cm a = c))) \<and>
    (closeCircuit cm outK = (cm4, r4) \<longrightarrow>
      (if spec_find outK (abs_map cm) = {} then cm4 = cm \<and> r4 = Inl ErrUnknownCircuit
       else \<exists>k c closing. spec_find outK (abs_map cm) = {k} \<and> abs_map cm k = Some (c, closing) \<and>
         (if closing then cm4 = cm \<and> r4 = Inl ErrCircuitClosing
          else abs_map cm4 = spec_mark k (abs_map cm) \<and> (\<exists>a. r4 = Inr a \<and> ct_heap cm a = c))))"
proof -
  note wf = circuit_reach_wf [OF assms] and w = mem_wfD [OF circuit_reach_wf(1) [OF assms]]
  have mark: "abs_map (cm\<lparr>ct_closed := insert k (ct_closed cm)\<rparr>) = spec_mark k (abs_map cm)" for k
    by (auto simp: abs_map_def spec_mark_def fun_eq_iff map_option_case split: option.split)
  have o: "err = (case spec_refuses (abs_map cm) kss of
        Some e \<Rightarrow> Some e | None \<Rightarrow> if kss = [] \<or> dbOk then None else Some CircuitDbFailed) \<and>
      abs_map cm1 = (if err = None then spec_open kss (abs_map cm) else abs_map cm) \<and>
      lookupOpenCircuit cm1 = (if err = None then foldl (\<lambda>m ks. m(ks_outKey ks := lookupCircuit cm (ks_inKey ks))) (lookupOpenCircuit cm) kss
        else lookupOpenCircuit cm)" if "openCircuits dbOk cm kss = (cm1, err)"
    using openCircuits_refines [OF wf(1) that] by blast
  have l: "map_option (ct_heap cm) (lookupCircuit cm k) = map_option fst (abs_map cm k) \<and>
      (lookupOpenCircuit cm outK = None \<longleftrightarrow> spec_find outK (abs_map cm) = {})"
    by (simp add: spec_find_opened [OF wf(1)] lookupOpenCircuit_def)
      (simp add: lookupCircuit_def abs_map_def option.map_comp comp_def)
  have "abs_map cm2 = (if dbOk then spec_delete ks (abs_map cm) else abs_map cm) \<and> err2 = (if dbOk then None else Some CircuitDbFailed)"
    if d: "deleteCircuits dbOk cm ks = (cm2, err2)"
  proof (cases dbOk)
    case True
    obtain cm' closing removed where r: "removeCircuits cm ks = (cm', closing, removed)"
      by (cases "removeCircuits cm ks") auto
    note s = removeCircuits_spec [OF wf(1) r]
    have "cm2 = deleteRemoved cm' (map snd removed)" "err2 = None" using d True by (simp_all add: deleteCircuits_def r)
    moreover have "ct_heap cm' = ct_heap cm" "ct_closed cm' = ct_closed cm - set ks"
      "ct_pending cm' = (\<lambda>k. if k \<in> set ks then None else ct_pending cm k)" using s by blast+
    ultimately show ?thesis using True
      by (auto simp: abs_map_def spec_delete_def deleteRemoved_def Let_def fun_eq_iff map_option_case split: option.split)
  qed (use d delete_rollback [OF wf(1), of ks] in auto)
  moreover have "case abs_map cm k of
         None \<Rightarrow> cm3 = cm \<and> r3 = Inl ErrUnknownCircuit
       | Some (c, closing) \<Rightarrow>
           if closing then cm3 = cm \<and> r3 = Inl ErrCircuitClosing
           else abs_map cm3 = spec_mark k (abs_map cm) \<and> (\<exists>a. r3 = Inr a \<and> ct_heap cm a = c)"
    if "failCircuit cm k = (cm3, r3)"
    using that mark [of k] by (cases "ct_pending cm k") (auto simp: failCircuit_def abs_map_def split: if_splits)
  moreover have "if spec_find outK (abs_map cm) = {} then cm4 = cm \<and> r4 = Inl ErrUnknownCircuit
       else \<exists>k c closing. spec_find outK (abs_map cm) = {k} \<and> abs_map cm k = Some (c, closing) \<and>
         (if closing then cm4 = cm \<and> r4 = Inl ErrCircuitClosing
          else abs_map cm4 = spec_mark k (abs_map cm) \<and> (\<exists>a. r4 = Inr a \<and> ct_heap cm a = c))"
    if c: "closeCircuit cm outK = (cm4, r4)"
  proof (cases "ct_opened cm outK")
    case None
    then have "spec_find outK (abs_map cm) = {}" using w(3) by (auto simp: spec_find_def abs_map_def)
    then show ?thesis using c None by (simp add: closeCircuit_def)
  next
    case (Some a)
    let ?k = "pc_incoming (ct_heap cm a)"
    have a: "ct_pending cm ?k = Some a" "pc_outgoing (ct_heap cm a) = Some outK" using w(2) [OF Some] by auto
    have f: "spec_find outK (abs_map cm) = {?k}"
    proof (intro equalityI subsetI)
      fix k assume "k \<in> spec_find outK (abs_map cm)"
      then obtain b where b: "ct_pending cm k = Some b" "pc_outgoing (ct_heap cm b) = Some outK"
        by (auto simp: spec_find_def abs_map_def)
      then have "b = a" using w(3) [OF b] Some by simp
      then show "k \<in> {?k}" using w(1) [OF b(1)] by simp
    next
      fix k assume "k \<in> {?k}"
      then show "k \<in> spec_find outK (abs_map cm)" using a by (simp add: spec_find_def abs_map_def)
    qed
    have m: "abs_map cm ?k = Some (ct_heap cm a, ?k \<in> ct_closed cm)" using a(1) by (simp add: abs_map_def)
    have "if ?k \<in> ct_closed cm then cm4 = cm \<and> r4 = Inl ErrCircuitClosing
        else cm4 = cm\<lparr>ct_closed := insert ?k (ct_closed cm)\<rparr> \<and> r4 = Inr a"
      using c Some by (auto simp: closeCircuit_def Let_def split: if_splits)
    then have "if ?k \<in> ct_closed cm then cm4 = cm \<and> r4 = Inl ErrCircuitClosing
        else abs_map cm4 = spec_mark ?k (abs_map cm) \<and> (\<exists>b. r4 = Inr b \<and> ct_heap cm b = ct_heap cm a)"
      using mark [of ?k] by (simp split: if_splits)
    with f m show ?thesis by (metis insert_not_empty)
  qed
  ultimately show ?thesis using o l by blast
qed

theorem circuit_map_refines_witness:
  "abs_map (fst (openCircuits True demo_map1 [\<lparr>ks_inKey = demo_in 1, ks_outKey = demo_out 0\<rparr>])) (demo_in 1)
      = Some ((demo_circuit 7 1)\<lparr>pc_outgoing := Some (demo_out 0)\<rparr>, False) \<and>
   snd (openCircuits True demo_map1 [\<lparr>ks_inKey = demo_in 1, ks_outKey = demo_out 0\<rparr>, \<lparr>ks_inKey = demo_in 2, ks_outKey = demo_out 1\<rparr>])
      = Some ErrUnknownCircuit \<and>
   snd (openCircuits True demo_map2 [\<lparr>ks_inKey = demo_in 2, ks_outKey = demo_out 0\<rparr>]) = Some ErrDuplicateKeystone \<and>
   abs_map (fst (openCircuits True demo_map2 [\<lparr>ks_inKey = demo_in 1, ks_outKey = demo_out 1\<rparr>])) (demo_in 1)
      = Some ((demo_circuit 7 1)\<lparr>pc_outgoing := Some (demo_out 1)\<rparr>, False) \<and>
   (case closeCircuit demo_map2 (demo_out 0) of
      (cm', r) \<Rightarrow> abs_map cm' = spec_mark (demo_in 1) (abs_map demo_map2) \<and> r = Inr 0) \<and>
   abs_map (fst (deleteCircuits True demo_map2 [demo_in 1])) (demo_in 1) = None"
proof -
  note r1 = circuit_map_refines [OF demo_reach1] and r2 = circuit_map_refines [OF demo_reach2]
  have m: "abs_map demo_map1 = [demo_in 1 \<mapsto> (demo_circuit 7 1, False)]"
    "abs_map demo_map2 = [demo_in 1 \<mapsto> ((demo_circuit 7 1)\<lparr>pc_outgoing := Some (demo_out 0)\<rparr>, False)]"
    by (simp_all add: abs_map_def demo_map1 demo_map2 fun_eq_iff)
  have f: "spec_find outK (abs_map demo_map1) = {}"
    "spec_find outK (abs_map demo_map2) = (if outK = demo_out 0 then {demo_in 1} else {})" for outK
    by (auto simp: spec_find_def m split: if_splits)
  note fm = f [unfolded m]
  have o1: "snd (openCircuits True demo_map1 kss) = (case spec_refuses (abs_map demo_map1) kss of Some e \<Rightarrow> Some e | None \<Rightarrow> None)"
    "abs_map (fst (openCircuits True demo_map1 kss))
      = (if snd (openCircuits True demo_map1 kss) = None then spec_open kss (abs_map demo_map1) else abs_map demo_map1)" for kss
    using r1 [where dbOk = True and kss = kss and ?cm1.0 = "fst (openCircuits True demo_map1 kss)"
        and err = "snd (openCircuits True demo_map1 kss)", THEN conjunct1] by simp_all
  have o2: "snd (openCircuits True demo_map2 kss) = (case spec_refuses (abs_map demo_map2) kss of Some e \<Rightarrow> Some e | None \<Rightarrow> None)"
    "abs_map (fst (openCircuits True demo_map2 kss))
      = (if snd (openCircuits True demo_map2 kss) = None then spec_open kss (abs_map demo_map2) else abs_map demo_map2)" for kss
    using r2 [where dbOk = True and kss = kss and ?cm1.0 = "fst (openCircuits True demo_map2 kss)"
        and err = "snd (openCircuits True demo_map2 kss)", THEN conjunct1] by simp_all
  have p1: "abs_map (fst (openCircuits True demo_map1 [\<lparr>ks_inKey = demo_in 1, ks_outKey = demo_out 0\<rparr>])) (demo_in 1)
      = Some ((demo_circuit 7 1)\<lparr>pc_outgoing := Some (demo_out 0)\<rparr>, False)"
    unfolding o1(2) o1(1) by (simp add: fm m spec_open_def)
  have p2: "snd (openCircuits True demo_map1 [\<lparr>ks_inKey = demo_in 1, ks_outKey = demo_out 0\<rparr>,
      \<lparr>ks_inKey = demo_in 2, ks_outKey = demo_out 1\<rparr>]) = Some ErrUnknownCircuit"
    unfolding o1(1) by (simp add: fm m)
  have p3: "snd (openCircuits True demo_map2 [\<lparr>ks_inKey = demo_in 2, ks_outKey = demo_out 0\<rparr>]) = Some ErrDuplicateKeystone"
    unfolding o2(1) by (simp add: fm m)
  have p4: "abs_map (fst (openCircuits True demo_map2 [\<lparr>ks_inKey = demo_in 1, ks_outKey = demo_out 1\<rparr>])) (demo_in 1)
      = Some ((demo_circuit 7 1)\<lparr>pc_outgoing := Some (demo_out 1)\<rparr>, False)"
    unfolding o2(2) o2(1) by (simp add: fm m spec_open_def)
  obtain cm2 err2 where d: "deleteCircuits True demo_map2 [demo_in 1] = (cm2, err2)" by fastforce
  obtain cm4 r4 where c: "closeCircuit demo_map2 (demo_out 0) = (cm4, r4)" by fastforce
  have "r4 = Inr 0" using c by (simp add: closeCircuit_def Let_def demo_map2)
  then show ?thesis
    using r2 [where dbOk = True and kss = "[]" and ?cm1.0 = demo_map2 and err = None and ks = "[demo_in 1]"
        and outK = "demo_out 0" and k = "demo_in 1" and ?cm3.0 = demo_map2 and ?r3.0 = "Inr 0"
        and ?cm2.0 = cm2 and ?err2.0 = err2 and ?cm4.0 = cm4 and ?r4.0 = r4] d c p1 p2 p3 p4
    by (auto simp: spec_delete_def fm m)
qed

section \<open>Where the code falls short\<close>

text \<open>
  Trimming clears the outgoing key of a circuit before it removes the circuit from the hash index,
  so the entry under the real key stays; when the key is used again, the lookup by the old hash
  returns a circuit with another payment hash.
\<close>

theorem trimmed_keystone_misleads:
  "\<exists>cm a. circuit_reach cm \<and> a \<in> lookupByPaymentHash cm (replicate 32 7) \<and>
     pc_paymentHash (ct_heap cm a) = replicate 32 8"
proof -
  define cm1 where "cm1 = fst (trimOpenCircuits True demo_map2 6 0)"
  define cm2 where "cm2 = fst (allocCircuit (demo_circuit 8 2) cm1)"
  define cm3 where "cm3 = fst (commitCircuits True cm2 [1])"
  define cm4 where "cm4 = fst (openCircuits True cm3 [\<lparr>ks_inKey = demo_in 2, ks_outKey = demo_out 0\<rparr>])"
  have t1: "ct_opened cm (demo_out 1) = None \<Longrightarrow> trimLoop 6 1 cm = (cm, [])" for cm
    by (simp add: trimLoop.simps [of 6 1] demo_out_def)
  have "trimLoop 6 0 demo_map2 = (removeCircuitFromHashIndex (demo_map2\<lparr>ct_heap := (ct_heap demo_map2)(0 := demo_circuit 7 1),
      ct_opened := Map.empty\<rparr>) (demo_circuit 7 1), [demo_out 0])"
    unfolding trimLoop.simps [of 6 0 demo_map2, folded demo_out_def]
    by (simp add: demo_map2 Let_def t1) (simp add: demo_circuit_def newPaymentCircuit_def fun_upd_def cong: if_cong)
  moreover have "{demo_out 0} - {emptyCircuitKey} = {demo_out 0}" by auto
  ultimately have c1: "ct_pending cm1 = [demo_in 1 \<mapsto> 0]" "ct_opened cm1 = Map.empty" "ct_heap cm1 0 = demo_circuit 7 1"
    "ct_next cm1 = 1" "ct_hashIndex cm1 = [replicate 32 7 \<mapsto> {demo_out 0}]"
    by (simp_all add: cm1_def trimOpenCircuits_def demo_map2 removeCircuitFromHashIndex_def outKey_def Let_def)
  have c2: "ct_pending cm2 = [demo_in 1 \<mapsto> 0]" "ct_opened cm2 = Map.empty" "ct_heap cm2 1 = demo_circuit 8 2"
    "ct_next cm2 = 2" "ct_hashIndex cm2 = [replicate 32 7 \<mapsto> {demo_out 0}]"
    by (simp_all add: cm2_def allocCircuit_def c1)
  have c3: "ct_pending cm3 = [demo_in 1 \<mapsto> 0, demo_in 2 \<mapsto> 1]" "ct_opened cm3 = Map.empty" "ct_heap cm3 1 = demo_circuit 8 2"
    "ct_hashIndex cm3 = [replicate 32 7 \<mapsto> {demo_out 0}]"
    using c2 by (simp_all add: cm3_def commitCircuits_def inKey_def Let_def)
  have c4: "ct_opened cm4 = [demo_out 0 \<mapsto> 1]" "ct_heap cm4 1 = (demo_circuit 8 2)\<lparr>pc_outgoing := Some (demo_out 0)\<rparr>"
    "demo_out 0 \<in> hset cm4 (replicate 32 7)"
    using c3 by (simp_all add: cm4_def openCircuits_def setKeystone_def Let_def) (simp add: hset_def)
  have "circ_step demo_map2 cm1" by (rule ci_trim [of _ 6 0 _ "snd (trimOpenCircuits True demo_map2 6 0)"]) (simp add: cm1_def)
  moreover have "circ_step cm1 cm2" by (rule ci_new [of "demo_circuit 8 2" _ _ 1]) (simp add: cm2_def allocCircuit_def c1)
  moreover have "circ_step cm2 cm3"
    by (rule ci_commit [of "[1]" _ True _ "fst (snd (commitCircuits True cm2 [1]))" "snd (snd (commitCircuits True cm2 [1]))"])
      (use c2 in \<open>simp_all add: cm3_def\<close>)
  moreover have "circ_step cm3 cm4"
    by (rule ci_open [of _ "[\<lparr>ks_inKey = demo_in 2, ks_outKey = demo_out 0\<rparr>]" True _ "snd (openCircuits True cm3 [\<lparr>ks_inKey = demo_in 2, ks_outKey = demo_out 0\<rparr>])"])
      (use c3 in \<open>simp_all add: cm4_def keystones_ok_def\<close>)
  ultimately have "circuit_reach cm4" using demo_reach2 by (meson rtranclp.rtrancl_into_rtrancl)
  moreover have "1 \<in> lookupByPaymentHash cm4 (replicate 32 7)"
    using c4 by (auto simp: lookupByPaymentHash_def hset_def split: option.splits)
  moreover have "pc_paymentHash (ct_heap cm4 1) = replicate 32 8"
    unfolding c4(2) by (simp add: demo_circuit_def newPaymentCircuit_def)
  ultimately show ?thesis by blast
qed

text \<open>
  Opening checks that the outgoing key is new, not that the circuit is unopened: a second keystone for
  the same circuit is accepted and leaves the first behind for good, in memory and on disk, when the
  circuit is deleted.
\<close>

theorem second_keystone_leaks:
  "\<exists>cm. snd (openCircuits True demo_map2 [\<lparr>ks_inKey = demo_in 1, ks_outKey = demo_out 1\<rparr>]) = None \<and>
     cm = fst (deleteCircuits True (fst (openCircuits True demo_map2 [\<lparr>ks_inKey = demo_in 1, ks_outKey = demo_out 1\<rparr>])) [demo_in 1]) \<and>
     lookupCircuit cm (demo_in 1) = None \<and> lookupOpenCircuit cm (demo_out 0) = Some 0 \<and>
     ct_keystones cm (circuitKeyBytes (demo_out 0)) \<noteq> None"
proof -
  let ?cm = "fst (openCircuits True demo_map2 [\<lparr>ks_inKey = demo_in 1, ks_outKey = demo_out 1\<rparr>])"
  have o: "ct_pending ?cm = [demo_in 1 \<mapsto> 0]" "ct_opened ?cm = [demo_out 0 \<mapsto> 0, demo_out 1 \<mapsto> 0]"
    "ct_heap ?cm 0 = (demo_circuit 7 1)\<lparr>pc_outgoing := Some (demo_out 1)\<rparr>"
    "ct_keystones ?cm (circuitKeyBytes (demo_out 0)) \<noteq> None"
    using circuit_reach_wf(2) [OF demo_reach2]
    by (simp_all add: openCircuits_def demo_map2 setKeystone_def Let_def putKeystones_def disk_wf_def keystonesImage_def)
  have "snd (openCircuits True demo_map2 [\<lparr>ks_inKey = demo_in 1, ks_outKey = demo_out 1\<rparr>]) = None"
    by (simp add: openCircuits_def demo_map2)
  moreover have "lookupCircuit (fst (deleteCircuits True ?cm [demo_in 1])) (demo_in 1) = None"
    "lookupOpenCircuit (fst (deleteCircuits True ?cm [demo_in 1])) (demo_out 0) = Some 0"
    "ct_keystones (fst (deleteCircuits True ?cm [demo_in 1])) (circuitKeyBytes (demo_out 0)) \<noteq> None"
    using o by (simp_all add: deleteCircuits_def Let_def deleteRemoved_def lookupCircuit_def lookupOpenCircuit_def
        hasKeystone_def deleteKeys_def)
  ultimately show ?thesis by blast
qed

end
