(* ===== verification/Update_Log.thy ===== *)
theory Update_Log
  imports Channel_Types
begin

text \<open>
  \<open>lnwallet/update_log.go\<close>: the log of one party's pending updates. The source shares payment
  descriptors between the list, its two index maps and the views computed from it, and mutates them
  through these pointers; the model has an explicit heap of descriptors, and a log holds addresses.
  A list node is identified with the address of its descriptor, which is pushed to one log only.
  A method that dereferences a nil node (removing an index that is not there) panics in Go and is
  \<open>None\<close> here.
\<close>

type_synonym pd_heap = "nat \<Rightarrow> paymentDescriptor"

record update_log =
  ul_logIndex :: u64
  ul_htlcCounter :: u64
  ul_list :: "nat list"
  ul_updateIndex :: "u64 \<rightharpoonup> nat"
  ul_htlcIndex :: "u64 \<rightharpoonup> nat"
  ul_modified :: "u64 set"

definition newUpdateLog :: "u64 \<Rightarrow> u64 \<Rightarrow> update_log" where
  "newUpdateLog logIndex htlcCounter =
     \<lparr>ul_logIndex = logIndex, ul_htlcCounter = htlcCounter, ul_list = [],
      ul_updateIndex = Map.empty, ul_htlcIndex = Map.empty, ul_modified = {}\<rparr>"

definition restoreHtlc :: "pd_heap \<Rightarrow> update_log \<Rightarrow> nat \<Rightarrow> update_log" where
  "restoreHtlc h u p =
     (case ul_htlcIndex u (pd_htlcIndex (h p)) of
        Some _ \<Rightarrow> u
      | None \<Rightarrow> u\<lparr>ul_list := ul_list u @ [p],
                   ul_htlcIndex := (ul_htlcIndex u)(pd_htlcIndex (h p) \<mapsto> p)\<rparr>)"

definition appendUpdate :: "update_log \<Rightarrow> nat \<Rightarrow> update_log" where
  "appendUpdate u p =
     u\<lparr>ul_list := ul_list u @ [p],
       ul_updateIndex := (ul_updateIndex u)(ul_logIndex u \<mapsto> p),
       ul_logIndex := ul_logIndex u + 1\<rparr>"

definition restoreUpdate :: "pd_heap \<Rightarrow> update_log \<Rightarrow> nat \<Rightarrow> update_log" where
  "restoreUpdate h u p =
     u\<lparr>ul_list := ul_list u @ [p],
       ul_updateIndex := (ul_updateIndex u)(pd_logIndex (h p) \<mapsto> p)\<rparr>"

definition appendHtlc :: "update_log \<Rightarrow> nat \<Rightarrow> update_log" where
  "appendHtlc u p =
     u\<lparr>ul_list := ul_list u @ [p],
       ul_htlcIndex := (ul_htlcIndex u)(ul_htlcCounter u \<mapsto> p),
       ul_htlcCounter := ul_htlcCounter u + 1,
       ul_logIndex := ul_logIndex u + 1\<rparr>"

definition lookupHtlc :: "update_log \<Rightarrow> u64 \<Rightarrow> nat option" where
  "lookupHtlc u i = ul_htlcIndex u i"

definition removeUpdate :: "update_log \<Rightarrow> u64 \<Rightarrow> update_log option" where
  "removeUpdate u i =
     (case ul_updateIndex u i of
        None \<Rightarrow> None
      | Some p \<Rightarrow> Some (u\<lparr>ul_list := remove1 p (ul_list u),
                           ul_updateIndex := (ul_updateIndex u)(i := None)\<rparr>))"

definition removeHtlc :: "update_log \<Rightarrow> u64 \<Rightarrow> update_log option" where
  "removeHtlc u i =
     (case ul_htlcIndex u i of
        None \<Rightarrow> None
      | Some p \<Rightarrow> Some (u\<lparr>ul_list := remove1 p (ul_list u),
                           ul_htlcIndex := (ul_htlcIndex u)(i := None),
                           ul_modified := ul_modified u - {i}\<rparr>))"

definition htlcHasModification :: "update_log \<Rightarrow> u64 \<Rightarrow> bool" where
  "htlcHasModification u i \<longleftrightarrow> i \<in> ul_modified u"

definition markHtlcModified :: "update_log \<Rightarrow> u64 \<Rightarrow> update_log" where
  "markHtlcModified u i = u\<lparr>ul_modified := insert i (ul_modified u)\<rparr>"

section \<open>Compaction\<close>

text \<open>
  The test of one list element of \<open>compactLog\<close>, and its loop. Each element is visited once, in list
  order, with the successor read before the element is removed: the loop runs over the nodes the
  list had when it started.
\<close>

definition evictable :: "u64 \<Rightarrow> u64 \<Rightarrow> paymentDescriptor \<Rightarrow> bool" where
  "evictable localChainTail remoteChainTail htlc \<longleftrightarrow>
     \<not> pd_entryType htlc = Add \<and>
     \<not> (d_remote (pd_rmvHeights htlc) = 0 \<or> d_local (pd_rmvHeights htlc) = 0) \<and>
     remoteChainTail \<ge> d_remote (pd_rmvHeights htlc) \<and>
     localChainTail \<ge> d_local (pd_rmvHeights htlc)"

fun compactLog_loop ::
  "pd_heap \<Rightarrow> u64 \<Rightarrow> u64 \<Rightarrow> nat list \<Rightarrow> update_log \<times> update_log \<Rightarrow> (update_log \<times> update_log) option" where
  "compactLog_loop h lt rt [] (logA, logB) = Some (logA, logB)"
| "compactLog_loop h lt rt (e # es) (logA, logB) =
     (if \<not> evictable lt rt (h e) then compactLog_loop h lt rt es (logA, logB)
      else case removeUpdate logA (pd_logIndex (h e)) of
        None \<Rightarrow> None
      | Some logA' \<Rightarrow>
          if pd_entryType (h e) = FeeUpdate then compactLog_loop h lt rt es (logA', logB)
          else case removeHtlc logB (pd_parentIndex (h e)) of
            None \<Rightarrow> None
          | Some logB' \<Rightarrow> compactLog_loop h lt rt es (logA', logB'))"

definition compactLogs ::
  "pd_heap \<Rightarrow> update_log dual \<Rightarrow> u64 \<Rightarrow> u64 \<Rightarrow> update_log dual option" where
  "compactLogs h logs localChainTail remoteChainTail =
     (case compactLog_loop h localChainTail remoteChainTail (ul_list (d_local logs))
             (d_local logs, d_remote logs) of
        None \<Rightarrow> None
      | Some (ours, theirs) \<Rightarrow>
          (case compactLog_loop h localChainTail remoteChainTail (ul_list theirs) (theirs, ours) of
             None \<Rightarrow> None
           | Some (theirs', ours') \<Rightarrow> Some (mkDual ours' theirs')))"

section \<open>Well-formed logs\<close>

definition isResolution :: "paymentDescriptor \<Rightarrow> bool" where
  "isResolution pd \<longleftrightarrow> pd_entryType pd \<in> {Settle, Fail, MalformedFail}"

text \<open>
  The index maps are exactly the list read by index: updates by log index, adds by HTLC index. An
  add is never itself given a removal height.
\<close>

definition log_wf :: "pd_heap \<Rightarrow> update_log \<Rightarrow> bool" where
  "log_wf h u \<longleftrightarrow>
     distinct (ul_list u) \<and>
     (\<forall>i p. ul_updateIndex u i = Some p \<longleftrightarrow>
        p \<in> set (ul_list u) \<and> \<not> isAdd (h p) \<and> pd_logIndex (h p) = i) \<and>
     (\<forall>i p. ul_htlcIndex u i = Some p \<longleftrightarrow>
        p \<in> set (ul_list u) \<and> isAdd (h p) \<and> pd_htlcIndex (h p) = i) \<and>
     (\<forall>p \<in> set (ul_list u). pd_logIndex (h p) < ul_logIndex u) \<and>
     (\<forall>p \<in> set (ul_list u). isAdd (h p) \<longrightarrow> pd_htlcIndex (h p) < ul_htlcCounter u) \<and>
     (\<forall>p \<in> set (ul_list u). isAdd (h p) \<longrightarrow> pd_rmvHeights (h p) = mkDual 0 0) \<and>
     ul_modified u \<subseteq> dom (ul_htlcIndex u)"

text \<open>
  Between the two logs: every settle or fail has its add, with the same amount, in the other log,
  where it is marked as modified, and no add is resolved twice.
\<close>

definition resolves :: "pd_heap \<Rightarrow> update_log \<Rightarrow> update_log \<Rightarrow> bool" where
  "resolves h a b \<longleftrightarrow>
     (\<forall>r \<in> set (ul_list a). isResolution (h r) \<longrightarrow>
        pd_parentIndex (h r) \<in> ul_modified b \<and>
        (\<exists>p. ul_htlcIndex b (pd_parentIndex (h r)) = Some p \<and> pd_amount (h p) = pd_amount (h r))) \<and>
     (\<forall>r \<in> set (ul_list a). \<forall>s \<in> set (ul_list a). isResolution (h r) \<longrightarrow> isResolution (h s) \<longrightarrow>
        pd_parentIndex (h r) = pd_parentIndex (h s) \<longrightarrow> r = s)"

definition logs_wf :: "pd_heap \<Rightarrow> nat \<Rightarrow> update_log dual \<Rightarrow> bool" where
  "logs_wf h next logs \<longleftrightarrow>
     (\<forall>p. log_wf h (getForParty logs p)) \<and>
     (\<forall>p. resolves h (getForParty logs p) (getForParty logs (counterParty p))) \<and>
     set (ul_list (d_local logs)) \<inter> set (ul_list (d_remote logs)) = {} \<and>
     (\<forall>p. \<forall>a \<in> set (ul_list (getForParty logs p)). a < next)"

lemma log_wf_update:
  "log_wf h u \<Longrightarrow> ul_updateIndex u i = Some p \<longleftrightarrow>
     p \<in> set (ul_list u) \<and> \<not> isAdd (h p) \<and> pd_logIndex (h p) = i"
  by (simp add: log_wf_def)

lemma log_wf_htlc:
  "log_wf h u \<Longrightarrow> ul_htlcIndex u i = Some p \<longleftrightarrow>
     p \<in> set (ul_list u) \<and> isAdd (h p) \<and> pd_htlcIndex (h p) = i"
  by (simp add: log_wf_def)

lemma log_wf_new: "log_wf h (newUpdateLog l c)"
  by (simp add: log_wf_def newUpdateLog_def)

text \<open>The heap matters only at the addresses in the log, and only through the fields the indices use.\<close>

definition same_entry :: "paymentDescriptor \<Rightarrow> paymentDescriptor \<Rightarrow> bool" where
  "same_entry x y \<longleftrightarrow> pd_entryType x = pd_entryType y \<and> pd_logIndex x = pd_logIndex y \<and>
     pd_htlcIndex x = pd_htlcIndex y \<and> pd_parentIndex x = pd_parentIndex y \<and>
     pd_amount x = pd_amount y \<and> (isAdd x \<longrightarrow> pd_rmvHeights x = pd_rmvHeights y)"

lemma same_entry_kinds:
  "same_entry x y \<Longrightarrow> isAdd x = isAdd y" "same_entry x y \<Longrightarrow> isResolution x = isResolution y"
  by (auto simp: same_entry_def isAdd_def isResolution_def)

lemma same_entry_refl [simp]: "same_entry x x"
  by (simp add: same_entry_def)

lemma log_wf_cong:
  assumes "\<And>p. p \<in> set (ul_list u) \<Longrightarrow> same_entry (h p) (h' p)"
  shows "log_wf h u = log_wf h' u"
proof -
  have e: "isAdd (h p) = isAdd (h' p)" "pd_logIndex (h p) = pd_logIndex (h' p)"
    "pd_htlcIndex (h p) = pd_htlcIndex (h' p)"
    "isAdd (h' p) \<Longrightarrow> pd_rmvHeights (h p) = pd_rmvHeights (h' p)" if "p \<in> set (ul_list u)" for p
    using assms [OF that] same_entry_kinds [OF assms [OF that]] by (simp_all add: same_entry_def)
  have "(p \<in> set (ul_list u) \<and> \<not> isAdd (h p) \<and> pd_logIndex (h p) = i)
      = (p \<in> set (ul_list u) \<and> \<not> isAdd (h' p) \<and> pd_logIndex (h' p) = i)"
    "(p \<in> set (ul_list u) \<and> isAdd (h p) \<and> pd_htlcIndex (h p) = i)
      = (p \<in> set (ul_list u) \<and> isAdd (h' p) \<and> pd_htlcIndex (h' p) = i)" for p i
    using e [of p] by auto
  moreover have "(\<forall>p \<in> set (ul_list u). pd_logIndex (h p) < ul_logIndex u)
      = (\<forall>p \<in> set (ul_list u). pd_logIndex (h' p) < ul_logIndex u)"
    "(\<forall>p \<in> set (ul_list u). isAdd (h p) \<longrightarrow> pd_htlcIndex (h p) < ul_htlcCounter u)
      = (\<forall>p \<in> set (ul_list u). isAdd (h' p) \<longrightarrow> pd_htlcIndex (h' p) < ul_htlcCounter u)"
    "(\<forall>p \<in> set (ul_list u). isAdd (h p) \<longrightarrow> pd_rmvHeights (h p) = mkDual 0 0)
      = (\<forall>p \<in> set (ul_list u). isAdd (h' p) \<longrightarrow> pd_rmvHeights (h' p) = mkDual 0 0)"
    using e by simp_all
  ultimately show ?thesis unfolding log_wf_def by (simp only:)
qed

section \<open>Appending\<close>

lemma unat_plus1_neq: "(n :: u64) \<noteq> -1 \<Longrightarrow> unat (n + 1) = unat n + 1"
proof -
  assume "n \<noteq> -1"
  then have "unat n + 1 \<noteq> 2 ^ 64"
    by (auto simp: word_eq_unat unsigned_minus_1_eq_mask mask_eq_exp_minus_1)
  then show ?thesis by (simp add: unat_Suc_if)
qed

lemma below_succ: "(x :: u64) < n \<Longrightarrow> n \<noteq> -1 \<Longrightarrow> x < n + 1"
  and self_below_succ: "(n :: u64) \<noteq> -1 \<Longrightarrow> n < n + 1"
  by (simp_all add: uint_simps unat_plus1_neq)

lemma appendHtlc_wf:
  assumes wf: "log_wf h u" and p: "p \<notin> set (ul_list u)" "isAdd (h p)"
    "pd_logIndex (h p) = ul_logIndex u" "pd_htlcIndex (h p) = ul_htlcCounter u"
    "pd_rmvHeights (h p) = mkDual 0 0"
    and bound: "ul_logIndex u \<noteq> -1" "ul_htlcCounter u \<noteq> -1"
  shows "log_wf h (appendHtlc u p)"
proof -
  have fresh: "pd_htlcIndex (h q) \<noteq> ul_htlcCounter u" if "q \<in> set (ul_list u)" "isAdd (h q)" for q
    using wf that by (auto simp: log_wf_def)
  have "ul_updateIndex u i = Some q \<longleftrightarrow>
      q \<in> set (ul_list u @ [p]) \<and> \<not> isAdd (h q) \<and> pd_logIndex (h q) = i" for i q
    using log_wf_update [OF wf] p(2) by auto
  moreover have "((ul_htlcIndex u)(ul_htlcCounter u \<mapsto> p)) i = Some q \<longleftrightarrow>
      q \<in> set (ul_list u @ [p]) \<and> isAdd (h q) \<and> pd_htlcIndex (h q) = i" for i q
    using log_wf_htlc [OF wf] p fresh by auto
  ultimately show ?thesis
    using wf p bound below_succ self_below_succ
    by (simp add: log_wf_def appendHtlc_def) blast
qed

lemma appendUpdate_wf:
  assumes wf: "log_wf h u" and p: "p \<notin> set (ul_list u)" "\<not> isAdd (h p)"
    "pd_logIndex (h p) = ul_logIndex u"
    and bound: "ul_logIndex u \<noteq> -1"
  shows "log_wf h (appendUpdate u p)"
proof -
  have fresh: "pd_logIndex (h q) \<noteq> ul_logIndex u" if "q \<in> set (ul_list u)" for q
    using wf that by (auto simp: log_wf_def)
  have "((ul_updateIndex u)(ul_logIndex u \<mapsto> p)) i = Some q \<longleftrightarrow>
      q \<in> set (ul_list u @ [p]) \<and> \<not> isAdd (h q) \<and> pd_logIndex (h q) = i" for i q
    using log_wf_update [OF wf] p fresh by auto
  moreover have "ul_htlcIndex u i = Some q \<longleftrightarrow>
      q \<in> set (ul_list u @ [p]) \<and> isAdd (h q) \<and> pd_htlcIndex (h q) = i" for i q
    using log_wf_htlc [OF wf] p by auto
  ultimately show ?thesis
    using wf p bound below_succ self_below_succ
    by (simp add: log_wf_def appendUpdate_def)
qed

lemma markHtlcModified_wf:
  "log_wf h u \<Longrightarrow> i \<in> dom (ul_htlcIndex u) \<Longrightarrow> log_wf h (markHtlcModified u i)"
  by (simp add: log_wf_def markHtlcModified_def)

section \<open>Removing\<close>

lemma log_wf_unique:
  assumes "log_wf h u" "p \<in> set (ul_list u)" "q \<in> set (ul_list u)"
  shows "\<not> isAdd (h p) \<Longrightarrow> \<not> isAdd (h q) \<Longrightarrow> pd_logIndex (h p) = pd_logIndex (h q) \<Longrightarrow> p = q"
    and "isAdd (h p) \<Longrightarrow> isAdd (h q) \<Longrightarrow> pd_htlcIndex (h p) = pd_htlcIndex (h q) \<Longrightarrow> p = q"
  using log_wf_update [OF assms(1)] log_wf_htlc [OF assms(1)] assms(2,3) by (metis option.inject)+

lemma removeUpdate_wf:
  assumes wf: "log_wf h u" and e: "e \<in> set (ul_list u)" "\<not> isAdd (h e)"
  obtains u' where "removeUpdate u (pd_logIndex (h e)) = Some u'" "log_wf h u'"
    "ul_list u' = remove1 e (ul_list u)" "ul_htlcIndex u' = ul_htlcIndex u"
    "ul_modified u' = ul_modified u"
proof -
  let ?u = "u\<lparr>ul_list := remove1 e (ul_list u),
      ul_updateIndex := (ul_updateIndex u)(pd_logIndex (h e) := None)\<rparr>"
  have d: "distinct (ul_list u)" using wf by (simp add: log_wf_def)
  have ue: "ul_updateIndex u (pd_logIndex (h e)) = Some e" using log_wf_update [OF wf] e by simp
  have "((ul_updateIndex u)(pd_logIndex (h e) := None)) i = Some q \<longleftrightarrow>
      q \<in> set (remove1 e (ul_list u)) \<and> \<not> isAdd (h q) \<and> pd_logIndex (h q) = i" for i q
    using log_wf_update [OF wf] ue d log_wf_unique(1) [OF wf] by (auto simp: set_remove1_eq)
  moreover have "ul_htlcIndex u i = Some q \<longleftrightarrow>
      q \<in> set (remove1 e (ul_list u)) \<and> isAdd (h q) \<and> pd_htlcIndex (h q) = i" for i q
    using log_wf_htlc [OF wf] e d by (auto simp: set_remove1_eq)
  ultimately have "log_wf h ?u" using wf d by (simp add: log_wf_def set_remove1_eq)
  then show ?thesis using that [of ?u] ue by (simp add: removeUpdate_def)
qed

lemma removeHtlc_wf:
  assumes wf: "log_wf h u" and a: "ul_htlcIndex u i = Some a"
  obtains u' where "removeHtlc u i = Some u'" "log_wf h u'"
    "ul_list u' = remove1 a (ul_list u)" "ul_htlcIndex u' = (ul_htlcIndex u)(i := None)"
    "ul_modified u' = ul_modified u - {i}"
proof -
  let ?u = "u\<lparr>ul_list := remove1 a (ul_list u), ul_htlcIndex := (ul_htlcIndex u)(i := None),
      ul_modified := ul_modified u - {i}\<rparr>"
  have d: "distinct (ul_list u)" using wf by (simp add: log_wf_def)
  have "((ul_htlcIndex u)(i := None)) j = Some q \<longleftrightarrow>
      q \<in> set (remove1 a (ul_list u)) \<and> isAdd (h q) \<and> pd_htlcIndex (h q) = j" for j q
    using log_wf_htlc [OF wf] a d log_wf_unique(2) [OF wf] by (auto simp: set_remove1_eq)
  moreover have "ul_updateIndex u j = Some q \<longleftrightarrow>
      q \<in> set (remove1 a (ul_list u)) \<and> \<not> isAdd (h q) \<and> pd_logIndex (h q) = j" for j q
    using log_wf_update [OF wf] log_wf_htlc [OF wf] a d by (auto simp: set_remove1_eq)
  moreover have "ul_modified u - {i} \<subseteq> dom ((ul_htlcIndex u)(i := None))"
    using wf by (auto simp: log_wf_def)
  ultimately have "log_wf h ?u" using wf d by (simp add: log_wf_def set_remove1_eq)
  then show ?thesis using that [of ?u] a by (simp add: removeHtlc_def)
qed

section \<open>Compaction keeps the logs well-formed\<close>

definition pair_wf :: "pd_heap \<Rightarrow> update_log \<Rightarrow> update_log \<Rightarrow> bool" where
  "pair_wf h a b \<longleftrightarrow> log_wf h a \<and> log_wf h b \<and> resolves h a b \<and> resolves h b a"

lemma resolves_parent:
  assumes "resolves h a b" "r \<in> set (ul_list a)" "isResolution (h r)"
  obtains p where "ul_htlcIndex b (pd_parentIndex (h r)) = Some p" "pd_amount (h p) = pd_amount (h r)"
    "pd_parentIndex (h r) \<in> ul_modified b"
  using assms by (auto simp: resolves_def)

lemma resolves_once:
  "resolves h a b \<Longrightarrow> r \<in> set (ul_list a) \<Longrightarrow> s \<in> set (ul_list a) \<Longrightarrow> isResolution (h r) \<Longrightarrow>
   isResolution (h s) \<Longrightarrow> pd_parentIndex (h r) = pd_parentIndex (h s) \<Longrightarrow> r = s"
  by (simp add: resolves_def)

text \<open>Fewer resolutions, or untouched adds, keep the relation.\<close>

lemma resolves_mono:
  assumes "resolves h a b" "set (ul_list a') \<subseteq> set (ul_list a)"
    and "\<And>r. r \<in> set (ul_list a') \<Longrightarrow> isResolution (h r) \<Longrightarrow>
           ul_htlcIndex b' (pd_parentIndex (h r)) = ul_htlcIndex b (pd_parentIndex (h r)) \<and>
           (pd_parentIndex (h r) \<in> ul_modified b \<longrightarrow> pd_parentIndex (h r) \<in> ul_modified b')"
  shows "resolves h a' b'"
proof -
  have "pd_parentIndex (h r) \<in> ul_modified b' \<and>
      (\<exists>p. ul_htlcIndex b' (pd_parentIndex (h r)) = Some p \<and> pd_amount (h p) = pd_amount (h r))"
    if "r \<in> set (ul_list a')" "isResolution (h r)" for r
    using assms(3) [OF that] resolves_parent [OF assms(1), of r] that assms(2) by auto
  then show ?thesis using assms(1,2) unfolding resolves_def by blast
qed

lemma not_add_kinds: "\<not> isAdd pd \<Longrightarrow> pd_entryType pd \<noteq> FeeUpdate \<Longrightarrow> isResolution pd"
  by (cases "pd_entryType pd") (auto simp: isAdd_def isResolution_def)

lemma fee_no_resolution: "pd_entryType pd = FeeUpdate \<Longrightarrow> \<not> isResolution pd \<and> \<not> isAdd pd"
  by (simp add: isResolution_def isAdd_def)

lemma resolution_not_add: "isResolution pd \<Longrightarrow> \<not> isAdd pd"
  by (auto simp: isResolution_def isAdd_def)

lemma evictable_not_add:
  "log_wf h u \<Longrightarrow> e \<in> set (ul_list u) \<Longrightarrow> evictable lt rt (h e) \<Longrightarrow> \<not> isAdd (h e)"
  by (auto simp: log_wf_def evictable_def)

lemma compact_step_fee:
  assumes wf: "pair_wf h a b" and e: "e \<in> set (ul_list a)" "pd_entryType (h e) = FeeUpdate"
  obtains a' where "removeUpdate a (pd_logIndex (h e)) = Some a'" "pair_wf h a' b"
    "ul_list a' = remove1 e (ul_list a)" "ul_htlcIndex a' = ul_htlcIndex a"
proof -
  have w: "log_wf h a" "log_wf h b" "resolves h a b" "resolves h b a"
    using wf by (auto simp: pair_wf_def)
  obtain a' where a': "removeUpdate a (pd_logIndex (h e)) = Some a'" "log_wf h a'"
    "ul_list a' = remove1 e (ul_list a)" "ul_htlcIndex a' = ul_htlcIndex a"
    "ul_modified a' = ul_modified a"
    using removeUpdate_wf [OF w(1) e(1)] fee_no_resolution [OF e(2)] by blast
  have "resolves h a' b"
    by (rule resolves_mono [OF w(3)]) (use a'(3) set_remove1_subset [of e "ul_list a"] in auto)
  moreover have "resolves h b a'"
    by (rule resolves_mono [OF w(4)]) (use a' in auto)
  ultimately show ?thesis using that a' w by (simp add: pair_wf_def)
qed

lemma compact_step_resolution:
  assumes wf: "pair_wf h a b" and e: "e \<in> set (ul_list a)" "isResolution (h e)"
  obtains a' b' p where "removeUpdate a (pd_logIndex (h e)) = Some a'"
    "removeHtlc b (pd_parentIndex (h e)) = Some b'" "pair_wf h a' b'"
    "ul_list a' = remove1 e (ul_list a)" "ul_list b' = remove1 p (ul_list b)"
    "ul_htlcIndex b (pd_parentIndex (h e)) = Some p"
    "ul_htlcIndex b' = (ul_htlcIndex b)(pd_parentIndex (h e) := None)"
    "ul_htlcIndex a' = ul_htlcIndex a"
proof -
  have w: "log_wf h a" "log_wf h b" "resolves h a b" "resolves h b a"
    using wf by (auto simp: pair_wf_def)
  obtain p where p: "ul_htlcIndex b (pd_parentIndex (h e)) = Some p"
    using resolves_parent [OF w(3) e] by blast
  obtain a' where a': "removeUpdate a (pd_logIndex (h e)) = Some a'" "log_wf h a'"
    "ul_list a' = remove1 e (ul_list a)" "ul_htlcIndex a' = ul_htlcIndex a"
    "ul_modified a' = ul_modified a"
    using removeUpdate_wf [OF w(1) e(1)] resolution_not_add [OF e(2)] by blast
  obtain b' where b': "removeHtlc b (pd_parentIndex (h e)) = Some b'" "log_wf h b'"
    "ul_list b' = remove1 p (ul_list b)"
    "ul_htlcIndex b' = (ul_htlcIndex b)(pd_parentIndex (h e) := None)"
    "ul_modified b' = ul_modified b - {pd_parentIndex (h e)}"
    using removeHtlc_wf [OF w(2) p] by blast
  have d: "distinct (ul_list a)" using w(1) by (simp add: log_wf_def)
  have "resolves h a' b'"
  proof (rule resolves_mono [OF w(3)])
    show "set (ul_list a') \<subseteq> set (ul_list a)" using a'(3) set_remove1_subset by simp
    fix r assume r: "r \<in> set (ul_list a')" "isResolution (h r)"
    then have "r \<in> set (ul_list a)" "r \<noteq> e" using a'(3) d by auto
    then have "pd_parentIndex (h r) \<noteq> pd_parentIndex (h e)"
      using resolves_once [OF w(3) _ e(1) r(2) e(2)] by blast
    then show "ul_htlcIndex b' (pd_parentIndex (h r)) = ul_htlcIndex b (pd_parentIndex (h r)) \<and>
        (pd_parentIndex (h r) \<in> ul_modified b \<longrightarrow> pd_parentIndex (h r) \<in> ul_modified b')"
      using b' by simp
  qed
  moreover have "resolves h b' a'"
    by (rule resolves_mono [OF w(4)]) (use a' b'(3) set_remove1_subset [of p "ul_list b"] in auto)
  ultimately show ?thesis using that [OF a'(1) b'(1)] a' b' p by (simp add: pair_wf_def)
qed

text \<open>What the loop removes: the evictable elements it visits, and the adds these resolve.\<close>

definition evicts :: "pd_heap \<Rightarrow> u64 \<Rightarrow> u64 \<Rightarrow> nat list \<Rightarrow> nat \<Rightarrow> bool" where
  "evicts h lt rt es x \<longleftrightarrow>
     (\<exists>r \<in> set es. evictable lt rt (h r) \<and> isResolution (h r) \<and>
        isAdd (h x) \<and> pd_parentIndex (h r) = pd_htlcIndex (h x))"

lemma compactLog_loop_spec:
  assumes "pair_wf h a b" "set es \<subseteq> set (ul_list a)" "distinct es"
  shows "\<exists>a' b'. compactLog_loop h lt rt es (a, b) = Some (a', b') \<and> pair_wf h a' b' \<and>
    ul_list a' = filter (\<lambda>x. \<not> (x \<in> set es \<and> evictable lt rt (h x))) (ul_list a) \<and>
    ul_list b' = filter (\<lambda>x. \<not> evicts h lt rt es x) (ul_list b)"
  using assms
proof (induction h lt rt es "(a, b)" arbitrary: a b rule: compactLog_loop.induct)
  case (1 h lt rt a b)
  then show ?case by (auto simp: evicts_def)
next
  case (2 h lt rt e es a b)
  then have e: "e \<in> set (ul_list a)" "e \<notin> set es" "set es \<subseteq> set (ul_list a)" "distinct es"
    and wf: "pair_wf h a b" and wa: "log_wf h a" and wb: "log_wf h b"
    by (auto simp: pair_wf_def)
  have d: "distinct (ul_list a)" "distinct (ul_list b)" using wa wb by (auto simp: log_wf_def)
  show ?case
  proof (cases "evictable lt rt (h e)")
    case False
    then show ?thesis
      using "2.hyps"(1) [OF _ wf e(3,4)] by (auto simp: evicts_def intro!: filter_cong)
  next
    case ev: True
    show ?thesis
    proof (cases "pd_entryType (h e) = FeeUpdate")
      case True
      obtain a' where a': "removeUpdate a (pd_logIndex (h e)) = Some a'" "pair_wf h a' b"
        "ul_list a' = remove1 e (ul_list a)"
        using compact_step_fee [OF wf e(1) True] by blast
      have sub: "set es \<subseteq> set (ul_list a')" using e a'(3) d by (auto simp: set_remove1_eq)
      have "evicts h lt rt (e # es) = evicts h lt rt es"
        using fee_no_resolution [OF True] by (auto simp: evicts_def fun_eq_iff)
      then show ?thesis
        using "2.hyps"(2) [OF _ a'(1) True a'(2) sub e(4)] ev a' True d e
        by (auto simp: distinct_remove1_removeAll removeAll_filter_not_eq intro!: filter_cong)
    next
      case False
      have res: "isResolution (h e)"
        using not_add_kinds evictable_not_add [OF wa e(1) ev] False by blast
      obtain a' b' p where s: "removeUpdate a (pd_logIndex (h e)) = Some a'"
        "removeHtlc b (pd_parentIndex (h e)) = Some b'" "pair_wf h a' b'"
        "ul_list a' = remove1 e (ul_list a)" "ul_list b' = remove1 p (ul_list b)"
        "ul_htlcIndex b (pd_parentIndex (h e)) = Some p"
        using compact_step_resolution [OF wf e(1) res] by blast
      have sub: "set es \<subseteq> set (ul_list a')" using e s(4) d by (auto simp: set_remove1_eq)
      have "evicts h lt rt (e # es) x \<longleftrightarrow> x = p \<or> evicts h lt rt es x" if "x \<in> set (ul_list b)" for x
        using log_wf_htlc [OF wb] s(6) that ev res log_wf_unique(2) [OF wb] by (auto simp: evicts_def)
      then have "filter (\<lambda>x. \<not> evicts h lt rt (e # es) x) (ul_list b)
          = filter (\<lambda>x. \<not> evicts h lt rt es x) (remove1 p (ul_list b))"
        using d by (auto simp: distinct_remove1_removeAll removeAll_filter_not_eq intro!: filter_cong)
      then show ?thesis
        using "2.hyps"(3) [OF _ s(1) False s(2,3) sub e(4)] ev s False d e
        by (auto simp: distinct_remove1_removeAll removeAll_filter_not_eq intro!: filter_cong)
    qed
  qed
qed

section \<open>Both logs\<close>

lemma all_parties: "(\<forall>p. P p) \<longleftrightarrow> P Local \<and> P Remote"
  by (metis channel_party.exhaust)

lemma logs_wf_pair:
  "logs_wf h n logs \<longleftrightarrow> pair_wf h (d_local logs) (d_remote logs) \<and>
     set (ul_list (d_local logs)) \<inter> set (ul_list (d_remote logs)) = {} \<and>
     (\<forall>a \<in> set (ul_list (d_local logs)) \<union> set (ul_list (d_remote logs)). a < n)"
  by (auto simp: logs_wf_def pair_wf_def all_parties)

lemma pair_wf_sym: "pair_wf h a b = pair_wf h b a"
  by (auto simp: pair_wf_def)

text \<open>Which entries of a log survive a compaction.\<close>

definition survives :: "pd_heap \<Rightarrow> u64 \<Rightarrow> u64 \<Rightarrow> update_log dual \<Rightarrow> channel_party \<Rightarrow> nat \<Rightarrow> bool" where
  "survives h lt rt logs p x \<longleftrightarrow>
     \<not> evictable lt rt (h x) \<and>
     \<not> (isAdd (h x) \<and>
        (\<exists>r \<in> set (ul_list (getForParty logs (counterParty p))).
           isResolution (h r) \<and> evictable lt rt (h r) \<and> pd_parentIndex (h r) = pd_htlcIndex (h x)))"

lemma compactLogs_spec:
  assumes wf: "logs_wf h n logs"
  shows "\<exists>logs'. compactLogs h logs lt rt = Some logs' \<and> logs_wf h n logs' \<and>
    (\<forall>p. ul_list (getForParty logs' p)
           = filter (survives h lt rt logs p) (ul_list (getForParty logs p)))"
proof -
  let ?A = "d_local logs" and ?B = "d_remote logs"
  have pw: "pair_wf h ?A ?B" and disj: "set (ul_list ?A) \<inter> set (ul_list ?B) = {}"
    and bound: "\<forall>a \<in> set (ul_list ?A) \<union> set (ul_list ?B). a < n"
    using wf by (auto simp: logs_wf_pair)
  have w: "log_wf h ?A" "log_wf h ?B" "distinct (ul_list ?A)"
    using pw by (auto simp: pair_wf_def log_wf_def)
  obtain A1 B1 where one: "compactLog_loop h lt rt (ul_list ?A) (?A, ?B) = Some (A1, B1)"
    "pair_wf h A1 B1"
    "ul_list A1 = filter (\<lambda>x. \<not> (x \<in> set (ul_list ?A) \<and> evictable lt rt (h x))) (ul_list ?A)"
    "ul_list B1 = filter (\<lambda>x. \<not> evicts h lt rt (ul_list ?A) x) (ul_list ?B)"
    using compactLog_loop_spec [OF pw order_refl w(3), of lt rt] by blast
  have "pair_wf h B1 A1" "distinct (ul_list B1)"
    using one(2) by (auto simp: pair_wf_def log_wf_def)
  then obtain B2 A2 where two: "compactLog_loop h lt rt (ul_list B1) (B1, A1) = Some (B2, A2)"
    "pair_wf h B2 A2"
    "ul_list B2 = filter (\<lambda>x. \<not> (x \<in> set (ul_list B1) \<and> evictable lt rt (h x))) (ul_list B1)"
    "ul_list A2 = filter (\<lambda>x. \<not> evicts h lt rt (ul_list B1) x) (ul_list A1)"
    using compactLog_loop_spec [of h B1 A1 "ul_list B1" lt rt] by blast
  have eb: "evicts h lt rt (ul_list B1) x = evicts h lt rt (ul_list ?B) x" for x
  proof -
    have "r \<in> set (ul_list B1)" if "r \<in> set (ul_list ?B)" "isResolution (h r)" for r
      using that one(4) resolution_not_add by (auto simp: evicts_def)
    then show ?thesis using one(4) by (auto simp: evicts_def)
  qed
  have A: "ul_list A2 = filter (survives h lt rt logs Local) (ul_list ?A)"
    unfolding two(4) one(3) eb filter_filter
    by (rule filter_cong) (auto simp: survives_def evicts_def)
  have B: "ul_list B2 = filter (survives h lt rt logs Remote) (ul_list ?B)"
    unfolding two(3) unfolding one(4) filter_filter
    by (rule filter_cong) (auto simp: survives_def evicts_def)
  have "logs_wf h n (mkDual A2 B2)"
    using two(2) A B disj bound by (auto simp: logs_wf_pair pair_wf_sym)
  moreover have "compactLogs h logs lt rt = Some (mkDual A2 B2)"
    using one(1) two(1) by (simp add: compactLogs_def)
  ultimately show ?thesis using A B by (auto simp: all_parties)
qed

section \<open>Appending to one of the two logs\<close>

lemma resolves_cong:
  assumes "\<And>x. x \<in> set (ul_list a) \<union> set (ul_list b) \<Longrightarrow> same_entry (h x) (h' x)" "log_wf h b"
  shows "resolves h a b \<Longrightarrow> resolves h' a b"
proof -
  assume r: "resolves h a b"
  have e: "pd_parentIndex (h x) = pd_parentIndex (h' x)" "isResolution (h x) = isResolution (h' x)"
    "pd_amount (h x) = pd_amount (h' x)" if "x \<in> set (ul_list a) \<union> set (ul_list b)" for x
    using assms(1) [OF that] same_entry_kinds [OF assms(1) [OF that]] by (simp_all add: same_entry_def)
  have "pd_parentIndex (h' x) \<in> ul_modified b \<and>
      (\<exists>p. ul_htlcIndex b (pd_parentIndex (h' x)) = Some p \<and> pd_amount (h' p) = pd_amount (h' x))"
    if x: "x \<in> set (ul_list a)" "isResolution (h' x)" for x
  proof -
    obtain p where "ul_htlcIndex b (pd_parentIndex (h x)) = Some p" "pd_amount (h p) = pd_amount (h x)"
      "pd_parentIndex (h x) \<in> ul_modified b"
      using resolves_parent [OF r, of x] x e by auto
    moreover from this have "p \<in> set (ul_list b)" using log_wf_htlc [OF assms(2)] by simp
    ultimately show ?thesis using e x by auto
  qed
  then show ?thesis using r e unfolding resolves_def by auto
qed

lemma logs_wf_cong:
  assumes "\<And>x. x < n \<Longrightarrow> same_entry (h x) (h' x)" "logs_wf h n logs"
  shows "logs_wf h' n logs"
proof -
  have w: "pair_wf h (d_local logs) (d_remote logs)"
    and b: "\<forall>a \<in> set (ul_list (d_local logs)) \<union> set (ul_list (d_remote logs)). a < n"
    using assms(2) by (auto simp: logs_wf_pair)
  have "log_wf h' (d_local logs)" "log_wf h' (d_remote logs)"
    using w b assms(1) log_wf_cong [of "d_local logs" h h'] log_wf_cong [of "d_remote logs" h h']
    by (auto simp: pair_wf_def)
  moreover have "resolves h' (d_local logs) (d_remote logs)" "resolves h' (d_remote logs) (d_local logs)"
    using w b assms(1) by (auto simp: pair_wf_def intro!: resolves_cong [of _ _ h h'])
  ultimately show ?thesis using assms(2) by (auto simp: logs_wf_pair pair_wf_def)
qed

lemma logs_wf_next: "logs_wf h n logs \<Longrightarrow> n \<le> m \<Longrightarrow> logs_wf h m logs"
  by (fastforce simp: logs_wf_def)

text \<open>Writing to a fresh address changes nothing.\<close>

lemma logs_wf_fresh: "logs_wf h n logs \<Longrightarrow> logs_wf (h(n := pd)) n logs"
  by (rule logs_wf_cong) auto

lemma setForParty_cases:
  "setForParty d p v = (if p = Local then mkDual v (d_remote d) else mkDual (d_local d) v)"
  by (cases p) (auto simp: mkDual_def)

lemma logs_wf_parts:
  assumes "logs_wf h n logs"
  shows "log_wf h (getForParty logs p)" "log_wf h (getForParty logs (counterParty p))"
    "resolves h (getForParty logs p) (getForParty logs (counterParty p))"
    "resolves h (getForParty logs (counterParty p)) (getForParty logs p)"
  using assms [unfolded logs_wf_def, THEN conjunct1, rule_format]
    assms [unfolded logs_wf_def, THEN conjunct2, THEN conjunct1, rule_format, of p]
    assms [unfolded logs_wf_def, THEN conjunct2, THEN conjunct1, rule_format, of "counterParty p"]
  by simp_all

lemma logs_wf_notin: "logs_wf h n logs \<Longrightarrow> n \<notin> set (ul_list (getForParty logs p))"
  by (auto simp: logs_wf_def)

lemma logs_wf_set:
  assumes "log_wf h u" "log_wf h (getForParty logs (counterParty p))"
    "resolves h u (getForParty logs (counterParty p))"
    "resolves h (getForParty logs (counterParty p)) u"
    "set (ul_list u) \<inter> set (ul_list (getForParty logs (counterParty p))) = {}"
    "\<forall>a \<in> set (ul_list u) \<union> set (ul_list (getForParty logs (counterParty p))). a < m"
  shows "logs_wf h m (setForParty logs p u)"
  using assms by (cases p) (simp_all add: logs_wf_pair pair_wf_def Int_commute Un_commute)

lemma logs_wf_disjoint:
  "logs_wf h n logs \<Longrightarrow>
   set (ul_list (getForParty logs p)) \<inter> set (ul_list (getForParty logs (counterParty p))) = {}"
  by (cases p) (auto simp: logs_wf_pair)

lemma logs_wf_bound: "logs_wf h n logs \<Longrightarrow> a \<in> set (ul_list (getForParty logs p)) \<Longrightarrow> a < n"
  by (simp add: logs_wf_def)

lemma resolves_push_left:
  assumes "resolves h a b" "ul_list a' = ul_list a @ [n]" "\<not> isResolution (h n)"
  shows "resolves h a' b"
proof -
  have "r \<in> set (ul_list a') \<and> isResolution (h r) \<longleftrightarrow> r \<in> set (ul_list a) \<and> isResolution (h r)" for r
    using assms(2,3) by auto
  then show ?thesis using assms(1) unfolding resolves_def by (metis (no_types, lifting))
qed

lemma resolves_push_right:
  assumes "resolves h b a" "log_wf h a"
  shows "resolves h b (appendHtlc a n)" "resolves h b (appendUpdate a n)"
proof -
  have "ul_htlcIndex (appendHtlc a n) (pd_parentIndex (h r)) = ul_htlcIndex a (pd_parentIndex (h r))"
    if r: "r \<in> set (ul_list b)" "isResolution (h r)" for r
  proof -
    obtain q where "ul_htlcIndex a (pd_parentIndex (h r)) = Some q"
      using resolves_parent [OF assms(1) r] by blast
    then have "q \<in> set (ul_list a)" "isAdd (h q)" "pd_htlcIndex (h q) = pd_parentIndex (h r)"
      using log_wf_htlc [OF assms(2)] by simp_all
    then have "pd_parentIndex (h r) < ul_htlcCounter a" using assms(2) by (auto simp: log_wf_def)
    then show ?thesis by (auto simp: appendHtlc_def)
  qed
  then show "resolves h b (appendHtlc a n)"
    by (intro resolves_mono [OF assms(1)]) (simp_all add: appendHtlc_def)
  show "resolves h b (appendUpdate a n)"
    by (rule resolves_mono [OF assms(1)]) (simp_all add: appendUpdate_def)
qed

text \<open>An add at the end of a log.\<close>

lemma logs_wf_append_add:
  assumes wf: "logs_wf h n logs" and pd: "isAdd pd" "pd_logIndex pd = ul_logIndex (getForParty logs p)"
    "pd_htlcIndex pd = ul_htlcCounter (getForParty logs p)" "pd_rmvHeights pd = mkDual 0 0"
    and bound: "ul_logIndex (getForParty logs p) \<noteq> -1" "ul_htlcCounter (getForParty logs p) \<noteq> -1"
  shows "logs_wf (h(n := pd)) (Suc n) (setForParty logs p (appendHtlc (getForParty logs p) n))"
proof -
  define h' where "h' = h(n := pd)"
  have hn: "h' n = pd" by (simp add: h'_def)
  let ?u = "getForParty logs p" and ?v = "getForParty logs (counterParty p)"
  have w': "logs_wf h' n logs" unfolding h'_def by (rule logs_wf_fresh [OF wf])
  note w = logs_wf_parts [OF w', of p]
  have n: "n \<notin> set (ul_list ?u)" "n \<notin> set (ul_list ?v)" using logs_wf_notin [OF w'] by auto
  have l: "ul_list (appendHtlc ?u n) = ul_list ?u @ [n]" by (simp add: appendHtlc_def)
  have "logs_wf h' (Suc n) (setForParty logs p (appendHtlc ?u n))"
  proof (rule logs_wf_set)
    show "log_wf h' (appendHtlc ?u n)"
      by (rule appendHtlc_wf [OF w(1) n(1)]) (use pd bound hn in auto)
    show "resolves h' (appendHtlc ?u n) ?v"
      by (rule resolves_push_left [OF w(3) l]) (use pd(1) hn resolution_not_add in auto)
    show "resolves h' ?v (appendHtlc ?u n)" by (rule resolves_push_right(1) [OF w(4,1)])
    show "set (ul_list (appendHtlc ?u n)) \<inter> set (ul_list ?v) = {}"
      using logs_wf_disjoint [OF w'] n l by auto
    show "\<forall>a \<in> set (ul_list (appendHtlc ?u n)) \<union> set (ul_list ?v). a < Suc n"
      using logs_wf_bound [OF w'] l by (auto simp: less_Suc_eq)
  qed (rule w(2))
  then show ?thesis by (simp add: h'_def)
qed

text \<open>A fee update at the end of a log.\<close>

lemma logs_wf_append_fee:
  assumes wf: "logs_wf h n logs" and pd: "pd_entryType pd = FeeUpdate"
    "pd_logIndex pd = ul_logIndex (getForParty logs p)"
    and bound: "ul_logIndex (getForParty logs p) \<noteq> -1"
  shows "logs_wf (h(n := pd)) (Suc n) (setForParty logs p (appendUpdate (getForParty logs p) n))"
proof -
  define h' where "h' = h(n := pd)"
  have hn: "h' n = pd" by (simp add: h'_def)
  let ?u = "getForParty logs p" and ?v = "getForParty logs (counterParty p)"
  have w': "logs_wf h' n logs" unfolding h'_def by (rule logs_wf_fresh [OF wf])
  note w = logs_wf_parts [OF w', of p]
  have n: "n \<notin> set (ul_list ?u)" "n \<notin> set (ul_list ?v)" using logs_wf_notin [OF w'] by auto
  have l: "ul_list (appendUpdate ?u n) = ul_list ?u @ [n]" by (simp add: appendUpdate_def)
  note kinds = fee_no_resolution [OF pd(1)]
  have "logs_wf h' (Suc n) (setForParty logs p (appendUpdate ?u n))"
  proof (rule logs_wf_set)
    show "log_wf h' (appendUpdate ?u n)"
      by (rule appendUpdate_wf [OF w(1) n(1)]) (use pd bound hn kinds in auto)
    show "resolves h' (appendUpdate ?u n) ?v"
      by (rule resolves_push_left [OF w(3) l]) (use kinds hn in auto)
    show "resolves h' ?v (appendUpdate ?u n)" by (rule resolves_push_right(2) [OF w(4,1)])
    show "set (ul_list (appendUpdate ?u n)) \<inter> set (ul_list ?v) = {}"
      using logs_wf_disjoint [OF w'] n l by auto
    show "\<forall>a \<in> set (ul_list (appendUpdate ?u n)) \<union> set (ul_list ?v). a < Suc n"
      using logs_wf_bound [OF w'] l by (auto simp: less_Suc_eq)
  qed (rule w(2))
  then show ?thesis by (simp add: h'_def)
qed

text \<open>A settle or fail at the end of one log, its add marked in the other.\<close>

lemma logs_wf_append_resolution:
  assumes wf: "logs_wf h n logs" and pd: "isResolution pd"
    "pd_logIndex pd = ul_logIndex (getForParty logs p)"
    and parent: "lookupHtlc (getForParty logs (counterParty p)) i = Some a"
    "\<not> htlcHasModification (getForParty logs (counterParty p)) i"
    "pd_parentIndex pd = i" "pd_amount pd = pd_amount (h a)"
    and bound: "ul_logIndex (getForParty logs p) \<noteq> -1"
  shows "logs_wf (h(n := pd)) (Suc n)
    (setForParty (setForParty logs p (appendUpdate (getForParty logs p) n)) (counterParty p)
       (markHtlcModified (getForParty logs (counterParty p)) i))"
proof -
  define h' where "h' = h(n := pd)"
  have hn: "h' n = pd" by (simp add: h'_def)
  let ?u = "getForParty logs p" and ?v = "getForParty logs (counterParty p)"
  let ?u' = "appendUpdate ?u n" and ?v' = "markHtlcModified ?v i"
  have w': "logs_wf h' n logs" unfolding h'_def by (rule logs_wf_fresh [OF wf])
  note w = logs_wf_parts [OF w', of p]
  have n: "n \<notin> set (ul_list ?u)" "n \<notin> set (ul_list ?v)" using logs_wf_notin [OF w'] by auto
  have l: "ul_list ?u' = ul_list ?u @ [n]" "ul_list ?v' = ul_list ?v"
    "ul_htlcIndex ?v' = ul_htlcIndex ?v" "ul_modified ?v' = insert i (ul_modified ?v)"
    by (simp_all add: appendUpdate_def markHtlcModified_def)
  have look: "ul_htlcIndex ?v i = Some a" "i \<notin> ul_modified ?v"
    using parent by (simp_all add: lookupHtlc_def htlcHasModification_def)
  then have "a \<in> set (ul_list ?v)" using log_wf_htlc [OF w(2)] by simp
  then have "a \<noteq> n" using n by auto
  then have am: "pd_amount (h' a) = pd_amount pd" using parent(4) by (simp add: h'_def)
  have res: "resolves h' ?u' ?v'"
    unfolding resolves_def
  proof (intro conjI ballI impI)
    fix r assume r: "r \<in> set (ul_list ?u')" "isResolution (h' r)"
    show "pd_parentIndex (h' r) \<in> ul_modified ?v'"
      using r l w(3) parent(3) hn by (auto simp: resolves_def)
    show "\<exists>q. ul_htlcIndex ?v' (pd_parentIndex (h' r)) = Some q \<and> pd_amount (h' q) = pd_amount (h' r)"
      using r l w(3) parent(3) hn look(1) am by (auto simp: resolves_def)
  next
    fix r s assume r: "r \<in> set (ul_list ?u')" "isResolution (h' r)"
      and s: "s \<in> set (ul_list ?u')" "isResolution (h' s)"
      and eq: "pd_parentIndex (h' r) = pd_parentIndex (h' s)"
    have old: "pd_parentIndex (h' x) \<noteq> i" if "x \<in> set (ul_list ?u)" "isResolution (h' x)" for x
      using that w(3) look(2) by (auto simp: resolves_def)
    have new: "pd_parentIndex (h' n) = i" using hn parent(3) by simp
    show "r = s"
      using r s eq l old new resolves_once [OF w(3)] by (metis UnE set_append empty_iff
          list.set(1) set_ConsD)
  qed
  have "log_wf h' ?v'" by (rule markHtlcModified_wf [OF w(2)]) (use look in auto)
  moreover have "log_wf h' ?u'"
    by (rule appendUpdate_wf [OF w(1) n(1)]) (use pd bound hn resolution_not_add in auto)
  moreover have "resolves h' ?v ?u'" by (rule resolves_push_right(2) [OF w(4,1)])
  then have "resolves h' ?v' ?u'" by (rule resolves_mono) (simp_all add: l)
  moreover have "set (ul_list ?v') \<inter> set (ul_list ?u') = {}"
    using logs_wf_disjoint [OF w', of p] n l by auto
  moreover have "\<forall>a \<in> set (ul_list ?v') \<union> set (ul_list ?u'). a < Suc n"
    using logs_wf_bound [OF w'] l by (auto simp: less_Suc_eq)
  ultimately have "logs_wf h' (Suc n) (setForParty (setForParty logs p ?u') (counterParty p) ?v')"
    using res logs_wf_set [of h' ?v' "setForParty logs p ?u'" "counterParty p" "Suc n"] by simp
  then show ?thesis by (simp add: h'_def)
qed

end
