(* ===== verification/Channel.thy ===== *)
theory Channel
  imports Update_Log Shachain
begin

text \<open>
  The commitment state machine of \<open>lnwallet/channel.go\<close>: the state of a \<open>LightningChannel\<close>, the
  evaluation of its update logs into a commitment view, the checks on a new commitment and the
  update operations. Descriptors live on the heap \<open>lc_heap\<close>; the logs, and the views computed from
  them, hold addresses, so that a mutation made while a view is evaluated is seen through the logs
  as it is in Go. Every operation returns the state it leaves, also when it fails.
\<close>

section \<open>State\<close>

record channel_config =
  cc_dustLimit :: int
  cc_chanReserve :: int
  cc_minHTLC :: msat
  cc_maxPendingAmount :: msat
  cc_maxAcceptedHtlcs :: u16

text \<open>\<open>channeldb.HTLC\<close> and \<open>channeldb.ChannelCommitment\<close>, without scripts and signatures.\<close>

record disk_htlc =
  dh_rHash :: "byte list"
  dh_amt :: msat
  dh_refundTimeout :: u32
  dh_htlcIndex :: u64
  dh_logIndex :: u64
  dh_incoming :: bool
  dh_onionBlob :: "byte list"
  dh_blindingPoint :: "byte list option"
  dh_customRecords :: "u64 \<rightharpoonup> byte list"

record disk_commitment =
  dc_commitHeight :: u64
  dc_localLogIndex :: u64
  dc_localHtlcIndex :: u64
  dc_remoteLogIndex :: u64
  dc_remoteHtlcIndex :: u64
  dc_localBalance :: msat
  dc_remoteBalance :: msat
  dc_commitFee :: int
  dc_feePerKw :: int
  dc_htlcs :: "disk_htlc list"

text \<open>
  \<open>channeldb.CommitDiff\<close> without its signatures, \<open>channeldb.FwdPkg\<close> without its filters, and the
  buckets of the channel that the state machine writes: \<open>db_frozen\<close> is a channel marked as restored
  or borked, whose updates the database refuses, and \<open>db_restored\<close> one marked as restored.
\<close>

record commit_diff =
  cd_commitment :: disk_commitment
  cd_logUpdates :: "log_update list"
  cd_openedCircuitKeys :: "circuit_key list"
  cd_closedCircuitKeys :: "circuit_key list"
  cd_addAcks :: "add_ref list"
  cd_settleFailAcks :: "settle_fail_ref list"

record fwd_pkg =
  fp_source :: u64
  fp_height :: u64
  fp_adds :: "log_update list"
  fp_settleFails :: "log_update list"

record channel_db =
  db_frozen :: bool
  db_restored :: bool
  db_commitDiff :: "commit_diff option"
  db_lastWasRevoke :: bool
  db_unsignedAckedUpdates :: "log_update list option"
  db_remoteUnsignedLocalUpdates :: "log_update list option"
  db_revocationLog :: "disk_commitment list"
  db_fwdPkgs :: "fwd_pkg list"

record channel =
  lc_isInitiator :: bool
  lc_chanType :: channel_type
  lc_capacity :: int
  lc_localCfg :: channel_config
  lc_remoteCfg :: channel_config
  lc_localCommitment :: disk_commitment
  lc_remoteCommitment :: disk_commitment
  lc_totalSent :: msat
  lc_totalReceived :: msat
  lc_chains :: "commitmentChain dual"
  lc_logs :: "update_log dual"
  lc_heap :: pd_heap
  lc_next :: nat
  lc_currentHeight :: u64
  lc_shortChanID :: u64
  lc_channelID :: "byte list"
  lc_producer :: element
  lc_store :: revocation_store
  lc_remoteCurrentRevocation :: "byte list option"
  lc_remoteNextRevocation :: "byte list option"
  lc_db :: channel_db

datatype channel_error =
    ErrBelowChanReserve | ErrFeeBufferNotInitiator | ErrInvalidHTLCAmt | ErrBelowMinHTLC
  | ErrMaxPendingAmount | ErrMaxHTLCNumber | ErrNoWindow
  | ParentNotFound u64 | ParentNotCommitted u64 | FeeBelowFloor int
  | ErrUnknownHtlcIndex u64 u64 | ErrHtlcIndexAlreadySettled u64 | ErrHtlcIndexAlreadyFailed u64
  | ErrInvalidSettlePreimage "byte list" "byte list" | UnexpectedHtlcID u64 u64
  | FeeUpdateAsNonInitiator | FeeUpdateAsInitiator | CannotApplyFee int msat msat
  | CommitTxFailed | CapacityExceeded u64 int int | FeeRateTooLow u64 int
  | SignatureRejected | DbRefused | RevocationRejected sc_error | RevocationKeyMismatch
  | OutputIndexNotFound | GoPanic
  | UnknownMessageType | UnsignedUpdateBeyondLog u64 | ErrNoPendingCommit
  | NonceNotSent | MusigFailed | ErrInvalidLastCommitSecret | ErrCannotSyncCommitChains
  | ErrCommitSyncLocalDataLoss "byte list option" | ErrCommitSyncRemoteDataLoss
  | ErrInvalidLocalUnrevokedCommitPoint

section \<open>Views\<close>

record htlc_view =
  hv_nextHeight :: u64
  hv_updates :: "nat list dual"
  hv_feePerKw :: int

text \<open>\<open>channelState.Initiator()\<close>.\<close>

definition initiator :: "channel \<Rightarrow> channel_party" where
  "initiator lc = (if lc_isInitiator lc then Local else Remote)"

definition cfgOf :: "channel \<Rightarrow> channel_party \<Rightarrow> channel_config" where
  "cfgOf lc p = (case p of Local \<Rightarrow> lc_localCfg lc | Remote \<Rightarrow> lc_remoteCfg lc)"

definition fetchHTLCView :: "channel \<Rightarrow> u64 \<Rightarrow> u64 \<Rightarrow> htlc_view" where
  "fetchHTLCView lc theirLogIndex ourLogIndex =
     \<lparr>hv_nextHeight = 0,
      hv_updates = mkDual
        (filter (\<lambda>a. pd_logIndex (lc_heap lc a) < ourLogIndex) (ul_list (d_local (lc_logs lc))))
        (filter (\<lambda>a. pd_logIndex (lc_heap lc a) < theirLogIndex) (ul_list (d_remote (lc_logs lc)))),
      hv_feePerKw = 0\<rparr>"

definition fetchParent ::
  "update_log dual \<Rightarrow> pd_heap \<Rightarrow> paymentDescriptor \<Rightarrow> channel_party \<Rightarrow> channel_party
    \<Rightarrow> channel_error + nat" where
  "fetchParent logs h entry whoseCommitChain whoseUpdateLog =
     (case lookupHtlc (getForParty logs whoseUpdateLog) (pd_parentIndex entry) of
        None \<Rightarrow> Inl (ParentNotFound (pd_parentIndex entry))
      | Some addEntry \<Rightarrow>
          if getForParty (pd_addHeights (h addEntry)) whoseCommitChain = 0
          then Inl (ParentNotCommitted (pd_parentIndex entry))
          else Inr addEntry)"

text \<open>The signed delta is added to, or its magnitude subtracted from, an unsigned balance.\<close>

definition applyDelta :: "msat \<Rightarrow> int \<Rightarrow> msat" where
  "applyDelta b d = (if d \<ge> 0 then b + u64_of_i64 d else b - u64_of_i64 (i64 (-1 * d)))"

definition balanceAboveReserve :: "channel_party \<Rightarrow> int \<Rightarrow> channel \<Rightarrow> bool" where
  "balanceAboveReserve party delta lc =
     (case party of
        Local \<Rightarrow> applyDelta (dc_localBalance (lc_localCommitment lc)) delta
                  > newMSatFromSatoshis (cc_chanReserve (lc_localCfg lc))
      | Remote \<Rightarrow> applyDelta (dc_remoteBalance (lc_remoteCommitment lc)) delta
                  > newMSatFromSatoshis (cc_chanReserve (lc_remoteCfg lc)))"

definition evaluateNoOpHtlc ::
  "channel \<Rightarrow> pd_heap \<Rightarrow> nat \<Rightarrow> channel_party \<Rightarrow> int dual \<Rightarrow> pd_heap \<times> int dual" where
  "evaluateNoOpHtlc lc h entry party balanceDeltas =
     (let delta = getForParty balanceDeltas party;
          above = balanceAboveReserve party delta lc;
          party' = (if above then counterParty party else party);
          h' = (if above then h(entry := (h entry)\<lparr>pd_noOpSettle := True\<rparr>) else h);
          d = i64_of_u64 (pd_amount (h entry))
      in (h', modifyForParty balanceDeltas party' (\<lambda>acc. i64 (acc + d))))"

text \<open>
  The first pass of \<open>evaluateHTLCView\<close> over the resolutions of one party: \<open>skip\<close> sets and balance
  deltas, and the heap with the flags of effective no-op settles.
\<close>

fun evalResolutions ::
  "channel \<Rightarrow> channel_party \<Rightarrow> channel_party \<Rightarrow> nat list \<Rightarrow> pd_heap \<Rightarrow> u64 set dual \<Rightarrow> int dual
    \<Rightarrow> pd_heap \<times> (channel_error + u64 set dual \<times> int dual)" where
  "evalResolutions lc whose party [] h skip deltas = (h, Inr (skip, deltas))"
| "evalResolutions lc whose party (e # es) h skip deltas =
     (case fetchParent (lc_logs lc) h (h e) whose (counterParty party) of
        Inl err \<Rightarrow> (h, Inl err)
      | Inr addEntry \<Rightarrow>
          let skip' = modifyForParty skip (counterParty party) (insert (pd_htlcIndex (h addEntry)));
              d = i64_of_u64 (pd_amount (h e))
          in if getForParty (pd_rmvHeights (h e)) whose \<noteq> 0
             then evalResolutions lc whose party es h skip' deltas
             else if pd_entryType (h e) = Settle \<and> pd_entryType (h addEntry) = NoOpAdd then
               (case evaluateNoOpHtlc lc h e party deltas of
                  (h', deltas') \<Rightarrow> evalResolutions lc whose party es h' skip' deltas')
             else if pd_entryType (h e) = Settle then
               evalResolutions lc whose party es h skip'
                 (modifyForParty deltas party (\<lambda>acc. i64 (acc + d)))
             else
               evalResolutions lc whose party es h skip'
                 (modifyForParty deltas (counterParty party) (\<lambda>acc. i64 (acc + d))))"

definition liveAdds :: "pd_heap \<Rightarrow> u64 set \<Rightarrow> nat list \<Rightarrow> nat list" where
  "liveAdds h skip us = filter (\<lambda>a. isAdd (h a) \<and> pd_htlcIndex (h a) \<notin> skip) us"

definition debitAdds :: "pd_heap \<Rightarrow> channel_party \<Rightarrow> nat list \<Rightarrow> int \<Rightarrow> int" where
  "debitAdds h whose adds acc =
     foldl (\<lambda>acc a. if getForParty (pd_addHeights (h a)) whose = 0
                    then i64 (acc - i64_of_u64 (pd_amount (h a))) else acc) acc adds"

definition isUncommitted :: "pd_heap \<Rightarrow> channel_party \<Rightarrow> nat \<Rightarrow> bool" where
  "isUncommitted h whose a =
     (if isResolution (h a) then getForParty (pd_rmvHeights (h a)) whose = 0
      else getForParty (pd_addHeights (h a)) whose = 0)"

text \<open>The fee rate of the view: the opener's last fee update, if there is one.\<close>

definition viewFee :: "channel \<Rightarrow> htlc_view \<Rightarrow> int" where
  "viewFee lc view =
     (let feeUpdates = filter (\<lambda>a. pd_entryType (lc_heap lc a) = FeeUpdate)
            (getForParty (hv_updates view) (initiator lc))
      in if feeUpdates = [] then hv_feePerKw view
         else toSatoshis (pd_amount (lc_heap lc (last feeUpdates))))"

definition evaluateHTLCView ::
  "channel \<Rightarrow> htlc_view \<Rightarrow> channel_party \<Rightarrow> u64
    \<Rightarrow> pd_heap \<times> (channel_error + htlc_view \<times> nat list dual \<times> int dual)" where
  "evaluateHTLCView lc view whose nextHeight =
     (let h0 = lc_heap lc;
          us = hv_updates view;
          feePerKw = viewFee lc view
      in case evalResolutions lc whose Local (filter (\<lambda>a. isResolution (h0 a)) (d_local us))
                h0 (mkDual {} {}) (mkDual 0 0) of
           (h1, Inl err) \<Rightarrow> (h1, Inl err)
         | (h1, Inr (skip1, deltas1)) \<Rightarrow>
             (case evalResolutions lc whose Remote (filter (\<lambda>a. isResolution (h1 a)) (d_remote us))
                     h1 skip1 deltas1 of
                (h2, Inl err) \<Rightarrow> (h2, Inl err)
              | (h2, Inr (skip2, deltas2)) \<Rightarrow>
                  let liveL = liveAdds h2 (d_local skip2) (d_local us);
                      deltas3 = modifyForParty deltas2 Local (debitAdds h2 whose liveL);
                      liveR = liveAdds h2 (d_remote skip2) (d_remote us);
                      deltas4 = modifyForParty deltas3 Remote (debitAdds h2 whose liveR)
                  in (h2, Inr (\<lparr>hv_nextHeight = nextHeight, hv_updates = mkDual liveL liveR,
                                hv_feePerKw = feePerKw\<rparr>,
                               mapDual (filter (isUncommitted h2 whose)) us,
                               deltas4))))"

section \<open>Computing a view\<close>

definition recordSettlement :: "channel \<Rightarrow> channel_party \<Rightarrow> msat \<Rightarrow> channel" where
  "recordSettlement lc redeemer amt =
     (if redeemer = Local then lc\<lparr>lc_totalReceived := lc_totalReceived lc + amt\<rparr>
      else lc\<lparr>lc_totalSent := lc_totalSent lc + amt\<rparr>)"

text \<open>The loop that locks the uncommitted updates of one party in at the next height.\<close>

fun lockIn :: "channel_party \<Rightarrow> u64 \<Rightarrow> channel_party \<Rightarrow> nat list \<Rightarrow> channel \<Rightarrow> channel" where
  "lockIn whose nextHeight party [] lc = lc"
| "lockIn whose nextHeight party (u # us) lc =
     (let pd = setCommitHeight whose nextHeight (lc_heap lc u);
          lc1 = lc\<lparr>lc_heap := (lc_heap lc)(u := pd)\<rparr>;
          lc2 = (if whose = Local \<and> pd_entryType pd = Settle \<and> \<not> pd_noOpSettle pd
                 then recordSettlement lc1 party (pd_amount pd) else lc1)
      in lockIn whose nextHeight party us lc2)"

definition dustFilter :: "channel \<Rightarrow> pd_heap \<Rightarrow> bool \<Rightarrow> channel_party \<Rightarrow> int \<Rightarrow> nat list \<Rightarrow> nat list" where
  "dustFilter lc h incoming whose feePerKw adds =
     filter (\<lambda>a. \<not> htlcIsDust (lc_chanType lc) incoming whose feePerKw
                    (toSatoshis (pd_amount (h a))) (cc_dustLimit (cfgOf lc whose))) adds"

definition viewWeight :: "channel \<Rightarrow> pd_heap \<Rightarrow> channel_party \<Rightarrow> int \<Rightarrow> nat list dual \<Rightarrow> u64" where
  "viewWeight lc h whose feePerKw updates =
     (let totalHtlcWeight =
        of_nat (length (dustFilter lc h False whose feePerKw (d_local updates))
                + length (dustFilter lc h True whose feePerKw (d_remote updates))) * htlcWeight
      in commitWeight (lc_chanType lc) + totalHtlcWeight)"

definition computeView ::
  "channel \<Rightarrow> htlc_view \<Rightarrow> channel_party \<Rightarrow> bool \<Rightarrow> int option
    \<Rightarrow> channel \<times> (channel_error + msat \<times> msat \<times> u64 \<times> htlc_view)" where
  "computeView lc view whose updateState dryRunFee =
     (let t = tip (getForParty (lc_chains lc) whose);
          ourBalance0 = (if lc_isInitiator lc then cm_ourBalance t + newMSatFromSatoshis (cm_fee t)
                         else cm_ourBalance t);
          theirBalance0 = (if lc_isInitiator lc then cm_theirBalance t
                           else cm_theirBalance t + newMSatFromSatoshis (cm_fee t));
          nextHeight = cm_height t + 1;
          view' = view\<lparr>hv_feePerKw := cm_feePerKw t, hv_nextHeight := nextHeight\<rparr>
      in case evaluateHTLCView lc view' whose nextHeight of
           (h', Inl err) \<Rightarrow> (lc\<lparr>lc_heap := h'\<rparr>, Inl err)
         | (h', Inr (filtered, uncommitted, deltas)) \<Rightarrow>
             let ourBalance = applyDelta ourBalance0 (d_local deltas);
                 theirBalance = applyDelta theirBalance0 (d_remote deltas);
                 lc1 = lc\<lparr>lc_heap := h'\<rparr>;
                 lc2 = (if updateState
                        then lockIn whose nextHeight Remote (d_remote uncommitted)
                               (lockIn whose nextHeight Local (d_local uncommitted) lc1)
                        else lc1);
                 feePerKw = (if updateState then hv_feePerKw filtered
                             else case dryRunFee of None \<Rightarrow> hv_feePerKw filtered | Some f \<Rightarrow> f)
             in if i64_of_u64 ourBalance < 0 then (lc2, Inl ErrBelowChanReserve)
                else if i64_of_u64 theirBalance < 0 then (lc2, Inl ErrBelowChanReserve)
                else (lc2, Inr (ourBalance, theirBalance,
                                viewWeight lc2 (lc_heap lc2) whose feePerKw (hv_updates filtered),
                                filtered)))"

end
