(* ===== verification/Channel_View.thy ===== *)
theory Channel_View
  imports Channel
begin

text \<open>
  What the evaluation of a view computes: the balance deltas, the surviving HTLCs and the skip sets
  of \<open>evaluateHTLCView\<close>, and the law that the value of a commitment is conserved by it.
\<close>

section \<open>What an evaluation may write\<close>

text \<open>Evaluating a view sets \<open>noOpSettle\<close> flags and writes nothing else.\<close>

definition noop_ext :: "pd_heap \<Rightarrow> pd_heap \<Rightarrow> bool" where
  "noop_ext h h' \<longleftrightarrow> (\<forall>a. h' a = h a \<or> h' a = (h a)\<lparr>pd_noOpSettle := True\<rparr>)"

lemma noop_ext_refl [simp]: "noop_ext h h"
  by (simp add: noop_ext_def)

lemma noop_ext_trans: "noop_ext h h1 \<Longrightarrow> noop_ext h1 h2 \<Longrightarrow> noop_ext h h2"
  unfolding noop_ext_def by (metis paymentDescriptor.surjective paymentDescriptor.update_convs(20))

lemma noop_ext_fields:
  assumes "noop_ext h h'"
  shows "pd_entryType (h' a) = pd_entryType (h a)" "pd_amount (h' a) = pd_amount (h a)"
    "pd_htlcIndex (h' a) = pd_htlcIndex (h a)" "pd_logIndex (h' a) = pd_logIndex (h a)"
    "pd_parentIndex (h' a) = pd_parentIndex (h a)" "pd_addHeights (h' a) = pd_addHeights (h a)"
    "pd_rmvHeights (h' a) = pd_rmvHeights (h a)" "isAdd (h' a) = isAdd (h a)"
    "isResolution (h' a) = isResolution (h a)"
  using assms by (auto simp: noop_ext_def isAdd_def isResolution_def dest!: spec [of _ a])

lemma noop_ext_same: "noop_ext h h' \<Longrightarrow> same_entry (h a) (h' a)"
  by (simp add: same_entry_def noop_ext_fields)

lemma evaluateNoOpHtlc_spec:
  assumes "evaluateNoOpHtlc lc h e party deltas = (h', deltas')"
  shows "noop_ext h h'"
    "u64_of_i64 (d_local deltas') + u64_of_i64 (d_remote deltas')
      = u64_of_i64 (d_local deltas) + u64_of_i64 (d_remote deltas) + pd_amount (h e)"
proof -
  show "noop_ext h h'"
  proof -
    have "h' = h \<or> h' = h(e := (h e)\<lparr>pd_noOpSettle := True\<rparr>)"
      using assms by (simp add: evaluateNoOpHtlc_def Let_def) (elim conjE, hypsubst, simp)
    then show ?thesis by (auto simp: noop_ext_def)
  qed
  obtain q where "deltas' = modifyForParty deltas q (\<lambda>acc. i64 (acc + i64_of_u64 (pd_amount (h e))))"
    using assms by (auto simp: evaluateNoOpHtlc_def Let_def)
  then show "u64_of_i64 (d_local deltas') + u64_of_i64 (d_remote deltas')
      = u64_of_i64 (d_local deltas) + u64_of_i64 (d_remote deltas) + pd_amount (h e)"
    by (cases q) (simp_all add: modifyForParty_def u64_of_i64_add)
qed

section \<open>The first pass\<close>

definition amounts :: "pd_heap \<Rightarrow> nat list \<Rightarrow> msat" where
  "amounts h xs = sum_list (map (\<lambda>a. pd_amount (h a)) xs)"

definition addC :: "pd_heap \<Rightarrow> channel_party \<Rightarrow> nat \<Rightarrow> bool" where
  "addC h w a \<longleftrightarrow> getForParty (pd_addHeights (h a)) w \<noteq> 0"

definition rmvC :: "pd_heap \<Rightarrow> channel_party \<Rightarrow> nat \<Rightarrow> bool" where
  "rmvC h w a \<longleftrightarrow> getForParty (pd_rmvHeights (h a)) w \<noteq> 0"

lemma noop_ext_amounts: "noop_ext h h' \<Longrightarrow> amounts h' xs = amounts h xs"
  by (simp add: amounts_def noop_ext_fields)

lemma noop_ext_C: "noop_ext h h' \<Longrightarrow> addC h' w a = addC h w a"
  "noop_ext h h' \<Longrightarrow> rmvC h' w a = rmvC h w a"
  by (simp_all add: addC_def rmvC_def noop_ext_fields)

lemma amounts_simps [simp]:
  "amounts h [] = 0" "amounts h (x # xs) = pd_amount (h x) + amounts h xs"
  "amounts h (xs @ ys) = amounts h xs + amounts h ys"
  by (simp_all add: amounts_def)

definition dsum :: "int dual \<Rightarrow> u64" where
  "dsum d = u64_of_i64 (d_local d) + u64_of_i64 (d_remote d)"

lemma dsum_modify: "dsum (modifyForParty d q (\<lambda>acc. i64 (acc + x))) = dsum d + u64_of_i64 x"
  by (cases q) (simp_all add: dsum_def modifyForParty_def u64_of_i64_add)

lemma evalResolutions_spec:
  assumes "evalResolutions lc w p es h skip deltas = (h', Inr (skip', deltas'))"
  shows "noop_ext h h' \<and>
    dsum deltas' = dsum deltas + amounts h (filter (\<lambda>e. \<not> rmvC h w e) es) \<and>
    getForParty skip' p = getForParty skip p \<and>
    (\<forall>e \<in> set es. \<exists>a. ul_htlcIndex (getForParty (lc_logs lc) (counterParty p)) (pd_parentIndex (h e))
                         = Some a \<and> addC h w a) \<and>
    getForParty skip' (counterParty p) = getForParty skip (counterParty p) \<union>
      {pd_htlcIndex (h a) | a e. e \<in> set es \<and>
         ul_htlcIndex (getForParty (lc_logs lc) (counterParty p)) (pd_parentIndex (h e)) = Some a}"
  using assms
proof (induction lc w p es h skip deltas rule: evalResolutions.induct)
  case (1 lc w p h skip deltas)
  then show ?case by simp
next
  case (2 lc w p e es h skip deltas)
  let ?log = "getForParty (lc_logs lc) (counterParty p)"
  obtain a where a: "ul_htlcIndex ?log (pd_parentIndex (h e)) = Some a" "addC h w a"
    and fp: "fetchParent (lc_logs lc) h (h e) w (counterParty p) = Inr a"
    using "2.prems" by (auto simp: fetchParent_def lookupHtlc_def addC_def split: option.splits if_splits)
  define sk where "sk = modifyForParty skip (counterParty p) (insert (pd_htlcIndex (h a)))"
  have sk: "getForParty sk p = getForParty skip p"
    "getForParty sk (counterParty p) = insert (pd_htlcIndex (h a)) (getForParty skip (counterParty p))"
    by (auto simp: sk_def)
  have step: "\<exists>h1 d1. noop_ext h h1 \<and> evalResolutions lc w p es h1 sk d1 = (h', Inr (skip', deltas')) \<and>
      dsum d1 = dsum deltas + (if rmvC h w e then 0 else pd_amount (h e)) \<and>
      (evalResolutions lc w p es h1 sk d1 = (h', Inr (skip', deltas')) \<longrightarrow>
        noop_ext h1 h' \<and>
        dsum deltas' = dsum d1 + amounts h1 (filter (\<lambda>e. \<not> rmvC h1 w e) es) \<and>
        getForParty skip' p = getForParty sk p \<and>
        (\<forall>e \<in> set es. \<exists>a. ul_htlcIndex ?log (pd_parentIndex (h1 e)) = Some a \<and> addC h1 w a) \<and>
        getForParty skip' (counterParty p) = getForParty sk (counterParty p) \<union>
          {pd_htlcIndex (h1 a) | a e. e \<in> set es \<and> ul_htlcIndex ?log (pd_parentIndex (h1 e)) = Some a})"
  proof (cases "rmvC h w e")
    case True
    then show ?thesis using "2.prems" "2.IH"(1) [OF fp] fp
      by (intro exI [of _ h] exI [of _ deltas]) (auto simp: rmvC_def sk_def Let_def)
  next
    case nr: False
    show ?thesis
    proof (cases "pd_entryType (h e) = Settle \<and> pd_entryType (h a) = NoOpAdd")
      case True
      obtain h1 d1 where ev: "evaluateNoOpHtlc lc h e p deltas = (h1, d1)" by fastforce
      then show ?thesis using "2.prems" "2.IH"(2) [OF fp] fp True nr evaluateNoOpHtlc_spec [OF ev]
        by (intro exI [of _ h1] exI [of _ d1]) (auto simp: rmvC_def sk_def Let_def dsum_def)
    next
      case noop: False
      show ?thesis
      proof (cases "pd_entryType (h e) = Settle")
        case True
        then show ?thesis using "2.prems" "2.IH"(3) [OF fp] fp noop nr
          by (intro exI [of _ h] exI) (auto simp: rmvC_def sk_def Let_def dsum_modify)
      next
        case False
        then show ?thesis using "2.prems" "2.IH"(4) [OF fp] fp noop nr
          by (intro exI [of _ h] exI) (auto simp: rmvC_def sk_def Let_def dsum_modify)
      qed
    qed
  qed
  then obtain h1 d1 where s: "noop_ext h h1" "noop_ext h1 h'"
    "dsum d1 = dsum deltas + (if rmvC h w e then 0 else pd_amount (h e))"
    "dsum deltas' = dsum d1 + amounts h1 (filter (\<lambda>e. \<not> rmvC h1 w e) es)"
    "getForParty skip' p = getForParty sk p"
    "\<forall>e \<in> set es. \<exists>a. ul_htlcIndex ?log (pd_parentIndex (h1 e)) = Some a \<and> addC h1 w a"
    "getForParty skip' (counterParty p) = getForParty sk (counterParty p) \<union>
      {pd_htlcIndex (h1 a) | a e. e \<in> set es \<and> ul_htlcIndex ?log (pd_parentIndex (h1 e)) = Some a}"
    by blast
  note eq = noop_ext_fields [OF s(1)] noop_ext_C [OF s(1)] noop_ext_amounts [OF s(1)]
  have "noop_ext h h'" using s(1,2) by (rule noop_ext_trans)
  moreover have "dsum deltas' = dsum deltas + amounts h (filter (\<lambda>e. \<not> rmvC h w e) (e # es))"
    using s(3,4) by (simp add: eq)
  moreover have "getForParty skip' p = getForParty skip p" using s(5) sk by simp
  moreover have "\<forall>e \<in> set (e # es). \<exists>a. ul_htlcIndex ?log (pd_parentIndex (h e)) = Some a \<and> addC h w a"
    using s(6) a by (simp add: eq)
  moreover have "getForParty skip' (counterParty p) = getForParty skip (counterParty p) \<union>
      {pd_htlcIndex (h x) | x y. y \<in> set (e # es) \<and> ul_htlcIndex ?log (pd_parentIndex (h y)) = Some x}"
    using s(7) sk a(1) unfolding eq by auto
  ultimately show ?case by simp
qed

section \<open>The second pass\<close>

lemma debitAdds_sum:
  "u64_of_i64 (debitAdds h w adds acc) = u64_of_i64 acc - amounts h (filter (\<lambda>a. \<not> addC h w a) adds)"
  by (induction adds arbitrary: acc)
    (auto simp: debitAdds_def addC_def u64_of_i64_diff algebra_simps)

lemma u64_applyDelta: "applyDelta b d = b + u64_of_i64 d"
  by (simp add: applyDelta_def u64_of_i64_minus)

text \<open>The skip set of one party's log: the adds resolved by the other party's entries in the view.\<close>

definition resolvedBy :: "pd_heap \<Rightarrow> nat list \<Rightarrow> u64 set" where
  "resolvedBy h us = {pd_parentIndex (h r) | r. r \<in> set us \<and> isResolution (h r)}"

lemma evaluateHTLCView_spec:
  assumes wf: "logs_wf (lc_heap lc) n (lc_logs lc)"
    and ev: "evaluateHTLCView lc view w nh = (h', Inr (fv, unc, deltas))"
  shows "noop_ext (lc_heap lc) h'"
    and "\<And>p. getForParty (hv_updates fv) p
           = liveAdds (lc_heap lc) (resolvedBy (lc_heap lc) (getForParty (hv_updates view) (counterParty p)))
               (getForParty (hv_updates view) p)"
    and "\<And>p. getForParty unc p = filter (isUncommitted (lc_heap lc) w) (getForParty (hv_updates view) p)"
    and "dsum deltas
      = amounts (lc_heap lc) (filter (\<lambda>e. isResolution (lc_heap lc e) \<and> \<not> rmvC (lc_heap lc) w e) (d_local (hv_updates view)))
      + amounts (lc_heap lc) (filter (\<lambda>e. isResolution (lc_heap lc e) \<and> \<not> rmvC (lc_heap lc) w e) (d_remote (hv_updates view)))
      - amounts (lc_heap lc) (filter (\<lambda>a. \<not> addC (lc_heap lc) w a) (d_local (hv_updates fv)))
      - amounts (lc_heap lc) (filter (\<lambda>a. \<not> addC (lc_heap lc) w a) (d_remote (hv_updates fv)))"
    and "\<And>p r. r \<in> set (getForParty (hv_updates view) p) \<Longrightarrow> isResolution (lc_heap lc r) \<Longrightarrow>
           \<exists>a. ul_htlcIndex (getForParty (lc_logs lc) (counterParty p)) (pd_parentIndex (lc_heap lc r)) = Some a
             \<and> addC (lc_heap lc) w a"
    and "hv_feePerKw fv = viewFee lc view \<and> hv_nextHeight fv = nh"
proof -
  let ?h = "lc_heap lc" and ?us = "hv_updates view"
  let ?R = "\<lambda>p. filter (\<lambda>a. isResolution (?h a)) (getForParty ?us p)"
  obtain h1 s1 d1 where e1: "evalResolutions lc w Local (filter (\<lambda>a. isResolution (?h a)) (d_local ?us))
      ?h (mkDual {} {}) (mkDual 0 0) = (h1, Inr (s1, d1))"
    using ev by (auto simp: evaluateHTLCView_def Let_def split: prod.splits sum.splits)
  obtain h2 s2 d2 where e2: "evalResolutions lc w Remote (filter (\<lambda>a. isResolution (h1 a)) (d_remote ?us))
      h1 s1 d1 = (h2, Inr (s2, d2))"
    using ev e1 by (auto simp: evaluateHTLCView_def Let_def split: prod.splits sum.splits)
  note f1 = evalResolutions_spec [OF e1] and f2 = evalResolutions_spec [OF e2]
  have n1: "noop_ext ?h h1" and n2: "noop_ext h1 h2" using f1 f2 by auto
  have n12: "noop_ext ?h h2" using n1 n2 by (rule noop_ext_trans)
  note x1 = noop_ext_fields [OF n1] noop_ext_C [OF n1] noop_ext_amounts [OF n1]
  note x2 = noop_ext_fields [OF n12] noop_ext_C [OF n12] noop_ext_amounts [OF n12]
  have parents: "{pd_htlcIndex (?h a) | a e. e \<in> set es \<and>
      ul_htlcIndex (getForParty (lc_logs lc) q) (pd_parentIndex (?h e)) = Some a}
      = {pd_parentIndex (?h e) | e. e \<in> set es}"
    if "\<forall>e \<in> set es. \<exists>a. ul_htlcIndex (getForParty (lc_logs lc) q) (pd_parentIndex (?h e)) = Some a \<and> P a"
    for es q P
  proof (intro equalityI subsetI)
    fix x assume "x \<in> {pd_htlcIndex (?h a) | a e. e \<in> set es \<and>
      ul_htlcIndex (getForParty (lc_logs lc) q) (pd_parentIndex (?h e)) = Some a}"
    then obtain a e where "x = pd_htlcIndex (?h a)" "e \<in> set es"
      "ul_htlcIndex (getForParty (lc_logs lc) q) (pd_parentIndex (?h e)) = Some a" by blast
    then show "x \<in> {pd_parentIndex (?h e) | e. e \<in> set es}"
      using log_wf_htlc [OF logs_wf_parts(1) [OF wf, of q]] by auto
  next
    fix x assume "x \<in> {pd_parentIndex (?h e) | e. e \<in> set es}"
    then obtain e where e: "x = pd_parentIndex (?h e)" "e \<in> set es" by blast
    moreover from e(2) that obtain a where
      a: "ul_htlcIndex (getForParty (lc_logs lc) q) (pd_parentIndex (?h e)) = Some a" by blast
    moreover have "pd_htlcIndex (?h a) = pd_parentIndex (?h e)"
      using a log_wf_htlc [OF logs_wf_parts(1) [OF wf, of q]] by simp
    ultimately show "x \<in> {pd_htlcIndex (?h a) | a e. e \<in> set es \<and>
      ul_htlcIndex (getForParty (lc_logs lc) q) (pd_parentIndex (?h e)) = Some a}" by force
  qed
  have res1: "\<forall>e \<in> set (filter (\<lambda>a. isResolution (?h a)) (d_local ?us)).
      \<exists>a. ul_htlcIndex (getForParty (lc_logs lc) Remote) (pd_parentIndex (?h e)) = Some a \<and> addC ?h w a"
    and res2: "\<forall>e \<in> set (filter (\<lambda>a. isResolution (?h a)) (d_remote ?us)).
      \<exists>a. ul_htlcIndex (getForParty (lc_logs lc) Local) (pd_parentIndex (?h e)) = Some a \<and> addC ?h w a"
    using f1 f2 by (simp_all add: x1)
  have sk: "d_remote s2 = resolvedBy ?h (d_local ?us)" "d_local s2 = resolvedBy ?h (d_remote ?us)"
    using f1 f2 parents [OF res1] parents [OF res2] by (auto simp: x1 resolvedBy_def)
  have fv: "fv = \<lparr>hv_nextHeight = nh,
      hv_updates = mkDual (liveAdds h2 (d_local s2) (d_local ?us)) (liveAdds h2 (d_remote s2) (d_remote ?us)),
      hv_feePerKw = viewFee lc view\<rparr>"
    and unc: "unc = mapDual (filter (isUncommitted h2 w)) ?us" and h': "h' = h2"
    and deltas: "deltas = modifyForParty
        (modifyForParty d2 Local (debitAdds h2 w (liveAdds h2 (d_local s2) (d_local ?us))))
        Remote (debitAdds h2 w (liveAdds h2 (d_remote s2) (d_remote ?us)))"
    using ev e1 e2 by (auto simp: evaluateHTLCView_def Let_def)
  have live: "liveAdds h2 = liveAdds ?h" by (simp add: liveAdds_def x2 fun_eq_iff)
  show "noop_ext ?h h'" using n12 h' by simp
  show up: "getForParty (hv_updates fv) p
      = liveAdds ?h (resolvedBy ?h (getForParty ?us (counterParty p))) (getForParty ?us p)" for p
    by (cases p) (simp_all add: fv live sk)
  show "getForParty unc p = filter (isUncommitted ?h w) (getForParty ?us p)" for p
    by (simp add: unc isUncommitted_def x2 cong: filter_cong)
  have "dsum deltas = dsum d2 - amounts h2 (filter (\<lambda>a. \<not> addC h2 w a) (d_local (hv_updates fv)))
      - amounts h2 (filter (\<lambda>a. \<not> addC h2 w a) (d_remote (hv_updates fv)))"
    by (simp add: deltas fv dsum_def modifyForParty_def debitAdds_sum algebra_simps)
  moreover have "dsum d2 = amounts ?h (filter (\<lambda>e. isResolution (?h e) \<and> \<not> rmvC ?h w e) (d_local ?us))
      + amounts ?h (filter (\<lambda>e. isResolution (?h e) \<and> \<not> rmvC ?h w e) (d_remote ?us))"
    using f1 f2 by (simp add: x1 dsum_def mkDual_def conj_commute)
  ultimately show "dsum deltas
      = amounts ?h (filter (\<lambda>e. isResolution (?h e) \<and> \<not> rmvC ?h w e) (d_local ?us))
      + amounts ?h (filter (\<lambda>e. isResolution (?h e) \<and> \<not> rmvC ?h w e) (d_remote ?us))
      - amounts ?h (filter (\<lambda>a. \<not> addC ?h w a) (d_local (hv_updates fv)))
      - amounts ?h (filter (\<lambda>a. \<not> addC ?h w a) (d_remote (hv_updates fv)))"
    by (simp add: x2)
  show "\<exists>a. ul_htlcIndex (getForParty (lc_logs lc) (counterParty p)) (pd_parentIndex (?h r)) = Some a
      \<and> addC ?h w a" if "r \<in> set (getForParty ?us p)" "isResolution (?h r)" for p r
    using that res1 res2 by (cases p) auto
  show "hv_feePerKw fv = viewFee lc view \<and> hv_nextHeight fv = nh" by (simp add: fv)
qed

section \<open>Conservation\<close>

text \<open>
  The HTLCs of party \<open>p\<close> that are on the last commitment of chain \<open>w\<close>: added there, and not
  removed there by a resolution of the other party.
\<close>

definition onChain :: "pd_heap \<Rightarrow> update_log dual \<Rightarrow> channel_party \<Rightarrow> channel_party \<Rightarrow> nat list" where
  "onChain h logs w p =
     filter (\<lambda>a. isAdd (h a) \<and> addC h w a \<and>
        \<not> (\<exists>r \<in> set (ul_list (getForParty logs (counterParty p))).
             isResolution (h r) \<and> rmvC h w r \<and> pd_parentIndex (h r) = pd_htlcIndex (h a)))
       (ul_list (getForParty logs p))"

text \<open>A view that contains everything committed so far on chain \<open>w\<close>.\<close>

definition covers :: "pd_heap \<Rightarrow> update_log dual \<Rightarrow> channel_party \<Rightarrow> nat list dual \<Rightarrow> bool" where
  "covers h logs w us \<longleftrightarrow>
     (\<forall>p. distinct (getForParty us p) \<and>
          set (getForParty us p) \<subseteq> set (ul_list (getForParty logs p)) \<and>
          (\<forall>e \<in> set (ul_list (getForParty logs p)).
             \<not> isUncommitted h w e \<longrightarrow> e \<in> set (getForParty us p)))"

lemma amounts_set:
  "distinct xs \<Longrightarrow> amounts h (filter P xs) = (\<Sum>a \<in> {a \<in> set xs. P a}. pd_amount (h a))"
  by (simp add: amounts_def sum_list_distinct_conv_sum_set)

lemma committed_parts:
  "isAdd (h e) \<Longrightarrow> \<not> isUncommitted h w e \<longleftrightarrow> addC h w e"
  "isResolution (h e) \<Longrightarrow> \<not> isUncommitted h w e \<longleftrightarrow> rmvC h w e"
  by (auto simp: isUncommitted_def addC_def rmvC_def dest: resolution_not_add)

lemma party_conserved:
  assumes wf: "logs_wf h n logs" and cov: "covers h logs w us"
    and parents: "\<And>r. r \<in> set (getForParty us (counterParty p)) \<Longrightarrow> isResolution (h r) \<Longrightarrow>
      \<exists>a. ul_htlcIndex (getForParty logs p) (pd_parentIndex (h r)) = Some a \<and> addC h w a"
  shows "amounts h (onChain h logs w p) =
    amounts h (filter (addC h w)
      (liveAdds h (resolvedBy h (getForParty us (counterParty p))) (getForParty us p)))
    + amounts h (filter (\<lambda>e. isResolution (h e) \<and> \<not> rmvC h w e) (getForParty us (counterParty p)))"
proof -
  let ?A = "getForParty logs p" and ?B = "getForParty logs (counterParty p)"
  let ?U = "getForParty us p" and ?V = "getForParty us (counterParty p)"
  note w = logs_wf_parts [OF wf, of p]
  have dU: "distinct ?U" "set ?U \<subseteq> set (ul_list ?A)" and dV: "distinct ?V" "set ?V \<subseteq> set (ul_list ?B)"
    and dA: "distinct (ul_list ?A)"
    using cov w(1) by (auto simp: covers_def log_wf_def)
  have inU: "e \<in> set ?U" if "e \<in> set (ul_list ?A)" "isAdd (h e)" "addC h w e" for e
    using cov that committed_parts(1) [of h e w] by (auto simp: covers_def)
  have inV: "r \<in> set ?V" if "r \<in> set (ul_list ?B)" "isResolution (h r)" "rmvC h w r" for r
    using cov that committed_parts(2) [of h r w] by (auto simp: covers_def)
  define R where "R = {r \<in> set ?V. isResolution (h r) \<and> \<not> rmvC h w r}"
  define L where "L = {a \<in> set ?U. isAdd (h a) \<and> pd_htlcIndex (h a) \<notin> resolvedBy h ?V \<and> addC h w a}"
  define par where "par = (\<lambda>r. the (ul_htlcIndex ?A (pd_parentIndex (h r))))"
  have par: "par r \<in> set (ul_list ?A)" "isAdd (h (par r))" "pd_htlcIndex (h (par r)) = pd_parentIndex (h r)"
    "addC h w (par r)" "pd_amount (h (par r)) = pd_amount (h r)"
    if r: "r \<in> set ?V" "isResolution (h r)" for r
  proof -
    obtain a where a: "ul_htlcIndex ?A (pd_parentIndex (h r)) = Some a" "addC h w a"
      using parents [OF r] by blast
    have pa: "par r = a" using a(1) by (simp add: par_def)
    have "a \<in> set (ul_list ?A) \<and> isAdd (h a) \<and> pd_htlcIndex (h a) = pd_parentIndex (h r)"
      using a(1) log_wf_htlc [OF w(1), of "pd_parentIndex (h r)" a] by simp
    then show "par r \<in> set (ul_list ?A)" "isAdd (h (par r))"
      "pd_htlcIndex (h (par r)) = pd_parentIndex (h r)" "addC h w (par r)"
      using a(2) by (simp_all add: pa)
    obtain q where "ul_htlcIndex ?A (pd_parentIndex (h r)) = Some q" "pd_amount (h q) = pd_amount (h r)"
      using resolves_parent [OF w(4), of r] r dV(2) by blast
    then show "pd_amount (h (par r)) = pd_amount (h r)" by (simp add: par_def)
  qed
  have inj: "inj_on par R"
  proof (rule inj_onI)
    fix r s assume rs: "r \<in> R" "s \<in> R" "par r = par s"
    then have "pd_parentIndex (h r) = pd_parentIndex (h s)" using par(3) by (metis (no_types, lifting) R_def mem_Collect_eq)
    then show "r = s" using rs resolves_once [OF w(4)] dV(2) by (auto simp: R_def)
  qed
  have on: "{a \<in> set (ul_list ?A). isAdd (h a) \<and> addC h w a \<and>
      \<not> (\<exists>r \<in> set (ul_list ?B). isResolution (h r) \<and> rmvC h w r \<and> pd_parentIndex (h r) = pd_htlcIndex (h a))}
      = L \<union> par ` R" (is "?S = _")
  proof (intro equalityI subsetI)
    fix a assume a: "a \<in> ?S"
    then have aU: "a \<in> set ?U" using inU by simp
    show "a \<in> L \<union> par ` R"
    proof (cases "pd_htlcIndex (h a) \<in> resolvedBy h ?V")
      case True
      then obtain r where r: "r \<in> set ?V" "isResolution (h r)" "pd_parentIndex (h r) = pd_htlcIndex (h a)"
        by (auto simp: resolvedBy_def)
      then have "par r = a" using par(1-3) [OF r(1,2)] a log_wf_unique(2) [OF w(1)] by simp
      moreover have "r \<in> R" using r a dV(2) by (auto simp: R_def)
      ultimately show ?thesis by blast
    next
      case False
      then show ?thesis using a aU by (simp add: L_def)
    qed
  next
    fix a assume "a \<in> L \<union> par ` R"
    then consider (l) "a \<in> L" | (r) r where "r \<in> R" "a = par r" by blast
    then show "a \<in> ?S"
    proof cases
      case l
      have "pd_parentIndex (h s) \<noteq> pd_htlcIndex (h a)"
        if "s \<in> set (ul_list ?B)" "isResolution (h s)" "rmvC h w s" for s
        using l inV [OF that] that(2) by (auto simp: L_def resolvedBy_def)
      then show ?thesis using l dU(2) by (auto simp: L_def)
    next
      case r
      then have rV: "r \<in> set ?V" "isResolution (h r)" "\<not> rmvC h w r" by (auto simp: R_def)
      have "\<not> (isResolution (h s) \<and> rmvC h w s \<and> pd_parentIndex (h s) = pd_htlcIndex (h a))"
        if "s \<in> set (ul_list ?B)" for s
        using resolves_once [OF w(4), of s r] that rV dV(2) par(3) [OF rV(1,2)] r(2) by auto
      then show ?thesis using par [OF rV(1,2)] r(2) by auto
    qed
  qed
  have disj: "L \<inter> par ` R = {}"
    using par(3) by (force simp: L_def R_def resolvedBy_def)
  have "amounts h (onChain h logs w p) = (\<Sum>a \<in> L \<union> par ` R. pd_amount (h a))"
    unfolding onChain_def amounts_set [OF dA] on ..
  also have "\<dots> = (\<Sum>a \<in> L. pd_amount (h a)) + (\<Sum>a \<in> par ` R. pd_amount (h a))"
    by (rule sum.union_disjoint) (use disj in \<open>simp_all add: L_def R_def\<close>)
  also have "(\<Sum>a \<in> par ` R. pd_amount (h a)) = (\<Sum>r \<in> R. pd_amount (h (par r)))"
    by (rule sum.reindex_cong [OF inj]) simp_all
  also have "\<dots> = (\<Sum>r \<in> R. pd_amount (h r))"
    by (rule sum.cong) (use par(5) in \<open>auto simp: R_def\<close>)
  finally show ?thesis
    by (simp add: liveAdds_def filter_filter amounts_set dU(1) dV(1) L_def R_def conj_ac)
qed

definition viewValue :: "pd_heap \<Rightarrow> nat list dual \<Rightarrow> msat" where
  "viewValue h us = amounts h (d_local us) + amounts h (d_remote us)"

definition chainValue :: "pd_heap \<Rightarrow> update_log dual \<Rightarrow> channel_party \<Rightarrow> msat" where
  "chainValue h logs w = amounts h (onChain h logs w Local) + amounts h (onChain h logs w Remote)"

lemma amounts_split: "amounts h xs = amounts h (filter P xs) + amounts h (filter (\<lambda>a. \<not> P a) xs)"
  unfolding amounts_def by (rule sum_list_map_filter_split)

lemma evaluateHTLCView_conserves:
  assumes wf: "logs_wf (lc_heap lc) n (lc_logs lc)"
    and cov: "covers (lc_heap lc) (lc_logs lc) w (hv_updates view)"
    and ev: "evaluateHTLCView lc view w nh = (h', Inr (fv, unc, deltas))"
  shows "dsum deltas + viewValue (lc_heap lc) (hv_updates fv) = chainValue (lc_heap lc) (lc_logs lc) w"
proof -
  let ?h = "lc_heap lc"
  note s = evaluateHTLCView_spec [OF wf ev]
  have p: "amounts ?h (onChain ?h (lc_logs lc) w p) =
      amounts ?h (filter (addC ?h w) (getForParty (hv_updates fv) p))
      + amounts ?h (filter (\<lambda>e. isResolution (?h e) \<and> \<not> rmvC ?h w e)
          (getForParty (hv_updates view) (counterParty p)))" for p
    unfolding s(2) using party_conserved [OF wf cov, of p] s(5) [of _ "counterParty p"] by simp
  show ?thesis
    using p [of Local] p [of Remote] amounts_split [of ?h "d_local (hv_updates fv)" "addC ?h w"]
      amounts_split [of ?h "d_remote (hv_updates fv)" "addC ?h w"]
    by (simp add: s(4) chainValue_def viewValue_def)
qed

section \<open>Locking updates in\<close>

lemma lockIn_frame:
  "lc_logs (lockIn w nh p us lc) = lc_logs lc" "lc_chains (lockIn w nh p us lc) = lc_chains lc"
  "lc_next (lockIn w nh p us lc) = lc_next lc" "lc_isInitiator (lockIn w nh p us lc) = lc_isInitiator lc"
  "lc_chanType (lockIn w nh p us lc) = lc_chanType lc" "lc_localCfg (lockIn w nh p us lc) = lc_localCfg lc"
  "lc_remoteCfg (lockIn w nh p us lc) = lc_remoteCfg lc"
  "lc_localCommitment (lockIn w nh p us lc) = lc_localCommitment lc"
  "lc_remoteCommitment (lockIn w nh p us lc) = lc_remoteCommitment lc"
  "lc_currentHeight (lockIn w nh p us lc) = lc_currentHeight lc"
  "lc_producer (lockIn w nh p us lc) = lc_producer lc" "lc_store (lockIn w nh p us lc) = lc_store lc"
  "lc_channelID (lockIn w nh p us lc) = lc_channelID lc"
  "lc_shortChanID (lockIn w nh p us lc) = lc_shortChanID lc"
  "lc_remoteCurrentRevocation (lockIn w nh p us lc) = lc_remoteCurrentRevocation lc"
  "lc_remoteNextRevocation (lockIn w nh p us lc) = lc_remoteNextRevocation lc"
  "lc_db (lockIn w nh p us lc) = lc_db lc" "lc_capacity (lockIn w nh p us lc) = lc_capacity lc"
  by (induction us arbitrary: lc) (simp_all add: Let_def recordSettlement_def)

lemma lockIn_heap:
  "distinct us \<Longrightarrow> lc_heap (lockIn w nh p us lc) a
     = (if a \<in> set us then setCommitHeight w nh (lc_heap lc a) else lc_heap lc a)"
  by (induction us arbitrary: lc) (auto simp: Let_def recordSettlement_def)

lemma setCommitHeight_fields [simp]:
  "pd_entryType (setCommitHeight w nh pd) = pd_entryType pd"
  "pd_amount (setCommitHeight w nh pd) = pd_amount pd"
  "pd_htlcIndex (setCommitHeight w nh pd) = pd_htlcIndex pd"
  "pd_logIndex (setCommitHeight w nh pd) = pd_logIndex pd"
  "pd_parentIndex (setCommitHeight w nh pd) = pd_parentIndex pd"
  "pd_noOpSettle (setCommitHeight w nh pd) = pd_noOpSettle pd"
  "pd_rHash (setCommitHeight w nh pd) = pd_rHash pd"
  by (simp_all add: setCommitHeight_def split: updateType.splits)

lemma setCommitHeight_kind [simp]:
  "isAdd (setCommitHeight w nh pd) = isAdd pd"
  "isResolution (setCommitHeight w nh pd) = isResolution pd"
  by (simp_all add: isAdd_def isResolution_def)

lemma setCommitHeight_same: "same_entry pd (setCommitHeight w nh pd)"
  by (auto simp: same_entry_def setCommitHeight_def isAdd_def split: updateType.splits)

lemma setCommitHeight_marks:
  "isAdd pd \<Longrightarrow> getForParty (pd_addHeights (setCommitHeight w nh pd)) q
     = (if q = w then nh else getForParty (pd_addHeights pd) q)"
  "isResolution pd \<Longrightarrow> getForParty (pd_rmvHeights (setCommitHeight w nh pd)) q
     = (if q = w then nh else getForParty (pd_rmvHeights pd) q)"
  by (auto simp: setCommitHeight_def isAdd_def isResolution_def split: updateType.splits)

definition viewHeap :: "channel_party \<Rightarrow> u64 \<Rightarrow> nat list dual \<Rightarrow> pd_heap \<Rightarrow> pd_heap \<Rightarrow> bool" where
  "viewHeap w nh unc h h' \<longleftrightarrow>
     (\<forall>a. h' a = (if a \<in> set (d_local unc) \<union> set (d_remote unc) then setCommitHeight w nh (h a) else h a))"

lemma computeView_cases:
  assumes "computeView lc view w upd dry = (lc', res)"
  obtains (eval_error) h' err where
    "evaluateHTLCView lc (view\<lparr>hv_feePerKw := cm_feePerKw (tip (getForParty (lc_chains lc) w)),
        hv_nextHeight := cm_height (tip (getForParty (lc_chains lc) w)) + 1\<rparr>) w
        (cm_height (tip (getForParty (lc_chains lc) w)) + 1) = (h', Inl err)"
      "lc' = lc\<lparr>lc_heap := h'\<rparr>" "res = Inl err"
  | (evaluated) h' fv unc deltas where
    "evaluateHTLCView lc (view\<lparr>hv_feePerKw := cm_feePerKw (tip (getForParty (lc_chains lc) w)),
        hv_nextHeight := cm_height (tip (getForParty (lc_chains lc) w)) + 1\<rparr>) w
        (cm_height (tip (getForParty (lc_chains lc) w)) + 1) = (h', Inr (fv, unc, deltas))"
      "lc' = (if upd then lockIn w (cm_height (tip (getForParty (lc_chains lc) w)) + 1) Remote (d_remote unc)
         (lockIn w (cm_height (tip (getForParty (lc_chains lc) w)) + 1) Local (d_local unc) (lc\<lparr>lc_heap := h'\<rparr>))
         else lc\<lparr>lc_heap := h'\<rparr>)"
      "res = Inl ErrBelowChanReserve \<or>
       (\<exists>our their wt. res = Inr (our, their, wt, fv) \<and>
          our + their = cm_ourBalance (tip (getForParty (lc_chains lc) w))
            + cm_theirBalance (tip (getForParty (lc_chains lc) w))
            + newMSatFromSatoshis (cm_fee (tip (getForParty (lc_chains lc) w))) + dsum deltas \<and>
          0 \<le> i64_of_u64 our \<and> 0 \<le> i64_of_u64 their)"
proof -
  let ?t = "tip (getForParty (lc_chains lc) w)"
  let ?ev = "evaluateHTLCView lc (view\<lparr>hv_feePerKw := cm_feePerKw ?t, hv_nextHeight := cm_height ?t + 1\<rparr>) w
        (cm_height ?t + 1)"
  obtain h' r where ev: "?ev = (h', r)" by (cases ?ev)
  show ?thesis
  proof (cases r)
    case (Inl err)
    then show ?thesis using assms eval_error ev by (auto simp: computeView_def Let_def)
  next
    case (Inr x)
    obtain fv unc deltas where x: "x = (fv, unc, deltas)" by (cases x)
    have "lc' = (if upd then lockIn w (cm_height ?t + 1) Remote (d_remote unc)
         (lockIn w (cm_height ?t + 1) Local (d_local unc) (lc\<lparr>lc_heap := h'\<rparr>))
         else lc\<lparr>lc_heap := h'\<rparr>)"
      using assms ev Inr x by (auto simp: computeView_def Let_def split: if_splits)
    moreover have "res = Inl ErrBelowChanReserve \<or>
       (\<exists>our their wt. res = Inr (our, their, wt, fv) \<and>
          our + their = cm_ourBalance ?t + cm_theirBalance ?t + newMSatFromSatoshis (cm_fee ?t) + dsum deltas \<and>
          0 \<le> i64_of_u64 our \<and> 0 \<le> i64_of_u64 their)"
      using assms ev Inr x
      by (auto simp: computeView_def Let_def u64_applyDelta dsum_def not_less split: if_splits)
    ultimately show ?thesis using evaluated ev Inr x by blast
  qed
qed

lemma evalResolutions_noop:
  "noop_ext h (fst (evalResolutions lc w p es h skip deltas))"
proof (induction lc w p es h skip deltas rule: evalResolutions.induct)
  case (1 lc w p h skip deltas)
  then show ?case by simp
next
  case (2 lc w p e es h skip deltas)
  show ?case
  proof (cases "fetchParent (lc_logs lc) h (h e) w (counterParty p)")
    case (Inl err)
    then show ?thesis by simp
  next
    case (Inr a)
    obtain h1 d1 where noop: "evaluateNoOpHtlc lc h e p deltas = (h1, d1)" by fastforce
    have "noop_ext h h1" using evaluateNoOpHtlc_spec(1) [OF noop] .
    then show ?thesis
      using 2 Inr noop by (auto simp: Let_def intro: noop_ext_trans)
  qed
qed

lemma evaluateHTLCView_noop:
  assumes "evaluateHTLCView lc view w nh = (h', res)"
  shows "noop_ext (lc_heap lc) h'"
proof -
  let ?R1 = "filter (\<lambda>a. isResolution (lc_heap lc a)) (d_local (hv_updates view))"
  obtain h1 r1 where e1: "evalResolutions lc w Local ?R1 (lc_heap lc) (mkDual {} {}) (mkDual 0 0) = (h1, r1)"
    by fastforce
  have n1: "noop_ext (lc_heap lc) h1"
    using evalResolutions_noop [of "lc_heap lc" lc w Local ?R1 "mkDual {} {}" "mkDual 0 0"] e1 by simp
  show ?thesis
  proof (cases r1)
    case (Inl err)
    then show ?thesis using assms e1 n1 by (simp add: evaluateHTLCView_def Let_def)
  next
    case (Inr x)
    obtain s1 d1 where x: "x = (s1, d1)" by (cases x)
    let ?R2 = "filter (\<lambda>a. isResolution (h1 a)) (d_remote (hv_updates view))"
    obtain h2 r2 where e2: "evalResolutions lc w Remote ?R2 h1 s1 d1 = (h2, r2)" by fastforce
    have "noop_ext h1 h2" using evalResolutions_noop [of h1 lc w Remote ?R2 s1 d1] e2 by simp
    moreover have "h' = h2"
      using assms e1 e2 Inr x by (cases r2) (auto simp: evaluateHTLCView_def Let_def)
    ultimately show ?thesis using n1 noop_ext_trans by blast
  qed
qed

section \<open>The effect on the commitment chain\<close>

text \<open>An entry is on the last commitment of chain \<open>w\<close> when its height there is recorded.\<close>

abbreviation committed :: "pd_heap \<Rightarrow> channel_party \<Rightarrow> nat \<Rightarrow> bool" where
  "committed h w a \<equiv> \<not> isUncommitted h w a"

lemma uncommitted_parts:
  "isAdd (h e) \<Longrightarrow> isUncommitted h w e \<longleftrightarrow> \<not> addC h w e"
  "isResolution (h e) \<Longrightarrow> isUncommitted h w e \<longleftrightarrow> \<not> rmvC h w e"
  using committed_parts [of h e w] by auto

lemma onChain_committed:
  "onChain h logs w p =
     filter (\<lambda>a. isAdd (h a) \<and> committed h w a \<and>
        \<not> (\<exists>r \<in> set (ul_list (getForParty logs (counterParty p))).
             isResolution (h r) \<and> committed h w r \<and> pd_parentIndex (h r) = pd_htlcIndex (h a)))
       (ul_list (getForParty logs p))"
  unfolding onChain_def by (rule filter_cong) (auto simp: uncommitted_parts)

lemma noop_ext_committed: "noop_ext h h' \<Longrightarrow> isUncommitted h' w a = isUncommitted h w a"
  by (simp add: isUncommitted_def noop_ext_fields)

lemma setCommitHeight_committed:
  assumes "nh \<noteq> 0" "h' a = setCommitHeight w nh (h a)"
  shows "isUncommitted h' q a = (if q = w then False else isUncommitted h q a)"
proof -
  have "pd_entryType (h a) = FeeUpdate" if "\<not> isAdd (h a)" "\<not> isResolution (h a)"
    using that by (auto simp: isAdd_alt isResolution_def)
  then consider "isAdd (h a)" | "isResolution (h a)" | "pd_entryType (h a) = FeeUpdate" by blast
  then show ?thesis
  proof cases
    case 1
    then have "\<not> isResolution (h a)" by (rule contrapos_pn) (rule resolution_not_add)
    then show ?thesis using assms 1 by (simp add: isUncommitted_def setCommitHeight_marks)
  next
    case 2
    then show ?thesis using assms by (simp add: isUncommitted_def setCommitHeight_marks)
  next
    case 3
    then show ?thesis
      using assms by (simp add: isUncommitted_def setCommitHeight_def isResolution_def)
  qed
qed

text \<open>What a view computation that updates the state leaves behind.\<close>

definition view_locked ::
  "channel \<Rightarrow> channel_party \<Rightarrow> nat list dual \<Rightarrow> channel \<Rightarrow> bool" where
  "view_locked lc w us lc' \<longleftrightarrow>
     (\<forall>a. same_entry (lc_heap lc a) (lc_heap lc' a)) \<and>
     (\<forall>a q. isUncommitted (lc_heap lc') q a \<longleftrightarrow>
        isUncommitted (lc_heap lc) q a \<and> \<not> (q = w \<and> a \<in> set (d_local us) \<union> set (d_remote us)))"

lemma lockIn_both:
  assumes "lc' = lockIn w nh Remote (d_remote unc) (lockIn w nh Local (d_local unc) lc)"
    and "distinct (d_local unc)" "distinct (d_remote unc)"
    and "set (d_local unc) \<inter> set (d_remote unc) = {}"
  shows "lc_heap lc' a = (if a \<in> set (d_local unc) \<union> set (d_remote unc)
      then setCommitHeight w nh (lc_heap lc a) else lc_heap lc a)"
  using assms by (auto simp: lockIn_heap)

lemma computeView_locked:
  assumes wf: "logs_wf (lc_heap lc) n (lc_logs lc)"
    and cov: "covers (lc_heap lc) (lc_logs lc) w (hv_updates view)"
    and cv: "computeView lc view w True dry = (lc', res)"
    and ok: "res = Inr x"
    and nh: "cm_height (tip (getForParty (lc_chains lc) w)) \<noteq> -1"
  shows "view_locked lc w (hv_updates view) lc'"
proof -
  let ?t = "tip (getForParty (lc_chains lc) w)"
  let ?view = "view\<lparr>hv_feePerKw := cm_feePerKw ?t, hv_nextHeight := cm_height ?t + 1\<rparr>"
  let ?us = "hv_updates view"
  show ?thesis
    using cv
  proof (cases rule: computeView_cases)
    case (eval_error h' err)
    then show ?thesis using ok by simp
  next
    case (evaluated h' fv unc deltas)
    note ne = evaluateHTLCView_noop [OF evaluated(1)]
    have unc: "getForParty unc p = filter (isUncommitted (lc_heap lc) w) (getForParty ?us p)" for p
      using evaluateHTLCView_spec(3) [OF wf evaluated(1)] by simp
    have un: "d_local unc = filter (isUncommitted (lc_heap lc) w) (d_local ?us)"
      "d_remote unc = filter (isUncommitted (lc_heap lc) w) (d_remote ?us)"
      using unc [of Local] unc [of Remote] by simp_all
    have d: "distinct (getForParty ?us p)" "set (getForParty ?us p) \<subseteq> set (ul_list (getForParty (lc_logs lc) p))" for p
      using cov by (auto simp: covers_def)
    have disj: "set (d_local ?us) \<inter> set (d_remote ?us) = {}"
      using d(2) [of Local] d(2) [of Remote] logs_wf_disjoint [OF wf, of Local] by auto
    have dunc: "distinct (d_local unc)" "distinct (d_remote unc)"
      "set (d_local unc) \<inter> set (d_remote unc) = {}"
      using d(1) [of Local] d(1) [of Remote] disj by (auto simp: un)
    have heap: "lc_heap lc' a = (if a \<in> set (d_local unc) \<union> set (d_remote unc)
        then setCommitHeight w (cm_height ?t + 1) (h' a) else h' a)" for a
      using lockIn_both [OF evaluated(2) [unfolded if_True] dunc, of a] by simp
    have nz: "cm_height ?t + 1 \<noteq> 0" using nh by (simp add: eq_neg_iff_add_eq_0)
    have "same_entry (lc_heap lc a) (lc_heap lc' a)" for a
    proof -
      have "same_entry (h' a) (lc_heap lc' a)" using setCommitHeight_same by (simp add: heap)
      moreover have "same_entry (lc_heap lc a) (h' a)" using ne by (rule noop_ext_same)
      ultimately show ?thesis
        using same_entry_kinds [of "lc_heap lc a" "h' a"] by (simp add: same_entry_def)
    qed
    moreover have "isUncommitted (lc_heap lc') q a \<longleftrightarrow>
        isUncommitted (lc_heap lc) q a \<and> \<not> (q = w \<and> a \<in> set (d_local ?us) \<union> set (d_remote ?us))" for q a
    proof (cases "a \<in> set (d_local unc) \<union> set (d_remote unc)")
      case True
      then have "lc_heap lc' a = setCommitHeight w (cm_height ?t + 1) (h' a)" by (simp add: heap)
      then have "isUncommitted (lc_heap lc') q a = (if q = w then False else isUncommitted h' q a)"
        by (rule setCommitHeight_committed [OF nz])
      then show ?thesis using True by (auto simp: un noop_ext_committed [OF ne])
    next
      case False
      then have "lc_heap lc' a = h' a" by (simp add: heap)
      then have "isUncommitted (lc_heap lc') q a = isUncommitted (lc_heap lc) q a"
        by (simp add: isUncommitted_def noop_ext_fields [OF ne])
      then show ?thesis using False by (auto simp: un)
    qed
    ultimately show ?thesis by (simp add: view_locked_def)
  qed
qed

lemma onChain_cong:
  assumes "\<And>a. same_entry (h a) (h' a)" "\<And>a. isUncommitted h' w a = isUncommitted h w a"
  shows "onChain h' logs w p = onChain h logs w p"
proof -
  have e: "isAdd (h' a) = isAdd (h a)" "isResolution (h' a) = isResolution (h a)"
    "pd_parentIndex (h' a) = pd_parentIndex (h a)" "pd_htlcIndex (h' a) = pd_htlcIndex (h a)" for a
    using assms(1) [of a] same_entry_kinds [OF assms(1) [of a]] by (simp_all add: same_entry_def)
  show ?thesis unfolding onChain_committed by (simp add: e assms(2))
qed

lemma same_amounts: "(\<And>a. same_entry (h a) (h' a)) \<Longrightarrow> amounts h' xs = amounts h xs"
  by (simp add: amounts_def same_entry_def)

text \<open>After a view that covers the chain is locked in, its live adds are the HTLCs on the chain.\<close>

lemma view_locked_live:
  assumes cov: "covers (lc_heap lc) (lc_logs lc) w us" and lk: "view_locked lc w us lc'"
    and disj: "\<And>p. set (ul_list (getForParty (lc_logs lc) p))
      \<inter> set (ul_list (getForParty (lc_logs lc) (counterParty p))) = {}"
  shows "set (onChain (lc_heap lc') (lc_logs lc) w p)
    = set (liveAdds (lc_heap lc) (resolvedBy (lc_heap lc) (getForParty us (counterParty p))) (getForParty us p))"
proof -
  let ?h = "lc_heap lc" and ?h' = "lc_heap lc'"
  have e: "isAdd (?h' a) = isAdd (?h a)" "isResolution (?h' a) = isResolution (?h a)"
    "pd_parentIndex (?h' a) = pd_parentIndex (?h a)" "pd_htlcIndex (?h' a) = pd_htlcIndex (?h a)" for a
    using lk same_entry_kinds [of "?h a" "?h' a"] by (simp_all add: view_locked_def same_entry_def)
  have sub: "set (getForParty us q) \<subseteq> set (ul_list (getForParty (lc_logs lc) q))" for q
    using cov by (simp add: covers_def)
  have in_us: "a \<in> set (d_local us) \<union> set (d_remote us) \<longleftrightarrow> a \<in> set (getForParty us q)"
    if "a \<in> set (ul_list (getForParty (lc_logs lc) q))" for a q
    using that sub [of q] sub [of "counterParty q"] disj [of q] by (cases q) auto
  have c: "committed ?h' w a \<longleftrightarrow> a \<in> set (getForParty us q)"
    if "a \<in> set (ul_list (getForParty (lc_logs lc) q))" for a q
    using lk cov that in_us [OF that] by (auto simp: view_locked_def covers_def)
  show ?thesis
    using c [of _ p] c [of _ "counterParty p"] sub [of p] sub [of "counterParty p"]
    by (auto simp: onChain_committed e liveAdds_def resolvedBy_def)
qed

lemma computeView_value:
  assumes wf: "logs_wf (lc_heap lc) n (lc_logs lc)"
    and cov: "covers (lc_heap lc) (lc_logs lc) w (hv_updates view)"
    and cv: "computeView lc view w upd dry = (lc', Inr (our, their, wt, fv))"
  shows "our + their + viewValue (lc_heap lc) (hv_updates fv)
    = cm_ourBalance (tip (getForParty (lc_chains lc) w)) + cm_theirBalance (tip (getForParty (lc_chains lc) w))
      + newMSatFromSatoshis (cm_fee (tip (getForParty (lc_chains lc) w)))
      + chainValue (lc_heap lc) (lc_logs lc) w"
    and "getForParty (hv_updates fv) p
      = liveAdds (lc_heap lc) (resolvedBy (lc_heap lc) (getForParty (hv_updates view) (counterParty p)))
          (getForParty (hv_updates view) p)"
proof -
  let ?t = "tip (getForParty (lc_chains lc) w)"
  obtain h' unc deltas where
    ev: "evaluateHTLCView lc (view\<lparr>hv_feePerKw := cm_feePerKw ?t, hv_nextHeight := cm_height ?t + 1\<rparr>) w
        (cm_height ?t + 1) = (h', Inr (fv, unc, deltas))"
    and sum: "our + their = cm_ourBalance ?t + cm_theirBalance ?t + newMSatFromSatoshis (cm_fee ?t) + dsum deltas"
    using cv by (cases rule: computeView_cases) auto
  have "covers (lc_heap lc) (lc_logs lc) w
      (hv_updates (view\<lparr>hv_feePerKw := cm_feePerKw ?t, hv_nextHeight := cm_height ?t + 1\<rparr>))"
    using cov by simp
  from evaluateHTLCView_conserves [OF wf this ev]
  show "our + their + viewValue (lc_heap lc) (hv_updates fv)
    = cm_ourBalance ?t + cm_theirBalance ?t + newMSatFromSatoshis (cm_fee ?t)
      + chainValue (lc_heap lc) (lc_logs lc) w"
    by (simp add: sum algebra_simps)
  show "getForParty (hv_updates fv) p
      = liveAdds (lc_heap lc) (resolvedBy (lc_heap lc) (getForParty (hv_updates view) (counterParty p)))
          (getForParty (hv_updates view) p)"
    using evaluateHTLCView_spec(2) [OF wf ev] by simp
qed

lemma onChain_distinct: "logs_wf h n logs \<Longrightarrow> distinct (onChain h logs w p)"
  using logs_wf_parts(1) by (auto simp: onChain_def log_wf_def)

lemma amounts_eq_set:
  "distinct xs \<Longrightarrow> distinct ys \<Longrightarrow> set xs = set ys \<Longrightarrow> amounts h xs = amounts h ys"
  by (simp add: amounts_def sum_list_distinct_conv_sum_set)

text \<open>The HTLCs of the new view are those on the chain afterwards; the other chain is not touched.\<close>

lemma computeView_chain:
  assumes wf: "logs_wf (lc_heap lc) n (lc_logs lc)"
    and cov: "covers (lc_heap lc) (lc_logs lc) w (hv_updates view)"
    and cv: "computeView lc view w True dry = (lc', Inr (our, their, wt, fv))"
    and nh: "cm_height (tip (getForParty (lc_chains lc) w)) \<noteq> -1"
  shows "amounts (lc_heap lc') (onChain (lc_heap lc') (lc_logs lc) w p)
      = amounts (lc_heap lc) (getForParty (hv_updates fv) p)"
    and "chainValue (lc_heap lc') (lc_logs lc) (counterParty w) = chainValue (lc_heap lc) (lc_logs lc) (counterParty w)"
    and "logs_wf (lc_heap lc') n (lc_logs lc)"
proof -
  have lk: "view_locked lc w (hv_updates view) lc'" by (rule computeView_locked [OF wf cov cv refl nh])
  then have same: "same_entry (lc_heap lc a) (lc_heap lc' a)" for a by (simp add: view_locked_def)
  show wf': "logs_wf (lc_heap lc') n (lc_logs lc)" by (rule logs_wf_cong [OF _ wf]) (rule same)
  have "distinct (getForParty (hv_updates view) q)" for q using cov by (simp add: covers_def)
  then have d: "distinct (getForParty (hv_updates fv) q)" for q
    by (simp add: computeView_value(2) [OF wf cov cv] liveAdds_def)
  have "set (onChain (lc_heap lc') (lc_logs lc) w p) = set (getForParty (hv_updates fv) p)"
    unfolding computeView_value(2) [OF wf cov cv]
    by (rule view_locked_live [OF cov lk logs_wf_disjoint [OF wf]])
  then have "amounts (lc_heap lc) (onChain (lc_heap lc') (lc_logs lc) w p)
      = amounts (lc_heap lc) (getForParty (hv_updates fv) p)"
    by (rule amounts_eq_set [OF onChain_distinct [OF wf'] d])
  then show "amounts (lc_heap lc') (onChain (lc_heap lc') (lc_logs lc) w p)
      = amounts (lc_heap lc) (getForParty (hv_updates fv) p)"
    using same_amounts [OF same] by simp
  have "onChain (lc_heap lc') (lc_logs lc) (counterParty w) q = onChain (lc_heap lc) (lc_logs lc) (counterParty w) q" for q
    by (rule onChain_cong [OF same]) (use lk in \<open>simp add: view_locked_def\<close>)
  then show "chainValue (lc_heap lc') (lc_logs lc) (counterParty w)
      = chainValue (lc_heap lc) (lc_logs lc) (counterParty w)"
    using same_amounts [OF same] by (simp add: chainValue_def)
qed

end
