(* ===== verification/Channel_Ops.thy ===== *)
theory Channel_Ops
  imports Channel_View
begin

text \<open>
  The operations of \<open>lnwallet/channel.go\<close> on the update logs, with the checks that guard them: fee
  buffers, \<open>validateCommitmentSanity\<close>, adding, settling and failing HTLCs, fee updates, the balance
  and dust queries. An operation that allocates a descriptor writes it to the address \<open>lc_next\<close>.
\<close>

section \<open>Fee buffers\<close>

datatype bufferType = NoBuffer | FeeBuffer | AdditionalHtlc

definition calcFeeBuffer :: "int \<Rightarrow> u64 \<Rightarrow> msat" where
  "calcFeeBuffer feePerKw commitWt =
     newMSatFromSatoshis (feeForWeight (i64 (2 * feePerKw)) (commitWt + htlcWeight))"

text \<open>The new balance, the buffer without the commitment fee, and the commitment fee.\<close>

definition applyCommitFee ::
  "channel \<Rightarrow> msat \<Rightarrow> u64 \<Rightarrow> int \<Rightarrow> bufferType \<Rightarrow> channel_error + msat \<times> msat \<times> msat" where
  "applyCommitFee lc balance commitWt feePerKw buffer =
     (let commitFeeMsat = newMSatFromSatoshis (feeForWeight feePerKw commitWt)
      in case buffer of
           FeeBuffer \<Rightarrow>
             if \<not> lc_isInitiator lc then Inl ErrFeeBufferNotInitiator
             else
               let bufferAmt = calcFeeBuffer feePerKw commitWt
               in if bufferAmt < balance
                  then Inr (balance - bufferAmt, bufferAmt - commitFeeMsat, commitFeeMsat)
                  else Inl ErrBelowChanReserve
         | AdditionalHtlc \<Rightarrow>
             let additionalHtlcFee = newMSatFromSatoshis (feeForWeight feePerKw htlcWeight);
                 bufferAmt = commitFeeMsat + additionalHtlcFee
             in if bufferAmt < balance
                then Inr (balance - bufferAmt, additionalHtlcFee, commitFeeMsat)
                else Inl ErrBelowChanReserve
         | NoBuffer \<Rightarrow>
             if commitFeeMsat < balance then Inr (balance - commitFeeMsat, 0, commitFeeMsat)
             else Inl ErrBelowChanReserve)"

section \<open>Commitment sanity\<close>

text \<open>The loop of \<open>validateUpdates\<close>, with its counters, and the checks after it.\<close>

fun validateUpdates_loop ::
  "pd_heap \<Rightarrow> channel_config \<Rightarrow> nat list \<Rightarrow> u16 \<Rightarrow> msat \<Rightarrow> channel_error + u16 \<times> msat" where
  "validateUpdates_loop h cfg [] num amt = Inr (num, amt)"
| "validateUpdates_loop h cfg (e # es) num amt =
     (if isAdd (h e) then
        if pd_amount (h e) = 0 then Inl ErrInvalidHTLCAmt
        else if pd_amount (h e) < cc_minHTLC cfg then Inl ErrBelowMinHTLC
        else validateUpdates_loop h cfg es (num + 1) (amt + pd_amount (h e))
      else validateUpdates_loop h cfg es num amt)"

definition validateUpdates :: "pd_heap \<Rightarrow> nat list \<Rightarrow> channel_config \<Rightarrow> channel_error option" where
  "validateUpdates h updates cfg =
     (case validateUpdates_loop h cfg updates 0 0 of
        Inl err \<Rightarrow> Some err
      | Inr (numInFlight, amtInFlight) \<Rightarrow>
          if amtInFlight > cc_maxPendingAmount cfg then Some ErrMaxPendingAmount
          else if numInFlight > cc_maxAcceptedHtlcs cfg then Some ErrMaxHTLCNumber
          else None)"

text \<open>The part of the sanity check that comes after the view has been computed.\<close>

definition sanityOfView ::
  "channel \<Rightarrow> commitment \<Rightarrow> bufferType \<Rightarrow> msat \<Rightarrow> msat \<Rightarrow> u64 \<Rightarrow> htlc_view \<Rightarrow> channel_error option" where
  "sanityOfView lc t buffer ourBalance theirBalance commitWt filteredView =
     (let feePerKw = hv_feePerKw filteredView
      in if feePerKw < feePerKwFloor then Some (FeeBelowFloor feePerKw)
         else case (if lc_isInitiator lc
                    then applyCommitFee lc ourBalance commitWt feePerKw buffer
                    else applyCommitFee lc theirBalance commitWt feePerKw NoBuffer) of
                Inl err \<Rightarrow> Some err
              | Inr (newBalance, _, _) \<Rightarrow>
                  let our = (if lc_isInitiator lc then newBalance else ourBalance);
                      their = (if lc_isInitiator lc then theirBalance else newBalance);
                      ourReserve = newMSatFromSatoshis (cc_chanReserve (lc_localCfg lc));
                      theirReserve = newMSatFromSatoshis (cc_chanReserve (lc_remoteCfg lc))
                  in if our < cm_ourBalance t \<and> our < ourReserve then Some ErrBelowChanReserve
                     else if their < cm_theirBalance t \<and> their < theirReserve
                       then Some ErrBelowChanReserve
                     else case validateUpdates (lc_heap lc) (d_remote (hv_updates filteredView))
                                 (lc_remoteCfg lc) of
                            Some err \<Rightarrow> Some err
                          | None \<Rightarrow> validateUpdates (lc_heap lc) (d_local (hv_updates filteredView))
                                      (lc_localCfg lc))"

text \<open>
  \<open>predictOurAdd\<close> and \<open>predictTheirAdd\<close> are the addresses of descriptors that are not in a log yet.
\<close>

definition predictView :: "htlc_view \<Rightarrow> nat option \<Rightarrow> nat option \<Rightarrow> htlc_view" where
  "predictView view predictOurAdd predictTheirAdd =
     view\<lparr>hv_updates := mkDual
        (case predictOurAdd of None \<Rightarrow> d_local (hv_updates view) | Some a \<Rightarrow> d_local (hv_updates view) @ [a])
        (case predictTheirAdd of None \<Rightarrow> d_remote (hv_updates view) | Some a \<Rightarrow> d_remote (hv_updates view) @ [a])\<rparr>"

definition validateCommitmentSanity ::
  "channel \<Rightarrow> u64 \<Rightarrow> u64 \<Rightarrow> channel_party \<Rightarrow> bufferType \<Rightarrow> nat option \<Rightarrow> nat option
    \<Rightarrow> channel \<times> channel_error option" where
  "validateCommitmentSanity lc theirLogCounter ourLogCounter whose buffer predictOurAdd predictTheirAdd =
     (let t = tip (getForParty (lc_chains lc) whose);
          view = predictView (fetchHTLCView lc theirLogCounter ourLogCounter) predictOurAdd predictTheirAdd
      in case computeView lc view whose False None of
           (lc', Inl err) \<Rightarrow> (lc', Some err)
         | (lc', Inr (ourBalance, theirBalance, commitWt, filteredView)) \<Rightarrow>
             (lc', sanityOfView lc' t buffer ourBalance theirBalance commitWt filteredView))"

section \<open>Adding HTLCs\<close>

text \<open>\<open>NoOpHtlcTLVEntry\<close>'s type.\<close>

definition noOpHtlcTLVType :: u64 where
  "noOpHtlcTLVType = 65544"

definition entryTypeForHtlc :: "(u64 \<rightharpoonup> byte list) \<Rightarrow> channel_type \<Rightarrow> updateType" where
  "entryTypeForHtlc records chanType =
     (if records noOpHtlcTLVType \<noteq> None \<and> hasTapscriptRoot chanType then NoOpAdd else Add)"

definition htlcAddDescriptor :: "channel \<Rightarrow> update_add_htlc \<Rightarrow> circuit_key option \<Rightarrow> paymentDescriptor" where
  "htlcAddDescriptor lc htlc openKey =
     zeroDescriptor\<lparr>pd_chanID := ua_chanID htlc,
       pd_entryType := entryTypeForHtlc (ua_customRecords htlc) (lc_chanType lc),
       pd_rHash := ua_paymentHash htlc, pd_timeout := ua_expiry htlc, pd_amount := ua_amount htlc,
       pd_logIndex := ul_logIndex (d_local (lc_logs lc)),
       pd_htlcIndex := ul_htlcCounter (d_local (lc_logs lc)),
       pd_onionBlob := ua_onionBlob htlc, pd_openCircuitKey := openKey,
       pd_blindingPoint := ua_blindingPoint htlc, pd_customRecords := ua_customRecords htlc\<rparr>"

text \<open>Storing a new descriptor. Its address is not reused once a log refers to it.\<close>

definition allocate :: "channel \<Rightarrow> paymentDescriptor \<Rightarrow> channel" where
  "allocate lc pd = lc\<lparr>lc_heap := (lc_heap lc)(lc_next lc := pd)\<rparr>"

definition pushLog :: "channel \<Rightarrow> channel_party \<Rightarrow> (update_log \<Rightarrow> nat \<Rightarrow> update_log) \<Rightarrow> channel" where
  "pushLog lc p f =
     lc\<lparr>lc_logs := setForParty (lc_logs lc) p (f (getForParty (lc_logs lc) p) (lc_next lc)),
        lc_next := lc_next lc + 1\<rparr>"

definition validateAddHtlc :: "channel \<Rightarrow> nat \<Rightarrow> bufferType \<Rightarrow> channel \<times> channel_error option" where
  "validateAddHtlc lc pd buffer =
     (let remoteACKedIndex = d_remote (cm_messageIndices (tail (d_local (lc_chains lc))))
      in case validateCommitmentSanity lc remoteACKedIndex (ul_logIndex (d_local (lc_logs lc)))
                Remote buffer (Some pd) None of
           (lc1, Some err) \<Rightarrow> (lc1, Some err)
         | (lc1, None) \<Rightarrow>
             validateCommitmentSanity lc1 (ul_logIndex (d_remote (lc_logs lc1)))
               (ul_logIndex (d_local (lc_logs lc1))) Local buffer (Some pd) None)"

definition addHTLC ::
  "channel \<Rightarrow> update_add_htlc \<Rightarrow> circuit_key option \<Rightarrow> bufferType \<Rightarrow> channel \<times> (channel_error + u64)" where
  "addHTLC lc htlc openKey buffer =
     (let pd = htlcAddDescriptor lc htlc openKey;
          lc1 = allocate lc pd
      in case validateAddHtlc lc1 (lc_next lc) buffer of
           (lc2, Some err) \<Rightarrow> (lc2, Inl err)
         | (lc2, None) \<Rightarrow> (pushLog lc2 Local appendHtlc, Inr (pd_htlcIndex pd)))"

definition AddHTLC ::
  "channel \<Rightarrow> update_add_htlc \<Rightarrow> circuit_key option \<Rightarrow> channel \<times> (channel_error + u64)" where
  "AddHTLC lc htlc openKey = addHTLC lc htlc openKey FeeBuffer"

definition mayAddOutgoingHtlc :: "channel \<Rightarrow> msat \<Rightarrow> channel \<times> channel_error option" where
  "mayAddOutgoingHtlc lc amt =
     (let mockHtlcAmt = (if amt \<noteq> 0 then amt
                         else if cc_minHTLC (lc_localCfg lc) \<noteq> 0 then cc_minHTLC (lc_localCfg lc)
                         else 1);
          pd = htlcAddDescriptor lc
                 \<lparr>ua_chanID = replicate 32 0, ua_ID = 0, ua_amount = mockHtlcAmt,
                  ua_paymentHash = replicate 32 0, ua_expiry = 0, ua_onionBlob = replicate 1366 0,
                  ua_blindingPoint = None, ua_customRecords = Map.empty\<rparr>
                 (Some \<lparr>ck_chanID = 0, ck_htlcID = 0\<rparr>)
      in validateAddHtlc (allocate lc pd) (lc_next lc) FeeBuffer)"

definition receiveHTLC :: "channel \<Rightarrow> update_add_htlc \<Rightarrow> channel \<times> (channel_error + u64)" where
  "receiveHTLC lc htlc =
     (let remoteLog = d_remote (lc_logs lc)
      in if ua_ID htlc \<noteq> ul_htlcCounter remoteLog
         then (lc, Inl (UnexpectedHtlcID (ua_ID htlc) (ul_htlcCounter remoteLog)))
         else
           let pd = zeroDescriptor\<lparr>pd_chanID := ua_chanID htlc,
                 pd_entryType := entryTypeForHtlc (ua_customRecords htlc) (lc_chanType lc),
                 pd_rHash := ua_paymentHash htlc, pd_timeout := ua_expiry htlc,
                 pd_amount := ua_amount htlc, pd_logIndex := ul_logIndex remoteLog,
                 pd_htlcIndex := ul_htlcCounter remoteLog, pd_onionBlob := ua_onionBlob htlc,
                 pd_blindingPoint := ua_blindingPoint htlc,
                 pd_customRecords := ua_customRecords htlc\<rparr>;
               localACKedIndex = d_local (cm_messageIndices (tail (d_remote (lc_chains lc))));
               lc1 = allocate lc pd
           in case validateCommitmentSanity lc1 (ul_logIndex remoteLog) localACKedIndex Local
                     NoBuffer None (Some (lc_next lc)) of
                (lc2, Some err) \<Rightarrow> (lc2, Inl err)
              | (lc2, None) \<Rightarrow> (pushLog lc2 Remote appendHtlc, Inr (pd_htlcIndex pd)))"

section \<open>Settling and failing HTLCs\<close>

text \<open>
  The five operations that resolve an HTLC share their steps: look the add up in the log of the
  party that offered it, refuse if it is unknown or already has a resolution, run the operation's
  own check, then append the descriptor to the resolving party's log and mark the add.
\<close>

definition markParent :: "channel \<Rightarrow> channel_party \<Rightarrow> u64 \<Rightarrow> channel" where
  "markParent lc p i =
     lc\<lparr>lc_logs := setForParty (lc_logs lc) p (markHtlcModified (getForParty (lc_logs lc) p) i)\<rparr>"

definition resolveHTLC ::
  "channel \<Rightarrow> channel_party \<Rightarrow> u64 \<Rightarrow> (u64 \<Rightarrow> channel_error)
    \<Rightarrow> (paymentDescriptor \<Rightarrow> channel_error + paymentDescriptor) \<Rightarrow> channel \<times> channel_error option" where
  "resolveHTLC lc resolver htlcIndex already mk =
     (let adds = getForParty (lc_logs lc) (counterParty resolver)
      in case lookupHtlc adds htlcIndex of
           None \<Rightarrow> (lc, Some (ErrUnknownHtlcIndex (lc_shortChanID lc) htlcIndex))
         | Some htlc \<Rightarrow>
             if htlcHasModification adds htlcIndex then (lc, Some (already htlcIndex))
             else case mk (lc_heap lc htlc) of
                    Inl err \<Rightarrow> (lc, Some err)
                  | Inr pd \<Rightarrow>
                      (markParent (pushLog (allocate lc pd) resolver appendUpdate)
                         (counterParty resolver) htlcIndex, None))"

definition SettleHTLC ::
  "channel \<Rightarrow> byte list \<Rightarrow> u64 \<Rightarrow> add_ref option \<Rightarrow> settle_fail_ref option \<Rightarrow> circuit_key option
    \<Rightarrow> channel \<times> channel_error option" where
  "SettleHTLC lc preimage htlcIndex sourceRef destRef closeKey =
     resolveHTLC lc Local htlcIndex ErrHtlcIndexAlreadySettled
       (\<lambda>htlc. if pd_rHash htlc \<noteq> sha256 preimage
               then Inl (ErrInvalidSettlePreimage preimage (pd_rHash htlc))
               else Inr (zeroDescriptor\<lparr>pd_chanID := lc_channelID lc, pd_amount := pd_amount htlc,
                      pd_rPreimage := preimage, pd_logIndex := ul_logIndex (d_local (lc_logs lc)),
                      pd_parentIndex := htlcIndex, pd_entryType := Settle, pd_sourceRef := sourceRef,
                      pd_destRef := destRef, pd_closedCircuitKey := closeKey\<rparr>))"

definition receiveHTLCSettle ::
  "channel \<Rightarrow> byte list \<Rightarrow> u64 \<Rightarrow> channel \<times> channel_error option" where
  "receiveHTLCSettle lc preimage htlcIndex =
     resolveHTLC lc Remote htlcIndex ErrHtlcIndexAlreadySettled
       (\<lambda>htlc. if pd_rHash htlc \<noteq> sha256 preimage
               then Inl (ErrInvalidSettlePreimage preimage (pd_rHash htlc))
               else Inr (zeroDescriptor\<lparr>pd_chanID := lc_channelID lc, pd_amount := pd_amount htlc,
                      pd_rPreimage := preimage, pd_parentIndex := pd_htlcIndex htlc,
                      pd_rHash := pd_rHash htlc, pd_logIndex := ul_logIndex (d_remote (lc_logs lc)),
                      pd_entryType := Settle\<rparr>))"

definition FailHTLC ::
  "channel \<Rightarrow> u64 \<Rightarrow> byte list \<Rightarrow> add_ref option \<Rightarrow> settle_fail_ref option \<Rightarrow> circuit_key option
    \<Rightarrow> channel \<times> channel_error option" where
  "FailHTLC lc htlcIndex reason sourceRef destRef closeKey =
     resolveHTLC lc Local htlcIndex ErrHtlcIndexAlreadyFailed
       (\<lambda>htlc. Inr (zeroDescriptor\<lparr>pd_chanID := lc_channelID lc, pd_amount := pd_amount htlc,
          pd_rHash := pd_rHash htlc, pd_parentIndex := htlcIndex,
          pd_logIndex := ul_logIndex (d_local (lc_logs lc)), pd_entryType := Fail,
          pd_failReason := reason, pd_sourceRef := sourceRef, pd_destRef := destRef,
          pd_closedCircuitKey := closeKey\<rparr>))"

definition MalformedFailHTLC ::
  "channel \<Rightarrow> u64 \<Rightarrow> u16 \<Rightarrow> byte list \<Rightarrow> add_ref option \<Rightarrow> channel \<times> channel_error option" where
  "MalformedFailHTLC lc htlcIndex failCode shaOnionBlob sourceRef =
     resolveHTLC lc Local htlcIndex ErrHtlcIndexAlreadyFailed
       (\<lambda>htlc. Inr (zeroDescriptor\<lparr>pd_chanID := lc_channelID lc, pd_amount := pd_amount htlc,
          pd_rHash := pd_rHash htlc, pd_parentIndex := htlcIndex,
          pd_logIndex := ul_logIndex (d_local (lc_logs lc)), pd_entryType := MalformedFail,
          pd_failCode := failCode, pd_shaOnionBlob := shaOnionBlob, pd_sourceRef := sourceRef\<rparr>))"

definition receiveFailHTLC ::
  "channel \<Rightarrow> u64 \<Rightarrow> byte list \<Rightarrow> channel \<times> channel_error option" where
  "receiveFailHTLC lc htlcIndex reason =
     resolveHTLC lc Remote htlcIndex ErrHtlcIndexAlreadyFailed
       (\<lambda>htlc. Inr (zeroDescriptor\<lparr>pd_chanID := lc_channelID lc, pd_amount := pd_amount htlc,
          pd_rHash := pd_rHash htlc, pd_parentIndex := pd_htlcIndex htlc,
          pd_logIndex := ul_logIndex (d_remote (lc_logs lc)), pd_entryType := Fail,
          pd_failReason := reason\<rparr>))"

section \<open>Balances, dust and fees\<close>

definition getDustSum :: "channel \<Rightarrow> channel_party \<Rightarrow> int option \<Rightarrow> msat" where
  "getDustSum lc whoseCommit dryRunFee =
     (let dustLimit = cc_dustLimit (cfgOf lc whoseCommit);
          commit = (if isRemote whoseCommit then lc_remoteCommitment lc else lc_localCommitment lc);
          feeRate = (case dryRunFee of None \<Rightarrow> dc_feePerKw commit | Some f \<Rightarrow> f);
          dust = (\<lambda>incoming a. isAdd (lc_heap lc a) \<and>
             htlcIsDust (lc_chanType lc) incoming whoseCommit feeRate
               (toSatoshis (pd_amount (lc_heap lc a))) dustLimit);
          dustSum = foldl (\<lambda>s a. if dust False a then s + pd_amount (lc_heap lc a) else s) 0
                      (ul_list (d_local (lc_logs lc)))
      in foldl (\<lambda>s a. if dust True a then s + pd_amount (lc_heap lc a) else s) dustSum
           (ul_list (d_remote (lc_logs lc))))"

definition availableCommitmentBalance ::
  "channel \<Rightarrow> htlc_view \<Rightarrow> channel_party \<Rightarrow> bufferType \<Rightarrow> channel \<times> msat \<times> u64" where
  "availableCommitmentBalance lc view whose buffer =
     (case computeView lc view whose False None of
        (lc', Inl err) \<Rightarrow> (lc', 0, 0)
      | (lc', Inr (our0, their0, commitWt, filteredView)) \<Rightarrow>
          let ourReserve = newMSatFromSatoshis (cc_chanReserve (lc_localCfg lc));
              ourBalance = (if ourReserve \<le> our0 then our0 - ourReserve else 0);
              feePerKw = hv_feePerKw filteredView;
              additionalHtlcFee = newMSatFromSatoshis (feeForWeight feePerKw htlcWeight);
              commitFee = newMSatFromSatoshis (feeForWeight feePerKw commitWt)
          in if lc_isInitiator lc then
               let futureCommitWeight = (if buffer = FeeBuffer then commitWt + htlcWeight else commitWt)
               in case applyCommitFee lc ourBalance futureCommitWeight feePerKw buffer of
                    Inl err \<Rightarrow> (lc', 0, commitWt)
                  | Inr (newBalance, _, _) \<Rightarrow> (lc', newBalance, commitWt)
             else
               let theirReserve = newMSatFromSatoshis (cc_chanReserve (lc_remoteCfg lc));
                   theirBalance = (if theirReserve \<le> their0 then their0 - theirReserve else 0);
                   dustlimit = newMSatFromSatoshis (cc_dustLimit (cfgOf lc whose));
                   htlcFee = newMSatFromSatoshis
                     (if isRemote whose then htlcSuccessFee (lc_chanType lc) feePerKw
                      else htlcTimeoutFee (lc_chanType lc) feePerKw);
                   nonDustHtlcAmt = dustlimit + htlcFee;
                   commitFeeWithHtlc = commitFee + additionalHtlcFee
               in if theirBalance < commitFeeWithHtlc \<and> ourBalance \<ge> nonDustHtlcAmt
                  then (lc', nonDustHtlcAmt - 1, commitWt)
                  else (lc', ourBalance, commitWt))"

definition availableBalance :: "channel \<Rightarrow> bufferType \<Rightarrow> channel \<times> msat \<times> u64" where
  "availableBalance lc buffer =
     (let remoteACKedIndex = d_remote (cm_messageIndices (tip (d_local (lc_chains lc))));
          view = fetchHTLCView lc remoteACKedIndex (ul_logIndex (d_local (lc_logs lc)))
      in case availableCommitmentBalance lc view Local buffer of
           (lc1, ourLocalCommitBalance, commitWt) \<Rightarrow>
             (case availableCommitmentBalance lc1 view Remote buffer of
                (lc2, ourRemoteCommitBalance, _) \<Rightarrow>
                  if ourRemoteCommitBalance < ourLocalCommitBalance
                  then (lc2, ourRemoteCommitBalance, commitWt)
                  else (lc2, ourLocalCommitBalance, commitWt)))"

definition validateFeeRate :: "channel \<Rightarrow> int \<Rightarrow> channel \<times> channel_error option" where
  "validateFeeRate lc feePerKw =
     (case availableBalance lc AdditionalHtlc of
        (lc', available, txWeight) \<Rightarrow>
          let oldFee = newMSatFromSatoshis
                (feeForWeight (cm_feePerKw (tip (d_local (lc_chains lc')))) txWeight);
              baseBalance = available + oldFee;
              newFee = newMSatFromSatoshis (feeForWeight feePerKw txWeight)
          in if newFee > baseBalance then (lc', Some (CannotApplyFee feePerKw newFee baseBalance))
             else (lc', None))"

definition feeDescriptor :: "channel \<Rightarrow> channel_party \<Rightarrow> int \<Rightarrow> paymentDescriptor" where
  "feeDescriptor lc p feePerKw =
     zeroDescriptor\<lparr>pd_chanID := lc_channelID lc, pd_logIndex := ul_logIndex (getForParty (lc_logs lc) p),
       pd_amount := newMSatFromSatoshis feePerKw, pd_entryType := FeeUpdate\<rparr>"

definition updateFee :: "channel \<Rightarrow> int \<Rightarrow> channel \<times> channel_error option" where
  "updateFee lc feePerKw =
     (if \<not> lc_isInitiator lc then (lc, Some FeeUpdateAsNonInitiator)
      else case validateFeeRate lc feePerKw of
             (lc1, Some err) \<Rightarrow> (lc1, Some err)
           | (lc1, None) \<Rightarrow>
               (pushLog (allocate lc1 (feeDescriptor lc1 Local feePerKw)) Local appendUpdate, None))"

definition receiveUpdateFee :: "channel \<Rightarrow> int \<Rightarrow> channel \<times> channel_error option" where
  "receiveUpdateFee lc feePerKw =
     (if lc_isInitiator lc then (lc, Some FeeUpdateAsInitiator)
      else (pushLog (allocate lc (feeDescriptor lc Remote feePerKw)) Remote appendUpdate, None))"

definition commitFeeTotalAt :: "channel \<Rightarrow> int \<Rightarrow> channel \<times> (channel_error + int \<times> int)" where
  "commitFeeTotalAt lc feePerKw =
     (let localIdx = ul_logIndex (d_local (lc_logs lc));
          remoteIdx = ul_logIndex (d_remote (lc_logs lc))
      in case computeView lc (fetchHTLCView lc remoteIdx localIdx) Local False (Some feePerKw) of
           (lc1, Inl err) \<Rightarrow> (lc1, Inl err)
         | (lc1, Inr (_, _, localWeight, _)) \<Rightarrow>
             (case computeView lc1 (fetchHTLCView lc1 remoteIdx localIdx) Remote False (Some feePerKw) of
                (lc2, Inl err) \<Rightarrow> (lc2, Inl err)
              | (lc2, Inr (_, _, remoteWeight, _)) \<Rightarrow>
                  (lc2, Inr (feeForWeight feePerKw localWeight, feeForWeight feePerKw remoteWeight))))"

section \<open>What is owed\<close>

definition oweCommitment :: "channel \<Rightarrow> channel_party \<Rightarrow> bool" where
  "oweCommitment lc issuer =
     (let lastLocalCommit = tip (d_local (lc_chains lc));
          lastRemoteCommit = tip (d_remote (lc_chains lc))
      in if isLocal issuer
         then ul_logIndex (d_local (lc_logs lc)) \<noteq> d_local (cm_messageIndices lastRemoteCommit)
              \<or> d_remote (cm_messageIndices lastLocalCommit) \<noteq> d_remote (cm_messageIndices lastRemoteCommit)
         else ul_logIndex (d_remote (lc_logs lc)) \<noteq> d_remote (cm_messageIndices lastLocalCommit)
              \<or> d_local (cm_messageIndices lastRemoteCommit) \<noteq> d_local (cm_messageIndices lastLocalCommit))"

definition numPendingUpdates :: "channel \<Rightarrow> channel_party \<Rightarrow> channel_party \<Rightarrow> u64" where
  "numPendingUpdates lc whoseUpdates whoseCommit =
     ul_logIndex (getForParty (lc_logs lc) whoseUpdates)
     - getForParty (cm_messageIndices (tip (getForParty (lc_chains lc) whoseCommit))) whoseUpdates"

text \<open>\<open>channeldb.OpenChannel.ActiveHtlcs\<close> matches the HTLCs of the two commitments by onion hash.\<close>

definition activeHtlcs :: "channel \<Rightarrow> disk_htlc list" where
  "activeHtlcs lc =
     filter (\<lambda>x. sha256 (dh_onionBlob x)
                  \<in> set (map (\<lambda>y. sha256 (dh_onionBlob y)) (dc_htlcs (lc_remoteCommitment lc))))
       (dc_htlcs (lc_localCommitment lc))"

definition isChannelClean :: "channel \<Rightarrow> bool" where
  "isChannelClean lc \<longleftrightarrow>
     \<not> hasUnackedCommitment (d_local (lc_chains lc)) \<and>
     \<not> hasUnackedCommitment (d_remote (lc_chains lc)) \<and>
     activeHtlcs lc = [] \<and> \<not> oweCommitment lc Local \<and> \<not> oweCommitment lc Remote"

end
