(* ===== verification/Channel_Chain.thy ===== *)
theory Channel_Chain
  imports Channel_Ops
begin

text \<open>
  The commitment chains of \<open>lnwallet/channel.go\<close>: building an unsigned commitment
  (\<open>lnwallet/commitment.go\<close>), signing the next remote commitment, accepting a new local one,
  revoking ours and processing the peer's revocation, with the writes to the channel's database
  (\<open>channeldb/channel.go\<close>) that go with them.
\<close>

section \<open>Building a commitment\<close>

text \<open>
  What the state machine takes from code outside the repository: the checks on a transaction with
  the given output values (\<open>te_txOk\<close>: script derivation, sorting and \<open>btcd\<close>'s
  \<open>CheckTransactionSanity\<close> succeed), its weight with witnesses (\<open>te_txWeight\<close>), the verification of
  the peer's signatures (\<open>te_verify\<close>), our own signing (\<open>te_sign\<close>), the point of a secret
  (\<open>te_commitPoint\<close>), and whether the outputs of a revoked commitment can be located
  (\<open>te_outputIndexes\<close>).
\<close>

record tx_env =
  te_txOk :: "u64 \<Rightarrow> int list \<Rightarrow> bool"
  te_txWeight :: "int list \<Rightarrow> int"
  te_verify :: "commitment \<Rightarrow> byte list \<Rightarrow> bool"
  te_sign :: "commitment \<Rightarrow> bool"
  te_commitPoint :: "byte list \<Rightarrow> byte list"
  te_outputIndexes :: "byte list \<Rightarrow> bool"

definition anchorSize :: int where
  "anchorSize = 330"

text \<open>\<open>CreateCommitTx\<close>: the values of the outputs that are not HTLCs, in the order they are added.\<close>

definition createCommitTx :: "channel_type \<Rightarrow> int \<Rightarrow> int \<Rightarrow> int \<Rightarrow> int \<Rightarrow> int list" where
  "createCommitTx chanType dustLimit amountToLocal amountToRemote numHTLCs =
     (let localOutput = amountToLocal \<ge> dustLimit;
          remoteOutput = amountToRemote \<ge> dustLimit
      in (if localOutput then [amountToLocal] else []) @
         (if remoteOutput then [amountToRemote] else []) @
         (if hasAnchors chanType
          then (if localOutput \<or> numHTLCs > 0 then [anchorSize] else []) @
               (if remoteOutput \<or> numHTLCs > 0 then [anchorSize] else [])
          else []))"

text \<open>Summing output values in \<open>int64\<close>.\<close>

definition totalOut :: "int list \<Rightarrow> int" where
  "totalOut outs = foldl (\<lambda>s v. i64 (s + v)) 0 outs"

record unsigned_tx =
  ut_outputs :: "int list"
  ut_fee :: int
  ut_ourBalance :: msat
  ut_theirBalance :: msat

text \<open>The commitment fee is taken from the initiator, whose whole balance goes if it is too small.\<close>

definition payCommitFee :: "channel \<Rightarrow> int \<Rightarrow> msat \<Rightarrow> msat \<Rightarrow> msat \<times> msat" where
  "payCommitFee lc commitFee ourBalance theirBalance =
     (if lc_isInitiator lc \<and> commitFee > toSatoshis ourBalance then (0, theirBalance)
      else if lc_isInitiator lc then (ourBalance - newMSatFromSatoshis commitFee, theirBalance)
      else if commitFee > toSatoshis theirBalance then (ourBalance, 0)
      else (ourBalance, theirBalance - newMSatFromSatoshis commitFee))"

definition createUnsignedCommitmentTx ::
  "tx_env \<Rightarrow> channel \<Rightarrow> msat \<Rightarrow> msat \<Rightarrow> channel_party \<Rightarrow> int \<Rightarrow> u64 \<Rightarrow> htlc_view
    \<Rightarrow> channel_error + unsigned_tx" where
  "createUnsignedCommitmentTx env lc our0 their0 whose feePerKw height filteredView =
     (let h = lc_heap lc;
          outgoing = dustFilter lc h False whose feePerKw (d_local (hv_updates filteredView));
          incoming = dustFilter lc h True whose feePerKw (d_remote (hv_updates filteredView));
          numHTLCs = int (length outgoing + length incoming);
          totalCommitWeight = commitWeight (lc_chanType lc)
            + of_nat (length outgoing + length incoming) * htlcWeight;
          commitFee = feeForWeight feePerKw totalCommitWeight;
          balances = payCommitFee lc commitFee our0 their0;
          ourBalance = fst balances;
          theirBalance = snd balances;
          dustLimit = cc_dustLimit (cfgOf lc whose);
          plain = (if isLocal whose
                   then createCommitTx (lc_chanType lc) dustLimit (toSatoshis ourBalance)
                          (toSatoshis theirBalance) numHTLCs
                   else createCommitTx (lc_chanType lc) dustLimit (toSatoshis theirBalance)
                          (toSatoshis ourBalance) numHTLCs);
          outs = plain @ map (\<lambda>a. toSatoshis (pd_amount (h a))) (outgoing @ incoming)
      in if \<not> te_txOk env height outs then Inl CommitTxFailed
         else if i64 (totalOut outs + commitFee) > lc_capacity lc
         then Inl (CapacityExceeded height (i64 (totalOut outs + commitFee)) (lc_capacity lc))
         else Inr \<lparr>ut_outputs = outs, ut_fee = commitFee, ut_ourBalance = ourBalance,
                   ut_theirBalance = theirBalance\<rparr>)"

definition fetchCommitmentView ::
  "tx_env \<Rightarrow> channel \<Rightarrow> channel_party \<Rightarrow> u64 \<Rightarrow> u64 \<Rightarrow> u64 \<Rightarrow> u64
    \<Rightarrow> channel \<times> (channel_error + commitment)" where
  "fetchCommitmentView env lc whose ourLogIndex ourHtlcIndex theirLogIndex theirHtlcIndex =
     (let t = tip (getForParty (lc_chains lc) whose);
          nextHeight = cm_height t + 1
      in case computeView lc (fetchHTLCView lc theirLogIndex ourLogIndex) whose True None of
           (lc1, Inl err) \<Rightarrow> (lc1, Inl err)
         | (lc1, Inr (ourBalance, theirBalance, _, filteredView)) \<Rightarrow>
             let feePerKw = hv_feePerKw filteredView
             in case createUnsignedCommitmentTx env lc1 ourBalance theirBalance whose feePerKw
                       nextHeight filteredView of
                  Inl err \<Rightarrow> (lc1, Inl err)
                | Inr tx \<Rightarrow>
                    let fee = i64 (lc_capacity lc1 - totalOut (ut_outputs tx));
                        effFeeRate = quot (i64 (fee * 1000)) (te_txWeight env (ut_outputs tx))
                    in if effFeeRate < absoluteFeePerKwFloor
                       then (lc1, Inl (FeeRateTooLow nextHeight effFeeRate))
                       else (lc1, Inr
                         \<lparr>cm_height = nextHeight, cm_whoseCommit = whose,
                          cm_messageIndices = mkDual ourLogIndex theirLogIndex,
                          cm_ourHtlcIndex = ourHtlcIndex, cm_theirHtlcIndex = theirHtlcIndex,
                          cm_ourBalance = ut_ourBalance tx, cm_theirBalance = ut_theirBalance tx,
                          cm_fee = ut_fee tx, cm_feePerKw = feePerKw,
                          cm_dustLimit = cc_dustLimit (cfgOf lc1 whose),
                          cm_outgoingHTLCs = map (lc_heap lc1) (d_local (hv_updates filteredView)),
                          cm_incomingHTLCs = map (lc_heap lc1) (d_remote (hv_updates filteredView))\<rparr>))"

definition diskHtlc :: "bool \<Rightarrow> paymentDescriptor \<Rightarrow> disk_htlc" where
  "diskHtlc incoming pd =
     \<lparr>dh_rHash = pd_rHash pd, dh_amt = pd_amount pd, dh_refundTimeout = pd_timeout pd,
      dh_htlcIndex = pd_htlcIndex pd, dh_logIndex = pd_logIndex pd, dh_incoming = incoming,
      dh_onionBlob = pd_onionBlob pd,
      dh_blindingPoint = pd_blindingPoint pd, dh_customRecords = pd_customRecords pd\<rparr>"

definition toDiskCommit :: "commitment \<Rightarrow> disk_commitment" where
  "toDiskCommit c =
     \<lparr>dc_commitHeight = cm_height c, dc_localLogIndex = d_local (cm_messageIndices c),
      dc_localHtlcIndex = cm_ourHtlcIndex c, dc_remoteLogIndex = d_remote (cm_messageIndices c),
      dc_remoteHtlcIndex = cm_theirHtlcIndex c, dc_localBalance = cm_ourBalance c,
      dc_remoteBalance = cm_theirBalance c, dc_commitFee = cm_fee c, dc_feePerKw = cm_feePerKw c,
      dc_htlcs = map (diskHtlc False) (cm_outgoingHTLCs c) @ map (diskHtlc True) (cm_incomingHTLCs c)\<rparr>"

section \<open>Signing the next remote commitment\<close>

text \<open>
  \<open>createCommitDiff\<close>: the entries of our log that were committed at exactly the new height. A
  circuit key is collected from an \<open>Add\<close> only: the switch has no case for \<open>NoOpAdd\<close>.
\<close>

definition createCommitDiff :: "channel \<Rightarrow> commitment \<Rightarrow> commit_diff" where
  "createCommitDiff lc newCommit =
     (let pds = filter
            (\<lambda>pd. d_remote (pd_addHeights pd) = cm_height newCommit \<or>
                  d_remote (pd_rmvHeights pd) = cm_height newCommit)
            (map (lc_heap lc) (ul_list (d_local (lc_logs lc))));
          adds = filter (\<lambda>pd. pd_entryType pd = Add) pds;
          resolutions = filter isResolution pds
      in \<lparr>cd_commitment = toDiskCommit newCommit, cd_logUpdates = map toLogUpdate pds,
          cd_openedCircuitKeys = List.map_filter pd_openCircuitKey adds,
          cd_closedCircuitKeys = List.map_filter pd_closedCircuitKey resolutions,
          cd_addAcks = List.map_filter pd_sourceRef resolutions,
          cd_settleFailAcks = List.map_filter pd_destRef resolutions\<rparr>)"

definition appendRemoteCommitChain :: "channel_db \<Rightarrow> commit_diff \<Rightarrow> channel_db option" where
  "appendRemoteCommitChain db diff =
     (if db_frozen db then None
      else Some (db\<lparr>db_lastWasRevoke := False, db_commitDiff := Some diff\<rparr>))"

definition extendChain :: "channel \<Rightarrow> channel_party \<Rightarrow> commitment \<Rightarrow> channel" where
  "extendChain lc whose c =
     lc\<lparr>lc_chains := modifyForParty (lc_chains lc) whose (\<lambda>s. addCommitment s c)\<rparr>"

definition signNextCommitment :: "tx_env \<Rightarrow> channel \<Rightarrow> channel \<times> (channel_error + commit_diff)" where
  "signNextCommitment env lc =
     (if hasUnackedCommitment (d_remote (lc_chains lc)) \<or> lc_remoteNextRevocation lc = None
      then (lc, Inl ErrNoWindow)
      else
        let localTail = tail (d_local (lc_chains lc));
            remoteACKedIndex = d_remote (cm_messageIndices localTail);
            remoteHtlcIndex = cm_theirHtlcIndex localTail
        in case validateCommitmentSanity lc remoteACKedIndex (ul_logIndex (d_local (lc_logs lc)))
                  Remote NoBuffer None None of
             (lc1, Some err) \<Rightarrow> (lc1, Inl err)
           | (lc1, None) \<Rightarrow>
               (case fetchCommitmentView env lc1 Remote (ul_logIndex (d_local (lc_logs lc1)))
                       (ul_htlcCounter (d_local (lc_logs lc1))) remoteACKedIndex remoteHtlcIndex of
                  (lc2, Inl err) \<Rightarrow> (lc2, Inl err)
                | (lc2, Inr c) \<Rightarrow>
                    if \<not> te_sign env c then (lc2, Inl SignatureRejected)
                    else
                      let diff = createCommitDiff lc2 c
                      in case appendRemoteCommitChain (lc_db lc2) diff of
                           None \<Rightarrow> (lc2, Inl DbRefused)
                         | Some db \<Rightarrow> (extendChain (lc2\<lparr>lc_db := db\<rparr>) Remote c, Inr diff)))"

section \<open>Receiving a new local commitment\<close>

definition receiveNewCommitment :: "tx_env \<Rightarrow> channel \<Rightarrow> byte list \<Rightarrow> channel \<times> channel_error option" where
  "receiveNewCommitment env lc sig =
     (let remoteTail = tail (d_remote (lc_chains lc));
          localACKedIndex = d_local (cm_messageIndices remoteTail);
          localHtlcIndex = cm_ourHtlcIndex remoteTail
      in case validateCommitmentSanity lc (ul_logIndex (d_remote (lc_logs lc))) localACKedIndex
                Local NoBuffer None None of
           (lc1, Some err) \<Rightarrow> (lc1, Some err)
         | (lc1, None) \<Rightarrow>
             (case atIndex sha256 (lc_producer lc1) (lc_currentHeight lc1 + 1) of
                Inl err \<Rightarrow> (lc1, Some (RevocationRejected err))
              | Inr _ \<Rightarrow>
                  (case fetchCommitmentView env lc1 Local localACKedIndex localHtlcIndex
                          (ul_logIndex (d_remote (lc_logs lc1)))
                          (ul_htlcCounter (d_remote (lc_logs lc1))) of
                     (lc2, Inl err) \<Rightarrow> (lc2, Some err)
                   | (lc2, Inr c) \<Rightarrow>
                       if \<not> te_verify env c sig then (lc2, Some SignatureRejected)
                       else (extendChain lc2 Local c, None))))"

section \<open>Revoking the local commitment\<close>

text \<open>Remote updates we have acked but not yet signed for.\<close>

definition getUnsignedAckedUpdates :: "channel \<Rightarrow> log_update list" where
  "getUnsignedAckedUpdates lc =
     (let lastRemoteCommitted = d_remote (cm_messageIndices (tail (d_remote (lc_chains lc))));
          lastLocalCommitted = d_remote (cm_messageIndices (tail (d_local (lc_chains lc))))
      in map (\<lambda>a. toLogUpdate (lc_heap lc a))
           (filter (\<lambda>a. \<not> pd_logIndex (lc_heap lc a) < lastRemoteCommitted \<and>
                        \<not> pd_logIndex (lc_heap lc a) \<ge> lastLocalCommitted)
              (ul_list (d_remote (lc_logs lc)))))"

text \<open>\<open>processFinalHtlc\<close>: what a locked-in update says about its HTLC.\<close>

definition processFinalHtlc :: "log_update \<Rightarrow> (u64 \<rightharpoonup> bool) \<Rightarrow> (u64 \<rightharpoonup> bool)" where
  "processFinalHtlc upd finalHtlcs =
     (case lu_updateMsg upd of
        UpdateFulfillHTLC _ i _ \<Rightarrow> finalHtlcs(i \<mapsto> True)
      | UpdateFailHTLC _ i _ \<Rightarrow> finalHtlcs(i \<mapsto> False)
      | UpdateFailMalformedHTLC _ i _ _ \<Rightarrow> finalHtlcs(i \<mapsto> False)
      | _ \<Rightarrow> finalHtlcs)"

definition updateCommitment ::
  "channel_db \<Rightarrow> disk_commitment \<Rightarrow> log_update list \<Rightarrow> (channel_db \<times> (u64 \<rightharpoonup> bool)) option" where
  "updateCommitment db newCommitment unsignedAckedUpdates =
     (if db_frozen db then None
      else
        let db1 = db\<lparr>db_unsignedAckedUpdates := Some unsignedAckedUpdates, db_lastWasRevoke := True\<rparr>
        in case db_remoteUnsignedLocalUpdates db of
             None \<Rightarrow> Some (db1, Map.empty)
           | Some updates \<Rightarrow>
               let unsig = (\<lambda>u. lu_logIndex u \<ge> dc_localLogIndex newCommitment)
               in Some (db1\<lparr>db_remoteUnsignedLocalUpdates := Some (filter unsig updates)\<rparr>,
                        foldl (\<lambda>m u. processFinalHtlc u m) Map.empty
                          (filter (\<lambda>u. \<not> unsig u) updates)))"

record revoke_and_ack =
  rv_revocation :: "byte list"
  rv_nextRevocationKey :: "byte list"

definition generateRevocation :: "tx_env \<Rightarrow> channel \<Rightarrow> u64 \<Rightarrow> channel_error + revoke_and_ack" where
  "generateRevocation env lc height =
     (case atIndex sha256 (lc_producer lc) height of
        Inl err \<Rightarrow> Inl (RevocationRejected err)
      | Inr commitSecret \<Rightarrow>
          (case atIndex sha256 (lc_producer lc) (height + 2) of
             Inl err \<Rightarrow> Inl (RevocationRejected err)
           | Inr nextCommitSecret \<Rightarrow>
               Inr \<lparr>rv_revocation = commitSecret,
                    rv_nextRevocationKey = te_commitPoint env nextCommitSecret\<rparr>))"

text \<open>
  \<open>advanceTail\<close> removes the front of the list, and the new tail is read afterwards: with a single
  commitment the read dereferences nil.
\<close>

definition dropTail :: "channel \<Rightarrow> channel_party \<Rightarrow> channel" where
  "dropTail lc whose = lc\<lparr>lc_chains := modifyForParty (lc_chains lc) whose advanceTail\<rparr>"

definition revokeCurrentCommitment ::
  "tx_env \<Rightarrow> channel \<Rightarrow> channel \<times> (channel_error + revoke_and_ack \<times> disk_htlc list \<times> (u64 \<rightharpoonup> bool))" where
  "revokeCurrentCommitment env lc =
     (case generateRevocation env lc (lc_currentHeight lc) of
        Inl err \<Rightarrow> (lc, Inl err)
      | Inr revocationMsg \<Rightarrow>
          let lc1 = (dropTail lc Local)\<lparr>lc_currentHeight := lc_currentHeight lc + 1\<rparr>
          in if d_local (lc_chains lc1) = [] then (lc1, Inl GoPanic)
             else
               let newCommitment = toDiskCommit (tail (d_local (lc_chains lc1)))
               in case updateCommitment (lc_db lc1) newCommitment (getUnsignedAckedUpdates lc1) of
                    None \<Rightarrow> (lc1, Inl DbRefused)
                  | Some (db, finalHtlcs) \<Rightarrow>
                      (lc1\<lparr>lc_db := db, lc_localCommitment := newCommitment\<rparr>,
                       Inr (revocationMsg, dc_htlcs newCommitment, finalHtlcs)))"

section \<open>Receiving a revocation\<close>

definition unsignedLocalUpdates :: "channel \<Rightarrow> u64 \<Rightarrow> u64 \<Rightarrow> log_update list" where
  "unsignedLocalUpdates lc remoteMessageIndex localMessageIndex =
     map (\<lambda>a. toLogUpdate (lc_heap lc a))
       (filter (\<lambda>a. \<not> isAdd (lc_heap lc a) \<and> pd_logIndex (lc_heap lc a) < remoteMessageIndex \<and>
                    pd_logIndex (lc_heap lc a) \<ge> localMessageIndex)
          (ul_list (d_local (lc_logs lc))))"

text \<open>
  The loop of \<open>ReceiveRevocation\<close> over the remote log. An update that has just become locked in on
  both chains gets a reference into the forwarding package, is flagged as forwarded, and its wire
  message is collected.
\<close>

definition freshAdd :: "u64 \<Rightarrow> u64 \<Rightarrow> paymentDescriptor \<Rightarrow> bool" where
  "freshAdd remoteChainTail localChainTail pd \<longleftrightarrow>
     isAdd pd \<and> d_remote (pd_addHeights pd) > 0 \<and> d_local (pd_addHeights pd) > 0 \<and>
     remoteChainTail = d_remote (pd_addHeights pd) \<and> localChainTail \<ge> d_local (pd_addHeights pd)"

definition freshRmv :: "u64 \<Rightarrow> u64 \<Rightarrow> paymentDescriptor \<Rightarrow> bool" where
  "freshRmv remoteChainTail localChainTail pd \<longleftrightarrow>
     \<not> isAdd pd \<and> d_remote (pd_rmvHeights pd) > 0 \<and> d_local (pd_rmvHeights pd) > 0 \<and>
     remoteChainTail = d_remote (pd_rmvHeights pd) \<and> localChainTail \<ge> d_local (pd_rmvHeights pd)"

fun forwardLoop ::
  "u64 \<Rightarrow> u64 \<Rightarrow> u64 \<Rightarrow> nat list \<Rightarrow> pd_heap \<Rightarrow> u16 \<Rightarrow> u16 \<Rightarrow> log_update list \<Rightarrow> log_update list
    \<Rightarrow> pd_heap \<times> log_update list \<times> log_update list" where
  "forwardLoop source rt lt [] h addIndex settleFailIndex adds settleFails = (h, adds, settleFails)"
| "forwardLoop source rt lt (e # es) h addIndex settleFailIndex adds settleFails =
     (let pd = h e
      in if pd_entryType pd = FeeUpdate \<or> pd_isForwarded pd
         then forwardLoop source rt lt es h addIndex settleFailIndex adds settleFails
         else if freshAdd rt lt pd then
           let pd' = pd\<lparr>pd_sourceRef := Some \<lparr>ar_height = rt, ar_index = addIndex\<rparr>,
                        pd_isForwarded := True\<rparr>
           in forwardLoop source rt lt es (h(e := pd')) (addIndex + 1) settleFailIndex
                (adds @ [toLogUpdate pd']) settleFails
         else if freshRmv rt lt pd then
           let pd' = pd\<lparr>pd_destRef := Some \<lparr>sr_source = source, sr_height = rt, sr_index = settleFailIndex\<rparr>,
                        pd_isForwarded := True\<rparr>
           in forwardLoop source rt lt es (h(e := pd')) addIndex (settleFailIndex + 1)
                adds (settleFails @ [toLogUpdate pd'])
         else forwardLoop source rt lt es h addIndex settleFailIndex adds settleFails)"

text \<open>\<open>AdvanceCommitChainTail\<close>: the new remote commitment is the one of the stored commit diff.\<close>

definition advanceCommitChainTail ::
  "channel_db \<Rightarrow> disk_commitment \<Rightarrow> fwd_pkg \<Rightarrow> log_update list \<Rightarrow> (channel_db \<times> disk_commitment) option" where
  "advanceCommitChainTail db remoteCommitment fwdPkg updates =
     (if db_frozen db then None
      else case db_commitDiff db of
        None \<Rightarrow> None
      | Some newCommit \<Rightarrow>
          let db1 = db\<lparr>db_commitDiff := None,
                db_revocationLog := db_revocationLog db @ [remoteCommitment],
                db_fwdPkgs := db_fwdPkgs db @ [fwdPkg]\<rparr>
          in case db_unsignedAckedUpdates db of
               None \<Rightarrow> Some (db1, cd_commitment newCommit)
             | Some acked \<Rightarrow>
                 Some (db1\<lparr>db_unsignedAckedUpdates := Some
                         (filter (\<lambda>u. lu_logIndex u \<ge> dc_remoteLogIndex (cd_commitment newCommit)) acked),
                       db_remoteUnsignedLocalUpdates := Some updates\<rparr>, cd_commitment newCommit))"

definition receiveRevocation ::
  "tx_env \<Rightarrow> channel \<Rightarrow> revoke_and_ack \<Rightarrow> channel \<times> (channel_error + fwd_pkg \<times> disk_htlc list)" where
  "receiveRevocation env lc revMsg =
     (case addNextEntry sha256 (lc_store lc) (rv_revocation revMsg) of
        Inl err \<Rightarrow> (lc, Inl (RevocationRejected err))
      | Inr store \<Rightarrow>
          let lc0 = lc\<lparr>lc_store := store\<rparr>
          in case lc_remoteCurrentRevocation lc of
               None \<Rightarrow> (lc0, Inl GoPanic)
             | Some currentCommitPoint \<Rightarrow>
          if te_commitPoint env (rv_revocation revMsg) \<noteq> currentCommitPoint
          then (lc0, Inl RevocationKeyMismatch)
          else
            let lc1 = lc0\<lparr>lc_remoteCurrentRevocation := lc_remoteNextRevocation lc0,
                          lc_remoteNextRevocation := Some (rv_nextRevocationKey revMsg)\<rparr>;
                remoteChainTail = cm_height (tail (d_remote (lc_chains lc1))) + 1;
                localChainTail = cm_height (tail (d_local (lc_chains lc1)));
                source = lc_shortChanID lc1
            in case forwardLoop source remoteChainTail localChainTail
                      (ul_list (d_remote (lc_logs lc1))) (lc_heap lc1) 0 0 [] [] of
                 (h, adds, settleFails) \<Rightarrow>
            let lc2 = lc1\<lparr>lc_heap := h\<rparr>;
                remoteMessageIndex = d_local (cm_messageIndices (tip (d_remote (lc_chains lc2))));
                localMessageIndex = d_local (cm_messageIndices (tail (d_local (lc_chains lc2))));
                localPeerUpdates = unsignedLocalUpdates lc2 remoteMessageIndex localMessageIndex;
                fwdPkg = \<lparr>fp_source = source, fp_height = remoteChainTail, fp_adds = adds,
                          fp_settleFails = settleFails\<rparr>
            in if \<not> te_outputIndexes env (rv_revocation revMsg) then (lc2, Inl OutputIndexNotFound)
               else case advanceCommitChainTail (lc_db lc2) (lc_remoteCommitment lc2) fwdPkg
                           localPeerUpdates of
                      None \<Rightarrow> (lc2, Inl DbRefused)
                    | Some (db, newRemoteCommit) \<Rightarrow>
                        let lc3 = dropTail (lc2\<lparr>lc_db := db, lc_remoteCommitment := newRemoteCommit\<rparr>) Remote
                        in case compactLogs (lc_heap lc3) (lc_logs lc3) localChainTail remoteChainTail of
                             None \<Rightarrow> (lc3, Inl GoPanic)
                           | Some logs \<Rightarrow>
                               (lc3\<lparr>lc_logs := logs\<rparr>, Inr (fwdPkg, dc_htlcs newRemoteCommit)))"

end
