(* ===== verification/Channel_Inv.thy ===== *)
theory Channel_Inv
  imports Channel_Chain
begin

text \<open>
  The invariants of the commitment state machine, and the theorems about its runs: the logs stay
  well formed, an entry is committed on a chain exactly when the last commitment's message index
  says so, the value of every commitment equals the channel's value, and what is stored on disk
  mirrors the chains.
\<close>

section \<open>Dry runs\<close>

text \<open>A dry run changes the no-op flags of the heap and nothing else.\<close>

definition dry :: "channel \<Rightarrow> channel \<Rightarrow> bool" where
  "dry lc lc' \<longleftrightarrow> (\<exists>h. lc' = lc\<lparr>lc_heap := h\<rparr> \<and> noop_ext (lc_heap lc) h)"

lemma dry_refl [simp]: "dry lc lc"
  unfolding dry_def by (rule exI [of _ "lc_heap lc"]) simp

lemma dry_trans: "dry a b \<Longrightarrow> dry b c \<Longrightarrow> dry a c"
  unfolding dry_def using noop_ext_trans by fastforce

lemma computeView_dry:
  assumes "computeView lc view w False d = (lc', r)"
  shows "dry lc lc'"
  using assms
proof (cases rule: computeView_cases)
  case (eval_error h' err)
  then show ?thesis using evaluateHTLCView_noop [OF eval_error(1)] by (auto simp: dry_def)
next
  case (evaluated h' fv unc deltas)
  then show ?thesis using evaluateHTLCView_noop [OF evaluated(1)] by (auto simp: dry_def)
qed

lemma validateCommitmentSanity_dry:
  "validateCommitmentSanity lc t o' w b p q = (lc', r) \<Longrightarrow> dry lc lc'"
  by (auto simp: validateCommitmentSanity_def Let_def split: prod.splits sum.splits
      dest: computeView_dry)

lemma validateAddHtlc_dry: "validateAddHtlc lc pd b = (lc', r) \<Longrightarrow> dry lc lc'"
  by (auto simp: validateAddHtlc_def Let_def split: prod.splits option.splits
      dest!: validateCommitmentSanity_dry intro: dry_trans)

lemma availableCommitmentBalance_dry:
  "availableCommitmentBalance lc v w b = (lc', r) \<Longrightarrow> dry lc lc'"
  by (auto simp: availableCommitmentBalance_def Let_def split: prod.splits sum.splits if_splits
      dest: computeView_dry)

lemma availableBalance_dry: "availableBalance lc b = (lc', r) \<Longrightarrow> dry lc lc'"
  by (auto simp: availableBalance_def Let_def split: prod.splits if_splits
      dest!: availableCommitmentBalance_dry intro: dry_trans)

lemma validateFeeRate_dry: "validateFeeRate lc f = (lc', r) \<Longrightarrow> dry lc lc'"
  by (auto simp: validateFeeRate_def Let_def split: prod.splits if_splits dest: availableBalance_dry)

section \<open>Views do not depend on the no-op flags\<close>

lemma evalResolutions_heap_irrelevant:
  "evalResolutions (lc\<lparr>lc_heap := g\<rparr>) w p es h skip deltas = evalResolutions lc w p es h skip deltas"
proof (induction lc w p es h skip deltas rule: evalResolutions.induct)
  case (1 lc w p h skip deltas)
  then show ?case by simp
next
  case (2 lc w p e es h skip deltas)
  have n: "evaluateNoOpHtlc (lc\<lparr>lc_heap := g\<rparr>) = evaluateNoOpHtlc lc"
    by (simp add: fun_eq_iff evaluateNoOpHtlc_def balanceAboveReserve_def Let_def split: channel_party.split)
  show ?case
    by (cases "fetchParent (lc_logs lc) h (h e) w (counterParty p)")
      (use 2 in \<open>auto simp: n Let_def split: prod.splits\<close>)
qed

lemma evalResolutions_noop_irrelevant:
  assumes "noop_ext h g"
  shows "snd (evalResolutions lc w p es g skip deltas) = snd (evalResolutions lc w p es h skip deltas) \<and>
    noop_ext (fst (evalResolutions lc w p es h skip deltas)) (fst (evalResolutions lc w p es g skip deltas))"
  using assms
proof (induction lc w p es h skip deltas arbitrary: g rule: evalResolutions.induct)
  case (1 lc w p h skip deltas)
  then show ?case by simp
next
  case (2 lc w p e es h skip deltas)
  note f = noop_ext_fields [OF "2.prems"]
  have fp: "fetchParent (lc_logs lc) g (g e) w q = fetchParent (lc_logs lc) h (h e) w q" for q
    by (simp add: fetchParent_def f split: option.split)
  show ?case
  proof (cases "fetchParent (lc_logs lc) h (h e) w (counterParty p)")
    case (Inl err)
    then show ?thesis using "2.prems" by (simp add: fp)
  next
    case (Inr a)
    obtain h1 d1 where n1: "evaluateNoOpHtlc lc h e p deltas = (h1, d1)" by fastforce
    obtain g1 d2 where n2: "evaluateNoOpHtlc lc g e p deltas = (g1, d2)" by fastforce
    have d: "d2 = d1" using n1 n2 by (auto simp: evaluateNoOpHtlc_def Let_def f)
    have e: "(g e)\<lparr>pd_noOpSettle := True\<rparr> = (h e)\<lparr>pd_noOpSettle := True\<rparr>"
      using "2.prems" by (auto simp: noop_ext_def dest!: spec [of _ e])
    have hg: "h1 = (if balanceAboveReserve p (getForParty deltas p) lc
          then h(e := (h e)\<lparr>pd_noOpSettle := True\<rparr>) else h)"
        "g1 = (if balanceAboveReserve p (getForParty deltas p) lc
          then g(e := (g e)\<lparr>pd_noOpSettle := True\<rparr>) else g)"
      using n1 n2 by (simp_all add: evaluateNoOpHtlc_def Let_def)
    have "noop_ext h1 g1"
    proof (cases "balanceAboveReserve p (getForParty deltas p) lc")
      case True
      have "g1 a = h1 a \<or> g1 a = (h1 a)\<lparr>pd_noOpSettle := True\<rparr>" for a
        using "2.prems" True by (cases "a = e") (simp_all add: hg e noop_ext_def)
      then show ?thesis by (simp add: noop_ext_def)
    next
      case False
      then show ?thesis using "2.prems" by (simp add: hg)
    qed
    note hg1 = this
    define sk where "sk = modifyForParty skip (counterParty p) (insert (pd_htlcIndex (h a)))"
    note IH = "2.IH" [OF Inr sk_def refl]
    consider (rmv) "getForParty (pd_rmvHeights (h e)) w \<noteq> 0"
      | (noop) "getForParty (pd_rmvHeights (h e)) w = 0" "pd_entryType (h e) = Settle" "pd_entryType (h a) = NoOpAdd"
      | (settle) "getForParty (pd_rmvHeights (h e)) w = 0" "pd_entryType (h e) = Settle" "pd_entryType (h a) \<noteq> NoOpAdd"
      | (fail) "getForParty (pd_rmvHeights (h e)) w = 0" "pd_entryType (h e) \<noteq> Settle" by blast
    then show ?thesis
    proof cases
      case rmv
      then show ?thesis using IH(1) [OF rmv "2.prems"] by (simp add: fp f Inr Let_def sk_def)
    next
      case noop
      then show ?thesis
        using IH(2) [OF _ _ n1 [symmetric] hg1] n2 d by (simp add: fp f Inr Let_def sk_def n1)
    next
      case settle
      then show ?thesis using IH(3) [OF _ _ _ "2.prems"] by (simp add: fp f Inr Let_def sk_def)
    next
      case fail
      then show ?thesis using IH(4) [OF _ _ _ "2.prems"] by (simp add: fp f Inr Let_def sk_def)
    qed
  qed
qed

lemma viewFee_noop: "noop_ext (lc_heap lc) g \<Longrightarrow> viewFee (lc\<lparr>lc_heap := g\<rparr>) view = viewFee lc view"
  by (simp add: viewFee_def initiator_def noop_ext_fields Let_def)

lemma evaluateHTLCView_noop_irrelevant:
  assumes n: "noop_ext (lc_heap lc) g"
    and ev: "evaluateHTLCView lc view w nh = (h', r)"
    and ev': "evaluateHTLCView (lc\<lparr>lc_heap := g\<rparr>) view w nh = (g', r')"
  shows "r' = r"
proof -
  let ?h = "lc_heap lc"
  note f = noop_ext_fields [OF n]
  let ?R1 = "filter (\<lambda>a. isResolution (?h a)) (d_local (hv_updates view))"
  obtain h1 r1 where e1: "evalResolutions lc w Local ?R1 ?h (mkDual {} {}) (mkDual 0 0) = (h1, r1)" by fastforce
  obtain g1 r1' where e1': "evalResolutions lc w Local ?R1 g (mkDual {} {}) (mkDual 0 0) = (g1, r1')" by fastforce
  have r1: "r1' = r1" and hg1: "noop_ext h1 g1"
    using evalResolutions_noop_irrelevant [OF n, of lc w Local ?R1 "mkDual {} {}" "mkDual 0 0"] e1 e1' by simp_all
  note f1 = noop_ext_fields [OF hg1]
  have vf: "viewFee (lc\<lparr>lc_heap := g\<rparr>) view = viewFee lc view" by (rule viewFee_noop [OF n])
  show ?thesis
  proof (cases r1)
    case (Inl err)
    then show ?thesis
      using ev ev' e1 e1' r1 by (auto simp: evaluateHTLCView_def Let_def f evalResolutions_heap_irrelevant)
  next
    case (Inr x)
    obtain s1 d1 where x: "x = (s1, d1)" by (cases x)
    let ?R2 = "filter (\<lambda>a. isResolution (h1 a)) (d_remote (hv_updates view))"
    obtain h2 r2 where e2: "evalResolutions lc w Remote ?R2 h1 s1 d1 = (h2, r2)" by fastforce
    obtain g2 r2' where e2': "evalResolutions lc w Remote ?R2 g1 s1 d1 = (g2, r2')" by fastforce
    have r2: "r2' = r2" and hg2: "noop_ext h2 g2"
      using evalResolutions_noop_irrelevant [OF hg1, of lc w Remote ?R2 s1 d1] e2 e2' by simp_all
    note f2 = noop_ext_fields [OF hg2]
    have same: "liveAdds g2 = liveAdds h2" "debitAdds g2 = debitAdds h2" "isUncommitted g2 = isUncommitted h2"
      by (simp_all add: fun_eq_iff liveAdds_def debitAdds_def isUncommitted_def f2 cong: if_cong)
    show ?thesis
      using ev ev' e1 e1' r1 e2 e2' r2 Inr x
      by (cases r2) (auto simp: evaluateHTLCView_def Let_def f f1 evalResolutions_heap_irrelevant vf same)
  qed
qed

lemma lockIn_fields:
  "pd_amount (lc_heap (lockIn w nh p us lc) a) = pd_amount (lc_heap lc a)"
  "pd_entryType (lc_heap (lockIn w nh p us lc) a) = pd_entryType (lc_heap lc a)"
  "same_entry (lc_heap lc a) (lc_heap (lockIn w nh p us lc) a)"
proof -
  show "pd_amount (lc_heap (lockIn w nh p us lc) a) = pd_amount (lc_heap lc a)"
    "pd_entryType (lc_heap (lockIn w nh p us lc) a) = pd_entryType (lc_heap lc a)"
    by (induction us arbitrary: lc) (simp_all add: Let_def recordSettlement_def)
  show "same_entry (lc_heap lc a) (lc_heap (lockIn w nh p us lc) a)"
  proof (induction us arbitrary: lc)
    case Nil
    then show ?case by simp
  next
    case (Cons u us)
    define lc2 where "lc2 = (let pd = setCommitHeight w nh (lc_heap lc u);
          lc1 = lc\<lparr>lc_heap := (lc_heap lc)(u := pd)\<rparr>
      in if w = Local \<and> pd_entryType pd = Settle \<and> \<not> pd_noOpSettle pd
         then recordSettlement lc1 p (pd_amount pd) else lc1)"
    have "lc_heap lc2 = (lc_heap lc)(u := setCommitHeight w nh (lc_heap lc u))"
      by (simp add: lc2_def Let_def recordSettlement_def)
    then have "same_entry (lc_heap lc a) (lc_heap lc2 a)" by (simp add: setCommitHeight_same)
    moreover have "same_entry (lc_heap lc2 a) (lc_heap (lockIn w nh p us lc2) a)" by (rule Cons.IH)
    moreover have "lockIn w nh p (u # us) lc = lockIn w nh p us lc2" by (simp add: lc2_def Let_def)
    ultimately show ?case
      using same_entry_kinds [of "lc_heap lc a" "lc_heap lc2 a"] by (simp add: same_entry_def)
  qed
qed

lemma viewWeight_cong:
  assumes "\<And>a. pd_amount (h a) = pd_amount (h' a)" "lc_chanType lc = lc_chanType lc'"
    "lc_localCfg lc = lc_localCfg lc'" "lc_remoteCfg lc = lc_remoteCfg lc'"
  shows "viewWeight lc h w f us = viewWeight lc' h' w f us"
    and "dustFilter lc h b w f xs = dustFilter lc' h' b w f xs"
  using assms by (simp_all add: viewWeight_def dustFilter_def cfgOf_def split: channel_party.split)

text \<open>A dry run foretells the balances, the weight and the HTLCs of the real computation.\<close>

lemma computeView_dry_agrees:
  assumes n: "noop_ext (lc_heap lc) g"
    and dry: "computeView lc view w False None = (lc1, Inr res)"
    and real: "computeView (lc\<lparr>lc_heap := g\<rparr>) view w upd None = (lc2, r)"
  shows "r = Inr res"
proof -
  let ?t = "tip (getForParty (lc_chains lc) w)"
  let ?view = "view\<lparr>hv_feePerKw := cm_feePerKw ?t, hv_nextHeight := cm_height ?t + 1\<rparr>"
  obtain h1 fv unc deltas where ev: "evaluateHTLCView lc ?view w (cm_height ?t + 1) = (h1, Inr (fv, unc, deltas))"
    using dry by (cases rule: computeView_cases) auto
  obtain g1 r1 where ev': "evaluateHTLCView (lc\<lparr>lc_heap := g\<rparr>) ?view w (cm_height ?t + 1) = (g1, r1)" by fastforce
  have r1: "r1 = Inr (fv, unc, deltas)" by (rule evaluateHTLCView_noop_irrelevant [OF n ev ev'])
  have nx: "noop_ext (lc_heap lc) h1" by (rule evaluateHTLCView_noop [OF ev])
  have nx': "noop_ext g g1" using evaluateHTLCView_noop [OF ev'] by simp
  have amt: "pd_amount (g1 a) = pd_amount (h1 a)" for a
    using noop_ext_fields(2) [OF nx, of a] noop_ext_fields(2) [OF n, of a] noop_ext_fields(2) [OF nx', of a] by simp
  show ?thesis
    using dry real ev ev' r1 amt
    by (auto simp: computeView_def Let_def lockIn_frame lockIn_fields split: if_splits
        intro!: viewWeight_cong(1))
qed

section \<open>The commitment fee\<close>

lemma feeForWeight_bound: "feeForWeight s wu * 1000 < 2 ^ 64"
proof -
  have "\<bar>i64 (s * i64_of_u64 wu)\<bar> \<le> 2 ^ 63" using i64_range [of "s * i64_of_u64 wu"] by (simp add: abs_le_iff)
  then have "\<bar>i64 (s * i64_of_u64 wu)\<bar> div 1000 * 1000 \<le> 2 ^ 63" by (simp add: minus_mod_eq_div_mult [symmetric])
  moreover have "feeForWeight s wu \<le> \<bar>i64 (s * i64_of_u64 wu)\<bar> div 1000"
    unfolding feeForWeight_def quot_def by (simp add: sgn_if pos_imp_zdiv_nonneg_iff)
  ultimately show ?thesis by (simp add: mult.commute)
qed

text \<open>An initiator who passes \<open>applyCommitFee\<close> can pay the fee in full.\<close>

lemma fee_affordable:
  assumes "newMSatFromSatoshis f < bal" "f * 1000 < 2 ^ 64"
  shows "\<not> f > toSatoshis bal"
proof (cases "0 \<le> f")
  case True
  have "newMSatFromSatoshis f = u64_of_i64 (f * 1000)"
    by (simp add: newMSatFromSatoshis_def u64_of_i64_def)
  then have "uint (newMSatFromSatoshis f) = f * 1000" using True assms(2) by (simp add: uint_u64_of_i64)
  moreover have "uint (newMSatFromSatoshis f) < uint bal" using assms(1) by (simp add: word_less_def)
  ultimately have "f * 1000 < uint bal" by simp
  then show ?thesis by (simp add: toSatoshis_value)
next
  case False
  have "0 \<le> toSatoshis bal" unfolding toSatoshis_value by (rule pos_imp_zdiv_nonneg_iff [THEN iffD2]) simp_all
  then show ?thesis using False by simp
qed

lemma payCommitFee_conserves:
  assumes "applyCommitFee lc (if lc_isInitiator lc then our else their) wt fee NoBuffer = Inr x"
    and "payCommitFee lc (feeForWeight fee wt) our their = (our', their')"
  shows "our' + their' + newMSatFromSatoshis (feeForWeight fee wt) = our + their"
proof -
  have "newMSatFromSatoshis (feeForWeight fee wt) < (if lc_isInitiator lc then our else their)"
    using assms(1) by (simp add: applyCommitFee_def Let_def split: if_splits)
  then have "\<not> feeForWeight fee wt > toSatoshis (if lc_isInitiator lc then our else their)"
    using feeForWeight_bound by (rule fee_affordable)
  then show ?thesis using assms(2) by (auto simp: payCommitFee_def split: if_splits)
qed

section \<open>The value of a commitment\<close>

definition htlcSum :: "paymentDescriptor list \<Rightarrow> msat" where
  "htlcSum pds = sum_list (map pd_amount pds)"

definition commitValue :: "commitment \<Rightarrow> msat" where
  "commitValue c = cm_ourBalance c + cm_theirBalance c + newMSatFromSatoshis (cm_fee c)
     + htlcSum (cm_outgoingHTLCs c) + htlcSum (cm_incomingHTLCs c)"

lemma htlcSum_amounts: "htlcSum (map h xs) = amounts h xs"
  by (simp add: htlcSum_def amounts_def o_def)

lemma sanityOfView_fee:
  assumes "sanityOfView lc t NoBuffer our their wt fv = None"
  shows "\<exists>x. applyCommitFee lc (if lc_isInitiator lc then our else their) wt (hv_feePerKw fv) NoBuffer = Inr x"
  using assms by (auto simp: sanityOfView_def Let_def split: if_splits sum.splits)

text \<open>What a commitment that \<open>fetchCommitmentView\<close> returns is made of.\<close>

lemma fetchCommitmentView_cases:
  assumes "fetchCommitmentView env lc w ol oh rl rh = (lc', Inr c)"
  obtains our their wt fv where
    "computeView lc (fetchHTLCView lc rl ol) w True None = (lc', Inr (our, their, wt, fv))"
    "payCommitFee lc' (feeForWeight (hv_feePerKw fv) (viewWeight lc' (lc_heap lc') w (hv_feePerKw fv) (hv_updates fv)))
       our their = (cm_ourBalance c, cm_theirBalance c)"
    "cm_fee c = feeForWeight (hv_feePerKw fv) (viewWeight lc' (lc_heap lc') w (hv_feePerKw fv) (hv_updates fv))"
    "cm_feePerKw c = hv_feePerKw fv" "cm_height c = cm_height (tip (getForParty (lc_chains lc) w)) + 1"
    "cm_messageIndices c = mkDual ol rl" "cm_ourHtlcIndex c = oh" "cm_theirHtlcIndex c = rh"
    "cm_whoseCommit c = w" "cm_outgoingHTLCs c = map (lc_heap lc') (d_local (hv_updates fv))"
    "cm_incomingHTLCs c = map (lc_heap lc') (d_remote (hv_updates fv))"
proof -
  obtain lc1 r where cv: "computeView lc (fetchHTLCView lc rl ol) w True None = (lc1, r)" by fastforce
  obtain our their wt fv where r: "r = Inr (our, their, wt, fv)" and l: "lc' = lc1"
    using assms cv by (cases r) (auto simp: fetchCommitmentView_def Let_def split: sum.splits if_splits)
  let ?h = "cm_height (tip (getForParty (lc_chains lc) w)) + 1"
  let ?wt = "viewWeight lc' (lc_heap lc') w (hv_feePerKw fv) (hv_updates fv)"
  obtain tx where tx: "createUnsignedCommitmentTx env lc' our their w (hv_feePerKw fv) ?h fv = Inr tx"
    using assms cv r by (auto simp: fetchCommitmentView_def Let_def split: sum.splits if_splits)
  have c: "c = \<lparr>cm_height = ?h, cm_whoseCommit = w, cm_messageIndices = mkDual ol rl,
      cm_ourHtlcIndex = oh, cm_theirHtlcIndex = rh, cm_ourBalance = ut_ourBalance tx,
      cm_theirBalance = ut_theirBalance tx, cm_fee = ut_fee tx, cm_feePerKw = hv_feePerKw fv,
      cm_dustLimit = cc_dustLimit (cfgOf lc' w),
      cm_outgoingHTLCs = map (lc_heap lc') (d_local (hv_updates fv)),
      cm_incomingHTLCs = map (lc_heap lc') (d_remote (hv_updates fv))\<rparr>"
    using assms cv r l tx by (auto simp: fetchCommitmentView_def Let_def split: if_splits)
  have "payCommitFee lc' (feeForWeight (hv_feePerKw fv) ?wt) our their = (ut_ourBalance tx, ut_theirBalance tx)"
    "ut_fee tx = feeForWeight (hv_feePerKw fv) ?wt"
    using tx by (auto simp: createUnsignedCommitmentTx_def viewWeight_def Let_def split: if_splits)
  then show ?thesis using that [of our their wt fv] cv r l c by simp
qed

section \<open>The invariant\<close>

abbreviation chainOf :: "channel \<Rightarrow> channel_party \<Rightarrow> commitmentChain" where
  "chainOf lc w \<equiv> getForParty (lc_chains lc) w"

abbreviation logOf :: "channel \<Rightarrow> channel_party \<Rightarrow> update_log" where
  "logOf lc p \<equiv> getForParty (lc_logs lc) p"

abbreviation msgIndex :: "commitment \<Rightarrow> channel_party \<Rightarrow> u64" where
  "msgIndex c p \<equiv> getForParty (cm_messageIndices c) p"

text \<open>An entry of a log is on the last commitment of a chain iff that commitment's index covers it.\<close>

definition idx_inv :: "channel \<Rightarrow> bool" where
  "idx_inv lc \<longleftrightarrow> (\<forall>w p. \<forall>e \<in> set (ul_list (logOf lc p)).
     committed (lc_heap lc) w e \<longleftrightarrow> pd_logIndex (lc_heap lc e) < msgIndex (tip (chainOf lc w)) p)"

text \<open>
  Chains are never empty, their message indices grow, and they stay inside the window: a chain
  includes the other party's updates only up to that party's log, and its owner's only as far as
  the tail of the other chain has acknowledged them.
\<close>

definition window_inv :: "channel \<Rightarrow> bool" where
  "window_inv lc \<longleftrightarrow> (\<forall>w. chainOf lc w \<noteq> [] \<and>
     sorted_wrt (\<lambda>c d. \<forall>p. msgIndex c p \<le> msgIndex d p) (chainOf lc w) \<and>
     (\<forall>c \<in> set (chainOf lc w).
        msgIndex c (counterParty w) \<le> ul_logIndex (logOf lc (counterParty w)) \<and>
        msgIndex c w \<le> msgIndex (tail (chainOf lc (counterParty w))) w))"

definition value_inv :: "msat \<Rightarrow> channel \<Rightarrow> bool" where
  "value_inv v lc \<longleftrightarrow> (\<forall>w. (\<forall>c \<in> set (chainOf lc w). commitValue c = v) \<and>
     amounts (lc_heap lc) (onChain (lc_heap lc) (lc_logs lc) w Local) = htlcSum (cm_outgoingHTLCs (tip (chainOf lc w))) \<and>
     amounts (lc_heap lc) (onChain (lc_heap lc) (lc_logs lc) w Remote) = htlcSum (cm_incomingHTLCs (tip (chainOf lc w))))"

definition chan_inv :: "msat \<Rightarrow> channel \<Rightarrow> bool" where
  "chan_inv v lc \<longleftrightarrow> logs_wf (lc_heap lc) (lc_next lc) (lc_logs lc) \<and> idx_inv lc \<and> window_inv lc \<and> value_inv v lc"

lemma window_tip:
  assumes "window_inv lc"
  shows "msgIndex (tip (chainOf lc w)) p \<le> ul_logIndex (logOf lc p)"
proof -
  have m: "tip (chainOf lc w) \<in> set (chainOf lc w)" "tail (chainOf lc w) \<in> set (chainOf lc w)" for w
    using assms by (simp_all add: window_inv_def tip_def tail_def)
  show ?thesis
  proof (cases "p = w")
    case True
    have "msgIndex (tip (chainOf lc w)) w \<le> msgIndex (tail (chainOf lc (counterParty w))) w"
      using assms m by (simp add: window_inv_def)
    moreover have "msgIndex (tail (chainOf lc (counterParty w))) (counterParty (counterParty w))
        \<le> ul_logIndex (logOf lc (counterParty (counterParty w)))"
      using assms m by (simp only: window_inv_def)
    ultimately show ?thesis using True by simp
  next
    case False
    then have "p = counterParty w" by (cases p; cases w) auto
    then show ?thesis using assms m by (simp add: window_inv_def)
  qed
qed

lemma isUncommitted_at: "h' a = h a \<Longrightarrow> isUncommitted h' w a = isUncommitted h w a"
  by (simp add: isUncommitted_def)

lemma onChain_local:
  assumes "\<And>a q. a \<in> set (ul_list (getForParty logs q)) \<Longrightarrow> same_entry (h a) (h' a)"
    "\<And>a q. a \<in> set (ul_list (getForParty logs q)) \<Longrightarrow> isUncommitted h' w a = isUncommitted h w a"
  shows "onChain h' logs w p = onChain h logs w p"
    and "amounts h' (onChain h' logs w p) = amounts h (onChain h logs w p)"
proof -
  have e: "isAdd (h' a) = isAdd (h a)" "isResolution (h' a) = isResolution (h a)"
    "pd_parentIndex (h' a) = pd_parentIndex (h a)" "pd_htlcIndex (h' a) = pd_htlcIndex (h a)"
    "pd_amount (h' a) = pd_amount (h a)"
    if "a \<in> set (ul_list (getForParty logs q))" for a q
    using assms(1) [OF that] same_entry_kinds [OF assms(1) [OF that]] by (simp_all add: same_entry_def)
  show o: "onChain h' logs w p = onChain h logs w p"
    unfolding onChain_committed by (rule filter_cong) (auto simp: e assms(2))
  show "amounts h' (onChain h' logs w p) = amounts h (onChain h logs w p)"
    unfolding o unfolding amounts_def onChain_def
    by (rule arg_cong [where f = sum_list]) (auto simp: e)
qed

text \<open>The invariant depends on the heap only through the entries of the logs.\<close>

lemma inv_cong:
  assumes inv: "chan_inv v lc"
    and heap: "\<And>a. a < lc_next lc \<Longrightarrow> same_entry (lc_heap lc a) (lc_heap lc' a)"
      "\<And>a w. a < lc_next lc \<Longrightarrow> isUncommitted (lc_heap lc') w a = isUncommitted (lc_heap lc) w a"
    and rest: "lc_logs lc' = lc_logs lc" "lc_chains lc' = lc_chains lc" "lc_next lc' = lc_next lc"
  shows "chan_inv v lc'"
proof -
  have wf: "logs_wf (lc_heap lc) (lc_next lc) (lc_logs lc)" using inv by (simp add: chan_inv_def)
  note b = logs_wf_bound [OF wf]
  have "logs_wf (lc_heap lc') (lc_next lc') (lc_logs lc')"
    unfolding rest by (rule logs_wf_cong [OF heap(1) wf])
  moreover have "pd_logIndex (lc_heap lc' a) = pd_logIndex (lc_heap lc a)" if "a < lc_next lc" for a
    using heap(1) [OF that] by (simp add: same_entry_def)
  then have "idx_inv lc'" using inv heap(2) b by (simp add: chan_inv_def idx_inv_def rest)
  moreover have "window_inv lc'" using inv by (simp add: chan_inv_def window_inv_def rest)
  moreover have "amounts (lc_heap lc') (onChain (lc_heap lc') (lc_logs lc) w p)
      = amounts (lc_heap lc) (onChain (lc_heap lc) (lc_logs lc) w p)" for w p
    by (rule onChain_local(2)) (rule heap, erule b)+
  then have "value_inv v lc'" using inv by (simp add: chan_inv_def value_inv_def rest)
  ultimately show ?thesis by (simp add: chan_inv_def)
qed

lemma dry_inv:
  assumes "chan_inv v lc" "dry lc lc'"
  shows "chan_inv v lc'"
proof -
  obtain h where h: "lc' = lc\<lparr>lc_heap := h\<rparr>" "noop_ext (lc_heap lc) h" using assms(2) by (auto simp: dry_def)
  show ?thesis
    by (rule inv_cong [OF assms(1)])
      (simp_all add: h(1) noop_ext_same [OF h(2)] noop_ext_committed [OF h(2)])
qed

text \<open>A new entry at the end of a log is on neither chain.\<close>

lemma onChain_push:
  assumes heap: "\<And>a. a \<in> set (ul_list (d_local logs)) \<union> set (ul_list (d_remote logs)) \<Longrightarrow> h' a = h a"
    and list: "ul_list (getForParty logs' p) = ul_list (getForParty logs p) @ [n]"
      "ul_list (getForParty logs' (counterParty p)) = ul_list (getForParty logs (counterParty p))"
    and new: "isUncommitted h' w n"
  shows "amounts h' (onChain h' logs' w q) = amounts h (onChain h logs w q)"
proof -
  have mem: "a \<in> set (ul_list (getForParty logs r)) \<Longrightarrow> h' a = h a" for a r
    using heap by (cases r) auto
  then have c: "a \<in> set (ul_list (getForParty logs r)) \<Longrightarrow> isUncommitted h' w a = isUncommitted h w a" for a r
    by (simp add: isUncommitted_def)
  have "onChain h' logs' w q = onChain h logs w q"
  proof (cases "q = p")
    case True
    have "onChain h' logs' w p = filter (\<lambda>a. isAdd (h' a) \<and> committed h' w a \<and>
        \<not> (\<exists>r \<in> set (ul_list (getForParty logs (counterParty p))).
             isResolution (h' r) \<and> committed h' w r \<and> pd_parentIndex (h' r) = pd_htlcIndex (h' a)))
       (ul_list (getForParty logs p))"
      using new by (simp add: onChain_committed list)
    also have "\<dots> = onChain h logs w p"
      unfolding onChain_committed by (rule filter_cong) (auto simp: mem c)
    finally show ?thesis using True by simp
  next
    case False
    then have q: "q = counterParty p" by (cases p; cases q) auto
    show ?thesis
      unfolding onChain_committed q counterParty_simps list
      by (rule filter_cong) (use new in \<open>auto simp: mem c\<close>)
  qed
  moreover have "amounts h' (onChain h logs w q) = amounts h (onChain h logs w q)"
    unfolding amounts_def onChain_def by (rule arg_cong [where f = sum_list]) (auto simp: mem)
  ultimately show ?thesis by simp
qed

lemma push_inv:
  assumes inv: "chan_inv v lc"
    and heap: "\<And>a. a < lc_next lc \<Longrightarrow> lc_heap lc' a = lc_heap lc a"
    and list: "ul_list (logOf lc' p) = ul_list (logOf lc p) @ [n]"
      "ul_list (logOf lc' (counterParty p)) = ul_list (logOf lc (counterParty p))"
      "ul_logIndex (logOf lc' p) = ul_logIndex (logOf lc p) + 1"
      "ul_logIndex (logOf lc' (counterParty p)) = ul_logIndex (logOf lc (counterParty p))"
    and chains: "lc_chains lc' = lc_chains lc"
    and new: "\<And>w. isUncommitted (lc_heap lc') w n" "pd_logIndex (lc_heap lc' n) = ul_logIndex (logOf lc p)"
    and wf: "logs_wf (lc_heap lc') (lc_next lc') (lc_logs lc')"
    and room: "ul_logIndex (logOf lc p) \<noteq> -1"
  shows "chan_inv v lc'"
proof -
  have i: "idx_inv lc" "window_inv lc" "value_inv v lc" "logs_wf (lc_heap lc) (lc_next lc) (lc_logs lc)"
    using inv by (simp_all add: chan_inv_def)
  have mem: "lc_heap lc' a = lc_heap lc a" if "a \<in> set (ul_list (logOf lc q))" for a q
    using heap logs_wf_bound [OF i(4) that] by simp
  have "idx_inv lc'"
    unfolding idx_inv_def
  proof (intro allI ballI)
    fix w q e assume e: "e \<in> set (ul_list (logOf lc' q))"
    show "committed (lc_heap lc') w e \<longleftrightarrow> pd_logIndex (lc_heap lc' e) < msgIndex (tip (chainOf lc' w)) q"
    proof (cases "e \<in> set (ul_list (logOf lc q))")
      case True
      then show ?thesis
        using i(1) mem [OF True] isUncommitted_at [of "lc_heap lc'" e "lc_heap lc" w] by (simp add: idx_inv_def chains)
    next
      case False
      have "q = p"
      proof (rule ccontr)
        assume "q \<noteq> p"
        then have "q = counterParty p" by (cases p; cases q) auto
        then show False using e False list(2) by simp
      qed
      then have "e = n" using e False list(1) by simp
      then show ?thesis using new window_tip [OF i(2), of w p] \<open>q = p\<close> by (simp add: chains)
    qed
  qed
  moreover have "window_inv lc'"
  proof -
    have le: "ul_logIndex (logOf lc q) \<le> ul_logIndex (logOf lc' q)" for q
    proof (cases "q = p")
      case True
      then show ?thesis using list(3) self_below_succ [OF room] by simp
    next
      case False
      then have "q = counterParty p" by (cases p; cases q) auto
      then show ?thesis using list(4) by simp
    qed
    show ?thesis using i(2) le unfolding window_inv_def chains by (meson order_trans)
  qed
  moreover have "amounts (lc_heap lc') (onChain (lc_heap lc') (lc_logs lc') w q)
      = amounts (lc_heap lc) (onChain (lc_heap lc) (lc_logs lc) w q)" for w q
    using mem [of _ Local] mem [of _ Remote] by (intro onChain_push [OF _ list(1,2) new(1)]) auto
  then have "value_inv v lc'" using i(3) by (simp add: value_inv_def chains)
  ultimately show ?thesis using wf by (simp add: chan_inv_def)
qed

section \<open>Updates\<close>

definition log_room :: "channel \<Rightarrow> bool" where
  "log_room lc \<longleftrightarrow> (\<forall>p. ul_logIndex (logOf lc p) \<noteq> -1 \<and> ul_htlcCounter (logOf lc p) \<noteq> -1)"

lemma dry_fields:
  "dry lc lc' \<Longrightarrow> lc_logs lc' = lc_logs lc" "dry lc lc' \<Longrightarrow> lc_chains lc' = lc_chains lc"
  "dry lc lc' \<Longrightarrow> lc_next lc' = lc_next lc" "dry lc lc' \<Longrightarrow> noop_ext (lc_heap lc) (lc_heap lc')"
  "dry lc lc' \<Longrightarrow> lc_isInitiator lc' = lc_isInitiator lc"
  by (auto simp: dry_def)

lemma allocate_inv: "chan_inv v lc \<Longrightarrow> chan_inv v (allocate lc pd)"
  by (rule inv_cong [of v lc]) (auto simp: allocate_def isUncommitted_def)

text \<open>The three kinds of entries that operations push.\<close>

lemma pushLog_fields [simp]:
  "lc_heap (pushLog lc p f) = lc_heap lc" "lc_chains (pushLog lc p f) = lc_chains lc"
  "lc_next (pushLog lc p f) = Suc (lc_next lc)"
  "lc_logs (pushLog lc p f) = setForParty (lc_logs lc) p (f (logOf lc p) (lc_next lc))"
  by (simp_all add: pushLog_def)

lemma appended [simp]:
  "ul_list (appendHtlc u n) = ul_list u @ [n]" "ul_logIndex (appendHtlc u n) = ul_logIndex u + 1"
  "ul_list (appendUpdate u n) = ul_list u @ [n]" "ul_logIndex (appendUpdate u n) = ul_logIndex u + 1"
  "ul_list (markHtlcModified u i) = ul_list u" "ul_logIndex (markHtlcModified u i) = ul_logIndex u"
  by (simp_all add: appendHtlc_def appendUpdate_def markHtlcModified_def)

lemma fresh_uncommitted:
  "pd_addHeights (h n) = mkDual 0 0 \<Longrightarrow> pd_rmvHeights (h n) = mkDual 0 0 \<Longrightarrow> isUncommitted h w n"
  by (cases w) (simp_all add: isUncommitted_def)

lemma push_add_inv:
  assumes inv: "chan_inv v lc" "log_room lc" and d: "dry (allocate lc pd) lc2"
    and pd: "isAdd pd" "pd_logIndex pd = ul_logIndex (logOf lc p)"
      "pd_htlcIndex pd = ul_htlcCounter (logOf lc p)" "pd_addHeights pd = mkDual 0 0" "pd_rmvHeights pd = mkDual 0 0"
  shows "chan_inv v (pushLog lc2 p appendHtlc)"
proof -
  let ?n = "lc_next lc" and ?h = "lc_heap lc2"
  have inv2: "chan_inv v lc2" by (rule dry_inv [OF allocate_inv [OF inv(1)] d])
  have same: "lc_logs lc2 = lc_logs lc" "lc_next lc2 = ?n"
    using dry_fields [OF d] by (simp_all add: allocate_def)
  have f: "isAdd (?h ?n)" "pd_logIndex (?h ?n) = ul_logIndex (logOf lc p)"
    "pd_htlcIndex (?h ?n) = ul_htlcCounter (logOf lc p)"
    "pd_addHeights (?h ?n) = mkDual 0 0" "pd_rmvHeights (?h ?n) = mkDual 0 0"
    using noop_ext_fields [OF dry_fields(4) [OF d], of ?n] pd by (simp_all add: allocate_def)
  have room: "ul_logIndex (logOf lc p) \<noteq> -1" "ul_htlcCounter (logOf lc p) \<noteq> -1"
    using inv(2) by (simp_all add: log_room_def)
  have wf: "logs_wf ?h ?n (lc_logs lc)" using inv2 same by (simp add: chan_inv_def)
  have "logs_wf (?h(?n := ?h ?n)) (Suc ?n) (setForParty (lc_logs lc) p (appendHtlc (logOf lc p) ?n))"
    by (rule logs_wf_append_add [OF wf f(1-3) f(5) room])
  then have "logs_wf (lc_heap (pushLog lc2 p appendHtlc)) (lc_next (pushLog lc2 p appendHtlc))
      (lc_logs (pushLog lc2 p appendHtlc))"
    by (simp add: same)
  then show ?thesis
    by - (rule push_inv [OF inv2, of _ p ?n], use f room in \<open>auto simp: same fresh_uncommitted\<close>)
qed

lemma push_fee_inv:
  assumes inv: "chan_inv v lc" "log_room lc" 
    and pd: "pd_entryType pd = FeeUpdate" "pd_logIndex pd = ul_logIndex (logOf lc p)"
      "pd_addHeights pd = mkDual 0 0" "pd_rmvHeights pd = mkDual 0 0"
  shows "chan_inv v (pushLog (allocate lc pd) p appendUpdate)"
proof -
  have room: "ul_logIndex (logOf lc p) \<noteq> -1" using inv(2) by (simp add: log_room_def)
  have wf: "logs_wf (lc_heap lc) (lc_next lc) (lc_logs lc)" using inv(1) by (simp add: chan_inv_def)
  have "chan_inv v (allocate lc pd)" by (rule allocate_inv [OF inv(1)])
  moreover have "logs_wf ((lc_heap lc)(lc_next lc := pd)) (Suc (lc_next lc))
      (setForParty (lc_logs lc) p (appendUpdate (logOf lc p) (lc_next lc)))"
    by (rule logs_wf_append_fee [OF wf pd(1,2) room])
  moreover have "isUncommitted ((lc_heap lc)(lc_next lc := pd)) w (lc_next lc)" for w
    by (rule fresh_uncommitted) (simp_all add: pd)
  ultimately show ?thesis
    by - (rule push_inv [of v "allocate lc pd" _ p "lc_next lc"], simp_all add: allocate_def pd room)
qed

lemma push_resolution_inv:
  assumes inv: "chan_inv v lc" "log_room lc"
    and pd: "isResolution pd" "pd_logIndex pd = ul_logIndex (logOf lc p)"
      "pd_addHeights pd = mkDual 0 0" "pd_rmvHeights pd = mkDual 0 0" "pd_parentIndex pd = i"
    and parent: "lookupHtlc (logOf lc (counterParty p)) i = Some a"
      "\<not> htlcHasModification (logOf lc (counterParty p)) i" "pd_amount pd = pd_amount (lc_heap lc a)"
  shows "chan_inv v (markParent (pushLog (allocate lc pd) p appendUpdate) (counterParty p) i)"
proof -
  have room: "ul_logIndex (logOf lc p) \<noteq> -1" using inv(2) by (simp add: log_room_def)
  have wf: "logs_wf (lc_heap lc) (lc_next lc) (lc_logs lc)" using inv(1) by (simp add: chan_inv_def)
  have "chan_inv v (allocate lc pd)" by (rule allocate_inv [OF inv(1)])
  moreover have "logs_wf ((lc_heap lc)(lc_next lc := pd)) (Suc (lc_next lc))
      (setForParty (setForParty (lc_logs lc) p (appendUpdate (logOf lc p) (lc_next lc))) (counterParty p)
         (markHtlcModified (logOf lc (counterParty p)) i))"
    by (rule logs_wf_append_resolution [OF wf pd(1,2) parent(1,2) pd(5) parent(3) room])
  moreover have "isUncommitted ((lc_heap lc)(lc_next lc := pd)) w (lc_next lc)" for w
    by (rule fresh_uncommitted) (simp_all add: pd)
  ultimately show ?thesis
    by - (rule push_inv [of v "allocate lc pd" _ p "lc_next lc"],
      simp_all add: allocate_def markParent_def pd room)
qed

lemma zeroDescriptor_heights [simp]:
  "pd_addHeights zeroDescriptor = mkDual 0 0" "pd_rmvHeights zeroDescriptor = mkDual 0 0"
  by (simp_all add: zeroDescriptor_def)

lemma entryTypeForHtlc_isAdd: "pd_entryType pd = entryTypeForHtlc r t \<Longrightarrow> isAdd pd"
  by (auto simp: isAdd_def entryTypeForHtlc_def split: if_splits)

lemma addHTLC_inv:
  assumes inv: "chan_inv v lc" "log_room lc" and op: "addHTLC lc htlc key b = (lc', r)"
  shows "chan_inv v lc'"
proof -
  let ?pd = "htlcAddDescriptor lc htlc key"
  obtain lc2 e where va: "validateAddHtlc (allocate lc ?pd) (lc_next lc) b = (lc2, e)" by fastforce
  have d: "dry (allocate lc ?pd) lc2" by (rule validateAddHtlc_dry [OF va])
  have add: "isAdd ?pd" by (rule entryTypeForHtlc_isAdd) (simp add: htlcAddDescriptor_def)
  have "lc' = (if e = None then pushLog lc2 Local appendHtlc else lc2)"
    using op va by (cases e) (simp_all add: addHTLC_def Let_def)
  moreover have "chan_inv v lc2" by (rule dry_inv [OF allocate_inv [OF inv(1)] d])
  moreover have "chan_inv v (pushLog lc2 Local appendHtlc)"
    by (rule push_add_inv [OF inv d add]) (simp_all add: htlcAddDescriptor_def)
  ultimately show ?thesis by simp
qed

lemma mayAddOutgoingHtlc_inv:
  assumes "chan_inv v lc" "mayAddOutgoingHtlc lc amt = (lc', r)"
  shows "chan_inv v lc'"
  using assms(2) unfolding mayAddOutgoingHtlc_def Let_def
  by (rule dry_inv [OF allocate_inv [OF assms(1)] validateAddHtlc_dry])

lemma receiveHTLC_inv:
  assumes inv: "chan_inv v lc" "log_room lc" and op: "receiveHTLC lc htlc = (lc', r)"
  shows "chan_inv v lc'"
proof (cases "ua_ID htlc = ul_htlcCounter (d_remote (lc_logs lc))")
  case False
  then show ?thesis using op inv(1) by (simp add: receiveHTLC_def Let_def)
next
  case True
  define pd where "pd = zeroDescriptor\<lparr>pd_chanID := ua_chanID htlc,
     pd_entryType := entryTypeForHtlc (ua_customRecords htlc) (lc_chanType lc),
     pd_rHash := ua_paymentHash htlc, pd_timeout := ua_expiry htlc,
     pd_amount := ua_amount htlc, pd_logIndex := ul_logIndex (d_remote (lc_logs lc)),
     pd_htlcIndex := ul_htlcCounter (d_remote (lc_logs lc)), pd_onionBlob := ua_onionBlob htlc,
     pd_blindingPoint := ua_blindingPoint htlc, pd_customRecords := ua_customRecords htlc\<rparr>"
  obtain lc2 e where va: "validateCommitmentSanity (allocate lc pd) (ul_logIndex (d_remote (lc_logs lc)))
      (d_local (cm_messageIndices (tail (d_remote (lc_chains lc))))) Local NoBuffer None (Some (lc_next lc)) = (lc2, e)"
    by fastforce
  have d: "dry (allocate lc pd) lc2" by (rule validateCommitmentSanity_dry [OF va])
  have add: "isAdd pd" by (rule entryTypeForHtlc_isAdd) (simp add: pd_def)
  have "lc' = (if e = None then pushLog lc2 Remote appendHtlc else lc2)"
    using op va True by (cases e) (simp_all add: receiveHTLC_def Let_def pd_def [symmetric])
  moreover have "chan_inv v lc2" by (rule dry_inv [OF allocate_inv [OF inv(1)] d])
  moreover have "chan_inv v (pushLog lc2 Remote appendHtlc)"
    by (rule push_add_inv [OF inv d add]) (simp_all add: pd_def)
  ultimately show ?thesis by simp
qed

lemma resolveHTLC_cases:
  assumes op: "resolveHTLC lc p i already mk = (lc', r)"
  obtains (same) "lc' = lc" "r \<noteq> None"
  | (ok) a pd where "lookupHtlc (logOf lc (counterParty p)) i = Some a"
      "\<not> htlcHasModification (logOf lc (counterParty p)) i" "mk (lc_heap lc a) = Inr pd"
      "lc' = markParent (pushLog (allocate lc pd) p appendUpdate) (counterParty p) i" "r = None"
proof (cases "lookupHtlc (logOf lc (counterParty p)) i")
  case None
  then show ?thesis using op same by (auto simp: resolveHTLC_def)
next
  case (Some a)
  show ?thesis
  proof (cases "htlcHasModification (logOf lc (counterParty p)) i")
    case True
    then show ?thesis using op same Some by (auto simp: resolveHTLC_def)
  next
    case False
    show ?thesis
    proof (cases "mk (lc_heap lc a)")
      case (Inl err)
      then show ?thesis using op same Some False by (auto simp: resolveHTLC_def)
    next
      case (Inr pd)
      then show ?thesis using op ok Some False by (auto simp: resolveHTLC_def)
    qed
  qed
qed

lemma resolveHTLC_inv:
  assumes inv: "chan_inv v lc" "log_room lc" and op: "resolveHTLC lc p i already mk = (lc', r)"
    and mk: "\<And>htlc pd. mk htlc = Inr pd \<Longrightarrow> isResolution pd \<and>
      pd_logIndex pd = ul_logIndex (logOf lc p) \<and> pd_addHeights pd = mkDual 0 0 \<and> pd_rmvHeights pd = mkDual 0 0 \<and>
      (pd_htlcIndex htlc = i \<longrightarrow> pd_parentIndex pd = i) \<and> pd_amount pd = pd_amount htlc"
  shows "chan_inv v lc'"
proof -
  let ?u = "logOf lc (counterParty p)"
  show ?thesis
    using op
  proof (cases rule: resolveHTLC_cases)
    case same
    then show ?thesis using inv by simp
  next
    case (ok a pd)
    have "logs_wf (lc_heap lc) (lc_next lc) (lc_logs lc)" using inv(1) by (simp add: chan_inv_def)
    then have "log_wf (lc_heap lc) ?u" by (rule logs_wf_parts(1))
    then have "pd_htlcIndex (lc_heap lc a) = i" using ok(1) log_wf_htlc [of "lc_heap lc" ?u i a] by (simp add: lookupHtlc_def)
    then have m: "isResolution pd" "pd_logIndex pd = ul_logIndex (logOf lc p)"
      "pd_addHeights pd = mkDual 0 0" "pd_rmvHeights pd = mkDual 0 0" "pd_parentIndex pd = i"
      "pd_amount pd = pd_amount (lc_heap lc a)"
      using mk [OF ok(3)] by simp_all
    show ?thesis
      unfolding ok(4) by (rule push_resolution_inv [OF inv m(1-5) ok(1,2) m(6)])
  qed
qed

lemma resolution_kinds [simp]:
  "isResolution (pd\<lparr>pd_entryType := Settle\<rparr>)" "isResolution (pd\<lparr>pd_entryType := Fail\<rparr>)"
  "isResolution (pd\<lparr>pd_entryType := MalformedFail\<rparr>)"
  by (simp_all add: isResolution_def)

lemma resolve_ops_inv:
  assumes inv: "chan_inv v lc" "log_room lc"
  shows "SettleHTLC lc pre i sr dr ck = (lc', r) \<Longrightarrow> chan_inv v lc'"
    and "FailHTLC lc i reason sr dr ck = (lc', r) \<Longrightarrow> chan_inv v lc'"
    and "MalformedFailHTLC lc i code sha sr = (lc', r) \<Longrightarrow> chan_inv v lc'"
    and "receiveHTLCSettle lc pre i = (lc', r) \<Longrightarrow> chan_inv v lc'"
    and "receiveFailHTLC lc i reason = (lc', r) \<Longrightarrow> chan_inv v lc'"
  unfolding SettleHTLC_def FailHTLC_def MalformedFailHTLC_def receiveHTLCSettle_def receiveFailHTLC_def
  by (erule resolveHTLC_inv [OF inv]; force simp: isResolution_def split: if_splits)+

lemma updateFee_inv:
  assumes inv: "chan_inv v lc" "log_room lc" and op: "updateFee lc f = (lc', r)"
  shows "chan_inv v lc'"
proof (cases "lc_isInitiator lc")
  case False
  then show ?thesis using op inv by (simp add: updateFee_def)
next
  case True
  obtain lc1 e where vf: "validateFeeRate lc f = (lc1, e)" by fastforce
  have d: "dry lc lc1" by (rule validateFeeRate_dry [OF vf])
  have inv1: "chan_inv v lc1" "log_room lc1"
    using dry_inv [OF inv(1) d] inv(2) dry_fields(1) [OF d] by (simp_all add: log_room_def)
  have "lc' = (if e = None then pushLog (allocate lc1 (feeDescriptor lc1 Local f)) Local appendUpdate else lc1)"
    using op vf True by (cases e) (auto simp: updateFee_def)
  moreover have "chan_inv v (pushLog (allocate lc1 (feeDescriptor lc1 Local f)) Local appendUpdate)"
    by (rule push_fee_inv [OF inv1]) (simp_all add: feeDescriptor_def)
  ultimately show ?thesis using inv1 by simp
qed

lemma receiveUpdateFee_inv:
  assumes inv: "chan_inv v lc" "log_room lc" and op: "receiveUpdateFee lc f = (lc', r)"
  shows "chan_inv v lc'"
proof -
  have "chan_inv v (pushLog (allocate lc (feeDescriptor lc Remote f)) Remote appendUpdate)"
    by (rule push_fee_inv [OF inv]) (simp_all add: feeDescriptor_def)
  then show ?thesis using op inv by (auto simp: receiveUpdateFee_def split: if_splits)
qed

section \<open>Extending a chain\<close>

lemma computeView_frame:
  assumes "computeView lc view w upd d = (lc', r)"
  shows "lc_logs lc' = lc_logs lc" "lc_chains lc' = lc_chains lc" "lc_next lc' = lc_next lc"
    "lc_isInitiator lc' = lc_isInitiator lc" "lc_db lc' = lc_db lc" "lc_store lc' = lc_store lc"
    "lc_producer lc' = lc_producer lc" "lc_currentHeight lc' = lc_currentHeight lc"
    "lc_localCommitment lc' = lc_localCommitment lc" "lc_remoteCommitment lc' = lc_remoteCommitment lc"
    "lc_remoteCurrentRevocation lc' = lc_remoteCurrentRevocation lc"
    "lc_remoteNextRevocation lc' = lc_remoteNextRevocation lc"
  using assms by (cases rule: computeView_cases; simp add: lockIn_frame)+

lemma computeView_weight:
  assumes "computeView lc view w upd None = (lc', Inr (our, their, wt, fv))"
  shows "wt = viewWeight lc' (lc_heap lc') w (hv_feePerKw fv) (hv_updates fv)"
  using assms by (auto simp: computeView_def Let_def split: prod.splits sum.splits if_splits)

lemma fetchHTLCView_updates:
  "getForParty (hv_updates (fetchHTLCView lc rl ol)) p
     = filter (\<lambda>a. pd_logIndex (lc_heap lc a) < getForParty (mkDual ol rl) p) (ul_list (logOf lc p))"
  by (cases p) (simp_all add: fetchHTLCView_def)

lemma fetchHTLCView_dry: "dry lc lc1 \<Longrightarrow> fetchHTLCView lc1 rl ol = fetchHTLCView lc rl ol"
  using noop_ext_fields [OF dry_fields(4), of lc lc1]
  by (simp add: fetchHTLCView_def dry_fields cong: filter_cong)

lemma predictView_none [simp]: "predictView view None None = view"
  by (simp add: predictView_def mkDual_def)

text \<open>The message indices the next commitment of a chain gets.\<close>

definition next_indices :: "channel \<Rightarrow> channel_party \<Rightarrow> u64 dual \<Rightarrow> bool" where
  "next_indices lc w d \<longleftrightarrow>
     getForParty d (counterParty w) = ul_logIndex (logOf lc (counterParty w)) \<and>
     getForParty d w = msgIndex (tail (chainOf lc (counterParty w))) w"

lemma next_indices_mono:
  assumes "window_inv lc" "next_indices lc w d"
  shows "\<forall>c \<in> set (chainOf lc w). msgIndex c p \<le> getForParty d p"
proof (cases "p = w")
  case True
  then show ?thesis using assms by (simp add: window_inv_def next_indices_def)
next
  case False
  then have "p = counterParty w" by (cases p; cases w) auto
  then show ?thesis using assms by (simp add: window_inv_def next_indices_def)
qed

lemma view_covers:
  assumes "chan_inv v lc" "next_indices lc w (mkDual ol rl)"
  shows "covers (lc_heap lc) (lc_logs lc) w (hv_updates (fetchHTLCView lc rl ol))"
  unfolding covers_def fetchHTLCView_updates
proof (intro allI conjI ballI impI)
  fix p
  have i: "idx_inv lc" "window_inv lc" "logs_wf (lc_heap lc) (lc_next lc) (lc_logs lc)"
    using assms(1) by (simp_all add: chan_inv_def)
  show "distinct (filter (\<lambda>a. pd_logIndex (lc_heap lc a) < getForParty (mkDual ol rl) p) (ul_list (logOf lc p)))"
    using logs_wf_parts(1) [OF i(3), of p] by (simp add: log_wf_def)
  show "set (filter (\<lambda>a. pd_logIndex (lc_heap lc a) < getForParty (mkDual ol rl) p) (ul_list (logOf lc p)))
      \<subseteq> set (ul_list (logOf lc p))" by auto
  fix e assume e: "e \<in> set (ul_list (logOf lc p))" "committed (lc_heap lc) w e"
  have "tip (chainOf lc w) \<in> set (chainOf lc w)" using i(2) by (simp add: window_inv_def tip_def)
  then have "msgIndex (tip (chainOf lc w)) p \<le> getForParty (mkDual ol rl) p"
    using next_indices_mono [OF i(2) assms(2), of p] by blast
  moreover have "pd_logIndex (lc_heap lc e) < msgIndex (tip (chainOf lc w)) p"
    using i(1) e by (simp add: idx_inv_def)
  ultimately show "e \<in> set (filter (\<lambda>a. pd_logIndex (lc_heap lc a) < getForParty (mkDual ol rl) p)
      (ul_list (logOf lc p)))" using e(1) by simp
qed

text \<open>The commitment that a sanity check and a view computation produce has the value of the tip.\<close>

lemma new_commitment_value:
  assumes inv: "chan_inv v lc" and nx: "next_indices lc w (mkDual ol rl)"
    and sanity: "validateCommitmentSanity lc rl ol w NoBuffer None None = (lc1, None)"
    and fetch: "fetchCommitmentView env lc1 w ol oh rl rh = (lc2, Inr c)"
    and nh: "cm_height (tip (chainOf lc w)) \<noteq> -1"
  shows "commitValue c = v"
    and "amounts (lc_heap lc2) (onChain (lc_heap lc2) (lc_logs lc) w Local) = htlcSum (cm_outgoingHTLCs c)"
    and "amounts (lc_heap lc2) (onChain (lc_heap lc2) (lc_logs lc) w Remote) = htlcSum (cm_incomingHTLCs c)"
    and "view_locked lc1 w (hv_updates (fetchHTLCView lc rl ol)) lc2"
proof -
  have d: "dry lc lc1" by (rule validateCommitmentSanity_dry [OF sanity])
  have inv1: "chan_inv v lc1" by (rule dry_inv [OF inv d])
  note df = dry_fields [OF d]
  obtain our their wt fv where cv0: "computeView lc (fetchHTLCView lc rl ol) w False None = (lc1, Inr (our, their, wt, fv))"
    and san: "sanityOfView lc1 (tip (chainOf lc w)) NoBuffer our their wt fv = None"
    using sanity by (auto simp: validateCommitmentSanity_def Let_def split: prod.splits sum.splits)
  obtain our' their' wt' fv' where
    cv: "computeView lc1 (fetchHTLCView lc1 rl ol) w True None = (lc2, Inr (our', their', wt', fv'))"
    and pay: "payCommitFee lc2 (feeForWeight (hv_feePerKw fv') (viewWeight lc2 (lc_heap lc2) w (hv_feePerKw fv') (hv_updates fv')))
       our' their' = (cm_ourBalance c, cm_theirBalance c)"
    and fee: "cm_fee c = feeForWeight (hv_feePerKw fv') (viewWeight lc2 (lc_heap lc2) w (hv_feePerKw fv') (hv_updates fv'))"
    and htlcs: "cm_outgoingHTLCs c = map (lc_heap lc2) (d_local (hv_updates fv'))"
      "cm_incomingHTLCs c = map (lc_heap lc2) (d_remote (hv_updates fv'))"
    using fetch by (cases rule: fetchCommitmentView_cases)
  obtain g where g: "lc1 = lc\<lparr>lc_heap := g\<rparr>" "noop_ext (lc_heap lc) g" using d by (auto simp: dry_def)
  have "computeView (lc\<lparr>lc_heap := g\<rparr>) (fetchHTLCView lc rl ol) w True None
      = (lc2, Inr (our', their', wt', fv'))"
    using cv unfolding fetchHTLCView_dry [OF d] by (simp only: g(1))
  from computeView_dry_agrees [OF g(2) cv0 this]
  have same: "our' = our" "their' = their" "wt' = wt" "fv' = fv" by simp_all
  have wt: "viewWeight lc2 (lc_heap lc2) w (hv_feePerKw fv) (hv_updates fv) = wt"
    using computeView_weight [OF cv] same by simp
  obtain x where "applyCommitFee lc1 (if lc_isInitiator lc1 then our else their) wt (hv_feePerKw fv) NoBuffer = Inr x"
    using sanityOfView_fee [OF san] by blast
  then have "applyCommitFee lc2 (if lc_isInitiator lc2 then our else their) wt (hv_feePerKw fv) NoBuffer = Inr x"
    using computeView_frame(4) [OF cv] by (simp add: applyCommitFee_def)
  from payCommitFee_conserves [OF this] pay
  have bal: "cm_ourBalance c + cm_theirBalance c + newMSatFromSatoshis (cm_fee c) = our + their"
    by (simp add: same fee wt)
  have wf: "logs_wf (lc_heap lc1) (lc_next lc1) (lc_logs lc1)" using inv1 by (simp add: chan_inv_def)
  have nx1: "next_indices lc1 w (mkDual ol rl)" using nx by (simp add: next_indices_def df)
  note cov = view_covers [OF inv1 nx1]
  note val = computeView_value(1) [OF wf cov cv [unfolded same]]
  have nh1: "cm_height (tip (chainOf lc1 w)) \<noteq> -1" using nh df by simp
  note chain = computeView_chain [OF wf cov cv [unfolded same] nh1]
  show lk: "view_locked lc1 w (hv_updates (fetchHTLCView lc rl ol)) lc2"
    using computeView_locked [OF wf cov cv refl nh1] fetchHTLCView_dry [OF d] by simp
  have "same_entry (lc_heap lc1 a) (lc_heap lc2 a)" for a using lk by (simp add: view_locked_def)
  then have sums: "htlcSum (cm_outgoingHTLCs c) = amounts (lc_heap lc1) (d_local (hv_updates fv))"
    "htlcSum (cm_incomingHTLCs c) = amounts (lc_heap lc1) (d_remote (hv_updates fv))"
    using same_amounts by (simp_all add: htlcs htlcSum_amounts same)
  show "amounts (lc_heap lc2) (onChain (lc_heap lc2) (lc_logs lc) w Local) = htlcSum (cm_outgoingHTLCs c)"
    "amounts (lc_heap lc2) (onChain (lc_heap lc2) (lc_logs lc) w Remote) = htlcSum (cm_incomingHTLCs c)"
    using chain(1) [of Local] chain(1) [of Remote] by (simp_all add: sums df)
  let ?t = "tip (chainOf lc w)"
  have "?t \<in> set (chainOf lc1 w)" using inv1 by (simp add: df chan_inv_def window_inv_def tip_def)
  then have "commitValue ?t = v" using inv1 by (simp add: chan_inv_def value_inv_def df)
  moreover have "chainValue (lc_heap lc1) (lc_logs lc1) w = htlcSum (cm_outgoingHTLCs ?t) + htlcSum (cm_incomingHTLCs ?t)"
    using inv1 by (simp add: chan_inv_def value_inv_def chainValue_def df)
  ultimately have "our + their + viewValue (lc_heap lc1) (hv_updates fv) = v"
    using val by (simp add: commitValue_def df algebra_simps)
  then show "commitValue c = v"
    unfolding commitValue_def bal sums by (simp add: viewValue_def algebra_simps)
qed

lemma extend_inv:
  assumes inv: "chan_inv v lc" and nx: "next_indices lc w (mkDual ol rl)"
    and sanity: "validateCommitmentSanity lc rl ol w NoBuffer None None = (lc1, None)"
    and fetch: "fetchCommitmentView env lc1 w ol oh rl rh = (lc2, Inr c)"
    and nh: "cm_height (tip (chainOf lc w)) \<noteq> -1"
    and lc': "lc_heap lc' = lc_heap lc2" "lc_logs lc' = lc_logs lc" "lc_next lc' = lc_next lc"
      "lc_chains lc' = modifyForParty (lc_chains lc) w (\<lambda>s. addCommitment s c)"
  shows "chan_inv v lc'"
proof -
  have d: "dry lc lc1" by (rule validateCommitmentSanity_dry [OF sanity])
  note df = dry_fields [OF d]
  have inv1: "chan_inv v lc1" by (rule dry_inv [OF inv d])
  note new = new_commitment_value [OF inv nx sanity fetch nh]
  let ?us = "hv_updates (fetchHTLCView lc rl ol)"
  have same: "same_entry (lc_heap lc1 a) (lc_heap lc2 a)" for a
    using new(4) by (simp add: view_locked_def)
  have i: "idx_inv lc1" "window_inv lc" "value_inv v lc1" "logs_wf (lc_heap lc1) (lc_next lc) (lc_logs lc)"
    using inv inv1 by (simp_all add: chan_inv_def df)
  have ne: "chainOf lc q \<noteq> []" for q using i(2) by (simp add: window_inv_def)
  have mi: "cm_messageIndices c = mkDual ol rl"
    using fetch by (cases rule: fetchCommitmentView_cases)
  have chain: "chainOf lc' q = (if q = w then chainOf lc w @ [c] else chainOf lc q)" for q
    by (simp add: lc' addCommitment_def)
  have tips: "tip (chainOf lc' q) = (if q = w then c else tip (chainOf lc q))"
    "tail (chainOf lc' q) = tail (chainOf lc q)" for q
    using ne [of q] by (auto simp: chain tip_def tail_def)
  have wf: "logs_wf (lc_heap lc') (lc_next lc') (lc_logs lc')"
    unfolding lc' by (rule logs_wf_cong [OF same i(4)])
  have "idx_inv lc'"
    unfolding idx_inv_def lc'
  proof (intro allI ballI)
    fix q p e assume e: "e \<in> set (ul_list (logOf lc p))"
    have li: "pd_logIndex (lc_heap lc2 e) = pd_logIndex (lc_heap lc1 e)"
      using same [of e] by (simp add: same_entry_def)
    have li1: "pd_logIndex (lc_heap lc1 e) = pd_logIndex (lc_heap lc e)"
      by (rule noop_ext_fields(4) [OF df(4)])
    have old: "committed (lc_heap lc1) q e \<longleftrightarrow> pd_logIndex (lc_heap lc1 e) < msgIndex (tip (chainOf lc q)) p"
      using i(1) e by (simp add: idx_inv_def df)
    have in_us: "e \<in> set (d_local ?us) \<union> set (d_remote ?us) \<longleftrightarrow> pd_logIndex (lc_heap lc1 e) < getForParty (mkDual ol rl) p"
      using fetchHTLCView_updates [of lc rl ol Local] fetchHTLCView_updates [of lc rl ol Remote] e
        logs_wf_disjoint [OF i(4), of Local] li1 by (cases p) auto
    have le: "msgIndex (tip (chainOf lc w)) p \<le> getForParty (mkDual ol rl) p"
      using next_indices_mono [OF i(2) nx, of p] ne [of w] by (simp add: tip_def)
    have com: "committed (lc_heap lc2) q e \<longleftrightarrow> committed (lc_heap lc1) q e \<or>
        (q = w \<and> e \<in> set (d_local ?us) \<union> set (d_remote ?us))"
      using new(4) by (auto simp: view_locked_def)
    have "msgIndex (tip (getForParty (modifyForParty (lc_chains lc) w (\<lambda>s. addCommitment s c)) q)) p
        = (if q = w then getForParty (mkDual ol rl) p else msgIndex (tip (chainOf lc q)) p)"
      using tips(1) [of q] by (simp add: lc'(4) mi)
    then show "committed (lc_heap lc2) q e \<longleftrightarrow> pd_logIndex (lc_heap lc2 e)
        < msgIndex (tip (getForParty (modifyForParty (lc_chains lc) w (\<lambda>s. addCommitment s c)) q)) p"
      using com old in_us le by (auto simp: li)
  qed
  moreover have "window_inv lc'"
    unfolding window_inv_def tips(2) lc'(2)
  proof (intro allI conjI ballI)
    fix q
    show "chainOf lc' q \<noteq> []" using ne by (simp add: chain)
    show "sorted_wrt (\<lambda>c d. \<forall>p. msgIndex c p \<le> msgIndex d p) (chainOf lc' q)"
      using i(2) next_indices_mono [OF i(2) nx] by (auto simp: chain window_inv_def sorted_wrt_append mi)
    fix x assume "x \<in> set (chainOf lc' q)"
    then consider "x \<in> set (chainOf lc q)" | "x = c" "q = w" by (auto simp: chain split: if_splits)
    then show "msgIndex x (counterParty q) \<le> ul_logIndex (logOf lc (counterParty q))"
      "msgIndex x q \<le> msgIndex (tail (chainOf lc (counterParty q))) q"
      using i(2) nx by (cases; simp add: window_inv_def next_indices_def mi)+
  qed
  moreover have "value_inv v lc'"
    unfolding value_inv_def lc'(1,2) tips
  proof (intro allI conjI ballI)
    fix q
    show "commitValue x = v" if "x \<in> set (chainOf lc' q)" for x
      using that inv new(1) by (auto simp: chain chan_inv_def value_inv_def split: if_splits)
    have other: "amounts (lc_heap lc2) (onChain (lc_heap lc2) (lc_logs lc) q p)
        = amounts (lc_heap lc1) (onChain (lc_heap lc1) (lc_logs lc) q p)" if "q \<noteq> w" for p
      using new(4) that by (intro onChain_local(2) same) (simp add: view_locked_def)
    show "amounts (lc_heap lc2) (onChain (lc_heap lc2) (lc_logs lc) q Local)
        = htlcSum (cm_outgoingHTLCs (if q = w then c else tip (chainOf lc q)))"
      "amounts (lc_heap lc2) (onChain (lc_heap lc2) (lc_logs lc) q Remote)
        = htlcSum (cm_incomingHTLCs (if q = w then c else tip (chainOf lc q)))"
      using new(2,3) other i(3) by (simp_all add: value_inv_def df)
  qed
  ultimately show ?thesis using wf by (simp add: chan_inv_def)
qed

section \<open>Compaction and revocation\<close>

lemma compactLog_loop_counters:
  "compactLog_loop h lt rt es (a, b) = Some (a', b') \<Longrightarrow>
     ul_logIndex a' = ul_logIndex a \<and> ul_htlcCounter a' = ul_htlcCounter a \<and>
     ul_logIndex b' = ul_logIndex b \<and> ul_htlcCounter b' = ul_htlcCounter b"
proof (induction h lt rt es "(a, b)" arbitrary: a b rule: compactLog_loop.induct)
  case (1 h lt rt a b)
  then show ?case by simp
next
  case (2 h lt rt e es a b)
  show ?case
  proof (cases "evictable lt rt (h e)")
    case False
    then show ?thesis using "2.hyps"(1) "2.prems" by simp
  next
    case ev: True
    obtain u where u: "removeUpdate a (pd_logIndex (h e)) = Some u"
      using "2.prems" ev by (cases "removeUpdate a (pd_logIndex (h e))") auto
    have su: "ul_logIndex u = ul_logIndex a" "ul_htlcCounter u = ul_htlcCounter a"
      using u by (auto simp: removeUpdate_def split: option.splits)
    show ?thesis
    proof (cases "pd_entryType (h e) = FeeUpdate")
      case True
      then show ?thesis using "2.hyps"(2) [OF _ u] "2.prems" ev u su by simp
    next
      case False
      obtain w where w: "removeHtlc b (pd_parentIndex (h e)) = Some w"
        using "2.prems" ev u False by (cases "removeHtlc b (pd_parentIndex (h e))") auto
      have "ul_logIndex w = ul_logIndex b" "ul_htlcCounter w = ul_htlcCounter b"
        using w by (auto simp: removeHtlc_def split: option.splits)
      then show ?thesis using "2.hyps"(3) [OF _ u False w] "2.prems" ev u su False w by simp
    qed
  qed
qed

lemma compactLogs_counters:
  assumes "compactLogs h logs lt rt = Some logs'"
  shows "ul_logIndex (getForParty logs' p) = ul_logIndex (getForParty logs p)"
    "ul_htlcCounter (getForParty logs' p) = ul_htlcCounter (getForParty logs p)"
proof -
  obtain A B where one: "compactLog_loop h lt rt (ul_list (d_local logs)) (d_local logs, d_remote logs) = Some (A, B)"
    using assms by (auto simp: compactLogs_def split: option.splits)
  obtain B' A' where two: "compactLog_loop h lt rt (ul_list B) (B, A) = Some (B', A')"
    using assms one by (auto simp: compactLogs_def split: option.splits)
  have "logs' = mkDual A' B'" using assms one two by (simp add: compactLogs_def)
  then show "ul_logIndex (getForParty logs' p) = ul_logIndex (getForParty logs p)"
    "ul_htlcCounter (getForParty logs' p) = ul_htlcCounter (getForParty logs p)"
    using compactLog_loop_counters [OF one] compactLog_loop_counters [OF two] by (cases p; simp)+
qed

lemma evictable_committed:
  "evictable lt rt (h r) \<Longrightarrow> isResolution (h r) \<Longrightarrow> committed h w r"
  by (cases w) (auto simp: evictable_def isUncommitted_def)

lemma compactLogs_onChain:
  assumes wf: "logs_wf h n logs" and c: "compactLogs h logs lt rt = Some logs'"
  shows "onChain h logs' w p = onChain h logs w p"
proof -
  obtain l where l: "compactLogs h logs lt rt = Some l"
    "\<forall>p. ul_list (getForParty l p) = filter (survives h lt rt logs p) (ul_list (getForParty logs p))"
    using compactLogs_spec [OF wf, of lt rt] by blast
  then have list: "ul_list (getForParty logs' p) = filter (survives h lt rt logs p) (ul_list (getForParty logs p))" for p
    using c by simp
  note log = logs_wf_parts(1) [OF wf, of p]
  have no: "\<not> evictable lt rt (h a)" if "a \<in> set (ul_list (getForParty logs p))" "isAdd (h a)" for a
    using evictable_not_add [OF log that(1)] that(2) by blast
  show ?thesis
    unfolding onChain_committed list filter_filter
  proof (rule filter_cong [OF refl])
    fix a assume a: "a \<in> set (ul_list (getForParty logs p))"
    show "(survives h lt rt logs p a \<and> isAdd (h a) \<and> committed h w a \<and>
        \<not> (\<exists>r \<in> set (filter (survives h lt rt logs (counterParty p)) (ul_list (getForParty logs (counterParty p)))).
            isResolution (h r) \<and> committed h w r \<and> pd_parentIndex (h r) = pd_htlcIndex (h a)))
      = (isAdd (h a) \<and> committed h w a \<and>
        \<not> (\<exists>r \<in> set (ul_list (getForParty logs (counterParty p))).
            isResolution (h r) \<and> committed h w r \<and> pd_parentIndex (h r) = pd_htlcIndex (h a)))"
    proof (cases "isAdd (h a)")
      case True
      have surv: "survives h lt rt logs p a \<longleftrightarrow> \<not> (\<exists>r \<in> set (ul_list (getForParty logs (counterParty p))).
           isResolution (h r) \<and> evictable lt rt (h r) \<and> pd_parentIndex (h r) = pd_htlcIndex (h a))"
        using no [OF a True] True by (simp add: survives_def)
      have "survives h lt rt logs (counterParty p) r \<longleftrightarrow> \<not> evictable lt rt (h r)" if "isResolution (h r)" for r
        using resolution_not_add [OF that] by (simp add: survives_def)
      then show ?thesis using surv evictable_committed by auto
    qed simp
  qed
qed

lemma compact_inv:
  assumes inv: "chan_inv v lc" and c: "compactLogs (lc_heap lc) (lc_logs lc) lt rt = Some logs"
  shows "chan_inv v (lc\<lparr>lc_logs := logs\<rparr>)"
proof -
  have wf: "logs_wf (lc_heap lc) (lc_next lc) (lc_logs lc)" using inv by (simp add: chan_inv_def)
  obtain l where l: "compactLogs (lc_heap lc) (lc_logs lc) lt rt = Some l" "logs_wf (lc_heap lc) (lc_next lc) l"
    "\<forall>p. ul_list (getForParty l p) = filter (survives (lc_heap lc) lt rt (lc_logs lc) p) (ul_list (logOf lc p))"
    using compactLogs_spec [OF wf, of lt rt] by blast
  then have wf': "logs_wf (lc_heap lc) (lc_next lc) logs"
    and sub: "set (ul_list (getForParty logs p)) \<subseteq> set (ul_list (logOf lc p))" for p
    using c by auto
  have "idx_inv (lc\<lparr>lc_logs := logs\<rparr>)"
    using inv sub by (simp add: chan_inv_def idx_inv_def) (meson subsetD)
  then show ?thesis
    using inv wf' by (simp add: chan_inv_def window_inv_def value_inv_def compactLogs_counters [OF c]
        compactLogs_onChain [OF wf c])
qed

lemma sorted_wrt_hd: "sorted_wrt R (x # xs) \<Longrightarrow> y \<in> set xs \<Longrightarrow> R x y"
  by simp

lemma dropTail_inv:
  assumes inv: "chan_inv v lc" and two: "tl (chainOf lc w) \<noteq> []"
  shows "chan_inv v (dropTail lc w)"
proof -
  obtain c d cs where ch: "chainOf lc w = c # d # cs"
    using two by (cases "chainOf lc w" rule: remdups_adj.cases) auto
  have chain: "chainOf (dropTail lc w) q = (if q = w then d # cs else chainOf lc q)" for q
    using ch by (simp add: dropTail_def advanceTail_def)
  have tips: "tip (chainOf (dropTail lc w) q) = tip (chainOf lc q)" for q
    using ch by (auto simp: chain tip_def)
  have i: "window_inv lc" using inv by (simp add: chan_inv_def)
  have "sorted_wrt (\<lambda>c d. \<forall>p. msgIndex c p \<le> msgIndex d p) (chainOf lc w)"
    using i by (simp add: window_inv_def)
  then have le: "msgIndex (tail (chainOf lc q)) p \<le> msgIndex (tail (chainOf (dropTail lc w) q)) p" for q p
    unfolding chain using ch by (cases "q = w") (auto simp: tail_def)
  have fx: "lc_logs (dropTail lc w) = lc_logs lc" "lc_heap (dropTail lc w) = lc_heap lc"
    "lc_next (dropTail lc w) = lc_next lc"
    by (simp_all add: dropTail_def)
  have sub: "set (chainOf (dropTail lc w) q) \<subseteq> set (chainOf lc q)" for q using ch by (auto simp: chain)
  have "window_inv (dropTail lc w)"
    unfolding window_inv_def fx
  proof (intro allI conjI ballI)
    fix q
    have iq: "chainOf lc q \<noteq> []" "sorted_wrt (\<lambda>c d. \<forall>p. msgIndex c p \<le> msgIndex d p) (chainOf lc q)"
      "\<And>x. x \<in> set (chainOf lc q) \<Longrightarrow> msgIndex x (counterParty q) \<le> ul_logIndex (logOf lc (counterParty q))
        \<and> msgIndex x q \<le> msgIndex (tail (chainOf lc (counterParty q))) q"
      using i by (simp_all add: window_inv_def)
    show "chainOf (dropTail lc w) q \<noteq> []" using iq(1) by (simp add: chain)
    show "sorted_wrt (\<lambda>c d. \<forall>p. msgIndex c p \<le> msgIndex d p) (chainOf (dropTail lc w) q)"
      using iq(2) ch by (cases "q = w") (simp_all add: chain)
    fix x assume "x \<in> set (chainOf (dropTail lc w) q)"
    then have x: "x \<in> set (chainOf lc q)" using sub by blast
    show "msgIndex x (counterParty q) \<le> ul_logIndex (logOf lc (counterParty q))" using iq(3) [OF x] by simp
    show "msgIndex x q \<le> msgIndex (tail (chainOf (dropTail lc w) (counterParty q))) q"
      using iq(3) [OF x] le order_trans by blast
  qed
  moreover have "value_inv v (dropTail lc w)"
    using inv sub by (simp add: chan_inv_def value_inv_def fx tips) blast
  ultimately show ?thesis
    using inv by (simp add: chan_inv_def idx_inv_def fx tips)
qed

text \<open>Forwarding writes references and flags, which neither the logs nor the heights depend on.\<close>

definition fwd_same :: "paymentDescriptor \<Rightarrow> paymentDescriptor \<Rightarrow> bool" where
  "fwd_same x y \<longleftrightarrow> (\<exists>s d f. y = x\<lparr>pd_sourceRef := s, pd_destRef := d, pd_isForwarded := f\<rparr>)"

lemma fwd_same_refl [simp]: "fwd_same x x"
  unfolding fwd_same_def
  by (rule exI [of _ "pd_sourceRef x"], rule exI [of _ "pd_destRef x"], rule exI [of _ "pd_isForwarded x"]) simp

lemma fwd_same_trans: "fwd_same x y \<Longrightarrow> fwd_same y z \<Longrightarrow> fwd_same x z"
  unfolding fwd_same_def by (elim exE) (simp, blast)

lemma fwd_same_writes [simp]:
  "fwd_same x (x\<lparr>pd_sourceRef := s, pd_isForwarded := f\<rparr>)" "fwd_same x (x\<lparr>pd_destRef := d, pd_isForwarded := f\<rparr>)"
  unfolding fwd_same_def
  by (rule exI [of _ s], rule exI [of _ "pd_destRef x"], rule exI [of _ f], simp)
    (rule exI [of _ "pd_sourceRef x"], rule exI [of _ d], rule exI [of _ f], simp)

lemma fwd_same_entry:
  assumes "fwd_same x y"
  shows "same_entry x y" "pd_addHeights y = pd_addHeights x" "pd_rmvHeights y = pd_rmvHeights x"
  using assms by (auto simp: fwd_same_def same_entry_def isAdd_def)

lemma forwardLoop_heap:
  "forwardLoop source rt lt es h i j as ss = (h', as', ss') \<Longrightarrow> fwd_same (h a) (h' a)"
proof (induction source rt lt es h i j as ss rule: forwardLoop.induct)
  case (1 source rt lt h i j as ss)
  then show ?case by simp
next
  case (2 source rt lt e es h i j as ss)
  consider (skip) "pd_entryType (h e) = FeeUpdate \<or> pd_isForwarded (h e)"
    | (add) "\<not> (pd_entryType (h e) = FeeUpdate \<or> pd_isForwarded (h e))" "freshAdd rt lt (h e)"
    | (rmv) "\<not> (pd_entryType (h e) = FeeUpdate \<or> pd_isForwarded (h e))" "\<not> freshAdd rt lt (h e)" "freshRmv rt lt (h e)"
    | (none) "\<not> (pd_entryType (h e) = FeeUpdate \<or> pd_isForwarded (h e))" "\<not> freshAdd rt lt (h e)" "\<not> freshRmv rt lt (h e)"
    by blast
  then show ?case
  proof cases
    case skip
    then show ?thesis using "2.IH"(1) [OF refl skip] "2.prems" by simp
  next
    case add
    define pd where "pd = (h e)\<lparr>pd_sourceRef := Some \<lparr>ar_height = rt, ar_index = i\<rparr>, pd_isForwarded := True\<rparr>"
    have "forwardLoop source rt lt es (h(e := pd)) (i + 1) j (as @ [toLogUpdate pd]) ss = (h', as', ss')"
      using "2.prems" add by (simp add: Let_def pd_def)
    then have "fwd_same ((h(e := pd)) a) (h' a)" by (rule "2.IH"(2) [OF refl add pd_def])
    moreover have "fwd_same (h a) ((h(e := pd)) a)" by (simp add: pd_def)
    ultimately show ?thesis using fwd_same_trans by blast
  next
    case rmv
    define pd where "pd = (h e)\<lparr>pd_destRef := Some \<lparr>sr_source = source, sr_height = rt, sr_index = j\<rparr>, pd_isForwarded := True\<rparr>"
    have "forwardLoop source rt lt es (h(e := pd)) i (j + 1) as (ss @ [toLogUpdate pd]) = (h', as', ss')"
      using "2.prems" rmv by (simp add: Let_def pd_def)
    then have "fwd_same ((h(e := pd)) a) (h' a)" by (rule "2.IH"(3) [OF refl rmv pd_def])
    moreover have "fwd_same (h a) ((h(e := pd)) a)" by (simp add: pd_def)
    ultimately show ?thesis using fwd_same_trans by blast
  next
    case none
    then show ?thesis using "2.IH"(4) [OF refl none] "2.prems" by simp
  qed
qed

lemma fwd_inv:
  assumes "chan_inv v lc" "\<And>a. fwd_same (lc_heap lc a) (h a)"
  shows "chan_inv v (lc\<lparr>lc_heap := h\<rparr>)"
proof (rule inv_cong [OF assms(1)])
  fix a
  show s: "same_entry (lc_heap lc a) (lc_heap (lc\<lparr>lc_heap := h\<rparr>) a)"
    using fwd_same_entry(1) [OF assms(2)] by simp
  show "isUncommitted (lc_heap (lc\<lparr>lc_heap := h\<rparr>)) w a = isUncommitted (lc_heap lc) w a" for w
    using same_entry_kinds(2) [OF s] fwd_same_entry [OF assms(2) [of a]] by (simp add: isUncommitted_def)
qed simp_all

section \<open>Disk and heights\<close>

text \<open>
  The stored commitments are the tails of the chains, a commit diff is stored exactly while the
  remote chain has an unacknowledged commitment, and is that commitment; the heights of a chain are
  consecutive from its tail's.
\<close>

definition disk_inv :: "channel \<Rightarrow> bool" where
  "disk_inv lc \<longleftrightarrow>
     (\<forall>w. chainOf lc w \<noteq> [] \<and>
        (\<forall>i < length (chainOf lc w). cm_height (chainOf lc w ! i) = cm_height (tail (chainOf lc w)) + of_nat i)) \<and>
     lc_localCommitment lc = toDiskCommit (tail (chainOf lc Local)) \<and>
     lc_remoteCommitment lc = toDiskCommit (tail (chainOf lc Remote)) \<and>
     lc_currentHeight lc = cm_height (tail (chainOf lc Local)) \<and>
     (case db_commitDiff (lc_db lc) of
        None \<Rightarrow> length (chainOf lc Remote) = 1
      | Some d \<Rightarrow> length (chainOf lc Remote) = 2 \<and> cd_commitment d = toDiskCommit (tip (chainOf lc Remote)))"

text \<open>What an update of the logs leaves alone.\<close>

definition chain_frame :: "channel \<Rightarrow> channel \<Rightarrow> bool" where
  "chain_frame lc lc' \<longleftrightarrow> lc_chains lc' = lc_chains lc \<and> lc_db lc' = lc_db lc \<and>
     lc_localCommitment lc' = lc_localCommitment lc \<and> lc_remoteCommitment lc' = lc_remoteCommitment lc \<and>
     lc_currentHeight lc' = lc_currentHeight lc \<and> lc_producer lc' = lc_producer lc \<and>
     lc_store lc' = lc_store lc \<and> lc_remoteCurrentRevocation lc' = lc_remoteCurrentRevocation lc \<and>
     lc_remoteNextRevocation lc' = lc_remoteNextRevocation lc"

lemma chain_frame_simps [simp]:
  "chain_frame lc lc" "chain_frame lc (allocate lc pd)"
  "chain_frame lc (pushLog lc2 p f) = chain_frame lc lc2"
  "chain_frame lc (markParent lc2 p i) = chain_frame lc lc2"
  by (simp_all add: chain_frame_def allocate_def pushLog_def markParent_def)

lemma chain_frame_trans: "chain_frame a b \<Longrightarrow> chain_frame b c \<Longrightarrow> chain_frame a c"
  by (simp add: chain_frame_def)

lemma dry_chain_frame: "dry a b \<Longrightarrow> chain_frame a b"
  by (auto simp: dry_def chain_frame_def)

lemma disk_inv_frame: "disk_inv lc \<Longrightarrow> chain_frame lc lc' \<Longrightarrow> disk_inv lc'"
  by (auto simp: disk_inv_def chain_frame_def split: option.splits)

text \<open>The operations on the logs, and the queries.\<close>

inductive update_step :: "channel \<Rightarrow> channel \<Rightarrow> bool" where
  us_add: "addHTLC lc htlc key b = (lc', r1) \<Longrightarrow> update_step lc lc'"
| us_may_add: "mayAddOutgoingHtlc lc amt = (lc', r2) \<Longrightarrow> update_step lc lc'"
| us_receive_add: "receiveHTLC lc htlc = (lc', r3) \<Longrightarrow> update_step lc lc'"
| us_settle: "SettleHTLC lc pre i sr dr ck = (lc', r2) \<Longrightarrow> update_step lc lc'"
| us_fail: "FailHTLC lc i reason sr dr ck = (lc', r2) \<Longrightarrow> update_step lc lc'"
| us_malformed: "MalformedFailHTLC lc i code sha sr = (lc', r2) \<Longrightarrow> update_step lc lc'"
| us_receive_settle: "receiveHTLCSettle lc pre i = (lc', r2) \<Longrightarrow> update_step lc lc'"
| us_receive_fail: "receiveFailHTLC lc i reason = (lc', r2) \<Longrightarrow> update_step lc lc'"
| us_fee: "updateFee lc f = (lc', r2) \<Longrightarrow> update_step lc lc'"
| us_receive_fee: "receiveUpdateFee lc f = (lc', r2) \<Longrightarrow> update_step lc lc'"
| us_balance: "availableBalance lc b = (lc', r4) \<Longrightarrow> update_step lc lc'"
| us_fee_total: "commitFeeTotalAt lc f = (lc', r5) \<Longrightarrow> update_step lc lc'"

lemma commitFeeTotalAt_heap:
  assumes "commitFeeTotalAt lc f = (lc', r)"
  shows "dry lc lc'"
  using assms unfolding commitFeeTotalAt_def Let_def
  by (auto split: prod.splits sum.splits dest!: computeView_dry intro: dry_trans)

lemma update_step_inv:
  assumes "update_step lc lc'" "chan_inv v lc" "log_room lc"
  shows "chan_inv v lc'"
  using assms
proof (induction rule: update_step.induct)
  case (us_balance lc b lc' r4)
  then show ?case using availableBalance_dry dry_inv by blast
next
  case (us_fee_total lc f lc' r5)
  then show ?case using commitFeeTotalAt_heap dry_inv by blast
qed (blast intro: addHTLC_inv mayAddOutgoingHtlc_inv receiveHTLC_inv resolve_ops_inv updateFee_inv
    receiveUpdateFee_inv)+

lemma resolveHTLC_frame: "resolveHTLC lc p i already mk = (lc', r) \<Longrightarrow> chain_frame lc lc'"
  by (erule resolveHTLC_cases) simp_all

lemma update_step_frame:
  assumes "update_step lc lc'"
  shows "chain_frame lc lc'"
  using assms
proof (induction rule: update_step.induct)
  case (us_add lc htlc key b lc' r1)
  let ?lc1 = "allocate lc (htlcAddDescriptor lc htlc key)"
  obtain lc2 e where va: "validateAddHtlc ?lc1 (lc_next lc) b = (lc2, e)" by fastforce
  have "chain_frame lc lc2"
    by (rule chain_frame_trans [OF _ dry_chain_frame [OF validateAddHtlc_dry [OF va]]]) simp
  then show ?case using us_add va by (cases e) (auto simp: addHTLC_def Let_def)
next
  case (us_may_add lc amt lc' r2)
  then obtain pd where "validateAddHtlc (allocate lc pd) (lc_next lc) FeeBuffer = (lc', r2)"
    by (auto simp: mayAddOutgoingHtlc_def Let_def)
  then show ?case
    by (rule chain_frame_trans [OF chain_frame_simps(2) dry_chain_frame [OF validateAddHtlc_dry]])
next
  case (us_receive_add lc htlc lc' r3)
  show ?case
  proof (cases "ua_ID htlc = ul_htlcCounter (d_remote (lc_logs lc))")
    case False
    then show ?thesis using us_receive_add by (simp add: receiveHTLC_def Let_def)
  next
    case True
    then obtain pd lc2 e where va: "validateCommitmentSanity (allocate lc pd) (ul_logIndex (d_remote (lc_logs lc)))
        (d_local (cm_messageIndices (tail (d_remote (lc_chains lc))))) Local NoBuffer None (Some (lc_next lc)) = (lc2, e)"
      and "lc' = (if e = None then pushLog lc2 Remote appendHtlc else lc2)"
      using us_receive_add by (simp add: receiveHTLC_def Let_def split: prod.splits option.splits)
    moreover have "chain_frame lc lc2"
      by (rule chain_frame_trans [OF _ dry_chain_frame [OF validateCommitmentSanity_dry [OF va]]]) simp
    ultimately show ?thesis by simp
  qed
next
  case (us_fee lc f lc' r2)
  obtain lc1 e where va: "validateFeeRate lc f = (lc1, e)" by fastforce
  have "chain_frame lc lc1" by (rule dry_chain_frame [OF validateFeeRate_dry [OF va]])
  then have "chain_frame lc (allocate lc1 pd)" for pd
    by (rule chain_frame_trans) simp
  then show ?case
    using us_fee va \<open>chain_frame lc lc1\<close> by (cases e) (auto simp: updateFee_def split: if_splits)
next
  case (us_receive_fee lc f lc' r2)
  then show ?case by (auto simp: receiveUpdateFee_def split: if_splits)
next
  case (us_balance lc b lc' r4)
  then show ?case using availableBalance_dry dry_chain_frame by blast
next
  case (us_fee_total lc f lc' r5)
  then show ?case using commitFeeTotalAt_heap dry_chain_frame by blast
qed (unfold SettleHTLC_def FailHTLC_def MalformedFailHTLC_def receiveHTLCSettle_def receiveFailHTLC_def,
    (erule resolveHTLC_frame)+)

section \<open>Steps of the commitment dance\<close>

definition height_room :: "channel \<Rightarrow> channel_party \<Rightarrow> bool" where
  "height_room lc w \<longleftrightarrow> cm_height (tip (chainOf lc w)) \<noteq> -1"

lemma signNextCommitment_cases:
  assumes "signNextCommitment env lc = (lc', Inr d)"
  obtains lc1 lc2 c db where "\<not> hasUnackedCommitment (chainOf lc Remote)"
    "validateCommitmentSanity lc (msgIndex (tail (chainOf lc Local)) Remote) (ul_logIndex (logOf lc Local))
       Remote NoBuffer None None = (lc1, None)"
    "fetchCommitmentView env lc1 Remote (ul_logIndex (logOf lc Local)) (ul_htlcCounter (logOf lc Local))
       (msgIndex (tail (chainOf lc Local)) Remote) (cm_theirHtlcIndex (tail (chainOf lc Local))) = (lc2, Inr c)"
    "te_sign env c" "d = createCommitDiff lc2 c" "appendRemoteCommitChain (lc_db lc2) d = Some db"
    "lc' = extendChain (lc2\<lparr>lc_db := db\<rparr>) Remote c"
proof -
  obtain lc1 e where s: "validateCommitmentSanity lc (msgIndex (tail (chainOf lc Local)) Remote)
      (ul_logIndex (logOf lc Local)) Remote NoBuffer None None = (lc1, e)" by fastforce
  have un: "\<not> hasUnackedCommitment (chainOf lc Remote)" and e: "e = None"
    using assms s by (cases e; auto simp: signNextCommitment_def Let_def split: if_splits)+
  have lg: "lc_logs lc1 = lc_logs lc" by (rule dry_fields(1) [OF validateCommitmentSanity_dry [OF s]])
  obtain lc2 r where f: "fetchCommitmentView env lc1 Remote (ul_logIndex (logOf lc Local)) (ul_htlcCounter (logOf lc Local))
       (msgIndex (tail (chainOf lc Local)) Remote) (cm_theirHtlcIndex (tail (chainOf lc Local))) = (lc2, r)" by fastforce
  obtain c where r: "r = Inr c"
    using assms s e f by (cases r) (auto simp: signNextCommitment_def Let_def lg split: if_splits)
  have sg: "te_sign env c"
    using assms s e f r by (auto simp: signNextCommitment_def Let_def lg split: if_splits)
  have "d = createCommitDiff lc2 c \<and> (\<exists>db. appendRemoteCommitChain (lc_db lc2) (createCommitDiff lc2 c) = Some db \<and>
      lc' = extendChain (lc2\<lparr>lc_db := db\<rparr>) Remote c)"
    using assms s e f r sg by (auto simp: signNextCommitment_def Let_def lg split: if_splits option.splits)
  then show ?thesis using that un s e f r sg by blast
qed

lemma receiveNewCommitment_cases:
  assumes "receiveNewCommitment env lc sig = (lc', None)"
  obtains lc1 lc2 c where
    "validateCommitmentSanity lc (ul_logIndex (logOf lc Remote)) (msgIndex (tail (chainOf lc Remote)) Local)
       Local NoBuffer None None = (lc1, None)"
    "fetchCommitmentView env lc1 Local (msgIndex (tail (chainOf lc Remote)) Local) (cm_ourHtlcIndex (tail (chainOf lc Remote)))
       (ul_logIndex (logOf lc Remote)) (ul_htlcCounter (logOf lc Remote)) = (lc2, Inr c)"
    "te_verify env c sig" "lc' = extendChain lc2 Local c"
proof -
  obtain lc1 e where s: "validateCommitmentSanity lc (ul_logIndex (logOf lc Remote))
      (msgIndex (tail (chainOf lc Remote)) Local) Local NoBuffer None None = (lc1, e)" by fastforce
  have e: "e = None" using assms s by (cases e) (auto simp: receiveNewCommitment_def Let_def)
  have lg: "lc_logs lc1 = lc_logs lc" by (rule dry_fields(1) [OF validateCommitmentSanity_dry [OF s]])
  obtain lc2 r where f: "fetchCommitmentView env lc1 Local (msgIndex (tail (chainOf lc Remote)) Local)
       (cm_ourHtlcIndex (tail (chainOf lc Remote))) (ul_logIndex (logOf lc Remote)) (ul_htlcCounter (logOf lc Remote)) = (lc2, r)"
    by fastforce
  obtain x where x: "atIndex sha256 (lc_producer lc1) (lc_currentHeight lc1 + 1) = Inr x"
    using assms s e by (cases "atIndex sha256 (lc_producer lc1) (lc_currentHeight lc1 + 1)")
      (auto simp: receiveNewCommitment_def Let_def)
  obtain c where r: "r = Inr c"
    using assms s e f x by (cases r) (auto simp: receiveNewCommitment_def Let_def lg)
  have "te_verify env c sig \<and> lc' = extendChain lc2 Local c"
    using assms s e f x r by (auto simp: receiveNewCommitment_def Let_def lg split: if_splits)
  then show ?thesis using that s e f r by blast
qed

lemma fetchCommitmentView_frame:
  assumes "fetchCommitmentView env lc w ol oh rl rh = (lc', Inr c)"
  shows "lc_logs lc' = lc_logs lc" "lc_next lc' = lc_next lc" "chain_frame lc lc'"
proof -
  obtain our their wt fv where "computeView lc (fetchHTLCView lc rl ol) w True None = (lc', Inr (our, their, wt, fv))"
    using assms by (cases rule: fetchCommitmentView_cases)
  from computeView_frame [OF this] show "lc_logs lc' = lc_logs lc" "lc_next lc' = lc_next lc" "chain_frame lc lc'"
    by (simp_all add: chain_frame_def)
qed

lemma extendChain_fields [simp]:
  "lc_heap (extendChain lc w c) = lc_heap lc" "lc_logs (extendChain lc w c) = lc_logs lc"
  "lc_next (extendChain lc w c) = lc_next lc" "lc_db (extendChain lc w c) = lc_db lc"
  "lc_localCommitment (extendChain lc w c) = lc_localCommitment lc"
  "lc_remoteCommitment (extendChain lc w c) = lc_remoteCommitment lc"
  "lc_currentHeight (extendChain lc w c) = lc_currentHeight lc"
  "lc_chains (extendChain lc w c) = modifyForParty (lc_chains lc) w (\<lambda>s. addCommitment s c)"
  by (simp_all add: extendChain_def)

definition heights_ok :: "commitmentChain \<Rightarrow> bool" where
  "heights_ok s \<longleftrightarrow> s \<noteq> [] \<and> (\<forall>i < length s. cm_height (s ! i) = cm_height (tail s) + of_nat i)"

lemma heights_ok_extend:
  assumes "heights_ok s" "cm_height c = cm_height (tip s) + 1"
  shows "heights_ok (s @ [c])"
proof -
  have s: "s \<noteq> []" "\<And>i. i < length s \<Longrightarrow> cm_height (s ! i) = cm_height (tail s) + of_nat i"
    using assms(1) by (simp_all add: heights_ok_def)
  let ?n = "length s - 1"
  have "cm_height (s ! ?n) = cm_height (tail s) + of_nat ?n" using s by simp
  moreover have "s ! ?n = tip s" using s(1) by (simp add: tip_def last_conv_nth)
  moreover have "of_nat (length s) = (of_nat ?n + 1 :: u64)" using s(1) by (simp add: of_nat_diff Suc_leI)
  ultimately have "cm_height c = cm_height (tail s) + of_nat (length s)" by (simp add: assms(2) add.assoc)
  then show ?thesis using s by (auto simp: heights_ok_def nth_append tail_def less_Suc_eq)
qed

lemma heights_ok_drop:
  assumes "heights_ok s" "tl s \<noteq> []"
  shows "heights_ok (tl s)" "cm_height (tail (tl s)) = cm_height (tail s) + 1"
proof -
  obtain c d cs where s: "s = c # d # cs" using assms(2) by (cases s rule: remdups_adj.cases) auto
  have h: "cm_height (s ! i) = cm_height c + of_nat i" if "i < length s" for i
    using assms(1) that by (simp add: heights_ok_def s tail_def)
  show one: "cm_height (tail (tl s)) = cm_height (tail s) + 1"
    using h [of 1] by (simp add: s tail_def)
  have "cm_height (tl s ! i) = cm_height (tail (tl s)) + of_nat i" if "i < length (tl s)" for i
    using h [of "Suc i"] that one by (simp add: s tail_def)
  then show "heights_ok (tl s)" using assms(2) by (simp add: heights_ok_def)
qed

lemma disk_inv_alt:
  "disk_inv lc \<longleftrightarrow> (\<forall>w. heights_ok (chainOf lc w)) \<and>
     lc_localCommitment lc = toDiskCommit (tail (chainOf lc Local)) \<and>
     lc_remoteCommitment lc = toDiskCommit (tail (chainOf lc Remote)) \<and>
     lc_currentHeight lc = cm_height (tail (chainOf lc Local)) \<and>
     (case db_commitDiff (lc_db lc) of
        None \<Rightarrow> length (chainOf lc Remote) = 1
      | Some d \<Rightarrow> length (chainOf lc Remote) = 2 \<and> cd_commitment d = toDiskCommit (tip (chainOf lc Remote)))"
  by (simp add: disk_inv_def heights_ok_def)

lemma tail_append: "s \<noteq> [] \<Longrightarrow> tail (s @ [c]) = tail s" "tip (s @ [c]) = c"
  by (simp_all add: tail_def tip_def)

lemma disk_inv_extend:
  assumes inv: "disk_inv lc"
    and chain: "\<And>q. chainOf lc' q = (if q = w then chainOf lc w @ [c] else chainOf lc q)"
    and ch: "cm_height c = cm_height (tip (chainOf lc w)) + 1"
    and fields: "lc_localCommitment lc' = lc_localCommitment lc" "lc_remoteCommitment lc' = lc_remoteCommitment lc"
      "lc_currentHeight lc' = lc_currentHeight lc"
    and loc: "w = Local \<Longrightarrow> db_commitDiff (lc_db lc') = db_commitDiff (lc_db lc)"
    and rem: "w = Remote \<Longrightarrow> db_commitDiff (lc_db lc') = Some d \<and> length (chainOf lc Remote) = 1 \<and>
      cd_commitment d = toDiskCommit c"
  shows "disk_inv lc'"
proof -
  have ok: "heights_ok (chainOf lc w)" for w using inv by (simp add: disk_inv_alt)
  then have ne: "chainOf lc w \<noteq> []" for w by (simp add: heights_ok_def)
  have "heights_ok (chainOf lc' q)" for q
    using ok [of q] heights_ok_extend [OF ok ch] by (simp add: chain)
  moreover have tails: "tail (chainOf lc' q) = tail (chainOf lc q)" for q
    using tail_append(1) [OF ne] by (simp add: chain)
  note T = tails [of Local] tails [of Remote]
  moreover have "case db_commitDiff (lc_db lc') of
        None \<Rightarrow> length (chainOf lc' Remote) = 1
      | Some d \<Rightarrow> length (chainOf lc' Remote) = 2 \<and> cd_commitment d = toDiskCommit (tip (chainOf lc' Remote))"
  proof (cases w)
    case Local
    then show ?thesis using inv loc chain [of Remote] by (simp add: disk_inv_alt split: option.splits)
  next
    case Remote
    then show ?thesis using rem chain [of Remote] by (simp add: tail_append)
  qed
  ultimately show ?thesis
    using inv unfolding disk_inv_alt fields by (simp only: T) simp
qed

lemma sign_disk:
  assumes inv: "disk_inv lc" and op: "signNextCommitment env lc = (lc', Inr d)"
  shows "disk_inv lc'"
proof -
  obtain lc1 lc2 c db where s: "\<not> hasUnackedCommitment (chainOf lc Remote)"
    "validateCommitmentSanity lc (msgIndex (tail (chainOf lc Local)) Remote) (ul_logIndex (logOf lc Local))
       Remote NoBuffer None None = (lc1, None)"
    "fetchCommitmentView env lc1 Remote (ul_logIndex (logOf lc Local)) (ul_htlcCounter (logOf lc Local))
       (msgIndex (tail (chainOf lc Local)) Remote) (cm_theirHtlcIndex (tail (chainOf lc Local))) = (lc2, Inr c)"
    "d = createCommitDiff lc2 c" "appendRemoteCommitChain (lc_db lc2) d = Some db"
    "lc' = extendChain (lc2\<lparr>lc_db := db\<rparr>) Remote c"
    using op by (rule signNextCommitment_cases)
  have dr: "dry lc lc1" by (rule validateCommitmentSanity_dry [OF s(2)])
  note f = fetchCommitmentView_frame [OF s(3)]
  have cf: "chain_frame lc lc2" by (rule chain_frame_trans [OF dry_chain_frame [OF dr] f(3)])
  have ch: "cm_height c = cm_height (tip (chainOf lc Remote)) + 1"
    using s(3) dry_fields(2) [OF dr] by (cases rule: fetchCommitmentView_cases) simp
  have ok: "heights_ok (chainOf lc w)" for w using inv by (simp add: disk_inv_alt)
  then have ne: "chainOf lc w \<noteq> []" for w by (simp add: heights_ok_def)
  have one: "length (chainOf lc Remote) = 1"
    using s(1) ne [of Remote] by (cases "chainOf lc Remote") (auto simp: hasUnackedCommitment_def)
  have chain: "chainOf lc' q = (if q = Remote then chainOf lc Remote @ [c] else chainOf lc q)" for q
    using cf by (simp add: s(6) addCommitment_def chain_frame_def)
  have db: "db_commitDiff (lc_db lc') = Some d"
    using s(5) by (auto simp: s(6) appendRemoteCommitChain_def split: if_splits)
  have dc: "cd_commitment d = toDiskCommit c" by (simp add: s(4) createCommitDiff_def Let_def)
  show "disk_inv lc'"
    by (rule disk_inv_extend [OF inv chain ch, where d = d])
      (use cf one db dc in \<open>simp_all add: s(6) chain_frame_def\<close>)
qed

lemma sign_inv:
  assumes inv: "chan_inv v lc" "disk_inv lc" "height_room lc Remote"
    and op: "signNextCommitment env lc = (lc', Inr d)"
  shows "chan_inv v lc'" "disk_inv lc'"
proof -
  obtain lc1 lc2 c db where s: "\<not> hasUnackedCommitment (chainOf lc Remote)"
    "validateCommitmentSanity lc (msgIndex (tail (chainOf lc Local)) Remote) (ul_logIndex (logOf lc Local))
       Remote NoBuffer None None = (lc1, None)"
    "fetchCommitmentView env lc1 Remote (ul_logIndex (logOf lc Local)) (ul_htlcCounter (logOf lc Local))
       (msgIndex (tail (chainOf lc Local)) Remote) (cm_theirHtlcIndex (tail (chainOf lc Local))) = (lc2, Inr c)"
    "d = createCommitDiff lc2 c" "appendRemoteCommitChain (lc_db lc2) d = Some db"
    "lc' = extendChain (lc2\<lparr>lc_db := db\<rparr>) Remote c"
    using op by (rule signNextCommitment_cases)
  have dr: "dry lc lc1" by (rule validateCommitmentSanity_dry [OF s(2)])
  note f = fetchCommitmentView_frame [OF s(3)]
  have cf: "chain_frame lc lc2" by (rule chain_frame_trans [OF dry_chain_frame [OF dr] f(3)])
  have nx: "next_indices lc Remote (mkDual (ul_logIndex (logOf lc Local)) (msgIndex (tail (chainOf lc Local)) Remote))"
    by (simp add: next_indices_def)
  show "chan_inv v lc'"
    by (rule extend_inv [OF inv(1) nx s(2,3)])
      (use inv(3) dry_fields [OF dr] f cf in \<open>simp_all add: s(6) height_room_def chain_frame_def\<close>)
  show "disk_inv lc'" by (rule sign_disk [OF inv(2) op])
qed

lemma receive_commit_disk:
  assumes inv: "disk_inv lc" and op: "receiveNewCommitment env lc sig = (lc', None)"
  shows "disk_inv lc'"
proof -
  obtain lc1 lc2 c where s:
    "validateCommitmentSanity lc (ul_logIndex (logOf lc Remote)) (msgIndex (tail (chainOf lc Remote)) Local)
       Local NoBuffer None None = (lc1, None)"
    "fetchCommitmentView env lc1 Local (msgIndex (tail (chainOf lc Remote)) Local) (cm_ourHtlcIndex (tail (chainOf lc Remote)))
       (ul_logIndex (logOf lc Remote)) (ul_htlcCounter (logOf lc Remote)) = (lc2, Inr c)"
    "lc' = extendChain lc2 Local c"
    using op by (rule receiveNewCommitment_cases)
  have dr: "dry lc lc1" by (rule validateCommitmentSanity_dry [OF s(1)])
  note f = fetchCommitmentView_frame [OF s(2)]
  have cf: "chain_frame lc lc2" by (rule chain_frame_trans [OF dry_chain_frame [OF dr] f(3)])
  have ch: "cm_height c = cm_height (tip (chainOf lc Local)) + 1"
    using s(2) dry_fields(2) [OF dr] by (cases rule: fetchCommitmentView_cases) simp
  have chain: "chainOf lc' q = (if q = Local then chainOf lc Local @ [c] else chainOf lc q)" for q
    using cf by (simp add: s(3) addCommitment_def chain_frame_def)
  show "disk_inv lc'"
    by (rule disk_inv_extend [OF inv chain ch])
      (use cf in \<open>simp_all add: s(3) chain_frame_def\<close>)
qed

lemma receive_commit_inv:
  assumes inv: "chan_inv v lc" "disk_inv lc" "height_room lc Local"
    and op: "receiveNewCommitment env lc sig = (lc', None)"
  shows "chan_inv v lc'" "disk_inv lc'"
proof -
  obtain lc1 lc2 c where s:
    "validateCommitmentSanity lc (ul_logIndex (logOf lc Remote)) (msgIndex (tail (chainOf lc Remote)) Local)
       Local NoBuffer None None = (lc1, None)"
    "fetchCommitmentView env lc1 Local (msgIndex (tail (chainOf lc Remote)) Local) (cm_ourHtlcIndex (tail (chainOf lc Remote)))
       (ul_logIndex (logOf lc Remote)) (ul_htlcCounter (logOf lc Remote)) = (lc2, Inr c)"
    "lc' = extendChain lc2 Local c"
    using op by (rule receiveNewCommitment_cases)
  have dr: "dry lc lc1" by (rule validateCommitmentSanity_dry [OF s(1)])
  note f = fetchCommitmentView_frame [OF s(2)]
  have cf: "chain_frame lc lc2" by (rule chain_frame_trans [OF dry_chain_frame [OF dr] f(3)])
  have nx: "next_indices lc Local (mkDual (msgIndex (tail (chainOf lc Remote)) Local) (ul_logIndex (logOf lc Remote)))"
    by (simp add: next_indices_def)
  show "chan_inv v lc'"
    by (rule extend_inv [OF inv(1) nx s(1,2)])
      (use inv(3) dry_fields [OF dr] f cf in \<open>simp_all add: s(3) height_room_def chain_frame_def\<close>)
  show "disk_inv lc'" by (rule receive_commit_disk [OF inv(2) op])
qed

lemma chan_inv_fields:
  assumes "chan_inv v lc" "lc_heap lc' = lc_heap lc" "lc_logs lc' = lc_logs lc" "lc_next lc' = lc_next lc"
    "lc_chains lc' = lc_chains lc"
  shows "chan_inv v lc'"
  by (rule inv_cong [OF assms(1)]) (simp_all add: assms)

lemma dropTail_fields [simp]:
  "lc_heap (dropTail lc w) = lc_heap lc" "lc_logs (dropTail lc w) = lc_logs lc"
  "lc_next (dropTail lc w) = lc_next lc" "lc_db (dropTail lc w) = lc_db lc"
  "lc_chains (dropTail lc w) = modifyForParty (lc_chains lc) w advanceTail"
  "lc_remoteCommitment (dropTail lc w) = lc_remoteCommitment lc"
  "lc_localCommitment (dropTail lc w) = lc_localCommitment lc"
  "lc_currentHeight (dropTail lc w) = lc_currentHeight lc"
  "lc_store (dropTail lc w) = lc_store lc" "lc_producer (dropTail lc w) = lc_producer lc"
  by (simp_all add: dropTail_def)

lemma revokeCurrentCommitment_cases:
  assumes "revokeCurrentCommitment env lc = (lc', Inr (msg, htlcs, final))"
  obtains db where "generateRevocation env lc (lc_currentHeight lc) = Inr msg"
    "tl (chainOf lc Local) \<noteq> []"
    "updateCommitment (lc_db lc) (toDiskCommit (tail (tl (chainOf lc Local))))
       (getUnsignedAckedUpdates ((dropTail lc Local)\<lparr>lc_currentHeight := lc_currentHeight lc + 1\<rparr>)) = Some (db, final)"
    "lc' = (dropTail lc Local)\<lparr>lc_currentHeight := lc_currentHeight lc + 1, lc_db := db,
        lc_localCommitment := toDiskCommit (tail (tl (chainOf lc Local)))\<rparr>"
    "htlcs = dc_htlcs (toDiskCommit (tail (tl (chainOf lc Local))))"
proof -
  let ?lc1 = "(dropTail lc Local)\<lparr>lc_currentHeight := lc_currentHeight lc + 1\<rparr>"
  have ch: "d_local (lc_chains ?lc1) = tl (chainOf lc Local)"
    by (simp add: modifyForParty_def advanceTail_def)
  obtain m where g: "generateRevocation env lc (lc_currentHeight lc) = Inr m"
    using assms by (cases "generateRevocation env lc (lc_currentHeight lc)") (auto simp: revokeCurrentCommitment_def)
  have two: "tl (chainOf lc Local) \<noteq> []"
    using assms g ch by (auto simp: revokeCurrentCommitment_def Let_def split: if_splits)
  obtain db f where u: "updateCommitment (lc_db lc) (toDiskCommit (tail (tl (chainOf lc Local))))
       (getUnsignedAckedUpdates ?lc1) = Some (db, f)"
    using assms g ch two by (auto simp: revokeCurrentCommitment_def Let_def split: option.splits)
  show ?thesis
    using assms g ch two u that by (auto simp: revokeCurrentCommitment_def Let_def)
qed

lemma updateCommitment_diff:
  "updateCommitment db c u = Some (db', f) \<Longrightarrow> db_commitDiff db' = db_commitDiff db"
  by (auto simp: updateCommitment_def Let_def split: if_splits option.splits)

lemma revoke_disk:
  assumes inv: "disk_inv lc" and op: "revokeCurrentCommitment env lc = (lc', Inr (msg, htlcs, final))"
  shows "disk_inv lc'"
proof -
  obtain db where s: "tl (chainOf lc Local) \<noteq> []"
    "updateCommitment (lc_db lc) (toDiskCommit (tail (tl (chainOf lc Local))))
       (getUnsignedAckedUpdates ((dropTail lc Local)\<lparr>lc_currentHeight := lc_currentHeight lc + 1\<rparr>)) = Some (db, final)"
    "lc' = (dropTail lc Local)\<lparr>lc_currentHeight := lc_currentHeight lc + 1, lc_db := db,
        lc_localCommitment := toDiskCommit (tail (tl (chainOf lc Local)))\<rparr>"
    using op by (rule revokeCurrentCommitment_cases)
  have ch: "chainOf lc' q = (if q = Local then tl (chainOf lc Local) else chainOf lc q)" for q
    by (simp add: s(3) advanceTail_def)
  have chl: "d_local (lc_chains lc') = tl (chainOf lc Local)" "d_remote (lc_chains lc') = chainOf lc Remote"
    using ch [of Local] ch [of Remote] by simp_all
  have ok: "heights_ok (chainOf lc q)" for q using inv by (simp add: disk_inv_alt)
  note drop = heights_ok_drop [OF ok s(1)]
  have "heights_ok (chainOf lc' q)" for q using ok [of q] drop(1) by (simp add: ch)
  moreover have "lc_currentHeight lc' = cm_height (tail (tl (chainOf lc Local)))"
    "lc_localCommitment lc' = toDiskCommit (tail (tl (chainOf lc Local)))"
    "lc_remoteCommitment lc' = toDiskCommit (tail (chainOf lc Remote))"
    "db_commitDiff (lc_db lc') = db_commitDiff (lc_db lc)"
    using inv drop(2) updateCommitment_diff [OF s(2)] by (simp_all add: s(3) disk_inv_alt)
  ultimately show "disk_inv lc'"
    using inv by (simp add: disk_inv_alt chl split: option.splits)
qed

lemma revoke_inv:
  assumes inv: "chan_inv v lc" "disk_inv lc"
    and op: "revokeCurrentCommitment env lc = (lc', Inr (msg, htlcs, final))"
  shows "chan_inv v lc'" "disk_inv lc'"
proof -
  obtain db where s: "tl (chainOf lc Local) \<noteq> []"
    "updateCommitment (lc_db lc) (toDiskCommit (tail (tl (chainOf lc Local))))
       (getUnsignedAckedUpdates ((dropTail lc Local)\<lparr>lc_currentHeight := lc_currentHeight lc + 1\<rparr>)) = Some (db, final)"
    "lc' = (dropTail lc Local)\<lparr>lc_currentHeight := lc_currentHeight lc + 1, lc_db := db,
        lc_localCommitment := toDiskCommit (tail (tl (chainOf lc Local)))\<rparr>"
    using op by (rule revokeCurrentCommitment_cases)
  show "chan_inv v lc'"
    by (rule chan_inv_fields [OF dropTail_inv [OF inv(1) s(1)]]) (simp_all add: s(3))
  show "disk_inv lc'" by (rule revoke_disk [OF inv(2) op])
qed

lemma receiveRevocation_cases:
  assumes "receiveRevocation env lc msg = (lc', Inr (pkg, htlcs))"
  obtains store cur h adds sfs diff db rc logs upd where
    "addNextEntry sha256 (lc_store lc) (rv_revocation msg) = Inr store"
    "lc_remoteCurrentRevocation lc = Some cur" "te_commitPoint env (rv_revocation msg) = cur"
    "forwardLoop (lc_shortChanID lc) (cm_height (tail (chainOf lc Remote)) + 1) (cm_height (tail (chainOf lc Local)))
       (ul_list (logOf lc Remote)) (lc_heap lc) 0 0 [] [] = (h, adds, sfs)"
    "pkg = \<lparr>fp_source = lc_shortChanID lc, fp_height = cm_height (tail (chainOf lc Remote)) + 1,
            fp_adds = adds, fp_settleFails = sfs\<rparr>"
    "advanceCommitChainTail (lc_db lc) (lc_remoteCommitment lc) pkg upd = Some (db, rc)"
    "compactLogs h (lc_logs lc) (cm_height (tail (chainOf lc Local))) (cm_height (tail (chainOf lc Remote)) + 1) = Some logs"
    "lc' = (dropTail (lc\<lparr>lc_store := store, lc_remoteCurrentRevocation := lc_remoteNextRevocation lc,
        lc_remoteNextRevocation := Some (rv_nextRevocationKey msg), lc_heap := h, lc_db := db,
        lc_remoteCommitment := rc\<rparr>) Remote)\<lparr>lc_logs := logs\<rparr>"
    "htlcs = dc_htlcs rc"
proof -
  obtain store where st: "addNextEntry sha256 (lc_store lc) (rv_revocation msg) = Inr store"
    using assms by (cases "addNextEntry sha256 (lc_store lc) (rv_revocation msg)") (auto simp: receiveRevocation_def)
  obtain cur where cur: "lc_remoteCurrentRevocation lc = Some cur"
    using assms st by (cases "lc_remoteCurrentRevocation lc") (auto simp: receiveRevocation_def Let_def)
  have pt: "te_commitPoint env (rv_revocation msg) = cur"
    using assms st cur by (auto simp: receiveRevocation_def Let_def split: if_splits)
  obtain h adds sfs where fw: "forwardLoop (lc_shortChanID lc) (cm_height (tail (chainOf lc Remote)) + 1)
       (cm_height (tail (chainOf lc Local))) (ul_list (logOf lc Remote)) (lc_heap lc) 0 0 [] [] = (h, adds, sfs)"
    by (metis prod_cases3)
  let ?lc2 = "lc\<lparr>lc_store := store, lc_remoteCurrentRevocation := lc_remoteNextRevocation lc,
        lc_remoteNextRevocation := Some (rv_nextRevocationKey msg), lc_heap := h\<rparr>"
  let ?pkg = "\<lparr>fp_source = lc_shortChanID lc, fp_height = cm_height (tail (chainOf lc Remote)) + 1,
            fp_adds = adds, fp_settleFails = sfs\<rparr>"
  let ?upd = "unsignedLocalUpdates ?lc2 (d_local (cm_messageIndices (tip (chainOf lc Remote))))
      (d_local (cm_messageIndices (tail (chainOf lc Local))))"
  have oi: "te_outputIndexes env (rv_revocation msg)"
    using assms st cur pt fw by (auto simp: receiveRevocation_def Let_def split: if_splits)
  obtain db rc where ad: "advanceCommitChainTail (lc_db lc) (lc_remoteCommitment lc) ?pkg ?upd = Some (db, rc)"
    using assms st cur pt fw oi
    by (cases "advanceCommitChainTail (lc_db lc) (lc_remoteCommitment lc) ?pkg ?upd")
      (auto simp: receiveRevocation_def Let_def)
  obtain logs where cp: "compactLogs h (lc_logs lc) (cm_height (tail (chainOf lc Local)))
      (cm_height (tail (chainOf lc Remote)) + 1) = Some logs"
    using assms st cur pt fw oi ad
    by (cases "compactLogs h (lc_logs lc) (cm_height (tail (chainOf lc Local))) (cm_height (tail (chainOf lc Remote)) + 1)")
      (auto simp: receiveRevocation_def Let_def)
  have "pkg = ?pkg" "htlcs = dc_htlcs rc"
    "lc' = (dropTail (?lc2\<lparr>lc_db := db, lc_remoteCommitment := rc\<rparr>) Remote)\<lparr>lc_logs := logs\<rparr>"
    using assms st cur pt fw oi ad cp by (auto simp: receiveRevocation_def Let_def)
  then show ?thesis using that st cur pt fw ad cp by simp
qed

lemma advanceCommitChainTail_diff:
  assumes "advanceCommitChainTail db rc pkg upd = Some (db', rc')"
  obtains d where "db_commitDiff db = Some d" "rc' = cd_commitment d" "db_commitDiff db' = None"
    "db_revocationLog db' = db_revocationLog db @ [rc]" "db_fwdPkgs db' = db_fwdPkgs db @ [pkg]"
  using assms by (auto simp: advanceCommitChainTail_def Let_def split: if_splits option.splits)

lemma revocation_disk:
  assumes inv: "disk_inv lc" and op: "receiveRevocation env lc msg = (lc', Inr (pkg, htlcs))"
  shows "disk_inv lc'"
proof -
  obtain store cur h adds sfs diff db rc logs upd where s:
    "forwardLoop (lc_shortChanID lc) (cm_height (tail (chainOf lc Remote)) + 1) (cm_height (tail (chainOf lc Local)))
       (ul_list (logOf lc Remote)) (lc_heap lc) 0 0 [] [] = (h, adds, sfs)"
    "advanceCommitChainTail (lc_db lc) (lc_remoteCommitment lc) pkg upd = Some (db, rc)"
    "compactLogs h (lc_logs lc) (cm_height (tail (chainOf lc Local))) (cm_height (tail (chainOf lc Remote)) + 1) = Some logs"
    "lc' = (dropTail (lc\<lparr>lc_store := store, lc_remoteCurrentRevocation := lc_remoteNextRevocation lc,
        lc_remoteNextRevocation := Some (rv_nextRevocationKey msg), lc_heap := h, lc_db := db,
        lc_remoteCommitment := rc\<rparr>) Remote)\<lparr>lc_logs := logs\<rparr>"
    using op by (rule receiveRevocation_cases) blast
  obtain d where d: "db_commitDiff (lc_db lc) = Some d" "rc = cd_commitment d" "db_commitDiff db = None"
    using s(2) by (rule advanceCommitChainTail_diff) blast
  have two: "length (chainOf lc Remote) = 2" "cd_commitment d = toDiskCommit (tip (chainOf lc Remote))"
    using inv d(1) by (simp_all add: disk_inv_alt)
  obtain c1 c2 where cc: "d_remote (lc_chains lc) = [c1, c2]"
    using two(1) by (cases "d_remote (lc_chains lc)" rule: remdups_adj.cases) auto
  have ch: "chainOf lc' q = (if q = Remote then tl (chainOf lc Remote) else chainOf lc q)" for q
    by (simp add: s(4) advanceTail_def)
  have chl: "d_remote (lc_chains lc') = [c2]" "d_local (lc_chains lc') = chainOf lc Local"
    using ch [of Local] ch [of Remote] cc by simp_all
  have ok: "heights_ok (chainOf lc q)" for q using inv by (simp add: disk_inv_alt)
  have "heights_ok (tl (chainOf lc Remote))" by (rule heights_ok_drop(1) [OF ok]) (simp add: cc)
  then have "heights_ok (chainOf lc' q)" for q using ok [of q] by (simp add: ch)
  moreover have "lc_currentHeight lc' = lc_currentHeight lc" "lc_localCommitment lc' = lc_localCommitment lc"
    "lc_remoteCommitment lc' = toDiskCommit c2" "db_commitDiff (lc_db lc') = None"
    using two(2) d by (simp_all add: s(4) cc tip_def)
  ultimately show "disk_inv lc'"
    using inv by (simp add: disk_inv_alt chl tail_def)
qed

lemma receive_revocation_inv:
  assumes inv: "chan_inv v lc" "disk_inv lc"
    and op: "receiveRevocation env lc msg = (lc', Inr (pkg, htlcs))"
  shows "chan_inv v lc'" "disk_inv lc'"
proof -
  obtain store cur h adds sfs diff db rc logs upd where s:
    "forwardLoop (lc_shortChanID lc) (cm_height (tail (chainOf lc Remote)) + 1) (cm_height (tail (chainOf lc Local)))
       (ul_list (logOf lc Remote)) (lc_heap lc) 0 0 [] [] = (h, adds, sfs)"
    "advanceCommitChainTail (lc_db lc) (lc_remoteCommitment lc) pkg upd = Some (db, rc)"
    "compactLogs h (lc_logs lc) (cm_height (tail (chainOf lc Local))) (cm_height (tail (chainOf lc Remote)) + 1) = Some logs"
    "lc' = (dropTail (lc\<lparr>lc_store := store, lc_remoteCurrentRevocation := lc_remoteNextRevocation lc,
        lc_remoteNextRevocation := Some (rv_nextRevocationKey msg), lc_heap := h, lc_db := db,
        lc_remoteCommitment := rc\<rparr>) Remote)\<lparr>lc_logs := logs\<rparr>"
    using op by (rule receiveRevocation_cases) blast
  obtain d where d: "db_commitDiff (lc_db lc) = Some d" "rc = cd_commitment d" "db_commitDiff db = None"
    using s(2) by (rule advanceCommitChainTail_diff) blast
  have two: "length (chainOf lc Remote) = 2" "cd_commitment d = toDiskCommit (tip (chainOf lc Remote))"
    using inv(2) d(1) by (simp_all add: disk_inv_alt)
  obtain c1 c2 where cc: "d_remote (lc_chains lc) = [c1, c2]"
    using two(1) by (cases "d_remote (lc_chains lc)" rule: remdups_adj.cases) auto
  let ?lc1 = "lc\<lparr>lc_store := store, lc_remoteCurrentRevocation := lc_remoteNextRevocation lc,
        lc_remoteNextRevocation := Some (rv_nextRevocationKey msg), lc_heap := h, lc_db := db,
        lc_remoteCommitment := rc\<rparr>"
  have "chan_inv v (lc\<lparr>lc_heap := h\<rparr>)" by (rule fwd_inv [OF inv(1) forwardLoop_heap [OF s(1)]])
  then have "chan_inv v ?lc1" by (rule chan_inv_fields) simp_all
  then have i2: "chan_inv v (dropTail ?lc1 Remote)" by (rule dropTail_inv) (simp add: cc)
  show "chan_inv v lc'"
    unfolding s(4) by (rule compact_inv [OF i2]) (use s(3) in simp)
  show "disk_inv lc'" by (rule revocation_disk [OF inv(2) op])
qed

end
