(* ===== verification/Channel_Run.thy ===== *)
theory Channel_Run
  imports Channel_Inv
begin

text \<open>
  Runs of a channel from its opening, and what they guarantee: the value of every commitment, the
  uniqueness of resolutions, the agreement of disk and memory, the safety of revocations, and the
  functional behaviour of the operations.
\<close>

section \<open>Runs\<close>

text \<open>
  The steps of a channel between two restarts: any update, failed or not, and the four steps of the
  commitment dance when they succeed. (A link whose dance fails is torn down and its channel reloaded
  from disk.) The two \<open>room\<close> conditions say that no 64-bit counter is about to wrap around.
\<close>

inductive chan_step :: "tx_env \<Rightarrow> channel \<Rightarrow> channel \<Rightarrow> bool" for env where
  cs_update: "log_room lc \<Longrightarrow> update_step lc lc' \<Longrightarrow> chan_step env lc lc'"
| cs_sign: "height_room lc Remote \<Longrightarrow> signNextCommitment env lc = (lc', Inr d) \<Longrightarrow> chan_step env lc lc'"
| cs_receive: "height_room lc Local \<Longrightarrow> receiveNewCommitment env lc sig = (lc', None) \<Longrightarrow> chan_step env lc lc'"
| cs_revoke: "revokeCurrentCommitment env lc = (lc', Inr (msg, htlcs, final)) \<Longrightarrow> chan_step env lc lc'"
| cs_revocation: "receiveRevocation env lc msg = (lc', Inr (pkg, htlcs)) \<Longrightarrow> chan_step env lc lc'"

text \<open>A freshly opened channel of value \<open>v\<close>: no updates, one commitment without HTLCs on each chain.\<close>

definition opened :: "msat \<Rightarrow> channel \<Rightarrow> bool" where
  "opened v lc \<longleftrightarrow>
     lc_logs lc = mkDual (newUpdateLog 0 0) (newUpdateLog 0 0) \<and>
     (\<exists>cl cr. lc_chains lc = mkDual [cl] [cr] \<and>
        commitValue cl = v \<and> cm_outgoingHTLCs cl = [] \<and> cm_incomingHTLCs cl = [] \<and>
        cm_messageIndices cl = mkDual 0 0 \<and> cm_height cl = lc_currentHeight lc \<and>
        commitValue cr = v \<and> cm_outgoingHTLCs cr = [] \<and> cm_incomingHTLCs cr = [] \<and>
        cm_messageIndices cr = mkDual 0 0 \<and>
        lc_localCommitment lc = toDiskCommit cl \<and> lc_remoteCommitment lc = toDiskCommit cr) \<and>
     db_commitDiff (lc_db lc) = None"

lemma opened_inv:
  assumes "opened v lc"
  shows "chan_inv v lc" "disk_inv lc"
proof -
  obtain cl cr where o: "lc_logs lc = mkDual (newUpdateLog 0 0) (newUpdateLog 0 0)"
    "lc_chains lc = mkDual [cl] [cr]" "commitValue cl = v" "commitValue cr = v"
    "cm_outgoingHTLCs cl = []" "cm_incomingHTLCs cl = []" "cm_outgoingHTLCs cr = []" "cm_incomingHTLCs cr = []"
    "cm_messageIndices cl = mkDual 0 0" "cm_messageIndices cr = mkDual 0 0" "cm_height cl = lc_currentHeight lc"
    "lc_localCommitment lc = toDiskCommit cl" "lc_remoteCommitment lc = toDiskCommit cr"
    "db_commitDiff (lc_db lc) = None"
    using assms unfolding opened_def by blast
  have chain: "chainOf lc w = (if w = Local then [cl] else [cr])" for w by (cases w) (simp_all add: o(2))
  have log: "logOf lc p = newUpdateLog 0 0" for p by (cases p) (simp_all add: o(1))
  have list: "ul_list (newUpdateLog 0 0) = []" "ul_logIndex (newUpdateLog 0 0) = 0"
    by (simp_all add: newUpdateLog_def)
  have mi: "getForParty (mkDual 0 0) p = (0 :: u64)" for p by (cases p) simp_all
  have "logs_wf (lc_heap lc) (lc_next lc) (lc_logs lc)"
    by (simp add: logs_wf_def log log_wf_new resolves_def list) (simp add: o(1) newUpdateLog_def)
  moreover have "idx_inv lc" by (simp add: idx_inv_def log list)
  moreover have "window_inv lc" by (simp add: window_inv_def chain log list o(9,10) mi tail_def)
  moreover have "onChain (lc_heap lc) (lc_logs lc) w p = []" for w p by (simp add: onChain_def log list)
  then have "value_inv v lc"
    by (simp add: value_inv_def chain o(3-8) tip_def htlcSum_def)
  ultimately show "chan_inv v lc" by (simp add: chan_inv_def)
  show "disk_inv lc" using o(11-14) chain [of Local] chain [of Remote] by (simp add: disk_inv_def chain tail_def)
qed

lemma chan_step_inv:
  assumes "chan_step env lc lc'" "chan_inv v lc" "disk_inv lc"
  shows "chan_inv v lc' \<and> disk_inv lc'"
  using assms
proof (induction rule: chan_step.induct)
  case (cs_update lc lc')
  then show ?case using update_step_inv disk_inv_frame update_step_frame by blast
next
  case (cs_sign lc lc' d)
  then show ?case using sign_inv by blast
next
  case (cs_receive lc sig lc')
  then show ?case using receive_commit_inv by blast
next
  case (cs_revoke lc lc' msg htlcs final)
  then show ?case using revoke_inv by blast
next
  case (cs_revocation lc msg lc' pkg htlcs)
  then show ?case using receive_revocation_inv by blast
qed

text \<open>The agreement of chains and disk does not depend on the rest of the invariant.\<close>

lemma chan_step_disk: "chan_step env lc lc' \<Longrightarrow> disk_inv lc \<Longrightarrow> disk_inv lc'"
proof (induction rule: chan_step.induct)
  case (cs_update lc lc')
  then show ?case using disk_inv_frame update_step_frame by blast
next
  case (cs_sign lc lc' d)
  then show ?case using sign_disk by blast
next
  case (cs_receive lc sig lc')
  then show ?case using receive_commit_disk by blast
next
  case (cs_revoke lc lc' msg htlcs final)
  then show ?case using revoke_disk by blast
next
  case (cs_revocation lc msg lc' pkg htlcs)
  then show ?case using revocation_disk by blast
qed

lemma chan_run_inv:
  assumes "(chan_step env)\<^sup>*\<^sup>* lc lc'" "opened v lc"
  shows "chan_inv v lc'" "disk_inv lc'"
proof -
  have "chan_inv v lc' \<and> disk_inv lc'"
    using assms(1)
    by (induction rule: rtranclp_induct) (use opened_inv [OF assms(2)] chan_step_inv in blast)+
  then show "chan_inv v lc'" "disk_inv lc'" by simp_all
qed

section \<open>A concrete channel\<close>

text \<open>
  The channel the witnesses run on: 10,000,000 sat, opened by us, all of it ours but 1,000,000 sat,
  at 1,000 sat/kw.
\<close>

definition demo_env :: tx_env where
  "demo_env = \<lparr>te_txOk = (\<lambda>h outs. True), te_txWeight = (\<lambda>outs. 1000), te_verify = (\<lambda>c s. True),
     te_sign = (\<lambda>c. True), te_commitPoint = id, te_outputIndexes = (\<lambda>r. True)\<rparr>"

definition demo_commitment :: "channel_party \<Rightarrow> commitment" where
  "demo_commitment w =
     \<lparr>cm_height = 0, cm_whoseCommit = w, cm_messageIndices = mkDual 0 0, cm_ourHtlcIndex = 0,
      cm_theirHtlcIndex = 0, cm_ourBalance = 8999276000, cm_theirBalance = 1000000000, cm_fee = 724,
      cm_feePerKw = 1000, cm_dustLimit = 573, cm_outgoingHTLCs = [], cm_incomingHTLCs = []\<rparr>"

definition demo_config :: channel_config where
  "demo_config = \<lparr>cc_dustLimit = 573, cc_chanReserve = 100000, cc_minHTLC = 1000,
     cc_maxPendingAmount = 9900000000, cc_maxAcceptedHtlcs = 483\<rparr>"

definition demo_channel :: channel where
  "demo_channel =
     \<lparr>lc_isInitiator = True, lc_chanType = 0, lc_capacity = 10000000, lc_localCfg = demo_config,
      lc_remoteCfg = demo_config, lc_localCommitment = toDiskCommit (demo_commitment Local),
      lc_remoteCommitment = toDiskCommit (demo_commitment Remote), lc_totalSent = 0, lc_totalReceived = 0,
      lc_chains = mkDual [demo_commitment Local] [demo_commitment Remote],
      lc_logs = mkDual (newUpdateLog 0 0) (newUpdateLog 0 0), lc_heap = (\<lambda>a. zeroDescriptor), lc_next = 0,
      lc_currentHeight = 0, lc_shortChanID = 7, lc_channelID = replicate 32 1,
      lc_producer = newRevocationProducer (replicate 32 2), lc_store = newRevocationStore,
      lc_remoteCurrentRevocation = Some (replicate 32 9), lc_remoteNextRevocation = Some [2],
      lc_db = \<lparr>db_frozen = False, db_restored = False, db_commitDiff = None, db_lastWasRevoke = False,
        db_unsignedAckedUpdates = None, db_remoteUnsignedLocalUpdates = None, db_revocationLog = [],
        db_fwdPkgs = []\<rparr>\<rparr>"

definition demo_htlc :: update_add_htlc where
  "demo_htlc = \<lparr>ua_chanID = replicate 32 1, ua_ID = 0, ua_amount = 50000000,
     ua_paymentHash = replicate 32 9, ua_expiry = 500, ua_onionBlob = [], ua_blindingPoint = None,
     ua_customRecords = Map.empty\<rparr>"

lemma demo_opened: "opened 10000000000 demo_channel"
  unfolding opened_def
  by (intro conjI exI [of _ "demo_commitment Local"] exI [of _ "demo_commitment Remote"])
    (simp_all add: demo_channel_def demo_commitment_def commitValue_def htlcSum_def
      newMSatFromSatoshis_def u64_of_i64_def)

text \<open>An outgoing HTLC of 50,000 sat and the commitment that includes it, computed step by step.\<close>

lemmas view_defs = computeView_def evaluateHTLCView_def viewFee_def initiator_def isResolution_def
  isAdd_def liveAdds_def debitAdds_def isUncommitted_def viewWeight_def dustFilter_def cfgOf_def
  htlcIsDust_def isLocal_def isRemote_def htlcTimeoutFee_def htlcSuccessFee_def zeroHtlcTxFee_def
  isTaproot_def hasAnchors_def feeForWeight_def quot_def i64_def i64_of_u64_def u64_of_i64_def
  toSatoshis_def newMSatFromSatoshis_def applyDelta_def modifyForParty_def mapDual_def mkDual_def
  commitWeight_def htlcWeight_def tip_def tail_def hasUnackedCommitment_def fetchHTLCView_def

lemmas check_defs = validateCommitmentSanity_def sanityOfView_def applyCommitFee_def calcFeeBuffer_def
  feePerKwFloor_def predictView_def validateUpdates_def validateAddHtlc_def addHTLC_def AddHTLC_def
  allocate_def pushLog_def htlcAddDescriptor_def zeroDescriptor_def entryTypeForHtlc_def
  newUpdateLog_def appendHtlc_def toDiskCommit_def

lemmas commit_defs = createUnsignedCommitmentTx_def createCommitTx_def payCommitFee_def totalOut_def
  anchorSize_def absoluteFeePerKwFloor_def setCommitHeight_def recordSettlement_def

lemmas demo_defs = demo_channel_def demo_commitment_def demo_config_def demo_htlc_def

definition demo_pd :: paymentDescriptor where
  "demo_pd = htlcAddDescriptor demo_channel demo_htlc None"

definition demo_added :: channel where
  "demo_added = fst (AddHTLC demo_channel demo_htlc None)"

lemma demo_pd:
  "pd_amount demo_pd = 50000000" "pd_entryType demo_pd = Add" "pd_addHeights demo_pd = mkDual 0 0"
  "pd_rmvHeights demo_pd = mkDual 0 0" "pd_logIndex demo_pd = 0" "pd_htlcIndex demo_pd = 0"
  "isAdd demo_pd" "\<not> isResolution demo_pd"
  by (simp_all add: demo_pd_def view_defs check_defs demo_defs Let_def cong: let_weak_cong)

definition demo_log :: update_log where
  "demo_log = \<lparr>ul_logIndex = 1, ul_htlcCounter = 1, ul_list = [0], ul_updateIndex = Map.empty,
     ul_htlcIndex = [0 \<mapsto> 0], ul_modified = {}\<rparr>"

lemma demo_add:
  "AddHTLC demo_channel demo_htlc None
     = (demo_channel\<lparr>lc_heap := (lc_heap demo_channel)(0 := demo_pd), lc_next := 1,
          lc_logs := mkDual demo_log (newUpdateLog 0 0)\<rparr>, Inr 0)"
  by (simp add: demo_pd_def demo_log_def view_defs check_defs demo_defs Let_def cong: let_weak_cong)

lemma demo_added:
  "lc_isInitiator demo_added" "lc_chanType demo_added = 0" "lc_capacity demo_added = 10000000"
  "lc_localCfg demo_added = demo_config" "lc_remoteCfg demo_added = demo_config"
  "lc_chains demo_added = mkDual [demo_commitment Local] [demo_commitment Remote]"
  "lc_logs demo_added = mkDual demo_log (newUpdateLog 0 0)"
  "lc_heap demo_added 0 = demo_pd" "lc_next demo_added = 1"
  "lc_remoteNextRevocation demo_added = Some [2]" "db_frozen (lc_db demo_added) = False"
  by (simp_all add: demo_added_def demo_add) (simp_all add: demo_channel_def)

lemma demo_config:
  "cc_dustLimit demo_config = 573" "cc_chanReserve demo_config = 100000" "cc_minHTLC demo_config = 1000"
  "cc_maxPendingAmount demo_config = 9900000000" "cc_maxAcceptedHtlcs demo_config = 483"
  by (simp_all add: demo_config_def)

lemma demo_env: "te_txOk demo_env h outs" "te_txWeight demo_env outs = 1000" "te_sign demo_env c"
  by (simp_all add: demo_env_def)

lemmas demo_facts = demo_added demo_pd demo_config demo_env demo_commitment_def demo_log_def
  newUpdateLog_def view_defs

definition demo_view :: htlc_view where
  "demo_view = \<lparr>hv_nextHeight = 1, hv_updates = mkDual [0] [], hv_feePerKw = 1000\<rparr>"

definition demo_locked :: channel where
  "demo_locked = demo_added\<lparr>lc_heap := (lc_heap demo_added)(0 := setCommitHeight Remote 1 demo_pd)\<rparr>"

lemma demo_fetch_view:
  "fetchHTLCView demo_added 0 1 = \<lparr>hv_nextHeight = 0, hv_updates = mkDual [0] [], hv_feePerKw = 0\<rparr>"
  by (simp add: demo_facts Let_def cong: let_weak_cong)

lemma demo_evaluate:
  "evaluateHTLCView demo_added demo_view Remote 1
     = (lc_heap demo_added, Inr (demo_view, mkDual [0] [], mkDual (-50000000) 0))"
  unfolding demo_view_def by (simp add: demo_facts Let_def cong: let_weak_cong)

lemma demo_compute:
  "computeView demo_added (fetchHTLCView demo_added 0 1) Remote False None
     = (demo_added, Inr (8950000000, 1000000000, 896, demo_view))"
  "computeView demo_added (fetchHTLCView demo_added 0 1) Remote True None
     = (demo_locked, Inr (8950000000, 1000000000, 896, demo_view))"
  unfolding demo_fetch_view
  using demo_evaluate [unfolded demo_view_def]
  by (simp_all add: demo_view_def demo_locked_def commit_defs demo_facts Let_def computeView_def
      cong: let_weak_cong del: evaluateHTLCView_def)

lemma demo_locked:
  "lc_isInitiator demo_locked" "lc_chanType demo_locked = 0" "lc_capacity demo_locked = 10000000"
  "lc_localCfg demo_locked = demo_config" "lc_remoteCfg demo_locked = demo_config"
  "lc_heap demo_locked 0 = setCommitHeight Remote 1 demo_pd" "lc_logs demo_locked = lc_logs demo_added"
  "lc_db demo_locked = lc_db demo_added" "lc_chains demo_locked = lc_chains demo_added"
  by (simp_all add: demo_locked_def demo_added)

lemma demo_sanity: "validateCommitmentSanity demo_added 0 1 Remote NoBuffer None None = (demo_added, None)"
  by (simp add: validateCommitmentSanity_def demo_compute)
    (simp add: demo_view_def check_defs demo_facts Let_def cong: let_weak_cong)

lemma demo_tx:
  "createUnsignedCommitmentTx demo_env demo_locked 8950000000 1000000000 Remote 1000 1 demo_view
     = Inr \<lparr>ut_outputs = [1000000, 8949104, 50000], ut_fee = 896, ut_ourBalance = 8949104000,
            ut_theirBalance = 1000000000\<rparr>"
  by (simp add: demo_locked demo_view_def commit_defs demo_facts Let_def cong: let_weak_cong)

definition demo_commitment1 :: commitment where
  "demo_commitment1 =
     \<lparr>cm_height = 1, cm_whoseCommit = Remote, cm_messageIndices = mkDual 1 0, cm_ourHtlcIndex = 1,
      cm_theirHtlcIndex = 0, cm_ourBalance = 8949104000, cm_theirBalance = 1000000000, cm_fee = 896,
      cm_feePerKw = 1000, cm_dustLimit = 573,
      cm_outgoingHTLCs = [setCommitHeight Remote 1 demo_pd], cm_incomingHTLCs = []\<rparr>"

lemma demo_fetch:
  "fetchCommitmentView demo_env demo_added Remote 1 1 0 0 = (demo_locked, Inr demo_commitment1)"
  unfolding fetchCommitmentView_def demo_compute
  by (simp add: demo_added demo_commitment_def tip_def demo_tx demo_env demo_locked
      demo_view_def [THEN arg_cong [where f = hv_feePerKw], simplified]
      demo_view_def [THEN arg_cong [where f = hv_updates], simplified]
      demo_commitment1_def totalOut_def i64_def quot_def absoluteFeePerKwFloor_def cfgOf_def demo_config)

definition demo_signed :: channel where
  "demo_signed = fst (signNextCommitment demo_env demo_added)"

lemma demo_sign:
  "\<exists>d. signNextCommitment demo_env demo_added = (demo_signed, Inr d)"
  "chainOf demo_signed Remote = [demo_commitment Remote, demo_commitment1]"
  "chainOf demo_signed Local = [demo_commitment Local]"
  "lc_logs demo_signed = lc_logs demo_added" "lc_heap demo_signed 0 = setCommitHeight Remote 1 demo_pd"
proof -
  have "signNextCommitment demo_env demo_added
    = (extendChain (demo_locked\<lparr>lc_db := (lc_db demo_added)\<lparr>db_lastWasRevoke := False,
          db_commitDiff := Some (createCommitDiff demo_locked demo_commitment1)\<rparr>\<rparr>) Remote demo_commitment1,
       Inr (createCommitDiff demo_locked demo_commitment1))"
    using demo_sanity demo_fetch
    by (simp add: signNextCommitment_def demo_added demo_env hasUnackedCommitment_def tail_def
        demo_commitment_def demo_log_def demo_locked appendRemoteCommitChain_def Let_def)
  then show "\<exists>d. signNextCommitment demo_env demo_added = (demo_signed, Inr d)"
    "chainOf demo_signed Remote = [demo_commitment Remote, demo_commitment1]"
    "chainOf demo_signed Local = [demo_commitment Local]"
    "lc_logs demo_signed = lc_logs demo_added" "lc_heap demo_signed 0 = setCommitHeight Remote 1 demo_pd"
    by (simp_all add: demo_signed_def demo_locked demo_added addCommitment_def modifyForParty_def)
qed

lemma demo_signed_rest:
  "lc_store demo_signed = newRevocationStore" "lc_remoteCurrentRevocation demo_signed = Some (replicate 32 9)"
  "\<not> db_frozen (lc_db demo_signed)"
proof -
  have "lc_store demo_locked = newRevocationStore" "lc_remoteCurrentRevocation demo_locked = Some (replicate 32 9)"
    "\<not> db_frozen (lc_db demo_locked)"
    by (simp_all add: demo_locked_def demo_added_def demo_add) (simp_all add: demo_channel_def)
  then show "lc_store demo_signed = newRevocationStore" "lc_remoteCurrentRevocation demo_signed = Some (replicate 32 9)"
    "\<not> db_frozen (lc_db demo_signed)"
    using demo_sanity demo_fetch
    by (simp_all add: demo_signed_def signNextCommitment_def demo_added demo_env hasUnackedCommitment_def tail_def
        demo_commitment_def demo_log_def demo_locked appendRemoteCommitChain_def Let_def extendChain_def)
qed

lemma demo_run:
  "(chan_step demo_env)\<^sup>*\<^sup>* demo_channel demo_added"
  "(chan_step demo_env)\<^sup>*\<^sup>* demo_channel demo_signed"
proof -
  have "log_room demo_channel"
    by (simp add: log_room_def all_parties demo_channel_def newUpdateLog_def)
  moreover have "update_step demo_channel demo_added"
    using us_add [OF demo_add [unfolded AddHTLC_def]] by (simp add: demo_added_def demo_add)
  ultimately have a: "chan_step demo_env demo_channel demo_added" by (rule cs_update)
  have "height_room demo_added Remote"
    by (simp add: height_room_def demo_added tip_def demo_commitment_def)
  then have b: "chan_step demo_env demo_added demo_signed"
    using demo_sign(1) by (auto intro: cs_sign)
  show "(chan_step demo_env)\<^sup>*\<^sup>* demo_channel demo_added" using a by blast
  then show "(chan_step demo_env)\<^sup>*\<^sup>* demo_channel demo_signed"
    using b by (rule rtranclp.rtrancl_into_rtrancl)
qed

section \<open>Value, resolutions, disk\<close>

text \<open>
  C4: no run creates or destroys value: on every commitment of either chain, the two balances, the
  commitment fee and the HTLCs add up to the value the channel was opened with.
\<close>

theorem commitment_value_conserved:
  assumes "opened v lc0" and "(chan_step env)\<^sup>*\<^sup>* lc0 lc"
  shows "\<forall>w. \<forall>c \<in> set (chainOf lc w). commitValue c = v"
  using chan_run_inv(1) [OF assms(2,1)] by (simp add: chan_inv_def value_inv_def)

theorem commitment_value_conserved_witness:
  "map commitValue (chainOf demo_signed Remote) = [10000000000, 10000000000] \<and>
   cm_outgoingHTLCs (tip (chainOf demo_signed Remote)) \<noteq> []"
  using commitment_value_conserved [OF demo_opened demo_run(2), rule_format, of _ Remote]
  unfolding demo_sign(2) by (simp add: tip_def demo_commitment1_def)

text \<open>
  C3: in every reachable state each settle or fail in a log refers to an add of the other party's
  log with the same amount, and no HTLC is resolved twice.
\<close>

theorem htlc_resolved_once:
  assumes "opened v lc0" and "(chan_step env)\<^sup>*\<^sup>* lc0 lc"
    and "r \<in> set (ul_list (logOf lc p))" "isResolution (lc_heap lc r)"
  shows "(\<exists>a \<in> set (ul_list (logOf lc (counterParty p))). isAdd (lc_heap lc a) \<and>
            pd_htlcIndex (lc_heap lc a) = pd_parentIndex (lc_heap lc r) \<and>
            pd_amount (lc_heap lc a) = pd_amount (lc_heap lc r)) \<and>
         (\<forall>s \<in> set (ul_list (logOf lc p)). isResolution (lc_heap lc s) \<longrightarrow>
            pd_parentIndex (lc_heap lc s) = pd_parentIndex (lc_heap lc r) \<longrightarrow> s = r)"
proof -
  have wf: "logs_wf (lc_heap lc) (lc_next lc) (lc_logs lc)"
    using chan_run_inv(1) [OF assms(2,1)] by (simp add: chan_inv_def)
  note w = logs_wf_parts [OF wf, of p]
  obtain a where a: "ul_htlcIndex (logOf lc (counterParty p)) (pd_parentIndex (lc_heap lc r)) = Some a"
    "pd_amount (lc_heap lc a) = pd_amount (lc_heap lc r)"
    using resolves_parent [OF w(3) assms(3,4)] by blast
  moreover have "a \<in> set (ul_list (logOf lc (counterParty p))) \<and> isAdd (lc_heap lc a) \<and>
      pd_htlcIndex (lc_heap lc a) = pd_parentIndex (lc_heap lc r)"
    using a(1) log_wf_htlc [OF w(2), of "pd_parentIndex (lc_heap lc r)" a] by simp
  ultimately show ?thesis using resolves_once [OF w(3) _ assms(3) _ assms(4)] by blast
qed

text \<open>
  C30: in every reachable state the stored commitments are the tails of the two chains, a commit diff
  is stored exactly while the peer owes a revocation, and it holds the commitment at the tip.
\<close>

theorem disk_mirrors_chains:
  assumes "opened v lc0" and "(chan_step env)\<^sup>*\<^sup>* lc0 lc"
  shows "lc_localCommitment lc = toDiskCommit (tail (chainOf lc Local)) \<and>
     lc_remoteCommitment lc = toDiskCommit (tail (chainOf lc Remote)) \<and>
     lc_currentHeight lc = cm_height (tail (chainOf lc Local)) \<and>
     (db_commitDiff (lc_db lc) \<noteq> None \<longleftrightarrow> hasUnackedCommitment (chainOf lc Remote)) \<and>
     map_option cd_commitment (db_commitDiff (lc_db lc))
       = (if hasUnackedCommitment (chainOf lc Remote) then Some (toDiskCommit (tip (chainOf lc Remote))) else None)"
  using chan_run_inv(2) [OF assms(2,1)]
  by (auto simp: disk_inv_alt hasUnackedCommitment_def split: option.splits)

theorem disk_mirrors_chains_witness:
  "hasUnackedCommitment (chainOf demo_signed Remote) \<and>
   map_option cd_commitment (db_commitDiff (lc_db demo_signed)) = Some (toDiskCommit demo_commitment1)"
proof -
  have "hasUnackedCommitment (chainOf demo_signed Remote)" "tip (chainOf demo_signed Remote) = demo_commitment1"
    unfolding demo_sign(2) by (simp_all add: hasUnackedCommitment_def tip_def)
  then show ?thesis using disk_mirrors_chains [OF demo_opened demo_run(2)] by simp
qed

definition demo_failed :: channel where
  "demo_failed = fst (receiveFailHTLC demo_added 0 [])"

lemma demo_failed:
  "chan_step demo_env demo_added demo_failed"
  "ul_list (logOf demo_failed Remote) = [1]" "isResolution (lc_heap demo_failed 1)"
  "pd_parentIndex (lc_heap demo_failed 1) = 0"
proof -
  have "log_room demo_added"
    by (simp add: log_room_def all_parties demo_added demo_log_def newUpdateLog_def)
  moreover obtain r where "receiveFailHTLC demo_added 0 [] = (demo_failed, r)"
    by (metis demo_failed_def prod.collapse)
  ultimately show "chan_step demo_env demo_added demo_failed"
    using cs_update us_receive_fail by blast
  show "ul_list (logOf demo_failed Remote) = [1]" "isResolution (lc_heap demo_failed 1)"
    "pd_parentIndex (lc_heap demo_failed 1) = 0"
    by (simp_all add: demo_failed_def receiveFailHTLC_def resolveHTLC_def demo_added demo_log_def lookupHtlc_def
        htlcHasModification_def newUpdateLog_def Let_def markParent_def allocate_def pushLog_def
        appendUpdate_def isResolution_def demo_pd)
qed

theorem htlc_resolved_once_witness:
  "\<exists>a \<in> set (ul_list (logOf demo_failed Local)). isAdd (lc_heap demo_failed a) \<and>
     pd_htlcIndex (lc_heap demo_failed a) = 0"
proof -
  have "(chan_step demo_env)\<^sup>*\<^sup>* demo_channel demo_failed"
    using demo_run(1) demo_failed(1) by (rule rtranclp.rtrancl_into_rtrancl)
  from htlc_resolved_once [OF demo_opened this, of 1 Remote] demo_failed(2-4) show ?thesis by auto
qed

text \<open>
  C31: which updates a commitment covers is exactly what its message indices say: an entry of a log is
  committed on a chain if and only if its log index is below that chain's last message index for
  the entry's party.
\<close>

theorem committed_iff_covered:
  assumes "opened v lc0" and "(chan_step env)\<^sup>*\<^sup>* lc0 lc" and "e \<in> set (ul_list (logOf lc p))"
  shows "committed (lc_heap lc) w e \<longleftrightarrow> pd_logIndex (lc_heap lc e) < msgIndex (tip (chainOf lc w)) p"
  using chan_run_inv(1) [OF assms(2,1)] assms(3) by (simp add: chan_inv_def idx_inv_def)

theorem committed_iff_covered_witness:
  "committed (lc_heap demo_signed) Remote 0"
proof -
  have l: "ul_list (logOf demo_signed Local) = [0]" "lc_heap demo_signed 0 = setCommitHeight Remote 1 demo_pd"
    using demo_sign(4,5) demo_added by (simp_all add: demo_log_def)
  show ?thesis
    using committed_iff_covered [OF demo_opened demo_run(2), of 0 Local Remote] l
    unfolding demo_sign(2) by (simp add: tip_def demo_commitment1_def demo_pd)
qed

section \<open>Signing\<close>

text \<open>
  After a signature on the remote commitment, made while our own chain has nothing to revoke, we
  owe no commitment and the new commitment covers every update of our log.
\<close>

theorem sign_pays_debt:
  assumes "opened v lc0" and "(chan_step env)\<^sup>*\<^sup>* lc0 lc" and "\<not> hasUnackedCommitment (chainOf lc Local)"
    and "signNextCommitment env lc = (lc', Inr d)"
  shows "\<not> oweCommitment lc' Local \<and> numPendingUpdates lc' Local Remote = 0"
proof -
  obtain lc1 lc2 c db where s:
    "validateCommitmentSanity lc (msgIndex (tail (chainOf lc Local)) Remote) (ul_logIndex (logOf lc Local))
       Remote NoBuffer None None = (lc1, None)"
    "fetchCommitmentView env lc1 Remote (ul_logIndex (logOf lc Local)) (ul_htlcCounter (logOf lc Local))
       (msgIndex (tail (chainOf lc Local)) Remote) (cm_theirHtlcIndex (tail (chainOf lc Local))) = (lc2, Inr c)"
    "lc' = extendChain (lc2\<lparr>lc_db := db\<rparr>) Remote c"
    using assms(4) by (rule signNextCommitment_cases)
  have dr: "dry lc lc1" by (rule validateCommitmentSanity_dry [OF s(1)])
  note f = fetchCommitmentView_frame [OF s(2)]
  have mi: "cm_messageIndices c = mkDual (ul_logIndex (logOf lc Local)) (msgIndex (tail (chainOf lc Local)) Remote)"
    using s(2) by (cases rule: fetchCommitmentView_cases)
  have fr: "lc_logs lc' = lc_logs lc" "d_local (lc_chains lc') = d_local (lc_chains lc)"
    "tip (d_remote (lc_chains lc')) = c"
    using dry_fields(1,2) [OF dr] f
    by (simp_all add: s(3) chain_frame_def modifyForParty_def addCommitment_def tip_def)
  have "chainOf lc w \<noteq> []" for w
    using chan_run_inv(2) [OF assms(2,1)] by (simp add: disk_inv_def)
  from this [of Local] have "tip (d_local (lc_chains lc)) = tail (d_local (lc_chains lc))"
    using assms(3) by (cases "d_local (lc_chains lc)") (auto simp: hasUnackedCommitment_def tip_def tail_def)
  then show ?thesis
    by (simp add: oweCommitment_def numPendingUpdates_def isLocal_def fr mi)
qed

theorem sign_pays_debt_witness:
  "oweCommitment demo_added Local \<and> \<not> oweCommitment demo_signed Local"
proof
  show "oweCommitment demo_added Local"
    by (simp add: oweCommitment_def isLocal_def demo_added demo_log_def tip_def demo_commitment_def)
  obtain d where "signNextCommitment demo_env demo_added = (demo_signed, Inr d)" using demo_sign(1) by blast
  then show "\<not> oweCommitment demo_signed Local"
    using sign_pays_debt [OF demo_opened demo_run(1)] by (simp add: hasUnackedCommitment_def demo_added)
qed

text \<open>
  A dry run foretells: if the sanity check's view computation succeeds, the computation that
  updates the state, started from the heap the dry run left, returns the same balances, weight and
  HTLCs.
\<close>

theorem dry_run_foretells:
  assumes "computeView lc view w False None = (lc1, Inr res)"
  shows "snd (computeView lc1 view w True None) = Inr res"
proof -
  obtain g where g: "lc1 = lc\<lparr>lc_heap := g\<rparr>" "noop_ext (lc_heap lc) g"
    using computeView_dry [OF assms] by (auto simp: dry_def)
  obtain lc2 r where "computeView (lc\<lparr>lc_heap := g\<rparr>) view w True None = (lc2, r)" by fastforce
  from computeView_dry_agrees [OF g(2) assms this] this show ?thesis by (simp add: g(1))
qed

theorem dry_run_foretells_witness:
  "snd (computeView demo_added (fetchHTLCView demo_added 0 1) Remote True None)
     = Inr (8950000000, 1000000000, 896, demo_view)"
  by (rule dry_run_foretells [OF demo_compute(1)])

section \<open>Checks and resolutions\<close>

lemma validateUpdates_loop_ok:
  "validateUpdates_loop h cfg es num amt = Inr (num', amt') \<Longrightarrow>
     num' = num + of_nat (length (filter (\<lambda>e. isAdd (h e)) es)) \<and>
     amt' = amt + amounts h (filter (\<lambda>e. isAdd (h e)) es) \<and>
     (\<forall>e \<in> set es. isAdd (h e) \<longrightarrow> pd_amount (h e) \<noteq> 0 \<and> cc_minHTLC cfg \<le> pd_amount (h e))"
proof (induction h cfg es num amt rule: validateUpdates_loop.induct)
  case (1 h cfg num amt)
  then show ?case by simp
next
  case (2 h cfg e es num amt)
  show ?case
  proof (cases "isAdd (h e)")
    case True
    have ok: "pd_amount (h e) \<noteq> 0" "\<not> pd_amount (h e) < cc_minHTLC cfg"
      using "2.prems" True by (auto split: if_splits)
    have "validateUpdates_loop h cfg es (num + 1) (amt + pd_amount (h e)) = Inr (num', amt')"
      using "2.prems" True ok by simp
    from "2.IH"(1) [OF True ok this] show ?thesis using True ok by (simp add: not_less add.assoc)
  next
    case False
    then show ?thesis using "2.IH"(2) [OF False] "2.prems" by simp
  qed
qed

lemma applyCommitFee_cong:
  "lc_isInitiator lc' = lc_isInitiator lc \<Longrightarrow> applyCommitFee lc' bal wt f b = applyCommitFee lc bal wt f b"
  by (cases b) (simp_all add: applyCommitFee_def Let_def)

lemma validateUpdates_ok:
  assumes "validateUpdates h es cfg = None"
  shows "of_nat (length (filter (\<lambda>e. isAdd (h e)) es)) \<le> cc_maxAcceptedHtlcs cfg"
    "amounts h (filter (\<lambda>e. isAdd (h e)) es) \<le> cc_maxPendingAmount cfg"
    "\<forall>e \<in> set es. isAdd (h e) \<longrightarrow> pd_amount (h e) \<noteq> 0 \<and> cc_minHTLC cfg \<le> pd_amount (h e)"
proof -
  obtain n a where "validateUpdates_loop h cfg es 0 0 = Inr (n, a)"
    using assms by (auto simp: validateUpdates_def split: sum.splits)
  then show "of_nat (length (filter (\<lambda>e. isAdd (h e)) es)) \<le> cc_maxAcceptedHtlcs cfg"
    "amounts h (filter (\<lambda>e. isAdd (h e)) es) \<le> cc_maxPendingAmount cfg"
    "\<forall>e \<in> set es. isAdd (h e) \<longrightarrow> pd_amount (h e) \<noteq> 0 \<and> cc_minHTLC cfg \<le> pd_amount (h e)"
    using assms validateUpdates_loop_ok [of h cfg es 0 0 n a]
    by (auto simp: validateUpdates_def not_less split: if_splits)
qed

lemma evaluateHTLCView_adds:
  assumes "evaluateHTLCView lc view w nh = (h', Inr (fv, unc, deltas))"
    and "e \<in> set (getForParty (hv_updates fv) p)"
  shows "isAdd (h' e)"
proof -
  obtain s1 s2 where "hv_updates fv = mkDual (liveAdds h' s1 (d_local (hv_updates view))) (liveAdds h' s2 (d_remote (hv_updates view)))"
    using assms(1) by (auto simp: evaluateHTLCView_def Let_def split: prod.splits sum.splits)
  then show ?thesis using assms(2) by (cases p) (simp_all add: liveAdds_def)
qed

lemma computeView_adds:
  assumes "computeView lc view w False d = (lc', Inr (our, their, wt, fv))"
    and "e \<in> set (getForParty (hv_updates fv) p)"
  shows "isAdd (lc_heap lc' e)"
  using assms(1)
proof (cases rule: computeView_cases)
  case (evaluated h' fv' unc deltas)
  then show ?thesis using evaluateHTLCView_adds [OF evaluated(1)] assms(2) by auto
qed simp

text \<open>
  C37: a commitment that passes the sanity check obeys the channel's constraints: the fee rate is at
  least the floor, the opener can pay the commitment fee and neither party's balance falls below
  its reserve unless it did not decrease, no HTLC is below the minimum or empty, and the number and
  the sum of each side's HTLCs, as the code counts them, stay within the limits.
\<close>

theorem sanity_enforces_constraints:
  assumes "validateCommitmentSanity lc rl ol w b p q = (lc', None)"
  shows "\<exists>our their wt fv our' their'.
     snd (computeView lc (predictView (fetchHTLCView lc rl ol) p q) w False None) = Inr (our, their, wt, fv) \<and>
     feePerKwFloor \<le> hv_feePerKw fv \<and>
     (if lc_isInitiator lc then their' = their \<and> (\<exists>x. applyCommitFee lc our wt (hv_feePerKw fv) b = Inr (our', x))
      else our' = our \<and> (\<exists>x. applyCommitFee lc their wt (hv_feePerKw fv) NoBuffer = Inr (their', x))) \<and>
     (our' < cm_ourBalance (tip (chainOf lc w)) \<longrightarrow> newMSatFromSatoshis (cc_chanReserve (lc_localCfg lc)) \<le> our') \<and>
     (their' < cm_theirBalance (tip (chainOf lc w)) \<longrightarrow> newMSatFromSatoshis (cc_chanReserve (lc_remoteCfg lc)) \<le> their') \<and>
     (\<forall>party. let es = getForParty (hv_updates fv) party; cfg = cfgOf lc party in
        of_nat (length es) \<le> cc_maxAcceptedHtlcs cfg \<and>
        amounts (lc_heap lc) es \<le> cc_maxPendingAmount cfg \<and>
        (\<forall>e \<in> set es. pd_amount (lc_heap lc e) \<noteq> 0 \<and> cc_minHTLC cfg \<le> pd_amount (lc_heap lc e)))"
proof -
  let ?view = "predictView (fetchHTLCView lc rl ol) p q"
  obtain our their wt fv where cv: "computeView lc ?view w False None = (lc', Inr (our, their, wt, fv))"
    and san: "sanityOfView lc' (tip (chainOf lc w)) b our their wt fv = None"
    using assms by (auto simp: validateCommitmentSanity_def Let_def split: prod.splits sum.splits)
  have d: "dry lc lc'" by (rule computeView_dry [OF cv])
  obtain g where g: "lc' = lc\<lparr>lc_heap := g\<rparr>" "noop_ext (lc_heap lc) g" using d by (auto simp: dry_def)
  note ne = noop_ext_fields [OF g(2)]
  have live: "filter (\<lambda>e. isAdd (lc_heap lc' e)) (getForParty (hv_updates fv) party) = getForParty (hv_updates fv) party" for party
    using computeView_adds [OF cv] by (simp add: filter_id_conv)
  have add: "isAdd (lc_heap lc' e)" if "e \<in> set (getForParty (hv_updates fv) party)" for e party
    using computeView_adds [OF cv that] .
  have amt: "pd_amount (lc_heap lc' e) = pd_amount (lc_heap lc e)" for e by (simp add: g(1) ne)
  have amts: "amounts (lc_heap lc') es = amounts (lc_heap lc) es" for es
    using noop_ext_amounts [OF g(2)] by (simp add: g(1))
  have same: "lc_localCfg lc' = lc_localCfg lc" "lc_remoteCfg lc' = lc_remoteCfg lc"
    "lc_isInitiator lc' = lc_isInitiator lc" by (simp_all add: g(1))
  have acf: "applyCommitFee lc' = applyCommitFee lc"
    by (intro ext applyCommitFee_cong) (rule same(3))
  obtain nb x where fee: "(if lc_isInitiator lc then applyCommitFee lc our wt (hv_feePerKw fv) b
      else applyCommitFee lc their wt (hv_feePerKw fv) NoBuffer) = Inr (nb, x)"
    using san by (auto simp: sanityOfView_def Let_def same acf split: if_splits sum.splits)
  let ?our = "if lc_isInitiator lc then nb else our" and ?their = "if lc_isInitiator lc then their else nb"
  have rest: "feePerKwFloor \<le> hv_feePerKw fv"
    "?our < cm_ourBalance (tip (chainOf lc w)) \<longrightarrow> newMSatFromSatoshis (cc_chanReserve (lc_localCfg lc)) \<le> ?our"
    "?their < cm_theirBalance (tip (chainOf lc w)) \<longrightarrow> newMSatFromSatoshis (cc_chanReserve (lc_remoteCfg lc)) \<le> ?their"
    "validateUpdates (lc_heap lc') (d_remote (hv_updates fv)) (lc_remoteCfg lc) = None"
    "validateUpdates (lc_heap lc') (d_local (hv_updates fv)) (lc_localCfg lc) = None"
    using san fee by (auto simp: sanityOfView_def Let_def same acf not_less split: if_splits option.splits prod.splits)
  have ups: "let es = getForParty (hv_updates fv) party; cfg = cfgOf lc party in
        of_nat (length es) \<le> cc_maxAcceptedHtlcs cfg \<and>
        amounts (lc_heap lc) es \<le> cc_maxPendingAmount cfg \<and>
        (\<forall>e \<in> set es. pd_amount (lc_heap lc e) \<noteq> 0 \<and> cc_minHTLC cfg \<le> pd_amount (lc_heap lc e))" for party
  proof (cases party)
    case Local
    then show ?thesis
      using validateUpdates_ok [OF rest(5)] live [of Local] add [of _ Local] by (simp add: Let_def cfgOf_def amt amts)
  next
    case Remote
    then show ?thesis
      using validateUpdates_ok [OF rest(4)] live [of Remote] add [of _ Remote] by (simp add: Let_def cfgOf_def amt amts)
  qed
  have pay: "if lc_isInitiator lc then ?their = their \<and> (\<exists>x. applyCommitFee lc our wt (hv_feePerKw fv) b = Inr (?our, x))
      else ?our = our \<and> (\<exists>x. applyCommitFee lc their wt (hv_feePerKw fv) NoBuffer = Inr (?their, x))"
    using fee by (simp split: if_splits)
  have "snd (computeView lc ?view w False None) = Inr (our, their, wt, fv)" using cv by simp
  then show ?thesis using rest(1-3) pay ups by blast
qed

theorem sanity_enforces_constraints_witness:
  "\<exists>our their wt fv. snd (computeView demo_added (predictView (fetchHTLCView demo_added 0 1) None None) Remote False None)
     = Inr (our, their, wt, fv) \<and> feePerKwFloor \<le> hv_feePerKw fv"
  using sanity_enforces_constraints [OF demo_sanity] by blast

lemma resolveHTLC_modified:
  "htlcHasModification (logOf lc (counterParty p)) i \<Longrightarrow> snd (resolveHTLC lc p i already mk) \<noteq> None"
  by (simp add: resolveHTLC_def Let_def split: option.split)

text \<open>
  \<open>SettleHTLC\<close> accepts exactly the preimage of the payment hash of an incoming HTLC that is in the
  remote log and not resolved yet. It then appends one settle of the HTLC's amount to our log and
  marks the HTLC, so that a second settle or fail of it is refused; otherwise it changes nothing.
\<close>

theorem settle_needs_preimage:
  "case SettleHTLC lc pre i sr dr ck of (lc', r) \<Rightarrow>
     (r = None \<longleftrightarrow> (\<exists>a. lookupHtlc (logOf lc Remote) i = Some a \<and> \<not> htlcHasModification (logOf lc Remote) i \<and>
        sha256 pre = pd_rHash (lc_heap lc a))) \<and>
     (r \<noteq> None \<longrightarrow> lc' = lc) \<and>
     (r = None \<longrightarrow> (\<exists>a pd. lookupHtlc (logOf lc Remote) i = Some a \<and>
        pd_entryType pd = Settle \<and> pd_parentIndex pd = i \<and> pd_amount pd = pd_amount (lc_heap lc a) \<and>
        pd_rPreimage pd = pre \<and> pd_logIndex pd = ul_logIndex (logOf lc Local) \<and>
        lc_heap lc' = (lc_heap lc)(lc_next lc := pd) \<and>
        ul_list (logOf lc' Local) = ul_list (logOf lc Local) @ [lc_next lc] \<and>
        htlcHasModification (logOf lc' Remote) i \<and>
        snd (SettleHTLC lc' pre' i sr' dr' ck') \<noteq> None \<and> snd (FailHTLC lc' i reason sr' dr' ck') \<noteq> None))"
proof (cases "lookupHtlc (logOf lc Remote) i")
  case None
  then show ?thesis by (simp add: SettleHTLC_def resolveHTLC_def)
next
  case (Some a)
  show ?thesis
  proof (cases "htlcHasModification (logOf lc Remote) i \<or> sha256 pre \<noteq> pd_rHash (lc_heap lc a)")
    case True
    then show ?thesis using Some by (auto simp: SettleHTLC_def resolveHTLC_def)
  next
    case False
    define pd where "pd = zeroDescriptor\<lparr>pd_chanID := lc_channelID lc, pd_amount := pd_amount (lc_heap lc a),
        pd_rPreimage := pre, pd_logIndex := ul_logIndex (d_local (lc_logs lc)), pd_parentIndex := i,
        pd_entryType := Settle, pd_sourceRef := sr, pd_destRef := dr, pd_closedCircuitKey := ck\<rparr>"
    have fields: "pd_entryType pd = Settle" "pd_parentIndex pd = i" "pd_amount pd = pd_amount (lc_heap lc a)"
      "pd_rPreimage pd = pre" "pd_logIndex pd = ul_logIndex (logOf lc Local)"
      by (simp_all add: pd_def)
    define lc' where "lc' = markParent (pushLog (allocate lc pd) Local appendUpdate) Remote i"
    have op: "SettleHTLC lc pre i sr dr ck = (lc', None)"
      using False Some by (simp add: SettleHTLC_def resolveHTLC_def Let_def pd_def lc'_def)
    have mod: "htlcHasModification (logOf lc' Remote) i"
      by (simp add: lc'_def markParent_def modifyForParty_def htlcHasModification_def markHtlcModified_def allocate_def)
    have "lc_heap lc' = (lc_heap lc)(lc_next lc := pd)"
      "ul_list (logOf lc' Local) = ul_list (logOf lc Local) @ [lc_next lc]"
      by (simp_all add: lc'_def markParent_def allocate_def)
    moreover have "snd (SettleHTLC lc' pre' i sr' dr' ck') \<noteq> None" "snd (FailHTLC lc' i reason sr' dr' ck') \<noteq> None"
      using resolveHTLC_modified [of lc' Local i] mod by (simp_all add: SettleHTLC_def FailHTLC_def)
    ultimately show ?thesis unfolding op prod.case using Some False fields mod by blast
  qed
qed

definition demo_incoming :: channel where
  "demo_incoming = demo_channel\<lparr>lc_heap := (\<lambda>a. zeroDescriptor\<lparr>pd_rHash := sha256 [7], pd_amount := 5000\<rparr>),
     lc_next := 1, lc_logs := mkDual (newUpdateLog 0 0) (appendHtlc (newUpdateLog 0 0) 0)\<rparr>"

theorem settle_needs_preimage_witness:
  "snd (SettleHTLC demo_incoming [7] 0 None None None) = None \<and>
   snd (SettleHTLC (fst (SettleHTLC demo_incoming [7] 0 None None None)) [7] 0 None None None) \<noteq> None"
proof -
  obtain lc' r where op: "SettleHTLC demo_incoming [7] 0 None None None = (lc', r)" by fastforce
  have "lookupHtlc (logOf demo_incoming Remote) 0 = Some 0" "\<not> htlcHasModification (logOf demo_incoming Remote) 0"
    "sha256 [7] = pd_rHash (lc_heap demo_incoming 0)"
    by (simp_all add: demo_incoming_def appendHtlc_def newUpdateLog_def lookupHtlc_def htlcHasModification_def)
  then show ?thesis
    using settle_needs_preimage [where lc = demo_incoming and pre = "[7]" and i = 0 and sr = None and dr = None and ck = None
        and pre' = "[7]" and sr' = None and dr' = None and ck' = None]
    by (auto simp: op)
qed

section \<open>Revocations\<close>

text \<open>
  C1: revoking the local commitment succeeds whenever there is a newer one, and is safe: the secret
  revealed is the one of the height that leaves the chain, that height is below the new tail's, and
  the new tail is the local commitment stored on disk.
\<close>

theorem revocation_is_safe:
  assumes "disk_inv lc" and "lc_producer lc = newRevocationProducer root" "length root = 32"
    and "unat (lc_currentHeight lc) + 2 < 2 ^ 48" and "hasUnackedCommitment (chainOf lc Local)"
    and "\<not> db_frozen (lc_db lc)"
  shows "\<exists>lc' msg htlcs final. revokeCurrentCommitment env lc = (lc', Inr (msg, htlcs, final)) \<and>
     rv_revocation msg = secret sha256 root (unat (cm_height (tail (chainOf lc Local)))) \<and>
     rv_nextRevocationKey msg = te_commitPoint env (secret sha256 root (unat (cm_height (tail (chainOf lc Local))) + 2)) \<and>
     chainOf lc' Local = tl (chainOf lc Local) \<and>
     unat (cm_height (tail (chainOf lc' Local))) = unat (cm_height (tail (chainOf lc Local))) + 1 \<and>
     lc_localCommitment lc' = toDiskCommit (tail (chainOf lc' Local))"
proof -
  let ?h = "lc_currentHeight lc"
  have h: "?h = cm_height (tail (chainOf lc Local))" using assms(1) by (simp add: disk_inv_alt)
  have "heights_ok (chainOf lc w)" for w using assms(1) by (simp add: disk_inv_alt)
  from this [of Local] have ok: "heights_ok (chainOf lc Local)" .
  have two: "tl (chainOf lc Local) \<noteq> []"
    using assms(5) by (cases "chainOf lc Local" rule: remdups_adj.cases) (auto simp: hasUnackedCommitment_def)
  have nat: "unat (?h + 1) = unat ?h + 1" "unat (?h + 2) = unat ?h + 2"
  proof -
    show "unat (?h + 1) = unat ?h + 1" using assms(4) by (intro unat_plus1_neq) (auto simp: unsigned_minus_1_eq_mask mask_eq_exp_minus_1)
    then have "unat (?h + 1 + 1) = unat (?h + 1) + 1"
      using assms(4) by (intro unat_plus1_neq) (auto simp: word_eq_unat unsigned_minus_1_eq_mask mask_eq_exp_minus_1)
    then show "unat (?h + 2) = unat ?h + 2" using \<open>unat (?h + 1) = unat ?h + 1\<close> by (simp add: add.assoc)
  qed
  have at: "atIndex sha256 (lc_producer lc) ?h = Inr (secret sha256 root (unat ?h))"
    "atIndex sha256 (lc_producer lc) (?h + 2) = Inr (secret sha256 root (unat ?h + 2))"
    using atIndex_secret [of sha256 root ?h] atIndex_secret [of sha256 root "?h + 2"] assms(2-4) nat(2)
    by (simp_all add: top_index_def)
  let ?msg = "\<lparr>rv_revocation = secret sha256 root (unat ?h),
      rv_nextRevocationKey = te_commitPoint env (secret sha256 root (unat ?h + 2))\<rparr>"
  have gen: "generateRevocation env lc ?h = Inr ?msg" by (simp add: generateRevocation_def at)
  let ?lc1 = "(dropTail lc Local)\<lparr>lc_currentHeight := ?h + 1\<rparr>"
  let ?c = "toDiskCommit (tail (tl (chainOf lc Local)))"
  have ch: "d_local (lc_chains ?lc1) = tl (chainOf lc Local)"
    by (simp add: modifyForParty_def advanceTail_def)
  obtain db final where u: "updateCommitment (lc_db ?lc1) ?c (getUnsignedAckedUpdates ?lc1) = Some (db, final)"
    using assms(6) by (cases "db_remoteUnsignedLocalUpdates (lc_db lc)") (auto simp: updateCommitment_def Let_def)
  let ?lc' = "?lc1\<lparr>lc_db := db, lc_localCommitment := ?c\<rparr>"
  have op: "revokeCurrentCommitment env lc = (?lc', Inr (?msg, dc_htlcs ?c, final))"
    using gen ch two u by (simp add: revokeCurrentCommitment_def Let_def)
  have "chainOf ?lc' Local = tl (chainOf lc Local)" using ch by simp
  moreover have "cm_height (tail (tl (chainOf lc Local))) = ?h + 1"
    using heights_ok_drop(2) [OF ok two] h by simp
  moreover have "lc_localCommitment ?lc' = ?c" by simp
  ultimately show ?thesis using op nat(1) h by (intro exI [of _ ?lc'] exI [of _ ?msg]) auto
qed

definition demo_two :: channel where
  "demo_two = demo_channel\<lparr>lc_chains := mkDual
     [demo_commitment Local, (demo_commitment Local)\<lparr>cm_height := 1\<rparr>] [demo_commitment Remote]\<rparr>"

theorem revocation_is_safe_witness:
  "\<exists>lc' msg htlcs final. revokeCurrentCommitment demo_env demo_two = (lc', Inr (msg, htlcs, final)) \<and>
     rv_revocation msg = secret sha256 (replicate 32 2) 0"
proof -
  have "disk_inv demo_two"
    by (simp add: disk_inv_alt all_parties heights_ok_def demo_two_def demo_channel_def demo_commitment_def tail_def
        less_Suc_eq)
  from revocation_is_safe [OF this, of "replicate 32 2" demo_env] show ?thesis
    by (auto simp: demo_two_def demo_channel_def demo_commitment_def hasUnackedCommitment_def tail_def)
qed

text \<open>What the loop of \<open>ReceiveRevocation\<close> collects and flags.\<close>

definition fwdAdd :: "u64 \<Rightarrow> u64 \<Rightarrow> paymentDescriptor \<Rightarrow> bool" where
  "fwdAdd rt lt pd \<longleftrightarrow> \<not> pd_isForwarded pd \<and> freshAdd rt lt pd"

definition fwdRmv :: "u64 \<Rightarrow> u64 \<Rightarrow> paymentDescriptor \<Rightarrow> bool" where
  "fwdRmv rt lt pd \<longleftrightarrow> \<not> pd_isForwarded pd \<and> isResolution pd \<and> freshRmv rt lt pd"

lemma toLogUpdate_refs [simp]:
  "toLogUpdate (pd\<lparr>pd_sourceRef := s, pd_isForwarded := f\<rparr>) = toLogUpdate pd"
  "toLogUpdate (pd\<lparr>pd_destRef := d, pd_isForwarded := f\<rparr>) = toLogUpdate pd"
  by (simp_all add: toLogUpdate_def cong: updateType.case_cong)

lemma forwardLoop_spec:
  assumes "forwardLoop source rt lt es h i j as ss = (h', as', ss')" "distinct es"
  shows "as' = as @ map (\<lambda>e. toLogUpdate (h e)) (filter (\<lambda>e. fwdAdd rt lt (h e)) es) \<and>
    ss' = ss @ map (\<lambda>e. toLogUpdate (h e)) (filter (\<lambda>e. fwdRmv rt lt (h e)) es) \<and>
    (\<forall>e. pd_isForwarded (h' e) \<longleftrightarrow> pd_isForwarded (h e) \<or> e \<in> set es \<and> (fwdAdd rt lt (h e) \<or> fwdRmv rt lt (h e)))"
  using assms
proof (induction source rt lt es h i j as ss rule: forwardLoop.induct)
  case (1 source rt lt h i j as ss)
  then show ?case by simp
next
  case (2 source rt lt e es h i j as ss)
  have d: "distinct es" "e \<notin> set es" using "2.prems"(2) by auto
  have other: "filter (\<lambda>x. P ((h(e := pd)) x)) es = filter (\<lambda>x. P (h x)) es"
    "map (\<lambda>x. toLogUpdate ((h(e := pd)) x)) (filter Q es) = map (\<lambda>x. toLogUpdate (h x)) (filter Q es)" for P Q pd
    using d(2) by (auto intro!: filter_cong)
  consider (skip) "pd_entryType (h e) = FeeUpdate \<or> pd_isForwarded (h e)"
    | (add) "\<not> (pd_entryType (h e) = FeeUpdate \<or> pd_isForwarded (h e))" "freshAdd rt lt (h e)"
    | (rmv) "\<not> (pd_entryType (h e) = FeeUpdate \<or> pd_isForwarded (h e))" "\<not> freshAdd rt lt (h e)" "freshRmv rt lt (h e)"
    | (none) "\<not> (pd_entryType (h e) = FeeUpdate \<or> pd_isForwarded (h e))" "\<not> freshAdd rt lt (h e)" "\<not> freshRmv rt lt (h e)"
    by blast
  then show ?case
  proof cases
    case skip
    then have "\<not> fwdAdd rt lt (h e)" "\<not> fwdRmv rt lt (h e)"
      using fee_no_resolution by (auto simp: fwdAdd_def fwdRmv_def freshAdd_def)
    then show ?thesis using "2.IH"(1) [OF refl skip] "2.prems" skip by auto
  next
    case add
    then have k: "fwdAdd rt lt (h e)" "\<not> fwdRmv rt lt (h e)"
      by (auto simp: fwdAdd_def fwdRmv_def freshAdd_def freshRmv_def)
    define pd where "pd = (h e)\<lparr>pd_sourceRef := Some \<lparr>ar_height = rt, ar_index = i\<rparr>, pd_isForwarded := True\<rparr>"
    have pd: "toLogUpdate pd = toLogUpdate (h e)" "pd_isForwarded pd" by (simp_all add: pd_def)
    have "forwardLoop source rt lt es (h(e := pd)) (i + 1) j (as @ [toLogUpdate pd]) ss = (h', as', ss')"
      using "2.prems" add by (simp add: Let_def pd_def)
    from "2.IH"(2) [OF refl add pd_def this d(1)]
    have ih: "as' = (as @ [toLogUpdate pd]) @ map (\<lambda>e. toLogUpdate (h e)) (filter (\<lambda>e. fwdAdd rt lt (h e)) es)"
      "ss' = ss @ map (\<lambda>e. toLogUpdate (h e)) (filter (\<lambda>e. fwdRmv rt lt (h e)) es)"
      "\<forall>e'. pd_isForwarded (h' e') \<longleftrightarrow> pd_isForwarded ((h(e := pd)) e') \<or>
         e' \<in> set es \<and> (fwdAdd rt lt ((h(e := pd)) e') \<or> fwdRmv rt lt ((h(e := pd)) e'))"
      unfolding other by blast+
    have "pd_isForwarded (h' e') \<longleftrightarrow> pd_isForwarded (h e') \<or> e' \<in> set (e # es) \<and> (fwdAdd rt lt (h e') \<or> fwdRmv rt lt (h e'))" for e'
      using ih(3) [rule_format, of e'] k pd(2) d(2) by (cases "e' = e") simp_all
    then show ?thesis using ih(1,2) k pd(1) by simp
  next
    case rmv
    have r: "isResolution (h e)"
      using rmv by (auto intro: not_add_kinds simp: freshRmv_def)
    then have k: "fwdRmv rt lt (h e)" "\<not> fwdAdd rt lt (h e)"
      using rmv by (auto simp: fwdAdd_def fwdRmv_def)
    define pd where "pd = (h e)\<lparr>pd_destRef := Some \<lparr>sr_source = source, sr_height = rt, sr_index = j\<rparr>, pd_isForwarded := True\<rparr>"
    have pd: "toLogUpdate pd = toLogUpdate (h e)" "pd_isForwarded pd" by (simp_all add: pd_def)
    have "forwardLoop source rt lt es (h(e := pd)) i (j + 1) as (ss @ [toLogUpdate pd]) = (h', as', ss')"
      using "2.prems" rmv by (simp add: Let_def pd_def)
    from "2.IH"(3) [OF refl rmv pd_def this d(1)]
    have ih: "as' = as @ map (\<lambda>e. toLogUpdate (h e)) (filter (\<lambda>e. fwdAdd rt lt (h e)) es)"
      "ss' = (ss @ [toLogUpdate pd]) @ map (\<lambda>e. toLogUpdate (h e)) (filter (\<lambda>e. fwdRmv rt lt (h e)) es)"
      "\<forall>e'. pd_isForwarded (h' e') \<longleftrightarrow> pd_isForwarded ((h(e := pd)) e') \<or>
         e' \<in> set es \<and> (fwdAdd rt lt ((h(e := pd)) e') \<or> fwdRmv rt lt ((h(e := pd)) e'))"
      unfolding other by blast+
    have "pd_isForwarded (h' e') \<longleftrightarrow> pd_isForwarded (h e') \<or> e' \<in> set (e # es) \<and> (fwdAdd rt lt (h e') \<or> fwdRmv rt lt (h e'))" for e'
      using ih(3) [rule_format, of e'] k pd(2) d(2) by (cases "e' = e") simp_all
    then show ?thesis using ih(1,2) k pd(1) by simp
  next
    case none
    then have "\<not> fwdAdd rt lt (h e)" "\<not> fwdRmv rt lt (h e)" by (auto simp: fwdAdd_def fwdRmv_def)
    then show ?thesis using "2.IH"(4) [OF refl none] "2.prems" none by auto
  qed
qed

end
