(* ===== verification/Channel_Messages.thy ===== *)
theory Channel_Messages
  imports Channel_Run
begin

text \<open>
  What the messages of the commitment dance carry: the diff that is stored with a signature, and the
  forwarding package that a revocation of the peer produces.
\<close>

section \<open>What a signature records and what a revocation forwards\<close>

lemma in_map_filter: "k \<in> set (List.map_filter f xs) \<longleftrightarrow> (\<exists>x \<in> set xs. f x = Some k)"
  by (induction xs) (auto simp: List.map_filter_simps split: option.splits)

lemma toLogUpdate_marks [simp]:
  "toLogUpdate (setCommitHeight w nh pd) = toLogUpdate pd"
  "toLogUpdate (pd\<lparr>pd_noOpSettle := True\<rparr>) = toLogUpdate pd"
  by (cases "pd_entryType pd"; simp add: toLogUpdate_def setCommitHeight_def)+

lemma setCommitHeight_keys [simp]:
  "pd_openCircuitKey (setCommitHeight w nh pd) = pd_openCircuitKey pd"
  "pd_closedCircuitKey (setCommitHeight w nh pd) = pd_closedCircuitKey pd"
  "pd_sourceRef (setCommitHeight w nh pd) = pd_sourceRef pd"
  "pd_destRef (setCommitHeight w nh pd) = pd_destRef pd"
  by (simp_all add: setCommitHeight_def split: updateType.splits)

text \<open>Equal but for commitment heights and the \<open>noOpSettle\<close> flag.\<close>

definition same_update :: "paymentDescriptor \<Rightarrow> paymentDescriptor \<Rightarrow> bool" where
  "same_update x y \<longleftrightarrow> toLogUpdate x = toLogUpdate y \<and> pd_entryType x = pd_entryType y \<and>
     pd_openCircuitKey x = pd_openCircuitKey y \<and> pd_closedCircuitKey x = pd_closedCircuitKey y \<and>
     pd_sourceRef x = pd_sourceRef y \<and> pd_destRef x = pd_destRef y"

lemma noop_same_update: "noop_ext h h' \<Longrightarrow> same_update (h a) (h' a)"
  by (auto simp: noop_ext_def same_update_def dest!: spec [of _ a])

lemma same_update_trans: "same_update x y \<Longrightarrow> same_update y z \<Longrightarrow> same_update x z"
  by (simp add: same_update_def)

lemma setCommitHeight_same_update: "same_update pd (setCommitHeight w nh pd)"
  by (simp add: same_update_def)

lemma setCommitHeight_newest:
  "getForParty (pd_addHeights (setCommitHeight w nh pd)) w = nh \<or> getForParty (pd_rmvHeights (setCommitHeight w nh pd)) w = nh"
  by (cases w; cases "pd_entryType pd"; simp add: setCommitHeight_def)

text \<open>The heap a view computation leaves, entry by entry.\<close>

lemma computeView_heap:
  assumes wf: "logs_wf (lc_heap lc) n (lc_logs lc)"
    and cov: "covers (lc_heap lc) (lc_logs lc) w (hv_updates view)"
    and cv: "computeView lc view w True dd = (lc', Inr x)"
  shows "same_update (lc_heap lc a) (lc_heap lc' a)"
    and "a \<in> set (getForParty (hv_updates view) p) \<Longrightarrow> isUncommitted (lc_heap lc) w a \<Longrightarrow>
      getForParty (pd_addHeights (lc_heap lc' a)) w = cm_height (tip (getForParty (lc_chains lc) w)) + 1 \<or>
      getForParty (pd_rmvHeights (lc_heap lc' a)) w = cm_height (tip (getForParty (lc_chains lc) w)) + 1"
proof -
  let ?t = "tip (getForParty (lc_chains lc) w)"
  let ?us = "hv_updates view"
  obtain h' fv unc deltas where
    ev: "evaluateHTLCView lc (view\<lparr>hv_feePerKw := cm_feePerKw ?t, hv_nextHeight := cm_height ?t + 1\<rparr>) w
        (cm_height ?t + 1) = (h', Inr (fv, unc, deltas))"
    and lk: "lc' = lockIn w (cm_height ?t + 1) Remote (d_remote unc)
         (lockIn w (cm_height ?t + 1) Local (d_local unc) (lc\<lparr>lc_heap := h'\<rparr>))"
    using cv by (cases rule: computeView_cases) auto
  note ne = evaluateHTLCView_noop [OF ev]
  have unc: "getForParty unc p = filter (isUncommitted (lc_heap lc) w) (getForParty ?us p)" for p
    using evaluateHTLCView_spec(3) [OF wf ev] by simp
  have un: "d_local unc = filter (isUncommitted (lc_heap lc) w) (d_local ?us)"
    "d_remote unc = filter (isUncommitted (lc_heap lc) w) (d_remote ?us)"
    using unc [of Local] unc [of Remote] by simp_all
  have d: "distinct (getForParty ?us p)" "set (getForParty ?us p) \<subseteq> set (ul_list (getForParty (lc_logs lc) p))" for p
    using cov by (auto simp: covers_def)
  have disj: "set (d_local ?us) \<inter> set (d_remote ?us) = {}"
    using d(2) [of Local] d(2) [of Remote] logs_wf_disjoint [OF wf, of Local] by auto
  have dunc: "distinct (d_local unc)" "distinct (d_remote unc)" "set (d_local unc) \<inter> set (d_remote unc) = {}"
    using d(1) [of Local] d(1) [of Remote] disj by (auto simp: un)
  have heap: "lc_heap lc' a = (if a \<in> set (d_local unc) \<union> set (d_remote unc)
        then setCommitHeight w (cm_height ?t + 1) (h' a) else h' a)" for a
    using lockIn_both [OF lk dunc, of a] by simp
  have "same_update (h' a) (lc_heap lc' a)"
    by (simp add: heap setCommitHeight_same_update) (simp add: same_update_def)
  then show "same_update (lc_heap lc a) (lc_heap lc' a)"
    using noop_same_update [OF ne, of a] same_update_trans by blast
  assume a: "a \<in> set (getForParty ?us p)" "isUncommitted (lc_heap lc) w a"
  then have "a \<in> set (d_local unc) \<union> set (d_remote unc)" by (cases p) (simp_all add: un)
  then show "getForParty (pd_addHeights (lc_heap lc' a)) w = cm_height ?t + 1 \<or>
      getForParty (pd_rmvHeights (lc_heap lc' a)) w = cm_height ?t + 1"
    using setCommitHeight_newest by (simp add: heap)
qed

text \<open>
  C34: the diff stored with a signature is what has to be sent again after a reconnection: every
  update of our log that was not on the remote chain is in it, with the circuit it opens (for an
  \<open>Add\<close>) or closes, and the references it acknowledges. The circuits recorded as opened are those of
  \<open>Add\<close> entries only: a \<open>NoOpAdd\<close> is signed for without its circuit.
\<close>

theorem sign_records_new_updates:
  assumes "(chan_step env)\<^sup>*\<^sup>* lc0 lc" "opened v lc0" "height_room lc Remote"
    and "signNextCommitment env lc = (lc', Inr d)"
  shows "(\<forall>e \<in> set (ul_list (logOf lc Local)). isUncommitted (lc_heap lc) Remote e \<longrightarrow>
       toLogUpdate (lc_heap lc e) \<in> set (cd_logUpdates d) \<and>
       (pd_entryType (lc_heap lc e) = Add \<longrightarrow> set_option (pd_openCircuitKey (lc_heap lc e)) \<subseteq> set (cd_openedCircuitKeys d)) \<and>
       (isResolution (lc_heap lc e) \<longrightarrow>
          set_option (pd_closedCircuitKey (lc_heap lc e)) \<subseteq> set (cd_closedCircuitKeys d) \<and>
          set_option (pd_sourceRef (lc_heap lc e)) \<subseteq> set (cd_addAcks d) \<and>
          set_option (pd_destRef (lc_heap lc e)) \<subseteq> set (cd_settleFailAcks d))) \<and>
     (\<forall>k \<in> set (cd_openedCircuitKeys d). \<exists>e \<in> set (ul_list (logOf lc Local)).
        pd_entryType (lc_heap lc e) = Add \<and> pd_openCircuitKey (lc_heap lc e) = Some k)"
proof -
  note inv = chan_run_inv [OF assms(1,2)]
  obtain lc1 lc2 c db where s:
    "validateCommitmentSanity lc (msgIndex (tail (chainOf lc Local)) Remote) (ul_logIndex (logOf lc Local))
       Remote NoBuffer None None = (lc1, None)"
    "fetchCommitmentView env lc1 Remote (ul_logIndex (logOf lc Local)) (ul_htlcCounter (logOf lc Local))
       (msgIndex (tail (chainOf lc Local)) Remote) (cm_theirHtlcIndex (tail (chainOf lc Local))) = (lc2, Inr c)"
    "d = createCommitDiff lc2 c"
    using assms(4) by (rule signNextCommitment_cases)
  have dr: "dry lc lc1" by (rule validateCommitmentSanity_dry [OF s(1)])
  have inv1: "chan_inv v lc1" by (rule dry_inv [OF inv(1) dr])
  note df = dry_fields [OF dr]
  obtain g where g: "lc1 = lc\<lparr>lc_heap := g\<rparr>" "noop_ext (lc_heap lc) g" using dr by (auto simp: dry_def)
  let ?view = "fetchHTLCView lc1 (msgIndex (tail (chainOf lc Local)) Remote) (ul_logIndex (logOf lc Local))"
  obtain our their wt fv where cv: "computeView lc1 ?view Remote True None = (lc2, Inr (our, their, wt, fv))"
    and ch: "cm_height c = cm_height (tip (chainOf lc1 Remote)) + 1"
    using s(2) by (cases rule: fetchCommitmentView_cases)
  have wf: "logs_wf (lc_heap lc1) (lc_next lc1) (lc_logs lc1)" using inv1 by (simp add: chan_inv_def)
  have nx: "next_indices lc1 Remote (mkDual (ul_logIndex (logOf lc Local)) (msgIndex (tail (chainOf lc Local)) Remote))"
    by (simp add: next_indices_def df)
  note cov = view_covers [OF inv1 nx]
  note heap = computeView_heap [OF wf cov cv]
  have same: "same_update (lc_heap lc a) (lc_heap lc2 a)" for a
    using same_update_trans [OF noop_same_update [OF g(2), of a]] heap(1) [of a] by (simp add: g(1))
  have logs: "lc_logs lc2 = lc_logs lc" using fetchCommitmentView_frame [OF s(2)] df by simp
  have idx: "log_wf (lc_heap lc) (logOf lc p)" for p
    using inv(1) logs_wf_parts(1) by (auto simp: chan_inv_def)
  let ?sel = "\<lambda>pd. d_remote (pd_addHeights pd) = cm_height c \<or> d_remote (pd_rmvHeights pd) = cm_height c"
  have sel: "?sel (lc_heap lc2 e)" if e: "e \<in> set (ul_list (logOf lc Local))" "isUncommitted (lc_heap lc) Remote e" for e
  proof -
    have "pd_logIndex (lc_heap lc1 e) < ul_logIndex (logOf lc Local)"
      using log_wf_update [OF idx [of Local]] e(1) idx [of Local]
      by (auto simp: log_wf_def g(1) noop_ext_fields [OF g(2)])
    then have "e \<in> set (getForParty (hv_updates ?view) Local)"
      unfolding fetchHTLCView_updates using e(1) by (simp add: df)
    moreover have "isUncommitted (lc_heap lc1) Remote e" using e(2) noop_ext_committed [OF g(2)] by (simp add: g(1))
    ultimately show ?thesis using heap(2) [of e Local] ch by simp
  qed
  show ?thesis
  proof (intro conjI ballI impI subsetI)
    fix e assume e: "e \<in> set (ul_list (logOf lc Local))" "isUncommitted (lc_heap lc) Remote e"
    have fields: "toLogUpdate (lc_heap lc2 e) = toLogUpdate (lc_heap lc e)"
      "pd_entryType (lc_heap lc2 e) = pd_entryType (lc_heap lc e)"
      "pd_openCircuitKey (lc_heap lc2 e) = pd_openCircuitKey (lc_heap lc e)"
      "pd_closedCircuitKey (lc_heap lc2 e) = pd_closedCircuitKey (lc_heap lc e)"
      "pd_sourceRef (lc_heap lc2 e) = pd_sourceRef (lc_heap lc e)"
      "pd_destRef (lc_heap lc2 e) = pd_destRef (lc_heap lc e)"
      using same [of e] by (simp_all add: same_update_def)
    then have res: "isResolution (lc_heap lc2 e) = isResolution (lc_heap lc e)" by (simp add: isResolution_def)
    note sel = sel [OF e]
    show "toLogUpdate (lc_heap lc e) \<in> set (cd_logUpdates d)"
      using sel e(1) fields(1) by (force simp: s(3) createCommitDiff_def Let_def logs image_iff)
    show "k \<in> set (cd_openedCircuitKeys d)"
      if "pd_entryType (lc_heap lc e) = Add" "k \<in> set_option (pd_openCircuitKey (lc_heap lc e))" for k
      using sel e(1) that fields by (force simp: s(3) createCommitDiff_def Let_def logs image_iff in_map_filter)
    fix k assume r: "isResolution (lc_heap lc e)"
    show "k \<in> set_option (pd_closedCircuitKey (lc_heap lc e)) \<Longrightarrow> k \<in> set (cd_closedCircuitKeys d)"
      using sel e(1) r fields res by (force simp: s(3) createCommitDiff_def Let_def logs image_iff in_map_filter)
  next
    fix e k assume e: "e \<in> set (ul_list (logOf lc Local))" "isUncommitted (lc_heap lc) Remote e"
      and r: "isResolution (lc_heap lc e)"
    have fields: "pd_sourceRef (lc_heap lc2 e) = pd_sourceRef (lc_heap lc e)"
      "pd_destRef (lc_heap lc2 e) = pd_destRef (lc_heap lc e)" "isResolution (lc_heap lc2 e)"
      using same [of e] r by (simp_all add: same_update_def isResolution_def)
    note sel = sel [OF e]
    show "k \<in> set_option (pd_sourceRef (lc_heap lc e)) \<Longrightarrow> k \<in> set (cd_addAcks d)"
      using sel e(1) fields by (force simp: s(3) createCommitDiff_def Let_def logs image_iff in_map_filter)
  next
    fix e k assume e: "e \<in> set (ul_list (logOf lc Local))" "isUncommitted (lc_heap lc) Remote e"
      and r: "isResolution (lc_heap lc e)"
    have fields: "pd_destRef (lc_heap lc2 e) = pd_destRef (lc_heap lc e)" "isResolution (lc_heap lc2 e)"
      using same [of e] r by (simp_all add: same_update_def isResolution_def)
    note sel = sel [OF e]
    show "k \<in> set_option (pd_destRef (lc_heap lc e)) \<Longrightarrow> k \<in> set (cd_settleFailAcks d)"
      using sel e(1) fields by (force simp: s(3) createCommitDiff_def Let_def logs image_iff in_map_filter)
  next
    fix k assume "k \<in> set (cd_openedCircuitKeys d)"
    then obtain e where "e \<in> set (ul_list (logOf lc Local))" "pd_entryType (lc_heap lc2 e) = Add"
      "pd_openCircuitKey (lc_heap lc2 e) = Some k"
      by (auto simp: s(3) createCommitDiff_def Let_def logs in_map_filter)
    then show "\<exists>e \<in> set (ul_list (logOf lc Local)). pd_entryType (lc_heap lc e) = Add \<and> pd_openCircuitKey (lc_heap lc e) = Some k"
      using same by (auto simp: same_update_def)
  qed
qed

theorem sign_records_new_updates_witness:
  "\<exists>d. signNextCommitment demo_env demo_added = (demo_signed, Inr d) \<and> toLogUpdate demo_pd \<in> set (cd_logUpdates d)"
proof -
  obtain d where d: "signNextCommitment demo_env demo_added = (demo_signed, Inr d)" using demo_sign(1) by blast
  have "height_room demo_added Remote" by (simp add: height_room_def demo_added tip_def demo_commitment_def)
  from sign_records_new_updates [OF demo_run(1) demo_opened this d]
  show ?thesis using d by (simp add: demo_added demo_log_def isUncommitted_def demo_pd)
qed

text \<open>
  C33: a valid revocation of the peer is always processed: in every reachable state with an
  unacknowledged remote commitment, if the secret extends the store and matches the point of the
  tail, \<open>ReceiveRevocation\<close> returns a forwarding package and neither panics nor fails. The package
  holds exactly the peer's adds and resolutions that have just been locked in on both chains and
  were not forwarded before; all of them, and nothing else, are flagged as forwarded; the revoked
  commitment enters the revocation log, the chain loses it, and the logs lose only what both chains
  have settled.
\<close>

theorem revocation_forwards_once:
  fixes lc rt lt
  defines "rt \<equiv> cm_height (tail (chainOf lc Remote)) + 1" and "lt \<equiv> cm_height (tail (chainOf lc Local))"
  assumes "(chan_step env)\<^sup>*\<^sup>* lc0 lc" "opened v lc0" "hasUnackedCommitment (chainOf lc Remote)"
    and "addNextEntry sha256 (lc_store lc) (rv_revocation msg) = Inr store"
    and "lc_remoteCurrentRevocation lc = Some (te_commitPoint env (rv_revocation msg))"
    and "te_outputIndexes env (rv_revocation msg)" "\<not> db_frozen (lc_db lc)"
  shows "\<exists>lc' pkg htlcs. receiveRevocation env lc msg = (lc', Inr (pkg, htlcs)) \<and>
     fp_adds pkg = map (\<lambda>e. toLogUpdate (lc_heap lc e)) (filter (\<lambda>e. fwdAdd rt lt (lc_heap lc e)) (ul_list (logOf lc Remote))) \<and>
     fp_settleFails pkg = map (\<lambda>e. toLogUpdate (lc_heap lc e)) (filter (\<lambda>e. fwdRmv rt lt (lc_heap lc e)) (ul_list (logOf lc Remote))) \<and>
     (\<forall>e. pd_isForwarded (lc_heap lc' e) \<longleftrightarrow> pd_isForwarded (lc_heap lc e) \<or>
        e \<in> set (ul_list (logOf lc Remote)) \<and> (fwdAdd rt lt (lc_heap lc e) \<or> fwdRmv rt lt (lc_heap lc e))) \<and>
     db_revocationLog (lc_db lc') = db_revocationLog (lc_db lc) @ [toDiskCommit (tail (chainOf lc Remote))] \<and>
     db_fwdPkgs (lc_db lc') = db_fwdPkgs (lc_db lc) @ [pkg] \<and>
     chainOf lc' Remote = tl (chainOf lc Remote) \<and>
     (\<forall>p. ul_list (logOf lc' p) = filter (survives (lc_heap lc') lt rt (lc_logs lc) p) (ul_list (logOf lc p)))"
proof -
  note inv = chan_run_inv [OF assms(3,4)]
  obtain h adds sfs where fw: "forwardLoop (lc_shortChanID lc) rt lt (ul_list (logOf lc Remote)) (lc_heap lc) 0 0 [] [] = (h, adds, sfs)"
    by (metis prod_cases3)
  have "logs_wf (lc_heap lc) (lc_next lc) (lc_logs lc)" using inv(1) by (simp add: chan_inv_def)
  then have wf: "log_wf (lc_heap lc) (logOf lc Remote)" by (rule logs_wf_parts(1))
  then have dist: "distinct (ul_list (logOf lc Remote))" by (simp add: log_wf_def)
  note spec = forwardLoop_spec [OF fw dist]
  let ?lc2 = "lc\<lparr>lc_store := store, lc_remoteCurrentRevocation := lc_remoteNextRevocation lc,
        lc_remoteNextRevocation := Some (rv_nextRevocationKey msg), lc_heap := h\<rparr>"
  let ?pkg = "\<lparr>fp_source = lc_shortChanID lc, fp_height = rt, fp_adds = adds, fp_settleFails = sfs\<rparr>"
  let ?upd = "unsignedLocalUpdates ?lc2 (d_local (cm_messageIndices (tip (chainOf lc Remote))))
      (d_local (cm_messageIndices (tail (chainOf lc Local))))"
  obtain d where d: "db_commitDiff (lc_db lc) = Some d"
    using inv(2) assms(5) by (cases "chainOf lc Remote") (auto simp: disk_inv_alt hasUnackedCommitment_def split: option.splits)
  obtain db where db: "advanceCommitChainTail (lc_db lc) (lc_remoteCommitment lc) ?pkg ?upd = Some (db, cd_commitment d)"
    using d assms(9) by (cases "db_unsignedAckedUpdates (lc_db lc)") (auto simp: advanceCommitChainTail_def Let_def)
  have "chan_inv v (lc\<lparr>lc_heap := h\<rparr>)" by (rule fwd_inv [OF inv(1) forwardLoop_heap [OF fw]])
  then have "logs_wf h (lc_next lc) (lc_logs lc)" by (simp add: chan_inv_def)
  from compactLogs_spec [OF this, of lt rt] obtain logs where cl: "compactLogs h (lc_logs lc) lt rt = Some logs"
    "\<And>p. ul_list (getForParty logs p) = filter (survives h lt rt (lc_logs lc) p) (ul_list (logOf lc p))" by blast
  let ?lc' = "(dropTail (?lc2\<lparr>lc_db := db, lc_remoteCommitment := cd_commitment d\<rparr>) Remote)\<lparr>lc_logs := logs\<rparr>"
  have op: "receiveRevocation env lc msg = (?lc', Inr (?pkg, dc_htlcs (cd_commitment d)))"
    using assms(6-8) fw [unfolded rt_def lt_def] db [unfolded rt_def lt_def] cl(1) [unfolded rt_def lt_def]
    by (simp add: receiveRevocation_def Let_def rt_def lt_def)
  have rc: "lc_remoteCommitment lc = toDiskCommit (tail (chainOf lc Remote))" using inv(2) by (simp add: disk_inv_alt)
  have dbs: "db_revocationLog db = db_revocationLog (lc_db lc) @ [lc_remoteCommitment lc]"
    "db_fwdPkgs db = db_fwdPkgs (lc_db lc) @ [?pkg]"
    using advanceCommitChainTail_diff [OF db] by blast+
  have "chainOf ?lc' Remote = tl (chainOf lc Remote)" by (simp add: advanceTail_def modifyForParty_def)
  then show ?thesis
    unfolding op using spec dbs rc cl(2) by (intro exI [of _ ?lc'] exI [of _ ?pkg]) simp
qed

lemma first_entry_accepted: "\<exists>store. addNextEntry sha256 newRevocationStore (replicate 32 9) = Inr store"
proof -
  have "countTrailingZeros (st_index newRevocationStore) = 0"
    by code_simp
  then show ?thesis
    using addNextEntry_eq [OF length_sha256 store_inv_new, of "replicate 32 9"] by (simp add: agrees_def top_index_def)
qed

theorem revocation_forwards_once_witness:
  "\<exists>lc' pkg htlcs. receiveRevocation demo_env demo_signed \<lparr>rv_revocation = replicate 32 9, rv_nextRevocationKey = [3]\<rparr>
     = (lc', Inr (pkg, htlcs)) \<and> fp_adds pkg = [] \<and> chainOf lc' Remote = [demo_commitment1]"
proof -
  obtain store where st: "addNextEntry sha256 (lc_store demo_signed) (replicate 32 9) = Inr store"
    using first_entry_accepted by (auto simp: demo_signed_rest)
  let ?msg = "\<lparr>rv_revocation = replicate 32 9, rv_nextRevocationKey = [3]\<rparr>"
  have un: "hasUnackedCommitment (chainOf demo_signed Remote)"
    unfolding demo_sign(2) by (simp add: hasUnackedCommitment_def)
  have "ul_list (logOf demo_signed Remote) = []" by (simp add: demo_sign(4) demo_added newUpdateLog_def)
  moreover have "chainOf demo_signed Remote = [demo_commitment Remote, demo_commitment1]" by (rule demo_sign(2))
  ultimately show ?thesis
    using revocation_forwards_once [OF demo_run(2) demo_opened un, of ?msg store] st demo_signed_rest(2,3)
    by (auto simp: demo_env_def)
qed

end
