(* ===== verification/Channel_Restore.thy ===== *)
theory Channel_Restore
  imports Channel_Messages
begin

text \<open>
  Restarting a channel (\<open>NewLightningChannel\<close> and the functions it restores the state with, in
  \<open>lnwallet/channel.go\<close>): stored commitments and log updates become commitments, payment descriptors
  and update logs again. Scripts, which the source regenerates to locate outputs later on, are left
  out, as are the musig2 nonces of taproot channels and auxiliary leaves.
\<close>

section \<open>Commitments from disk\<close>

definition diskHtlcToPayDesc :: "channel \<Rightarrow> disk_htlc \<Rightarrow> paymentDescriptor" where
  "diskHtlcToPayDesc lc htlc =
     zeroDescriptor\<lparr>pd_chanID := lc_channelID lc, pd_rHash := dh_rHash htlc,
       pd_timeout := dh_refundTimeout htlc, pd_amount := dh_amt htlc,
       pd_entryType := entryTypeForHtlc (dh_customRecords htlc) (lc_chanType lc),
       pd_htlcIndex := dh_htlcIndex htlc, pd_logIndex := dh_logIndex htlc,
       pd_onionBlob := dh_onionBlob htlc, pd_blindingPoint := dh_blindingPoint htlc,
       pd_customRecords := dh_customRecords htlc\<rparr>"

text \<open>The incoming and the outgoing HTLCs.\<close>

definition extractPayDescs :: "channel \<Rightarrow> disk_htlc list \<Rightarrow> paymentDescriptor list \<times> paymentDescriptor list" where
  "extractPayDescs lc htlcs =
     (map (diskHtlcToPayDesc lc) (filter dh_incoming htlcs),
      map (diskHtlcToPayDesc lc) (filter (\<lambda>x. \<not> dh_incoming x) htlcs))"

definition diskCommitToMemCommit :: "channel \<Rightarrow> channel_party \<Rightarrow> disk_commitment \<Rightarrow> commitment" where
  "diskCommitToMemCommit lc whoseCommit d =
     (case extractPayDescs lc (dc_htlcs d) of
        (incomingHtlcs, outgoingHtlcs) \<Rightarrow>
          \<lparr>cm_height = dc_commitHeight d, cm_whoseCommit = whoseCommit,
           cm_messageIndices = mkDual (dc_localLogIndex d) (dc_remoteLogIndex d),
           cm_ourHtlcIndex = dc_localHtlcIndex d, cm_theirHtlcIndex = dc_remoteHtlcIndex d,
           cm_ourBalance = dc_localBalance d, cm_theirBalance = dc_remoteBalance d,
           cm_fee = dc_commitFee d, cm_feePerKw = dc_feePerKw d,
           cm_dustLimit = (if isLocal whoseCommit then cc_dustLimit (lc_localCfg lc)
                           else cc_dustLimit (lc_remoteCfg lc)),
           cm_outgoingHTLCs = outgoingHtlcs, cm_incomingHTLCs = incomingHtlcs\<rparr>)"

section \<open>Descriptors from log updates\<close>

text \<open>
  The three conversions differ in the commitment whose height they restore, and in the messages they
  accept. \<open>restoredAdd\<close>, \<open>restoredResolution\<close> and \<open>restoredFee\<close> are their common branches: a settle or
  a fail looks its HTLC up in the log of the party that offered it, and dereferences nil if it is
  not there.
\<close>

definition heightAt :: "channel_party \<Rightarrow> u64 \<Rightarrow> u64 dual" where
  "heightAt p h = setForParty (mkDual 0 0) p h"

definition restoredAdd :: "channel \<Rightarrow> u64 \<Rightarrow> update_add_htlc \<Rightarrow> channel_party \<Rightarrow> u64 \<Rightarrow> paymentDescriptor" where
  "restoredAdd lc logIndex msg p h =
     zeroDescriptor\<lparr>pd_chanID := ua_chanID msg, pd_rHash := ua_paymentHash msg,
       pd_timeout := ua_expiry msg, pd_amount := ua_amount msg, pd_htlcIndex := ua_ID msg,
       pd_logIndex := logIndex, pd_onionBlob := ua_onionBlob msg,
       pd_blindingPoint := ua_blindingPoint msg, pd_customRecords := ua_customRecords msg,
       pd_addHeights := heightAt p h,
       pd_entryType := entryTypeForHtlc (ua_customRecords msg) (lc_chanType lc)\<rparr>"

definition restoredResolution ::
  "pd_heap \<Rightarrow> update_log \<Rightarrow> u64 \<Rightarrow> byte list \<Rightarrow> u64 \<Rightarrow> channel_party \<Rightarrow> u64
    \<Rightarrow> (paymentDescriptor \<Rightarrow> paymentDescriptor) \<Rightarrow> channel_error + paymentDescriptor" where
  "restoredResolution hp u logIndex chanID htlcID p h f =
     (case lookupHtlc u htlcID of
        None \<Rightarrow> Inl GoPanic
      | Some a \<Rightarrow>
          Inr (f (zeroDescriptor\<lparr>pd_chanID := chanID, pd_amount := pd_amount (hp a),
            pd_rHash := pd_rHash (hp a), pd_logIndex := logIndex,
            pd_parentIndex := pd_htlcIndex (hp a), pd_rmvHeights := heightAt p h\<rparr>)))"

definition restoredFee :: "u64 \<Rightarrow> byte list \<Rightarrow> u32 \<Rightarrow> channel_party \<Rightarrow> u64 \<Rightarrow> paymentDescriptor" where
  "restoredFee logIndex chanID feePerKw p h =
     zeroDescriptor\<lparr>pd_chanID := chanID, pd_logIndex := logIndex,
       pd_amount := newMSatFromSatoshis (uint feePerKw), pd_entryType := FeeUpdate,
       pd_addHeights := heightAt p h, pd_rmvHeights := heightAt p h\<rparr>"

definition restoredUpdate ::
  "pd_heap \<Rightarrow> update_log \<Rightarrow> log_update \<Rightarrow> channel_party \<Rightarrow> u64
    \<Rightarrow> channel_error + paymentDescriptor" where
  "restoredUpdate hp u upd p h =
     (case lu_updateMsg upd of
        UpdateAddHTLC msg \<Rightarrow> Inl UnknownMessageType
      | UpdateFulfillHTLC chanID i preimage \<Rightarrow>
          restoredResolution hp u (lu_logIndex upd) chanID i p h
            (\<lambda>pd. pd\<lparr>pd_rPreimage := preimage, pd_entryType := Settle\<rparr>)
      | UpdateFailHTLC chanID i reason \<Rightarrow>
          restoredResolution hp u (lu_logIndex upd) chanID i p h
            (\<lambda>pd. pd\<lparr>pd_entryType := Fail, pd_failReason := reason\<rparr>)
      | UpdateFailMalformedHTLC chanID i shaOnion code \<Rightarrow>
          restoredResolution hp u (lu_logIndex upd) chanID i p h
            (\<lambda>pd. pd\<lparr>pd_entryType := MalformedFail, pd_failCode := code, pd_shaOnionBlob := shaOnion\<rparr>)
      | UpdateFee chanID feePerKw \<Rightarrow> Inr (restoredFee (lu_logIndex upd) chanID feePerKw p h))"

definition logUpdateToPayDesc ::
  "channel \<Rightarrow> log_update \<Rightarrow> update_log \<Rightarrow> u64 \<Rightarrow> channel_error + paymentDescriptor" where
  "logUpdateToPayDesc lc upd remoteUpdateLog commitHeight =
     (case lu_updateMsg upd of
        UpdateAddHTLC msg \<Rightarrow> Inr (restoredAdd lc (lu_logIndex upd) msg Remote commitHeight)
      | _ \<Rightarrow> restoredUpdate (lc_heap lc) remoteUpdateLog upd Remote commitHeight)"

definition localLogUpdateToPayDesc ::
  "channel \<Rightarrow> log_update \<Rightarrow> update_log \<Rightarrow> u64 \<Rightarrow> channel_error + paymentDescriptor" where
  "localLogUpdateToPayDesc lc upd remoteUpdateLog commitHeight =
     restoredUpdate (lc_heap lc) remoteUpdateLog upd Remote commitHeight"

definition remoteLogUpdateToPayDesc ::
  "channel \<Rightarrow> log_update \<Rightarrow> update_log \<Rightarrow> u64 \<Rightarrow> channel_error + paymentDescriptor" where
  "remoteLogUpdateToPayDesc lc upd localUpdateLog commitHeight =
     (case lu_updateMsg upd of
        UpdateAddHTLC msg \<Rightarrow> Inr (restoredAdd lc (lu_logIndex upd) msg Local commitHeight)
      | _ \<Rightarrow> restoredUpdate (lc_heap lc) localUpdateLog upd Local commitHeight)"

section \<open>Restoring the logs\<close>

text \<open>Storing a restored descriptor and entering it into a log.\<close>

definition restoreEntry ::
  "channel \<Rightarrow> channel_party \<Rightarrow> paymentDescriptor \<Rightarrow> (pd_heap \<Rightarrow> update_log \<Rightarrow> nat \<Rightarrow> update_log) \<Rightarrow> channel" where
  "restoreEntry lc p pd f = (let lc1 = allocate lc pd in pushLog lc1 p (f (lc_heap lc1)))"

fun restorePendingLocalUpdates :: "u64 \<Rightarrow> log_update list \<Rightarrow> channel \<Rightarrow> channel \<times> channel_error option" where
  "restorePendingLocalUpdates pendingHeight [] lc = (lc, None)"
| "restorePendingLocalUpdates pendingHeight (upd # upds) lc =
     (case logUpdateToPayDesc lc upd (d_remote (lc_logs lc)) pendingHeight of
        Inl err \<Rightarrow> (lc, Some err)
      | Inr pd0 \<Rightarrow>
          let localLog = d_local (lc_logs lc);
              pd = (if pd_entryType pd0 = FeeUpdate \<and> pd_logIndex pd0 = 0 \<and> ul_logIndex localLog > 0
                    then pd0\<lparr>pd_logIndex := ul_logIndex localLog\<rparr> else pd0)
          in if pd_logIndex pd \<noteq> ul_logIndex localLog then (lc, Some GoPanic)
             else if isAdd pd then
               if pd_htlcIndex pd \<noteq> ul_htlcCounter localLog then (lc, Some GoPanic)
               else restorePendingLocalUpdates pendingHeight upds (restoreEntry lc Local pd (\<lambda>_. appendHtlc))
             else if pd_entryType pd = FeeUpdate then
               restorePendingLocalUpdates pendingHeight upds (restoreEntry lc Local pd (\<lambda>_. appendUpdate))
             else
               restorePendingLocalUpdates pendingHeight upds
                 (markParent (restoreEntry lc Local pd (\<lambda>_. appendUpdate)) Remote (pd_parentIndex pd)))"

fun restorePendingRemoteUpdates ::
  "u64 \<Rightarrow> commitment option \<Rightarrow> log_update list \<Rightarrow> channel \<Rightarrow> channel \<times> channel_error option" where
  "restorePendingRemoteUpdates localHeight pending [] lc = (lc, None)"
| "restorePendingRemoteUpdates localHeight pending (upd # upds) lc =
     (case remoteLogUpdateToPayDesc lc upd (d_local (lc_logs lc)) localHeight of
        Inl err \<Rightarrow> (lc, Some err)
      | Inr pd \<Rightarrow>
          if pd_logIndex pd \<ge> ul_logIndex (d_remote (lc_logs lc))
          then (lc, Some (UnsignedUpdateBeyondLog (pd_logIndex pd)))
          else if isAdd pd then restorePendingRemoteUpdates localHeight pending upds lc
          else
            let height = (case pending of
                  Some c \<Rightarrow> if pd_logIndex pd < d_remote (cm_messageIndices c) then Some (cm_height c) else None
                | None \<Rightarrow> None)
            in if pd_entryType pd = FeeUpdate then
                 let pd' = (case height of
                       Some ht \<Rightarrow> pd\<lparr>pd_addHeights := setForParty (pd_addHeights pd) Remote ht,
                                    pd_rmvHeights := setForParty (pd_rmvHeights pd) Remote ht\<rparr>
                     | None \<Rightarrow> pd)
                 in restorePendingRemoteUpdates localHeight pending upds (restoreEntry lc Remote pd' restoreUpdate)
               else
                 let pd' = (case height of
                       Some ht \<Rightarrow> pd\<lparr>pd_rmvHeights := setForParty (pd_rmvHeights pd) Remote ht\<rparr>
                     | None \<Rightarrow> pd)
                 in restorePendingRemoteUpdates localHeight pending upds
                      (markParent (restoreEntry lc Remote pd' restoreUpdate) Local (pd_parentIndex pd')))"

fun restorePeerLocalUpdates :: "u64 \<Rightarrow> log_update list \<Rightarrow> channel \<Rightarrow> channel \<times> channel_error option" where
  "restorePeerLocalUpdates remoteHeight [] lc = (lc, None)"
| "restorePeerLocalUpdates remoteHeight (upd # upds) lc =
     (case localLogUpdateToPayDesc lc upd (d_remote (lc_logs lc)) remoteHeight of
        Inl err \<Rightarrow> (lc, Some err)
      | Inr pd \<Rightarrow>
          let lc1 = restoreEntry lc Local pd restoreUpdate;
              lc2 = (if pd_entryType pd \<noteq> FeeUpdate then markParent lc1 Remote (pd_parentIndex pd) else lc1)
          in restorePeerLocalUpdates remoteHeight upds lc2)"

text \<open>The HTLC that a stored settle or fail removes.\<close>

definition resolvedId :: "log_update \<Rightarrow> u64 option" where
  "resolvedId upd =
     (case lu_updateMsg upd of
        UpdateFulfillHTLC _ i _ \<Rightarrow> Some i
      | UpdateFailHTLC _ i _ \<Rightarrow> Some i
      | UpdateFailMalformedHTLC _ i _ _ \<Rightarrow> Some i
      | _ \<Rightarrow> None)"

definition atHeight :: "u64 \<Rightarrow> u64 list \<Rightarrow> (u64 \<rightharpoonup> u64) \<Rightarrow> (u64 \<rightharpoonup> u64)" where
  "atHeight h ids m = foldl (\<lambda>m i. m(i \<mapsto> h)) m ids"

text \<open>Go reads zero from a map that lacks the key.\<close>

definition heightOf :: "(u64 \<rightharpoonup> u64) \<Rightarrow> u64 \<Rightarrow> u64" where
  "heightOf m i = (case m i of None \<Rightarrow> 0 | Some h \<Rightarrow> h)"

fun restoreHtlcs ::
  "channel_party \<Rightarrow> (paymentDescriptor \<Rightarrow> u64 dual) \<Rightarrow> paymentDescriptor list \<Rightarrow> channel \<Rightarrow> channel" where
  "restoreHtlcs p heights [] lc = lc"
| "restoreHtlcs p heights (htlc # htlcs) lc =
     restoreHtlcs p heights htlcs
       (restoreEntry lc p (htlc\<lparr>pd_addHeights := heights htlc\<rparr>) restoreHtlc)"

definition restoreStateLogs ::
  "commitment \<Rightarrow> commitment \<Rightarrow> commitment option \<Rightarrow> commit_diff option \<Rightarrow> log_update list \<Rightarrow> log_update list
    \<Rightarrow> channel \<Rightarrow> channel \<times> channel_error option" where
  "restoreStateLogs localCommitment remoteCommitment pending pendingDiff
       unsignedAckedUpdates remoteUnsignedLocalUpdates lc =
     (let incoming0 = (case pending of None \<Rightarrow> Map.empty
            | Some c \<Rightarrow> atHeight (cm_height c) (map pd_htlcIndex (cm_incomingHTLCs c)) Map.empty);
          incoming1 = atHeight (cm_height remoteCommitment)
            (map pd_htlcIndex (cm_incomingHTLCs remoteCommitment)) incoming0;
          outgoing1 = atHeight (cm_height localCommitment)
            (map pd_htlcIndex (cm_outgoingHTLCs localCommitment)) Map.empty;
          outgoingLocalAddHeights = atHeight (cm_height localCommitment)
            (List.map_filter resolvedId unsignedAckedUpdates) outgoing1;
          incomingRemoteAddHeights = atHeight (cm_height remoteCommitment)
            (List.map_filter resolvedId remoteUnsignedLocalUpdates) incoming1;
          lc1 = restoreHtlcs Remote
            (\<lambda>htlc. mkDual (cm_height localCommitment) (heightOf incomingRemoteAddHeights (pd_htlcIndex htlc)))
            (cm_incomingHTLCs localCommitment) lc;
          lc2 = restoreHtlcs Local
            (\<lambda>htlc. mkDual (heightOf outgoingLocalAddHeights (pd_htlcIndex htlc)) (cm_height remoteCommitment))
            (cm_outgoingHTLCs remoteCommitment) lc1
      in case (case pendingDiff of
                 None \<Rightarrow> (lc2, None)
               | Some d \<Rightarrow> restorePendingLocalUpdates (dc_commitHeight (cd_commitment d)) (cd_logUpdates d) lc2) of
           (lc3, Some err) \<Rightarrow> (lc3, Some err)
         | (lc3, None) \<Rightarrow>
             (case restorePendingRemoteUpdates (cm_height localCommitment) pending unsignedAckedUpdates lc3 of
                (lc4, Some err) \<Rightarrow> (lc4, Some err)
              | (lc4, None) \<Rightarrow>
                  restorePeerLocalUpdates (cm_height remoteCommitment) remoteUnsignedLocalUpdates lc4))"

definition storedUpdates :: "log_update list option \<Rightarrow> log_update list" where
  "storedUpdates us = (case us of None \<Rightarrow> [] | Some l \<Rightarrow> l)"

definition addToChain :: "channel \<Rightarrow> channel_party \<Rightarrow> disk_commitment \<Rightarrow> channel" where
  "addToChain lc p d =
     lc\<lparr>lc_chains := modifyForParty (lc_chains lc) p (\<lambda>s. addCommitment s (diskCommitToMemCommit lc p d))\<rparr>"

definition restoreCommitState :: "channel \<Rightarrow> channel \<times> channel_error option" where
  "restoreCommitState lc =
     (case atIndex sha256 (lc_producer lc) (lc_currentHeight lc) of
        Inl err \<Rightarrow> (lc, Some (RevocationRejected err))
      | Inr _ \<Rightarrow>
          let lc1 = addToChain (addToChain lc Local (lc_localCommitment lc)) Remote (lc_remoteCommitment lc);
              pendingDiff = db_commitDiff (lc_db lc);
              lc2 = (case pendingDiff of None \<Rightarrow> lc1 | Some d \<Rightarrow> addToChain lc1 Remote (cd_commitment d));
              pending = map_option (\<lambda>d. diskCommitToMemCommit lc Remote (cd_commitment d)) pendingDiff
          in restoreStateLogs (diskCommitToMemCommit lc Local (lc_localCommitment lc))
               (diskCommitToMemCommit lc Remote (lc_remoteCommitment lc)) pending pendingDiff
               (storedUpdates (db_unsignedAckedUpdates (lc_db lc)))
               (storedUpdates (db_remoteUnsignedLocalUpdates (lc_db lc))) lc2)"

definition newLightningChannel :: "channel \<Rightarrow> channel \<times> channel_error option" where
  "newLightningChannel state =
     (let localCommit = lc_localCommitment state;
          remoteCommit = lc_remoteCommitment state
      in restoreCommitState (state\<lparr>
           lc_chains := mkDual newCommitmentChain newCommitmentChain,
           lc_logs := mkDual
             (newUpdateLog (dc_localLogIndex remoteCommit) (dc_localHtlcIndex remoteCommit))
             (newUpdateLog (dc_remoteLogIndex localCommit) (dc_remoteHtlcIndex localCommit)),
           lc_heap := (\<lambda>a. zeroDescriptor), lc_next := 0,
           lc_currentHeight := dc_commitHeight localCommit\<rparr>))"

section \<open>Round trips\<close>

lemma diskHtlc_restored: "diskHtlc (dh_incoming x) (diskHtlcToPayDesc lc x) = x"
  by (simp add: diskHtlc_def diskHtlcToPayDesc_def)

lemma dh_incoming_diskHtlc [simp]: "dh_incoming (diskHtlc b pd) = b"
  by (simp add: diskHtlc_def)

lemma diskHtlc_roundtrip [simp]: "diskHtlc b (diskHtlcToPayDesc lc (diskHtlc b pd)) = diskHtlc b pd"
  using diskHtlc_restored [of "diskHtlc b pd"] by simp

lemma filter_incoming [simp]:
  "filter dh_incoming (map (diskHtlc b) xs) = (if b then map (diskHtlc b) xs else [])"
  "filter (\<lambda>x. \<not> dh_incoming x) (map (diskHtlc b) xs) = (if b then [] else map (diskHtlc b) xs)"
  by (induction xs) auto

lemma restored_commitment [simp]: "toDiskCommit (diskCommitToMemCommit lc w (toDiskCommit c)) = toDiskCommit c"
  by (simp add: toDiskCommit_def diskCommitToMemCommit_def extractPayDescs_def)

text \<open>
  A commitment written to disk and read back, whoever's it is, is stored again as exactly the
  same bytes: balances, fee, indices and HTLCs survive any number of restarts.
\<close>

theorem commitment_disk_roundtrip:
  "toDiskCommit (diskCommitToMemCommit lc w (toDiskCommit c)) = toDiskCommit c"
  by (rule restored_commitment)

lemma mem_commit_simps [simp]:
  "cm_height (diskCommitToMemCommit lc w d) = dc_commitHeight d"
  "cm_messageIndices (diskCommitToMemCommit lc w d) = mkDual (dc_localLogIndex d) (dc_remoteLogIndex d)"
  by (simp_all add: diskCommitToMemCommit_def extractPayDescs_def)

lemma disk_commit_simps [simp]:
  "dc_commitHeight (toDiskCommit c) = cm_height c" "dc_localHtlcIndex (toDiskCommit c) = cm_ourHtlcIndex c"
  "dc_localLogIndex (toDiskCommit c) = d_local (cm_messageIndices c)"
  "dc_remoteLogIndex (toDiskCommit c) = d_remote (cm_messageIndices c)"
  "dc_remoteHtlcIndex (toDiskCommit c) = cm_theirHtlcIndex c"
  by (simp_all add: toDiskCommit_def)

lemma mem_commit_cong [simp]:
  "diskCommitToMemCommit (lc\<lparr>lc_chains := x\<rparr>) w d = diskCommitToMemCommit lc w d"
  "diskCommitToMemCommit (lc\<lparr>lc_logs := l\<rparr>) w d = diskCommitToMemCommit lc w d"
  "diskCommitToMemCommit (lc\<lparr>lc_heap := h\<rparr>) w d = diskCommitToMemCommit lc w d"
  "diskCommitToMemCommit (lc\<lparr>lc_next := n\<rparr>) w d = diskCommitToMemCommit lc w d"
  "diskCommitToMemCommit (lc\<lparr>lc_currentHeight := i\<rparr>) w d = diskCommitToMemCommit lc w d"
  by (simp_all add: diskCommitToMemCommit_def extractPayDescs_def diskHtlcToPayDesc_def)

text \<open>What restoring the logs leaves alone.\<close>

definition restore_frame :: "channel \<Rightarrow> channel \<Rightarrow> bool" where
  "restore_frame lc lc' \<longleftrightarrow> lc'\<lparr>lc_logs := lc_logs lc, lc_heap := lc_heap lc, lc_next := lc_next lc\<rparr> = lc"

lemma restore_frame_fields:
  assumes "restore_frame lc lc'"
  shows "lc_chains lc' = lc_chains lc" "lc_db lc' = lc_db lc" "lc_localCommitment lc' = lc_localCommitment lc"
    "lc_remoteCommitment lc' = lc_remoteCommitment lc" "lc_currentHeight lc' = lc_currentHeight lc"
    "lc_producer lc' = lc_producer lc" "lc_store lc' = lc_store lc" "lc_chanType lc' = lc_chanType lc"
    "lc_remoteCurrentRevocation lc' = lc_remoteCurrentRevocation lc"
    "lc_remoteNextRevocation lc' = lc_remoteNextRevocation lc"
proof -
  obtain l h n where "lc = lc'\<lparr>lc_logs := l, lc_heap := h, lc_next := n\<rparr>"
    using assms unfolding restore_frame_def by metis
  then show "lc_chains lc' = lc_chains lc" "lc_db lc' = lc_db lc" "lc_localCommitment lc' = lc_localCommitment lc"
    "lc_remoteCommitment lc' = lc_remoteCommitment lc" "lc_currentHeight lc' = lc_currentHeight lc"
    "lc_producer lc' = lc_producer lc" "lc_store lc' = lc_store lc" "lc_chanType lc' = lc_chanType lc"
    "lc_remoteCurrentRevocation lc' = lc_remoteCurrentRevocation lc"
    "lc_remoteNextRevocation lc' = lc_remoteNextRevocation lc" by simp_all
qed

lemma restore_frame_simps [simp]:
  "restore_frame lc lc" "restore_frame lc (restoreEntry lc2 p pd f) = restore_frame lc lc2"
  "restore_frame lc (markParent lc2 p i) = restore_frame lc lc2"
  by (simp_all add: restore_frame_def restoreEntry_def allocate_def pushLog_def markParent_def Let_def)

lemma restoreHtlcs_frame: "restore_frame a lc \<Longrightarrow> restore_frame a (restoreHtlcs p f hs lc)"
  by (induction hs arbitrary: lc) auto

lemma restorePendingLocalUpdates_frame:
  "restore_frame a lc \<Longrightarrow> restore_frame a (fst (restorePendingLocalUpdates ht us lc))"
  by (induction us arbitrary: lc) (auto simp: Let_def split: sum.split)

lemma restorePendingRemoteUpdates_frame:
  "restore_frame a lc \<Longrightarrow> restore_frame a (fst (restorePendingRemoteUpdates ht c us lc))"
  by (induction us arbitrary: lc) (auto simp: Let_def split: sum.split)

lemma restorePeerLocalUpdates_frame:
  "restore_frame a lc \<Longrightarrow> restore_frame a (fst (restorePeerLocalUpdates ht us lc))"
  by (induction us arbitrary: lc) (auto simp: Let_def split: sum.split)

lemma restore_then_frame:
  assumes "restore_frame a (fst r)" "\<And>x. restore_frame a x \<Longrightarrow> restore_frame a (fst (f x))"
  shows "restore_frame a (fst (case r of (lc, Some err) \<Rightarrow> (lc, Some err) | (lc, None) \<Rightarrow> f lc))"
  using assms by (cases r; cases "snd r") auto

lemma restoreStateLogs_frame: "restore_frame lc (fst (restoreStateLogs cl cr p d ua ru lc))"
  unfolding restoreStateLogs_def Let_def
  by (intro restore_then_frame restorePeerLocalUpdates_frame restorePendingRemoteUpdates_frame)
    (auto split: option.split intro!: restorePendingLocalUpdates_frame restoreHtlcs_frame)

lemma newLightningChannel_chains:
  assumes "atIndex sha256 (lc_producer lc) (dc_commitHeight (lc_localCommitment lc)) = Inr s"
  shows "chainOf (fst (newLightningChannel lc)) w
      = (case w of Local \<Rightarrow> [diskCommitToMemCommit lc Local (lc_localCommitment lc)]
         | Remote \<Rightarrow> diskCommitToMemCommit lc Remote (lc_remoteCommitment lc) #
             map (diskCommitToMemCommit lc Remote \<circ> cd_commitment) (case db_commitDiff (lc_db lc) of None \<Rightarrow> [] | Some d \<Rightarrow> [d]))"
    and "lc_db (fst (newLightningChannel lc)) = lc_db lc"
    and "lc_localCommitment (fst (newLightningChannel lc)) = lc_localCommitment lc"
    and "lc_remoteCommitment (fst (newLightningChannel lc)) = lc_remoteCommitment lc"
    and "lc_currentHeight (fst (newLightningChannel lc)) = dc_commitHeight (lc_localCommitment lc)"
    and "lc_producer (fst (newLightningChannel lc)) = lc_producer lc" "lc_store (fst (newLightningChannel lc)) = lc_store lc"
    and "lc_chanType (fst (newLightningChannel lc)) = lc_chanType lc"
    and "lc_remoteCurrentRevocation (fst (newLightningChannel lc)) = lc_remoteCurrentRevocation lc"
    and "lc_remoteNextRevocation (fst (newLightningChannel lc)) = lc_remoteNextRevocation lc"
proof -
  let ?lc0 = "lc\<lparr>lc_chains := mkDual newCommitmentChain newCommitmentChain,
       lc_logs := mkDual
         (newUpdateLog (dc_localLogIndex (lc_remoteCommitment lc)) (dc_localHtlcIndex (lc_remoteCommitment lc)))
         (newUpdateLog (dc_remoteLogIndex (lc_localCommitment lc)) (dc_remoteHtlcIndex (lc_localCommitment lc))),
       lc_heap := (\<lambda>a. zeroDescriptor), lc_next := 0,
       lc_currentHeight := dc_commitHeight (lc_localCommitment lc)\<rparr>"
  let ?lc1 = "addToChain (addToChain ?lc0 Local (lc_localCommitment lc)) Remote (lc_remoteCommitment lc)"
  let ?lc2 = "case db_commitDiff (lc_db lc) of None \<Rightarrow> ?lc1 | Some d \<Rightarrow> addToChain ?lc1 Remote (cd_commitment d)"
  have f: "restore_frame ?lc2 (fst (newLightningChannel lc))"
    using assms restoreStateLogs_frame
    by (simp add: newLightningChannel_def restoreCommitState_def Let_def)
  have "chainOf ?lc2 w
      = (case w of Local \<Rightarrow> [diskCommitToMemCommit lc Local (lc_localCommitment lc)]
         | Remote \<Rightarrow> diskCommitToMemCommit lc Remote (lc_remoteCommitment lc) #
             map (diskCommitToMemCommit lc Remote \<circ> cd_commitment) (case db_commitDiff (lc_db lc) of None \<Rightarrow> [] | Some d \<Rightarrow> [d]))"
    by (cases w) (simp_all add: addToChain_def addCommitment_def newCommitmentChain_def modifyForParty_def
        split: option.split)
  with restore_frame_fields [OF f] show "chainOf (fst (newLightningChannel lc)) w
      = (case w of Local \<Rightarrow> [diskCommitToMemCommit lc Local (lc_localCommitment lc)]
         | Remote \<Rightarrow> diskCommitToMemCommit lc Remote (lc_remoteCommitment lc) #
             map (diskCommitToMemCommit lc Remote \<circ> cd_commitment) (case db_commitDiff (lc_db lc) of None \<Rightarrow> [] | Some d \<Rightarrow> [d]))"
    and "lc_db (fst (newLightningChannel lc)) = lc_db lc"
    and "lc_localCommitment (fst (newLightningChannel lc)) = lc_localCommitment lc"
    and "lc_remoteCommitment (fst (newLightningChannel lc)) = lc_remoteCommitment lc"
    and "lc_currentHeight (fst (newLightningChannel lc)) = dc_commitHeight (lc_localCommitment lc)"
    and "lc_producer (fst (newLightningChannel lc)) = lc_producer lc" "lc_store (fst (newLightningChannel lc)) = lc_store lc"
    and "lc_chanType (fst (newLightningChannel lc)) = lc_chanType lc"
    and "lc_remoteCurrentRevocation (fst (newLightningChannel lc)) = lc_remoteCurrentRevocation lc"
    and "lc_remoteNextRevocation (fst (newLightningChannel lc)) = lc_remoteNextRevocation lc"
    by (simp_all add: addToChain_def split: option.splits)
qed

text \<open>
  Restarting brings back the commitments on disk: the local chain is the one stored commitment, the
  remote chain the stored one and the pending one if there is one, each stored again as the same bytes.
\<close>

lemma restart_chains:
  assumes "disk_inv lc" "atIndex sha256 (lc_producer lc) (dc_commitHeight (lc_localCommitment lc)) = Inr s"
  shows "map toDiskCommit (chainOf (fst (newLightningChannel lc)) Local) = [lc_localCommitment lc] \<and>
    map toDiskCommit (chainOf (fst (newLightningChannel lc)) Remote) = map toDiskCommit (chainOf lc Remote) \<and>
    disk_inv (fst (newLightningChannel lc))"
proof -
  let ?lc' = "fst (newLightningChannel lc)"
  note at = assms(2) and inv = assms(1)
  have h: "dc_commitHeight (lc_localCommitment lc) = lc_currentHeight lc" using inv by (simp add: disk_inv_alt)
  note new = newLightningChannel_chains [OF at]
  have ok: "heights_ok (chainOf lc w)" for w using inv by (simp add: disk_inv_alt)
  from ok [of Remote] have okr: "heights_ok (d_remote (lc_chains lc))" by simp
  have store: "lc_localCommitment lc = toDiskCommit (tail (chainOf lc Local))"
    "lc_remoteCommitment lc = toDiskCommit (tail (chainOf lc Remote))"
    using inv by (simp_all add: disk_inv_alt)
  have loc: "chainOf ?lc' Local = [diskCommitToMemCommit lc Local (toDiskCommit (tail (chainOf lc Local)))]"
    using new(1) [of Local] store by simp
  have rem: "map toDiskCommit (chainOf ?lc' Remote) = map toDiskCommit (chainOf lc Remote) \<and>
      map cm_height (chainOf ?lc' Remote) = map cm_height (chainOf lc Remote)"
  proof (cases "db_commitDiff (lc_db lc)")
    case None
    then have "length (d_remote (lc_chains lc)) = 1" using inv by (simp add: disk_inv_alt)
    then obtain c where c: "d_remote (lc_chains lc) = [c]" by (auto simp: length_Suc_conv)
    then show ?thesis using new(1) [of Remote] store None
      by (simp add: tail_def)
  next
    case (Some d)
    then have "length (d_remote (lc_chains lc)) = 2" "cd_commitment d = toDiskCommit (tip (d_remote (lc_chains lc)))"
      using inv by (simp_all add: disk_inv_alt)
    moreover then obtain c1 c2 where "d_remote (lc_chains lc) = [c1, c2]"
      by (auto simp: length_Suc_conv numeral_2_eq_2)
    ultimately show ?thesis using new(1) [of Remote] store Some
      by (simp add: tail_def tip_def)
  qed
  have ne: "chainOf ?lc' Remote \<noteq> []" "chainOf lc Remote \<noteq> []" using rem okr by (auto simp: heights_ok_def)
  have "heights_ok (chainOf ?lc' w)" for w
  proof (cases w)
    case Local
    then show ?thesis using loc by (simp add: heights_ok_def tail_def)
  next
    case Remote
    have len: "length (chainOf ?lc' Remote) = length (chainOf lc Remote)" using rem map_eq_imp_length_eq by blast
    have nth: "cm_height (chainOf ?lc' Remote ! i) = cm_height (chainOf lc Remote ! i)" if "i < length (chainOf lc Remote)" for i
      using rem that len by (metis nth_map)
    have tl: "cm_height (tail (chainOf ?lc' Remote)) = cm_height (tail (chainOf lc Remote))"
      using nth [of 0] ne len by (simp add: tail_def hd_conv_nth)
    show ?thesis using okr nth tl len ne by (simp add: heights_ok_def Remote)
  qed
  moreover have "tail (chainOf ?lc' Local) = diskCommitToMemCommit lc Local (toDiskCommit (tail (chainOf lc Local)))"
    by (simp add: loc [simplified] tail_def)
  moreover have "toDiskCommit (tail (chainOf ?lc' Remote)) = toDiskCommit (tail (chainOf lc Remote))"
    "toDiskCommit (tip (chainOf ?lc' Remote)) = toDiskCommit (tip (chainOf lc Remote))"
    using arg_cong [OF rem [THEN conjunct1], of hd] arg_cong [OF rem [THEN conjunct1], of last] ne
    by (simp_all add: tail_def tip_def hd_map last_map)
  ultimately show ?thesis
    using rem inv h new(2-5) store loc by (auto simp: disk_inv_alt split: option.splits dest: map_eq_imp_length_eq)
qed



lemma restart_producer:
  assumes "newLightningChannel lc = (lc', None)"
  shows "\<exists>s. atIndex sha256 (lc_producer lc) (dc_commitHeight (lc_localCommitment lc)) = Inr s"
  using assms by (auto simp: newLightningChannel_def restoreCommitState_def Let_def split: sum.splits)

text \<open>The life of a channel: its operations, and any number of restarts in between.\<close>

inductive life_step :: "tx_env \<Rightarrow> channel \<Rightarrow> channel \<Rightarrow> bool" for env where
  lf_step: "chan_step env lc lc' \<Longrightarrow> life_step env lc lc'"
| lf_restart: "newLightningChannel lc = (lc', None) \<Longrightarrow> life_step env lc lc'"

lemma life_run: "(chan_step env)\<^sup>*\<^sup>* lc lc' \<Longrightarrow> (life_step env)\<^sup>*\<^sup>* lc lc'"
  by (induction rule: rtranclp_induct) (auto intro: lf_step rtranclp.rtrancl_into_rtrancl)

lemma life_disk:
  assumes "opened v lc0" "(life_step env)\<^sup>*\<^sup>* lc0 lc"
  shows "disk_inv lc"
  using assms(2)
proof (induction rule: rtranclp_induct)
  case base
  then show ?case using opened_inv(2) [OF assms(1)] .
next
  case (step lc lc')
  from step(2,3) show ?case
  proof (cases rule: life_step.cases)
    case lf_step
    then show ?thesis using step(3) chan_step_disk by blast
  next
    case lf_restart
    then show ?thesis using restart_chains [OF step(3)] restart_producer [OF lf_restart] by auto
  qed
qed

text \<open>
  An entry the wire format can carry: the type of an add is the one its records give, and a fee rate
  fits the 32 bits of the message.
\<close>

definition wire_exact :: "channel \<Rightarrow> paymentDescriptor \<Rightarrow> bool" where
  "wire_exact lc pd \<longleftrightarrow>
     (isAdd pd \<longrightarrow> pd_entryType pd = entryTypeForHtlc (pd_customRecords pd) (lc_chanType lc)) \<and>
     (pd_entryType pd = FeeUpdate \<longrightarrow> (\<exists>f :: u32. pd_amount pd = newMSatFromSatoshis (uint f)))"

definition restoreConversion :: "channel \<Rightarrow> channel_party \<Rightarrow> log_update \<Rightarrow> u64 \<Rightarrow> channel_error + paymentDescriptor" where
  "restoreConversion lc p upd ht =
     (case p of Local \<Rightarrow> logUpdateToPayDesc lc upd (logOf lc Remote) ht
      | Remote \<Rightarrow> remoteLogUpdateToPayDesc lc upd (logOf lc Local) ht)"

text \<open>What a restored entry has in common with the one it was stored for.\<close>

definition restored_copy :: "channel_party \<Rightarrow> paymentDescriptor \<Rightarrow> paymentDescriptor \<Rightarrow> bool" where
  "restored_copy q pd pd' \<longleftrightarrow>
     toLogUpdate pd' = toLogUpdate pd \<and> pd_entryType pd' = pd_entryType pd \<and>
     pd_amount pd' = pd_amount pd \<and> pd_logIndex pd' = pd_logIndex pd \<and>
     (\<forall>a w. isUncommitted (\<lambda>_. pd') w a \<longleftrightarrow> w \<noteq> q)"

lemma heightAt_simps [simp]: "getForParty (heightAt p h) q = (if q = p then h else 0)"
  by (auto simp: heightAt_def) (cases q; simp)

lemma add_back:
  assumes "isAdd pd" "pd_entryType pd = entryTypeForHtlc (pd_customRecords pd) (lc_chanType lc)" "ht \<noteq> 0"
  obtains m where "lu_updateMsg (toLogUpdate pd) = UpdateAddHTLC m"
    "restored_copy q pd (restoredAdd lc (pd_logIndex pd) m q ht)"
proof
  let ?m = "\<lparr>ua_chanID = pd_chanID pd, ua_ID = pd_htlcIndex pd, ua_amount = pd_amount pd,
              ua_paymentHash = pd_rHash pd, ua_expiry = pd_timeout pd,
              ua_onionBlob = pd_onionBlob pd, ua_blindingPoint = pd_blindingPoint pd,
              ua_customRecords = pd_customRecords pd\<rparr>"
  show m: "lu_updateMsg (toLogUpdate pd) = UpdateAddHTLC ?m"
    using assms(1) by (auto simp: toLogUpdate_def isAdd_def)
  show "restored_copy q pd (restoredAdd lc (pd_logIndex pd) ?m q ht)"
    using assms by (auto simp: restored_copy_def restoredAdd_def toLogUpdate_def isAdd_def isUncommitted_def isResolution_def)
qed

lemma fee_back:
  assumes "pd_entryType pd = FeeUpdate" "pd_amount pd = newMSatFromSatoshis (uint (f :: u32))" "ht \<noteq> 0"
  shows "lu_updateMsg (toLogUpdate pd) = UpdateFee (pd_chanID pd) f"
    "restored_copy q pd (restoredFee (pd_logIndex pd) (pd_chanID pd) f q ht)"
proof -
  have "uint f < 2 ^ 32" using uint_lt2p [of f] by simp
  then have "toSatoshis (newMSatFromSatoshis (uint f)) = uint f" by (intro feeUpdate_amount) auto
  then show "lu_updateMsg (toLogUpdate pd) = UpdateFee (pd_chanID pd) f"
    "restored_copy q pd (restoredFee (pd_logIndex pd) (pd_chanID pd) f q ht)"
    using assms by (auto simp: restored_copy_def restoredFee_def toLogUpdate_def isUncommitted_def isResolution_def)
qed

lemma resolution_back:
  assumes "isResolution pd" "lookupHtlc u (pd_parentIndex pd) = Some a" "pd_amount (h a) = pd_amount pd"
    "pd_htlcIndex (h a) = pd_parentIndex pd" "ht \<noteq> 0"
  obtains pd' where "restoredUpdate h u (toLogUpdate pd) q ht = Inr pd'" "restored_copy q pd pd'"
    "pd_parentIndex pd' = pd_parentIndex pd"
proof -
  have "\<exists>pd'. restoredUpdate h u (toLogUpdate pd) q ht = Inr pd' \<and> restored_copy q pd pd' \<and>
      pd_parentIndex pd' = pd_parentIndex pd"
  proof -
    consider "pd_entryType pd = Settle" | "pd_entryType pd = Fail" | "pd_entryType pd = MalformedFail"
      using assms(1) by (auto simp: isResolution_def)
    then show ?thesis
      by cases (use assms in \<open>auto simp: restored_copy_def restoredUpdate_def restoredResolution_def toLogUpdate_def
        isUncommitted_def isResolution_def\<close>)
  qed
  then show ?thesis using that by blast
qed

text \<open>
  Every entry of the logs of a reachable channel survives the way to disk and back: its stored
  message converts, without a nil dereference, to an entry of the same kind, amount and log index
  that stands for the same message and is committed on exactly the chain it is restored for.
\<close>

theorem log_entry_roundtrip:
  assumes "opened v lc0" "(chan_step env)\<^sup>*\<^sup>* lc0 lc" "e \<in> set (ul_list (logOf lc p))"
    and "wire_exact lc (lc_heap lc e)" "ht \<noteq> 0"
  shows "\<exists>pd. restoreConversion lc p (toLogUpdate (lc_heap lc e)) ht = Inr pd \<and>
     restored_copy (counterParty p) (lc_heap lc e) pd"
proof -
  let ?pd = "lc_heap lc e" and ?q = "counterParty p"
  have "chan_inv v lc" using chan_run_inv(1) [OF assms(2,1)] .
  then have wf: "logs_wf (lc_heap lc) (lc_next lc) (lc_logs lc)" by (simp add: chan_inv_def)
  note parts = logs_wf_parts [OF wf, of p]
  have li: "lu_logIndex (toLogUpdate ?pd) = pd_logIndex ?pd" by (simp add: toLogUpdate_def)
  have conv: "restoreConversion lc p upd ht = (case lu_updateMsg upd of
      UpdateAddHTLC m \<Rightarrow> Inr (restoredAdd lc (lu_logIndex upd) m ?q ht)
    | _ \<Rightarrow> restoredUpdate (lc_heap lc) (logOf lc ?q) upd ?q ht)" for upd
    by (cases p; cases "lu_updateMsg upd")
      (auto simp: restoreConversion_def logUpdateToPayDesc_def remoteLogUpdateToPayDesc_def)
  consider (add) "isAdd ?pd" | (fee) "pd_entryType ?pd = FeeUpdate" | (res) "isResolution ?pd"
    using not_add_kinds by blast
  then show ?thesis
  proof cases
    case add
    then have "pd_entryType ?pd = entryTypeForHtlc (pd_customRecords ?pd) (lc_chanType lc)"
      using assms(4) by (simp add: wire_exact_def)
    then obtain m where "lu_updateMsg (toLogUpdate ?pd) = UpdateAddHTLC m"
      "restored_copy ?q ?pd (restoredAdd lc (pd_logIndex ?pd) m ?q ht)"
      using add_back [OF add _ assms(5)] by metis
    then show ?thesis by (simp add: conv li)
  next
    case fee
    then obtain f :: u32 where "pd_amount ?pd = newMSatFromSatoshis (uint f)"
      using assms(4) by (auto simp: wire_exact_def)
    note fb = fee_back [OF fee this assms(5)]
    then show ?thesis by (simp add: conv restoredUpdate_def li fb)
  next
    case res
    obtain a where a: "ul_htlcIndex (logOf lc ?q) (pd_parentIndex ?pd) = Some a" "pd_amount (lc_heap lc a) = pd_amount ?pd"
      using resolves_parent [OF parts(3) assms(3) res] by metis
    then have "pd_htlcIndex (lc_heap lc a) = pd_parentIndex ?pd" using log_wf_htlc [OF parts(2)] by blast
    from resolution_back [where h = "lc_heap lc" and q = ?q, OF res a(1) [folded lookupHtlc_def] a(2) this assms(5)]
    obtain pd' where "restoredUpdate (lc_heap lc) (logOf lc ?q) (toLogUpdate ?pd) ?q ht = Inr pd'" "restored_copy ?q ?pd pd'"
      by metis
    moreover have "restoreConversion lc p (toLogUpdate ?pd) ht = restoredUpdate (lc_heap lc) (logOf lc ?q) (toLogUpdate ?pd) ?q ht"
      using res by (auto simp: conv toLogUpdate_def isResolution_def)
    ultimately show ?thesis by auto
  qed
qed

theorem log_entry_roundtrip_witness:
  "\<exists>pd. logUpdateToPayDesc demo_signed (toLogUpdate (lc_heap demo_signed 0)) (logOf demo_signed Remote) 1 = Inr pd \<and>
     restored_copy Remote (lc_heap demo_signed 0) pd"
proof -
  have l: "ul_list (logOf demo_signed Local) = [0]" "lc_heap demo_signed 0 = setCommitHeight Remote 1 demo_pd"
    using demo_sign(4,5) demo_added by (simp_all add: demo_log_def)
  have "pd_customRecords demo_pd = Map.empty"
    by (simp add: demo_pd_def htlcAddDescriptor_def demo_htlc_def)
  then have "wire_exact demo_signed (lc_heap demo_signed 0)"
    using l(2) by (simp add: wire_exact_def demo_pd entryTypeForHtlc_def setCommitHeight_def)
  from log_entry_roundtrip [OF demo_opened demo_run(2) _ this, of Local 1] l(1)
  show ?thesis by (simp add: restoreConversion_def)
qed

end
