(* ===== verification/Channel_Restart.thy ===== *)
theory Channel_Restart
  imports Channel_Restore
begin

text \<open>
  What a restart brings back: exactly when the stored messages can be restored on top of the stored
  commitments, and the logs that come of it, entry by entry.
\<close>

section \<open>The contents of the logs\<close>

definition entries :: "channel \<Rightarrow> channel_party \<Rightarrow> paymentDescriptor list" where
  "entries lc p = map (lc_heap lc) (ul_list (logOf lc p))"

definition known :: "channel \<Rightarrow> channel_party \<Rightarrow> u64 set" where
  "known lc p = dom (ul_htlcIndex (logOf lc p))"

text \<open>Addresses in use are below the next one, and an HTLC is found under its own index.\<close>

definition addrs_ok :: "channel \<Rightarrow> bool" where
  "addrs_ok lc \<longleftrightarrow> (\<forall>p. (\<forall>a \<in> set (ul_list (logOf lc p)). a < lc_next lc) \<and>
     (\<forall>i a. ul_htlcIndex (logOf lc p) i = Some a \<longrightarrow> a < lc_next lc \<and> pd_htlcIndex (lc_heap lc a) = i))"

lemma addrs_okD:
  assumes "addrs_ok lc"
  shows "a \<in> set (ul_list (logOf lc p)) \<Longrightarrow> a < lc_next lc"
    "ul_htlcIndex (logOf lc p) i = Some a \<Longrightarrow> a < lc_next lc"
    "ul_htlcIndex (logOf lc p) i = Some a \<Longrightarrow> pd_htlcIndex (lc_heap lc a) = i"
  using assms unfolding addrs_ok_def by blast+

definition counters :: "channel \<Rightarrow> channel_party \<Rightarrow> u64 \<times> u64" where
  "counters lc p = (ul_logIndex (logOf lc p), ul_htlcCounter (logOf lc p))"

text \<open>
  Entering a descriptor into a log, in general: \<open>f\<close> appends the new address to the list, or leaves the
  log alone, and may file it under its own HTLC index.
\<close>

lemma restoreEntry_effect:
  assumes ok: "addrs_ok lc"
    and l: "ul_list (f h u n) = ul_list u @ (if new then [n] else [])"
    and x: "ul_htlcIndex (f h u n) = (if key then (ul_htlcIndex u)(pd_htlcIndex pd \<mapsto> n) else ul_htlcIndex u)"
    and d: "h = (lc_heap lc)(lc_next lc := pd)" "u = logOf lc p" "n = lc_next lc"
  shows "addrs_ok (restoreEntry lc p pd f)"
    "entries (restoreEntry lc p pd f) q = entries lc q @ (if q = p \<and> new then [pd] else [])"
    "known (restoreEntry lc p pd f) q = known lc q \<union> (if q = p \<and> key then {pd_htlcIndex pd} else {})"
proof -
  let ?lc = "restoreEntry lc p pd f"
  have e: "lc_heap ?lc = h" "lc_next ?lc = Suc n" "lc_logs ?lc = setForParty (lc_logs lc) p (f h u n)"
    by (simp_all add: restoreEntry_def allocate_def Let_def d)
  have old: "map h (ul_list (logOf lc q)) = map (lc_heap lc) (ul_list (logOf lc q))" for q
    using addrs_okD(1) [OF ok, of _ q] by (auto simp: d)
  show "entries ?lc q = entries lc q @ (if q = p \<and> new then [pd] else [])"
    using l old by (auto simp: entries_def e d)
  show "known ?lc q = known lc q \<union> (if q = p \<and> key then {pd_htlcIndex pd} else {})"
    using x by (auto simp: known_def e d)
  have idx: "ul_htlcIndex (logOf ?lc r) i = Some a \<Longrightarrow> (r = p \<and> key \<and> a = n \<and> i = pd_htlcIndex pd) \<or> ul_htlcIndex (logOf lc r) i = Some a" for r i a
    using x by (auto simp: e d split: if_splits)
  have mem: "a \<in> set (ul_list (logOf ?lc r)) \<Longrightarrow> a = n \<or> a \<in> set (ul_list (logOf lc r))" for r a
    using l by (auto simp: e d split: if_splits)
  show "addrs_ok ?lc"
    unfolding addrs_ok_def
  proof (intro allI conjI ballI impI)
    fix r a
    assume "a \<in> set (ul_list (logOf ?lc r))"
    from mem [OF this] show "a < lc_next ?lc" using addrs_okD(1) [OF ok] by (fastforce simp: e d)
  next
    fix r i a
    assume a: "ul_htlcIndex (logOf ?lc r) i = Some a"
    show "a < lc_next ?lc" using idx [OF a] addrs_okD(2) [OF ok] by (fastforce simp: e d)
    show "pd_htlcIndex (lc_heap ?lc a) = i"
      using idx [OF a] addrs_okD(2,3) [OF ok] by (fastforce simp: e d)
  qed
qed

lemma restoreEntry_counters:
  "counters (restoreEntry lc p pd f) q = (if q = p
     then (let u = f ((lc_heap lc)(lc_next lc := pd)) (logOf lc p) (lc_next lc) in (ul_logIndex u, ul_htlcCounter u))
     else counters lc q)"
  by (simp add: counters_def restoreEntry_def allocate_def Let_def)

lemma restoreEntry_chanType [simp]:
  "lc_chanType (restoreEntry lc p pd f) = lc_chanType lc" "lc_chanType (markParent lc p i) = lc_chanType lc"
  by (simp_all add: restoreEntry_def allocate_def pushLog_def markParent_def Let_def)

lemma markParent_contents [simp]:
  "entries (markParent lc p i) q = entries lc q" "known (markParent lc p i) q = known lc q"
  "counters (markParent lc p i) q = counters lc q" "addrs_ok (markParent lc p i) = addrs_ok lc"
  by (auto simp: entries_def known_def counters_def addrs_ok_def markParent_def markHtlcModified_def)

lemmas append_htlc = restoreEntry_effect [where f = "\<lambda>_. appendHtlc" and new = True and key = True,
    OF _ _ _ refl refl refl]
lemmas append_update = restoreEntry_effect [where f = "\<lambda>_. appendUpdate" and new = True and key = False,
    OF _ _ _ refl refl refl]
lemmas restore_update = restoreEntry_effect [where f = restoreUpdate and new = True and key = False,
    OF _ _ _ refl refl refl]

lemma append_update_effect:
  assumes "addrs_ok lc"
  shows "addrs_ok (restoreEntry lc p pd (\<lambda>_. appendUpdate))"
    "entries (restoreEntry lc p pd (\<lambda>_. appendUpdate)) q = entries lc q @ (if q = p then [pd] else [])"
    "known (restoreEntry lc p pd (\<lambda>_. appendUpdate)) q = known lc q"
    "counters (restoreEntry lc p pd (\<lambda>_. appendUpdate)) q =
       (if q = p then (fst (counters lc p) + 1, snd (counters lc p)) else counters lc q)"
  using append_update [OF assms] by (simp_all add: appendUpdate_def restoreEntry_counters) (simp add: counters_def)

lemma restore_update_effect:
  assumes "addrs_ok lc"
  shows "addrs_ok (restoreEntry lc p pd restoreUpdate)"
    "entries (restoreEntry lc p pd restoreUpdate) q = entries lc q @ (if q = p then [pd] else [])"
    "known (restoreEntry lc p pd restoreUpdate) q = known lc q"
    "counters (restoreEntry lc p pd restoreUpdate) q = counters lc q"
  using restore_update [OF assms] by (simp_all add: restoreUpdate_def restoreEntry_counters) (simp add: counters_def)

lemma append_htlc_effect:
  assumes "addrs_ok lc" "pd_htlcIndex pd = snd (counters lc p)"
  shows "addrs_ok (restoreEntry lc p pd (\<lambda>_. appendHtlc))"
    "entries (restoreEntry lc p pd (\<lambda>_. appendHtlc)) q = entries lc q @ (if q = p then [pd] else [])"
    "known (restoreEntry lc p pd (\<lambda>_. appendHtlc)) q = known lc q \<union> (if q = p then {pd_htlcIndex pd} else {})"
    "counters (restoreEntry lc p pd (\<lambda>_. appendHtlc)) q =
       (if q = p then (fst (counters lc p) + 1, snd (counters lc p) + 1) else counters lc q)"
proof -
  have "pd_htlcIndex pd = ul_htlcCounter (logOf lc p)" using assms(2) by (simp add: counters_def)
  note e = append_htlc [OF assms(1), of p pd, unfolded this]
  show "addrs_ok (restoreEntry lc p pd (\<lambda>_. appendHtlc))"
    "entries (restoreEntry lc p pd (\<lambda>_. appendHtlc)) q = entries lc q @ (if q = p then [pd] else [])"
    "known (restoreEntry lc p pd (\<lambda>_. appendHtlc)) q = known lc q \<union> (if q = p then {pd_htlcIndex pd} else {})"
    using e assms(2) by (simp_all add: appendHtlc_def counters_def)
  show "counters (restoreEntry lc p pd (\<lambda>_. appendHtlc)) q =
       (if q = p then (fst (counters lc p) + 1, snd (counters lc p) + 1) else counters lc q)"
    unfolding restoreEntry_counters by (simp add: appendHtlc_def counters_def)
qed

lemma restore_htlc_effect:
  assumes "addrs_ok lc"
  shows "addrs_ok (restoreEntry lc p pd restoreHtlc)"
    "entries (restoreEntry lc p pd restoreHtlc) q =
       entries lc q @ (if q = p \<and> pd_htlcIndex pd \<notin> known lc p then [pd] else [])"
    "known (restoreEntry lc p pd restoreHtlc) q = known lc q \<union> (if q = p then {pd_htlcIndex pd} else {})"
    "counters (restoreEntry lc p pd restoreHtlc) q = counters lc q"
proof -
  define new where "new = (pd_htlcIndex pd \<notin> known lc p)"
  note e = restoreEntry_effect [where f = restoreHtlc and new = new and key = new, OF assms _ _ refl refl refl]
  have l: "ul_list (restoreHtlc ((lc_heap lc)(lc_next lc := pd)) (logOf lc p) (lc_next lc))
      = ul_list (logOf lc p) @ (if new then [lc_next lc] else [])"
    by (auto simp: restoreHtlc_def new_def known_def split: option.split)
  have x: "ul_htlcIndex (restoreHtlc ((lc_heap lc)(lc_next lc := pd)) (logOf lc p) (lc_next lc))
      = (if new then (ul_htlcIndex (logOf lc p))(pd_htlcIndex pd \<mapsto> lc_next lc) else ul_htlcIndex (logOf lc p))"
    by (auto simp: restoreHtlc_def new_def known_def split: option.split)
  show "addrs_ok (restoreEntry lc p pd restoreHtlc)" by (rule e(1) [OF l x])
  show "entries (restoreEntry lc p pd restoreHtlc) q =
       entries lc q @ (if q = p \<and> pd_htlcIndex pd \<notin> known lc p then [pd] else [])"
    using e(2) [OF l x, of q] by (simp add: new_def)
  show "known (restoreEntry lc p pd restoreHtlc) q = known lc q \<union> (if q = p then {pd_htlcIndex pd} else {})"
    using e(3) [OF l x, of q] by (auto simp: new_def)
  show "counters (restoreEntry lc p pd restoreHtlc) q = counters lc q"
    unfolding restoreEntry_counters by (simp add: restoreHtlc_def counters_def Let_def split: option.split)
qed

section \<open>The stored HTLCs\<close>

text \<open>The first HTLC of each index, of those not seen before.\<close>

fun firstHtlcs :: "u64 set \<Rightarrow> disk_htlc list \<Rightarrow> disk_htlc list" where
  "firstHtlcs seen [] = []"
| "firstHtlcs seen (h # hs) =
     (if dh_htlcIndex h \<in> seen then firstHtlcs seen hs
      else h # firstHtlcs (insert (dh_htlcIndex h) seen) hs)"

lemma firstHtlcs_distinct: "distinct (map dh_htlcIndex hs) \<Longrightarrow> seen \<inter> dh_htlcIndex ` set hs = {} \<Longrightarrow> firstHtlcs seen hs = hs"
  by (induction hs arbitrary: seen) auto

lemma restoreHtlcs_effect:
  assumes "addrs_ok lc" "\<forall>h \<in> set hs. dh_incoming h = b"
  shows "addrs_ok (restoreHtlcs p f (map (diskHtlcToPayDesc c) hs) lc) \<and>
    (\<exists>es. entries (restoreHtlcs p f (map (diskHtlcToPayDesc c) hs) lc) p = entries lc p @ es \<and>
       map (diskHtlc b) es = firstHtlcs (known lc p) hs) \<and>
    (\<forall>q. q \<noteq> p \<longrightarrow> entries (restoreHtlcs p f (map (diskHtlcToPayDesc c) hs) lc) q = entries lc q) \<and>
    (\<forall>q. known (restoreHtlcs p f (map (diskHtlcToPayDesc c) hs) lc) q = known lc q \<union> (if q = p then dh_htlcIndex ` set hs else {})) \<and>
    (\<forall>q. counters (restoreHtlcs p f (map (diskHtlcToPayDesc c) hs) lc) q = counters lc q)"
  using assms
proof (induction hs arbitrary: lc)
  case (Cons h hs)
  let ?pd = "diskHtlcToPayDesc c h"
  let ?e = "?pd\<lparr>pd_addHeights := f ?pd\<rparr>"
  have i: "pd_htlcIndex ?e = dh_htlcIndex h" "diskHtlc b ?e = h"
    using Cons.prems(2) by (auto simp: diskHtlcToPayDesc_def diskHtlc_def)
  note r = restore_htlc_effect [OF Cons.prems(1), of p ?e, unfolded i(1)]
  obtain es where es: "entries (restoreHtlcs p f (map (diskHtlcToPayDesc c) hs) (restoreEntry lc p ?e restoreHtlc)) p
      = entries (restoreEntry lc p ?e restoreHtlc) p @ es"
    "map (diskHtlc b) es = firstHtlcs (known (restoreEntry lc p ?e restoreHtlc) p) hs"
    using Cons.IH [OF r(1)] Cons.prems(2) by auto
  have "known lc p \<union> {dh_htlcIndex h} = (if dh_htlcIndex h \<in> known lc p then known lc p else insert (dh_htlcIndex h) (known lc p))" by auto
  then have "\<exists>es. entries (restoreHtlcs p f (map (diskHtlcToPayDesc c) (h # hs)) lc) p = entries lc p @ es \<and>
       map (diskHtlc b) es = firstHtlcs (known lc p) (h # hs)"
    using es r(2,3) [of p] i(2) by (intro exI [of _ "(if dh_htlcIndex h \<notin> known lc p then [?e] else []) @ es"]) (simp split: if_splits)
  then show ?case
    using Cons.IH [OF r(1)] Cons.prems(2) r(2-4) by auto
qed simp

section \<open>The stored messages\<close>

definition addId :: "log_update \<Rightarrow> u64 option" where
  "addId upd = (case lu_updateMsg upd of UpdateAddHTLC m \<Rightarrow> Some (ua_ID m) | _ \<Rightarrow> None)"

definition resolvedIds :: "log_update list \<Rightarrow> u64 set" where
  "resolvedIds us = {i. \<exists>u \<in> set us. resolvedId u = Some i}"

lemma resolvedIds_simps [simp]:
  "resolvedIds [] = {}" "resolvedIds (u # us) = set_option (resolvedId u) \<union> resolvedIds us"
  by (auto simp: resolvedIds_def)

lemma restoredUpdate_result:
  assumes "\<And>i a. ul_htlcIndex u i = Some a \<Longrightarrow> pd_htlcIndex (hp a) = i" "addId upd = None"
  shows "if set_option (resolvedId upd) \<subseteq> dom (ul_htlcIndex u)
    then \<exists>pd. restoredUpdate hp u upd p ht = Inr pd \<and> toLogUpdate pd = upd \<and> \<not> isAdd pd \<and>
      (pd_entryType pd = FeeUpdate \<longleftrightarrow> resolvedId upd = None)
    else \<exists>e. restoredUpdate hp u upd p ht = Inl e"
proof (cases "lu_updateMsg upd")
  case (UpdateFee chanID f)
  have "uint f < 2 ^ 32" using uint_lt2p [of f] by simp
  then have "toSatoshis (newMSatFromSatoshis (uint f)) = uint f" by (intro feeUpdate_amount) auto
  then show ?thesis using UpdateFee
    by (simp add: restoredUpdate_def restoredFee_def resolvedId_def toLogUpdate_def isAdd_def)
qed (use assms in \<open>auto simp: restoredUpdate_def restoredResolution_def lookupHtlc_def resolvedId_def toLogUpdate_def
      isAdd_def addId_def split: option.splits\<close>)

lemma restoredUpdate_known:
  assumes "addrs_ok lc" "addId upd = None"
  shows "if set_option (resolvedId upd) \<subseteq> known lc q
    then \<exists>pd. restoredUpdate (lc_heap lc) (logOf lc q) upd p ht = Inr pd \<and> toLogUpdate pd = upd \<and> \<not> isAdd pd \<and>
      (pd_entryType pd = FeeUpdate \<longleftrightarrow> resolvedId upd = None)
    else \<exists>e. restoredUpdate (lc_heap lc) (logOf lc q) upd p ht = Inl e"
proof -
  have "\<And>i a. ul_htlcIndex (logOf lc q) i = Some a \<Longrightarrow> pd_htlcIndex (lc_heap lc a) = i"
    using addrs_okD(3) [OF assms(1)] .
  from restoredUpdate_result [where hp = "lc_heap lc", OF this assms(2)] show ?thesis by (simp add: known_def)
qed

lemma restoredAdd_result:
  assumes "lu_updateMsg upd = UpdateAddHTLC m"
  shows "toLogUpdate (restoredAdd lc (lu_logIndex upd) m p ht) = upd" "isAdd (restoredAdd lc (lu_logIndex upd) m p ht)"
    "pd_htlcIndex (restoredAdd lc (lu_logIndex upd) m p ht) = ua_ID m"
  using assms by (auto simp: restoredAdd_def toLogUpdate_def isAdd_def entryTypeForHtlc_def)

lemma toLogUpdate_index: "toLogUpdate pd = upd \<Longrightarrow> pd_logIndex pd = lu_logIndex upd"
  by (auto simp: toLogUpdate_def)

lemma toLogUpdate_heights [simp]:
  "toLogUpdate (pd\<lparr>pd_addHeights := a\<rparr>) = toLogUpdate pd" "toLogUpdate (pd\<lparr>pd_rmvHeights := a\<rparr>) = toLogUpdate pd"
  "toLogUpdate (pd\<lparr>pd_logIndex := i\<rparr>) = (toLogUpdate pd)\<lparr>lu_logIndex := i\<rparr>"
  by (cases "pd_entryType pd"; simp add: toLogUpdate_def)+

text \<open>
  The messages of a pending commitment as they were numbered: from the log index of the commitment
  before on, where a fee update may have been stored without its number.
\<close>

fun numberUpdates :: "u64 \<Rightarrow> log_update list \<Rightarrow> log_update list" where
  "numberUpdates i [] = []"
| "numberUpdates i (u # us) = u\<lparr>lu_logIndex := i\<rparr> # numberUpdates (i + 1) us"

definition addIds :: "log_update list \<Rightarrow> u64 list" where
  "addIds us = List.map_filter addId us"

lemma addIds_simps [simp]:
  "addIds [] = []" "addIds (u # us) = (case addId u of None \<Rightarrow> addIds us | Some i \<Rightarrow> i # addIds us)"
  by (simp_all add: addIds_def split: option.split)

definition pendingFits :: "u64 \<times> u64 \<Rightarrow> log_update list \<Rightarrow> bool" where
  "pendingFits c us \<longleftrightarrow>
     list_all2 (\<lambda>u v. u = v \<or> addId u = None \<and> resolvedId u = None \<and> lu_logIndex u = 0) us (numberUpdates (fst c) us) \<and>
     addIds us = map (\<lambda>k. snd c + of_nat k) [0..<length (addIds us)]"

lemma upt_shift: "map (\<lambda>k. (c :: u64) + of_nat k) [0..<Suc n] = c # map (\<lambda>k. (c + 1) + of_nat k) [0..<n]"
  by (simp add: upt_conv_Cons map_Suc_upt [symmetric] add_ac del: upt_Suc)

lemma pendingFits_simps:
  "pendingFits c []"
  "pendingFits (i, j) (u # us) \<longleftrightarrow>
     (lu_logIndex u = i \<or> addId u = None \<and> resolvedId u = None \<and> lu_logIndex u = 0) \<and>
     (case addId u of None \<Rightarrow> pendingFits (i + 1, j) us | Some k \<Rightarrow> k = j \<and> pendingFits (i + 1, j + 1) us)"
proof -
  have "u = u\<lparr>lu_logIndex := i\<rparr> \<longleftrightarrow> lu_logIndex u = i" by (cases u) auto
  then show "pendingFits (i, j) (u # us) \<longleftrightarrow>
     (lu_logIndex u = i \<or> addId u = None \<and> resolvedId u = None \<and> lu_logIndex u = 0) \<and>
     (case addId u of None \<Rightarrow> pendingFits (i + 1, j) us | Some k \<Rightarrow> k = j \<and> pendingFits (i + 1, j + 1) us)"
    by (cases "addId u") (auto simp: pendingFits_def upt_shift simp del: upt_Suc)
qed (simp add: pendingFits_def)

lemma logUpdate_result:
  assumes "addrs_ok lc"
  shows "case addId upd of
      Some i \<Rightarrow> (\<exists>pd. logUpdateToPayDesc lc upd (logOf lc Remote) ht = Inr pd \<and> toLogUpdate pd = upd \<and> isAdd pd \<and>
        pd_htlcIndex pd = i)
    | None \<Rightarrow> if set_option (resolvedId upd) \<subseteq> known lc Remote
        then \<exists>pd. logUpdateToPayDesc lc upd (logOf lc Remote) ht = Inr pd \<and> toLogUpdate pd = upd \<and> \<not> isAdd pd \<and>
          (pd_entryType pd = FeeUpdate \<longleftrightarrow> resolvedId upd = None)
        else \<exists>e. logUpdateToPayDesc lc upd (logOf lc Remote) ht = Inl e"
proof (cases "addId upd")
  case None
  then have "logUpdateToPayDesc lc upd (logOf lc Remote) ht = restoredUpdate (lc_heap lc) (logOf lc Remote) upd Remote ht"
    by (auto simp: logUpdateToPayDesc_def addId_def split: update_msg.splits)
  then show ?thesis
    using restoredUpdate_known [OF assms None, of Remote Remote ht] None by (simp split: if_splits)
next
  case (Some i)
  then obtain m where "lu_updateMsg upd = UpdateAddHTLC m" "ua_ID m = i"
    by (auto simp: addId_def split: update_msg.splits)
  then show ?thesis using Some restoredAdd_result [of upd m lc] by (simp add: logUpdateToPayDesc_def)
qed

lemma remoteLogUpdate_result:
  assumes "addrs_ok lc"
  shows "case addId upd of
      Some i \<Rightarrow> (\<exists>pd. remoteLogUpdateToPayDesc lc upd (logOf lc Local) ht = Inr pd \<and> toLogUpdate pd = upd \<and> isAdd pd \<and>
        pd_htlcIndex pd = i)
    | None \<Rightarrow> if set_option (resolvedId upd) \<subseteq> known lc Local
        then \<exists>pd. remoteLogUpdateToPayDesc lc upd (logOf lc Local) ht = Inr pd \<and> toLogUpdate pd = upd \<and> \<not> isAdd pd \<and>
          (pd_entryType pd = FeeUpdate \<longleftrightarrow> resolvedId upd = None)
        else \<exists>e. remoteLogUpdateToPayDesc lc upd (logOf lc Local) ht = Inl e"
proof (cases "addId upd")
  case None
  then have "remoteLogUpdateToPayDesc lc upd (logOf lc Local) ht = restoredUpdate (lc_heap lc) (logOf lc Local) upd Local ht"
    by (auto simp: remoteLogUpdateToPayDesc_def addId_def split: update_msg.splits)
  then show ?thesis
    using restoredUpdate_known [OF assms None, of Local Local ht] None by (simp split: if_splits)
next
  case (Some i)
  then obtain m where "lu_updateMsg upd = UpdateAddHTLC m" "ua_ID m = i"
    by (auto simp: addId_def split: update_msg.splits)
  then show ?thesis using Some restoredAdd_result [of upd m lc] by (simp add: remoteLogUpdateToPayDesc_def)
qed

lemma localLogUpdate_result:
  assumes "addrs_ok lc"
  shows "if addId upd = None \<and> set_option (resolvedId upd) \<subseteq> known lc Remote
    then \<exists>pd. localLogUpdateToPayDesc lc upd (logOf lc Remote) ht = Inr pd \<and> toLogUpdate pd = upd \<and> \<not> isAdd pd
    else \<exists>e. localLogUpdateToPayDesc lc upd (logOf lc Remote) ht = Inl e"
proof (cases "addId upd")
  case None
  then show ?thesis
    using restoredUpdate_known [OF assms None, of Remote Remote ht]
    by (auto simp: localLogUpdateToPayDesc_def split: if_splits)
next
  case (Some i)
  then show ?thesis by (auto simp: addId_def localLogUpdateToPayDesc_def restoredUpdate_def split: update_msg.splits)
qed

lemma restorePendingLocalUpdates_effect:
  assumes "addrs_ok lc" "restorePendingLocalUpdates ht us lc = (lc', err)"
  shows "(err = None \<longleftrightarrow> pendingFits (counters lc Local) us \<and> resolvedIds us \<subseteq> known lc Remote) \<and>
    (err = None \<longrightarrow> addrs_ok lc' \<and>
      (\<exists>ups. entries lc' Local = entries lc Local @ ups \<and>
         map toLogUpdate ups = numberUpdates (fst (counters lc Local)) us) \<and>
      entries lc' Remote = entries lc Remote \<and> known lc' Remote = known lc Remote \<and>
      known lc' Local = known lc Local \<union> set (addIds us) \<and> counters lc' Remote = counters lc Remote)"
  using assms
proof (induction us arbitrary: lc)
  case Nil
  then show ?case by (auto simp: pendingFits_simps)
next
  case (Cons u us)
  obtain i j where c: "counters lc Local = (i, j)" by fastforce
  have ix: "ul_logIndex (d_local (lc_logs lc)) = i" "ul_htlcCounter (d_local (lc_logs lc)) = j"
    using c by (simp_all add: counters_def)
  note res = logUpdate_result [OF Cons.prems(1), of u ht, unfolded getForParty.simps]
  note step = Cons.prems(2) [unfolded restorePendingLocalUpdates.simps Let_def ix]
  show ?case
  proof (cases "addId u")
    case (Some k)
    then obtain pd where pd: "logUpdateToPayDesc lc u (d_remote (lc_logs lc)) ht = Inr pd" "toLogUpdate pd = u" "isAdd pd"
      "pd_htlcIndex pd = k" using res by auto
    have nofee: "pd_entryType pd \<noteq> FeeUpdate" using pd(3) by (auto simp: isAdd_def)
    have li: "pd_logIndex pd = lu_logIndex u" using toLogUpdate_index [OF pd(2)] .
    have nr: "resolvedId u = None" using Some by (auto simp: addId_def resolvedId_def split: update_msg.splits)
    show ?thesis
    proof (cases "lu_logIndex u = i \<and> k = j")
      case True
      let ?lc = "restoreEntry lc Local pd (\<lambda>_. appendHtlc)"
      have "pd_htlcIndex pd = snd (counters lc Local)" using pd(4) True c by simp
      note e = append_htlc_effect [OF Cons.prems(1) this]
      have r: "restorePendingLocalUpdates ht us ?lc = (lc', err)"
        using step pd nofee li True by simp
      have u: "u\<lparr>lu_logIndex := i\<rparr> = u" using True by simp
      have cl: "counters ?lc Local = (i + 1, j + 1)" using e(4) [of Local] c by simp
      show ?thesis
        using Cons.IH [OF e(1) r] e(2-4) c cl Some pd(2,4) True nr u
        by (auto simp: pendingFits_simps)
    next
      case False
      then have "err \<noteq> None" using step pd nofee li by (auto split: if_splits)
      then show ?thesis using False Some c nr by (auto simp: pendingFits_simps)
    qed
  next
    case None
    show ?thesis
    proof (cases "set_option (resolvedId u) \<subseteq> known lc Remote")
      case False
      then obtain e where "logUpdateToPayDesc lc u (d_remote (lc_logs lc)) ht = Inl e" using res None by auto
      then show ?thesis using step False by auto
    next
      case known: True
      then obtain pd where pd: "logUpdateToPayDesc lc u (d_remote (lc_logs lc)) ht = Inr pd" "toLogUpdate pd = u"
        "\<not> isAdd pd" "pd_entryType pd = FeeUpdate \<longleftrightarrow> resolvedId u = None" using res None by auto
      have li: "pd_logIndex pd = lu_logIndex u" using toLogUpdate_index [OF pd(2)] .
      define pd' where "pd' = (if resolvedId u = None \<and> lu_logIndex u = 0 then pd\<lparr>pd_logIndex := i\<rparr> else pd)"
      have pd': "pd_logIndex pd' = lu_logIndex u \<or> resolvedId u = None \<and> lu_logIndex u = 0 \<and> pd_logIndex pd' = i"
        "\<not> isAdd pd'" "pd_entryType pd' = FeeUpdate \<longleftrightarrow> resolvedId u = None" "pd_parentIndex pd' = pd_parentIndex pd"
        using pd li by (auto simp: pd'_def isAdd_def)
      have same: "(if pd_entryType pd = FeeUpdate \<and> pd_logIndex pd = 0 \<and> i > 0 then pd\<lparr>pd_logIndex := i\<rparr> else pd) = pd'"
      proof (cases "i = 0")
        case True
        then show ?thesis using li pd(4) by (cases pd) (auto simp: pd'_def)
      next
        case False
        then have "i > 0" by (simp add: word_neq_0_conv)
        then show ?thesis using li pd(4) by (simp add: pd'_def)
      qed
      note step' = step [unfolded pd(1) sum.case same]
      show ?thesis
      proof (cases "lu_logIndex u = i \<or> resolvedId u = None \<and> lu_logIndex u = 0")
        case True
        have pi: "pd_logIndex pd' = i" using True pd' li by (auto simp: pd'_def)
        have u': "toLogUpdate pd' = u\<lparr>lu_logIndex := i\<rparr>"
          using pd(2) True by (auto simp: pd'_def)
        let ?lc = "restoreEntry lc Local pd' (\<lambda>_. appendUpdate)"
        define lc1 where "lc1 = (if resolvedId u = None then ?lc else markParent ?lc Remote (pd_parentIndex pd'))"
        note e = append_update_effect [OF Cons.prems(1), of Local pd']
        have e1: "addrs_ok lc1" "entries lc1 q = entries ?lc q" "known lc1 q = known lc q" "counters lc1 q = counters ?lc q" for q
          using e by (simp_all add: lc1_def)
        have r: "restorePendingLocalUpdates ht us lc1 = (lc', err)"
          using step' pd'(2,3) pi by (auto simp: lc1_def split: if_splits)
        have cl: "counters lc1 Local = (i + 1, j)" using e(4) [of Local] c e1(4) by simp
        show ?thesis
          using Cons.IH [OF e1(1) r] e1(2-4) e(2-4) c cl None known True u'
          by (auto simp: pendingFits_simps)
      next
        case False
        then have "pd_logIndex pd' \<noteq> i" using pd' by auto
        then have "err \<noteq> None" using step' by auto
        then show ?thesis using False None c by (auto simp: pendingFits_simps)
      qed
    qed
  qed
qed

lemma restorePendingRemoteUpdates_effect:
  assumes "addrs_ok lc" "restorePendingRemoteUpdates ht pending us lc = (lc', err)"
  shows "(err = None \<longleftrightarrow> (\<forall>u \<in> set us. lu_logIndex u < fst (counters lc Remote)) \<and> resolvedIds us \<subseteq> known lc Local) \<and>
    (err = None \<longrightarrow> addrs_ok lc' \<and>
      (\<exists>ups. entries lc' Remote = entries lc Remote @ ups \<and> map toLogUpdate ups = filter (\<lambda>u. addId u = None) us) \<and>
      entries lc' Local = entries lc Local \<and> (\<forall>q. known lc' q = known lc q))"
  using assms
proof (induction us arbitrary: lc)
  case (Cons u us)
  have ix: "ul_logIndex (d_remote (lc_logs lc)) = fst (counters lc Remote)" by (simp add: counters_def)
  note res = remoteLogUpdate_result [OF Cons.prems(1), of u ht, unfolded getForParty.simps]
  note step = Cons.prems(2) [unfolded restorePendingRemoteUpdates.simps Let_def ix]
  show ?case
  proof (cases "addId u")
    case (Some k)
    then obtain pd where pd: "remoteLogUpdateToPayDesc lc u (d_local (lc_logs lc)) ht = Inr pd" "toLogUpdate pd = u" "isAdd pd"
      using res by auto
    have li: "pd_logIndex pd = lu_logIndex u" using toLogUpdate_index [OF pd(2)] .
    have nr: "resolvedId u = None" using Some by (auto simp: addId_def resolvedId_def split: update_msg.splits)
    note step' = step [unfolded pd(1) sum.case li]
    show ?thesis
    proof (cases "lu_logIndex u < fst (counters lc Remote)")
      case True
      then have n: "\<not> fst (counters lc Remote) \<le> lu_logIndex u" by simp
      have "restorePendingRemoteUpdates ht pending us lc = (lc', err)"
        using step' unfolding if_not_P [OF n] if_P [OF pd(3)] .
      from Cons.IH [OF Cons.prems(1) this] show ?thesis using True Some nr by simp
    next
      case False
      then have "err \<noteq> None" using step' by (simp add: not_less) auto
      then show ?thesis using False by auto
    qed
  next
    case None
    show ?thesis
    proof (cases "set_option (resolvedId u) \<subseteq> known lc Local")
      case False
      then obtain e where "remoteLogUpdateToPayDesc lc u (d_local (lc_logs lc)) ht = Inl e" using res None by auto
      then show ?thesis using step False by auto
    next
      case known: True
      then obtain pd where pd: "remoteLogUpdateToPayDesc lc u (d_local (lc_logs lc)) ht = Inr pd" "toLogUpdate pd = u"
        "\<not> isAdd pd" "pd_entryType pd = FeeUpdate \<longleftrightarrow> resolvedId u = None" using res None by auto
      have li: "pd_logIndex pd = lu_logIndex u" using toLogUpdate_index [OF pd(2)] .
      note step' = step [unfolded pd(1) sum.case li]
      show ?thesis
      proof (cases "lu_logIndex u < fst (counters lc Remote)")
        case True
        then have n: "\<not> fst (counters lc Remote) \<le> lu_logIndex u" by simp
        define height where "height = (case pending of
              Some c \<Rightarrow> if lu_logIndex u < d_remote (cm_messageIndices c) then Some (cm_height c) else None
            | None \<Rightarrow> None)"
        define fee where "fee = (case height of
              Some ht \<Rightarrow> pd\<lparr>pd_addHeights := setForParty (pd_addHeights pd) Remote ht,
                           pd_rmvHeights := setForParty (pd_rmvHeights pd) Remote ht\<rparr>
            | None \<Rightarrow> pd)"
        define rmv where "rmv = (case height of
              Some ht \<Rightarrow> pd\<lparr>pd_rmvHeights := setForParty (pd_rmvHeights pd) Remote ht\<rparr>
            | None \<Rightarrow> pd)"
        have u: "toLogUpdate fee = u" "toLogUpdate rmv = u" using pd(2) by (simp_all add: fee_def rmv_def split: option.split)
        have s: "restorePendingRemoteUpdates ht pending us
            (if pd_entryType pd = FeeUpdate then restoreEntry lc Remote fee restoreUpdate
             else markParent (restoreEntry lc Remote rmv restoreUpdate) Local (pd_parentIndex rmv)) = (lc', err)"
          using step' [folded height_def, folded fee_def rmv_def] pd(3)
          unfolding if_not_P [OF n] if_not_P [OF pd(3)] by (cases "pd_entryType pd = FeeUpdate") simp_all
        obtain pd' lc1 where e: "toLogUpdate pd' = u" "restorePendingRemoteUpdates ht pending us lc1 = (lc', err)"
          "lc1 = restoreEntry lc Remote pd' restoreUpdate \<or>
           lc1 = markParent (restoreEntry lc Remote pd' restoreUpdate) Local (pd_parentIndex pd')"
          using s u by (cases "pd_entryType pd = FeeUpdate") (simp_all add: that)
        have e1: "addrs_ok lc1" "entries lc1 q = entries lc q @ (if q = Remote then [pd'] else [])"
          "known lc1 q = known lc q" "counters lc1 q = counters lc q" for q
          using e(3) restore_update_effect [OF Cons.prems(1), of Remote pd'] by auto
        show ?thesis using Cons.IH [OF e1(1) e(2)] e1(2-4) e(1) None True known by auto
      next
        case False
        then have "err \<noteq> None" using step' by (simp add: not_less) auto
        then show ?thesis using False by auto
      qed
    qed
  qed
qed simp

lemma restorePeerLocalUpdates_effect:
  assumes "addrs_ok lc" "restorePeerLocalUpdates ht us lc = (lc', err)"
  shows "(err = None \<longleftrightarrow> addIds us = [] \<and> resolvedIds us \<subseteq> known lc Remote) \<and>
    (err = None \<longrightarrow> addrs_ok lc' \<and>
      (\<exists>ups. entries lc' Local = entries lc Local @ ups \<and> map toLogUpdate ups = us) \<and>
      entries lc' Remote = entries lc Remote \<and> (\<forall>q. known lc' q = known lc q))"
  using assms
proof (induction us arbitrary: lc)
  case (Cons u us)
  note res = localLogUpdate_result [OF Cons.prems(1), of u ht, unfolded getForParty.simps]
  note step = Cons.prems(2) [unfolded restorePeerLocalUpdates.simps Let_def]
  show ?case
  proof (cases "addId u = None \<and> set_option (resolvedId u) \<subseteq> known lc Remote")
    case False
    then obtain e where "localLogUpdateToPayDesc lc u (d_remote (lc_logs lc)) ht = Inl e"
      using res unfolding if_not_P [OF False] by blast
    then show ?thesis using step False by (auto split: option.splits)
  next
    case True
    then obtain pd where pd: "localLogUpdateToPayDesc lc u (d_remote (lc_logs lc)) ht = Inr pd" "toLogUpdate pd = u"
      using res by auto
    define lc1 where "lc1 = (if pd_entryType pd \<noteq> FeeUpdate
      then markParent (restoreEntry lc Local pd restoreUpdate) Remote (pd_parentIndex pd) else restoreEntry lc Local pd restoreUpdate)"
    have r: "restorePeerLocalUpdates ht us lc1 = (lc', err)" using step pd(1) by (simp add: lc1_def)
    have e1: "addrs_ok lc1" "entries lc1 q = entries lc q @ (if q = Local then [pd] else [])"
      "known lc1 q = known lc q" for q
      using restore_update_effect [OF Cons.prems(1), of Local pd] by (simp_all add: lc1_def)
    show ?thesis using Cons.IH [OF e1(1) r] e1(2,3) pd(2) True by auto
  qed
qed simp

section \<open>The whole restart\<close>

definition incomingOf :: "disk_commitment \<Rightarrow> disk_htlc list" where
  "incomingOf d = filter dh_incoming (dc_htlcs d)"

definition outgoingOf :: "disk_commitment \<Rightarrow> disk_htlc list" where
  "outgoingOf d = filter (\<lambda>h. \<not> dh_incoming h) (dc_htlcs d)"

text \<open>The three lists of messages on disk: those of the pending commitment, and the two for later signatures.\<close>

definition pendingUpdates :: "channel \<Rightarrow> log_update list" where
  "pendingUpdates lc = (case db_commitDiff (lc_db lc) of None \<Rightarrow> [] | Some d \<Rightarrow> cd_logUpdates d)"

definition ackedUpdates :: "channel \<Rightarrow> log_update list" where
  "ackedUpdates lc = storedUpdates (db_unsignedAckedUpdates (lc_db lc))"

definition peerUpdates :: "channel \<Rightarrow> log_update list" where
  "peerUpdates lc = storedUpdates (db_remoteUnsignedLocalUpdates (lc_db lc))"

text \<open>
  The disk state fits together: the messages of the pending commitment continue the numbering of the
  remote commitment, those of the peer lie below the log index of our commitment, the local ones the
  peer has still to sign for are no new HTLCs, and whatever is settled or failed is an HTLC that is
  restored before: an incoming one of our commitment, or an outgoing one of the remote commitment or
  of the pending one.
\<close>

definition restorable :: "channel \<Rightarrow> bool" where
  "restorable lc \<longleftrightarrow>
     pendingFits (dc_localLogIndex (lc_remoteCommitment lc), dc_localHtlcIndex (lc_remoteCommitment lc)) (pendingUpdates lc) \<and>
     (\<forall>u \<in> set (ackedUpdates lc). lu_logIndex u < dc_remoteLogIndex (lc_localCommitment lc)) \<and>
     addIds (peerUpdates lc) = [] \<and>
     resolvedIds (pendingUpdates lc) \<union> resolvedIds (peerUpdates lc) \<subseteq> dh_htlcIndex ` set (incomingOf (lc_localCommitment lc)) \<and>
     resolvedIds (ackedUpdates lc)
       \<subseteq> dh_htlcIndex ` set (outgoingOf (lc_remoteCommitment lc)) \<union> set (addIds (pendingUpdates lc))"

text \<open>A log that holds the HTLCs of a commitment, one for each index, and then the given messages.\<close>

definition holds :: "paymentDescriptor list \<Rightarrow> bool \<Rightarrow> disk_htlc list \<Rightarrow> log_update list \<Rightarrow> bool" where
  "holds es b hs us \<longleftrightarrow> (\<exists>xs ups. es = xs @ ups \<and> map (diskHtlc b) xs = firstHtlcs {} hs \<and> map toLogUpdate ups = us)"

lemma holds_append: "holds es b hs us \<Longrightarrow> map toLogUpdate ups = vs \<Longrightarrow> holds (es @ ups) b hs (us @ vs)"
  unfolding holds_def by (metis append.assoc map_append)

lemma restoreStateLogs_result:
  assumes "addrs_ok lc" "\<And>p. entries lc p = []" "\<And>p. known lc p = {}"
    and "cm_incomingHTLCs cl = map (diskHtlcToPayDesc c) hl" "\<forall>h \<in> set hl. dh_incoming h"
    and "cm_outgoingHTLCs cr = map (diskHtlcToPayDesc c) hr" "\<forall>h \<in> set hr. \<not> dh_incoming h"
    and "restoreStateLogs cl cr pending diff ua pu lc = (lc', err)"
    and us: "us = (case diff of None \<Rightarrow> [] | Some d \<Rightarrow> cd_logUpdates d)"
  shows "(err = None \<longleftrightarrow>
      pendingFits (counters lc Local) us \<and> (\<forall>u \<in> set ua. lu_logIndex u < fst (counters lc Remote)) \<and>
      addIds pu = [] \<and> resolvedIds us \<union> resolvedIds pu \<subseteq> dh_htlcIndex ` set hl \<and>
      resolvedIds ua \<subseteq> dh_htlcIndex ` set hr \<union> set (addIds us)) \<and>
    (err = None \<longrightarrow> holds (entries lc' Local) False hr (numberUpdates (fst (counters lc Local)) us @ pu) \<and>
      holds (entries lc' Remote) True hl (filter (\<lambda>u. addId u = None) ua))"
proof -
  obtain f g where "restoreStateLogs cl cr pending diff ua pu lc =
      (case (case diff of None \<Rightarrow> (restoreHtlcs Local g (cm_outgoingHTLCs cr) (restoreHtlcs Remote f (cm_incomingHTLCs cl) lc), None)
               | Some d \<Rightarrow> restorePendingLocalUpdates (dc_commitHeight (cd_commitment d)) (cd_logUpdates d)
                   (restoreHtlcs Local g (cm_outgoingHTLCs cr) (restoreHtlcs Remote f (cm_incomingHTLCs cl) lc))) of
           (lc3, Some err) \<Rightarrow> (lc3, Some err)
         | (lc3, None) \<Rightarrow>
             (case restorePendingRemoteUpdates (cm_height cl) pending ua lc3 of
                (lc4, Some err) \<Rightarrow> (lc4, Some err)
              | (lc4, None) \<Rightarrow> restorePeerLocalUpdates (cm_height cr) pu lc4))"
    unfolding restoreStateLogs_def Let_def by blast
  note op = assms(8) [unfolded this]
  define lc1 where "lc1 = restoreHtlcs Remote f (cm_incomingHTLCs cl) lc"
  define lc2 where "lc2 = restoreHtlcs Local g (cm_outgoingHTLCs cr) lc1"
  have r1: "addrs_ok lc1" "map (diskHtlc True) (entries lc1 Remote) = firstHtlcs {} hl" "entries lc1 Local = []"
    "known lc1 Remote = dh_htlcIndex ` set hl" "known lc1 Local = {}" "counters lc1 q = counters lc q" for q
    using restoreHtlcs_effect [OF assms(1), of hl True Remote f c] assms(2-5) by (auto simp: lc1_def)
  have r2: "addrs_ok lc2" "map (diskHtlc False) (entries lc2 Local) = firstHtlcs {} hr" "entries lc2 Remote = entries lc1 Remote"
    "known lc2 Remote = dh_htlcIndex ` set hl" "known lc2 Local = dh_htlcIndex ` set hr" "counters lc2 q = counters lc q" for q
    using restoreHtlcs_effect [OF r1(1), of hr False Local g c] assms(6,7) r1 by (auto simp: lc2_def)
  have h2: "holds (entries lc2 Local) False hr []" "holds (entries lc2 Remote) True hl []"
    using r1(2) r2(2,3) by (simp_all add: holds_def)
  obtain lc3 e3 where p: "(case diff of None \<Rightarrow> (lc2, None)
      | Some d \<Rightarrow> restorePendingLocalUpdates (dc_commitHeight (cd_commitment d)) (cd_logUpdates d) lc2) = (lc3, e3)"
    by fastforce
  have r3: "(e3 = None \<longleftrightarrow> pendingFits (counters lc Local) us \<and> resolvedIds us \<subseteq> dh_htlcIndex ` set hl) \<and>
    (e3 = None \<longrightarrow> addrs_ok lc3 \<and> holds (entries lc3 Local) False hr (numberUpdates (fst (counters lc Local)) us) \<and>
      entries lc3 Remote = entries lc2 Remote \<and> known lc3 Remote = dh_htlcIndex ` set hl \<and>
      known lc3 Local = dh_htlcIndex ` set hr \<union> set (addIds us) \<and> counters lc3 Remote = counters lc Remote)"
  proof (cases diff)
    case None
    then show ?thesis using p us r2 h2(1) by (auto simp: pendingFits_simps)
  next
    case (Some d)
    then have "restorePendingLocalUpdates (dc_commitHeight (cd_commitment d)) us lc2 = (lc3, e3)" using p us by simp
    note e = restorePendingLocalUpdates_effect [OF r2(1) this, unfolded r2(4-6)]
    have "holds (entries lc3 Local) False hr (numberUpdates (fst (counters lc Local)) us)" if n: "e3 = None"
    proof -
      obtain ups where "entries lc3 Local = entries lc2 Local @ ups"
        "map toLogUpdate ups = numberUpdates (fst (counters lc Local)) us" using e n by blast
      then show ?thesis using holds_append [OF h2(1), of ups] by simp
    qed
    then show ?thesis using e by blast
  qed
  note op' = op [folded lc1_def, folded lc2_def, unfolded p]
  show ?thesis
  proof (cases e3)
    case (Some e)
    then have "err = Some e" using op' by simp
    then show ?thesis using r3 Some by auto
  next
    case 3: None
    obtain lc4 e4 where q: "restorePendingRemoteUpdates (cm_height cl) pending ua lc3 = (lc4, e4)" by fastforce
    have "addrs_ok lc3" using r3 3 by blast
    note r4 = restorePendingRemoteUpdates_effect [OF this q]
    have c: "counters lc3 Remote = counters lc Remote" "known lc3 Local = dh_htlcIndex ` set hr \<union> set (addIds us)"
      "known lc3 Remote = dh_htlcIndex ` set hl" "entries lc3 Remote = entries lc2 Remote"
      "holds (entries lc3 Local) False hr (numberUpdates (fst (counters lc Local)) us)"
      "pendingFits (counters lc Local) us \<and> resolvedIds us \<subseteq> dh_htlcIndex ` set hl"
      using r3 3 by blast+
    show ?thesis
    proof (cases e4)
      case (Some e)
      then have "err = Some e" using op' 3 q by simp
      then show ?thesis using r4 Some c by auto
    next
      case 4: None
      have r: "restorePeerLocalUpdates (cm_height cr) pu lc4 = (lc', err)" using op' 3 4 q by simp
      have "addrs_ok lc4" using r4 4 by blast
      note r5 = restorePeerLocalUpdates_effect [OF this r]
      obtain ups where u: "entries lc4 Remote = entries lc3 Remote @ ups" "map toLogUpdate ups = filter (\<lambda>u. addId u = None) ua"
        using r4 4 by blast
      have d: "entries lc4 Local = entries lc3 Local" "known lc4 q = known lc3 q"
        "(\<forall>u \<in> set ua. lu_logIndex u < fst (counters lc Remote))" "resolvedIds ua \<subseteq> dh_htlcIndex ` set hr \<union> set (addIds us)" for q
        using r4 4 c by auto
      have hr4: "holds (entries lc4 Remote) True hl (filter (\<lambda>u. addId u = None) ua)"
        using holds_append [OF h2(2) u(2)] u(1) c(4) by simp
      show ?thesis
      proof (cases err)
        case None
        obtain vps where v: "entries lc' Local = entries lc4 Local @ vps" "map toLogUpdate vps = pu" "entries lc' Remote = entries lc4 Remote"
          using r5 None by blast
        have "holds (entries lc' Local) False hr (numberUpdates (fst (counters lc Local)) us @ pu)"
          using holds_append [OF c(5) v(2)] v(1) d(1) by simp
        moreover have "holds (entries lc' Remote) True hl (filter (\<lambda>u. addId u = None) ua)" using hr4 v(3) by simp
        ultimately show ?thesis using None r5 d(2,3,4) c(3,6) by simp
      next
        case (Some e)
        then show ?thesis using r5 d c by auto
      qed
    qed
  qed
qed

lemma restart_logs:
  assumes at: "atIndex sha256 (lc_producer lc) (dc_commitHeight (lc_localCommitment lc)) = Inr s"
    and new: "newLightningChannel lc = (lc', err)"
  shows "(err = None \<longleftrightarrow> restorable lc) \<and>
    (err = None \<longrightarrow>
      holds (entries lc' Local) False (outgoingOf (lc_remoteCommitment lc))
        (numberUpdates (dc_localLogIndex (lc_remoteCommitment lc)) (pendingUpdates lc) @ peerUpdates lc) \<and>
      holds (entries lc' Remote) True (incomingOf (lc_localCommitment lc))
        (filter (\<lambda>u. addId u = None) (ackedUpdates lc)))"
proof -
  let ?lc0 = "lc\<lparr>lc_chains := mkDual newCommitmentChain newCommitmentChain,
       lc_logs := mkDual
         (newUpdateLog (dc_localLogIndex (lc_remoteCommitment lc)) (dc_localHtlcIndex (lc_remoteCommitment lc)))
         (newUpdateLog (dc_remoteLogIndex (lc_localCommitment lc)) (dc_remoteHtlcIndex (lc_localCommitment lc))),
       lc_heap := (\<lambda>a. zeroDescriptor), lc_next := 0,
       lc_currentHeight := dc_commitHeight (lc_localCommitment lc)\<rparr>"
  let ?lc1 = "addToChain (addToChain ?lc0 Local (lc_localCommitment lc)) Remote (lc_remoteCommitment lc)"
  define lc2 where "lc2 = (case db_commitDiff (lc_db lc) of None \<Rightarrow> ?lc1 | Some d \<Rightarrow> addToChain ?lc1 Remote (cd_commitment d))"
  have logs: "lc_logs lc2 = lc_logs ?lc0" by (simp add: lc2_def addToChain_def split: option.split)
  have old: "addrs_ok lc2" "entries lc2 p = []" "known lc2 p = {}"
    "counters lc2 Local = (dc_localLogIndex (lc_remoteCommitment lc), dc_localHtlcIndex (lc_remoteCommitment lc))"
    "counters lc2 Remote = (dc_remoteLogIndex (lc_localCommitment lc), dc_remoteHtlcIndex (lc_localCommitment lc))" for p
    by (cases p; simp add: addrs_ok_def entries_def known_def counters_def logs newUpdateLog_def all_parties)+
  let ?pd = "db_commitDiff (lc_db lc)"
  let ?cl = "diskCommitToMemCommit ?lc0 Local (lc_localCommitment lc)"
  let ?cr = "diskCommitToMemCommit ?lc0 Remote (lc_remoteCommitment lc)"
  have st: "restoreStateLogs ?cl ?cr (map_option (\<lambda>d. diskCommitToMemCommit ?lc0 Remote (cd_commitment d)) ?pd) ?pd
      (ackedUpdates lc) (peerUpdates lc) lc2 = (lc', err)"
    using new at by (simp add: newLightningChannel_def restoreCommitState_def Let_def lc2_def ackedUpdates_def peerUpdates_def)
  have cs: "cm_incomingHTLCs ?cl = map (diskHtlcToPayDesc ?lc0) (incomingOf (lc_localCommitment lc))"
    "cm_outgoingHTLCs ?cr = map (diskHtlcToPayDesc ?lc0) (outgoingOf (lc_remoteCommitment lc))"
    by (simp_all add: diskCommitToMemCommit_def extractPayDescs_def incomingOf_def outgoingOf_def)
  have fl: "\<forall>h \<in> set (incomingOf (lc_localCommitment lc)). dh_incoming h" "\<forall>h \<in> set (outgoingOf (lc_remoteCommitment lc)). \<not> dh_incoming h"
    by (simp_all add: incomingOf_def outgoingOf_def)
  from restoreStateLogs_result [OF old(1-3) cs(1) fl(1) cs(2) fl(2) st refl, folded pendingUpdates_def, unfolded old(4,5) fst_conv]
  show ?thesis unfolding restorable_def by blast
qed

text \<open>
  C12: a restart brings the channel back. Loading a channel at any point of its life, with earlier
  restarts, from its own disk state puts the stored commitments into the same chains, as the same
  bytes, keeps the disk invariant and the revocation store, and gives the same revocation at every
  height. It succeeds exactly if the stored messages fit the stored commitments (\<open>restorable\<close>), and
  then each log holds exactly what was stored: our log the outgoing HTLCs of the remote commitment,
  the messages of the pending commitment, numbered on from that commitment, and the messages the peer
  has still to sign for; the peer's log the incoming HTLCs of our commitment and the settles, fails
  and fees of the peer that we have still to sign for, whose adds are in our commitment already.
\<close>

theorem restart_restores_channel:
  assumes run: "opened v lc0" "(life_step env)\<^sup>*\<^sup>* lc0 lc"
    and keys: "lc_producer lc = newRevocationProducer root" "length root = 32" "unat (lc_currentHeight lc) < 2 ^ 48"
    and new: "newLightningChannel lc = (lc', err)"
  shows "map toDiskCommit (chainOf lc' Local) = [toDiskCommit (tail (chainOf lc Local))] \<and>
    map toDiskCommit (chainOf lc' Remote) = map toDiskCommit (chainOf lc Remote) \<and> disk_inv lc' \<and>
    lc_store lc' = lc_store lc \<and> lc_remoteCurrentRevocation lc' = lc_remoteCurrentRevocation lc \<and>
    lc_remoteNextRevocation lc' = lc_remoteNextRevocation lc \<and>
    (\<forall>h. generateRevocation env lc' h = generateRevocation env lc h) \<and>
    (err = None \<longleftrightarrow> restorable lc) \<and>
    (err = None \<longrightarrow>
      holds (entries lc' Local) False (outgoingOf (lc_remoteCommitment lc))
        (numberUpdates (dc_localLogIndex (lc_remoteCommitment lc)) (pendingUpdates lc) @ peerUpdates lc) \<and>
      holds (entries lc' Remote) True (incomingOf (lc_localCommitment lc))
        (filter (\<lambda>u. addId u = None) (ackedUpdates lc)))"
proof -
  have inv: "disk_inv lc" using life_disk [OF run] .
  have h: "dc_commitHeight (lc_localCommitment lc) = lc_currentHeight lc"
    "lc_localCommitment lc = toDiskCommit (tail (chainOf lc Local))" using inv by (simp_all add: disk_inv_alt)
  obtain s where at: "atIndex sha256 (lc_producer lc) (lc_currentHeight lc) = Inr s"
    using atIndex_secret [of sha256 root "lc_currentHeight lc"] keys by (auto simp: top_index_def)
  have lc': "lc' = fst (newLightningChannel lc)" using new by simp
  note chains = restart_chains [OF inv at [folded h(1)], folded lc'] and fields = newLightningChannel_chains [OF at [folded h(1)], folded lc']
  have "generateRevocation env lc' h = generateRevocation env lc h" for h
    unfolding generateRevocation_def fields(6) ..
  with chains fields h(2) show ?thesis
    using restart_logs [OF at [folded h(1)] new] by (simp del: getForParty.simps)
qed

lemma demo_signed_more:
  "lc_producer demo_signed = newRevocationProducer (replicate 32 2)" "lc_chanType demo_signed = 0"
  "\<not> db_restored (lc_db demo_signed)"
  "db_commitDiff (lc_db demo_signed) = Some (createCommitDiff demo_locked demo_commitment1)"
  "lc_remoteCurrentRevocation demo_signed = Some (replicate 32 9)"
  "\<not> db_lastWasRevoke (lc_db demo_signed)"
  "db_unsignedAckedUpdates (lc_db demo_signed) = None" "db_remoteUnsignedLocalUpdates (lc_db demo_signed) = None"
  "lc_currentHeight demo_signed = 0"
proof -
  have "lc_producer demo_locked = newRevocationProducer (replicate 32 2)" "lc_chanType demo_locked = 0"
    "\<not> db_restored (lc_db demo_locked)" "lc_remoteCurrentRevocation demo_locked = Some (replicate 32 9)"
    "db_unsignedAckedUpdates (lc_db demo_locked) = None" "db_remoteUnsignedLocalUpdates (lc_db demo_locked) = None"
    "lc_currentHeight demo_locked = 0"
    by (simp_all add: demo_locked_def demo_added_def demo_add) (simp_all add: demo_channel_def)
  then show "lc_producer demo_signed = newRevocationProducer (replicate 32 2)" "lc_chanType demo_signed = 0"
    "\<not> db_restored (lc_db demo_signed)"
    "db_commitDiff (lc_db demo_signed) = Some (createCommitDiff demo_locked demo_commitment1)"
    "lc_remoteCurrentRevocation demo_signed = Some (replicate 32 9)" "\<not> db_lastWasRevoke (lc_db demo_signed)"
    "db_unsignedAckedUpdates (lc_db demo_signed) = None" "db_remoteUnsignedLocalUpdates (lc_db demo_signed) = None"
    "lc_currentHeight demo_signed = 0"
    using demo_sanity demo_fetch
    by (simp_all add: demo_signed_def signNextCommitment_def demo_added demo_env hasUnackedCommitment_def tail_def
        demo_commitment_def demo_log_def demo_locked appendRemoteCommitChain_def Let_def extendChain_def)
qed

lemma demo_diff:
  "map lu_updateMsg (cd_logUpdates (createCommitDiff demo_locked demo_commitment1))
     = map lu_updateMsg [toLogUpdate (setCommitHeight Remote 1 demo_pd)]"
  by (simp add: createCommitDiff_def Let_def demo_locked demo_added demo_log_def demo_commitment1_def
      setCommitHeight_def demo_pd modifyForParty_def mkDual_def)

lemma demo_updates:
  "pendingUpdates demo_signed = [toLogUpdate (setCommitHeight Remote 1 demo_pd)]" "ackedUpdates demo_signed = []"
  "peerUpdates demo_signed = []"
  by (simp_all add: pendingUpdates_def ackedUpdates_def peerUpdates_def storedUpdates_def demo_signed_more)
    (simp add: createCommitDiff_def Let_def demo_locked demo_added demo_log_def demo_commitment1_def
      setCommitHeight_def demo_pd modifyForParty_def mkDual_def)

theorem restart_restores_channel_witness:
  "\<exists>lc'. newLightningChannel demo_signed = (lc', None) \<and>
     map toDiskCommit (chainOf lc' Remote) = [toDiskCommit (demo_commitment Remote), toDiskCommit demo_commitment1] \<and>
     map toLogUpdate (entries lc' Local) = [toLogUpdate (setCommitHeight Remote 1 demo_pd)]"
proof -
  obtain lc' err where new: "newLightningChannel demo_signed = (lc', err)" by fastforce
  have l: "(life_step demo_env)\<^sup>*\<^sup>* demo_channel demo_signed"
    using demo_run(2) by (rule life_run)
  have "length (replicate 32 2 :: byte list) = 32" "unat (lc_currentHeight demo_signed) < 2 ^ 48"
    by (simp_all add: demo_signed_more)
  note th = restart_restores_channel [OF demo_opened l demo_signed_more(1) this new]
  note rs = th [THEN conjunct2, THEN conjunct2, THEN conjunct2, THEN conjunct2, THEN conjunct2, THEN conjunct2, THEN conjunct2]
  have "disk_inv demo_signed" using life_disk [OF demo_opened l] .
  then have c: "lc_remoteCommitment demo_signed = toDiskCommit (demo_commitment Remote)"
    unfolding disk_inv_alt demo_sign(2,3) by (simp add: tail_def)
  have u: "addIds [toLogUpdate (setCommitHeight Remote 1 demo_pd)] = [0]" "lu_logIndex (toLogUpdate (setCommitHeight Remote 1 demo_pd)) = 0"
    "resolvedId (toLogUpdate (setCommitHeight Remote 1 demo_pd)) = None"
    by (simp_all add: toLogUpdate_def setCommitHeight_def demo_pd addId_def resolvedId_def)
  have d: "dc_localLogIndex (lc_remoteCommitment demo_signed) = 0" "dc_localHtlcIndex (lc_remoteCommitment demo_signed) = 0"
    "outgoingOf (lc_remoteCommitment demo_signed) = []"
    by (simp_all add: c toDiskCommit_def demo_commitment_def outgoingOf_def)
  have r: "restorable demo_signed"
    using u by (simp add: restorable_def demo_updates d pendingFits_def)
  with rs have e: "err = None" by blast
  with rs have h: "holds (entries lc' Local) False [] (numberUpdates 0 (pendingUpdates demo_signed))"
    by (simp add: d demo_updates(3))
  then have "map toLogUpdate (entries lc' Local) = [toLogUpdate (setCommitHeight Remote 1 demo_pd)]"
  proof -
    from h obtain xs ups where "entries lc' Local = xs @ ups" "map (diskHtlc False) xs = []"
      "map toLogUpdate ups = [toLogUpdate (setCommitHeight Remote 1 demo_pd)\<lparr>lu_logIndex := 0\<rparr>]"
      unfolding holds_def demo_updates(1) by auto
    moreover have "v\<lparr>lu_logIndex := 0\<rparr> = v" if "lu_logIndex v = 0" for v :: log_update using that by simp
    ultimately show ?thesis using u(2) by simp
  qed
  moreover have "map toDiskCommit (chainOf lc' Remote) = [toDiskCommit (demo_commitment Remote), toDiskCommit demo_commitment1]"
    unfolding th [THEN conjunct2, THEN conjunct1] demo_sign(2) by simp
  ultimately show ?thesis using new unfolding e by (intro exI [of _ lc'] conjI)
qed

end
