(* ===== verification/Channel_Sync.thy ===== *)
theory Channel_Sync
  imports Channel_Restart
begin

text \<open>
  Re-establishing a channel after a reconnection: the message each side sends (\<open>ChanSyncMsg\<close> of
  \<open>channeldb/channel.go\<close>) and the decision what to send again (\<open>ProcessChanSyncMsg\<close> of
  \<open>lnwallet/channel.go\<close>). For a taproot channel, whether the musig2 library accepts the peer's nonce
  and signs again are arguments. A signature is identified with the commitment it signs.
\<close>

record channel_reestablish =
  cr_nextLocalCommitHeight :: u64
  cr_remoteCommitTailHeight :: u64
  cr_lastRemoteCommitSecret :: "byte list"
  cr_localUnrevokedCommitPoint :: "byte list option"
  cr_localNonce :: bool

datatype sync_message =
    SyncUpdate update_msg
  | SyncCommitSig disk_commitment
  | SyncRevoke revoke_and_ack

definition isTweakless :: "channel_type \<Rightarrow> bool" where
  "isTweakless c \<longleftrightarrow> c AND 2 = 2"

text \<open>A restored channel spoils the secret it proves, and a tweakless one also the height it expects.\<close>

definition chanSyncMsg :: "tx_env \<Rightarrow> channel \<Rightarrow> channel_error + channel_reestablish" where
  "chanSyncMsg env c =
     (let localHeight = dc_commitHeight (lc_localCommitment c);
          remoteChainTipHeight = dc_commitHeight (lc_remoteCommitment c);
          lastCommitSecret = (if remoteChainTipHeight \<noteq> 0
            then lookUp sha256 (lc_store c) (remoteChainTipHeight - 1)
            else Inr (replicate 32 0))
      in case lastCommitSecret of
           Inl err \<Rightarrow> Inl (RevocationRejected err)
         | Inr remoteSecret \<Rightarrow>
             (case atIndex sha256 (lc_producer c) localHeight of
                Inl err \<Rightarrow> Inl (RevocationRejected err)
              | Inr currentCommitSecret \<Rightarrow>
                  let restored = db_restored (lc_db c);
                      commitSecret = (if restored then (hd currentCommitSecret XOR 1) # tl currentCommitSecret
                                      else currentCommitSecret);
                      nextHeight = (if restored \<and> isTweakless (lc_chanType c) then 0 else localHeight + 1)
                  in Inr \<lparr>cr_nextLocalCommitHeight = nextHeight,
                          cr_remoteCommitTailHeight = remoteChainTipHeight,
                          cr_lastRemoteCommitSecret = remoteSecret,
                          cr_localUnrevokedCommitPoint = Some (te_commitPoint env commitSecret),
                          cr_localNonce = isTaproot (lc_chanType c)\<rparr>))"

section \<open>Processing the peer's message\<close>

text \<open>The checks that come first: the secret the peer claims for our prior height, and its nonce.\<close>

definition checkRecovery :: "channel \<Rightarrow> channel_reestablish \<Rightarrow> channel_error option" where
  "checkRecovery lc msg =
     (if cr_localUnrevokedCommitPoint msg \<noteq> None \<and> cr_remoteCommitTailHeight msg \<noteq> 0
      then case atIndex sha256 (lc_producer lc) (cr_remoteCommitTailHeight msg - 1) of
             Inl err \<Rightarrow> Some (RevocationRejected err)
           | Inr heightSecret \<Rightarrow>
               if heightSecret \<noteq> cr_lastRemoteCommitSecret msg then Some ErrInvalidLastCommitSecret
               else None
      else None)"

definition checkNonce :: "bool \<Rightarrow> channel \<Rightarrow> channel_reestablish \<Rightarrow> channel_error option" where
  "checkNonce nonceOk lc msg =
     (if isTaproot (lc_chanType lc) \<and> \<not> cr_localNonce msg then Some NonceNotSent
      else if isTaproot (lc_chanType lc) \<and> \<not> nonceOk then Some MusigFailed
      else None)"

text \<open>
  The first switch, on the peer's view of our chain. The revocation to send again, and the
  commitment that is signed on top of it if one is owed.
\<close>

definition syncLocal ::
  "tx_env \<Rightarrow> channel \<Rightarrow> channel_reestablish \<Rightarrow> channel \<times> (channel_error + sync_message list)" where
  "syncLocal env lc msg =
     (let localTailHeight = cm_height (tail (d_local (lc_chains lc)));
          theirs = cr_remoteCommitTailHeight msg
      in if theirs > localTailHeight \<or> db_restored (lc_db lc) then
           (lc, Inl (case cr_localUnrevokedCommitPoint msg of
                       None \<Rightarrow> ErrCannotSyncCommitChains
                     | Some p \<Rightarrow> ErrCommitSyncLocalDataLoss (Some p)))
         else if theirs + 1 < localTailHeight then (lc, Inl ErrCommitSyncRemoteDataLoss)
         else if theirs = localTailHeight then (lc, Inr [])
         else if theirs + 1 = localTailHeight then
           (case generateRevocation env lc (localTailHeight - 1) of
              Inl err \<Rightarrow> (lc, Inl err)
            | Inr revocationMsg \<Rightarrow>
                if oweCommitment lc Local then
                  (case signNextCommitment env lc of
                     (lc', Inr newCommit) \<Rightarrow>
                       (lc', Inr [SyncRevoke revocationMsg, SyncCommitSig (cd_commitment newCommit)])
                   | (lc', Inl err) \<Rightarrow>
                       if err = ErrNoWindow then (lc', Inr [SyncRevoke revocationMsg]) else (lc', Inl err))
                else (lc, Inr [SyncRevoke revocationMsg]))
         else (lc, Inl ErrCannotSyncCommitChains))"

text \<open>
  The second switch, on the commitment the peer waits for; the heights are those from before the
  first one. It returns the messages with the circuits of the commitment that is sent again.
\<close>

definition syncRemote ::
  "bool \<Rightarrow> channel \<Rightarrow> channel \<Rightarrow> channel_reestablish \<Rightarrow> sync_message list
    \<Rightarrow> channel_error + sync_message list \<times> circuit_key list \<times> circuit_key list" where
  "syncRemote resignOk lc0 lc msg updates =
     (let remoteTailHeight = cm_height (tail (d_remote (lc_chains lc0)));
          remoteTipHeight = cm_height (tip (d_remote (lc_chains lc0)));
          next = cr_nextLocalCommitHeight msg
      in if next > remoteTipHeight + 1 then Inl ErrCannotSyncCommitChains
         else if next \<le> remoteTailHeight then Inl ErrCommitSyncRemoteDataLoss
         else if next = remoteTipHeight + 1 then Inr (updates, [], [])
         else if next = remoteTipHeight then
           (case db_commitDiff (lc_db lc) of
              None \<Rightarrow> Inl ErrNoPendingCommit
            | Some commitDiff \<Rightarrow>
                if isTaproot (lc_chanType lc) \<and> \<not> resignOk then Inl MusigFailed
                else
                  let commitUpdates = map (\<lambda>u. SyncUpdate (lu_updateMsg u)) (cd_logUpdates commitDiff)
                        @ [SyncCommitSig (cd_commitment commitDiff)]
                  in Inr (if db_lastWasRevoke (lc_db lc) then commitUpdates @ updates else updates @ commitUpdates,
                          cd_openedCircuitKeys commitDiff, cd_closedCircuitKeys commitDiff))
         else Inl ErrCannotSyncCommitChains)"

definition checkCommitPoint :: "channel \<Rightarrow> channel \<Rightarrow> channel_reestablish \<Rightarrow> channel_error option" where
  "checkCommitPoint lc0 lc msg =
     (case cr_localUnrevokedCommitPoint msg of
        None \<Rightarrow> None
      | Some theirs \<Rightarrow>
          let remoteTailHeight = cm_height (tail (d_remote (lc_chains lc0)));
              commitPoint =
                (if cr_nextLocalCommitHeight msg = remoteTailHeight + 1 then lc_remoteCurrentRevocation lc
                 else if cr_nextLocalCommitHeight msg = remoteTailHeight + 2 then lc_remoteNextRevocation lc
                 else None)
          in if \<not> isTweakless (lc_chanType lc) \<and> commitPoint \<noteq> None \<and> commitPoint \<noteq> Some theirs
             then Some ErrInvalidLocalUnrevokedCommitPoint else None)"

definition processChanSyncMsg ::
  "tx_env \<Rightarrow> bool \<Rightarrow> bool \<Rightarrow> channel \<Rightarrow> channel_reestablish
    \<Rightarrow> channel \<times> (channel_error + sync_message list \<times> circuit_key list \<times> circuit_key list)" where
  "processChanSyncMsg env nonceOk resignOk lc msg =
     (case checkRecovery lc msg of
        Some err \<Rightarrow> (lc, Inl err)
      | None \<Rightarrow>
          (case checkNonce nonceOk lc msg of
             Some err \<Rightarrow> (lc, Inl err)
           | None \<Rightarrow>
               (case syncLocal env lc msg of
                  (lc1, Inl err) \<Rightarrow> (lc1, Inl err)
                | (lc1, Inr updates) \<Rightarrow>
                    (case syncRemote resignOk lc lc1 msg updates of
                       Inl err \<Rightarrow> (lc1, Inl err)
                     | Inr (updates', opened_circuits, closed_circuits) \<Rightarrow>
                         (case checkCommitPoint lc lc1 msg of
                            Some err \<Rightarrow> (lc1, Inl err)
                          | None \<Rightarrow> (lc1, Inr (updates', opened_circuits, closed_circuits)))))))"

section \<open>What is sent again\<close>

lemma signNextCommitment_unacked:
  "hasUnackedCommitment (chainOf lc Remote) \<Longrightarrow> signNextCommitment env lc = (lc, Inl ErrNoWindow)"
  by (simp add: signNextCommitment_def)

text \<open>The errors of building a commitment: none of them is the closed window of \<open>signNextCommitment\<close>.\<close>

lemma evalResolutions_errors:
  "evalResolutions lc w p es h skip deltas = (h', Inl err) \<Longrightarrow> err \<noteq> ErrNoWindow"
  by (induction lc w p es h skip deltas rule: evalResolutions.induct)
    (auto simp: fetchParent_def Let_def split: option.splits if_splits prod.splits)

lemma evaluateHTLCView_errors: "evaluateHTLCView lc view w n = (h', Inl err) \<Longrightarrow> err \<noteq> ErrNoWindow"
  using evalResolutions_errors by (fastforce simp: evaluateHTLCView_def Let_def split: prod.splits sum.splits)

lemma computeView_errors: "computeView lc view w u f = (lc', Inl err) \<Longrightarrow> err \<noteq> ErrNoWindow"
  using evaluateHTLCView_errors unfolding computeView_def
  by (fastforce simp: Let_def split: prod.splits sum.splits if_splits)

lemma validateUpdates_errors: "validateUpdates h us cfg = Some err \<Longrightarrow> err \<noteq> ErrNoWindow"
proof -
  have l: "validateUpdates_loop h cfg us n amt = Inl e \<Longrightarrow> e \<noteq> ErrNoWindow" for n amt e
    by (induction h cfg us n amt rule: validateUpdates_loop.induct) (auto split: if_splits)
  show "validateUpdates h us cfg = Some err \<Longrightarrow> err \<noteq> ErrNoWindow"
    using l by (auto simp: validateUpdates_def split: sum.splits if_splits)
qed

lemma sanityOfView_errors: "sanityOfView lc t b our their wt view = Some err \<Longrightarrow> err \<noteq> ErrNoWindow"
proof -
  have a: "applyCommitFee lc bal wt f b' = Inl e \<Longrightarrow> e \<noteq> ErrNoWindow" for bal f b' e
    by (auto simp: applyCommitFee_def Let_def split: bufferType.splits if_splits)
  show "sanityOfView lc t b our their wt view = Some err \<Longrightarrow> err \<noteq> ErrNoWindow"
    by (auto simp: sanityOfView_def Let_def dest: a validateUpdates_errors split: if_splits sum.splits option.splits)
qed

lemma validateCommitmentSanity_errors:
  "validateCommitmentSanity lc t o' w b x y = (lc', Some err) \<Longrightarrow> err \<noteq> ErrNoWindow"
  using computeView_errors sanityOfView_errors
  by (fastforce simp: validateCommitmentSanity_def Let_def split: prod.splits sum.splits)

lemma fetchCommitmentView_errors:
  "fetchCommitmentView env lc w a b c d = (lc', Inl err) \<Longrightarrow> err \<noteq> ErrNoWindow"
proof -
  have u: "createUnsignedCommitmentTx env x our their w f n v = Inl e \<Longrightarrow> e \<noteq> ErrNoWindow" for x our their f n v e
    by (auto simp: createUnsignedCommitmentTx_def Let_def split: if_splits)
  show "fetchCommitmentView env lc w a b c d = (lc', Inl err) \<Longrightarrow> err \<noteq> ErrNoWindow"
    unfolding fetchCommitmentView_def Let_def
    using computeView_errors u by (auto split: prod.splits sum.splits if_splits)
qed

lemma sign_error:
  assumes "\<not> hasUnackedCommitment (chainOf lc Remote)" "lc_remoteNextRevocation lc \<noteq> None"
    and "signNextCommitment env lc = (lc', Inl err)"
  shows "err \<noteq> ErrNoWindow"
proof -
  have "\<not> hasUnackedCommitment (d_remote (lc_chains lc))" using assms(1) by simp
  then show ?thesis
    using assms(2,3) unfolding signNextCommitment_def
    by (auto simp: Let_def dest: validateCommitmentSanity_errors fetchCommitmentView_errors
        split: prod.splits sum.splits option.splits if_splits)
qed

lemma syncLocal_ok:
  assumes "syncLocal env lc msg = (lc', Inr ups)"
  shows "\<not> db_restored (lc_db lc)"
    "cr_remoteCommitTailHeight msg = cm_height (tail (chainOf lc Local)) \<or>
     cr_remoteCommitTailHeight msg + 1 = cm_height (tail (chainOf lc Local))"
  using assms by (auto simp: syncLocal_def Let_def split: if_splits sum.splits prod.splits)

lemma syncLocal_channel: "syncLocal env lc msg = (lc', r) \<Longrightarrow> lc' = lc \<or> lc' = fst (signNextCommitment env lc)"
  by (auto simp: syncLocal_def Let_def split: if_splits sum.splits prod.splits)

lemma processChanSyncMsg_channel:
  assumes "processChanSyncMsg env nonceOk resignOk lc msg = (lc', r)"
  shows "lc' = lc \<or> lc' = fst (signNextCommitment env lc)"
proof -
  obtain lc1 s where s: "syncLocal env lc msg = (lc1, s)" by fastforce
  then have "lc' = lc \<or> lc' = lc1"
    using assms by (auto simp: processChanSyncMsg_def split: option.splits sum.splits)
  then show ?thesis using syncLocal_channel [OF s] by blast
qed

text \<open>
  C35: what re-establishment answers. A peer that sends its commitment point and claims that we have
  revoked before must prove it with the secret of the height below: with any other secret the answer
  is an error and nothing has changed. If messages are returned at all, the channel is not restored,
  the peer's view of our chain is our height or one below it, it waits for the commitment at our tip
  or the one after, a secret that has to be proved is the one we revealed, and in a channel that is
  not tweakless its commitment point is the one we know. Neither is asked of a peer that sends no
  point, and no secret before the first revocation. Whatever comes in, the channel stays as it is but
  for one attempt to sign.
\<close>

theorem sync_only_within_window:
  assumes "processChanSyncMsg env nonceOk resignOk lc msg = (lc', r)"
  shows "(cr_localUnrevokedCommitPoint msg \<noteq> None \<and> cr_remoteCommitTailHeight msg \<noteq> 0 \<and>
        atIndex sha256 (lc_producer lc) (cr_remoteCommitTailHeight msg - 1) \<noteq> Inr (cr_lastRemoteCommitSecret msg) \<longrightarrow>
      lc' = lc \<and> r = Inl (case atIndex sha256 (lc_producer lc) (cr_remoteCommitTailHeight msg - 1) of
        Inl e \<Rightarrow> RevocationRejected e | Inr s \<Rightarrow> ErrInvalidLastCommitSecret)) \<and>
    (r \<in> range Inr \<longrightarrow> \<not> db_restored (lc_db lc) \<and>
      (cr_remoteCommitTailHeight msg = cm_height (tail (chainOf lc Local)) \<or>
       cr_remoteCommitTailHeight msg + 1 = cm_height (tail (chainOf lc Local))) \<and>
      cm_height (tail (chainOf lc Remote)) < cr_nextLocalCommitHeight msg \<and>
      (cr_nextLocalCommitHeight msg = cm_height (tip (chainOf lc Remote)) \<or>
       cr_nextLocalCommitHeight msg = cm_height (tip (chainOf lc Remote)) + 1) \<and>
      (\<forall>point. cr_localUnrevokedCommitPoint msg = Some point \<and> \<not> isTweakless (lc_chanType lc') \<longrightarrow>
        (cr_nextLocalCommitHeight msg = cm_height (tail (chainOf lc Remote)) + 1 \<longrightarrow>
           lc_remoteCurrentRevocation lc' \<in> {None, Some point}) \<and>
        (cr_nextLocalCommitHeight msg = cm_height (tail (chainOf lc Remote)) + 2 \<longrightarrow>
           lc_remoteNextRevocation lc' \<in> {None, Some point}))) \<and>
    (lc' = lc \<or> lc' = fst (signNextCommitment env lc))"
proof (intro conjI)
  let ?h = "cr_remoteCommitTailHeight msg"
  show "cr_localUnrevokedCommitPoint msg \<noteq> None \<and> ?h \<noteq> 0 \<and>
        atIndex sha256 (lc_producer lc) (?h - 1) \<noteq> Inr (cr_lastRemoteCommitSecret msg) \<longrightarrow>
      lc' = lc \<and> r = Inl (case atIndex sha256 (lc_producer lc) (?h - 1) of
        Inl e \<Rightarrow> RevocationRejected e | Inr s \<Rightarrow> ErrInvalidLastCommitSecret)"
    using assms by (auto simp: processChanSyncMsg_def checkRecovery_def split: sum.splits)
  show "lc' = lc \<or> lc' = fst (signNextCommitment env lc)" using assms by (rule processChanSyncMsg_channel)
  show "r \<in> range Inr \<longrightarrow> \<not> db_restored (lc_db lc) \<and>
      (cr_remoteCommitTailHeight msg = cm_height (tail (chainOf lc Local)) \<or>
       cr_remoteCommitTailHeight msg + 1 = cm_height (tail (chainOf lc Local))) \<and>
      cm_height (tail (chainOf lc Remote)) < cr_nextLocalCommitHeight msg \<and>
      (cr_nextLocalCommitHeight msg = cm_height (tip (chainOf lc Remote)) \<or>
       cr_nextLocalCommitHeight msg = cm_height (tip (chainOf lc Remote)) + 1) \<and>
      (\<forall>point. cr_localUnrevokedCommitPoint msg = Some point \<and> \<not> isTweakless (lc_chanType lc') \<longrightarrow>
        (cr_nextLocalCommitHeight msg = cm_height (tail (chainOf lc Remote)) + 1 \<longrightarrow>
           lc_remoteCurrentRevocation lc' \<in> {None, Some point}) \<and>
        (cr_nextLocalCommitHeight msg = cm_height (tail (chainOf lc Remote)) + 2 \<longrightarrow>
           lc_remoteNextRevocation lc' \<in> {None, Some point}))"
  proof
    assume "r \<in> range Inr"
    then obtain ups1 where sl: "syncLocal env lc msg = (lc', Inr ups1)"
      and sr: "\<exists>x. syncRemote resignOk lc lc' msg ups1 = Inr x" and cp: "checkCommitPoint lc lc' msg = None"
      using assms by (auto simp: processChanSyncMsg_def split: sum.splits prod.splits option.splits)
    have "cm_height (tail (chainOf lc Remote)) < cr_nextLocalCommitHeight msg"
      "cr_nextLocalCommitHeight msg = cm_height (tip (chainOf lc Remote)) \<or>
       cr_nextLocalCommitHeight msg = cm_height (tip (chainOf lc Remote)) + 1"
      using sr by (auto simp: syncRemote_def Let_def not_le split: if_splits)
    moreover have "(cr_nextLocalCommitHeight msg = cm_height (tail (chainOf lc Remote)) + 1 \<longrightarrow>
           lc_remoteCurrentRevocation lc' \<in> {None, Some point}) \<and>
        (cr_nextLocalCommitHeight msg = cm_height (tail (chainOf lc Remote)) + 2 \<longrightarrow>
           lc_remoteNextRevocation lc' \<in> {None, Some point})"
      if "cr_localUnrevokedCommitPoint msg = Some point" "\<not> isTweakless (lc_chanType lc')" for point
      using cp that by (auto simp: checkCommitPoint_def Let_def split: if_splits)
    ultimately show "\<not> db_restored (lc_db lc) \<and>
      (cr_remoteCommitTailHeight msg = cm_height (tail (chainOf lc Local)) \<or>
       cr_remoteCommitTailHeight msg + 1 = cm_height (tail (chainOf lc Local))) \<and>
      cm_height (tail (chainOf lc Remote)) < cr_nextLocalCommitHeight msg \<and>
      (cr_nextLocalCommitHeight msg = cm_height (tip (chainOf lc Remote)) \<or>
       cr_nextLocalCommitHeight msg = cm_height (tip (chainOf lc Remote)) + 1) \<and>
      (\<forall>point. cr_localUnrevokedCommitPoint msg = Some point \<and> \<not> isTweakless (lc_chanType lc') \<longrightarrow>
        (cr_nextLocalCommitHeight msg = cm_height (tail (chainOf lc Remote)) + 1 \<longrightarrow>
           lc_remoteCurrentRevocation lc' \<in> {None, Some point}) \<and>
        (cr_nextLocalCommitHeight msg = cm_height (tail (chainOf lc Remote)) + 2 \<longrightarrow>
           lc_remoteNextRevocation lc' \<in> {None, Some point}))"
      using syncLocal_ok [OF sl] by blast
  qed
qed

text \<open>
  The two sides of a connection that may have broken off anywhere in the dance: each side's chain is
  at most one revocation ahead of what the other has seen, and \<open>b\<close> holds our secrets and we its
  points.
\<close>

definition out_of_step :: "tx_env \<Rightarrow> channel \<Rightarrow> channel \<Rightarrow> bool" where
  "out_of_step env a b \<longleftrightarrow>
     (let ha = cm_height (tail (chainOf a Local)); ra = cm_height (tail (chainOf a Remote));
          hb = cm_height (tail (chainOf b Local)); rb = cm_height (tail (chainOf b Remote))
      in (ha = rb \<or> ha = rb + 1) \<and> (hb = ra \<or> hb = ra + 1 \<and> hasUnackedCommitment (chainOf a Remote)) \<and>
         unat rb + 3 < 2 ^ 48 \<and> unat hb + 3 < 2 ^ 48 \<and> unat ra + 3 < 2 ^ 48 \<and>
         (rb \<noteq> 0 \<longrightarrow> lookUp sha256 (lc_store b) (rb - 1) = atIndex sha256 (lc_producer a) (rb - 1)) \<and>
         (\<forall>s. atIndex sha256 (lc_producer b) hb = Inr s \<longrightarrow>
            (if hb = ra then lc_remoteCurrentRevocation a else lc_remoteNextRevocation a) = Some (te_commitPoint env s)))"

definition retransmitted :: "channel \<Rightarrow> sync_message list" where
  "retransmitted a =
     (case db_commitDiff (lc_db a) of
        None \<Rightarrow> []
      | Some d \<Rightarrow> map (\<lambda>u. SyncUpdate (lu_updateMsg u)) (cd_logUpdates d) @ [SyncCommitSig (cd_commitment d)])"

lemma remote_chain:
  assumes "disk_inv a"
  shows "if hasUnackedCommitment (chainOf a Remote)
     then (\<exists>d. db_commitDiff (lc_db a) = Some d) \<and> cm_height (tip (chainOf a Remote)) = cm_height (tail (chainOf a Remote)) + 1
     else db_commitDiff (lc_db a) = None \<and> tip (chainOf a Remote) = tail (chainOf a Remote)"
proof (cases "db_commitDiff (lc_db a)")
  case None
  then have "length (chainOf a Remote) = 1" using assms by (simp add: disk_inv_alt)
  then show ?thesis using None by (cases "chainOf a Remote") (auto simp: hasUnackedCommitment_def tip_def tail_def)
next
  case (Some d)
  then have l: "length (chainOf a Remote) = 2" using assms by (simp add: disk_inv_alt)
  then obtain c1 c2 where c: "chainOf a Remote = [c1, c2]" by (auto simp: length_Suc_conv numeral_2_eq_2)
  have "heights_ok (chainOf a w)" for w using assms by (simp add: disk_inv_alt)
  from this [of Remote] have "heights_ok [c1, c2]" unfolding c .
  then have "cm_height c2 = cm_height c1 + 1" by (auto simp: heights_ok_def tail_def dest: spec [of _ 1])
  then show ?thesis unfolding c using Some by (simp add: hasUnackedCommitment_def tip_def tail_def)
qed

lemma secret_at:
  "p = newRevocationProducer root \<Longrightarrow> length root = 32 \<Longrightarrow> unat h < 2 ^ 48 \<Longrightarrow>
     atIndex sha256 p h = Inr (secret sha256 root (unat h))"
  using atIndex_secret [of sha256 root h] by (simp add: top_index_def)

lemma generateRevocation_at:
  assumes "lc_producer lc = newRevocationProducer root" "length root = 32" "unat h + 2 < 2 ^ 48"
  shows "generateRevocation env lc h = Inr \<lparr>rv_revocation = secret sha256 root (unat h),
      rv_nextRevocationKey = te_commitPoint env (secret sha256 root (unat h + 2))\<rparr>"
proof -
  have "unat (h + 2) = unat h + 2" using assms(3) by (simp add: unat_word_ariths)
  then show ?thesis using secret_at [OF assms(1,2), of h] secret_at [OF assms(1,2), of "h + 2"] assms(3)
    by (simp add: generateRevocation_def)
qed

lemma disk_heights:
  assumes "disk_inv b"
  shows "dc_commitHeight (lc_localCommitment b) = cm_height (tail (chainOf b Local))"
    "dc_commitHeight (lc_remoteCommitment b) = cm_height (tail (chainOf b Remote))"
  using assms by (simp_all add: disk_inv_alt)

lemma chanSyncMsg_value:
  assumes "disk_inv b" "lc_producer b = newRevocationProducer root" "length root = 32" "\<not> db_restored (lc_db b)"
    and "unat (cm_height (tail (chainOf b Local))) < 2 ^ 48"
    and "cm_height (tail (chainOf b Remote)) = 0 \<or> lookUp sha256 (lc_store b) (cm_height (tail (chainOf b Remote)) - 1) = Inr s"
  shows "chanSyncMsg env b = Inr \<lparr>cr_nextLocalCommitHeight = cm_height (tail (chainOf b Local)) + 1,
     cr_remoteCommitTailHeight = cm_height (tail (chainOf b Remote)),
     cr_lastRemoteCommitSecret = (if cm_height (tail (chainOf b Remote)) = 0 then replicate 32 0 else s),
     cr_localUnrevokedCommitPoint = Some (te_commitPoint env (secret sha256 root (unat (cm_height (tail (chainOf b Local)))))),
     cr_localNonce = isTaproot (lc_chanType b)\<rparr>"
  using assms(4,6) secret_at [OF assms(2,3,5)] disk_heights [OF assms(1)]
  by (auto simp: chanSyncMsg_def Let_def simp del: getForParty.simps)

lemma signed_point:
  assumes "signNextCommitment env lc = (lc', Inr d)"
  shows "lc_remoteCurrentRevocation lc' = lc_remoteCurrentRevocation lc"
proof -
  obtain lc1 lc2 c db where s: "validateCommitmentSanity lc (msgIndex (tail (chainOf lc Local)) Remote) (ul_logIndex (logOf lc Local))
       Remote NoBuffer None None = (lc1, None)"
    "fetchCommitmentView env lc1 Remote (ul_logIndex (logOf lc Local)) (ul_htlcCounter (logOf lc Local))
       (msgIndex (tail (chainOf lc Local)) Remote) (cm_theirHtlcIndex (tail (chainOf lc Local))) = (lc2, Inr c)"
    "lc' = extendChain (lc2\<lparr>lc_db := db\<rparr>) Remote c"
    using assms by (rule signNextCommitment_cases)
  have "chain_frame lc lc2"
    by (rule chain_frame_trans [OF dry_chain_frame [OF validateCommitmentSanity_dry [OF s(1)]] fetchCommitmentView_frame(3) [OF s(2)]])
  then show ?thesis by (simp add: s(3) extendChain_def chain_frame_def)
qed

text \<open>
  C11: after a reconnection each side sends exactly what the other lacks. Let \<open>a\<close> and \<open>b\<close> be channels
  at any point of their lives, restarts included, that are neither taproot nor restored from a backup,
  at most one step apart (\<open>out_of_step\<close>) and below the last three heights. Then \<open>b\<close> builds its message,
  and processing it at \<open>a\<close> gives this. The last revocation is sent again exactly if \<open>b\<close> has not seen
  it, with the secret of the height \<open>b\<close> asks for; the pending commitment with its updates exactly if
  \<open>b\<close> has not revoked for it; in the order in which they were sent first; and \<open>a\<close> does not change.
  If instead the revocation is sent again, no commitment is pending and \<open>a\<close> owes one that the peer's
  next point allows, then \<open>a\<close> signs it: its signature follows the revocation, or the error of signing
  is the answer.
\<close>

theorem resync_sends_what_is_missing:
  assumes runs: "opened va a0" "(life_step env)\<^sup>*\<^sup>* a0 a" "opened vb b0" "(life_step env)\<^sup>*\<^sup>* b0 b"
    and keys: "lc_producer a = newRevocationProducer root_a" "length root_a = 32"
      "lc_producer b = newRevocationProducer root_b" "length root_b = 32"
    and types: "\<not> isTaproot (lc_chanType a)" "\<not> isTaproot (lc_chanType b)"
      "\<not> db_restored (lc_db a)" "\<not> db_restored (lc_db b)"
    and step: "out_of_step env a b"
  shows "\<exists>msg rev. chanSyncMsg env b = Inr msg \<and>
    rev = (if cm_height (tail (chainOf a Local)) = cm_height (tail (chainOf b Remote)) then []
           else [SyncRevoke \<lparr>rv_revocation = secret sha256 root_a (unat (cm_height (tail (chainOf b Remote)))),
                   rv_nextRevocationKey = te_commitPoint env (secret sha256 root_a (unat (cm_height (tail (chainOf b Remote))) + 2))\<rparr>]) \<and>
    (\<exists>opened_circuits closed_circuits. processChanSyncMsg env nonceOk resignOk a msg =
       (if rev \<noteq> [] \<and> \<not> hasUnackedCommitment (chainOf a Remote) \<and> oweCommitment a Local \<and> lc_remoteNextRevocation a \<noteq> None
        then (case signNextCommitment env a of
                (a', Inr d) \<Rightarrow> (a', Inr (rev @ [SyncCommitSig (cd_commitment d)], [], []))
              | (a', Inl err) \<Rightarrow> (a', Inl err))
        else (a, Inr (
          if hasUnackedCommitment (chainOf a Remote) \<and> cm_height (tail (chainOf b Local)) = cm_height (tail (chainOf a Remote))
          then if db_lastWasRevoke (lc_db a) then retransmitted a @ rev else rev @ retransmitted a
          else rev, opened_circuits, closed_circuits))))"
proof -
  define ha ra hb rb where d: "ha = cm_height (tail (chainOf a Local))" "ra = cm_height (tail (chainOf a Remote))"
    "hb = cm_height (tail (chainOf b Local))" "rb = cm_height (tail (chainOf b Remote))"
  have ia: "disk_inv a" and ib: "disk_inv b"
    using life_disk [OF runs(1,2)] life_disk [OF runs(3,4)] .
  have hs: "ha = rb \<or> ha = rb + 1" "hb = ra \<or> hb = ra + 1 \<and> hasUnackedCommitment (chainOf a Remote)"
    and small: "unat rb + 3 < 2 ^ 48" "unat hb + 3 < 2 ^ 48" "unat ra + 3 < 2 ^ 48"
    and sec: "rb \<noteq> 0 \<longrightarrow> lookUp sha256 (lc_store b) (rb - 1) = atIndex sha256 (lc_producer a) (rb - 1)"
    and point: "\<And>s. atIndex sha256 (lc_producer b) hb = Inr s \<Longrightarrow>
            (if hb = ra then lc_remoteCurrentRevocation a else lc_remoteNextRevocation a) = Some (te_commitPoint env s)"
    using step unfolding out_of_step_def Let_def d by blast+
  have succ: "unat (rb + 1) = unat rb + 1" "rb < rb + 1" "unat (hb + 1) = unat hb + 1" "hb < hb + 1"
    using small by (simp_all add: unat_word_ariths word_less_nat_alt)
  have rb1: "unat (rb - 1) < 2 ^ 48" if "rb \<noteq> 0"
    using small(1) unat_minus_one [OF that] by simp
  let ?s = "secret sha256 root_a (unat (rb - 1))"
  have sec': "rb = 0 \<or> lookUp sha256 (lc_store b) (rb - 1) = Inr ?s"
    using sec secret_at [OF keys(1,2) rb1] by auto
  define msg where "msg = \<lparr>cr_nextLocalCommitHeight = hb + 1, cr_remoteCommitTailHeight = rb,
     cr_lastRemoteCommitSecret = (if rb = 0 then replicate 32 0 else ?s),
     cr_localUnrevokedCommitPoint = Some (te_commitPoint env (secret sha256 root_b (unat hb))),
     cr_localNonce = isTaproot (lc_chanType b)\<rparr>"
  have m: "chanSyncMsg env b = Inr msg"
    unfolding msg_def
    using chanSyncMsg_value [OF ib keys(3,4) types(4), folded d, OF _ sec'] small(2) by simp
  define rev where "rev = (if ha = rb then [] else [SyncRevoke \<lparr>rv_revocation = secret sha256 root_a (unat rb),
      rv_nextRevocationKey = te_commitPoint env (secret sha256 root_a (unat rb + 2))\<rparr>])"
  have c1: "checkRecovery a msg = None"
    using secret_at [OF keys(1,2) rb1] by (simp add: checkRecovery_def msg_def)
  have c2: "checkNonce nonceOk a msg = None" using types(1) by (simp add: checkNonce_def)
  have lh: "cm_height (tail (d_local (lc_chains a))) = ha" "cm_height (tail (d_remote (lc_chains a))) = ra"
    by (simp_all add: d)
  let ?signs = "rev \<noteq> [] \<and> \<not> hasUnackedCommitment (chainOf a Remote) \<and> oweCommitment a Local \<and> lc_remoteNextRevocation a \<noteq> None"
  have sl: "syncLocal env a msg = (if ?signs then (case signNextCommitment env a of
        (a', Inr d) \<Rightarrow> (a', Inr (rev @ [SyncCommitSig (cd_commitment d)]))
      | (a', Inl err) \<Rightarrow> (a', Inl err)) else (a, Inr rev))"
  proof (cases "ha = rb")
    case True
    then show ?thesis using types(3) succ by (simp add: syncLocal_def lh msg_def rev_def not_less)
  next
    case False
    then have ha: "ha = rb + 1" using hs(1) by simp
    have gen: "generateRevocation env a rb = Inr \<lparr>rv_revocation = secret sha256 root_a (unat rb),
      rv_nextRevocationKey = te_commitPoint env (secret sha256 root_a (unat rb + 2))\<rparr>"
      by (rule generateRevocation_at [OF keys(1,2)]) (use small in simp)
    have w: "hasUnackedCommitment (d_remote (lc_chains a)) \<or> lc_remoteNextRevocation a = None \<Longrightarrow>
        signNextCommitment env a = (a, Inl ErrNoWindow)"
      by (simp add: signNextCommitment_def)
    obtain a' r where sg: "signNextCommitment env a = (a', r)" by fastforce
    have "r \<noteq> Inl ErrNoWindow" if "\<not> hasUnackedCommitment (chainOf a Remote)" "lc_remoteNextRevocation a \<noteq> None"
      using sign_error [OF that] sg by blast
    then show ?thesis using types(3) succ False gen w sg
      by (cases r) (auto simp: syncLocal_def Let_def lh ha msg_def rev_def)
  qed
  have rc: "if hasUnackedCommitment (chainOf a Remote)
     then (\<exists>d. db_commitDiff (lc_db a) = Some d) \<and> cm_height (tip (d_remote (lc_chains a))) = ra + 1
     else db_commitDiff (lc_db a) = None \<and> cm_height (tip (d_remote (lc_chains a))) = ra"
    using remote_chain [OF ia] lh by (auto split: if_splits)
  have point': "(if hb = ra then lc_remoteCurrentRevocation a else lc_remoteNextRevocation a)
      = Some (te_commitPoint env (secret sha256 root_b (unat hb)))"
    using point [OF secret_at [OF keys(3,4)]] small(2) by simp
  have ra: "ra < ra + 1" "ra < ra + 2" "ra < 2 + ra" "ra + 1 < ra + 2" "ra + 1 \<le> 2 + ra" "ra + 1 \<noteq> ra" "ra + 2 \<noteq> ra" "ra + 1 \<noteq> ra + 2"
    using small(3) by (simp_all add: unat_word_ariths word_less_nat_alt word_le_nat_alt word_unat_eq_iff)
  have c3: "checkCommitPoint a a msg = None"
    using point' hs(2) by (auto simp: checkCommitPoint_def msg_def lh Let_def add.commute split: if_splits)
  have sr: "\<exists>oc cc. syncRemote resignOk a a msg rev = Inr (
       if hasUnackedCommitment (chainOf a Remote) \<and> hb = ra
       then if db_lastWasRevoke (lc_db a) then retransmitted a @ rev else rev @ retransmitted a
       else rev, oc, cc)"
    using rc hs(2) ra types(1)
    by (cases "hasUnackedCommitment (chainOf a Remote)")
       (auto simp: syncRemote_def Let_def lh msg_def retransmitted_def not_less not_le simp del: getForParty.simps)
  show ?thesis
  proof (cases ?signs)
    case True
    then have nb: "\<not> hasUnackedCommitment (chainOf a Remote)" "hb = ra" using hs(2) by auto
    obtain a' r where sg: "signNextCommitment env a = (a', r)" by fastforce
    have sr': "syncRemote resignOk a a' msg ups = Inr (ups, [], [])" for ups
      using rc nb ra by (simp add: syncRemote_def Let_def lh msg_def del: getForParty.simps)
    have "checkCommitPoint a a' msg = None" if "r = Inr dd" for dd
    proof -
      have "lc_remoteCurrentRevocation a' = lc_remoteCurrentRevocation a" using signed_point sg that by blast
      then show ?thesis using point' nb by (simp add: checkCommitPoint_def msg_def lh Let_def)
    qed
    then have "processChanSyncMsg env nonceOk resignOk a msg = (case r of
        Inr dd \<Rightarrow> (a', Inr (rev @ [SyncCommitSig (cd_commitment dd)], [], [])) | Inl err \<Rightarrow> (a', Inl err))"
      using c1 c2 sl True sg sr' by (auto simp: processChanSyncMsg_def split: sum.split)
    then show ?thesis
      using m True sg unfolding d [symmetric] rev_def [symmetric]
      by (intro exI [of _ msg] exI [of _ rev]) (auto split: sum.split)
  next
    case False
    then have "syncLocal env a msg = (a, Inr rev)" using sl by argo
    then show ?thesis
      using m c1 c2 c3 sr False unfolding d [symmetric] rev_def [symmetric]
      by (intro exI [of _ msg] exI [of _ rev]) (auto simp: processChanSyncMsg_def)
  qed
qed

lemma sign_ignores_points:
  "signNextCommitment (env\<lparr>te_commitPoint := f\<rparr>) lc = signNextCommitment env lc"
  by (simp add: signNextCommitment_def fetchCommitmentView_def createUnsignedCommitmentTx_def Let_def
      cong: option.case_cong sum.case_cong prod.case_cong)

definition point_env :: tx_env where
  "point_env = demo_env\<lparr>te_commitPoint := (\<lambda>s. replicate 32 9)\<rparr>"

lemma point_run: "(chan_step point_env)\<^sup>*\<^sup>* demo_channel demo_signed"
proof -
  have "log_room demo_channel"
    by (simp add: log_room_def all_parties demo_channel_def newUpdateLog_def)
  moreover have "update_step demo_channel demo_added"
    using us_add [OF demo_add [unfolded AddHTLC_def]] by (simp add: demo_added_def demo_add)
  ultimately have a: "chan_step point_env demo_channel demo_added" by (rule cs_update)
  have "height_room demo_added Remote"
    by (simp add: height_room_def demo_added tip_def demo_commitment_def)
  then have "chan_step point_env demo_added demo_signed"
    using demo_sign(1) by (auto intro: cs_sign simp: point_env_def sign_ignores_points)
  with a show ?thesis by (meson converse_rtranclp_into_rtranclp rtranclp.rtrancl_refl)
qed

lemma demo_out_of_step: "out_of_step point_env demo_signed demo_channel"
  unfolding out_of_step_def demo_sign(2,3)
  by (simp add: demo_channel_def demo_commitment_def tail_def hasUnackedCommitment_def point_env_def
      demo_signed_more [unfolded demo_channel_def])

theorem resync_sends_what_is_missing_witness:
  "\<exists>msg opened_circuits closed_circuits. chanSyncMsg point_env demo_channel = Inr msg \<and>
     processChanSyncMsg point_env True True demo_signed msg
       = (demo_signed, Inr ([SyncUpdate (lu_updateMsg (toLogUpdate (setCommitHeight Remote 1 demo_pd))),
                             SyncCommitSig (toDiskCommit demo_commitment1)], opened_circuits, closed_circuits))"
proof -
  have u: "hasUnackedCommitment (chainOf demo_signed Remote)"
    unfolding demo_sign(2) by (simp add: hasUnackedCommitment_def)
  have c: "lc_producer demo_channel = newRevocationProducer (replicate 32 2)" "lc_chanType demo_channel = 0"
    "\<not> db_restored (lc_db demo_channel)" "chainOf demo_channel w = [demo_commitment w]" for w
    by (simp_all add: demo_channel_def) (cases w; simp add: mkDual_def)
  have r: "retransmitted demo_signed = [SyncUpdate (lu_updateMsg (toLogUpdate (setCommitHeight Remote 1 demo_pd))),
      SyncCommitSig (toDiskCommit demo_commitment1)]"
    using arg_cong [OF demo_diff, of "map SyncUpdate"]
    by (simp add: retransmitted_def demo_signed_more comp_def) (simp add: createCommitDiff_def Let_def)
  show ?thesis
    using resync_sends_what_is_missing [OF demo_opened life_run [OF point_run] demo_opened rtranclp.rtrancl_refl
        demo_signed_more(1) _ c(1) _ _ _ demo_signed_more(3) c(3) demo_out_of_step, of True True]
    unfolding r demo_sign(2,3) c(4)
    by (simp add: demo_signed_more c isTaproot_def demo_commitment_def tail_def u hasUnackedCommitment_def)
qed

definition revoked_demo :: channel where
  "revoked_demo = demo_channel\<lparr>lc_chains := mkDual [(demo_commitment Local)\<lparr>cm_height := 1\<rparr>] [demo_commitment Remote]\<rparr>"

definition proof_demo :: "byte list \<Rightarrow> channel_reestablish" where
  "proof_demo s = \<lparr>cr_nextLocalCommitHeight = 1, cr_remoteCommitTailHeight = 1, cr_lastRemoteCommitSecret = s,
     cr_localUnrevokedCommitPoint = Some (replicate 32 9), cr_localNonce = False\<rparr>"

theorem sync_only_within_window_witness:
  "\<exists>s. atIndex sha256 (lc_producer revoked_demo) 0 = Inr s \<and>
     processChanSyncMsg demo_env True True revoked_demo (proof_demo s) = (revoked_demo, Inr ([], [], [])) \<and>
     (\<forall>s'. s' \<noteq> s \<longrightarrow>
        processChanSyncMsg demo_env True True revoked_demo (proof_demo s') = (revoked_demo, Inl ErrInvalidLastCommitSecret))"
proof -
  have f: "lc_producer revoked_demo = newRevocationProducer (replicate 32 2)" "lc_chanType revoked_demo = 0"
    "\<not> db_restored (lc_db revoked_demo)" "lc_remoteCurrentRevocation revoked_demo = Some (replicate 32 9)"
    "d_local (lc_chains revoked_demo) = [(demo_commitment Local)\<lparr>cm_height := 1\<rparr>]"
    "d_remote (lc_chains revoked_demo) = [demo_commitment Remote]"
    by (simp_all add: revoked_demo_def demo_channel_def)
  let ?s = "secret sha256 (replicate 32 2) 0"
  have at: "atIndex sha256 (lc_producer revoked_demo) 0 = Inr ?s" using secret_at [OF f(1), of 0] by simp
  have "processChanSyncMsg demo_env True True revoked_demo (proof_demo ?s) = (revoked_demo, Inr ([], [], []))"
    using at by (simp add: processChanSyncMsg_def checkRecovery_def checkNonce_def syncLocal_def syncRemote_def
        checkCommitPoint_def proof_demo_def isTaproot_def isTweakless_def f tail_def tip_def demo_commitment_def)
  moreover have "processChanSyncMsg demo_env True True revoked_demo (proof_demo s') = (revoked_demo, Inl ErrInvalidLastCommitSecret)"
    if "s' \<noteq> ?s" for s'
  proof -
    obtain lc' r where p: "processChanSyncMsg demo_env True True revoked_demo (proof_demo s') = (lc', r)" by fastforce
    show ?thesis
      using sync_only_within_window [OF p, THEN conjunct1] that at p by (simp add: proof_demo_def)
  qed
  ultimately show ?thesis using at by blast
qed

end
