(* ===== verification/Circuit_Channel.thy ===== *)
theory Circuit_Channel
  imports Circuit_Run Channel_Sync
begin

text \<open>
  The circuit map together with an outgoing channel: a link that starts (\<open>htlcswitch/link.go\<close>) trims
  the keystones from the channel's next local HTLC index on, which \<open>channeldb/channel.go\<close> reads from
  the pending or the current remote commitment on disk.
\<close>

definition nextLocalHtlcIndex :: "channel \<Rightarrow> u64" where
  "nextLocalHtlcIndex lc =
     (case db_commitDiff (lc_db lc) of
        Some pendingRemoteCommit \<Rightarrow> dc_localHtlcIndex (cd_commitment pendingRemoteCommit)
      | None \<Rightarrow> dc_localHtlcIndex (lc_remoteCommitment lc))"

definition trimOnStart :: "bool \<Rightarrow> channel \<Rightarrow> circuit_map \<Rightarrow> circuit_map \<times> circuit_error option" where
  "trimOnStart dbOk lc cm =
     (if lc_shortChanID lc \<noteq> 0 then trimOpenCircuits dbOk cm (lc_shortChanID lc) (nextLocalHtlcIndex lc)
      else (cm, None))"

lemma nextLocalHtlcIndex_signed:
  assumes "signNextCommitment env lc = (lc', Inr d)"
  shows "nextLocalHtlcIndex lc' = ul_htlcCounter (logOf lc' Local)" "lc_logs lc' = lc_logs lc"
proof -
  obtain lc1 lc2 c db where s:
    "validateCommitmentSanity lc (msgIndex (tail (chainOf lc Local)) Remote) (ul_logIndex (logOf lc Local))
       Remote NoBuffer None None = (lc1, None)"
    "fetchCommitmentView env lc1 Remote (ul_logIndex (logOf lc Local)) (ul_htlcCounter (logOf lc Local))
       (msgIndex (tail (chainOf lc Local)) Remote) (cm_theirHtlcIndex (tail (chainOf lc Local))) = (lc2, Inr c)"
    "d = createCommitDiff lc2 c" "appendRemoteCommitChain (lc_db lc2) d = Some db"
    "lc' = extendChain (lc2\<lparr>lc_db := db\<rparr>) Remote c"
    by (rule signNextCommitment_cases [OF assms]) (rule that, assumption+)
  show l: "lc_logs lc' = lc_logs lc"
    using dry_fields(1) [OF validateCommitmentSanity_dry [OF s(1)]] fetchCommitmentView_frame [OF s(2)] s(5)
    by (simp add: extendChain_def)
  have "cm_ourHtlcIndex c = ul_htlcCounter (logOf lc Local)"
    by (rule fetchCommitmentView_cases [OF s(2)]) simp
  moreover have "db_commitDiff (lc_db lc') = Some d"
    using s(4,5) by (auto simp: appendRemoteCommitChain_def extendChain_def split: if_splits)
  ultimately show "nextLocalHtlcIndex lc' = ul_htlcCounter (logOf lc' Local)"
    using s(3) by (simp add: nextLocalHtlcIndex_def createCommitDiff_def Let_def toDiskCommit_def l)
qed

text \<open>
  C36: an HTLC that made it into a signature keeps its circuit. After a link has signed, whatever it
  had opened, a restart of the link trims no keystone of an HTLC in our log, so the settle or fail
  that comes back finds the way to the incoming channel.
\<close>

theorem signed_htlcs_keep_circuits:
  assumes "opened v lc0" "(chan_step env)\<^sup>*\<^sup>* lc0 lc" "height_room lc Remote"
    and "signNextCommitment env lc = (lc', Inr d)"
    and "circuit_reach cm" "lookupOpenCircuit cm \<lparr>ck_chanID = lc_shortChanID lc', ck_htlcID = - 1\<rparr> = None"
    and "e \<in> set (ul_list (logOf lc' Local))" "isAdd (lc_heap lc' e)"
  shows "\<exists>cm'. trimOnStart True lc' cm = (cm', None) \<and>
    (let outK = \<lparr>ck_chanID = lc_shortChanID lc', ck_htlcID = pd_htlcIndex (lc_heap lc' e)\<rparr>
     in lookupOpenCircuit cm' outK = lookupOpenCircuit cm outK)"
proof -
  have "chan_step env lc lc'" by (rule cs_sign [OF assms(3,4)])
  then have "(chan_step env)\<^sup>*\<^sup>* lc0 lc'" by (rule rtranclp.rtrancl_into_rtrancl [OF assms(2)])
  then have "chan_inv v lc'" by (rule chan_run_inv(1) [OF _ assms(1)])
  then have "log_wf (lc_heap lc') (logOf lc' Local)"
    unfolding chan_inv_def using logs_wf_parts(1) by blast
  then have below: "pd_htlcIndex (lc_heap lc' e) < nextLocalHtlcIndex lc'"
    using assms(7,8) by (simp add: log_wf_def nextLocalHtlcIndex_signed(1) [OF assms(4)])
  note w = circuit_reach_wf [OF assms(5)]
  show ?thesis
  proof (cases "lc_shortChanID lc' = 0")
    case False
    obtain cm' where t: "trimOpenCircuits True cm (lc_shortChanID lc') (nextLocalHtlcIndex lc') = (cm', None)"
      using trim_wf(3) [OF w] by (metis surj_pair)
    show ?thesis
      using trim_spec(2) [OF w t] assms(6) below False t by (simp add: trimOnStart_def lookupOpenCircuit_def Let_def)
  qed (simp add: trimOnStart_def)
qed

text \<open>The circuit of the demo channel's HTLC.\<close>

definition demo_linked :: circuit_map where
  "demo_linked = fst (openCircuits True demo_map1
     [\<lparr>ks_inKey = demo_in 1, ks_outKey = \<lparr>ck_chanID = 7, ck_htlcID = 0\<rparr>\<rparr>])"

lemma demo_linked:
  "ct_opened demo_linked = [\<lparr>ck_chanID = 7, ck_htlcID = 0\<rparr> \<mapsto> 0]" "circuit_reach demo_linked"
proof -
  show "ct_opened demo_linked = [\<lparr>ck_chanID = 7, ck_htlcID = 0\<rparr> \<mapsto> 0]"
    by (simp add: demo_linked_def openCircuits_def demo_map1 setKeystone_def Let_def)
  have "circ_step demo_map1 demo_linked"
    by (rule ci_open [of _ "[\<lparr>ks_inKey = demo_in 1, ks_outKey = \<lparr>ck_chanID = 7, ck_htlcID = 0\<rparr>\<rparr>]" True _ None])
      (simp_all add: keystones_ok_def demo_map1 demo_linked_def openCircuits_def emptyCircuitKey_def)
  with demo_reach1 show "circuit_reach demo_linked" by (rule rtranclp.rtrancl_into_rtrancl)
qed

lemma demo_signed_id: "lc_shortChanID demo_signed = 7"
proof -
  have "lc_shortChanID demo_locked = 7"
    by (simp add: demo_locked_def demo_added_def demo_add) (simp add: demo_channel_def)
  then show ?thesis
    using demo_sanity demo_fetch
    by (simp add: demo_signed_def signNextCommitment_def demo_added demo_env hasUnackedCommitment_def tail_def
        demo_commitment_def demo_log_def demo_locked appendRemoteCommitChain_def Let_def extendChain_def)
qed

theorem signed_htlcs_keep_circuits_witness:
  "\<exists>cm'. trimOnStart True demo_signed demo_linked = (cm', None) \<and>
     lookupOpenCircuit cm' \<lparr>ck_chanID = 7, ck_htlcID = 0\<rparr> = Some 0"
proof -
  obtain d where d: "signNextCommitment demo_env demo_added = (demo_signed, Inr d)" using demo_sign(1) by blast
  have r: "height_room demo_added Remote"
    by (simp add: height_room_def demo_added tip_def demo_commitment_def)
  have e: "0 \<in> set (ul_list (logOf demo_signed Local))" "isAdd (lc_heap demo_signed 0)"
    "pd_htlcIndex (lc_heap demo_signed 0) = 0"
    by (simp_all add: demo_sign demo_added demo_log_def setCommitHeight_kind(1) demo_pd isAdd_alt setCommitHeight_def
        modifyForParty_def)
  have o: "lookupOpenCircuit demo_linked \<lparr>ck_chanID = lc_shortChanID demo_signed, ck_htlcID = - 1\<rparr> = None"
    by (simp add: lookupOpenCircuit_def demo_linked(1) demo_signed_id)
  show ?thesis
    using signed_htlcs_keep_circuits [OF demo_opened demo_run(1) r d demo_linked(2) o e(1,2)]
    by (simp add: Let_def e(3) demo_signed_id lookupOpenCircuit_def demo_linked(1))
qed

end
