(* ===== verification/Quiescer.thy ===== *)
theory Quiescer
  imports Channel_Types
begin

text \<open>
  The quiescence state machine of \<open>htlcswitch/quiescer.go\<close>: both peers send \<open>stfu\<close>, after which a
  channel carries no more updates until it is resumed. The effects of the Go code are part of the
  state: the response channels of the requests (\<open>fn.Req\<close>, one slot each, a second response is
  dropped), the messages handed to \<open>sendMsg\<close>, the hooks that ran and the timers that are running.
  Requests, hooks and timers are identified by numbers. The message and error results of \<open>sendMsg\<close>
  are its caller's: it takes whether the send worked.

  A second implementation of the interface, \<open>quiescerNoop\<close>, serves channels without the feature. The
  locale states what the link relies on, for both.
\<close>

section \<open>State\<close>

datatype quiescer_error =
    ErrInvalidStfu
  | ErrStfuAlreadySent
  | ErrStfuAlreadyRcvd
  | ErrNoQuiescenceInitiator
  | ErrPendingRemoteUpdates
  | ErrPendingLocalUpdates
  | ErrQuiescenceRequested
  | ErrQuiescenceUnsupported
  | ErrSendMsg

record stfu =
  st_chanID :: "byte list"
  st_initiator :: bool

type_synonym initiator_result = "quiescer_error + channel_party"

record quiescer_world =
  qw_responses :: "nat \<rightharpoonup> initiator_result"
  qw_sentMsgs :: "stfu list"
  qw_hooksRun :: "nat list"
  qw_timers :: "nat set"
  qw_nextTimer :: nat

record quiescer_cfg =
  qc_chanID :: "byte list"
  qc_channelInitiator :: channel_party
  qc_onTimeout :: bool

record quiescer = quiescer_world +
  q_cfg :: quiescer_cfg
  q_localInit :: bool
  q_remoteInit :: bool
  q_sent :: bool
  q_received :: bool
  q_activeQuiescenceReq :: "nat option"
  q_resumeQueue :: "nat list"
  q_timeoutTimer :: "nat option"

definition quiet_world :: quiescer_world where
  "quiet_world = \<lparr>qw_responses = Map.empty, qw_sentMsgs = [], qw_hooksRun = [], qw_timers = {}, qw_nextTimer = 0\<rparr>"

definition newQuiescer :: "quiescer_cfg \<Rightarrow> quiescer" where
  "newQuiescer cfg = quiescer_world.extend quiet_world
     \<lparr>q_cfg = cfg, q_localInit = False, q_remoteInit = False, q_sent = False, q_received = False,
      q_activeQuiescenceReq = None, q_resumeQueue = [], q_timeoutTimer = None\<rparr>"

section \<open>Operations\<close>

text \<open>\<open>Req.Resolve\<close> writes to a buffered channel of size one and gives up when it is full.\<close>

definition resolve :: "nat \<Rightarrow> initiator_result \<Rightarrow> 'a quiescer_world_scheme \<Rightarrow> 'a quiescer_world_scheme" where
  "resolve req out q =
     (case qw_responses q req of
        None \<Rightarrow> q\<lparr>qw_responses := (qw_responses q)(req \<mapsto> out)\<rparr>
      | Some _ \<Rightarrow> q)"

definition oweStfu :: "quiescer \<Rightarrow> bool" where
  "oweStfu q \<longleftrightarrow> (q_received q \<or> q_localInit q) \<and> \<not> q_sent q"

definition needStfu :: "quiescer \<Rightarrow> bool" where
  "needStfu q \<longleftrightarrow> q_sent q \<and> \<not> q_received q"

definition isQuiescent :: "quiescer \<Rightarrow> bool" where
  "isQuiescent q \<longleftrightarrow> q_sent q \<and> q_received q"

definition quiescenceInitiator :: "quiescer \<Rightarrow> initiator_result" where
  "quiescenceInitiator q =
     (if \<not> isQuiescent q then Inl ErrNoQuiescenceInitiator
      else if q_localInit q \<and> q_remoteInit q then Inr (qc_channelInitiator (q_cfg q))
      else if q_localInit q then Inr Local
      else if q_remoteInit q then Inr Remote
      else Inl ErrNoQuiescenceInitiator)"

definition canSendUpdates :: "quiescer \<Rightarrow> bool" where
  "canSendUpdates q \<longleftrightarrow> \<not> q_sent q \<and> \<not> q_localInit q"

definition canRecvUpdates :: "quiescer \<Rightarrow> bool" where
  "canRecvUpdates q \<longleftrightarrow> \<not> q_received q"

definition canSendStfu :: "quiescer \<Rightarrow> bool" where
  "canSendStfu q \<longleftrightarrow> \<not> q_sent q"

definition canRecvStfu :: "quiescer \<Rightarrow> bool" where
  "canRecvStfu q \<longleftrightarrow> \<not> q_received q"

definition makeStfu :: "quiescer \<Rightarrow> quiescer_error + stfu" where
  "makeStfu q =
     (if q_sent q then Inl ErrStfuAlreadySent
      else if \<not> canSendStfu q then Inl ErrPendingLocalUpdates
      else Inr \<lparr>st_chanID = qc_chanID (q_cfg q), st_initiator = q_localInit q\<rparr>)"

definition tryResolveStfuReq :: "quiescer \<Rightarrow> quiescer" where
  "tryResolveStfuReq q =
     (case q_activeQuiescenceReq q of
        Some req \<Rightarrow>
          if isQuiescent q then (resolve req (quiescenceInitiator q) q)\<lparr>q_activeQuiescenceReq := None\<rparr>
          else q
      | None \<Rightarrow> q)"

text \<open>The new timer starts before the old one is stopped.\<close>

definition startTimeout :: "quiescer \<Rightarrow> quiescer" where
  "startTimeout q =
     (if \<not> qc_onTimeout (q_cfg q) then q
      else let old = q_timeoutTimer q;
               new = qw_nextTimer q
           in q\<lparr>q_timeoutTimer := Some new, qw_nextTimer := Suc new,
                qw_timers := insert new (qw_timers q) - set_option old\<rparr>)"

definition cancelTimeout :: "quiescer \<Rightarrow> quiescer" where
  "cancelTimeout q =
     (case q_timeoutTimer q of
        Some t \<Rightarrow> q\<lparr>qw_timers := qw_timers q - {t}, q_timeoutTimer := None\<rparr>
      | None \<Rightarrow> q)"

definition recvStfu :: "quiescer \<Rightarrow> stfu \<Rightarrow> quiescer \<times> quiescer_error option" where
  "recvStfu q msg =
     (if q_received q then (q, Some ErrStfuAlreadyRcvd)
      else if \<not> q_sent q \<and> \<not> st_initiator msg then (q, Some ErrInvalidStfu)
      else if \<not> canRecvStfu q then (q, Some ErrPendingRemoteUpdates)
      else let q1 = tryResolveStfuReq (q\<lparr>q_received := True, q_remoteInit := st_initiator msg\<rparr>)
           in (if isQuiescent q1 then startTimeout q1 else q1, None))"

definition sendOwedStfu :: "bool \<Rightarrow> quiescer \<Rightarrow> quiescer \<times> quiescer_error option" where
  "sendOwedStfu sendOk q =
     (if \<not> oweStfu q \<or> \<not> canSendStfu q then (q, None)
      else case makeStfu q of
        Inl e \<Rightarrow> (q, Some e)
      | Inr msg \<Rightarrow>
          if \<not> sendOk then (q, Some ErrSendMsg)
          else let q1 = tryResolveStfuReq (q\<lparr>qw_sentMsgs := qw_sentMsgs q @ [msg], q_sent := True\<rparr>)
               in (if isQuiescent q1 then startTimeout q1 else q1, None))"

definition initStfu :: "quiescer \<Rightarrow> nat \<Rightarrow> quiescer" where
  "initStfu q req =
     (if q_localInit q then resolve req (Inl ErrQuiescenceRequested) q
      else q\<lparr>q_localInit := True, q_activeQuiescenceReq := Some req\<rparr>)"

definition onResume :: "quiescer \<Rightarrow> nat \<Rightarrow> quiescer" where
  "onResume q hook = q\<lparr>q_resumeQueue := q_resumeQueue q @ [hook]\<rparr>"

definition resume :: "quiescer \<Rightarrow> quiescer" where
  "resume q =
     (let q1 = cancelTimeout q
      in q1\<lparr>qw_hooksRun := qw_hooksRun q1 @ q_resumeQueue q1, q_localInit := False, q_remoteInit := False,
            q_sent := False, q_received := False, q_resumeQueue := []\<rparr>)"

section \<open>The quiescer that does nothing\<close>

definition noopInitStfu :: "quiescer_world \<Rightarrow> nat \<Rightarrow> quiescer_world" where
  "noopInitStfu q req = resolve req (Inl ErrQuiescenceUnsupported) q"

definition noopOnResume :: "quiescer_world \<Rightarrow> nat \<Rightarrow> quiescer_world" where
  "noopOnResume q hook = q\<lparr>qw_hooksRun := qw_hooksRun q @ [hook]\<rparr>"

text \<open>The interface holds one of the two.\<close>

datatype quiescer_impl = QuiescerLive quiescer | QuiescerNoop quiescer_world

fun q_CanSendUpdates :: "quiescer_impl \<Rightarrow> bool" where
  "q_CanSendUpdates (QuiescerLive q) = canSendUpdates q"
| "q_CanSendUpdates (QuiescerNoop w) = True"

fun q_CanRecvUpdates :: "quiescer_impl \<Rightarrow> bool" where
  "q_CanRecvUpdates (QuiescerLive q) = canRecvUpdates q"
| "q_CanRecvUpdates (QuiescerNoop w) = True"

fun q_IsQuiescent :: "quiescer_impl \<Rightarrow> bool" where
  "q_IsQuiescent (QuiescerLive q) = isQuiescent q"
| "q_IsQuiescent (QuiescerNoop w) = False"

fun q_QuiescenceInitiator :: "quiescer_impl \<Rightarrow> initiator_result" where
  "q_QuiescenceInitiator (QuiescerLive q) = quiescenceInitiator q"
| "q_QuiescenceInitiator (QuiescerNoop w) = Inl ErrNoQuiescenceInitiator"

fun q_InitStfu :: "quiescer_impl \<Rightarrow> nat \<Rightarrow> quiescer_impl" where
  "q_InitStfu (QuiescerLive q) req = QuiescerLive (initStfu q req)"
| "q_InitStfu (QuiescerNoop w) req = QuiescerNoop (noopInitStfu w req)"

fun q_RecvStfu :: "quiescer_impl \<Rightarrow> stfu \<Rightarrow> quiescer_impl \<times> quiescer_error option" where
  "q_RecvStfu (QuiescerLive q) msg = map_prod QuiescerLive id (recvStfu q msg)"
| "q_RecvStfu (QuiescerNoop w) msg = (QuiescerNoop w, None)"

fun q_SendOwedStfu :: "bool \<Rightarrow> quiescer_impl \<Rightarrow> quiescer_impl \<times> quiescer_error option" where
  "q_SendOwedStfu ok (QuiescerLive q) = map_prod QuiescerLive id (sendOwedStfu ok q)"
| "q_SendOwedStfu ok (QuiescerNoop w) = (QuiescerNoop w, None)"

fun q_OnResume :: "quiescer_impl \<Rightarrow> nat \<Rightarrow> quiescer_impl" where
  "q_OnResume (QuiescerLive q) hook = QuiescerLive (onResume q hook)"
| "q_OnResume (QuiescerNoop w) hook = QuiescerNoop (noopOnResume w hook)"

fun q_Resume :: "quiescer_impl \<Rightarrow> quiescer_impl" where
  "q_Resume (QuiescerLive q) = QuiescerLive (resume q)"
| "q_Resume (QuiescerNoop w) = QuiescerNoop w"

end
