(* ===== verification/Quiescer_Pair.thy ===== *)
theory Quiescer_Pair
  imports Quiescer
begin

text \<open>
  What the quiescer promises: the laws of its interface, for both implementations; the invariant of
  one quiescer; and two peers that exchange \<open>stfu\<close> over an ordered connection, with the invariant of
  the pair, agreement on the initiator, and progress.
\<close>

section \<open>The interface\<close>

datatype quiescer_call =
    CallInitStfu nat
  | CallRecvStfu stfu
  | CallSendOwedStfu bool
  | CallOnResume nat

locale quiescer_interface =
  fixes canSend canRecv quiescent :: "'q \<Rightarrow> bool"
    and step :: "'q \<Rightarrow> quiescer_call \<Rightarrow> 'q"
    and restart :: "'q \<Rightarrow> 'q"
  assumes quiescent_frozen: "quiescent q \<Longrightarrow> \<not> canSend q \<and> \<not> canRecv q"
    and send_stays_off: "\<not> canSend q \<Longrightarrow> \<not> canSend (step q c)"
    and recv_stays_off: "\<not> canRecv q \<Longrightarrow> \<not> canRecv (step q c)"
    and restart_frees: "canSend (restart q) \<and> canRecv (restart q)"
begin

lemma calls_keep_off:
  "\<not> canSend q \<Longrightarrow> \<not> canSend (foldl step q cs)" "\<not> canRecv q \<Longrightarrow> \<not> canRecv (foldl step q cs)"
  by (induction cs arbitrary: q) (simp_all add: send_stays_off recv_stays_off)

lemma quiescent_until_restart:
  assumes "quiescent q"
  shows "\<not> canSend (foldl step q cs) \<and> \<not> canRecv (foldl step q cs)"
  using quiescent_frozen [OF assms] calls_keep_off by blast

end

fun q_call :: "quiescer_impl \<Rightarrow> quiescer_call \<Rightarrow> quiescer_impl" where
  "q_call q (CallInitStfu req) = q_InitStfu q req"
| "q_call q (CallRecvStfu msg) = fst (q_RecvStfu q msg)"
| "q_call q (CallSendOwedStfu ok) = fst (q_SendOwedStfu ok q)"
| "q_call q (CallOnResume hook) = q_OnResume q hook"

lemma resolve_frame [simp]:
  "q_cfg (resolve r v q) = q_cfg q" "q_localInit (resolve r v q) = q_localInit q"
  "q_remoteInit (resolve r v q) = q_remoteInit q" "q_sent (resolve r v q) = q_sent q"
  "q_received (resolve r v q) = q_received q" "q_activeQuiescenceReq (resolve r v q) = q_activeQuiescenceReq q"
  "q_timeoutTimer (resolve r v q) = q_timeoutTimer q" "q_resumeQueue (resolve r v q) = q_resumeQueue q"
  by (simp_all add: resolve_def split: option.split)

lemma resolve_world [simp]:
  "qw_sentMsgs (resolve r v q) = qw_sentMsgs q" "qw_timers (resolve r v q) = qw_timers q"
  "qw_nextTimer (resolve r v q) = qw_nextTimer q" "qw_hooksRun (resolve r v q) = qw_hooksRun q"
  "qw_responses (resolve r v q) =
     (if qw_responses q r = None then (qw_responses q)(r \<mapsto> v) else qw_responses q)"
  by (auto simp: resolve_def split: option.split)

lemmas q_flags = canSendUpdates_def canRecvUpdates_def canSendStfu_def canRecvStfu_def isQuiescent_def
  oweStfu_def makeStfu_def

lemma tryResolve_frame [simp]:
  "q_cfg (tryResolveStfuReq q) = q_cfg q" "q_localInit (tryResolveStfuReq q) = q_localInit q"
  "q_remoteInit (tryResolveStfuReq q) = q_remoteInit q" "q_sent (tryResolveStfuReq q) = q_sent q"
  "q_received (tryResolveStfuReq q) = q_received q" "qw_sentMsgs (tryResolveStfuReq q) = qw_sentMsgs q"
  "qw_timers (tryResolveStfuReq q) = qw_timers q" "qw_nextTimer (tryResolveStfuReq q) = qw_nextTimer q"
  "q_timeoutTimer (tryResolveStfuReq q) = q_timeoutTimer q"
  by (simp_all add: tryResolveStfuReq_def split: option.split)

lemma tryResolve_request:
  "q_activeQuiescenceReq (tryResolveStfuReq q) = (if isQuiescent q then None else q_activeQuiescenceReq q)"
  "qw_responses (tryResolveStfuReq q) =
     (case q_activeQuiescenceReq q of
        Some r \<Rightarrow> if isQuiescent q \<and> qw_responses q r = None
                  then (qw_responses q)(r \<mapsto> quiescenceInitiator q) else qw_responses q
      | None \<Rightarrow> qw_responses q)"
  by (auto simp: tryResolveStfuReq_def split: option.split)

lemma startTimeout_frame [simp]:
  "q_cfg (startTimeout q) = q_cfg q" "q_localInit (startTimeout q) = q_localInit q"
  "q_remoteInit (startTimeout q) = q_remoteInit q" "q_sent (startTimeout q) = q_sent q"
  "q_received (startTimeout q) = q_received q" "qw_sentMsgs (startTimeout q) = qw_sentMsgs q"
  "q_activeQuiescenceReq (startTimeout q) = q_activeQuiescenceReq q"
  "qw_responses (startTimeout q) = qw_responses q"
  by (simp_all add: startTimeout_def Let_def)

lemma q_ops_flags:
  "q_sent (fst (recvStfu q msg)) = q_sent q" "q_localInit (fst (recvStfu q msg)) = q_localInit q"
  "q_received q \<Longrightarrow> q_received (fst (recvStfu q msg))"
  "q_received (fst (sendOwedStfu ok q)) = q_received q" "q_localInit (fst (sendOwedStfu ok q)) = q_localInit q"
  "q_sent q \<Longrightarrow> q_sent (fst (sendOwedStfu ok q))"
  "q_sent (initStfu q r) = q_sent q" "q_received (initStfu q r) = q_received q"
  "q_localInit q \<Longrightarrow> q_localInit (initStfu q r)"
  "q_sent (onResume q h) = q_sent q" "q_received (onResume q h) = q_received q"
  "q_localInit (onResume q h) = q_localInit q"
  by (simp_all add: recvStfu_def sendOwedStfu_def initStfu_def onResume_def Let_def split: sum.split)

lemma resume_flags [simp]:
  "q_sent (resume q) = False" "q_received (resume q) = False" "q_localInit (resume q) = False"
  "q_remoteInit (resume q) = False" "q_cfg (resume q) = q_cfg q"
  by (simp_all add: resume_def cancelTimeout_def Let_def split: option.split)

lemma live_call_keeps_off:
  "\<not> canSendUpdates q \<Longrightarrow> \<not> q_CanSendUpdates (q_call (QuiescerLive q) c)"
  "\<not> canRecvUpdates q \<Longrightarrow> \<not> q_CanRecvUpdates (q_call (QuiescerLive q) c)"
  by (cases c; auto simp: canSendUpdates_def canRecvUpdates_def q_ops_flags)+

lemma call_keeps_off:
  "\<not> q_CanSendUpdates q \<Longrightarrow> \<not> q_CanSendUpdates (q_call q c)"
  "\<not> q_CanRecvUpdates q \<Longrightarrow> \<not> q_CanRecvUpdates (q_call q c)"
  using live_call_keeps_off by (cases q; metis q_CanSendUpdates.simps q_CanRecvUpdates.simps)+

interpretation quiescers: quiescer_interface q_CanSendUpdates q_CanRecvUpdates q_IsQuiescent q_call q_Resume
proof
  fix q c
  show "q_IsQuiescent q \<Longrightarrow> \<not> q_CanSendUpdates q \<and> \<not> q_CanRecvUpdates q"
    by (cases q) (simp_all add: q_flags)
  show "q_CanSendUpdates (q_Resume q) \<and> q_CanRecvUpdates (q_Resume q)"
    by (cases q) (simp_all add: canSendUpdates_def canRecvUpdates_def)
qed (simp_all add: call_keeps_off)

section \<open>One quiescer\<close>

definition timer_wf :: "quiescer \<Rightarrow> bool" where
  "timer_wf q \<longleftrightarrow> qw_timers q = set_option (q_timeoutTimer q) \<and> (\<forall>t \<in> qw_timers q. t < qw_nextTimer q) \<and>
     (q_timeoutTimer q \<noteq> None \<longleftrightarrow> isQuiescent q \<and> qc_onTimeout (q_cfg q))"

definition request_wf :: "quiescer \<Rightarrow> bool" where
  "request_wf q \<longleftrightarrow> (q_localInit q \<and> \<not> isQuiescent q \<longrightarrow> q_activeQuiescenceReq q \<noteq> None) \<and>
     (\<forall>r. q_activeQuiescenceReq q = Some r \<longrightarrow> qw_responses q r = None)"

definition claims_wf :: "quiescer \<Rightarrow> bool" where
  "claims_wf q \<longleftrightarrow> (q_sent q \<longrightarrow> q_remoteInit q \<or> q_localInit q) \<and> (q_remoteInit q \<longrightarrow> q_received q) \<and>
     (q_received q \<longrightarrow> q_remoteInit q \<or> q_sent q)"

definition quiescer_wf :: "quiescer \<Rightarrow> bool" where
  "quiescer_wf q \<longleftrightarrow> timer_wf q \<and> request_wf q \<and> claims_wf q"

text \<open>A new request: its response channel is empty, and it is not the one the quiescer already holds.\<close>

definition fresh_request :: "quiescer \<Rightarrow> nat \<Rightarrow> bool" where
  "fresh_request q req \<longleftrightarrow> qw_responses q req = None \<and> q_activeQuiescenceReq q \<noteq> Some req"

lemma newQuiescer_wf: "quiescer_wf (newQuiescer cfg)"
  by (simp add: newQuiescer_def quiet_world_def quiescer_world.extend_def quiescer_wf_def timer_wf_def
      request_wf_def claims_wf_def isQuiescent_def)

text \<open>The two steps of the exchange, once their checks have passed.\<close>

definition settle :: "quiescer \<Rightarrow> quiescer" where
  "settle q = (let q1 = tryResolveStfuReq q in if isQuiescent q1 then startTimeout q1 else q1)"

lemma recvStfu_ok:
  "recvStfu q msg = (q', None) \<longleftrightarrow> \<not> q_received q \<and> (q_sent q \<or> st_initiator msg) \<and>
     q' = settle (q\<lparr>q_received := True, q_remoteInit := st_initiator msg\<rparr>)"
  by (auto simp: recvStfu_def settle_def Let_def canRecvStfu_def)

lemma sendOwedStfu_ok:
  "sendOwedStfu ok q = (q', None) \<longleftrightarrow>
     (if oweStfu q then ok \<and> q' = settle (q\<lparr>qw_sentMsgs := qw_sentMsgs q @
         [\<lparr>st_chanID = qc_chanID (q_cfg q), st_initiator = q_localInit q\<rparr>], q_sent := True\<rparr>)
      else q' = q)"
  by (auto simp: sendOwedStfu_def settle_def Let_def canSendStfu_def makeStfu_def oweStfu_def)

lemma settle_frame [simp]:
  "q_cfg (settle q) = q_cfg q" "q_localInit (settle q) = q_localInit q"
  "q_remoteInit (settle q) = q_remoteInit q" "q_sent (settle q) = q_sent q"
  "q_received (settle q) = q_received q" "qw_sentMsgs (settle q) = qw_sentMsgs q"
  "isQuiescent (settle q) = isQuiescent q" "quiescenceInitiator (settle q) = quiescenceInitiator q"
  by (simp_all add: settle_def Let_def isQuiescent_def quiescenceInitiator_def)

lemma settle_request:
  "q_activeQuiescenceReq (settle q) = (if isQuiescent q then None else q_activeQuiescenceReq q)"
  "qw_responses (settle q) =
     (case q_activeQuiescenceReq q of
        Some r \<Rightarrow> if isQuiescent q \<and> qw_responses q r = None
                  then (qw_responses q)(r \<mapsto> quiescenceInitiator q) else qw_responses q
      | None \<Rightarrow> qw_responses q)"
  by (simp_all add: settle_def Let_def tryResolve_request split: option.split)

lemma settle_timer:
  assumes "qw_timers q = {}" "q_timeoutTimer q = None"
  shows "timer_wf (settle q)"
  using assms by (auto simp: timer_wf_def settle_def Let_def startTimeout_def isQuiescent_def)

lemma not_quiescent_timer: "timer_wf q \<Longrightarrow> \<not> isQuiescent q \<Longrightarrow> qw_timers q = {} \<and> q_timeoutTimer q = None"
  by (simp add: timer_wf_def)

lemma recv_wf:
  assumes "recvStfu q msg = (q', None)" "quiescer_wf q"
  shows "quiescer_wf q'"
proof -
  let ?q = "q\<lparr>q_received := True, q_remoteInit := st_initiator msg\<rparr>"
  have a: "\<not> q_received q" "q_sent q \<or> st_initiator msg" "q' = settle ?q"
    using assms(1) unfolding recvStfu_ok by auto
  have "timer_wf q'"
    unfolding a(3) using not_quiescent_timer [of q] assms(2) a(1)
    by (intro settle_timer) (simp_all add: quiescer_wf_def isQuiescent_def)
  moreover have "request_wf q'" "claims_wf q'"
    using assms(2) a(1,2) unfolding a(3) quiescer_wf_def request_wf_def claims_wf_def settle_frame settle_request
    by (auto simp: isQuiescent_def)
  ultimately show ?thesis by (simp add: quiescer_wf_def)
qed

lemma send_wf:
  assumes "sendOwedStfu ok q = (q', None)" "quiescer_wf q"
  shows "quiescer_wf q'"
proof (cases "oweStfu q")
  case True
  let ?q = "q\<lparr>qw_sentMsgs := qw_sentMsgs q @ [\<lparr>st_chanID = qc_chanID (q_cfg q), st_initiator = q_localInit q\<rparr>],
    q_sent := True\<rparr>"
  have a: "q' = settle ?q" using assms(1) True unfolding sendOwedStfu_ok by simp
  have o: "\<not> q_sent q" "q_received q \<or> q_localInit q" using True by (simp_all add: oweStfu_def)
  have "timer_wf q'"
    unfolding a using not_quiescent_timer [of q] assms(2) o(1)
    by (intro settle_timer) (simp_all add: quiescer_wf_def isQuiescent_def)
  moreover have "request_wf q'" "claims_wf q'"
    using assms(2) o unfolding a quiescer_wf_def request_wf_def claims_wf_def settle_frame settle_request
    by (auto simp: isQuiescent_def)
  ultimately show ?thesis by (simp add: quiescer_wf_def)
next
  case False
  then show ?thesis using assms unfolding sendOwedStfu_ok by simp
qed

lemma init_wf:
  assumes "fresh_request q r" "quiescer_wf q"
  shows "quiescer_wf (initStfu q r)"
  using assms
  by (auto simp: initStfu_def fresh_request_def quiescer_wf_def timer_wf_def request_wf_def claims_wf_def isQuiescent_def)

lemma hook_wf: "quiescer_wf (onResume q h) = quiescer_wf q"
  by (simp add: onResume_def quiescer_wf_def timer_wf_def request_wf_def claims_wf_def isQuiescent_def)

lemma resume_wf:
  assumes "isQuiescent q" "quiescer_wf q"
  shows "quiescer_wf (resume q)"
  using assms
  by (auto simp: resume_def cancelTimeout_def Let_def quiescer_wf_def timer_wf_def request_wf_def claims_wf_def
      isQuiescent_def split: option.split)

section \<open>Two peers\<close>

text \<open>
  The state of a pair is one quiescer per peer, from the view of the local one; what a peer sent and
  the other has not read yet is its \<open>qw_sentMsgs\<close>. A move sends an owed \<open>stfu\<close> or delivers the
  oldest one; a step is a move, a new request at whatever time, a deferred action, or the end of the
  protocol that needed the quiet channel, which resumes both sides.
\<close>

inductive stfu_move :: "quiescer dual \<Rightarrow> quiescer dual \<Rightarrow> bool" where
  sm_send: "oweStfu (getForParty s p) \<Longrightarrow> sendOwedStfu True (getForParty s p) = (q', None) \<Longrightarrow>
    stfu_move s (setForParty s p q')"
| sm_deliver: "qw_sentMsgs (getForParty s p) = msg # rest \<Longrightarrow>
    recvStfu (getForParty s (counterParty p)) msg = (q', None) \<Longrightarrow>
    stfu_move s (setForParty (setForParty s p ((getForParty s p)\<lparr>qw_sentMsgs := rest\<rparr>)) (counterParty p) q')"

inductive stfu_step :: "quiescer dual \<Rightarrow> quiescer dual \<Rightarrow> bool" where
  ss_move: "stfu_move s t \<Longrightarrow> stfu_step s t"
| ss_request: "fresh_request (getForParty s p) r \<Longrightarrow> stfu_step s (setForParty s p (initStfu (getForParty s p) r))"
| ss_hook: "stfu_step s (setForParty s p (onResume (getForParty s p) h))"
| ss_resume: "\<forall>p. isQuiescent (getForParty s p) \<Longrightarrow> stfu_step s (mapDual resume s)"

definition new_pair :: "quiescer dual \<Rightarrow> bool" where
  "new_pair s \<longleftrightarrow> (\<exists>cl cr. s = mkDual (newQuiescer cl) (newQuiescer cr) \<and>
     qc_channelInitiator cl = counterParty (qc_channelInitiator cr))"

text \<open>
  \<open>claim\<close> is the initiator bit of the \<open>stfu\<close> that \<open>a\<close> has sent; a request that comes later sets
  \<open>localInit\<close> without having been announced by it.
\<close>

definition claim_of :: "bool \<Rightarrow> quiescer \<Rightarrow> quiescer \<Rightarrow> bool" where
  "claim_of claim a b \<longleftrightarrow> (claim \<longrightarrow> q_localInit a) \<and> (q_sent a \<and> \<not> claim \<longrightarrow> q_remoteInit a) \<and>
     qw_sentMsgs a = (if q_sent a \<and> \<not> q_received b
       then [\<lparr>st_chanID = qc_chanID (q_cfg a), st_initiator = claim\<rparr>] else []) \<and>
     (q_received b \<longrightarrow> q_sent a \<and> q_remoteInit b = claim)"

definition directed :: "quiescer \<Rightarrow> quiescer \<Rightarrow> bool" where
  "directed a b \<longleftrightarrow> qc_channelInitiator (q_cfg a) = counterParty (qc_channelInitiator (q_cfg b)) \<and>
     (\<exists>claim. claim_of claim a b)"

definition peers_wf :: "quiescer dual \<Rightarrow> bool" where
  "peers_wf s \<longleftrightarrow> (\<forall>p. quiescer_wf (getForParty s p) \<and> directed (getForParty s p) (getForParty s (counterParty p)))"

lemma peers_wfI:
  assumes "quiescer_wf (getForParty s p)" "quiescer_wf (getForParty s (counterParty p))"
    "directed (getForParty s p) (getForParty s (counterParty p))"
    "directed (getForParty s (counterParty p)) (getForParty s p)"
  shows "peers_wf s"
  unfolding peers_wf_def
proof
  fix q
  show "quiescer_wf (getForParty s q) \<and> directed (getForParty s q) (getForParty s (counterParty q))"
    using assms by (cases "q = p"; cases p; cases q) simp_all
qed

lemma peers_wfD:
  assumes "peers_wf s"
  shows "quiescer_wf (getForParty s p)" "directed (getForParty s p) (getForParty s (counterParty p))"
    "directed (getForParty s (counterParty p)) (getForParty s p)"
  using assms counterParty_simps unfolding peers_wf_def by metis+

lemma newQuiescer_fields [simp]:
  "q_cfg (newQuiescer cfg) = cfg" "q_sent (newQuiescer cfg) = False" "q_received (newQuiescer cfg) = False"
  "q_localInit (newQuiescer cfg) = False" "qw_sentMsgs (newQuiescer cfg) = []"
  "qw_responses (newQuiescer cfg) = Map.empty" "q_activeQuiescenceReq (newQuiescer cfg) = None"
  by (simp_all add: newQuiescer_def quiet_world_def quiescer_world.extend_def)

text \<open>An operation that keeps the claims of a pair also keeps it directed.\<close>

lemma directed_keep:
  assumes "directed a b" "directed b a" "q_cfg a' = q_cfg a" "q_cfg b' = q_cfg b"
    and "\<And>c c'. claim_of c a b \<Longrightarrow> claim_of c' b a \<Longrightarrow> (\<exists>d. claim_of d a' b') \<and> (\<exists>d. claim_of d b' a')"
  shows "directed a' b' \<and> directed b' a'"
proof -
  obtain c c' where "claim_of c a b" "claim_of c' b a" using assms(1,2) unfolding directed_def by blast
  from assms(5) [OF this] show ?thesis using assms(1-4) by (simp add: directed_def)
qed

lemma new_peers_wf:
  assumes "new_pair s"
  shows "peers_wf s"
proof -
  obtain cl cr where s: "s = mkDual (newQuiescer cl) (newQuiescer cr)"
    "qc_channelInitiator cl = counterParty (qc_channelInitiator cr)"
    using assms unfolding new_pair_def by blast
  have c: "claim_of False (newQuiescer x) (newQuiescer y)" for x y by (simp add: claim_of_def)
  have "directed (newQuiescer cl) (newQuiescer cr)" "directed (newQuiescer cr) (newQuiescer cl)"
    using c s(2) by (auto simp: directed_def simp del: ex_simps)
  then show ?thesis by (intro peers_wfI [of _ Local]) (simp_all add: s(1) newQuiescer_wf)
qed

lemma send_directed:
  assumes "oweStfu a" "sendOwedStfu True a = (a', None)" "quiescer_wf a" "directed a b" "directed b a"
  shows "directed a' b \<and> directed b a'"
proof -
  have a: "\<not> q_sent a" "\<not> q_localInit a \<Longrightarrow> q_remoteInit a"
    using assms(1,3) by (auto simp: oweStfu_def quiescer_wf_def claims_wf_def)
  have s: "q_cfg a' = q_cfg a" "q_localInit a' = q_localInit a" "q_remoteInit a' = q_remoteInit a" "q_sent a'"
    "q_received a' = q_received a" "qw_sentMsgs a' = qw_sentMsgs a @ [\<lparr>st_chanID = qc_chanID (q_cfg a), st_initiator = q_localInit a\<rparr>]"
    using assms(1,2) unfolding sendOwedStfu_ok by simp_all
  show ?thesis
  proof (rule directed_keep [OF assms(4,5) s(1) refl])
    fix c c'
    assume c: "claim_of c a b" "claim_of c' b a"
    have "claim_of (q_localInit a) a' b" using c(1) a s by (simp add: claim_of_def)
    moreover have "claim_of c' b a'" using c(2) s by (simp add: claim_of_def)
    ultimately show "(\<exists>d. claim_of d a' b) \<and> (\<exists>d. claim_of d b a')" by blast
  qed
qed

lemma deliver_directed:
  assumes "qw_sentMsgs a = msg # rest" "recvStfu b msg = (b', None)" "quiescer_wf b" "directed a b" "directed b a"
  shows "directed (a\<lparr>qw_sentMsgs := rest\<rparr>) b' \<and> directed b' (a\<lparr>qw_sentMsgs := rest\<rparr>)"
proof -
  have b: "\<not> q_received b" "b' = settle (b\<lparr>q_received := True, q_remoteInit := st_initiator msg\<rparr>)"
    "\<not> q_remoteInit b"
    using assms(2,3) unfolding recvStfu_ok by (auto simp: quiescer_wf_def claims_wf_def)
  show ?thesis
  proof (rule directed_keep [OF assms(4,5)])
    fix c c'
    assume c: "claim_of c a b" "claim_of c' b a"
    have a: "q_sent a" "st_initiator msg = c" "rest = []"
      using assms(1) c(1) b(1) by (auto simp: claim_of_def split: if_splits)
    have "q_sent b \<longrightarrow> c'" using c(2) b(3) by (simp add: claim_of_def)
    then have "claim_of c' b' (a\<lparr>qw_sentMsgs := rest\<rparr>)" using c(2) a by (auto simp: claim_of_def b(2))
    moreover have "claim_of c (a\<lparr>qw_sentMsgs := rest\<rparr>) b'" using c(1) a by (simp add: claim_of_def b(2))
    ultimately show "(\<exists>d. claim_of d (a\<lparr>qw_sentMsgs := rest\<rparr>) b') \<and> (\<exists>d. claim_of d b' (a\<lparr>qw_sentMsgs := rest\<rparr>))" by blast
  qed (simp_all add: b(2))
qed

lemma request_directed:
  assumes "directed a b" "directed b a"
  shows "directed (initStfu a r) b \<and> directed b (initStfu a r)"
proof (rule directed_keep [OF assms])
  fix c c'
  assume "claim_of c a b" "claim_of c' b a"
  then have "claim_of c (initStfu a r) b" "claim_of c' b (initStfu a r)" by (simp_all add: claim_of_def initStfu_def)
  then show "(\<exists>d. claim_of d (initStfu a r) b) \<and> (\<exists>d. claim_of d b (initStfu a r))" by blast
qed (simp_all add: initStfu_def)

lemma hook_directed:
  assumes "directed a b" "directed b a"
  shows "directed (onResume a h) b \<and> directed b (onResume a h)"
proof (rule directed_keep [OF assms])
  fix c c'
  assume "claim_of c a b" "claim_of c' b a"
  then have "claim_of c (onResume a h) b" "claim_of c' b (onResume a h)" by (simp_all add: claim_of_def onResume_def)
  then show "(\<exists>d. claim_of d (onResume a h) b) \<and> (\<exists>d. claim_of d b (onResume a h))" by blast
qed (simp_all add: onResume_def)

lemma world_wf: "quiescer_wf (q\<lparr>qw_sentMsgs := m\<rparr>) = quiescer_wf q"
  by (simp add: quiescer_wf_def timer_wf_def request_wf_def claims_wf_def isQuiescent_def)

lemma stfu_move_wf:
  assumes "stfu_move s t" "peers_wf s"
  shows "peers_wf t"
  using assms
proof (induction rule: stfu_move.induct)
  case (sm_send s p q')
  note w = peers_wfD [OF sm_send(3), of p] peers_wfD(1) [OF sm_send(3), of "counterParty p"]
  show ?case
    by (rule peers_wfI [of _ p])
      (use send_wf [OF sm_send(2) w(1)] send_directed [OF sm_send(1,2) w(1,2,3)] w(4) in simp_all)
next
  case (sm_deliver s p msg rest q')
  note w = peers_wfD [OF sm_deliver(3), of p] peers_wfD(1) [OF sm_deliver(3), of "counterParty p"]
  show ?case
    by (rule peers_wfI [of _ p])
      (use recv_wf [OF sm_deliver(2) w(4)] deliver_directed [OF sm_deliver(1,2) w(4,2,3)] w(1) in \<open>simp_all add: world_wf\<close>)
qed

lemma resume_wire: "qw_sentMsgs (resume q) = qw_sentMsgs q"
  by (simp add: resume_def cancelTimeout_def Let_def split: option.split)

lemma stfu_step_wf:
  assumes "stfu_step s t" "peers_wf s"
  shows "peers_wf t"
  using assms
proof (induction rule: stfu_step.induct)
  case (ss_move s t)
  then show ?case by (rule stfu_move_wf)
next
  case (ss_request s p r)
  note w = peers_wfD [OF ss_request(2), of p] peers_wfD(1) [OF ss_request(2), of "counterParty p"]
  show ?case
    by (rule peers_wfI [of _ p])
      (use init_wf [OF ss_request(1) w(1)] request_directed [OF w(2,3), of r] w(4) in simp_all)
next
  case (ss_hook s p h)
  note w = peers_wfD [OF ss_hook, of p] peers_wfD(1) [OF ss_hook, of "counterParty p"]
  show ?case
    by (rule peers_wfI [of _ p]) (use w hook_directed [OF w(2,3), of h] in \<open>simp_all add: hook_wf\<close>)
next
  case (ss_resume s)
  have w: "quiescer_wf (getForParty s p)" "directed (getForParty s p) (getForParty s (counterParty p))" for p
    using ss_resume(2) unfolding peers_wf_def by blast+
  have q: "isQuiescent (getForParty s p)" for p using ss_resume(1) by blast
  have "directed (resume (getForParty s p)) (resume (getForParty s (counterParty p)))" for p
    using w(2) [of p] q [of "counterParty p"] by (auto simp: directed_def claim_of_def resume_wire isQuiescent_def)
  then show ?case using resume_wf w(1) q by (simp add: peers_wf_def)
qed

lemma stfu_run_wf:
  assumes "stfu_step\<^sup>*\<^sup>* s0 s" "new_pair s0"
  shows "peers_wf s"
  using assms(1)
  by (induction rule: rtranclp_induct) (use assms(2) new_peers_wf stfu_step_wf in blast)+

section \<open>Agreement and progress\<close>

lemma quiescenceInitiator_wire [simp]: "quiescenceInitiator (q\<lparr>qw_sentMsgs := m\<rparr>) = quiescenceInitiator q"
  "isQuiescent (q\<lparr>qw_sentMsgs := m\<rparr>) = isQuiescent q"
  by (simp_all add: quiescenceInitiator_def isQuiescent_def)

lemma delivered:
  assumes "peers_wf s" "qw_sentMsgs (getForParty s p) = msg # rest"
  shows "\<exists>q'. recvStfu (getForParty s (counterParty p)) msg = (q', None)"
proof -
  let ?a = "getForParty s p" and ?b = "getForParty s (counterParty p)"
  note w = peers_wfD [OF assms(1), of p] peers_wfD(1) [OF assms(1), of "counterParty p"]
  obtain c c' where c: "claim_of c ?a ?b" "claim_of c' ?b ?a" using w(2,3) unfolding directed_def by blast
  then have a: "q_sent ?a" "\<not> q_received ?b" "st_initiator msg = c"
    using assms(2) by (auto simp: claim_of_def split: if_splits)
  moreover have "q_sent ?b \<or> st_initiator msg"
    using w(1) c a(1,3) by (auto simp: quiescer_wf_def claims_wf_def claim_of_def)
  ultimately show ?thesis unfolding recvStfu_ok by blast
qed

definition pair_work :: "quiescer dual \<Rightarrow> nat" where
  "pair_work s = (\<Sum>p \<in> {Local, Remote}. (if q_sent (getForParty s p) then 0 else 2) +
     length (qw_sentMsgs (getForParty s p)))"

lemma pair_work_at:
  "pair_work s = (if q_sent (getForParty s p) then 0 else 2) + length (qw_sentMsgs (getForParty s p)) +
     ((if q_sent (getForParty s (counterParty p)) then 0 else 2) + length (qw_sentMsgs (getForParty s (counterParty p))))"
  by (cases p) (simp_all add: pair_work_def)

lemma move_works:
  assumes "stfu_move s t"
  shows "Suc (pair_work t) = pair_work s"
  using assms
proof (induction rule: stfu_move.induct)
  case (sm_send s p q')
  then show ?case
    using sm_send(2) unfolding sendOwedStfu_ok by (simp add: pair_work_at [of _ p] oweStfu_def)
next
  case (sm_deliver s p msg rest q')
  then show ?case using sm_deliver(2) unfolding recvStfu_ok by (auto simp: pair_work_at [of _ p])
qed

lemma moves_work: "(stfu_move ^^ n) s t \<Longrightarrow> pair_work t + n = pair_work s"
proof (induction n arbitrary: t)
  case (Suc n)
  then obtain b where "(stfu_move ^^ n) s b" "stfu_move b t" by auto
  then show ?case using Suc.IH [of b] move_works by fastforce
qed simp

lemma pair_work_bound:
  assumes "peers_wf s"
  shows "pair_work s \<le> 4"
proof -
  have "(if q_sent (getForParty s p) then 0 else 2) + length (qw_sentMsgs (getForParty s p)) \<le> 2" for p
    using peers_wfD(2) [OF assms, of p] by (auto simp: directed_def claim_of_def)
  from this [of Local] this [of Remote] show ?thesis by (simp add: pair_work_at [of _ Local])
qed

lemma stuck_pair:
  assumes "peers_wf t" "\<nexists>u. stfu_move t u" "q_localInit (getForParty t p)"
  shows "isQuiescent (getForParty t q)"
proof -
  have idle: "\<not> oweStfu (getForParty t p)" for p
    using assms(2) sm_send sendOwedStfu_ok [of True] by metis
  have wire: "qw_sentMsgs (getForParty t p) = []" for p
    using assms(2) delivered [OF assms(1)] sm_deliver by (metis neq_Nil_conv)
  have got: "q_sent (getForParty t p) \<Longrightarrow> q_received (getForParty t (counterParty p))" for p
    using peers_wfD(2) [OF assms(1), of p] wire [of p] by (auto simp: directed_def claim_of_def split: if_splits)
  have a: "q_sent (getForParty t p)" using idle [of p] assms(3) by (simp add: oweStfu_def)
  have b: "q_sent (getForParty t (counterParty p))" using got [OF a] idle [of "counterParty p"] by (simp add: oweStfu_def)
  show ?thesis
    using a b got [OF a] got [OF b] by (cases "q = p"; cases p; cases q) (simp_all add: isQuiescent_def)
qed

text \<open>
  The answer to a request made before the peer was quiescent: still open, or given, and then it is
  the initiator's name.
\<close>

definition open_request :: "quiescer \<Rightarrow> nat \<Rightarrow> bool" where
  "open_request q r \<longleftrightarrow> q_activeQuiescenceReq q = Some r \<and> \<not> isQuiescent q"

definition answered :: "quiescer \<Rightarrow> nat \<Rightarrow> bool" where
  "answered q r \<longleftrightarrow> isQuiescent q \<and> qw_responses q r = Some (quiescenceInitiator q)"

lemma settle_answers:
  assumes "q_activeQuiescenceReq q = Some r" "qw_responses q r = None"
  shows "open_request (settle q) r \<or> answered (settle q) r"
  using assms by (simp add: answered_def open_request_def settle_request)

text \<open>A move leaves the quiescer of a quiescent peer alone, but for what is taken off its wire.\<close>

lemma quiescent_unmoved:
  assumes "stfu_move s t" "isQuiescent (getForParty s q)"
  shows "\<exists>m. getForParty t q = (getForParty s q)\<lparr>qw_sentMsgs := m\<rparr>"
  using assms
proof (induction rule: stfu_move.induct)
  case (sm_send s p q')
  then have "q \<noteq> p" by (auto simp: oweStfu_def isQuiescent_def)
  then have "getForParty (setForParty s p q') q = (getForParty s q)\<lparr>qw_sentMsgs := qw_sentMsgs (getForParty s q)\<rparr>"
    by simp
  then show ?case by blast
next
  case (sm_deliver s p msg rest q')
  then have "q \<noteq> counterParty p" unfolding recvStfu_ok by (auto simp: isQuiescent_def)
  then have "q = p" by (cases p; cases q) simp_all
  then show ?case by auto
qed

lemma move_answers:
  assumes "stfu_move s t" "peers_wf s" "open_request (getForParty s q) r"
  shows "open_request (getForParty t q) r \<or> answered (getForParty t q) r"
proof -
  have free: "qw_responses (getForParty s q) r = None" "q_activeQuiescenceReq (getForParty s q) = Some r"
    using peers_wfD(1) [OF assms(2), of q] assms(3) by (simp_all add: quiescer_wf_def request_wf_def open_request_def)
  show ?thesis
    using assms(1,3) free
  proof (induction rule: stfu_move.induct)
    case (sm_send s p q')
    then show ?case using settle_answers by (cases "q = p") (simp_all add: sendOwedStfu_ok)
  next
    case (sm_deliver s p msg rest q')
    then show ?case
      using settle_answers by (cases "q = counterParty p") (auto simp: recvStfu_ok open_request_def)
  qed
qed

lemma move_localInit: "stfu_move s t \<Longrightarrow> q_localInit (getForParty t p) = q_localInit (getForParty s p)"
  by (induction rule: stfu_move.induct) (auto simp: sendOwedStfu_ok recvStfu_ok)

lemma moves_keep:
  assumes "(stfu_move ^^ n) s t" "peers_wf s"
  shows "peers_wf t" "q_localInit (getForParty t p) = q_localInit (getForParty s p)"
  using assms(1)
  by (induction n arbitrary: t) (use assms(2) in \<open>auto simp: move_localInit intro: stfu_move_wf\<close>)

lemma moves_leave_quiescent:
  assumes "(stfu_move ^^ n) s t" "isQuiescent (getForParty s q)"
  shows "\<exists>m. getForParty t q = (getForParty s q)\<lparr>qw_sentMsgs := m\<rparr>"
  using assms(1)
proof (induction n arbitrary: t)
  case 0
  then have "getForParty t q = (getForParty s q)\<lparr>qw_sentMsgs := qw_sentMsgs (getForParty s q)\<rparr>" by simp
  then show ?case by blast
next
  case (Suc n)
  then obtain b where m: "(stfu_move ^^ n) s b" "stfu_move b t" by auto
  obtain m where b: "stfu_move b t" "getForParty b q = (getForParty s q)\<lparr>qw_sentMsgs := m\<rparr>"
    using Suc.IH [OF m(1)] m(2) by blast
  then obtain m' where "getForParty t q = (getForParty b q)\<lparr>qw_sentMsgs := m'\<rparr>"
    using quiescent_unmoved [OF b(1), of q] assms(2) by auto
  then show ?case using b(2) by auto
qed

lemma moves_answer:
  assumes "(stfu_move ^^ n) s t" "peers_wf s" "open_request (getForParty s q) r"
  shows "open_request (getForParty t q) r \<or> answered (getForParty t q) r"
  using assms(1)
proof (induction n arbitrary: t)
  case (Suc n)
  then obtain b where b: "(stfu_move ^^ n) s b" "stfu_move b t" by auto
  from Suc.IH [OF b(1)] show ?case
  proof
    assume "open_request (getForParty b q) r"
    then show ?thesis using move_answers [OF b(2) moves_keep(1) [OF b(1) assms(2)]] by blast
  next
    assume a: "answered (getForParty b q) r"
    then obtain m where "getForParty t q = (getForParty b q)\<lparr>qw_sentMsgs := m\<rparr>"
      using quiescent_unmoved [OF b(2)] by (auto simp: answered_def)
    then show ?thesis using a by (simp add: answered_def)
  qed
qed (use assms(3) in simp)

lemma claims_decide:
  assumes "directed a b" "directed b a" "isQuiescent a" "isQuiescent b"
  shows "(q_remoteInit b \<longrightarrow> q_localInit a) \<and> (q_remoteInit a \<longrightarrow> q_localInit b) \<and> (q_remoteInit a \<or> q_remoteInit b)"
  using assms by (auto simp: directed_def claim_of_def isQuiescent_def)

text \<open>
  C21: once both peers are quiescent, whenever they asked for it, at least one of them did, and if the
  requests of both had been announced to the other in their stfu (the bit that the other remembers as
  \<open>remoteInit\<close>), they name the same one of them as the initiator, who asked, also when both asked and
  the tie is broken by who opened the channel. A request that came after the stfu of its peer, and so
  was not announced, splits them: this peer names the one who opened the channel, the other names
  itself.
\<close>

theorem initiators_agree:
  assumes "new_pair s0" "stfu_step\<^sup>*\<^sup>* s0 s"
    and "isQuiescent (getForParty s Local)" "isQuiescent (getForParty s Remote)"
  shows "(\<exists>p. q_localInit (getForParty s p)) \<and>
    ((\<forall>p. q_localInit (getForParty s p) \<longrightarrow> q_remoteInit (getForParty s (counterParty p))) \<longrightarrow>
       (\<exists>p. quiescenceInitiator (getForParty s Local) = Inr p \<and>
          quiescenceInitiator (getForParty s Remote) = Inr (counterParty p) \<and> q_localInit (getForParty s p))) \<and>
    (\<forall>p. q_localInit (getForParty s p) \<and> \<not> q_remoteInit (getForParty s (counterParty p)) \<longrightarrow>
       quiescenceInitiator (getForParty s p) = Inr (qc_channelInitiator (q_cfg (getForParty s p))) \<and>
       quiescenceInitiator (getForParty s (counterParty p)) = Inr Local)"
proof -
  have w: "directed (getForParty s p) (getForParty s (counterParty p))"
    "directed (getForParty s (counterParty p)) (getForParty s p)" for p
    using peers_wfD [OF stfu_run_wf [OF assms(2,1)], of p] by simp_all
  have q: "isQuiescent (getForParty s p)" for p using assms(3,4) by (cases p) simp_all
  note c = claims_decide [OF w(1) w(2) q q]
  have late: "quiescenceInitiator (getForParty s p) = Inr (qc_channelInitiator (q_cfg (getForParty s p))) \<and>
      quiescenceInitiator (getForParty s (counterParty p)) = Inr Local"
    if "q_localInit (getForParty s p)" "\<not> q_remoteInit (getForParty s (counterParty p))" for p
    using that c [of p] q [of p] q [of "counterParty p"] by (simp add: quiescenceInitiator_def)
  have asked: "\<exists>p. q_localInit (getForParty s p)"
    using c [of Local] by (metis counterParty.simps(1))
  have "\<exists>p. quiescenceInitiator (getForParty s Local) = Inr p \<and>
      quiescenceInitiator (getForParty s Remote) = Inr (counterParty p) \<and> q_localInit (getForParty s p)"
    if a: "\<And>p. q_localInit (getForParty s p) \<longrightarrow> q_remoteInit (getForParty s (counterParty p))"
  proof -
    define l r where "l = getForParty s Local" and "r = getForParty s Remote"
    have f: "q_localInit l = q_remoteInit r" "q_localInit r = q_remoteInit l" "q_remoteInit l \<or> q_remoteInit r"
      "isQuiescent l" "isQuiescent r" "qc_channelInitiator (q_cfg r) = counterParty (qc_channelInitiator (q_cfg l))"
      using a [of Local] a [of Remote] c [of Local] q [of Local] q [of Remote] w(2) [of Local]
      by (auto simp: l_def r_def directed_def)
    have "\<exists>p. quiescenceInitiator l = Inr p \<and> quiescenceInitiator r = Inr (counterParty p) \<and>
        q_localInit (if p = Local then l else r)"
      using f by (cases "q_localInit l"; cases "q_localInit r") (simp_all add: quiescenceInitiator_def)
    then obtain p where "quiescenceInitiator l = Inr p" "quiescenceInitiator r = Inr (counterParty p)"
      "q_localInit (if p = Local then l else r)" by blast
    then show ?thesis unfolding l_def r_def by (intro exI [of _ p]) (cases p; simp)
  qed
  with late asked show ?thesis by blast
qed

text \<open>
  C39: a peer that asked for quiescence gets it. Whatever the order in which the owed messages are
  sent and read, none is rejected, at most four of these moves are possible, and when no more is,
  both peers are quiescent. Every open request of a peer that was not yet quiescent has then been
  answered with the initiator; one that was made when its peer already was quiescent is not answered
  (see the finding on late requests).
\<close>

theorem quiescence_is_reached:
  assumes "new_pair s0" "stfu_step\<^sup>*\<^sup>* s0 s" "q_localInit (getForParty s p)"
    and "(stfu_move ^^ n) s t"
  shows "n \<le> 4 \<and>
    (\<forall>q msg rest. qw_sentMsgs (getForParty t q) = msg # rest \<longrightarrow>
       snd (recvStfu (getForParty t (counterParty q)) msg) = None) \<and>
    ((\<nexists>u. stfu_move t u) \<longrightarrow> (\<forall>q. isQuiescent (getForParty t q) \<and>
       (\<forall>r. q_activeQuiescenceReq (getForParty s q) = Some r \<longrightarrow>
          qw_responses (getForParty t q) r =
            (if isQuiescent (getForParty s q) then None else Some (quiescenceInitiator (getForParty t q))))))"
proof -
  have w: "peers_wf s" by (rule stfu_run_wf [OF assms(2,1)])
  note k = moves_keep [OF assms(4) w]
  have "n \<le> 4" using moves_work [OF assms(4)] pair_work_bound [OF w] by simp
  moreover have "snd (recvStfu (getForParty t (counterParty q)) msg) = None"
    if "qw_sentMsgs (getForParty t q) = msg # rest" for q msg rest
    using delivered [OF k(1) that] by auto
  moreover have "isQuiescent (getForParty t q)" if "\<nexists>u. stfu_move t u" for q
    using stuck_pair [OF k(1) that] k(2) assms(3) by blast
  moreover have "qw_responses (getForParty t q) r =
      (if isQuiescent (getForParty s q) then None else Some (quiescenceInitiator (getForParty t q)))"
    if i: "isQuiescent (getForParty t q)" and r: "q_activeQuiescenceReq (getForParty s q) = Some r" for q r
  proof (cases "isQuiescent (getForParty s q)")
    case True
    then obtain m where "getForParty t q = (getForParty s q)\<lparr>qw_sentMsgs := m\<rparr>"
      using moves_leave_quiescent [OF assms(4)] by blast
    then show ?thesis
      using r True peers_wfD(1) [OF w, of q] by (simp add: quiescer_wf_def request_wf_def)
  next
    case False
    then show ?thesis
      using moves_answer [OF assms(4) w, of q r] r i by (auto simp: open_request_def answered_def)
  qed
  ultimately show ?thesis by blast
qed

text \<open>
  A request that comes when the channel is already quiescent on the peer's demand changes the name of
  the initiator on this side alone if we opened the channel, is never answered, and survives \<open>resume\<close>.
\<close>

lemma late_request:
  assumes "quiescer_wf q" "isQuiescent q" "\<not> q_localInit q"
  shows "quiescenceInitiator q = Inr Remote"
    "quiescenceInitiator (initStfu q r) = Inr (qc_channelInitiator (q_cfg q))"
    "sendOwedStfu ok (initStfu q r) = (initStfu q r, None)"
    "snd (recvStfu (initStfu q r) msg) = Some ErrStfuAlreadyRcvd"
    "q_activeQuiescenceReq (resume (initStfu q r)) = Some r \<and> \<not> q_localInit (resume (initStfu q r))"
  using assms
  by (auto simp: quiescer_wf_def claims_wf_def initStfu_def quiescenceInitiator_def isQuiescent_def oweStfu_def
      sendOwedStfu_def recvStfu_def resume_def cancelTimeout_def Let_def split: option.split)

text \<open>Both peers ask at once; the remote one opened the channel.\<close>

definition demo_new :: "quiescer dual" where
  "demo_new = mkDual
     (newQuiescer \<lparr>qc_chanID = [], qc_channelInitiator = Remote, qc_onTimeout = True\<rparr>)
     (newQuiescer \<lparr>qc_chanID = [], qc_channelInitiator = Local, qc_onTimeout = True\<rparr>)"

definition demo_asked :: "quiescer dual" where
  "demo_asked = mkDual (initStfu (d_local demo_new) 0) (initStfu (d_remote demo_new) 0)"

definition demo_stfu :: stfu where
  "demo_stfu = \<lparr>st_chanID = [], st_initiator = True\<rparr>"

definition demo_stfus :: "quiescer dual" where
  "demo_stfus = mkDual (fst (sendOwedStfu True (d_local demo_asked))) (fst (sendOwedStfu True (d_remote demo_asked)))"

definition demo_quiet :: "quiescer dual" where
  "demo_quiet = mkDual
     ((fst (recvStfu (d_local demo_stfus) demo_stfu))\<lparr>qw_sentMsgs := []\<rparr>)
     ((fst (recvStfu (d_remote demo_stfus) demo_stfu))\<lparr>qw_sentMsgs := []\<rparr>)"

lemmas demo_quiescer_simps = demo_new_def demo_asked_def demo_stfu_def demo_stfus_def demo_quiet_def
  initStfu_def newQuiescer_def quiet_world_def quiescer_world.extend_def sendOwedStfu_def recvStfu_def q_flags
  tryResolveStfuReq_def startTimeout_def resolve_def quiescenceInitiator_def Let_def

lemma mkDual_update [simp]:
  "(mkDual l r)\<lparr>d_local := v\<rparr> = mkDual v r" "(mkDual l r)\<lparr>d_remote := v\<rparr> = mkDual l v"
  by (simp_all add: mkDual_def)

lemma demo_asked_reached: "new_pair demo_new" "stfu_step\<^sup>*\<^sup>* demo_new demo_asked"
proof -
  show "new_pair demo_new" unfolding new_pair_def demo_new_def by (intro exI conjI, rule refl) simp
  have "fresh_request (getForParty demo_new Local) 0" by (simp add: fresh_request_def demo_new_def)
  from ss_request [OF this]
  have 1: "stfu_step demo_new (mkDual (initStfu (d_local demo_new) 0) (d_remote demo_new))"
    by (simp add: demo_new_def)
  have "fresh_request (getForParty (mkDual (initStfu (d_local demo_new) 0) (d_remote demo_new)) Remote) 0"
    by (simp add: fresh_request_def demo_new_def)
  from ss_request [OF this]
  have 2: "stfu_step (mkDual (initStfu (d_local demo_new) 0) (d_remote demo_new)) demo_asked"
    by (simp add: demo_asked_def)
  from 1 2 show "stfu_step\<^sup>*\<^sup>* demo_new demo_asked" by (meson r_into_rtranclp rtranclp.rtrancl_into_rtrancl)
qed

lemma demo_moves:
  "stfu_move demo_asked (mkDual (d_local demo_stfus) (d_remote demo_asked))"
  "stfu_move (mkDual (d_local demo_stfus) (d_remote demo_asked)) demo_stfus"
  "stfu_move demo_stfus (mkDual ((d_local demo_stfus)\<lparr>qw_sentMsgs := []\<rparr>) (fst (recvStfu (d_remote demo_stfus) demo_stfu)))"
  "stfu_move (mkDual ((d_local demo_stfus)\<lparr>qw_sentMsgs := []\<rparr>) (fst (recvStfu (d_remote demo_stfus) demo_stfu))) demo_quiet"
proof -
  show "stfu_move demo_asked (mkDual (d_local demo_stfus) (d_remote demo_asked))"
    using sm_send [of demo_asked Local "d_local demo_stfus"] by (simp add: demo_quiescer_simps)
  show "stfu_move (mkDual (d_local demo_stfus) (d_remote demo_asked)) demo_stfus"
    using sm_send [of "mkDual (d_local demo_stfus) (d_remote demo_asked)" Remote "d_remote demo_stfus"]
    by (simp add: demo_quiescer_simps)
  show "stfu_move demo_stfus (mkDual ((d_local demo_stfus)\<lparr>qw_sentMsgs := []\<rparr>) (fst (recvStfu (d_remote demo_stfus) demo_stfu)))"
    using sm_deliver [of demo_stfus Local demo_stfu "[]" "fst (recvStfu (d_remote demo_stfus) demo_stfu)"]
    by (simp add: demo_quiescer_simps)
  show "stfu_move (mkDual ((d_local demo_stfus)\<lparr>qw_sentMsgs := []\<rparr>) (fst (recvStfu (d_remote demo_stfus) demo_stfu))) demo_quiet"
    using sm_deliver [of "mkDual ((d_local demo_stfus)\<lparr>qw_sentMsgs := []\<rparr>) (fst (recvStfu (d_remote demo_stfus) demo_stfu))"
      Remote demo_stfu "[]" "(fst (recvStfu (d_local demo_stfus) demo_stfu))\<lparr>qw_sentMsgs := []\<rparr>"]
    by (simp add: demo_quiescer_simps)
qed

lemma demo_exchange: "(stfu_move ^^ 4) demo_asked demo_quiet"
  using demo_moves by (auto simp: numeral_eq_Suc)

lemma demo_quiet_reached: "stfu_step\<^sup>*\<^sup>* demo_new demo_quiet"
proof -
  have "stfu_move\<^sup>*\<^sup>* demo_asked demo_quiet" using demo_exchange by (rule relpowp_imp_rtranclp)
  then have "stfu_step\<^sup>*\<^sup>* demo_asked demo_quiet" by (rule rtranclp_mono [THEN predicate2D, rotated]) (auto intro: ss_move)
  with demo_asked_reached(2) show ?thesis by (rule rtranclp_trans)
qed

lemma demo_quiet: "isQuiescent (getForParty demo_quiet p)"
  by (cases p) (simp_all add: demo_quiescer_simps)

theorem initiators_agree_witness:
  "\<exists>p. quiescenceInitiator (getForParty demo_quiet Local) = Inr p \<and>
     quiescenceInitiator (getForParty demo_quiet Remote) = Inr (counterParty p)"
proof -
  have "q_remoteInit (getForParty demo_quiet (counterParty p))" for p
    by (cases p) (simp_all add: demo_quiescer_simps)
  then show ?thesis
    using initiators_agree [OF demo_asked_reached(1) demo_quiet_reached demo_quiet demo_quiet] by blast
qed

lemma demo_quiet_stuck: "\<nexists>u. stfu_move demo_quiet u"
proof
  assume "\<exists>u. stfu_move demo_quiet u"
  then obtain u where "stfu_move demo_quiet u" by blast
  then have "Suc (pair_work u) = pair_work demo_quiet" by (rule move_works)
  moreover have "pair_work demo_quiet = 0" by (simp add: pair_work_def demo_quiescer_simps)
  ultimately show False by simp
qed

theorem quiescence_is_reached_witness:
  "(4 :: nat) \<le> 4 \<and> isQuiescent (getForParty demo_quiet Remote) \<and>
   qw_responses (getForParty demo_quiet Local) 0 = Some (quiescenceInitiator (getForParty demo_quiet Local))"
proof -
  have a: "q_localInit (getForParty demo_asked Local)" "q_activeQuiescenceReq (getForParty demo_asked Local) = Some 0"
    by (simp_all add: demo_quiescer_simps)
  have "\<not> isQuiescent (getForParty demo_asked Local)" by (simp add: demo_quiescer_simps)
  then show ?thesis
    using quiescence_is_reached [OF demo_asked_reached a(1) demo_exchange] demo_quiet_stuck a(2) by metis
qed

end
