(* ===== verification/Quiescer_Link.thy ===== *)
theory Quiescer_Link
  imports Channel_Run Quiescer_Pair
begin

text \<open>
  The quiescer inside the link (\<open>htlcswitch/link.go\<close>): which updates the link issues and accepts, and
  when it sends an owed \<open>stfu\<close>, together with the channel whose updates are counted. What the link
  does with an HTLC besides calling the channel (mailbox, circuits, onion) is not part of this view.
\<close>

record link_view =
  lk_channel :: channel
  lk_quiescer :: quiescer_impl

definition noDanglingUpdates :: "channel \<Rightarrow> channel_party \<Rightarrow> bool" where
  "noDanglingUpdates lc whose \<longleftrightarrow> numPendingUpdates lc whose Local = 0 \<and> numPendingUpdates lc whose Remote = 0"

definition handleStfu :: "bool \<Rightarrow> link_view \<Rightarrow> stfu \<Rightarrow> link_view \<times> quiescer_error option" where
  "handleStfu sendOk l stfu =
     (if \<not> noDanglingUpdates (lk_channel l) Remote then (l, Some ErrPendingRemoteUpdates)
      else case q_RecvStfu (lk_quiescer l) stfu of
        (q, Some e) \<Rightarrow> (l\<lparr>lk_quiescer := q\<rparr>, Some e)
      | (q, None) \<Rightarrow>
          if noDanglingUpdates (lk_channel l) Local then
            (case q_SendOwedStfu sendOk q of (q', e) \<Rightarrow> (l\<lparr>lk_quiescer := q'\<rparr>, e))
          else (l\<lparr>lk_quiescer := q\<rparr>, None))"

fun q_resolve :: "nat \<Rightarrow> initiator_result \<Rightarrow> quiescer_impl \<Rightarrow> quiescer_impl" where
  "q_resolve r v (QuiescerLive q) = QuiescerLive (resolve r v q)"
| "q_resolve r v (QuiescerNoop w) = QuiescerNoop (resolve r v w)"

definition handleQuiescenceReq :: "bool \<Rightarrow> link_view \<Rightarrow> nat \<Rightarrow> link_view \<times> quiescer_error option" where
  "handleQuiescenceReq sendOk l req =
     (let q = q_InitStfu (lk_quiescer l) req
      in if \<not> noDanglingUpdates (lk_channel l) Local then (l\<lparr>lk_quiescer := q\<rparr>, None)
         else case q_SendOwedStfu sendOk q of
           (q', Some e) \<Rightarrow> (l\<lparr>lk_quiescer := q_resolve req (Inl e) q'\<rparr>, Some e)
         | (q', None) \<Rightarrow> (l\<lparr>lk_quiescer := q'\<rparr>, None))"

text \<open>The end of \<open>processRemoteCommitSig\<close>.\<close>

definition sendStfuAfterCommit :: "bool \<Rightarrow> link_view \<Rightarrow> link_view \<times> quiescer_error option" where
  "sendStfuAfterCommit sendOk l =
     (if noDanglingUpdates (lk_channel l) Local then
        (case q_SendOwedStfu sendOk (lk_quiescer l) of (q, e) \<Rightarrow> (l\<lparr>lk_quiescer := q\<rparr>, e))
      else (l, None))"

section \<open>The steps of a link\<close>

text \<open>
  The channel operations behind the update messages we send and those we receive.
  \<open>handleDownstreamPkt\<close>, \<open>updateChannelFee\<close> and \<open>processRemoteRevokeAndAck\<close> ask \<open>CanSendUpdates\<close>
  before they issue one, \<open>handleUpstreamMsg\<close> asks \<open>CanRecvUpdates\<close> before it hands one to the channel.
  The signatures and revocations that lock updates in are not held up.
\<close>

inductive local_update :: "channel \<Rightarrow> channel \<Rightarrow> bool" where
  lu_add: "addHTLC lc htlc key b = (lc', r1) \<Longrightarrow> local_update lc lc'"
| lu_settle: "SettleHTLC lc pre i sr dr ck = (lc', r2) \<Longrightarrow> local_update lc lc'"
| lu_fail: "FailHTLC lc i reason sr dr ck = (lc', r2) \<Longrightarrow> local_update lc lc'"
| lu_malformed: "MalformedFailHTLC lc i code sha sr = (lc', r2) \<Longrightarrow> local_update lc lc'"
| lu_fee: "updateFee lc f = (lc', r2) \<Longrightarrow> local_update lc lc'"

inductive remote_update :: "channel \<Rightarrow> channel \<Rightarrow> bool" where
  ru_add: "receiveHTLC lc htlc = (lc', r1) \<Longrightarrow> remote_update lc lc'"
| ru_settle: "receiveHTLCSettle lc pre i = (lc', r2) \<Longrightarrow> remote_update lc lc'"
| ru_fail: "receiveFailHTLC lc i reason = (lc', r2) \<Longrightarrow> remote_update lc lc'"
| ru_fee: "receiveUpdateFee lc f = (lc', r2) \<Longrightarrow> remote_update lc lc'"

inductive commit_step :: "tx_env \<Rightarrow> channel \<Rightarrow> channel \<Rightarrow> bool" for env where
  co_sign: "height_room lc Remote \<Longrightarrow> signNextCommitment env lc = (lc', Inr d) \<Longrightarrow> commit_step env lc lc'"
| co_receive: "height_room lc Local \<Longrightarrow> receiveNewCommitment env lc sig = (lc', None) \<Longrightarrow> commit_step env lc lc'"
| co_revoke: "revokeCurrentCommitment env lc = (lc', Inr (msg, htlcs, final)) \<Longrightarrow> commit_step env lc lc'"
| co_revocation: "receiveRevocation env lc msg = (lc', Inr (pkg, htlcs)) \<Longrightarrow> commit_step env lc lc'"

text \<open>
  The one path that does not ask: \<open>processHodlQueue\<close> settles or fails an HTLC that an invoice held back
  as soon as its resolution arrives. \<open>hodl\<close> tells in which states of the link one may arrive.
\<close>

inductive hodl_resolution :: "channel \<Rightarrow> channel \<Rightarrow> bool" where
  hr_settle: "SettleHTLC lc pre i sr dr ck = (lc', r2) \<Longrightarrow> hodl_resolution lc lc'"
| hr_fail: "FailHTLC lc i reason sr dr ck = (lc', r2) \<Longrightarrow> hodl_resolution lc lc'"

inductive link_step :: "(link_view \<Rightarrow> bool) \<Rightarrow> tx_env \<Rightarrow> link_view \<Rightarrow> link_view \<Rightarrow> bool" for hodl env where
  ls_local: "q_CanSendUpdates (lk_quiescer l) \<Longrightarrow> log_room (lk_channel l) \<Longrightarrow> local_update (lk_channel l) lc' \<Longrightarrow>
    link_step hodl env l (l\<lparr>lk_channel := lc'\<rparr>)"
| ls_remote: "q_CanRecvUpdates (lk_quiescer l) \<Longrightarrow> log_room (lk_channel l) \<Longrightarrow> remote_update (lk_channel l) lc' \<Longrightarrow>
    link_step hodl env l (l\<lparr>lk_channel := lc'\<rparr>)"
| ls_hodl: "hodl l \<Longrightarrow> log_room (lk_channel l) \<Longrightarrow> hodl_resolution (lk_channel l) lc' \<Longrightarrow>
    link_step hodl env l (l\<lparr>lk_channel := lc'\<rparr>)"
| ls_commit: "commit_step env (lk_channel l) lc' \<Longrightarrow> link_step hodl env l (l\<lparr>lk_channel := lc'\<rparr>)"
| ls_committed: "sendStfuAfterCommit ok l = (l', None) \<Longrightarrow> link_step hodl env l l'"
| ls_stfu: "handleStfu ok l msg = (l', None) \<Longrightarrow> link_step hodl env l l'"
| ls_request: "handleQuiescenceReq ok l req = (l', None) \<Longrightarrow> link_step hodl env l l'"
| ls_hook: "link_step hodl env l (l\<lparr>lk_quiescer := q_OnResume (lk_quiescer l) hook\<rparr>)"
| ls_resume: "link_step hodl env l (l\<lparr>lk_quiescer := q_Resume (lk_quiescer l)\<rparr>)"

section \<open>Updates and the commitments that cover them\<close>

lemma local_update_step: "local_update lc lc' \<Longrightarrow> update_step lc lc'"
  by (induction rule: local_update.induct) (fact us_add us_settle us_fail us_malformed us_fee)+

lemma hodl_local_update: "hodl_resolution lc lc' \<Longrightarrow> local_update lc lc'"
  by (induction rule: hodl_resolution.induct) (fact lu_settle lu_fail)+

lemma remote_update_step: "remote_update lc lc' \<Longrightarrow> update_step lc lc'"
  by (induction rule: remote_update.induct) (fact us_receive_add us_receive_settle us_receive_fail us_receive_fee)+

lemma commit_chan_step: "commit_step env lc lc' \<Longrightarrow> chan_step env lc lc'"
  by (induction rule: commit_step.induct) (fact cs_sign cs_receive cs_revoke cs_revocation)+

lemma markParent_counter [simp]:
  "ul_logIndex (logOf (markParent lc p i) q) = ul_logIndex (logOf lc q)"
  by (simp add: markParent_def markHtlcModified_def)

lemma resolve_counter:
  assumes "resolveHTLC lc p i already mk = (lc', r)" "q \<noteq> p"
  shows "ul_logIndex (logOf lc' q) = ul_logIndex (logOf lc q)"
  by (rule resolveHTLC_cases [OF assms(1)]) (use assms(2) in \<open>simp_all add: allocate_def\<close>)

lemma local_update_counter:
  assumes "local_update lc lc'"
  shows "ul_logIndex (logOf lc' Remote) = ul_logIndex (logOf lc Remote)"
  using assms
proof (induction rule: local_update.induct)
  case (lu_add lc htlc key b lc' r1)
  let ?lc1 = "allocate lc (htlcAddDescriptor lc htlc key)"
  obtain lc2 e where va: "validateAddHtlc ?lc1 (lc_next lc) b = (lc2, e)" by fastforce
  have "lc_logs lc2 = lc_logs lc" using dry_fields(1) [OF validateAddHtlc_dry [OF va]] by (simp add: allocate_def)
  then show ?case using lu_add va by (cases e) (auto simp: addHTLC_def Let_def)
next
  case (lu_fee lc f lc' r2)
  obtain lc1 e where va: "validateFeeRate lc f = (lc1, e)" by fastforce
  have "lc_logs lc1 = lc_logs lc" by (rule dry_fields(1) [OF validateFeeRate_dry [OF va]])
  then show ?case using lu_fee va by (cases e) (auto simp: updateFee_def allocate_def split: if_splits)
qed (unfold SettleHTLC_def FailHTLC_def MalformedFailHTLC_def, (erule resolve_counter, simp)+)

lemma remote_update_counter:
  assumes "remote_update lc lc'"
  shows "ul_logIndex (logOf lc' Local) = ul_logIndex (logOf lc Local)"
  using assms
proof (induction rule: remote_update.induct)
  case (ru_add lc htlc lc' r1)
  show ?case
  proof (cases "ua_ID htlc = ul_htlcCounter (d_remote (lc_logs lc))")
    case False
    then show ?thesis using ru_add by (simp add: receiveHTLC_def Let_def)
  next
    case True
    then obtain pd lc2 e where va: "validateCommitmentSanity (allocate lc pd) (ul_logIndex (d_remote (lc_logs lc)))
        (d_local (cm_messageIndices (tail (d_remote (lc_chains lc))))) Local NoBuffer None (Some (lc_next lc)) = (lc2, e)"
      and "lc' = (if e = None then pushLog lc2 Remote appendHtlc else lc2)"
      using ru_add by (simp add: receiveHTLC_def Let_def split: prod.splits option.splits)
    moreover have "lc_logs lc2 = lc_logs lc"
      using dry_fields(1) [OF validateCommitmentSanity_dry [OF va]] by (simp add: allocate_def)
    ultimately show ?thesis by simp
  qed
next
  case (ru_fee lc f lc' r2)
  then show ?case by (auto simp: receiveUpdateFee_def allocate_def split: if_splits)
qed (unfold receiveHTLCSettle_def receiveFailHTLC_def, (erule resolve_counter, simp)+)

lemma noDangling_iff:
  "noDanglingUpdates lc p \<longleftrightarrow> (\<forall>w. msgIndex (tip (chainOf lc w)) p = ul_logIndex (logOf lc p))"
  by (auto simp: noDanglingUpdates_def numPendingUpdates_def all_parties)

lemma update_keeps_clean:
  assumes "update_step lc lc'" "ul_logIndex (logOf lc' p) = ul_logIndex (logOf lc p)"
  shows "noDanglingUpdates lc' p = noDanglingUpdates lc p"
  using update_step_frame [OF assms(1)] assms(2) by (simp add: noDangling_iff chain_frame_def)

lemma tip_drop: "tl s \<noteq> [] \<Longrightarrow> tip (advanceTail s) = tip s"
  by (cases s) (simp_all add: advanceTail_def tip_def)

lemma new_tip:
  assumes "window_inv lc" "next_indices lc w (cm_messageIndices c)"
  shows "msgIndex (tip (chainOf lc w)) p \<le> msgIndex c p"
proof -
  have "tip (chainOf lc w) \<in> set (chainOf lc w)" using assms(1) by (simp add: window_inv_def tip_def)
  then show ?thesis using next_indices_mono [OF assms] by blast
qed

lemma sign_extends:
  assumes "signNextCommitment env lc = (lc', Inr d)"
  shows "lc_logs lc' = lc_logs lc"
    "\<exists>c. lc_chains lc' = modifyForParty (lc_chains lc) Remote (\<lambda>s. s @ [c]) \<and>
       next_indices lc Remote (cm_messageIndices c)"
proof -
  obtain lc1 lc2 c db where v: "validateCommitmentSanity lc (msgIndex (tail (chainOf lc Local)) Remote)
      (ul_logIndex (logOf lc Local)) Remote NoBuffer None None = (lc1, None)"
    and f: "fetchCommitmentView env lc1 Remote (ul_logIndex (logOf lc Local)) (ul_htlcCounter (logOf lc Local))
      (msgIndex (tail (chainOf lc Local)) Remote) (cm_theirHtlcIndex (tail (chainOf lc Local))) = (lc2, Inr c)"
    and l: "lc' = extendChain (lc2\<lparr>lc_db := db\<rparr>) Remote c"
    by (rule signNextCommitment_cases [OF assms]) (rule that, assumption+)
  note d = dry_fields [OF validateCommitmentSanity_dry [OF v]] and k = fetchCommitmentView_frame [OF f]
  show "lc_logs lc' = lc_logs lc" by (simp add: l d k)
  have "cm_messageIndices c = mkDual (ul_logIndex (logOf lc Local)) (msgIndex (tail (chainOf lc Local)) Remote)"
    by (rule fetchCommitmentView_cases [OF f])
  then have "next_indices lc Remote (cm_messageIndices c)" by (simp add: next_indices_def)
  moreover have "lc_chains lc2 = lc_chains lc" using k(3) d(2) by (simp add: chain_frame_def)
  ultimately show "\<exists>c. lc_chains lc' = modifyForParty (lc_chains lc) Remote (\<lambda>s. s @ [c]) \<and>
       next_indices lc Remote (cm_messageIndices c)"
    by (intro exI [of _ c]) (simp add: l addCommitment_def)
qed

lemma receive_extends:
  assumes "receiveNewCommitment env lc sig = (lc', None)"
  shows "lc_logs lc' = lc_logs lc"
    "\<exists>c. lc_chains lc' = modifyForParty (lc_chains lc) Local (\<lambda>s. s @ [c]) \<and>
       next_indices lc Local (cm_messageIndices c)"
proof -
  obtain lc1 lc2 c where v: "validateCommitmentSanity lc (ul_logIndex (logOf lc Remote))
      (msgIndex (tail (chainOf lc Remote)) Local) Local NoBuffer None None = (lc1, None)"
    and f: "fetchCommitmentView env lc1 Local (msgIndex (tail (chainOf lc Remote)) Local)
      (cm_ourHtlcIndex (tail (chainOf lc Remote))) (ul_logIndex (logOf lc Remote)) (ul_htlcCounter (logOf lc Remote)) = (lc2, Inr c)"
    and l: "lc' = extendChain lc2 Local c"
    by (rule receiveNewCommitment_cases [OF assms]) (rule that, assumption+)
  note d = dry_fields [OF validateCommitmentSanity_dry [OF v]] and k = fetchCommitmentView_frame [OF f]
  show "lc_logs lc' = lc_logs lc" by (simp add: l d k)
  have "cm_messageIndices c = mkDual (msgIndex (tail (chainOf lc Remote)) Local) (ul_logIndex (logOf lc Remote))"
    by (rule fetchCommitmentView_cases [OF f])
  then have "next_indices lc Local (cm_messageIndices c)" by (simp add: next_indices_def)
  moreover have "lc_chains lc2 = lc_chains lc" using k(3) d(2) by (simp add: chain_frame_def)
  ultimately show "\<exists>c. lc_chains lc' = modifyForParty (lc_chains lc) Local (\<lambda>s. s @ [c]) \<and>
       next_indices lc Local (cm_messageIndices c)"
    by (intro exI [of _ c]) (simp add: l addCommitment_def)
qed

lemma extended_tip:
  assumes "window_inv lc" "next_indices lc w (cm_messageIndices c)"
    "lc_chains lc' = modifyForParty (lc_chains lc) w (\<lambda>s. s @ [c])"
  shows "msgIndex (tip (chainOf lc w')) p \<le> msgIndex (tip (chainOf lc' w')) p"
  using new_tip [OF assms(1,2)] by (cases "w = w'") (simp_all add: assms(3) tip_def del: getForParty.simps)

text \<open>Signatures and revocations add no update, and a newer commitment covers no less.\<close>

lemma commit_step_shape:
  assumes "commit_step env lc lc'" "window_inv lc" "window_inv lc'"
  shows "ul_logIndex (logOf lc' p) = ul_logIndex (logOf lc p) \<and>
    msgIndex (tip (chainOf lc w)) q \<le> msgIndex (tip (chainOf lc' w)) q"
  using assms
proof (induction rule: commit_step.induct)
  case (co_sign lc d lc')
  then show ?case using sign_extends [OF co_sign(2)] extended_tip by metis
next
  case (co_receive lc sig lc')
  then show ?case using receive_extends [OF co_receive(2)] extended_tip by metis
next
  case (co_revoke lc lc' msg htlcs final)
  show ?case
    by (rule revokeCurrentCommitment_cases [OF co_revoke(1)]) (simp add: tip_drop del: getForParty.simps)
next
  case (co_revocation lc msg lc' pkg htlcs)
  have c: "lc_chains lc' = modifyForParty (lc_chains lc) Remote advanceTail \<and>
      ul_logIndex (logOf lc' p) = ul_logIndex (logOf lc p)"
    by (rule receiveRevocation_cases [OF co_revocation(1)]) (simp add: compactLogs_counters(1))
  have "chainOf lc' Remote \<noteq> []" using co_revocation(3) unfolding window_inv_def by blast
  then have "tl (chainOf lc Remote) \<noteq> []" using c by (simp add: advanceTail_def del: getForParty.simps)
  then show ?case using c tip_drop by (simp del: getForParty.simps)
qed

lemma commit_keeps_clean:
  assumes "commit_step env lc lc'" "window_inv lc" "window_inv lc'" "noDanglingUpdates lc p"
  shows "noDanglingUpdates lc' p"
  unfolding noDangling_iff
proof
  fix w
  have "msgIndex (tip (chainOf lc' w)) p \<le> ul_logIndex (logOf lc' p)" by (rule window_tip [OF assms(3)])
  moreover have "ul_logIndex (logOf lc p) \<le> msgIndex (tip (chainOf lc' w)) p"
    using commit_step_shape [OF assms(1-3)] assms(4) unfolding noDangling_iff by metis
  ultimately show "msgIndex (tip (chainOf lc' w)) p = ul_logIndex (logOf lc' p)"
    using commit_step_shape [OF assms(1-3)] by (metis antisym)
qed

section \<open>A quiescent link\<close>

fun impl_sent :: "quiescer_impl \<Rightarrow> bool" where
  "impl_sent (QuiescerLive q) = q_sent q"
| "impl_sent (QuiescerNoop w) = False"

fun impl_received :: "quiescer_impl \<Rightarrow> bool" where
  "impl_received (QuiescerLive q) = q_received q"
| "impl_received (QuiescerNoop w) = False"

text \<open>
  A side that has sent its \<open>stfu\<close> is clean, ours unless resolutions of held HTLCs may arrive after it.
\<close>

definition hodl_before_stfu :: "(link_view \<Rightarrow> bool) \<Rightarrow> bool" where
  "hodl_before_stfu hodl \<longleftrightarrow> (\<forall>l. hodl l \<longrightarrow> \<not> impl_sent (lk_quiescer l))"

definition link_inv :: "(link_view \<Rightarrow> bool) \<Rightarrow> msat \<Rightarrow> link_view \<Rightarrow> bool" where
  "link_inv hodl v l \<longleftrightarrow> chan_inv v (lk_channel l) \<and> disk_inv (lk_channel l) \<and>
     (impl_sent (lk_quiescer l) \<longrightarrow> hodl_before_stfu hodl \<longrightarrow> noDanglingUpdates (lk_channel l) Local) \<and>
     (impl_received (lk_quiescer l) \<longrightarrow> noDanglingUpdates (lk_channel l) Remote)"

lemma impl_flags:
  "impl_sent q \<Longrightarrow> \<not> q_CanSendUpdates q" "impl_received q \<Longrightarrow> \<not> q_CanRecvUpdates q"
  "q_IsQuiescent q \<longleftrightarrow> impl_sent q \<and> impl_received q"
  by (cases q; simp add: q_flags)+

lemma impl_ops:
  "impl_sent (fst (q_RecvStfu q msg)) = impl_sent q" "impl_received (fst (q_SendOwedStfu ok q)) = impl_received q"
  "impl_sent (q_InitStfu q r) = impl_sent q" "impl_received (q_InitStfu q r) = impl_received q"
  "impl_sent (q_OnResume q h) = impl_sent q" "impl_received (q_OnResume q h) = impl_received q"
  "\<not> impl_sent (q_Resume q)" "\<not> impl_received (q_Resume q)"
  by (cases q; simp add: q_ops_flags)+

text \<open>The three handlers only touch the quiescer, and only with the channel clean on the side that stops.\<close>

definition stops_clean :: "link_view \<Rightarrow> link_view \<Rightarrow> bool" where
  "stops_clean l l' \<longleftrightarrow> lk_channel l' = lk_channel l \<and>
     (impl_sent (lk_quiescer l') \<longrightarrow> impl_sent (lk_quiescer l) \<or> noDanglingUpdates (lk_channel l) Local) \<and>
     (impl_received (lk_quiescer l') \<longrightarrow> impl_received (lk_quiescer l) \<or> noDanglingUpdates (lk_channel l) Remote)"

lemma committed_stops_clean:
  assumes "sendStfuAfterCommit ok l = (l', None)"
  shows "stops_clean l l'"
  using assms impl_ops(2) [of ok "lk_quiescer l"]
  by (cases "q_SendOwedStfu ok (lk_quiescer l)")
    (auto simp: sendStfuAfterCommit_def stops_clean_def split: if_splits)

lemma stfu_stops_clean:
  assumes "handleStfu ok l msg = (l', None)"
  shows "stops_clean l l'"
proof -
  obtain q e where r: "q_RecvStfu (lk_quiescer l) msg = (q, e)" by fastforce
  obtain q' e' where s: "q_SendOwedStfu ok q = (q', e')" by fastforce
  have "impl_sent q = impl_sent (lk_quiescer l)" "impl_received q' = impl_received q"
    using impl_ops(1) [of "lk_quiescer l" msg] impl_ops(2) [of ok q] r s by simp_all
  then show ?thesis
    using assms r s by (auto simp: handleStfu_def stops_clean_def split: if_splits option.splits)
qed

lemma request_stops_clean:
  assumes "handleQuiescenceReq ok l req = (l', None)"
  shows "stops_clean l l'"
proof -
  obtain q' e' where s: "q_SendOwedStfu ok (q_InitStfu (lk_quiescer l) req) = (q', e')" by fastforce
  have "impl_received q' = impl_received (lk_quiescer l)"
    using impl_ops(2) [of ok "q_InitStfu (lk_quiescer l) req"] impl_ops(4) s by simp
  then show ?thesis
    using assms s impl_ops(3,4)
    by (auto simp: handleQuiescenceReq_def stops_clean_def Let_def split: if_splits option.splits)
qed

lemma stops_clean_inv: "stops_clean l l' \<Longrightarrow> link_inv hodl v l \<Longrightarrow> link_inv hodl v l'"
  by (auto simp: stops_clean_def link_inv_def)

lemma update_link_inv:
  assumes "link_inv hodl v l" "log_room (lk_channel l)" "update_step (lk_channel l) lc'"
    "impl_sent (lk_quiescer l) \<Longrightarrow> hodl_before_stfu hodl \<Longrightarrow> ul_logIndex (logOf lc' Local) = ul_logIndex (logOf (lk_channel l) Local)"
    "impl_received (lk_quiescer l) \<Longrightarrow> ul_logIndex (logOf lc' Remote) = ul_logIndex (logOf (lk_channel l) Remote)"
  shows "link_inv hodl v (l\<lparr>lk_channel := lc'\<rparr>)"
proof -
  have "chan_inv v lc' \<and> disk_inv lc'"
    using chan_step_inv [OF cs_update [OF assms(2,3)], of v] assms(1) by (simp add: link_inv_def)
  then show ?thesis
    using assms(1) update_keeps_clean [OF assms(3)] assms(4,5) by (auto simp: link_inv_def)
qed

lemma link_step_inv:
  assumes "link_step hodl env l l'" "link_inv hodl v l"
  shows "link_inv hodl v l'"
  using assms
proof (induction rule: link_step.induct)
  case (ls_local l lc')
  show ?case
    by (rule update_link_inv [OF ls_local(4,2) local_update_step [OF ls_local(3)]])
      (use ls_local(1) impl_flags(1) local_update_counter [OF ls_local(3)] in blast)+
next
  case (ls_remote l lc')
  show ?case
    by (rule update_link_inv [OF ls_remote(4,2) remote_update_step [OF ls_remote(3)]])
      (use ls_remote(1) impl_flags(2) remote_update_counter [OF ls_remote(3)] in blast)+
next
  case (ls_hodl l lc')
  note lu = hodl_local_update [OF ls_hodl(3)]
  show ?case
    by (rule update_link_inv [OF ls_hodl(4,2) local_update_step [OF lu]])
      (use ls_hodl(1) impl_flags(1) local_update_counter [OF lu] hodl_before_stfu_def in blast)+
next
  case (ls_commit l lc')
  have "chan_inv v lc' \<and> disk_inv lc'"
    using chan_step_inv [OF commit_chan_step [OF ls_commit(1)], of v] ls_commit(2) by (simp add: link_inv_def)
  moreover from this have "noDanglingUpdates (lk_channel l) p \<Longrightarrow> noDanglingUpdates lc' p" for p
    using commit_keeps_clean [OF ls_commit(1)] ls_commit(2) by (simp add: link_inv_def chan_inv_def)
  ultimately show ?case using ls_commit(2) by (simp add: link_inv_def)
next
  case (ls_committed ok l l')
  then show ?case using stops_clean_inv committed_stops_clean by blast
next
  case (ls_stfu ok l msg l')
  then show ?case using stops_clean_inv stfu_stops_clean by blast
next
  case (ls_request ok l req l')
  then show ?case using stops_clean_inv request_stops_clean by blast
qed (simp_all add: link_inv_def impl_ops)

lemma link_step_counter:
  assumes "link_step hodl env l l'" "link_inv hodl v l" "q_IsQuiescent (lk_quiescer l)"
  shows "ul_logIndex (logOf (lk_channel l') Remote) = ul_logIndex (logOf (lk_channel l) Remote) \<and>
    (ul_logIndex (logOf (lk_channel l') Local) = ul_logIndex (logOf (lk_channel l) Local) \<or>
     hodl l \<and> hodl_resolution (lk_channel l) (lk_channel l') \<and> lk_quiescer l' = lk_quiescer l)"
  using assms
proof (induction rule: link_step.induct)
  case (ls_local l lc')
  then show ?case using quiescers.quiescent_frozen by blast
next
  case (ls_remote l lc')
  then show ?case using quiescers.quiescent_frozen by blast
next
  case (ls_hodl l lc')
  then show ?case using local_update_counter [OF hodl_local_update] by auto
next
  case (ls_commit l lc')
  have "window_inv (lk_channel l) \<and> window_inv lc'"
    using chan_step_inv [OF commit_chan_step [OF ls_commit(1)], of v] ls_commit(2)
    by (simp add: link_inv_def chan_inv_def)
  then have "ul_logIndex (logOf lc' p) = ul_logIndex (logOf (lk_channel l) p)" for p
    using commit_step_shape [OF ls_commit(1)] by blast
  then show ?case by (simp del: getForParty.simps)
next
  case (ls_committed ok l l')
  then show ?case using committed_stops_clean by (simp add: stops_clean_def)
next
  case (ls_stfu ok l msg l')
  then show ?case using stfu_stops_clean by (simp add: stops_clean_def)
next
  case (ls_request ok l req l')
  then show ?case using request_stops_clean by (simp add: stops_clean_def)
qed simp_all

definition new_link :: "msat \<Rightarrow> link_view \<Rightarrow> bool" where
  "new_link v l \<longleftrightarrow> opened v (lk_channel l) \<and>
     ((\<exists>cfg. lk_quiescer l = QuiescerLive (newQuiescer cfg)) \<or> lk_quiescer l = QuiescerNoop quiet_world)"

lemma link_run_inv:
  assumes "(link_step hodl env)\<^sup>*\<^sup>* l0 l" "new_link v l0"
  shows "link_inv hodl v l"
  using assms(1)
proof (induction rule: rtranclp_induct)
  case base
  then show ?case using assms(2) opened_inv by (auto simp: new_link_def link_inv_def)
next
  case (step l l')
  then show ?case by (blast intro: link_step_inv)
qed

text \<open>
  C20: a quiescent link is quiet, but for HTLCs held by an invoice. Whenever their resolutions arrive,
  no more updates are sent for any other reason and none is accepted from the peer; the peer's updates
  are all in both newest commitments, and so are ours unless a resolution arrived after we had sent our
  stfu; and whatever step comes next, no update enters the peer's log, and none enters ours but the
  settle or failure of a held HTLC whose resolution arrives just then.
\<close>

theorem quiescent_link_is_quiet:
  assumes "new_link v l0" "(link_step hodl env)\<^sup>*\<^sup>* l0 l" "q_IsQuiescent (lk_quiescer l)"
  shows "\<not> q_CanSendUpdates (lk_quiescer l) \<and> \<not> q_CanRecvUpdates (lk_quiescer l) \<and>
    (\<forall>w. numPendingUpdates (lk_channel l) Remote w = 0) \<and>
    ((\<forall>l. hodl l \<longrightarrow> \<not> impl_sent (lk_quiescer l)) \<longrightarrow> (\<forall>w. numPendingUpdates (lk_channel l) Local w = 0)) \<and>
    (\<forall>l'. link_step hodl env l l' \<longrightarrow>
       ul_logIndex (logOf (lk_channel l') Remote) = ul_logIndex (logOf (lk_channel l) Remote) \<and>
       (ul_logIndex (logOf (lk_channel l') Local) = ul_logIndex (logOf (lk_channel l) Local) \<or>
        hodl l \<and> hodl_resolution (lk_channel l) (lk_channel l') \<and> lk_quiescer l' = lk_quiescer l))"
proof -
  have i: "link_inv hodl v l" by (rule link_run_inv [OF assms(2,1)])
  have "noDanglingUpdates (lk_channel l) Remote" "hodl_before_stfu hodl \<Longrightarrow> noDanglingUpdates (lk_channel l) Local"
    using i assms(3) by (simp_all add: link_inv_def impl_flags(3))
  then have "numPendingUpdates (lk_channel l) Remote w = 0"
    "hodl_before_stfu hodl \<Longrightarrow> numPendingUpdates (lk_channel l) Local w = 0" for w
    by (cases w; simp add: noDanglingUpdates_def)+
  then show ?thesis
    using quiescers.quiescent_frozen [OF assms(3)] link_step_counter [OF _ i assms(3)]
    unfolding hodl_before_stfu_def by blast
qed

text \<open>The resolution of a held invoice is sent to a quiescent peer all the same.\<close>

lemma hodl_resolution_breaks_quiescence:
  assumes "q_IsQuiescent (lk_quiescer l)" "log_room (lk_channel l)"
    "SettleHTLC (lk_channel l) pre i sr dr ck = (lc', None)"
  shows "link_step (\<lambda>l. True) env l (l\<lparr>lk_channel := lc'\<rparr>)"
    "ul_logIndex (logOf lc' Local) = ul_logIndex (logOf (lk_channel l) Local) + 1"
proof -
  show "link_step (\<lambda>l. True) env l (l\<lparr>lk_channel := lc'\<rparr>)"
    by (rule ls_hodl) (use assms in \<open>simp_all add: hr_settle\<close>)
  show "ul_logIndex (logOf lc' Local) = ul_logIndex (logOf (lk_channel l) Local) + 1"
    by (rule resolveHTLC_cases [OF assms(3) [unfolded SettleHTLC_def]]) (simp_all add: allocate_def appendUpdate_def del: getForParty.simps setForParty.simps)
qed

text \<open>A fresh channel on which we ask for quiescence and the peer agrees.\<close>

definition demo_quiescer_cfg :: quiescer_cfg where
  "demo_quiescer_cfg = \<lparr>qc_chanID = [], qc_channelInitiator = Local, qc_onTimeout = True\<rparr>"

definition demo_link :: link_view where
  "demo_link = \<lparr>lk_channel = demo_channel, lk_quiescer = QuiescerLive (newQuiescer demo_quiescer_cfg)\<rparr>"

definition demo_asking :: quiescer where
  "demo_asking = fst (sendOwedStfu True (initStfu (newQuiescer demo_quiescer_cfg) 0))"

definition demo_agreed :: quiescer where
  "demo_agreed = fst (recvStfu demo_asking \<lparr>st_chanID = [], st_initiator = False\<rparr>)"

lemma demo_clean: "noDanglingUpdates demo_channel p"
  by (cases p) (simp_all add: noDangling_iff all_parties demo_channel_def newUpdateLog_def tip_def demo_commitment_def)

lemma demo_quiescent_link:
  "(link_step hodl env)\<^sup>*\<^sup>* demo_link \<lparr>lk_channel = demo_channel, lk_quiescer = QuiescerLive demo_agreed\<rparr>"
proof -
  let ?l = "\<lparr>lk_channel = demo_channel, lk_quiescer = QuiescerLive demo_asking\<rparr>"
  have "handleQuiescenceReq True demo_link 0 = (?l, None)"
    by (simp add: handleQuiescenceReq_def demo_link_def Let_def demo_clean)
      (simp add: demo_asking_def demo_quiescer_cfg_def demo_quiescer_simps)
  then have 1: "link_step hodl env demo_link ?l" by (rule ls_request)
  have "recvStfu demo_asking \<lparr>st_chanID = [], st_initiator = False\<rparr> = (demo_agreed, None)"
    "sendOwedStfu True demo_agreed = (demo_agreed, None)"
    by (simp_all add: demo_agreed_def demo_asking_def demo_quiescer_cfg_def demo_quiescer_simps)
  then have "handleStfu True ?l \<lparr>st_chanID = [], st_initiator = False\<rparr>
      = (\<lparr>lk_channel = demo_channel, lk_quiescer = QuiescerLive demo_agreed\<rparr>, None)"
    by (simp add: handleStfu_def demo_clean)
  then have "link_step hodl env ?l \<lparr>lk_channel = demo_channel, lk_quiescer = QuiescerLive demo_agreed\<rparr>"
    by (rule ls_stfu)
  with 1 show ?thesis by (meson r_into_rtranclp rtranclp.rtrancl_into_rtrancl)
qed

theorem quiescent_link_is_quiet_witness:
  "numPendingUpdates demo_channel Remote Local = 0 \<and> numPendingUpdates demo_channel Local Remote = 0 \<and>
    \<not> canSendUpdates demo_agreed"
proof -
  have "new_link 10000000000 demo_link" by (auto simp: new_link_def demo_link_def demo_opened)
  moreover have "q_IsQuiescent (QuiescerLive demo_agreed)"
    by (simp add: demo_agreed_def demo_asking_def demo_quiescer_cfg_def demo_quiescer_simps)
  ultimately show ?thesis
    using quiescent_link_is_quiet [OF _ demo_quiescent_link [where hodl = "\<lambda>l. False"]] by fastforce
qed

end
