(* ===== verification/Feature.thy ===== *)
theory Feature
  imports Prelude
begin

text \<open>
  Feature bits: the vectors of \<open>lnwire/features.go\<close> with their encoding, the dependencies between features
  (\<open>feature/deps.go\<close>), and the manager of the node's feature sets (\<open>feature/manager.go\<close>, \<open>set.go\<close>,
  \<open>default_sets.go\<close>, \<open>required.go\<close>). A map with empty values is a set; where Go ranges over one, \<open>order\<close>
  lists the keys in the order they are visited.
\<close>

section \<open>Feature bits\<close>

type_synonym feature_bit = u16
type_synonym raw_features = "feature_bit set"

definition IsRequired :: "feature_bit \<Rightarrow> bool" where
  "IsRequired b \<longleftrightarrow> b AND 1 = 0"

definition DataLossProtectRequired :: feature_bit where "DataLossProtectRequired = 0"
definition UpfrontShutdownScriptOptional :: feature_bit where "UpfrontShutdownScriptOptional = 5"
definition GossipQueriesOptional :: feature_bit where "GossipQueriesOptional = 7"
definition TLVOnionPayloadRequired :: feature_bit where "TLVOnionPayloadRequired = 8"
definition TLVOnionPayloadOptional :: feature_bit where "TLVOnionPayloadOptional = 9"
definition StaticRemoteKeyRequired :: feature_bit where "StaticRemoteKeyRequired = 12"
definition StaticRemoteKeyOptional :: feature_bit where "StaticRemoteKeyOptional = 13"
definition PaymentAddrRequired :: feature_bit where "PaymentAddrRequired = 14"
definition PaymentAddrOptional :: feature_bit where "PaymentAddrOptional = 15"
definition MPPRequired :: feature_bit where "MPPRequired = 16"
definition MPPOptional :: feature_bit where "MPPOptional = 17"
definition WumboChannelsRequired :: feature_bit where "WumboChannelsRequired = 18"
definition WumboChannelsOptional :: feature_bit where "WumboChannelsOptional = 19"
definition AnchorsRequired :: feature_bit where "AnchorsRequired = 20"
definition AnchorsOptional :: feature_bit where "AnchorsOptional = 21"
definition AnchorsZeroFeeHtlcTxRequired :: feature_bit where "AnchorsZeroFeeHtlcTxRequired = 22"
definition AnchorsZeroFeeHtlcTxOptional :: feature_bit where "AnchorsZeroFeeHtlcTxOptional = 23"
definition RouteBlindingRequired :: feature_bit where "RouteBlindingRequired = 24"
definition RouteBlindingOptional :: feature_bit where "RouteBlindingOptional = 25"
definition ShutdownAnySegwitRequired :: feature_bit where "ShutdownAnySegwitRequired = 26"
definition ShutdownAnySegwitOptional :: feature_bit where "ShutdownAnySegwitOptional = 27"
definition AMPRequired :: feature_bit where "AMPRequired = 30"
definition AMPOptional :: feature_bit where "AMPOptional = 31"
definition QuiescenceOptional :: feature_bit where "QuiescenceOptional = 35"
definition ExplicitChannelTypeOptional :: feature_bit where "ExplicitChannelTypeOptional = 45"
definition ScidAliasRequired :: feature_bit where "ScidAliasRequired = 46"
definition ScidAliasOptional :: feature_bit where "ScidAliasOptional = 47"
definition ZeroConfRequired :: feature_bit where "ZeroConfRequired = 50"
definition ZeroConfOptional :: feature_bit where "ZeroConfOptional = 51"
definition KeysendRequired :: feature_bit where "KeysendRequired = 54"
definition KeysendOptional :: feature_bit where "KeysendOptional = 55"
definition RbfCoopCloseOptional :: feature_bit where "RbfCoopCloseOptional = 61"
definition RbfCoopCloseOptionalStaging :: feature_bit where "RbfCoopCloseOptionalStaging = 161"
definition SimpleTaprootChannelsRequiredStaging :: feature_bit where "SimpleTaprootChannelsRequiredStaging = 180"
definition SimpleTaprootChannelsOptionalStaging :: feature_bit where "SimpleTaprootChannelsOptionalStaging = 181"
definition ExperimentalAccountabilityRequired :: feature_bit where "ExperimentalAccountabilityRequired = 260"
definition ExperimentalAccountabilityOptional :: feature_bit where "ExperimentalAccountabilityOptional = 261"
definition Bolt11BlindedPathsRequired :: feature_bit where "Bolt11BlindedPathsRequired = 262"
definition Bolt11BlindedPathsOptional :: feature_bit where "Bolt11BlindedPathsOptional = 263"
definition ScriptEnforcedLeaseRequired :: feature_bit where "ScriptEnforcedLeaseRequired = 2022"
definition ScriptEnforcedLeaseOptional :: feature_bit where "ScriptEnforcedLeaseOptional = 2023"
definition SimpleTaprootOverlayChansOptional :: feature_bit where "SimpleTaprootOverlayChansOptional = 2025"
definition SimpleTaprootOverlayChansRequired :: feature_bit where "SimpleTaprootOverlayChansRequired = 2026"
definition MaxBolt11Feature :: feature_bit where "MaxBolt11Feature = 5114"

lemmas feature_bits = DataLossProtectRequired_def UpfrontShutdownScriptOptional_def GossipQueriesOptional_def
  TLVOnionPayloadRequired_def TLVOnionPayloadOptional_def StaticRemoteKeyRequired_def StaticRemoteKeyOptional_def
  PaymentAddrRequired_def PaymentAddrOptional_def MPPRequired_def MPPOptional_def WumboChannelsRequired_def
  WumboChannelsOptional_def AnchorsRequired_def AnchorsOptional_def AnchorsZeroFeeHtlcTxRequired_def
  AnchorsZeroFeeHtlcTxOptional_def RouteBlindingRequired_def RouteBlindingOptional_def ShutdownAnySegwitRequired_def
  ShutdownAnySegwitOptional_def AMPRequired_def AMPOptional_def QuiescenceOptional_def ExplicitChannelTypeOptional_def
  ScidAliasRequired_def ScidAliasOptional_def ZeroConfRequired_def ZeroConfOptional_def KeysendRequired_def
  KeysendOptional_def RbfCoopCloseOptional_def RbfCoopCloseOptionalStaging_def SimpleTaprootChannelsRequiredStaging_def
  SimpleTaprootChannelsOptionalStaging_def ExperimentalAccountabilityRequired_def
  ExperimentalAccountabilityOptional_def Bolt11BlindedPathsRequired_def Bolt11BlindedPathsOptional_def
  ScriptEnforcedLeaseRequired_def ScriptEnforcedLeaseOptional_def SimpleTaprootOverlayChansOptional_def
  SimpleTaprootOverlayChansRequired_def MaxBolt11Feature_def

text \<open>The names of the known bits (\<open>lnwire.Features\<close>); a pair shares a name.\<close>

definition Features :: "feature_bit \<rightharpoonup> string" where
  "Features = map_of
     [(0, ''data-loss-protect''), (1, ''data-loss-protect''), (3, ''initial-routing-sync''),
      (4, ''upfront-shutdown-script''), (5, ''upfront-shutdown-script''), (6, ''gossip-queries''), (7, ''gossip-queries''),
      (8, ''tlv-onion''), (9, ''tlv-onion''), (13, ''static-remote-key''), (12, ''static-remote-key''),
      (15, ''payment-addr''), (14, ''payment-addr''), (17, ''multi-path-payments''), (16, ''multi-path-payments''),
      (20, ''anchor-commitments''), (21, ''anchor-commitments''), (22, ''anchors-zero-fee-htlc-tx''),
      (23, ''anchors-zero-fee-htlc-tx''), (18, ''wumbo-channels''), (19, ''wumbo-channels''), (30, ''amp''), (31, ''amp''),
      (34, ''quiescence''), (35, ''quiescence''), (49, ''payment-metadata''), (48, ''payment-metadata''),
      (45, ''explicit-commitment-type''), (44, ''explicit-commitment-type''), (55, ''keysend''), (54, ''keysend''),
      (2022, ''script-enforced-lease''), (2023, ''script-enforced-lease''), (46, ''scid-alias''), (47, ''scid-alias''),
      (50, ''zero-conf''), (51, ''zero-conf''), (24, ''route-blinding''), (25, ''route-blinding''),
      (26, ''shutdown-any-segwit''), (27, ''shutdown-any-segwit''), (80, ''simple-taproot-chans''),
      (81, ''simple-taproot-chans''), (180, ''simple-taproot-chans-x''), (181, ''simple-taproot-chans-x''),
      (2025, ''taproot-overlay-chans''), (2026, ''taproot-overlay-chans''), (260, ''accountable-x''), (261, ''accountable-x''),
      (263, ''bolt-11-blinded-paths''), (262, ''bolt-11-blinded-paths''), (61, ''rbf-coop-close''), (60, ''rbf-coop-close''),
      (161, ''rbf-coop-close-x''), (160, ''rbf-coop-close-x'')]"

section \<open>Raw feature vectors\<close>

datatype feature_error =
    ErrFeaturePairExists | ErrFeatureBitMaximum feature_bit | ErrFeatureStandard feature_bit
  | ErrMissingFeatureDep feature_bit | ErrUnknownRequired "feature_bit list" | ErrUnknownSet
  | ErrFeatureConfigured feature_bit | ExceedsSetMaximum feature_bit | AlreadySet feature_bit
  | InvalidFeatureSet u8 feature_bit | UnexpectedEOF

definition visit :: "'a list \<Rightarrow> 'a set \<Rightarrow> 'a list" where
  "visit order s = filter (\<lambda>b. b \<in> s) order"

definition NewRawFeatureVector :: "feature_bit list \<Rightarrow> raw_features" where
  "NewRawFeatureVector bits = foldl (\<lambda>fv b. insert b fv) {} bits"

definition SafeSet :: "feature_bit \<Rightarrow> raw_features \<Rightarrow> feature_error + raw_features" where
  "SafeSet b fv = (if b XOR 1 \<in> fv then Inl ErrFeaturePairExists else Inr (insert b fv))"

definition Unset :: "feature_bit \<Rightarrow> raw_features \<Rightarrow> raw_features" where
  "Unset b fv = fv - {b}"

text \<open>On an error the receiver keeps the bits that were set before.\<close>

fun merge_bits :: "feature_bit list \<Rightarrow> raw_features \<Rightarrow> raw_features \<times> feature_error option" where
  "merge_bits [] fv = (fv, None)"
| "merge_bits (b # bs) fv = (case SafeSet b fv of Inl e \<Rightarrow> (fv, Some e) | Inr fv' \<Rightarrow> merge_bits bs fv')"

definition Merge_features :: "feature_bit list \<Rightarrow> raw_features \<Rightarrow> raw_features \<Rightarrow> raw_features \<times> feature_error option" where
  "Merge_features order other fv = merge_bits (visit order other) fv"

definition OnlyContains :: "feature_bit list \<Rightarrow> raw_features \<Rightarrow> bool" where
  "OnlyContains bits fv \<longleftrightarrow> length bits = card fv \<and> (\<forall>b \<in> set bits. b \<in> fv)"

definition ValidateUpdate ::
  "feature_bit list \<Rightarrow> raw_features \<Rightarrow> raw_features \<Rightarrow> feature_bit \<Rightarrow> feature_error option" where
  "ValidateUpdate order fv other maximumValue =
     (case filter (\<lambda>b. b \<notin> fv \<and> (b > maximumValue \<or> Features b \<noteq> None)) (visit order other) of
        b # _ \<Rightarrow> Some (if b > maximumValue then ErrFeatureBitMaximum b else ErrFeatureStandard b)
      | [] \<Rightarrow>
          (case filter (\<lambda>b. b \<notin> other \<and> Features b \<noteq> None) (visit order fv) of
             b # _ \<Rightarrow> Some (ErrFeatureStandard b)
           | [] \<Rightarrow> None))"

definition ValidatePairs :: "feature_bit list \<Rightarrow> raw_features \<Rightarrow> feature_error option" where
  "ValidatePairs order fv = (if \<exists>b \<in> set (visit order fv). b XOR 1 \<in> fv then Some ErrFeaturePairExists else None)"

section \<open>Encoding\<close>

text \<open>The number of bytes for \<open>width\<close> bits in a byte; the maximum starts at -1.\<close>

definition serializeSize :: "feature_bit list \<Rightarrow> nat \<Rightarrow> raw_features \<Rightarrow> nat" where
  "serializeSize order width fv =
     (let mx = foldl (\<lambda>mx b. if int (unat b) > mx then int (unat b) else mx) (-1) (visit order fv)
      in if mx = -1 then 0 else nat mx div width + 1)"

definition encode_features :: "feature_bit list \<Rightarrow> nat \<Rightarrow> nat \<Rightarrow> raw_features \<Rightarrow> byte list" where
  "encode_features order len width fv =
     foldl (\<lambda>data b.
         let i = len - unat b div width - 1
         in data[i := data ! i OR push_bit (unat b mod width) 1])
       (replicate len 0) (visit order fv)"

definition put_uint16 :: "u16 \<Rightarrow> byte list" where
  "put_uint16 x = [ucast (drop_bit 8 x), ucast x]"

definition get_uint16 :: "byte list \<Rightarrow> u16" where
  "get_uint16 bs = push_bit 8 (ucast (bs ! 0)) OR ucast (bs ! 1)"

definition Encode :: "feature_bit list \<Rightarrow> raw_features \<Rightarrow> byte list" where
  "Encode order fv =
     (let len = serializeSize order 8 fv in put_uint16 (of_nat len) @ encode_features order len 8 fv)"

definition EncodeBase256 :: "feature_bit list \<Rightarrow> raw_features \<Rightarrow> byte list" where
  "EncodeBase256 order fv = encode_features order (serializeSize order 8 fv) 8 fv"

definition EncodeBase32 :: "feature_bit list \<Rightarrow> raw_features \<Rightarrow> byte list" where
  "EncodeBase32 order fv = encode_features order (serializeSize order 5 fv) 5 fv"

text \<open>The receiver, what is read, and the rest of the input.\<close>

definition decode_features :: "nat \<Rightarrow> nat \<Rightarrow> byte list \<Rightarrow> raw_features \<Rightarrow> feature_error + raw_features \<times> byte list" where
  "decode_features len width input fv =
     (if length input < len then Inl UnexpectedEOF
      else
        let data = take len input
        in Inr (foldl (\<lambda>fv i. if drop_bit (i mod width) (data ! (len - i div width - 1)) AND 1 = 1
                              then insert (of_nat i) fv else fv) fv [0..<len * width],
                drop len input))"

definition Decode :: "byte list \<Rightarrow> raw_features \<Rightarrow> feature_error + raw_features \<times> byte list" where
  "Decode input fv =
     (if length input < 2 then Inl UnexpectedEOF
      else decode_features (unat (get_uint16 input)) 8 (drop 2 input) fv)"

definition DecodeBase256 :: "nat \<Rightarrow> byte list \<Rightarrow> raw_features \<Rightarrow> feature_error + raw_features \<times> byte list" where
  "DecodeBase256 len input fv = decode_features len 8 input fv"

definition DecodeBase32 :: "nat \<Rightarrow> byte list \<Rightarrow> raw_features \<Rightarrow> feature_error + raw_features \<times> byte list" where
  "DecodeBase32 len input fv = decode_features len 5 input fv"

section \<open>Feature vectors\<close>

record feature_vector =
  fv_features :: raw_features
  fv_names :: "feature_bit \<rightharpoonup> string"

definition isFeatureBitPair :: "feature_vector \<Rightarrow> feature_bit \<Rightarrow> bool" where
  "isFeatureBitPair fv b =
     (case (fv_names fv b, fv_names fv (b XOR 1)) of (Some m, Some n) \<Rightarrow> m = n | _ \<Rightarrow> False)"

definition HasFeature :: "feature_vector \<Rightarrow> feature_bit \<Rightarrow> bool" where
  "HasFeature fv b \<longleftrightarrow> b \<in> fv_features fv \<or> isFeatureBitPair fv b \<and> b XOR 1 \<in> fv_features fv"

definition RequiresFeature :: "feature_vector \<Rightarrow> feature_bit \<Rightarrow> bool" where
  "RequiresFeature fv b \<longleftrightarrow> (if IsRequired b then b else b XOR 1) \<in> fv_features fv"

definition IsKnown :: "feature_vector \<Rightarrow> feature_bit \<Rightarrow> bool" where
  "IsKnown fv b \<longleftrightarrow> fv_names fv b \<noteq> None"

definition UnknownRequiredFeatures :: "feature_bit list \<Rightarrow> feature_vector \<Rightarrow> feature_bit list" where
  "UnknownRequiredFeatures order fv = filter (\<lambda>b. b mod 2 = 0 \<and> \<not> IsKnown fv b) (visit order (fv_features fv))"

definition UnknownFeatures :: "feature_bit list \<Rightarrow> feature_vector \<Rightarrow> bool" where
  "UnknownFeatures order fv \<longleftrightarrow> (\<exists>b \<in> set (visit order (fv_features fv)). \<not> IsKnown fv b)"

definition ValidateRequired :: "feature_bit list \<Rightarrow> feature_vector \<Rightarrow> feature_error option" where
  "ValidateRequired order fv =
     (let unknown = UnknownRequiredFeatures order fv
      in if unknown \<noteq> [] then Some (ErrUnknownRequired unknown) else None)"

section \<open>Dependencies\<close>

definition depTable :: "(feature_bit \<times> feature_bit list) list" where
  "depTable =
     [(PaymentAddrOptional, [TLVOnionPayloadOptional]),
      (MPPOptional, [PaymentAddrOptional]),
      (AnchorsOptional, [StaticRemoteKeyOptional]),
      (AnchorsZeroFeeHtlcTxOptional, [StaticRemoteKeyOptional]),
      (AMPOptional, [PaymentAddrOptional]),
      (ExplicitChannelTypeOptional, []),
      (ScriptEnforcedLeaseOptional, [ExplicitChannelTypeOptional, AnchorsZeroFeeHtlcTxOptional]),
      (KeysendOptional, [TLVOnionPayloadOptional]),
      (ZeroConfOptional, [ScidAliasOptional]),
      (SimpleTaprootChannelsOptionalStaging, [AnchorsZeroFeeHtlcTxOptional, ExplicitChannelTypeOptional]),
      (SimpleTaprootOverlayChansOptional,
         [SimpleTaprootChannelsOptionalStaging, TLVOnionPayloadOptional, ScidAliasOptional]),
      (RouteBlindingOptional, [TLVOnionPayloadOptional]),
      (Bolt11BlindedPathsOptional, [RouteBlindingOptional])]"

definition deps :: "feature_bit \<Rightarrow> feature_bit set" where
  "deps b = (case map_of depTable b of None \<Rightarrow> {} | Some ds \<Rightarrow> set ds)"

definition mapToOptional :: "feature_bit \<Rightarrow> feature_bit" where
  "mapToOptional b = (if IsRequired b then b XOR 1 else b)"

definition mapToRequired :: "feature_bit \<Rightarrow> feature_bit" where
  "mapToRequired b = (if IsRequired b then b else b XOR 1)"

definition initSupported :: "feature_bit list \<Rightarrow> raw_features \<Rightarrow> (feature_bit \<rightharpoonup> bool)" where
  "initSupported order features = foldl (\<lambda>m b. m(mapToOptional b \<mapsto> False)) Map.empty (visit order features)"

text \<open>
  The dependencies have no cycle: a feature ranks above what it depends on. The weight of a feature bounds
  the work below it, for any order of visiting the dependencies.
\<close>

definition rankTable :: "(feature_bit \<times> nat) list" where
  "rankTable =
     [(PaymentAddrOptional, 1), (MPPOptional, 2), (AnchorsOptional, 1), (AnchorsZeroFeeHtlcTxOptional, 1), (AMPOptional, 2),
      (ScriptEnforcedLeaseOptional, 2), (KeysendOptional, 1), (ZeroConfOptional, 1),
      (SimpleTaprootChannelsOptionalStaging, 2), (SimpleTaprootOverlayChansOptional, 3), (RouteBlindingOptional, 1),
      (Bolt11BlindedPathsOptional, 2)]"

definition rank :: "feature_bit \<Rightarrow> nat" where
  "rank b = (case map_of rankTable b of None \<Rightarrow> 0 | Some n \<Rightarrow> n)"

definition weight :: "feature_bit list \<Rightarrow> feature_bit \<Rightarrow> nat" where
  "weight order b = (length order + 2) ^ rank (mapToOptional b)"

lemma weight_pos [simp]: "0 < weight order b"
  by (simp add: weight_def)

lemma depTable_facts:
  "list_all (\<lambda>(b, ds). list_all (\<lambda>d. \<not> IsRequired d \<and> rank d < rank b) ds) depTable"
  "list_all (\<lambda>(b, ds). \<not> IsRequired b) depTable"
  by code_simp+

lemma in_deps: "d \<in> deps b \<Longrightarrow> \<exists>ds. (b, ds) \<in> set depTable \<and> d \<in> set ds"
  by (auto simp: deps_def dest: map_of_SomeD split: option.splits)

lemma deps_facts:
  assumes "d \<in> deps b"
  shows "\<not> IsRequired d" "mapToOptional d = d" "rank d < rank b" "\<not> IsRequired b"
  using in_deps [OF assms] depTable_facts by (auto simp: mapToOptional_def list_all_iff)

lemma visit_set [simp]: "set (visit order s) = set order \<inter> s"
  by (auto simp: visit_def)

lemma IsRequired_even: "IsRequired b \<longleftrightarrow> even b"
  by (simp add: IsRequired_def and_one_eq even_iff_mod_2_eq_zero)

lemma IsRequired_xor [simp]: "IsRequired (b XOR 1) \<longleftrightarrow> \<not> IsRequired b"
  by (simp add: IsRequired_even even_xor_iff)

lemma xor_xor [simp]: "((b :: feature_bit) XOR 1) XOR 1 = b"
  by (simp add: xor.assoc)

lemma xor_one_neq [simp]: "(b :: feature_bit) XOR 1 \<noteq> b" "b \<noteq> b XOR 1"
  using IsRequired_xor by metis+

lemma mapTo_facts [simp]:
  "\<not> IsRequired (mapToOptional b)" "mapToOptional (mapToOptional b) = mapToOptional b"
  "IsRequired (mapToRequired b)" "mapToOptional (mapToRequired b) = mapToOptional b" "mapToOptional (b XOR 1) = mapToOptional b"
  by (auto simp: mapToOptional_def mapToRequired_def)

lemma rank_deps_opt: "d \<in> deps b \<Longrightarrow> mapToOptional b = b"
  using deps_facts by (simp add: mapToOptional_def)

lemma weight_required [simp]: "weight order (mapToRequired b) = weight order b"
  by (simp add: weight_def)

lemma deps_weight:
  "(\<Sum>d \<leftarrow> visit order (deps (mapToOptional b)). weight order d) < weight order b"
proof (cases "deps (mapToOptional b) = {}")
  case True
  then show ?thesis by (simp add: visit_def)
next
  case False
  let ?r = "rank (mapToOptional b)"
  have small: "weight order d \<le> (length order + 2) ^ (?r - 1)" "0 < ?r" if "d \<in> deps (mapToOptional b)" for d
    using deps_facts [OF that] by (auto simp: weight_def intro: power_increasing)
  then have r: "0 < ?r"
    using False by blast
  have "(\<Sum>d \<leftarrow> visit order (deps (mapToOptional b)). weight order d) \<le>
      (\<Sum>d \<leftarrow> visit order (deps (mapToOptional b)). (length order + 2) ^ (?r - 1))"
    using small(1) by (intro sum_list_mono) auto
  also have "\<dots> = length (visit order (deps (mapToOptional b))) * (length order + 2) ^ (?r - 1)"
    by (simp add: sum_list_triv)
  also have "\<dots> \<le> length order * (length order + 2) ^ (?r - 1)"
    by (simp add: visit_def)
  also have "\<dots> < (length order + 2) * (length order + 2) ^ (?r - 1)"
    by simp
  also have "\<dots> = weight order b"
    using r by (simp add: weight_def power_eq_if)
  finally show ?thesis .
qed

text \<open>\<open>None\<close> if all is well, or the missing dependency; and what has been checked.\<close>

function validateDeps ::
  "feature_bit list \<Rightarrow> feature_bit list \<Rightarrow> (feature_bit \<rightharpoonup> bool) \<Rightarrow> feature_bit option \<times> (feature_bit \<rightharpoonup> bool)" where
  "validateDeps order [] supported = (None, supported)"
| "validateDeps order (b # bs) supported =
     (case supported (mapToOptional b) of
        None \<Rightarrow> (Some (mapToOptional b), supported)
      | Some True \<Rightarrow> validateDeps order bs supported
      | Some False \<Rightarrow>
          (case validateDeps order (visit order (deps (mapToOptional b))) supported of
             (Some e, supported1) \<Rightarrow> (Some e, supported1)
           | (None, supported1) \<Rightarrow> validateDeps order bs (supported1(mapToOptional b \<mapsto> True))))"
  by pat_completeness auto
termination
  by (relation "measure (\<lambda>(order, bs, _). \<Sum>b \<leftarrow> bs. weight order b)") (simp_all add: deps_weight trans_less_add1)

definition ValidateDeps :: "feature_bit list \<Rightarrow> feature_vector \<Rightarrow> feature_error option" where
  "ValidateDeps order fv =
     map_option ErrMissingFeatureDep
       (fst (validateDeps order (visit order (fv_features fv)) (initSupported order (fv_features fv))))"

text \<open>\<open>SetBit\<close>, and its two loops over the dependencies.\<close>

function SetBit :: "feature_bit list \<Rightarrow> feature_bit \<Rightarrow> raw_features \<Rightarrow> raw_features"
  and setDeps :: "feature_bit list \<Rightarrow> bool \<Rightarrow> feature_bit list \<Rightarrow> raw_features \<Rightarrow> raw_features" where
  "SetBit order b fv =
     (let optBit = mapToOptional b; ds = visit order (deps optBit)
      in if \<not> IsRequired b
         then setDeps order False ds (case SafeSet b fv of Inl _ \<Rightarrow> fv | Inr fv' \<Rightarrow> fv')
         else setDeps order True ds (insert b (Unset optBit fv)))"
| "setDeps order required [] fv = fv"
| "setDeps order required (d # ds) fv =
     setDeps order required ds
       (if required then SetBit order (mapToRequired d) (Unset d fv) else SetBit order d fv)"
  by pat_completeness auto
termination
proof (relation "measure (\<lambda>x. case x of
      Inl (order, b, _) \<Rightarrow> 2 * weight order b - 1
    | Inr (order, _, ds, _) \<Rightarrow> \<Sum>d \<leftarrow> ds. 2 * weight order d)", goal_cases)
  case 1
  then show ?case by simp
next
  case (2 order b fv optBit ds)
  then show ?case
    using deps_weight [of order b] by (simp add: sum_list_const_mult)
next
  case (3 order b fv optBit ds)
  then show ?case
    using deps_weight [of order b] by (simp add: sum_list_const_mult)
qed (simp_all add: trans_less_add1)

section \<open>What the dependencies guarantee\<close>

text \<open>A feature and everything below it.\<close>

definition depRel :: "(feature_bit \<times> feature_bit) set" where
  "depRel = {(b, d). d \<in> deps b}"

definition below :: "feature_bit \<Rightarrow> feature_bit set" where
  "below b = depRel\<^sup>* `` {b}"

lemma below_unfold: "below b = insert b (\<Union>d \<in> deps b. below d)"
  by (auto simp: below_def depRel_def elim: converse_rtranclE intro: converse_rtrancl_into_rtrancl)

lemma below_self [simp]: "b \<in> below b"
  by (simp add: below_def)

lemma below_dep: "d \<in> deps b \<Longrightarrow> below d \<subseteq> below b"
  by (subst (2) below_unfold) auto

lemma below_trans: "c \<in> below b \<Longrightarrow> below c \<subseteq> below b"
  by (auto simp: below_def)

lemma below_optional: "y \<in> below b \<Longrightarrow> \<not> IsRequired b \<Longrightarrow> \<not> IsRequired y"
  unfolding below_def by (auto elim: rtranclE simp: depRel_def deps_facts(1))

definition deps_covered :: "feature_bit list \<Rightarrow> bool" where
  "deps_covered order \<longleftrightarrow> (\<forall>b. deps b \<subseteq> set order)"

text \<open>The executable form of this assumption.\<close>

lemma deps_coveredI: "list_all (\<lambda>(b, ds). list_all (\<lambda>d. d \<in> set order) ds) depTable \<Longrightarrow> deps_covered order"
  using in_deps by (fastforce simp: deps_covered_def list_all_iff)

definition checked_ok :: "(feature_bit \<rightharpoonup> bool) \<Rightarrow> bool" where
  "checked_ok s \<longleftrightarrow> (\<forall>x. s x = Some True \<longrightarrow> below x \<subseteq> dom s)"

lemma validateDeps_correct:
  assumes "validateDeps order bs s = (r, s')" "deps_covered order" "checked_ok s"
  shows "dom s' = dom s \<and> checked_ok s' \<and> (r = None \<longleftrightarrow> (\<forall>b \<in> set bs. below (mapToOptional b) \<subseteq> dom s))"
  using assms
proof (induction order bs s arbitrary: r s' rule: validateDeps.induct)
  case (1 order s)
  then show ?case by simp
next
  case (2 order b bs s)
  let ?b = "mapToOptional b" let ?ds = "visit order (deps ?b)"
  show ?case
  proof (cases "s ?b")
    case None
    then have "r = Some ?b" "s' = s" "?b \<notin> dom s"
      using 2(4) by auto
    moreover from this(3) have "\<not> below ?b \<subseteq> dom s"
      using below_self by blast
    ultimately show ?thesis using 2(6) by auto
  next
    case (Some checked)
    show ?thesis
    proof (cases checked)
      case True
      then have "validateDeps order bs s = (r, s')" "below ?b \<subseteq> dom s"
        using 2(4,6) Some by (auto simp: checked_ok_def)
      then show ?thesis
        using "2.IH"(1) [OF Some] True 2(5,6) by simp
    next
      case False
      obtain r1 s1 where run1: "validateDeps order ?ds s = (r1, s1)"
        by (cases "validateDeps order ?ds s")
      have ds: "set ?ds = deps ?b"
        using 2(5) by (auto simp: deps_covered_def)
      have opt: "mapToOptional d = d" if "d \<in> deps ?b" for d
        using deps_facts(2) [OF that] .
      have IH1: "dom s1 = dom s" "checked_ok s1" "r1 = None \<longleftrightarrow> (\<forall>d \<in> deps ?b. below d \<subseteq> dom s)"
        using "2.IH"(2) [OF Some _ run1 2(5,6)] False ds opt by auto
      have b: "below ?b \<subseteq> dom s \<longleftrightarrow> r1 = None"
        using IH1(3) Some by (subst below_unfold) auto
      show ?thesis
      proof (cases r1)
        case None
        define s2 where "s2 = s1(?b \<mapsto> True)"
        have s2: "dom s2 = dom s" "checked_ok s2"
          using IH1(1,2) b None Some by (auto simp: checked_ok_def s2_def)
        have "validateDeps order bs s2 = (r, s')"
          using 2(4) Some False run1 None by (simp add: s2_def)
        from "2.IH"(3) [OF Some _ run1 [symmetric] None this [unfolded s2_def] 2(5) s2(2) [unfolded s2_def]] False
        show ?thesis
          unfolding s2_def [symmetric] s2(1) using b None by simp
      next
        case (Some e)
        then have "r = Some e" "s' = s1"
          using 2(4) \<open>s ?b = Some checked\<close> False run1 by simp_all
        then show ?thesis using IH1 b Some by auto
      qed
    qed
  qed
qed

lemma initSupported_facts:
  "dom (initSupported order F) = mapToOptional ` (set order \<inter> F)" "initSupported order F b \<noteq> Some True"
proof -
  have "dom (foldl (\<lambda>m b. m(mapToOptional b \<mapsto> False)) m bs) = dom m \<union> mapToOptional ` set bs" for m bs
    by (induction bs arbitrary: m) auto
  then show "dom (initSupported order F) = mapToOptional ` (set order \<inter> F)"
    by (simp add: initSupported_def)
  have "m b \<noteq> Some True \<Longrightarrow> foldl (\<lambda>m b. m(mapToOptional b \<mapsto> False)) m bs b \<noteq> Some True" for m bs
    by (induction bs arbitrary: m) auto
  then show "initSupported order F b \<noteq> Some True"
    by (simp add: initSupported_def)
qed

text \<open>A set of features is closed when, up to optional or required, it has all that its members depend on.\<close>

definition closed :: "raw_features \<Rightarrow> bool" where
  "closed F \<longleftrightarrow> (\<forall>b \<in> F. below (mapToOptional b) \<subseteq> mapToOptional ` F)"

lemma ValidateDeps_closed:
  assumes "fv_features fv \<subseteq> set order" "deps_covered order"
  shows "ValidateDeps order fv = None \<longleftrightarrow> closed (fv_features fv)"
proof -
  let ?F = "fv_features fv"
  obtain r s where run: "validateDeps order (visit order ?F) (initSupported order ?F) = (r, s)"
    by (cases "validateDeps order (visit order ?F) (initSupported order ?F)")
  have F: "set order \<inter> ?F = ?F" using assms(1) by auto
  from validateDeps_correct [OF run assms(2)] show ?thesis
    by (simp add: ValidateDeps_def run closed_def initSupported_facts checked_ok_def F)
qed

text \<open>What \<open>SetBit\<close> sets.\<close>

definition paired :: "raw_features \<Rightarrow> bool" where
  "paired F \<longleftrightarrow> (\<exists>b \<in> F. b XOR 1 \<in> F)"

lemma ValidatePairs_paired: "F \<subseteq> set order \<Longrightarrow> ValidatePairs order F = None \<longleftrightarrow> \<not> paired F"
  by (auto simp: ValidatePairs_def paired_def)

lemma opt_eq: "mapToOptional x = mapToOptional y \<Longrightarrow> x = y \<or> x = y XOR 1"
  by (auto simp: mapToOptional_def split: if_splits) (metis xor_xor)+

lemma in_opt: "mapToOptional x \<in> mapToOptional ` F \<longleftrightarrow> x \<in> F \<or> x XOR 1 \<in> F"
proof
  assume "mapToOptional x \<in> mapToOptional ` F"
  then obtain z where "z \<in> F" "mapToOptional x = mapToOptional z" by blast
  then show "x \<in> F \<or> x XOR 1 \<in> F" using opt_eq [of x z] by auto
next
  assume "x \<in> F \<or> x XOR 1 \<in> F"
  then show "mapToOptional x \<in> mapToOptional ` F"
    using imageI [of x F mapToOptional] imageI [of "x XOR 1" F mapToOptional] by auto
qed

lemma opt_Unset: "mapToOptional ` (F - {x}) \<union> {mapToOptional x} = mapToOptional ` F \<union> {mapToOptional x}"
  by auto

lemma SafeSet_facts:
  fixes F b defines "F' \<equiv> case SafeSet b F of Inl _ \<Rightarrow> F | Inr F' \<Rightarrow> F'"
  shows "mapToOptional ` F' = mapToOptional ` F \<union> {mapToOptional b}" "\<not> paired F \<Longrightarrow> \<not> paired F'" "F \<subseteq> F'"
proof -
  show "mapToOptional ` F' = mapToOptional ` F \<union> {mapToOptional b}"
    using imageI [of "b XOR 1" F mapToOptional] by (auto simp: F'_def SafeSet_def)
  show "\<not> paired F \<Longrightarrow> \<not> paired F'"
    by (auto simp: F'_def SafeSet_def paired_def)
  show "F \<subseteq> F'"
    by (auto simp: F'_def SafeSet_def)
qed

lemma SetBit_setDeps:
  "deps_covered order \<Longrightarrow>
     mapToOptional ` SetBit order b F = mapToOptional ` F \<union> below (mapToOptional b) \<and>
     (\<not> paired F \<longrightarrow> \<not> paired (SetBit order b F)) \<and>
     {x \<in> F. IsRequired x} \<subseteq> SetBit order b F \<and>
     (IsRequired b \<longrightarrow> mapToRequired ` below (mapToOptional b) \<subseteq> SetBit order b F)"
  "deps_covered order \<Longrightarrow> \<forall>d \<in> set ds. \<not> IsRequired d \<Longrightarrow>
     mapToOptional ` setDeps order req ds F = mapToOptional ` F \<union> (\<Union>d \<in> set ds. below d) \<and>
     (\<not> paired F \<longrightarrow> \<not> paired (setDeps order req ds F)) \<and>
     {x \<in> F. IsRequired x} \<subseteq> setDeps order req ds F \<and>
     (req \<longrightarrow> mapToRequired ` (\<Union>d \<in> set ds. below d) \<subseteq> setDeps order req ds F)"
proof (induction order b F and order req ds F rule: SetBit_setDeps.induct)
  case (1 order b F)
  let ?o = "mapToOptional b" let ?ds = "visit order (deps ?o)"
  have ds: "set ?ds = deps ?o" "\<forall>d \<in> set ?ds. \<not> IsRequired d"
    using 1(3) by (auto simp: deps_covered_def deps_facts(1))
  have bel: "below ?o = insert ?o (\<Union>d \<in> deps ?o. below d)"
    by (rule below_unfold)
  show ?case
  proof (cases "IsRequired b")
    case False
    note IH = "1.IH"(1) [OF refl refl False 1(3) ds(2)]
    note S = SafeSet_facts [of F b]
    have "SetBit order b F = setDeps order False ?ds (case SafeSet b F of Inl _ \<Rightarrow> F | Inr F' \<Rightarrow> F')"
      using False by (simp add: Let_def)
    then show ?thesis
      using IH S False by (simp only: ds(1) bel) auto
  next
    case True
    let ?F = "insert b (Unset ?o F)"
    have b: "?o = b XOR 1" "mapToRequired ?o = b"
      using True by (auto simp: mapToOptional_def mapToRequired_def)
    note IH = "1.IH"(2) [OF refl refl _ 1(3) ds(2)]
    have run: "SetBit order b F = setDeps order True ?ds ?F"
      using True by (simp add: Let_def)
    have img: "mapToOptional ` ?F = mapToOptional ` F \<union> {?o}"
      by (auto simp: Unset_def)
    have pair: "\<not> paired F \<Longrightarrow> \<not> paired ?F"
      by (auto simp: paired_def Unset_def b)
    have req: "{x \<in> F. IsRequired x} \<subseteq> {x \<in> ?F. IsRequired x}" "b \<in> {x \<in> ?F. IsRequired x}"
      using True by (auto simp: Unset_def)
    show ?thesis
      using IH img pair req True by (simp only: run ds(1) bel) (auto simp: b(2))
  qed
next
  case (2 order req F)
  then show ?case by simp
next
  case (3 order req d ds F)
  let ?F = "if req then SetBit order (mapToRequired d) (Unset d F) else SetBit order d F"
  have d: "mapToOptional d = d" "\<not> IsRequired d"
    using 3(5) by (auto simp: mapToOptional_def)
  have F: "mapToOptional ` ?F = mapToOptional ` F \<union> below d" "\<not> paired F \<longrightarrow> \<not> paired ?F"
     "{x \<in> F. IsRequired x} \<subseteq> ?F" "req \<longrightarrow> mapToRequired ` below d \<subseteq> ?F"
  proof -
    show "mapToOptional ` ?F = mapToOptional ` F \<union> below d"
      using 3(1,2) [OF _ 3(4)] opt_Unset [of F d] below_self [of d] by (auto simp: d Unset_def)
    show "\<not> paired F \<longrightarrow> \<not> paired ?F"
      using 3(1,2) [OF _ 3(4)] by (auto simp: paired_def Unset_def)
    show "{x \<in> F. IsRequired x} \<subseteq> ?F"
      using 3(1,2) [OF _ 3(4)] d(2) by (auto simp: Unset_def)
    show "req \<longrightarrow> mapToRequired ` below d \<subseteq> ?F"
      using 3(1) [OF _ 3(4)] by (simp add: d)
  qed
  have "\<forall>d \<in> set ds. \<not> IsRequired d"
    using 3(5) by simp
  note IH = 3(3) [OF 3(4) this]
  define G where "G = ?F"
  define R where "R = setDeps order req ds G"
  define B where "B = (\<Union>e \<in> set ds. below e)"
  have run: "setDeps order req (d # ds) F = R" "(\<Union>e \<in> set (d # ds). below e) = below d \<union> B"
    by (simp_all add: R_def G_def B_def)
  have G: "{x \<in> F. IsRequired x} \<subseteq> {x \<in> G. IsRequired x}" "req \<longrightarrow> mapToRequired ` below d \<subseteq> {x \<in> G. IsRequired x}"
     "mapToOptional ` G = mapToOptional ` F \<union> below d" "\<not> paired F \<longrightarrow> \<not> paired G"
    using F by (auto simp: G_def simp del: SetBit.simps)
  have R: "mapToOptional ` R = mapToOptional ` G \<union> B" "\<not> paired G \<longrightarrow> \<not> paired R" "{x \<in> G. IsRequired x} \<subseteq> R"
     "req \<longrightarrow> mapToRequired ` B \<subseteq> R"
    using IH [folded G_def, folded R_def B_def] by blast+
  show ?case
    unfolding run
  proof (intro conjI impI)
    show "mapToOptional ` R = mapToOptional ` F \<union> (below d \<union> B)"
      using R(1) G(3) by (simp only: Un_assoc)
    show "\<not> paired R" if "\<not> paired F" by (rule mp [OF R(2) mp [OF G(4) that]])
    show "{x \<in> F. IsRequired x} \<subseteq> R" using G(1) R(3) by (rule order_trans)
    show "mapToRequired ` (below d \<union> B) \<subseteq> R" if req
      unfolding image_Un by (intro Un_least order_trans [OF mp [OF G(2) that] R(3)] mp [OF R(4) that])
  qed
qed

section \<open>Encoding and decoding\<close>

lemma bit_test: "drop_bit k (x :: byte) AND 1 = 1 \<longleftrightarrow> bit x k"
  by (simp add: and_one_eq bit_iff_odd_drop_bit odd_iff_mod_2_eq_one)

lemma unat_feature [simp]: "unat (b :: feature_bit) < 65536"
  using unsigned_less [of b] by simp

lemma uint_feature [simp]: "uint (b :: feature_bit) < 65536"
  using unat_feature [of b] by (simp only: unat_eq_nat_uint nat_less_iff uint_ge_0)

lemma bit_mask: "k < 8 \<Longrightarrow> bit (push_bit n 1 :: byte) k \<longleftrightarrow> n = k"
  unfolding bit_push_bit_iff by (auto simp: bit_1_iff)

lemma serialize_loop:
  fixes mx :: int and bs
  assumes "- 1 \<le> mx" "mx < 65536"
  defines "r \<equiv> foldl (\<lambda>mx b. if int (unat (b :: feature_bit)) > mx then int (unat b) else mx) mx bs"
  shows "mx \<le> r \<and> r < 65536 \<and> (\<forall>b \<in> set bs. int (unat b) \<le> r)"
  unfolding r_def using assms(1,2)
proof (induction bs arbitrary: mx)
  case (Cons b bs)
  have "unat b < 65536"
    by simp
  then show ?case
    using Cons(1) [of "max mx (int (unat b))"] Cons(2,3) by (auto simp: max_def split: if_splits)
qed simp

lemma serializeSize_bounds:
  assumes "0 < w"
  shows "serializeSize order w F \<le> 65535 div w + 1" "b \<in> set order \<Longrightarrow> b \<in> F \<Longrightarrow> unat b div w < serializeSize order w F"
proof -
  define mx where "mx = foldl (\<lambda>mx b. if int (unat (b :: feature_bit)) > mx then int (unat b) else mx) (-1) (visit order F)"
  have mx: "- 1 \<le> mx" "mx < 65536" "\<forall>b \<in> set (visit order F). int (unat b) \<le> mx"
    using serialize_loop [of "-1" "visit order F"] by (simp_all add: mx_def)
  have size: "serializeSize order w F = (if mx = -1 then 0 else nat mx div w + 1)"
    by (simp add: serializeSize_def mx_def Let_def)
  have "nat mx \<le> 65535"
    using mx(2) by linarith
  then show "serializeSize order w F \<le> 65535 div w + 1"
    unfolding size by (auto intro: div_le_mono)
  show "unat b div w < serializeSize order w F" if "b \<in> set order" "b \<in> F"
  proof -
    have "int (unat b) \<le> mx"
      using that mx(3) by (simp only: visit_set) blast
    then have "unat b \<le> nat mx" "mx \<noteq> -1"
      by linarith+
    then show ?thesis
      unfolding size using div_le_mono [of "unat b" "nat mx" w] by simp
  qed
qed

lemma encode_loop:
  fixes data :: "byte list" and w
  assumes "0 < w" "w \<le> 8" "\<forall>b \<in> set bs. unat b div w < length data" "i < length data" "k < w"
  defines "f \<equiv> \<lambda>len data b. (data :: byte list)[len - unat (b :: feature_bit) div w - 1 :=
             data ! (len - unat b div w - 1) OR push_bit (unat b mod w) 1]"
  shows "length (foldl (f (length data)) data bs) = length data"
    "bit (foldl (f (length data)) data bs ! i) k \<longleftrightarrow>
       bit (data ! i) k \<or> (\<exists>b \<in> set bs. length data - unat b div w - 1 = i \<and> unat b mod w = k)"
proof -
  have "length (foldl (f len) data bs) = length data \<and>
      (bit (foldl (f len) data bs ! i) k \<longleftrightarrow>
        bit (data ! i) k \<or> (\<exists>b \<in> set bs. len - unat b div w - 1 = i \<and> unat b mod w = k))"
    if "len = length data" for len
    using that assms(3,4)
  proof (induction bs arbitrary: data)
    case (Cons b bs)
    have k: "k < 8" using assms(2,5) by simp
    have "bit (f len data b ! i) k \<longleftrightarrow> bit (data ! i) k \<or> len - unat b div w - 1 = i \<and> unat b mod w = k"
      using Cons(3,4) by (cases "len - unat b div w - 1 = i")
        (simp_all add: f_def bit_or_iff bit_mask [OF k] del: push_bit_of_1 Cons)
    moreover have "length (f len data b) = length data"
      by (simp add: f_def)
    ultimately show ?case
      using Cons(1) [of "f len data b"] Cons(2-4) by auto
  qed simp
  then show "length (foldl (f (length data)) data bs) = length data"
    "bit (foldl (f (length data)) data bs ! i) k \<longleftrightarrow>
       bit (data ! i) k \<or> (\<exists>b \<in> set bs. length data - unat b div w - 1 = i \<and> unat b mod w = k)"
    by blast+
qed

lemma encode_bits:
  assumes w: "0 < w" "w \<le> 8" and F: "F \<subseteq> set order" and len: "len = serializeSize order w F" "i < len * w"
  shows "bit (encode_features order len w F ! (len - i div w - 1)) (i mod w) \<longleftrightarrow> (\<exists>b \<in> F. unat b = i)"
proof -
  have div: "i div w < len"
    using len(2) by (simp add: less_mult_imp_div_less)
  have small: "\<forall>b \<in> set (visit order F). unat b div w < length (replicate len (0 :: byte))"
    using serializeSize_bounds(2) [OF w(1)] len(1) by auto
  have eq: "len - unat b div w - 1 = len - i div w - 1 \<and> unat b mod w = i mod w \<longleftrightarrow> unat b = i" if "b \<in> F" for b
  proof -
    have "unat b div w < len"
      using small that F by auto
    then have "len - unat b div w - 1 = len - i div w - 1 \<longleftrightarrow> unat b div w = i div w"
      using div by linarith
    moreover have "unat b div w = i div w \<and> unat b mod w = i mod w \<longleftrightarrow> unat b = i"
      by (metis div_mult_mod_eq)
    ultimately show ?thesis by blast
  qed
  have "bit (encode_features order len w F ! (len - i div w - 1)) (i mod w) \<longleftrightarrow>
      (\<exists>b \<in> set (visit order F). len - unat b div w - 1 = len - i div w - 1 \<and> unat b mod w = i mod w)"
    using encode_loop(2) [OF w small, of "len - i div w - 1" "i mod w"] div w(1)
    by (simp add: encode_features_def Let_def)
  also have "\<dots> \<longleftrightarrow> (\<exists>b \<in> F. unat b = i)"
    using eq F by auto
  finally show ?thesis .
qed

lemma decode_loop:
  "foldl (\<lambda>fv i. if P i then insert (f i) fv else fv) F is = F \<union> f ` {i \<in> set is. P i}"
  by (induction "is" arbitrary: F) auto

lemma length_encode [simp]: "length (encode_features order len w F) = len"
proof -
  have "length (foldl (\<lambda>data b. let i = n - unat (b :: feature_bit) div w - 1 in data[i := data ! i OR push_bit (unat b mod w) 1]) (data :: byte list) bs) = length data" for n data bs
    by (induction bs arbitrary: data) (simp_all add: Let_def)
  then show ?thesis by (simp add: encode_features_def)
qed

lemma decode_encode:
  assumes w: "0 < w" "w \<le> 8" and F: "F \<subseteq> set order" and len: "len = serializeSize order w F"
  shows "decode_features len w (encode_features order len w F @ rest) G = Inr (G \<union> F, rest)"
proof -
  have "(of_nat ` {i \<in> set [0..<len * w]. \<exists>b \<in> F. unat b = i} :: raw_features) = F"
  proof -
    have "unat b < len * w" if "b \<in> F" for b
      using serializeSize_bounds(2) [OF w(1), of b order F] that F len w(1) by (auto simp: div_less_iff_less_mult)
    then have "{i \<in> set [0..<len * w]. \<exists>b \<in> F. unat b = i} = unat ` F"
      by auto
    then show ?thesis by (simp add: image_image)
  qed
  moreover have "{i \<in> set [0..<len * w]. bit (encode_features order len w F ! (len - i div w - 1)) (i mod w)} =
      {i \<in> set [0..<len * w]. \<exists>b \<in> F. unat b = i}"
    using encode_bits [OF w F len] by auto
  ultimately show ?thesis
    by (simp add: decode_features_def bit_test decode_loop)
qed

lemma put_get_uint16: "get_uint16 (put_uint16 x @ ys) = x"
  by (rule bit_word_eqI) (auto simp: get_uint16_def put_uint16_def bit_simps)

text \<open>
  C29: A feature vector is read back from its encoding, whatever follows it: in byte form with its length
  in front (messages), in byte form with the length known (TLV records) and in base 32 (invoices); the
  order in which Go visits the features makes no difference.
\<close>
theorem features_roundtrip:
  assumes "F \<subseteq> set order"
  shows "Decode (Encode order F @ rest) {} = Inr (F, rest) \<and>
     DecodeBase256 (length (EncodeBase256 order F)) (EncodeBase256 order F @ rest) {} = Inr (F, rest) \<and>
     DecodeBase32 (length (EncodeBase32 order F)) (EncodeBase32 order F @ rest) {} = Inr (F, rest)"
proof -
  let ?n = "serializeSize order 8 F"
  have "?n \<le> 8192"
    using serializeSize_bounds(1) [of 8 order F] by simp
  then have "unat (of_nat ?n :: u16) = ?n"
    by (simp add: unat_of_nat)
  then show ?thesis
    using assms
    by (simp add: Decode_def Encode_def DecodeBase256_def EncodeBase256_def DecodeBase32_def EncodeBase32_def Let_def
        put_get_uint16 decode_encode put_uint16_def [THEN arg_cong [where f = length]] put_uint16_def [THEN arg_cong [where f = "drop 2"]])
qed

definition sampleBits :: "feature_bit list" where
  "sampleBits = [181, 8, 9, 12, 13, 14, 15, 16, 17, 23, 25, 30, 31, 45, 47]"

lemma sampleBits_covered: "deps_covered sampleBits"
  by (rule deps_coveredI) code_simp

lemma features_roundtrip_witness: "Decode (Encode sampleBits {8, 17, 181} @ [1, 2]) {} = Inr ({8, 17, 181}, [1, 2])"
  using features_roundtrip [of "{8, 17, 181}" sampleBits "[1, 2]"] by (simp add: sampleBits_def)

section \<open>Dependencies are transitive\<close>

text \<open>
  C28: \<open>ValidateDeps\<close> accepts a vector exactly if for every feature it has, optional or required, it also has,
  optional or required, everything the feature depends on directly or indirectly; the memoised recursion
  and the order of its loops make no difference.
\<close>
theorem validate_deps_transitive:
  assumes "fv_features fv \<subseteq> set order" "deps_covered order"
  shows "ValidateDeps order fv = None \<longleftrightarrow>
     (\<forall>b \<in> fv_features fv. \<forall>d. (mapToOptional b, d) \<in> depRel\<^sup>* \<longrightarrow> d \<in> fv_features fv \<or> d XOR 1 \<in> fv_features fv)"
proof -
  have "d \<in> mapToOptional ` fv_features fv \<longleftrightarrow> d \<in> fv_features fv \<or> d XOR 1 \<in> fv_features fv"
    if "d \<in> below (mapToOptional b)" for b d
    using below_optional [OF that] in_opt [of d "fv_features fv"] by (simp add: mapToOptional_def)
  then show ?thesis
    unfolding ValidateDeps_closed [OF assms] closed_def by (fastforce simp: below_def)
qed

lemma validate_deps_transitive_witness:
  "ValidateDeps sampleBits \<lparr>fv_features = {8, 17}, fv_names = Features\<rparr> = Some (ErrMissingFeatureDep 15) \<and>
   \<not> (\<forall>b \<in> {8, 17}. \<forall>d. (mapToOptional b, d) \<in> depRel\<^sup>* \<longrightarrow> d \<in> {8, 17} \<or> d XOR 1 \<in> {8, 17 :: feature_bit})"
proof -
  have v: "ValidateDeps sampleBits \<lparr>fv_features = {8, 17}, fv_names = Features\<rparr> = Some (ErrMissingFeatureDep 15)"
    by code_simp
  then show ?thesis
    using validate_deps_transitive [of "\<lparr>fv_features = {8, 17}, fv_names = Features\<rparr>" sampleBits] sampleBits_covered
    by (simp add: sampleBits_def)
qed

section \<open>Setting a feature with its dependencies\<close>

text \<open>
  \<open>SetBit\<close> turns a valid vector into a valid one that has the bit: all of its dependencies are set, as
  required when the bit is, no pair of bits is set together, no feature is lost or loses being required,
  and nothing else is set.
\<close>
theorem set_bit_completes:
  assumes "deps_covered order" "F \<subseteq> set order" "ValidateDeps order \<lparr>fv_features = F, fv_names = names\<rparr> = None"
    and "ValidatePairs order F = None" "F' = SetBit order b F" "F' \<subseteq> set order"
  shows "ValidateDeps order \<lparr>fv_features = F', fv_names = names\<rparr> = None \<and> ValidatePairs order F' = None \<and>
     (b \<in> F' \<or> \<not> IsRequired b \<and> b XOR 1 \<in> F') \<and>
     (\<forall>d. IsRequired b \<and> (mapToOptional b, d) \<in> depRel\<^sup>* \<longrightarrow> mapToRequired d \<in> F') \<and>
     (\<forall>x \<in> F. x \<in> F' \<or> \<not> IsRequired x \<and> x XOR 1 \<in> F') \<and>
     (\<forall>x \<in> F'. x \<in> F \<or> x XOR 1 \<in> F \<or> (mapToOptional b, mapToOptional x) \<in> depRel\<^sup>*)"
proof -
  have F': "mapToOptional ` F' = mapToOptional ` F \<union> below (mapToOptional b)" "\<not> paired F'"
     "{x \<in> F. IsRequired x} \<subseteq> F'" "IsRequired b \<longrightarrow> mapToRequired ` below (mapToOptional b) \<subseteq> F'"
    using SetBit_setDeps(1) [OF assms(1), of b F] assms(4) ValidatePairs_paired [OF assms(2)] by (simp_all add: assms(5))
  have "closed F"
    using ValidateDeps_closed [of "\<lparr>fv_features = F, fv_names = names\<rparr>" order] assms(1-3) by simp
  then have "closed F'"
    unfolding closed_def F'(1)
  proof (intro ballI)
    fix x assume F: "\<forall>b \<in> F. below (mapToOptional b) \<subseteq> mapToOptional ` F" and "x \<in> F'"
    then have "mapToOptional x \<in> mapToOptional ` F \<union> below (mapToOptional b)"
      using F'(1) by blast
    then show "below (mapToOptional x) \<subseteq> mapToOptional ` F \<union> below (mapToOptional b)"
    proof
      assume "mapToOptional x \<in> mapToOptional ` F"
      then obtain z where "z \<in> F" "mapToOptional x = mapToOptional z" by blast
      then show ?thesis using F by auto
    next
      assume "mapToOptional x \<in> below (mapToOptional b)"
      from below_trans [OF this] show ?thesis by (rule le_supI2)
    qed
  qed
  then have valid: "ValidateDeps order \<lparr>fv_features = F', fv_names = names\<rparr> = None"
    using ValidateDeps_closed [of "\<lparr>fv_features = F', fv_names = names\<rparr>" order] assms(1,6) by simp
  show ?thesis
  proof (intro conjI ballI allI impI)
    show "b \<in> F' \<or> \<not> IsRequired b \<and> b XOR 1 \<in> F'"
    proof (cases "IsRequired b")
      case True
      then have "mapToRequired (mapToOptional b) \<in> F'"
        using F'(4) below_self by blast
      then show ?thesis using True by (simp add: mapToOptional_def mapToRequired_def)
    next
      case False
      have "mapToOptional b \<in> mapToOptional ` F'"
        by (simp add: F'(1))
      then show ?thesis using False by (simp only: in_opt) simp
    qed
    show "mapToRequired d \<in> F'" if "IsRequired b \<and> (mapToOptional b, d) \<in> depRel\<^sup>*" for d
      using that F'(4) by (auto simp: below_def)
    show "x \<in> F' \<or> \<not> IsRequired x \<and> x XOR 1 \<in> F'" if "x \<in> F" for x
    proof -
      have "mapToOptional x \<in> mapToOptional ` F'"
        using that by (simp add: F'(1))
      then show ?thesis using that F'(3) by (auto simp only: in_opt mem_Collect_eq)
    qed
    show "x \<in> F \<or> x XOR 1 \<in> F \<or> (mapToOptional b, mapToOptional x) \<in> depRel\<^sup>*" if "x \<in> F'" for x
    proof -
      have "mapToOptional x \<in> mapToOptional ` F \<union> below (mapToOptional b)"
        using that F'(1) by blast
      then show ?thesis
        by (simp only: Un_iff in_opt) (simp add: below_def)
    qed
  qed (use valid F'(2) ValidatePairs_paired [OF assms(6)] in auto)
qed

lemma set_bit_completes_witness:
  "SetBit sampleBits 17 {8} = {8, 15, 17} \<and> ValidateDeps sampleBits \<lparr>fv_features = {8, 15, 17}, fv_names = Features\<rparr> = None"
proof -
  have f: "SetBit sampleBits 17 {8} = {8, 15, 17}" "ValidateDeps sampleBits \<lparr>fv_features = {8}, fv_names = Features\<rparr> = None"
      "ValidatePairs sampleBits {8} = None"
    by code_simp+
  show ?thesis
    using set_bit_completes [OF sampleBits_covered _ f(2,3) f(1) [symmetric]] f(1) by (simp add: sampleBits_def)
qed

end
