(* ===== verification/Feature_Manager.thy ===== *)
theory Feature_Manager
  imports Feature
begin

text \<open>
  The feature sets of the node: \<open>feature/set.go\<close>, \<open>feature/default_sets.go\<close> and \<open>feature/manager.go\<close>. The
  manager builds the sets from a descriptor and the configuration when the node starts, and applies
  updates at runtime. The sets it hands out are copies.
\<close>

section \<open>Feature sets\<close>

type_synonym set_key = u8

definition SetInit :: set_key where "SetInit = 0"
definition SetLegacyGlobal :: set_key where "SetLegacyGlobal = 1"
definition SetNodeAnn :: set_key where "SetNodeAnn = 2"
definition SetInvoice :: set_key where "SetInvoice = 3"
definition SetInvoiceAmp :: set_key where "SetInvoiceAmp = 4"
definition setSentinel :: set_key where "setSentinel = 5"

definition valid_set :: "set_key \<Rightarrow> bool" where
  "valid_set s \<longleftrightarrow> s < setSentinel"

definition Maximum :: "set_key \<Rightarrow> feature_bit" where
  "Maximum s = (if s = SetInvoice \<or> s = SetInvoiceAmp then MaxBolt11Feature else 65535)"

definition defaultSetDesc :: "(feature_bit \<times> set_key list) list" where
  "defaultSetDesc =
     [(DataLossProtectRequired, [SetInit, SetNodeAnn]),
      (GossipQueriesOptional, [SetInit, SetNodeAnn]),
      (TLVOnionPayloadRequired, [SetInit, SetNodeAnn, SetInvoice, SetInvoiceAmp, SetLegacyGlobal]),
      (StaticRemoteKeyRequired, [SetInit, SetNodeAnn, SetLegacyGlobal]),
      (UpfrontShutdownScriptOptional, [SetInit, SetNodeAnn]),
      (PaymentAddrRequired, [SetInit, SetNodeAnn, SetInvoice, SetInvoiceAmp]),
      (MPPOptional, [SetInit, SetNodeAnn, SetInvoice]),
      (AnchorsZeroFeeHtlcTxOptional, [SetInit, SetNodeAnn]),
      (WumboChannelsOptional, [SetInit, SetNodeAnn]),
      (AMPOptional, [SetInit, SetNodeAnn]),
      (AMPRequired, [SetInvoiceAmp]),
      (ExplicitChannelTypeOptional, [SetInit, SetNodeAnn]),
      (KeysendOptional, [SetNodeAnn]),
      (ScriptEnforcedLeaseOptional, [SetInit, SetNodeAnn]),
      (ScidAliasOptional, [SetInit, SetNodeAnn]),
      (ZeroConfOptional, [SetInit, SetNodeAnn]),
      (RouteBlindingOptional, [SetInit, SetNodeAnn, SetInvoice]),
      (QuiescenceOptional, [SetInit, SetNodeAnn]),
      (ShutdownAnySegwitOptional, [SetInit, SetNodeAnn]),
      (SimpleTaprootChannelsOptionalStaging, [SetInit, SetNodeAnn]),
      (SimpleTaprootOverlayChansOptional, [SetInit, SetNodeAnn]),
      (ExperimentalAccountabilityOptional, [SetNodeAnn]),
      (RbfCoopCloseOptionalStaging, [SetInit, SetNodeAnn]),
      (RbfCoopCloseOptional, [SetInit, SetNodeAnn])]"

record feature_config =
  NoTLVOnion :: bool
  NoStaticRemoteKey :: bool
  NoAnchors :: bool
  NoWumbo :: bool
  NoTaprootChans :: bool
  NoScriptEnforcementLease :: bool
  NoKeysend :: bool
  NoOptionScidAlias :: bool
  NoZeroConf :: bool
  NoAnySegwit :: bool
  NoRouteBlinding :: bool
  NoQuiescence :: bool
  NoTaprootOverlay :: bool
  NoExperimentalAccountability :: bool
  NoRbfCoopClose :: bool
  CustomFeatures :: "set_key \<Rightarrow> feature_bit list"

record feature_manager =
  fm_fsets :: "set_key \<rightharpoonup> raw_features"
  fm_configFeatures :: "set_key \<rightharpoonup> feature_vector"

section \<open>Building the sets\<close>

fun buildSets :: "(feature_bit \<times> set_key) list \<Rightarrow> (set_key \<rightharpoonup> raw_features) \<Rightarrow> feature_error + (set_key \<rightharpoonup> raw_features)" where
  "buildSets [] fsets = Inr fsets"
| "buildSets ((b, s) # rest) fsets =
     (case SafeSet b (case fsets s of None \<Rightarrow> {} | Some fv \<Rightarrow> fv) of
        Inl e \<Rightarrow> Inl e
      | Inr fv \<Rightarrow> buildSets rest (fsets(s \<mapsto> fv)))"

text \<open>The features that the configuration removes, in the order of the tests.\<close>

definition dependOnAnchors :: "feature_bit list" where
  "dependOnAnchors =
     map fst (filter (\<lambda>(b, ds). \<exists>d \<in> set ds. d = AnchorsZeroFeeHtlcTxRequired \<or> d = AnchorsZeroFeeHtlcTxOptional) depTable)"

definition disabled :: "feature_config \<Rightarrow> feature_bit list" where
  "disabled cfg =
     (if NoTLVOnion cfg
      then [TLVOnionPayloadOptional, TLVOnionPayloadRequired, PaymentAddrOptional, PaymentAddrRequired, MPPOptional,
            MPPRequired, RouteBlindingOptional, RouteBlindingRequired, Bolt11BlindedPathsOptional,
            Bolt11BlindedPathsRequired, AMPOptional, AMPRequired, KeysendOptional, KeysendRequired] else []) @
     (if NoStaticRemoteKey cfg then [StaticRemoteKeyOptional, StaticRemoteKeyRequired] else []) @
     (if NoAnchors cfg then [AnchorsZeroFeeHtlcTxOptional, AnchorsZeroFeeHtlcTxRequired] @ dependOnAnchors else []) @
     (if NoWumbo cfg then [WumboChannelsOptional, WumboChannelsRequired] else []) @
     (if NoScriptEnforcementLease cfg then [ScriptEnforcedLeaseOptional, ScriptEnforcedLeaseRequired] else []) @
     (if NoKeysend cfg then [KeysendOptional, KeysendRequired] else []) @
     (if NoOptionScidAlias cfg then [ScidAliasOptional, ScidAliasRequired] else []) @
     (if NoZeroConf cfg then [ZeroConfOptional, ZeroConfRequired] else []) @
     (if NoAnySegwit cfg then [ShutdownAnySegwitOptional, ShutdownAnySegwitRequired] else []) @
     (if NoTaprootChans cfg then [SimpleTaprootChannelsOptionalStaging, SimpleTaprootChannelsRequiredStaging] else []) @
     (if NoRouteBlinding cfg
      then [RouteBlindingOptional, RouteBlindingRequired, Bolt11BlindedPathsOptional, Bolt11BlindedPathsRequired] else []) @
     (if NoQuiescence cfg then [QuiescenceOptional] else []) @
     (if NoTaprootOverlay cfg then [SimpleTaprootOverlayChansOptional, SimpleTaprootOverlayChansRequired] else []) @
     (if NoExperimentalAccountability cfg
      then [ExperimentalAccountabilityOptional, ExperimentalAccountabilityRequired] else []) @
     (if NoRbfCoopClose cfg then [RbfCoopCloseOptionalStaging, RbfCoopCloseOptional] else [])"

fun addCustom :: "set_key \<Rightarrow> feature_bit list \<Rightarrow> raw_features \<Rightarrow> feature_error + raw_features" where
  "addCustom s [] raw = Inr raw"
| "addCustom s (c # cs) raw =
     (if c > Maximum s then Inl (ExceedsSetMaximum c)
      else if c \<in> raw then Inl (AlreadySet c)
      else case SafeSet c raw of Inl e \<Rightarrow> Inl e | Inr raw' \<Rightarrow> addCustom s cs raw')"

definition finishSet :: "feature_bit list \<Rightarrow> feature_config \<Rightarrow> set_key \<Rightarrow> raw_features \<Rightarrow> feature_error + raw_features" where
  "finishSet order cfg s raw =
     (case addCustom s (CustomFeatures cfg s) (foldl (\<lambda>fv b. Unset b fv) raw (disabled cfg)) of
        Inl e \<Rightarrow> Inl e
      | Inr raw' \<Rightarrow>
          (case ValidateDeps order \<lparr>fv_features = raw', fv_names = Features\<rparr> of
             Some (ErrMissingFeatureDep d) \<Rightarrow> Inl (InvalidFeatureSet s d)
           | Some e \<Rightarrow> Inl e
           | None \<Rightarrow> Inr raw'))"

fun finishSets :: "feature_bit list \<Rightarrow> feature_config \<Rightarrow> set_key list \<Rightarrow> feature_manager \<Rightarrow> feature_error + feature_manager" where
  "finishSets order cfg [] m = Inr m"
| "finishSets order cfg (s # ss) m =
     (case fm_fsets m s of
        None \<Rightarrow> finishSets order cfg ss m
      | Some raw \<Rightarrow>
          (case finishSet order cfg s raw of
             Inl e \<Rightarrow> Inl e
           | Inr raw' \<Rightarrow>
               finishSets order cfg ss
                 \<lparr>fm_fsets = (fm_fsets m)(s \<mapsto> raw'),
                  fm_configFeatures = (fm_configFeatures m)
                    (s \<mapsto> \<lparr>fv_features = NewRawFeatureVector (CustomFeatures cfg s), fv_names = Features\<rparr>)\<rparr>))"

definition newManager ::
  "feature_bit list \<Rightarrow> set_key list \<Rightarrow> feature_config \<Rightarrow> (feature_bit \<times> set_key list) list \<Rightarrow> feature_error + feature_manager" where
  "newManager order setOrder cfg desc =
     (case buildSets (concat (map (\<lambda>(b, ss). map (\<lambda>s. (b, s)) ss) desc)) Map.empty of
        Inl e \<Rightarrow> Inl e
      | Inr fsets \<Rightarrow> finishSets order cfg setOrder \<lparr>fm_fsets = fsets, fm_configFeatures = Map.empty\<rparr>)"

section \<open>Reading and updating\<close>

definition GetRaw :: "feature_manager \<Rightarrow> set_key \<Rightarrow> raw_features" where
  "GetRaw m s = (case fm_fsets m s of Some fv \<Rightarrow> fv | None \<Rightarrow> {})"

definition Get_features :: "feature_manager \<Rightarrow> set_key \<Rightarrow> feature_vector" where
  "Get_features m s = \<lparr>fv_features = GetRaw m s, fv_names = Features\<rparr>"

definition ListSets :: "set_key list \<Rightarrow> feature_manager \<Rightarrow> set_key list" where
  "ListSets setOrder m = filter (\<lambda>s. fm_fsets m s \<noteq> None) setOrder"

definition checkUpdate :: "feature_bit list \<Rightarrow> feature_manager \<Rightarrow> set_key \<Rightarrow> raw_features \<Rightarrow> feature_error option" where
  "checkUpdate order m s new =
     (if \<not> valid_set s then Some ErrUnknownSet
      else case ValidatePairs order new of
        Some e \<Rightarrow> Some e
      | None \<Rightarrow>
          (case ValidateUpdate order (GetRaw m s) new (Maximum s) of
             Some e \<Rightarrow> Some e
           | None \<Rightarrow>
               (case (case fm_configFeatures m s of
                        None \<Rightarrow> []
                      | Some cfgFeat \<Rightarrow> filter (\<lambda>b. b \<notin> new) (visit order (fv_features cfgFeat))) of
                  b # _ \<Rightarrow> Some (ErrFeatureConfigured b)
                | [] \<Rightarrow> ValidateDeps order \<lparr>fv_features = new, fv_names = Features\<rparr>)))"

fun checkUpdates ::
  "feature_bit list \<Rightarrow> (set_key \<rightharpoonup> raw_features) \<Rightarrow> set_key list \<Rightarrow> feature_manager \<Rightarrow> feature_error option" where
  "checkUpdates order updates [] m = None"
| "checkUpdates order updates (s # ss) m =
     (case updates s of
        None \<Rightarrow> checkUpdates order updates ss m
      | Some new \<Rightarrow>
          (case checkUpdate order m s new of Some e \<Rightarrow> Some e | None \<Rightarrow> checkUpdates order updates ss m))"

definition UpdateFeatureSets ::
  "feature_bit list \<Rightarrow> set_key list \<Rightarrow> (set_key \<rightharpoonup> raw_features) \<Rightarrow> feature_manager \<Rightarrow> feature_error + feature_manager" where
  "UpdateFeatureSets order setOrder updates m =
     (case checkUpdates order updates setOrder m of
        Some e \<Rightarrow> Inl e
      | None \<Rightarrow> Inr (m\<lparr>fm_fsets := fm_fsets m ++ (\<lambda>s. if s \<in> set setOrder then updates s else None)\<rparr>))"

section \<open>The invariant of the sets\<close>

definition set_ok :: "raw_features \<Rightarrow> bool" where
  "set_ok raw \<longleftrightarrow> closed raw \<and> \<not> paired raw"

definition no_pairs :: "(set_key \<rightharpoonup> raw_features) \<Rightarrow> bool" where
  "no_pairs fsets \<longleftrightarrow> (\<forall>raw \<in> ran fsets. \<not> paired raw)"

lemma SafeSet_paired: "SafeSet b F = Inr F' \<Longrightarrow> \<not> paired F \<Longrightarrow> F' = insert b F \<and> \<not> paired F'"
  by (auto simp: SafeSet_def paired_def split: if_splits)

lemma buildSets_facts:
  "buildSets ps fsets = Inr fsets' \<Longrightarrow> no_pairs fsets \<Longrightarrow>
     no_pairs fsets' \<and> dom fsets' = dom fsets \<union> snd ` set ps \<and>
     (\<forall>raw' \<in> ran fsets'. raw' \<subseteq> \<Union> (ran fsets) \<union> fst ` set ps)"
proof (induction ps fsets rule: buildSets.induct)
  case (2 b s rest fsets)
  let ?F = "case fsets s of None \<Rightarrow> {} | Some fv \<Rightarrow> fv"
  have F: "\<not> paired ?F" "?F \<subseteq> \<Union> (ran fsets)"
    using 2(3) by (auto simp: no_pairs_def paired_def ran_def split: option.splits)
  obtain fv where fv: "SafeSet b ?F = Inr fv" "buildSets rest (fsets(s \<mapsto> fv)) = Inr fsets'"
    using 2(2) by (auto split: sum.splits)
  have fv': "fv = insert b ?F" "\<not> paired fv"
    using SafeSet_paired [OF fv(1) F(1)] by auto
  have ran: "ran (fsets(s \<mapsto> fv)) \<subseteq> insert fv (ran fsets)"
    by (auto simp: ran_def)
  then have "no_pairs (fsets(s \<mapsto> fv))"
    using 2(3) fv'(2) by (auto simp: no_pairs_def)
  from 2(1) [OF fv(1,2) this] have "no_pairs fsets'" "dom fsets' = insert s (dom fsets) \<union> snd ` set rest"
    "\<forall>raw' \<in> ran fsets'. raw' \<subseteq> \<Union> (ran (fsets(s \<mapsto> fv))) \<union> fst ` set rest"
    by (simp_all del: fun_upd_apply)
  moreover have "\<Union> (ran (fsets(s \<mapsto> fv))) \<subseteq> insert b (\<Union> (ran fsets))"
    using ran F(2) fv'(1) by auto
  ultimately show ?case by (auto 0 4)
qed auto

lemma addCustom_facts:
  "addCustom s cs raw = Inr raw' \<Longrightarrow> \<not> paired raw \<Longrightarrow> raw' = raw \<union> set cs \<and> \<not> paired raw' \<and> (\<forall>c \<in> set cs. c \<le> Maximum s)"
proof (induction s cs raw rule: addCustom.induct)
  case (2 s c cs raw)
  obtain raw1 where r: "SafeSet c raw = Inr raw1" "addCustom s cs raw1 = Inr raw'" "c \<le> Maximum s" "c \<notin> raw"
    using 2(2) by (auto split: if_splits sum.splits)
  then have "raw1 = insert c raw" "\<not> paired raw1"
    using SafeSet_paired [OF r(1) 2(3)] by auto
  then show ?case
    using 2(1) [OF _ r(4,1,2)] r(3) by (auto simp: not_less)
qed simp

lemma foldl_Unset: "foldl (\<lambda>fv b. Unset b fv) raw bs = raw - set bs"
  by (induction bs arbitrary: raw) (auto simp: Unset_def)

lemma ValidateDeps_set_ok:
  assumes "raw \<subseteq> set order" "deps_covered order"
  shows "ValidateDeps order \<lparr>fv_features = raw, fv_names = names\<rparr> = None \<longleftrightarrow> closed raw"
  using ValidateDeps_closed [of "\<lparr>fv_features = raw, fv_names = names\<rparr>" order] assms by simp

lemma finishSet_facts:
  assumes "finishSet order cfg s raw = Inr raw'" "\<not> paired raw" "deps_covered order"
    and "raw \<union> set (CustomFeatures cfg s) \<subseteq> set order"
  shows "set_ok raw' \<and> set (CustomFeatures cfg s) \<subseteq> raw' \<and> raw' \<subseteq> set order"
proof -
  let ?raw = "foldl (\<lambda>fv b. Unset b fv) raw (disabled cfg)"
  have "\<not> paired ?raw"
    using assms(2) by (auto simp: foldl_Unset paired_def)
  moreover have c: "addCustom s (CustomFeatures cfg s) ?raw = Inr raw'"
    and v: "ValidateDeps order \<lparr>fv_features = raw', fv_names = Features\<rparr> = None"
    using assms(1) by (auto simp: finishSet_def split: sum.splits option.splits feature_error.splits)
  ultimately have "raw' = ?raw \<union> set (CustomFeatures cfg s)" "\<not> paired raw'"
    using addCustom_facts by blast+
  moreover from this(1) have "raw' \<subseteq> set order"
    using assms(4) by (auto simp: foldl_Unset)
  ultimately show ?thesis
    using v ValidateDeps_set_ok [of raw' order] assms(3) by (auto simp: set_ok_def)
qed

lemma NewRawFeatureVector_set: "NewRawFeatureVector bits = set bits"
proof -
  have "foldl (\<lambda>fv b. insert b fv) F bits = F \<union> set bits" for F
    by (induction bits arbitrary: F) auto
  then show ?thesis by (simp add: NewRawFeatureVector_def)
qed

text \<open>What holds of a manager that was made with a configuration.\<close>

definition manager_ok :: "feature_config \<Rightarrow> set_key set \<Rightarrow> feature_manager \<Rightarrow> bool" where
  "manager_ok cfg keys m \<longleftrightarrow>
     (\<forall>s raw. fm_fsets m s = Some raw \<longrightarrow> set_ok raw) \<and>
     (\<forall>s \<in> keys. \<exists>raw. fm_fsets m s = Some raw \<and> set (CustomFeatures cfg s) \<subseteq> raw \<and>
        fm_configFeatures m s = Some \<lparr>fv_features = set (CustomFeatures cfg s), fv_names = Features\<rparr>) \<and>
     dom (fm_configFeatures m) \<subseteq> keys"

lemma finishSets_facts:
  assumes "finishSets order cfg ss m = Inr m'" "deps_covered order" "distinct ss"
    and "\<forall>s \<in> set ss. \<forall>raw. fm_fsets m s = Some raw \<longrightarrow> \<not> paired raw \<and> raw \<union> set (CustomFeatures cfg s) \<subseteq> set order"
  shows "dom (fm_fsets m') = dom (fm_fsets m) \<and>
     (\<forall>s \<in> set ss \<inter> dom (fm_fsets m). \<exists>raw. fm_fsets m' s = Some raw \<and> set_ok raw \<and> set (CustomFeatures cfg s) \<subseteq> raw \<and>
        fm_configFeatures m' s = Some \<lparr>fv_features = set (CustomFeatures cfg s), fv_names = Features\<rparr> \<and> raw \<subseteq> set order) \<and>
     (\<forall>s. s \<notin> set ss \<longrightarrow> fm_fsets m' s = fm_fsets m s \<and> fm_configFeatures m' s = fm_configFeatures m s) \<and>
     dom (fm_configFeatures m') \<subseteq> dom (fm_configFeatures m) \<union> dom (fm_fsets m)"
  using assms
proof (induction ss arbitrary: m)
  case (Cons s ss)
  show ?case
  proof (cases "fm_fsets m s")
    case None
    then show ?thesis
      using Cons(1) [of m] Cons(2-5) by auto
  next
    case (Some raw)
    obtain raw1 where f: "finishSet order cfg s raw = Inr raw1"
      using Cons(2) Some by (auto split: sum.splits)
    define m1 where "m1 = \<lparr>fm_fsets = (fm_fsets m)(s \<mapsto> raw1), fm_configFeatures = (fm_configFeatures m)
        (s \<mapsto> \<lparr>fv_features = NewRawFeatureVector (CustomFeatures cfg s), fv_names = Features\<rparr>)\<rparr>"
    have run: "finishSets order cfg ss m1 = Inr m'"
      using Cons(2) Some f by (simp add: m1_def)
    have ok: "set_ok raw1 \<and> set (CustomFeatures cfg s) \<subseteq> raw1 \<and> raw1 \<subseteq> set order"
      using finishSet_facts [OF f _ Cons(3)] Cons(5) Some by auto
    have "\<forall>t \<in> set ss. \<forall>raw. fm_fsets m1 t = Some raw \<longrightarrow> \<not> paired raw \<and> raw \<union> set (CustomFeatures cfg t) \<subseteq> set order"
      using Cons(4,5) by (auto simp: m1_def)
    note IH = Cons(1) [OF run Cons(3) _ this]
    have m1: "dom (fm_fsets m1) = dom (fm_fsets m)" "dom (fm_configFeatures m1) = insert s (dom (fm_configFeatures m))"
       "\<And>t. t \<noteq> s \<Longrightarrow> fm_fsets m1 t = fm_fsets m t \<and> fm_configFeatures m1 t = fm_configFeatures m t"
       "fm_fsets m1 s = Some raw1" "fm_configFeatures m1 s = Some \<lparr>fv_features = set (CustomFeatures cfg s), fv_names = Features\<rparr>"
      using Some by (auto simp: m1_def NewRawFeatureVector_set)
    show ?thesis
      using IH m1 ok Cons(4) Some by auto
  qed
qed simp

text \<open>An update that is accepted for a set.\<close>

lemma checkUpdate_facts:
  assumes "checkUpdate order m s new = None" "deps_covered order" "new \<subseteq> set order" "GetRaw m s \<subseteq> set order"
    and "\<forall>f. fm_configFeatures m s = Some f \<longrightarrow> fv_features f \<subseteq> set order"
  shows "set_ok new \<and> valid_set s \<and> (\<forall>b. Features b \<noteq> None \<longrightarrow> (b \<in> new \<longleftrightarrow> b \<in> GetRaw m s)) \<and>
     (\<forall>b \<in> new - GetRaw m s. b \<le> Maximum s) \<and>
     (\<forall>f. fm_configFeatures m s = Some f \<longrightarrow> fv_features f \<subseteq> new)"
proof -
  have p: "valid_set s" "ValidatePairs order new = None" "ValidateUpdate order (GetRaw m s) new (Maximum s) = None"
      "ValidateDeps order \<lparr>fv_features = new, fv_names = Features\<rparr> = None"
    and f: "\<forall>f. fm_configFeatures m s = Some f \<longrightarrow> filter (\<lambda>b. b \<notin> new) (visit order (fv_features f)) = []"
    using assms(1) by (auto simp: checkUpdate_def split: if_splits option.splits list.splits)
  have u: "filter (\<lambda>b. b \<notin> GetRaw m s \<and> (Maximum s < b \<or> Features b \<noteq> None)) (visit order new) = []"
      "filter (\<lambda>b. b \<notin> new \<and> Features b \<noteq> None) (visit order (GetRaw m s)) = []"
    using p(3) by (auto simp: ValidateUpdate_def split: list.splits)
  have new: "\<forall>b \<in> new. b \<notin> GetRaw m s \<longrightarrow> b \<le> Maximum s \<and> Features b = None"
    using u(1) assms(3) by (auto simp: filter_empty_conv not_less)
  have old: "\<forall>b \<in> GetRaw m s. b \<notin> new \<longrightarrow> Features b = None"
    using u(2) assms(4) by (auto simp: filter_empty_conv)
  have "\<forall>f. fm_configFeatures m s = Some f \<longrightarrow> fv_features f \<subseteq> new"
    using f assms(5) by (fastforce simp: filter_empty_conv)
  moreover have "set_ok new"
    using p(2,4) ValidateDeps_set_ok [OF assms(3,2)] ValidatePairs_paired [OF assms(3)] by (simp add: set_ok_def)
  ultimately show ?thesis
    using p(1) new old by auto
qed

lemma checkUpdates_facts:
  "checkUpdates order updates ss m = None \<Longrightarrow> s \<in> set ss \<Longrightarrow> updates s = Some new \<Longrightarrow> checkUpdate order m s new = None"
  by (induction ss) (auto split: option.splits)

section \<open>Managers at runtime\<close>

text \<open>The orders of iteration list every key that is there.\<close>

definition orders_ok :: "feature_bit list \<Rightarrow> set_key list \<Rightarrow> feature_manager \<Rightarrow> (set_key \<rightharpoonup> raw_features) \<Rightarrow> bool" where
  "orders_ok order setOrder m updates \<longleftrightarrow> deps_covered order \<and> dom updates \<subseteq> set setOrder \<and>
     (\<forall>s raw. fm_fsets m s = Some raw \<or> updates s = Some raw \<longrightarrow> raw \<subseteq> set order)"

inductive manager_run :: "feature_manager \<Rightarrow> feature_manager \<Rightarrow> bool" for m where
  mr_start: "manager_run m m"
| mr_update: "manager_run m m1 \<Longrightarrow> orders_ok order setOrder m1 updates \<Longrightarrow>
      UpdateFeatureSets order setOrder updates m1 = Inr m2 \<Longrightarrow> manager_run m m2"

lemma update_keeps_manager:
  assumes ok: "manager_ok cfg keys m" and ord: "orders_ok order setOrder m updates"
    and run: "UpdateFeatureSets order setOrder updates m = Inr m'"
  shows "manager_ok cfg keys m' \<and> (\<forall>s b. Features b \<noteq> None \<longrightarrow> (b \<in> GetRaw m' s \<longleftrightarrow> b \<in> GetRaw m s))"
proof -
  have check: "checkUpdates order updates setOrder m = None" and m': "m' = m\<lparr>fm_fsets := fm_fsets m ++ updates\<rparr>"
  proof -
    have "(\<lambda>s. if s \<in> set setOrder then updates s else None) = updates"
    proof
      fix s show "(if s \<in> set setOrder then updates s else None) = updates s"
        using ord by (cases "updates s") (auto simp: orders_ok_def)
    qed
    then show "checkUpdates order updates setOrder m = None" "m' = m\<lparr>fm_fsets := fm_fsets m ++ updates\<rparr>"
      using run by (auto simp: UpdateFeatureSets_def split: option.splits)
  qed
  have new: "set_ok new" "\<forall>b. Features b \<noteq> None \<longrightarrow> (b \<in> new \<longleftrightarrow> b \<in> GetRaw m s)"
      "\<forall>f. fm_configFeatures m s = Some f \<longrightarrow> fv_features f \<subseteq> new" if u: "updates s = Some new" for s new
  proof -
    have c: "checkUpdate order m s new = None"
      by (rule checkUpdates_facts [OF check _ u]) (use u ord in \<open>auto simp: orders_ok_def\<close>)
    have cover: "deps_covered order" "new \<subseteq> set order" "GetRaw m s \<subseteq> set order"
      using ord u by (auto simp: orders_ok_def GetRaw_def split: option.splits)
    have "\<forall>f. fm_configFeatures m s = Some f \<longrightarrow> fv_features f \<subseteq> GetRaw m s"
    proof (intro allI impI)
      fix f assume f: "fm_configFeatures m s = Some f"
      then have "s \<in> keys" using ok by (auto simp: manager_ok_def)
      then obtain raw where "fm_fsets m s = Some raw" "set (CustomFeatures cfg s) \<subseteq> raw"
          "fm_configFeatures m s = Some \<lparr>fv_features = set (CustomFeatures cfg s), fv_names = Features\<rparr>"
        using ok unfolding manager_ok_def by blast
      then show "fv_features f \<subseteq> GetRaw m s" using f by (simp add: GetRaw_def)
    qed
    then have "\<forall>f. fm_configFeatures m s = Some f \<longrightarrow> fv_features f \<subseteq> set order"
      using cover(3) by blast
    from checkUpdate_facts [OF c cover this]
    show "set_ok new" "\<forall>b. Features b \<noteq> None \<longrightarrow> (b \<in> new \<longleftrightarrow> b \<in> GetRaw m s)"
      "\<forall>f. fm_configFeatures m s = Some f \<longrightarrow> fv_features f \<subseteq> new" by blast+
  qed
  have sets: "fm_fsets m' s = (case updates s of Some new \<Rightarrow> Some new | None \<Rightarrow> fm_fsets m s)" for s
    by (simp add: m' map_add_def)
  have cfgs: "fm_configFeatures m' = fm_configFeatures m"
    by (simp add: m')
  have "manager_ok cfg keys m'"
    unfolding manager_ok_def sets cfgs
  proof (intro conjI allI impI ballI)
    fix s raw assume "(case updates s of Some new \<Rightarrow> Some new | None \<Rightarrow> fm_fsets m s) = Some raw"
    then show "set_ok raw"
      using new(1) ok by (auto simp: manager_ok_def split: option.splits)
  next
    fix s assume s: "s \<in> keys"
    then obtain raw where raw: "fm_fsets m s = Some raw" "set (CustomFeatures cfg s) \<subseteq> raw"
        "fm_configFeatures m s = Some \<lparr>fv_features = set (CustomFeatures cfg s), fv_names = Features\<rparr>"
      using ok unfolding manager_ok_def by blast
    show "\<exists>raw. (case updates s of Some new \<Rightarrow> Some new | None \<Rightarrow> fm_fsets m s) = Some raw \<and>
        set (CustomFeatures cfg s) \<subseteq> raw \<and>
        fm_configFeatures m s = Some \<lparr>fv_features = set (CustomFeatures cfg s), fv_names = Features\<rparr>"
      using raw new(3) [of s] by (cases "updates s") auto
  qed (use ok in \<open>auto simp: manager_ok_def\<close>)
  moreover have "b \<in> GetRaw m' s \<longleftrightarrow> b \<in> GetRaw m s" if "Features b \<noteq> None" for s b
    using new(2) [of s] that by (cases "updates s") (simp_all add: GetRaw_def sets)
  ultimately show ?thesis by blast
qed

lemma manager_run_ok:
  "manager_run m m' \<Longrightarrow> manager_ok cfg keys m \<Longrightarrow>
     manager_ok cfg keys m' \<and> (\<forall>s b. Features b \<noteq> None \<longrightarrow> (b \<in> GetRaw m' s \<longleftrightarrow> b \<in> GetRaw m s))"
  by (induction rule: manager_run.induct) (use update_keeps_manager in \<open>fastforce+\<close>)

lemma newManager_ok:
  assumes "newManager order setOrder cfg desc = Inr m" "deps_covered order" "distinct setOrder"
    and "fst ` set desc \<subseteq> set order" "\<Union> (set ` snd ` set desc) \<subseteq> set setOrder" "\<forall>s. set (CustomFeatures cfg s) \<subseteq> set order"
  shows "manager_ok cfg (dom (fm_fsets m)) m \<and> (\<forall>s raw. fm_fsets m s = Some raw \<longrightarrow> raw \<subseteq> set order)"
proof -
  let ?pairs = "concat (map (\<lambda>(b, ss). map (\<lambda>s. (b, s)) ss) desc)"
  obtain fsets where b: "buildSets ?pairs Map.empty = Inr fsets"
    and f: "finishSets order cfg setOrder \<lparr>fm_fsets = fsets, fm_configFeatures = Map.empty\<rparr> = Inr m"
    using assms(1) by (auto simp: newManager_def split: sum.splits)
  have p: "no_pairs fsets" "dom fsets = snd ` set ?pairs" "\<forall>raw \<in> ran fsets. raw \<subseteq> fst ` set ?pairs"
    using buildSets_facts [OF b] by (simp_all add: no_pairs_def)
  have bits: "fst ` set ?pairs \<subseteq> set order" "snd ` set ?pairs \<subseteq> set setOrder"
  proof -
    have "p \<in> set ?pairs \<Longrightarrow> fst p \<in> fst ` set desc \<and> snd p \<in> \<Union> (set ` snd ` set desc)" for p
      by (cases p) (force simp: image_iff)
    then show "fst ` set ?pairs \<subseteq> set order" "snd ` set ?pairs \<subseteq> set setOrder"
      using assms(4,5) by blast+
  qed
  have "\<forall>s \<in> set setOrder. \<forall>raw. fsets s = Some raw \<longrightarrow> \<not> paired raw \<and> raw \<union> set (CustomFeatures cfg s) \<subseteq> set order"
  proof (intro ballI allI impI)
    fix s raw assume "fsets s = Some raw"
    then have "raw \<in> ran fsets" by (rule ranI)
    then show "\<not> paired raw \<and> raw \<union> set (CustomFeatures cfg s) \<subseteq> set order"
      using p(1,3) bits(1) assms(6) unfolding no_pairs_def by (meson Un_least order_trans)
  qed
  then have k: "dom (fm_fsets m) = dom fsets"
     "\<forall>s \<in> set setOrder \<inter> dom fsets. \<exists>raw. fm_fsets m s = Some raw \<and> set_ok raw \<and> set (CustomFeatures cfg s) \<subseteq> raw \<and>
        fm_configFeatures m s = Some \<lparr>fv_features = set (CustomFeatures cfg s), fv_names = Features\<rparr> \<and> raw \<subseteq> set order"
     "dom (fm_configFeatures m) \<subseteq> dom fsets"
    using finishSets_facts [OF f assms(2,3)] by auto
  have all: "dom fsets \<subseteq> set setOrder"
    using p(2) bits(2) by simp
  show ?thesis
    unfolding manager_ok_def
  proof (intro conjI allI impI ballI)
    fix s raw assume raw: "fm_fsets m s = Some raw"
    then have "s \<in> set setOrder \<inter> dom fsets" using k(1) all by blast
    from bspec [OF k(2) this] show "set_ok raw" "raw \<subseteq> set order" using raw by auto
  next
    fix s assume "s \<in> dom (fm_fsets m)"
    then have "s \<in> set setOrder \<inter> dom fsets" using k(1) all by blast
    from bspec [OF k(2) this] show "\<exists>raw. fm_fsets m s = Some raw \<and> set (CustomFeatures cfg s) \<subseteq> raw \<and>
        fm_configFeatures m s = Some \<lparr>fv_features = set (CustomFeatures cfg s), fv_names = Features\<rparr>"
      by blast
  qed (use k in simp)
qed

text \<open>
  C27: Whatever the configuration and the updates at runtime, every feature set of a manager has all the
  dependencies of its features and no pair of bits set together; the configured features of a set stay
  set, and the features that the program itself defines are those with which the node started.
\<close>
theorem feature_sets_stay_valid:
  assumes "newManager order setOrder cfg desc = Inr m" "deps_covered order" "distinct setOrder"
    and "fst ` set desc \<subseteq> set order" "\<Union> (set ` snd ` set desc) \<subseteq> set setOrder" "\<forall>s. set (CustomFeatures cfg s) \<subseteq> set order"
    and "manager_run m m'" "fm_fsets m' s = Some raw" "raw \<subseteq> set order"
  shows "ValidateDeps order (Get_features m' s) = None \<and> ValidatePairs order raw = None \<and>
     (fm_fsets m s \<noteq> None \<longrightarrow> set (CustomFeatures cfg s) \<subseteq> raw) \<and>
     (\<forall>b. Features b \<noteq> None \<longrightarrow> (b \<in> raw \<longleftrightarrow> b \<in> GetRaw m s))"
proof -
  have ok: "manager_ok cfg (dom (fm_fsets m)) m'" "\<forall>b. Features b \<noteq> None \<longrightarrow> (b \<in> GetRaw m' s \<longleftrightarrow> b \<in> GetRaw m s)"
    using manager_run_ok [OF assms(7) conjunct1 [OF newManager_ok [OF assms(1-6)]]] by blast+
  moreover have "GetRaw m' s = raw"
    using assms(8) by (simp add: GetRaw_def)
  moreover have "set_ok raw"
    using ok(1) assms(8) by (simp add: manager_ok_def)
  ultimately show ?thesis
    using ValidateDeps_set_ok [OF assms(9,2)] ValidatePairs_paired [OF assms(9)] assms(8)
    by (fastforce simp: manager_ok_def set_ok_def Get_features_def)
qed

section \<open>A sample\<close>

definition plainConfig :: feature_config where
  "plainConfig = \<lparr>NoTLVOnion = False, NoStaticRemoteKey = False, NoAnchors = False, NoWumbo = False, NoTaprootChans = False,
     NoScriptEnforcementLease = False, NoKeysend = False, NoOptionScidAlias = False, NoZeroConf = False, NoAnySegwit = False,
     NoRouteBlinding = False, NoQuiescence = False, NoTaprootOverlay = False, NoExperimentalAccountability = False,
     NoRbfCoopClose = False, CustomFeatures = (\<lambda>s. if s = SetNodeAnn then [1001] else [])\<rparr>"

definition knownBits :: "feature_bit list" where
  "knownBits = remdups (map fst defaultSetDesc @ concat (map snd depTable) @ [1001, 2001])"

definition allSets :: "set_key list" where
  "allSets = [SetInit, SetLegacyGlobal, SetNodeAnn, SetInvoice, SetInvoiceAmp]"

definition outcome :: "feature_error + feature_manager \<Rightarrow> feature_error option" where
  "outcome r = (case r of Inl e \<Rightarrow> Some e | Inr _ \<Rightarrow> None)"

definition sampleUpdate :: "feature_manager \<Rightarrow> set_key \<rightharpoonup> raw_features" where
  "sampleUpdate m = [SetNodeAnn \<mapsto> insert 2001 (GetRaw m SetNodeAnn)]"

lemma sample_runs:
  "outcome (case newManager knownBits allSets plainConfig defaultSetDesc of
      Inl e \<Rightarrow> Inl e | Inr m \<Rightarrow> UpdateFeatureSets knownBits allSets (sampleUpdate m) m) = None"
  by code_simp

lemma sample_orders:
  "deps_covered knownBits" "distinct allSets" "fst ` set defaultSetDesc \<subseteq> set knownBits"
  "\<Union> (set ` snd ` set defaultSetDesc) \<subseteq> set allSets" "\<forall>s. set (CustomFeatures plainConfig s) \<subseteq> set knownBits"
proof -
  show "deps_covered knownBits"
    by (rule deps_coveredI) code_simp
  show "distinct allSets" "fst ` set defaultSetDesc \<subseteq> set knownBits"
    by code_simp+
  have "list_all (\<lambda>(b, ss). list_all (\<lambda>s. s \<in> set allSets) ss) defaultSetDesc"
    by code_simp
  then show "\<Union> (set ` snd ` set defaultSetDesc) \<subseteq> set allSets"
    by (fastforce simp: list_all_iff)
  show "\<forall>s. set (CustomFeatures plainConfig s) \<subseteq> set knownBits"
    by (auto simp: plainConfig_def knownBits_def)
qed

lemma feature_sets_stay_valid_witness:
  "\<exists>m m' raw. newManager knownBits allSets plainConfig defaultSetDesc = Inr m \<and>
     UpdateFeatureSets knownBits allSets (sampleUpdate m) m = Inr m' \<and> fm_fsets m' SetNodeAnn = Some raw \<and> 2001 \<in> raw \<and>
     ValidatePairs knownBits raw = None"
proof -
  obtain m m' where m: "newManager knownBits allSets plainConfig defaultSetDesc = Inr m"
      "UpdateFeatureSets knownBits allSets (sampleUpdate m) m = Inr m'"
    using sample_runs by (auto simp: outcome_def split: sum.splits)
  have bits: "raw \<subseteq> set knownBits" if "fm_fsets m s = Some raw" for s raw
    using newManager_ok [OF m(1) sample_orders] that by blast
  have new: "insert 2001 (GetRaw m SetNodeAnn) \<subseteq> set knownBits"
    using bits [of SetNodeAnn] by (auto simp: GetRaw_def knownBits_def split: option.splits)
  have "orders_ok knownBits allSets m (sampleUpdate m)"
    using bits new sample_orders(1) by (auto simp: orders_ok_def sampleUpdate_def allSets_def)
  then have run: "manager_run m m'"
    by (rule mr_update [OF mr_start _ m(2)])
  have "fm_fsets m' SetNodeAnn = Some (insert 2001 (GetRaw m SetNodeAnn))"
    using m(2) by (auto simp: UpdateFeatureSets_def sampleUpdate_def allSets_def split: option.splits)
  then show ?thesis
    using m feature_sets_stay_valid [OF m(1) sample_orders run _ new] by (intro exI [of _ m] exI [of _ m']) auto
qed

text \<open>
  Two options of the configuration that leave an invalid set when they are the only ones: the removal of
  anchors takes the features that depend on them directly, but not the overlay channels above those; and
  the removal of aliases keeps zero-conf channels. A node with these options does not start.
\<close>

lemma no_anchors_keeps_overlay:
  "outcome (newManager knownBits allSets (plainConfig\<lparr>NoAnchors := True\<rparr>) defaultSetDesc) =
     Some (InvalidFeatureSet SetInit SimpleTaprootChannelsOptionalStaging)"
  by code_simp

lemma no_alias_keeps_zero_conf:
  "outcome (newManager knownBits allSets (plainConfig\<lparr>NoOptionScidAlias := True, NoTaprootOverlay := True\<rparr>) defaultSetDesc) =
     Some (InvalidFeatureSet SetInit ScidAliasOptional)"
  by code_simp

text \<open>The overlay bits are not a pair: the required one has no dependencies and is not seen by a query of the other.\<close>

lemma overlay_bits_no_pair:
  "SimpleTaprootOverlayChansRequired XOR 1 \<noteq> SimpleTaprootOverlayChansOptional \<and>
   deps (mapToOptional SimpleTaprootOverlayChansRequired) = {} \<and>
   \<not> HasFeature \<lparr>fv_features = {SimpleTaprootOverlayChansRequired}, fv_names = Features\<rparr> SimpleTaprootOverlayChansOptional"
  by code_simp

end
