(* ===== verification/Amp.thy ===== *)
theory Amp
  imports Channel_Types "HOL-Library.Multiset"
begin

text \<open>
  The package \<open>amp\<close>: the root seed of an atomic multi-path payment is shared additively between the
  HTLCs (\<open>child.go\<close>, \<open>sharer.go\<close>), and the sender's tracker hands out and takes back shares
  (\<open>shard_tracker.go\<close>). A share is a list of 32 bytes and \<open>sha256.Sum256\<close> the argument \<open>sha\<close>.
  What \<open>rand.Read\<close> returns is an argument, \<open>None\<close> when it fails.
\<close>

type_synonym share = "byte list"

definition zeroShare :: share where
  "zeroShare = replicate 32 0"

text \<open>\<open>binary.BigEndian.PutUint32\<close>.\<close>

definition indexBytes :: "u32 \<Rightarrow> byte list" where
  "indexBytes x = map (\<lambda>i. ucast (drop_bit i x)) [24, 16, 8, 0]"

definition Xor :: "share \<Rightarrow> share \<Rightarrow> share" where
  "Xor x y = map2 (XOR) x y"

record child_desc =
  cd_share :: share
  cd_index :: u32

record amp_child =
  ch_desc :: child_desc
  ch_preimage :: "byte list"
  ch_hash :: "byte list"

definition DeriveChild :: "(byte list \<Rightarrow> byte list) \<Rightarrow> share \<Rightarrow> child_desc \<Rightarrow> amp_child" where
  "DeriveChild sha root desc =
     (let preimage = sha (root @ cd_share desc @ indexBytes (cd_index desc))
      in \<lparr>ch_desc = desc, ch_preimage = preimage, ch_hash = sha preimage\<rparr>)"

definition ReconstructChildren :: "(byte list \<Rightarrow> byte list) \<Rightarrow> child_desc list \<Rightarrow> amp_child list" where
  "ReconstructChildren sha descs =
     (let root = foldl (\<lambda>root desc. Xor root (cd_share desc)) zeroShare descs
      in map (DeriveChild sha root) descs)"

record seed_sharer =
  ss_root :: share
  ss_curr :: share

definition SeedSharerFromRoot :: "share \<Rightarrow> seed_sharer" where
  "SeedSharerFromRoot root = \<lparr>ss_root = root, ss_curr = root\<rparr>"

datatype amp_error = ErrZeroSharer | ErrRand | ErrPidNotFound

definition split_share :: "share option \<Rightarrow> share \<Rightarrow> amp_error + share \<times> share" where
  "split_share rand parent =
     (case rand of None \<Rightarrow> Inl ErrRand | Some left \<Rightarrow> Inr (left, Xor parent left))"

definition Split :: "share option \<Rightarrow> seed_sharer \<Rightarrow> amp_error + seed_sharer \<times> seed_sharer" where
  "Split rand s =
     (if ss_curr s = zeroShare then Inl ErrZeroSharer
      else case split_share rand (ss_curr s) of
        Inl e \<Rightarrow> Inl e
      | Inr (left, right) \<Rightarrow> Inr (\<lparr>ss_root = ss_root s, ss_curr = left\<rparr>, \<lparr>ss_root = ss_root s, ss_curr = right\<rparr>))"

definition Merge :: "seed_sharer \<Rightarrow> amp_child \<Rightarrow> seed_sharer" where
  "Merge s child = \<lparr>ss_root = ss_root s, ss_curr = Xor (ss_curr s) (cd_share (ch_desc child))\<rparr>"

definition ZeroSharer :: "seed_sharer \<Rightarrow> seed_sharer" where
  "ZeroSharer s = \<lparr>ss_root = ss_root s, ss_curr = zeroShare\<rparr>"

definition Child :: "(byte list \<Rightarrow> byte list) \<Rightarrow> seed_sharer \<Rightarrow> u32 \<Rightarrow> amp_child" where
  "Child sha s index = DeriveChild sha (ss_root s) \<lparr>cd_share = ss_curr s, cd_index = index\<rparr>"

text \<open>The payloads of \<open>record/mpp.go\<close> and \<open>record/amp.go\<close>.\<close>

record mpp_record =
  mr_paymentAddr :: "byte list"
  mr_totalMsat :: msat

record amp_record =
  ar_rootShare :: share
  ar_setID :: "byte list"
  ar_childIndex :: u32

record amp_shard =
  sh_child :: amp_child
  sh_mpp :: mpp_record
  sh_amp :: amp_record

record shard_tracker =
  tr_setID :: "byte list"
  tr_paymentAddr :: "byte list"
  tr_totalAmt :: msat
  tr_sharer :: seed_sharer
  tr_shards :: "u64 \<rightharpoonup> amp_child"

definition NewShardTracker :: "share \<Rightarrow> byte list \<Rightarrow> byte list \<Rightarrow> msat \<Rightarrow> shard_tracker" where
  "NewShardTracker root setID payAddr totalAmt =
     \<lparr>tr_setID = setID, tr_paymentAddr = payAddr, tr_totalAmt = totalAmt,
      tr_sharer = SeedSharerFromRoot root, tr_shards = Map.empty\<rparr>"

definition trackShard :: "u64 \<Rightarrow> amp_child \<Rightarrow> shard_tracker \<Rightarrow> shard_tracker \<times> amp_shard" where
  "trackShard pid child s =
     (s\<lparr>tr_shards := (tr_shards s)(pid \<mapsto> child)\<rparr>,
      \<lparr>sh_child = child,
       sh_mpp = \<lparr>mr_paymentAddr = tr_paymentAddr s, mr_totalMsat = tr_totalAmt s\<rparr>,
       sh_amp = \<lparr>ar_rootShare = cd_share (ch_desc child), ar_setID = tr_setID s,
                 ar_childIndex = cd_index (ch_desc child)\<rparr>\<rparr>)"

text \<open>The two results of \<open>rand.Read\<close> are the child index and, unless it is the last shard, a share.\<close>

definition NewShard ::
  "(byte list \<Rightarrow> byte list) \<Rightarrow> u32 option \<Rightarrow> share option \<Rightarrow> u64 \<Rightarrow> bool \<Rightarrow> shard_tracker \<Rightarrow>
     amp_error + shard_tracker \<times> amp_shard" where
  "NewShard sha randIndex randShare pid isLast s =
     (case randIndex of
        None \<Rightarrow> Inl ErrRand
      | Some idx \<Rightarrow>
          if isLast then
            Inr (trackShard pid (Child sha (tr_sharer s) idx) (s\<lparr>tr_sharer := ZeroSharer (tr_sharer s)\<rparr>))
          else case Split randShare (tr_sharer s) of
            Inl e \<Rightarrow> Inl e
          | Inr (left, sharer) \<Rightarrow> Inr (trackShard pid (Child sha left idx) (s\<lparr>tr_sharer := sharer\<rparr>)))"

definition CancelShard :: "u64 \<Rightarrow> shard_tracker \<Rightarrow> amp_error + shard_tracker" where
  "CancelShard pid s =
     (case tr_shards s pid of
        None \<Rightarrow> Inl ErrPidNotFound
      | Some c \<Rightarrow> Inr (s\<lparr>tr_shards := (tr_shards s)(pid := None), tr_sharer := Merge (tr_sharer s) c\<rparr>))"

definition GetHash :: "u64 \<Rightarrow> shard_tracker \<Rightarrow> amp_error + byte list" where
  "GetHash pid s = (case tr_shards s pid of None \<Rightarrow> Inl ErrPidNotFound | Some c \<Rightarrow> Inr (ch_hash c))"

section \<open>Shares\<close>

lemma length_zeroShare [simp]: "length zeroShare = 32"
  by (simp add: zeroShare_def)

lemma length_Xor [simp]: "length (Xor x y) = min (length x) (length y)"
  by (simp add: Xor_def)

lemma nth_Xor [simp]: "i < length x \<Longrightarrow> i < length y \<Longrightarrow> Xor x y ! i = x ! i XOR y ! i"
  by (simp add: Xor_def)

lemma Xor_comm: "Xor x y = Xor y x"
  by (rule nth_equalityI) (simp_all add: xor.commute)

lemma Xor_assoc: "Xor (Xor x y) z = Xor x (Xor y z)"
  by (rule nth_equalityI) (simp_all add: xor.assoc)

lemma Xor_left_comm: "Xor x (Xor y z) = Xor y (Xor x z)"
  by (metis Xor_assoc Xor_comm)

lemma Xor_zero [simp]: "length x = 32 \<Longrightarrow> Xor x zeroShare = x" "length x = 32 \<Longrightarrow> Xor zeroShare x = x"
  by (rule nth_equalityI; simp add: zeroShare_def)+

lemma Xor_self [simp]: "length x = 32 \<Longrightarrow> Xor x x = zeroShare"
  by (rule nth_equalityI) (simp_all add: zeroShare_def)

lemmas Xor_ac = Xor_assoc Xor_comm Xor_left_comm

text \<open>The combination of a list of shares, in any order.\<close>

definition combine :: "share list \<Rightarrow> share" where
  "combine xs = foldr Xor xs zeroShare"

lemma combine_simps [simp]: "combine [] = zeroShare" "combine (x # xs) = Xor x (combine xs)"
  by (simp_all add: combine_def)

lemma length_combine: "\<forall>x \<in> set xs. length x = 32 \<Longrightarrow> length (combine xs) = 32"
  by (induction xs) simp_all

lemma combine_perm:
  assumes "mset xs = mset ys"
  shows "combine xs = combine ys"
proof -
  have "fold Xor (rev xs) zeroShare = fold Xor (rev ys) zeroShare"
    by (rule fold_permuted_eq [where P = "\<lambda>_. True"]) (simp_all add: assms Xor_left_comm)
  then show ?thesis
    by (simp add: combine_def foldr_conv_fold)
qed

lemma foldl_Xor:
  "length r = 32 \<Longrightarrow> \<forall>d \<in> set ds. length (cd_share d) = 32 \<Longrightarrow>
     foldl (\<lambda>root desc. Xor root (cd_share desc)) r ds = Xor r (combine (map cd_share ds))"
  by (induction ds arbitrary: r) (auto simp: Xor_assoc)

lemma ReconstructChildren_combine:
  "\<forall>d \<in> set ds. length (cd_share d) = 32 \<Longrightarrow>
     ReconstructChildren sha ds = map (DeriveChild sha (combine (map cd_share ds))) ds"
  by (simp add: ReconstructChildren_def foldl_Xor length_combine Let_def)

section \<open>Runs of the sender\<close>

text \<open>An attempt gets an id of its own; \<open>rand.Read\<close> fills the 32 bytes of a share.\<close>

inductive tracker_step :: "(byte list \<Rightarrow> byte list) \<Rightarrow> shard_tracker \<Rightarrow> shard_tracker \<Rightarrow> bool" for sha where
  ts_new: "NewShard sha ri rs pid isLast s = Inr (s', sh) \<Longrightarrow> tr_shards s pid = None \<Longrightarrow>
      \<forall>x. rs = Some x \<longrightarrow> length x = 32 \<Longrightarrow> tracker_step sha s s'"
| ts_cancel: "CancelShard pid s = Inr s' \<Longrightarrow> tracker_step sha s s'"

inductive tracker_run :: "(byte list \<Rightarrow> byte list) \<Rightarrow> shard_tracker \<Rightarrow> shard_tracker \<Rightarrow> bool" for sha s where
  tr_start: "tracker_run sha s s"
| tr_step: "tracker_run sha s s1 \<Longrightarrow> tracker_step sha s1 s2 \<Longrightarrow> tracker_run sha s s2"

definition live_share :: "shard_tracker \<Rightarrow> u64 \<Rightarrow> share" where
  "live_share s pid = cd_share (ch_desc (the (tr_shards s pid)))"

definition tracker_inv :: "(byte list \<Rightarrow> byte list) \<Rightarrow> share \<Rightarrow> shard_tracker \<Rightarrow> bool" where
  "tracker_inv sha root s \<longleftrightarrow>
     ss_root (tr_sharer s) = root \<and> length root = 32 \<and> length (ss_curr (tr_sharer s)) = 32 \<and>
     (\<forall>c \<in> ran (tr_shards s). length (cd_share (ch_desc c)) = 32 \<and> c = DeriveChild sha root (ch_desc c)) \<and>
     (\<exists>ks. distinct ks \<and> set ks = dom (tr_shards s) \<and>
        Xor (ss_curr (tr_sharer s)) (combine (map (live_share s) ks)) = root)"

lemma ch_desc_DeriveChild [simp]: "ch_desc (DeriveChild sha root d) = d"
  by (simp add: DeriveChild_def Let_def)

lemma NewShard_cases:
  assumes "NewShard sha ri rs pid isLast s = Inr (s', sh)"
  shows "\<exists>curr d. s' = s\<lparr>tr_sharer := \<lparr>ss_root = ss_root (tr_sharer s), ss_curr = curr\<rparr>,
             tr_shards := (tr_shards s)(pid \<mapsto> DeriveChild sha (ss_root (tr_sharer s)) d)\<rparr> \<and>
           (curr = zeroShare \<and> cd_share d = ss_curr (tr_sharer s) \<or>
            (\<exists>x. rs = Some x \<and> cd_share d = x \<and> curr = Xor (ss_curr (tr_sharer s)) x))"
  using assms
  by (cases "tr_sharer s")
     (fastforce simp: NewShard_def trackShard_def Child_def ZeroSharer_def Split_def split_share_def
       split: option.splits if_splits sum.splits prod.splits)

lemma live_share_upd [simp]:
  "live_share (s\<lparr>tr_sharer := sr, tr_shards := (tr_shards s)(pid \<mapsto> c)\<rparr>) k =
     (if k = pid then cd_share (ch_desc c) else live_share s k)"
  by (simp add: live_share_def)

lemma tracker_inv_start: "length root = 32 \<Longrightarrow> tracker_inv sha root (NewShardTracker root setID payAddr amt)"
  by (auto simp: tracker_inv_def NewShardTracker_def SeedSharerFromRoot_def)

lemma tracker_inv_new:
  assumes "tracker_inv sha root s" "NewShard sha ri rs pid isLast s = Inr (s', sh)"
    and fresh: "tr_shards s pid = None" and rand: "\<forall>x. rs = Some x \<longrightarrow> length x = 32"
  shows "tracker_inv sha root s'"
proof -
  let ?c0 = "ss_curr (tr_sharer s)"
  obtain curr d where s': "s' = s\<lparr>tr_sharer := \<lparr>ss_root = ss_root (tr_sharer s), ss_curr = curr\<rparr>,
             tr_shards := (tr_shards s)(pid \<mapsto> DeriveChild sha (ss_root (tr_sharer s)) d)\<rparr>"
    and cases: "curr = zeroShare \<and> cd_share d = ?c0 \<or>
            (\<exists>x. rs = Some x \<and> cd_share d = x \<and> curr = Xor ?c0 x)"
    using NewShard_cases [OF assms(2)] by blast
  obtain ks where ks: "distinct ks" "set ks = dom (tr_shards s)" "Xor ?c0 (combine (map (live_share s) ks)) = root"
    and len: "length root = 32" "length ?c0 = 32" and root: "ss_root (tr_sharer s) = root"
    and live: "\<forall>c \<in> ran (tr_shards s). length (cd_share (ch_desc c)) = 32 \<and> c = DeriveChild sha root (ch_desc c)"
    using assms(1) by (auto simp: tracker_inv_def)
  have sh: "length curr = 32" "length (cd_share d) = 32" "Xor curr (cd_share d) = ?c0"
    using cases rand len by (auto simp: Xor_assoc)
  have "pid \<notin> set ks"
    using fresh ks(2) by auto
  then have "map (live_share s') ks = map (live_share s) ks"
    by (auto simp: s')
  moreover have "live_share s' pid = cd_share d"
    by (simp add: s')
  moreover have "Xor curr (Xor (cd_share d) (combine (map (live_share s) ks))) = root"
    by (simp add: Xor_assoc [symmetric] sh(3) ks(3))
  moreover have "ss_curr (tr_sharer s') = curr"
    by (simp add: s')
  ultimately have "Xor (ss_curr (tr_sharer s')) (combine (map (live_share s') (pid # ks))) = root"
    by (simp cong: map_cong)
  moreover have "distinct (pid # ks)" "set (pid # ks) = dom (tr_shards s')"
    using ks \<open>pid \<notin> set ks\<close> by (simp_all add: s')
  moreover have "\<forall>c \<in> ran (tr_shards s'). length (cd_share (ch_desc c)) = 32 \<and> c = DeriveChild sha root (ch_desc c)"
    using live sh(2) fresh root by (simp add: s')
  ultimately show ?thesis
    unfolding tracker_inv_def using len(1) sh(1) root by (intro conjI exI [of _ "pid # ks"]) (simp_all add: s')
qed

lemma tracker_inv_cancel:
  assumes "tracker_inv sha root s" "CancelShard pid s = Inr s'"
  shows "tracker_inv sha root s'"
proof -
  let ?c0 = "ss_curr (tr_sharer s)"
  obtain c where c: "tr_shards s pid = Some c"
    and s': "s' = s\<lparr>tr_shards := (tr_shards s)(pid := None), tr_sharer := Merge (tr_sharer s) c\<rparr>"
    using assms(2) by (auto simp: CancelShard_def split: option.splits)
  obtain ks where ks: "distinct ks" "set ks = dom (tr_shards s)" "Xor ?c0 (combine (map (live_share s) ks)) = root"
    and len: "length root = 32" "length ?c0 = 32" and root: "ss_root (tr_sharer s) = root"
    and live: "\<forall>c \<in> ran (tr_shards s). length (cd_share (ch_desc c)) = 32 \<and> c = DeriveChild sha root (ch_desc c)"
    using assms(1) by (auto simp: tracker_inv_def)
  have "pid \<in> set ks"
    using c ks(2) by auto
  then have "mset ks = mset (pid # remove1 pid ks)"
    by simp
  then have "mset (map (live_share s) ks) = mset (map (live_share s) (pid # remove1 pid ks))"
    by (simp only: mset_map)
  from combine_perm [OF this]
  have "combine (map (live_share s) ks) = Xor (cd_share (ch_desc c)) (combine (map (live_share s) (remove1 pid ks)))"
    using c by (simp add: live_share_def)
  moreover have "map (live_share s') (remove1 pid ks) = map (live_share s) (remove1 pid ks)"
    using ks(1) by (auto simp: s' live_share_def)
  moreover have "ss_curr (tr_sharer s') = Xor ?c0 (cd_share (ch_desc c))"
    by (simp add: s' Merge_def)
  ultimately have "Xor (ss_curr (tr_sharer s')) (combine (map (live_share s') (remove1 pid ks))) = root"
    using ks(3) by (simp add: Xor_assoc del: map_eq_conv)
  moreover have "set (remove1 pid ks) = dom (tr_shards s')" "distinct (remove1 pid ks)"
    using ks by (auto simp: s')
  moreover have "c \<in> ran (tr_shards s)" "ran (tr_shards s') \<subseteq> ran (tr_shards s)"
    using c by (auto simp: s' ran_def)
  ultimately show ?thesis
    unfolding tracker_inv_def using len root live
    by (intro conjI exI [of _ "remove1 pid ks"]) (auto simp: s' Merge_def)
qed

lemma tracker_inv_run:
  "tracker_run sha s s' \<Longrightarrow> tracker_inv sha root s \<Longrightarrow> tracker_inv sha root s'"
  by (induction rule: tracker_run.induct)
     (auto elim!: tracker_step.cases intro: tracker_inv_new tracker_inv_cancel)

text \<open>The descriptors a receiver gets, in whatever order, and the children the sender derived.\<close>

definition live_descs :: "shard_tracker \<Rightarrow> u64 list \<Rightarrow> child_desc list" where
  "live_descs s ks = map (\<lambda>k. ch_desc (the (tr_shards s k))) ks"

lemma tracker_inv_complete:
  assumes "tracker_inv sha root s" "ss_curr (tr_sharer s) = zeroShare"
    and "distinct ks" "set ks = dom (tr_shards s)"
  shows "combine (map cd_share (live_descs s ks)) = root"
proof -
  obtain ks' where ks': "distinct ks'" "set ks' = dom (tr_shards s)"
      "Xor (ss_curr (tr_sharer s)) (combine (map (live_share s) ks')) = root"
    and live: "\<forall>c \<in> ran (tr_shards s). length (cd_share (ch_desc c)) = 32"
    using assms(1) by (auto simp: tracker_inv_def)
  have "\<forall>x \<in> set (map (live_share s) ks'). length x = 32"
    using live ks'(2) by (fastforce simp: live_share_def ran_def)
  then have "combine (map (live_share s) ks') = root"
    using ks'(3) assms(2) by (simp add: length_combine)
  moreover have "mset ks = mset ks'"
    using assms(3,4) ks'(1,2) by (simp add: set_eq_iff_mset_eq_distinct [symmetric])
  then have "combine (map (live_share s) ks) = combine (map (live_share s) ks')"
    by (intro combine_perm) simp
  ultimately show ?thesis
    by (simp add: live_descs_def live_share_def [abs_def] o_def)
qed

lemma tracker_inv_reconstruct:
  assumes "tracker_inv sha root s" "ss_curr (tr_sharer s) = zeroShare"
    and "distinct ks" "set ks = dom (tr_shards s)"
  shows "ReconstructChildren sha (live_descs s ks) = map (\<lambda>k. the (tr_shards s k)) ks"
proof -
  have live: "\<forall>c \<in> ran (tr_shards s). length (cd_share (ch_desc c)) = 32 \<and> c = DeriveChild sha root (ch_desc c)"
    using assms(1) by (simp add: tracker_inv_def)
  have k: "the (tr_shards s k) \<in> ran (tr_shards s)" if "k \<in> set ks" for k
    using that assms(4) by (auto simp: ran_def)
  have child: "DeriveChild sha root (ch_desc (the (tr_shards s k))) = the (tr_shards s k)" if "k \<in> set ks" for k
    by (rule conjunct2 [OF bspec [OF live k [OF that]], symmetric])
  have "\<forall>d \<in> set (live_descs s ks). length (cd_share d) = 32"
    using conjunct1 [OF bspec [OF live k]] by (auto simp: live_descs_def)
  then have "ReconstructChildren sha (live_descs s ks) = map (DeriveChild sha root) (live_descs s ks)"
    by (simp add: ReconstructChildren_combine tracker_inv_complete [OF assms])
  then show ?thesis
    using child by (simp add: live_descs_def)
qed

section \<open>A sample\<close>

lemma NewShard_dom:
  assumes "NewShard sha ri rs pid isLast s = Inr (s', sh)"
  shows "dom (tr_shards s') = insert pid (dom (tr_shards s))"
proof -
  obtain curr d where "s' = s\<lparr>tr_sharer := curr, tr_shards := (tr_shards s)(pid \<mapsto> d)\<rparr>"
    using NewShard_cases [OF assms] by blast
  then show ?thesis by simp
qed

lemma NewShard_last: "NewShard sha ri rs pid True s = Inr (s', sh) \<Longrightarrow> ss_curr (tr_sharer s') = zeroShare"
  by (auto simp: NewShard_def trackShard_def ZeroSharer_def split: option.splits)

text \<open>A sender that splits once.\<close>

definition twoShards :: "shard_tracker \<times> shard_tracker" where
  "twoShards =
     (case NewShard rev (Some 5) (Some (replicate 32 6)) 1 False (NewShardTracker (replicate 32 3) [1] [2] 1000) of
        Inl e \<Rightarrow> undefined
      | Inr (s1, sh1) \<Rightarrow>
          (case NewShard rev (Some 8) None 2 True s1 of Inl e \<Rightarrow> undefined | Inr (s2, sh2) \<Rightarrow> (s1, s2)))"

lemma twoShards_run:
  "tracker_run rev (NewShardTracker (replicate 32 3) [1] [2] 1000) (snd twoShards)"
  "ss_curr (tr_sharer (snd twoShards)) = zeroShare" "dom (tr_shards (snd twoShards)) = {1, 2}"
proof -
  let ?s0 = "NewShardTracker (replicate 32 3) [1] [2] 1000"
  obtain s1 sh1 where s1: "NewShard rev (Some 5) (Some (replicate 32 6)) 1 False ?s0 = Inr (s1, sh1)"
    by (auto simp: NewShard_def trackShard_def NewShardTracker_def Split_def split_share_def SeedSharerFromRoot_def
        zeroShare_def replicate_eq_replicate)
  obtain s2 sh2 where s2: "NewShard rev (Some 8) None 2 True s1 = Inr (s2, sh2)"
    by (auto simp: NewShard_def trackShard_def)
  have two: "twoShards = (s1, s2)"
    by (simp add: twoShards_def s1 s2)
  have d: "dom (tr_shards s1) = {1}" "dom (tr_shards s2) = {1, 2}" "ss_curr (tr_sharer s2) = zeroShare"
    using NewShard_dom [OF s1] NewShard_dom [OF s2] NewShard_last [OF s2] by (auto simp: NewShardTracker_def)
  then have "2 \<notin> dom (tr_shards s1)"
    by simp
  then have "tr_shards s1 2 = None"
    by (simp only: domIff not_not)
  then show "tracker_run rev ?s0 (snd twoShards)"
    using tr_step [OF tr_step [OF tr_start ts_new [OF s1]] ts_new [OF s2]]
    by (simp add: two NewShardTracker_def)
  show "ss_curr (tr_sharer (snd twoShards)) = zeroShare" "dom (tr_shards (snd twoShards)) = {1, 2}"
    using d by (simp_all add: two)
qed

end
