(* ===== verification/Invoice.thy ===== *)
theory Invoice
  imports Amp Feature "HOL-Library.AList"
begin

text \<open>
  Invoices and their updates: the data of \<open>invoices/invoices.go\<close> and the update of an invoice in memory
  of \<open>invoices/update_invoice.go\<close>, together with the updater of the key-value database
  (\<open>kvInvoiceUpdater\<close> of \<open>channeldb/invoices.go\<close>), of whose methods those that do nothing are left out.
  A map that Go ranges over is visited in the order of a list of keys that is an argument. Signed 32-bit
  heights are words, times are integers. An access through a nil pointer, a panic in Go, is the error
  \<open>NilPointer\<close>. Not modelled: labels (memo, payment request), wire custom records of a stored HTLC
  (an update merges them into its custom records).
\<close>

section \<open>Data\<close>

type_synonym set_id = "byte list"
type_synonym preimage = "byte list"
type_synonym pay_hash = "byte list"

datatype invoice_error =
    ErrInvoiceAlreadySettled | ErrInvoiceAlreadyCanceled | ErrInvoiceStillOpen | ErrInvoiceCannotOpen
  | ErrInvoiceCannotAccept | ErrInvoicePreimageMismatch | ErrHTLCPreimageMissing | ErrHTLCPreimageMismatch
  | ErrHTLCAlreadySettled | ErrInvoiceHasHtlcs | ErrEmptyHTLCSet | ErrUnexpectedInvoicePreimage
  | ErrHTLCPreimageAlreadyExists | ErrInvoiceNotFound | ErrDuplicateInvoice | ErrDuplicatePayAddr
  | ErrInvRefEquivocation | ErrDuplicateSetID
  | CancelOfUnknownHtlc | DuplicateAdd | AmpDataMissing | NotHodlInvoice | InvalidStateUpdate | PreimageIsNil
  | AmpSetWithPreimage | UnknownInvoicePreimage | UnknownAmpSet | HtlcCanceledOnInvoice | HtlcCanceledInState
  | UnknownUpdateType | AllZeroPreimage | HtlcNotFound | AcceptedHtlcNotPresent | InterceptorFailed | InvalidInvoice
  | UnknownInIndex | NilPointer

datatype contract_state = ContractOpen | ContractSettled | ContractCanceled | ContractAccepted

datatype htlc_state = HtlcStateAccepted | HtlcStateCanceled | HtlcStateSettled

record contract_term =
  ct_finalCltvDelta :: u32
  ct_expiry :: int
  ct_paymentPreimage :: "preimage option"
  ct_value :: msat
  ct_paymentAddr :: "byte list"
  ct_features :: "feature_vector option"

record amp_data =
  ad_record :: amp_record
  ad_hash :: pay_hash
  ad_preimage :: "preimage option"

record invoice_htlc =
  ih_amt :: msat
  ih_mppTotalAmt :: msat
  ih_acceptHeight :: u32
  ih_acceptTime :: int
  ih_resolveTime :: int
  ih_expiry :: u32
  ih_state :: htlc_state
  ih_customRecords :: "u64 \<rightharpoonup> byte list"
  ih_amp :: "amp_data option"

record invoice_state_amp =
  as_state :: htlc_state
  as_settleIndex :: u64
  as_settleDate :: int
  as_invoiceKeys :: "circuit_key set"
  as_amtPaid :: msat

record invoice =
  iv_creationDate :: int
  iv_settleDate :: int
  iv_terms :: contract_term
  iv_addIndex :: u64
  iv_settleIndex :: u64
  iv_state :: contract_state
  iv_amtPaid :: msat
  iv_htlcs :: "circuit_key \<rightharpoonup> invoice_htlc"
  iv_ampState :: "set_id \<rightharpoonup> invoice_state_amp"
  iv_hodlInvoice :: bool

definition IsAMP :: "invoice \<Rightarrow> bool" where
  "IsAMP iv = (case ct_features (iv_terms iv) of None \<Rightarrow> False | Some fv \<Rightarrow> HasFeature fv AMPRequired)"

definition IsInHTLCSet :: "invoice_htlc \<Rightarrow> set_id option \<Rightarrow> bool" where
  "IsInHTLCSet h setID =
     (case (setID, ih_amp h) of
        (None, None) \<Rightarrow> True
      | (Some i, Some a) \<Rightarrow> i = ar_setID (ad_record a)
      | _ \<Rightarrow> False)"

definition HTLCSet :: "invoice \<Rightarrow> set_id option \<Rightarrow> htlc_state \<Rightarrow> circuit_key \<rightharpoonup> invoice_htlc" where
  "HTLCSet iv setID st k =
     (case iv_htlcs iv k of
        None \<Rightarrow> None
      | Some h \<Rightarrow> if ih_state h = st \<and> IsInHTLCSet h setID then Some h else None)"

definition HTLCSetCompliment :: "invoice \<Rightarrow> set_id option \<Rightarrow> htlc_state \<Rightarrow> circuit_key \<rightharpoonup> invoice_htlc" where
  "HTLCSetCompliment iv setID st k =
     (case iv_htlcs iv k of
        None \<Rightarrow> None
      | Some h \<Rightarrow> if ih_state h = st \<and> \<not> IsInHTLCSet h setID then Some h else None)"

section \<open>Update descriptors\<close>

record htlc_accept_desc =
  hd_acceptHeight :: u32
  hd_amt :: msat
  hd_mppTotalAmt :: msat
  hd_expiry :: u32
  hd_customRecords :: "u64 \<rightharpoonup> byte list"
  hd_amp :: "amp_data option"

datatype update_type =
    UnknownUpdate | CancelHTLCsUpdate | AddHTLCsUpdate | SettleHodlInvoiceUpdate | CancelInvoiceUpdate

record invoice_state_update =
  su_newState :: contract_state
  su_preimage :: "preimage option"
  su_htlcPreimages :: "(circuit_key \<times> preimage) list"
  su_setID :: "set_id option"

record invoice_update =
  iu_state :: "invoice_state_update option"
  iu_cancelHtlcs :: "circuit_key list"
  iu_addHtlcs :: "(circuit_key \<times> htlc_accept_desc) list"
  iu_setID :: "set_id option"
  iu_updateType :: update_type

text \<open>The keys of a map in the order in which Go visits them.\<close>

definition range_keys :: "circuit_key list \<Rightarrow> (circuit_key \<rightharpoonup> 'a) \<Rightarrow> circuit_key list" where
  "range_keys order m = filter (\<lambda>k. m k \<noteq> None) order"

definition put_htlc :: "circuit_key \<Rightarrow> invoice_htlc \<Rightarrow> invoice \<Rightarrow> invoice" where
  "put_htlc k h iv = iv\<lparr>iv_htlcs := (iv_htlcs iv)(k \<mapsto> h)\<rparr>"

fun for_each :: "('a \<Rightarrow> 's \<Rightarrow> 'e + 's) \<Rightarrow> 'a list \<Rightarrow> 's \<Rightarrow> 'e + 's" where
  "for_each f [] s = Inr s"
| "for_each f (x # xs) s = (case f x s of Inl e \<Rightarrow> Inl e | Inr s' \<Rightarrow> for_each f xs s')"

section \<open>The updater of the key-value database\<close>

record kv_updater =
  ku_updatedAmpHtlcs :: "(set_id \<times> (circuit_key \<Rightarrow> bool)) list"
  ku_settledSetIDs :: "set_id list"

definition emptyUpdater :: kv_updater where
  "emptyUpdater = \<lparr>ku_updatedAmpHtlcs = [], ku_settledSetIDs = []\<rparr>"

text \<open>
  The source collects pointers to HTLCs and writes what they point to at the end; the model collects
  their keys.
\<close>

definition UpdateAmpState :: "set_id \<Rightarrow> invoice_state_amp \<Rightarrow> circuit_key \<Rightarrow> invoice \<Rightarrow> kv_updater \<Rightarrow> kv_updater" where
  "UpdateAmpState setID state k iv u =
     (let tracked = (case map_of (ku_updatedAmpHtlcs u) setID of
            Some p \<Rightarrow> p
          | None \<Rightarrow> (case as_state state of
              HtlcStateAccepted \<Rightarrow> (\<lambda>c. HTLCSet iv (Some setID) HtlcStateAccepted c \<noteq> None)
            | HtlcStateCanceled \<Rightarrow> (\<lambda>c. HTLCSet iv (Some setID) HtlcStateAccepted c \<noteq> None \<or>
                                       HTLCSet iv (Some setID) HtlcStateCanceled c \<noteq> None)
            | HtlcStateSettled \<Rightarrow> (\<lambda>c. False)))
      in u\<lparr>ku_updatedAmpHtlcs := AList.update setID (tracked(k := True)) (ku_updatedAmpHtlcs u),
           ku_settledSetIDs := (if as_state state = HtlcStateSettled then List.insert setID (ku_settledSetIDs u)
                                else ku_settledSetIDs u)\<rparr>)"

section \<open>States\<close>

definition getUpdatedInvoiceState ::
  "(byte list \<Rightarrow> byte list) \<Rightarrow> circuit_key list \<Rightarrow> invoice \<Rightarrow> pay_hash option \<Rightarrow> invoice_state_update \<Rightarrow>
     invoice_error + contract_state" where
  "getUpdatedInvoiceState sha order iv hash upd =
     (let proceed =
        (if su_newState upd = ContractCanceled then Inr (su_newState upd)
         else if range_keys order (HTLCSet iv (su_setID upd) HtlcStateAccepted) = [] then Inl ErrEmptyHTLCSet
         else if su_setID upd \<noteq> None then
           (if su_preimage upd \<noteq> None then Inl AmpSetWithPreimage else Inr (su_newState upd))
         else case su_preimage upd of
           Some p \<Rightarrow>
             (case hash of
                None \<Rightarrow> Inl ErrUnexpectedInvoicePreimage
              | Some h \<Rightarrow> if sha p \<noteq> h then Inl ErrInvoicePreimageMismatch else Inr (su_newState upd))
         | None \<Rightarrow>
             if su_newState upd = ContractAccepted then Inr (su_newState upd)
             else if su_newState upd = ContractSettled \<and> ct_paymentPreimage (iv_terms iv) = None
             then Inl UnknownInvoicePreimage
             else Inr (su_newState upd))
      in if su_newState upd = ContractOpen then Inl ErrInvoiceCannotOpen
         else case iv_state iv of
           ContractAccepted \<Rightarrow> if su_newState upd = ContractAccepted then Inl ErrInvoiceCannotAccept else proceed
         | ContractOpen \<Rightarrow> proceed
         | ContractSettled \<Rightarrow> Inl ErrInvoiceAlreadySettled
         | ContractCanceled \<Rightarrow> Inl ErrInvoiceAlreadyCanceled)"

definition getUpdatedInvoiceAmpState ::
  "invoice \<Rightarrow> set_id \<Rightarrow> circuit_key \<Rightarrow> htlc_state \<Rightarrow> msat \<Rightarrow> invoice_error + invoice_state_amp" where
  "getUpdatedInvoiceAmpState iv setID k state amt =
     (let fresh = \<lparr>as_state = HtlcStateAccepted, as_settleIndex = 0, as_settleDate = 0, as_invoiceKeys = {},
                   as_amtPaid = 0\<rparr>;
          addKey = (\<lambda>s. s\<lparr>as_invoiceKeys := insert k (as_invoiceKeys s)\<rparr>)
      in case (iv_ampState iv setID, state) of
           (None, HtlcStateAccepted) \<Rightarrow> Inr (addKey (fresh\<lparr>as_amtPaid := as_amtPaid fresh + amt\<rparr>))
         | (None, _) \<Rightarrow> Inl UnknownAmpSet
         | (Some s, HtlcStateAccepted) \<Rightarrow> Inr (addKey (s\<lparr>as_amtPaid := as_amtPaid s + amt\<rparr>))
         | (Some s, HtlcStateCanceled) \<Rightarrow>
             Inr (addKey (s\<lparr>as_state := HtlcStateCanceled, as_amtPaid := as_amtPaid s - amt\<rparr>))
         | (Some s, HtlcStateSettled) \<Rightarrow> Inr (addKey (s\<lparr>as_state := HtlcStateSettled\<rparr>)))"

definition canCancelSingleHtlc :: "invoice_htlc \<Rightarrow> contract_state \<Rightarrow> invoice_error option" where
  "canCancelSingleHtlc h st =
     (if st \<noteq> ContractOpen then Some HtlcCanceledOnInvoice
      else if ih_state h \<noteq> HtlcStateAccepted then Some HtlcCanceledInState
      else None)"

definition trySettle ::
  "(byte list \<Rightarrow> byte list) \<Rightarrow> invoice_htlc \<Rightarrow> set_id option \<Rightarrow> bool \<Rightarrow> invoice_error + bool \<times> htlc_state" where
  "trySettle sha h setID persist =
     (if ih_state h \<noteq> HtlcStateAccepted then Inr (False, ih_state h)
      else if \<not> IsInHTLCSet h setID then Inr (False, ih_state h)
      else case (setID, ih_amp h) of
        (Some i, Some a) \<Rightarrow>
          (case ad_preimage a of
             None \<Rightarrow> Inl ErrHTLCPreimageMissing
           | Some p \<Rightarrow> if sha p \<noteq> ad_hash a then Inl ErrHTLCPreimageMismatch else Inr (persist, HtlcStateSettled))
      | _ \<Rightarrow> Inr (persist, HtlcStateSettled))"

definition getUpdatedHtlcState ::
  "(byte list \<Rightarrow> byte list) \<Rightarrow> invoice_htlc \<Rightarrow> contract_state \<Rightarrow> set_id option \<Rightarrow> invoice_error + bool \<times> htlc_state" where
  "getUpdatedHtlcState sha h st setID =
     (if st = ContractSettled then trySettle sha h setID True
      else if ih_state h = HtlcStateSettled then Inl ErrHTLCAlreadySettled
      else case st of
        ContractCanceled \<Rightarrow> Inr (ih_state h \<noteq> HtlcStateCanceled, HtlcStateCanceled)
      | ContractAccepted \<Rightarrow> trySettle sha h setID False
      | _ \<Rightarrow> Inr (False, ih_state h))"

definition resolveHtlc :: "circuit_key \<Rightarrow> htlc_state \<Rightarrow> int \<Rightarrow> invoice_htlc \<Rightarrow> invoice \<Rightarrow> invoice" where
  "resolveHtlc k state now h iv = put_htlc k (h\<lparr>ih_state := state, ih_resolveTime := now\<rparr>) iv"

section \<open>HTLC sets of AMP invoices\<close>

type_synonym update_state = "invoice \<times> kv_updater"

definition put_amp_state :: "set_id \<Rightarrow> circuit_key \<Rightarrow> invoice_state_amp \<Rightarrow> update_state \<Rightarrow> update_state" where
  "put_amp_state setID k s = (\<lambda>(iv, u).
     let iv' = iv\<lparr>iv_ampState := (iv_ampState iv)(setID \<mapsto> s)\<rparr> in (iv', UpdateAmpState setID s k iv' u))"

definition acceptHtlcsAmp :: "set_id \<Rightarrow> circuit_key \<Rightarrow> invoice_htlc \<Rightarrow> update_state \<Rightarrow> invoice_error + update_state" where
  "acceptHtlcsAmp setID k h st =
     (case getUpdatedInvoiceAmpState (fst st) setID k HtlcStateAccepted (ih_amt h) of
        Inl e \<Rightarrow> Inl e
      | Inr s \<Rightarrow> Inr (put_amp_state setID k s st))"

definition cancelHtlcsAmp :: "circuit_key \<Rightarrow> invoice_htlc \<Rightarrow> update_state \<Rightarrow> invoice_error + update_state" where
  "cancelHtlcsAmp k h st =
     (case ih_amp h of
        None \<Rightarrow> Inl NilPointer
      | Some a \<Rightarrow>
          (let setID = ar_setID (ad_record a)
           in case getUpdatedInvoiceAmpState (fst st) setID k HtlcStateCanceled (ih_amt h) of
                Inl e \<Rightarrow> Inl e
              | Inr s \<Rightarrow>
                  (case put_amp_state setID k s st of
                     (iv, u) \<Rightarrow> Inr (if iv_amtPaid iv \<noteq> 0 then iv\<lparr>iv_amtPaid := iv_amtPaid iv - ih_amt h\<rparr> else iv, u))))"

definition settleHtlcsAmp :: "circuit_key \<Rightarrow> invoice_htlc \<Rightarrow> update_state \<Rightarrow> invoice_error + update_state" where
  "settleHtlcsAmp k h st =
     (case ih_amp h of
        None \<Rightarrow> Inl NilPointer
      | Some a \<Rightarrow>
          (let setID = ar_setID (ad_record a)
           in case getUpdatedInvoiceAmpState (fst st) setID k HtlcStateSettled 0 of
                Inl e \<Rightarrow> Inl e
              | Inr s \<Rightarrow> Inr (put_amp_state setID k s st)))"

section \<open>Applying an update\<close>

definition cancelHTLCs_step :: "int \<Rightarrow> circuit_key \<Rightarrow> update_state \<Rightarrow> invoice_error + update_state" where
  "cancelHTLCs_step now k st =
     (case iv_htlcs (fst st) k of
        None \<Rightarrow> Inl CancelOfUnknownHtlc
      | Some h \<Rightarrow>
          (case canCancelSingleHtlc h (iv_state (fst st)) of
             Some e \<Rightarrow> Inl e
           | None \<Rightarrow>
               (let st' = (resolveHtlc k HtlcStateCanceled now h (fst st), snd st)
                in if IsAMP (fst st') then cancelHtlcsAmp k h st' else Inr st')))"

definition cancelHTLCs :: "int \<Rightarrow> invoice_update \<Rightarrow> update_state \<Rightarrow> invoice_error + update_state" where
  "cancelHTLCs now upd st = for_each (cancelHTLCs_step now) (iu_cancelHtlcs upd) st"

definition addHTLCs_add :: "int \<Rightarrow> circuit_key \<times> htlc_accept_desc \<Rightarrow> update_state \<Rightarrow> invoice_error + update_state" where
  "addHTLCs_add now = (\<lambda>(k, d) st.
     if iv_htlcs (fst st) k \<noteq> None then Inl DuplicateAdd
     else
       let h = \<lparr>ih_amt = hd_amt d, ih_mppTotalAmt = hd_mppTotalAmt d, ih_acceptHeight = hd_acceptHeight d,
                ih_acceptTime = now, ih_resolveTime = 0, ih_expiry = hd_expiry d, ih_state = HtlcStateAccepted,
                ih_customRecords = hd_customRecords d,
                ih_amp = (if IsAMP (fst st) then hd_amp d else None)\<rparr>
       in if IsAMP (fst st) then
            (case hd_amp d of
               None \<Rightarrow> Inl AmpDataMissing
             | Some a \<Rightarrow> acceptHtlcsAmp (ar_setID (ad_record a)) k h (put_htlc k h (fst st), snd st))
          else Inr (put_htlc k h (fst st), snd st))"

text \<open>The preimages of an AMP set, before the states of its HTLCs are aligned.\<close>

definition addHTLCs_preimage ::
  "set_id option \<Rightarrow> invoice_update \<Rightarrow> circuit_key \<Rightarrow> invoice_htlc \<Rightarrow> invoice_error + invoice_htlc" where
  "addHTLCs_preimage setID upd k h =
     (case (setID, iu_state upd) of
        (Some i, Some su) \<Rightarrow>
          (case map_of (su_htlcPreimages su) k of
             None \<Rightarrow> Inr h
           | Some p \<Rightarrow>
               (case ih_amp h of
                  None \<Rightarrow> Inl NilPointer
                | Some a \<Rightarrow>
                    (case ad_preimage a of
                       None \<Rightarrow> Inr (h\<lparr>ih_amp := Some (a\<lparr>ad_preimage := Some p\<rparr>)\<rparr>)
                     | Some q \<Rightarrow> if q \<noteq> p then Inl ErrHTLCPreimageAlreadyExists else Inr h)))
      | _ \<Rightarrow> Inr h)"

definition addHTLCs_align ::
  "(byte list \<Rightarrow> byte list) \<Rightarrow> int \<Rightarrow> set_id option \<Rightarrow> invoice_update \<Rightarrow> circuit_key \<Rightarrow>
     update_state \<times> msat \<Rightarrow> invoice_error + update_state \<times> msat" where
  "addHTLCs_align sha now setID upd k = (\<lambda>((iv, u), amtPaid).
     case iv_htlcs iv k of
       None \<Rightarrow> Inr ((iv, u), amtPaid)
     | Some h0 \<Rightarrow>
         (case addHTLCs_preimage setID upd k h0 of
            Inl e \<Rightarrow> Inl e
          | Inr h \<Rightarrow>
              (let settleEligibleAMP = (case iu_state upd of None \<Rightarrow> False | Some su \<Rightarrow> su_htlcPreimages su \<noteq> []);
                   context = (if settleEligibleAMP then ContractSettled else iv_state iv)
               in case getUpdatedHtlcState sha h context setID of
                    Inl e \<Rightarrow> Inl e
                  | Inr (changed, state) \<Rightarrow>
                      (let inv1 = (if changed then resolveHtlc k state now h iv else put_htlc k h iv);
                           settledNow = (changed \<and> state = HtlcStateSettled)
                       in case (if settledNow \<and> IsAMP inv1 then settleHtlcsAmp k h (inv1, u) else Inr (inv1, u)) of
                            Inl e \<Rightarrow> Inl e
                          | Inr (inv2, u2) \<Rightarrow>
                              (let h2 = the (iv_htlcs inv2 k);
                                   ready = (ih_state h2 = HtlcStateAccepted \<or> ih_state h2 = HtlcStateSettled);
                                   counts = (if \<not> IsAMP inv2 then iv_state inv2 \<noteq> ContractOpen \<and> ready
                                             else map_of (iu_addHtlcs upd) k \<noteq> None \<and>
                                                  iv_state inv2 = ContractOpen \<and> ready)
                               in Inr ((inv2, u2), if counts then amtPaid + ih_amt h2 else amtPaid))))))"

definition addHTLCs ::
  "(byte list \<Rightarrow> byte list) \<Rightarrow> circuit_key list \<Rightarrow> pay_hash option \<Rightarrow> int \<Rightarrow> invoice_update \<Rightarrow> update_state \<Rightarrow>
     invoice_error + update_state" where
  "addHTLCs sha order hash now upd st0 =
     (let isAMP = IsAMP (fst st0);
          setID = (if isAMP then (case iu_state upd of None \<Rightarrow> None | Some su \<Rightarrow> su_setID su) else None)
      in case for_each (addHTLCs_add now) (iu_addHtlcs upd) st0 of
           Inl e \<Rightarrow> Inl e
         | Inr (inv1, u1) \<Rightarrow>
             (case (case iu_state upd of
                      None \<Rightarrow> Inr inv1
                    | Some su \<Rightarrow>
                        (case getUpdatedInvoiceState sha order inv1 hash su of
                           Inl e \<Rightarrow> Inl e
                         | Inr newState \<Rightarrow>
                             Inr (if \<not> isAMP \<or> newState = ContractCanceled then inv1\<lparr>iv_state := newState\<rparr> else inv1))) of
                Inl e \<Rightarrow> Inl e
              | Inr inv2 \<Rightarrow>
                  (case for_each (addHTLCs_align sha now setID upd) (range_keys order (iv_htlcs inv2)) ((inv2, u1), 0) of
                     Inl e \<Rightarrow> Inl e
                   | Inr ((inv3, u3), amtPaid) \<Rightarrow>
                       Inr (inv3\<lparr>iv_amtPaid := (if isAMP then amtPaid + iv_amtPaid inv3 else amtPaid)\<rparr>, u3))))"

definition settleHodl_step ::
  "(byte list \<Rightarrow> byte list) \<Rightarrow> int \<Rightarrow> circuit_key \<Rightarrow> invoice \<times> msat \<Rightarrow> invoice_error + invoice \<times> msat" where
  "settleHodl_step sha now k = (\<lambda>(iv, amtPaid).
     case iv_htlcs iv k of
       None \<Rightarrow> Inr (iv, amtPaid)
     | Some h \<Rightarrow>
         (case getUpdatedHtlcState sha h ContractSettled None of
            Inl e \<Rightarrow> Inl e
          | Inr (settled, _) \<Rightarrow>
              if settled then Inr (resolveHtlc k HtlcStateSettled now h iv, amtPaid + ih_amt h)
              else Inr (iv, amtPaid)))"

definition settleHodlInvoice ::
  "(byte list \<Rightarrow> byte list) \<Rightarrow> circuit_key list \<Rightarrow> pay_hash option \<Rightarrow> int \<Rightarrow> invoice_state_update option \<Rightarrow> invoice \<Rightarrow>
     invoice_error + invoice" where
  "settleHodlInvoice sha order hash now upd iv =
     (if \<not> iv_hodlInvoice iv then Inl NotHodlInvoice
      else case upd of
        None \<Rightarrow> Inl InvalidStateUpdate
      | Some su \<Rightarrow>
          if su_newState su \<noteq> ContractSettled then Inl InvalidStateUpdate
          else if su_preimage su = None then Inl PreimageIsNil
          else case getUpdatedInvoiceState sha order iv hash su of
            Inl e \<Rightarrow> Inl e
          | Inr newState \<Rightarrow>
              if newState \<noteq> ContractSettled then Inl InvalidStateUpdate
              else
                let inv1 = iv\<lparr>iv_state := ContractSettled,
                               iv_terms := (iv_terms iv)\<lparr>ct_paymentPreimage := su_preimage su\<rparr>\<rparr>
                in case for_each (settleHodl_step sha now) (range_keys order (iv_htlcs inv1)) (inv1, 0) of
                     Inl e \<Rightarrow> Inl e
                   | Inr (inv2, amtPaid) \<Rightarrow> Inr (inv2\<lparr>iv_amtPaid := amtPaid\<rparr>))"

definition cancelInvoice_step ::
  "(byte list \<Rightarrow> byte list) \<Rightarrow> int \<Rightarrow> set_id option \<Rightarrow> circuit_key \<Rightarrow> update_state \<Rightarrow> invoice_error + update_state" where
  "cancelInvoice_step sha now setID k st =
     (case iv_htlcs (fst st) k of
        None \<Rightarrow> Inr st
      | Some h \<Rightarrow>
          (case getUpdatedHtlcState sha h ContractCanceled setID of
             Inl e \<Rightarrow> Inl e
           | Inr (canceled, _) \<Rightarrow>
               if canceled then
                 (let st' = (resolveHtlc k HtlcStateCanceled now h (fst st), snd st)
                  in if ih_amp h \<noteq> None then cancelHtlcsAmp k h st' else Inr st')
               else Inr st))"

definition cancelInvoice ::
  "(byte list \<Rightarrow> byte list) \<Rightarrow> circuit_key list \<Rightarrow> pay_hash option \<Rightarrow> int \<Rightarrow> invoice_state_update option \<Rightarrow> update_state \<Rightarrow>
     invoice_error + update_state" where
  "cancelInvoice sha order hash now upd st =
     (case upd of
        None \<Rightarrow> Inl InvalidStateUpdate
      | Some su \<Rightarrow>
          if su_newState su \<noteq> ContractCanceled then Inl InvalidStateUpdate
          else
            let setID = (if IsAMP (fst st) then su_setID su else None)
            in case getUpdatedInvoiceState sha order (fst st) hash su of
                 Inl e \<Rightarrow> Inl e
               | Inr newState \<Rightarrow>
                   if newState \<noteq> ContractCanceled then Inl InvalidStateUpdate
                   else
                     let inv1 = (fst st)\<lparr>iv_state := ContractCanceled\<rparr>
                     in for_each (cancelInvoice_step sha now setID) (range_keys order (iv_htlcs inv1)) (inv1, snd st))"

text \<open>
  \<open>UpdateInvoice\<close> without the call of \<open>Finalize\<close>, which is the database's (theory \<open>Invoice_Store\<close>).
\<close>

definition applyUpdate ::
  "(byte list \<Rightarrow> byte list) \<Rightarrow> circuit_key list \<Rightarrow> pay_hash option \<Rightarrow> int \<Rightarrow> invoice_update \<Rightarrow> update_state \<Rightarrow>
     invoice_error + update_state" where
  "applyUpdate sha order hash now upd st =
     (case iu_updateType upd of
        CancelHTLCsUpdate \<Rightarrow> cancelHTLCs now upd st
      | AddHTLCsUpdate \<Rightarrow> addHTLCs sha order hash now upd st
      | SettleHodlInvoiceUpdate \<Rightarrow>
          (case settleHodlInvoice sha order hash now (iu_state upd) (fst st) of
             Inl e \<Rightarrow> Inl e
           | Inr iv \<Rightarrow> Inr (iv, snd st))
      | CancelInvoiceUpdate \<Rightarrow> cancelInvoice sha order hash now (iu_state upd) st
      | UnknownUpdate \<Rightarrow> Inl UnknownUpdateType)"

end
