(* ===== verification/Invoice_Store.thy ===== *)
theory Invoice_Store
  imports Invoice
begin

text \<open>
  The invoice database (\<open>channeldb/invoices.go\<close>): its buckets as maps, adding, fetching, updating and
  deleting an invoice. A transaction that fails leaves the database as it was. The HTLCs of an AMP invoice
  are stored apart from it, one entry per set; the entries of an invoice are a list in the order of their
  first storage (the bucket orders them by set ID, which makes no difference, since an HTLC belongs to one
  set). The codecs of the stored values are not modelled, nor are AMP invoices with HTLCs stored in line,
  which versions before recurring AMP payments wrote.
\<close>

definition BlankPayAddr :: "byte list" where
  "BlankPayAddr = replicate 32 0"

definition allZeroPreimage :: preimage where
  "allZeroPreimage = replicate 32 0"

record invoice_db =
  db_invoices :: "u32 \<rightharpoonup> invoice"
  db_ampHtlcs :: "u32 \<Rightarrow> (set_id \<times> (circuit_key \<rightharpoonup> invoice_htlc)) list"
  db_invoiceIndex :: "pay_hash \<rightharpoonup> u32"
  db_payAddrIndex :: "byte list \<rightharpoonup> u32"
  db_setIDIndex :: "set_id \<rightharpoonup> u32"
  db_addIndex :: "u64 \<rightharpoonup> u32"
  db_settleIndex :: "u64 \<rightharpoonup> u32 \<times> set_id option"
  db_numInvoices :: u32
  db_addSeq :: u64
  db_settleSeq :: u64

definition emptyDB :: invoice_db where
  "emptyDB =
     \<lparr>db_invoices = Map.empty, db_ampHtlcs = (\<lambda>_. []), db_invoiceIndex = Map.empty, db_payAddrIndex = Map.empty,
      db_setIDIndex = Map.empty, db_addIndex = Map.empty, db_settleIndex = Map.empty, db_numInvoices = 0,
      db_addSeq = 0, db_settleSeq = 0\<rparr>"

record invoice_ref =
  rf_payHash :: "pay_hash option"
  rf_payAddr :: "byte list option"
  rf_setID :: "set_id option"

definition invoiceRefByHash :: "pay_hash \<Rightarrow> invoice_ref" where
  "invoiceRefByHash h = \<lparr>rf_payHash = Some h, rf_payAddr = None, rf_setID = None\<rparr>"

definition invoiceRefByHashAndAddr :: "pay_hash \<Rightarrow> byte list \<Rightarrow> invoice_ref" where
  "invoiceRefByHashAndAddr h a = \<lparr>rf_payHash = Some h, rf_payAddr = Some a, rf_setID = None\<rparr>"

definition invoiceRefByAddr :: "byte list \<Rightarrow> invoice_ref" where
  "invoiceRefByAddr a = \<lparr>rf_payHash = None, rf_payAddr = Some a, rf_setID = None\<rparr>"

definition invoiceRefBySetID :: "set_id \<Rightarrow> invoice_ref" where
  "invoiceRefBySetID i = \<lparr>rf_payHash = None, rf_payAddr = None, rf_setID = Some i\<rparr>"

section \<open>Adding an invoice\<close>

definition requiresPreimage :: "invoice \<Rightarrow> bool" where
  "requiresPreimage iv \<longleftrightarrow> \<not> (iv_hodlInvoice iv \<or> IsAMP iv)"

definition validateInvoice ::
  "(byte list \<Rightarrow> byte list) \<Rightarrow> feature_bit list \<Rightarrow> circuit_key list \<Rightarrow> invoice \<Rightarrow> pay_hash \<Rightarrow> invoice_error option" where
  "validateInvoice sha featOrder order iv paymentHash =
     (if paymentHash = sha allZeroPreimage then Some InvalidInvoice
      else case ct_features (iv_terms iv) of
        None \<Rightarrow> Some InvalidInvoice
      | Some fv \<Rightarrow>
          if ValidateDeps featOrder fv \<noteq> None then Some InvalidInvoice
          else if requiresPreimage iv \<and> ct_paymentPreimage (iv_terms iv) = None then Some InvalidInvoice
          else if range_keys order (iv_htlcs iv) \<noteq> [] then Some ErrInvoiceHasHtlcs
          else None)"

definition serializeAndStoreInvoice :: "u32 \<Rightarrow> invoice \<Rightarrow> invoice_db \<Rightarrow> invoice_error + invoice_db" where
  "serializeAndStoreInvoice num iv db =
     (if ct_paymentPreimage (iv_terms iv) = Some allZeroPreimage then Inl AllZeroPreimage
      else Inr (db\<lparr>db_invoices := (db_invoices db)
             (num \<mapsto> if IsAMP iv then iv\<lparr>iv_htlcs := Map.empty\<rparr> else iv)\<rparr>))"

definition putInvoice :: "u32 \<Rightarrow> pay_hash \<Rightarrow> invoice \<Rightarrow> invoice_db \<Rightarrow> invoice_error + invoice_db \<times> u64" where
  "putInvoice num paymentHash iv db =
     (let addr = ct_paymentAddr (iv_terms iv);
          nextAddSeqNo = db_addSeq db + 1;
          db1 = db\<lparr>db_numInvoices := num + 1,
                   db_invoiceIndex := (db_invoiceIndex db)(paymentHash \<mapsto> num),
                   db_payAddrIndex := (if addr \<noteq> BlankPayAddr then (db_payAddrIndex db)(addr \<mapsto> num)
                                       else db_payAddrIndex db),
                   db_addSeq := nextAddSeqNo,
                   db_addIndex := (db_addIndex db)(nextAddSeqNo \<mapsto> num)\<rparr>
      in case serializeAndStoreInvoice num (iv\<lparr>iv_addIndex := nextAddSeqNo\<rparr>) db1 of
           Inl e \<Rightarrow> Inl e
         | Inr db2 \<Rightarrow> Inr (db2, nextAddSeqNo))"

definition addInvoice ::
  "(byte list \<Rightarrow> byte list) \<Rightarrow> feature_bit list \<Rightarrow> circuit_key list \<Rightarrow> invoice \<Rightarrow> pay_hash \<Rightarrow> invoice_db \<Rightarrow>
     invoice_error + invoice_db \<times> u64" where
  "addInvoice sha featOrder order iv paymentHash db =
     (case validateInvoice sha featOrder order iv paymentHash of
        Some e \<Rightarrow> Inl e
      | None \<Rightarrow>
          if db_invoiceIndex db paymentHash \<noteq> None then Inl ErrDuplicateInvoice
          else if ct_paymentAddr (iv_terms iv) \<noteq> BlankPayAddr \<and> db_payAddrIndex db (ct_paymentAddr (iv_terms iv)) \<noteq> None
          then Inl ErrDuplicatePayAddr
          else putInvoice (db_numInvoices db) paymentHash iv db)"

section \<open>Fetching an invoice\<close>

definition fetchInvoiceNumByRef :: "invoice_ref \<Rightarrow> invoice_db \<Rightarrow> invoice_error + u32" where
  "fetchInvoiceNumByRef ref db =
     (case rf_setID ref of
        Some i \<Rightarrow> (case db_setIDIndex db i of None \<Rightarrow> Inl ErrInvoiceNotFound | Some num \<Rightarrow> Inr num)
      | None \<Rightarrow>
          (let byHash = (case rf_payHash ref of None \<Rightarrow> None | Some h \<Rightarrow> db_invoiceIndex db h);
               byAddr = (case rf_payAddr ref of
                           None \<Rightarrow> None
                         | Some a \<Rightarrow> if a \<noteq> BlankPayAddr then db_payAddrIndex db a else None)
           in case (byAddr, byHash) of
                (Some a, Some h) \<Rightarrow> if a \<noteq> h then Inl ErrInvRefEquivocation else Inr a
              | (Some a, None) \<Rightarrow> if rf_payHash ref = None then Inr a else Inl ErrInvoiceNotFound
              | (None, Some h) \<Rightarrow> Inr h
              | (None, None) \<Rightarrow> Inl ErrInvoiceNotFound))"

definition fetchAmpSubInvoices :: "u32 \<Rightarrow> set_id option \<Rightarrow> invoice_db \<Rightarrow> circuit_key \<rightharpoonup> invoice_htlc" where
  "fetchAmpSubInvoices num setID db =
     (case setID of
        Some i \<Rightarrow> (case map_of (db_ampHtlcs db num) i of None \<Rightarrow> Map.empty | Some m \<Rightarrow> m)
      | None \<Rightarrow> foldl (\<lambda>htlcs (_, m). htlcs ++ m) Map.empty (db_ampHtlcs db num))"

definition filterInvoiceAMPState :: "set_id option \<Rightarrow> invoice \<Rightarrow> invoice" where
  "filterInvoiceAMPState setID iv =
     (case setID of
        None \<Rightarrow> iv
      | Some i \<Rightarrow> iv\<lparr>iv_ampState := (\<lambda>j. if j = i then iv_ampState iv j else None)\<rparr>)"

definition fetchInvoice :: "u32 \<Rightarrow> set_id option \<Rightarrow> bool \<Rightarrow> invoice_db \<Rightarrow> invoice_error + invoice" where
  "fetchInvoice num setID filterAMPState db =
     (case db_invoices db num of
        None \<Rightarrow> Inl ErrInvoiceNotFound
      | Some iv \<Rightarrow>
          if \<not> IsAMP iv \<or> setID = Some BlankPayAddr then Inr iv
          else
            let iv1 = iv\<lparr>iv_htlcs := fetchAmpSubInvoices num setID db\<rparr>
            in Inr (if filterAMPState then filterInvoiceAMPState setID iv1 else iv1))"

definition lookupInvoice :: "invoice_ref \<Rightarrow> invoice_db \<Rightarrow> invoice_error + invoice" where
  "lookupInvoice ref db =
     (case fetchInvoiceNumByRef ref db of
        Inl e \<Rightarrow> Inl e
      | Inr num \<Rightarrow> fetchInvoice num None True db)"

section \<open>Writing an update\<close>

type_synonym store_state = "invoice \<times> invoice_db"

definition setSettleMetaFields :: "int \<Rightarrow> u32 \<Rightarrow> set_id option \<Rightarrow> store_state \<Rightarrow> store_state" where
  "setSettleMetaFields now num setID = (\<lambda>(iv, db).
     let seq = db_settleSeq db + 1;
         db1 = db\<lparr>db_settleSeq := seq, db_settleIndex := (db_settleIndex db)(seq \<mapsto> (num, setID))\<rparr>
     in case setID of
          None \<Rightarrow> (iv\<lparr>iv_settleDate := now, iv_settleIndex := seq\<rparr>, db1)
        | Some i \<Rightarrow>
            (let zero = \<lparr>as_state = HtlcStateAccepted, as_settleIndex = 0, as_settleDate = 0, as_invoiceKeys = {},
                         as_amtPaid = 0\<rparr>;
                 s = (case iv_ampState iv i of None \<Rightarrow> zero | Some s \<Rightarrow> s)
             in (iv\<lparr>iv_ampState := (iv_ampState iv)(i \<mapsto> s\<lparr>as_settleDate := now, as_settleIndex := seq\<rparr>)\<rparr>, db1)))"

definition updateAMPInvoices :: "u32 \<Rightarrow> kv_updater \<Rightarrow> invoice \<Rightarrow> invoice_db \<Rightarrow> invoice_db" where
  "updateAMPInvoices num u iv db =
     foldl (\<lambda>db (setID, keys).
         db\<lparr>db_ampHtlcs := (db_ampHtlcs db)
              (num := AList.update setID (\<lambda>k. if keys k then iv_htlcs iv k else None) (db_ampHtlcs db num))\<rparr>)
       db (ku_updatedAmpHtlcs u)"

definition storeCancelHtlcsUpdate :: "u32 \<Rightarrow> kv_updater \<Rightarrow> store_state \<Rightarrow> invoice_error + store_state" where
  "storeCancelHtlcsUpdate num u = (\<lambda>(iv, db).
     case serializeAndStoreInvoice num iv db of
       Inl e \<Rightarrow> Inl e
     | Inr db1 \<Rightarrow> Inr (iv, if IsAMP iv then updateAMPInvoices num u iv db1 else db1))"

definition indexSetID :: "u32 \<Rightarrow> set_id \<times> (circuit_key \<Rightarrow> bool) \<Rightarrow> invoice_db \<Rightarrow> invoice_error + invoice_db" where
  "indexSetID num = (\<lambda>(i, _) db.
     case db_setIDIndex db i of
       None \<Rightarrow> Inr (db\<lparr>db_setIDIndex := (db_setIDIndex db)(i \<mapsto> num)\<rparr>)
     | Some n \<Rightarrow> if n \<noteq> num then Inl ErrDuplicateSetID else Inr db)"

definition storeAddHtlcsUpdate :: "int \<Rightarrow> u32 \<Rightarrow> kv_updater \<Rightarrow> store_state \<Rightarrow> invoice_error + store_state" where
  "storeAddHtlcsUpdate now num u = (\<lambda>(iv, db).
     case for_each (indexSetID num) (ku_updatedAmpHtlcs u) db of
       Inl e \<Rightarrow> Inl e
     | Inr db1 \<Rightarrow>
         (let st2 = (if \<not> IsAMP iv \<and> iv_state iv = ContractSettled then setSettleMetaFields now num None (iv, db1)
                     else (iv, db1));
              st3 = foldl (\<lambda>st i. setSettleMetaFields now num (Some i) st) st2 (ku_settledSetIDs u)
          in storeCancelHtlcsUpdate num u st3))"

definition storeSettleHodlInvoiceUpdate :: "int \<Rightarrow> u32 \<Rightarrow> store_state \<Rightarrow> invoice_error + store_state" where
  "storeSettleHodlInvoiceUpdate now num st =
     (case setSettleMetaFields now num None st of (iv, db) \<Rightarrow>
        (case serializeAndStoreInvoice num iv db of Inl e \<Rightarrow> Inl e | Inr db1 \<Rightarrow> Inr (iv, db1)))"

definition Finalize :: "int \<Rightarrow> u32 \<Rightarrow> update_type \<Rightarrow> kv_updater \<Rightarrow> store_state \<Rightarrow> invoice_error + store_state" where
  "Finalize now num ty u st =
     (case ty of
        AddHTLCsUpdate \<Rightarrow> storeAddHtlcsUpdate now num u st
      | CancelHTLCsUpdate \<Rightarrow> storeCancelHtlcsUpdate num u st
      | SettleHodlInvoiceUpdate \<Rightarrow> storeSettleHodlInvoiceUpdate now num st
      | CancelInvoiceUpdate \<Rightarrow> storeCancelHtlcsUpdate num u st
      | UnknownUpdate \<Rightarrow> Inl UnknownUpdateType)"

text \<open>
  The callback returns the update, if any, and what it assigns to the variables of its caller. The result
  is the updated invoice, this value and the database.
\<close>

definition updateStored ::
  "(byte list \<Rightarrow> byte list) \<Rightarrow> circuit_key list \<Rightarrow> int \<Rightarrow> u32 \<Rightarrow> pay_hash option \<Rightarrow> invoice_update option \<Rightarrow> store_state \<Rightarrow>
     invoice_error + store_state" where
  "updateStored sha order now num hash update = (\<lambda>(iv, db).
     case update of
       None \<Rightarrow> Inr (iv, db)
     | Some upd \<Rightarrow>
         (case applyUpdate sha order hash now upd (iv, emptyUpdater) of
            Inl e \<Rightarrow> Inl e
          | Inr (iv1, u) \<Rightarrow> Finalize now num (iu_updateType upd) u (iv1, db)))"

definition updateInvoiceDB ::
  "(byte list \<Rightarrow> byte list) \<Rightarrow> circuit_key list \<Rightarrow> int \<Rightarrow> invoice_ref \<Rightarrow> set_id option \<Rightarrow>
     (invoice \<Rightarrow> invoice_error + invoice_update option \<times> 'r) \<Rightarrow> invoice_db \<Rightarrow>
     invoice_error + invoice \<times> 'r \<times> invoice_db" where
  "updateInvoiceDB sha order now ref setIDHint callback db =
     (case fetchInvoiceNumByRef ref db of
        Inl e \<Rightarrow> Inl e
      | Inr num \<Rightarrow>
          (case fetchInvoice num setIDHint False db of
             Inl e \<Rightarrow> Inl e
           | Inr iv \<Rightarrow>
               (case callback iv of
                  Inl e \<Rightarrow> Inl e
                | Inr (update, r) \<Rightarrow>
                    (case updateStored sha order now num (rf_payHash ref) update (iv, db) of
                       Inl e \<Rightarrow> Inl e
                     | Inr (iv1, db1) \<Rightarrow> Inr (filterInvoiceAMPState setIDHint iv1, r, db1)))))"

section \<open>Deleting an invoice\<close>

record invoice_delete_ref =
  dr_payHash :: pay_hash
  dr_payAddr :: "byte list option"
  dr_addIndex :: u64
  dr_settleIndex :: u64

text \<open>\<open>order\<close> lists the set IDs of the invoice's AMP state in the order of iteration.\<close>

definition delAMPSettleIndex :: "set_id list \<Rightarrow> invoice \<Rightarrow> (u64 \<rightharpoonup> u32 \<times> set_id option) \<Rightarrow> (u64 \<rightharpoonup> u32 \<times> set_id option)" where
  "delAMPSettleIndex sets iv m =
     foldl (\<lambda>m i. case iv_ampState iv i of None \<Rightarrow> m | Some s \<Rightarrow> m(as_settleIndex s := None)) m sets"

definition deleteInvoice :: "set_id list \<Rightarrow> invoice_delete_ref \<Rightarrow> invoice_db \<Rightarrow> invoice_error + invoice_db" where
  "deleteInvoice sets ref db =
     (case db_invoiceIndex db (dr_payHash ref) of
        None \<Rightarrow> Inl ErrInvoiceNotFound
      | Some num \<Rightarrow>
          (let addrs = (case dr_payAddr ref of
                 None \<Rightarrow> db_payAddrIndex db
               | Some a \<Rightarrow> if db_payAddrIndex db a = Some num then (db_payAddrIndex db)(a := None) else db_payAddrIndex db)
           in if db_addIndex db (dr_addIndex ref) \<noteq> Some num then Inl UnknownInIndex
              else if dr_settleIndex ref > 0 \<and> db_settleIndex db (dr_settleIndex ref) \<noteq> Some (num, None) then Inl UnknownInIndex
              else
                let settles = (if dr_settleIndex ref > 0 then (db_settleIndex db)(dr_settleIndex ref := None)
                               else db_settleIndex db)
                in case db_invoices db num of
                     None \<Rightarrow> Inl ErrInvoiceNotFound
                   | Some iv \<Rightarrow>
                       Inr (db\<lparr>db_invoiceIndex := (db_invoiceIndex db)(dr_payHash ref := None),
                               db_payAddrIndex := addrs,
                               db_addIndex := (db_addIndex db)(dr_addIndex ref := None),
                               db_settleIndex := delAMPSettleIndex sets iv settles,
                               db_ampHtlcs := (db_ampHtlcs db)(num := []),
                               db_invoices := (db_invoices db)(num := None)\<rparr>)))"

end
