(* ===== verification/Invoice_Registry.thy ===== *)
theory Invoice_Registry
  imports Invoice_Store
begin

text \<open>
  How HTLCs pay invoices: the decision on an HTLC (\<open>invoices/update.go\<close>) and the operations of the
  registry (\<open>invoices/invoiceregistry.go\<close>) that change an invoice. The state of the registry is its
  database, the subscriptions of links to held HTLCs, the resolutions sent to them and the release timers
  that were started. Clients' notifications, the expiry queue (which only calls \<open>CancelInvoice\<close>) and the
  event loop are not modelled.
\<close>

section \<open>Resolutions\<close>

datatype accept_outcome =
    ResultReplayToAccepted | ResultDuplicateToAccepted | ResultAccepted | ResultPartialAccepted

datatype fail_outcome =
    ResultReplayToCanceled | ResultInvoiceAlreadyCanceled | ResultInvoiceAlreadySettled | ResultAmountTooLow
  | ResultExpiryTooSoon | ResultCanceled | ResultInvoiceNotOpen | ResultMppTimeout | ResultAddressMismatch
  | ResultHtlcSetTotalMismatch | ResultHtlcSetTotalTooLow | ResultHtlcSetOverpayment | ResultInvoiceNotFound
  | ResultKeySendError | ResultMppInProgress | ResultHtlcInvoiceTypeMismatch | ResultAmpError
  | ResultAmpReconstruction | ExternalValidationFailed

datatype settle_outcome = ResultSettled | ResultReplayToSettled | ResultDuplicateToSettled

datatype htlc_resolution =
    FailResolution circuit_key u32 fail_outcome
  | SettleResolution preimage circuit_key u32 settle_outcome
  | AcceptResolution circuit_key bool int accept_outcome

fun IsSetFailure :: "fail_outcome \<Rightarrow> bool" where
  "IsSetFailure ResultAmpReconstruction = True"
| "IsSetFailure ResultHtlcSetTotalTooLow = True"
| "IsSetFailure ResultHtlcSetTotalMismatch = True"
| "IsSetFailure ResultHtlcSetOverpayment = True"
| "IsSetFailure ExternalValidationFailed = True"
| "IsSetFailure _ = False"

fun resolutionKey :: "htlc_resolution \<Rightarrow> circuit_key" where
  "resolutionKey (FailResolution k _ _) = k"
| "resolutionKey (SettleResolution _ k _ _) = k"
| "resolutionKey (AcceptResolution k _ _ _) = k"

section \<open>The context of an update\<close>

record update_ctx =
  uc_hash :: pay_hash
  uc_circuitKey :: circuit_key
  uc_amtPaid :: msat
  uc_expiry :: u32
  uc_currentHeight :: u32
  uc_finalCltvRejectDelta :: u32
  uc_wireCustomRecords :: "u64 \<rightharpoonup> byte list"
  uc_customRecords :: "u64 \<rightharpoonup> byte list"
  uc_mpp :: "mpp_record option"
  uc_amp :: "amp_record option"
  uc_pathID :: "byte list option"
  uc_totalAmtMsat :: msat

definition invoiceRef :: "update_ctx \<Rightarrow> invoice_ref" where
  "invoiceRef c =
     (case uc_pathID c of
        Some p \<Rightarrow> invoiceRefByHashAndAddr (uc_hash c) p
      | None \<Rightarrow>
          (case (uc_amp c, uc_mpp c) of
             (Some _, Some m) \<Rightarrow> invoiceRefByAddr (mr_paymentAddr m)
           | (None, Some m) \<Rightarrow> invoiceRefByHashAndAddr (uc_hash c) (mr_paymentAddr m)
           | (_, None) \<Rightarrow> invoiceRefByHash (uc_hash c)))"

definition ctx_setID :: "update_ctx \<Rightarrow> set_id option" where
  "ctx_setID c = map_option ar_setID (uc_amp c)"

definition failRes :: "update_ctx \<Rightarrow> fail_outcome \<Rightarrow> htlc_resolution" where
  "failRes c r = FailResolution (uc_circuitKey c) (uc_currentHeight c) r"

definition settleRes :: "update_ctx \<Rightarrow> preimage \<Rightarrow> settle_outcome \<Rightarrow> htlc_resolution" where
  "settleRes c p r = SettleResolution p (uc_circuitKey c) (uc_currentHeight c) r"

definition acceptRes :: "update_ctx \<Rightarrow> accept_outcome \<Rightarrow> htlc_resolution" where
  "acceptRes c r = AcceptResolution (uc_circuitKey c) False 0 r"

text \<open>\<open>None\<close> for an HTLC that is not on the invoice.\<close>

definition resolveReplayedHtlc :: "update_ctx \<Rightarrow> invoice \<Rightarrow> (invoice_error + htlc_resolution) option" where
  "resolveReplayedHtlc c iv =
     (case iv_htlcs iv (uc_circuitKey c) of
        None \<Rightarrow> None
      | Some h \<Rightarrow> Some
          (case ih_state h of
             HtlcStateCanceled \<Rightarrow> Inr (failRes c ResultReplayToCanceled)
           | HtlcStateAccepted \<Rightarrow> Inr (acceptRes c ResultReplayToAccepted)
           | HtlcStateSettled \<Rightarrow>
               (case ct_paymentPreimage (iv_terms iv) of
                  Some p \<Rightarrow> Inr (settleRes c p ResultReplayToSettled)
                | None \<Rightarrow>
                    (case ih_amp h of
                       None \<Rightarrow> Inl NilPointer
                     | Some a \<Rightarrow>
                         (case ad_preimage a of
                            None \<Rightarrow> Inl NilPointer
                          | Some p \<Rightarrow> Inr (settleRes c p ResultReplayToSettled))))))"

section \<open>Deciding on an HTLC\<close>

definition reconstructAMPPreimages ::
  "(byte list \<Rightarrow> byte list) \<Rightarrow> circuit_key list \<Rightarrow> update_ctx \<Rightarrow> amp_record \<Rightarrow> (circuit_key \<rightharpoonup> invoice_htlc) \<Rightarrow>
     (circuit_key \<times> preimage) list option" where
  "reconstructAMPPreimages sha order c amp htlcSet =
     (let keys = range_keys order htlcSet;
          data = map (\<lambda>k. the (ih_amp (the (htlcSet k)))) keys;
          descOf = (\<lambda>r. \<lparr>cd_share = ar_rootShare r, cd_index = ar_childIndex r\<rparr>);
          children = ReconstructChildren sha (descOf amp # map (\<lambda>a. descOf (ad_record a)) data)
      in if uc_hash c \<noteq> ch_hash (hd children) then None
         else if \<exists>(a, ch) \<in> set (zip data (tl children)). ad_hash a \<noteq> ch_hash ch then None
         else Some ((uc_circuitKey c, ch_preimage (hd children)) # zip keys (map ch_preimage (tl children))))"

definition expiryTooSoon :: "update_ctx \<Rightarrow> invoice \<Rightarrow> bool" where
  "expiryTooSoon c iv \<longleftrightarrow>
     uc_expiry c < uc_currentHeight c + uc_finalCltvRejectDelta c \<or>
     uc_expiry c < uc_currentHeight c + ct_finalCltvDelta (iv_terms iv)"

definition addUpdate :: "update_ctx \<Rightarrow> htlc_accept_desc \<Rightarrow> invoice_state_update option \<Rightarrow> invoice_update" where
  "addUpdate c d st =
     \<lparr>iu_state = st, iu_cancelHtlcs = [], iu_addHtlcs = [(uc_circuitKey c, d)], iu_setID = None,
      iu_updateType = AddHTLCsUpdate\<rparr>"

definition moveTo :: "contract_state \<Rightarrow> invoice_state_update" where
  "moveTo s = \<lparr>su_newState = s, su_preimage = None, su_htlcPreimages = [], su_setID = None\<rparr>"

type_synonym decision = "invoice_update option \<times> htlc_resolution"

definition updateMpp ::
  "(byte list \<Rightarrow> byte list) \<Rightarrow> circuit_key list \<Rightarrow> update_ctx \<Rightarrow> invoice \<Rightarrow> invoice_error + decision" where
  "updateMpp sha order c iv =
     (case ct_features (iv_terms iv) of
        None \<Rightarrow> Inl NilPointer
      | Some fv \<Rightarrow>
          if RequiresFeature fv AMPRequired \<noteq> (uc_amp c \<noteq> None)
          then Inr (None, failRes c ResultHtlcInvoiceTypeMismatch)
          else
            let setID = ctx_setID c;
                totalAmt = (case uc_mpp c of Some m \<Rightarrow> mr_totalMsat m | None \<Rightarrow> uc_totalAmtMsat c);
                paymentAddr = (case uc_mpp c of Some m \<Rightarrow> mr_paymentAddr m | None \<Rightarrow> the (uc_pathID c));
                acceptDesc = \<lparr>hd_acceptHeight = uc_currentHeight c, hd_amt = uc_amtPaid c, hd_mppTotalAmt = totalAmt,
                  hd_expiry = uc_expiry c, hd_customRecords = uc_customRecords c ++ uc_wireCustomRecords c,
                  hd_amp = map_option (\<lambda>r. \<lparr>ad_record = r, ad_hash = uc_hash c, ad_preimage = None\<rparr>) (uc_amp c)\<rparr>;
                htlcSet = HTLCSet iv setID HtlcStateAccepted;
                members = map (\<lambda>k. the (htlcSet k)) (range_keys order htlcSet);
                newSetTotal = foldl (\<lambda>t h. t + ih_amt h) 0 members + uc_amtPaid c
            in if iv_state iv \<noteq> ContractOpen then Inr (None, failRes c ResultInvoiceNotOpen)
               else if paymentAddr \<noteq> ct_paymentAddr (iv_terms iv) then Inr (None, failRes c ResultAddressMismatch)
               else if totalAmt = 0 then Inr (None, failRes c ResultHtlcSetTotalTooLow)
               else if totalAmt < ct_value (iv_terms iv) then Inr (None, failRes c ResultHtlcSetTotalTooLow)
               else if \<exists>h \<in> set members. totalAmt \<noteq> ih_mppTotalAmt h
               then Inr (None, failRes c ResultHtlcSetTotalMismatch)
               else if expiryTooSoon c iv then Inr (None, failRes c ResultExpiryTooSoon)
               else if setID = Some BlankPayAddr then Inr (None, failRes c ResultAmpError)
               else if newSetTotal < totalAmt
               then Inr (Some (addUpdate c acceptDesc None), acceptRes c ResultPartialAccepted)
               else if iv_hodlInvoice iv
               then Inr (Some (addUpdate c acceptDesc (Some (moveTo ContractAccepted))), acceptRes c ResultAccepted)
               else case uc_amp c of
                 Some amp \<Rightarrow>
                   (case reconstructAMPPreimages sha order c amp htlcSet of
                      None \<Rightarrow>
                        Inr (Some ((addUpdate c acceptDesc (Some ((moveTo ContractCanceled)\<lparr>su_setID := setID\<rparr>)))
                                     \<lparr>iu_updateType := CancelInvoiceUpdate\<rparr>),
                             failRes c ResultAmpReconstruction)
                    | Some pre \<Rightarrow>
                        Inr (Some (addUpdate c acceptDesc
                               (Some \<lparr>su_newState = ContractSettled, su_preimage = ct_paymentPreimage (iv_terms iv),
                                      su_htlcPreimages = pre, su_setID = setID\<rparr>)),
                             settleRes c (the (map_of pre (uc_circuitKey c))) ResultSettled))
               | None \<Rightarrow>
                   (case ct_paymentPreimage (iv_terms iv) of
                      None \<Rightarrow> Inl NilPointer
                    | Some p \<Rightarrow>
                        Inr (Some (addUpdate c acceptDesc
                               (Some \<lparr>su_newState = ContractSettled, su_preimage = Some p,
                                      su_htlcPreimages = [], su_setID = setID\<rparr>)),
                             settleRes c p ResultSettled)))"

definition KeySendType :: u64 where
  "KeySendType = 5482373484"

definition updateLegacy :: "circuit_key list \<Rightarrow> update_ctx \<Rightarrow> invoice \<Rightarrow> invoice_error + decision" where
  "updateLegacy order c iv =
     (if iv_state iv = ContractCanceled then Inr (None, failRes c ResultInvoiceAlreadyCanceled)
      else if uc_amtPaid c < ct_value (iv_terms iv) then Inr (None, failRes c ResultAmountTooLow)
      else case ct_features (iv_terms iv) of
        None \<Rightarrow> Inl NilPointer
      | Some fv \<Rightarrow>
          let isKeySend = (uc_customRecords c KeySendType \<noteq> None);
              htlcSet = HTLCSet iv None HtlcStateAccepted;
              desc = \<lparr>hd_acceptHeight = uc_currentHeight c, hd_amt = uc_amtPaid c, hd_mppTotalAmt = 0,
                      hd_expiry = uc_expiry c, hd_customRecords = uc_customRecords c ++ uc_wireCustomRecords c,
                      hd_amp = None\<rparr>
          in if \<not> isKeySend \<and> RequiresFeature fv PaymentAddrRequired then Inr (None, failRes c ResultAddressMismatch)
             else if \<exists>k \<in> set (range_keys order htlcSet). ih_mppTotalAmt (the (htlcSet k)) > 0
             then Inr (None, failRes c ResultMppInProgress)
             else if expiryTooSoon c iv then Inr (None, failRes c ResultExpiryTooSoon)
             else if iv_state iv = ContractAccepted
             then Inr (Some (addUpdate c desc None), acceptRes c ResultDuplicateToAccepted)
             else if iv_state iv = ContractSettled
             then (case ct_paymentPreimage (iv_terms iv) of
                     None \<Rightarrow> Inl NilPointer
                   | Some p \<Rightarrow> Inr (Some (addUpdate c desc None), settleRes c p ResultDuplicateToSettled))
             else if iv_hodlInvoice iv
             then Inr (Some (addUpdate c desc (Some (moveTo ContractAccepted))), acceptRes c ResultAccepted)
             else (case ct_paymentPreimage (iv_terms iv) of
                     None \<Rightarrow> Inl NilPointer
                   | Some p \<Rightarrow>
                       Inr (Some (addUpdate c desc (Some ((moveTo ContractSettled)\<lparr>su_preimage := Some p\<rparr>))),
                            settleRes c p ResultSettled)))"

definition updateInvoice ::
  "(byte list \<Rightarrow> byte list) \<Rightarrow> circuit_key list \<Rightarrow> update_ctx \<Rightarrow> invoice \<Rightarrow> invoice_error + decision" where
  "updateInvoice sha order c iv =
     (if uc_mpp c = None \<and> uc_pathID c = None then updateLegacy order c iv else updateMpp sha order c iv)"

section \<open>The registry\<close>

text \<open>\<open>rc_featureOrder\<close> is no setting: it lists the feature bits in the order in which Go visits them.\<close>

record registry_config =
  rc_finalCltvRejectDelta :: u32
  rc_acceptKeySend :: bool
  rc_acceptAMP :: bool
  rc_keysendHoldTime :: int
  rc_gcCanceledInvoicesOnTheFly :: bool
  rc_featureOrder :: "feature_bit list"

record invoice_registry =
  rg_db :: invoice_db
  rg_hodlSubscriptions :: "circuit_key \<Rightarrow> nat list"
  rg_sent :: "(nat \<times> htlc_resolution) list"
  rg_timers :: "(invoice_ref \<times> circuit_key \<times> int) list"

definition notifyHodlSubscribers :: "htlc_resolution \<Rightarrow> invoice_registry \<Rightarrow> invoice_registry" where
  "notifyHodlSubscribers r rg =
     rg\<lparr>rg_sent := rg_sent rg @ map (\<lambda>s. (s, r)) (rg_hodlSubscriptions rg (resolutionKey r)),
        rg_hodlSubscriptions := (rg_hodlSubscriptions rg)(resolutionKey r := [])\<rparr>"

definition hodlSubscribe :: "nat \<Rightarrow> circuit_key \<Rightarrow> invoice_registry \<Rightarrow> invoice_registry" where
  "hodlSubscribe subscriber k rg =
     rg\<lparr>rg_hodlSubscriptions := (rg_hodlSubscriptions rg)(k := List.insert subscriber (rg_hodlSubscriptions rg k))\<rparr>"

text \<open>Failing the HTLCs of a map, or settling them, in the order of iteration.\<close>

definition notifyAll ::
  "(circuit_key \<Rightarrow> invoice_htlc \<Rightarrow> htlc_resolution) \<Rightarrow> circuit_key list \<Rightarrow> (circuit_key \<rightharpoonup> invoice_htlc) \<Rightarrow>
     invoice_registry \<Rightarrow> invoice_registry" where
  "notifyAll res order m rg =
     foldl (\<lambda>rg k. notifyHodlSubscribers (res k (the (m k))) rg) rg (range_keys order m)"

text \<open>What the interceptor's client answers: nothing, or an amount and whether to cancel the set.\<close>

definition exitHopCallback ::
  "(byte list \<Rightarrow> byte list) \<Rightarrow> circuit_key list \<Rightarrow> update_ctx \<Rightarrow> bool \<Rightarrow> invoice \<Rightarrow> invoice_error + decision" where
  "exitHopCallback sha order c cancelSet iv =
     (case resolveReplayedHtlc c iv of
        Some (Inl e) \<Rightarrow> Inl e
      | Some (Inr r) \<Rightarrow> Inr (None, r)
      | None \<Rightarrow>
          if cancelSet then
            (if iv_state iv \<noteq> ContractOpen then Inr (None, failRes c ResultInvoiceNotOpen)
             else Inr (Some \<lparr>iu_state = None,
                             iu_cancelHtlcs = range_keys order (HTLCSet iv (ctx_setID c) HtlcStateAccepted),
                             iu_addHtlcs = [], iu_setID = ctx_setID c, iu_updateType = CancelHTLCsUpdate\<rparr>,
                       failRes c ExternalValidationFailed))
          else updateInvoice sha order c iv)"

definition settlePreimage :: "preimage \<Rightarrow> invoice_htlc \<Rightarrow> preimage" where
  "settlePreimage p h =
     (case ih_amp h of None \<Rightarrow> p | Some a \<Rightarrow> (case ad_preimage a of None \<Rightarrow> p | Some q \<Rightarrow> q))"

definition deliver ::
  "circuit_key list \<Rightarrow> update_ctx \<Rightarrow> nat option \<Rightarrow> invoice \<Rightarrow> htlc_resolution \<Rightarrow> invoice_registry \<Rightarrow>
     invoice_registry \<times> (invoice_error + htlc_resolution)" where
  "deliver order c hodlChan iv resolution rg =
     (case resolution of
        FailResolution k height outcome \<Rightarrow>
          (let height' = (case iv_htlcs iv (uc_circuitKey c) of None \<Rightarrow> height | Some h \<Rightarrow> ih_acceptHeight h);
               rg' = (if IsSetFailure outcome
                      then notifyAll (\<lambda>k h. FailResolution k (ih_acceptHeight h) outcome) order
                             (HTLCSet iv (ctx_setID c) HtlcStateCanceled) rg
                      else rg)
           in (rg', Inr (FailResolution k height' outcome)))
      | SettleResolution p k height outcome \<Rightarrow>
          (let rg1 = notifyAll (\<lambda>k h. SettleResolution (settlePreimage p h) k (ih_acceptHeight h) outcome) order
                       (HTLCSet iv (ctx_setID c) HtlcStateSettled) rg;
               rg2 = notifyAll (\<lambda>k h. FailResolution k (ih_acceptHeight h) ResultInvoiceAlreadySettled) order
                       (HTLCSetCompliment iv (ctx_setID c) HtlcStateCanceled) rg1
           in (rg2, Inr (SettleResolution p k height outcome)))
      | AcceptResolution k auto acceptTime outcome \<Rightarrow>
          (case iv_htlcs iv (uc_circuitKey c) of
             None \<Rightarrow> (rg, Inl AcceptedHtlcNotPresent)
           | Some h \<Rightarrow>
               (let r = (if iv_state iv = ContractOpen then AcceptResolution k True (ih_acceptTime h) outcome
                         else AcceptResolution k auto acceptTime outcome)
                in (case hodlChan of None \<Rightarrow> rg | Some s \<Rightarrow> hodlSubscribe s (uc_circuitKey c) rg, Inr r))))"

definition notifyExitHopHtlcLocked ::
  "(byte list \<Rightarrow> byte list) \<Rightarrow> circuit_key list \<Rightarrow> int \<Rightarrow> (invoice_error + (msat \<times> bool) option) \<Rightarrow> update_ctx \<Rightarrow>
     nat option \<Rightarrow> invoice_registry \<Rightarrow> invoice_registry \<times> (invoice_error + htlc_resolution)" where
  "notifyExitHopHtlcLocked sha order now intercepted c0 hodlChan rg =
     (let notFound = FailResolution (uc_circuitKey c0) (uc_currentHeight c0) ResultInvoiceNotFound
      in case lookupInvoice (invoiceRef c0) (rg_db rg) of
           Inl e \<Rightarrow> (rg, if e = ErrInvoiceNotFound \<or> e = ErrInvRefEquivocation then Inr notFound else Inl e)
         | Inr existing \<Rightarrow>
             (case intercepted of
                Inl e \<Rightarrow> (rg, Inl InterceptorFailed)
              | Inr answer \<Rightarrow>
                  (let c = (case answer of
                        Some (amt, _) \<Rightarrow> if amt \<noteq> 0 then c0\<lparr>uc_amtPaid := amt\<rparr> else c0
                      | None \<Rightarrow> c0);
                      cancelSet = (case answer of Some (_, b) \<Rightarrow> b | None \<Rightarrow> False)
                   in case updateInvoiceDB sha order now (invoiceRef c) (ctx_setID c)
                             (exitHopCallback sha order c cancelSet) (rg_db rg) of
                        Inl e \<Rightarrow>
                          (rg, if e = ErrDuplicateSetID \<or> e = ErrInvoiceNotFound \<or> e = ErrInvRefEquivocation
                               then Inr notFound else Inl e)
                      | Inr (iv, resolution, db) \<Rightarrow>
                          deliver order c hodlChan iv resolution (rg\<lparr>rg_db := db\<rparr>))))"

section \<open>Spontaneous payments\<close>

definition jitInvoice :: "registry_config \<Rightarrow> int \<Rightarrow> msat \<Rightarrow> preimage option \<Rightarrow> byte list \<Rightarrow> u16 set \<Rightarrow> bool \<Rightarrow> int \<Rightarrow> invoice" where
  "jitInvoice cfg now amt p payAddr bits hodl expiry =
     \<lparr>iv_creationDate = now, iv_settleDate = 0,
      iv_terms = \<lparr>ct_finalCltvDelta = rc_finalCltvRejectDelta cfg, ct_expiry = expiry, ct_paymentPreimage = p,
                  ct_value = amt, ct_paymentAddr = payAddr,
                  ct_features = Some \<lparr>fv_features = bits, fv_names = Features\<rparr>\<rparr>,
      iv_addIndex = 0, iv_settleIndex = 0, iv_state = ContractOpen, iv_amtPaid = 0, iv_htlcs = Map.empty,
      iv_ampState = Map.empty, iv_hodlInvoice = hodl\<rparr>"

definition cltvTooSoon :: "registry_config \<Rightarrow> update_ctx \<Rightarrow> bool" where
  "cltvTooSoon cfg c \<longleftrightarrow> uc_expiry c < uc_currentHeight c + rc_finalCltvRejectDelta cfg"

definition processKeySend ::
  "(byte list \<Rightarrow> byte list) \<Rightarrow> registry_config \<Rightarrow> circuit_key list \<Rightarrow> int \<Rightarrow> update_ctx \<Rightarrow> invoice_db \<Rightarrow> invoice_db option" where
  "processKeySend sha cfg order now c db =
     (case uc_customRecords c KeySendType of
        None \<Rightarrow> Some db
      | Some p \<Rightarrow>
          if length p \<noteq> 32 \<or> sha p \<noteq> uc_hash c \<or> uc_mpp c \<noteq> None \<or> cltvTooSoon cfg c then None
          else
            let hold = rc_keysendHoldTime cfg \<noteq> 0;
                iv = jitInvoice cfg now (uc_amtPaid c) (Some p) BlankPayAddr {TLVOnionPayloadRequired} hold
                       (if hold then rc_keysendHoldTime cfg else 0)
            in case addInvoice sha (rc_featureOrder cfg) order iv (uc_hash c) db of
                 Inl e \<Rightarrow> if e = ErrDuplicateInvoice then Some db else None
               | Inr (db1, _) \<Rightarrow> Some db1)"

definition processAMP ::
  "(byte list \<Rightarrow> byte list) \<Rightarrow> registry_config \<Rightarrow> circuit_key list \<Rightarrow> int \<Rightarrow> update_ctx \<Rightarrow> invoice_db \<Rightarrow> invoice_db option" where
  "processAMP sha cfg order now c db =
     (case uc_mpp c of
        None \<Rightarrow> None
      | Some m \<Rightarrow>
          if cltvTooSoon cfg c then None
          else
            let iv = jitInvoice cfg now (mr_totalMsat m) None (mr_paymentAddr m)
                       {TLVOnionPayloadRequired, PaymentAddrOptional, AMPRequired} False 0
            in case addInvoice sha (rc_featureOrder cfg) order iv (uc_hash c) db of
                 Inl e \<Rightarrow> if e = ErrDuplicateInvoice \<or> e = ErrDuplicatePayAddr then Some db else None
               | Inr (db1, _) \<Rightarrow> Some db1)"

text \<open>The database after a just-in-time invoice was added, or the resolution of an HTLC that fails at once.\<close>

definition prepareInvoice ::
  "(byte list \<Rightarrow> byte list) \<Rightarrow> registry_config \<Rightarrow> circuit_key list \<Rightarrow> int \<Rightarrow> update_ctx \<Rightarrow> invoice_db \<Rightarrow>
     htlc_resolution + invoice_db" where
  "prepareInvoice sha cfg order now c db =
     (if rc_acceptAMP cfg \<and> uc_amp c \<noteq> None then
        (case processAMP sha cfg order now c db of None \<Rightarrow> Inl (failRes c ResultAmpError) | Some db1 \<Rightarrow> Inr db1)
      else if rc_acceptKeySend cfg \<and> uc_amp c = None then
        (case processKeySend sha cfg order now c db of None \<Rightarrow> Inl (failRes c ResultKeySendError) | Some db1 \<Rightarrow> Inr db1)
      else Inr db)"

text \<open>A held HTLC is the result \<open>Inr None\<close>.\<close>

definition NotifyExitHopHtlc ::
  "(byte list \<Rightarrow> byte list) \<Rightarrow> registry_config \<Rightarrow> circuit_key list \<Rightarrow> int \<Rightarrow> (invoice_error + (msat \<times> bool) option) \<Rightarrow>
     update_ctx \<Rightarrow> nat option \<Rightarrow> invoice_registry \<Rightarrow> invoice_registry \<times> (invoice_error + htlc_resolution option)" where
  "NotifyExitHopHtlc sha cfg order now intercepted c hodlChan rg =
     (case prepareInvoice sha cfg order now c (rg_db rg) of
        Inl r \<Rightarrow> (rg, Inr (Some r))
      | Inr db \<Rightarrow>
          (case notifyExitHopHtlcLocked sha order now intercepted c hodlChan (rg\<lparr>rg_db := db\<rparr>) of
             (rg1, Inl e) \<Rightarrow> (rg1, Inl e)
           | (rg1, Inr (AcceptResolution k auto acceptTime outcome)) \<Rightarrow>
               (let ref = (case ctx_setID c of Some i \<Rightarrow> invoiceRefBySetID i | None \<Rightarrow> invoiceRef c)
                in (if auto then rg1\<lparr>rg_timers := rg_timers rg1 @ [(ref, uc_circuitKey c, acceptTime)]\<rparr> else rg1,
                    Inr None))
           | (rg1, Inr r) \<Rightarrow> (rg1, Inr (Some r))))"

section \<open>Settling and cancelling\<close>

definition settleHodlCallback :: "preimage \<Rightarrow> invoice \<Rightarrow> invoice_error + invoice_update option \<times> unit" where
  "settleHodlCallback p iv =
     (case iv_state iv of
        ContractOpen \<Rightarrow> Inl ErrInvoiceStillOpen
      | ContractCanceled \<Rightarrow> Inl ErrInvoiceAlreadyCanceled
      | ContractSettled \<Rightarrow> Inl ErrInvoiceAlreadySettled
      | ContractAccepted \<Rightarrow>
          Inr (Some \<lparr>iu_state = Some ((moveTo ContractSettled)\<lparr>su_preimage := Some p\<rparr>), iu_cancelHtlcs = [],
                     iu_addHtlcs = [], iu_setID = None, iu_updateType = SettleHodlInvoiceUpdate\<rparr>, ()))"

definition in_state :: "htlc_state \<Rightarrow> invoice \<Rightarrow> circuit_key \<rightharpoonup> invoice_htlc" where
  "in_state st iv k =
     (case iv_htlcs iv k of None \<Rightarrow> None | Some h \<Rightarrow> if ih_state h = st then Some h else None)"

definition SettleHodlInvoice ::
  "(byte list \<Rightarrow> byte list) \<Rightarrow> circuit_key list \<Rightarrow> int \<Rightarrow> preimage \<Rightarrow> invoice_registry \<Rightarrow>
     invoice_registry \<times> invoice_error option" where
  "SettleHodlInvoice sha order now p rg =
     (case updateInvoiceDB sha order now (invoiceRefByHash (sha p)) None (settleHodlCallback p) (rg_db rg) of
        Inl e \<Rightarrow> (rg, Some e)
      | Inr (iv, _, db) \<Rightarrow>
          (notifyAll (\<lambda>k h. SettleResolution p k (ih_acceptHeight h) ResultSettled) order
             (in_state HtlcStateSettled iv) (rg\<lparr>rg_db := db\<rparr>), None))"

definition shouldCancel :: "contract_state \<Rightarrow> bool \<Rightarrow> bool" where
  "shouldCancel s cancelAccepted \<longleftrightarrow> (if s \<noteq> ContractAccepted then True else cancelAccepted)"

definition cancelInvoiceCallback :: "bool \<Rightarrow> invoice \<Rightarrow> invoice_error + invoice_update option \<times> unit" where
  "cancelInvoiceCallback cancelAccepted iv =
     (if \<not> shouldCancel (iv_state iv) cancelAccepted then Inr (None, ())
      else Inr (Some \<lparr>iu_state = Some (moveTo ContractCanceled), iu_cancelHtlcs = [], iu_addHtlcs = [],
                      iu_setID = None, iu_updateType = CancelInvoiceUpdate\<rparr>, ()))"

definition cancelInvoiceImpl ::
  "(byte list \<Rightarrow> byte list) \<Rightarrow> registry_config \<Rightarrow> circuit_key list \<Rightarrow> set_id list \<Rightarrow> int \<Rightarrow> pay_hash \<Rightarrow> bool \<Rightarrow>
     invoice_registry \<Rightarrow> invoice_registry \<times> invoice_error option" where
  "cancelInvoiceImpl sha cfg order sets now payHash cancelAccepted rg =
     (case updateInvoiceDB sha order now (invoiceRefByHash payHash) None (cancelInvoiceCallback cancelAccepted) (rg_db rg) of
        Inl e \<Rightarrow> (rg, if e = ErrInvoiceAlreadyCanceled then None else Some e)
      | Inr (iv, _, db) \<Rightarrow>
          if iv_state iv = ContractAccepted then (rg\<lparr>rg_db := db\<rparr>, None)
          else
            let rg1 = notifyAll (\<lambda>k h. FailResolution k (ih_acceptHeight h) ResultCanceled) order
                        (in_state HtlcStateCanceled iv) (rg\<lparr>rg_db := db\<rparr>);
                ref = \<lparr>dr_payHash = payHash,
                       dr_payAddr = (if ct_paymentAddr (iv_terms iv) \<noteq> BlankPayAddr then Some (ct_paymentAddr (iv_terms iv))
                                     else None),
                       dr_addIndex = iv_addIndex iv, dr_settleIndex = iv_settleIndex iv\<rparr>
            in (if rc_gcCanceledInvoicesOnTheFly cfg
                then (case deleteInvoice sets ref (rg_db rg1) of Inl _ \<Rightarrow> rg1 | Inr db' \<Rightarrow> rg1\<lparr>rg_db := db'\<rparr>)
                else rg1, None))"

definition cancelSingleCallback :: "circuit_key \<Rightarrow> set_id option \<Rightarrow> invoice \<Rightarrow> invoice_error + invoice_update option \<times> bool" where
  "cancelSingleCallback k setID iv =
     (if iv_state iv \<noteq> ContractOpen then Inr (None, False)
      else case iv_htlcs iv k of
        None \<Rightarrow> Inl HtlcNotFound
      | Some h \<Rightarrow>
          if ih_state h \<noteq> HtlcStateAccepted then Inr (None, False)
          else Inr (Some \<lparr>iu_state = None, iu_cancelHtlcs = [k], iu_addHtlcs = [], iu_setID = setID,
                          iu_updateType = CancelHTLCsUpdate\<rparr>, True))"

definition cancelSingleHtlc ::
  "(byte list \<Rightarrow> byte list) \<Rightarrow> circuit_key list \<Rightarrow> int \<Rightarrow> invoice_ref \<Rightarrow> circuit_key \<Rightarrow> fail_outcome \<Rightarrow>
     invoice_registry \<Rightarrow> invoice_registry \<times> invoice_error option" where
  "cancelSingleHtlc sha order now ref k outcome rg =
     (case updateInvoiceDB sha order now ref (rf_setID ref) (cancelSingleCallback k (rf_setID ref)) (rg_db rg) of
        Inl e \<Rightarrow> (rg, Some e)
      | Inr (iv, updated, db) \<Rightarrow>
          if \<not> updated then (rg\<lparr>rg_db := db\<rparr>, None)
          else case iv_htlcs iv k of
            None \<Rightarrow> (rg\<lparr>rg_db := db\<rparr>, Some HtlcNotFound)
          | Some h \<Rightarrow>
              (if ih_state h = HtlcStateCanceled
               then notifyHodlSubscribers (FailResolution k (ih_acceptHeight h) outcome) (rg\<lparr>rg_db := db\<rparr>)
               else rg\<lparr>rg_db := db\<rparr>, None))"

end
