(* ===== verification/Invoice_Inv.thy ===== *)
theory Invoice_Inv
  imports Invoice_Registry
begin

text \<open>
  What an update does to an invoice, and the invariant of a stored invoice: it is accepted or settled only
  when the HTLCs that are held or were settled pay its value, its preimage belongs to its payment hash, and
  no HTLC stays behind when it is canceled.
\<close>

section \<open>Maps that are ranged over\<close>

definition keysCover :: "circuit_key list \<Rightarrow> (circuit_key \<rightharpoonup> 'a) \<Rightarrow> bool" where
  "keysCover order m \<longleftrightarrow> distinct order \<and> dom m \<subseteq> set order"

lemma range_keys_props:
  assumes "keysCover order m"
  shows "distinct (range_keys order m)" "set (range_keys order m) = dom m" "finite (dom m)"
  using assms by (auto simp: keysCover_def range_keys_def domI intro: finite_subset [of _ "set order"])

lemma set_range_keys: "set (range_keys order m) = set order \<inter> dom m"
  by (auto simp: range_keys_def)

lemma range_keys_Nil: "keysCover order m \<Longrightarrow> range_keys order m = [] \<longleftrightarrow> m = Map.empty"
  by (metis dom_eq_empty_conv range_keys_props(2) set_empty2)

text \<open>The amounts of the HTLCs in a state.\<close>

definition htlc_sum :: "htlc_state \<Rightarrow> (circuit_key \<rightharpoonup> invoice_htlc) \<Rightarrow> nat" where
  "htlc_sum st m = (\<Sum>k \<in> dom m. case m k of None \<Rightarrow> 0 | Some h \<Rightarrow> if ih_state h = st then unat (ih_amt h) else 0)"

definition amt_in :: "htlc_state \<Rightarrow> (circuit_key \<rightharpoonup> invoice_htlc) \<Rightarrow> circuit_key \<Rightarrow> msat" where
  "amt_in st m k = (case m k of None \<Rightarrow> 0 | Some h \<Rightarrow> if ih_state h = st then ih_amt h else 0)"

lemma htlc_sum_amt_in: "htlc_sum st m = (\<Sum>k \<in> dom m. unat (amt_in st m k))"
  by (auto simp: htlc_sum_def amt_in_def intro!: sum.cong split: option.splits)

lemma htlc_sum_list:
  assumes "distinct ks" "set ks = dom m"
  shows "htlc_sum st m = sum_list (map (\<lambda>k. unat (amt_in st m k)) ks)"
  using assms by (simp add: htlc_sum_amt_in sum_list_distinct_conv_sum_set)

lemma of_nat_sum_list_unat: "of_nat (sum_list (map (\<lambda>k. unat (f k)) ks)) = (sum_list (map f ks) :: u64)"
  by (induction ks) simp_all

lemma htlc_sum_put:
  assumes "m k = None" "finite (dom m)"
  shows "htlc_sum st (m(k \<mapsto> h)) = (if ih_state h = st then unat (ih_amt h) else 0) + htlc_sum st m"
proof -
  have "(\<Sum>c \<in> dom m. case (m(k \<mapsto> h)) c of None \<Rightarrow> 0 | Some h \<Rightarrow> if ih_state h = st then unat (ih_amt h) else 0) =
        htlc_sum st m"
    unfolding htlc_sum_def using assms(1) by (intro sum.cong) auto
  then show ?thesis
    using assms by (simp add: htlc_sum_def domIff)
qed

lemma htlc_sum_none: "\<forall>h \<in> ran m. ih_state h \<noteq> st \<Longrightarrow> htlc_sum st m = 0"
  unfolding htlc_sum_def by (rule sum.neutral) (auto simp: ran_def)

section \<open>The loops of an update\<close>

text \<open>All loops change HTLCs independently of one another.\<close>

definition map_htlcs :: "circuit_key list \<Rightarrow> (invoice_htlc \<Rightarrow> invoice_htlc) \<Rightarrow> (circuit_key \<rightharpoonup> invoice_htlc) \<Rightarrow> (circuit_key \<rightharpoonup> invoice_htlc)" where
  "map_htlcs ks f m = (\<lambda>k. if k \<in> set ks then map_option f (m k) else m k)"

lemma map_htlcs_simps [simp]:
  "map_htlcs [] f m = m"
  "dom (map_htlcs ks f m) = dom m"
  by (auto simp: map_htlcs_def split: if_splits)

lemma map_htlcs_Cons:
  "k \<notin> set ks \<Longrightarrow> m k = Some h \<Longrightarrow> map_htlcs ks f (m(k \<mapsto> f h)) = map_htlcs (k # ks) f m"
  by (auto simp: map_htlcs_def)

lemma map_htlcs_Cons_None: "m k = None \<Longrightarrow> map_htlcs (k # ks) f m = map_htlcs ks f m"
  by (auto simp: map_htlcs_def)

lemma map_htlcs_all: "dom m \<subseteq> set ks \<Longrightarrow> map_htlcs ks f m = (\<lambda>k. map_option f (m k))"
  by (rule ext, rename_tac k, case_tac "m k") (auto simp: map_htlcs_def)

lemma map_htlcs_id: "\<forall>h \<in> ran m. f h = h \<Longrightarrow> map_htlcs ks f m = m"
  by (rule ext, rename_tac k, case_tac "m k") (auto simp: map_htlcs_def ran_def)

definition resolveTo :: "htlc_state \<Rightarrow> int \<Rightarrow> invoice_htlc \<Rightarrow> invoice_htlc" where
  "resolveTo st now h = (if ih_state h = HtlcStateAccepted then h\<lparr>ih_state := st, ih_resolveTime := now\<rparr> else h)"

lemma resolveTo_simps [simp]:
  "ih_amt (resolveTo st now h) = ih_amt h" "ih_amp (resolveTo st now h) = ih_amp h"
  "ih_mppTotalAmt (resolveTo st now h) = ih_mppTotalAmt h"
  "ih_state (resolveTo st now h) = (if ih_state h = HtlcStateAccepted then st else ih_state h)"
  by (simp_all add: resolveTo_def)

lemma resolve_Some_amp: "ih_amp h = None \<Longrightarrow> IsInHTLCSet h None"
  by (simp add: IsInHTLCSet_def)

text \<open>Aligning the HTLCs of an invoice without AMP.\<close>

definition aligned :: "contract_state \<Rightarrow> int \<Rightarrow> invoice_htlc \<Rightarrow> invoice_htlc" where
  "aligned s now = (if s = ContractSettled then resolveTo HtlcStateSettled now else (\<lambda>h. h))"

definition counted :: "contract_state \<Rightarrow> (circuit_key \<rightharpoonup> invoice_htlc) \<Rightarrow> circuit_key \<Rightarrow> msat" where
  "counted s m k =
     (case m k of
        None \<Rightarrow> 0
      | Some h \<Rightarrow> if s \<noteq> ContractOpen \<and> ih_state h \<noteq> HtlcStateCanceled then ih_amt h else 0)"

definition plain_update :: "invoice_update \<Rightarrow> bool" where
  "plain_update upd \<longleftrightarrow> (\<forall>su. iu_state upd = Some su \<longrightarrow> su_htlcPreimages su = [])"

lemma getUpdatedHtlcState_plain:
  assumes "ih_amp h = None" "s \<noteq> ContractSettled \<longrightarrow> ih_state h \<noteq> HtlcStateSettled"
    and "s \<noteq> ContractCanceled"
  obtains st where "getUpdatedHtlcState sha h s None = Inr (s = ContractSettled \<and> ih_state h = HtlcStateAccepted, st)"
    "s = ContractSettled \<longrightarrow> ih_state h = HtlcStateAccepted \<longrightarrow> st = HtlcStateSettled"
  using assms resolve_Some_amp [OF assms(1)]
  by (cases s; cases "ih_state h") (auto simp: getUpdatedHtlcState_def trySettle_def)

lemma align_step:
  assumes "\<not> IsAMP iv" "plain_update upd" "iv_htlcs iv k = Some h" "ih_amp h = None"
    and "iv_state iv \<noteq> ContractSettled \<longrightarrow> ih_state h \<noteq> HtlcStateSettled"
    and "iv_state iv \<noteq> ContractCanceled"
  shows "addHTLCs_align sha now None upd k ((iv, u), a) =
     Inr ((put_htlc k (aligned (iv_state iv) now h) iv, u), a + counted (iv_state iv) (iv_htlcs iv) k)"
proof -
  let ?s = "iv_state iv"
  have amp: "IsAMP (put_htlc k x iv) = IsAMP iv" "iv_state (put_htlc k x iv) = ?s"
      "iv_htlcs (put_htlc k x iv) k = Some x" for x
    by (simp_all add: IsAMP_def put_htlc_def)
  have pre: "addHTLCs_preimage None upd k h = Inr h"
    by (simp add: addHTLCs_preimage_def)
  have elig: "(case iu_state upd of None \<Rightarrow> False | Some su \<Rightarrow> su_htlcPreimages su \<noteq> []) = False"
    using assms(2) by (simp add: plain_update_def split: option.splits)
  obtain st where st: "getUpdatedHtlcState sha h ?s None = Inr (?s = ContractSettled \<and> ih_state h = HtlcStateAccepted, st)"
    "?s = ContractSettled \<longrightarrow> ih_state h = HtlcStateAccepted \<longrightarrow> st = HtlcStateSettled"
    using getUpdatedHtlcState_plain [OF assms(4,5,6)] by blast
  have al: "(if ?s = ContractSettled \<and> ih_state h = HtlcStateAccepted then resolveHtlc k st now h iv else put_htlc k h iv) =
      put_htlc k (aligned ?s now h) iv"
    using st(2) by (simp add: resolveHtlc_def aligned_def resolveTo_def)
  have ready: "(ih_state (aligned ?s now h) = HtlcStateAccepted \<or> ih_state (aligned ?s now h) = HtlcStateSettled) =
      (ih_state h \<noteq> HtlcStateCanceled)"
    by (cases "ih_state h") (simp_all add: aligned_def)
  have amt: "ih_amt (aligned ?s now h) = ih_amt h"
    by (simp add: aligned_def)
  show ?thesis
    using assms(1,3) by (simp add: addHTLCs_align_def pre elig st(1) al amp ready amt counted_def Let_def)
qed

lemma align_loop:
  assumes "\<not> IsAMP iv" "plain_update upd" "distinct ks"
    and "\<forall>h \<in> ran (iv_htlcs iv). ih_amp h = None"
    and "iv_state iv \<noteq> ContractSettled \<longrightarrow> (\<forall>h \<in> ran (iv_htlcs iv). ih_state h \<noteq> HtlcStateSettled)"
    and "iv_state iv \<noteq> ContractCanceled"
  shows "for_each (addHTLCs_align sha now None upd) ks ((iv, u), a) =
     Inr ((iv\<lparr>iv_htlcs := map_htlcs ks (aligned (iv_state iv) now) (iv_htlcs iv)\<rparr>, u),
          a + sum_list (map (counted (iv_state iv) (iv_htlcs iv)) ks))"
  using assms
proof (induction ks arbitrary: iv a)
  case Nil
  then show ?case by simp
next
  case (Cons k ks)
  show ?case
  proof (cases "iv_htlcs iv k")
    case None
    then show ?thesis
      using Cons by (simp add: addHTLCs_align_def map_htlcs_Cons_None counted_def)
  next
    case (Some h)
    let ?iv = "put_htlc k (aligned (iv_state iv) now h) iv"
    have h: "ih_amp h = None" "iv_state iv \<noteq> ContractSettled \<longrightarrow> ih_state h \<noteq> HtlcStateSettled"
      using Some Cons.prems(4,5) by (auto simp: ran_def)
    have al: "ih_amp (aligned s now h) = ih_amp h" "s \<noteq> ContractSettled \<longrightarrow> aligned s now h = h" for s
      by (simp_all add: aligned_def)
    have "\<not> IsAMP ?iv" "iv_state ?iv = iv_state iv"
      using Cons.prems(1) by (simp_all add: IsAMP_def put_htlc_def)
    moreover have "\<forall>h \<in> ran (iv_htlcs ?iv). ih_amp h = None"
      using Cons.prems(4) h(1) al(1) by (auto simp: put_htlc_def ran_def)
    moreover have "iv_state iv \<noteq> ContractSettled \<longrightarrow> (\<forall>h \<in> ran (iv_htlcs ?iv). ih_state h \<noteq> HtlcStateSettled)"
      using Cons.prems(5) h(2) al(2) by (auto simp: put_htlc_def ran_def)
    ultimately have "for_each (addHTLCs_align sha now None upd) ks ((?iv, u), a') =
       Inr ((?iv\<lparr>iv_htlcs := map_htlcs ks (aligned (iv_state iv) now) (iv_htlcs ?iv)\<rparr>, u),
          a' + sum_list (map (counted (iv_state iv) (iv_htlcs ?iv)) ks))" for a'
      using Cons.IH [of ?iv a'] Cons.prems by simp
    moreover have "map_htlcs ks (aligned (iv_state iv) now) (iv_htlcs ?iv) = map_htlcs (k # ks) (aligned (iv_state iv) now) (iv_htlcs iv)"
      using Some Cons.prems(3) by (simp add: put_htlc_def map_htlcs_Cons)
    moreover have "sum_list (map (counted (iv_state iv) (iv_htlcs ?iv)) ks) = sum_list (map (counted (iv_state iv) (iv_htlcs iv)) ks)"
      using Cons.prems(3) by (intro arg_cong [where f = sum_list] map_cong) (auto simp: put_htlc_def counted_def)
    ultimately have "for_each (addHTLCs_align sha now None upd) ks ((?iv, u), a') =
       Inr ((iv\<lparr>iv_htlcs := map_htlcs (k # ks) (aligned (iv_state iv) now) (iv_htlcs iv)\<rparr>, u),
          a' + sum_list (map (counted (iv_state iv) (iv_htlcs iv)) ks))" for a'
      by (simp add: put_htlc_def)
    then show ?thesis
      using align_step [OF Cons.prems(1,2) Some h(1) h(2)] Cons.prems(6) by (simp add: ac_simps)
  qed
qed

text \<open>Settling the HTLCs of a hodl invoice, and cancelling all that are held.\<close>

lemma settleHodl_loop:
  assumes "distinct ks" "\<forall>h \<in> ran (iv_htlcs iv). ih_amp h = None"
  shows "for_each (settleHodl_step sha now) ks (iv, a) =
     Inr (iv\<lparr>iv_htlcs := map_htlcs ks (resolveTo HtlcStateSettled now) (iv_htlcs iv)\<rparr>,
          a + sum_list (map (amt_in HtlcStateAccepted (iv_htlcs iv)) ks))"
  using assms
proof (induction ks arbitrary: iv a)
  case Nil
  then show ?case by simp
next
  case (Cons k ks)
  show ?case
  proof (cases "iv_htlcs iv k")
    case None
    then show ?thesis
      using Cons by (simp add: settleHodl_step_def map_htlcs_Cons_None amt_in_def)
  next
    case (Some h)
    let ?r = "resolveTo HtlcStateSettled now"
    let ?iv = "put_htlc k (?r h) iv"
    have h: "ih_amp h = None"
      using Some Cons.prems(2) by (auto simp: ran_def)
    have step: "settleHodl_step sha now k (iv, a) = Inr (?iv, a + amt_in HtlcStateAccepted (iv_htlcs iv) k)"
    proof (cases "ih_state h = HtlcStateAccepted")
      case True
      then show ?thesis
        using Some resolve_Some_amp [OF h]
        by (simp add: settleHodl_step_def getUpdatedHtlcState_def trySettle_def resolveHtlc_def amt_in_def resolveTo_def)
    next
      case False
      have "iv = put_htlc k h iv"
        using Some by (simp add: put_htlc_def fun_upd_idem)
      with False Some show ?thesis
        by (simp add: settleHodl_step_def getUpdatedHtlcState_def trySettle_def amt_in_def resolveTo_def)
    qed
    have "\<forall>h \<in> ran (iv_htlcs ?iv). ih_amp h = None"
      using Cons.prems(2) h by (auto simp: put_htlc_def ran_def)
    then have "for_each (settleHodl_step sha now) ks (?iv, a') =
       Inr (?iv\<lparr>iv_htlcs := map_htlcs ks ?r (iv_htlcs ?iv)\<rparr>,
            a' + sum_list (map (amt_in HtlcStateAccepted (iv_htlcs ?iv)) ks))" for a'
      using Cons.IH [of ?iv a'] Cons.prems(1) by simp
    moreover have "map_htlcs ks ?r (iv_htlcs ?iv) = map_htlcs (k # ks) ?r (iv_htlcs iv)"
      using Some Cons.prems(1) by (simp add: put_htlc_def map_htlcs_Cons)
    moreover have "sum_list (map (amt_in HtlcStateAccepted (iv_htlcs ?iv)) ks) = sum_list (map (amt_in HtlcStateAccepted (iv_htlcs iv)) ks)"
      using Cons.prems(1) by (intro arg_cong [where f = sum_list] map_cong) (auto simp: put_htlc_def amt_in_def)
    ultimately have "for_each (settleHodl_step sha now) ks (?iv, a') =
       Inr (iv\<lparr>iv_htlcs := map_htlcs (k # ks) ?r (iv_htlcs iv)\<rparr>,
            a' + sum_list (map (amt_in HtlcStateAccepted (iv_htlcs iv)) ks))" for a'
      by (simp add: put_htlc_def)
    then show ?thesis
      using step by (simp add: ac_simps)
  qed
qed

definition cancel :: "int \<Rightarrow> invoice_htlc \<Rightarrow> invoice_htlc" where
  "cancel now h = (if ih_state h = HtlcStateCanceled then h else h\<lparr>ih_state := HtlcStateCanceled, ih_resolveTime := now\<rparr>)"

lemma cancel_simps [simp]:
  "ih_amp (cancel now h) = ih_amp h" "ih_state (cancel now h) = HtlcStateCanceled"
  by (simp_all add: cancel_def)

lemma cancel_loop:
  assumes "distinct ks" "\<forall>h \<in> ran (iv_htlcs iv). ih_amp h = None \<and> ih_state h \<noteq> HtlcStateSettled"
  shows "for_each (cancelInvoice_step sha now setID) ks (iv, u) =
     Inr (iv\<lparr>iv_htlcs := map_htlcs ks (cancel now) (iv_htlcs iv)\<rparr>, u)"
  using assms
proof (induction ks arbitrary: iv)
  case Nil
  then show ?case by simp
next
  case (Cons k ks)
  show ?case
  proof (cases "iv_htlcs iv k")
    case None
    then show ?thesis
      using Cons by (simp add: cancelInvoice_step_def map_htlcs_Cons_None)
  next
    case (Some h)
    let ?iv = "put_htlc k (cancel now h) iv"
    have h: "ih_amp h = None" "ih_state h \<noteq> HtlcStateSettled"
      using Some Cons.prems(2) by (auto simp: ran_def)
    have "put_htlc k h iv = iv"
      using Some by (simp add: put_htlc_def fun_upd_idem)
    then have step: "cancelInvoice_step sha now setID k (iv, u) = Inr (?iv, u)"
      using Some h by (simp add: cancelInvoice_step_def getUpdatedHtlcState_def resolveHtlc_def cancel_def)
    have "\<forall>h \<in> ran (iv_htlcs ?iv). ih_amp h = None \<and> ih_state h \<noteq> HtlcStateSettled"
      using Cons.prems(2) h by (auto simp: put_htlc_def ran_def)
    then have "for_each (cancelInvoice_step sha now setID) ks (?iv, u) =
       Inr (?iv\<lparr>iv_htlcs := map_htlcs ks (cancel now) (iv_htlcs ?iv)\<rparr>, u)"
      using Cons.IH [of ?iv] Cons.prems(1) by simp
    moreover have "map_htlcs ks (cancel now) (iv_htlcs ?iv) = map_htlcs (k # ks) (cancel now) (iv_htlcs iv)"
      using Some Cons.prems(1) by (simp add: put_htlc_def map_htlcs_Cons)
    ultimately show ?thesis
      using step by (simp add: put_htlc_def)
  qed
qed

section \<open>The invariant of an invoice\<close>

definition invoice_ok :: "(byte list \<Rightarrow> byte list) \<Rightarrow> pay_hash \<Rightarrow> invoice \<Rightarrow> bool" where
  "invoice_ok sha hash iv \<longleftrightarrow>
     finite (dom (iv_htlcs iv)) \<and> (\<forall>h \<in> ran (iv_htlcs iv). ih_amp h = None) \<and>
     (\<forall>p. ct_paymentPreimage (iv_terms iv) = Some p \<longrightarrow> sha p = hash) \<and>
     (case iv_state iv of
        ContractOpen \<Rightarrow>
          iv_amtPaid iv = 0 \<and>
          (\<forall>h \<in> ran (iv_htlcs iv). ih_state h \<noteq> HtlcStateSettled \<and>
             (ih_state h = HtlcStateAccepted \<longrightarrow> ct_value (iv_terms iv) \<le> ih_mppTotalAmt h))
      | ContractAccepted \<Rightarrow>
          iv_hodlInvoice iv \<and> (\<forall>h \<in> ran (iv_htlcs iv). ih_state h \<noteq> HtlcStateSettled) \<and>
          unat (ct_value (iv_terms iv)) \<le> htlc_sum HtlcStateAccepted (iv_htlcs iv) \<and>
          iv_amtPaid iv = of_nat (htlc_sum HtlcStateAccepted (iv_htlcs iv))
      | ContractSettled \<Rightarrow>
          ct_paymentPreimage (iv_terms iv) \<noteq> None \<and>
          (\<forall>h \<in> ran (iv_htlcs iv). ih_state h \<noteq> HtlcStateAccepted) \<and>
          unat (ct_value (iv_terms iv)) \<le> htlc_sum HtlcStateSettled (iv_htlcs iv) \<and>
          iv_amtPaid iv = of_nat (htlc_sum HtlcStateSettled (iv_htlcs iv))
      | ContractCanceled \<Rightarrow> \<forall>h \<in> ran (iv_htlcs iv). ih_state h = HtlcStateCanceled)"

lemma ran_map_htlcs: "dom m \<subseteq> set ks \<Longrightarrow> ran (map_htlcs ks f m) = f ` ran m"
  by (auto simp: map_htlcs_all ran_def image_iff)

lemma amt_in_map:
  assumes "\<forall>h \<in> ran m. ih_amt (f h) = ih_amt h \<and> (ih_state (f h) = st' \<longleftrightarrow> ih_state h = st)" "dom m \<subseteq> set ks"
  shows "amt_in st' (map_htlcs ks f m) k = amt_in st m k"
  using assms by (cases "m k") (auto simp: map_htlcs_all amt_in_def ran_def)

lemma htlc_sum_map:
  assumes "\<forall>h \<in> ran m. ih_amt (f h) = ih_amt h \<and> (ih_state (f h) = st' \<longleftrightarrow> ih_state h = st)" "dom m \<subseteq> set ks"
  shows "htlc_sum st' (map_htlcs ks f m) = htlc_sum st m"
  by (simp add: htlc_sum_amt_in amt_in_map [OF assms])

lemma sum_amt_in:
  assumes "distinct ks" "set ks = dom m"
  shows "sum_list (map (amt_in st m) ks) = of_nat (htlc_sum st m)"
  using htlc_sum_list [OF assms, of st] of_nat_sum_list_unat [of "amt_in st m" ks] by simp

section \<open>Updates keep the invariant\<close>

text \<open>The HTLC an accepted descriptor becomes on an invoice without AMP.\<close>

definition new_htlc :: "int \<Rightarrow> htlc_accept_desc \<Rightarrow> invoice_htlc" where
  "new_htlc now d =
     \<lparr>ih_amt = hd_amt d, ih_mppTotalAmt = hd_mppTotalAmt d, ih_acceptHeight = hd_acceptHeight d,
      ih_acceptTime = now, ih_resolveTime = 0, ih_expiry = hd_expiry d, ih_state = HtlcStateAccepted,
      ih_customRecords = hd_customRecords d, ih_amp = None\<rparr>"

definition stateAfter ::
  "(byte list \<Rightarrow> byte list) \<Rightarrow> circuit_key list \<Rightarrow> pay_hash option \<Rightarrow> invoice_update \<Rightarrow> invoice \<Rightarrow> invoice_error + contract_state" where
  "stateAfter sha order hash upd iv =
     (case iu_state upd of None \<Rightarrow> Inr (iv_state iv) | Some su \<Rightarrow> getUpdatedInvoiceState sha order iv hash su)"

lemma addHTLCs_plain:
  assumes "\<not> IsAMP iv" "plain_update upd" "iu_addHtlcs upd = [(k, d)]" "iv_htlcs iv k = None"
    and iv1: "iv1 = put_htlc k (new_htlc now d) iv"
    and "keysCover order (iv_htlcs iv1)" "\<forall>h \<in> ran (iv_htlcs iv1). ih_amp h = None"
    and "stateAfter sha order hash upd iv1 = Inr s" "s \<noteq> ContractCanceled"
    and "s \<noteq> ContractSettled \<longrightarrow> (\<forall>h \<in> ran (iv_htlcs iv1). ih_state h \<noteq> HtlcStateSettled)"
  shows "addHTLCs sha order hash now upd (iv, u) =
     Inr (iv1\<lparr>iv_state := s, iv_htlcs := map_htlcs (range_keys order (iv_htlcs iv1)) (aligned s now) (iv_htlcs iv1),
             iv_amtPaid := sum_list (map (counted s (iv_htlcs iv1)) (range_keys order (iv_htlcs iv1)))\<rparr>, u)"
proof -
  let ?iv2 = "iv1\<lparr>iv_state := s\<rparr>"
  have amp: "IsAMP iv1 = IsAMP iv" "IsAMP ?iv2 = IsAMP iv"
    by (simp_all add: iv1 IsAMP_def put_htlc_def)
  have add: "for_each (addHTLCs_add now) (iu_addHtlcs upd) (iv, u) = Inr (iv1, u)"
    using assms(1,3,4) by (simp add: addHTLCs_add_def iv1 new_htlc_def)
  have state: "(case iu_state upd of None \<Rightarrow> Inr iv1
      | Some su \<Rightarrow> (case getUpdatedInvoiceState sha order iv1 hash su of Inl e \<Rightarrow> Inl e
          | Inr newState \<Rightarrow> Inr (if \<not> False \<or> newState = ContractCanceled then iv1\<lparr>iv_state := newState\<rparr> else iv1))) = Inr ?iv2"
    using assms(8) by (auto simp: stateAfter_def split: option.splits sum.splits)
  have loop: "for_each (addHTLCs_align sha now None upd) (range_keys order (iv_htlcs ?iv2)) ((?iv2, u), 0) =
     Inr ((?iv2\<lparr>iv_htlcs := map_htlcs (range_keys order (iv_htlcs ?iv2)) (aligned (iv_state ?iv2) now) (iv_htlcs ?iv2)\<rparr>, u),
          0 + sum_list (map (counted (iv_state ?iv2) (iv_htlcs ?iv2)) (range_keys order (iv_htlcs ?iv2))))"
    using assms(1,2,7,9,10) amp range_keys_props(1) [OF assms(6)] by (intro align_loop) simp_all
  show ?thesis
    using add state loop assms(1) by (simp add: addHTLCs_def)
qed

lemma counted_sum:
  assumes "keysCover order m" "s \<in> {ContractAccepted, ContractSettled}"
    and "s = ContractAccepted \<longrightarrow> (\<forall>h \<in> ran m. ih_state h \<noteq> HtlcStateSettled)"
    and st: "st = (if s = ContractSettled then HtlcStateSettled else HtlcStateAccepted)"
  shows "sum_list (map (counted s m) (range_keys order m)) =
     of_nat (htlc_sum st (map_htlcs (range_keys order m) (aligned s now) m))"
proof -
  let ?ks = "range_keys order m"
  have "counted s m k = amt_in st (map_htlcs ?ks (aligned s now) m) k" if "k \<in> set ?ks" for k
    using that assms(2,3) by (cases "m k") (auto simp: counted_def amt_in_def map_htlcs_def st aligned_def ran_def intro: htlc_state.exhaust)
  then have "map (counted s m) ?ks = map (amt_in st (map_htlcs ?ks (aligned s now) m)) ?ks"
    by simp
  then show ?thesis
    by (metis (no_types) sum_amt_in range_keys_props(1,2) [OF assms(1)] map_htlcs_simps(2))
qed

lemma htlc_sum_aligned:
  assumes "keysCover order m"
    and "s \<noteq> ContractSettled \<longrightarrow> (\<forall>h \<in> ran m. ih_state h \<noteq> HtlcStateSettled)"
  shows "htlc_sum (if s = ContractSettled then HtlcStateSettled else HtlcStateAccepted)
     (map_htlcs (range_keys order m) (aligned s now) m) = htlc_sum HtlcStateAccepted m + htlc_sum HtlcStateSettled m"
proof (cases "s = ContractSettled")
  case True
  let ?m = "map_htlcs (range_keys order m) (aligned s now) m"
  have "unat (amt_in HtlcStateSettled ?m k) = unat (amt_in HtlcStateAccepted m k) + unat (amt_in HtlcStateSettled m k)"
    if "k \<in> dom m" for k
    using that True range_keys_props(2) [OF assms(1)]
    by (cases "m k"; cases "ih_state (the (m k))") (auto simp: amt_in_def map_htlcs_def aligned_def)
  then show ?thesis
    using True by (simp add: htlc_sum_amt_in sum.distrib [symmetric] cong: sum.cong)
next
  case False
  then show ?thesis
    using assms(2) by (simp add: aligned_def map_htlcs_id htlc_sum_none)
qed

lemma invoice_ok_added:
  assumes ok: "invoice_ok sha hash iv" and "\<not> IsAMP iv" "plain_update upd" "iu_addHtlcs upd = [(k, d)]"
    and fresh: "iv_htlcs iv k = None"
    and iv1: "iv1 = put_htlc k (new_htlc now d) iv"
    and cov: "keysCover order (iv_htlcs iv1)" and after: "stateAfter sha order h upd iv1 = Inr s"
    and opn: "s = ContractOpen \<longrightarrow> iv_state iv = ContractOpen \<and> ct_value (iv_terms iv) \<le> hd_mppTotalAmt d"
    and acc: "s = ContractAccepted \<longrightarrow> iv_state iv \<noteq> ContractSettled \<and> iv_hodlInvoice iv"
    and pre: "s = ContractSettled \<longrightarrow> ct_paymentPreimage (iv_terms iv) \<noteq> None"
    and paid: "s \<noteq> ContractOpen \<longrightarrow> unat (ct_value (iv_terms iv)) \<le>
        htlc_sum HtlcStateAccepted (iv_htlcs iv) + htlc_sum HtlcStateSettled (iv_htlcs iv) + unat (hd_amt d)"
    and live: "iv_state iv \<noteq> ContractCanceled" "s \<noteq> ContractCanceled"
  shows "\<exists>iv'. addHTLCs sha order h now upd (iv, u) = Inr (iv', u) \<and> invoice_ok sha hash iv' \<and>
     IsAMP iv' = IsAMP iv \<and> iv_htlcs iv' = map_htlcs (range_keys order (iv_htlcs iv1)) (aligned s now) (iv_htlcs iv1) \<and>
     iv_state iv' = s \<and> iv_terms iv' = iv_terms iv \<and> iv_hodlInvoice iv' = iv_hodlInvoice iv"
proof -
  let ?m = "iv_htlcs iv1" let ?ks = "range_keys order (iv_htlcs iv1)"
  let ?m' = "map_htlcs ?ks (aligned s now) ?m"
  let ?st = "if s = ContractSettled then HtlcStateSettled else HtlcStateAccepted"
  have m: "?m = (iv_htlcs iv)(k \<mapsto> new_htlc now d)"
    by (simp add: iv1 put_htlc_def)
  have fin: "finite (dom (iv_htlcs iv))" and noamp: "\<forall>h \<in> ran (iv_htlcs iv). ih_amp h = None"
    and hash: "\<forall>p. ct_paymentPreimage (iv_terms iv) = Some p \<longrightarrow> sha p = hash"
    using ok by (simp_all add: invoice_ok_def)
  have amp1: "\<forall>h \<in> ran ?m. ih_amp h = None"
    using noamp fresh by (simp add: m new_htlc_def)
  have uns: "s \<noteq> ContractSettled \<longrightarrow> (\<forall>h \<in> ran ?m. ih_state h \<noteq> HtlcStateSettled)"
  proof
    assume "s \<noteq> ContractSettled"
    then have "iv_state iv \<in> {ContractOpen, ContractAccepted}"
      using opn acc live by (cases s; cases "iv_state iv") auto
    then have "\<forall>h \<in> ran (iv_htlcs iv). ih_state h \<noteq> HtlcStateSettled"
      using ok by (auto simp: invoice_ok_def)
    then show "\<forall>h \<in> ran ?m. ih_state h \<noteq> HtlcStateSettled"
      using fresh by (simp add: m new_htlc_def)
  qed
  have res: "addHTLCs sha order h now upd (iv, u) =
     Inr (iv1\<lparr>iv_state := s, iv_htlcs := ?m', iv_amtPaid := sum_list (map (counted s ?m) ?ks)\<rparr>, u)"
    using addHTLCs_plain [OF assms(2,3,4) fresh iv1 cov amp1 after live(2) uns] .
  have dom: "dom ?m \<subseteq> set ?ks" and ran: "ran ?m' = aligned s now ` ran ?m"
    using range_keys_props(2) [OF cov] by (simp_all add: ran_map_htlcs)
  have total: "htlc_sum ?st ?m' = htlc_sum HtlcStateAccepted (iv_htlcs iv) + htlc_sum HtlcStateSettled (iv_htlcs iv) + unat (hd_amt d)"
    using htlc_sum_aligned [OF cov uns, of now] fresh fin by (simp add: m htlc_sum_put new_htlc_def)
  have amt: "s \<noteq> ContractOpen \<longrightarrow> sum_list (map (counted s ?m) ?ks) = of_nat (htlc_sum ?st ?m')"
    using counted_sum [OF cov, of s ?st now] uns live by (cases s) simp_all
  have opn0: "sum_list (map (counted ContractOpen ?m) ?ks) = 0"
    by (rule trans [OF arg_cong [where f = sum_list and y = "map (\<lambda>_. 0) ?ks"]])
       (auto simp: counted_def split: option.splits)
  have "invoice_ok sha hash (iv1\<lparr>iv_state := s, iv_htlcs := ?m', iv_amtPaid := sum_list (map (counted s ?m) ?ks)\<rparr>)"
  proof (cases s)
    case ContractOpen
    then have "\<forall>h \<in> ran (iv_htlcs iv). ih_state h = HtlcStateAccepted \<longrightarrow> ct_value (iv_terms iv) \<le> ih_mppTotalAmt h"
      using ok opn by (simp add: invoice_ok_def)
    then show ?thesis
      using ContractOpen opn uns opn0 hash amp1 fin fresh range_keys_props(3) [OF cov] ran
      by (auto simp: invoice_ok_def aligned_def iv1 put_htlc_def new_htlc_def)
  next
    case ContractAccepted
    then show ?thesis
      using acc uns amt paid total hash amp1 range_keys_props(3) [OF cov] ran
      by (auto simp: invoice_ok_def aligned_def iv1 put_htlc_def)
  next
    case ContractSettled
    then show ?thesis
      using pre amt paid total hash amp1 range_keys_props(3) [OF cov] ran
      by (auto simp: invoice_ok_def aligned_def iv1 put_htlc_def)
  next
    case ContractCanceled
    then show ?thesis using live(2) by simp
  qed
  then show ?thesis
    using res by (auto simp: IsAMP_def iv1 put_htlc_def)
qed

lemma members_total:
  assumes "invoice_ok sha hash iv" "keysCover order (iv_htlcs iv)"
  shows "foldl (\<lambda>t h. t + ih_amt h) 0 (map (\<lambda>k. the (HTLCSet iv None HtlcStateAccepted k))
           (range_keys order (HTLCSet iv None HtlcStateAccepted))) = of_nat (htlc_sum HtlcStateAccepted (iv_htlcs iv))"
proof -
  let ?S = "HTLCSet iv None HtlcStateAccepted"
  have S: "?S k = (case iv_htlcs iv k of None \<Rightarrow> None | Some h \<Rightarrow> if ih_state h = HtlcStateAccepted then Some h else None)" for k
    using assms(1) by (auto simp: HTLCSet_def invoice_ok_def resolve_Some_amp ran_def split: option.splits)
  have cov: "keysCover order ?S"
    using assms(2) by (auto simp: keysCover_def S split: option.splits if_splits)
  have "foldl (\<lambda>t h. t + ih_amt h) a (map (\<lambda>k. the (?S k)) ks) = a + sum_list (map (\<lambda>k. ih_amt (the (?S k))) ks)" for a ks
    by (induction ks arbitrary: a) (simp_all add: ac_simps)
  moreover have "map (\<lambda>k. ih_amt (the (?S k))) (range_keys order ?S) = map (amt_in HtlcStateAccepted ?S) (range_keys order ?S)"
    by (auto simp: range_keys_def amt_in_def S split: option.splits if_splits)
  ultimately have "foldl (\<lambda>t h. t + ih_amt h) 0 (map (\<lambda>k. the (?S k)) (range_keys order ?S)) = of_nat (htlc_sum HtlcStateAccepted ?S)"
    using sum_amt_in [OF range_keys_props(1,2) [OF cov], of HtlcStateAccepted] by (simp del: map_eq_conv)
  also have "htlc_sum HtlcStateAccepted ?S = htlc_sum HtlcStateAccepted (iv_htlcs iv)"
    unfolding htlc_sum_def using assms(1)
    by (intro sum.mono_neutral_cong_left) (auto simp: S invoice_ok_def split: option.splits if_splits)
  finally show ?thesis .
qed

lemma cancelHTLCs_loop:
  assumes "\<not> IsAMP iv" "iv_state iv = ContractOpen" "distinct ks"
    and "\<forall>k \<in> set ks. \<exists>h. iv_htlcs iv k = Some h \<and> ih_state h = HtlcStateAccepted"
  shows "for_each (cancelHTLCs_step now) ks (iv, u) =
     Inr (iv\<lparr>iv_htlcs := map_htlcs ks (cancel now) (iv_htlcs iv)\<rparr>, u)"
  using assms
proof (induction ks arbitrary: iv)
  case Nil
  then show ?case by simp
next
  case (Cons k ks)
  obtain h where h: "iv_htlcs iv k = Some h" "ih_state h = HtlcStateAccepted"
    using Cons.prems(4) by auto
  let ?iv = "put_htlc k (cancel now h) iv"
  have amp: "IsAMP (put_htlc k x iv) = IsAMP iv" "iv_state (put_htlc k x iv) = iv_state iv" for x
    by (simp_all add: IsAMP_def put_htlc_def)
  have step: "cancelHTLCs_step now k (iv, u) = Inr (?iv, u)"
    using h Cons.prems(1,2) amp by (simp add: cancelHTLCs_step_def canCancelSingleHtlc_def resolveHtlc_def cancel_def Let_def)
  have "\<forall>c \<in> set ks. \<exists>h. iv_htlcs ?iv c = Some h \<and> ih_state h = HtlcStateAccepted"
    using Cons.prems(3,4) by (auto simp: put_htlc_def)
  then have "for_each (cancelHTLCs_step now) ks (?iv, u) =
     Inr (?iv\<lparr>iv_htlcs := map_htlcs ks (cancel now) (iv_htlcs ?iv)\<rparr>, u)"
    using Cons.IH [of ?iv] Cons.prems(1-3) amp by simp
  moreover have "map_htlcs ks (cancel now) (iv_htlcs ?iv) = map_htlcs (k # ks) (cancel now) (iv_htlcs iv)"
    using h Cons.prems(3) by (simp add: put_htlc_def map_htlcs_Cons)
  ultimately show ?case
    using step by (simp add: put_htlc_def)
qed

text \<open>What an update may do: a resolved HTLC stays as it is, and no HTLC gets lost.\<close>

definition evolves :: "invoice \<Rightarrow> invoice \<Rightarrow> bool" where
  "evolves iv iv' \<longleftrightarrow>
     IsAMP iv' = IsAMP iv \<and> iv_hodlInvoice iv' = iv_hodlInvoice iv \<and>
     ct_value (iv_terms iv') = ct_value (iv_terms iv) \<and>
     (\<forall>k h. iv_htlcs iv k = Some h \<longrightarrow>
        (\<exists>h'. iv_htlcs iv' k = Some h' \<and> (ih_state h \<noteq> HtlcStateAccepted \<longrightarrow> h' = h)))"

lemma evolves_refl [simp]: "evolves iv iv"
  by (simp add: evolves_def)

lemma evolves_map:
  assumes "\<forall>h \<in> ran (iv_htlcs iv). ih_state h \<noteq> HtlcStateAccepted \<longrightarrow> f h = h" "iv_htlcs iv' = map_htlcs ks f (iv_htlcs iv)"
    and "IsAMP iv' = IsAMP iv" "iv_hodlInvoice iv' = iv_hodlInvoice iv" "ct_value (iv_terms iv') = ct_value (iv_terms iv)"
  shows "evolves iv iv'"
  using assms by (auto simp: evolves_def map_htlcs_def ran_def)

text \<open>Cancelling held HTLCs of an open invoice.\<close>

lemma cancelHTLCs_keeps:
  assumes ok: "invoice_ok sha hash iv" and "\<not> IsAMP iv" "iv_state iv = ContractOpen" "distinct ks"
    and acc: "\<forall>k \<in> set ks. \<exists>h. iv_htlcs iv k = Some h \<and> ih_state h = HtlcStateAccepted"
    and upd: "iu_updateType upd = CancelHTLCsUpdate" "iu_cancelHtlcs upd = ks"
  shows "\<exists>iv'. applyUpdate sha order h now upd (iv, u) = Inr (iv', u) \<and> invoice_ok sha hash iv' \<and> evolves iv iv'"
proof -
  let ?iv = "iv\<lparr>iv_htlcs := map_htlcs ks (cancel now) (iv_htlcs iv)\<rparr>"
  have "applyUpdate sha order h now upd (iv, u) = Inr (?iv, u)"
    using cancelHTLCs_loop [OF assms(2-5)] by (simp add: applyUpdate_def upd cancelHTLCs_def)
  moreover have "ran (map_htlcs ks (cancel now) (iv_htlcs iv)) \<subseteq> ran (iv_htlcs iv) \<union> cancel now ` ran (iv_htlcs iv)"
    by (auto simp: map_htlcs_def ran_def split: if_splits)
  then have "invoice_ok sha hash ?iv"
    using ok assms(3) by (auto simp: invoice_ok_def)
  moreover have "evolves iv ?iv"
    using ok assms(3) by (intro evolves_map) (auto simp: cancel_def IsAMP_def invoice_ok_def intro: htlc_state.exhaust)
  ultimately show ?thesis by blast
qed

text \<open>Settling a hodl invoice with the preimage of its hash.\<close>

lemma settleHodl_keeps:
  assumes ok: "invoice_ok sha hash iv" and "\<not> IsAMP iv" "iv_state iv = ContractAccepted" "sha p = hash"
    and cov: "keysCover order (iv_htlcs iv)"
    and upd: "iu_updateType upd = SettleHodlInvoiceUpdate" "iu_state upd = Some ((moveTo ContractSettled)\<lparr>su_preimage := Some p\<rparr>)"
    and run: "applyUpdate sha order (Some hash) now upd (iv, u) = Inr (iv', u')"
  shows "u' = u \<and> invoice_ok sha hash iv' \<and> evolves iv iv'"
proof -
  let ?ks = "range_keys order (iv_htlcs iv)"
  let ?m' = "map_htlcs ?ks (resolveTo HtlcStateSettled now) (iv_htlcs iv)"
  let ?iv1 = "iv\<lparr>iv_state := ContractSettled, iv_terms := (iv_terms iv)\<lparr>ct_paymentPreimage := Some p\<rparr>\<rparr>"
  have inv: "iv_hodlInvoice iv" "\<forall>h \<in> ran (iv_htlcs iv). ih_amp h = None \<and> ih_state h \<noteq> HtlcStateSettled"
      "unat (ct_value (iv_terms iv)) \<le> htlc_sum HtlcStateAccepted (iv_htlcs iv)"
    using ok assms(3) by (simp_all add: invoice_ok_def)
  have "for_each (settleHodl_step sha now) ?ks (?iv1, 0) =
     Inr (?iv1\<lparr>iv_htlcs := ?m'\<rparr>, sum_list (map (amt_in HtlcStateAccepted (iv_htlcs iv)) ?ks))"
    using settleHodl_loop [of ?ks ?iv1 sha now 0] inv(2) range_keys_props(1) [OF cov] by simp
  then have iv': "u' = u" "iv' = ?iv1\<lparr>iv_htlcs := ?m',
      iv_amtPaid := sum_list (map (amt_in HtlcStateAccepted (iv_htlcs iv)) ?ks)\<rparr>"
    using run by (auto simp: applyUpdate_def upd settleHodlInvoice_def moveTo_def split: sum.splits if_splits)
  have dom: "dom (iv_htlcs iv) \<subseteq> set ?ks" and ran: "ran ?m' = resolveTo HtlcStateSettled now ` ran (iv_htlcs iv)"
    using range_keys_props(2) [OF cov] by (simp_all add: ran_map_htlcs)
  have sum: "htlc_sum HtlcStateSettled ?m' = htlc_sum HtlcStateAccepted (iv_htlcs iv)"
    using inv(2) dom by (intro htlc_sum_map) auto
  have "sum_list (map (amt_in HtlcStateAccepted (iv_htlcs iv)) ?ks) = of_nat (htlc_sum HtlcStateSettled ?m')"
    unfolding sum by (rule sum_amt_in [OF range_keys_props(1,2) [OF cov]])
  then have "invoice_ok sha hash iv'"
    using inv sum ran range_keys_props(3) [OF cov] assms(4) by (auto simp: invoice_ok_def iv'(2))
  moreover have "evolves iv iv'"
    by (rule evolves_map [where f = "resolveTo HtlcStateSettled now"]) (simp_all add: iv'(2) resolveTo_def IsAMP_def)
  ultimately show ?thesis using iv'(1) by simp
qed

text \<open>Cancelling an invoice.\<close>

lemma cancelInvoice_keeps:
  assumes ok: "invoice_ok sha hash iv" and "\<not> IsAMP iv" and cov: "keysCover order (iv_htlcs iv)"
    and upd: "iu_updateType upd = CancelInvoiceUpdate" "iu_state upd = Some su"
    and run: "applyUpdate sha order h now upd (iv, u) = Inr (iv', u')"
  shows "u' = u \<and> invoice_ok sha hash iv' \<and> evolves iv iv'"
proof -
  let ?ks = "range_keys order (iv_htlcs iv)"
  let ?iv1 = "iv\<lparr>iv_state := ContractCanceled\<rparr>"
  have st: "iv_state iv \<in> {ContractOpen, ContractAccepted}"
    using run upd by (cases "iv_state iv") (auto simp: applyUpdate_def cancelInvoice_def getUpdatedInvoiceState_def
        Let_def split: sum.splits if_splits)
  then have inv: "\<forall>h \<in> ran (iv_htlcs iv). ih_amp h = None \<and> ih_state h \<noteq> HtlcStateSettled"
    using ok by (auto simp: invoice_ok_def)
  have "for_each (cancelInvoice_step sha now None) ?ks (?iv1, u) =
     Inr (?iv1\<lparr>iv_htlcs := map_htlcs ?ks (cancel now) (iv_htlcs iv)\<rparr>, u)"
    using cancel_loop [of ?ks ?iv1 sha now None u] inv range_keys_props(1) [OF cov] by simp
  then have iv': "u' = u" "iv' = ?iv1\<lparr>iv_htlcs := map_htlcs ?ks (cancel now) (iv_htlcs iv)\<rparr>"
    using run upd assms(2) by (auto simp: applyUpdate_def cancelInvoice_def split: sum.splits if_splits)
  have "ran (map_htlcs ?ks (cancel now) (iv_htlcs iv)) = cancel now ` ran (iv_htlcs iv)"
    using range_keys_props(2) [OF cov] by (simp add: ran_map_htlcs)
  then have "invoice_ok sha hash iv'"
    using ok inv by (auto simp: invoice_ok_def iv'(2))
  moreover have "evolves iv iv'"
    using inv by (intro evolves_map [where f = "cancel now" and ks = ?ks]) (auto simp: iv'(2) cancel_def IsAMP_def intro: htlc_state.exhaust)
  ultimately show ?thesis using iv'(1) by simp
qed

section \<open>The decision on an HTLC\<close>

lemma not_AMP_feature: "\<not> IsAMP iv \<Longrightarrow> ct_features (iv_terms iv) = Some fv \<Longrightarrow> \<not> RequiresFeature fv AMPRequired"
  by (simp add: IsAMP_def HasFeature_def RequiresFeature_def AMPRequired_def IsRequired_def)

text \<open>The ways to take an HTLC on an invoice without AMP: hold it, or settle it.\<close>

definition pays :: "invoice \<Rightarrow> msat \<Rightarrow> bool" where
  "pays iv amt \<longleftrightarrow> unat (ct_value (iv_terms iv)) \<le> htlc_sum HtlcStateAccepted (iv_htlcs iv) + unat amt"

inductive taken :: "update_ctx \<Rightarrow> invoice \<Rightarrow> htlc_accept_desc \<Rightarrow> invoice_state_update option \<Rightarrow> htlc_resolution \<Rightarrow> bool"
  for c iv d where
  partial: "iv_state iv = ContractOpen \<Longrightarrow> ct_value (iv_terms iv) \<le> hd_mppTotalAmt d \<Longrightarrow>
      taken c iv d None (acceptRes c ResultPartialAccepted)"
| duplicate_held: "iv_state iv = ContractAccepted \<Longrightarrow> taken c iv d None (acceptRes c ResultDuplicateToAccepted)"
| duplicate_settled: "iv_state iv = ContractSettled \<Longrightarrow> ct_paymentPreimage (iv_terms iv) = Some p \<Longrightarrow>
      taken c iv d None (settleRes c p ResultDuplicateToSettled)"
| held: "iv_state iv = ContractOpen \<Longrightarrow> iv_hodlInvoice iv \<Longrightarrow> pays iv (hd_amt d) \<Longrightarrow>
      taken c iv d (Some (moveTo ContractAccepted)) (acceptRes c ResultAccepted)"
| settled: "iv_state iv = ContractOpen \<Longrightarrow> ct_paymentPreimage (iv_terms iv) = Some p \<Longrightarrow> pays iv (hd_amt d) \<Longrightarrow>
      taken c iv d (Some ((moveTo ContractSettled)\<lparr>su_preimage := Some p\<rparr>)) (settleRes c p ResultSettled)"

lemma unat_total_le: "unat (of_nat n + x :: u64) \<le> n + unat x"
proof -
  have "unat (of_nat n + x :: u64) \<le> unat (of_nat n :: u64) + unat x"
    by (simp add: unat_word_ariths(1))
  also have "unat (of_nat n :: u64) \<le> n"
    by (simp add: unat_of_nat)
  finally show ?thesis by simp
qed

lemma updateMpp_taken:
  assumes ok: "invoice_ok sha hash iv" and amp: "\<not> IsAMP iv" and cov: "keysCover order (iv_htlcs iv)"
    and run: "updateMpp sha order c iv = Inr (Some upd, r)"
  shows "uc_amp c = None \<and> (\<exists>d su. upd = addUpdate c d su \<and> hd_amt d = uc_amtPaid c \<and> taken c iv d su r)"
proof -
  obtain fv where fv: "ct_features (iv_terms iv) = Some fv"
    using run by (cases "ct_features (iv_terms iv)") (simp_all add: updateMpp_def)
  have none: "uc_amp c = None"
    using run fv not_AMP_feature [OF amp fv] by (cases "uc_amp c") (simp_all add: updateMpp_def)
  then have setID: "ctx_setID c = None"
    by (simp add: ctx_setID_def)
  define total where "total = (case uc_mpp c of Some m \<Rightarrow> mr_totalMsat m | None \<Rightarrow> uc_totalAmtMsat c)"
  define d where "d = \<lparr>hd_acceptHeight = uc_currentHeight c, hd_amt = uc_amtPaid c, hd_mppTotalAmt = total,
      hd_expiry = uc_expiry c, hd_customRecords = uc_customRecords c ++ uc_wireCustomRecords c, hd_amp = None\<rparr>"
  let ?sum = "of_nat (htlc_sum HtlcStateAccepted (iv_htlcs iv)) + uc_amtPaid c"
  have enough: "pays iv (hd_amt d)" if "\<not> ?sum < total" "\<not> total < ct_value (iv_terms iv)"
  proof -
    have "unat (ct_value (iv_terms iv)) \<le> unat ?sum"
      using that by (simp add: word_less_nat_alt)
    then show ?thesis
      using unat_total_le [of "htlc_sum HtlcStateAccepted (iv_htlcs iv)" "uc_amtPaid c"] by (simp add: pays_def d_def)
  qed
  have moved: "\<lparr>su_newState = ContractSettled, su_preimage = Some p, su_htlcPreimages = [], su_setID = None\<rparr> =
      (moveTo ContractSettled)\<lparr>su_preimage := Some p\<rparr>" for p
    by (simp add: moveTo_def)
  let ?held = "addUpdate c d (Some (moveTo ContractAccepted))"
  have "iv_state iv = ContractOpen \<and> \<not> total < ct_value (iv_terms iv) \<and>
     (upd = addUpdate c d None \<and> r = acceptRes c ResultPartialAccepted \<or>
      \<not> ?sum < total \<and> iv_hodlInvoice iv \<and> upd = ?held \<and> r = acceptRes c ResultAccepted \<or>
      \<not> ?sum < total \<and> (\<exists>p. ct_paymentPreimage (iv_terms iv) = Some p \<and>
        upd = addUpdate c d (Some ((moveTo ContractSettled)\<lparr>su_preimage := Some p\<rparr>)) \<and> r = settleRes c p ResultSettled))"
    using run fv not_AMP_feature [OF amp fv]
    by (simp add: updateMpp_def none setID total_def [symmetric] d_def [symmetric] members_total [OF ok cov] moved Let_def
        split: if_splits option.splits)
  moreover have "hd_amt d = uc_amtPaid c" "\<not> total < ct_value (iv_terms iv) \<longrightarrow> ct_value (iv_terms iv) \<le> hd_mppTotalAmt d"
    by (simp_all add: d_def not_less)
  ultimately show ?thesis
    using none enough by (blast intro: taken.intros)
qed

lemma updateLegacy_taken:
  assumes ok: "invoice_ok sha hash iv"
    and run: "updateLegacy order c iv = Inr (Some upd, r)"
  shows "\<exists>d su. upd = addUpdate c d su \<and> hd_amt d = uc_amtPaid c \<and> taken c iv d su r"
proof -
  define d where "d = \<lparr>hd_acceptHeight = uc_currentHeight c, hd_amt = uc_amtPaid c, hd_mppTotalAmt = 0,
      hd_expiry = uc_expiry c, hd_customRecords = uc_customRecords c ++ uc_wireCustomRecords c, hd_amp = None\<rparr>"
  have pays: "pays iv (hd_amt d)" if "\<not> uc_amtPaid c < ct_value (iv_terms iv)"
    using that by (simp add: pays_def d_def word_less_nat_alt)
  have "\<not> uc_amtPaid c < ct_value (iv_terms iv) \<and>
     (iv_state iv = ContractAccepted \<and> upd = addUpdate c d None \<and> r = acceptRes c ResultDuplicateToAccepted \<or>
      iv_state iv = ContractSettled \<and> (\<exists>p. ct_paymentPreimage (iv_terms iv) = Some p \<and> upd = addUpdate c d None \<and>
        r = settleRes c p ResultDuplicateToSettled) \<or>
      iv_state iv = ContractOpen \<and> iv_hodlInvoice iv \<and> upd = addUpdate c d (Some (moveTo ContractAccepted)) \<and>
        r = acceptRes c ResultAccepted \<or>
      iv_state iv = ContractOpen \<and> (\<exists>p. ct_paymentPreimage (iv_terms iv) = Some p \<and>
        upd = addUpdate c d (Some ((moveTo ContractSettled)\<lparr>su_preimage := Some p\<rparr>)) \<and> r = settleRes c p ResultSettled))"
    using run
    by (cases "iv_state iv")
       (simp_all add: updateLegacy_def d_def [symmetric] Let_def split: if_splits option.splits)
  moreover have "hd_amt d = uc_amtPaid c"
    by (simp add: d_def)
  ultimately show ?thesis
    using pays by (blast intro: taken.intros)
qed

text \<open>What taking an HTLC does to the invoice; a resolution that settles leaves the HTLC settled.\<close>

lemma taken_keeps:
  assumes ok: "invoice_ok sha hash iv" and amp: "\<not> IsAMP iv" and fresh: "iv_htlcs iv (uc_circuitKey c) = None"
    and cov: "keysCover order (iv_htlcs iv)" "uc_circuitKey c \<in> set order"
    and tk: "taken c iv d su r"
  shows "\<exists>iv'. applyUpdate sha order (Some hash) now (addUpdate c d su) (iv, u) = Inr (iv', u) \<and>
     invoice_ok sha hash iv' \<and> evolves iv iv' \<and>
     (\<forall>p k n x. r = SettleResolution p k n x \<longrightarrow>
        ct_paymentPreimage (iv_terms iv') = Some p \<and> iv_state iv' = ContractSettled \<and>
        (\<exists>h. iv_htlcs iv' (uc_circuitKey c) = Some h \<and> ih_state h = HtlcStateSettled))"
proof -
  let ?k = "uc_circuitKey c" let ?upd = "addUpdate c d su"
  define iv1 where "iv1 = put_htlc ?k (new_htlc now d) iv"
  have upd: "iu_updateType ?upd = AddHTLCsUpdate" "iu_addHtlcs ?upd = [(?k, d)]" "iu_state ?upd = su"
    by (simp_all add: addUpdate_def)
  have iv1: "iv_state iv1 = iv_state iv" "iv_terms iv1 = iv_terms iv" "iv_htlcs iv1 ?k = Some (new_htlc now d)"
    by (simp_all add: iv1_def put_htlc_def)
  have cov1: "keysCover order (iv_htlcs iv1)"
    using cov by (auto simp: keysCover_def iv1_def put_htlc_def)
  have "?k \<in> set (range_keys order (HTLCSet iv1 None HtlcStateAccepted))"
    using cov(2) iv1(3) by (auto simp: set_range_keys HTLCSet_def new_htlc_def IsInHTLCSet_def)
  then have set: "range_keys order (HTLCSet iv1 None HtlcStateAccepted) \<noteq> []"
    by auto
  have sha: "\<forall>p. ct_paymentPreimage (iv_terms iv) = Some p \<longrightarrow> sha p = hash"
    and paid: "iv_state iv = ContractAccepted \<or> iv_state iv = ContractSettled \<longrightarrow> unat (ct_value (iv_terms iv)) \<le>
        htlc_sum HtlcStateAccepted (iv_htlcs iv) + htlc_sum HtlcStateSettled (iv_htlcs iv)"
    and hodl: "iv_state iv = ContractAccepted \<longrightarrow> iv_hodlInvoice iv"
    using ok by (auto simp: invoice_ok_def)
  define s where "s = (case su of None \<Rightarrow> iv_state iv | Some x \<Rightarrow> su_newState x)"
  have "plain_update ?upd" and after: "stateAfter sha order (Some hash) ?upd iv1 = Inr s"
    using tk set sha iv1(1)
    by (cases; simp add: plain_update_def addUpdate_def moveTo_def stateAfter_def s_def getUpdatedInvoiceState_def)+
  moreover have cond: "s = ContractOpen \<longrightarrow> iv_state iv = ContractOpen \<and> ct_value (iv_terms iv) \<le> hd_mppTotalAmt d"
      "s = ContractAccepted \<longrightarrow> iv_state iv \<noteq> ContractSettled \<and> iv_hodlInvoice iv"
      "s = ContractSettled \<longrightarrow> ct_paymentPreimage (iv_terms iv) \<noteq> None"
      "s \<noteq> ContractOpen \<longrightarrow> unat (ct_value (iv_terms iv)) \<le>
        htlc_sum HtlcStateAccepted (iv_htlcs iv) + htlc_sum HtlcStateSettled (iv_htlcs iv) + unat (hd_amt d)"
      "iv_state iv \<noteq> ContractCanceled" "s \<noteq> ContractCanceled"
    using tk hodl paid by (cases; simp add: s_def moveTo_def pays_def)+
  ultimately obtain iv' where iv': "addHTLCs sha order (Some hash) now ?upd (iv, u) = Inr (iv', u)"
      "invoice_ok sha hash iv'" "IsAMP iv' = IsAMP iv" "iv_state iv' = s"
      "iv_terms iv' = iv_terms iv \<and> iv_hodlInvoice iv' = iv_hodlInvoice iv"
      "iv_htlcs iv' = map_htlcs (range_keys order (iv_htlcs iv1)) (aligned s now) (iv_htlcs iv1)"
    using invoice_ok_added [OF ok amp _ upd(2) fresh iv1_def cov1 after] by blast
  have m': "iv_htlcs iv' k = map_option (aligned s now) (iv_htlcs iv1 k)" for k
    using range_keys_props(2) [OF cov1] by (simp add: iv'(6) map_htlcs_all)
  have "aligned s now h = h" if "ih_state h \<noteq> HtlcStateAccepted" for h
    using that by (simp add: aligned_def resolveTo_def)
  then have "evolves iv iv'"
    using iv'(3,5) fresh by (auto simp: evolves_def m' iv1_def put_htlc_def)
  moreover have "iv_htlcs iv' ?k = Some (aligned s now (new_htlc now d))"
    by (simp add: m' iv1(3))
  then have "s = ContractSettled \<longrightarrow> (\<exists>h. iv_htlcs iv' ?k = Some h \<and> ih_state h = HtlcStateSettled)"
    by (simp add: aligned_def new_htlc_def)
  moreover have "r = SettleResolution p k n x \<longrightarrow> s = ContractSettled \<and> ct_paymentPreimage (iv_terms iv) = Some p" for p k n x
    using tk by cases (auto simp: s_def moveTo_def acceptRes_def settleRes_def)
  ultimately have "\<forall>p k n x. r = SettleResolution p k n x \<longrightarrow>
        ct_paymentPreimage (iv_terms iv') = Some p \<and> iv_state iv' = ContractSettled \<and>
        (\<exists>h. iv_htlcs iv' ?k = Some h \<and> ih_state h = HtlcStateSettled)"
    unfolding iv'(4) using iv'(5) by simp
  then show ?thesis
    using iv'(1,2) \<open>evolves iv iv'\<close> by (auto simp: applyUpdate_def upd)
qed

lemma invoiceRef_hash: "uc_amp c = None \<or> uc_mpp c = None \<or> uc_pathID c \<noteq> None \<Longrightarrow> rf_payHash (invoiceRef c) = Some (uc_hash c)"
  by (auto simp: invoiceRef_def invoiceRefByHash_def invoiceRefByHashAndAddr_def split: option.splits)

lemma updateInvoice_taken:
  assumes "invoice_ok sha hash iv" "\<not> IsAMP iv" "keysCover order (iv_htlcs iv)"
    and "updateInvoice sha order c iv = Inr (Some upd, r)"
  shows "rf_payHash (invoiceRef c) = Some (uc_hash c) \<and>
     (\<exists>d su. upd = addUpdate c d su \<and> hd_amt d = uc_amtPaid c \<and> taken c iv d su r)"
proof (cases "uc_mpp c = None \<and> uc_pathID c = None")
  case True
  then show ?thesis
    using updateLegacy_taken [OF assms(1), of order c upd r] invoiceRef_hash [of c] assms(4)
    by (simp add: updateInvoice_def)
next
  case False
  then have "updateMpp sha order c iv = Inr (Some upd, r)"
    using assms(4) by (simp only: updateInvoice_def if_False)
  from updateMpp_taken [OF assms(1-3) this] invoiceRef_hash [of c] show ?thesis
    by blast
qed

text \<open>A replayed HTLC gets the answer of its state.\<close>

lemma replay_settled:
  assumes "invoice_ok sha hash iv" "resolveReplayedHtlc c iv = Some (Inr (SettleResolution p k n x))"
  shows "ct_paymentPreimage (iv_terms iv) = Some p \<and> iv_state iv = ContractSettled \<and>
     (\<exists>h. iv_htlcs iv (uc_circuitKey c) = Some h \<and> ih_state h = HtlcStateSettled)"
proof -
  obtain h where h: "iv_htlcs iv (uc_circuitKey c) = Some h" "ih_state h = HtlcStateSettled"
    using assms(2) by (auto simp: resolveReplayedHtlc_def failRes_def acceptRes_def split: option.splits htlc_state.splits)
  have "h \<in> ran (iv_htlcs iv)"
    using h(1) by (auto simp: ran_def)
  then have "iv_state iv = ContractSettled" "ih_amp h = None"
    using assms(1) h(2) by (cases "iv_state iv"; auto simp: invoice_ok_def)+
  then show ?thesis
    using assms h by (auto simp: resolveReplayedHtlc_def settleRes_def invoice_ok_def split: option.splits)
qed

definition settles_only_paid :: "circuit_key \<Rightarrow> htlc_resolution \<Rightarrow> invoice \<Rightarrow> bool" where
  "settles_only_paid k r iv \<longleftrightarrow>
     (\<forall>p k' n x. r = SettleResolution p k' n x \<longrightarrow>
        ct_paymentPreimage (iv_terms iv) = Some p \<and> iv_state iv = ContractSettled \<and>
        (\<exists>h. iv_htlcs iv k = Some h \<and> ih_state h = HtlcStateSettled))"

lemma exit_hop_keeps:
  assumes ok: "invoice_ok sha hash iv" and amp: "\<not> IsAMP iv"
    and cov: "keysCover order (iv_htlcs iv)" "uc_circuitKey c \<in> set order"
    and hash: "\<forall>h. rf_payHash (invoiceRef c) = Some h \<longrightarrow> h = hash"
    and cb: "exitHopCallback sha order c cancelSet iv = Inr (update, r)"
  shows "case update of
      None \<Rightarrow> settles_only_paid (uc_circuitKey c) r iv
    | Some upd \<Rightarrow> \<exists>iv'. applyUpdate sha order (rf_payHash (invoiceRef c)) now upd (iv, u) = Inr (iv', u) \<and>
        invoice_ok sha hash iv' \<and> evolves iv iv' \<and> settles_only_paid (uc_circuitKey c) r iv'"
proof (cases "resolveReplayedHtlc c iv")
  case (Some res)
  then show ?thesis
    using cb replay_settled [OF ok, of c]
    by (auto simp: exitHopCallback_def settles_only_paid_def split: sum.splits)
next
  case None
  then have fresh: "iv_htlcs iv (uc_circuitKey c) = None"
    by (simp add: resolveReplayedHtlc_def split: option.splits)
  show ?thesis
  proof (cases cancelSet)
    case True
    let ?ks = "range_keys order (HTLCSet iv (ctx_setID c) HtlcStateAccepted)"
    have r: "settles_only_paid (uc_circuitKey c) r iv'" for iv'
      using cb None True by (auto simp: exitHopCallback_def failRes_def settles_only_paid_def split: if_splits)
    have "distinct ?ks" "\<forall>k \<in> set ?ks. \<exists>h. iv_htlcs iv k = Some h \<and> ih_state h = HtlcStateAccepted"
      using cov(1) by (auto simp: keysCover_def range_keys_def HTLCSet_def split: option.splits if_splits)
    then show ?thesis
      using cb None True r cancelHTLCs_keeps [OF ok amp, of ?ks]
      by (fastforce simp: exitHopCallback_def split: if_splits)
  next
    case False
    then have run: "updateInvoice sha order c iv = Inr (update, r)"
      using cb None by (simp add: exitHopCallback_def)
    show ?thesis
    proof (cases update)
      case None
      have "r \<noteq> SettleResolution p k n x" for p k n x
        using run None by (auto simp: updateInvoice_def updateLegacy_def updateMpp_def Let_def failRes_def
            split: if_splits option.splits contract_state.splits)
      then show ?thesis
        using None by (simp add: settles_only_paid_def)
    next
      case (Some upd)
      then obtain d su where h: "rf_payHash (invoiceRef c) = Some (uc_hash c)" and upd: "upd = addUpdate c d su"
        and tk: "taken c iv d su r"
        using updateInvoice_taken [OF ok amp cov(1)] run by blast
      have "uc_hash c = hash"
        using hash h by blast
      with taken_keeps [OF ok amp fresh cov tk, of now u] show ?thesis
        unfolding Some h upd settles_only_paid_def by simp
    qed
  qed
qed

end
