(* ===== verification/Invoice_Run.thy ===== *)
theory Invoice_Run
  imports Invoice_Inv
begin

text \<open>
  Runs of the invoice registry: the invariant of its database, and what it guarantees about the
  preimages the node releases.
\<close>

section \<open>The features of an invoice never change\<close>

lemma for_each_keeps:
  assumes "\<And>x s s'. P s \<Longrightarrow> f x s = Inr s' \<Longrightarrow> P s'" "P s" "for_each f xs s = Inr s'"
  shows "P s'"
  using assms(2,3)
proof (induction xs arbitrary: s)
  case (Cons x xs)
  then show ?case
    using assms(1) by (cases "f x s") auto
qed simp

definition feats :: "invoice \<Rightarrow> feature_vector option" where
  "feats iv = ct_features (iv_terms iv)"

lemma IsAMP_feats: "feats iv' = feats iv \<Longrightarrow> IsAMP iv' = IsAMP iv"
  by (simp add: feats_def IsAMP_def)

lemma feats_simps [simp]:
  "feats (put_htlc k h iv) = feats iv" "feats (resolveHtlc k st now h iv) = feats iv"
  "feats (iv\<lparr>iv_state := s\<rparr>) = feats iv" "feats (iv\<lparr>iv_amtPaid := a\<rparr>) = feats iv"
  "feats (iv\<lparr>iv_htlcs := m\<rparr>) = feats iv" "feats (iv\<lparr>iv_ampState := w\<rparr>) = feats iv"
  "feats (iv\<lparr>iv_settleDate := t\<rparr>) = feats iv"
  "feats (iv\<lparr>iv_settleIndex := n\<rparr>) = feats iv" "feats (iv\<lparr>iv_addIndex := n\<rparr>) = feats iv"
  "feats (iv\<lparr>iv_state := s, iv_terms := (iv_terms iv)\<lparr>ct_paymentPreimage := p\<rparr>\<rparr>) = feats iv"
  by (simp_all add: feats_def put_htlc_def resolveHtlc_def)

lemma feats_amp:
  "feats (fst (put_amp_state i k s st)) = feats (fst st)"
  "acceptHtlcsAmp i k h st = Inr st' \<Longrightarrow> feats (fst st') = feats (fst st)"
  "cancelHtlcsAmp k h st = Inr st' \<Longrightarrow> feats (fst st') = feats (fst st)"
  "settleHtlcsAmp k h st = Inr st' \<Longrightarrow> feats (fst st') = feats (fst st)"
  by (auto simp: put_amp_state_def acceptHtlcsAmp_def cancelHtlcsAmp_def settleHtlcsAmp_def Let_def
      split: sum.splits option.splits prod.splits if_splits)

lemma feats_cancelHTLCs: "cancelHTLCs now upd st = Inr st' \<Longrightarrow> feats (fst st') = feats (fst st)"
  unfolding cancelHTLCs_def
  by (rule for_each_keeps [where P = "\<lambda>s. feats (fst s) = feats (fst st)"])
     (auto simp: cancelHTLCs_step_def Let_def dest: feats_amp(3) split: option.splits if_splits)

lemma feats_add: "for_each (addHTLCs_add now) ds st = Inr st' \<Longrightarrow> feats (fst st') = feats (fst st)"
  by (rule for_each_keeps [where P = "\<lambda>s. feats (fst s) = feats (fst st)"])
     (auto simp: addHTLCs_add_def Let_def dest: feats_amp(2) split: option.splits if_splits prod.splits)

lemma feats_align:
  "for_each (addHTLCs_align sha now setID upd) ks st = Inr st' \<Longrightarrow> feats (fst (fst st')) = feats (fst (fst st))"
  by (rule for_each_keeps [where P = "\<lambda>s. feats (fst (fst s)) = feats (fst (fst st))"])
     (auto simp: addHTLCs_align_def Let_def dest: feats_amp(4) split: option.splits if_splits prod.splits sum.splits)

lemma feats_addHTLCs: "addHTLCs sha order hash now upd st = Inr st' \<Longrightarrow> feats (fst st') = feats (fst st)"
  by (auto simp: addHTLCs_def Let_def dest!: feats_add feats_align split: option.splits if_splits prod.splits sum.splits)

lemma feats_settle_loop: "for_each (settleHodl_step sha now) ks s = Inr s' \<Longrightarrow> feats (fst s') = feats (fst s)"
  by (rule for_each_keeps [where P = "\<lambda>x. feats (fst x) = feats (fst s)"])
     (auto simp: settleHodl_step_def split: option.splits if_splits prod.splits sum.splits)

lemma feats_settle: "settleHodlInvoice sha order hash now upd iv = Inr iv' \<Longrightarrow> feats iv' = feats iv"
  by (auto simp: settleHodlInvoice_def Let_def dest!: feats_settle_loop
      split: option.splits if_splits prod.splits sum.splits)

lemma feats_cancel_loop: "for_each (cancelInvoice_step sha now i) ks s = Inr s' \<Longrightarrow> feats (fst s') = feats (fst s)"
  by (rule for_each_keeps [where P = "\<lambda>x. feats (fst x) = feats (fst s)"])
     (auto simp: cancelInvoice_step_def Let_def dest: feats_amp(3) split: option.splits if_splits prod.splits sum.splits)

lemma feats_cancelInvoice: "cancelInvoice sha order hash now upd st = Inr st' \<Longrightarrow> feats (fst st') = feats (fst st)"
  by (auto simp: cancelInvoice_def Let_def dest!: feats_cancel_loop split: option.splits if_splits prod.splits sum.splits)

lemma feats_applyUpdate: "applyUpdate sha order hash now upd st = Inr st' \<Longrightarrow> feats (fst st') = feats (fst st)"
  by (auto simp: applyUpdate_def dest: feats_cancelHTLCs feats_addHTLCs feats_settle feats_cancelInvoice
      split: update_type.splits sum.splits)

section \<open>What is written\<close>

lemma feats_setSettle: "feats (fst (setSettleMetaFields now num i st)) = feats (fst st)"
  by (auto simp: setSettleMetaFields_def Let_def split: prod.splits option.splits)

text \<open>The parts of the database that an update of an invoice leaves alone.\<close>

definition same_index :: "invoice_db \<Rightarrow> invoice_db \<Rightarrow> bool" where
  "same_index db db' \<longleftrightarrow> db_invoiceIndex db' = db_invoiceIndex db \<and> db_payAddrIndex db' = db_payAddrIndex db \<and>
     db_numInvoices db' = db_numInvoices db"

lemma same_index_refl [simp]: "same_index db db"
  by (simp add: same_index_def)

lemma same_index_trans: "same_index a b \<Longrightarrow> same_index b c \<Longrightarrow> same_index a c"
  by (simp add: same_index_def)

definition frame :: "store_state \<Rightarrow> store_state \<Rightarrow> bool" where
  "frame st st' \<longleftrightarrow> same_index (snd st) (snd st') \<and> db_invoices (snd st') = db_invoices (snd st) \<and>
     feats (fst st') = feats (fst st)"

lemma frame_refl [simp]: "frame st st"
  by (simp add: frame_def)

lemma frame_settle: "frame st st' \<Longrightarrow> frame st (setSettleMetaFields now num i st')"
  by (cases st') (auto simp: frame_def same_index_def setSettleMetaFields_def Let_def split: option.splits)

lemma frame_settles: "frame st st' \<Longrightarrow> frame st (foldl (\<lambda>st i. setSettleMetaFields now num (Some i) st) st' ids)"
  by (induction ids arbitrary: st') (simp_all add: frame_settle)

lemma indexSetIDs_frame:
  assumes "for_each (indexSetID num) us db = Inr db'"
  shows "same_index db db' \<and> db_invoices db' = db_invoices db \<and> db_ampHtlcs db' = db_ampHtlcs db"
  by (rule for_each_keeps [OF _ _ assms, where P = "\<lambda>x. same_index db x \<and> db_invoices x = db_invoices db \<and> db_ampHtlcs x = db_ampHtlcs db"])
     (auto simp: indexSetID_def same_index_def split: option.splits if_splits)

lemma updateAMP_frame:
  "same_index db (updateAMPInvoices num u iv db) \<and> db_invoices (updateAMPInvoices num u iv db) = db_invoices db"
proof -
  have "same_index db (foldl (\<lambda>db (setID, keys).
         db\<lparr>db_ampHtlcs := (db_ampHtlcs db)
              (num := AList.update setID (\<lambda>k. if keys k then iv_htlcs iv k else None) (db_ampHtlcs db num))\<rparr>) db xs) \<and>
     db_invoices (foldl (\<lambda>db (setID, keys).
         db\<lparr>db_ampHtlcs := (db_ampHtlcs db)
              (num := AList.update setID (\<lambda>k. if keys k then iv_htlcs iv k else None) (db_ampHtlcs db num))\<rparr>) db xs) = db_invoices db" for xs
    by (induction xs arbitrary: db) (auto simp: same_index_def)
  then show ?thesis
    by (simp add: updateAMPInvoices_def)
qed

definition stored_form :: "invoice \<Rightarrow> invoice" where
  "stored_form iv = (if IsAMP iv then iv\<lparr>iv_htlcs := Map.empty\<rparr> else iv)"

lemma storeCancel_props:
  assumes "storeCancelHtlcsUpdate num u (iv, db) = Inr (iv', db')"
  shows "iv' = iv \<and> same_index db db' \<and> db_invoices db' = (db_invoices db)(num \<mapsto> stored_form iv)"
  using assms updateAMP_frame [of _ num u iv]
  by (auto simp: storeCancelHtlcsUpdate_def serializeAndStoreInvoice_def stored_form_def same_index_def
      split: if_splits sum.splits)

lemma Finalize_props:
  assumes "Finalize now num ty u (iv, db) = Inr (iv', db')"
  shows "same_index db db' \<and> db_invoices db' = (db_invoices db)(num \<mapsto> stored_form iv') \<and> feats iv' = feats iv"
proof (cases ty)
  case AddHTLCsUpdate
  then obtain db1 where db1: "for_each (indexSetID num) (ku_updatedAmpHtlcs u) db = Inr db1"
    using assms by (auto simp: Finalize_def storeAddHtlcsUpdate_def split: sum.splits)
  let ?st2 = "if \<not> IsAMP iv \<and> iv_state iv = ContractSettled then setSettleMetaFields now num None (iv, db1) else (iv, db1)"
  let ?st3 = "foldl (\<lambda>st i. setSettleMetaFields now num (Some i) st) ?st2 (ku_settledSetIDs u)"
  have st3: "frame (iv, db1) ?st3"
    by (intro frame_settles) (simp add: frame_settle)
  have run: "storeCancelHtlcsUpdate num u (fst ?st3, snd ?st3) = Inr (iv', db')"
    using assms AddHTLCsUpdate db1 by (simp add: Finalize_def storeAddHtlcsUpdate_def Let_def)
  show ?thesis
    using storeCancel_props [OF run] st3 indexSetIDs_frame [OF db1] by (auto simp: frame_def intro: same_index_trans)
next
  case SettleHodlInvoiceUpdate
  then show ?thesis
    using assms
    by (auto simp: Finalize_def storeSettleHodlInvoiceUpdate_def setSettleMetaFields_def serializeAndStoreInvoice_def
        Let_def stored_form_def same_index_def split: if_splits sum.splits)
qed (use assms storeCancel_props in \<open>fastforce simp: Finalize_def\<close>)+

text \<open>For an invoice without AMP only the settle date and index differ.\<close>

definition meta_eq :: "invoice \<Rightarrow> invoice \<Rightarrow> bool" where
  "meta_eq iv iv' \<longleftrightarrow> (\<exists>t n. iv' = iv\<lparr>iv_settleDate := t, iv_settleIndex := n\<rparr>)"

lemma meta_eq_refl: "meta_eq iv iv"
  unfolding meta_eq_def by (rule exI [of _ "iv_settleDate iv"], rule exI [of _ "iv_settleIndex iv"]) simp

lemma meta_eq_props:
  assumes "meta_eq iv iv'"
  shows "invoice_ok sha hash iv' = invoice_ok sha hash iv" "evolves iv0 iv' = evolves iv0 iv"
    "settles_only_paid k r iv' = settles_only_paid k r iv" "IsAMP iv' = IsAMP iv" "iv_htlcs iv' = iv_htlcs iv"
    "iv_state iv' = iv_state iv"
  using assms
  by (auto simp: meta_eq_def invoice_ok_def evolves_def settles_only_paid_def IsAMP_def split: contract_state.splits)

lemma Finalize_plain:
  assumes "Finalize now num ty emptyUpdater (iv, db) = Inr (iv', db')" "\<not> IsAMP iv"
  shows "meta_eq iv iv' \<and> db_invoices db' = (db_invoices db)(num \<mapsto> iv') \<and> same_index db db'"
proof -
  have "meta_eq iv iv'"
    using assms meta_eq_refl [of iv]
    by (cases ty)
       (auto simp: Finalize_def storeAddHtlcsUpdate_def storeCancelHtlcsUpdate_def storeSettleHodlInvoiceUpdate_def
         serializeAndStoreInvoice_def setSettleMetaFields_def Let_def emptyUpdater_def meta_eq_def
         split: if_splits sum.splits)
  then show ?thesis
    using Finalize_props [OF assms(1)] assms(2) meta_eq_props(4) [of iv iv'] by (simp add: stored_form_def)
qed

section \<open>The invariant of the database\<close>

definition db_ok :: "(byte list \<Rightarrow> byte list) \<Rightarrow> invoice_db \<Rightarrow> bool" where
  "db_ok sha db \<longleftrightarrow>
     (\<forall>h n. db_invoiceIndex db h = Some n \<longrightarrow> n < db_numInvoices db) \<and>
     (\<forall>h1 h2 n. db_invoiceIndex db h1 = Some n \<longrightarrow> db_invoiceIndex db h2 = Some n \<longrightarrow> h1 = h2) \<and>
     (\<forall>n iv. db_invoices db n = Some iv \<longrightarrow>
        (\<exists>h. db_invoiceIndex db h = Some n \<and> (\<not> IsAMP iv \<longrightarrow> invoice_ok sha h iv)))"

text \<open>
  A settled HTLC stays on its invoice, a canceled one too as long as the invoice is not deleted, and a
  deleted invoice does not come back.
\<close>

definition db_evolves :: "invoice_db \<Rightarrow> invoice_db \<Rightarrow> bool" where
  "db_evolves db db' \<longleftrightarrow>
     db_numInvoices db \<le> db_numInvoices db' \<and>
     (\<forall>n < db_numInvoices db.
        case db_invoices db n of
          None \<Rightarrow> db_invoices db' n = None
        | Some iv \<Rightarrow>
            \<not> IsAMP iv \<longrightarrow>
            (case db_invoices db' n of
               None \<Rightarrow> \<forall>h \<in> ran (iv_htlcs iv). ih_state h \<noteq> HtlcStateSettled
             | Some iv' \<Rightarrow> evolves iv iv'))"

lemma db_evolves_refl [simp]: "db_evolves db db"
  by (auto simp: db_evolves_def split: option.splits)

lemma evolves_trans: "evolves a b \<Longrightarrow> evolves b c \<Longrightarrow> evolves a c"
  unfolding evolves_def by metis

lemma evolves_settled:
  assumes "evolves iv iv'" "h \<in> ran (iv_htlcs iv)" "ih_state h = HtlcStateSettled"
  shows "h \<in> ran (iv_htlcs iv')"
  using assms by (fastforce simp: evolves_def ran_def)

lemma db_evolves_trans:
  assumes "db_evolves a b" "db_evolves b c"
  shows "db_evolves a c"
  unfolding db_evolves_def
proof (intro conjI allI impI)
  show "db_numInvoices a \<le> db_numInvoices c"
    using assms by (auto simp: db_evolves_def)
  fix n assume n: "n < db_numInvoices a"
  then have n': "n < db_numInvoices b"
    using assms(1) by (auto simp: db_evolves_def)
  note ab = assms(1) [unfolded db_evolves_def, THEN conjunct2, rule_format, OF n]
  note bc = assms(2) [unfolded db_evolves_def, THEN conjunct2, rule_format, OF n']
  show "case db_invoices a n of None \<Rightarrow> db_invoices c n = None
        | Some iv \<Rightarrow> \<not> IsAMP iv \<longrightarrow> (case db_invoices c n of
               None \<Rightarrow> \<forall>h \<in> ran (iv_htlcs iv). ih_state h \<noteq> HtlcStateSettled | Some iv' \<Rightarrow> evolves iv iv')"
  proof (cases "db_invoices a n")
    case (Some iv)
    show ?thesis
    proof (cases "db_invoices b n")
      case None
      then show ?thesis using Some ab bc by simp
    next
      case b: (Some iv')
      show ?thesis
      proof (cases "IsAMP iv")
        case False
        then have e: "evolves iv iv'" using Some b ab by simp
        then have "\<not> IsAMP iv'" using False by (simp add: evolves_def)
        then have bc': "case db_invoices c n of None \<Rightarrow> \<forall>h \<in> ran (iv_htlcs iv'). ih_state h \<noteq> HtlcStateSettled
            | Some iv'' \<Rightarrow> evolves iv' iv''"
          using b bc by simp
        show ?thesis
        proof (cases "db_invoices c n")
          case None
          then show ?thesis using Some bc' evolves_settled [OF e] by auto
        next
          case (Some iv'')
          then show ?thesis using \<open>db_invoices a n = Some iv\<close> bc' evolves_trans [OF e] by simp
        qed
      qed (simp add: Some)
    qed
  qed (use ab bc in simp)
qed

lemma db_evolves_one:
  assumes "db_numInvoices db' = db_numInvoices db" "db_invoices db' = (db_invoices db)(n \<mapsto> x)"
    and "db_invoices db n = Some iv" "\<not> IsAMP iv \<longrightarrow> evolves iv x"
  shows "db_evolves db db'"
  unfolding db_evolves_def
proof (intro conjI allI impI)
  fix m assume "m < db_numInvoices db"
  show "case db_invoices db m of None \<Rightarrow> db_invoices db' m = None
        | Some iv \<Rightarrow> \<not> IsAMP iv \<longrightarrow> (case db_invoices db' m of
               None \<Rightarrow> \<forall>h \<in> ran (iv_htlcs iv). ih_state h \<noteq> HtlcStateSettled | Some iv' \<Rightarrow> evolves iv iv')"
    using assms(2-4) by (cases "m = n") (auto split: option.splits)
qed (simp add: assms(1))

section \<open>Operations of the database\<close>

definition fresh_invoice :: "(byte list \<Rightarrow> byte list) \<Rightarrow> circuit_key list \<Rightarrow> pay_hash \<Rightarrow> invoice \<Rightarrow> bool" where
  "fresh_invoice sha order hash iv \<longleftrightarrow>
     iv_state iv = ContractOpen \<and> iv_amtPaid iv = 0 \<and> keysCover order (iv_htlcs iv) \<and>
     (\<forall>p. ct_paymentPreimage (iv_terms iv) = Some p \<longrightarrow> sha p = hash)"

lemma addInvoice_keeps:
  assumes ok: "db_ok sha db" and fresh: "fresh_invoice sha order hash iv"
    and room: "db_numInvoices db + 1 \<noteq> 0"
    and add: "addInvoice sha fo order iv hash db = Inr (db', i)"
  shows "db_ok sha db' \<and> db_evolves db db'"
proof -
  let ?num = "db_numInvoices db" let ?iv = "iv\<lparr>iv_addIndex := db_addSeq db + 1\<rparr>"
  have num: "unat (?num + 1) = Suc (unat ?num)"
    using unatSuc [of ?num] room by (simp add: add.commute)
  have less: "?num < ?num + 1" "\<And>n. n < ?num \<Longrightarrow> n < ?num + 1"
    unfolding word_less_nat_alt num by simp_all
  have v: "validateInvoice sha fo order iv hash = None" "db_invoiceIndex db hash = None"
    using add by (auto simp: addInvoice_def split: option.splits if_splits)
  then have "iv_htlcs iv = Map.empty"
    using fresh range_keys_Nil by (auto simp: validateInvoice_def fresh_invoice_def split: option.splits if_splits)
  then have iv: "invoice_ok sha hash ?iv"
    using fresh by (simp add: invoice_ok_def fresh_invoice_def)
  have db': "db_invoiceIndex db' = (db_invoiceIndex db)(hash \<mapsto> ?num)" "db_numInvoices db' = ?num + 1"
      "db_invoices db' = (db_invoices db)(?num \<mapsto> stored_form ?iv)"
    using add v by (auto simp: addInvoice_def putInvoice_def serializeAndStoreInvoice_def stored_form_def Let_def
        split: if_splits sum.splits)
  have old: "n < ?num" if "db_invoices db n = Some x" for n x
    using ok that unfolding db_ok_def by blast
  have idx: "\<forall>h n. db_invoiceIndex db h = Some n \<longrightarrow> n < ?num"
    using ok by (simp add: db_ok_def)
  have "db_ok sha db'"
    unfolding db_ok_def db'
  proof (intro conjI allI impI)
    fix h n assume "((db_invoiceIndex db)(hash \<mapsto> ?num)) h = Some n"
    then show "n < ?num + 1" using idx less by (auto split: if_splits)
  next
    fix h1 h2 n assume "((db_invoiceIndex db)(hash \<mapsto> ?num)) h1 = Some n" "((db_invoiceIndex db)(hash \<mapsto> ?num)) h2 = Some n"
    then show "h1 = h2" using idx ok by (auto simp: db_ok_def split: if_splits)
  next
    fix n x assume n: "((db_invoices db)(?num \<mapsto> stored_form ?iv)) n = Some x"
    show "\<exists>h. ((db_invoiceIndex db)(hash \<mapsto> ?num)) h = Some n \<and> (\<not> IsAMP x \<longrightarrow> invoice_ok sha h x)"
    proof (cases "n = ?num")
      case True
      then show ?thesis using n iv by (intro exI [of _ hash]) (auto simp: stored_form_def IsAMP_def split: if_splits)
    next
      case False
      then have "db_invoices db n = Some x" using n by simp
      then obtain h where "db_invoiceIndex db h = Some n" "\<not> IsAMP x \<longrightarrow> invoice_ok sha h x"
        using ok unfolding db_ok_def by blast
      then show ?thesis using v(2) by (intro exI [of _ h]) auto
    qed
  qed
  moreover have "db_evolves db db'"
    using less by (auto simp: db_evolves_def db' split: option.splits)
  ultimately show ?thesis by blast
qed

lemma addInvoice_stored:
  assumes "addInvoice sha fo order iv hash db = Inr (db', i)"
  shows "db_ampHtlcs db' = db_ampHtlcs db \<and>
    (\<forall>n x. db_invoices db' n = Some x \<longrightarrow> db_invoices db n = Some x \<or> iv_htlcs x = iv_htlcs iv \<or> iv_htlcs x = Map.empty)"
  using assms by (auto simp: addInvoice_def putInvoice_def serializeAndStoreInvoice_def Let_def
      split: if_splits sum.splits option.splits)

text \<open>What the update of one invoice must keep.\<close>

definition update_keeps ::
  "(byte list \<Rightarrow> byte list) \<Rightarrow> circuit_key list \<Rightarrow> int \<Rightarrow> invoice_ref \<Rightarrow> (invoice \<Rightarrow> invoice_error + invoice_update option \<times> 'r) \<Rightarrow>
     ('r \<Rightarrow> invoice \<Rightarrow> bool) \<Rightarrow> bool" where
  "update_keeps sha order now ref cb Q \<longleftrightarrow>
     (\<forall>hash iv update r. invoice_ok sha hash iv \<longrightarrow> \<not> IsAMP iv \<longrightarrow> keysCover order (iv_htlcs iv) \<longrightarrow>
        (\<forall>h. rf_payHash ref = Some h \<longrightarrow> h = hash) \<longrightarrow> cb iv = Inr (update, r) \<longrightarrow>
        (case update of
           None \<Rightarrow> Q r iv
         | Some upd \<Rightarrow> \<forall>iv1 u1. applyUpdate sha order (rf_payHash ref) now upd (iv, emptyUpdater) = Inr (iv1, u1) \<longrightarrow>
             u1 = emptyUpdater \<and> invoice_ok sha hash iv1 \<and> evolves iv iv1 \<and> Q r iv1))"

text \<open>The order of iteration lists the keys of all HTLCs.\<close>

definition order_ok :: "circuit_key list \<Rightarrow> invoice_db \<Rightarrow> bool" where
  "order_ok order db \<longleftrightarrow> distinct order \<and>
     (\<forall>n iv. db_invoices db n = Some iv \<longrightarrow> dom (iv_htlcs iv) \<subseteq> set order) \<and>
     (\<forall>n i m. map_of (db_ampHtlcs db n) i = Some m \<longrightarrow> dom m \<subseteq> set order)"

text \<open>What adding an invoice leaves of the stored HTLCs.\<close>

definition same_htlcs :: "invoice_db \<Rightarrow> invoice_db \<Rightarrow> bool" where
  "same_htlcs db db' \<longleftrightarrow> db_ampHtlcs db' = db_ampHtlcs db \<and>
     (\<forall>n iv. db_invoices db' n = Some iv \<longrightarrow> db_invoices db n = Some iv \<or> iv_htlcs iv = Map.empty)"

lemma fetchNum_hash:
  assumes "fetchInvoiceNumByRef ref db = Inr n" "rf_payHash ref = Some h" "rf_setID ref = None"
  shows "db_invoiceIndex db h = Some n"
  using assms by (auto simp: fetchInvoiceNumByRef_def Let_def split: option.splits if_splits)

lemma fetchInvoice_plain:
  assumes "fetchInvoice n hint flt db = Inr iv"
  shows "\<exists>iv0. db_invoices db n = Some iv0 \<and> feats iv = feats iv0 \<and> (\<not> IsAMP iv0 \<longrightarrow> iv = iv0)"
  using assms
  by (auto simp: fetchInvoice_def filterInvoiceAMPState_def feats_def Let_def split: option.splits if_splits)

lemma updateInvoiceDB_keeps:
  assumes ok: "db_ok sha db" and ord: "order_ok order db"
    and ref: "rf_setID ref = None \<or> rf_payHash ref = None"
    and keeps: "update_keeps sha order now ref cb Q" and Q: "\<And>r iv iv'. meta_eq iv iv' \<Longrightarrow> Q r iv' = Q r iv"
    and run: "updateInvoiceDB sha order now ref hint cb db = Inr (iv', r, db')"
  shows "db_ok sha db' \<and> db_evolves db db' \<and> same_index db db' \<and>
     (\<exists>n iv0. fetchInvoiceNumByRef ref db = Inr n \<and> db_invoices db n = Some iv0 \<and>
        (IsAMP iv0 \<longrightarrow> (\<exists>iv2. db_invoices db' n = Some iv2 \<and> IsAMP iv2)) \<and>
        (\<not> IsAMP iv0 \<longrightarrow> (\<exists>iv2. db_invoices db' n = Some iv2 \<and> \<not> IsAMP iv2 \<and> Q r iv2 \<and> iv_htlcs iv' = iv_htlcs iv2 \<and>
           iv_state iv' = iv_state iv2)))"
proof -
  obtain n iv update iv1 where n: "fetchInvoiceNumByRef ref db = Inr n" and iv: "fetchInvoice n hint False db = Inr iv"
    and cb: "cb iv = Inr (update, r)" and upd: "updateStored sha order now n (rf_payHash ref) update (iv, db) = Inr (iv1, db')"
    and iv': "iv' = filterInvoiceAMPState hint iv1"
    using run by (auto simp: updateInvoiceDB_def split: sum.splits)
  obtain iv0 where iv0: "db_invoices db n = Some iv0" "feats iv = feats iv0" "\<not> IsAMP iv0 \<longrightarrow> iv = iv0"
    using fetchInvoice_plain [OF iv] by blast
  obtain h where h: "db_invoiceIndex db h = Some n" "\<not> IsAMP iv0 \<longrightarrow> invoice_ok sha h iv0"
    using ok iv0(1) unfolding db_ok_def by blast
  have hash: "\<forall>h'. rf_payHash ref = Some h' \<longrightarrow> h' = h"
    using ref fetchNum_hash [OF n] h(1) ok by (auto simp: db_ok_def)
  have props: "same_index db db' \<and> (db_invoices db' = db_invoices db \<and> iv1 = iv \<and> update = None \<or>
      db_invoices db' = (db_invoices db)(n \<mapsto> stored_form iv1)) \<and> feats iv1 = feats iv"
    using upd Finalize_props feats_applyUpdate
    by (fastforce simp: updateStored_def split: option.splits sum.splits)
  have plain: "\<exists>iv2. db_invoices db' n = Some iv2 \<and> \<not> IsAMP iv2 \<and> Q r iv2 \<and> iv1 = iv2 \<and> invoice_ok sha h iv2 \<and> evolves iv0 iv2"
    if "\<not> IsAMP iv0"
  proof -
    have iv: "iv = iv0" "invoice_ok sha h iv0" "keysCover order (iv_htlcs iv0)"
      using that iv0 h(2) ord by (auto simp: order_ok_def keysCover_def)
    note k = keeps [unfolded update_keeps_def, rule_format, OF iv(2) that iv(3), of update r]
    show ?thesis
    proof (cases update)
      case None
      then show ?thesis
        using k hash cb iv upd that iv0(1) by (auto simp: updateStored_def)
    next
      case (Some u)
      then obtain iv2 w where a: "applyUpdate sha order (rf_payHash ref) now u (iv0, emptyUpdater) = Inr (iv2, w)"
          and f: "Finalize now n (iu_updateType u) w (iv2, db) = Inr (iv1, db')"
        using upd iv(1) by (auto simp: updateStored_def split: sum.splits)
      then have k': "w = emptyUpdater" "invoice_ok sha h iv2" "evolves iv0 iv2" "Q r iv2"
        using k hash cb iv(1) Some by auto
      then have amp: "\<not> IsAMP iv2" using that by (simp add: evolves_def)
      have m: "meta_eq iv2 iv1" "db_invoices db' n = Some iv1"
        using Finalize_plain [of now n _ iv2 db iv1 db'] f k'(1) amp by auto
      then show ?thesis
        using meta_eq_props [OF m(1)] k' amp Q [OF m(1)] by auto
    qed
  qed
  have amp: "IsAMP iv0 \<Longrightarrow> IsAMP (stored_form iv1)"
    using props IsAMP_feats [of iv1 iv0] iv0(2) by (auto simp: stored_form_def IsAMP_def)
  have "db_ok sha db'"
    unfolding db_ok_def
  proof (intro conjI)
    show "\<forall>h n. db_invoiceIndex db' h = Some n \<longrightarrow> n < db_numInvoices db'"
      "\<forall>h1 h2 n. db_invoiceIndex db' h1 = Some n \<longrightarrow> db_invoiceIndex db' h2 = Some n \<longrightarrow> h1 = h2"
      using ok props by (auto simp: db_ok_def same_index_def)
    show "\<forall>m x. db_invoices db' m = Some x \<longrightarrow>
        (\<exists>h. db_invoiceIndex db' h = Some m \<and> (\<not> IsAMP x \<longrightarrow> invoice_ok sha h x))"
    proof (intro allI impI)
      fix m x assume x: "db_invoices db' m = Some x"
      show "\<exists>h. db_invoiceIndex db' h = Some m \<and> (\<not> IsAMP x \<longrightarrow> invoice_ok sha h x)"
      proof (cases "m = n")
        case True
        have idx: "db_invoiceIndex db' h = Some m"
          using h(1) True props by (simp add: same_index_def)
        show ?thesis
        proof (cases "IsAMP iv0")
          case amp0: True
          then have "IsAMP x" using x True props amp iv0(1) by auto
          then show ?thesis using idx by blast
        next
          case False
          then show ?thesis using plain x True idx by auto
        qed
      next
        case False
        then have "db_invoices db m = Some x" using x props by auto
        then show ?thesis using ok props by (auto simp: db_ok_def same_index_def)
      qed
    qed
  qed
  moreover have "db_evolves db db'"
  proof (cases "db_invoices db' = db_invoices db")
    case True
    then show ?thesis
      using props by (auto simp: db_evolves_def same_index_def split: option.splits)
  next
    case False
    then have "db_invoices db' = (db_invoices db)(n \<mapsto> stored_form iv1)"
      using props by auto
    then show ?thesis
      using props plain iv0(1) by (intro db_evolves_one) (auto simp: same_index_def)
  qed
  moreover have "\<not> IsAMP iv0 \<longrightarrow> iv_htlcs iv' = iv_htlcs iv1 \<and> iv_state iv' = iv_state iv1"
    by (simp add: iv' filterInvoiceAMPState_def split: option.splits)
  moreover have "IsAMP iv0 \<longrightarrow> (\<exists>iv2. db_invoices db' n = Some iv2 \<and> IsAMP iv2)"
    using props amp iv0(1) by auto
  ultimately show ?thesis
    using props n iv0(1) plain by blast
qed

lemma amp_stays:
  assumes "updateInvoiceDB sha order now ref hint cb db = Inr (iv', r, db')"
    and "fetchInvoiceNumByRef ref db = Inr n" "db_invoices db n = Some iv0" "IsAMP iv0" "db_invoices db' n = Some x"
  shows "IsAMP x"
proof -
  obtain iv update iv1 where iv: "fetchInvoice n hint False db = Inr iv"
    and upd: "updateStored sha order now n (rf_payHash ref) update (iv, db) = Inr (iv1, db')"
    using assms(1,2) by (auto simp: updateInvoiceDB_def split: sum.splits)
  have f: "feats iv = feats iv0"
    using fetchInvoice_plain [OF iv] assms(3) by auto
  have "x = iv0 \<or> x = stored_form iv1 \<and> feats iv1 = feats iv"
    using upd Finalize_props feats_applyUpdate assms(3,5)
    by (fastforce simp: updateStored_def split: option.splits sum.splits)
  then show ?thesis
    using assms(4) IsAMP_feats [of iv1 iv0] f by (auto simp: stored_form_def IsAMP_def)
qed

section \<open>The callbacks keep an invoice well formed\<close>

lemma exitHop_update_keeps:
  assumes "uc_circuitKey c \<in> set order"
  shows "update_keeps sha order now (invoiceRef c) (exitHopCallback sha order c cancelSet)
     (settles_only_paid (uc_circuitKey c))"
  unfolding update_keeps_def
proof (intro allI impI)
  fix hash iv update r
  assume a: "invoice_ok sha hash iv" "\<not> IsAMP iv" "keysCover order (iv_htlcs iv)"
    "\<forall>h. rf_payHash (invoiceRef c) = Some h \<longrightarrow> h = hash" "exitHopCallback sha order c cancelSet iv = Inr (update, r)"
  show "case update of None \<Rightarrow> settles_only_paid (uc_circuitKey c) r iv
      | Some upd \<Rightarrow> \<forall>iv1 u1. applyUpdate sha order (rf_payHash (invoiceRef c)) now upd (iv, emptyUpdater) = Inr (iv1, u1) \<longrightarrow>
          u1 = emptyUpdater \<and> invoice_ok sha hash iv1 \<and> evolves iv iv1 \<and> settles_only_paid (uc_circuitKey c) r iv1"
    using exit_hop_keeps [OF a(1-3) assms a(4,5), of now emptyUpdater] by (auto split: option.splits)
qed

lemma settleHodl_update_keeps:
  "update_keeps sha order now (invoiceRefByHash (sha p)) (settleHodlCallback p) (\<lambda>_ _. True)"
  unfolding update_keeps_def
proof (intro allI impI)
  fix hash iv update r
  assume a: "invoice_ok sha hash iv" "\<not> IsAMP iv" "keysCover order (iv_htlcs iv)"
    "\<forall>h. rf_payHash (invoiceRefByHash (sha p)) = Some h \<longrightarrow> h = hash" "settleHodlCallback p iv = Inr (update, r)"
  have h: "sha p = hash" "rf_payHash (invoiceRefByHash (sha p)) = Some hash"
    using a(4) by (auto simp: invoiceRefByHash_def)
  show "case update of None \<Rightarrow> True
      | Some upd \<Rightarrow> \<forall>iv1 u1. applyUpdate sha order (rf_payHash (invoiceRefByHash (sha p))) now upd (iv, emptyUpdater) = Inr (iv1, u1) \<longrightarrow>
          u1 = emptyUpdater \<and> invoice_ok sha hash iv1 \<and> evolves iv iv1 \<and> True"
  proof (cases update)
    case (Some upd)
    then have upd: "iv_state iv = ContractAccepted" "iu_updateType upd = SettleHodlInvoiceUpdate"
        "iu_state upd = Some ((moveTo ContractSettled)\<lparr>su_preimage := Some p\<rparr>)"
      using a(5) by (auto simp: settleHodlCallback_def split: contract_state.splits)
    show ?thesis
      unfolding h(2) using settleHodl_keeps [OF a(1,2) upd(1) h(1) a(3) upd(2,3)] Some by auto
  qed simp
qed

lemma cancelInvoice_state:
  assumes "applyUpdate sha order h now upd (iv, u) = Inr (iv', u')" "iu_updateType upd = CancelInvoiceUpdate"
    and "\<not> IsAMP iv" "invoice_ok sha hash iv" "keysCover order (iv_htlcs iv)"
  shows "iv_state iv' = ContractCanceled"
proof -
  obtain su where "iu_state upd = Some su"
    using assms(1,2) by (auto simp: applyUpdate_def cancelInvoice_def split: option.splits)
  then have st: "iv_state iv \<in> {ContractOpen, ContractAccepted}"
    and run: "for_each (cancelInvoice_step sha now None) (range_keys order (iv_htlcs iv)) (iv\<lparr>iv_state := ContractCanceled\<rparr>, u) = Inr (iv', u')"
    using assms(1-3) by (cases "iv_state iv"; auto simp: applyUpdate_def cancelInvoice_def getUpdatedInvoiceState_def
        Let_def split: sum.splits if_splits)+
  have "\<forall>h \<in> ran (iv_htlcs iv). ih_amp h = None \<and> ih_state h \<noteq> HtlcStateSettled"
    using assms(4) st by (auto simp: invoice_ok_def)
  then show ?thesis
    using cancel_loop [OF range_keys_props(1) [OF assms(5)], of "iv\<lparr>iv_state := ContractCanceled\<rparr>" sha now None u] run by auto
qed

lemma cancelInvoice_update_keeps:
  "update_keeps sha order now (invoiceRefByHash h) (cancelInvoiceCallback b) (\<lambda>_ iv. iv_state iv \<in> {ContractAccepted, ContractCanceled})"
  unfolding update_keeps_def
proof (intro allI impI)
  fix hash iv update r
  assume a: "invoice_ok sha hash iv" "\<not> IsAMP iv" "keysCover order (iv_htlcs iv)"
    "cancelInvoiceCallback b iv = Inr (update, r)"
  show "case update of None \<Rightarrow> iv_state iv \<in> {ContractAccepted, ContractCanceled}
      | Some upd \<Rightarrow> \<forall>iv1 u1. applyUpdate sha order (rf_payHash (invoiceRefByHash h)) now upd (iv, emptyUpdater) = Inr (iv1, u1) \<longrightarrow>
          u1 = emptyUpdater \<and> invoice_ok sha hash iv1 \<and> evolves iv iv1 \<and> iv_state iv1 \<in> {ContractAccepted, ContractCanceled}"
  proof (cases update)
    case None
    then show ?thesis
      using a(4) by (auto simp: cancelInvoiceCallback_def shouldCancel_def split: if_splits)
  next
    case (Some upd)
    then have upd: "iu_updateType upd = CancelInvoiceUpdate" "iu_state upd = Some (moveTo ContractCanceled)"
      using a(4) by (auto simp: cancelInvoiceCallback_def split: if_splits)
    show ?thesis
      using cancelInvoice_keeps [OF a(1-3) upd] cancelInvoice_state [OF _ upd(1) a(2,1,3)] Some by auto
  qed
qed

lemma cancelSingle_update_keeps:
  "update_keeps sha order now ref (cancelSingleCallback k i) (\<lambda>_ _. True)"
  unfolding update_keeps_def
proof (intro allI impI)
  fix hash iv update r
  assume a: "invoice_ok sha hash iv" "\<not> IsAMP iv" "cancelSingleCallback k i iv = Inr (update, r)"
  show "case update of None \<Rightarrow> True
      | Some upd \<Rightarrow> \<forall>iv1 u1. applyUpdate sha order (rf_payHash ref) now upd (iv, emptyUpdater) = Inr (iv1, u1) \<longrightarrow>
          u1 = emptyUpdater \<and> invoice_ok sha hash iv1 \<and> evolves iv iv1 \<and> True"
  proof (cases update)
    case (Some upd)
    then have upd: "iv_state iv = ContractOpen" "iu_updateType upd = CancelHTLCsUpdate" "iu_cancelHtlcs upd = [k]"
        "\<exists>h. iv_htlcs iv k = Some h \<and> ih_state h = HtlcStateAccepted"
      using a(3) by (auto simp: cancelSingleCallback_def split: if_splits option.splits)
    then show ?thesis
      using cancelHTLCs_keeps [OF a(1,2) upd(1), of "[k]" upd order "rf_payHash ref" now emptyUpdater] Some by fastforce
  qed simp
qed

section \<open>Runs of the registry\<close>

lemma notify_db [simp]:
  "rg_db (notifyHodlSubscribers r rg) = rg_db rg" "rg_timers (notifyHodlSubscribers r rg) = rg_timers rg"
  "rg_db (hodlSubscribe n k rg) = rg_db rg" "rg_timers (hodlSubscribe n k rg) = rg_timers rg"
  by (simp_all add: notifyHodlSubscribers_def hodlSubscribe_def)

lemma notifyAll_db [simp]:
  "rg_db (notifyAll res order m rg) = rg_db rg" "rg_timers (notifyAll res order m rg) = rg_timers rg"
proof -
  have "rg_db (foldl (\<lambda>rg k. notifyHodlSubscribers (res k (the (m k))) rg) rg ks) = rg_db rg \<and>
     rg_timers (foldl (\<lambda>rg k. notifyHodlSubscribers (res k (the (m k))) rg) rg ks) = rg_timers rg" for ks
    by (induction ks arbitrary: rg) auto
  then show "rg_db (notifyAll res order m rg) = rg_db rg" "rg_timers (notifyAll res order m rg) = rg_timers rg"
    by (simp_all add: notifyAll_def)
qed

lemma deliver_db:
  "rg_db (fst (deliver order c ch iv r rg)) = rg_db rg" "rg_timers (fst (deliver order c ch iv r rg)) = rg_timers rg"
  by (auto simp: deliver_def Let_def split: htlc_resolution.splits option.splits)

definition timers_ok :: "invoice_registry \<Rightarrow> bool" where
  "timers_ok rg \<longleftrightarrow> (\<forall>(ref, k, t) \<in> set (rg_timers rg). rf_setID ref = None \<or> rf_payHash ref = None)"

text \<open>
  The events: an invoice is added, an HTLC arrives, a hodl invoice is settled, an invoice is canceled (by
  the user or on expiry), the release timer of an HTLC fires. Go may iterate over maps in any order.
\<close>

inductive registry_step ::
  "(byte list \<Rightarrow> byte list) \<Rightarrow> registry_config \<Rightarrow> invoice_registry \<Rightarrow> invoice_registry \<Rightarrow> bool" for sha cfg where
  rs_add: "fresh_invoice sha order hash iv \<Longrightarrow> db_numInvoices (rg_db rg) + 1 \<noteq> 0 \<Longrightarrow>
      addInvoice sha (rc_featureOrder cfg) order iv hash (rg_db rg) = Inr (db, i) \<Longrightarrow>
      registry_step sha cfg rg (rg\<lparr>rg_db := db\<rparr>)"
| rs_htlc: "order_ok order (rg_db rg) \<Longrightarrow> uc_circuitKey c \<in> set order \<Longrightarrow> db_numInvoices (rg_db rg) + 1 \<noteq> 0 \<Longrightarrow>
      NotifyExitHopHtlc sha cfg order now intercepted c ch rg = (rg', res) \<Longrightarrow> registry_step sha cfg rg rg'"
| rs_settle: "order_ok order (rg_db rg) \<Longrightarrow> SettleHodlInvoice sha order now p rg = (rg', e) \<Longrightarrow>
      registry_step sha cfg rg rg'"
| rs_cancel: "order_ok order (rg_db rg) \<Longrightarrow> cancelInvoiceImpl sha cfg order sets now hash force rg = (rg', e) \<Longrightarrow>
      registry_step sha cfg rg rg'"
| rs_timeout: "order_ok order (rg_db rg) \<Longrightarrow> (ref, k, t) \<in> set (rg_timers rg) \<Longrightarrow>
      cancelSingleHtlc sha order now ref k ResultMppTimeout rg = (rg', e) \<Longrightarrow>
      registry_step sha cfg rg (rg'\<lparr>rg_timers := remove1 (ref, k, t) (rg_timers rg')\<rparr>)"

inductive registry_run ::
  "(byte list \<Rightarrow> byte list) \<Rightarrow> registry_config \<Rightarrow> invoice_registry \<Rightarrow> invoice_registry \<Rightarrow> bool" for sha cfg rg where
  rr_start: "registry_run sha cfg rg rg"
| rr_step: "registry_run sha cfg rg rg1 \<Longrightarrow> registry_step sha cfg rg1 rg2 \<Longrightarrow> registry_run sha cfg rg rg2"

definition newRegistry :: invoice_registry where
  "newRegistry = \<lparr>rg_db = emptyDB, rg_hodlSubscriptions = (\<lambda>_. []), rg_sent = [], rg_timers = []\<rparr>"

section \<open>Every step keeps the invariant\<close>

definition reg_ok :: "(byte list \<Rightarrow> byte list) \<Rightarrow> invoice_registry \<Rightarrow> bool" where
  "reg_ok sha rg \<longleftrightarrow> db_ok sha (rg_db rg) \<and> timers_ok rg"

lemma newRegistry_ok: "reg_ok sha newRegistry"
  by (simp add: reg_ok_def newRegistry_def db_ok_def emptyDB_def timers_ok_def)

lemma jitInvoice_fresh:
  "\<forall>q. p = Some q \<longrightarrow> sha q = hash \<Longrightarrow> distinct order \<Longrightarrow>
     fresh_invoice sha order hash (jitInvoice cfg now amt p addr bits hodl expiry)"
  by (simp add: fresh_invoice_def jitInvoice_def keysCover_def)

lemma processKeySend_keeps:
  assumes "db_ok sha db" "distinct order" "db_numInvoices db + 1 \<noteq> 0" "processKeySend sha cfg order now c db = Some db'"
  shows "db_ok sha db' \<and> db_evolves db db' \<and> same_htlcs db db'"
proof (cases "db' = db")
  case False
  then obtain p iv i where p: "sha p = uc_hash c" "addInvoice sha (rc_featureOrder cfg) order iv (uc_hash c) db = Inr (db', i)"
      "\<exists>amt addr bits hodl expiry. iv = jitInvoice cfg now amt (Some p) addr bits hodl expiry"
    using assms(4) by (auto simp: processKeySend_def Let_def split: option.splits if_splits sum.splits) blast+
  then have "fresh_invoice sha order (uc_hash c) iv" "iv_htlcs iv = Map.empty"
    using jitInvoice_fresh [of "Some p" sha "uc_hash c"] assms(2) by (auto simp: jitInvoice_def)
  then show ?thesis
    using addInvoice_keeps [OF assms(1) _ assms(3) p(2)] addInvoice_stored [OF p(2)] by (auto simp: same_htlcs_def)
qed (use assms(1) in \<open>auto simp: same_htlcs_def\<close>)

lemma processAMP_keeps:
  assumes "db_ok sha db" "distinct order" "db_numInvoices db + 1 \<noteq> 0" "processAMP sha cfg order now c db = Some db'"
  shows "db_ok sha db' \<and> db_evolves db db' \<and> same_htlcs db db'"
proof (cases "db' = db")
  case False
  then obtain iv i where p: "addInvoice sha (rc_featureOrder cfg) order iv (uc_hash c) db = Inr (db', i)"
      "\<exists>amt addr bits hodl expiry. iv = jitInvoice cfg now amt None addr bits hodl expiry"
    using assms(4) by (auto simp: processAMP_def Let_def split: option.splits if_splits sum.splits) blast
  then have "fresh_invoice sha order (uc_hash c) iv" "iv_htlcs iv = Map.empty"
    using jitInvoice_fresh [of None sha "uc_hash c"] assms(2) by (auto simp: jitInvoice_def)
  then show ?thesis
    using addInvoice_keeps [OF assms(1) _ assms(3) p(1)] addInvoice_stored [OF p(1)] by (auto simp: same_htlcs_def)
qed (use assms(1) in \<open>auto simp: same_htlcs_def\<close>)

lemma order_ok_more:
  assumes "order_ok order db" "same_htlcs db db'"
  shows "order_ok order db'"
  using assms by (fastforce simp: order_ok_def same_htlcs_def)

lemma locked_keeps:
  assumes ok: "db_ok sha (rg_db rg)" and ord: "order_ok order (rg_db rg)" "uc_circuitKey c \<in> set order"
    and run: "notifyExitHopHtlcLocked sha order now intercepted c ch rg = (rg', res)"
  shows "db_ok sha (rg_db rg') \<and> db_evolves (rg_db rg) (rg_db rg') \<and> rg_timers rg' = rg_timers rg \<and>
     same_index (rg_db rg) (rg_db rg') \<and>
     (\<forall>p k n x. res = Inr (SettleResolution p k n x) \<longrightarrow>
        (\<exists>num iv0. fetchInvoiceNumByRef (invoiceRef c) (rg_db rg) = Inr num \<and> db_invoices (rg_db rg) num = Some iv0 \<and>
           (IsAMP iv0 \<longrightarrow> (\<exists>iv. db_invoices (rg_db rg') num = Some iv \<and> IsAMP iv)) \<and>
           (\<not> IsAMP iv0 \<longrightarrow> (\<exists>iv. db_invoices (rg_db rg') num = Some iv \<and> \<not> IsAMP iv \<and>
              settles_only_paid (uc_circuitKey c) (SettleResolution p k n x) iv))))"
proof -
  define c1 where "c1 = (\<lambda>answer :: (msat \<times> bool) option. case answer of Some (amt, _) \<Rightarrow> if amt \<noteq> (0 :: msat) then c\<lparr>uc_amtPaid := amt\<rparr> else c | None \<Rightarrow> c)"
  define cs where "cs = (\<lambda>answer :: (msat \<times> bool) option. case answer of Some (_ :: msat, b) \<Rightarrow> b | None \<Rightarrow> False)"
  have c1: "uc_circuitKey (c1 a) = uc_circuitKey c" "invoiceRef (c1 a) = invoiceRef c" for a
    by (auto simp: c1_def invoiceRef_def split: option.splits)
  show ?thesis
  proof (cases "lookupInvoice (invoiceRef c) (rg_db rg)")
    case (Inl e)
    then show ?thesis using run ok by (auto split: if_splits simp: notifyExitHopHtlcLocked_def)
  next
    case look: (Inr existing)
    show ?thesis
    proof (cases intercepted)
      case (Inl e)
      then show ?thesis using run ok look by (auto simp: notifyExitHopHtlcLocked_def)
    next
      case (Inr answer)
      let ?c = "c1 answer"
      let ?call = "updateInvoiceDB sha order now (invoiceRef ?c) (ctx_setID ?c) (exitHopCallback sha order ?c (cs answer)) (rg_db rg)"
      have run': "(case ?call of
             Inl e \<Rightarrow> (rg, if e = ErrDuplicateSetID \<or> e = ErrInvoiceNotFound \<or> e = ErrInvRefEquivocation
                  then Inr (FailResolution (uc_circuitKey c) (uc_currentHeight c) ResultInvoiceNotFound) else Inl e)
           | Inr (iv, resolution, db) \<Rightarrow> deliver order ?c ch iv resolution (rg\<lparr>rg_db := db\<rparr>)) = (rg', res)"
        using run by (simp only: notifyExitHopHtlcLocked_def look Inr Let_def sum.case c1_def cs_def)
      show ?thesis
      proof (cases ?call)
        case (Inl e)
        then show ?thesis using run' ok by (auto split: if_splits)
      next
        case (Inr t)
        then obtain iv r db where t: "?call = Inr (iv, r, db)"
          by (cases t) auto
        have ref: "rf_setID (invoiceRef ?c) = None \<or> rf_payHash (invoiceRef ?c) = None"
          by (auto simp: invoiceRef_def invoiceRefByHash_def invoiceRefByAddr_def invoiceRefByHashAndAddr_def split: option.splits)
        note keeps = updateInvoiceDB_keeps [OF ok ord(1) ref exitHop_update_keeps meta_eq_props(3) t]
        have rg': "rg_db rg' = db" "rg_timers rg' = rg_timers rg"
          using run' t deliver_db [of order ?c ch iv r "rg\<lparr>rg_db := db\<rparr>"] by (auto dest: arg_cong [where f = fst])
        have "res = Inr (SettleResolution p k n x) \<Longrightarrow> r = SettleResolution p k n x" for p k n x
          using run' t by (auto simp: deliver_def Let_def split: htlc_resolution.splits option.splits if_splits)
        then show ?thesis
          using keeps ord(2) rg' by (auto simp: c1)
      qed
    qed
  qed
qed

lemma NotifyExitHopHtlc_keeps:
  assumes ok: "reg_ok sha rg" and ord: "order_ok order (rg_db rg)" "uc_circuitKey c \<in> set order"
    and room: "db_numInvoices (rg_db rg) + 1 \<noteq> 0"
    and run: "NotifyExitHopHtlc sha cfg order now intercepted c ch rg = (rg', res)"
  shows "reg_ok sha rg' \<and> db_evolves (rg_db rg) (rg_db rg')"
proof -
  show ?thesis
  proof (cases "prepareInvoice sha cfg order now c (rg_db rg)")
    case (Inl r)
    then have "rg' = rg"
      using run by (simp add: NotifyExitHopHtlc_def)
    then show ?thesis using ok by simp
  next
    case (Inr db)
    have db: "db_ok sha db \<and> db_evolves (rg_db rg) db \<and> same_htlcs (rg_db rg) db"
      using Inr ok ord room processAMP_keeps [of sha "rg_db rg" order cfg now c db] processKeySend_keeps [of sha "rg_db rg" order cfg now c db]
      by (auto simp: prepareInvoice_def reg_ok_def order_ok_def same_htlcs_def split: if_splits option.splits)
    then have ord': "order_ok order db"
      using order_ok_more [OF ord(1)] by blast
    obtain rg1 res1 where l: "notifyExitHopHtlcLocked sha order now intercepted c ch (rg\<lparr>rg_db := db\<rparr>) = (rg1, res1)"
      by (cases "notifyExitHopHtlcLocked sha order now intercepted c ch (rg\<lparr>rg_db := db\<rparr>)")
    have keeps: "db_ok sha (rg_db rg1)" "db_evolves db (rg_db rg1)" "rg_timers rg1 = rg_timers rg"
      using locked_keeps [OF _ _ ord(2) l] db ord' by simp_all
    have "rg_db rg' = rg_db rg1 \<and> (\<forall>x \<in> set (rg_timers rg'). x \<in> set (rg_timers rg1) \<or>
        fst x = (case ctx_setID c of Some i \<Rightarrow> invoiceRefBySetID i | None \<Rightarrow> invoiceRef c))"
      using run l Inr
      by (auto simp: NotifyExitHopHtlc_def Let_def split: sum.splits htlc_resolution.splits if_splits)
    moreover have "rf_setID ref = None \<or> rf_payHash ref = None"
      if "ref = (case ctx_setID c of Some i \<Rightarrow> invoiceRefBySetID i | None \<Rightarrow> invoiceRef c)" for ref
      using that by (auto simp: invoiceRef_def invoiceRefBySetID_def invoiceRefByHash_def invoiceRefByAddr_def
          invoiceRefByHashAndAddr_def split: option.splits)
    ultimately have "timers_ok rg'"
      using ok keeps(3) by (fastforce simp: reg_ok_def timers_ok_def)
    then show ?thesis
      using \<open>rg_db rg' = rg_db rg1 \<and> _\<close> keeps db by (auto simp: reg_ok_def intro: db_evolves_trans)
  qed
qed

lemma SettleHodlInvoice_keeps:
  assumes "reg_ok sha rg" "order_ok order (rg_db rg)" "SettleHodlInvoice sha order now p rg = (rg', e)"
  shows "reg_ok sha rg' \<and> db_evolves (rg_db rg) (rg_db rg')"
proof (cases "updateInvoiceDB sha order now (invoiceRefByHash (sha p)) None (settleHodlCallback p) (rg_db rg)")
  case (Inl e)
  then show ?thesis using assms by (auto simp: SettleHodlInvoice_def)
next
  case (Inr t)
  then obtain iv r db where t: "updateInvoiceDB sha order now (invoiceRefByHash (sha p)) None (settleHodlCallback p) (rg_db rg) = Inr (iv, r, db)"
    by (cases t) auto
  have "rf_setID (invoiceRefByHash (sha p)) = None \<or> rf_payHash (invoiceRefByHash (sha p)) = None"
    by (simp add: invoiceRefByHash_def)
  from updateInvoiceDB_keeps [OF _ assms(2) this settleHodl_update_keeps _ t] show ?thesis
    using assms(1,3) t by (auto simp: SettleHodlInvoice_def reg_ok_def timers_ok_def)
qed

lemma deleteInvoice_keeps:
  assumes ok: "db_ok sha db" and del: "deleteInvoice sets ref db = Inr db'"
    and n: "db_invoiceIndex db (dr_payHash ref) = Some n" "db_invoices db n = Some iv"
    and un: "\<not> IsAMP iv \<longrightarrow> (\<forall>h \<in> ran (iv_htlcs iv). ih_state h \<noteq> HtlcStateSettled)"
  shows "db_ok sha db' \<and> db_evolves db db'"
proof -
  have db': "db_invoiceIndex db' = (db_invoiceIndex db)(dr_payHash ref := None)" "db_invoices db' = (db_invoices db)(n := None)"
      "db_numInvoices db' = db_numInvoices db"
    using del n by (auto simp: deleteInvoice_def Let_def split: if_splits option.splits)
  have "db_ok sha db'"
    unfolding db_ok_def db'
  proof (intro conjI allI impI)
    fix m x assume m: "((db_invoices db)(n := None)) m = Some x"
    then have "m \<noteq> n" "db_invoices db m = Some x" by (auto split: if_splits)
    then obtain h where h: "db_invoiceIndex db h = Some m" "\<not> IsAMP x \<longrightarrow> invoice_ok sha h x"
      using ok unfolding db_ok_def by blast
    moreover have "h \<noteq> dr_payHash ref" using h(1) n(1) \<open>m \<noteq> n\<close> by auto
    ultimately show "\<exists>h. ((db_invoiceIndex db)(dr_payHash ref := None)) h = Some m \<and> (\<not> IsAMP x \<longrightarrow> invoice_ok sha h x)"
      by (intro exI [of _ h]) simp
  qed (use ok in \<open>auto simp: db_ok_def split: if_splits\<close>)
  moreover have "db_evolves db db'"
    using un n(2) by (auto simp: db_evolves_def db' split: option.splits)
  ultimately show ?thesis by blast
qed

lemma cancelInvoiceImpl_keeps:
  assumes "reg_ok sha rg" "order_ok order (rg_db rg)" "cancelInvoiceImpl sha cfg order sets now hash force rg = (rg', e)"
  shows "reg_ok sha rg' \<and> db_evolves (rg_db rg) (rg_db rg')"
proof (cases "updateInvoiceDB sha order now (invoiceRefByHash hash) None (cancelInvoiceCallback force) (rg_db rg)")
  case (Inl e)
  then show ?thesis using assms by (auto simp: cancelInvoiceImpl_def)
next
  case (Inr t)
  then obtain iv r db where t: "updateInvoiceDB sha order now (invoiceRefByHash hash) None (cancelInvoiceCallback force) (rg_db rg) = Inr (iv, r, db)"
    by (cases t) auto
  have ref: "rf_setID (invoiceRefByHash hash) = None \<or> rf_payHash (invoiceRefByHash hash) = None"
    by (simp add: invoiceRefByHash_def)
  have Q: "\<And>r iv iv'. meta_eq iv iv' \<Longrightarrow> (iv_state iv' \<in> {ContractAccepted, ContractCanceled}) = (iv_state iv \<in> {ContractAccepted, ContractCanceled})"
    by (simp add: meta_eq_props)
  have ok: "db_ok sha (rg_db rg)" using assms(1) by (simp add: reg_ok_def)
  from updateInvoiceDB_keeps [OF ok assms(2) ref cancelInvoice_update_keeps Q t]
  obtain n iv0 where k: "db_ok sha db" "db_evolves (rg_db rg) db" "same_index (rg_db rg) db"
      "fetchInvoiceNumByRef (invoiceRefByHash hash) (rg_db rg) = Inr n" "db_invoices (rg_db rg) n = Some iv0"
    and plain: "\<not> IsAMP iv0 \<longrightarrow> (\<exists>iv2. db_invoices db n = Some iv2 \<and> \<not> IsAMP iv2 \<and>
        iv_state iv2 \<in> {ContractAccepted, ContractCanceled} \<and> iv_state iv = iv_state iv2)"
    by blast
  have idx: "db_invoiceIndex db hash = Some n"
    using fetchNum_hash [OF k(4)] k(3) by (simp add: invoiceRefByHash_def same_index_def)
  have del: "db_ok sha db' \<and> db_evolves db db'"
    if d: "deleteInvoice sets ref db = Inr db'" "dr_payHash ref = hash" and st: "iv_state iv \<noteq> ContractAccepted" for ref db'
  proof -
    obtain x where x: "db_invoices db n = Some x"
      using d idx by (auto simp: deleteInvoice_def Let_def split: if_splits option.splits)
    have "\<forall>h \<in> ran (iv_htlcs x). ih_state h \<noteq> HtlcStateSettled" if plain_x: "\<not> IsAMP x"
    proof -
      have "\<not> IsAMP iv0"
      proof
        assume "IsAMP iv0"
        then have "IsAMP x" using amp_stays [OF t k(4,5)] x by simp
        then show False using plain_x by simp
      qed
      then have "iv_state x = ContractCanceled" using plain x st by auto
      moreover obtain h where "invoice_ok sha h x"
        using k(1) x plain_x unfolding db_ok_def by blast
      ultimately show ?thesis by (auto simp: invoice_ok_def)
    qed
    then show ?thesis
      using deleteInvoice_keeps [OF k(1) d(1) _ x] d(2) idx by simp
  qed
  then show ?thesis
    using assms(1,3) t k(1,2)
    by (fastforce simp: cancelInvoiceImpl_def Let_def reg_ok_def timers_ok_def split: if_splits sum.splits
        intro: db_evolves_trans)
qed

lemma cancelSingleHtlc_keeps:
  assumes "reg_ok sha rg" "order_ok order (rg_db rg)" "rf_setID ref = None \<or> rf_payHash ref = None"
    and "cancelSingleHtlc sha order now ref k outcome rg = (rg', e)"
  shows "reg_ok sha rg' \<and> db_evolves (rg_db rg) (rg_db rg') \<and> rg_timers rg' = rg_timers rg"
proof (cases "updateInvoiceDB sha order now ref (rf_setID ref) (cancelSingleCallback k (rf_setID ref)) (rg_db rg)")
  case (Inl e)
  then show ?thesis using assms by (auto simp: cancelSingleHtlc_def)
next
  case (Inr t)
  then obtain iv r db where t: "updateInvoiceDB sha order now ref (rf_setID ref) (cancelSingleCallback k (rf_setID ref)) (rg_db rg) = Inr (iv, r, db)"
    by (cases t) auto
  from updateInvoiceDB_keeps [OF _ assms(2,3) cancelSingle_update_keeps _ t]
  have "db_ok sha db \<and> db_evolves (rg_db rg) db"
    using assms(1) by (simp add: reg_ok_def)
  moreover have "rg_db rg' = db \<and> rg_timers rg' = rg_timers rg"
    using assms(4) t by (auto simp: cancelSingleHtlc_def split: if_splits option.splits)
  ultimately show ?thesis
    using assms(1) by (simp add: reg_ok_def timers_ok_def)
qed

lemma registry_step_keeps:
  "registry_step sha cfg rg rg' \<Longrightarrow> reg_ok sha rg \<Longrightarrow> reg_ok sha rg' \<and> db_evolves (rg_db rg) (rg_db rg')"
proof (induction rule: registry_step.induct)
  case (rs_add order hash iv rg db i)
  then show ?case
    using addInvoice_keeps [of sha "rg_db rg" order hash iv "rc_featureOrder cfg" db i] by (simp add: reg_ok_def timers_ok_def)
next
  case (rs_htlc order rg c now intercepted ch rg' res)
  then show ?case using NotifyExitHopHtlc_keeps by blast
next
  case (rs_settle order rg now p rg' e)
  then show ?case using SettleHodlInvoice_keeps by blast
next
  case (rs_cancel order rg sets now hash force rg' e)
  then show ?case using cancelInvoiceImpl_keeps by blast
next
  case (rs_timeout order rg ref k t now rg' e)
  then have "rf_setID ref = None \<or> rf_payHash ref = None"
    by (auto simp: reg_ok_def timers_ok_def)
  from cancelSingleHtlc_keeps [OF rs_timeout(4) rs_timeout(1) this rs_timeout(3)] show ?case
    using set_remove1_subset [of "(ref, k, t)" "rg_timers rg"] by (fastforce simp: reg_ok_def timers_ok_def)
qed

lemma registry_run_keeps:
  "registry_run sha cfg rg rg' \<Longrightarrow> reg_ok sha rg \<Longrightarrow> reg_ok sha rg' \<and> db_evolves (rg_db rg) (rg_db rg')"
  by (induction rule: registry_run.induct) (auto dest: registry_step_keeps intro: db_evolves_trans)

lemma registry_run_ok: "registry_run sha cfg newRegistry rg \<Longrightarrow> reg_ok sha rg"
  using registry_run_keeps newRegistry_ok by blast

section \<open>What the registry guarantees\<close>

lemma ref_hash_index:
  assumes "fetchInvoiceNumByRef (invoiceRef c) db = Inr num" "uc_amp c = None"
  shows "db_invoiceIndex db (uc_hash c) = Some num"
proof -
  have "rf_setID (invoiceRef c) = None"
    by (auto simp: invoiceRef_def invoiceRefByHash_def invoiceRefByAddr_def invoiceRefByHashAndAddr_def split: option.splits)
  then show ?thesis
    using fetchNum_hash [OF assms(1)] invoiceRef_hash [of c] assms(2) by blast
qed

lemma NotifyExitHopHtlc_settles:
  assumes ok: "reg_ok sha rg" and ord: "order_ok order (rg_db rg)" "uc_circuitKey c \<in> set order"
    and room: "db_numInvoices (rg_db rg) + 1 \<noteq> 0" and plain: "uc_amp c = None"
    and run: "NotifyExitHopHtlc sha cfg order now intercepted c ch rg = (rg', Inr (Some (SettleResolution p k n x)))"
  shows "\<exists>num iv. db_invoiceIndex (rg_db rg') (uc_hash c) = Some num \<and> db_invoices (rg_db rg') num = Some iv \<and>
     (IsAMP iv \<or> sha p = uc_hash c \<and> iv_state iv = ContractSettled \<and>
        unat (ct_value (iv_terms iv)) \<le> htlc_sum HtlcStateSettled (iv_htlcs iv) \<and>
        (\<exists>h. iv_htlcs iv (uc_circuitKey c) = Some h \<and> ih_state h = HtlcStateSettled))"
proof -
  obtain db where db: "prepareInvoice sha cfg order now c (rg_db rg) = Inr db"
    using run by (cases "prepareInvoice sha cfg order now c (rg_db rg)")
       (auto simp: NotifyExitHopHtlc_def prepareInvoice_def failRes_def split: if_splits option.splits)
  have prep: "db_ok sha db \<and> same_htlcs (rg_db rg) db"
    using db ok ord room plain processKeySend_keeps [of sha "rg_db rg" order cfg now c db]
    by (auto simp: prepareInvoice_def reg_ok_def order_ok_def same_htlcs_def split: if_splits option.splits)
  then have ord': "order_ok order db"
    using order_ok_more [OF ord(1)] by blast
  have l: "notifyExitHopHtlcLocked sha order now intercepted c ch (rg\<lparr>rg_db := db\<rparr>) = (rg', Inr (SettleResolution p k n x))"
    using run db by (auto simp: NotifyExitHopHtlc_def Let_def split: prod.splits sum.splits htlc_resolution.splits)
  from locked_keeps [OF _ _ ord(2) l] prep ord'
  have keeps: "db_ok sha (rg_db rg')" "same_index db (rg_db rg')" "db_evolves db (rg_db rg')"
    and ex: "\<exists>num iv0. fetchInvoiceNumByRef (invoiceRef c) db = Inr num \<and> db_invoices db num = Some iv0 \<and>
           (IsAMP iv0 \<longrightarrow> (\<exists>iv. db_invoices (rg_db rg') num = Some iv \<and> IsAMP iv)) \<and>
           (\<not> IsAMP iv0 \<longrightarrow> (\<exists>iv. db_invoices (rg_db rg') num = Some iv \<and> \<not> IsAMP iv \<and>
              settles_only_paid (uc_circuitKey c) (SettleResolution p k n x) iv))"
    by simp_all
  then obtain num iv0 where f: "fetchInvoiceNumByRef (invoiceRef c) db = Inr num" "db_invoices db num = Some iv0"
      "IsAMP iv0 \<longrightarrow> (\<exists>iv. db_invoices (rg_db rg') num = Some iv \<and> IsAMP iv)"
    and pl: "\<not> IsAMP iv0 \<longrightarrow> (\<exists>iv. db_invoices (rg_db rg') num = Some iv \<and> \<not> IsAMP iv \<and>
              settles_only_paid (uc_circuitKey c) (SettleResolution p k n x) iv)"
    by blast
  have idx: "db_invoiceIndex (rg_db rg') (uc_hash c) = Some num"
    using ref_hash_index [OF f(1) plain] keeps(2) by (simp add: same_index_def)
  show ?thesis
  proof (cases "IsAMP iv0")
    case True
    obtain iv where iv: "db_invoices (rg_db rg') num = Some iv" "IsAMP iv"
      using f(3) True by auto
    then show ?thesis using idx by blast
  next
    case False
    then obtain iv where iv: "db_invoices (rg_db rg') num = Some iv" "\<not> IsAMP iv"
      "ct_paymentPreimage (iv_terms iv) = Some p" "iv_state iv = ContractSettled"
      "\<exists>h. iv_htlcs iv (uc_circuitKey c) = Some h \<and> ih_state h = HtlcStateSettled"
      using pl by (auto simp: settles_only_paid_def)
    obtain h where h: "db_invoiceIndex (rg_db rg') h = Some num" "invoice_ok sha h iv"
      using keeps(1) iv(1,2) unfolding db_ok_def by blast
    moreover have "h = uc_hash c"
      using keeps(1) h(1) idx unfolding db_ok_def by blast
    ultimately show ?thesis
      using idx iv by (auto simp: invoice_ok_def)
  qed
qed

end
