(* ===== verification/Invoice_Pay.thy ===== *)
theory Invoice_Pay
  imports Invoice_Run
begin

text \<open>
  What the invoice registry guarantees in every run: invoices are settled by HTLCs that pay them in full,
  a preimage is released for such invoices only, and what was decided on an HTLC is final. Concrete runs
  show that the statements apply, and how spontaneous AMP payments escape them.
\<close>

section \<open>Sample payments\<close>

definition sampleHash :: "byte list \<Rightarrow> byte list" where
  "sampleHash p = map (\<lambda>x. x + 1) p"

definition sampleConfig :: registry_config where
  "sampleConfig = \<lparr>rc_finalCltvRejectDelta = 10, rc_acceptKeySend = True, rc_acceptAMP = True, rc_keysendHoldTime = 0,
     rc_gcCanceledInvoicesOnTheFly = False, rc_featureOrder = [8, 9, 15, 30, 31]\<rparr>"

definition sampleKey :: "nat \<Rightarrow> circuit_key" where
  "sampleKey n = \<lparr>ck_chanID = 1, ck_htlcID = of_nat n\<rparr>"

text \<open>A keysend payment.\<close>

definition keysendCtx :: update_ctx where
  "keysendCtx = \<lparr>uc_hash = replicate 32 8, uc_circuitKey = sampleKey 0, uc_amtPaid = 1000, uc_expiry = 200,
     uc_currentHeight = 100, uc_finalCltvRejectDelta = 10, uc_wireCustomRecords = Map.empty,
     uc_customRecords = [KeySendType \<mapsto> replicate 32 7], uc_mpp = None, uc_amp = None, uc_pathID = None,
     uc_totalAmtMsat = 0\<rparr>"

definition exitHop :: "nat \<Rightarrow> update_ctx \<Rightarrow> invoice_registry \<Rightarrow> invoice_registry \<times> (invoice_error + htlc_resolution option)" where
  "exitHop n c rg = NotifyExitHopHtlc sampleHash sampleConfig (map sampleKey [0..<n]) 5 (Inr None) c (Some 0) rg"

definition paidRegistry :: invoice_registry where
  "paidRegistry = fst (exitHop 1 keysendCtx newRegistry)"

lemma sample_step:
  assumes "order_ok (map sampleKey [0..<n]) (rg_db rg)" "uc_circuitKey c \<in> set (map sampleKey [0..<n])"
    and "db_numInvoices (rg_db rg) + 1 \<noteq> 0"
  shows "registry_step sampleHash sampleConfig rg (fst (exitHop n c rg))"
  using assms by (intro registry_step.rs_htlc [OF assms, where res = "snd (exitHop n c rg)"])
    (simp add: exitHop_def)

lemma order_ok_new: "distinct order \<Longrightarrow> order_ok order (rg_db newRegistry)"
  by (simp add: order_ok_def newRegistry_def emptyDB_def)

lemma newRegistry_room: "db_numInvoices (rg_db newRegistry) + 1 \<noteq> 0"
  by code_simp

lemma paid_run: "registry_run sampleHash sampleConfig newRegistry paidRegistry"
  unfolding paidRegistry_def
  by (rule rr_step [OF rr_start sample_step [OF order_ok_new _ newRegistry_room]])
     (simp_all add: keysendCtx_def)

lemma paid_result: "snd (exitHop 1 keysendCtx newRegistry) = Inr (Some (SettleResolution (replicate 32 7) (sampleKey 0) 100 ResultSettled))"
  by code_simp

lemma paid_invoice:
  "db_invoiceIndex (rg_db paidRegistry) (replicate 32 8) = Some 0"
  "map_option iv_state (db_invoices (rg_db paidRegistry) 0) = Some ContractSettled"
  "map_option IsAMP (db_invoices (rg_db paidRegistry) 0) = Some False"
  by code_simp+

section \<open>Invoices are paid in full\<close>

text \<open>
  C6: In every run of the registry an invoice without AMP is settled only by HTLCs that pay at least its
  value and with a preimage of its payment hash, and it records what they paid; it is held (accepted) only
  by HTLCs that pay at least its value; none of its HTLCs is settled before it is, none is held after it
  was settled, and none is left when it was cancelled.
\<close>
theorem invoices_are_paid_in_full:
  assumes "registry_run sha cfg newRegistry rg" "db_invoiceIndex (rg_db rg) hash = Some n"
    and "db_invoices (rg_db rg) n = Some iv" "\<not> IsAMP iv"
  shows "case iv_state iv of
      ContractOpen \<Rightarrow> iv_amtPaid iv = 0 \<and> (\<forall>h \<in> ran (iv_htlcs iv). ih_state h \<noteq> HtlcStateSettled)
    | ContractAccepted \<Rightarrow> iv_hodlInvoice iv \<and> (\<forall>h \<in> ran (iv_htlcs iv). ih_state h \<noteq> HtlcStateSettled) \<and>
        unat (ct_value (iv_terms iv)) \<le> htlc_sum HtlcStateAccepted (iv_htlcs iv)
    | ContractSettled \<Rightarrow> (\<exists>p. ct_paymentPreimage (iv_terms iv) = Some p \<and> sha p = hash) \<and>
        (\<forall>h \<in> ran (iv_htlcs iv). ih_state h \<noteq> HtlcStateAccepted) \<and>
        unat (ct_value (iv_terms iv)) \<le> htlc_sum HtlcStateSettled (iv_htlcs iv) \<and>
        iv_amtPaid iv = of_nat (htlc_sum HtlcStateSettled (iv_htlcs iv))
    | ContractCanceled \<Rightarrow> \<forall>h \<in> ran (iv_htlcs iv). ih_state h = HtlcStateCanceled"
proof -
  have ok: "db_ok sha (rg_db rg)"
    using registry_run_ok [OF assms(1)] by (simp add: reg_ok_def)
  then obtain h where h: "db_invoiceIndex (rg_db rg) h = Some n" "invoice_ok sha h iv"
    using assms(3,4) unfolding db_ok_def by blast
  moreover have "h = hash"
    using ok h(1) assms(2) unfolding db_ok_def by blast
  ultimately show ?thesis
    by (auto simp: invoice_ok_def split: contract_state.splits)
qed

lemma invoices_are_paid_in_full_witness:
  "\<exists>iv. db_invoices (rg_db paidRegistry) 0 = Some iv \<and> (\<exists>p. ct_paymentPreimage (iv_terms iv) = Some p \<and> sampleHash p = replicate 32 8) \<and>
     unat (ct_value (iv_terms iv)) \<le> htlc_sum HtlcStateSettled (iv_htlcs iv)"
  using paid_invoice invoices_are_paid_in_full [OF paid_run paid_invoice(1)] by auto

section \<open>Preimages are released for paid invoices\<close>

text \<open>
  C7: When the registry answers an incoming HTLC without AMP with a preimage, the invoice of its payment
  hash is in the database, and, unless that is an AMP invoice, the preimage is one of that hash, the
  invoice is settled by HTLCs that pay at least its value, and this HTLC is one of the settled ones.
\<close>
theorem exit_hop_releases_only_when_paid:
  assumes "registry_run sha cfg newRegistry rg" "order_ok order (rg_db rg)" "uc_circuitKey c \<in> set order"
    and "db_numInvoices (rg_db rg) + 1 \<noteq> 0" "uc_amp c = None"
    and "NotifyExitHopHtlc sha cfg order now intercepted c ch rg = (rg', Inr (Some (SettleResolution p k t x)))"
  shows "\<exists>num iv. db_invoiceIndex (rg_db rg') (uc_hash c) = Some num \<and> db_invoices (rg_db rg') num = Some iv \<and>
     (IsAMP iv \<or> sha p = uc_hash c \<and> iv_state iv = ContractSettled \<and>
        unat (ct_value (iv_terms iv)) \<le> htlc_sum HtlcStateSettled (iv_htlcs iv) \<and>
        (\<exists>h. iv_htlcs iv (uc_circuitKey c) = Some h \<and> ih_state h = HtlcStateSettled))"
  by (rule NotifyExitHopHtlc_settles [OF registry_run_ok [OF assms(1)] assms(2-6)])

lemma exit_hop_releases_only_when_paid_witness:
  "\<exists>iv. db_invoices (rg_db paidRegistry) 0 = Some iv \<and> sampleHash (replicate 32 7) = replicate 32 8 \<and> iv_state iv = ContractSettled"
proof -
  have run: "NotifyExitHopHtlc sampleHash sampleConfig (map sampleKey [0..<1]) 5 (Inr None) keysendCtx (Some 0) newRegistry =
      (paidRegistry, Inr (Some (SettleResolution (replicate 32 7) (sampleKey 0) 100 ResultSettled)))"
    using paid_result by (simp add: paidRegistry_def exitHop_def prod_eq_iff)
  show ?thesis
    using paid_invoice exit_hop_releases_only_when_paid [OF rr_start order_ok_new _ newRegistry_room _ run]
    by (auto simp: keysendCtx_def)
qed

section \<open>Decisions on HTLCs are final\<close>

text \<open>
  C16: Once an HTLC of an invoice without AMP is settled or cancelled, no later operation changes it: it
  stays on the invoice as it is, or the invoice is deleted, which cannot happen to a settled HTLC; and an
  invoice keeps its value.
\<close>
theorem invoice_htlcs_are_final:
  assumes "registry_run sha cfg newRegistry rg1" "registry_run sha cfg rg1 rg2"
    and "db_invoices (rg_db rg1) n = Some iv" "\<not> IsAMP iv" "iv_htlcs iv k = Some h" "ih_state h \<noteq> HtlcStateAccepted"
  shows "case db_invoices (rg_db rg2) n of
      None \<Rightarrow> ih_state h = HtlcStateCanceled
    | Some iv' \<Rightarrow> iv_htlcs iv' k = Some h \<and> ct_value (iv_terms iv') = ct_value (iv_terms iv)"
proof -
  have ok: "reg_ok sha rg1"
    by (rule registry_run_ok [OF assms(1)])
  then obtain x where "db_invoiceIndex (rg_db rg1) x = Some n"
    using assms(3) unfolding reg_ok_def db_ok_def by blast
  then have n: "n < db_numInvoices (rg_db rg1)"
    using ok unfolding reg_ok_def db_ok_def by blast
  have "db_evolves (rg_db rg1) (rg_db rg2)"
    using registry_run_keeps [OF assms(2) ok] by simp
  from this [unfolded db_evolves_def, THEN conjunct2, rule_format, OF n] show ?thesis
    using assms(3-6) by (cases "ih_state h") (fastforce simp: evolves_def ran_def split: option.splits)+
qed


text \<open>A second keysend payment of the same hash.\<close>

definition secondCtx :: update_ctx where
  "secondCtx = keysendCtx\<lparr>uc_circuitKey := sampleKey 1\<rparr>"

lemma paid_htlcs:
  "db_numInvoices (rg_db paidRegistry) = 1" "db_ampHtlcs (rg_db paidRegistry) n = []"
  by code_simp+

lemma paid_keys:
  "case db_invoices (rg_db paidRegistry) 0 of
     None \<Rightarrow> False | Some iv \<Rightarrow> iv_htlcs iv \<lparr>ck_chanID = a, ck_htlcID = b\<rparr> = None \<or> a = 1 \<and> b = 0"
  by code_simp (auto simp: word_uint_eq_iff)

lemma paid_settled:
  "map_option (\<lambda>iv. map_option ih_state (iv_htlcs iv (sampleKey 0))) (db_invoices (rg_db paidRegistry) 0) =
     Some (Some HtlcStateSettled)"
  by code_simp

lemma order_okI:
  assumes "distinct order" "\<And>n iv. db_invoices db n = Some iv \<Longrightarrow> dom (iv_htlcs iv) \<subseteq> set order"
    and "\<And>n i m. map_of (db_ampHtlcs db n) i = Some m \<Longrightarrow> dom m \<subseteq> set order"
  shows "order_ok order db"
  using assms by (simp add: order_ok_def)

lemma paid_order: "order_ok (map sampleKey [0..<2]) (rg_db paidRegistry)"
proof -
  have "n = 0" if "db_invoices (rg_db paidRegistry) n = Some iv" for n iv
  proof -
    have "n < 1"
      using registry_run_ok [OF paid_run] that paid_htlcs(1) unfolding reg_ok_def db_ok_def by metis
    then show ?thesis by (simp add: word_less_nat_alt unat_eq_0)
  qed
  moreover have "dom (iv_htlcs iv) \<subseteq> set (map sampleKey [0..<2])" if "db_invoices (rg_db paidRegistry) 0 = Some iv" for iv
  proof
    fix k assume "k \<in> dom (iv_htlcs iv)"
    then have "k = sampleKey 0"
      using paid_keys [of "ck_chanID k" "ck_htlcID k"] that by (cases k) (auto simp: sampleKey_def)
    then show "k \<in> set (map sampleKey [0..<2])" by simp
  qed
  moreover have "distinct (map sampleKey [0..<2])"
    by (simp add: sampleKey_def numeral_2_eq_2)
  ultimately show ?thesis
    by (intro order_okI) (simp_all add: paid_htlcs del: upt_Suc, metis)
qed

lemma second_run: "registry_run sampleHash sampleConfig paidRegistry (fst (exitHop 2 secondCtx paidRegistry))"
  by (rule rr_step [OF rr_start sample_step [OF paid_order]])
     (simp_all add: secondCtx_def keysendCtx_def paid_htlcs numeral_2_eq_2)

lemma second_invoice: "db_invoices (rg_db (fst (exitHop 2 secondCtx paidRegistry))) 0 \<noteq> None"
  by code_simp

lemma invoice_htlcs_are_final_witness:
  "\<exists>iv iv' h. db_invoices (rg_db paidRegistry) 0 = Some iv \<and> iv_htlcs iv (sampleKey 0) = Some h \<and>
     db_invoices (rg_db (fst (exitHop 2 secondCtx paidRegistry))) 0 = Some iv' \<and> iv_htlcs iv' (sampleKey 0) = Some h"
proof -
  obtain iv h where iv: "db_invoices (rg_db paidRegistry) 0 = Some iv" "\<not> IsAMP iv" "iv_htlcs iv (sampleKey 0) = Some h"
      "ih_state h \<noteq> HtlcStateAccepted"
    using paid_invoice(3) paid_settled by (auto split: option.splits)
  then show ?thesis
    using invoice_htlcs_are_final [OF paid_run second_run iv] second_invoice by (auto split: option.splits)
qed

section \<open>Spontaneous AMP payments\<close>

text \<open>A part of an AMP payment: its only share is the root, and the invoice is made for it.\<close>

definition sampleShare :: share where
  "sampleShare = replicate 32 3"

definition sampleChild :: amp_child where
  "sampleChild = DeriveChild sampleHash sampleShare \<lparr>cd_share = sampleShare, cd_index = 0\<rparr>"

definition ampCtx :: "nat \<Rightarrow> byte \<Rightarrow> pay_hash \<Rightarrow> msat \<Rightarrow> update_ctx" where
  "ampCtx n setID hash amt =
     keysendCtx\<lparr>uc_hash := hash, uc_circuitKey := sampleKey n, uc_amtPaid := amt, uc_customRecords := Map.empty,
       uc_mpp := Some \<lparr>mr_paymentAddr = replicate 32 9, mr_totalMsat = 1000\<rparr>,
       uc_amp := Some \<lparr>ar_rootShare = sampleShare, ar_setID = replicate 32 setID, ar_childIndex = 0\<rparr>\<rparr>"

text \<open>
  A sender may pay the hash of a part that is held, now without an AMP payload: the invoice has no
  preimage, and the node panics on the nil pointer.
\<close>

lemma amp_hash_without_payload_panics:
  "let rg = fst (exitHop 1 (ampCtx 0 1 (ch_hash sampleChild) 400) newRegistry)
   in snd (exitHop 2 (keysendCtx\<lparr>uc_hash := ch_hash sampleChild, uc_circuitKey := sampleKey 1, uc_customRecords := Map.empty\<rparr>) rg) =
        Inl NilPointer"
  by code_simp

text \<open>
  The database forgets the HTLCs of a set that is settled when one more HTLC arrives with its ID: the
  entry that is written holds that HTLC alone.
\<close>

lemma reused_set_replaces_htlcs:
  assumes "iv_ampState iv i = Some s" "as_state s = HtlcStateSettled"
    and "acceptHtlcsAmp i k h (iv, emptyUpdater) = Inr (iv', u')"
  shows "map_of (db_ampHtlcs (updateAMPInvoices num u' iv' db) num) i = Some (\<lambda>c. if c = k then iv_htlcs iv' c else None)"
  using assms
  by (auto simp: acceptHtlcsAmp_def getUpdatedInvoiceAmpState_def put_amp_state_def UpdateAmpState_def updateAMPInvoices_def
      emptyUpdater_def Let_def AList.update_conv' fun_eq_iff)

text \<open>
  A part with a wrong hash cancels the invoice; the held part of another set stays held, and when its
  timer fires it is not cancelled.
\<close>

lemma failed_set_strands_others:
  "let rg1 = fst (exitHop 1 (ampCtx 0 1 (ch_hash sampleChild) 400) newRegistry);
       rg2 = fst (exitHop 2 (ampCtx 1 2 (replicate 32 0) 1000) rg1);
       rg3 = fst (cancelSingleHtlc sampleHash (map sampleKey [0..<2]) 6 (invoiceRefBySetID (replicate 32 1)) (sampleKey 0)
               ResultMppTimeout rg2)
   in (map_option iv_state (db_invoices (rg_db rg2) 0), rg_sent rg3,
       map_option (\<lambda>m. map_option ih_state (m (sampleKey 0))) (map_of (db_ampHtlcs (rg_db rg3) 0) (replicate 32 1))) =
      (Some ContractCanceled, [], Some (Some HtlcStateAccepted))"
  by code_simp

section \<open>AMP payments are settled\<close>

text \<open>The record that \<open>trackShard\<close> puts on the HTLC of an attempt, and what the invoice keeps of it.\<close>

definition shard_record :: "shard_tracker \<Rightarrow> u64 \<Rightarrow> amp_record" where
  "shard_record s pid =
     (let d = ch_desc (the (tr_shards s pid))
      in \<lparr>ar_rootShare = cd_share d, ar_setID = tr_setID s, ar_childIndex = cd_index d\<rparr>)"

definition shard_data :: "shard_tracker \<Rightarrow> u64 \<Rightarrow> amp_data" where
  "shard_data s pid = \<lparr>ad_record = shard_record s pid, ad_hash = ch_hash (the (tr_shards s pid)), ad_preimage = None\<rparr>"

lemma NewShard_record:
  "NewShard sha ri rs pid isLast s = Inr (s', sh) \<Longrightarrow>
     sh_amp sh = shard_record s' pid \<and> sh_child sh = the (tr_shards s' pid) \<and>
     sh_mpp sh = \<lparr>mr_paymentAddr = tr_paymentAddr s, mr_totalMsat = tr_totalAmt s\<rparr>"
  by (auto simp: NewShard_def trackShard_def shard_record_def Let_def split: option.splits if_splits sum.splits prod.splits)

lemma tracker_run_frame:
  "tracker_run sha s s' \<Longrightarrow> tr_setID s' = tr_setID s \<and> tr_paymentAddr s' = tr_paymentAddr s \<and> tr_totalAmt s' = tr_totalAmt s"
  by (induction rule: tracker_run.induct)
     (auto elim!: tracker_step.cases simp: CancelShard_def dest!: NewShard_cases split: option.splits)

lemma reconstruct_complete:
  assumes inv: "tracker_inv sha root s" "ss_curr (tr_sharer s) = zeroShare"
    and out: "distinct (k0 # ks)" "set (k0 # ks) = dom (tr_shards s)"
    and this_htlc: "uc_hash c = ch_hash (the (tr_shards s k0))"
    and keys: "range_keys order m = map key ks"
    and held: "\<forall>k \<in> set ks. \<exists>h. m (key k) = Some h \<and> ih_amp h = Some (shard_data s k)"
  shows "reconstructAMPPreimages sha order c (shard_record s k0) m =
     Some ((uc_circuitKey c, ch_preimage (the (tr_shards s k0))) # map (\<lambda>k. (key k, ch_preimage (the (tr_shards s k)))) ks)"
proof -
  let ?desc = "\<lambda>r. \<lparr>cd_share = ar_rootShare r, cd_index = ar_childIndex r\<rparr>"
  have data: "map (\<lambda>k. the (ih_amp (the (m k)))) (map key ks) = map (shard_data s) ks"
    using held by auto
  have "?desc (shard_record s k0) # map (\<lambda>a. ?desc (ad_record a)) (map (shard_data s) ks) = live_descs s (k0 # ks)"
    by (simp add: shard_data_def shard_record_def live_descs_def Let_def)
  then have "ReconstructChildren sha (?desc (shard_record s k0) # map (\<lambda>a. ?desc (ad_record a)) (map (shard_data s) ks)) =
      map (\<lambda>k. the (tr_shards s k)) (k0 # ks)"
    using tracker_inv_reconstruct [OF inv out] by simp
  then show ?thesis
    unfolding reconstructAMPPreimages_def Let_def keys data
    by (auto simp: this_htlc shard_data_def zip_map1 zip_map2 zip_same_conv_map)
qed

text \<open>
  C15: When the sender's tracker has handed out its last shard, whatever attempts were made and cancelled
  before, and the receiver holds the HTLCs of all other shards that are out, in whatever order they came,
  the HTLC of the missing shard settles the set: the receiver learns exactly the preimages the sender
  derived, one for every HTLC and each of that HTLC's payment hash.
\<close>
theorem amp_payment_settles:
  assumes "length root = 32" "tracker_run sha (NewShardTracker root setID payAddr amt) s"
    and "ss_curr (tr_sharer s) = zeroShare" "distinct (k0 # ks)" "set (k0 # ks) = dom (tr_shards s)"
    and htlc: "uc_hash c = ch_hash (the (tr_shards s k0))" "uc_amp c = Some (shard_record s k0)"
      "uc_mpp c = Some \<lparr>mr_paymentAddr = payAddr, mr_totalMsat = amt\<rparr>"
    and keys: "range_keys order (HTLCSet iv (Some setID) HtlcStateAccepted) = map key ks"
    and held: "\<forall>k \<in> set ks. \<exists>h. HTLCSet iv (Some setID) HtlcStateAccepted (key k) = Some h \<and>
        ih_amp h = Some (shard_data s k) \<and> ih_mppTotalAmt h = amt"
    and paid: "amt \<le> foldl (\<lambda>t k. t + ih_amt (the (HTLCSet iv (Some setID) HtlcStateAccepted (key k)))) 0 ks + uc_amtPaid c"
    and invoice: "ct_features (iv_terms iv) = Some fv" "RequiresFeature fv AMPRequired" "iv_state iv = ContractOpen"
      "ct_paymentAddr (iv_terms iv) = payAddr" "\<not> iv_hodlInvoice iv" "ct_value (iv_terms iv) \<le> amt" "amt \<noteq> 0"
      "\<not> expiryTooSoon c iv" "setID \<noteq> BlankPayAddr"
  shows "\<exists>upd su. updateMpp sha order c iv = Inr (Some upd, settleRes c (ch_preimage (the (tr_shards s k0))) ResultSettled) \<and>
     iu_state upd = Some su \<and> su_newState su = ContractSettled \<and> su_setID su = Some setID \<and>
     su_htlcPreimages su = (uc_circuitKey c, ch_preimage (the (tr_shards s k0))) #
       map (\<lambda>k. (key k, ch_preimage (the (tr_shards s k)))) ks \<and>
     (\<forall>k \<in> set (k0 # ks). sha (ch_preimage (the (tr_shards s k))) = ch_hash (the (tr_shards s k)))"
proof -
  let ?m = "HTLCSet iv (Some setID) HtlcStateAccepted"
  have inv: "tracker_inv sha root s"
    by (rule tracker_inv_run [OF assms(2) tracker_inv_start [OF assms(1)]])
  have set: "ctx_setID c = Some setID"
    using tracker_run_frame [OF assms(2)] by (simp add: ctx_setID_def htlc(2) shard_record_def NewShardTracker_def Let_def)
  have rec: "reconstructAMPPreimages sha order c (shard_record s k0) ?m =
      Some ((uc_circuitKey c, ch_preimage (the (tr_shards s k0))) # map (\<lambda>k. (key k, ch_preimage (the (tr_shards s k)))) ks)"
    using held by (intro reconstruct_complete [OF inv assms(3-5) htlc(1) keys]) blast
  have totals: "\<not> (\<exists>h \<in> set (map (\<lambda>k. the (?m k)) (map key ks)). amt \<noteq> ih_mppTotalAmt h)"
    using held by auto
  have sum: "\<not> foldl (\<lambda>t h. t + ih_amt h) 0 (map (\<lambda>k. the (?m k)) (map key ks)) + uc_amtPaid c < amt"
    using paid by (simp add: foldl_map not_less)
  have child: "\<forall>k \<in> set (k0 # ks). sha (ch_preimage (the (tr_shards s k))) = ch_hash (the (tr_shards s k))"
  proof
    fix k assume "k \<in> set (k0 # ks)"
    then obtain ch where "tr_shards s k = Some ch"
      using assms(5) by auto
    then have "ch = DeriveChild sha root (ch_desc ch)" "the (tr_shards s k) = ch"
      using inv by (auto simp: tracker_inv_def ran_def)
    then show "sha (ch_preimage (the (tr_shards s k))) = ch_hash (the (tr_shards s k))"
      by (metis DeriveChild_def amp_child.select_convs(2,3))
  qed
  show ?thesis
    using child
    by (simp add: updateMpp_def Let_def invoice set htlc(2,3) keys rec totals [simplified] sum [simplified] not_less addUpdate_def)
qed

text \<open>The receiver holds the first of the two shards of the sample sender; the last one arrives.\<close>

definition heldInvoice :: invoice where
  "heldInvoice = (jitInvoice sampleConfig 5 1000 None [2] {AMPRequired} False 0)
     \<lparr>iv_htlcs := [sampleKey 0 \<mapsto>
        \<lparr>ih_amt = 600, ih_mppTotalAmt = 1000, ih_acceptHeight = 100, ih_acceptTime = 5, ih_resolveTime = 0,
         ih_expiry = 200, ih_state = HtlcStateAccepted, ih_customRecords = Map.empty,
         ih_amp = Some (shard_data (snd twoShards) 1)\<rparr>]\<rparr>"

definition lastCtx :: update_ctx where
  "lastCtx = keysendCtx\<lparr>uc_hash := ch_hash (the (tr_shards (snd twoShards) 2)), uc_circuitKey := sampleKey 1,
     uc_amtPaid := 400, uc_mpp := Some \<lparr>mr_paymentAddr = [2], mr_totalMsat = 1000\<rparr>,
     uc_amp := Some (shard_record (snd twoShards) 2)\<rparr>"

lemma heldInvoice_set:
  "HTLCSet heldInvoice (Some [1]) HtlcStateAccepted = iv_htlcs heldInvoice"
  using tracker_run_frame [OF twoShards_run(1)]
  by (rule_tac ext) (simp add: HTLCSet_def heldInvoice_def IsInHTLCSet_def shard_data_def shard_record_def Let_def NewShardTracker_def)

lemma amp_payment_settles_witness:
  "\<exists>upd. updateMpp rev [sampleKey 0] lastCtx heldInvoice =
     Inr (Some upd, settleRes lastCtx (ch_preimage (the (tr_shards (snd twoShards) 2))) ResultSettled)"
proof -
  let ?fv = "\<lparr>fv_features = {AMPRequired}, fv_names = Features\<rparr>"
  have soon: "\<not> expiryTooSoon lastCtx heldInvoice"
    by code_simp
  have keys: "range_keys [sampleKey 0] (HTLCSet heldInvoice (Some [1]) HtlcStateAccepted) = map (\<lambda>_. sampleKey 0) [1 :: u64]"
    by (simp add: heldInvoice_set range_keys_def) (simp add: heldInvoice_def)
  have shards: "distinct [2, 1 :: u64]" "set [2, 1] = dom (tr_shards (snd twoShards))"
    by (simp_all add: twoShards_run(3) insert_commute)
  have invoice: "ct_features (iv_terms heldInvoice) = Some ?fv" "RequiresFeature ?fv AMPRequired"
      "iv_state heldInvoice = ContractOpen" "ct_paymentAddr (iv_terms heldInvoice) = [2]" "\<not> iv_hodlInvoice heldInvoice"
      "ct_value (iv_terms heldInvoice) \<le> 1000" "(1000 :: msat) \<noteq> 0"
    by (simp_all add: heldInvoice_def jitInvoice_def RequiresFeature_def AMPRequired_def IsRequired_def sampleConfig_def)
  have blank: "[1] \<noteq> BlankPayAddr"
    by (simp add: BlankPayAddr_def numeral_eq_Suc)
  have ctx: "uc_hash lastCtx = ch_hash (the (tr_shards (snd twoShards) 2))" "uc_amp lastCtx = Some (shard_record (snd twoShards) 2)"
      "uc_mpp lastCtx = Some \<lparr>mr_paymentAddr = [2], mr_totalMsat = 1000\<rparr>" "uc_amtPaid lastCtx = 400"
    by (simp_all add: lastCtx_def)
  have held: "iv_htlcs heldInvoice (sampleKey 0) \<noteq> None"
      "ih_amp (the (iv_htlcs heldInvoice (sampleKey 0))) = Some (shard_data (snd twoShards) 1)"
      "ih_mppTotalAmt (the (iv_htlcs heldInvoice (sampleKey 0))) = 1000" "ih_amt (the (iv_htlcs heldInvoice (sampleKey 0))) = 600"
    by (simp_all add: heldInvoice_def)
  show ?thesis
    using amp_payment_settles [OF _ twoShards_run(1,2) shards ctx(1-3) keys _ _ invoice soon blank] held
    by (auto simp: heldInvoice_set ctx(4))
qed

end
