(* ===== verification/Evm_Encoding.thy ===== *)
theory Evm_Encoding
  imports Prelude "HOL-Library.Monad_Syntax"
begin

text \<open>
  The typed data of the EVM channel contract (\<open>input/evm_channel.go\<close>): ABI words, the EIP-712 domain,
  the three signed artifacts (state update, cooperative close, dual-funded open), the HTLC leaf and
  the channel id. Keccak-256 is a third-party function, the parameter \<open>keccak\<close>. A \<open>big.Int\<close> is an
  \<open>int\<close>, and the pointers of the artifacts are never nil here, since all builders allocate them.
  Encoding a value of 2^256 or more panics (\<open>FillBytes\<close>): the result is \<open>None\<close>.
\<close>

type_synonym hash_fn = "byte list \<Rightarrow> byte list"

section \<open>ABI words\<close>

text \<open>The low \<open>n\<close> bytes of a number, the most significant first.\<close>

fun be_bytes :: "nat \<Rightarrow> nat \<Rightarrow> byte list" where
  "be_bytes 0 v = []"
| "be_bytes (Suc n) v = be_bytes n (v div 256) @ [word_of_nat v]"

definition encodeUint256 :: "int \<Rightarrow> byte list option" where
  "encodeUint256 v =
     (if v < 0 then Some (replicate 32 0)
      else if v < 2 ^ 256 then Some (be_bytes 32 (nat v))
      else None)"

definition encodeAddress :: "byte list \<Rightarrow> byte list" where
  "encodeAddress addr = replicate 12 0 @ take 20 addr"

text \<open>\<open>new(big.Int).SetUint64\<close>.\<close>

definition bigOfUint64 :: "u64 \<Rightarrow> int" where
  "bigOfUint64 w = uint w"

lemma length_be_bytes [simp]: "length (be_bytes n v) = n"
  by (induction n arbitrary: v) simp_all

lemma word_of_nat_byte: "word_of_nat v = (word_of_nat w :: byte) \<longleftrightarrow> v mod 256 = w mod 256"
  by (simp add: word_of_nat_eq_iff take_bit_eq_mod)

lemma mod_digits:
  fixes v w m :: nat
  shows "v mod (256 * m) = w mod (256 * m) \<longleftrightarrow> v div 256 mod m = w div 256 mod m \<and> v mod 256 = w mod 256"
proof -
  have digits: "(256 * a + b) div 256 = a \<and> (256 * a + b) mod 256 = b" if "b < 256" for a b :: nat
    using that by simp
  have "(256 * a + b = 256 * c + d) = (a = c \<and> b = d)" if "b < 256" "d < 256" for a b c d :: nat
    using digits [OF that(1), of a] digits [OF that(2), of c] by metis
  from this [of "v mod 256" "w mod 256" "v div 256 mod m" "w div 256 mod m"] show ?thesis
    by (simp add: mod_mult2_eq [of v 256 m] mod_mult2_eq [of w 256 m])
qed

lemma be_bytes_inj: "be_bytes n v = be_bytes n w \<longleftrightarrow> v mod 256 ^ n = w mod 256 ^ n"
  by (induction n arbitrary: v w) (simp_all add: mod_digits word_of_nat_byte)

lemma encodeUint256_length: "encodeUint256 v = Some bs \<Longrightarrow> length bs = 32"
  by (auto simp: encodeUint256_def split: if_splits)

lemma encodeUint256_inj:
  assumes "encodeUint256 v = Some bs" "encodeUint256 w = Some bs" "0 \<le> v" "0 \<le> w"
  shows "v = w"
proof -
  have b: "v < 2 ^ 256" "w < 2 ^ 256" "be_bytes 32 (nat v) = be_bytes 32 (nat w)"
    using assms by (auto simp: encodeUint256_def split: if_splits)
  have "nat v < 256 ^ 32" "nat w < 256 ^ 32" using b(1,2) assms(3,4) by (simp_all add: nat_less_iff)
  then have "nat v = nat w" using b(3) unfolding be_bytes_inj by simp
  then show ?thesis using assms(3,4) by simp
qed

lemma encodeUint256_word: "\<exists>bs. encodeUint256 (bigOfUint64 w) = Some bs"
proof -
  have "uint w < 2 ^ 64" using uint_lt2p [of w] by simp
  then have "uint w < 2 ^ 256" by (rule less_trans) simp
  then show ?thesis by (simp add: encodeUint256_def bigOfUint64_def)
qed

lemma bigOfUint64_inj [simp]: "bigOfUint64 v = bigOfUint64 w \<longleftrightarrow> v = w" "0 \<le> bigOfUint64 w"
  by (simp_all add: bigOfUint64_def word_uint_eq_iff)

section \<open>The artifacts\<close>

definition bytesOf :: "string \<Rightarrow> byte list" where
  "bytesOf s = map (\<lambda>c. word_of_nat (of_char c)) s"

definition eip712DomainType :: string where
  "eip712DomainType = ''EIP712Domain(string name,string version,uint256 chainId,address verifyingContract)''"

definition stateUpdateType :: string where
  "stateUpdateType =
     ''StateUpdate(bytes32 channelId,uint256 nonce,uint256 balanceA,uint256 balanceB,bytes32 htlcsHash)''"

definition coopCloseType :: string where
  "coopCloseType =
     ''CooperativeClose(bytes32 channelId,uint256 nonce,uint256 finalBalanceA,uint256 finalBalanceB)''"

definition openChannelType :: string where
  "openChannelType =
     ''OpenChannel(bytes32 salt,address participantA,address participantB,uint256 localFundingAmount,uint256 remoteFundingAmount)''"

definition EvmDomainName :: string where
  "EvmDomainName = ''LokaChannelManager''"

definition EvmDomainVersion :: string where
  "EvmDomainVersion = ''1''"

record evm_domain =
  ed_chainID :: u64
  ed_verifyingContract :: "byte list"

record evm_state_update =
  su_channelID :: "byte list"
  su_nonce :: u64
  su_balanceA :: int
  su_balanceB :: int
  su_htlcsHash :: "byte list"

record evm_coop_close =
  ec_channelID :: "byte list"
  ec_nonce :: u64
  ec_finalBalanceA :: int
  ec_finalBalanceB :: int

record evm_open_channel =
  eo_salt :: "byte list"
  eo_participantA :: "byte list"
  eo_participantB :: "byte list"
  eo_localFundingAmount :: int
  eo_remoteFundingAmount :: int

record evm_htlc =
  eh_index :: u64
  eh_amount :: int
  eh_hashlock :: "byte list"
  eh_timelock :: u32
  eh_recipient :: "byte list"

definition separatorBytes :: "hash_fn \<Rightarrow> evm_domain \<Rightarrow> byte list option" where
  "separatorBytes keccak d = do {
     chainId \<leftarrow> encodeUint256 (bigOfUint64 (ed_chainID d));
     Some (keccak (bytesOf eip712DomainType) @ keccak (bytesOf EvmDomainName) @
       keccak (bytesOf EvmDomainVersion) @ chainId @ encodeAddress (ed_verifyingContract d))
   }"

definition separator :: "hash_fn \<Rightarrow> evm_domain \<Rightarrow> byte list option" where
  "separator keccak d = map_option keccak (separatorBytes keccak d)"

definition stateUpdateBytes :: "hash_fn \<Rightarrow> evm_state_update \<Rightarrow> byte list option" where
  "stateUpdateBytes keccak s = do {
     nonce \<leftarrow> encodeUint256 (bigOfUint64 (su_nonce s));
     balA \<leftarrow> encodeUint256 (su_balanceA s);
     balB \<leftarrow> encodeUint256 (su_balanceB s);
     Some (keccak (bytesOf stateUpdateType) @ su_channelID s @ nonce @ balA @ balB @ su_htlcsHash s)
   }"

definition coopCloseBytes :: "hash_fn \<Rightarrow> evm_coop_close \<Rightarrow> byte list option" where
  "coopCloseBytes keccak c = do {
     nonce \<leftarrow> encodeUint256 (bigOfUint64 (ec_nonce c));
     balA \<leftarrow> encodeUint256 (ec_finalBalanceA c);
     balB \<leftarrow> encodeUint256 (ec_finalBalanceB c);
     Some (keccak (bytesOf coopCloseType) @ ec_channelID c @ nonce @ balA @ balB)
   }"

definition openChannelBytes :: "hash_fn \<Rightarrow> evm_open_channel \<Rightarrow> byte list option" where
  "openChannelBytes keccak c = do {
     localAmt \<leftarrow> encodeUint256 (eo_localFundingAmount c);
     remoteAmt \<leftarrow> encodeUint256 (eo_remoteFundingAmount c);
     Some (keccak (bytesOf openChannelType) @ eo_salt c @ encodeAddress (eo_participantA c) @
       encodeAddress (eo_participantB c) @ localAmt @ remoteAmt)
   }"

definition eip712Digest :: "hash_fn \<Rightarrow> byte list \<Rightarrow> byte list \<Rightarrow> byte list" where
  "eip712Digest keccak domainSeparator structHash = keccak ([0x19, 0x01] @ domainSeparator @ structHash)"

definition stateUpdateDigest :: "hash_fn \<Rightarrow> evm_domain \<Rightarrow> evm_state_update \<Rightarrow> byte list option" where
  "stateUpdateDigest keccak d s = do {
     sep \<leftarrow> separator keccak d;
     buf \<leftarrow> stateUpdateBytes keccak s;
     Some (eip712Digest keccak sep (keccak buf))
   }"

definition coopCloseDigest :: "hash_fn \<Rightarrow> evm_domain \<Rightarrow> evm_coop_close \<Rightarrow> byte list option" where
  "coopCloseDigest keccak d c = do {
     sep \<leftarrow> separator keccak d;
     buf \<leftarrow> coopCloseBytes keccak c;
     Some (eip712Digest keccak sep (keccak buf))
   }"

definition openChannelDigest :: "hash_fn \<Rightarrow> evm_domain \<Rightarrow> evm_open_channel \<Rightarrow> byte list option" where
  "openChannelDigest keccak d c = do {
     sep \<leftarrow> separator keccak d;
     buf \<leftarrow> openChannelBytes keccak c;
     Some (eip712Digest keccak sep (keccak buf))
   }"

definition leafBytes :: "evm_htlc \<Rightarrow> byte list option" where
  "leafBytes h = do {
     ix \<leftarrow> encodeUint256 (bigOfUint64 (eh_index h));
     amt \<leftarrow> encodeUint256 (eh_amount h);
     lock \<leftarrow> encodeUint256 (bigOfUint64 (ucast (eh_timelock h)));
     Some (ix @ amt @ eh_hashlock h @ lock @ encodeAddress (eh_recipient h))
   }"

definition leaf :: "hash_fn \<Rightarrow> evm_htlc \<Rightarrow> byte list option" where
  "leaf keccak h = map_option keccak (leafBytes h)"

lemma leaf_total:
  assumes "eh_amount h < 2 ^ 256"
  shows "\<exists>lf. leaf keccak h = Some lf"
proof -
  obtain x y z where "encodeUint256 (bigOfUint64 (eh_index h)) = Some x" "encodeUint256 (eh_amount h) = Some y"
    "encodeUint256 (bigOfUint64 (ucast (eh_timelock h))) = Some z"
    using encodeUint256_word assms by (metis encodeUint256_def)
  then show ?thesis by (simp add: leaf_def leafBytes_def)
qed

definition evmChannelIDOf :: "hash_fn \<Rightarrow> byte list \<Rightarrow> byte list \<Rightarrow> byte list \<Rightarrow> byte list" where
  "evmChannelIDOf keccak participantA participantB salt = keccak (participantA @ participantB @ salt)"

section \<open>What a digest commits to\<close>

text \<open>The three artifacts a funding key signs, and everything that is hashed for a signature.\<close>

datatype evm_artifact =
    StateUpdate evm_state_update
  | CooperativeClose evm_coop_close
  | OpenChannel evm_open_channel

fun artifactType :: "evm_artifact \<Rightarrow> string" where
  "artifactType (StateUpdate s) = stateUpdateType"
| "artifactType (CooperativeClose c) = coopCloseType"
| "artifactType (OpenChannel c) = openChannelType"

fun artifactBytes :: "hash_fn \<Rightarrow> evm_artifact \<Rightarrow> byte list option" where
  "artifactBytes keccak (StateUpdate s) = stateUpdateBytes keccak s"
| "artifactBytes keccak (CooperativeClose c) = coopCloseBytes keccak c"
| "artifactBytes keccak (OpenChannel c) = openChannelBytes keccak c"

fun artifactDigest :: "hash_fn \<Rightarrow> evm_domain \<Rightarrow> evm_artifact \<Rightarrow> byte list option" where
  "artifactDigest keccak d (StateUpdate s) = stateUpdateDigest keccak d s"
| "artifactDigest keccak d (CooperativeClose c) = coopCloseDigest keccak d c"
| "artifactDigest keccak d (OpenChannel c) = openChannelDigest keccak d c"

definition hashedInputs :: "hash_fn \<Rightarrow> evm_domain \<Rightarrow> evm_artifact \<Rightarrow> byte list list option" where
  "hashedInputs keccak d a = do {
     sep \<leftarrow> separatorBytes keccak d;
     buf \<leftarrow> artifactBytes keccak a;
     Some [bytesOf (artifactType a), sep, buf, [0x19, 0x01] @ keccak sep @ keccak buf]
   }"

text \<open>The sizes that Go's array types fix, and non-negative amounts.\<close>

fun artifact_wf :: "evm_artifact \<Rightarrow> bool" where
  "artifact_wf (StateUpdate s) \<longleftrightarrow> length (su_channelID s) = 32 \<and> length (su_htlcsHash s) = 32 \<and>
     0 \<le> su_balanceA s \<and> 0 \<le> su_balanceB s"
| "artifact_wf (CooperativeClose c) \<longleftrightarrow> length (ec_channelID c) = 32 \<and>
     0 \<le> ec_finalBalanceA c \<and> 0 \<le> ec_finalBalanceB c"
| "artifact_wf (OpenChannel c) \<longleftrightarrow> length (eo_salt c) = 32 \<and> length (eo_participantA c) = 20 \<and>
     length (eo_participantB c) = 20 \<and> 0 \<le> eo_localFundingAmount c \<and> 0 \<le> eo_remoteFundingAmount c"

definition domain_wf :: "evm_domain \<Rightarrow> bool" where
  "domain_wf d \<longleftrightarrow> length (ed_verifyingContract d) = 20"

definition hash32 :: "hash_fn \<Rightarrow> bool" where
  "hash32 keccak \<longleftrightarrow> (\<forall>x. length (keccak x) = 32)"

lemmas artifact_bytes_defs = stateUpdateBytes_def coopCloseBytes_def openChannelBytes_def

lemma digest_hashes:
  "artifactDigest keccak d a = map_option (\<lambda>xs. keccak (xs ! 3)) (hashedInputs keccak d a)"
  by (cases a)
    (simp_all add: hashedInputs_def separator_def stateUpdateDigest_def coopCloseDigest_def openChannelDigest_def
      eip712Digest_def split: bind_split option.split)

lemma encodeAddress_inj: "length a = 20 \<Longrightarrow> length b = 20 \<Longrightarrow> encodeAddress a = encodeAddress b \<longleftrightarrow> a = b"
  by (simp add: encodeAddress_def)

lemma length_encodeAddress [simp]: "length a = 20 \<Longrightarrow> length (encodeAddress a) = 32"
  by (simp add: encodeAddress_def)

lemma separatorBytes_inj:
  assumes "hash32 keccak" "domain_wf d" "domain_wf e"
    "separatorBytes keccak d = Some x" "separatorBytes keccak e = Some x"
  shows "d = e"
proof -
  obtain c c' where c: "encodeUint256 (bigOfUint64 (ed_chainID d)) = Some c"
    "encodeUint256 (bigOfUint64 (ed_chainID e)) = Some c'"
    using encodeUint256_word by meson
  have "c = c' \<and> encodeAddress (ed_verifyingContract d) = encodeAddress (ed_verifyingContract e)"
    using assms(4,5) c encodeUint256_length [OF c(1)] encodeUint256_length [OF c(2)]
    by (auto simp: separatorBytes_def)
  moreover from this have "ed_chainID d = ed_chainID e" using c encodeUint256_inj by fastforce
  ultimately show ?thesis
    using assms(2,3) by (simp add: domain_wf_def encodeAddress_inj evm_domain.equality)
qed

lemma artifactBytes_length:
  assumes "hash32 keccak" "artifact_wf a" "artifactBytes keccak a = Some x"
  shows "length x = (case a of CooperativeClose c \<Rightarrow> 160 | _ \<Rightarrow> 192)"
  using assms
  by (cases a) (auto simp: hash32_def artifact_bytes_defs dest!: encodeUint256_length split: bind_splits)

lemma stateUpdateBytes_inj:
  assumes "hash32 keccak" "artifact_wf (StateUpdate s)" "artifact_wf (StateUpdate t)"
    "stateUpdateBytes keccak s = Some x" "stateUpdateBytes keccak t = Some x"
  shows "s = t"
proof -
  obtain n a b n' a' b' where e: "encodeUint256 (bigOfUint64 (su_nonce s)) = Some n"
    "encodeUint256 (su_balanceA s) = Some a" "encodeUint256 (su_balanceB s) = Some b"
    "encodeUint256 (bigOfUint64 (su_nonce t)) = Some n'"
    "encodeUint256 (su_balanceA t) = Some a'" "encodeUint256 (su_balanceB t) = Some b'"
    and x: "x = keccak (bytesOf stateUpdateType) @ su_channelID s @ n @ a @ b @ su_htlcsHash s"
      "x = keccak (bytesOf stateUpdateType) @ su_channelID t @ n' @ a' @ b' @ su_htlcsHash t"
    using assms(4,5) unfolding stateUpdateBytes_def by (auto split: bind_splits)
  note l = e [THEN encodeUint256_length]
  have "su_channelID s = su_channelID t" "n = n'" "a = a'" "b = b'" "su_htlcsHash s = su_htlcsHash t"
    using x assms(2,3) l by (simp_all)
  moreover have "su_nonce s = su_nonce t" "su_balanceA s = su_balanceA t" "su_balanceB s = su_balanceB t"
    using calculation(2-4) e assms(2,3) encodeUint256_inj by (fastforce, fastforce, fastforce)
  ultimately show ?thesis by simp
qed

lemma coopCloseBytes_inj:
  assumes "hash32 keccak" "artifact_wf (CooperativeClose s)" "artifact_wf (CooperativeClose t)"
    "coopCloseBytes keccak s = Some x" "coopCloseBytes keccak t = Some x"
  shows "s = t"
proof -
  obtain n a b n' a' b' where e: "encodeUint256 (bigOfUint64 (ec_nonce s)) = Some n"
    "encodeUint256 (ec_finalBalanceA s) = Some a" "encodeUint256 (ec_finalBalanceB s) = Some b"
    "encodeUint256 (bigOfUint64 (ec_nonce t)) = Some n'"
    "encodeUint256 (ec_finalBalanceA t) = Some a'" "encodeUint256 (ec_finalBalanceB t) = Some b'"
    and x: "x = keccak (bytesOf coopCloseType) @ ec_channelID s @ n @ a @ b"
      "x = keccak (bytesOf coopCloseType) @ ec_channelID t @ n' @ a' @ b'"
    using assms(4,5) unfolding coopCloseBytes_def by (auto split: bind_splits)
  note l = e [THEN encodeUint256_length]
  have "ec_channelID s = ec_channelID t" "n = n'" "a = a'" "b = b'"
    using x assms(2,3) l by (simp_all)
  moreover have "ec_nonce s = ec_nonce t" "ec_finalBalanceA s = ec_finalBalanceA t" "ec_finalBalanceB s = ec_finalBalanceB t"
    using calculation(2-4) e assms(2,3) encodeUint256_inj by (fastforce, fastforce, fastforce)
  ultimately show ?thesis by simp
qed

lemma openChannelBytes_inj:
  assumes "hash32 keccak" "artifact_wf (OpenChannel s)" "artifact_wf (OpenChannel t)"
    "openChannelBytes keccak s = Some x" "openChannelBytes keccak t = Some x"
  shows "s = t"
proof -
  obtain a b a' b' where e: "encodeUint256 (eo_localFundingAmount s) = Some a" "encodeUint256 (eo_remoteFundingAmount s) = Some b"
    "encodeUint256 (eo_localFundingAmount t) = Some a'" "encodeUint256 (eo_remoteFundingAmount t) = Some b'"
    and x: "x = keccak (bytesOf openChannelType) @ eo_salt s @ encodeAddress (eo_participantA s) @
        encodeAddress (eo_participantB s) @ a @ b"
      "x = keccak (bytesOf openChannelType) @ eo_salt t @ encodeAddress (eo_participantA t) @
        encodeAddress (eo_participantB t) @ a' @ b'"
    using assms(4,5) unfolding openChannelBytes_def by (auto split: bind_splits)
  note l = e [THEN encodeUint256_length]
  have "eo_salt s = eo_salt t" "eo_participantA s = eo_participantA t" "eo_participantB s = eo_participantB t"
    "a = a'" "b = b'"
    using x assms(2,3) l by (simp_all add: encodeAddress_inj)
  moreover have "eo_localFundingAmount s = eo_localFundingAmount t" "eo_remoteFundingAmount s = eo_remoteFundingAmount t"
    using calculation(4,5) e assms(2,3) encodeUint256_inj by (fastforce, fastforce)
  ultimately show ?thesis by simp
qed

lemma artifactBytes_inj:
  assumes "hash32 keccak" "artifact_wf a" "artifact_wf b" "artifactType a = artifactType b"
    "artifactBytes keccak a = Some x" "artifactBytes keccak b = Some x"
  shows "a = b"
  using assms stateUpdateBytes_inj coopCloseBytes_inj openChannelBytes_inj
  by (cases a; cases b) (auto simp: stateUpdateType_def coopCloseType_def openChannelType_def)

lemma artifactBytes_type:
  assumes "hash32 keccak" "artifact_wf a" "artifact_wf b" "artifactBytes keccak a = Some x" "artifactBytes keccak b = Some x"
  shows "keccak (bytesOf (artifactType a)) = keccak (bytesOf (artifactType b))"
proof -
  have t: "take 32 x = keccak (bytesOf (artifactType a))"
    if "artifactBytes keccak a = Some x" for a
    using that assms(1) by (cases a) (auto simp: hash32_def artifact_bytes_defs split: bind_splits)
  show ?thesis using t [OF assms(4)] t [OF assms(5)] by simp
qed

lemma bytesOf_inj: "bytesOf s = bytesOf t \<Longrightarrow> s = t"
proof -
  have "inj (\<lambda>c. word_of_nat (of_char c) :: byte)"
  proof (rule injI)
    fix c d :: char
    assume "word_of_nat (of_char c) = (word_of_nat (of_char d) :: byte)"
    then have "(of_char c :: nat) mod 256 = of_char d mod 256" by (simp add: word_of_nat_byte)
    then show "c = d" using of_char_eq_iff [of c d] by simp
  qed
  then show "bytesOf s = bytesOf t \<Longrightarrow> s = t" unfolding bytesOf_def by (metis inj_map_eq_map)
qed

lemma hashedInputs_cases:
  assumes "hashedInputs keccak d a = Some xs"
  obtains sep buf where "separatorBytes keccak d = Some sep" "artifactBytes keccak a = Some buf"
    "xs = [bytesOf (artifactType a), sep, buf, [0x19, 0x01] @ keccak sep @ keccak buf]"
  using assms unfolding hashedInputs_def by (auto split: bind_splits)

text \<open>
  C24: a signature over one artifact of one sub-network is not a signature over any other. Two
  artifacts with the same digest are the same artifact for the same domain, unless two of the inputs
  that are hashed for them are a collision of Keccak-256.
\<close>

theorem digest_binds_artifact:
  assumes k: "hash32 keccak" and wf: "domain_wf d" "domain_wf e" "artifact_wf a" "artifact_wf b"
    and h: "artifactDigest keccak d a = Some h" "artifactDigest keccak e b = Some h"
  shows "(d = e \<and> a = b) \<or>
    (\<exists>xs ys i. hashedInputs keccak d a = Some xs \<and> hashedInputs keccak e b = Some ys \<and> i < 4 \<and>
       xs ! i \<noteq> ys ! i \<and> keccak (xs ! i) = keccak (ys ! i))"
proof -
  obtain xs ys where x: "hashedInputs keccak d a = Some xs" "keccak (xs ! 3) = h"
    and y: "hashedInputs keccak e b = Some ys" "keccak (ys ! 3) = h"
    using h unfolding digest_hashes by auto
  obtain sep buf where xs: "separatorBytes keccak d = Some sep" "artifactBytes keccak a = Some buf"
    "xs = [bytesOf (artifactType a), sep, buf, [0x19, 0x01] @ keccak sep @ keccak buf]"
    by (rule hashedInputs_cases [OF x(1)])
  obtain sep' buf' where ys: "separatorBytes keccak e = Some sep'" "artifactBytes keccak b = Some buf'"
    "ys = [bytesOf (artifactType b), sep', buf', [0x19, 0x01] @ keccak sep' @ keccak buf']"
    by (rule hashedInputs_cases [OF y(1)])
  show ?thesis
  proof (rule disjCI)
    assume "\<not> (\<exists>xs ys i. hashedInputs keccak d a = Some xs \<and> hashedInputs keccak e b = Some ys \<and> i < 4 \<and>
       xs ! i \<noteq> ys ! i \<and> keccak (xs ! i) = keccak (ys ! i))"
    then have none: "keccak (xs ! i) = keccak (ys ! i) \<Longrightarrow> xs ! i = ys ! i" if "i < 4" for i
      using x(1) y(1) that by blast
    have "keccak sep = keccak sep'" "keccak buf = keccak buf'"
      using none [of 3] x(2) y(2) k by (simp_all add: xs(3) ys(3) hash32_def)
    then have eq: "sep = sep'" "buf = buf'"
      using none [of 1] none [of 2] by (simp_all add: xs(3) ys(3))
    have "bytesOf (artifactType a) = bytesOf (artifactType b)"
      using none [of 0] artifactBytes_type [OF k wf(3,4) xs(2)] ys(2) eq(2) by (simp add: xs(3) ys(3))
    then show "d = e \<and> a = b"
      using separatorBytes_inj [OF k wf(1,2) xs(1)] artifactBytes_inj [OF k wf(3,4) bytesOf_inj xs(2)] ys(1,2) eq
      by simp
  qed
qed

text \<open>A hash that keeps the last 32 bytes collides: the type string is not among them.\<close>

definition demo_hash :: hash_fn where
  "demo_hash x = take 32 (rev x @ replicate 32 0)"

definition demo_open :: "byte list \<Rightarrow> evm_open_channel" where
  "demo_open salt = \<lparr>eo_salt = salt, eo_participantA = replicate 20 2,
     eo_participantB = replicate 20 3, eo_localFundingAmount = 5, eo_remoteFundingAmount = 6\<rparr>"

lemma demo_hash_tail: "length y = 32 \<Longrightarrow> demo_hash (x @ y) = rev y"
  by (simp add: demo_hash_def)

lemma demo_open_hash:
  "\<exists>buf. openChannelBytes demo_hash (demo_open salt) = Some buf \<and> demo_hash buf = rev (be_bytes 32 6)"
proof -
  have "openChannelBytes demo_hash (demo_open salt) =
      Some ((demo_hash (bytesOf openChannelType) @ salt @ encodeAddress (replicate 20 2) @
        encodeAddress (replicate 20 3) @ be_bytes 32 5) @ be_bytes 32 6)"
    by (simp add: openChannelBytes_def demo_open_def encodeUint256_def del: be_bytes.simps)
  then show ?thesis using demo_hash_tail [of "be_bytes 32 6"] by (metis length_be_bytes)
qed

theorem digest_binds_artifact_witness:
  "\<exists>xs ys i. i < 4 \<and> xs ! i \<noteq> ys ! i \<and> demo_hash (xs ! i) = demo_hash (ys ! i)"
proof -
  define d where "d = \<lparr>ed_chainID = 1, ed_verifyingContract = replicate 20 7\<rparr>"
  define a b where "a = OpenChannel (demo_open (replicate 32 1))" and "b = OpenChannel (demo_open (replicate 32 9))"
  have k: "hash32 demo_hash" by (auto simp: hash32_def demo_hash_def min_def)
  have w: "domain_wf d" "artifact_wf a" "artifact_wf b" "a \<noteq> b"
    by (simp_all add: domain_wf_def d_def a_def b_def demo_open_def)
  obtain sep where sep: "separator demo_hash d = Some sep"
    using encodeUint256_word [of "ed_chainID d"] by (auto simp: separator_def separatorBytes_def)
  define h where "h = eip712Digest demo_hash sep (rev (be_bytes 32 6))"
  have "artifactDigest demo_hash d a = Some h" "artifactDigest demo_hash d b = Some h"
    using demo_open_hash [of "replicate 32 1"] demo_open_hash [of "replicate 32 9"] sep
    by (auto simp: a_def b_def h_def openChannelDigest_def)
  then show ?thesis using digest_binds_artifact [OF k w(1) w(1) w(2,3)] w(4) by blast
qed

end
