(* ===== verification/Evm_Merkle.thy ===== *)
theory Evm_Merkle
  imports Evm_Encoding "HOL-Library.Multiset"
begin

text \<open>
  The HTLC Merkle tree of a state update (\<open>input/evm_merkle.go\<close>): root, inclusion proof and the
  contract's verification. Nodes are hashed commutatively; an odd last node moves up unchanged.
  \<open>sort.Slice\<close> is a parameter with what its documentation promises: the result is a permutation
  ordered by the index, nothing about the order of equal elements.
\<close>

section \<open>The tree\<close>

text \<open>\<open>bytes.Compare(a, b) <= 0\<close>.\<close>

fun bytesLe :: "byte list \<Rightarrow> byte list \<Rightarrow> bool" where
  "bytesLe [] b = True"
| "bytesLe (x # a) [] = False"
| "bytesLe (x # a) (y # b) = (x < y \<or> x = y \<and> bytesLe a b)"

definition commutativeHash :: "hash_fn \<Rightarrow> byte list \<Rightarrow> byte list \<Rightarrow> byte list" where
  "commutativeHash keccak a b = (if bytesLe a b then keccak (a @ b) else keccak (b @ a))"

fun nextLevel :: "hash_fn \<Rightarrow> byte list list \<Rightarrow> byte list list" where
  "nextLevel keccak [] = []"
| "nextLevel keccak [a] = [a]"
| "nextLevel keccak (a # b # level) = commutativeHash keccak a b # nextLevel keccak level"

lemma length_nextLevel [simp]: "length (nextLevel keccak level) = (length level + 1) div 2"
  by (induction keccak level rule: nextLevel.induct) simp_all

text \<open>The loop of \<open>HtlcsMerkleRoot\<close>.\<close>

function rootLoop :: "hash_fn \<Rightarrow> byte list list \<Rightarrow> byte list" where
  "rootLoop keccak level =
     (if 1 < length level then rootLoop keccak (nextLevel keccak level) else hd level)"
  by pat_completeness auto
termination by (relation "measure (\<lambda>(keccak, level). length level)") auto

text \<open>The loop of \<open>HtlcMerkleProof\<close>: the siblings of position \<open>idx\<close>, level by level.\<close>

definition sibling :: "byte list list \<Rightarrow> nat \<Rightarrow> byte list list" where
  "sibling level idx =
     (if idx mod 2 = 0 then (if idx + 1 < length level then [level ! (idx + 1)] else [])
      else [level ! (idx - 1)])"

function proofLoop :: "hash_fn \<Rightarrow> byte list list \<Rightarrow> nat \<Rightarrow> byte list list" where
  "proofLoop keccak level idx =
     (if 1 < length level then sibling level idx @ proofLoop keccak (nextLevel keccak level) (idx div 2) else [])"
  by pat_completeness auto
termination by (relation "measure (\<lambda>(keccak, level, idx). length level)") auto

declare rootLoop.simps [simp del] proofLoop.simps [simp del]

type_synonym sort_fn = "evm_htlc list \<Rightarrow> evm_htlc list"

definition sortedLeaves :: "hash_fn \<Rightarrow> sort_fn \<Rightarrow> evm_htlc list \<Rightarrow> byte list list option" where
  "sortedLeaves keccak srt htlcs = those (map (leaf keccak) (srt htlcs))"

definition htlcsMerkleRoot :: "hash_fn \<Rightarrow> sort_fn \<Rightarrow> evm_htlc list \<Rightarrow> byte list option" where
  "htlcsMerkleRoot keccak srt htlcs = do {
     leaves \<leftarrow> sortedLeaves keccak srt htlcs;
     Some (if leaves = [] then replicate 32 0 else rootLoop keccak leaves)
   }"

text \<open>The first position with the index, -1 if there is none.\<close>

fun findPos :: "evm_htlc list \<Rightarrow> u64 \<Rightarrow> nat option" where
  "findPos [] index = None"
| "findPos (h # hs) index = (if eh_index h = index then Some 0 else map_option Suc (findPos hs index))"

text \<open>\<open>Some None\<close>: no HTLC has the index. \<open>None\<close>: a leaf could not be encoded.\<close>

definition htlcMerkleProof :: "hash_fn \<Rightarrow> sort_fn \<Rightarrow> evm_htlc list \<Rightarrow> u64 \<Rightarrow> byte list list option option" where
  "htlcMerkleProof keccak srt htlcs index =
     (case findPos (srt htlcs) index of
        None \<Rightarrow> Some None
      | Some pos \<Rightarrow> do {
          leaves \<leftarrow> those (map (leaf keccak) (srt htlcs));
          Some (Some (proofLoop keccak leaves pos))
        })"

definition verifyHtlcMerkleProof :: "hash_fn \<Rightarrow> byte list list \<Rightarrow> byte list \<Rightarrow> byte list \<Rightarrow> bool" where
  "verifyHtlcMerkleProof keccak proof root lf = (foldl (commutativeHash keccak) lf proof = root)"

section \<open>Commutative hashing\<close>

lemma bytesLe_total: "bytesLe a b \<or> bytesLe b a"
  by (induction a b rule: bytesLe.induct) auto

lemma bytesLe_Nil [simp]: "bytesLe b [] \<longleftrightarrow> b = []"
  by (cases b) simp_all

lemma bytesLe_antisym: "bytesLe a b \<Longrightarrow> bytesLe b a \<Longrightarrow> a = b"
  by (induction a b rule: bytesLe.induct) auto

lemma sibling_later: "sibling (a # b # level) (Suc (Suc idx)) = sibling level idx"
  by (cases idx) (simp_all add: sibling_def)

text \<open>
  What the tree needs of its node hash, and what the client proves from it: the position of a node
  and its sibling can be swapped, so a proof needs no directions.
\<close>

locale commutative_node_hash =
  fixes node :: "byte list \<Rightarrow> byte list \<Rightarrow> byte list"
  assumes node_swap: "node a b = node b a"
begin

fun parents :: "byte list list \<Rightarrow> byte list list" where
  "parents [] = []"
| "parents [a] = [a]"
| "parents (a # b # level) = node a b # parents level"

lemma fold_sibling:
  "idx < length level \<Longrightarrow> foldl node (level ! idx) (sibling level idx) = parents level ! (idx div 2)"
proof (induction level arbitrary: idx rule: parents.induct)
  case (3 a b level)
  consider "idx = 0" | "idx = 1" | j where "idx = j + 2" by (metis One_nat_def Suc_eq_plus1 add_2_eq_Suc' not0_implies_Suc)
  then show ?case
  proof cases
    case (3 j)
    then show ?thesis using "3.IH" [of j] "3.prems" by (simp add: sibling_later)
  qed (simp_all add: sibling_def node_swap)
qed (simp_all add: sibling_def)

end

interpretation keccak_nodes: commutative_node_hash "commutativeHash keccak" for keccak
proof
  show "commutativeHash keccak a b = commutativeHash keccak b a" for a b
    using bytesLe_total [of a b] bytesLe_antisym [of a b] by (auto simp: commutativeHash_def)
qed

lemma parents_nextLevel: "keccak_nodes.parents keccak level = nextLevel keccak level"
  by (induction keccak level rule: nextLevel.induct) simp_all

lemma proof_root:
  assumes "idx < length level"
  shows "foldl (commutativeHash keccak) (level ! idx) (proofLoop keccak level idx) = rootLoop keccak level"
  using assms
proof (induction keccak level idx rule: proofLoop.induct)
  case (1 keccak level idx)
  show ?case
  proof (cases "1 < length level")
    case True
    have "idx div 2 < length (nextLevel keccak level)" using 1(2) by simp
    then show ?thesis
      using 1(1) [OF True] True keccak_nodes.fold_sibling [OF 1(2)]
      by (simp add: proofLoop.simps [of keccak level] rootLoop.simps [of keccak level] parents_nextLevel)
  next
    case False
    then have "idx = 0" "level \<noteq> []" using 1(2) by auto
    then show ?thesis
      using False by (simp add: proofLoop.simps [of keccak level] rootLoop.simps [of keccak level] hd_conv_nth)
  qed
qed

section \<open>Sorted leaves\<close>

text \<open>What \<open>sort.Slice\<close> with the comparison of the indices promises.\<close>

definition sort_slice :: "sort_fn \<Rightarrow> bool" where
  "sort_slice srt \<longleftrightarrow> (\<forall>xs. mset (srt xs) = mset xs \<and> sorted (map eh_index (srt xs)))"

lemma sort_slice_sort_key: "sort_slice (sort_key eh_index)"
  by (simp add: sort_slice_def)

lemma sort_slice_set:
  assumes "sort_slice srt"
  shows "set (srt xs) = set xs" "length (srt xs) = length xs" "srt xs = [] \<longleftrightarrow> xs = []"
    "distinct (map eh_index (srt xs)) = distinct (map eh_index xs)"
proof -
  have m: "mset (srt xs) = mset xs" using assms by (simp add: sort_slice_def)
  then show "set (srt xs) = set xs" "length (srt xs) = length xs" by (metis set_mset_mset) (metis m size_mset)
  then show "srt xs = [] \<longleftrightarrow> xs = []" by auto
  have "mset (map eh_index (srt xs)) = mset (map eh_index xs)" using m by simp
  then show "distinct (map eh_index (srt xs)) = distinct (map eh_index xs)" by (rule mset_eq_imp_distinct_iff)
qed

lemma sort_slice_unique:
  assumes "sort_slice srt" "mset xs = mset ys" "distinct (map eh_index xs)"
  shows "srt xs = srt ys"
proof (rule map_sorted_distinct_set_unique [of eh_index])
  have s: "set xs = set ys" using assms(2) by (metis set_mset_mset)
  have "distinct (map eh_index ys)" using assms(2,3) by (metis mset_eq_imp_distinct_iff mset_map)
  then show "distinct (map eh_index (srt ys))" "distinct (map eh_index (srt xs))"
    using assms(3) sort_slice_set(4) [OF assms(1)] by simp_all
  show "inj_on eh_index (set (srt xs) \<union> set (srt ys))"
    using assms(3) s by (simp add: sort_slice_set(1) [OF assms(1)] distinct_map)
  show "sorted (map eh_index (srt xs))" "sorted (map eh_index (srt ys))" using assms(1) by (simp_all add: sort_slice_def)
  show "set (srt xs) = set (srt ys)" using s by (simp add: sort_slice_set(1) [OF assms(1)])
qed

lemma root_order_free:
  "sort_slice srt \<Longrightarrow> mset xs = mset ys \<Longrightarrow> distinct (map eh_index xs) \<Longrightarrow>
     htlcsMerkleRoot keccak srt xs = htlcsMerkleRoot keccak srt ys"
  using sort_slice_unique [of srt xs ys] by (simp add: htlcsMerkleRoot_def sortedLeaves_def)

lemma those_map_Some:
  "those (map f xs) = Some ys \<Longrightarrow> length ys = length xs \<and> (\<forall>i < length xs. f (xs ! i) = Some (ys ! i))"
proof (induction xs arbitrary: ys)
  case (Cons x xs)
  then obtain y zs where "f x = Some y" "those (map f xs) = Some zs" "ys = y # zs"
    by (auto split: option.splits)
  then show ?case using Cons.IH by (auto simp: nth_Cons')
qed simp

lemma those_total: "\<forall>x \<in> set xs. \<exists>y. f x = Some y \<Longrightarrow> \<exists>ys. those (map f xs) = Some ys"
  by (induction xs) auto

lemma findPos_Some:
  "distinct (map eh_index hs) \<Longrightarrow> i < length hs \<Longrightarrow> findPos hs (eh_index (hs ! i)) = Some i"
proof (induction hs arbitrary: i)
  case (Cons h hs)
  then show ?case
  proof (cases i)
    case (Suc j)
    then have "eh_index (hs ! j) \<in> eh_index ` set hs" using Cons.prems(2) by simp
    then have "eh_index h \<noteq> eh_index (hs ! j)" using Cons.prems(1) by auto
    then show ?thesis using Cons Suc by simp
  qed simp
qed simp

lemma findPos_None: "findPos hs index = None \<longleftrightarrow> index \<notin> eh_index ` set hs"
  by (induction hs) auto

lemma proof_length: "length level \<le> 2 ^ d \<Longrightarrow> length (proofLoop keccak level idx) \<le> d"
proof (induction d arbitrary: level idx)
  case 0
  then show ?case by (simp add: proofLoop.simps [of keccak level])
next
  case (Suc d)
  have "length (sibling level idx) \<le> 1" by (simp add: sibling_def)
  moreover have "length (nextLevel keccak level) \<le> 2 ^ d" using Suc.prems by simp
  from Suc.IH [OF this, of "idx div 2"]
  have "length (proofLoop keccak (nextLevel keccak level) (idx div 2)) \<le> d" .
  ultimately show ?case by (simp add: proofLoop.simps [of keccak level])
qed

lemma proof_of_position:
  assumes "sort_slice srt" "distinct (map eh_index htlcs)" "htlcsMerkleRoot keccak srt htlcs = Some root" "h \<in> set htlcs"
  obtains path lf where "htlcMerkleProof keccak srt htlcs (eh_index h) = Some (Some path)" "leaf keccak h = Some lf"
    "verifyHtlcMerkleProof keccak path root lf" "\<And>d. length htlcs \<le> 2 ^ d \<Longrightarrow> length path \<le> d"
proof -
  obtain i where i: "i < length (srt htlcs)" "h = srt htlcs ! i"
    using assms(4) sort_slice_set(1) [OF assms(1)] by (metis in_set_conv_nth)
  obtain leaves where l: "those (map (leaf keccak) (srt htlcs)) = Some leaves"
    "root = (if leaves = [] then replicate 32 0 else rootLoop keccak leaves)"
    using assms(3) by (auto simp: htlcsMerkleRoot_def sortedLeaves_def split: bind_splits)
  note n = those_map_Some [OF l(1)]
  have f: "findPos (srt htlcs) (eh_index h) = Some i"
    using findPos_Some [OF _ i(1)] assms(2) sort_slice_set(4) [OF assms(1)] i(2) by simp
  have "foldl (commutativeHash keccak) (leaves ! i) (proofLoop keccak leaves i) = root"
    using proof_root [of i leaves] i(1) n l(2) by auto
  moreover have "length htlcs \<le> 2 ^ d \<Longrightarrow> length (proofLoop keccak leaves i) \<le> d" for d
    using n sort_slice_set(2) [OF assms(1)] by (intro proof_length) simp
  ultimately show ?thesis
    using n i f l(1) by (intro that [of "proofLoop keccak leaves i" "leaves ! i"])
      (simp_all add: htlcMerkleProof_def verifyHtlcMerkleProof_def)
qed

lemma proof_of_unknown:
  "sort_slice srt \<Longrightarrow> index \<notin> eh_index ` set htlcs \<Longrightarrow> htlcMerkleProof keccak srt htlcs index = Some None"
  by (simp add: htlcMerkleProof_def findPos_None [THEN iffD2] sort_slice_set(1))

text \<open>
  C18: inclusion proofs work. For every HTLC of a set with distinct indices, the proof that is built
  for its index verifies its leaf against the committed root, and it has at most \<open>d\<close> nodes when there
  are at most \<open>2 ^ d\<close> HTLCs; an index that is not in the set has no proof.
\<close>

theorem merkle_proof_verifies:
  assumes "sort_slice srt" "distinct (map eh_index htlcs)" "htlcsMerkleRoot keccak srt htlcs = Some root"
  shows "(\<forall>h \<in> set htlcs. \<exists>path lf. htlcMerkleProof keccak srt htlcs (eh_index h) = Some (Some path) \<and>
      leaf keccak h = Some lf \<and> verifyHtlcMerkleProof keccak path root lf \<and>
      (\<forall>d. length htlcs \<le> 2 ^ d \<longrightarrow> length path \<le> d)) \<and>
    (\<forall>index. index \<notin> eh_index ` set htlcs \<longrightarrow> htlcMerkleProof keccak srt htlcs index = Some None)"
  using proof_of_position [OF assms] proof_of_unknown [OF assms(1)] by metis

definition demo_evm_htlc :: "u64 \<Rightarrow> byte \<Rightarrow> evm_htlc" where
  "demo_evm_htlc i r = \<lparr>eh_index = i, eh_amount = 100, eh_hashlock = replicate 32 5, eh_timelock = 700,
     eh_recipient = replicate 20 r\<rparr>"

lemma demo_leaf: "\<exists>lf. leaf keccak (demo_evm_htlc i r) = Some lf"
proof -
  obtain x y z where "encodeUint256 (bigOfUint64 i) = Some x" "encodeUint256 100 = Some y"
    "encodeUint256 (bigOfUint64 700) = Some z"
    using encodeUint256_word by (fastforce simp: encodeUint256_def)
  then show ?thesis by (simp add: leaf_def leafBytes_def demo_evm_htlc_def)
qed

theorem merkle_proof_verifies_witness:
  "\<exists>root path lf. htlcsMerkleRoot demo_hash (sort_key eh_index) [demo_evm_htlc 4 1, demo_evm_htlc 2 1, demo_evm_htlc 3 2] = Some root \<and>
     htlcMerkleProof demo_hash (sort_key eh_index) [demo_evm_htlc 4 1, demo_evm_htlc 2 1, demo_evm_htlc 3 2] 2 = Some (Some path) \<and>
     verifyHtlcMerkleProof demo_hash path root lf \<and> length path \<le> 2"
proof -
  let ?hs = "[demo_evm_htlc 4 1, demo_evm_htlc 2 1, demo_evm_htlc 3 2]"
  obtain a b c where "leaf demo_hash (demo_evm_htlc 2 1) = Some a" "leaf demo_hash (demo_evm_htlc 3 2) = Some b"
    "leaf demo_hash (demo_evm_htlc 4 1) = Some c" using demo_leaf by meson
  moreover have "sort_key eh_index ?hs = [demo_evm_htlc 2 1, demo_evm_htlc 3 2, demo_evm_htlc 4 1]"
    by (simp add: demo_evm_htlc_def)
  ultimately obtain root where r: "htlcsMerkleRoot demo_hash (sort_key eh_index) ?hs = Some root"
    by (simp add: htlcsMerkleRoot_def sortedLeaves_def)
  have d: "distinct (map eh_index ?hs)" by (simp add: demo_evm_htlc_def)
  have "eh_index (demo_evm_htlc 2 1) = 2" "demo_evm_htlc 2 1 \<in> set ?hs" "length ?hs \<le> 2 ^ 2"
    by (simp_all add: demo_evm_htlc_def)
  then show ?thesis
    using merkle_proof_verifies [OF sort_slice_sort_key d r, THEN conjunct1, rule_format, of "demo_evm_htlc 2 1"] r
    by metis
qed

end
