(* ===== verification/Evm_Commitment.thy ===== *)
theory Evm_Commitment
  imports Evm_Merkle Channel_Chain
begin

text \<open>
  From an LND commitment to the contract's state update (\<open>lnwallet/evm_commitment.go\<close>): scaling of
  amounts, HTLC timelocks, the HTLC set with its recipients, the split of the balances, the state
  update of a commitment in memory and on disk, the cooperative close and the resolution of an HTLC.
  The package-level settings are the record \<open>evm_params\<close>; what is read from the channel state besides
  its commitments (channel id, capacity, funder, the addresses of the funding keys) is \<open>evm_channel\<close>.
\<close>

section \<open>Settings and amounts\<close>

definition internalDecimals :: nat where
  "internalDecimals = 8"

record evm_params =
  ep_tokenDecimals :: u8
  ep_genesisTimestamp :: u64
  ep_blockTimeSecs :: u64

record evm_channel =
  ch_channelID :: "byte list"
  ch_capacity :: int
  ch_isInitiator :: bool
  ch_ourAddr :: "byte list"
  ch_theirAddr :: "byte list"

definition evmHtlcTimelock :: "evm_params \<Rightarrow> u32 \<Rightarrow> u32" where
  "evmHtlcTimelock p cltvExpiry =
     (if ep_blockTimeSecs p = 0 then cltvExpiry
      else ucast (ep_genesisTimestamp p + ucast cltvExpiry * ep_blockTimeSecs p))"

definition pow10Int :: "nat \<Rightarrow> int" where
  "pow10Int n = 10 ^ n"

definition evmScaleToBase :: "evm_params \<Rightarrow> int \<Rightarrow> int" where
  "evmScaleToBase p amt =
     (if amt \<le> 0 then 0
      else quot (amt * pow10Int (unat (ep_tokenDecimals p))) (pow10Int internalDecimals))"

section \<open>State updates\<close>

definition evmHtlcOf :: "evm_params \<Rightarrow> byte list \<Rightarrow> paymentDescriptor \<Rightarrow> evm_htlc" where
  "evmHtlcOf p recipient pd =
     \<lparr>eh_index = pd_htlcIndex pd, eh_amount = evmScaleToBase p (toSatoshis (pd_amount pd)),
      eh_hashlock = pd_rHash pd, eh_timelock = evmHtlcTimelock p (pd_timeout pd), eh_recipient = recipient\<rparr>"

definition buildEvmHTLCs :: "evm_params \<Rightarrow> commitment \<Rightarrow> byte list \<Rightarrow> byte list \<Rightarrow> evm_htlc list" where
  "buildEvmHTLCs p view ourAddr theirAddr =
     map (evmHtlcOf p theirAddr) (cm_outgoingHTLCs view) @ map (evmHtlcOf p ourAddr) (cm_incomingHTLCs view)"

definition evmBalanceSplit :: "evm_params \<Rightarrow> int \<Rightarrow> int \<Rightarrow> evm_htlc list \<Rightarrow> int \<times> int" where
  "evmBalanceSplit p capacity bBalance htlcs =
     (let balanceB = evmScaleToBase p bBalance;
          balanceA = foldl (\<lambda>a h. a - eh_amount h) (evmScaleToBase p capacity - balanceB) htlcs
      in (if balanceA < 0 then 0 else balanceA, balanceB))"

definition buildEvmStateUpdate ::
  "hash_fn \<Rightarrow> sort_fn \<Rightarrow> evm_params \<Rightarrow> commitment \<Rightarrow> byte list \<Rightarrow> int \<Rightarrow> bool \<Rightarrow> byte list \<Rightarrow> byte list
    \<Rightarrow> evm_state_update option" where
  "buildEvmStateUpdate keccak srt p view channelID capacity isInitiator ourAddr theirAddr =
     (let htlcs = buildEvmHTLCs p view ourAddr theirAddr;
          bBalance = (if isInitiator then toSatoshis (cm_theirBalance view) else toSatoshis (cm_ourBalance view));
          (balanceA, balanceB) = evmBalanceSplit p capacity bBalance htlcs
      in do {
        root \<leftarrow> htlcsMerkleRoot keccak srt htlcs;
        Some \<lparr>su_channelID = channelID, su_nonce = cm_height view, su_balanceA = balanceA,
              su_balanceB = balanceB, su_htlcsHash = root\<rparr>
      })"

definition stateUpdateForView ::
  "hash_fn \<Rightarrow> sort_fn \<Rightarrow> evm_params \<Rightarrow> evm_channel \<Rightarrow> commitment \<Rightarrow> evm_state_update option" where
  "stateUpdateForView keccak srt p ch view =
     buildEvmStateUpdate keccak srt p view (ch_channelID ch) (ch_capacity ch) (ch_isInitiator ch)
       (ch_ourAddr ch) (ch_theirAddr ch)"

definition evmHTLCsFromDiskCommit :: "evm_params \<Rightarrow> evm_channel \<Rightarrow> disk_commitment \<Rightarrow> evm_htlc list" where
  "evmHTLCsFromDiskCommit p ch commit =
     map (\<lambda>h. \<lparr>eh_index = dh_htlcIndex h, eh_amount = evmScaleToBase p (toSatoshis (dh_amt h)),
               eh_hashlock = dh_rHash h, eh_timelock = evmHtlcTimelock p (dh_refundTimeout h),
               eh_recipient = (if dh_incoming h then ch_ourAddr ch else ch_theirAddr ch)\<rparr>) (dc_htlcs commit)"

definition evmStateUpdateFromDiskCommit ::
  "hash_fn \<Rightarrow> sort_fn \<Rightarrow> evm_params \<Rightarrow> evm_channel \<Rightarrow> disk_commitment \<Rightarrow> evm_state_update option" where
  "evmStateUpdateFromDiskCommit keccak srt p ch commit =
     (let htlcs = evmHTLCsFromDiskCommit p ch commit;
          bBalance = (if ch_isInitiator ch then toSatoshis (dc_remoteBalance commit)
                      else toSatoshis (dc_localBalance commit));
          (balanceA, balanceB) = evmBalanceSplit p (ch_capacity ch) bBalance htlcs
      in do {
        root \<leftarrow> htlcsMerkleRoot keccak srt htlcs;
        Some \<lparr>su_channelID = ch_channelID ch, su_nonce = dc_commitHeight commit, su_balanceA = balanceA,
              su_balanceB = balanceB, su_htlcsHash = root\<rparr>
      })"

definition evmInitialStateUpdate ::
  "hash_fn \<Rightarrow> sort_fn \<Rightarrow> evm_params \<Rightarrow> evm_channel \<Rightarrow> disk_commitment \<Rightarrow> evm_state_update option" where
  "evmInitialStateUpdate keccak srt p ch commit =
     (let bBalance = (if ch_isInitiator ch then toSatoshis (dc_remoteBalance commit)
                      else toSatoshis (dc_localBalance commit));
          (balanceA, balanceB) = evmBalanceSplit p (ch_capacity ch) bBalance []
      in do {
        root \<leftarrow> htlcsMerkleRoot keccak srt [];
        Some \<lparr>su_channelID = ch_channelID ch, su_nonce = dc_commitHeight commit, su_balanceA = balanceA,
              su_balanceB = balanceB, su_htlcsHash = root\<rparr>
      })"

text \<open>\<open>evmAssertConservation\<close>: whether a state may be broadcast.\<close>

definition evmAssertConservation :: "evm_params \<Rightarrow> evm_channel \<Rightarrow> disk_commitment \<Rightarrow> evm_state_update \<Rightarrow> bool" where
  "evmAssertConservation p ch commit su \<longleftrightarrow>
     foldl (\<lambda>s h. s + eh_amount h) (su_balanceA su + su_balanceB su) (evmHTLCsFromDiskCommit p ch commit)
       = evmScaleToBase p (ch_capacity ch)"

section \<open>Cooperative close\<close>

definition evmCoopCloseFinalBalances :: "evm_params \<Rightarrow> evm_channel \<Rightarrow> disk_commitment \<Rightarrow> int \<times> int" where
  "evmCoopCloseFinalBalances p ch commit =
     (let bBalance = (if ch_isInitiator ch then toSatoshis (dc_remoteBalance commit)
                      else toSatoshis (dc_localBalance commit));
          finalB = evmScaleToBase p bBalance
      in (evmScaleToBase p (ch_capacity ch) - finalB, finalB))"

definition evmCoopClose :: "evm_params \<Rightarrow> evm_channel \<Rightarrow> disk_commitment \<Rightarrow> evm_coop_close" where
  "evmCoopClose p ch commit =
     (let (finalA, finalB) = evmCoopCloseFinalBalances p ch commit
      in \<lparr>ec_channelID = ch_channelID ch, ec_nonce = dc_commitHeight commit,
          ec_finalBalanceA = finalA, ec_finalBalanceB = finalB\<rparr>)"

section \<open>Resolving an HTLC\<close>

text \<open>
  The call that claims (with a preimage) or times out the HTLC with an index: the HTLC and its proof.
  The HTLC is the first one with the index in the unsorted set, the zero value if there is none,
  which the proof excludes.
\<close>

record evm_resolution =
  er_channelID :: "byte list"
  er_htlc :: evm_htlc
  er_proof :: "byte list list"
  er_preimage :: "byte list option"

datatype evm_error = NoSuchHtlc u64 | EncodingPanic

definition evmHtlcResolutionOf ::
  "hash_fn \<Rightarrow> sort_fn \<Rightarrow> byte list \<Rightarrow> evm_htlc list \<Rightarrow> u64 \<Rightarrow> byte list option \<Rightarrow> evm_error + evm_resolution" where
  "evmHtlcResolutionOf keccak srt channelID htlcs htlcIndex preimage =
     (case htlcMerkleProof keccak srt htlcs htlcIndex of
        None \<Rightarrow> Inl EncodingPanic
      | Some None \<Rightarrow> Inl (NoSuchHtlc htlcIndex)
      | Some (Some path) \<Rightarrow>
          (case List.find (\<lambda>h. eh_index h = htlcIndex) htlcs of
             None \<Rightarrow> Inl (NoSuchHtlc htlcIndex)
           | Some target \<Rightarrow>
               Inr \<lparr>er_channelID = channelID, er_htlc = target, er_proof = path, er_preimage = preimage\<rparr>))"

definition evmHtlcResolution ::
  "hash_fn \<Rightarrow> sort_fn \<Rightarrow> evm_params \<Rightarrow> evm_channel \<Rightarrow> commitment \<Rightarrow> u64 \<Rightarrow> byte list option
    \<Rightarrow> evm_error + evm_resolution" where
  "evmHtlcResolution keccak srt p ch view htlcIndex preimage =
     evmHtlcResolutionOf keccak srt (ch_channelID ch)
       (buildEvmHTLCs p view (ch_ourAddr ch) (ch_theirAddr ch)) htlcIndex preimage"

definition evmHtlcResolutionTx ::
  "hash_fn \<Rightarrow> sort_fn \<Rightarrow> evm_params \<Rightarrow> evm_channel \<Rightarrow> disk_commitment \<Rightarrow> u64 \<Rightarrow> byte list option
    \<Rightarrow> evm_error + evm_resolution" where
  "evmHtlcResolutionTx keccak srt p ch commit htlcIndex preimage =
     evmHtlcResolutionOf keccak srt (ch_channelID ch) (evmHTLCsFromDiskCommit p ch commit) htlcIndex preimage"

section \<open>Both peers compute the same state\<close>

text \<open>The same commitment and the same channel, seen by the two peers.\<close>

definition htlcKey :: "paymentDescriptor \<Rightarrow> u64 \<times> msat \<times> byte list \<times> u32" where
  "htlcKey pd = (pd_htlcIndex pd, pd_amount pd, pd_rHash pd, pd_timeout pd)"

definition mirrored_view :: "commitment \<Rightarrow> commitment \<Rightarrow> bool" where
  "mirrored_view c d \<longleftrightarrow> cm_height c = cm_height d \<and> cm_ourBalance c = cm_theirBalance d \<and>
     cm_theirBalance c = cm_ourBalance d \<and>
     mset (map htlcKey (cm_outgoingHTLCs c)) = mset (map htlcKey (cm_incomingHTLCs d)) \<and>
     mset (map htlcKey (cm_incomingHTLCs c)) = mset (map htlcKey (cm_outgoingHTLCs d))"

definition mirrored_channel :: "evm_channel \<Rightarrow> evm_channel \<Rightarrow> bool" where
  "mirrored_channel a b \<longleftrightarrow> ch_channelID a = ch_channelID b \<and> ch_capacity a = ch_capacity b \<and>
     ch_isInitiator a = (\<not> ch_isInitiator b) \<and> ch_ourAddr a = ch_theirAddr b \<and> ch_theirAddr a = ch_ourAddr b"

definition distinct_indices :: "commitment \<Rightarrow> bool" where
  "distinct_indices c \<longleftrightarrow> distinct (map pd_htlcIndex (cm_outgoingHTLCs c @ cm_incomingHTLCs c))"

lemma evmHtlcOf_key:
  assumes "mset (map htlcKey xs) = mset (map htlcKey ys)"
  shows "mset (map (evmHtlcOf p r) xs) = mset (map (evmHtlcOf p r) ys)"
proof -
  define f where "f = (\<lambda>(i, m, rh, t). \<lparr>eh_index = i, eh_amount = evmScaleToBase p (toSatoshis m),
      eh_hashlock = rh, eh_timelock = evmHtlcTimelock p t, eh_recipient = r\<rparr>)"
  have e: "evmHtlcOf p r = f \<circ> htlcKey" by (rule ext) (simp add: f_def evmHtlcOf_def htlcKey_def)
  have "image_mset f (mset (map htlcKey xs)) = image_mset f (mset (map htlcKey ys))" using assms by simp
  then show ?thesis unfolding e by (simp add: image_mset.compositionality)
qed

lemma build_mirrored:
  assumes "mirrored_view c d"
  shows "mset (buildEvmHTLCs p c our their) = mset (buildEvmHTLCs p d their our)"
proof -
  have "mset (map (evmHtlcOf p their) (cm_outgoingHTLCs c)) = mset (map (evmHtlcOf p their) (cm_incomingHTLCs d))"
    "mset (map (evmHtlcOf p our) (cm_incomingHTLCs c)) = mset (map (evmHtlcOf p our) (cm_outgoingHTLCs d))"
    by (rule evmHtlcOf_key, use assms in \<open>simp add: mirrored_view_def\<close>)+
  then show ?thesis by (simp add: buildEvmHTLCs_def)
qed

lemma build_indices: "map eh_index (buildEvmHTLCs p c our their) = map pd_htlcIndex (cm_outgoingHTLCs c @ cm_incomingHTLCs c)"
  by (simp add: buildEvmHTLCs_def evmHtlcOf_def)

definition htlcTotal :: "evm_htlc list \<Rightarrow> int" where
  "htlcTotal hs = sum_list (map eh_amount hs)"

lemma foldl_minus: "foldl (\<lambda>a h. a - eh_amount h) a hs = a - htlcTotal hs"
  by (induction hs arbitrary: a) (simp_all add: htlcTotal_def)

lemma foldl_plus: "foldl (\<lambda>a h. a + eh_amount h) a hs = a + htlcTotal hs"
  by (induction hs arbitrary: a) (simp_all add: htlcTotal_def)

lemma htlcTotal_mset: "mset xs = mset ys \<Longrightarrow> htlcTotal xs = htlcTotal ys"
  unfolding htlcTotal_def by (metis mset_map sum_mset_sum_list)

lemma evmBalanceSplit_eq:
  "evmBalanceSplit p capacity b hs =
     (max 0 (evmScaleToBase p capacity - evmScaleToBase p b - htlcTotal hs), evmScaleToBase p b)"
  by (simp add: evmBalanceSplit_def Let_def foldl_minus)

lemma disk_htlcs: "evmHTLCsFromDiskCommit p ch (toDiskCommit c) = buildEvmHTLCs p c (ch_ourAddr ch) (ch_theirAddr ch)"
  by (simp add: evmHTLCsFromDiskCommit_def toDiskCommit_def buildEvmHTLCs_def diskHtlc_def evmHtlcOf_def)

lemma disk_state_update: "evmStateUpdateFromDiskCommit keccak srt p ch (toDiskCommit c) = stateUpdateForView keccak srt p ch c"
  unfolding evmStateUpdateFromDiskCommit_def disk_htlcs stateUpdateForView_def buildEvmStateUpdate_def
  by (simp add: toDiskCommit_def)

text \<open>
  C9: for the same commitment both peers build the same state update, so the signature of one
  verifies for the other, whichever order their HTLC lists have; and the state rebuilt from disk for a
  force close, a penalty or a watchtower is the one that was signed. This needs every HTLC of the
  commitment, of either direction, to have its own index.
\<close>

theorem peers_sign_same_state:
  assumes "sort_slice srt" "mirrored_channel ch ch'" "mirrored_view c c'" "distinct_indices c"
  shows "stateUpdateForView keccak srt p ch c = stateUpdateForView keccak srt p ch' c' \<and>
    evmStateUpdateFromDiskCommit keccak srt p ch (toDiskCommit c) = stateUpdateForView keccak srt p ch c"
proof -
  let ?xs = "buildEvmHTLCs p c (ch_ourAddr ch) (ch_theirAddr ch)"
  let ?ys = "buildEvmHTLCs p c' (ch_ourAddr ch') (ch_theirAddr ch')"
  have m: "mset ?xs = mset ?ys" using build_mirrored [OF assms(3)] assms(2) by (simp add: mirrored_channel_def)
  have d: "distinct (map eh_index ?xs)" using assms(4) unfolding build_indices distinct_indices_def .
  have "htlcsMerkleRoot keccak srt ?xs = htlcsMerkleRoot keccak srt ?ys"
    by (rule root_order_free [OF assms(1) m d])
  moreover have "htlcTotal ?xs = htlcTotal ?ys" by (rule htlcTotal_mset [OF m])
  ultimately have "stateUpdateForView keccak srt p ch c = stateUpdateForView keccak srt p ch' c'"
    using assms(2,3)
    by (simp add: stateUpdateForView_def buildEvmStateUpdate_def evmBalanceSplit_eq mirrored_channel_def
        mirrored_view_def Let_def)
  with disk_state_update show ?thesis by blast
qed

section \<open>Conservation\<close>

lemma evmScaleToBase_pos: "0 \<le> x \<Longrightarrow> evmScaleToBase p x = x * 10 ^ unat (ep_tokenDecimals p) div 10 ^ 8"
  by (simp add: evmScaleToBase_def pow10Int_def internalDecimals_def quot_nonneg)

lemma evmScaleToBase_nonneg [simp]: "0 \<le> evmScaleToBase p x"
proof (cases "0 \<le> x")
  case True
  then show ?thesis by (simp add: evmScaleToBase_pos pos_imp_zdiv_nonneg_iff)
qed (simp add: evmScaleToBase_def)

lemma evmScaleToBase_mono: "x \<le> y \<Longrightarrow> evmScaleToBase p x \<le> evmScaleToBase p y"
proof (cases "0 \<le> x")
  case True
  assume "x \<le> y"
  then have "x * 10 ^ unat (ep_tokenDecimals p) \<le> y * 10 ^ unat (ep_tokenDecimals p)" by simp
  then show ?thesis using True \<open>x \<le> y\<close> by (simp add: evmScaleToBase_pos zdiv_mono1)
qed (simp add: evmScaleToBase_def [of p x])

lemma div_superadditive:
  fixes a b m :: int
  assumes "0 < m"
  shows "a div m + b div m \<le> (a + b) div m"
proof -
  have "m * (a div m) \<le> a" "m * (b div m) \<le> b"
    using mult_div_mod_eq [of m a] mult_div_mod_eq [of m b] pos_mod_sign [OF assms, of a] pos_mod_sign [OF assms, of b]
    by linarith+
  then have "m * (a div m + b div m) \<le> a + b" by (simp add: distrib_left)
  then have "m * (a div m + b div m) div m \<le> (a + b) div m" using assms by (rule zdiv_mono1)
  then show ?thesis using assms by simp
qed

lemma evmScaleToBase_add:
  assumes "0 \<le> x" "0 \<le> y"
  shows "evmScaleToBase p x + evmScaleToBase p y \<le> evmScaleToBase p (x + y)"
  using assms div_superadditive [of "10 ^ 8" "x * 10 ^ unat (ep_tokenDecimals p)" "y * 10 ^ unat (ep_tokenDecimals p)"]
  by (simp add: evmScaleToBase_pos distrib_right)

definition msatTotal :: "paymentDescriptor list \<Rightarrow> int" where
  "msatTotal pds = sum_list (map (\<lambda>pd. uint (pd_amount pd)) pds)"

lemma scaled_total:
  "0 \<le> b \<Longrightarrow> evmScaleToBase p (b div 1000) + sum_list (map (\<lambda>pd. evmScaleToBase p (toSatoshis (pd_amount pd))) pds)
     \<le> evmScaleToBase p ((b + msatTotal pds) div 1000)"
proof (induction pds arbitrary: b)
  case (Cons pd pds)
  let ?a = "uint (pd_amount pd)"
  have "evmScaleToBase p (b div 1000) + evmScaleToBase p (?a div 1000) \<le> evmScaleToBase p (b div 1000 + ?a div 1000)"
    using Cons.prems by (intro evmScaleToBase_add) (simp_all add: pos_imp_zdiv_nonneg_iff)
  also have "\<dots> \<le> evmScaleToBase p ((b + ?a) div 1000)"
    by (intro evmScaleToBase_mono div_superadditive) simp
  finally show ?case
    using Cons.IH [of "b + ?a"] Cons.prems by (simp add: toSatoshis_value msatTotal_def add.assoc)
qed (simp add: msatTotal_def)

definition bMsat :: "evm_channel \<Rightarrow> commitment \<Rightarrow> msat" where
  "bMsat ch c = (if ch_isInitiator ch then cm_theirBalance c else cm_ourBalance c)"

lemma state_update_cases:
  assumes "evmStateUpdateFromDiskCommit keccak srt p ch (toDiskCommit c) = Some su"
  shows "su_balanceB su = evmScaleToBase p (toSatoshis (bMsat ch c))"
    "su_balanceA su = max 0 (evmScaleToBase p (ch_capacity ch) - su_balanceB su
       - htlcTotal (evmHTLCsFromDiskCommit p ch (toDiskCommit c)))"
    "su_nonce su = cm_height c" "su_channelID su = ch_channelID ch"
  using assms
  by (auto simp: evmStateUpdateFromDiskCommit_def evmBalanceSplit_eq Let_def bMsat_def toDiskCommit_def
      split: bind_splits)

lemma covered_total:
  assumes "uint (bMsat ch c) + msatTotal (cm_outgoingHTLCs c @ cm_incomingHTLCs c) \<le> 1000 * ch_capacity ch"
  shows "evmScaleToBase p (toSatoshis (bMsat ch c)) + htlcTotal (evmHTLCsFromDiskCommit p ch (toDiskCommit c))
    \<le> evmScaleToBase p (ch_capacity ch)"
proof -
  let ?pds = "cm_outgoingHTLCs c @ cm_incomingHTLCs c"
  have "htlcTotal (evmHTLCsFromDiskCommit p ch (toDiskCommit c))
      = sum_list (map (\<lambda>pd. evmScaleToBase p (toSatoshis (pd_amount pd))) ?pds)"
    unfolding disk_htlcs by (simp add: htlcTotal_def buildEvmHTLCs_def evmHtlcOf_def o_def)
  then have "evmScaleToBase p (toSatoshis (bMsat ch c)) + htlcTotal (evmHTLCsFromDiskCommit p ch (toDiskCommit c))
      \<le> evmScaleToBase p ((uint (bMsat ch c) + msatTotal ?pds) div 1000)"
    using scaled_total [of "uint (bMsat ch c)" p ?pds] by (simp add: toSatoshis_value)
  also have "\<dots> \<le> evmScaleToBase p (1000 * ch_capacity ch div 1000)"
    by (intro evmScaleToBase_mono zdiv_mono1 assms) simp
  finally show ?thesis by simp
qed

text \<open>
  C19: the state that a force close broadcasts adds up to the escrow. The check before the broadcast
  passes exactly when B's balance and the HTLCs fit into the scaled capacity, which they do when they
  fit in millisatoshi, for every token precision and in spite of all rounding; then nothing is clamped
  and nothing is left over. Without HTLCs the cooperative close pays out the same split.
\<close>

theorem force_close_conserves:
  assumes "evmStateUpdateFromDiskCommit keccak srt p ch (toDiskCommit c) = Some su"
  shows "(evmAssertConservation p ch (toDiskCommit c) su \<longleftrightarrow>
      su_balanceB su + htlcTotal (evmHTLCsFromDiskCommit p ch (toDiskCommit c)) \<le> evmScaleToBase p (ch_capacity ch)) \<and>
    (uint (bMsat ch c) + msatTotal (cm_outgoingHTLCs c @ cm_incomingHTLCs c) \<le> 1000 * ch_capacity ch \<longrightarrow>
      evmAssertConservation p ch (toDiskCommit c) su \<and> 0 \<le> su_balanceA su \<and> 0 \<le> su_balanceB su \<and>
      su_balanceA su + su_balanceB su + htlcTotal (evmHTLCsFromDiskCommit p ch (toDiskCommit c))
        = evmScaleToBase p (ch_capacity ch) \<and>
      (cm_outgoingHTLCs c @ cm_incomingHTLCs c = [] \<longrightarrow>
         evmCoopCloseFinalBalances p ch (toDiskCommit c) = (su_balanceA su, su_balanceB su)))"
proof -
  note s = state_update_cases [OF assms]
  let ?t = "htlcTotal (evmHTLCsFromDiskCommit p ch (toDiskCommit c))"
  have iff: "evmAssertConservation p ch (toDiskCommit c) su \<longleftrightarrow> su_balanceB su + ?t \<le> evmScaleToBase p (ch_capacity ch)"
    unfolding evmAssertConservation_def foldl_plus using s(2) by linarith
  have "evmCoopCloseFinalBalances p ch (toDiskCommit c) = (su_balanceA su, su_balanceB su)"
    if "su_balanceB su + ?t \<le> evmScaleToBase p (ch_capacity ch)" "cm_outgoingHTLCs c @ cm_incomingHTLCs c = []"
  proof -
    have "?t = 0" using that(2) unfolding disk_htlcs by (simp add: buildEvmHTLCs_def htlcTotal_def)
    then show ?thesis
      using that(1) s(1,2) by (simp add: evmCoopCloseFinalBalances_def Let_def toDiskCommit_def bMsat_def)
  qed
  with iff s covered_total [of ch c p] show ?thesis by auto
qed

section \<open>When two HTLCs share an index\<close>

text \<open>
  The index is the HTLC index, which each party counts from 0. The sort is by index only, so with
  equal indices the tree depends on the order of the list, and the two peers list their outgoing
  HTLCs first: with one HTLC below the pair, the two trees pair up different leaves.
\<close>

lemma shared_index_splits_root:
  assumes "eh_index a < eh_index b" "eh_index b = eh_index c"
    "leaf keccak a = Some la" "leaf keccak b = Some lb" "leaf keccak c = Some lc"
  shows "htlcsMerkleRoot keccak (sort_key eh_index) [b, a, c]
      = Some (commutativeHash keccak (commutativeHash keccak la lb) lc)"
    "htlcsMerkleRoot keccak (sort_key eh_index) [a, c, b]
      = Some (commutativeHash keccak (commutativeHash keccak la lc) lb)"
  using assms less_imp_le [OF assms(1)] less_imp_neq [OF assms(1)]
  by (simp_all add: htlcsMerkleRoot_def sortedLeaves_def rootLoop.simps)

text \<open>
  And a claim of an incoming HTLC is built for an outgoing one with the same index, if there is one:
  the contract would credit the peer, if the hashlock matched.
\<close>

lemma shared_index_claims_other:
  assumes "evmHtlcResolution keccak srt p ch view i preimage = Inr r" "i \<in> pd_htlcIndex ` set (cm_outgoingHTLCs view)"
  shows "eh_recipient (er_htlc r) = ch_theirAddr ch"
proof -
  have find: "\<exists>h. List.find (\<lambda>h. eh_index h = i) (map (evmHtlcOf p their) xs @ ys) = Some h \<and> eh_recipient h = their"
    if "i \<in> pd_htlcIndex ` set xs" for xs ys their
    using that by (induction xs) (auto simp: evmHtlcOf_def)
  obtain h where "List.find (\<lambda>h. eh_index h = i) (buildEvmHTLCs p view (ch_ourAddr ch) (ch_theirAddr ch)) = Some h"
    "eh_recipient h = ch_theirAddr ch"
    using find [OF assms(2)] unfolding buildEvmHTLCs_def by blast
  then show ?thesis
    using assms(1) by (auto simp: evmHtlcResolution_def evmHtlcResolutionOf_def split: option.splits)
qed

section \<open>An example\<close>

definition demo_params :: evm_params where
  "demo_params = \<lparr>ep_tokenDecimals = 6, ep_genesisTimestamp = 1700000000, ep_blockTimeSecs = 2\<rparr>"

definition demo_evm_channel :: "bool \<Rightarrow> evm_channel" where
  "demo_evm_channel funder = \<lparr>ch_channelID = replicate 32 9, ch_capacity = 10000000, ch_isInitiator = funder,
     ch_ourAddr = replicate 20 (if funder then 1 else 2), ch_theirAddr = replicate 20 (if funder then 2 else 1)\<rparr>"

definition demo_evm_pd :: "u64 \<Rightarrow> msat \<Rightarrow> paymentDescriptor" where
  "demo_evm_pd i amt = zeroDescriptor\<lparr>pd_htlcIndex := i, pd_amount := amt, pd_rHash := replicate 32 4, pd_timeout := 600\<rparr>"

definition demo_evm_view :: "bool \<Rightarrow> commitment" where
  "demo_evm_view funder = \<lparr>cm_height = 5, cm_whoseCommit = Local, cm_messageIndices = mkDual 2 1, cm_ourHtlcIndex = 2,
     cm_theirHtlcIndex = 1, cm_ourBalance = (if funder then 5000000000 else 4700000123),
     cm_theirBalance = (if funder then 4700000123 else 5000000000), cm_fee = 9000,
     cm_feePerKw = 253, cm_dustLimit = 354,
     cm_outgoingHTLCs = (if funder then [demo_evm_pd 1 200000999, demo_evm_pd 3 70000000] else [demo_evm_pd 0 1500]),
     cm_incomingHTLCs = (if funder then [demo_evm_pd 0 1500] else [demo_evm_pd 3 70000000, demo_evm_pd 1 200000999])\<rparr>"

lemma demo_mirrored: "mirrored_channel (demo_evm_channel True) (demo_evm_channel False)"
  "mirrored_view (demo_evm_view True) (demo_evm_view False)" "distinct_indices (demo_evm_view True)"
  by (simp_all add: mirrored_channel_def demo_evm_channel_def mirrored_view_def demo_evm_view_def distinct_indices_def
      demo_evm_pd_def)

theorem peers_sign_same_state_witness:
  "stateUpdateForView demo_hash (sort_key eh_index) demo_params (demo_evm_channel True) (demo_evm_view True)
     = stateUpdateForView demo_hash (sort_key eh_index) demo_params (demo_evm_channel False) (demo_evm_view False) \<and>
   distinct_indices (demo_evm_view True)"
  using peers_sign_same_state [OF sort_slice_sort_key demo_mirrored] demo_mirrored(3) by blast

lemma demo_state: "\<exists>su. evmStateUpdateFromDiskCommit demo_hash (sort_key eh_index) demo_params (demo_evm_channel True)
    (toDiskCommit (demo_evm_view True)) = Some su"
proof -
  have "\<exists>lf. leaf demo_hash h = Some lf" if "eh_amount h < 2 ^ 256" for h
    using that by (rule leaf_total)
  moreover have "\<forall>h \<in> set (buildEvmHTLCs demo_params (demo_evm_view True) o1 t1). eh_amount h < 2 ^ 256" for o1 t1
    by (simp add: buildEvmHTLCs_def demo_evm_view_def evmHtlcOf_def demo_evm_pd_def toSatoshis_value
        evmScaleToBase_pos demo_params_def)
  ultimately have "\<forall>h \<in> set (buildEvmHTLCs demo_params (demo_evm_view True) o1 t1). \<exists>lf. leaf demo_hash h = Some lf" for o1 t1
    by blast
  then have "\<exists>leaves. those (map (leaf demo_hash) (sort_key eh_index
      (buildEvmHTLCs demo_params (demo_evm_view True) o1 t1))) = Some leaves" for o1 t1
    using those_total by (metis set_sort)
  then obtain leaves where "those (map (leaf demo_hash) (sort_key eh_index (buildEvmHTLCs demo_params (demo_evm_view True)
      (ch_ourAddr (demo_evm_channel True)) (ch_theirAddr (demo_evm_channel True))))) = Some leaves" by blast
  then show ?thesis
    unfolding disk_state_update stateUpdateForView_def buildEvmStateUpdate_def evmBalanceSplit_eq
    by (simp add: htlcsMerkleRoot_def sortedLeaves_def Let_def)
qed

theorem force_close_conserves_witness:
  "\<exists>su. evmAssertConservation demo_params (demo_evm_channel True) (toDiskCommit (demo_evm_view True)) su \<and>
     su_balanceB su + htlcTotal (evmHTLCsFromDiskCommit demo_params (demo_evm_channel True) (toDiskCommit (demo_evm_view True)))
       \<le> 100000"
proof -
  obtain su where su: "evmStateUpdateFromDiskCommit demo_hash (sort_key eh_index) demo_params (demo_evm_channel True)
    (toDiskCommit (demo_evm_view True)) = Some su" using demo_state by blast
  have "uint (bMsat (demo_evm_channel True) (demo_evm_view True)) +
      msatTotal (cm_outgoingHTLCs (demo_evm_view True) @ cm_incomingHTLCs (demo_evm_view True))
      \<le> 1000 * ch_capacity (demo_evm_channel True)"
    by (simp add: bMsat_def demo_evm_channel_def demo_evm_view_def msatTotal_def demo_evm_pd_def)
  moreover have "evmScaleToBase demo_params (ch_capacity (demo_evm_channel True)) = 100000"
    by (simp add: evmScaleToBase_pos demo_params_def demo_evm_channel_def)
  ultimately show ?thesis using force_close_conserves [OF su] by (intro exI [of _ su]) simp
qed

end
