(* ===== verification/Evm_Close.thy ===== *)
theory Evm_Close
  imports Evm_Commitment Channel_Run
begin

text \<open>
  Closing an EVM channel: the recovery byte of a retained signature (\<open>input/evm_signer.go\<close>), the
  contract calls of a force close, a penalty and a cooperative close (\<open>lnwallet/evm_commitment.go\<close>,
  \<open>input/evm_channel_tx.go\<close>), the marker in which the chain notifier reports a close event
  (\<open>chainntnfs/evmnotify\<close>) and what the chain watcher makes of it (\<open>contractcourt/evm_close.go\<close>).
  Public key recovery and DER parsing are third-party and parameters; a contract call is kept as a
  value, not as the JSON text of the carrier transaction.
\<close>

section \<open>Signatures\<close>

text \<open>\<open>recover compact digest\<close> is the uncompressed public key \<open>RecoverCompact\<close> returns.\<close>

type_synonym recover_fn = "byte list \<Rightarrow> byte list \<Rightarrow> byte list option"

definition evmAddressFromPubKey :: "hash_fn \<Rightarrow> byte list \<Rightarrow> byte list" where
  "evmAddressFromPubKey keccak uncompressed = take 20 (drop 12 (keccak (tl uncompressed)))"

datatype sig_error = SigLength nat | NoRecoveryId | ConservationViolated | StateEncodingPanic | BadDerSig

fun tryRecoveryIds ::
  "hash_fn \<Rightarrow> recover_fn \<Rightarrow> byte list \<Rightarrow> byte list \<Rightarrow> byte list \<Rightarrow> byte list \<Rightarrow> sig_error + byte list" where
  "tryRecoveryIds keccak recover rs digest expected [] = Inl NoRecoveryId"
| "tryRecoveryIds keccak recover rs digest expected (v # vs) =
     (case recover (v # rs) digest of
        None \<Rightarrow> tryRecoveryIds keccak recover rs digest expected vs
      | Some pub \<Rightarrow>
          if evmAddressFromPubKey keccak pub = expected then Inr (rs @ [v])
          else tryRecoveryIds keccak recover rs digest expected vs)"

definition recoverEvmSigV ::
  "hash_fn \<Rightarrow> recover_fn \<Rightarrow> byte list \<Rightarrow> byte list \<Rightarrow> byte list \<Rightarrow> sig_error + byte list" where
  "recoverEvmSigV keccak recover rs digest expected =
     (if length rs \<noteq> 64 then Inl (SigLength (length rs))
      else tryRecoveryIds keccak recover rs digest expected [27, 28])"

definition verifyOpenChannelSig ::
  "hash_fn \<Rightarrow> recover_fn \<Rightarrow> byte list \<Rightarrow> byte list \<Rightarrow> byte list \<Rightarrow> bool" where
  "verifyOpenChannelSig keccak recover sig digest expected =
     (if length sig \<noteq> 65 then False
      else case recover (sig ! 64 # take 64 sig) digest of
        None \<Rightarrow> False
      | Some pub \<Rightarrow> evmAddressFromPubKey keccak pub = expected)"

section \<open>Contract calls\<close>

datatype evm_call =
    EvmCallForceClose u64 int int "byte list" "byte list"
  | EvmCallPenalize u64 int int "byte list" "byte list"
  | EvmCallChannelClose u64 int int "byte list" "byte list"
  | EvmCallClaimHtlc evm_htlc "byte list list" "byte list"
  | EvmCallTimeoutHtlc evm_htlc "byte list list"
  | EvmCallDistributeFunds

text \<open>
  The settings a close needs: the signing domain, the hash, the sort, key recovery, and the parser of
  DER signatures into 64 bytes.
\<close>

record evm_env =
  ee_keccak :: hash_fn
  ee_sort :: sort_fn
  ee_recover :: recover_fn
  ee_derToRS64 :: "byte list \<Rightarrow> byte list option"
  ee_params :: evm_params
  ee_domain :: evm_domain

definition evmRetainedSig65 ::
  "evm_env \<Rightarrow> evm_channel \<Rightarrow> disk_commitment \<Rightarrow> byte list \<Rightarrow> sig_error + byte list" where
  "evmRetainedSig65 env ch commit commitSig =
     (case evmStateUpdateFromDiskCommit (ee_keccak env) (ee_sort env) (ee_params env) ch commit of
        None \<Rightarrow> Inl StateEncodingPanic
      | Some su \<Rightarrow>
          (case stateUpdateDigest (ee_keccak env) (ee_domain env) su of
             None \<Rightarrow> Inl StateEncodingPanic
           | Some digest \<Rightarrow>
               (case ee_derToRS64 env commitSig of
                  None \<Rightarrow> Inl BadDerSig
                | Some rs \<Rightarrow> recoverEvmSigV (ee_keccak env) (ee_recover env) rs digest (ch_theirAddr ch))))"

definition evmLocalForceCloseCarrier ::
  "evm_env \<Rightarrow> evm_channel \<Rightarrow> disk_commitment \<Rightarrow> byte list \<Rightarrow> sig_error + evm_call" where
  "evmLocalForceCloseCarrier env ch commit commitSig =
     (case evmStateUpdateFromDiskCommit (ee_keccak env) (ee_sort env) (ee_params env) ch commit of
        None \<Rightarrow> Inl StateEncodingPanic
      | Some su \<Rightarrow>
          if \<not> evmAssertConservation (ee_params env) ch commit su then Inl ConservationViolated
          else case evmRetainedSig65 env ch commit commitSig of
            Inl e \<Rightarrow> Inl e
          | Inr sig65 \<Rightarrow>
              Inr (EvmCallForceClose (su_nonce su) (su_balanceA su) (su_balanceB su) (su_htlcsHash su) sig65))"

definition evmPenalizeTx ::
  "evm_env \<Rightarrow> evm_channel \<Rightarrow> disk_commitment \<Rightarrow> byte list \<Rightarrow> sig_error + evm_call" where
  "evmPenalizeTx env ch commit commitSig =
     (case evmStateUpdateFromDiskCommit (ee_keccak env) (ee_sort env) (ee_params env) ch commit of
        None \<Rightarrow> Inl StateEncodingPanic
      | Some su \<Rightarrow>
          (case evmRetainedSig65 env ch commit commitSig of
             Inl e \<Rightarrow> Inl e
           | Inr sig65 \<Rightarrow>
               Inr (EvmCallPenalize (su_nonce su) (su_balanceA su) (su_balanceB su) (su_htlcsHash su) sig65)))"

definition evmCoopCloseCarrier ::
  "evm_env \<Rightarrow> evm_channel \<Rightarrow> disk_commitment \<Rightarrow> byte list \<Rightarrow> byte list \<Rightarrow> sig_error + evm_call" where
  "evmCoopCloseCarrier env ch commit localRS remoteRS =
     (let cc = evmCoopClose (ee_params env) ch commit
      in case coopCloseDigest (ee_keccak env) (ee_domain env) cc of
           None \<Rightarrow> Inl StateEncodingPanic
         | Some digest \<Rightarrow>
             (case recoverEvmSigV (ee_keccak env) (ee_recover env) localRS digest (ch_ourAddr ch) of
                Inl e \<Rightarrow> Inl e
              | Inr ourSig \<Rightarrow>
                  (case recoverEvmSigV (ee_keccak env) (ee_recover env) remoteRS digest (ch_theirAddr ch) of
                     Inl e \<Rightarrow> Inl e
                   | Inr theirSig \<Rightarrow>
                       Inr (EvmCallChannelClose (ec_nonce cc) (ec_finalBalanceA cc) (ec_finalBalanceB cc)
                         (if ch_isInitiator ch then ourSig else theirSig)
                         (if ch_isInitiator ch then theirSig else ourSig)))))"

text \<open>The carrier of an HTLC resolution; \<open>evmDistributeFundsTx\<close> has no arguments.\<close>

definition resolutionCall :: "evm_resolution \<Rightarrow> evm_call" where
  "resolutionCall r =
     (case er_preimage r of
        Some preimage \<Rightarrow> EvmCallClaimHtlc (er_htlc r) (er_proof r) preimage
      | None \<Rightarrow> EvmCallTimeoutHtlc (er_htlc r) (er_proof r))"

section \<open>Close events\<close>

definition topicOf :: "hash_fn \<Rightarrow> string \<Rightarrow> byte list" where
  "topicOf keccak event = keccak (bytesOf event)"

definition TopicChannelClosed :: string where
  "TopicChannelClosed = ''ChannelClosed(bytes32,uint256,uint256)''"

definition TopicUnilateralCloseInitiated :: string where
  "TopicUnilateralCloseInitiated = ''UnilateralCloseInitiated(bytes32,address,uint256,uint256,uint256,uint256)''"

definition TopicHTLCClaimed :: string where
  "TopicHTLCClaimed = ''HTLCClaimed(bytes32,uint256,bytes32)''"

definition slice :: "nat \<Rightarrow> nat \<Rightarrow> byte list \<Rightarrow> byte list" where
  "slice i j bs = take (j - i) (drop i bs)"

text \<open>The marker output of \<open>buildSpendDetail\<close> for a log with topic 0 and its data.\<close>

definition spendMarker :: "hash_fn \<Rightarrow> byte list \<Rightarrow> byte list \<Rightarrow> byte list" where
  "spendMarker keccak topic0 data =
     (let payload = [0x6a, 0x45, 0x56, 0x4d, hd topic0]
      in if topic0 = topicOf keccak TopicHTLCClaimed \<and> 32 \<le> length data then payload @ take 32 data
         else if topic0 = topicOf keccak TopicUnilateralCloseInitiated \<and> 160 \<le> length data
         then payload @ slice 12 32 data @ slice 56 64 data @ slice 152 160 data
         else payload)"

text \<open>\<open>None\<close> stands for a missing transaction or one without outputs.\<close>

definition decodeEvmSpendMarker :: "byte list option \<Rightarrow> (byte \<times> byte list) option" where
  "decodeEvmSpendMarker pkScript =
     (case pkScript of
        None \<Rightarrow> None
      | Some pk \<Rightarrow>
          if length pk < 5 \<or> pk ! 0 \<noteq> 0x6a \<or> pk ! 1 \<noteq> 0x45 \<or> pk ! 2 \<noteq> 0x56 \<or> pk ! 3 \<noteq> 0x4d then None
          else Some (pk ! 4, drop 5 pk))"

datatype evm_dispatch =
    DispatchCooperativeClose
  | DispatchLocalForceClose u64 u64
  | DispatchBreach u64
  | DispatchRemoteForceClose u64 u64
  | MarkerTooShort nat
  | IgnoredTopic byte

definition handleEvmSpend :: "hash_fn \<Rightarrow> byte list \<Rightarrow> u64 \<Rightarrow> byte \<Rightarrow> byte list \<Rightarrow> evm_dispatch" where
  "handleEvmSpend keccak localAddr localHeight topicByte payload =
     (if topicByte = hd (topicOf keccak TopicChannelClosed) then DispatchCooperativeClose
      else if topicByte = hd (topicOf keccak TopicUnilateralCloseInitiated) then
        (if length payload < 28 then MarkerTooShort (length payload)
         else
           let broadcaster = take 20 payload;
               nonce = get_uint64 (slice 20 28 payload);
               challengeExpiry = (if 36 \<le> length payload then get_uint64 (slice 28 36 payload) else 0)
           in if broadcaster = localAddr then DispatchLocalForceClose nonce challengeExpiry
              else if nonce < localHeight then DispatchBreach nonce
              else DispatchRemoteForceClose nonce challengeExpiry)
      else IgnoredTopic topicByte)"

section \<open>Calls the contract accepts\<close>

text \<open>The check of the contract: the signature recovers the address for the digest of the state.\<close>

definition coSigned :: "evm_env \<Rightarrow> evm_state_update \<Rightarrow> byte list \<Rightarrow> byte list \<Rightarrow> bool" where
  "coSigned env su sig65 addr \<longleftrightarrow> length sig65 = 65 \<and> sig65 ! 64 \<in> {27, 28} \<and>
     (\<exists>digest pub. stateUpdateDigest (ee_keccak env) (ee_domain env) su = Some digest \<and>
        ee_recover env (sig65 ! 64 # take 64 sig65) digest = Some pub \<and>
        evmAddressFromPubKey (ee_keccak env) pub = addr)"

lemma tryRecoveryIds_Inr:
  "tryRecoveryIds keccak recover rs digest expected vs = Inr sig \<Longrightarrow>
     \<exists>v \<in> set vs. \<exists>pub. sig = rs @ [v] \<and> recover (v # rs) digest = Some pub \<and> evmAddressFromPubKey keccak pub = expected"
  by (induction vs) (auto split: option.splits if_splits)

lemma tryRecoveryIds_complete:
  "v \<in> set vs \<Longrightarrow> recover (v # rs) digest = Some pub \<Longrightarrow> evmAddressFromPubKey keccak pub = expected \<Longrightarrow>
     \<exists>sig. tryRecoveryIds keccak recover rs digest expected vs = Inr sig"
  by (induction vs) (auto split: option.splits)

lemma retained_coSigned:
  assumes "evmRetainedSig65 env ch commit commitSig = Inr sig65"
    "evmStateUpdateFromDiskCommit (ee_keccak env) (ee_sort env) (ee_params env) ch commit = Some su"
  shows "coSigned env su sig65 (ch_theirAddr ch)"
proof -
  obtain digest rs where d: "stateUpdateDigest (ee_keccak env) (ee_domain env) su = Some digest"
    and r: "recoverEvmSigV (ee_keccak env) (ee_recover env) rs digest (ch_theirAddr ch) = Inr sig65"
    using assms by (auto simp: evmRetainedSig65_def split: option.splits)
  have l: "length rs = 64" using r by (auto simp: recoverEvmSigV_def split: if_splits)
  then have "tryRecoveryIds (ee_keccak env) (ee_recover env) rs digest (ch_theirAddr ch) [27, 28] = Inr sig65"
    using r by (simp add: recoverEvmSigV_def del: tryRecoveryIds.simps)
  from tryRecoveryIds_Inr [OF this] obtain v pub where "v \<in> {27, 28}" "sig65 = rs @ [v]"
    "ee_recover env (v # rs) digest = Some pub" "evmAddressFromPubKey (ee_keccak env) pub = ch_theirAddr ch"
    by auto
  then show ?thesis using d l by (auto simp: coSigned_def nth_append)
qed

lemma penalty_is_built:
  assumes "evmStateUpdateFromDiskCommit (ee_keccak env) (ee_sort env) (ee_params env) ch commit = Some su"
    and "ee_derToRS64 env commitSig = Some rs" "length rs = 64"
    "stateUpdateDigest (ee_keccak env) (ee_domain env) su = Some digest" "v \<in> {27, 28}"
    "ee_recover env (v # rs) digest = Some pub" "evmAddressFromPubKey (ee_keccak env) pub = ch_theirAddr ch"
  shows "\<exists>call. evmPenalizeTx env ch commit commitSig = Inr call"
proof -
  have "\<exists>sig. tryRecoveryIds (ee_keccak env) (ee_recover env) rs digest (ch_theirAddr ch) [27, 28] = Inr sig"
    using tryRecoveryIds_complete [of v "[27, 28]"] assms(5-7) by auto
  then show ?thesis using assms by (auto simp: evmPenalizeTx_def evmRetainedSig65_def recoverEvmSigV_def)
qed

text \<open>
  C17: a force close or a penalty is only ever broadcast with a state the counterparty signed: the
  nonce, balances and HTLC root of the call are those of the persisted commitment, the signature
  recovers the counterparty's address for exactly that state, and a force close adds up to the escrow.
  A call is built whenever the retained signature recovers with one of the two legal recovery bytes.
\<close>

theorem close_calls_are_cosigned:
  assumes "evmStateUpdateFromDiskCommit (ee_keccak env) (ee_sort env) (ee_params env) ch commit = Some su"
  shows "(\<forall>call. evmLocalForceCloseCarrier env ch commit commitSig = Inr call \<longrightarrow>
      (\<exists>sig65. call = EvmCallForceClose (su_nonce su) (su_balanceA su) (su_balanceB su) (su_htlcsHash su) sig65 \<and>
         coSigned env su sig65 (ch_theirAddr ch) \<and> evmAssertConservation (ee_params env) ch commit su)) \<and>
    (\<forall>call. evmPenalizeTx env ch commit commitSig = Inr call \<longrightarrow>
      (\<exists>sig65. call = EvmCallPenalize (su_nonce su) (su_balanceA su) (su_balanceB su) (su_htlcsHash su) sig65 \<and>
         coSigned env su sig65 (ch_theirAddr ch))) \<and>
    (\<forall>rs digest v pub. ee_derToRS64 env commitSig = Some rs \<and> length rs = 64 \<and>
         stateUpdateDigest (ee_keccak env) (ee_domain env) su = Some digest \<and> v \<in> {27, 28} \<and>
         ee_recover env (v # rs) digest = Some pub \<and> evmAddressFromPubKey (ee_keccak env) pub = ch_theirAddr ch
      \<longrightarrow> (\<exists>call. evmPenalizeTx env ch commit commitSig = Inr call))"
proof (intro conjI allI impI)
  fix call
  assume "evmLocalForceCloseCarrier env ch commit commitSig = Inr call"
  then show "\<exists>sig65. call = EvmCallForceClose (su_nonce su) (su_balanceA su) (su_balanceB su) (su_htlcsHash su) sig65 \<and>
         coSigned env su sig65 (ch_theirAddr ch) \<and> evmAssertConservation (ee_params env) ch commit su"
    using assms retained_coSigned [OF _ assms]
    by (cases "evmRetainedSig65 env ch commit commitSig") (auto simp: evmLocalForceCloseCarrier_def split: if_splits)
next
  fix call
  assume "evmPenalizeTx env ch commit commitSig = Inr call"
  then show "\<exists>sig65. call = EvmCallPenalize (su_nonce su) (su_balanceA su) (su_balanceB su) (su_htlcsHash su) sig65 \<and>
         coSigned env su sig65 (ch_theirAddr ch)"
    using assms retained_coSigned [OF _ assms]
    by (cases "evmRetainedSig65 env ch commit commitSig") (auto simp: evmPenalizeTx_def)
next
  fix rs digest v pub
  assume "ee_derToRS64 env commitSig = Some rs \<and> length rs = 64 \<and>
         stateUpdateDigest (ee_keccak env) (ee_domain env) su = Some digest \<and> v \<in> {27, 28} \<and>
         ee_recover env (v # rs) digest = Some pub \<and> evmAddressFromPubKey (ee_keccak env) pub = ch_theirAddr ch"
  then show "\<exists>call. evmPenalizeTx env ch commit commitSig = Inr call" using penalty_is_built [OF assms] by blast
qed

section \<open>Recognising a unilateral close\<close>

text \<open>The data of the contract's \<open>UnilateralCloseInitiated\<close> event, ABI-encoded.\<close>

definition unilateralCloseData :: "byte list \<Rightarrow> u64 \<Rightarrow> byte list \<Rightarrow> byte list \<Rightarrow> u64 \<Rightarrow> byte list" where
  "unilateralCloseData broadcaster nonce balA balB expiry =
     encodeAddress broadcaster @ be_bytes 32 (unat nonce) @ balA @ balB @ be_bytes 32 (unat expiry)"

lemma be_bytes_add: "be_bytes (m + n) v = be_bytes m (v div 256 ^ n) @ be_bytes n v"
  by (induction n arbitrary: v) (simp_all add: div_mult2_eq)

lemma byte_of_word: "(word_of_nat (unat w div 2 ^ n) :: byte) = ucast (drop_bit n (w :: u64))"
  by (simp add: word_unat_eq_iff unsigned_of_nat unsigned_ucast_eq unat_drop_bit_eq flip: drop_bit_eq_div)

lemma be_bytes_8:
  "be_bytes 8 v = map (\<lambda>n. word_of_nat (v div 2 ^ n)) [56, 48, 40, 32, 24, 16, 8, 0]"
proof -
  have "be_bytes (Suc (Suc (Suc (Suc (Suc (Suc (Suc (Suc 0)))))))) v
      = map (\<lambda>n. word_of_nat (v div 2 ^ n)) [56, 48, 40, 32, 24, 16, 8, 0]"
    by (simp add: div_mult2_eq [symmetric])
  then show ?thesis by (simp only: numeral_eq_Suc pred_numeral_simps BitM.simps)
qed

lemma be_bytes_word: "be_bytes 8 (unat w) = put_uint64 w"
  unfolding be_bytes_8 list.map byte_of_word by (simp add: put_uint64_def)

lemma encoded_tail: "drop 24 (be_bytes 32 (unat (w :: u64))) = put_uint64 w"
  using be_bytes_add [of 24 8 "unat w"] by (simp add: be_bytes_word)

lemma slice_word: "slice 24 32 (be_bytes 32 (unat (w :: u64))) = put_uint64 w"
  by (simp add: slice_def encoded_tail)

lemma slice_append:
  "length xs \<le> i \<Longrightarrow> slice i j (xs @ ys) = slice (i - length xs) (j - length xs) ys"
  "j \<le> length xs \<Longrightarrow> slice i j (xs @ ys) = slice i j xs"
  by (simp_all add: slice_def)

text \<open>
  The chain watcher reads a unilateral close as the contract reported it. Through the notifier's
  marker it gets back the broadcaster, the nonce and the challenge deadline, takes the close for its
  own exactly if the broadcaster is its own address, and for a breach exactly if the nonce is below
  that of the last state it holds the peer's signature for.
\<close>

theorem unilateral_close_recognised:
  assumes "length (topicOf keccak TopicUnilateralCloseInitiated) = 32"
    "topicOf keccak TopicUnilateralCloseInitiated \<noteq> topicOf keccak TopicHTLCClaimed"
    "hd (topicOf keccak TopicUnilateralCloseInitiated) \<noteq> hd (topicOf keccak TopicChannelClosed)"
    and "length broadcaster = 20" "length balA = 32" "length balB = 32"
  shows "\<exists>payload. decodeEvmSpendMarker (Some (spendMarker keccak (topicOf keccak TopicUnilateralCloseInitiated)
        (unilateralCloseData broadcaster nonce balA balB expiry)))
      = Some (hd (topicOf keccak TopicUnilateralCloseInitiated), payload) \<and>
    handleEvmSpend keccak localAddr localHeight (hd (topicOf keccak TopicUnilateralCloseInitiated)) payload =
      (if broadcaster = localAddr then DispatchLocalForceClose nonce expiry
       else if nonce < localHeight then DispatchBreach nonce
       else DispatchRemoteForceClose nonce expiry)"
proof -
  let ?d = "unilateralCloseData broadcaster nonce balA balB expiry"
  have l: "length ?d = 160" using assms(4-6) by (simp add: unilateralCloseData_def)
  have "slice 12 32 ?d = broadcaster"
    using assms(4) by (simp add: unilateralCloseData_def slice_append slice_def encodeAddress_def)
  moreover have "slice 56 64 ?d = put_uint64 nonce"
    using assms(4) by (simp add: unilateralCloseData_def slice_append slice_word)
  moreover have "slice 152 160 ?d = put_uint64 expiry"
    using assms(4-6) by (simp add: unilateralCloseData_def slice_append slice_word [of expiry, unfolded slice_def]
        slice_def encoded_tail)
  ultimately have m: "spendMarker keccak (topicOf keccak TopicUnilateralCloseInitiated) ?d =
      [0x6a, 0x45, 0x56, 0x4d, hd (topicOf keccak TopicUnilateralCloseInitiated)] @
      broadcaster @ put_uint64 nonce @ put_uint64 expiry"
    using assms(2) l by (simp add: spendMarker_def)
  have "slice 20 28 (broadcaster @ put_uint64 nonce @ put_uint64 expiry) = put_uint64 nonce"
    "slice 28 36 (broadcaster @ put_uint64 nonce @ put_uint64 expiry) = put_uint64 expiry"
    using assms(4) by (simp_all add: slice_append) (simp_all add: slice_def)
  then show ?thesis
    using assms(3,4) get_put_uint64 [of nonce "[]"] get_put_uint64 [of expiry "[]"]
    unfolding m by (simp add: decodeEvmSpendMarker_def handleEvmSpend_def Let_def)
qed

text \<open>
  The nonce is the height of the commitment of one side, and the two sides advance separately. After
  we have revoked a commitment, our height is one ahead of the only commitment the peer has, until
  we sign that one anew; if the peer closes in between, with its latest and unrevoked state, the
  watcher takes it for a breach and has the contract award us everything.
\<close>

lemma next_height: "h < - 1 \<Longrightarrow> h < h + 1" for h :: u64
  by unat_arith

lemma honest_close_is_penalized:
  assumes "chainOf lc Remote = [r]" "chainOf lc Local = [c]" "cm_height c = cm_height r"
    "lc_currentHeight lc = cm_height c" "cm_height c < - 1"
    and "receiveNewCommitment env lc sig = (lc1, None)"
    and "revokeCurrentCommitment env lc1 = (lc2, Inr (msg, htlcs, final))"
  shows "chainOf lc2 Remote = [r]"
    "hd (topicOf keccak TopicUnilateralCloseInitiated) \<noteq> hd (topicOf keccak TopicChannelClosed) \<Longrightarrow>
     length broadcaster = 20 \<Longrightarrow> broadcaster \<noteq> localAddr \<Longrightarrow>
     handleEvmSpend keccak localAddr (dc_commitHeight (lc_localCommitment lc2))
       (hd (topicOf keccak TopicUnilateralCloseInitiated)) (broadcaster @ put_uint64 (cm_height r) @ put_uint64 expiry)
     = DispatchBreach (cm_height r)"
proof -
  obtain lca lcb n where f: "validateCommitmentSanity lc (ul_logIndex (logOf lc Remote))
      (msgIndex (tail (chainOf lc Remote)) Local) Local NoBuffer None None = (lca, None)"
    "fetchCommitmentView env lca Local (msgIndex (tail (chainOf lc Remote)) Local) (cm_ourHtlcIndex (tail (chainOf lc Remote)))
      (ul_logIndex (logOf lc Remote)) (ul_htlcCounter (logOf lc Remote)) = (lcb, Inr n)"
    "lc1 = extendChain lcb Local n"
    by (rule receiveNewCommitment_cases [OF assms(6)]) (rule that, assumption+)
  have ch: "lc_chains lcb = lc_chains lc"
    using fetchCommitmentView_frame(3) [OF f(2)] dry_fields(2) [OF validateCommitmentSanity_dry [OF f(1)]]
    by (simp add: chain_frame_def)
  have h: "cm_height n = cm_height c + 1"
    using dry_fields(2) [OF validateCommitmentSanity_dry [OF f(1)]] assms(2)
    by (cases rule: fetchCommitmentView_cases [OF f(2)]) (simp add: tip_def del: getForParty.simps)
  have l1: "chainOf lc1 Local = [c, n]" "chainOf lc1 Remote = [r]"
    using f(3) ch assms(1,2) by (simp_all add: addCommitment_def del: getForParty.simps)
  obtain db where l2: "lc2 = (dropTail lc1 Local)\<lparr>lc_currentHeight := lc_currentHeight lc1 + 1, lc_db := db,
        lc_localCommitment := toDiskCommit (tail (tl (chainOf lc1 Local)))\<rparr>"
    by (rule revokeCurrentCommitment_cases [OF assms(7)])
  show "chainOf lc2 Remote = [r]" using l1(2) by (simp add: l2 del: getForParty.simps)
  have "dc_commitHeight (lc_localCommitment lc2) = cm_height r + 1"
    using l1(1) h assms(3) by (simp add: l2 toDiskCommit_def tail_def del: getForParty.simps)
  moreover have "cm_height r < cm_height r + 1"
    using assms(3,5) next_height by simp
  moreover have "slice 20 28 (broadcaster @ put_uint64 (cm_height r) @ put_uint64 expiry) = put_uint64 (cm_height r)"
    if "length broadcaster = 20" using that by (simp add: slice_append) (simp add: slice_def)
  ultimately show "hd (topicOf keccak TopicUnilateralCloseInitiated) \<noteq> hd (topicOf keccak TopicChannelClosed) \<Longrightarrow>
     length broadcaster = 20 \<Longrightarrow> broadcaster \<noteq> localAddr \<Longrightarrow>
     handleEvmSpend keccak localAddr (dc_commitHeight (lc_localCommitment lc2))
       (hd (topicOf keccak TopicUnilateralCloseInitiated)) (broadcaster @ put_uint64 (cm_height r) @ put_uint64 expiry)
     = DispatchBreach (cm_height r)"
    using get_put_uint64 [of "cm_height r" "[]"] by (simp add: handleEvmSpend_def Let_def)
qed

section \<open>Examples\<close>

definition demo_evm_env :: evm_env where
  "demo_evm_env = \<lparr>ee_keccak = demo_hash, ee_sort = sort_key eh_index,
     ee_recover = (\<lambda>compact digest. if hd compact = 28 then Some (4 # replicate 64 2) else None),
     ee_derToRS64 = (\<lambda>der. Some (replicate 64 1)), ee_params = demo_params,
     ee_domain = \<lparr>ed_chainID = 1, ed_verifyingContract = replicate 20 7\<rparr>\<rparr>"

lemma demo_digest:
  assumes "su_balanceA su < 2 ^ 256" "su_balanceB su < 2 ^ 256"
  shows "\<exists>digest. stateUpdateDigest keccak d su = Some digest"
proof -
  obtain n a b c where "encodeUint256 (bigOfUint64 (su_nonce su)) = Some n" "encodeUint256 (su_balanceA su) = Some a"
    "encodeUint256 (su_balanceB su) = Some b" "encodeUint256 (bigOfUint64 (ed_chainID d)) = Some c"
    using assms encodeUint256_word by (metis encodeUint256_def)
  then show ?thesis by (simp add: stateUpdateDigest_def stateUpdateBytes_def separator_def separatorBytes_def)
qed

lemma demo_evm_signed:
  obtains su digest where "evmStateUpdateFromDiskCommit (ee_keccak demo_evm_env) (ee_sort demo_evm_env)
      (ee_params demo_evm_env) (demo_evm_channel True) (toDiskCommit (demo_evm_view True)) = Some su"
    "ee_derToRS64 demo_evm_env [] = Some (replicate 64 1)" "length (replicate 64 (1 :: byte)) = 64"
    "stateUpdateDigest (ee_keccak demo_evm_env) (ee_domain demo_evm_env) su = Some digest" "(28 :: byte) \<in> {27, 28}"
    "ee_recover demo_evm_env (28 # replicate 64 1) digest = Some (4 # replicate 64 2)"
    "evmAddressFromPubKey (ee_keccak demo_evm_env) (4 # replicate 64 2) = ch_theirAddr (demo_evm_channel True)"
proof -
  let ?htlcs = "evmHTLCsFromDiskCommit demo_params (demo_evm_channel True) (toDiskCommit (demo_evm_view True))"
  obtain su where su: "evmStateUpdateFromDiskCommit demo_hash (sort_key eh_index) demo_params (demo_evm_channel True)
    (toDiskCommit (demo_evm_view True)) = Some su" using demo_state by blast
  note c = state_update_cases [OF su]
  have "evmScaleToBase demo_params (ch_capacity (demo_evm_channel True)) = 100000"
    by (simp add: evmScaleToBase_pos demo_params_def demo_evm_channel_def)
  moreover have "su_balanceB su = 47000"
    unfolding c(1)
    by (simp add: bMsat_def demo_evm_channel_def demo_evm_view_def toSatoshis_value evmScaleToBase_pos demo_params_def)
  moreover have "0 \<le> htlcTotal ?htlcs"
    unfolding disk_htlcs htlcTotal_def by (rule sum_list_nonneg) (auto simp: buildEvmHTLCs_def evmHtlcOf_def)
  ultimately have "su_balanceA su < 2 ^ 256" "su_balanceB su < 2 ^ 256" using c(2) by auto
  from demo_digest [OF this] obtain digest where "stateUpdateDigest demo_hash (ee_domain demo_evm_env) su = Some digest"
    by blast
  then show ?thesis
    using su by (intro that [of su digest])
      (simp_all add: demo_evm_env_def evmAddressFromPubKey_def demo_hash_def demo_evm_channel_def)
qed

lemma demo_penalty:
  "\<exists>call. evmPenalizeTx demo_evm_env (demo_evm_channel True) (toDiskCommit (demo_evm_view True)) [] = Inr call"
  by (rule demo_evm_signed) (rule penalty_is_built)

theorem close_calls_are_cosigned_witness:
  "\<exists>su nonce balA balB root sig65. evmPenalizeTx demo_evm_env (demo_evm_channel True) (toDiskCommit (demo_evm_view True)) []
       = Inr (EvmCallPenalize nonce balA balB root sig65) \<and>
     coSigned demo_evm_env su sig65 (replicate 20 2)"
proof -
  obtain su where su: "evmStateUpdateFromDiskCommit (ee_keccak demo_evm_env) (ee_sort demo_evm_env) (ee_params demo_evm_env)
      (demo_evm_channel True) (toDiskCommit (demo_evm_view True)) = Some su" by (rule demo_evm_signed)
  have "ch_theirAddr (demo_evm_channel True) = replicate 20 2" by (simp add: demo_evm_channel_def)
  then show ?thesis
    using close_calls_are_cosigned [OF su, of "[]", THEN conjunct2, THEN conjunct1] demo_penalty by metis
qed

definition len_hash :: hash_fn where
  "len_hash x = word_of_nat (length x) # replicate 31 0"

theorem unilateral_close_recognised_witness:
  "\<exists>payload. handleEvmSpend len_hash (replicate 20 1) 6 (hd (topicOf len_hash TopicUnilateralCloseInitiated)) payload
     = DispatchBreach 5"
proof -
  have t: "length (topicOf len_hash TopicUnilateralCloseInitiated) = 32"
    "topicOf len_hash TopicUnilateralCloseInitiated \<noteq> topicOf len_hash TopicHTLCClaimed"
    "hd (topicOf len_hash TopicUnilateralCloseInitiated) \<noteq> hd (topicOf len_hash TopicChannelClosed)"
    by (simp_all add: topicOf_def len_hash_def bytesOf_def TopicUnilateralCloseInitiated_def
        TopicHTLCClaimed_def TopicChannelClosed_def)
  show ?thesis
    using unilateral_close_recognised [OF t, of "replicate 20 2" "replicate 32 0" "replicate 32 0" 5 900 "replicate 20 1" 6]
    by auto
qed

end
