(* ===== verification/Evm_Settler.thy ===== *)
theory Evm_Settler
  imports Evm_Close
begin

text \<open>
  Settling a unilaterally closed channel (\<open>src/contractcourt/evm_settler.go\<close>): the loop \<open>evmSettle\<close>
  that claims incoming HTLCs whose preimage is known, times out expired outgoing ones, and has the
  contract distribute the funds once nothing is pending and the challenge window has passed.

  The state is the record \<open>settler\<close>, the variables of the loop. One iteration is one event of the
  \<open>select\<close>: a block epoch, the closed epoch stream, shutdown, or a tick. A tick carries what the
  outside answers during it: the status query, the preimages, which broadcasts are accepted, the
  order in which Go iterates over the map of pending HTLCs (any order), and the clock.
\<close>

type_synonym i64 = "64 word"

definition evmDistributeAttempts :: nat where
  "evmDistributeAttempts = 3"

definition evmDistributeRetryDelay :: int where
  "evmDistributeRetryDelay = 15"

record settler =
  st_pending :: "u64 \<rightharpoonup> disk_htlc"
  st_bestHeight :: u32
  st_chainTime :: i64
  st_distributeAttempts :: nat
  st_nextDistributeAfter :: int
  st_running :: bool

text \<open>The part of the arguments that stays the same: the commitment that was broadcast and its deadline.\<close>

record settle_cfg =
  sc_env :: evm_env
  sc_channel :: evm_channel
  sc_commit :: disk_commitment
  sc_challengeExpiry :: u64

definition evmSettle :: "settle_cfg \<Rightarrow> settler" where
  "evmSettle cfg = \<lparr>st_pending = foldl (\<lambda>m h. m(dh_htlcIndex h \<mapsto> h)) Map.empty (dc_htlcs (sc_commit cfg)),
     st_bestHeight = 0, st_chainTime = 0, st_distributeAttempts = 0, st_nextDistributeAfter = 0, st_running = True\<rparr>"

datatype channel_status = StatusQueryFailed | ChannelStatusClosed | ChannelStatusOther

text \<open>
  The witness cache and the invoice registry may be missing; a failed invoice lookup and an invoice
  without preimage are the same to the code.
\<close>

record settle_tick =
  tk_status :: "channel_status option"
  tk_preimageDB :: "(byte list \<rightharpoonup> byte list) option"
  tk_registry :: "(byte list \<rightharpoonup> byte list option) option"
  tk_publish :: "evm_call \<Rightarrow> bool"
  tk_order :: "u64 list"
  tk_now :: int

datatype settle_event = EpochsClosed | Epoch u32 "i64 option" | SettlerQuit | Tick settle_tick

definition lookupEvmPreimage :: "settle_tick \<Rightarrow> byte list \<Rightarrow> byte list option" where
  "lookupEvmPreimage tk hash =
     (case Option.bind (tk_preimageDB tk) (\<lambda>db. db hash) of
        Some pre \<Rightarrow> Some pre
      | None \<Rightarrow>
          (case tk_registry tk of
             None \<Rightarrow> None
           | Some reg \<Rightarrow> (case reg hash of Some (Some pre) \<Rightarrow> Some pre | _ \<Rightarrow> None)))"

text \<open>The result of \<open>publishEvmHtlc\<close> and the calls handed to the network; \<open>None\<close> is a panic of the encoding.\<close>

definition publishEvmHtlc ::
  "settle_cfg \<Rightarrow> settle_tick \<Rightarrow> u64 \<Rightarrow> byte list option \<Rightarrow> (bool \<times> evm_call list) option" where
  "publishEvmHtlc cfg tk htlcIndex preimage =
     (case evmHtlcResolutionTx (ee_keccak (sc_env cfg)) (ee_sort (sc_env cfg)) (ee_params (sc_env cfg))
             (sc_channel cfg) (sc_commit cfg) htlcIndex preimage of
        Inl EncodingPanic \<Rightarrow> None
      | Inl (NoSuchHtlc _) \<Rightarrow> Some (True, [])
      | Inr r \<Rightarrow> Some (tk_publish tk (resolutionCall r), [resolutionCall r]))"

definition resolvePending ::
  "settle_cfg \<Rightarrow> settle_tick \<Rightarrow> u64 \<Rightarrow> settler \<times> evm_call list \<Rightarrow> settler \<times> evm_call list" where
  "resolvePending cfg tk idx = (\<lambda>(s, calls).
     let publish = (\<lambda>preimage.
           case publishEvmHtlc cfg tk idx preimage of
             None \<Rightarrow> (s\<lparr>st_running := False\<rparr>, calls)
           | Some (ok, cs) \<Rightarrow> (if ok then s\<lparr>st_pending := (st_pending s)(idx := None)\<rparr> else s, calls @ cs))
     in if \<not> st_running s then (s, calls)
        else case st_pending s idx of
          None \<Rightarrow> (s, calls)
        | Some h \<Rightarrow>
            if dh_incoming h then
              (case lookupEvmPreimage tk (dh_rHash h) of
                 None \<Rightarrow> (s, calls)
               | Some preimage \<Rightarrow> publish (Some preimage))
            else if dh_refundTimeout h \<le> st_bestHeight s then publish None
            else (s, calls))"

definition finalise :: "settle_cfg \<Rightarrow> settle_tick \<Rightarrow> settler \<times> evm_call list \<Rightarrow> settler \<times> evm_call list" where
  "finalise cfg tk = (\<lambda>(s, calls).
     if \<not> st_running s then (s, calls)
     else if st_pending s \<noteq> Map.empty \<or> sc_challengeExpiry cfg = 0 \<or> evmDistributeAttempts \<le> st_distributeAttempts s then
       (if st_pending s = Map.empty \<and> evmDistributeAttempts \<le> st_distributeAttempts s
        then (s\<lparr>st_running := False\<rparr>, calls) else (s, calls))
     else if sint (st_chainTime s) < sint (sc_challengeExpiry cfg + 1) then (s, calls)
     else if tk_now tk < st_nextDistributeAfter s then (s, calls)
     else (s\<lparr>st_distributeAttempts := st_distributeAttempts s + 1,
             st_nextDistributeAfter := tk_now tk + evmDistributeRetryDelay\<rparr>,
           calls @ [EvmCallDistributeFunds]))"

definition settleStep :: "settle_cfg \<Rightarrow> settler \<Rightarrow> settle_event \<Rightarrow> settler \<times> evm_call list" where
  "settleStep cfg s ev =
     (if \<not> st_running s then (s, [])
      else case ev of
        EpochsClosed \<Rightarrow> (s\<lparr>st_running := False\<rparr>, [])
      | Epoch height timestamp \<Rightarrow>
          (s\<lparr>st_bestHeight := height, st_chainTime := (case timestamp of None \<Rightarrow> st_chainTime s | Some t \<Rightarrow> t)\<rparr>, [])
      | SettlerQuit \<Rightarrow> (s\<lparr>st_running := False\<rparr>, [])
      | Tick tk \<Rightarrow>
          if tk_status tk = Some ChannelStatusClosed then (s\<lparr>st_running := False\<rparr>, [])
          else finalise cfg tk (fold (resolvePending cfg tk) (tk_order tk) (s, [])))"

text \<open>The iterations of a run, each with the state before it, the event and the calls it makes.\<close>

fun settleRun :: "settle_cfg \<Rightarrow> settler \<Rightarrow> settle_event list \<Rightarrow> (settler \<times> settle_event \<times> evm_call list) list" where
  "settleRun cfg s [] = []"
| "settleRun cfg s (ev # evs) = (s, ev, snd (settleStep cfg s ev)) # settleRun cfg (fst (settleStep cfg s ev)) evs"

section \<open>The calls\<close>

text \<open>The HTLC of a call, as the contract checks it: a leaf of the state, with a proof, for one of our HTLCs.\<close>

definition provenHtlc :: "settle_cfg \<Rightarrow> evm_state_update \<Rightarrow> disk_htlc \<Rightarrow> evm_htlc \<Rightarrow> byte list list \<Rightarrow> bool" where
  "provenHtlc cfg su h target path \<longleftrightarrow> h \<in> set (dc_htlcs (sc_commit cfg)) \<and>
     eh_index target = dh_htlcIndex h \<and> eh_hashlock target = dh_rHash h \<and>
     eh_recipient target = (if dh_incoming h then ch_ourAddr (sc_channel cfg) else ch_theirAddr (sc_channel cfg)) \<and>
     (\<exists>lf. leaf (ee_keccak (sc_env cfg)) target = Some lf \<and>
        verifyHtlcMerkleProof (ee_keccak (sc_env cfg)) path (su_htlcsHash su) lf)"

definition stateOf :: "settle_cfg \<Rightarrow> evm_state_update option" where
  "stateOf cfg = evmStateUpdateFromDiskCommit (ee_keccak (sc_env cfg)) (ee_sort (sc_env cfg)) (ee_params (sc_env cfg))
     (sc_channel cfg) (sc_commit cfg)"

definition settle_ok :: "settle_cfg \<Rightarrow> evm_state_update \<Rightarrow> bool" where
  "settle_ok cfg su \<longleftrightarrow> sort_slice (ee_sort (sc_env cfg)) \<and>
     distinct (map dh_htlcIndex (dc_htlcs (sc_commit cfg))) \<and> stateOf cfg = Some su"

lemma find_distinct:
  "distinct (map f xs) \<Longrightarrow> x \<in> set xs \<Longrightarrow> List.find (\<lambda>y. f y = f x) xs = Some x"
  by (induction xs) (auto simp: rev_image_eqI)

lemma resolution_of_pending:
  assumes "settle_ok cfg su" "h \<in> set (dc_htlcs (sc_commit cfg))"
  obtains target path where "provenHtlc cfg su h target path"
    "publishEvmHtlc cfg tk (dh_htlcIndex h) None =
       Some (tk_publish tk (EvmCallTimeoutHtlc target path), [EvmCallTimeoutHtlc target path])"
    "\<And>pre. publishEvmHtlc cfg tk (dh_htlcIndex h) (Some pre) =
       Some (tk_publish tk (EvmCallClaimHtlc target path pre), [EvmCallClaimHtlc target path pre])"
proof -
  let ?e = "sc_env cfg" and ?ch = "sc_channel cfg"
  let ?hs = "evmHTLCsFromDiskCommit (ee_params ?e) ?ch (sc_commit cfg)"
  let ?t = "\<lparr>eh_index = dh_htlcIndex h, eh_amount = evmScaleToBase (ee_params ?e) (toSatoshis (dh_amt h)),
    eh_hashlock = dh_rHash h, eh_timelock = evmHtlcTimelock (ee_params ?e) (dh_refundTimeout h),
    eh_recipient = (if dh_incoming h then ch_ourAddr ?ch else ch_theirAddr ?ch)\<rparr>"
  have t: "?t \<in> set ?hs" using assms(2) by (auto simp: evmHTLCsFromDiskCommit_def)
  have "map eh_index ?hs = map dh_htlcIndex (dc_htlcs (sc_commit cfg))"
    by (simp add: evmHTLCsFromDiskCommit_def)
  then have d: "distinct (map eh_index ?hs)" using assms(1) by (simp add: settle_ok_def)
  have r: "htlcsMerkleRoot (ee_keccak ?e) (ee_sort ?e) ?hs = Some (su_htlcsHash su)"
    using assms(1) by (auto simp: settle_ok_def stateOf_def evmStateUpdateFromDiskCommit_def Let_def split: bind_splits prod.splits)
  have srt: "sort_slice (ee_sort ?e)" using assms(1) by (simp add: settle_ok_def)
  obtain path lf where p: "htlcMerkleProof (ee_keccak ?e) (ee_sort ?e) ?hs (dh_htlcIndex h) = Some (Some path)"
    "leaf (ee_keccak ?e) ?t = Some lf" "verifyHtlcMerkleProof (ee_keccak ?e) path (su_htlcsHash su) lf"
    by (rule proof_of_position [OF srt d r t]) (rule that, simp_all del: if_split)
  have f: "List.find (\<lambda>x. eh_index x = dh_htlcIndex h) ?hs = Some ?t" using find_distinct [OF d t] by simp
  have x: "evmHtlcResolutionTx (ee_keccak ?e) (ee_sort ?e) (ee_params ?e) ?ch (sc_commit cfg) (dh_htlcIndex h) pre
      = Inr \<lparr>er_channelID = ch_channelID ?ch, er_htlc = ?t, er_proof = path, er_preimage = pre\<rparr>" for pre
    unfolding evmHtlcResolutionTx_def evmHtlcResolutionOf_def p(1) f by simp
  show ?thesis
    by (rule that [of ?t path])
      (use assms(2) p(2,3) in \<open>auto simp: provenHtlc_def publishEvmHtlc_def x resolutionCall_def\<close>)
qed

text \<open>Pending HTLCs are HTLCs of the commitment, under their index.\<close>

definition pending_ok :: "settle_cfg \<Rightarrow> settler \<Rightarrow> bool" where
  "pending_ok cfg s \<longleftrightarrow> (\<forall>i h. st_pending s i = Some h \<longrightarrow> h \<in> set (dc_htlcs (sc_commit cfg)) \<and> dh_htlcIndex h = i)"

lemma pending_map:
  "foldl (\<lambda>m h. m(dh_htlcIndex h \<mapsto> h)) m hs i = Some h \<Longrightarrow> (h \<in> set hs \<and> dh_htlcIndex h = i) \<or> m i = Some h"
  by (induction hs arbitrary: m) (fastforce split: if_splits)+

lemma pending_ok_init: "pending_ok cfg (evmSettle cfg)"
  using pending_map [of Map.empty] by (fastforce simp: pending_ok_def evmSettle_def)

text \<open>What a call of one tick must look like, given the height the settler knows.\<close>

definition due :: "settle_cfg \<Rightarrow> evm_state_update \<Rightarrow> settle_tick \<Rightarrow> u32 \<Rightarrow> evm_call \<Rightarrow> bool" where
  "due cfg su tk height call \<longleftrightarrow>
     (\<exists>h target path. provenHtlc cfg su h target path \<and>
        ((\<exists>pre. call = EvmCallClaimHtlc target path pre \<and> dh_incoming h \<and> lookupEvmPreimage tk (dh_rHash h) = Some pre) \<or>
         (call = EvmCallTimeoutHtlc target path \<and> \<not> dh_incoming h \<and> dh_refundTimeout h \<le> height)))"

fun call_index :: "evm_call \<Rightarrow> u64 option" where
  "call_index (EvmCallClaimHtlc target _ _) = Some (eh_index target)"
| "call_index (EvmCallTimeoutHtlc target _) = Some (eh_index target)"
| "call_index _ = None"

lemma resolvePending_cases:
  assumes "settle_ok cfg su" "pending_ok cfg s"
    and "resolvePending cfg tk idx (s, calls) = (s', calls')"
  obtains (Skip) "s' = s" "calls' = calls"
      "\<And>h. st_running s \<Longrightarrow> st_pending s idx = Some h \<Longrightarrow>
         (if dh_incoming h then lookupEvmPreimage tk (dh_rHash h) = None else st_bestHeight s < dh_refundTimeout h)"
    | (Send) h call where "st_running s" "st_pending s idx = Some h" "due cfg su tk (st_bestHeight s) call"
      "calls' = calls @ [call]" "call \<noteq> EvmCallDistributeFunds" "call_index call = Some idx"
      "s' = (if tk_publish tk call then s\<lparr>st_pending := (st_pending s)(idx := None)\<rparr> else s)"
proof (cases "st_running s \<and> (\<exists>h. st_pending s idx = Some h \<and>
    (if dh_incoming h then lookupEvmPreimage tk (dh_rHash h) \<noteq> None else dh_refundTimeout h \<le> st_bestHeight s))")
  case True
  then obtain h where h: "st_running s" "st_pending s idx = Some h"
    "if dh_incoming h then lookupEvmPreimage tk (dh_rHash h) \<noteq> None else dh_refundTimeout h \<le> st_bestHeight s" by blast
  have m: "h \<in> set (dc_htlcs (sc_commit cfg))" "dh_htlcIndex h = idx" using assms(2) h(2) by (simp_all add: pending_ok_def)
  obtain target path where p: "provenHtlc cfg su h target path"
    "publishEvmHtlc cfg tk idx None = Some (tk_publish tk (EvmCallTimeoutHtlc target path), [EvmCallTimeoutHtlc target path])"
    "\<And>pre. publishEvmHtlc cfg tk idx (Some pre) =
       Some (tk_publish tk (EvmCallClaimHtlc target path pre), [EvmCallClaimHtlc target path pre])"
    by (rule resolution_of_pending [OF assms(1) m(1), of tk, unfolded m(2)]) (rule that)
  show ?thesis
  proof (cases "dh_incoming h")
    case True
    then obtain pre where "lookupEvmPreimage tk (dh_rHash h) = Some pre" using h(3) by auto
    then show ?thesis
      using True h(1,2) p m(2) assms(3) by (intro Send [of h "EvmCallClaimHtlc target path pre"])
        (auto simp: resolvePending_def due_def provenHtlc_def)
  next
    case False
    then show ?thesis
      using h p m(2) assms(3) by (intro Send [of h "EvmCallTimeoutHtlc target path"])
        (auto simp: resolvePending_def due_def provenHtlc_def)
  qed
next
  case False
  then show ?thesis
    using assms(3) by (intro Skip) (auto simp: resolvePending_def Let_def not_le split: option.splits if_splits)
qed

section \<open>One tick\<close>

lemma resolve_all:
  assumes "settle_ok cfg su" "pending_ok cfg s" "fold (resolvePending cfg tk) order (s, calls) = (s', calls')"
  shows "\<exists>new p. calls' = calls @ new \<and> s' = s\<lparr>st_pending := p\<rparr> \<and> p \<subseteq>\<^sub>m st_pending s \<and>
    (\<forall>call \<in> set new. due cfg su tk (st_bestHeight s) call \<and> call \<noteq> EvmCallDistributeFunds) \<and>
    (\<forall>i. st_pending s i \<noteq> None \<and> p i = None \<longrightarrow> (\<exists>call \<in> set new. call_index call = Some i \<and> tk_publish tk call))"
  using assms(2,3)
proof (induction order arbitrary: s calls)
  case Nil
  then show ?case by (intro exI [of _ "[]"] exI [of _ "st_pending s"]) auto
next
  case (Cons idx order)
  obtain s1 c1 where r: "resolvePending cfg tk idx (s, calls) = (s1, c1)" by fastforce
  have rest: "fold (resolvePending cfg tk) order (s1, c1) = (s', calls')" using Cons.prems(2) r by simp
  show ?case
  proof (cases rule: resolvePending_cases [OF assms(1) Cons.prems(1) r])
    case 1
    then show ?thesis using Cons.IH [OF _ rest] Cons.prems(1) by simp
  next
    case (2 h call)
    define p1 where "p1 = st_pending s1"
    have s1: "s1 = s\<lparr>st_pending := p1\<rparr>" "p1 \<subseteq>\<^sub>m st_pending s"
      unfolding p1_def using 2(7) by (simp_all add: map_le_def)
    have ok: "pending_ok cfg s1" using 2(7) Cons.prems(1) by (auto simp: pending_ok_def)
    obtain new p where n: "calls' = c1 @ new" "s' = s1\<lparr>st_pending := p\<rparr>" "p \<subseteq>\<^sub>m st_pending s1"
      "\<forall>call \<in> set new. due cfg su tk (st_bestHeight s1) call \<and> call \<noteq> EvmCallDistributeFunds"
      "\<forall>i. st_pending s1 i \<noteq> None \<and> p i = None \<longrightarrow> (\<exists>call \<in> set new. call_index call = Some i \<and> tk_publish tk call)"
      using Cons.IH [OF ok rest] by blast
    have "st_pending s1 i \<noteq> None \<or> (i = idx \<and> tk_publish tk call)" if "st_pending s i \<noteq> None" for i
      using that 2(7) by (auto split: if_splits)
    then have gone: "\<exists>c \<in> set (call # new). call_index c = Some i \<and> tk_publish tk c"
      if "st_pending s i \<noteq> None" "p i = None" for i
      using that n(5) 2(6) by auto
    have "p \<subseteq>\<^sub>m st_pending s" using n(3) s1 map_le_trans [of p p1] by simp
    moreover have "calls' = calls @ (call # new)" "s' = s\<lparr>st_pending := p\<rparr>" using n(1,2) 2(4) s1 by simp_all
    moreover have "\<forall>c \<in> set (call # new). due cfg su tk (st_bestHeight s) c \<and> c \<noteq> EvmCallDistributeFunds"
      using n(4) 2(3,5) s1 by simp
    ultimately show ?thesis using gone by blast
  qed
qed

definition resolvable :: "settle_tick \<Rightarrow> u32 \<Rightarrow> disk_htlc \<Rightarrow> bool" where
  "resolvable tk height h \<longleftrightarrow>
     (if dh_incoming h then lookupEvmPreimage tk (dh_rHash h) \<noteq> None else dh_refundTimeout h \<le> height)"

lemma resolve_keeps:
  assumes "settle_ok cfg su" "pending_ok cfg s" "fold (resolvePending cfg tk) order (s, calls) = (s', calls')"
    and "st_pending s i = Some h" "\<not> resolvable tk (st_bestHeight s) h"
  shows "st_pending s' i = Some h"
  using assms(2-5)
proof (induction order arbitrary: s calls)
  case (Cons idx order)
  obtain s1 c1 where r: "resolvePending cfg tk idx (s, calls) = (s1, c1)" by fastforce
  have rest: "fold (resolvePending cfg tk) order (s1, c1) = (s', calls')" using Cons.prems(2) r by simp
  have "st_pending s1 i = Some h \<and> st_bestHeight s1 = st_bestHeight s \<and> pending_ok cfg s1"
  proof (cases "st_pending s idx = Some h")
    case True
    then have "resolvePending cfg tk idx (s, calls) = (s, calls)"
      using Cons.prems(4) by (auto simp: resolvePending_def resolvable_def not_le split: if_splits)
    then show ?thesis using r Cons.prems by simp
  next
    case False
    then have "idx \<noteq> i" using Cons.prems(3) by auto
    then show ?thesis
      using Cons.prems(1,3) by (cases rule: resolvePending_cases [OF assms(1) Cons.prems(1) r]) (auto simp: pending_ok_def)
  qed
  then show ?case using Cons.IH [OF _ rest] Cons.prems(4) by simp
qed simp


lemma map_le_None: "p \<subseteq>\<^sub>m q \<Longrightarrow> q i = None \<Longrightarrow> p i = None"
  by (metis domIff map_le_def)

lemma resolve_completes:
  assumes "settle_ok cfg su" "pending_ok cfg s" "fold (resolvePending cfg tk) order (s, calls) = (s', calls')"
    and "st_running s" "\<And>call. tk_publish tk call" "i \<in> set order"
    and "st_pending s i = Some h" "resolvable tk (st_bestHeight s) h"
  shows "st_pending s' i = None \<and> Some i \<in> call_index ` set calls'"
  using assms(2-4,6-8)
proof (induction order arbitrary: s calls)
  case (Cons idx order)
  obtain s1 c1 where r: "resolvePending cfg tk idx (s, calls) = (s1, c1)" by fastforce
  have rest: "fold (resolvePending cfg tk) order (s1, c1) = (s', calls')" using Cons.prems(2) r by simp
  show ?case
  proof (cases rule: resolvePending_cases [OF assms(1) Cons.prems(1) r])
    case 1
    then have "idx \<noteq> i"
      using Cons.prems(3,5,6) 1(3) [of h] by (auto simp: resolvable_def not_le split: if_splits)
    then show ?thesis using Cons 1 rest by simp
  next
    case (2 h' call)
    have s1: "s1 = s\<lparr>st_pending := (st_pending s)(idx := None)\<rparr>" "pending_ok cfg s1"
      using 2(7) assms(5) Cons.prems(1) by (auto simp: pending_ok_def)
    obtain new p where n: "calls' = c1 @ new" "s' = s1\<lparr>st_pending := p\<rparr>" "p \<subseteq>\<^sub>m st_pending s1"
      using resolve_all [OF assms(1) s1(2) rest] by blast
    show ?thesis
    proof (cases "idx = i")
      case True
      have "p i = None" using map_le_None [OF n(3), of i] s1(1) True by simp
      then show ?thesis using n(1,2) 2(4,6) True by force
    next
      case False
      then show ?thesis using Cons.IH [OF s1(2) rest] Cons.prems s1(1) by simp
    qed
  qed
qed simp

section \<open>Whole runs\<close>

lemma finalise_cases:
  assumes "finalise cfg tk (s, calls) = (s', calls')"
  obtains (Quiet) "calls' = calls" "s' = s \<or> s' = s\<lparr>st_running := False\<rparr>"
    | (Distribute) "calls' = calls @ [EvmCallDistributeFunds]" "st_running s" "st_pending s = Map.empty"
      "sc_challengeExpiry cfg \<noteq> 0" "st_distributeAttempts s < evmDistributeAttempts"
      "sint (sc_challengeExpiry cfg + 1) \<le> sint (st_chainTime s)" "st_nextDistributeAfter s \<le> tk_now tk"
      "s' = s\<lparr>st_distributeAttempts := st_distributeAttempts s + 1,
              st_nextDistributeAfter := tk_now tk + evmDistributeRetryDelay\<rparr>"
proof (cases "st_running s \<and> st_pending s = Map.empty \<and> sc_challengeExpiry cfg \<noteq> 0 \<and>
    st_distributeAttempts s < evmDistributeAttempts \<and>
    sint (sc_challengeExpiry cfg + 1) \<le> sint (st_chainTime s) \<and> st_nextDistributeAfter s \<le> tk_now tk")
  case True
  then show ?thesis using assms by (intro Distribute) (simp_all add: finalise_def)
next
  case False
  then show ?thesis
    using assms by (intro Quiet) (simp_all add: finalise_def not_less not_le split: if_split_asm)
qed

lemma settleStep_cases:
  assumes "settle_ok cfg su" "pending_ok cfg s" "settleStep cfg s ev = (s', calls)"
  obtains (Other) "calls = []" "st_pending s' = st_pending s" "st_distributeAttempts s' = st_distributeAttempts s"
    | (Ticked) tk p resolved where "ev = Tick tk" "st_running s" "tk_status tk \<noteq> Some ChannelStatusClosed"
      "p \<subseteq>\<^sub>m st_pending s"
      "fold (resolvePending cfg tk) (tk_order tk) (s, []) = (s\<lparr>st_pending := p\<rparr>, resolved)"
      "\<forall>call \<in> set resolved. due cfg su tk (st_bestHeight s) call \<and> call \<noteq> EvmCallDistributeFunds"
      "\<And>i. st_pending s i \<noteq> None \<Longrightarrow> p i = None \<Longrightarrow> \<exists>call \<in> set resolved. call_index call = Some i \<and> tk_publish tk call"
      "finalise cfg tk (s\<lparr>st_pending := p\<rparr>, resolved) = (s', calls)"
proof (cases "st_running s \<and> (\<exists>tk. ev = Tick tk \<and> tk_status tk \<noteq> Some ChannelStatusClosed)")
  case True
  then obtain tk where t: "st_running s" "ev = Tick tk" "tk_status tk \<noteq> Some ChannelStatusClosed" by blast
  obtain s1 c1 where f: "fold (resolvePending cfg tk) (tk_order tk) (s, []) = (s1, c1)" by fastforce
  obtain p where p: "s1 = s\<lparr>st_pending := p\<rparr>" "p \<subseteq>\<^sub>m st_pending s"
    "\<forall>call \<in> set c1. due cfg su tk (st_bestHeight s) call \<and> call \<noteq> EvmCallDistributeFunds"
    "\<And>i. st_pending s i \<noteq> None \<Longrightarrow> p i = None \<Longrightarrow> \<exists>call \<in> set c1. call_index call = Some i \<and> tk_publish tk call"
    using resolve_all [OF assms(1,2) f] by auto
  show ?thesis
    using t p f assms(3) by (intro Ticked [of tk p c1]) (simp_all add: settleStep_def)
next
  case False
  then show ?thesis
    using assms(3) by (intro Other; cases ev) (auto simp: settleStep_def split: if_splits)
qed

lemma pending_le: "pending_ok cfg s \<Longrightarrow> p \<subseteq>\<^sub>m st_pending s \<Longrightarrow> pending_ok cfg (s\<lparr>st_pending := p\<rparr>)"
  by (fastforce simp: pending_ok_def map_le_def dom_def)

lemma settleStep_inv:
  assumes "settle_ok cfg su" "pending_ok cfg s" "settleStep cfg s ev = (s', calls)"
  shows "pending_ok cfg s'"
    "st_distributeAttempts s' = st_distributeAttempts s + count_list calls EvmCallDistributeFunds"
    "EvmCallDistributeFunds \<in> set calls \<Longrightarrow> st_distributeAttempts s' \<le> evmDistributeAttempts"
proof (atomize (full), goal_cases)
  case 1
  show ?case
  proof (cases rule: settleStep_cases [OF assms])
    case 1
    then show ?thesis using assms(2) by (simp add: pending_ok_def)
  next
    case (2 tk p resolved)
    have z: "count_list resolved EvmCallDistributeFunds = 0" "EvmCallDistributeFunds \<notin> set resolved"
      using 2(6) by (auto simp: count_list_0_iff)
    show ?thesis
      by (cases rule: finalise_cases [OF 2(8)])
        (use z pending_le [OF assms(2) 2(4)] in \<open>auto simp: pending_ok_def\<close>)
  qed
qed

text \<open>The HTLC of an index was handed to the network in this part of a run.\<close>

definition handedOff :: "(settler \<times> settle_event \<times> evm_call list) list \<Rightarrow> u64 \<Rightarrow> bool" where
  "handedOff run i \<longleftrightarrow> (\<exists>s tk calls call. (s, Tick tk, calls) \<in> set run \<and> call \<in> set calls \<and>
     call_index call = Some i \<and> tk_publish tk call)"

lemma handedOff_Cons:
  "handedOff (it # run) i \<longleftrightarrow> handedOff [it] i \<or> handedOff run i"
  by (auto simp: handedOff_def)

lemma settleStep_removes:
  assumes "settle_ok cfg su" "pending_ok cfg s" "settleStep cfg s ev = (s', calls)"
    and "st_pending s i \<noteq> None" "st_pending s' i = None"
  shows "handedOff [(s, ev, calls)] i"
proof (cases rule: settleStep_cases [OF assms(1-3)])
  case 1
  then show ?thesis using assms(4,5) by simp
next
  case (2 tk p resolved)
  have "st_pending s' = p" "set resolved \<subseteq> set calls"
    by (cases rule: finalise_cases [OF 2(8)]; auto)+
  then show ?thesis using 2(1) 2(7) [OF assms(4)] assms(5) by (auto simp: handedOff_def)
qed

lemma settleStep_calls:
  assumes "settle_ok cfg su" "pending_ok cfg s" "settleStep cfg s ev = (s', calls)" "call \<in> set calls"
  shows "\<exists>tk. ev = Tick tk \<and> (due cfg su tk (st_bestHeight s) call \<or>
    call = EvmCallDistributeFunds \<and> st_pending s' = Map.empty \<and> sc_challengeExpiry cfg \<noteq> 0 \<and>
    sint (sc_challengeExpiry cfg + 1) \<le> sint (st_chainTime s))"
proof (cases rule: settleStep_cases [OF assms(1-3)])
  case (2 tk p resolved)
  show ?thesis
  proof (cases rule: finalise_cases [OF 2(8)])
    case 1
    then show ?thesis using 2(1,6) assms(4) by auto
  next
    case d: 2
    have "call \<in> set resolved \<or> call = EvmCallDistributeFunds" using d(1) assms(4) by auto
    moreover have "st_pending s' = Map.empty" using d(3,8) by simp
    ultimately show ?thesis using 2(1,6) d(4,6) by auto
  qed
qed (use assms(4) in simp)

lemma run_calls:
  assumes "settle_ok cfg su" "pending_ok cfg s0" "(s, ev, calls) \<in> set (settleRun cfg s0 evs)" "call \<in> set calls"
  shows "\<exists>tk. ev = Tick tk \<and> (due cfg su tk (st_bestHeight s) call \<or>
    call = EvmCallDistributeFunds \<and> sc_challengeExpiry cfg \<noteq> 0 \<and>
    sint (sc_challengeExpiry cfg + 1) \<le> sint (st_chainTime s) \<and>
    (\<forall>i. st_pending s0 i \<noteq> None \<longrightarrow> handedOff (settleRun cfg s0 evs) i))"
  using assms(2,3)
proof (induction evs arbitrary: s0)
  case (Cons e evs)
  obtain s1 c1 where st: "settleStep cfg s0 e = (s1, c1)" by fastforce
  have ok: "pending_ok cfg s1" by (rule settleStep_inv(1) [OF assms(1) Cons.prems(1) st])
  have gone: "st_pending s1 i \<noteq> None \<or> handedOff [(s0, e, c1)] i" if "st_pending s0 i \<noteq> None" for i
    using settleStep_removes [OF assms(1) Cons.prems(1) st that] by blast
  have run: "settleRun cfg s0 (e # evs) = (s0, e, c1) # settleRun cfg s1 evs" using st by simp
  show ?case
  proof (cases "(s, ev, calls) = (s0, e, c1)")
    case True
    then show ?thesis
      using settleStep_calls [OF assms(1) Cons.prems(1) st, of call] assms(4) gone
      unfolding run handedOff_Cons [of "(s0, e, c1)" "settleRun cfg s1 evs"] by auto
  next
    case False
    then have "(s, ev, calls) \<in> set (settleRun cfg s1 evs)" using Cons.prems(2) st by auto
    from Cons.IH [OF ok this] gone show ?thesis
      unfolding run handedOff_Cons [of "(s0, e, c1)" "settleRun cfg s1 evs"] by blast
  qed
qed simp

lemma run_distributes:
  assumes "settle_ok cfg su" "pending_ok cfg s" "st_distributeAttempts s \<le> evmDistributeAttempts"
  shows "count_list (concat (map (snd \<circ> snd) (settleRun cfg s evs))) EvmCallDistributeFunds
    \<le> evmDistributeAttempts - st_distributeAttempts s"
  using assms(2,3)
proof (induction evs arbitrary: s)
  case (Cons e evs)
  obtain s1 c1 where st: "settleStep cfg s e = (s1, c1)" by fastforce
  note i = settleStep_inv [OF assms(1) Cons.prems(1) st]
  have "st_distributeAttempts s1 \<le> evmDistributeAttempts"
    using i(2,3) Cons.prems(2) by (cases "EvmCallDistributeFunds \<in> set c1") (simp_all add: count_list_0_iff [THEN iffD2])
  from Cons.IH [OF i(1) this] show ?case using i(2) st \<open>st_distributeAttempts s1 \<le> evmDistributeAttempts\<close> by simp
qed simp

lemma pending_map_dom: "dom (foldl (\<lambda>m h. m(dh_htlcIndex h \<mapsto> h)) m hs) = dom m \<union> dh_htlcIndex ` set hs"
  by (induction hs arbitrary: m) auto

text \<open>
  C8: if no two HTLCs of the commitment have the same index, and its state can be rebuilt, the settler
  only sends calls that are due and that the contract accepts, in whatever order the events of a run
  come. It claims an incoming HTLC only with the preimage it just looked up for it,
  and times out an outgoing one only at or after its refund height, each with a leaf of the broadcast
  state, the right recipient, and a proof that verifies; it has the funds distributed only when the
  challenge window has passed on the clock of the chain, and when every HTLC of the commitment has
  been handed to the network; and it does so at most three times. As the
  events are arbitrary this holds of every prefix of a run, so the HTLCs are handed over by the time
  of the distribution. Without distinct indices they need not be: of two HTLCs with one index only the
  second is known, and the funds are distributed without the first (lemma shared_index_is_dropped
  below).
\<close>

theorem settler_calls_are_due:
  assumes "sort_slice (ee_sort (sc_env cfg))" "distinct (map dh_htlcIndex (dc_htlcs (sc_commit cfg)))"
    and "stateOf cfg = Some su"
  shows "(\<forall>s ev calls call. (s, ev, calls) \<in> set (settleRun cfg (evmSettle cfg) evs) \<longrightarrow> call \<in> set calls \<longrightarrow>
      (\<exists>tk. ev = Tick tk \<and> (due cfg su tk (st_bestHeight s) call \<or>
         call = EvmCallDistributeFunds \<and> sc_challengeExpiry cfg \<noteq> 0 \<and>
         sint (sc_challengeExpiry cfg + 1) \<le> sint (st_chainTime s) \<and>
         (\<forall>h \<in> set (dc_htlcs (sc_commit cfg)). handedOff (settleRun cfg (evmSettle cfg) evs) (dh_htlcIndex h))))) \<and>
    count_list (concat (map (snd \<circ> snd) (settleRun cfg (evmSettle cfg) evs))) EvmCallDistributeFunds \<le> 3"
proof -
  have ok: "settle_ok cfg su" using assms by (simp add: settle_ok_def)
  have "st_pending (evmSettle cfg) (dh_htlcIndex h) \<noteq> None" if "h \<in> set (dc_htlcs (sc_commit cfg))" for h
    using that pending_map_dom [of Map.empty "dc_htlcs (sc_commit cfg)"] by (auto simp: evmSettle_def)
  moreover have "count_list (concat (map (snd \<circ> snd) (settleRun cfg (evmSettle cfg) evs))) EvmCallDistributeFunds \<le> 3"
    using run_distributes [OF ok pending_ok_init, of evs] by (simp add: evmSettle_def evmDistributeAttempts_def)
  ultimately show ?thesis using run_calls [OF ok pending_ok_init, of _ _ _ evs] by meson
qed

definition settleState :: "settle_cfg \<Rightarrow> settle_event list \<Rightarrow> settler" where
  "settleState cfg evs = foldl (\<lambda>s ev. fst (settleStep cfg s ev)) (evmSettle cfg) evs"

lemma settleState_ok:
  assumes "settle_ok cfg su"
  shows "pending_ok cfg (settleState cfg evs)"
proof (induction evs rule: rev_induct)
  case Nil
  then show ?case by (simp add: settleState_def pending_ok_init)
next
  case (snoc ev evs)
  obtain s' calls where "settleStep cfg (settleState cfg evs) ev = (s', calls)" by fastforce
  with settleStep_inv(1) [OF assms snoc this] show ?case by (simp add: settleState_def)
qed

lemma tick_completes:
  assumes "settle_ok cfg su" "pending_ok cfg s" "st_running s" "\<And>call. tk_publish tk call"
    and "tk_status tk \<noteq> Some ChannelStatusClosed" "dom (st_pending s) \<subseteq> set (tk_order tk)"
    and "\<And>h. h \<in> ran (st_pending s) \<Longrightarrow> resolvable tk (st_bestHeight s) h"
    and "settleStep cfg s (Tick tk) = (s', calls)"
  shows "st_pending s' = Map.empty \<and> Some ` dom (st_pending s) \<subseteq> call_index ` set calls \<and>
    (sc_challengeExpiry cfg \<noteq> 0 \<longrightarrow> sint (sc_challengeExpiry cfg + 1) \<le> sint (st_chainTime s) \<longrightarrow>
     st_distributeAttempts s < 3 \<longrightarrow> st_nextDistributeAfter s \<le> tk_now tk \<longrightarrow> EvmCallDistributeFunds \<in> set calls) \<and>
    (st_distributeAttempts s' = 3 \<longrightarrow> (\<forall>tk'. \<not> st_running (fst (settleStep cfg s' (Tick tk')))))"
proof -
  obtain p resolved where f: "fold (resolvePending cfg tk) (tk_order tk) (s, []) = (s\<lparr>st_pending := p\<rparr>, resolved)"
    "finalise cfg tk (s\<lparr>st_pending := p\<rparr>, resolved) = (s', calls)" "p \<subseteq>\<^sub>m st_pending s"
    using assms(3,5,8) resolve_all [OF assms(1,2), of tk "tk_order tk" "[]"]
    by (cases "fold (resolvePending cfg tk) (tk_order tk) (s, [])") (auto simp: settleStep_def)
  have c: "p i = None \<and> Some i \<in> call_index ` set resolved" if "st_pending s i = Some h" for i h
    using resolve_completes [OF assms(1,2) f(1) assms(3,4), of i h] that assms(6,7) by (auto simp: ran_def)
  have "p i = None" for i using c map_le_None [OF f(3)] by (cases "st_pending s i") auto
  then have e: "p = Map.empty" by blast
  have d: "Some ` dom (st_pending s) \<subseteq> call_index ` set resolved" using c by auto
  have fin: "finalise cfg tk' (fold (resolvePending cfg tk') order (s', [])) = (s'\<lparr>st_running := False\<rparr>, [])"
    if "st_running s'" "st_pending s' = Map.empty" "st_distributeAttempts s' = 3" for tk' order
  proof -
    have "fold (resolvePending cfg tk') order (s', []) = (s', [])"
      using that(2) by (induction order) (simp_all add: resolvePending_def)
    then show ?thesis using that by (simp add: finalise_def evmDistributeAttempts_def)
  qed
  have stop: "\<not> st_running (fst (settleStep cfg s' (Tick tk')))"
    if "st_pending s' = Map.empty" "st_distributeAttempts s' = 3" for tk'
    using that fin [OF _ that] by (cases "st_running s'") (simp_all add: settleStep_def)
  show ?thesis
  proof (cases rule: finalise_cases [OF f(2)])
    case 1
    then show ?thesis
      using f(2) e d stop assms(3) by (auto simp: finalise_def evmDistributeAttempts_def)
  next
    case 2
    then show ?thesis using e d stop by auto
  qed
qed

text \<open>
  C25: the settler gets done. After any events, one tick at which every broadcast is accepted, every
  pending incoming HTLC has a preimage and every pending outgoing one has expired, leaves nothing
  pending; a call for each was made; and once the challenge window has passed the same tick has the
  funds distributed, whatever the order of the map. After the third distribution the next tick ends
  the settler.
\<close>

theorem settler_finishes:
  assumes "settle_ok cfg su" "s = settleState cfg evs" "st_running s" "\<And>call. tk_publish tk call"
    and "tk_status tk \<noteq> Some ChannelStatusClosed" "dom (st_pending s) \<subseteq> set (tk_order tk)"
    and "\<And>h. h \<in> ran (st_pending s) \<Longrightarrow> resolvable tk (st_bestHeight s) h"
    and "settleStep cfg s (Tick tk) = (s', calls)"
  shows "st_pending s' = Map.empty \<and> Some ` dom (st_pending s) \<subseteq> call_index ` set calls \<and>
    (sc_challengeExpiry cfg \<noteq> 0 \<longrightarrow> sint (sc_challengeExpiry cfg + 1) \<le> sint (st_chainTime s) \<longrightarrow>
     st_distributeAttempts s < 3 \<longrightarrow> st_nextDistributeAfter s \<le> tk_now tk \<longrightarrow> EvmCallDistributeFunds \<in> set calls) \<and>
    (st_distributeAttempts s' = 3 \<longrightarrow> (\<forall>tk'. \<not> st_running (fst (settleStep cfg s' (Tick tk')))))"
  by (rule tick_completes [OF assms(1) _ assms(3-8)]) (simp add: assms(2) settleState_ok [OF assms(1)])

text \<open>
  An incoming HTLC whose preimage never shows up is not given up when it expires, so it stays pending
  and the settler never has the funds distributed.
\<close>

lemma settler_waits_for_preimage:
  assumes "settle_ok cfg su" "h \<in> set (dc_htlcs (sc_commit cfg))" "dh_incoming h"
    and "\<And>tk. Tick tk \<in> set evs \<Longrightarrow> lookupEvmPreimage tk (dh_rHash h) = None"
    and "(s, ev, calls) \<in> set (settleRun cfg (evmSettle cfg) evs)"
  shows "EvmCallDistributeFunds \<notin> set calls"
proof -
  have "EvmCallDistributeFunds \<notin> set calls"
    if "pending_ok cfg s0" "st_pending s0 (dh_htlcIndex h) = Some h" "(s, ev, calls) \<in> set (settleRun cfg s0 evs)" for s0
    using that assms(4)
  proof (induction evs arbitrary: s0)
    case (Cons e evs)
    obtain s1 c1 where st: "settleStep cfg s0 e = (s1, c1)" by fastforce
    have k: "st_pending s1 (dh_htlcIndex h) = Some h"
    proof (cases rule: settleStep_cases [OF assms(1) Cons.prems(1) st])
      case 1
      then show ?thesis using Cons.prems(2) by simp
    next
      case (2 tk p resolved)
      then have "\<not> resolvable tk (st_bestHeight s0) h" using Cons.prems(4) assms(3) by (simp add: resolvable_def)
      from resolve_keeps [OF assms(1) Cons.prems(1) 2(5) Cons.prems(2) this] have "p (dh_htlcIndex h) = Some h" by simp
      then show ?thesis by (cases rule: finalise_cases [OF 2(8)]) auto
    qed
    have "EvmCallDistributeFunds \<notin> set c1"
      using settleStep_calls [OF assms(1) Cons.prems(1) st, of EvmCallDistributeFunds] k by (auto simp: due_def)
    moreover have "EvmCallDistributeFunds \<notin> set calls" if "(s, ev, calls) \<in> set (settleRun cfg s1 evs)"
      using Cons.IH [OF settleStep_inv(1) [OF assms(1) Cons.prems(1) st] k that] Cons.prems(4) by simp
    ultimately show ?case using Cons.prems(3) st by auto
  qed simp
  moreover have "st_pending (evmSettle cfg) (dh_htlcIndex h) = Some h"
  proof -
    obtain h' where h': "st_pending (evmSettle cfg) (dh_htlcIndex h) = Some h'"
      using assms(2) pending_map_dom [of Map.empty "dc_htlcs (sc_commit cfg)"] by (fastforce simp: evmSettle_def)
    then have "h' \<in> set (dc_htlcs (sc_commit cfg))" "dh_htlcIndex h' = dh_htlcIndex h"
      using pending_ok_init [of cfg] by (simp_all add: pending_ok_def)
    then show ?thesis using h' assms(1,2) by (auto simp: settle_ok_def distinct_map inj_on_def)
  qed
  ultimately show ?thesis using pending_ok_init assms(5) by blast
qed

text \<open>Of two HTLCs with the same index, one offered and one received, the settler only knows the second.\<close>

lemma shared_index_is_dropped:
  assumes "dc_htlcs (sc_commit cfg) = xs @ [a] @ ys @ [b]" "dh_htlcIndex a = dh_htlcIndex b"
  shows "st_pending (evmSettle cfg) (dh_htlcIndex a) = Some b"
  using assms by (simp add: evmSettle_def)

section \<open>An example\<close>

definition demo_settle_cfg :: settle_cfg where
  "demo_settle_cfg = \<lparr>sc_env = demo_evm_env, sc_channel = demo_evm_channel True,
     sc_commit = toDiskCommit (demo_evm_view True), sc_challengeExpiry = 1700000100\<rparr>"

definition demo_tick :: settle_tick where
  "demo_tick = \<lparr>tk_status = Some ChannelStatusOther, tk_preimageDB = Some (\<lambda>hash. Some (replicate 32 9)), tk_registry = None,
     tk_publish = (\<lambda>call. True), tk_order = [3, 0, 1], tk_now = 1700000200\<rparr>"

definition demo_epoch :: settle_event where
  "demo_epoch = Epoch 700 (Some 1700000200)"

lemma demo_settle_ok: "\<exists>su. settle_ok demo_settle_cfg su"
  using demo_state
  by (auto simp: settle_ok_def stateOf_def demo_settle_cfg_def demo_evm_env_def sort_slice_sort_key toDiskCommit_def
      demo_evm_view_def demo_evm_pd_def diskHtlc_def)

lemma demo_settle_state:
  "settleState demo_settle_cfg [demo_epoch] = (evmSettle demo_settle_cfg)\<lparr>st_bestHeight := 700, st_chainTime := 1700000200\<rparr>"
  by (simp add: settleState_def settleStep_def evmSettle_def demo_epoch_def)

lemma demo_tick_finishes:
  assumes "settle_ok demo_settle_cfg su" "s = settleState demo_settle_cfg [demo_epoch]"
  shows "st_running s" "\<And>call. tk_publish demo_tick call" "tk_status demo_tick \<noteq> Some ChannelStatusClosed"
    "dom (st_pending s) \<subseteq> set (tk_order demo_tick)"
    "\<And>h. h \<in> ran (st_pending s) \<Longrightarrow> resolvable demo_tick (st_bestHeight s) h"
    "sc_challengeExpiry demo_settle_cfg \<noteq> 0" "sint (sc_challengeExpiry demo_settle_cfg + 1) \<le> sint (st_chainTime s)"
    "st_distributeAttempts s < 3" "st_nextDistributeAfter s \<le> tk_now demo_tick"
proof -
  show "dom (st_pending s) \<subseteq> set (tk_order demo_tick)"
    unfolding assms(2) demo_settle_state
    by (simp add: demo_tick_def evmSettle_def pending_map_dom, simp add: demo_settle_cfg_def
        toDiskCommit_def demo_evm_view_def demo_evm_pd_def diskHtlc_def)
  fix h
  assume "h \<in> ran (st_pending s)"
  then have "h \<in> set (dc_htlcs (sc_commit demo_settle_cfg))"
    using settleState_ok [OF assms(1), of "[demo_epoch]"] assms(2) by (auto simp: pending_ok_def ran_def)
  then have "dh_incoming h \<or> dh_refundTimeout h = 600"
    by (auto simp: demo_settle_cfg_def toDiskCommit_def demo_evm_view_def demo_evm_pd_def diskHtlc_def)
  then show "resolvable demo_tick (st_bestHeight s) h"
    unfolding assms(2) demo_settle_state by (auto simp: resolvable_def lookupEvmPreimage_def demo_tick_def)
next
  show "st_running s" "st_distributeAttempts s < 3" "st_nextDistributeAfter s \<le> tk_now demo_tick"
    "sint (sc_challengeExpiry demo_settle_cfg + 1) \<le> sint (st_chainTime s)"
    unfolding assms(2) demo_settle_state by (simp_all add: evmSettle_def demo_tick_def demo_settle_cfg_def)
qed (simp_all add: demo_tick_def demo_settle_cfg_def)

theorem settler_finishes_witness:
  "EvmCallDistributeFunds \<in> set (snd (settleStep demo_settle_cfg (settleState demo_settle_cfg [demo_epoch]) (Tick demo_tick)))"
proof -
  let ?s = "settleState demo_settle_cfg [demo_epoch]"
  obtain su where ok: "settle_ok demo_settle_cfg su" using demo_settle_ok by blast
  obtain s' calls where st: "settleStep demo_settle_cfg ?s (Tick demo_tick) = (s', calls)" by fastforce
  note d = demo_tick_finishes [OF ok refl]
  from settler_finishes [OF ok refl d(1,2,3,4,5) st] d(6-9) st show ?thesis by simp
qed

theorem settler_calls_are_due_witness:
  "\<exists>s calls. (s, Tick demo_tick, calls) \<in> set (settleRun demo_settle_cfg (evmSettle demo_settle_cfg) [demo_epoch, Tick demo_tick]) \<and>
     EvmCallDistributeFunds \<in> set calls \<and>
     handedOff (settleRun demo_settle_cfg (evmSettle demo_settle_cfg) [demo_epoch, Tick demo_tick]) 3"
proof -
  let ?s = "settleState demo_settle_cfg [demo_epoch]"
  let ?run = "settleRun demo_settle_cfg (evmSettle demo_settle_cfg) [demo_epoch, Tick demo_tick]"
  obtain su where ok: "settle_ok demo_settle_cfg su" using demo_settle_ok by blast
  then have ok': "sort_slice (ee_sort (sc_env demo_settle_cfg))" "distinct (map dh_htlcIndex (dc_htlcs (sc_commit demo_settle_cfg)))"
    "stateOf demo_settle_cfg = Some su" by (simp_all add: settle_ok_def)
  obtain s' calls where st: "settleStep demo_settle_cfg ?s (Tick demo_tick) = (s', calls)" by fastforce
  note d = demo_tick_finishes [OF ok refl]
  have m: "(?s, Tick demo_tick, calls) \<in> set ?run" using st by (simp add: settleState_def)
  have c: "EvmCallDistributeFunds \<in> set calls"
    using tick_completes [OF ok settleState_ok [OF ok] d(1,2,3,4,5) st] d(6-9) by simp
  have "\<exists>h \<in> set (dc_htlcs (sc_commit demo_settle_cfg)). dh_htlcIndex h = 3"
    by (simp add: demo_settle_cfg_def toDiskCommit_def demo_evm_view_def demo_evm_pd_def diskHtlc_def)
  moreover have "\<not> due demo_settle_cfg su tk height EvmCallDistributeFunds" for tk height by (simp add: due_def)
  ultimately have "handedOff ?run 3"
    using settler_calls_are_due [OF ok', of "[demo_epoch, Tick demo_tick]", THEN conjunct1, rule_format, OF m c] by auto
  then show ?thesis using m c by blast
qed

end
