(* ===== verification/Evm_Backup.thy ===== *)
theory Evm_Backup
  imports Evm_Close
begin

text \<open>
  The watchtower's backups (\<open>src/watchtower/evmtower\<close>): the encoding of a \<open>JusticeBackup\<close> (\<open>backup.go\<close>),
  the stores in memory and in files (\<open>store.go\<close>, \<open>filestore.go\<close>), the node that takes snapshots and
  uploads them (\<open>agent.go\<close>, \<open>client.go\<close>, with \<open>EvmBackups\<close> of \<open>src/evm_watchtower.go\<close> and
  \<open>EvmJusticeBackupFields\<close> of \<open>src/lnwallet/evm_commitment.go\<close>), and the server that takes the uploads
  and decides who may send them (\<open>server.go\<close>, \<open>allowlist_file.go\<close>).

  The interface \<open>BackupStore\<close> is the locale \<open>backup_store\<close>; the two stores and the remote store are its
  interpretations.
\<close>

section \<open>Backups\<close>

text \<open>A balance is \<open>None\<close> for a nil \<open>big.Int\<close>.\<close>

record justice_backup =
  jb_channelID :: "byte list"
  jb_nonce :: u64
  jb_balanceA :: "int option"
  jb_balanceB :: "int option"
  jb_htlcsHash :: "byte list"
  jb_counterpartySig :: "byte list"

datatype backup_error =
    NilBalance | SigNot65 nat | BalanceExceedsUint256 | BackupTooShort nat | TruncatedBalanceA | TruncatedTail
  | WriteFailed | DialFailed | AckLost | TowerRejected

definition validate :: "justice_backup \<Rightarrow> backup_error option" where
  "validate b =
     (if jb_balanceA b = None \<or> jb_balanceB b = None then Some NilBalance
      else if length (jb_counterpartySig b) \<noteq> 65 then Some (SigNot65 (length (jb_counterpartySig b)))
      else None)"

text \<open>\<open>big.Int.Bytes\<close> is the absolute value without leading zeros, \<open>SetBytes\<close> its inverse.\<close>

function bigBytes :: "nat \<Rightarrow> byte list" where
  "bigBytes v = (if v = 0 then [] else bigBytes (v div 256) @ [word_of_nat v])"
  by auto
termination by (relation "measure id") auto

declare bigBytes.simps [simp del]

definition bigSetBytes :: "byte list \<Rightarrow> nat" where
  "bigSetBytes bs = foldl (\<lambda>v b. 256 * v + unat b) 0 bs"

definition append_uint16 :: "nat \<Rightarrow> byte list" where
  "append_uint16 n = be_bytes 2 n"

definition encodeBackup :: "justice_backup \<Rightarrow> backup_error + byte list" where
  "encodeBackup b =
     (case validate b of
        Some e \<Rightarrow> Inl e
      | None \<Rightarrow>
          (let aBytes = bigBytes (nat \<bar>the (jb_balanceA b)\<bar>);
               bBytes = bigBytes (nat \<bar>the (jb_balanceB b)\<bar>)
           in if 32 < length aBytes \<or> 32 < length bBytes then Inl BalanceExceedsUint256
              else Inr (jb_channelID b @ put_uint64 (jb_nonce b) @
                        append_uint16 (length aBytes) @ aBytes @
                        append_uint16 (length bBytes) @ bBytes @
                        jb_htlcsHash b @ jb_counterpartySig b)))"

definition decodeJusticeBackup :: "byte list \<Rightarrow> backup_error + justice_backup" where
  "decodeJusticeBackup data =
     (if length data < 141 then Inl (BackupTooShort (length data))
      else let lenA = bigSetBytes (slice 40 42 data); off = 42 in
        if length data < off + lenA + 2 then Inl TruncatedBalanceA
        else let balA = bigSetBytes (slice off (off + lenA) data); off = off + lenA;
                 lenB = bigSetBytes (slice off (off + 2) data); off = off + 2 in
          if length data < off + lenB + 32 + 65 then Inl TruncatedTail
          else let balB = bigSetBytes (slice off (off + lenB) data); off = off + lenB;
                   b = \<lparr>jb_channelID = take 32 data, jb_nonce = get_uint64 (slice 32 40 data),
                        jb_balanceA = Some (int balA), jb_balanceB = Some (int balB),
                        jb_htlcsHash = slice off (off + 32) data,
                        jb_counterpartySig = slice (off + 32) (off + 97) data\<rparr>
               in (case validate b of None \<Rightarrow> Inr b | Some e \<Rightarrow> Inl e))"

text \<open>What every backup of a node is: fixed-size fields and 256-bit balances.\<close>

definition storableBackup :: "justice_backup \<Rightarrow> bool" where
  "storableBackup b \<longleftrightarrow> length (jb_channelID b) = 32 \<and> length (jb_htlcsHash b) = 32 \<and> length (jb_counterpartySig b) = 65 \<and>
     (\<exists>a. jb_balanceA b = Some a \<and> 0 \<le> a \<and> a < 2 ^ 256) \<and> (\<exists>a. jb_balanceB b = Some a \<and> 0 \<le> a \<and> a < 2 ^ 256)"

lemma bigSetBytes_snoc [simp]: "bigSetBytes [] = 0" "bigSetBytes (bs @ [b]) = 256 * bigSetBytes bs + unat b"
  by (simp_all add: bigSetBytes_def)

lemma unat_byte [simp]: "unat (word_of_nat v :: byte) = v mod 256"
  by (simp add: unsigned_of_nat take_bit_eq_mod)

lemma bigSetBytes_bigBytes [simp]: "bigSetBytes (bigBytes v) = v"
  by (induction v rule: bigBytes.induct) (simp add: bigBytes.simps)

lemma bigSetBytes_be_bytes: "bigSetBytes (be_bytes n v) = v mod 256 ^ n"
  by (induction n arbitrary: v) (simp_all add: mod_mult2_eq)

lemma length_bigBytes: "length (bigBytes v) \<le> n \<longleftrightarrow> v < 256 ^ n"
proof (induction n arbitrary: v)
  case 0
  then show ?case by (simp add: bigBytes.simps [of v])
next
  case (Suc n)
  have "v < 256 ^ Suc n \<longleftrightarrow> v div 256 < 256 ^ n" by (simp add: less_mult_imp_div_less div_less_iff_less_mult mult.commute)
  then show ?case using Suc [of "v div 256"] by (cases "v = 0") (simp_all add: bigBytes.simps [of v])
qed

lemma bigBytes_uint256: "0 \<le> a \<Longrightarrow> a < 2 ^ 256 \<Longrightarrow> length (bigBytes (nat a)) \<le> 32"
  unfolding length_bigBytes by (simp add: nat_less_iff)

lemma slice_app:
  "length xs \<le> i \<Longrightarrow> slice i j (xs @ ys) = slice (i - length xs) (j - length xs) ys"
  "slice 0 (length xs) (xs @ ys) = xs" "length xs = n \<Longrightarrow> slice 0 n (xs @ ys) = xs"
  by (simp_all add: slice_def)

lemma encode_fields:
  assumes "storableBackup b"
  obtains balA balB where "jb_balanceA b = Some (int balA)" "jb_balanceB b = Some (int balB)"
    "length (bigBytes balA) \<le> 32" "length (bigBytes balB) \<le> 32"
    "encodeBackup b = Inr (jb_channelID b @ put_uint64 (jb_nonce b) @
       append_uint16 (length (bigBytes balA)) @ bigBytes balA @
       append_uint16 (length (bigBytes balB)) @ bigBytes balB @ jb_htlcsHash b @ jb_counterpartySig b)"
proof -
  obtain x y where x: "jb_balanceA b = Some x" "0 \<le> x" "x < 2 ^ 256" "jb_balanceB b = Some y" "0 \<le> y" "y < 2 ^ 256"
    "length (jb_counterpartySig b) = 65"
    using assms by (auto simp: storableBackup_def)
  show ?thesis
    by (rule that [of "nat x" "nat y"])
      (use x bigBytes_uint256 [OF x(2,3)] bigBytes_uint256 [OF x(5,6)] in
        \<open>simp_all add: encodeBackup_def validate_def Let_def\<close>)
qed

lemma len16: "n \<le> 32 \<Longrightarrow> bigSetBytes (append_uint16 n) = n" "length (append_uint16 n) = 2"
  by (simp_all add: append_uint16_def bigSetBytes_be_bytes)

lemma decode_encoded:
  assumes "storableBackup b" "encodeBackup b = Inr data"
  shows "decodeJusticeBackup (data @ trailing) = Inr b"
proof -
  obtain balA balB where f: "jb_balanceA b = Some (int balA)" "jb_balanceB b = Some (int balB)"
    "length (bigBytes balA) \<le> 32" "length (bigBytes balB) \<le> 32"
    "encodeBackup b = Inr (jb_channelID b @ put_uint64 (jb_nonce b) @
       append_uint16 (length (bigBytes balA)) @ bigBytes balA @
       append_uint16 (length (bigBytes balB)) @ bigBytes balB @ jb_htlcsHash b @ jb_counterpartySig b)"
    by (rule encode_fields [OF assms(1)])
  have l: "length (jb_channelID b) = 32" "length (jb_htlcsHash b) = 32" "length (jb_counterpartySig b) = 65"
    using assms(1) by (simp_all add: storableBackup_def)
  let ?d = "jb_channelID b @ put_uint64 (jb_nonce b) @
       append_uint16 (length (bigBytes balA)) @ bigBytes balA @
       append_uint16 (length (bigBytes balB)) @ bigBytes balB @ jb_htlcsHash b @ jb_counterpartySig b @ trailing"
  have d: "data @ trailing = ?d" using f(5) assms(2) by simp
  have lens: "slice 40 42 ?d = append_uint16 (length (bigBytes balA))"
    using l by (simp add: slice_app len16(2))
  have lenB: "slice (42 + length (bigBytes balA)) (44 + length (bigBytes balA)) ?d = append_uint16 (length (bigBytes balB))"
    using l by (simp add: slice_app len16(2))
  show ?thesis
    unfolding d decodeJusticeBackup_def
    using l f(1-4) lens lenB
    by (cases b) (simp add: slice_app len16 validate_def Let_def get_put_uint64 [of _ "[]", simplified])
qed

lemma slice_take: "j \<le> n \<Longrightarrow> slice i j (take n xs) = slice i j xs"
  by (simp add: slice_def drop_take min_def)

lemma decode_truncated:
  assumes "storableBackup b" "encodeBackup b = Inr data" "n < length data"
  shows "\<exists>e. decodeJusticeBackup (take n data) = Inl e"
proof -
  obtain balA balB where f: "length (bigBytes balA) \<le> 32" "length (bigBytes balB) \<le> 32"
    "encodeBackup b = Inr (jb_channelID b @ put_uint64 (jb_nonce b) @
       append_uint16 (length (bigBytes balA)) @ bigBytes balA @
       append_uint16 (length (bigBytes balB)) @ bigBytes balB @ jb_htlcsHash b @ jb_counterpartySig b)"
    by (rule encode_fields [OF assms(1)])
  have l: "length (jb_channelID b) = 32" "length (jb_htlcsHash b) = 32" "length (jb_counterpartySig b) = 65"
    using assms(1) by (simp_all add: storableBackup_def)
  have d: "data = jb_channelID b @ put_uint64 (jb_nonce b) @
       append_uint16 (length (bigBytes balA)) @ bigBytes balA @
       append_uint16 (length (bigBytes balB)) @ bigBytes balB @ jb_htlcsHash b @ jb_counterpartySig b"
    using f(3) assms(2) by simp
  have n: "n < 141 + length (bigBytes balA) + length (bigBytes balB)" using assms(3) l by (simp add: d len16(2))
  have lens: "slice 40 42 data = append_uint16 (length (bigBytes balA))"
    "slice (42 + length (bigBytes balA)) (44 + length (bigBytes balA)) data = append_uint16 (length (bigBytes balB))"
    using l by (simp_all add: d slice_app len16(2))
  show ?thesis
    using n f(1,2) assms(3) lens
    by (simp add: decodeJusticeBackup_def slice_take len16 Let_def min_def)
qed

text \<open>
  a backup survives its encoding. Every backup with fixed-size fields and 256-bit balances is
  encoded and decodes to itself, whatever bytes follow; and no proper prefix of an encoding decodes,
  so a cut-off file or message is rejected.
\<close>

theorem backup_roundtrip:
  assumes "storableBackup b"
  shows "\<exists>data. encodeBackup b = Inr data \<and> decodeJusticeBackup (data @ trailing) = Inr b \<and>
    (\<forall>n < length data. \<exists>e. decodeJusticeBackup (take n data) = Inl e)"
  using encode_fields [OF assms] decode_encoded [OF assms] decode_truncated [OF assms] by metis

section \<open>Stores\<close>

text \<open>
  What a store does with a backup: it keeps the one with the higher nonce. A put that reports an error
  may still have stored the backup, when it is the answer that got lost.
\<close>

definition newer :: "justice_backup \<Rightarrow> justice_backup option \<Rightarrow> bool" where
  "newer b cur \<longleftrightarrow> (case cur of None \<Rightarrow> True | Some c \<Rightarrow> jb_nonce c < jb_nonce b)"

definition newest :: "justice_backup \<Rightarrow> (byte list \<Rightarrow> justice_backup option) \<Rightarrow> byte list \<Rightarrow> justice_backup option" where
  "newest b held c = (if c = jb_channelID b \<and> newer b (held c) then Some b else held c)"

text \<open>A channel is defended against states below a nonce.\<close>

definition defendedIn :: "(byte list \<Rightarrow> 's \<Rightarrow> justice_backup option) \<Rightarrow> 's \<Rightarrow> byte list \<Rightarrow> u64 \<Rightarrow> bool" where
  "defendedIn get s c n \<longleftrightarrow> (\<exists>b. get c s = Some b \<and> n \<le> jb_nonce b)"

text \<open>What a store holds when it started empty and every put of a list was accepted.\<close>

definition holdsNewest :: "(byte list \<Rightarrow> 's \<Rightarrow> justice_backup option) \<Rightarrow> 's \<Rightarrow> justice_backup list \<Rightarrow> bool" where
  "holdsNewest get s bs \<longleftrightarrow> (\<forall>c. case get c s of
      None \<Rightarrow> c \<notin> jb_channelID ` set bs
    | Some d \<Rightarrow> d \<in> set bs \<and> jb_channelID d = c \<and> (\<forall>b \<in> set bs. jb_channelID b = c \<longrightarrow> jb_nonce b \<le> jb_nonce d))"

locale backup_store =
  fixes put :: "'io \<Rightarrow> justice_backup \<Rightarrow> 's \<Rightarrow> 's \<times> backup_error option"
    and get :: "byte list \<Rightarrow> 's \<Rightarrow> justice_backup option"
  assumes put_newest: "storableBackup b \<Longrightarrow> put io b s = (s', None) \<Longrightarrow> get c s' = newest b (\<lambda>c. get c s) c"
    and put_failed: "storableBackup b \<Longrightarrow> put io b s = (s', Some e) \<Longrightarrow>
      (\<forall>c. get c s' = get c s) \<or> (\<forall>c. get c s' = newest b (\<lambda>c. get c s) c)"
begin

lemma put_cases:
  assumes "storableBackup b" "put io b s = (s', r)"
  shows "(\<forall>c. get c s' = get c s) \<and> r \<noteq> None \<or> (\<forall>c. get c s' = newest b (\<lambda>c. get c s) c)"
  using put_newest [OF assms(1)] put_failed [OF assms(1)] assms(2) by (cases r) (blast | simp)+

lemma defended_keep:
  assumes "storableBackup b" "put io b s = (s', r)" "defendedIn get s c n"
  shows "defendedIn get s' c n"
proof -
  obtain d where "get c s = Some d" "n \<le> jb_nonce d" using assms(3) by (auto simp: defendedIn_def)
  then show ?thesis using put_cases [OF assms(1,2)] by (fastforce simp: defendedIn_def newest_def newer_def)
qed

lemma defended_put:
  assumes "storableBackup b" "put io b s = (s', None)"
  shows "defendedIn get s' (jb_channelID b) (jb_nonce b)"
  using put_newest [OF assms, of "jb_channelID b"]
  by (cases "get (jb_channelID b) s") (auto simp: defendedIn_def newest_def newer_def not_less split: if_splits)

lemma got_origin:
  assumes "storableBackup b" "put io b s = (s', r)" "get c s' = Some d"
  shows "get c s = Some d \<or> d = b \<and> c = jb_channelID b"
  using put_cases [OF assms(1,2)] assms(3) by (fastforce simp: newest_def split: if_splits)

lemma puts_keep_newest:
  assumes "\<And>io b. (io, b) \<in> set ps \<Longrightarrow> storableBackup b" "foldl (\<lambda>s (io, b). fst (put io b s)) s ps = s'"
  shows "(\<forall>c n. defendedIn get s c n \<longrightarrow> defendedIn get s' c n) \<and>
    (\<forall>c d. get c s' = Some d \<longrightarrow> get c s = Some d \<or> d \<in> snd ` set ps \<and> c = jb_channelID d)"
  using assms
proof (induction ps arbitrary: s)
  case (Cons p ps)
  obtain io b s1 r where p: "p = (io, b)" "put io b s = (s1, r)" by (metis surj_pair)
  have st: "storableBackup b" using Cons.prems(1) p(1) by auto
  have "(\<forall>c n. defendedIn get s1 c n \<longrightarrow> defendedIn get s' c n) \<and>
      (\<forall>c d. get c s' = Some d \<longrightarrow> get c s1 = Some d \<or> d \<in> snd ` set ps \<and> c = jb_channelID d)"
    using Cons.IH [of s1] Cons.prems p by auto
  then show ?case
    using defended_keep [OF st p(2)] got_origin [OF st p(2)] p(1) by fastforce
qed simp

lemma puts_defend:
  assumes "\<And>io b. (io, b) \<in> set ps \<Longrightarrow> storableBackup b" "\<And>s. snd (put io b s) = None"
    and "(io, b) \<in> set ps" "foldl (\<lambda>s (io, b). fst (put io b s)) s ps = s'"
  shows "defendedIn get s' (jb_channelID b) (jb_nonce b)"
  using assms(1,3,4)
proof (induction ps arbitrary: s)
  case (Cons p ps)
  obtain io' b' s1 r where p: "p = (io', b')" "put io' b' s = (s1, r)" by (metis surj_pair)
  have rest: "foldl (\<lambda>s (io, b). fst (put io b s)) s1 ps = s'" using Cons.prems(3) p by simp
  show ?case
  proof (cases "p = (io, b)")
    case True
    have "storableBackup b" by (rule Cons.prems(1) [of io]) (simp add: True)
    moreover have "put io b s = (s1, None)" using p True assms(2) [of s] by simp
    ultimately show ?thesis
      using puts_keep_newest [of ps s1 s'] defended_put [of b io s s1] Cons.prems(1) rest by auto
  next
    case False
    then show ?thesis using Cons.IH [of s1] Cons.prems(1,2) rest by auto
  qed
qed simp

lemma accepted_newest:
  assumes "\<And>b. b \<in> set bs \<Longrightarrow> storableBackup b" "\<And>b s. b \<in> set bs \<Longrightarrow> snd (put io b s) = None" "\<And>c. get c s = None"
  shows "holdsNewest get (foldl (\<lambda>s b. fst (put io b s)) s bs) bs"
proof -
  let ?ps = "map (\<lambda>b. (io, b)) bs"
  let ?s = "foldl (\<lambda>s (io, b). fst (put io b s)) s ?ps"
  have ps: "storableBackup b" if "(io', b) \<in> set ?ps" for io' b using that assms(1) by auto
  have "defendedIn get ?s (jb_channelID b) (jb_nonce b)" if "b \<in> set bs" for b
    by (rule puts_defend [of ?ps io b s]) (use ps assms(2) that in auto)
  moreover have "d \<in> set bs \<and> c = jb_channelID d" if "get c ?s = Some d" for c d
    using puts_keep_newest [of ?ps s ?s] ps that assms(3) by force
  moreover have "?s = foldl (\<lambda>s b. fst (put io b s)) s bs" by (simp add: foldl_map)
  ultimately show ?thesis
    by (fastforce simp: holdsNewest_def defendedIn_def split: option.splits)
qed

end

subsection \<open>In memory\<close>

type_synonym mem_store = "byte list \<rightharpoonup> justice_backup"

definition memPut :: "unit \<Rightarrow> justice_backup \<Rightarrow> mem_store \<Rightarrow> mem_store \<times> backup_error option" where
  "memPut u b m =
     (case validate b of
        Some e \<Rightarrow> (m, Some e)
      | None \<Rightarrow>
          (case m (jb_channelID b) of
             Some cur \<Rightarrow> if jb_nonce b \<le> jb_nonce cur then (m, None) else (m(jb_channelID b \<mapsto> b), None)
           | None \<Rightarrow> (m(jb_channelID b \<mapsto> b), None)))"

definition memGet :: "byte list \<Rightarrow> mem_store \<Rightarrow> justice_backup option" where
  "memGet channelID m = m channelID"

lemma storableBackup_valid: "storableBackup b \<Longrightarrow> validate b = None"
  by (auto simp: storableBackup_def validate_def)

lemma mem_backup_store: "backup_store memPut memGet"
proof
  fix b u m m' c
  assume "storableBackup b" "memPut u b m = (m', None)"
  then show "memGet c m' = newest b (\<lambda>c. memGet c m) c"
    by (auto simp: memPut_def memGet_def newest_def newer_def storableBackup_valid not_le split: option.splits if_splits)
next
  fix b u m m' e
  assume "storableBackup b" "memPut u b m = (m', Some e)"
  then show "(\<forall>c. memGet c m' = memGet c m) \<or> (\<forall>c. memGet c m' = newest b (\<lambda>c. memGet c m) c)"
    by (simp add: memPut_def storableBackup_valid split: option.splits if_splits)
qed

interpretation mem_tower: backup_store memPut memGet
  by (rule mem_backup_store)

subsection \<open>In files\<close>

text \<open>
  The directory is a map from channel ids to the content of \<open><id>.backup\<close>; the file name is the id in
  hexadecimal. \<open>written\<close> tells whether writing the temporary file and renaming it succeeded; if not,
  the backup file is untouched.
\<close>

type_synonym file_store = "byte list \<rightharpoonup> byte list"

definition readBackup :: "byte list \<Rightarrow> file_store \<Rightarrow> justice_backup option" where
  "readBackup channelID dir =
     (case dir channelID of
        None \<Rightarrow> None
      | Some data \<Rightarrow> (case decodeJusticeBackup data of Inl e \<Rightarrow> None | Inr b \<Rightarrow> Some b))"

definition filePut :: "bool \<Rightarrow> justice_backup \<Rightarrow> file_store \<Rightarrow> file_store \<times> backup_error option" where
  "filePut written b dir =
     (case validate b of
        Some e \<Rightarrow> (dir, Some e)
      | None \<Rightarrow>
          if (case readBackup (jb_channelID b) dir of Some cur \<Rightarrow> jb_nonce b \<le> jb_nonce cur | None \<Rightarrow> False)
          then (dir, None)
          else case encodeBackup b of
            Inl e \<Rightarrow> (dir, Some e)
          | Inr enc \<Rightarrow> if written then (dir(jb_channelID b \<mapsto> enc), None) else (dir, Some WriteFailed))"

definition fileGet :: "byte list \<Rightarrow> file_store \<Rightarrow> justice_backup option" where
  "fileGet channelID dir = readBackup channelID dir"

lemma encode_storable:
  assumes "storableBackup b"
  obtains data where "encodeBackup b = Inr data" "decodeJusticeBackup data = Inr b"
  using encode_fields [OF assms] decode_encoded [OF assms, of _ "[]"] by (metis append.right_neutral)

lemma file_backup_store: "backup_store filePut fileGet"
proof
  fix b written dir dir' c
  assume a: "storableBackup b" "filePut written b dir = (dir', None)"
  obtain data where "encodeBackup b = Inr data" "decodeJusticeBackup data = Inr b" by (rule encode_storable [OF a(1)])
  then show "fileGet c dir' = newest b (\<lambda>c. fileGet c dir) c"
    using a by (auto simp: filePut_def fileGet_def newest_def newer_def storableBackup_valid not_le readBackup_def
        split: option.splits if_splits sum.splits)
next
  fix b written dir dir' e
  assume "storableBackup b" "filePut written b dir = (dir', Some e)"
  then show "(\<forall>c. fileGet c dir' = fileGet c dir) \<or> (\<forall>c. fileGet c dir' = newest b (\<lambda>c. fileGet c dir) c)"
    by (auto simp: filePut_def storableBackup_valid split: option.splits if_splits sum.splits)
qed

interpretation file_tower: backup_store filePut fileGet
  by (rule file_backup_store)

section \<open>The server\<close>

definition statusOK :: byte where "statusOK = 0"

definition statusErr :: byte where "statusErr = 1"

text \<open>
  One uploaded message and the status that answers it; \<open>put\<close> is the store of the tower. The loop of
  \<open>handle\<close> repeats this until the connection fails.
\<close>

definition handleUpload ::
  "('io \<Rightarrow> justice_backup \<Rightarrow> 's \<Rightarrow> 's \<times> backup_error option) \<Rightarrow> 'io \<Rightarrow> byte list \<Rightarrow> 's \<Rightarrow> 's \<times> byte" where
  "handleUpload put io msg s =
     (case decodeJusticeBackup msg of
        Inl e \<Rightarrow> (s, statusErr)
      | Inr b \<Rightarrow>
          (case put io b s of
             (s', Some e) \<Rightarrow> (s', statusErr)
           | (s', None) \<Rightarrow> (s', statusOK)))"

text \<open>
  \<open>RemoteStore.Put\<close>, against a tower with that store. \<open>reached\<close> tells whether the upload got to the
  tower (brontide connection, write and flush), \<open>ack\<close> whether its answer got back.
\<close>

definition remotePut ::
  "('io \<Rightarrow> justice_backup \<Rightarrow> 's \<Rightarrow> 's \<times> backup_error option) \<Rightarrow>
   bool \<times> bool \<times> 'io \<Rightarrow> justice_backup \<Rightarrow> 's \<Rightarrow> 's \<times> backup_error option" where
  "remotePut put = (\<lambda>(reached, ack, io) b s.
     case encodeBackup b of
       Inl e \<Rightarrow> (s, Some e)
     | Inr enc \<Rightarrow>
         if \<not> reached then (s, Some DialFailed)
         else let (s', status) = handleUpload put io enc s
              in if \<not> ack then (s', Some AckLost)
                 else if status \<noteq> statusOK then (s', Some TowerRejected)
                 else (s', None))"

text \<open>A store behind the network is a store: losing the answer is the case of a failed put that stored.\<close>

locale tower_store = backup_store put get
  for put :: "'io \<Rightarrow> justice_backup \<Rightarrow> 's \<Rightarrow> 's \<times> backup_error option"
    and get :: "byte list \<Rightarrow> 's \<Rightarrow> justice_backup option"
begin

lemma remotePut_cases:
  assumes "storableBackup b" "remotePut put (reached, ack, io) b s = (s', r)"
  obtains (Lost) "s' = s" "r \<noteq> None" | (Stored) r' where "put io b s = (s', r')" "r = None \<Longrightarrow> r' = None"
proof -
  obtain data where d: "encodeBackup b = Inr data" "decodeJusticeBackup data = Inr b"
    by (rule encode_storable [OF assms(1)])
  obtain s1 r1 where p: "put io b s = (s1, r1)" by fastforce
  then show thesis
    using assms(2) d Lost Stored
    by (auto simp: remotePut_def handleUpload_def statusOK_def statusErr_def split: if_splits option.splits)
qed

lemma remote_backup_store: "backup_store (remotePut put) get"
proof
  fix b io s s' c
  assume a: "storableBackup b" "remotePut put io b s = (s', None)"
  obtain reached ack io' where io: "io = (reached, ack, io')" by (metis surj_pair)
  show "get c s' = newest b (\<lambda>c. get c s) c"
    by (rule remotePut_cases [OF a [unfolded io]]) (use put_newest [OF a(1)] in auto)
next
  fix b io s s' e
  assume a: "storableBackup b" "remotePut put io b s = (s', Some e)"
  obtain reached ack io' where io: "io = (reached, ack, io')" by (metis surj_pair)
  show "(\<forall>c. get c s' = get c s) \<or> (\<forall>c. get c s' = newest b (\<lambda>c. get c s) c)"
    by (rule remotePut_cases [OF a [unfolded io]]) (use put_cases [OF a(1)] in blast)+
qed

end

sublocale tower_store \<subseteq> remote: backup_store "remotePut put" get
  by (rule remote_backup_store)

interpretation mem_server: tower_store memPut memGet
  by (rule tower_store.intro) (rule mem_backup_store)

interpretation file_server: tower_store filePut fileGet
  by (rule tower_store.intro) (rule file_backup_store)

section \<open>The node\<close>

text \<open>The channel, its latest commitment, and the signature the peer gave for it.\<close>

type_synonym open_channel = "evm_channel \<times> disk_commitment \<times> byte list"

definition evmJusticeBackupFields :: "evm_env \<Rightarrow> open_channel \<Rightarrow> sig_error + justice_backup" where
  "evmJusticeBackupFields env = (\<lambda>(ch, commit, commitSig).
     case evmStateUpdateFromDiskCommit (ee_keccak env) (ee_sort env) (ee_params env) ch commit of
       None \<Rightarrow> Inl StateEncodingPanic
     | Some su \<Rightarrow>
         (case evmRetainedSig65 env ch commit commitSig of
            Inl e \<Rightarrow> Inl e
          | Inr sig65 \<Rightarrow>
              Inr \<lparr>jb_channelID = su_channelID su, jb_nonce = su_nonce su, jb_balanceA = Some (su_balanceA su),
                   jb_balanceB = Some (su_balanceB su), jb_htlcsHash = su_htlcsHash su, jb_counterpartySig = sig65\<rparr>))"

text \<open>\<open>None\<close> is a panic of the encoding, which takes the node down.\<close>

definition evmBackups :: "evm_env \<Rightarrow> open_channel list \<Rightarrow> justice_backup list option" where
  "evmBackups env chans =
     (if \<exists>c \<in> set chans. evmJusticeBackupFields env c = Inl StateEncodingPanic then None
      else Some (concat (map (\<lambda>c. case evmJusticeBackupFields env c of Inl e \<Rightarrow> [] | Inr b \<Rightarrow> [b]) chans)))"

text \<open>
  \<open>snapshot\<close>: the agent remembers the nonce it last pushed for a channel. The outcome of the put of a
  backup is \<open>io b\<close>; a failed source gives no backups.
\<close>

definition pushBackup ::
  "('io \<Rightarrow> justice_backup \<Rightarrow> 's \<Rightarrow> 's \<times> backup_error option) \<Rightarrow> (justice_backup \<Rightarrow> 'io) \<Rightarrow> justice_backup \<Rightarrow>
   's \<times> (byte list \<rightharpoonup> u64) \<Rightarrow> 's \<times> (byte list \<rightharpoonup> u64)" where
  "pushBackup put io b = (\<lambda>(s, sent).
     if (case sent (jb_channelID b) of None \<Rightarrow> False | Some pushed \<Rightarrow> jb_nonce b \<le> pushed) then (s, sent)
     else case put (io b) b s of
       (s', Some e) \<Rightarrow> (s', sent)
     | (s', None) \<Rightarrow> (s', sent(jb_channelID b \<mapsto> jb_nonce b)))"

definition snapshot ::
  "('io \<Rightarrow> justice_backup \<Rightarrow> 's \<Rightarrow> 's \<times> backup_error option) \<Rightarrow> (justice_backup \<Rightarrow> 'io) \<Rightarrow>
   justice_backup list option \<Rightarrow> 's \<times> (byte list \<rightharpoonup> u64) \<Rightarrow> 's \<times> (byte list \<rightharpoonup> u64)" where
  "snapshot put io source st = (case source of None \<Rightarrow> st | Some backups \<Rightarrow> fold (pushBackup put io) backups st)"

text \<open>What the agent believes it has pushed is held by the store.\<close>

definition agentOk :: "(byte list \<Rightarrow> 's \<Rightarrow> justice_backup option) \<Rightarrow> 's \<Rightarrow> (byte list \<rightharpoonup> u64) \<Rightarrow> bool" where
  "agentOk get s sent \<longleftrightarrow> (\<forall>c n. sent c = Some n \<longrightarrow> defendedIn get s c n)"

context backup_store
begin

lemma pushBackup_step:
  assumes "storableBackup b" "pushBackup put io b (s, sent) = (s', sent')" "agentOk get s sent"
  shows "agentOk get s' sent'" "\<And>c n. defendedIn get s c n \<Longrightarrow> defendedIn get s' c n"
    "snd (put (io b) b s) = None \<Longrightarrow> defendedIn get s' (jb_channelID b) (jb_nonce b)"
proof (atomize (full), goal_cases)
  case 1
  obtain s1 r where p: "put (io b) b s = (s1, r)" by fastforce
  consider (skip) pushed where "sent (jb_channelID b) = Some pushed" "jb_nonce b \<le> pushed" "s' = s" "sent' = sent"
    | (fail) "s' = s1" "sent' = sent" "r \<noteq> None"
    | (ok) "s' = s1" "sent' = sent(jb_channelID b \<mapsto> jb_nonce b)" "r = None"
    using assms(2) p by (auto simp: pushBackup_def split: option.splits if_splits)
  then show ?case
  proof cases
    case skip
    then show ?thesis using assms(3) by (fastforce simp: agentOk_def defendedIn_def)
  next
    case fail
    then show ?thesis using assms(3) p defended_keep [OF assms(1) p] by (auto simp: agentOk_def)
  next
    case ok
    then have "defendedIn get s' (jb_channelID b) (jb_nonce b)" using defended_put [OF assms(1)] p by blast
    then show ?thesis using ok assms(3) defended_keep [OF assms(1) p] by (auto simp: agentOk_def)
  qed
qed

lemma snapshot_defends:
  assumes "\<And>b. b \<in> set backups \<Longrightarrow> storableBackup b" "agentOk get s sent" "snapshot put io (Some backups) (s, sent) = (s', sent')"
  shows "agentOk get s' sent'" "\<And>c n. defendedIn get s c n \<Longrightarrow> defendedIn get s' c n"
    "\<And>b. b \<in> set backups \<Longrightarrow> (\<And>s. snd (put (io b) b s) = None) \<Longrightarrow> defendedIn get s' (jb_channelID b) (jb_nonce b)"
  using assms
proof (atomize (full), induction backups arbitrary: s sent)
  case Nil
  then show ?case by (simp add: snapshot_def)
next
  case (Cons b backups)
  obtain s1 sent1 where p: "pushBackup put io b (s, sent) = (s1, sent1)" by fastforce
  have st: "storableBackup b" using Cons.prems(1) by simp
  note one = pushBackup_step [OF st p Cons.prems(2)]
  have "snapshot put io (Some backups) (s1, sent1) = (s', sent')" using Cons.prems(3) p by (simp add: snapshot_def)
  from Cons.IH [OF _ one(1) this] Cons.prems(1) one(2,3) show ?case by simp
qed

end

lemma accepted_puts:
  "storableBackup b \<Longrightarrow> snd (memPut u b m) = None" "storableBackup b \<Longrightarrow> snd (filePut True b dir) = None"
  by (auto simp: memPut_def filePut_def storableBackup_valid elim: encode_storable split: option.splits sum.splits)

lemma accepted_uploads: "storableBackup b \<Longrightarrow> snd (remotePut filePut (True, True, True) b dir) = None"
proof -
  assume b: "storableBackup b"
  obtain data where "encodeBackup b = Inr data" "decodeJusticeBackup data = Inr b" by (rule encode_storable [OF b])
  then show ?thesis
    using accepted_puts(2) [OF b, of dir]
    by (auto simp: remotePut_def handleUpload_def split: prod.splits option.splits)
qed

text \<open>
  C22: a store holds the newest backup of every channel. Starting empty, after any list of accepted
  backups, in any order and with repetitions, it has one for exactly the channels of the list, and that
  one has the highest nonce; in memory, in files, and in the files of a tower behind the network.
\<close>

theorem stores_keep_newest:
  assumes "\<And>b. b \<in> set bs \<Longrightarrow> storableBackup b"
  shows "holdsNewest memGet (foldl (\<lambda>m b. fst (memPut () b m)) Map.empty bs) bs \<and>
    holdsNewest fileGet (foldl (\<lambda>dir b. fst (filePut True b dir)) Map.empty bs) bs \<and>
    holdsNewest fileGet (foldl (\<lambda>dir b. fst (remotePut filePut (True, True, True) b dir)) Map.empty bs) bs"
  by (intro conjI mem_tower.accepted_newest file_tower.accepted_newest file_server.remote.accepted_newest assms)
    (simp_all add: accepted_puts accepted_uploads assms memGet_def fileGet_def readBackup_def)

section \<open>The backups of a node\<close>

lemma length_nextLevel_node:
  assumes "\<And>x. length (keccak x) = 32" "\<forall>l \<in> set nodes. length l = 32"
  shows "\<forall>l \<in> set (nextLevel keccak nodes). length l = 32"
  using assms by (induction keccak nodes rule: nextLevel.induct) (auto simp: commutativeHash_def)

lemma length_rootLoop:
  assumes "\<And>x. length (keccak x) = 32" "nodes \<noteq> []" "\<forall>l \<in> set nodes. length l = 32"
  shows "length (rootLoop keccak nodes) = 32"
  using assms
proof (induction keccak nodes rule: rootLoop.induct)
  case (1 keccak nodes)
  show ?case
  proof (cases "1 < length nodes")
    case True
    then have "0 < length (nextLevel keccak nodes)" by simp
    then have "nextLevel keccak nodes \<noteq> []" by blast
    then show ?thesis using 1 True length_nextLevel_node [of keccak nodes] by (simp add: rootLoop.simps [of keccak nodes])
  next
    case False
    then show ?thesis using 1 by (simp add: rootLoop.simps [of keccak nodes])
  qed
qed

lemma length_htlcsHash:
  assumes "\<And>x. length (keccak x) = 32" "htlcsMerkleRoot keccak srt htlcs = Some root"
  shows "length root = 32"
proof -
  obtain leaves where l: "those (map (leaf keccak) (srt htlcs)) = Some leaves"
    "root = (if leaves = [] then replicate 32 0 else rootLoop keccak leaves)"
    using assms(2) by (auto simp: htlcsMerkleRoot_def sortedLeaves_def split: bind_splits)
  have "length x = 32" if x: "x \<in> set leaves" for x
  proof -
    obtain h where "leaf keccak h = Some x" using x those_map_Some [OF l(1)] by (auto simp: in_set_conv_nth)
    then show ?thesis using assms(1) by (auto simp: leaf_def)
  qed
  then show ?thesis using l(2) length_rootLoop [of keccak leaves] assms(1) by auto
qed

text \<open>
  A backup of a node is storableBackup, and the signature in it is the counterparty's on the state it holds:
  the very call that a penalty of the node itself would make.
\<close>

lemma node_backup:
  assumes "evmJusticeBackupFields env (ch, commit, commitSig) = Inr b"
    and "\<And>x. length (ee_keccak env x) = 32" "length (ch_channelID ch) = 32"
  obtains su where "evmStateUpdateFromDiskCommit (ee_keccak env) (ee_sort env) (ee_params env) ch commit = Some su"
    "coSigned env su (jb_counterpartySig b) (ch_theirAddr ch)" "storableBackup b"
    "b = \<lparr>jb_channelID = ch_channelID ch, jb_nonce = dc_commitHeight commit, jb_balanceA = Some (su_balanceA su),
          jb_balanceB = Some (su_balanceB su), jb_htlcsHash = su_htlcsHash su,
          jb_counterpartySig = jb_counterpartySig b\<rparr>"
    "evmPenalizeTx env ch commit commitSig
       = Inr (EvmCallPenalize (jb_nonce b) (su_balanceA su) (su_balanceB su) (jb_htlcsHash b) (jb_counterpartySig b))"
proof -
  obtain su sig65 where u: "evmStateUpdateFromDiskCommit (ee_keccak env) (ee_sort env) (ee_params env) ch commit = Some su"
    "evmRetainedSig65 env ch commit commitSig = Inr sig65"
    "b = \<lparr>jb_channelID = su_channelID su, jb_nonce = su_nonce su, jb_balanceA = Some (su_balanceA su),
          jb_balanceB = Some (su_balanceB su), jb_htlcsHash = su_htlcsHash su, jb_counterpartySig = sig65\<rparr>"
    using assms(1) by (auto simp: evmJusticeBackupFields_def split: option.splits sum.splits)
  have f: "su_channelID su = ch_channelID ch" "su_nonce su = dc_commitHeight commit" "0 \<le> su_balanceA su" "0 \<le> su_balanceB su"
    "htlcsMerkleRoot (ee_keccak env) (ee_sort env) (evmHTLCsFromDiskCommit (ee_params env) ch commit) = Some (su_htlcsHash su)"
    using u(1) by (auto simp: evmStateUpdateFromDiskCommit_def evmBalanceSplit_eq Let_def evmScaleToBase_pos toSatoshis_value
        split: bind_splits)
  note c = retained_coSigned [OF u(2,1)]
  have "length sig65 = 65" using c by (simp add: coSigned_def)
  moreover have "su_balanceA su < 2 ^ 256" "su_balanceB su < 2 ^ 256"
    using c f(3,4) by (auto simp: coSigned_def stateUpdateDigest_def stateUpdateBytes_def encodeUint256_def split: bind_splits if_splits)
  moreover have "length (su_htlcsHash su) = 32" by (rule length_htlcsHash [OF assms(2) f(5)])
  ultimately have "storableBackup b" using u(3) f assms(3) by (auto simp: storableBackup_def)
  then show ?thesis using that [OF u(1)] c u f by (simp add: evmPenalizeTx_def)
qed

section \<open>Who may upload\<close>

text \<open>The allowlist is a set of public keys; the empty set lets everybody in.\<close>

type_synonym pub_key = "byte list"

definition shouldAccept :: "pub_key set \<Rightarrow> pub_key \<Rightarrow> bool" where
  "shouldAccept allowed pub \<longleftrightarrow> allowed = {} \<or> pub \<in> allowed"

definition setAllowed :: "pub_key list \<Rightarrow> pub_key set" where
  "setAllowed pubs = set pubs"

definition allow :: "pub_key \<Rightarrow> pub_key set \<Rightarrow> pub_key set" where
  "allow pub allowed = insert pub allowed"

definition disallow :: "pub_key \<Rightarrow> pub_key set \<Rightarrow> pub_key set" where
  "disallow pub allowed = allowed - {pub}"

text \<open>
  The file: one key in hexadecimal per line. Spaces are the ASCII ones; \<open>parseKey\<close> is the third-party
  parser of public keys (its result in compressed form).
\<close>

definition isSpace :: "char \<Rightarrow> bool" where
  "isSpace c \<longleftrightarrow> c \<in> set [CHR '' '', CHR 0x09, CHR 0x0A, CHR 0x0B, CHR 0x0C, CHR 0x0D]"

definition trimSpace :: "string \<Rightarrow> string" where
  "trimSpace s = rev (dropWhile isSpace (rev (dropWhile isSpace s)))"

fun splitLines :: "string \<Rightarrow> string list" where
  "splitLines [] = [[]]"
| "splitLines (c # cs) = (if c = CHR 0x0A then [] # splitLines cs else (c # hd (splitLines cs)) # tl (splitLines cs))"

definition hexDigit :: "char \<Rightarrow> nat option" where
  "hexDigit c = map_of (zip ''0123456789abcdefABCDEF'' [0, 1, 2, 3, 4, 5, 6, 7, 8, 9, 10, 11, 12, 13, 14, 15, 10, 11, 12, 13, 14, 15]) c"

fun hexDecode :: "string \<Rightarrow> byte list option" where
  "hexDecode [] = Some []"
| "hexDecode [c] = None"
| "hexDecode (c # d # cs) =
     (case (hexDigit c, hexDigit d, hexDecode cs) of
        (Some x, Some y, Some bs) \<Rightarrow> Some (word_of_nat (16 * x + y) # bs)
      | _ \<Rightarrow> None)"

fun parseLines :: "(byte list \<rightharpoonup> pub_key) \<Rightarrow> nat \<Rightarrow> string list \<Rightarrow> nat + pub_key list" where
  "parseLines parseKey i [] = Inr []"
| "parseLines parseKey i (line # ls) =
     (let s = trimSpace line;
          digits = (if take 2 s = ''0x'' then drop 2 s else s)
      in if s = [] \<or> hd s = CHR ''#'' then parseLines parseKey (i + 1) ls
         else case Option.bind (hexDecode digits) parseKey of
           None \<Rightarrow> Inl (i + 1)
         | Some key \<Rightarrow>
             (case parseLines parseKey (i + 1) ls of Inl e \<Rightarrow> Inl e | Inr keys \<Rightarrow> Inr (key # keys)))"

definition parseAllowlistFile :: "(byte list \<rightharpoonup> pub_key) \<Rightarrow> string option \<Rightarrow> nat + pub_key list" where
  "parseAllowlistFile parseKey content =
     (case content of None \<Rightarrow> Inl 0 | Some text \<Rightarrow> parseLines parseKey 0 (splitLines text))"

text \<open>
  \<open>reloadAllowlist\<close>: the state is the set and the modification time last applied; \<open>file\<close> is the result
  of \<open>Stat\<close>, the time and the content if it can be read.
\<close>

definition reloadAllowlist ::
  "(byte list \<rightharpoonup> pub_key) \<Rightarrow> (int \<times> string option) option \<Rightarrow> pub_key set \<times> int \<Rightarrow> pub_key set \<times> int" where
  "reloadAllowlist parseKey file = (\<lambda>(allowed, allowlistMod).
     case file of
       None \<Rightarrow> (allowed, allowlistMod)
     | Some (modTime, content) \<Rightarrow>
         if modTime = allowlistMod then (allowed, allowlistMod)
         else case parseAllowlistFile parseKey content of
           Inl e \<Rightarrow> (allowed, modTime)
         | Inr keys \<Rightarrow> (setAllowed keys, modTime))"

text \<open>
  A file with a malformed line or without read permission changes nothing. But an empty file, which is
  what an edit in place leaves for a moment, opens the tower to everybody, as does removing the last
  key.
\<close>

lemma reload_keeps:
  "parseAllowlistFile parseKey content = Inl e \<Longrightarrow>
     fst (reloadAllowlist parseKey (Some (t, content)) (allowed, t0)) = allowed"
  by (simp add: reloadAllowlist_def)

lemma empty_file_opens:
  "t \<noteq> t0 \<Longrightarrow> shouldAccept (fst (reloadAllowlist parseKey (Some (t, Some [])) (allowed, t0))) pub"
  "shouldAccept (disallow key (allow key {})) pub"
  by (simp_all add: reloadAllowlist_def parseAllowlistFile_def trimSpace_def setAllowed_def shouldAccept_def
      disallow_def allow_def)

text \<open>
  The store trusts whoever uploads: a backup of a foreign channel with the highest nonce and a made-up
  signature displaces the genuine one, and no later backup of the victim is stored.
\<close>

lemma forged_backup_wins:
  assumes "storableBackup forged" "jb_nonce forged = - 1" "encodeBackup forged = Inr msg" "handleUpload memPut () msg m = (m', status)"
    and "m (jb_channelID forged) = Some genuine" "jb_nonce genuine < - 1"
    and "jb_channelID b = jb_channelID forged"
  shows "status = statusOK \<and> memGet (jb_channelID forged) m' = Some forged \<and> fst (memPut u b m') = m'"
proof -
  have d: "decodeJusticeBackup msg = Inr forged" using decode_encoded [OF assms(1,3), of "[]"] by simp
  have "memPut () forged m = (m(jb_channelID forged \<mapsto> forged), None)"
    using assms(2,5,6) storableBackup_valid [OF assms(1)] by (auto simp: memPut_def)
  then have m': "m' = m(jb_channelID forged \<mapsto> forged)" "status = statusOK"
    using assms(4) d by (simp_all add: handleUpload_def)
  have "jb_nonce b \<le> jb_nonce forged" using assms(2) by simp
  then show ?thesis using m' assms(7) by (auto simp: memPut_def memGet_def split: option.splits)
qed

section \<open>Examples\<close>

definition demo_backup :: "byte \<Rightarrow> u64 \<Rightarrow> justice_backup" where
  "demo_backup c n = \<lparr>jb_channelID = replicate 32 c, jb_nonce = n, jb_balanceA = Some 70000, jb_balanceB = Some 0,
     jb_htlcsHash = replicate 32 0, jb_counterpartySig = replicate 65 1\<rparr>"

lemma demo_backup_storable: "storableBackup (demo_backup c n)"
  by (simp add: storableBackup_def demo_backup_def)

theorem backup_roundtrip_witness:
  "\<exists>data. encodeBackup (demo_backup 3 17) = Inr data \<and> decodeJusticeBackup (data @ [1, 2]) = Inr (demo_backup 3 17)"
  using backup_roundtrip [OF demo_backup_storable, where trailing = "[1, 2]"] by metis

theorem stores_keep_newest_witness:
  "holdsNewest fileGet
     (foldl (\<lambda>dir b. fst (remotePut filePut (True, True, True) b dir)) Map.empty
        [demo_backup 3 17, demo_backup 4 2, demo_backup 3 16]) [demo_backup 3 17, demo_backup 4 2, demo_backup 3 16]"
  using stores_keep_newest [of "[demo_backup 3 17, demo_backup 4 2, demo_backup 3 16]"] demo_backup_storable by auto

end
