(* ===== verification/Evm_Tower.thy ===== *)
theory Evm_Tower
  imports Evm_Backup
begin

text \<open>
  The watchtower's lookout (\<open>src/watchtower/evmtower/lookout.go\<close>): the scan of the chain for unilateral
  closes in windows, the test for a breach, and the penalty it submits (\<open>penalizer.go\<close>).

  Block numbers are unsigned 64-bit. A poll carries what the outside answers: the tip of the chain, the
  logs of a range of blocks, the clock, the store, and the RPC calls of a penalty.
\<close>

section \<open>Penalties\<close>

record penalize_tx =
  px_nonce :: u64
  px_gas :: nat
  px_gasPrice :: int
  px_channelID :: "byte list"
  px_call :: evm_call

text \<open>The answers of the client and of the third-party packing and signing.\<close>

record evm_rpc =
  rpc_packs :: bool
  rpc_chainID :: bool
  rpc_pendingNonce :: "u64 option"
  rpc_suggestGasPrice :: "int option"
  rpc_signs :: bool
  rpc_sends :: bool

definition penalizeGasLimit :: nat where
  "penalizeGasLimit = 500000"

definition gasPriceBufferPct :: int where
  "gasPriceBufferPct = 25"

text \<open>The transaction that was handed to the client, if it came to that, and whether the penalty succeeded.\<close>

definition penalize :: "evm_rpc \<Rightarrow> justice_backup \<Rightarrow> penalize_tx option \<times> bool" where
  "penalize rpc b =
     (if validate b \<noteq> None \<or> \<not> rpc_packs rpc \<or> \<not> rpc_chainID rpc then (None, False)
      else case (rpc_pendingNonce rpc, rpc_suggestGasPrice rpc) of
        (Some nonce, Some gasPrice) \<Rightarrow>
          if \<not> rpc_signs rpc then (None, False)
          else (Some \<lparr>px_nonce = nonce, px_gas = penalizeGasLimit,
                      px_gasPrice = gasPrice * (100 + gasPriceBufferPct) div 100, px_channelID = jb_channelID b,
                      px_call = EvmCallPenalize (jb_nonce b) (the (jb_balanceA b)) (the (jb_balanceB b))
                                  (jb_htlcsHash b) (jb_counterpartySig b)\<rparr>,
                rpc_sends rpc)
      | _ \<Rightarrow> (None, False))"

section \<open>The lookout\<close>

record lookout_cfg =
  lo_fromBlock :: u64
  lo_windowSize :: u64
  lo_reorgDepth :: u64

record lookout =
  lo_cursor :: u64
  lo_cursorSet :: bool
  lo_done :: "byte list set"

definition newLookout :: lookout where
  "newLookout = \<lparr>lo_cursor = 0, lo_cursorSet = False, lo_done = {}\<rparr>"

record close_log =
  lg_topics :: "byte list list"
  lg_data :: "byte list"

record tower_poll =
  pl_tip :: "u64 option"
  pl_logs :: "u64 \<Rightarrow> u64 \<Rightarrow> close_log list option"
  pl_now :: u64
  pl_get :: "byte list \<Rightarrow> justice_backup option"
  pl_rpc :: "justice_backup \<Rightarrow> evm_rpc"

definition shouldPenalize :: "justice_backup option \<Rightarrow> u64 \<Rightarrow> bool" where
  "shouldPenalize backup broadcastNonce \<longleftrightarrow>
     (case backup of None \<Rightarrow> False | Some b \<Rightarrow> broadcastNonce < jb_nonce b)"

text \<open>
  \<open>UnpackUnilateralClose\<close>: the third-party decoder \<open>unpack\<close> gives the broadcaster, the nonce and the
  deadline as numbers of which the low 64 bits are taken.
\<close>

type_synonym unpack_fn = "byte list \<Rightarrow> (byte list \<times> int \<times> int) option"

definition unpackUnilateralClose :: "unpack_fn \<Rightarrow> byte list \<Rightarrow> (byte list \<times> u64 \<times> u64) option" where
  "unpackUnilateralClose unpack data =
     map_option (\<lambda>(broadcaster, nonce, expiry). (broadcaster, word_of_int nonce, word_of_int expiry)) (unpack data)"

text \<open>The attempts to penalize are recorded, with the log they answer.\<close>

type_synonym attempt = "close_log \<times> justice_backup \<times> penalize_tx option \<times> bool"

definition handleClose :: "unpack_fn \<Rightarrow> tower_poll \<Rightarrow> close_log \<Rightarrow> lookout \<times> attempt list \<Rightarrow> lookout \<times> attempt list" where
  "handleClose unpack pl lg = (\<lambda>(l, attempts).
     if length (lg_topics lg) < 2 then (l, attempts)
     else let channelID = lg_topics lg ! 1 in
       if channelID \<in> lo_done l then (l, attempts)
       else case unpackUnilateralClose unpack (lg_data lg) of
         None \<Rightarrow> (l, attempts)
       | Some (_, broadcastNonce, challengeExpiry) \<Rightarrow>
           (case pl_get pl channelID of
              None \<Rightarrow> (l, attempts)
            | Some backup \<Rightarrow>
                if \<not> shouldPenalize (Some backup) broadcastNonce then (l, attempts)
                else if challengeExpiry \<noteq> 0 \<and> challengeExpiry \<le> pl_now pl then (l, attempts)
                else let (tx, ok) = penalize (pl_rpc pl backup) backup
                     in (if ok then l\<lparr>lo_done := insert channelID (lo_done l)\<rparr> else l,
                         attempts @ [(lg, backup, tx, ok)])))"

definition scanWindow :: "lookout_cfg \<Rightarrow> u64" where
  "scanWindow cfg = (if lo_windowSize cfg = 0 then 1800 else lo_windowSize cfg)"

definition anchor :: "lookout_cfg \<Rightarrow> u64 \<Rightarrow> u64" where
  "anchor cfg best = (if lo_fromBlock cfg = 0 \<and> scanWindow cfg < best then best - scanWindow cfg else lo_fromBlock cfg)"

definition safeTip :: "lookout_cfg \<Rightarrow> u64 \<Rightarrow> u64" where
  "safeTip cfg best =
     (let depth = (if lo_reorgDepth cfg = 0 then 2 else lo_reorgDepth cfg) in if depth < best then best - depth else 0)"

text \<open>One scan: the state after it, the range that was searched (if it was) and the attempts.\<close>

definition scan :: "unpack_fn \<Rightarrow> lookout_cfg \<Rightarrow> tower_poll \<Rightarrow> lookout \<Rightarrow> lookout \<times> (u64 \<times> u64) option \<times> attempt list" where
  "scan unpack cfg pl l =
     (case pl_tip pl of
        None \<Rightarrow> (l, None, [])
      | Some best \<Rightarrow>
          (let l = (if lo_cursorSet l then l else l\<lparr>lo_cursor := anchor cfg best, lo_cursorSet := True\<rparr>);
               fromB = lo_cursor l;
               toB = (let t = fromB + scanWindow cfg - 1 in if safeTip cfg best < t then safeTip cfg best else t)
           in if safeTip cfg best < fromB then (l, None, [])
              else case pl_logs pl fromB toB of
                None \<Rightarrow> (l, None, [])
              | Some logs \<Rightarrow>
                  (let (l', attempts) = fold (handleClose unpack pl) logs (l, [])
                   in (l'\<lparr>lo_cursor := toB + 1\<rparr>, Some (fromB, toB), attempts))))"

fun scans :: "unpack_fn \<Rightarrow> lookout_cfg \<Rightarrow> tower_poll list \<Rightarrow> lookout \<Rightarrow> lookout \<times> (u64 \<times> u64) list \<times> attempt list" where
  "scans unpack cfg [] l = (l, [], [])"
| "scans unpack cfg (pl # pls) l =
     (let (l1, range, attempts) = scan unpack cfg pl l;
          (l2, ranges, attempts') = scans unpack cfg pls l1
      in (l2, (case range of None \<Rightarrow> ranges | Some r \<Rightarrow> r # ranges), attempts @ attempts'))"

section \<open>The windows\<close>

text \<open>Heights are far below the range of the type; a poll of a real chain satisfies this.\<close>

definition poll_heights :: "lookout_cfg \<Rightarrow> tower_poll list \<Rightarrow> bool" where
  "poll_heights cfg pls \<longleftrightarrow> scanWindow cfg < 2 ^ 62 \<and> lo_fromBlock cfg < 2 ^ 62 \<and>
     (\<forall>pl \<in> set pls. \<forall>best. pl_tip pl = Some best \<longrightarrow> best < 2 ^ 62)"

lemma handleCloses_cursor:
  "fold (handleClose unpack pl) logs (l, attempts) = (l', attempts') \<Longrightarrow>
     lo_cursor l' = lo_cursor l \<and> lo_cursorSet l' = lo_cursorSet l"
proof (induction logs arbitrary: l attempts)
  case (Cons lg logs)
  obtain l1 a1 where h: "handleClose unpack pl lg (l, attempts) = (l1, a1)" by fastforce
  then have "lo_cursor l1 = lo_cursor l \<and> lo_cursorSet l1 = lo_cursorSet l"
    by (auto simp: handleClose_def Let_def split: if_splits option.splits prod.splits)
  then show ?case using Cons h by simp
qed simp

text \<open>The cursor at a poll, after the lazy initialisation.\<close>

definition cursorAt :: "lookout_cfg \<Rightarrow> u64 \<Rightarrow> lookout \<Rightarrow> u64" where
  "cursorAt cfg best l = (if lo_cursorSet l then lo_cursor l else anchor cfg best)"

lemma safeTip_le: "safeTip cfg best \<le> best"
  by (simp add: safeTip_def Let_def) unat_arith

lemma unat_window_end:
  fixes c w :: u64
  assumes "unat c < 2 ^ 62" "0 < unat w" "unat w < 2 ^ 62"
  shows "unat (c + w - 1) = unat c + unat w - 1"
proof -
  have "unat (c + w) = unat c + unat w" using assms by (subst unat_add_lem [THEN iffD1]) simp_all
  moreover from this have "1 \<le> c + w" using assms by (simp add: word_le_nat_alt)
  ultimately show ?thesis by (simp add: unat_sub)
qed

lemma scan_cases:
  assumes "scan unpack cfg pl l = (l', r, attempts)"
    and "scanWindow cfg < 2 ^ 62" "\<forall>best. pl_tip pl = Some best \<longrightarrow> best < 2 ^ 62"
  obtains (NoTip) "pl_tip pl = None" "l' = l" "r = None" "attempts = []"
    | (Idle) best where "pl_tip pl = Some best" "l' = l\<lparr>lo_cursor := cursorAt cfg best l, lo_cursorSet := True\<rparr>"
      "r = None" "attempts = []"
      "safeTip cfg best < cursorAt cfg best l \<or> (\<exists>t. pl_logs pl (cursorAt cfg best l) t = None)"
    | (Scanned) best t logs l1 where "pl_tip pl = Some best" "r = Some (cursorAt cfg best l, t)"
      "pl_logs pl (cursorAt cfg best l) t = Some logs"
      "fold (handleClose unpack pl) logs (l\<lparr>lo_cursor := cursorAt cfg best l, lo_cursorSet := True\<rparr>, []) = (l1, attempts)"
      "l' = l1\<lparr>lo_cursor := t + 1\<rparr>" "cursorAt cfg best l \<le> t" "t \<le> safeTip cfg best" "t < 2 ^ 62"
      "unat t = min (unat (cursorAt cfg best l) + unat (scanWindow cfg) - 1) (unat (safeTip cfg best))"
proof (cases "pl_tip pl")
  case None
  then show ?thesis using assms(1) NoTip by (simp add: scan_def)
next
  case (Some best)
  let ?c = "cursorAt cfg best l" and ?w = "scanWindow cfg" and ?safe = "safeTip cfg best"
  define t where "t = (if ?safe < ?c + ?w - 1 then ?safe else ?c + ?w - 1)"
  let ?l = "l\<lparr>lo_cursor := ?c, lo_cursorSet := True\<rparr>"
  have anchored: "(if lo_cursorSet l then l else l\<lparr>lo_cursor := anchor cfg best, lo_cursorSet := True\<rparr>) = ?l"
    by (simp add: cursorAt_def)
  have cur: "lo_cursor ?l = ?c" by simp
  have sc: "scan unpack cfg pl l = (if ?safe < ?c then (?l, None, [])
      else case pl_logs pl ?c t of None \<Rightarrow> (?l, None, [])
      | Some logs \<Rightarrow> (let (l', attempts) = fold (handleClose unpack pl) logs (?l, [])
                     in (l'\<lparr>lo_cursor := t + 1\<rparr>, Some (?c, t), attempts)))"
    by (simp only: scan_def Some option.case anchored Let_def cur t_def)
  show ?thesis
  proof (cases "?safe < ?c \<or> pl_logs pl ?c t = None")
    case True
    then have "scan unpack cfg pl l = (?l, None, [])" unfolding sc using True by auto
    then show ?thesis using assms(1) Some True by (intro Idle) auto
  next
    case False
    then obtain logs where logs: "pl_logs pl ?c t = Some logs" by blast
    obtain l1 at where f: "fold (handleClose unpack pl) logs (?l, []) = (l1, at)" by fastforce
    have "scan unpack cfg pl l = (l1\<lparr>lo_cursor := t + 1\<rparr>, Some (?c, t), at)"
      unfolding sc using logs f False by simp
    then have r: "l' = l1\<lparr>lo_cursor := t + 1\<rparr>" "r = Some (?c, t)" "attempts = at" using assms(1) by auto
    have n: "unat ?c \<le> unat ?safe" "unat ?safe < 2 ^ 62" "0 < unat ?w" "unat ?w < 2 ^ 62"
      using False safeTip_le [of cfg best] assms(2) assms(3) [rule_format, OF Some]
      by (simp_all add: word_le_nat_alt word_less_nat_alt) (auto simp: scanWindow_def unat_gt_0)
    have "unat (?c + ?w - 1) = unat ?c + unat ?w - 1"
      by (rule unat_window_end) (use n in auto)
    then have t: "unat t = min (unat ?c + unat ?w - 1) (unat ?safe)"
      by (auto simp: t_def word_less_nat_alt)
    show ?thesis
      using Some r logs f t n
      by (intro Scanned [of best t logs l1]) (simp_all add: word_le_nat_alt word_less_nat_alt del: if_split)
  qed
qed

fun contiguous :: "u64 \<Rightarrow> (u64 \<times> u64) list \<Rightarrow> u64 \<Rightarrow> bool" where
  "contiguous c [] c' \<longleftrightarrow> c = c'"
| "contiguous c ((f, t) # rs) c' \<longleftrightarrow> f = c \<and> f \<le> t \<and> t < 2 ^ 62 \<and> contiguous (t + 1) rs c'"

lemma contiguous_covers:
  "contiguous c rs c' \<Longrightarrow> c \<le> c' \<and>
     length (filter (\<lambda>(f, t). f \<le> b \<and> b \<le> t) rs) = (if c \<le> b \<and> b < c' then 1 else 0)"
proof (induction c rs c' rule: contiguous.induct)
  case (2 c f t rs c')
  then have "unat (t + 1) = unat t + 1" "f = c" "f \<le> t" by (auto simp: unat_Suc_if word_less_nat_alt)
  then show ?case
    using 2 by (auto simp: word_le_nat_alt word_less_nat_alt)
qed (simp add: not_less)

fun firstTip :: "tower_poll list \<Rightarrow> u64 option" where
  "firstTip [] = None"
| "firstTip (pl # pls) = (case pl_tip pl of None \<Rightarrow> firstTip pls | Some best \<Rightarrow> Some best)"

definition startOf :: "lookout_cfg \<Rightarrow> tower_poll list \<Rightarrow> lookout \<Rightarrow> u64 option" where
  "startOf cfg pls l = (if lo_cursorSet l then Some (lo_cursor l) else map_option (anchor cfg) (firstTip pls))"

lemma heights_Cons:
  "poll_heights cfg (pl # pls) \<longleftrightarrow> poll_heights cfg pls \<and> (\<forall>best. pl_tip pl = Some best \<longrightarrow> best < 2 ^ 62)"
  by (auto simp: poll_heights_def)

lemma scans_contiguous:
  assumes "poll_heights cfg pls" "scans unpack cfg pls l = (l', ranges, attempts)"
  shows "(case startOf cfg pls l of None \<Rightarrow> ranges = [] | Some c \<Rightarrow> lo_cursorSet l' \<and> contiguous c ranges (lo_cursor l')) \<and>
    (\<forall>(f, t) \<in> set ranges. unat t < unat f + unat (scanWindow cfg) \<and>
       (\<exists>pl \<in> set pls. \<exists>best. pl_tip pl = Some best \<and> t \<le> safeTip cfg best))"
  using assms
proof (induction pls arbitrary: l l' ranges attempts)
  case Nil
  then show ?case by (simp add: startOf_def)
next
  case (Cons pl pls)
  obtain l1 r at where s: "scan unpack cfg pl l = (l1, r, at)" by (metis surj_pair)
  obtain l2 rs at' where ss: "scans unpack cfg pls l1 = (l2, rs, at')" by (metis surj_pair)
  have res: "l' = l2" "ranges = (case r of None \<Rightarrow> rs | Some x \<Rightarrow> x # rs)" using Cons.prems(2) s ss by simp_all
  have h: "poll_heights cfg pls" "scanWindow cfg < 2 ^ 62" "\<forall>best. pl_tip pl = Some best \<longrightarrow> best < 2 ^ 62"
    using Cons.prems(1) by (auto simp: poll_heights_def)
  note IH = Cons.IH [OF h(1) ss]
  show ?case
  proof (cases rule: scan_cases [OF s h(2,3)])
    case 1
    have "startOf cfg (pl # pls) l = startOf cfg pls l1" using 1(1,2) by (simp add: startOf_def)
    then show ?thesis using IH res 1(3) by (auto split del: if_split)
  next
    case (2 best)
    then have "startOf cfg (pl # pls) l = Some (cursorAt cfg best l)" "startOf cfg pls l1 = Some (cursorAt cfg best l)"
      by (simp_all add: startOf_def cursorAt_def)
    then show ?thesis using IH res 2 by (auto split: if_splits)
  next
    case (3 best t logs la)
    have "lo_cursorSet la" using handleCloses_cursor [OF 3(4)] by simp
    then have st: "startOf cfg (pl # pls) l = Some (cursorAt cfg best l)" "startOf cfg pls l1 = Some (t + 1)"
      using 3(1,5) by (simp_all add: startOf_def cursorAt_def)
    have "unat (cursorAt cfg best l) \<le> unat t" "0 < unat (scanWindow cfg)"
      using 3(6) by (auto simp: word_le_nat_alt scanWindow_def unat_gt_0)
    then have "unat t < unat (cursorAt cfg best l) + unat (scanWindow cfg)" using 3(9) by linarith
    then show ?thesis using IH res 3(1,2,6,7,8) st by (auto split: if_splits)
  qed
qed

text \<open>A poll that answers everything, at a tip that is high enough, moves the cursor on by one window.\<close>

lemma scan_advances:
  assumes "scan unpack cfg pl l = (l', r, attempts)" "scanWindow cfg < 2 ^ 62" "\<forall>best. pl_tip pl = Some best \<longrightarrow> best < 2 ^ 62"
    and "pl_tip pl = Some best" "goal \<le> safeTip cfg best" "\<And>f t. pl_logs pl f t \<noteq> None" "lo_cursorSet l"
  shows "lo_cursorSet l'" "min (unat (lo_cursor l) + unat (scanWindow cfg)) (unat goal + 1) \<le> unat (lo_cursor l')"
proof (atomize (full), goal_cases)
  case 1
  have c: "cursorAt cfg b l = lo_cursor l" for b using assms(7) by (simp add: cursorAt_def)
  have w: "0 < unat (scanWindow cfg)" by (simp add: scanWindow_def unat_gt_0)
  show ?case
  proof (cases rule: scan_cases [OF assms(1-3)])
    case (2 b)
    then have "unat goal < unat (lo_cursor l)"
      using assms(4,5,6) c by (auto simp: word_le_nat_alt word_less_nat_alt)
    then show ?thesis using 2(2) c by simp
  next
    case (3 b t logs l1)
    have "unat (t + 1) = unat t + 1" using 3(8) by (auto simp: unat_Suc_if word_less_nat_alt)
    moreover have "unat goal \<le> unat (safeTip cfg b)" using assms(4,5) 3(1) by (simp add: word_le_nat_alt)
    ultimately show ?thesis
      using 3(5,9) c w handleCloses_cursor [OF 3(4)] by simp
  qed (use assms(4) in simp)
qed

lemma scans_reach:
  assumes "poll_heights cfg pls" "scans unpack cfg pls l = (l', ranges, attempts)" "lo_cursorSet l"
    and "\<And>pl. pl \<in> set pls \<Longrightarrow> \<exists>best. pl_tip pl = Some best \<and> goal \<le> safeTip cfg best"
    and "\<And>pl f t. pl \<in> set pls \<Longrightarrow> pl_logs pl f t \<noteq> None"
  shows "min (unat (lo_cursor l) + length pls * unat (scanWindow cfg)) (unat goal + 1) \<le> unat (lo_cursor l')"
  using assms
proof (induction pls arbitrary: l l' ranges attempts)
  case (Cons pl pls)
  obtain l1 r at where s: "scan unpack cfg pl l = (l1, r, at)" by (metis surj_pair)
  obtain l2 rs at' where ss: "scans unpack cfg pls l1 = (l2, rs, at')" by (metis surj_pair)
  have h: "poll_heights cfg pls" "scanWindow cfg < 2 ^ 62" "\<forall>best. pl_tip pl = Some best \<longrightarrow> best < 2 ^ 62"
    using Cons.prems(1) by (auto simp: poll_heights_def)
  obtain best where b: "pl_tip pl = Some best" "goal \<le> safeTip cfg best" using Cons.prems(4) by auto
  have "pl_logs pl f t \<noteq> None" for f t using Cons.prems(5) by simp
  note one = scan_advances [OF s h(2,3) b this Cons.prems(3)]
  have "min (unat (lo_cursor l1) + length pls * unat (scanWindow cfg)) (unat goal + 1) \<le> unat (lo_cursor l2)"
    by (rule Cons.IH [OF h(1) ss one(1)]) (use Cons.prems(4,5) in auto)
  moreover have "l' = l2" using Cons.prems(2) s ss by simp
  ultimately show ?case using one(2) by simp
qed simp

text \<open>
  C14: the scan misses no block and searches none twice. In any run of polls, with failed RPC calls,
  tips that move back and forth, and a backlog, the ranges searched are windows no larger than
  configured and only up to the reorg-safe tip, and every block from the first anchor up to the cursor
  is in exactly one of them; and polls that are answered bring the cursor past any reorg-safe block,
  one window at a time.
\<close>

theorem scan_covers_chain:
  assumes "poll_heights cfg pls" "scans unpack cfg pls newLookout = (l', ranges, attempts)"
  shows "(case firstTip pls of None \<Rightarrow> ranges = []
     | Some best \<Rightarrow> \<forall>b. length (filter (\<lambda>(f, t). f \<le> b \<and> b \<le> t) ranges) =
         (if anchor cfg best \<le> b \<and> b < lo_cursor l' then 1 else 0)) \<and>
    (\<forall>(f, t) \<in> set ranges. unat t < unat f + unat (scanWindow cfg) \<and>
       (\<exists>pl \<in> set pls. \<exists>best. pl_tip pl = Some best \<and> t \<le> safeTip cfg best)) \<and>
    (lo_cursorSet l' \<longrightarrow> (\<forall>pls' goal l'' ranges' attempts'. poll_heights cfg pls' \<longrightarrow>
       scans unpack cfg pls' l' = (l'', ranges', attempts') \<longrightarrow>
       (\<forall>pl \<in> set pls'. (\<exists>best. pl_tip pl = Some best \<and> goal \<le> safeTip cfg best) \<and> (\<forall>f t. pl_logs pl f t \<noteq> None)) \<longrightarrow>
       min (unat (lo_cursor l') + length pls' * unat (scanWindow cfg)) (unat goal + 1) \<le> unat (lo_cursor l'')))"
proof (intro conjI)
  note c = scans_contiguous [OF assms]
  show "case firstTip pls of None \<Rightarrow> ranges = []
     | Some best \<Rightarrow> \<forall>b. length (filter (\<lambda>(f, t). f \<le> b \<and> b \<le> t) ranges) =
         (if anchor cfg best \<le> b \<and> b < lo_cursor l' then 1 else 0)"
  proof (cases "firstTip pls")
    case None
    then show ?thesis using c by (simp add: startOf_def newLookout_def)
  next
    case (Some best)
    then have "contiguous (anchor cfg best) ranges (lo_cursor l')" using c by (simp add: startOf_def newLookout_def)
    from contiguous_covers [OF this] show ?thesis unfolding Some option.case by blast
  qed
  show "\<forall>(f, t) \<in> set ranges. unat t < unat f + unat (scanWindow cfg) \<and>
       (\<exists>pl \<in> set pls. \<exists>best. pl_tip pl = Some best \<and> t \<le> safeTip cfg best)" using c by blast
  show "lo_cursorSet l' \<longrightarrow> (\<forall>pls' goal l'' ranges' attempts'. poll_heights cfg pls' \<longrightarrow>
       scans unpack cfg pls' l' = (l'', ranges', attempts') \<longrightarrow>
       (\<forall>pl \<in> set pls'. (\<exists>best. pl_tip pl = Some best \<and> goal \<le> safeTip cfg best) \<and> (\<forall>f t. pl_logs pl f t \<noteq> None)) \<longrightarrow>
       min (unat (lo_cursor l') + length pls' * unat (scanWindow cfg)) (unat goal + 1) \<le> unat (lo_cursor l''))"
    by (intro impI allI; rule scans_reach) blast+
qed

section \<open>From the node to the tower\<close>

context backup_store
begin

lemma pushBackup_get:
  assumes "storableBackup b" "pushBackup put io b (s, sent) = (s', sent')" "agentOk get s sent"
  shows "c \<noteq> jb_channelID b \<Longrightarrow> get c s' = get c s"
    "newer b (get (jb_channelID b) s) \<Longrightarrow> (\<And>s. snd (put (io b) b s) = None) \<Longrightarrow> get (jb_channelID b) s' = Some b"
proof -
  obtain s1 r where p: "put (io b) b s = (s1, r)" by fastforce
  then have s': "s' = s \<or> s' = s1" using assms(2) by (auto simp: pushBackup_def split: option.splits if_splits)
  show "get c s' = get c s" if "c \<noteq> jb_channelID b"
    using s' put_cases [OF assms(1) p] that by (auto simp: newest_def)
  assume n: "newer b (get (jb_channelID b) s)" and ok: "\<And>s. snd (put (io b) b s) = None"
  have "\<not> jb_nonce b \<le> pushed" if "sent (jb_channelID b) = Some pushed" for pushed
    using assms(3) n that by (fastforce simp: agentOk_def defendedIn_def newer_def)
  then have "s' = s1" using assms(2) p by (auto simp: pushBackup_def split: option.splits if_splits)
  then show "get (jb_channelID b) s' = Some b"
    using put_newest [OF assms(1), of "io b" s s1] p ok [of s] n by (simp add: newest_def)
qed

lemma snapshot_stores:
  assumes "\<And>b. b \<in> set backups \<Longrightarrow> storableBackup b" "agentOk get s sent" "distinct (map jb_channelID backups)"
    and "snapshot put io (Some backups) (s, sent) = (s', sent')"
    and "b \<in> set backups" "newer b (get (jb_channelID b) s)" "\<And>s. snd (put (io b) b s) = None"
  shows "get (jb_channelID b) s' = Some b"
proof -
  have keep: "get c s' = get c s" if "\<And>b. b \<in> set bs \<Longrightarrow> storableBackup b" "agentOk get s sent" "c \<notin> jb_channelID ` set bs"
    "snapshot put io (Some bs) (s, sent) = (s', sent')" for bs s sent c
    using that
  proof (induction bs arbitrary: s sent)
    case Nil
    then show ?case by (simp add: snapshot_def)
  next
    case (Cons d bs)
    obtain s1 sent1 where p: "pushBackup put io d (s, sent) = (s1, sent1)" by fastforce
    have st: "storableBackup d" using Cons.prems(1) by simp
    have "snapshot put io (Some bs) (s1, sent1) = (s', sent')" using Cons.prems(4) p by (simp add: snapshot_def)
    from Cons.IH [OF _ pushBackup_step(1) [OF st p Cons.prems(2)] _ this] Cons.prems(1,3)
      pushBackup_get(1) [OF st p Cons.prems(2), of c] show ?case by simp
  qed
  show ?thesis
    using assms
  proof (induction backups arbitrary: s sent)
    case (Cons d bs)
    obtain s1 sent1 where p: "pushBackup put io d (s, sent) = (s1, sent1)" by fastforce
    have st: "storableBackup d" using Cons.prems(1) by simp
    have rest: "snapshot put io (Some bs) (s1, sent1) = (s', sent')" using Cons.prems(4) p by (simp add: snapshot_def)
    note ok = pushBackup_step(1) [OF st p Cons.prems(2)]
    show ?case
    proof (cases "d = b")
      case True
      have "get (jb_channelID b) s' = get (jb_channelID b) s1"
        by (rule keep [OF _ ok _ rest]) (use Cons.prems(1,3) True in auto)
      then show ?thesis using pushBackup_get(2) [OF st p Cons.prems(2)] Cons.prems(6,7) True by simp
    next
      case False
      then have "b \<in> set bs" "jb_channelID b \<in> jb_channelID ` set bs" using Cons.prems(5) by auto
      moreover have "jb_channelID d \<notin> jb_channelID ` set bs" using Cons.prems(3) by simp
      ultimately have "jb_channelID b \<noteq> jb_channelID d" "b \<in> set bs" by metis+
      with Cons.IH [OF _ ok _ rest] pushBackup_get(1) [OF st p Cons.prems(2), of "jb_channelID b"] Cons.prems(1,3,6,7)
      show ?thesis by simp
    qed
  qed simp
qed

end

definition breachLog :: "unpack_fn \<Rightarrow> tower_poll \<Rightarrow> byte list \<Rightarrow> justice_backup \<Rightarrow> close_log \<Rightarrow> bool" where
  "breachLog unpack pl c b lg \<longleftrightarrow> 2 \<le> length (lg_topics lg) \<and> lg_topics lg ! 1 = c \<and> pl_get pl c = Some b \<and>
     (\<exists>broadcaster nonce expiry. unpackUnilateralClose unpack (lg_data lg) = Some (broadcaster, nonce, expiry) \<and>
        nonce < jb_nonce b \<and> (expiry = 0 \<or> pl_now pl < expiry))"

lemma handleClose_step:
  assumes "handleClose unpack pl lg (l, attempts) = (l', attempts')"
  obtains (Ignored) "l' = l" "attempts' = attempts"
      "\<And>c b. breachLog unpack pl c b lg \<Longrightarrow> c \<in> lo_done l"
    | (Tried) c b tx ok where "breachLog unpack pl c b lg" "c \<notin> lo_done l" "penalize (pl_rpc pl b) b = (tx, ok)"
      "attempts' = attempts @ [(lg, b, tx, ok)]" "l' = (if ok then l\<lparr>lo_done := insert c (lo_done l)\<rparr> else l)"
proof (cases "\<exists>c b. breachLog unpack pl c b lg \<and> c \<notin> lo_done l")
  case True
  then obtain c b where b: "breachLog unpack pl c b lg" "c \<notin> lo_done l" by blast
  obtain tx ok where p: "penalize (pl_rpc pl b) b = (tx, ok)" by fastforce
  show ?thesis
    using b p assms by (intro Tried [OF b p])
      (auto simp: handleClose_def breachLog_def shouldPenalize_def Let_def not_le split: if_splits)
next
  case False
  then show ?thesis
    using assms by (intro Ignored)
      (auto simp: handleClose_def breachLog_def shouldPenalize_def Let_def not_le
        split: if_splits option.splits prod.splits)
qed

lemma handleCloses_penalize:
  assumes "fold (handleClose unpack pl) logs (l, attempts) = (l', attempts')"
    and "lg \<in> set logs" "breachLog unpack pl c b lg" "c \<notin> lo_done l" "penalize (pl_rpc pl b) b = (Some tx, True)"
  shows "c \<in> lo_done l' \<and> (\<exists>lg' \<in> set logs. (lg', b, Some tx, True) \<in> set attempts')"
proof -
  have mono: "set at \<subseteq> set at' \<and> lo_done l1 \<subseteq> lo_done l2" if "fold (handleClose unpack pl) ls (l1, at) = (l2, at')" for ls l1 at l2 at'
    using that
  proof (induction ls arbitrary: l1 at)
    case (Cons x ls)
    obtain l3 at3 where h: "handleClose unpack pl x (l1, at) = (l3, at3)" by fastforce
    have "set at \<subseteq> set at3 \<and> lo_done l1 \<subseteq> lo_done l3" by (cases rule: handleClose_step [OF h]) auto
    then show ?case using Cons.IH [of l3 at3] Cons.prems h by auto
  qed simp
  show ?thesis
    using assms
  proof (induction logs arbitrary: l attempts)
    case (Cons x logs)
    obtain l1 at1 where h: "handleClose unpack pl x (l, attempts) = (l1, at1)" by fastforce
    have rest: "fold (handleClose unpack pl) logs (l1, at1) = (l', attempts')" using Cons.prems(1) h by simp
    note m = mono [OF rest]
    have uniq: "d = b" if "breachLog unpack pl c d y" for d y using that Cons.prems(3) by (auto simp: breachLog_def)
    show ?case
    proof (cases rule: handleClose_step [OF h])
      case 1
      then have "x \<noteq> lg" using Cons.prems(3,4) by blast
      then show ?thesis using Cons.IH [OF rest] Cons.prems(2-5) 1(1) by auto
    next
      case (2 c' d tx' ok)
      show ?thesis
      proof (cases "c' = c")
        case True
        then have "d = b" using uniq 2(1) by blast
        then have "c \<in> lo_done l1" "(x, b, Some tx, True) \<in> set at1" using 2 True Cons.prems(5) by auto
        then show ?thesis using m by auto
      next
        case False
        then have "c \<notin> lo_done l1" using 2(5) Cons.prems(4) by auto
        moreover have "x \<noteq> lg" using 2(1) Cons.prems(3) False by (auto simp: breachLog_def)
        ultimately show ?thesis using Cons.IH [OF rest] Cons.prems(2,3,5) by auto
      qed
    qed
  qed simp
qed

definition answers :: "evm_rpc \<Rightarrow> bool" where
  "answers rpc \<longleftrightarrow> rpc_packs rpc \<and> rpc_chainID rpc \<and> rpc_pendingNonce rpc \<noteq> None \<and>
     rpc_suggestGasPrice rpc \<noteq> None \<and> rpc_signs rpc \<and> rpc_sends rpc"

lemma penalize_answers:
  assumes "storableBackup b" "answers rpc"
  obtains tx where "penalize rpc b = (Some tx, True)" "px_channelID tx = jb_channelID b"
    "px_call tx = EvmCallPenalize (jb_nonce b) (the (jb_balanceA b)) (the (jb_balanceB b)) (jb_htlcsHash b) (jb_counterpartySig b)"
  using assms storableBackup_valid [OF assms(1)] by (auto simp: answers_def penalize_def)

lemma disjoint_singleton: "A \<subseteq> {x} \<Longrightarrow> x \<notin> B \<Longrightarrow> C \<subseteq> B \<Longrightarrow> A \<inter> C = {}"
  by blast

lemma node_backups:
  assumes "evmBackups env chans = Some backups" "distinct (map (ch_channelID \<circ> fst) chans)"
    and "\<And>x. length (ee_keccak env x) = 32" "\<forall>(ch, commit, sig) \<in> set chans. length (ch_channelID ch) = 32"
  shows "\<And>b. b \<in> set backups \<Longrightarrow> storableBackup b" "distinct (map jb_channelID backups)"
    "\<And>c b. c \<in> set chans \<Longrightarrow> evmJusticeBackupFields env c = Inr b \<Longrightarrow> b \<in> set backups"
proof -
  define fields where "fields = (\<lambda>c. case evmJusticeBackupFields env c of Inl e \<Rightarrow> [] | Inr b \<Rightarrow> [b])"
  have b: "backups = concat (map fields chans)"
    using assms(1) by (simp add: evmBackups_def fields_def split: if_splits)
  have one: "storableBackup b \<and> jb_channelID b = ch_channelID (fst c)" if "c \<in> set chans" "b \<in> set (fields c)" for b c
  proof -
    obtain ch commit sig where c: "c = (ch, commit, sig)" by (metis surj_pair)
    have f: "evmJusticeBackupFields env (ch, commit, sig) = Inr b"
      using that(2) by (simp add: fields_def c split: sum.splits)
    have l: "length (ch_channelID ch) = 32" using assms(4) that(1) by (auto simp: c)
    show ?thesis by (rule node_backup [OF f assms(3) l]) (metis c fst_conv justice_backup.select_convs(1))
  qed
  show "storableBackup b" if "b \<in> set backups" for b using that one by (auto simp: b)
  show "b \<in> set backups" if "c \<in> set chans" "evmJusticeBackupFields env c = Inr b" for c b
    using that by (force simp: b fields_def)
  have "distinct (map jb_channelID (concat (map fields cs)))"
    if "set cs \<subseteq> set chans" "distinct (map (ch_channelID \<circ> fst) cs)" for cs
    using that
  proof (induction cs)
    case (Cons c cs)
    have "length (fields c) \<le> 1" by (simp add: fields_def split: sum.splits)
    then have "distinct (map jb_channelID (fields c))" by (cases "fields c") simp_all
    have "jb_channelID b \<in> (ch_channelID \<circ> fst) ` set cs" if "c' \<in> set cs" "b \<in> set (fields c')" for b c'
      using one [of c' b] that Cons.prems(1) by (metis (no_types, lifting) comp_apply image_eqI list.set_intros(2) subsetD)
    then have rest: "jb_channelID ` set (concat (map fields cs)) \<subseteq> (ch_channelID \<circ> fst) ` set cs" by auto
    have "jb_channelID ` set (fields c) \<subseteq> {ch_channelID (fst c)}" using one [of c] Cons.prems(1) by auto
    moreover have "ch_channelID (fst c) \<notin> (ch_channelID \<circ> fst) ` set cs" using Cons.prems(2) by simp
    ultimately have "jb_channelID ` set (fields c) \<inter> jb_channelID ` set (concat (map fields cs)) = {}"
      using rest by (rule disjoint_singleton)
    moreover have "distinct (map jb_channelID (concat (map fields cs)))" by (rule Cons.IH) (use Cons.prems in auto)
    ultimately show ?case
      using \<open>distinct (map jb_channelID (fields c))\<close>
      by (simp only: list.map concat.simps map_append distinct_append set_map)
  qed simp
  then show "distinct (map jb_channelID backups)" using assms(2) b by blast
qed

text \<open>
  The retained signature of a channel is the counterparty's: it parses into 64 bytes that recover to
  the address of the counterparty with one of the two recovery bytes the contract accepts, for the
  digest of the state \<open>su\<close> that is rebuilt from the commitment. Such a channel can be defended.
\<close>

definition retainedBy :: "evm_env \<Rightarrow> open_channel \<Rightarrow> evm_state_update \<Rightarrow> byte list \<Rightarrow> bool" where
  "retainedBy env c su sig65 \<longleftrightarrow> (case c of (ch, commit, commitSig) \<Rightarrow>
     evmStateUpdateFromDiskCommit (ee_keccak env) (ee_sort env) (ee_params env) ch commit = Some su \<and>
     ee_derToRS64 env commitSig = Some (take 64 sig65) \<and> coSigned env su sig65 (ch_theirAddr ch))"

definition defensible :: "evm_env \<Rightarrow> open_channel \<Rightarrow> bool" where
  "defensible env c \<longleftrightarrow> (\<exists>su sig65. retainedBy env c su sig65)"

text \<open>The state of a channel can be rebuilt and hashed without a panic of the encoding.\<close>

definition stateEncodes :: "evm_env \<Rightarrow> open_channel \<Rightarrow> bool" where
  "stateEncodes env c \<longleftrightarrow> (case c of (ch, commit, commitSig) \<Rightarrow>
     (\<exists>su digest. evmStateUpdateFromDiskCommit (ee_keccak env) (ee_sort env) (ee_params env) ch commit = Some su \<and>
        stateUpdateDigest (ee_keccak env) (ee_domain env) su = Some digest))"

lemma tryRecoveryIds_error: "tryRecoveryIds keccak recover rs digest expected vs = Inl e \<Longrightarrow> e = NoRecoveryId"
  by (induction vs) (auto split: option.splits if_splits)

lemma recover_error: "recoverEvmSigV keccak recover rs digest expected \<noteq> Inl StateEncodingPanic"
  using tryRecoveryIds_error [of keccak recover rs digest expected "[27, 28]" StateEncodingPanic]
  by (auto simp: recoverEvmSigV_def simp del: tryRecoveryIds.simps)

lemma fields_panic:
  "evmJusticeBackupFields env c = Inl StateEncodingPanic \<longleftrightarrow> \<not> stateEncodes env c"
  by (auto simp: evmJusticeBackupFields_def evmRetainedSig65_def stateEncodes_def recover_error
      split: prod.splits option.splits sum.splits)

lemma evmBackups_None: "evmBackups env chans = None \<longleftrightarrow> (\<exists>c \<in> set chans. \<not> stateEncodes env c)"
  by (simp add: evmBackups_def fields_panic)

lemma retained_signature:
  assumes "evmRetainedSig65 env ch commit commitSig = Inr sig65"
    "evmStateUpdateFromDiskCommit (ee_keccak env) (ee_sort env) (ee_params env) ch commit = Some su"
  shows "retainedBy env (ch, commit, commitSig) su sig65"
proof -
  obtain digest rs where rs: "ee_derToRS64 env commitSig = Some rs"
    and r: "recoverEvmSigV (ee_keccak env) (ee_recover env) rs digest (ch_theirAddr ch) = Inr sig65"
    using assms by (auto simp: evmRetainedSig65_def split: option.splits)
  have l: "length rs = 64" using r by (auto simp: recoverEvmSigV_def split: if_splits)
  then have "tryRecoveryIds (ee_keccak env) (ee_recover env) rs digest (ch_theirAddr ch) [27, 28] = Inr sig65"
    using r by (simp add: recoverEvmSigV_def del: tryRecoveryIds.simps)
  from tryRecoveryIds_Inr [OF this] have "take 64 sig65 = rs" using l by auto
  then show ?thesis using rs assms(2) retained_coSigned [OF assms] by (simp add: retainedBy_def)
qed

lemma defensible_fields:
  "defensible env c \<longleftrightarrow> (\<exists>b. evmJusticeBackupFields env c = Inr b)"
proof -
  obtain ch commit commitSig where c: "c = (ch, commit, commitSig)" by (metis surj_pair)
  show ?thesis
  proof
    assume "defensible env c"
    then obtain su sig65 where r: "retainedBy env c su sig65" by (auto simp: defensible_def)
    then have co: "coSigned env su sig65 (ch_theirAddr ch)" by (simp add: retainedBy_def c)
    then obtain digest pub where d: "stateUpdateDigest (ee_keccak env) (ee_domain env) su = Some digest"
      "ee_recover env (sig65 ! 64 # take 64 sig65) digest = Some pub"
      "evmAddressFromPubKey (ee_keccak env) pub = ch_theirAddr ch" "sig65 ! 64 \<in> {27, 28}" "length sig65 = 65"
      unfolding coSigned_def by blast
    obtain call where "evmPenalizeTx env ch commit commitSig = Inr call"
      using penalty_is_built [of env ch commit su commitSig "take 64 sig65" digest "sig65 ! 64" pub] r d
      by (auto simp: retainedBy_def c)
    then show "\<exists>b. evmJusticeBackupFields env c = Inr b"
      by (auto simp: c evmPenalizeTx_def evmJusticeBackupFields_def split: option.splits sum.splits)
  next
    assume "\<exists>b. evmJusticeBackupFields env c = Inr b"
    then obtain su sig65 where
      "evmStateUpdateFromDiskCommit (ee_keccak env) (ee_sort env) (ee_params env) ch commit = Some su"
      "evmRetainedSig65 env ch commit commitSig = Inr sig65"
      by (auto simp: c evmJusticeBackupFields_def split: option.splits sum.splits)
    then show "defensible env c" using retained_signature unfolding c defensible_def by blast
  qed
qed

lemma backups_of_defensible:
  assumes "evmBackups env chans = Some backups"
  shows "list_all2 (\<lambda>c b. evmJusticeBackupFields env c = Inr b) (filter (defensible env) chans) backups"
proof -
  have "list_all2 (\<lambda>c b. evmJusticeBackupFields env c = Inr b) (filter (defensible env) cs)
      (concat (map (\<lambda>c. case evmJusticeBackupFields env c of Inl e \<Rightarrow> [] | Inr b \<Rightarrow> [b]) cs))" for cs
    by (induction cs) (auto simp: defensible_fields split: sum.splits)
  moreover have "backups = concat (map (\<lambda>c. case evmJusticeBackupFields env c of Inl e \<Rightarrow> [] | Inr b \<Rightarrow> [b]) chans)"
    using assms by (simp add: evmBackups_def split: if_splits)
  ultimately show ?thesis by (simp only:)
qed

lemma node_backup_each:
  assumes "evmBackups env chans = Some backups" "\<And>x. length (ee_keccak env x) = 32"
    "\<forall>(ch, commit, sig) \<in> set chans. length (ch_channelID ch) = 32"
  shows "list_all2 (\<lambda>c b. storableBackup b \<and> validate b = None \<and> (\<exists>data. encodeBackup b = Inr data) \<and>
       (\<exists>ch commit commitSig su sig65. c = (ch, commit, commitSig) \<and> retainedBy env c su sig65 \<and>
          b = \<lparr>jb_channelID = ch_channelID ch, jb_nonce = dc_commitHeight commit,
               jb_balanceA = Some (su_balanceA su), jb_balanceB = Some (su_balanceB su),
               jb_htlcsHash = su_htlcsHash su, jb_counterpartySig = sig65\<rparr>))
     (filter (defensible env) chans) backups"
proof -
  have one: "storableBackup b \<and> validate b = None \<and> (\<exists>data. encodeBackup b = Inr data) \<and>
       (\<exists>ch commit commitSig su sig65. c = (ch, commit, commitSig) \<and> retainedBy env c su sig65 \<and>
          b = \<lparr>jb_channelID = ch_channelID ch, jb_nonce = dc_commitHeight commit,
               jb_balanceA = Some (su_balanceA su), jb_balanceB = Some (su_balanceB su),
               jb_htlcsHash = su_htlcsHash su, jb_counterpartySig = sig65\<rparr>)"
    if "c \<in> set chans" and f: "evmJusticeBackupFields env c = Inr b" for c b
  proof -
    obtain ch commit commitSig where c: "c = (ch, commit, commitSig)" by (metis surj_pair)
    have l: "length (ch_channelID ch) = 32" using assms(3) that(1) by (auto simp: c)
    obtain su where su: "evmStateUpdateFromDiskCommit (ee_keccak env) (ee_sort env) (ee_params env) ch commit = Some su"
      "storableBackup b"
      "b = \<lparr>jb_channelID = ch_channelID ch, jb_nonce = dc_commitHeight commit, jb_balanceA = Some (su_balanceA su),
            jb_balanceB = Some (su_balanceB su), jb_htlcsHash = su_htlcsHash su,
            jb_counterpartySig = jb_counterpartySig b\<rparr>"
      by (rule node_backup [OF f [unfolded c] assms(2) l]) (rule that, assumption+)
    have "evmRetainedSig65 env ch commit commitSig = Inr (jb_counterpartySig b)"
      using f su(1) by (auto simp: c evmJusticeBackupFields_def split: sum.splits)
    from retained_signature [OF this su(1)] have "retainedBy env c su (jb_counterpartySig b)" by (simp add: c)
    moreover have "validate b = None" "\<exists>data. encodeBackup b = Inr data"
      using su(2) storableBackup_valid encode_storable by metis+
    ultimately show ?thesis using su(2,3) c by blast
  qed
  show "list_all2 (\<lambda>c b. storableBackup b \<and> validate b = None \<and> (\<exists>data. encodeBackup b = Inr data) \<and>
       (\<exists>ch commit commitSig su sig65. c = (ch, commit, commitSig) \<and> retainedBy env c su sig65 \<and>
          b = \<lparr>jb_channelID = ch_channelID ch, jb_nonce = dc_commitHeight commit,
               jb_balanceA = Some (su_balanceA su), jb_balanceB = Some (su_balanceB su),
               jb_htlcsHash = su_htlcsHash su, jb_counterpartySig = sig65\<rparr>))
     (filter (defensible env) chans) backups"
    by (rule list.rel_mono_strong [OF backups_of_defensible [OF assms(1)]]) (rule one, simp_all)
qed

text \<open>
  C40: the backups of a node are exactly those of its defensible channels, in their order, one for each.
  The backup of a channel holds its id, the height of its local commitment for the nonce, and the
  balance of party A as A's, that of party B as B's and the HTLC root of the state that is rebuilt from
  this commitment, with a signature that recovers the counterparty's address for just this state; it
  passes the validation of the tower and can be encoded. There is no other reason for having none but
  that the encoding of the state of some channel panics.
\<close>

theorem node_backups_wellformed:
  assumes "distinct (map (ch_channelID \<circ> fst) chans)"
    and "\<And>x. length (ee_keccak env x) = 32" "\<forall>(ch, commit, sig) \<in> set chans. length (ch_channelID ch) = 32"
  shows "(evmBackups env chans = None \<longleftrightarrow> (\<exists>c \<in> set chans. \<not> stateEncodes env c)) \<and>
    (\<forall>backups. evmBackups env chans = Some backups \<longrightarrow> distinct (map jb_channelID backups) \<and>
    list_all2 (\<lambda>c b. storableBackup b \<and> validate b = None \<and> (\<exists>data. encodeBackup b = Inr data) \<and>
       (\<exists>ch commit commitSig su sig65. c = (ch, commit, commitSig) \<and> retainedBy env c su sig65 \<and>
          b = \<lparr>jb_channelID = ch_channelID ch, jb_nonce = dc_commitHeight commit,
               jb_balanceA = Some (su_balanceA su), jb_balanceB = Some (su_balanceB su),
               jb_htlcsHash = su_htlcsHash su, jb_counterpartySig = sig65\<rparr>))
     (filter (defensible env) chans) backups)"
  using evmBackups_None [of env chans] node_backups(2) [OF _ assms] node_backup_each [OF _ assms(2,3)] by blast

lemma scan_ranged:
  assumes "scan unpack cfg pl l = (l', Some (f, t), attempts)" "pl_logs pl f t = Some logs"
  shows "\<exists>l0 l1. fold (handleClose unpack pl) logs (l0, []) = (l1, attempts) \<and> lo_done l0 = lo_done l \<and> lo_done l' = lo_done l1"
proof -
  obtain best where best: "pl_tip pl = Some best" using assms(1) by (auto simp: scan_def split: option.splits)
  define l0 where "l0 = (if lo_cursorSet l then l else l\<lparr>lo_cursor := anchor cfg best, lo_cursorSet := True\<rparr>)"
  obtain l1 at where fold: "fold (handleClose unpack pl) logs (l0, []) = (l1, at)" by fastforce
  have "lo_done l0 = lo_done l" by (simp add: l0_def)
  moreover have "at = attempts \<and> lo_done l' = lo_done l1"
    using assms fold by (auto simp: scan_def best l0_def [symmetric] Let_def split: if_splits option.splits prod.splits)
  ultimately show ?thesis using fold by blast
qed

text \<open>
  C5: a node that is offline is defended. Let its agent upload the backups of its channels to a
  tower with files, the upload for one channel get through, and the tower hold nothing as new for it.
  If the scan then finds a close of that channel with a nonce below the node's commitment, before the
  deadline, and the calls of the client go through, then the tower sends the very penalty the node
  itself would have sent, with a state that the counterparty signed.
\<close>

theorem offline_node_is_defended:
  assumes "\<And>x. length (ee_keccak env x) = 32" "\<forall>(ch, commit, sig) \<in> set chans. length (ch_channelID ch) = 32"
    "distinct (map (ch_channelID \<circ> fst) chans)"
    and node: "evmBackups env chans = Some backups" "(ch, commit, commitSig) \<in> set chans"
    "evmPenalizeTx env ch commit commitSig = Inr call"
    and upload: "agentOk fileGet dir sent" "snapshot (remotePut filePut) io (Some backups) (dir, sent) = (dir', sent')"
    "\<And>b. jb_channelID b = ch_channelID ch \<Longrightarrow> io b = (True, True, True)"
    "\<And>d. fileGet (ch_channelID ch) dir = Some d \<Longrightarrow> jb_nonce d < dc_commitHeight commit"
    and tower: "scan unpack cfg pl l = (l', Some (f, t), attempts)" "pl_get pl = (\<lambda>c. fileGet c dir')"
    "pl_logs pl f t = Some logs" "ch_channelID ch \<notin> lo_done l" "\<And>b. answers (pl_rpc pl b)"
    and close: "lg \<in> set logs" "2 \<le> length (lg_topics lg)" "lg_topics lg ! 1 = ch_channelID ch"
    "unpackUnilateralClose unpack (lg_data lg) = Some (broadcaster, nonce, expiry)" "nonce < dc_commitHeight commit"
    "expiry = 0 \<or> pl_now pl < expiry"
  shows "\<exists>lg' b tx su sig65. (lg', b, Some tx, True) \<in> set attempts \<and> px_channelID tx = ch_channelID ch \<and>
    px_call tx = call \<and> call = EvmCallPenalize (dc_commitHeight commit) (su_balanceA su) (su_balanceB su) (su_htlcsHash su) sig65 \<and>
    evmStateUpdateFromDiskCommit (ee_keccak env) (ee_sort env) (ee_params env) ch commit = Some su \<and>
    coSigned env su sig65 (ch_theirAddr ch) \<and> ch_channelID ch \<in> lo_done l'"
proof -
  obtain b where fields: "evmJusticeBackupFields env (ch, commit, commitSig) = Inr b"
    using node(3) by (auto simp: evmPenalizeTx_def evmJusticeBackupFields_def split: option.splits sum.splits)
  have l32: "length (ch_channelID ch) = 32" using assms(2) node(2) by auto
  obtain su where su: "evmStateUpdateFromDiskCommit (ee_keccak env) (ee_sort env) (ee_params env) ch commit = Some su"
    "coSigned env su (jb_counterpartySig b) (ch_theirAddr ch)" "storableBackup b"
    "b = \<lparr>jb_channelID = ch_channelID ch, jb_nonce = dc_commitHeight commit, jb_balanceA = Some (su_balanceA su),
          jb_balanceB = Some (su_balanceB su), jb_htlcsHash = su_htlcsHash su,
          jb_counterpartySig = jb_counterpartySig b\<rparr>"
    "evmPenalizeTx env ch commit commitSig
       = Inr (EvmCallPenalize (jb_nonce b) (su_balanceA su) (su_balanceB su) (jb_htlcsHash b) (jb_counterpartySig b))"
    by (rule node_backup [OF fields assms(1) l32]) (rule that, assumption+)
  define c h sigB where "c = ch_channelID ch" and "h = dc_commitHeight commit" and "sigB = jb_counterpartySig b"
  have b: "jb_channelID b = c" "jb_nonce b = h" "jb_balanceA b = Some (su_balanceA su)" "jb_balanceB b = Some (su_balanceB su)"
    "jb_htlcsHash b = su_htlcsHash su"
    using arg_cong [OF su(4), of jb_channelID] arg_cong [OF su(4), of jb_nonce] arg_cong [OF su(4), of jb_balanceA]
      arg_cong [OF su(4), of jb_balanceB] arg_cong [OF su(4), of jb_htlcsHash] by (simp_all add: c_def h_def)
  note all = node_backups [OF node(1) assms(3,1,2)]
  have "newer b (fileGet c dir)" using upload(4) b(2) by (auto simp: newer_def c_def h_def split: option.splits)
  moreover have "snd (remotePut filePut (io b) b dir) = None" for dir
    using upload(3) [of b] accepted_uploads [OF su(3)] b(1) c_def by simp
  ultimately have got: "fileGet c dir' = Some b"
    using file_server.remote.snapshot_stores [OF all(1) upload(1) all(2) upload(2) all(3) [OF node(2) fields]] b(1) by simp
  obtain tx where tx: "penalize (pl_rpc pl b) b = (Some tx, True)" "px_channelID tx = jb_channelID b"
    "px_call tx = EvmCallPenalize (jb_nonce b) (the (jb_balanceA b)) (the (jb_balanceB b)) (jb_htlcsHash b) (jb_counterpartySig b)"
    by (rule penalize_answers [OF su(3) tower(5)])
  have br: "breachLog unpack pl c b lg"
    using close got b(2) tower(2) by (simp add: breachLog_def c_def h_def)
  obtain l0 l1 where f: "fold (handleClose unpack pl) logs (l0, []) = (l1, attempts)" "lo_done l0 = lo_done l" "lo_done l' = lo_done l1"
    using scan_ranged [OF tower(1,3)] that by blast
  have "c \<in> lo_done l1 \<and> (\<exists>lg' \<in> set logs. (lg', b, Some tx, True) \<in> set attempts)"
    by (rule handleCloses_penalize [OF f(1) close(1) br _ tx(1)]) (use tower(4) f(2) c_def in simp)
  then obtain lg' where "(lg', b, Some tx, True) \<in> set attempts" "ch_channelID ch \<in> lo_done l'"
    using f(3) c_def by blast
  moreover have "px_call tx = call" "call = EvmCallPenalize h (su_balanceA su) (su_balanceB su) (su_htlcsHash su) sigB"
    using tx(3) su(5) node(3) b sigB_def by simp_all
  ultimately show ?thesis
    using tx(2) su(1,2) b(1) unfolding c_def h_def sigB_def
    by (intro exI [of _ lg'] exI [of _ b] exI [of _ tx] exI [of _ su] exI [of _ "jb_counterpartySig b"]) simp
qed

section \<open>Only breaches, and only once\<close>

definition channelOf :: "attempt \<Rightarrow> byte list" where
  "channelOf a = lg_topics (fst a) ! 1"

definition succeeded :: "attempt \<Rightarrow> bool" where
  "succeeded a = snd (snd (snd a))"

text \<open>
  What a sequence of attempts of one lookout looks like: each answers a breach seen in one of the polls,
  with the outcome of the penalty, and the successful ones are of different channels, which are those
  added to the done set.
\<close>

definition sound :: "unpack_fn \<Rightarrow> tower_poll set \<Rightarrow> lookout \<Rightarrow> attempt list \<Rightarrow> lookout \<Rightarrow> bool" where
  "sound unpack P l attempts l' \<longleftrightarrow>
     (\<forall>a \<in> set attempts. \<exists>pl \<in> P. breachLog unpack pl (channelOf a) (fst (snd a)) (fst a) \<and>
        snd (snd a) = penalize (pl_rpc pl (fst (snd a))) (fst (snd a))) \<and>
     distinct (map channelOf (filter succeeded attempts)) \<and>
     channelOf ` set (filter succeeded attempts) \<inter> lo_done l = {} \<and>
     lo_done l' = lo_done l \<union> channelOf ` set (filter succeeded attempts)"

lemma sound_append:
  assumes "sound unpack P l xs l1" "sound unpack Q l1 ys l2"
  shows "sound unpack (P \<union> Q) l (xs @ ys) l2"
  using assms unfolding sound_def by (auto 0 3)

lemma sound_same: "lo_done l = lo_done l' \<Longrightarrow> sound unpack P l [] l'"
  by (simp add: sound_def)

lemma sound_done: "sound unpack P l xs l' \<Longrightarrow> lo_done l = lo_done k \<Longrightarrow> lo_done l' = lo_done k' \<Longrightarrow> sound unpack P k xs k'"
  by (simp add: sound_def)

lemma sound_mono: "sound unpack P l xs l' \<Longrightarrow> P \<subseteq> Q \<Longrightarrow> sound unpack Q l xs l'"
  unfolding sound_def by blast

lemma handleClose_sound:
  assumes "handleClose unpack pl lg (l, attempts) = (l', attempts')"
  shows "\<exists>new. attempts' = attempts @ new \<and> sound unpack {pl} l new l'"
proof (cases rule: handleClose_step [OF assms])
  case 1
  then show ?thesis by (intro exI [of _ "[]"]) (simp add: sound_same)
next
  case (2 c b tx ok)
  have "lg_topics lg ! 1 = c" using 2(1) by (simp add: breachLog_def)
  then show ?thesis
    using 2 by (intro exI [of _ "[(lg, b, tx, ok)]"]) (simp add: sound_def channelOf_def succeeded_def)
qed

lemma handleCloses_sound:
  assumes "fold (handleClose unpack pl) logs (l, attempts) = (l', attempts')"
  shows "\<exists>new. attempts' = attempts @ new \<and> sound unpack {pl} l new l'"
  using assms
proof (induction logs arbitrary: l attempts)
  case Nil
  then show ?case by (intro exI [of _ "[]"]) (simp add: sound_same)
next
  case (Cons lg logs)
  obtain l1 at where h: "handleClose unpack pl lg (l, attempts) = (l1, at)" by fastforce
  obtain new where n: "at = attempts @ new" "sound unpack {pl} l new l1" using handleClose_sound [OF h] by blast
  obtain new' where n': "attempts' = at @ new'" "sound unpack {pl} l1 new' l'" using Cons.IH [of l1 at] Cons.prems h by auto
  have "sound unpack ({pl} \<union> {pl}) l (new @ new') l'" by (rule sound_append [OF n(2) n'(2)])
  then show ?case using n(1) n'(1) by auto
qed

lemma scan_sound:
  assumes "scan unpack cfg pl l = (l', r, attempts)"
  shows "sound unpack {pl} l attempts l'"
proof (cases r)
  case None
  then have "attempts = [] \<and> lo_done l' = lo_done l"
    using assms by (auto simp: scan_def Let_def split: option.splits if_splits prod.splits)
  then show ?thesis by (simp add: sound_same)
next
  case (Some range)
  then obtain f t where r: "r = Some (f, t)" by (cases range) auto
  then obtain logs where "pl_logs pl f t = Some logs"
    using assms by (auto simp: scan_def Let_def split: option.splits if_splits prod.splits)
  from scan_ranged [OF assms [unfolded r] this] obtain l0 l1 where
    f: "fold (handleClose unpack pl) logs (l0, []) = (l1, attempts)" "lo_done l0 = lo_done l" "lo_done l' = lo_done l1" by blast
  then show ?thesis using handleCloses_sound [OF f(1)] sound_done [of unpack "{pl}" l0 attempts l1 l l'] by auto
qed

lemma scans_sound:
  "scans unpack cfg pls l = (l', ranges, attempts) \<Longrightarrow> sound unpack (set pls) l attempts l'"
proof (induction pls arbitrary: l l' ranges attempts)
  case Nil
  then show ?case by (simp add: sound_same)
next
  case (Cons pl pls)
  obtain l1 r at where s: "scan unpack cfg pl l = (l1, r, at)" by (metis surj_pair)
  obtain l2 rs at' where ss: "scans unpack cfg pls l1 = (l2, rs, at')" by (metis surj_pair)
  have "sound unpack (set pls) l1 at' l2" by (rule Cons.IH [OF ss])
  from sound_append [OF scan_sound [OF s] this] show ?case using Cons.prems s ss by simp
qed

text \<open>The transaction submits exactly the state of a valid backup.\<close>

definition carriesBackup :: "penalize_tx \<Rightarrow> justice_backup \<Rightarrow> bool" where
  "carriesBackup tx b \<longleftrightarrow> px_channelID tx = jb_channelID b \<and> length (jb_counterpartySig b) = 65 \<and>
     (\<exists>balA balB. jb_balanceA b = Some balA \<and> jb_balanceB b = Some balB \<and>
        px_call tx = EvmCallPenalize (jb_nonce b) balA balB (jb_htlcsHash b) (jb_counterpartySig b))"

lemma penalize_carries: "penalize rpc b = (Some tx, ok) \<Longrightarrow> carriesBackup tx b"
  by (auto simp: carriesBackup_def penalize_def validate_def split: if_splits option.splits)

text \<open>
  C23: the tower penalizes only breaches, and each channel at most once. In any run of polls every
  attempt answers a close event seen in one of them whose nonce is below that of the backup the store
  held for its channel, before the deadline; a transaction that is sent carries that backup; and no
  channel is penalized again after a success.
\<close>

theorem tower_penalizes_only_breaches:
  assumes "scans unpack cfg pls newLookout = (l', ranges, attempts)"
  shows "(\<forall>lg b tx ok. (lg, b, tx, ok) \<in> set attempts \<longrightarrow>
      (\<exists>pl \<in> set pls. breachLog unpack pl (lg_topics lg ! 1) b lg \<and> penalize (pl_rpc pl b) b = (tx, ok)) \<and>
      (\<forall>t. tx = Some t \<longrightarrow> carriesBackup t b)) \<and>
    distinct (map channelOf (filter succeeded attempts)) \<and> lo_done l' = channelOf ` set (filter succeeded attempts)"
proof (intro conjI allI impI)
  have s: "sound unpack (set pls) newLookout attempts l'" by (rule scans_sound [OF assms])
  then show "distinct (map channelOf (filter succeeded attempts))" "lo_done l' = channelOf ` set (filter succeeded attempts)"
    by (simp_all add: sound_def newLookout_def)
  fix lg b tx ok
  assume "(lg, b, tx, ok) \<in> set attempts"
  with s obtain pl where pl: "pl \<in> set pls" "breachLog unpack pl (lg_topics lg ! 1) b lg" "penalize (pl_rpc pl b) b = (tx, ok)"
    by (force simp: sound_def channelOf_def)
  then show "\<exists>pl \<in> set pls. breachLog unpack pl (lg_topics lg ! 1) b lg \<and> penalize (pl_rpc pl b) b = (tx, ok)" by blast
  show "carriesBackup t b" if "tx = Some t" for t using pl(3) that penalize_carries by blast
qed

text \<open>
  The cursor moves on whether or not the penalty went through, so a penalty that failed is not tried
  again: no later scan of this run of the tower looks at the block of the close.
\<close>

lemma contiguous_from: "contiguous c rs c' \<Longrightarrow> (f, t) \<in> set rs \<Longrightarrow> c \<le> f"
proof (induction c rs c' rule: contiguous.induct)
  case (2 c f0 t0 rs c')
  then have "unat (t0 + 1) = unat t0 + 1" by (auto simp: unat_Suc_if word_less_nat_alt)
  then show ?case using 2 by (auto simp: word_le_nat_alt)
qed simp

lemma failed_penalty_is_lost:
  assumes "scan unpack cfg pl l = (l1, Some (f, t), [(lg, b, tx, False)])" "scans unpack cfg pls l1 = (l2, ranges, attempts)"
    and "poll_heights cfg (pl # pls)" "(f', t') \<in> set ranges"
  shows "t < f'"
proof -
  have h: "poll_heights cfg pls" "scanWindow cfg < 2 ^ 62" "\<forall>best. pl_tip pl = Some best \<longrightarrow> best < 2 ^ 62"
    using assms(3) by (auto simp: poll_heights_def)
  show ?thesis
  proof (cases rule: scan_cases [OF assms(1) h(2,3)])
    case (3 best t0 logs la)
    have t0: "t0 = t" using 3(2) by simp
    have "lo_cursorSet la" using handleCloses_cursor [OF 3(4)] by simp
    then have "contiguous (t + 1) ranges (lo_cursor l2)"
      using scans_contiguous [OF h(1) assms(2)] 3(5) t0 by (simp add: startOf_def)
    moreover have "t < - 1" using 3(8) t0 by (rule_tac less_trans [of t "2 ^ 62"]) simp_all
    ultimately have "t + 1 \<le> f'" "t < t + 1" using contiguous_from [OF _ assms(4)] next_height [of t] by blast+
    then show ?thesis by simp
  qed simp_all
qed

section \<open>Examples\<close>

definition demo_lookout_cfg :: lookout_cfg where
  "demo_lookout_cfg = \<lparr>lo_fromBlock = 3, lo_windowSize = 4, lo_reorgDepth = 2\<rparr>"

definition demo_rpc :: evm_rpc where
  "demo_rpc = \<lparr>rpc_packs = True, rpc_chainID = True, rpc_pendingNonce = Some 7, rpc_suggestGasPrice = Some 1000,
     rpc_signs = True, rpc_sends = True\<rparr>"

definition demo_unpack :: unpack_fn where
  "demo_unpack data = (if length data = 160 then Some (replicate 20 2, 4, 900) else None)"

definition demo_close :: "byte list \<Rightarrow> close_log" where
  "demo_close c = \<lparr>lg_topics = [replicate 32 0, c], lg_data = replicate 160 0\<rparr>"

definition demo_poll :: "close_log list \<Rightarrow> (byte list \<Rightarrow> justice_backup option) \<Rightarrow> tower_poll" where
  "demo_poll logs get = \<lparr>pl_tip = Some 12, pl_logs = (\<lambda>f t. Some (if f \<le> 5 \<and> 5 \<le> t then logs else [])), pl_now = 800,
     pl_get = get, pl_rpc = (\<lambda>b. demo_rpc)\<rparr>"

lemma demo_scan:
  "scan demo_unpack demo_lookout_cfg (demo_poll logs get) newLookout =
     (let (l', attempts) = fold (handleClose demo_unpack (demo_poll logs get)) logs
            (newLookout\<lparr>lo_cursor := 3, lo_cursorSet := True\<rparr>, [])
      in (l'\<lparr>lo_cursor := 7\<rparr>, Some (3, 6), attempts))"
  by (simp add: scan_def demo_poll_def demo_lookout_cfg_def newLookout_def anchor_def safeTip_def scanWindow_def Let_def)

lemma demo_scan_next:
  "lo_cursor l = 7 \<Longrightarrow> lo_cursorSet l \<Longrightarrow>
     scan demo_unpack demo_lookout_cfg (demo_poll logs get) l = (l\<lparr>lo_cursor := 11\<rparr>, Some (7, 10), [])"
  by (simp add: scan_def demo_poll_def demo_lookout_cfg_def safeTip_def scanWindow_def Let_def)

lemma demo_heights: "poll_heights demo_lookout_cfg [demo_poll logs get, demo_poll logs' get']"
  by (simp add: poll_heights_def demo_lookout_cfg_def demo_poll_def scanWindow_def)

theorem scan_covers_chain_witness:
  "\<exists>l' ranges attempts.
     scans demo_unpack demo_lookout_cfg [demo_poll [] Map.empty, demo_poll [] Map.empty] newLookout = (l', ranges, attempts) \<and>
     lo_cursor l' = 11 \<and> length (filter (\<lambda>(f, t). f \<le> 7 \<and> 7 \<le> t) ranges) = 1"
proof -
  obtain l' ranges attempts where
    s: "scans demo_unpack demo_lookout_cfg [demo_poll [] Map.empty, demo_poll [] Map.empty] newLookout = (l', ranges, attempts)"
    by (metis surj_pair)
  have c: "lo_cursor l' = 11"
    using s by (auto simp: demo_scan demo_scan_next)
  have "firstTip [demo_poll [] Map.empty, demo_poll [] Map.empty] = Some 12" by (simp add: demo_poll_def)
  moreover have "anchor demo_lookout_cfg 12 = 3" by (simp add: anchor_def demo_lookout_cfg_def)
  ultimately have "length (filter (\<lambda>(f, t). f \<le> 7 \<and> 7 \<le> t) ranges) = 1"
    using scan_covers_chain [OF demo_heights s] c by simp
  then show ?thesis using s c by blast
qed

theorem tower_penalizes_only_breaches_witness:
  "\<exists>l' ranges attempts.
     scans demo_unpack demo_lookout_cfg
       [demo_poll [demo_close (replicate 32 3), demo_close (replicate 32 3)] [replicate 32 3 \<mapsto> demo_backup 3 17]] newLookout
       = (l', ranges, attempts) \<and>
     length (filter succeeded attempts) = 1 \<and> lo_done l' = {replicate 32 3}"
proof -
  let ?pl = "demo_poll [demo_close (replicate 32 3), demo_close (replicate 32 3)] [replicate 32 3 \<mapsto> demo_backup 3 17]"
  obtain l' ranges attempts where
    s: "scans demo_unpack demo_lookout_cfg [?pl] newLookout = (l', ranges, attempts)" by (metis surj_pair)
  have "map channelOf (filter succeeded attempts) = [replicate 32 3]"
    using s unfolding scans.simps demo_scan by (auto simp: Let_def handleClose_def demo_poll_def demo_close_def newLookout_def unpackUnilateralClose_def
        demo_unpack_def demo_backup_def shouldPenalize_def penalize_def validate_def demo_rpc_def channelOf_def succeeded_def)
  moreover from this have "channelOf ` set (filter succeeded attempts) = {replicate 32 3}"
    by (metis list.set(1) list.simps(15) set_map)
  ultimately have "length (filter succeeded attempts) = 1" "lo_done l' = {replicate 32 3}"
    using tower_penalizes_only_breaches [OF s] by (metis One_nat_def length_Cons length_map list.size(3), simp)
  then show ?thesis using s by blast
qed

theorem node_backups_wellformed_witness:
  "\<exists>b data su sig65. evmBackups demo_evm_env [(demo_evm_channel True, toDiskCommit (demo_evm_view True), [])] = Some [b] \<and>
     encodeBackup b = Inr data \<and> jb_channelID b = replicate 32 9 \<and>
     retainedBy demo_evm_env (demo_evm_channel True, toDiskCommit (demo_evm_view True), []) su sig65 \<and>
     jb_balanceA b = Some (su_balanceA su) \<and> jb_balanceB b = Some (su_balanceB su)"
proof -
  let ?c = "(demo_evm_channel True, toDiskCommit (demo_evm_view True), [])"
  obtain b where f: "evmJusticeBackupFields demo_evm_env ?c = Inr b"
    using demo_penalty by (auto simp: evmPenalizeTx_def evmJusticeBackupFields_def split: option.splits sum.splits)
  then have bs: "evmBackups demo_evm_env [?c] = Some [b]" by (simp add: evmBackups_def)
  have d: "filter (defensible demo_evm_env) [?c] = [?c]" using f by (simp add: defensible_fields)
  have id: "ch_channelID (demo_evm_channel True) = replicate 32 9" by (simp add: demo_evm_channel_def)
  have k: "length (ee_keccak demo_evm_env x) = 32" for x by (simp add: demo_evm_env_def demo_hash_def)
  obtain su sig65 where "\<exists>data. encodeBackup b = Inr data" "retainedBy demo_evm_env ?c su sig65"
    "b = \<lparr>jb_channelID = ch_channelID (demo_evm_channel True), jb_nonce = dc_commitHeight (toDiskCommit (demo_evm_view True)),
          jb_balanceA = Some (su_balanceA su), jb_balanceB = Some (su_balanceB su), jb_htlcsHash = su_htlcsHash su,
          jb_counterpartySig = sig65\<rparr>"
    using node_backups_wellformed [of "[?c]", OF _ k, THEN conjunct2, rule_format, OF _ _ bs, THEN conjunct2]
    unfolding d by (auto simp: id)
  then show ?thesis using bs id
    by (metis justice_backup.select_convs(1,3,4))
qed

theorem offline_node_is_defended_witness:
  "\<exists>backups dir' sent' l' attempts lg b tx.
     evmBackups demo_evm_env [(demo_evm_channel True, toDiskCommit (demo_evm_view True), [])] = Some backups \<and>
     snapshot (remotePut filePut) (\<lambda>b. (True, True, True)) (Some backups) (Map.empty, Map.empty) = (dir', sent') \<and>
     scan demo_unpack demo_lookout_cfg (demo_poll [demo_close (replicate 32 9)] (\<lambda>c. fileGet c dir')) newLookout
       = (l', Some (3, 6), attempts) \<and>
     (lg, b, Some tx, True) \<in> set attempts \<and> replicate 32 9 \<in> lo_done l'"
proof -
  let ?ch = "demo_evm_channel True" and ?commit = "toDiskCommit (demo_evm_view True)"
  obtain call where call: "evmPenalizeTx demo_evm_env ?ch ?commit [] = Inr call" using demo_penalty by blast
  then obtain fb where "evmJusticeBackupFields demo_evm_env (?ch, ?commit, []) = Inr fb"
    by (auto simp: evmPenalizeTx_def evmJusticeBackupFields_def split: option.splits sum.splits)
  then have bs: "evmBackups demo_evm_env [(?ch, ?commit, [])] = Some [fb]" by (simp add: evmBackups_def)
  obtain dir' sent' where sn: "snapshot (remotePut filePut) (\<lambda>b. (True, True, True)) (Some [fb]) (Map.empty, Map.empty) = (dir', sent')"
    by fastforce
  let ?pl = "demo_poll [demo_close (replicate 32 9)] (\<lambda>c. fileGet c dir')"
  obtain l1 attempts where f: "fold (handleClose demo_unpack ?pl) [demo_close (replicate 32 9)]
      (newLookout\<lparr>lo_cursor := 3, lo_cursorSet := True\<rparr>, []) = (l1, attempts)" by fastforce
  define l' where "l' = l1\<lparr>lo_cursor := 7\<rparr>"
  have sc: "scan demo_unpack demo_lookout_cfg ?pl newLookout = (l', Some (3, 6), attempts)"
    unfolding demo_scan f Let_def prod.case l'_def ..
  have id: "ch_channelID ?ch = replicate 32 9" by (simp add: demo_evm_channel_def)
  have "length (ee_keccak demo_evm_env x) = 32" for x by (simp add: demo_evm_env_def demo_hash_def)
  moreover have "\<forall>(ch, commit, sig) \<in> set [(?ch, ?commit, [] :: byte list)]. length (ch_channelID ch) = 32" by (simp add: id)
  moreover have "unpackUnilateralClose demo_unpack (lg_data (demo_close (replicate 32 9))) = Some (replicate 20 2, 4, 900)"
    by (simp add: unpackUnilateralClose_def demo_unpack_def demo_close_def)
  moreover have "dc_commitHeight ?commit = 5" by (simp add: toDiskCommit_def demo_evm_view_def)
  moreover have "pl_logs ?pl 3 6 = Some [demo_close (replicate 32 9)]" "pl_get ?pl = (\<lambda>c. fileGet c dir')" "pl_now ?pl = 800"
    "answers (pl_rpc ?pl b)" for b
    by (simp_all add: demo_poll_def answers_def demo_rpc_def)
  moreover have "agentOk fileGet Map.empty Map.empty" by (simp add: agentOk_def)
  moreover have "fileGet c Map.empty = None" for c by (simp add: fileGet_def readBackup_def)
  moreover have "2 \<le> length (lg_topics (demo_close (replicate 32 9)))" "lg_topics (demo_close (replicate 32 9)) ! 1 = replicate 32 9"
    "lo_done newLookout = {}"
    by (simp_all add: demo_close_def newLookout_def)
  ultimately have "\<exists>lg b tx. (lg, b, Some tx, True) \<in> set attempts \<and> replicate 32 9 \<in> lo_done l'"
    using offline_node_is_defended [of demo_evm_env "[(?ch, ?commit, [])]" "[fb]" ?ch ?commit "[]" call Map.empty Map.empty
        "\<lambda>b. (True, True, True)" dir' sent' demo_unpack demo_lookout_cfg ?pl newLookout l' 3 6 attempts
        "[demo_close (replicate 32 9)]" "demo_close (replicate 32 9)" "replicate 20 2" 4 900] bs call sn sc id
    by fastforce
  then show ?thesis using bs sn sc by blast
qed

end
