(* ===== verification/Spec2Isabelle.thy ===== *)
theory Spec2Isabelle
  imports Range_Index Shachain Circuit_Channel Quiescer_Link Feature_Manager Invoice_Pay Evm_Settler Evm_Tower
begin

text \<open>
  A verification development for the Lightning daemon of this repository, \<open>lnd\<close> extended with payment
  channels on account-based (EVM) chains.

  \<^bold>\<open>The program.\<close> A payment channel is a pair of signed \<^emph>\<open>commitments\<close> that two peers replace by a
  protocol of update messages, signatures and revocations (\<open>lnwallet\<close>). A revocation hands over a
  secret of a hash chain, which the peer stores compactly (\<open>shachain\<close>). The switch connects channels
  into routes: a \<^emph>\<open>circuit\<close> remembers on which incoming HTLC an outgoing one was forwarded
  (\<open>htlcswitch/circuit_map.go\<close>), and a link drives one channel, with a quiescence protocol to pause it
  (\<open>htlcswitch/quiescer.go\<close>). HTLCs that end at this node are decided by the invoice registry
  (\<open>invoices\<close>), over the invoice database (\<open>channeldb/invoices.go\<close>) and the secret shares of
  multi-path payments (\<open>amp\<close>). On an EVM chain a commitment is a \<^emph>\<open>state update\<close>, a tuple with a Merkle
  root of the HTLCs that both peers sign and that a contract verifies (\<open>input/evm_*.go\<close>,
  \<open>lnwallet/evm_commitment.go\<close>); the node closes such a channel and settles its HTLCs with contract
  calls (\<open>contractcourt/evm_*.go\<close>), and a watchtower (\<open>watchtower/evmtower\<close>) holds encrypted-in-transit
  backups of the states and answers the publication of an old one while the node is offline. The
  Bitcoin watchtower client counts acknowledged updates in a range index (\<open>watchtower/wtdb\<close>).

  \<^bold>\<open>Theories and the code they model.\<close> Definitions carry the names of the Go functions; a method's
  receiver is an argument, and an operation returns the state it leaves, also when it fails.

  \<^item> \<open>Prelude\<close>: machine words, wrapped \<open>int64\<close> arithmetic (\<open>i64\<close>), Go's division, big-endian codecs.
  \<^item> \<open>Range_Index\<close>: \<open>watchtower/wtdb/range_index.go\<close>, the slice of ranges, its binary searches and the
    key-value store it mirrors (locale \<open>kv_store\<close>).
  \<^item> \<open>Sha256\<close>, \<open>Shachain\<close>: \<open>crypto/sha256\<close> and \<open>shachain/*.go\<close>, the producer and the store of secrets.
  \<^item> \<open>Channel_Types\<close>, \<open>Update_Log\<close>: \<open>lntypes/channel_party.go\<close>, amounts, fees and weights, the payment
    descriptors and the update logs of \<open>lnwallet/update_log.go\<close> over an explicit heap.
  \<^item> \<open>Channel\<close>, \<open>Channel_Ops\<close>, \<open>Channel_Chain\<close>: the state machine of \<open>lnwallet/channel.go\<close>, with
    \<open>lnwallet/commitment.go\<close> and the database updates of \<open>channeldb/channel.go\<close>: evaluating a view,
    \<open>validateCommitmentSanity\<close>, adding, settling and failing HTLCs, fee updates, and signing,
    receiving, revoking and processing a revocation. \<open>Channel_Restore\<close>, \<open>Channel_Restart\<close>: loading a channel
    from disk, and what its logs hold then; \<open>Channel_Sync\<close>: \<open>channel_reestablish\<close>.
  \<^item> \<open>Channel_View\<close>, \<open>Channel_Inv\<close>, \<open>Channel_Run\<close>, \<open>Channel_Messages\<close>: lemmas about them.
  \<^item> \<open>Circuit\<close>, \<open>Circuit_Map\<close>: \<open>htlcswitch/circuit.go\<close> and \<open>circuit_map.go\<close>; \<open>Circuit_Inv\<close>,
    \<open>Circuit_Run\<close>, \<open>Circuit_Restart\<close>: lemmas, runs, and restarts with crashes between the memory and
    the database update. \<open>Circuit_Channel\<close>: a starting link trims keystones by its channel's counter.
  \<^item> \<open>Quiescer\<close>, \<open>Quiescer_Pair\<close>, \<open>Quiescer_Link\<close>: \<open>htlcswitch/quiescer.go\<close>, two connected quiescers,
    and the guards of \<open>htlcswitch/link.go\<close> that couple them to the channel.
  \<^item> \<open>Feature\<close>: \<open>lnwire/features.go\<close>, \<open>feature/deps.go\<close> and \<open>required.go\<close>; \<open>Feature_Manager\<close>: \<open>feature/set.go\<close>,
    \<open>default_sets.go\<close> and \<open>manager.go\<close>, the node's feature sets.
  \<^item> \<open>Amp\<close>: \<open>amp/*.go\<close>, the shares and the tracker of a sender. \<open>Invoice\<close>: \<open>invoices/invoices.go\<close>,
    \<open>update_invoice.go\<close> and the updater of \<open>channeldb/invoices.go\<close>; \<open>Invoice_Store\<close>: the operations of that
    file on its buckets; \<open>Invoice_Registry\<close>: \<open>invoices/update.go\<close>, \<open>invoiceregistry.go\<close> and the resolutions.
    \<open>Invoice_Inv\<close>, \<open>Invoice_Run\<close>, \<open>Invoice_Pay\<close>: the invariant, runs of the registry, and what they guarantee.
  \<^item> \<open>Evm_Encoding\<close>, \<open>Evm_Merkle\<close>, \<open>Evm_Commitment\<close>: \<open>input/evm_channel.go\<close>, \<open>input/evm_merkle.go\<close> and
    \<open>lnwallet/evm_commitment.go\<close>: ABI words and EIP-712 digests, the HTLC tree, and the state update a
    commitment of \<open>Channel\<close> is turned into.
  \<^item> \<open>Evm_Close\<close>, \<open>Evm_Settler\<close>: \<open>contractcourt/evm_close_planner.go\<close>, \<open>evm_contract.go\<close> and
    \<open>evm_settler.go\<close>: the calls of a close and the loop that settles what is left.
  \<^item> \<open>Evm_Backup\<close>, \<open>Evm_Tower\<close>: the stores, agent, client, server, lookout and penalizer of
    \<open>watchtower/evmtower\<close>, with \<open>evm_watchtower.go\<close>.

  \<^bold>\<open>What the lemmas show.\<close> Every data structure has an invariant that all its operations keep
  (\<open>ri_wf\<close>, the shachain store, \<open>ul_wf\<close> and the channel's invariants, the circuit map's, the
  quiescer's, the stores' laws). On top of them: the range index and the
  stores refine sets and maps; a stored secret is the one the peer derived; the value of every
  commitment of every run is the channel's value, also for the EVM state update and the calls of a
  close; memory and disk agree, and a restart brings back the commitments, the revocations and, exactly
  if the stored messages fit them, the logs that were stored; the re-establishment sends
  exactly what is missing; a circuit is opened and closed at most once, also over crashes; in a
  quiescent channel nothing changes but for the resolutions of held HTLCs, and the peers agree on the
  initiator unless a request comes after the peer's stfu; invoices are settled by HTLCs that pay them in
  full, and the parts of an AMP payment give its receiver the sender's preimages; the node's feature
  sets stay closed under dependencies and are read back from their encodings; the digest of a state
  update determines the state; both peers sign the same state; the settler acts only when an action is due
  and finishes; the tower scans every block once, penalises every breach it has a newer backup for
  and nothing else.

  \<^bold>\<open>Interfaces.\<close> The locales state what one component relies on in another, and each is interpreted
  on the model of the code that provides it: the key-value store of the range index, the two
  quiescers, and the tower's stores (in memory, in files, and the remote one, which is the server over
  either) that the agent and the lookout use.

  \<^bold>\<open>Bounds and fuel.\<close> Words have Go's widths. \<open>log_room\<close> and \<open>height_room\<close> say that a 64-bit counter
  is not about to wrap around, which takes 2^64 updates. Loops that need not return
  (the binary searches) are \<open>partial_function\<close>s, and that they return is a theorem. The lookout's scan
  has a theorem for heights below 2^62. No fuel is used; recursions that are not structural
  have a measure.

  \<^bold>\<open>Parameters.\<close> Code outside the repository is an argument: \<open>sha\<close> and \<open>keccak\<close> (of which theorems ask
  that results have 32 bytes or, for the digest and the proofs of inclusion, that two given inputs do
  not collide), \<open>sort.Slice\<close> (some permutation that is ordered), signing, key recovery, the
  ABI packing and RPC clients of go-ethereum, the transactions of \<open>btcd\<close>, and the outside's answers at
  each step of the settler and of the lookout.

  Where Go ranges over a map the order of the keys is an argument, and theorems hold for every order.

  \<^bold>\<open>Not modelled.\<close> Script and transaction building, musig2 nonces, auxiliary (custom) leaves and the
  locks of the code: each operation holds its mutex from start to end. Of the link only what touches
  the quiescer and the circuits' trimming. The rest of the daemon (RPC server, gossip, graph
  and path finding, funding, payments, sweeper, the Bitcoin watchtower but for its range index, and
  the Sui channel) is listed in the manifest with reasons.
\<close>

end
